(* ===== verification/Hw_Prelude.thy ===== *)
theory Hw_Prelude
  imports Main "HOL-Library.Word"
begin

text \<open>
  The prelude of the development: the machine types of the C sources, the ways a run of the
  code can go wrong, the bind of that result type, and the lemmas on circular byte arrays that
  the multiplexer's receive buffer and the audio ring buffer share.  An array in memory is a
  list; \<open>memcpy\<close> and \<open>memset\<close> into it are \<open>blit\<close>; what a circular buffer holds is
  \<open>ring_view\<close>.
\<close>

unbundle bit_operations_syntax

type_synonym u8 = "8 word"
type_synonym u16 = "16 word"
type_synonym u32 = "32 word"
type_synonym bytes = "u8 list"

section \<open>Results\<close>

text \<open>
  What a C function does besides returning: it stops the process (\<open>Assert\<close>, with the code the
  source passes, or \<open>Exit\<close> for \<open>exit (0)\<close>), it does something the C standard leaves undefined (a read or write outside an
  object, a dereference of \<open>NULL\<close>, of freed or of uninitialised memory), or it never returns.  \<open>RuleBroken\<close> is the
  result of no C function: it marks a run that is stopped because a caller breaks a rule of an interface.
\<close>

datatype fault =
    Assert nat
  | Exit
  | OutOfBounds
  | NullDeref
  | UseAfterFree
  | Hang
  | RuleBroken

type_synonym 'a res = "fault + 'a"

fun bindE :: "'a res \<Rightarrow> ('a \<Rightarrow> 'b res) \<Rightarrow> 'b res" where
  "bindE (Inl e) f = Inl e"
| "bindE (Inr x) f = f x"

named_theorems res "equations and splits of the result type"

lemma bindE_eq_Inr [res]: "bindE r f = Inr y \<longleftrightarrow> (\<exists>x. r = Inr x \<and> f x = Inr y)"
  by (cases r) auto

lemma bindE_eq_Inl [res]: "bindE r f = Inl e \<longleftrightarrow> r = Inl e \<or> (\<exists>x. r = Inr x \<and> f x = Inl e)"
  by (cases r) auto

lemma bindE_assoc: "bindE (bindE r f) g = bindE r (\<lambda>x. bindE (f x) g)"
  by (cases r) auto

lemma bindE_cong [fundef_cong]:
  "r = r' \<Longrightarrow> (\<And>x. r' = Inr x \<Longrightarrow> f x = f' x) \<Longrightarrow> bindE r f = bindE r' f'"
  by (cases r') auto

text \<open>Reading \<open>a[i]\<close> of an array of known size.\<close>

definition array_get :: "'a list \<Rightarrow> nat \<Rightarrow> 'a res" where
  "array_get xs i = (if i < length xs then Inr (xs ! i) else Inl OutOfBounds)"

lemma array_get_Inr [res]: "array_get xs i = Inr x \<longleftrightarrow> i < length xs \<and> x = xs ! i"
  by (auto simp: array_get_def)

lemma array_get_Inl [res]: "array_get xs i = Inl e \<longleftrightarrow> length xs \<le> i \<and> e = OutOfBounds"
  by (auto simp: array_get_def)

lemma array_get_ok [simp]: "i < length xs \<Longrightarrow> array_get xs i = Inr (xs ! i)"
  by (simp add: array_get_def)

section \<open>Bytes\<close>

lemma xor_right_cancel [simp]: "(x XOR a = y XOR a) \<longleftrightarrow> (x = (y :: 'a::len word))"
  by (metis xor.right_neutral xor.assoc xor_self_eq)

lemma xor_left_cancel [simp]: "(a XOR x = a XOR y) \<longleftrightarrow> (x = (y :: 'a::len word))"
  by (metis xor_right_cancel xor.commute)

lemma minus_max_eq_not: "(255::u8) - x = NOT x"
proof -
  have "(255::u8) = - 1" by simp
  then show ?thesis by (simp only: minus_eq_not_plus_1 diff_conv_add_uminus) simp
qed

lemma unat_u8_less [simp]: "unat (x :: u8) < 256"
  using unsigned_less [of x] by simp

section \<open>Copying into an array\<close>

text \<open>\<open>memcpy (dst + off, src, length src)\<close>; it needs \<open>off + length src \<le> length dst\<close>.\<close>

definition blit :: "'a list \<Rightarrow> nat \<Rightarrow> 'a list \<Rightarrow> 'a list" where
  "blit dst off src = take off dst @ src @ drop (off + length src) dst"

lemma length_blit [simp]: "off + length src \<le> length dst \<Longrightarrow> length (blit dst off src) = length dst"
  by (simp add: blit_def)

lemma blit_Nil [simp]: "blit dst off [] = dst"
  by (simp add: blit_def)

lemma nth_blit:
  assumes "off + length src \<le> length dst" and "i < length dst"
  shows "blit dst off src ! i =
    (if off \<le> i \<and> i < off + length src then src ! (i - off) else dst ! i)"
  using assms by (auto simp: blit_def nth_append min_def)

section \<open>Circular arrays\<close>

text \<open>The \<open>c\<close> elements from index \<open>r\<close> on, wrapping at the end of the array.\<close>

definition ring_view :: "'a list \<Rightarrow> nat \<Rightarrow> nat \<Rightarrow> 'a list" where
  "ring_view d r c = map (\<lambda>i. d ! ((r + i) mod length d)) [0..<c]"

lemma length_ring_view [simp]: "length (ring_view d r c) = c"
  by (simp add: ring_view_def)

lemma ring_view_0 [simp]: "ring_view d r 0 = []"
  by (simp add: ring_view_def)

lemma nth_ring_view [simp]: "i < c \<Longrightarrow> ring_view d r c ! i = d ! ((r + i) mod length d)"
  by (simp add: ring_view_def)

lemma ring_view_mod: "ring_view d (r mod length d) c = ring_view d r c"
  by (simp add: ring_view_def mod_add_left_eq)

text \<open>One past the end is the start: where a C pointer is wrapped does not change the view.\<close>

lemma ring_view_end [simp]: "ring_view d (length d) c = ring_view d 0 c"
  by (simp add: ring_view_def)

lemma take_ring_view: "n \<le> c \<Longrightarrow> take n (ring_view d r c) = ring_view d r n"
  by (simp add: ring_view_def take_map)

lemma drop_ring_view: "drop n (ring_view d r c) = ring_view d (r + n) (c - n)"
proof (rule nth_equalityI)
  show "length (drop n (ring_view d r c)) = length (ring_view d (r + n) (c - n))" by simp
next
  fix i
  assume "i < length (drop n (ring_view d r c))"
  then have i: "i < c - n" by simp
  then have "drop n (ring_view d r c) ! i = ring_view d r c ! (n + i)" by simp
  also have "\<dots> = d ! ((r + (n + i)) mod length d)" using i by (intro nth_ring_view) simp
  finally show "drop n (ring_view d r c) ! i = ring_view d (r + n) (c - n) ! i"
    using i by (simp add: add.assoc)
qed

lemma ring_view_append: "ring_view d r (m + n) = ring_view d r m @ ring_view d (r + m) n"
proof -
  have "ring_view d r (m + n) = take m (ring_view d r (m + n)) @ drop m (ring_view d r (m + n))"
    by simp
  then show ?thesis by (simp only: take_ring_view drop_ring_view le_add1 add_diff_cancel_left')
qed

lemma ring_view_Suc: "ring_view d r (Suc c) = d ! (r mod length d) # ring_view d (Suc r) c"
  using ring_view_append [of d r 1 c] by (simp add: ring_view_def)

text \<open>A view that does not reach the end of the array is a slice of it.\<close>

lemma ring_view_linear: "r + c \<le> length d \<Longrightarrow> ring_view d r c = take c (drop r d)"
  by (rule nth_equalityI) auto

lemma ring_view_wrap:
  assumes "r \<le> length d" and "length d \<le> r + c" and "c \<le> length d"
  shows "ring_view d r c = drop r d @ take (r + c - length d) d"
proof -
  have c: "c = (length d - r) + (r + c - length d)" using assms by simp
  have "ring_view d r c =
      ring_view d r (length d - r) @ ring_view d (r + (length d - r)) (r + c - length d)"
    by (subst c) (rule ring_view_append)
  then show ?thesis using assms by (simp add: ring_view_linear)
qed

text \<open>Writing outside a view does not change it; writing right behind it extends it.\<close>

lemma ring_view_cong:
  assumes "length d' = length d"
    and "\<And>i. i < c \<Longrightarrow> d' ! ((r + i) mod length d) = d ! ((r + i) mod length d)"
  shows "ring_view d' r c = ring_view d r c"
  using assms by (simp add: ring_view_def)

definition ring_put :: "'a list \<Rightarrow> nat \<Rightarrow> 'a list \<Rightarrow> 'a list" where
  "ring_put d w xs =
    (let e = length d - w
     in if length xs > e then blit (blit d w (take e xs)) 0 (drop e xs) else blit d w xs)"

lemma length_ring_put [simp]:
  "w \<le> length d \<Longrightarrow> length xs \<le> length d \<Longrightarrow> length (ring_put d w xs) = length d"
  by (auto simp: ring_put_def Let_def)

lemma nth_ring_put:
  assumes w: "w \<le> length d" and xs: "length xs \<le> length d" and i: "i < length d"
  shows "ring_put d w xs ! i =
    (if w \<le> i \<and> i - w < length xs then xs ! (i - w)
     else if i < w \<and> i + length d - w < length xs then xs ! (i + length d - w) else d ! i)"
proof (cases "length xs > length d - w")
  case True
  then show ?thesis
    using w xs i by (auto simp: ring_put_def Let_def nth_blit add.commute)
next
  case False
  then show ?thesis
    using w xs i by (auto simp: ring_put_def Let_def nth_blit)
qed

lemma mod_add_cases:
  assumes "r < (n::nat)" and "i < n"
  shows "(r + i) mod n = (if r + i < n then r + i else r + i - n)"
  using assms by (simp add: mod_if)

lemma ring_view_put:
  assumes "r < length d" and "c + length xs \<le> length d"
  shows "ring_view (ring_put d ((r + c) mod length d) xs) r (c + length xs) = ring_view d r c @ xs"
proof -
  let ?n = "length d" and ?w = "(r + c) mod length d"
  have w: "?w < ?n" using assms(1) by (cases d) (auto intro: mod_less_divisor)
  have len: "length (ring_put d ?w xs) = ?n" using w assms(2) by simp
  show ?thesis
  proof (rule nth_equalityI)
    fix i
    assume "i < length (ring_view (ring_put d ?w xs) r (c + length xs))"
    then have i: "i < c + length xs" by simp
    then have i': "i < ?n" using assms(2) by simp
    have idx: "(r + i) mod ?n < ?n" using assms(1) by (cases d) (auto intro: mod_less_divisor)
    have lhs: "ring_view (ring_put d ?w xs) r (c + length xs) ! i = ring_put d ?w xs ! ((r + i) mod ?n)"
      using i len by simp
    show "ring_view (ring_put d ?w xs) r (c + length xs) ! i = (ring_view d r c @ xs) ! i"
    proof (cases "xs = []")
      case True
      then show ?thesis using i by (simp add: ring_put_def Let_def)
    next
      case False
      then have c: "c < ?n" using assms(2) by (cases xs) auto
      have wc: "?w = (if r + c < ?n then r + c else r + c - ?n)"
        using assms(1) c by (rule mod_add_cases)
      have ic: "(r + i) mod ?n = (if r + i < ?n then r + i else r + i - ?n)"
        using assms(1) i' by (rule mod_add_cases)
      show ?thesis
        unfolding lhs
        using i i' assms c w idx
        by (subst nth_ring_put) (auto simp: wc ic nth_append split: if_splits)
    qed
  qed simp
qed

end
