(* ===== verification/Mux_Types.thy ===== *)
theory Mux_Types
  imports Hw_Prelude
begin

text \<open>
  The constants, types and tables of the GSM 07.10 multiplexer daemon
  (\<open>gsm0710muxd.h\<close> and the head of \<open>gsm0710muxd.c\<close>).  What \<open>Android.mk\<close> leaves to the
  product (number of SIMs, 64 channels, video telephony, ...) is the record \<open>build_cfg\<close>; the
  flags it always sets (\<open>MUX_ANDROID\<close>, \<open>__CCMNI_SUPPORT__\<close>, \<open>__MUXD_FLOWCONTROL__\<close>) are taken
  as set and the test flags (\<open>__MUX_UT__\<close>, \<open>__MUX_IT__\<close>) as unset.  \<open>Gsm0710Muxd_Assert\<close> is
  that of the build without \<open>__PRODUCTION_RELEASE__\<close>: it ends the process.
\<close>

section \<open>Frame constants\<close>

definition GSM0710_FRAME_FLAG :: u8 where
  [simp]: "GSM0710_FRAME_FLAG = 0xF9"

definition GSM0710_FRAME_ADV_FLAG :: u8 where
  [simp]: "GSM0710_FRAME_ADV_FLAG = 0x7E"

definition GSM0710_FRAME_ADV_ESC :: u8 where
  [simp]: "GSM0710_FRAME_ADV_ESC = 0x7D"

definition GSM0710_FRAME_ADV_ESC_COPML :: u8 where
  [simp]: "GSM0710_FRAME_ADV_ESC_COPML = 0x20"

definition GSM0710_FRAME_ADV_ESCAPED_SYMS :: bytes where
  "GSM0710_FRAME_ADV_ESCAPED_SYMS =
     [GSM0710_FRAME_ADV_FLAG, GSM0710_FRAME_ADV_ESC, 0x11, 0x91, 0x13, 0x93]"

definition GSM0710_PF :: u8 where
  [simp]: "GSM0710_PF = 0x10"

definition GSM0710_CR :: u8 where
  [simp]: "GSM0710_CR = 0x02"

definition GSM0710_EA :: u8 where
  [simp]: "GSM0710_EA = 0x01"

definition GSM0710_TYPE_SABM :: u8 where
  [simp]: "GSM0710_TYPE_SABM = 0x2F"

definition GSM0710_TYPE_UA :: u8 where
  [simp]: "GSM0710_TYPE_UA = 0x63"

definition GSM0710_TYPE_DM :: u8 where
  [simp]: "GSM0710_TYPE_DM = 0x0F"

definition GSM0710_TYPE_DISC :: u8 where
  [simp]: "GSM0710_TYPE_DISC = 0x43"

definition GSM0710_TYPE_UIH :: u8 where
  [simp]: "GSM0710_TYPE_UIH = 0xEF"

definition GSM0710_TYPE_UI :: u8 where
  [simp]: "GSM0710_TYPE_UI = 0x03"

text \<open>Control channel commands: the type octet with its extension bit set.\<close>

definition GSM0710_CONTROL_PN :: u8 where
  [simp]: "GSM0710_CONTROL_PN = 0x81"

definition GSM0710_CONTROL_CLD :: u8 where
  [simp]: "GSM0710_CONTROL_CLD = 0xC1"

definition GSM0710_CONTROL_PSC :: u8 where
  [simp]: "GSM0710_CONTROL_PSC = 0x41"

definition GSM0710_CONTROL_TEST :: u8 where
  [simp]: "GSM0710_CONTROL_TEST = 0x21"

definition GSM0710_CONTROL_MSC :: u8 where
  [simp]: "GSM0710_CONTROL_MSC = 0xE1"

definition GSM0710_CONTROL_NSC :: u8 where
  [simp]: "GSM0710_CONTROL_NSC = 0x11"

definition GSM0710_SIGNAL_FC :: u8 where
  [simp]: "GSM0710_SIGNAL_FC = 0x02"

definition GSM0710_SIGNAL_RTC :: u8 where
  [simp]: "GSM0710_SIGNAL_RTC = 0x04"

definition GSM0710_SIGNAL_RTR :: u8 where
  [simp]: "GSM0710_SIGNAL_RTR = 0x08"

definition GSM0710_SIGNAL_DV :: u8 where
  [simp]: "GSM0710_SIGNAL_DV = 0x80"

definition GSM0710_COMMAND_IS :: "u8 \<Rightarrow> u8 \<Rightarrow> bool" where
  "GSM0710_COMMAND_IS type command \<longleftrightarrow> type AND NOT GSM0710_CR = command"

definition GSM0710_DECODE_ADDRESS :: "u8 \<Rightarrow> u8" where
  "GSM0710_DECODE_ADDRESS byte = drop_bit 2 (byte AND 252)"

definition close_channel_cmd :: bytes where
  "close_channel_cmd = [GSM0710_CONTROL_CLD OR GSM0710_CR, GSM0710_EA OR push_bit 1 0]"

definition test_channel_cmd :: bytes where
  "test_channel_cmd =
     [GSM0710_CONTROL_TEST OR GSM0710_CR, GSM0710_EA OR push_bit 1 6,
      0x50, 0x49, 0x4E, 0x47, 0x0D, 0x0A]"

definition msc_channel_cmd :: bytes where
  "msc_channel_cmd =
     [GSM0710_CONTROL_MSC OR GSM0710_CR, GSM0710_EA OR push_bit 1 2, 0x03, 0x8D]"

section \<open>Sizes and counts\<close>

definition GSM0710_BUFFER_SIZE :: nat where
  "GSM0710_BUFFER_SIZE = 4096"

definition GSM0710_WRITE_RETRIES :: nat where
  "GSM0710_WRITE_RETRIES = 5"

definition MUXD_PTY_READ_ROUND :: nat where
  "MUXD_PTY_READ_ROUND = 4"

definition RX_FLOW_CTRL_HIGH_WATERMARK :: nat where
  "RX_FLOW_CTRL_HIGH_WATERMARK = 4096"

definition MUXD_VT_CH_NUM :: nat where
  "MUXD_VT_CH_NUM = 24"

definition MAX_RESYNC_GET_FRAME_COUNT :: nat where
  "MAX_RESYNC_GET_FRAME_COUNT = 3"

section \<open>Enumerations\<close>

datatype mux_state =
    MUX_STATE_OPENING
  | MUX_STATE_INITILIZING
  | MUX_STATE_PARM_NEG
  | MUX_STATE_SABM_CHNL
  | MUX_STATE_MUXING
  | MUX_STATE_CLOSING
  | MUX_STATE_PEER_CLOSING
  | MUX_STATE_OFF

datatype shutdown_dev_type = SHUTDOWN_DEV_WO_ACTIVE_FINALIZED | SHUTDOWN_DEV_W_ACTIVE_FINALIZED

datatype err_code =
    GSM0710MUXD_SUCCESS
  | GSM0710MUXD_EXCEED_SUPPORTED_VP_NUM
  | GSM0710MUXD_CREATE_THREAD_ERR
  | GSM0710MUXD_PTY_READ_ERR
  | GSM0710MUXD_PTY_WRITE_ERR
  | GSM0710MUXD_GET_CWD_ERR
  | GSM0710MUXD_OPEN_SERIAL_DEV_ERR
  | GSM0710MUXD_EXCEED_SUPPORTED_MAX_CHNL_NUM_ERR
  | GSM0710MUXD_START_MUXER_ERR
  | GSM0710MUXD_UNKNOWN_ERR
  | GSM0710MUXD_CHANNEL_CONFIG_ERR
  | GSM0710MUXD_ALLOC_CHANNEL_ERR
  | GSM0710MUXD_FRAMELIST_INIT_ERR
  | GSM0710MUXD_RXTHREAD_ERR
  | GSM0710MUXD_TXTHREAD_ERR
  | GSM0710MUXD_SERIAL_READ_ERR
  | GSM0710MUXD_SERIAL_WRITE_ERR
  | GSM0710MUXD_SETUP_PTY_ERR
  | GSM0710MUXD_RESTART_PTY_ERR
  | GSM0710MUXD_TXTHREAD_SELECT_ERR
  | GSM0710MUXD_OUT_OF_MEMORY

text \<open>The integer a C enumerator stands for: its position in the declaration.\<close>

definition all_err_codes :: "err_code list" where
  "all_err_codes =
     [GSM0710MUXD_SUCCESS, GSM0710MUXD_EXCEED_SUPPORTED_VP_NUM, GSM0710MUXD_CREATE_THREAD_ERR,
      GSM0710MUXD_PTY_READ_ERR, GSM0710MUXD_PTY_WRITE_ERR, GSM0710MUXD_GET_CWD_ERR,
      GSM0710MUXD_OPEN_SERIAL_DEV_ERR, GSM0710MUXD_EXCEED_SUPPORTED_MAX_CHNL_NUM_ERR,
      GSM0710MUXD_START_MUXER_ERR, GSM0710MUXD_UNKNOWN_ERR, GSM0710MUXD_CHANNEL_CONFIG_ERR,
      GSM0710MUXD_ALLOC_CHANNEL_ERR, GSM0710MUXD_FRAMELIST_INIT_ERR, GSM0710MUXD_RXTHREAD_ERR,
      GSM0710MUXD_TXTHREAD_ERR, GSM0710MUXD_SERIAL_READ_ERR, GSM0710MUXD_SERIAL_WRITE_ERR,
      GSM0710MUXD_SETUP_PTY_ERR, GSM0710MUXD_RESTART_PTY_ERR, GSM0710MUXD_TXTHREAD_SELECT_ERR,
      GSM0710MUXD_OUT_OF_MEMORY]"

fun index_of :: "'a \<Rightarrow> 'a list \<Rightarrow> nat" where
  "index_of x [] = 0"
| "index_of x (y # ys) = (if x = y then 0 else Suc (index_of x ys))"

definition err_num :: "err_code \<Rightarrow> nat" where
  "err_num e = index_of e all_err_codes"

lemma err_num_eq_0 [simp]: "err_num e = 0 \<longleftrightarrow> e = GSM0710MUXD_SUCCESS"
  by (cases e) (simp_all add: err_num_def all_err_codes_def)

definition all_mux_states :: "mux_state list" where
  "all_mux_states =
     [MUX_STATE_OPENING, MUX_STATE_INITILIZING, MUX_STATE_PARM_NEG, MUX_STATE_SABM_CHNL,
      MUX_STATE_MUXING, MUX_STATE_CLOSING, MUX_STATE_PEER_CLOSING, MUX_STATE_OFF]"

definition mux_state_num :: "mux_state \<Rightarrow> nat" where
  "mux_state_num s = index_of s all_mux_states"

lemma mux_state_num_inject [simp]: "mux_state_num s = mux_state_num t \<longleftrightarrow> s = t"
  by (cases s; cases t) (simp_all add: mux_state_num_def all_mux_states_def)

text \<open>C compares enumerators as integers.\<close>

instantiation mux_state :: linorder
begin

definition less_eq_mux_state :: "mux_state \<Rightarrow> mux_state \<Rightarrow> bool" where
  "less_eq_mux_state s t \<longleftrightarrow> mux_state_num s \<le> mux_state_num t"

definition less_mux_state :: "mux_state \<Rightarrow> mux_state \<Rightarrow> bool" where
  "less_mux_state s t \<longleftrightarrow> mux_state_num s < mux_state_num t"

instance
  by standard (auto simp: less_eq_mux_state_def less_mux_state_def)

end

section \<open>Frames\<close>

text \<open>
  \<open>GSM0710_Frame\<close>: \<open>length\<close> is always the size of the array at \<open>data\<close>, so the array alone is
  kept; an empty array is \<open>data = NULL\<close>.
\<close>

record gsm_frame =
  f_channel :: u8
  f_control :: u8
  f_data :: bytes

definition GSM0710_FRAME_IS :: "u8 \<Rightarrow> gsm_frame \<Rightarrow> bool" where
  "GSM0710_FRAME_IS type frame \<longleftrightarrow> f_control frame AND NOT GSM0710_PF = type"

section \<open>Product configuration and the channel table\<close>

record build_cfg =
  mtk_mux_channel_64 :: bool
  sim_count :: nat
  android_vt_support :: bool
  csd_dialer_support :: bool
  tc1_volte :: bool
  fusion_rild :: bool

definition GSM0710_MAX_CHANNELS :: "build_cfg \<Rightarrow> nat" where
  "GSM0710_MAX_CHANNELS c =
     (if tc1_volte c then 64 else if mtk_mux_channel_64 c then 64 else 32)"

definition MUXD_CH_NUM_IMS :: "build_cfg \<Rightarrow> nat" where
  "MUXD_CH_NUM_IMS c = (if tc1_volte c then 4 else 0)"

definition MUXD_CH_NUM_RILD :: "build_cfg \<Rightarrow> nat" where
  "MUXD_CH_NUM_RILD c = (if mtk_mux_channel_64 c then 10 else 5)"

definition MUXD_CH_NUM_VT :: "build_cfg \<Rightarrow> nat" where
  "MUXD_CH_NUM_VT c = (if android_vt_support c then 1 else 0)"

definition MUXD_CH_NUM_NW :: "build_cfg \<Rightarrow> nat" where
  "MUXD_CH_NUM_NW c = (if fusion_rild c then 2 else 0)"

text \<open>\<open>MUXD_CH_NUM_CCH\<close> and \<open>MUXD_CH_ATCI\<close> are 1, \<open>MUXD_CH_NUM_PDP\<close> and \<open>MUXD_CH_NUM_TEST\<close> 0.\<close>

definition MUXD_CH_NUM_ALL :: "build_cfg \<Rightarrow> nat" where
  "MUXD_CH_NUM_ALL c =
     (if sim_count c \<ge> 2 then
        if sim_count c \<ge> 4 then
          1 + (MUXD_CH_NUM_RILD c + 0 + 1) * 4 + MUXD_CH_NUM_VT c + MUXD_CH_NUM_IMS c + 0
            + MUXD_CH_NUM_NW c
        else if sim_count c \<ge> 3 then
          1 + (MUXD_CH_NUM_RILD c + 0 + 1) * 3 + MUXD_CH_NUM_VT c + MUXD_CH_NUM_IMS c + 0
            + MUXD_CH_NUM_NW c
        else
          1 + (MUXD_CH_NUM_RILD c + 0 + 1) * 2 + MUXD_CH_NUM_VT c + MUXD_CH_NUM_IMS c + 0
            + MUXD_CH_NUM_NW c
      else
        1 + (MUXD_CH_NUM_RILD c + 0 + 1) + MUXD_CH_NUM_VT c + MUXD_CH_NUM_IMS c + 0 + 0
          + MUXD_CH_NUM_NW c)"

record channel_config =
  pn_dlci :: nat
  pn_n1 :: nat
  s_path :: "string option"

definition cfg_entry :: "nat \<Rightarrow> string \<Rightarrow> channel_config" where
  "cfg_entry dlci path = \<lparr>pn_dlci = dlci, pn_n1 = 512, s_path = Some path\<rparr>"

definition ch_cfg :: "build_cfg \<Rightarrow> channel_config list" where
  "ch_cfg c =
     [\<lparr>pn_dlci = 0, pn_n1 = 512, s_path = None\<rparr>,
      cfg_entry 1 ''/dev/radio/pttycmd4'',
      cfg_entry 2 ''/dev/radio/pttynoti'',
      cfg_entry 3 ''/dev/radio/pttycmd1'',
      cfg_entry 4 ''/dev/radio/pttycmd2'',
      cfg_entry 5 ''/dev/radio/pttycmd3'',
      cfg_entry 26 ''/dev/radio/atci1''] @
     (if mtk_mux_channel_64 c then
        [cfg_entry 61 ''/dev/radio/pttycmd7'',
         cfg_entry 60 ''/dev/radio/pttycmd8'',
         cfg_entry 59 ''/dev/radio/pttycmd9'',
         cfg_entry 58 ''/dev/radio/pttycmd10'',
         cfg_entry 43 ''/dev/radio/pttycmd11''] else []) @
     (if sim_count c \<ge> 2 then
        [cfg_entry 6 ''/dev/radio/ptty2cmd4'',
         cfg_entry 7 ''/dev/radio/ptty2noti'',
         cfg_entry 8 ''/dev/radio/ptty2cmd1'',
         cfg_entry 9 ''/dev/radio/ptty2cmd2'',
         cfg_entry 10 ''/dev/radio/ptty2cmd3'',
         cfg_entry 27 ''/dev/radio/atci2''] @
        (if mtk_mux_channel_64 c then
           [cfg_entry 57 ''/dev/radio/ptty2cmd7'',
            cfg_entry 56 ''/dev/radio/ptty2cmd8'',
            cfg_entry 55 ''/dev/radio/ptty2cmd9'',
            cfg_entry 54 ''/dev/radio/ptty2cmd10'',
            cfg_entry 42 ''/dev/radio/ptty2cmd11''] else []) else []) @
     (if sim_count c \<ge> 3 then
        [cfg_entry 11 ''/dev/radio/ptty3cmd4'',
         cfg_entry 12 ''/dev/radio/ptty3noti'',
         cfg_entry 13 ''/dev/radio/ptty3cmd1'',
         cfg_entry 14 ''/dev/radio/ptty3cmd2'',
         cfg_entry 15 ''/dev/radio/ptty3cmd3'',
         cfg_entry 28 ''/dev/radio/atci3''] @
        (if mtk_mux_channel_64 c then
           [cfg_entry 53 ''/dev/radio/ptty3cmd7'',
            cfg_entry 52 ''/dev/radio/ptty3cmd8'',
            cfg_entry 51 ''/dev/radio/ptty3cmd9'',
            cfg_entry 50 ''/dev/radio/ptty3cmd10'',
            cfg_entry 41 ''/dev/radio/ptty3cmd11''] else []) else []) @
     (if sim_count c \<ge> 4 then
        [cfg_entry 16 ''/dev/radio/ptty4cmd4'',
         cfg_entry 17 ''/dev/radio/ptty4noti'',
         cfg_entry 18 ''/dev/radio/ptty4cmd1'',
         cfg_entry 19 ''/dev/radio/ptty4cmd2'',
         cfg_entry 20 ''/dev/radio/ptty4cmd3'',
         cfg_entry 29 ''/dev/radio/atci4''] @
        (if mtk_mux_channel_64 c then
           [cfg_entry 49 ''/dev/radio/ptty4cmd7'',
            cfg_entry 48 ''/dev/radio/ptty4cmd8'',
            cfg_entry 47 ''/dev/radio/ptty4cmd9'',
            cfg_entry 46 ''/dev/radio/ptty4cmd10'',
            cfg_entry 40 ''/dev/radio/ptty4cmd11''] else []) else []) @
     (if android_vt_support c then [cfg_entry 24 ''/dev/radio/pttyvt''] else []) @
     (if csd_dialer_support c then [cfg_entry 30 ''/dev/pttycsd''] else []) @
     (if tc1_volte c then
        [cfg_entry 31 ''/dev/radio/ims-pttycmd'',
         cfg_entry 32 ''/dev/radio/ims-pttynotify'',
         cfg_entry 33 ''/dev/radio/ims-sms-pttycmd'',
         cfg_entry 34 ''/dev/radio/ims-sms-pttynotify''] else []) @
     (if fusion_rild c then
        [cfg_entry 45 ''/dev/radio/pttynwcmd'',
         cfg_entry 44 ''/dev/radio/pttynwurc''] else [])"

lemma length_ch_cfg:
  "length (ch_cfg c) = MUXD_CH_NUM_ALL c + (if csd_dialer_support c then 1 else 0)"
  by (simp add: ch_cfg_def MUXD_CH_NUM_ALL_def MUXD_CH_NUM_RILD_def MUXD_CH_NUM_VT_def
      MUXD_CH_NUM_IMS_def MUXD_CH_NUM_NW_def)

text \<open>The table's channel ids as blocks, each with the condition it is compiled under.\<close>

definition dlci_blocks :: "build_cfg \<Rightarrow> (bool \<times> nat list) list" where
  "dlci_blocks c =
     [(True, [0, 1, 2, 3, 4, 5, 26]), (mtk_mux_channel_64 c, [61, 60, 59, 58, 43]),
      (sim_count c \<ge> 2, [6, 7, 8, 9, 10, 27]),
      (sim_count c \<ge> 2 \<and> mtk_mux_channel_64 c, [57, 56, 55, 54, 42]),
      (sim_count c \<ge> 3, [11, 12, 13, 14, 15, 28]),
      (sim_count c \<ge> 3 \<and> mtk_mux_channel_64 c, [53, 52, 51, 50, 41]),
      (sim_count c \<ge> 4, [16, 17, 18, 19, 20, 29]),
      (sim_count c \<ge> 4 \<and> mtk_mux_channel_64 c, [49, 48, 47, 46, 40]),
      (android_vt_support c, [24]), (csd_dialer_support c, [30]),
      (tc1_volte c, [31, 32, 33, 34]), (fusion_rild c, [45, 44])]"

definition select_blocks :: "(bool \<times> 'a list) list \<Rightarrow> 'a list" where
  "select_blocks bs = concat (map (\<lambda>(b, xs). if b then xs else []) bs)"

lemma set_select_blocks: "set (select_blocks bs) \<subseteq> set (concat (map snd bs))"
  by (auto simp: select_blocks_def split: if_splits)

lemma distinct_select_blocks: "distinct (concat (map snd bs)) \<Longrightarrow> distinct (select_blocks bs)"
proof (induction bs)
  case Nil
  then show ?case by (simp add: select_blocks_def)
next
  case (Cons b bs)
  have "select_blocks (b # bs) = (if fst b then snd b else []) @ select_blocks bs"
    by (cases b) (simp add: select_blocks_def)
  with Cons set_select_blocks [of bs] show ?case by auto
qed

lemma ch_cfg_dlcis: "map pn_dlci (ch_cfg c) = select_blocks (dlci_blocks c)"
  by (simp add: ch_cfg_def cfg_entry_def dlci_blocks_def select_blocks_def)

lemma distinct_ch_cfg: "distinct (map pn_dlci (ch_cfg c))"
  unfolding ch_cfg_dlcis
  by (rule distinct_select_blocks) (simp add: dlci_blocks_def)

lemma list_all_select_blocks:
  "list_all P (select_blocks bs) \<longleftrightarrow> list_all (\<lambda>(b, xs). b \<longrightarrow> list_all P xs) bs"
  by (induction bs) (auto simp: select_blocks_def)

lemma ch_cfg_dlci_bound:
  "list_all (\<lambda>d. d < GSM0710_MAX_CHANNELS c) (map pn_dlci (ch_cfg c)) \<longleftrightarrow>
   (fusion_rild c \<longrightarrow> mtk_mux_channel_64 c \<or> tc1_volte c)"
  unfolding ch_cfg_dlcis list_all_select_blocks
  by (cases "mtk_mux_channel_64 c"; cases "tc1_volte c")
    (simp_all add: dlci_blocks_def GSM0710_MAX_CHANNELS_def)

lemma ch_cfg_n1: "e \<in> set (ch_cfg c) \<Longrightarrow> pn_n1 e = 512"
  by (auto simp: ch_cfg_def cfg_entry_def split: if_splits)

end
