(* ===== verification/Byte_Queue.thy ===== *)
theory Byte_Queue
  imports Hw_Prelude
begin

text \<open>
  The contract of a bounded byte queue, as its clients use it: whatever fits is appended, what
  is taken is the oldest part.  Two components provide it: the multiplexer's receive buffer
  and the audio ring buffer.  The client's lemma is proved here once: over any sequence of
  operations, what was taken and what is left is what was there and what was put, in order.
\<close>

datatype queue_op = Put bytes | Get nat

text \<open>
  A run of operations: every \<open>Put\<close> must fit into the free room and every \<open>Get\<close> must find its
  octets, otherwise the run is refused.
\<close>

fun queue_run ::
  "('q \<Rightarrow> bytes) \<Rightarrow> ('q \<Rightarrow> nat) \<Rightarrow> ('q \<Rightarrow> bytes \<Rightarrow> 'q) \<Rightarrow> ('q \<Rightarrow> nat \<Rightarrow> bytes \<times> 'q) \<Rightarrow>
   'q \<Rightarrow> queue_op list \<Rightarrow> (bytes \<times> 'q) option" where
  "queue_run view room put get q [] = Some ([], q)"
| "queue_run view room put get q (Put xs # ops) =
     (if length xs \<le> room q then queue_run view room put get (put q xs) ops else None)"
| "queue_run view room put get q (Get n # ops) =
     (if n \<le> length (view q) then
        (case get q n of (out, q') \<Rightarrow>
           map_option (\<lambda>(outs, q''). (out @ outs, q'')) (queue_run view room put get q' ops))
      else None)"

fun queue_input :: "queue_op list \<Rightarrow> bytes" where
  "queue_input [] = []"
| "queue_input (Put xs # ops) = xs @ queue_input ops"
| "queue_input (Get n # ops) = queue_input ops"

locale byte_queue =
  fixes inv :: "'q \<Rightarrow> bool"
    and view :: "'q \<Rightarrow> bytes"
    and room :: "'q \<Rightarrow> nat"
    and put :: "'q \<Rightarrow> bytes \<Rightarrow> 'q"
    and get :: "'q \<Rightarrow> nat \<Rightarrow> bytes \<times> 'q"
  assumes put_inv: "inv q \<Longrightarrow> length xs \<le> room q \<Longrightarrow> inv (put q xs)"
    and put_view: "inv q \<Longrightarrow> length xs \<le> room q \<Longrightarrow> view (put q xs) = view q @ xs"
    and get_inv: "inv q \<Longrightarrow> n \<le> length (view q) \<Longrightarrow> inv (snd (get q n))"
    and get_out: "inv q \<Longrightarrow> n \<le> length (view q) \<Longrightarrow> fst (get q n) = take n (view q)"
    and get_view: "inv q \<Longrightarrow> n \<le> length (view q) \<Longrightarrow> view (snd (get q n)) = drop n (view q)"
begin

lemma run_fifo:
  "queue_run view room put get q ops = Some (out, q') \<Longrightarrow> inv q \<Longrightarrow>
   inv q' \<and> out @ view q' = view q @ queue_input ops"
proof (induction ops arbitrary: q out)
  case Nil
  then show ?case by simp
next
  case (Cons op ops)
  show ?case
  proof (cases op)
    case (Put xs)
    with Cons.prems have fits: "length xs \<le> room q"
      and run: "queue_run view room put get (put q xs) ops = Some (out, q')"
      by (auto split: if_splits)
    from Cons.IH [OF run put_inv [OF Cons.prems(2) fits]] show ?thesis
      by (simp add: Put put_view [OF Cons.prems(2) fits])
  next
    case (Get n)
    obtain o1 q1 where g: "get q n = (o1, q1)" by fastforce
    with Get Cons.prems obtain outs where n: "n \<le> length (view q)"
      and run: "queue_run view room put get q1 ops = Some (outs, q')" and out: "out = o1 @ outs"
      by (auto split: if_splits)
    have o1: "o1 = take n (view q)" and v1: "view q1 = drop n (view q)" and i1: "inv q1"
      using get_out get_view get_inv Cons.prems(2) n g by (force, force, force)
    from Cons.IH [OF run i1] show ?thesis by (simp add: Get out o1 v1)
  qed
qed

end

end
