(* ===== verification/Mux_Buffer.thy ===== *)
theory Mux_Buffer
  imports Mux_Types Byte_Queue
begin

text \<open>
  \<open>GSM0710_Buffer\<close>, the circular buffer between the thread that reads the serial device and the
  thread that assembles frames (\<open>gsm0710_buffer_init\<close>, \<open>gsm0710_buffer_write\<close> and the macros
  \<open>gsm0710_buffer_inc\<close>, \<open>gsm0710_buffer_free\<close>, \<open>gsm0710_buffer_length\<close>).  Pointers are offsets into
  \<open>data\<close>.  Of \<open>adv_data\<close> the first \<open>adv_length\<close> octets are kept, so its length is \<open>adv_length\<close>.
  A condition variable is the number of times it was signalled.  The counters \<open>received_count\<close> and \<open>dropped_count\<close> have the width of \<open>unsigned long\<close> in the
  32-bit build that \<open>Android.mk\<close> asks for.
\<close>

record gsm_buffer =
  b_data :: bytes
  b_readp :: nat
  b_writep :: nat
  b_datacount :: nat
  b_newdataready :: bool
  b_input_sleeping :: bool
  b_flag_found :: bool
  b_received_count :: u32
  b_dropped_count :: u32
  b_adv_data :: bytes
  b_adv_found_esc :: bool
  b_newdataready_signals :: nat
  b_bufferready_signals :: nat

definition gsm0710_buffer_init :: gsm_buffer where
  "gsm0710_buffer_init =
     \<lparr>b_data = replicate GSM0710_BUFFER_SIZE 0, b_readp = 0, b_writep = 0, b_datacount = 0,
      b_newdataready = False, b_input_sleeping = False, b_flag_found = False,
      b_received_count = 0, b_dropped_count = 0, b_adv_data = [], b_adv_found_esc = False,
      b_newdataready_signals = 0, b_bufferready_signals = 0\<rparr>"

definition gsm0710_buffer_length :: "gsm_buffer \<Rightarrow> nat" where
  "gsm0710_buffer_length b = b_datacount b"

definition gsm0710_buffer_free :: "gsm_buffer \<Rightarrow> nat" where
  "gsm0710_buffer_free b = GSM0710_BUFFER_SIZE - b_datacount b"

text \<open>\<open>gsm0710_buffer_inc\<close> on a pointer and a counter, and on the buffer's own ones.\<close>

definition ptr_inc :: "nat \<times> nat \<Rightarrow> nat \<times> nat" where
  "ptr_inc rc =
     (case rc of (readp, datacount) \<Rightarrow>
        (if readp + 1 = GSM0710_BUFFER_SIZE then 0 else readp + 1, datacount - 1))"

definition gsm0710_buffer_inc :: "gsm_buffer \<Rightarrow> gsm_buffer" where
  "gsm0710_buffer_inc b =
     (case ptr_inc (b_readp b, b_datacount b) of (r, c) \<Rightarrow> b\<lparr>b_readp := r, b_datacount := c\<rparr>)"

definition gsm0710_buffer_write :: "gsm_buffer \<Rightarrow> bytes \<Rightarrow> nat \<times> gsm_buffer" where
  "gsm0710_buffer_write b input =
     (let c = GSM0710_BUFFER_SIZE - b_writep b;
          len = min (length input) (gsm0710_buffer_free b);
          b1 = (if len > c then
                  b\<lparr>b_data := blit (blit (b_data b) (b_writep b) (take c input)) 0
                                 (take (len - c) (drop c input)),
                    b_writep := len - c\<rparr>
                else
                  (let w = b_writep b + len
                   in b\<lparr>b_data := blit (b_data b) (b_writep b) (take len input),
                        b_writep := (if w = GSM0710_BUFFER_SIZE then 0 else w)\<rparr>));
          b2 = b1\<lparr>b_datacount := b_datacount b1 + len\<rparr>;
          b3 = b2\<lparr>b_newdataready := True, b_newdataready_signals := Suc (b_newdataready_signals b2)\<rparr>
      in (len, b3))"

text \<open>
  The reset that \<open>poll_modem_ready\<close>, \<open>chat\<close> and \<open>chatCmux\<close> write out after each reply.
\<close>

definition gsm0710_buffer_reset :: "gsm_buffer \<Rightarrow> gsm_buffer" where
  "gsm0710_buffer_reset b =
     b\<lparr>b_readp := 0, b_writep := 0, b_datacount := 0,
       b_data := replicate GSM0710_BUFFER_SIZE 0\<rparr>"

text \<open>
  Waking the thread that reads the serial device, if it sleeps because the buffer was full.
\<close>

definition signal_bufferready :: "gsm_buffer \<Rightarrow> gsm_buffer" where
  "signal_bufferready b =
     (if b_input_sleeping b then b\<lparr>b_bufferready_signals := Suc (b_bufferready_signals b)\<rparr> else b)"

section \<open>The buffer as a queue of octets\<close>

definition buf_inv :: "gsm_buffer \<Rightarrow> bool" where
  "buf_inv b \<longleftrightarrow>
     length (b_data b) = GSM0710_BUFFER_SIZE \<and> b_readp b < GSM0710_BUFFER_SIZE \<and>
     b_datacount b \<le> GSM0710_BUFFER_SIZE \<and>
     b_writep b = (b_readp b + b_datacount b) mod GSM0710_BUFFER_SIZE \<and>
     length (b_adv_data b) \<le> GSM0710_BUFFER_SIZE"

definition contents :: "gsm_buffer \<Rightarrow> bytes" where
  "contents b = ring_view (b_data b) (b_readp b) (b_datacount b)"

lemma BUFFER_SIZE_pos [simp]: "0 < GSM0710_BUFFER_SIZE"
  by (simp add: GSM0710_BUFFER_SIZE_def)

lemma length_contents [simp]: "length (contents b) = b_datacount b"
  by (simp add: contents_def)

lemma contents_Nil_iff [simp]: "contents b = [] \<longleftrightarrow> b_datacount b = 0"
  by (metis length_contents length_0_conv)

lemma contents_empty [simp]: "b_datacount b = 0 \<Longrightarrow> contents b = []"
  by simp

lemma buf_inv_init [simp]: "buf_inv gsm0710_buffer_init"
  by (simp add: buf_inv_def gsm0710_buffer_init_def)

lemma datacount_init [simp]: "b_datacount gsm0710_buffer_init = 0"
  by (simp add: gsm0710_buffer_init_def)

lemma contents_init [simp]: "contents gsm0710_buffer_init = []"
  by (simp add: gsm0710_buffer_init_def)

lemma buf_inv_reset: "buf_inv b \<Longrightarrow> buf_inv (gsm0710_buffer_reset b)"
  by (simp add: buf_inv_def gsm0710_buffer_reset_def)

lemma contents_reset [simp]: "contents (gsm0710_buffer_reset b) = []"
  by (simp add: gsm0710_buffer_reset_def)

text \<open>Reading: a non-empty buffer has the octet under \<open>readp\<close> first.\<close>

lemma ring_view_inc:
  assumes "r < length d" and "0 < c"
  shows "ring_view d r c = d ! r # ring_view d (if r + 1 = length d then 0 else r + 1) (c - 1)"
proof -
  obtain k where c: "c = Suc k" using assms(2) by (cases c) auto
  have "ring_view d r c = d ! r # ring_view d (Suc r) k"
    using assms(1) by (simp add: c ring_view_Suc)
  moreover have "ring_view d (Suc r) k = ring_view d (if r + 1 = length d then 0 else r + 1) k"
    by simp
  ultimately show ?thesis by (simp add: c)
qed

lemma contents_inc:
  assumes "buf_inv b" and "0 < b_datacount b"
  shows "contents b = b_data b ! b_readp b # contents (gsm0710_buffer_inc b)"
  using assms ring_view_inc [of "b_readp b" "b_data b" "b_datacount b"]
  by (simp add: contents_def gsm0710_buffer_inc_def ptr_inc_def buf_inv_def)

lemma buf_inv_inc: "buf_inv b \<Longrightarrow> 0 < b_datacount b \<Longrightarrow> buf_inv (gsm0710_buffer_inc b)"
  by (auto simp: buf_inv_def gsm0710_buffer_inc_def ptr_inc_def mod_if)

lemma inc_datacount [simp]: "b_datacount (gsm0710_buffer_inc b) = b_datacount b - 1"
  by (simp add: gsm0710_buffer_inc_def ptr_inc_def)

lemma inc_fields [simp]:
  "b_flag_found (gsm0710_buffer_inc b) = b_flag_found b"
  "b_adv_data (gsm0710_buffer_inc b) = b_adv_data b"
  "b_adv_found_esc (gsm0710_buffer_inc b) = b_adv_found_esc b"
  "b_received_count (gsm0710_buffer_inc b) = b_received_count b"
  "b_dropped_count (gsm0710_buffer_inc b) = b_dropped_count b"
  "b_data (gsm0710_buffer_inc b) = b_data b"
  "b_writep (gsm0710_buffer_inc b) = b_writep b"
  "b_input_sleeping (gsm0710_buffer_inc b) = b_input_sleeping b"
  by (simp_all add: gsm0710_buffer_inc_def ptr_inc_def)

text \<open>Fields that are not part of the queue do not matter to it.\<close>

lemma contents_frame [simp]:
  "contents (b\<lparr>b_flag_found := v\<rparr>) = contents b"
  "contents (b\<lparr>b_newdataready := v\<rparr>) = contents b"
  "contents (b\<lparr>b_input_sleeping := v\<rparr>) = contents b"
  "contents (b\<lparr>b_received_count := n\<rparr>) = contents b"
  "contents (b\<lparr>b_dropped_count := n\<rparr>) = contents b"
  "contents (b\<lparr>b_adv_data := xs\<rparr>) = contents b"
  "contents (b\<lparr>b_adv_found_esc := v\<rparr>) = contents b"
  "contents (b\<lparr>b_bufferready_signals := k\<rparr>) = contents b"
  by (simp_all add: contents_def)

lemma buf_inv_frame [simp]:
  "buf_inv (b\<lparr>b_flag_found := v\<rparr>) = buf_inv b"
  "buf_inv (b\<lparr>b_newdataready := v\<rparr>) = buf_inv b"
  "buf_inv (b\<lparr>b_input_sleeping := v\<rparr>) = buf_inv b"
  "buf_inv (b\<lparr>b_received_count := n\<rparr>) = buf_inv b"
  "buf_inv (b\<lparr>b_dropped_count := n\<rparr>) = buf_inv b"
  "buf_inv (b\<lparr>b_adv_found_esc := v\<rparr>) = buf_inv b"
  "buf_inv (b\<lparr>b_bufferready_signals := k\<rparr>) = buf_inv b"
  by (simp_all add: buf_inv_def)

lemma signal_bufferready_simps [simp]:
  "contents (signal_bufferready b) = contents b"
  "buf_inv (signal_bufferready b) = buf_inv b"
  "b_flag_found (signal_bufferready b) = b_flag_found b"
  "b_datacount (signal_bufferready b) = b_datacount b"
  by (simp_all add: signal_bufferready_def)

section \<open>Writing\<close>

lemma write_eq_ring_put:
  fixes input :: bytes
  assumes "buf_inv b"
  defines "len \<equiv> min (length input) (gsm0710_buffer_free b)"
  shows "gsm0710_buffer_write b input =
    (len, b\<lparr>b_data := ring_put (b_data b) (b_writep b) (take len input),
            b_writep := (b_writep b + len) mod GSM0710_BUFFER_SIZE,
            b_datacount := b_datacount b + len, b_newdataready := True,
            b_newdataready_signals := Suc (b_newdataready_signals b)\<rparr>)"
proof -
  have w: "b_writep b < GSM0710_BUFFER_SIZE" and d: "length (b_data b) = GSM0710_BUFFER_SIZE"
    using assms(1) by (auto simp: buf_inv_def)
  have len: "len \<le> GSM0710_BUFFER_SIZE" "len \<le> length input"
    by (auto simp: len_def gsm0710_buffer_free_def)
  have wrap: "(b_writep b + len) mod GSM0710_BUFFER_SIZE =
     (if b_writep b + len < GSM0710_BUFFER_SIZE then b_writep b + len
      else b_writep b + len - GSM0710_BUFFER_SIZE)"
    using w len(1) by (simp add: mod_if)
  have unf: "gsm0710_buffer_write b input =
    (let c = GSM0710_BUFFER_SIZE - b_writep b;
         b1 = (if len > c then
                 b\<lparr>b_data := blit (blit (b_data b) (b_writep b) (take c input)) 0
                                (take (len - c) (drop c input)),
                   b_writep := len - c\<rparr>
               else
                 b\<lparr>b_data := blit (b_data b) (b_writep b) (take len input),
                   b_writep := (if b_writep b + len = GSM0710_BUFFER_SIZE then 0
                                else b_writep b + len)\<rparr>)
     in (len, b1\<lparr>b_datacount := b_datacount b1 + len, b_newdataready := True,
                    b_newdataready_signals := Suc (b_newdataready_signals b1)\<rparr>))"
    by (simp add: gsm0710_buffer_write_def Let_def len_def)
  show ?thesis
  proof (cases "len > GSM0710_BUFFER_SIZE - b_writep b")
    case True
    with w d len show ?thesis
      unfolding unf wrap by (simp add: ring_put_def Let_def drop_take)
  next
    case False
    with w d len show ?thesis
      unfolding unf wrap by (auto simp: ring_put_def Let_def)
  qed
qed

theorem buffer_write_correct:
  assumes "buf_inv b" and "gsm0710_buffer_write b input = (n, b')"
  shows "buf_inv b'" "n = min (length input) (gsm0710_buffer_free b)"
    "contents b' = contents b @ take n input" "b_newdataready b'"
    "b_flag_found b' = b_flag_found b" "b_adv_data b' = b_adv_data b"
    "b_adv_found_esc b' = b_adv_found_esc b"
proof -
  let ?n = "min (length input) (gsm0710_buffer_free b)"
  note eq = write_eq_ring_put [OF assms(1), of input]
  have p: "(n, b') = (?n, b\<lparr>b_data := ring_put (b_data b) (b_writep b) (take ?n input),
            b_writep := (b_writep b + ?n) mod GSM0710_BUFFER_SIZE,
            b_datacount := b_datacount b + ?n, b_newdataready := True,
            b_newdataready_signals := Suc (b_newdataready_signals b)\<rparr>)"
    unfolding assms(2) [symmetric] by (rule eq)
  then have n: "n = ?n" by simp
  from p have b': "b' = b\<lparr>b_data := ring_put (b_data b) (b_writep b) (take ?n input),
            b_writep := (b_writep b + ?n) mod GSM0710_BUFFER_SIZE,
            b_datacount := b_datacount b + ?n, b_newdataready := True,
            b_newdataready_signals := Suc (b_newdataready_signals b)\<rparr>"
    by simp
  have inv: "length (b_data b) = GSM0710_BUFFER_SIZE" "b_readp b < GSM0710_BUFFER_SIZE"
    "b_writep b = (b_readp b + b_datacount b) mod GSM0710_BUFFER_SIZE"
    "b_datacount b + ?n \<le> GSM0710_BUFFER_SIZE" "length (b_adv_data b) \<le> GSM0710_BUFFER_SIZE"
    using assms(1) by (auto simp: buf_inv_def gsm0710_buffer_free_def)
  show "n = ?n" by (rule n)
  show "b_newdataready b'" "b_flag_found b' = b_flag_found b" "b_adv_data b' = b_adv_data b"
    "b_adv_found_esc b' = b_adv_found_esc b"
    by (simp_all add: b')
  have w: "b_writep b < GSM0710_BUFFER_SIZE" using inv(3) by simp
  have len: "length (take ?n input) = ?n" by simp
  show "buf_inv b'"
    using inv w len by (simp add: b' buf_inv_def mod_add_left_eq add.assoc)
  show "contents b' = contents b @ take n input"
    using ring_view_put [of "b_readp b" "b_data b" "b_datacount b" "take ?n input"] inv
    by (simp add: b' n contents_def)
qed

section \<open>The buffer provides the queue contract\<close>

definition buffer_put :: "gsm_buffer \<Rightarrow> bytes \<Rightarrow> gsm_buffer" where
  "buffer_put b xs = snd (gsm0710_buffer_write b xs)"

text \<open>The reader's side: \<open>n\<close> times \<open>*readp\<close> followed by \<open>gsm0710_buffer_inc\<close>.\<close>

fun buffer_read :: "gsm_buffer \<Rightarrow> nat \<Rightarrow> bytes \<times> gsm_buffer" where
  "buffer_read b 0 = ([], b)"
| "buffer_read b (Suc n) =
     (case buffer_read (gsm0710_buffer_inc b) n of (xs, b') \<Rightarrow> (b_data b ! b_readp b # xs, b'))"

lemma buffer_put_laws:
  assumes "buf_inv b"
  shows "buf_inv (buffer_put b xs)"
    "contents (buffer_put b xs) = contents b @ take (gsm0710_buffer_free b) xs"
    "b_flag_found (buffer_put b xs) = b_flag_found b"
    "b_adv_data (buffer_put b xs) = b_adv_data b"
    "b_adv_found_esc (buffer_put b xs) = b_adv_found_esc b"
proof -
  obtain n b' where w: "gsm0710_buffer_write b xs = (n, b')" by fastforce
  note laws = buffer_write_correct [OF assms w]
  show "buf_inv (buffer_put b xs)" "b_flag_found (buffer_put b xs) = b_flag_found b"
    "b_adv_data (buffer_put b xs) = b_adv_data b"
    "b_adv_found_esc (buffer_put b xs) = b_adv_found_esc b"
    using laws by (simp_all add: buffer_put_def w)
  show "contents (buffer_put b xs) = contents b @ take (gsm0710_buffer_free b) xs"
    using laws(2,3) by (simp add: buffer_put_def w min_def)
qed

lemma buffer_read_laws:
  "buf_inv b \<Longrightarrow> n \<le> b_datacount b \<Longrightarrow> buffer_read b n = (xs, b') \<Longrightarrow>
   xs = take n (contents b) \<and> contents b' = drop n (contents b) \<and> buf_inv b'"
proof (induction n arbitrary: b xs b')
  case 0
  then show ?case by simp
next
  case (Suc n)
  obtain ys b1 where r: "buffer_read (gsm0710_buffer_inc b) n = (ys, b1)" by fastforce
  have pos: "0 < b_datacount b" using Suc.prems(2) by simp
  have "ys = take n (contents (gsm0710_buffer_inc b)) \<and>
      contents b1 = drop n (contents (gsm0710_buffer_inc b)) \<and> buf_inv b1"
    using Suc.prems by (intro Suc.IH [OF buf_inv_inc [OF Suc.prems(1) pos] _ r]) simp
  with Suc.prems r show ?case by (simp add: contents_inc [OF Suc.prems(1) pos])
qed

interpretation rx_buffer: byte_queue buf_inv contents gsm0710_buffer_free buffer_put buffer_read
proof unfold_locales
  fix q :: gsm_buffer and n :: nat
  assume "buf_inv q" and "n \<le> length (contents q)"
  moreover obtain ys q1 where r: "buffer_read q n = (ys, q1)" by fastforce
  ultimately have "ys = take n (contents q) \<and> contents q1 = drop n (contents q) \<and> buf_inv q1"
    by (intro buffer_read_laws) simp_all
  with r show "buf_inv (snd (buffer_read q n))" "fst (buffer_read q n) = take n (contents q)"
    "contents (snd (buffer_read q n)) = drop n (contents q)"
    by simp_all
qed (simp_all add: buffer_put_laws)

section \<open>Properties\<close>

text \<open>\<open>gsm0710_buffer_write\<close> keeps the pointers consistent, takes as many octets as there is room
  for, reports that number, and appends exactly those octets to what the buffer holds.\<close>

theorem buffer_write_appends:
  assumes "buf_inv b" and "gsm0710_buffer_write b input = (n, b')"
  shows "buf_inv b' \<and> n = min (length input) (gsm0710_buffer_free b) \<and>
    contents b' = contents b @ take n input \<and> b_datacount b' \<le> GSM0710_BUFFER_SIZE"
  using buffer_write_correct [OF assms] by (simp add: buf_inv_def)

theorem buffer_write_appends_witness:
  "\<exists>n b'. gsm0710_buffer_write gsm0710_buffer_init [1, 2] = (n, b') \<and> buf_inv b' \<and> contents b' = [1, 2]"
proof -
  obtain n b' where w: "gsm0710_buffer_write gsm0710_buffer_init [1, 2] = (n, b')" by fastforce
  have free: "gsm0710_buffer_free gsm0710_buffer_init = 4096"
    by (simp add: gsm0710_buffer_free_def gsm0710_buffer_init_def GSM0710_BUFFER_SIZE_def)
  from buffer_write_appends [OF buf_inv_init w] w show ?thesis by (auto simp: free)
qed

text \<open>Over any run of writes that fit and reads of stored octets, across any number of wraps,
  the octets read, followed by those still stored, are those stored at first followed by those
  written: nothing is lost, repeated or reordered.\<close>

theorem buffer_fifo:
  assumes "buf_inv b"
    and "queue_run contents gsm0710_buffer_free buffer_put buffer_read b ops = Some (out, b')"
  shows "out @ contents b' = contents b @ queue_input ops \<and> buf_inv b'"
  using rx_buffer.run_fifo [OF assms(2,1)] by simp

theorem buffer_fifo_witness:
  "\<exists>out b'. queue_run contents gsm0710_buffer_free buffer_put buffer_read gsm0710_buffer_init
     [Get 0] = Some (out, b') \<and> out @ contents b' = []"
proof -
  have run: "queue_run contents gsm0710_buffer_free buffer_put buffer_read gsm0710_buffer_init
     [Get 0] = Some ([], gsm0710_buffer_init)"
    by simp
  from buffer_fifo [OF buf_inv_init run] run show ?thesis by auto
qed

end
