(* ===== verification/Mux_World.thy ===== *)
theory Mux_World
  imports Mux_Buffer
begin

text \<open>
  The state of the daemon: the channel contexts (\<open>Channel channellist[]\<close>), the serial port
  (\<open>Serial serial\<close>), the global flags, and what the operating system does with its calls.  The
  kernel is outside the program: each \<open>write\<close> takes its outcome from the list \<open>m_writes\<close> (when
  that is used up, a write succeeds in full), each \<open>read\<close> and \<open>select\<close> from \<open>m_reads\<close>, each \<open>open\<close>
  of a device from \<open>m_opens\<close> (descriptor and name; it fails when that is used up), every other
  checked call from \<open>m_syscalls\<close> (it succeeds when that is used up), and every effect that leaves
  the process is an \<open>event\<close> of the trace.  A write to a closed descriptor fails with \<open>EBADF\<close>.  The mutexes are not
  modelled: each operation below is one critical section of the source or runs alone.
\<close>

section \<open>System calls\<close>

datatype errno =
    ENONE | EINTR | EAGAIN | EBADF | EIO | ETXTBSY | ENODEV | EOTHER nat

datatype call_result = CallOk nat | CallErr errno

text \<open>
  What a \<open>select\<close> and the \<open>read\<close> behind it find: data, an error of the \<open>read\<close>, a timeout or an
  error of the \<open>select\<close>.  An empty list of outcomes is a timeout or, for a bare \<open>read\<close>, \<open>EAGAIN\<close>.
\<close>

datatype read_result =
    Rd_Data bytes
  | Rd_Err errno
  | Sel_Timeout
  | Sel_Err errno

datatype tty_flow = TCIOFF | TCION

datatype thread =
    Poll_Channel nat
  | Retry_Write nat
  | Assemble_Frames
  | Poll_Serial
  | Tx_Msc_Response

datatype event =
    Wrote int bytes
  | Closed int
  | Unlinked string
  | Linked string string
  | Ioctl_TCXONC int tty_flow
  | Property_Set string string
  | Thread_Created thread
  | Thread_Cancelled thread
  | Opened string int
  | Set_Uid

section \<open>Channels\<close>

text \<open>
  A channel context; \<open>ch_rx_fl\<close> is the address of the frame list (\<open>None\<close> is \<open>NULL\<close>).
\<close>

record channel =
  ch_id :: nat
  ch_fd :: int
  ch_devicename :: "string option"
  ch_ptsname :: "string option"
  ch_ptslink :: "string option"
  ch_opened :: bool
  ch_reopen :: bool
  ch_sabm_ua_pending :: bool
  ch_disc_ua_pending :: bool
  ch_negotiated_N1 :: nat
  ch_v24_signals :: u8
  ch_tx_fc_off :: bool
  ch_rx_fc_off :: bool
  ch_rx_thread :: bool
  ch_tx_fc_on_signals :: nat
  ch_rx_fc_on_signals :: nat
  ch_rx_fl :: "nat option"
  ch_rx_fl_total :: nat
  ch_rx_fl_written :: nat

text \<open>A channel context as the C run-time leaves it in static storage: all zero.\<close>

definition zero_channel :: channel where
  "zero_channel =
     \<lparr>ch_id = 0, ch_fd = 0, ch_devicename = None, ch_ptsname = None, ch_ptslink = None,
      ch_opened = False, ch_reopen = False, ch_sabm_ua_pending = False,
      ch_disc_ua_pending = False, ch_negotiated_N1 = 0, ch_v24_signals = 0,
      ch_tx_fc_off = False, ch_rx_fc_off = False, ch_rx_thread = False,
      ch_tx_fc_on_signals = 0, ch_rx_fc_on_signals = 0,
      ch_rx_fl = None, ch_rx_fl_total = 0, ch_rx_fl_written = 0\<rparr>"

section \<open>The heap of frame list nodes\<close>

record fl_node =
  fn_frame :: "gsm_frame option"
  fn_next :: nat

text \<open>
  The heap is the list of all nodes ever allocated, the address of a node its position; a freed
  node is \<open>None\<close>, and its address is not given out again.
\<close>

type_synonym fl_heap = "fl_node option list"

section \<open>The daemon\<close>

record mux =
  m_cfg :: build_cfg
  m_channels :: "channel list"
  m_cmux_mode :: bool
  m_cmux_subset :: nat
  m_cmux_port_speed :: nat
  m_cmux_N1 :: nat
  m_vir_ports :: nat
  m_use_ping :: int
  m_use_timeout :: int
  m_pin_code :: int
  m_devicename :: string
  m_serial_fd :: int
  m_serial_state :: mux_state
  m_in_buf :: gsm_buffer
  m_in_buf_for_bootup :: "gsm_buffer option"
  m_adv_frame_size :: nat
  m_frame_receive_time :: int
  m_ping_number :: int
  m_main_exit_signal :: int
  m_uih_pf_bit_received :: bool
  m_pts_reopen :: bool
  m_close_down_send_disc :: bool
  m_mux_setup_chnl_complete :: bool
  m_stop_muxd :: bool
  m_LackofAtciChannel :: bool
  m_rild_started :: nat
  m_sabm_ua_received :: nat
  m_setup_complete_signals :: nat
  m_ua_rsp_for_disc_signals :: nat
  m_tx_msc_response_cache :: "bytes option"
  m_tx_msc_response_signals :: nat
  m_heap :: fl_heap
  m_errno :: errno
  m_writes :: "call_result list"
  m_reads :: "read_result list"
  m_opens :: "(int \<times> string option) list"
  m_syscalls :: "bool list"
  m_clock :: "int list"
  m_trace :: "event list"

text \<open>
  The static initial values, and the two receive buffers \<open>main\<close> allocates; of the second one
  \<open>None\<close> means that it was freed.  \<open>channellist\<close> and
  \<open>serial\<close> are zero: every channel starts with the file descriptor 0, which is standard input.
\<close>

definition mux_init :: "build_cfg \<Rightarrow> mux" where
  "mux_init c =
     \<lparr>m_cfg = c, m_channels = replicate (GSM0710_MAX_CHANNELS c) zero_channel,
      m_cmux_mode = True, m_cmux_subset = 0, m_cmux_port_speed = 5, m_cmux_N1 = 1509,
      m_vir_ports = 2, m_use_ping = 0, m_use_timeout = 0, m_pin_code = -1, m_devicename = [],
      m_serial_fd = 0, m_serial_state = MUX_STATE_OPENING, m_in_buf = gsm0710_buffer_init,
      m_in_buf_for_bootup = Some gsm0710_buffer_init, m_adv_frame_size = 0,
      m_frame_receive_time = 0, m_ping_number = 0, m_main_exit_signal = 0,
      m_uih_pf_bit_received = False, m_pts_reopen = False, m_close_down_send_disc = False,
      m_mux_setup_chnl_complete = False, m_stop_muxd = False, m_LackofAtciChannel = False,
      m_rild_started = 0, m_sabm_ua_received = 0, m_setup_complete_signals = 0,
      m_ua_rsp_for_disc_signals = 0, m_tx_msc_response_cache = None,
      m_tx_msc_response_signals = 0, m_heap = [],
      m_errno = ENONE, m_writes = [], m_reads = [], m_opens = [],
      m_syscalls = [], m_clock = [], m_trace = []\<rparr>"

definition emit :: "event \<Rightarrow> mux \<Rightarrow> mux" where
  "emit e m = m\<lparr>m_trace := m_trace m @ [e]\<rparr>"

definition get_channel :: "mux \<Rightarrow> nat \<Rightarrow> channel res" where
  "get_channel m i = array_get (m_channels m) i"

text \<open>The lookup \<open>channellist[ch].negotiated_N1\<close> of the frame reader.\<close>

definition chan_n1 :: "mux \<Rightarrow> nat \<Rightarrow> nat res" where
  "chan_n1 m i = bindE (get_channel m i) (\<lambda>ch. Inr (ch_negotiated_N1 ch))"

definition set_channel :: "nat \<Rightarrow> channel \<Rightarrow> mux \<Rightarrow> mux" where
  "set_channel i c m = m\<lparr>m_channels := (m_channels m)[i := c]\<rparr>"

text \<open>The octets that reached a descriptor, in order.\<close>

fun written_to :: "int \<Rightarrow> event list \<Rightarrow> bytes" where
  "written_to fd [] = []"
| "written_to fd (Wrote fd' xs # es) = (if fd' = fd then xs @ written_to fd es else written_to fd es)"
| "written_to fd (_ # es) = written_to fd es"

lemma written_to_append [simp]: "written_to fd (xs @ ys) = written_to fd xs @ written_to fd ys"
  by (induction fd xs rule: written_to.induct) auto

section \<open>write\<close>

text \<open>
  \<open>write (fd, buf, n)\<close>: the return value, \<open>errno\<close> set on failure only.  A count above \<open>n\<close> in the
  list of outcomes is read as \<open>n\<close>.
\<close>

definition sys_write :: "int \<Rightarrow> bytes \<Rightarrow> mux \<Rightarrow> int \<times> mux" where
  "sys_write fd buf m =
     (if fd < 0 then (-1, m\<lparr>m_errno := EBADF\<rparr>)
      else
        (case m_writes m of
           [] \<Rightarrow> (int (length buf), emit (Wrote fd buf) m)
         | CallOk n # rest \<Rightarrow>
             (int (min n (length buf)), emit (Wrote fd (take n buf)) (m\<lparr>m_writes := rest\<rparr>))
         | CallErr e # rest \<Rightarrow> (-1, m\<lparr>m_writes := rest, m_errno := e\<rparr>)))"

text \<open>\<open>do { c = write (...); } while (c < 0 && errno == EINTR)\<close>\<close>

function write_retry :: "int \<Rightarrow> bytes \<Rightarrow> mux \<Rightarrow> int \<times> mux" where
  "write_retry fd buf m =
     (case sys_write fd buf m of
        (c, m') \<Rightarrow> if c < 0 \<and> m_errno m' = EINTR then write_retry fd buf m' else (c, m'))"
  by pat_completeness auto
termination
  by (relation "measure (\<lambda>(fd, buf, m). length (m_writes m))")
    (auto simp: sys_write_def emit_def split: if_splits list.splits call_result.splits)

declare write_retry.simps [simp del]

text \<open>The kernel writes everything it is given from now on.\<close>

definition writes_ok :: "mux \<Rightarrow> bool" where
  "writes_ok m \<longleftrightarrow> m_writes m = []"

lemma write_retry_ok:
  "writes_ok m \<Longrightarrow> 0 \<le> fd \<Longrightarrow>
   write_retry fd buf m = (int (length buf), emit (Wrote fd buf) m)"
  by (subst write_retry.simps) (simp add: sys_write_def writes_ok_def)

lemma emit_simps [simp]:
  "m_channels (emit e m) = m_channels m"
  "m_writes (emit e m) = m_writes m"
  "m_serial_fd (emit e m) = m_serial_fd m"
  "m_stop_muxd (emit e m) = m_stop_muxd m"
  "m_cmux_mode (emit e m) = m_cmux_mode m"
  "m_uih_pf_bit_received (emit e m) = m_uih_pf_bit_received m"
  "m_trace (emit e m) = m_trace m @ [e]"
  "m_errno (emit e m) = m_errno m"
  "m_heap (emit e m) = m_heap m"
  "m_in_buf (emit e m) = m_in_buf m"
  "m_cfg (emit e m) = m_cfg m"
  "m_adv_frame_size (emit e m) = m_adv_frame_size m"
  "m_serial_state (emit e m) = m_serial_state m"
  by (simp_all add: emit_def)

end
