(* ===== verification/Mux_Crc.thy ===== *)
theory Mux_Crc
  imports Mux_Types
begin

text \<open>
  The frame check sequence: the table \<open>r_crctable\<close> and \<open>frame_calc_crc\<close>.  The table is shown
  to be the bit-reversed CRC-8 with polynomial \<open>x^8 + x^2 + x + 1\<close>, one octet at a time; from
  that it is a linear bijection on octets, and the receiver's test (\<open>r_crctable[...] == 0xCF\<close>)
  accepts exactly the transmitter's checksum.
\<close>

definition r_crctable :: bytes where
  "r_crctable =
    [0x00, 0x91, 0xE3, 0x72, 0x07, 0x96, 0xE4, 0x75, 0x0E, 0x9F, 0xED,
     0x7C, 0x09, 0x98, 0xEA, 0x7B, 0x1C, 0x8D, 0xFF, 0x6E, 0x1B, 0x8A,
     0xF8, 0x69, 0x12, 0x83, 0xF1, 0x60, 0x15, 0x84, 0xF6, 0x67, 0x38,
     0xA9, 0xDB, 0x4A, 0x3F, 0xAE, 0xDC, 0x4D, 0x36, 0xA7, 0xD5, 0x44,
     0x31, 0xA0, 0xD2, 0x43, 0x24, 0xB5, 0xC7, 0x56, 0x23, 0xB2, 0xC0,
     0x51, 0x2A, 0xBB, 0xC9, 0x58, 0x2D, 0xBC, 0xCE, 0x5F, 0x70, 0xE1,
     0x93, 0x02, 0x77, 0xE6, 0x94, 0x05, 0x7E, 0xEF, 0x9D, 0x0C, 0x79,
     0xE8, 0x9A, 0x0B, 0x6C, 0xFD, 0x8F, 0x1E, 0x6B, 0xFA, 0x88, 0x19,
     0x62, 0xF3, 0x81, 0x10, 0x65, 0xF4, 0x86, 0x17, 0x48, 0xD9, 0xAB,
     0x3A, 0x4F, 0xDE, 0xAC, 0x3D, 0x46, 0xD7, 0xA5, 0x34, 0x41, 0xD0,
     0xA2, 0x33, 0x54, 0xC5, 0xB7, 0x26, 0x53, 0xC2, 0xB0, 0x21, 0x5A,
     0xCB, 0xB9, 0x28, 0x5D, 0xCC, 0xBE, 0x2F, 0xE0, 0x71, 0x03, 0x92,
     0xE7, 0x76, 0x04, 0x95, 0xEE, 0x7F, 0x0D, 0x9C, 0xE9, 0x78, 0x0A,
     0x9B, 0xFC, 0x6D, 0x1F, 0x8E, 0xFB, 0x6A, 0x18, 0x89, 0xF2, 0x63,
     0x11, 0x80, 0xF5, 0x64, 0x16, 0x87, 0xD8, 0x49, 0x3B, 0xAA, 0xDF,
     0x4E, 0x3C, 0xAD, 0xD6, 0x47, 0x35, 0xA4, 0xD1, 0x40, 0x32, 0xA3,
     0xC4, 0x55, 0x27, 0xB6, 0xC3, 0x52, 0x20, 0xB1, 0xCA, 0x5B, 0x29,
     0xB8, 0xCD, 0x5C, 0x2E, 0xBF, 0x90, 0x01, 0x73, 0xE2, 0x97, 0x06,
     0x74, 0xE5, 0x9E, 0x0F, 0x7D, 0xEC, 0x99, 0x08, 0x7A, 0xEB, 0x8C,
     0x1D, 0x6F, 0xFE, 0x8B, 0x1A, 0x68, 0xF9, 0x82, 0x13, 0x61, 0xF0,
     0x85, 0x14, 0x66, 0xF7, 0xA8, 0x39, 0x4B, 0xDA, 0xAF, 0x3E, 0x4C,
     0xDD, 0xA6, 0x37, 0x45, 0xD4, 0xA1, 0x30, 0x42, 0xD3, 0xB4, 0x25,
     0x57, 0xC6, 0xB3, 0x22, 0x50, 0xC1, 0xBA, 0x2B, 0x59, 0xC8, 0xBD,
     0x2C, 0x5E, 0xCF]"

text \<open>\<open>fcs = r_crctable[fcs ^ b]\<close>, the step every loop over the table makes.\<close>

definition crc_step :: "u8 \<Rightarrow> u8 \<Rightarrow> u8" where
  "crc_step b fcs = r_crctable ! unat (fcs XOR b)"

definition frame_calc_crc :: "bytes \<Rightarrow> u8" where
  "frame_calc_crc input = 0xFF - fold crc_step input 0xFF"

section \<open>The table against the polynomial\<close>

text \<open>One bit of the reversed CRC: 0xE0 is \<open>x^8 + x^2 + x + 1\<close> read from the low end.\<close>

definition crc_bit :: "u8 \<Rightarrow> u8" where
  "crc_bit x = drop_bit 1 x XOR (if bit x 0 then 0xE0 else 0)"

definition crc_byte :: "u8 \<Rightarrow> u8" where
  "crc_byte x =
     crc_bit (crc_bit (crc_bit (crc_bit (crc_bit (crc_bit (crc_bit (crc_bit x)))))))"

lemma octets_upt:
  "map word_of_nat [0..<256] =
     [0, 1, 2, 3, 4, 5, 6, 7, 8, 9, 10, 11, 12, 13, 14, 15,
      16, 17, 18, 19, 20, 21, 22, 23, 24, 25, 26, 27, 28, 29, 30, 31,
      32, 33, 34, 35, 36, 37, 38, 39, 40, 41, 42, 43, 44, 45, 46, 47,
      48, 49, 50, 51, 52, 53, 54, 55, 56, 57, 58, 59, 60, 61, 62, 63,
      64, 65, 66, 67, 68, 69, 70, 71, 72, 73, 74, 75, 76, 77, 78, 79,
      80, 81, 82, 83, 84, 85, 86, 87, 88, 89, 90, 91, 92, 93, 94, 95,
      96, 97, 98, 99, 100, 101, 102, 103, 104, 105, 106, 107, 108, 109, 110, 111,
      112, 113, 114, 115, 116, 117, 118, 119, 120, 121, 122, 123, 124, 125, 126, 127,
      128, 129, 130, 131, 132, 133, 134, 135, 136, 137, 138, 139, 140, 141, 142, 143,
      144, 145, 146, 147, 148, 149, 150, 151, 152, 153, 154, 155, 156, 157, 158, 159,
      160, 161, 162, 163, 164, 165, 166, 167, 168, 169, 170, 171, 172, 173, 174, 175,
      176, 177, 178, 179, 180, 181, 182, 183, 184, 185, 186, 187, 188, 189, 190, 191,
      192, 193, 194, 195, 196, 197, 198, 199, 200, 201, 202, 203, 204, 205, 206, 207,
      208, 209, 210, 211, 212, 213, 214, 215, 216, 217, 218, 219, 220, 221, 222, 223,
      224, 225, 226, 227, 228, 229, 230, 231, 232, 233, 234, 235, 236, 237, 238, 239,
      240, 241, 242, 243, 244, 245, 246, 247, 248, 249, 250, 251, 252, 253, 254, 255 :: u8]"
  by (simp add: upt_conv_Cons)

lemma r_crctable_map: "r_crctable = map crc_byte (map word_of_nat [0..<256])"
  unfolding octets_upt by (simp add: r_crctable_def crc_byte_def crc_bit_def)

lemma length_r_crctable [simp]: "length r_crctable = 256"
  by (simp add: r_crctable_map)

lemma r_crctable_nth [simp]: "r_crctable ! unat x = crc_byte x"
  unfolding r_crctable_map by (simp del: upt_Suc)

lemma crc_step_eq: "crc_step b fcs = crc_byte (fcs XOR b)"
  by (simp add: crc_step_def)

lemma crc_bit_eq_0: "crc_bit x = 0 \<Longrightarrow> x = 0"
proof (rule bit_word_eqI)
  fix n
  assume z: "crc_bit x = 0" and n: "n < LENGTH(8)"
  have "bit (crc_bit x) 7 = bit x 0"
    using bit_imp_le_length [of x 8] by (auto simp: crc_bit_def bit_xor_iff bit_drop_bit_eq)
  with z have b0: "\<not> bit x 0" by simp
  show "bit x n = bit 0 n"
  proof (cases n)
    case 0
    with b0 show ?thesis by simp
  next
    case (Suc m)
    have "bit (crc_bit x) m = bit x n"
      using b0 Suc by (simp add: crc_bit_def bit_drop_bit_eq)
    with z show ?thesis by simp
  qed
qed

lemma crc_bit_xor: "crc_bit (x XOR y) = crc_bit x XOR crc_bit y"
  by (rule bit_word_eqI) (auto simp: crc_bit_def bit_xor_iff bit_drop_bit_eq)

lemma crc_byte_xor: "crc_byte (x XOR y) = crc_byte x XOR crc_byte y"
  by (simp only: crc_byte_def crc_bit_xor)

lemma crc_byte_eq_0: "crc_byte x = 0 \<Longrightarrow> x = 0"
  unfolding crc_byte_def by (blast dest: crc_bit_eq_0)

lemma crc_byte_inj [simp]: "crc_byte x = crc_byte y \<longleftrightarrow> x = y"
proof
  assume "crc_byte x = crc_byte y"
  then have "crc_byte (x XOR y) = 0" by (simp add: crc_byte_xor)
  then have "x XOR y = 0" by (rule crc_byte_eq_0)
  then show "x = y" by (metis xor_right_cancel xor_self_eq)
qed simp

section \<open>Checking a received frame\<close>

lemma crc_byte_check: "crc_byte x = 0xCF \<longleftrightarrow> x = 0xFF"
proof -
  have "crc_byte 0xFF = 0xCF" by (simp add: crc_byte_def crc_bit_def)
  then show ?thesis by (metis crc_byte_inj)
qed

lemma xor_not_self: "x XOR NOT x = (- 1 :: 'a::len word)"
  by (rule bit_word_eqI) (simp add: bit_xor_iff bit_not_iff)

lemma frame_calc_crc_not: "frame_calc_crc xs = NOT (fold crc_step xs 0xFF)"
  unfolding frame_calc_crc_def by (rule minus_max_eq_not)

text \<open>The receiver folds the header, then the received check octet, and compares with 0xCF.\<close>

lemma fcs_accepts_iff:
  "crc_step c (fold crc_step xs 0xFF) = 0xCF \<longleftrightarrow> c = frame_calc_crc xs"
proof -
  let ?s = "fold crc_step xs 0xFF"
  have "?s XOR NOT ?s = 0xFF" using xor_not_self [of ?s] by simp
  then have "?s XOR c = 0xFF \<longleftrightarrow> c = NOT ?s" by (metis xor_left_cancel)
  then show ?thesis by (simp add: crc_step_eq crc_byte_check frame_calc_crc_not)
qed

lemma fold_crc_inj: "fold crc_step xs a = fold crc_step xs b \<Longrightarrow> a = b"
proof (induction xs arbitrary: a b)
  case Nil
  then show ?case by simp
next
  case (Cons x xs)
  from Cons.prems have "fold crc_step xs (crc_step x a) = fold crc_step xs (crc_step x b)" by simp
  then have "crc_step x a = crc_step x b" by (rule Cons.IH)
  then show ?case by (simp add: crc_step_eq)
qed

lemma fold_crc_update:
  assumes "i < length xs" and "y \<noteq> xs ! i"
  shows "fold crc_step (xs[i := y]) a \<noteq> fold crc_step xs a"
proof
  assume eq: "fold crc_step (xs[i := y]) a = fold crc_step xs a"
  have xs: "xs = take i xs @ xs ! i # drop (Suc i) xs"
    using assms(1) by (rule id_take_nth_drop)
  have ys: "xs[i := y] = take i xs @ y # drop (Suc i) xs"
    using assms(1) by (rule upd_conv_take_nth_drop)
  let ?s = "fold crc_step (take i xs) a"
  have "fold crc_step (drop (Suc i) xs) (crc_step y ?s)
      = fold crc_step (drop (Suc i) xs) (crc_step (xs ! i) ?s)"
    using eq by (subst (asm) ys, subst (asm) (2) xs) simp
  then have "crc_step y ?s = crc_step (xs ! i) ?s" by (rule fold_crc_inj)
  with assms(2) show False by (simp add: crc_step_eq)
qed

section \<open>Properties\<close>

text \<open>C32. The table and the loop over it compute the bitwise CRC with the reversed polynomial 0x07
  (octet by octet: shift right, and xor 0xE0 when a 1 falls out), complemented.\<close>

theorem frame_calc_crc_is_crc8:
  "frame_calc_crc input = NOT (fold (\<lambda>b s. crc_byte (s XOR b)) input 0xFF)"
  unfolding frame_calc_crc_not by (simp add: crc_step_eq [abs_def])

text \<open>The receiver's test, that folding the check octet into the sum of the others gives 0xCF,
  accepts the transmitter's checksum and no other octet.\<close>

theorem fcs_test_exact:
  "crc_step c (fold crc_step xs 0xFF) = 0xCF \<longleftrightarrow> c = frame_calc_crc xs"
  by (rule fcs_accepts_iff)

text \<open>Changing any one octet under the checksum changes the checksum.\<close>

theorem fcs_detects_octet_error:
  assumes "i < length xs" and "y \<noteq> xs ! i"
  shows "frame_calc_crc (xs[i := y]) \<noteq> frame_calc_crc xs"
  using fold_crc_update [OF assms] by (simp add: frame_calc_crc_not)

theorem fcs_detects_octet_error_witness:
  "frame_calc_crc ([3, 0xEF, 9][1 := 0xEE]) \<noteq> frame_calc_crc [3, 0xEF, 9]"
  by (rule fcs_detects_octet_error) simp_all

end
