(* ===== verification/Mux_Tx.thy ===== *)
theory Mux_Tx
  imports Mux_World Mux_Crc
begin

text \<open>
  Sending frames: \<open>fill_adv_frame_buf\<close>, \<open>write_frame\<close>, \<open>rx_thread_write_frame\<close> and
  \<open>handle_channel_data\<close>.  The input of \<open>write_frame\<close> is the list of its \<open>length\<close> octets; \<open>NULL\<close>
  with length 0 is the empty list.  \<open>syslogdump\<close> and \<open>LOGMUX\<close> only log and are left out.
\<close>

definition PROPERTY_MODEM_EE :: string where
  "PROPERTY_MODEM_EE = ''ril.mux.ee.md1''"

section \<open>The C functions\<close>

definition fill_adv_frame_buf :: "bytes \<Rightarrow> bytes" where
  "fill_adv_frame_buf data =
     concat (map (\<lambda>x. if x \<in> set GSM0710_FRAME_ADV_ESCAPED_SYMS
                      then [GSM0710_FRAME_ADV_ESC, x XOR GSM0710_FRAME_ADV_ESC_COPML]
                      else [x]) data)"

text \<open>\<open>prefix + 1\<close>: address, control and, in basic mode, the length field.\<close>

definition frame_address :: "nat \<Rightarrow> u8" where
  "frame_address channel = (GSM0710_EA OR GSM0710_CR) OR push_bit 2 (63 AND word_of_nat channel)"

definition length_field :: "nat \<Rightarrow> bytes" where
  "length_field len =
     (if len > 127 then
        [word_of_nat (push_bit 1 (0x7F AND len)), word_of_nat (drop_bit 7 (0x7F80 AND len))]
      else [word_of_nat (1 OR push_bit 1 len)])"

text \<open>What a failed or short write makes of the frame: the modem is gone, or try again.\<close>

definition write_failed :: "nat \<Rightarrow> bool \<Rightarrow> mux \<Rightarrow> nat \<times> mux" where
  "write_failed len failed m =
     (if failed \<and> (m_errno m = ETXTBSY \<or> m_errno m = ENODEV)
      then (len, emit (Property_Set PROPERTY_MODEM_EE ''1'') m) else (0, m))"

definition write_postfix :: "nat \<Rightarrow> bytes \<Rightarrow> mux \<Rightarrow> nat \<times> mux" where
  "write_postfix len postfix m =
     (case write_retry (m_serial_fd m) postfix m of
        (c, m') \<Rightarrow> if c \<noteq> 2 then write_failed len True m' else (len, m'))"

definition write_basic :: "bytes \<Rightarrow> bytes \<Rightarrow> bytes \<Rightarrow> mux \<Rightarrow> nat \<times> mux" where
  "write_basic prefix input postfix m =
     (case write_retry (m_serial_fd m) prefix m of
        (c1, m1) \<Rightarrow>
          if c1 \<noteq> int (length prefix) then write_failed (length input) (c1 < 0) m1
          else if length input > 0 then
            (case write_retry (m_serial_fd m1) input m1 of
               (c2, m2) \<Rightarrow>
                 if int (length input) \<noteq> c2 then write_failed (length input) (c2 < 0) m2
                 else write_postfix (length input) postfix m2)
          else write_postfix (length input) postfix m1)"

definition write_advanced :: "u8 \<Rightarrow> u8 \<Rightarrow> bytes \<Rightarrow> mux \<Rightarrow> (nat \<times> mux) res" where
  "write_advanced address control input m =
     (let out = [GSM0710_FRAME_ADV_FLAG] @ fill_adv_frame_buf [address, control]
                @ fill_adv_frame_buf input
                @ fill_adv_frame_buf [frame_calc_crc [address, control]]
                @ [GSM0710_FRAME_ADV_FLAG]
      in if length out > m_adv_frame_size m then Inl OutOfBounds
         else
           (case sys_write (m_serial_fd m) out m of
              (c, m') \<Rightarrow> Inr (if c \<noteq> int (length out) then 0 else length input, m')))"

text \<open>
  The P/F bit of a response is set when the command had it set; \<open>input[0]\<close> is only read when the
  other two conditions hold.
\<close>

definition frame_control :: "u8 \<Rightarrow> bytes \<Rightarrow> mux \<Rightarrow> (u8 \<times> mux) res" where
  "frame_control type input m =
     (if (type = GSM0710_TYPE_UIH \<or> type = GSM0710_TYPE_UI) \<and> m_uih_pf_bit_received m then
        bindE (array_get input 0) (\<lambda>b.
          if GSM0710_COMMAND_IS b GSM0710_CONTROL_MSC
          then Inr (type OR GSM0710_PF, m\<lparr>m_uih_pf_bit_received := False\<rparr>)
          else Inr (type, m))
      else Inr (type, m))"

definition send_frame :: "u8 \<Rightarrow> u8 \<Rightarrow> bytes \<Rightarrow> mux \<Rightarrow> (nat \<times> mux) res" where
  "send_frame address control payload m =
     (if \<not> m_cmux_mode m then
        (let header = [address, control] @ length_field (length payload)
         in Inr (write_basic (GSM0710_FRAME_FLAG # header) payload
                   [frame_calc_crc header, GSM0710_FRAME_FLAG] m))
      else write_advanced address control payload m)"

text \<open>A frame carries at most the \<open>negotiated_N1\<close> of its channel.\<close>

definition write_frame :: "nat \<Rightarrow> bytes \<Rightarrow> u8 \<Rightarrow> mux \<Rightarrow> (nat \<times> mux) res" where
  "write_frame channel input type m =
     (if m_stop_muxd m then Inr (1, m)
      else
        bindE (frame_control type input m) (\<lambda>(control, m1).
        bindE (get_channel m1 channel) (\<lambda>ch.
          send_frame (frame_address channel) control
            (take (min (ch_negotiated_N1 ch) (length input)) input) m1)))"

definition rx_thread_write_frame :: "nat \<Rightarrow> bytes \<Rightarrow> u8 \<Rightarrow> mux \<Rightarrow> (nat \<times> mux) res" where
  "rx_thread_write_frame channel input type m =
     bindE (write_frame channel input type m) (\<lambda>(_, m'). Inr (length input, m'))"

section \<open>Octets reported as written\<close>

lemma write_failed_le: "fst (write_failed len failed m) \<le> len"
  by (simp add: write_failed_def)

lemma write_postfix_le: "fst (write_postfix len postfix m) \<le> len"
  by (auto simp: write_postfix_def write_failed_le split: prod.splits)

lemma write_basic_le: "fst (write_basic prefix input postfix m) \<le> length input"
  using write_postfix_le [of 0]
  by (auto simp: write_basic_def write_failed_le write_postfix_le split: prod.splits)

lemma write_advanced_le:
  "write_advanced address control input m = Inr (n, m') \<Longrightarrow> n \<le> length input"
  by (auto simp: write_advanced_def Let_def split: if_splits prod.splits)

lemma send_frame_le:
  "send_frame address control payload m = Inr (n, m') \<Longrightarrow> n \<le> length payload"
  using write_basic_le
  by (auto simp: send_frame_def Let_def dest: write_advanced_le split: if_splits) (metis fst_conv)

lemma write_frame_le:
  assumes "write_frame channel input type m = Inr (n, m')" and "input \<noteq> []"
  shows "n \<le> length input"
proof (cases "m_stop_muxd m")
  case True
  with assms show ?thesis by (cases input) (auto simp: write_frame_def)
next
  case False
  with assms(1) show ?thesis
    by (auto simp: write_frame_def bindE_eq_Inr dest!: send_frame_le)
qed

text \<open>
  Splitting what an application wrote into frames.  The first argument is the number of attempts
  that wrote nothing, the second the data not written yet.
\<close>

function handle_channel_loop :: "nat \<Rightarrow> bytes \<Rightarrow> nat \<Rightarrow> mux \<Rightarrow> (nat \<times> mux) res" where
  "handle_channel_loop i rest channel m =
     (if rest \<noteq> [] \<and> i < GSM0710_WRITE_RETRIES then
        bindE (write_frame channel rest GSM0710_TYPE_UIH m) (\<lambda>(last, m').
          handle_channel_loop (if last = 0 then Suc i else i) (drop last rest) channel m')
      else Inr (length rest, m))"
  by pat_completeness auto
termination
  by (relation "measure (\<lambda>(i, rest, channel, m). length rest + (GSM0710_WRITE_RETRIES - i))")
    (auto simp: neq_Nil_conv)

declare handle_channel_loop.simps [simp del]

definition handle_channel_data :: "bytes \<Rightarrow> nat \<Rightarrow> mux \<Rightarrow> (nat \<times> mux) res" where
  "handle_channel_data buf channel m = handle_channel_loop 0 buf channel m"

end
