(* ===== verification/Mux_RxBasic.thy ===== *)
theory Mux_RxBasic
  imports Mux_Buffer Mux_Crc
begin

text \<open>
  Taking a frame of the basic option out of the receive buffer
  (\<open>gsm0710_base_buffer_get_frame\<close>).  The C function works on the circular array; the second half
  of the theory gives its meaning on the list of octets the buffer holds (\<open>get_spec\<close>) and proves
  that the C function computes exactly that.  The lookup of \<open>channellist[ch].negotiated_N1\<close> is the
  argument \<open>n1\<close>; it fails for a channel number outside the table.
\<close>

section \<open>The C function\<close>

text \<open>Looking for the start flag; every octet looked at is consumed.\<close>

function base_find_flag :: "gsm_buffer \<Rightarrow> gsm_buffer" where
  "base_find_flag b =
     (if \<not> b_flag_found b \<and> gsm0710_buffer_length b > 0 then
        base_find_flag (gsm0710_buffer_inc
          (if b_data b ! b_readp b = GSM0710_FRAME_FLAG then b\<lparr>b_flag_found := True\<rparr> else b))
      else b)"
  by pat_completeness auto
termination
  by (relation "measure b_datacount") (auto simp: gsm0710_buffer_length_def)

declare base_find_flag.simps [simp del]

text \<open>Skipping empty frames, that is further start flags.\<close>

function base_skip_flags :: "gsm_buffer \<Rightarrow> gsm_buffer" where
  "base_skip_flags b =
     (if gsm0710_buffer_length b > 0 \<and> b_data b ! b_readp b = GSM0710_FRAME_FLAG then
        base_skip_flags (gsm0710_buffer_inc b)
      else b)"
  by pat_completeness auto
termination
  by (relation "measure b_datacount") (auto simp: gsm0710_buffer_length_def)

declare base_skip_flags.simps [simp del]

text \<open>
  Address, control and length field, read through the local copies of \<open>readp\<close> and \<open>datacount\<close>.  On
  return the local pointer is on the last octet of the length field, which is not counted yet.
\<close>

definition base_header :: "gsm_buffer \<Rightarrow> u8 \<times> u8 \<times> nat \<times> u8 \<times> (nat \<times> nat)" where
  "base_header b =
     (let p0 = (b_readp b, b_datacount b);
          addr = b_data b ! fst p0;
          channel = GSM0710_DECODE_ADDRESS addr;
          fcs1 = crc_step addr 0xFF;
          p1 = ptr_inc p0;
          control = b_data b ! fst p1;
          fcs2 = crc_step control fcs1;
          p2 = ptr_inc p1;
          l1 = b_data b ! fst p2;
          len1 = unat (drop_bit 1 (l1 AND 254));
          fcs3 = crc_step l1 fcs2
      in if l1 AND 1 = 0 then
           (let p3 = ptr_inc p2;
                l2 = b_data b ! fst p3
            in (channel, control, len1 + unat l2 * 128, crc_step l2 fcs3, p3))
         else (channel, control, len1, fcs3, p2))"

text \<open>Copying the payload out of the circular array; the pointer ends on the FCS field.\<close>

definition base_payload :: "gsm_buffer \<Rightarrow> nat \<times> nat \<Rightarrow> nat \<Rightarrow> bytes \<times> (nat \<times> nat)" where
  "base_payload b p len =
     (if len > 0 then
        (let end = GSM0710_BUFFER_SIZE - fst p
         in if len > end then
              (take end (drop (fst p) (b_data b)) @ take (len - end) (b_data b),
               (len - end, snd p - len))
            else
              (take len (drop (fst p) (b_data b)),
               (if fst p + len = GSM0710_BUFFER_SIZE then 0 else fst p + len, snd p - len)))
      else ([], p))"

datatype base_result =
    Incomplete
  | Dropped "nat \<times> nat"
  | Complete gsm_frame "nat \<times> nat"

definition base_analyse :: "(nat \<Rightarrow> nat res) \<Rightarrow> gsm_buffer \<Rightarrow> base_result res" where
  "base_analyse n1 b =
     (if b_datacount b \<ge> 5 then
        (case base_header b of (channel, control, len, fcs, p) \<Rightarrow>
           bindE (n1 (unat channel)) (\<lambda>N1.
             if len > N1 then Inr (Dropped p)
             else if \<not> (snd p \<ge> 3 + len) then Inr Incomplete
             else
               (case base_payload b (ptr_inc p) len of (data, q) \<Rightarrow>
                  let frame = \<lparr>f_channel = channel, f_control = control, f_data = data\<rparr>;
                      fcs' = (if GSM0710_FRAME_IS GSM0710_TYPE_UI frame then fold crc_step data fcs
                              else fcs);
                      q' = ptr_inc q
                  in if crc_step (b_data b ! fst q) fcs' \<noteq> 0xCF then Inr (Dropped q')
                     else if b_data b ! fst q' \<noteq> GSM0710_FRAME_FLAG then Inr (Dropped q')
                     else Inr (Complete frame (ptr_inc q')))))
      else Inr Incomplete)"

text \<open>Storing the local copies back, at both ends of the function.\<close>

definition base_update :: "gsm_buffer \<Rightarrow> nat \<times> nat \<Rightarrow> gsm_buffer" where
  "base_update b p =
     b\<lparr>b_readp := fst p, b_datacount := b_datacount b - (b_datacount b - snd p),
       b_flag_found := False\<rparr>"

function base_buffer_get_frame ::
  "(nat \<Rightarrow> nat res) \<Rightarrow> gsm_buffer \<Rightarrow> nat \<Rightarrow> (gsm_frame option \<times> gsm_buffer) res" where
  "base_buffer_get_frame n1 buf passed_depth_level =
     (if passed_depth_level < MAX_RESYNC_GET_FRAME_COUNT then
        (let b1 = base_find_flag buf
         in if \<not> b_flag_found b1 then Inr (None, signal_bufferready b1)
            else
              (let b2 = base_skip_flags b1
               in bindE (base_analyse n1 b2) (\<lambda>r.
                    case r of
                      Incomplete \<Rightarrow> Inr (None, b2)
                    | Dropped p \<Rightarrow>
                        base_buffer_get_frame n1
                          (base_update (b2\<lparr>b_dropped_count := b_dropped_count b2 + 1\<rparr>) p)
                          (Suc passed_depth_level)
                    | Complete frame p \<Rightarrow>
                        Inr (Some frame,
                             base_update (b2\<lparr>b_received_count := b_received_count b2 + 1\<rparr>) p))))
      else Inl (Assert 13))"
  by pat_completeness auto
termination
  by (relation "measure (\<lambda>(n1, buf, d). MAX_RESYNC_GET_FRAME_COUNT - d)") auto

declare base_buffer_get_frame.simps [simp del]

section \<open>The same on the octets held\<close>

text \<open>
  What one frame analysis does with the octets \<open>xs\<close> that follow the flags: \<open>Some (f, k)\<close> is a
  frame of \<open>k\<close> octets, \<open>Dropped\<close> and \<open>Complete\<close> carry how many octets are consumed.
\<close>

datatype spec_result =
    SIncomplete
  | SDropped nat
  | SComplete gsm_frame nat

definition analyse_spec :: "(nat \<Rightarrow> nat res) \<Rightarrow> bytes \<Rightarrow> spec_result res" where
  "analyse_spec n1 xs =
     (if length xs < 5 then Inr SIncomplete
      else
        (let k = (if xs ! 2 AND 1 = 0 then 3 else 2);
             len = unat (drop_bit 1 (xs ! 2 AND 254)) + (if k = 3 then unat (xs ! 3) * 128 else 0);
             channel = GSM0710_DECODE_ADDRESS (xs ! 0);
             payload = take len (drop (k + 1) xs);
             frame = \<lparr>f_channel = channel, f_control = xs ! 1, f_data = payload\<rparr>;
             checked = take (k + 1) xs @ (if GSM0710_FRAME_IS GSM0710_TYPE_UI frame then payload else [])
         in bindE (n1 (unat channel)) (\<lambda>N1.
              if len > N1 then Inr (SDropped k)
              else if length xs < k + 3 + len then Inr SIncomplete
              else if xs ! (k + 1 + len) \<noteq> frame_calc_crc checked
                    \<or> xs ! (k + 2 + len) \<noteq> GSM0710_FRAME_FLAG then Inr (SDropped (k + 2 + len))
              else Inr (SComplete frame (k + 3 + len)))))"

text \<open>The flag state and the octets after the search for a flag and the skipping of empty frames.\<close>

definition seek_flag :: "bool \<Rightarrow> bytes \<Rightarrow> (bool \<times> bytes)" where
  "seek_flag flag xs =
     (if flag then (True, xs)
      else (GSM0710_FRAME_FLAG \<in> set xs, tl (dropWhile (\<lambda>x. x \<noteq> GSM0710_FRAME_FLAG) xs)))"

function get_spec ::
  "(nat \<Rightarrow> nat res) \<Rightarrow> bool \<Rightarrow> bytes \<Rightarrow> nat \<Rightarrow> (gsm_frame option \<times> bool \<times> bytes) res" where
  "get_spec n1 flag xs d =
     (if d < MAX_RESYNC_GET_FRAME_COUNT then
        (case seek_flag flag xs of (found, ys) \<Rightarrow>
           if \<not> found then Inr (None, False, [])
           else
             (let zs = dropWhile (\<lambda>x. x = GSM0710_FRAME_FLAG) ys
              in bindE (analyse_spec n1 zs) (\<lambda>r.
                   case r of
                     SIncomplete \<Rightarrow> Inr (None, True, zs)
                   | SDropped k \<Rightarrow> get_spec n1 False (drop k zs) (Suc d)
                   | SComplete frame k \<Rightarrow> Inr (Some frame, False, drop k zs))))
      else Inl (Assert 13))"
  by pat_completeness auto
termination
  by (relation "measure (\<lambda>(n1, flag, xs, d). MAX_RESYNC_GET_FRAME_COUNT - d)") auto

declare get_spec.simps [simp del]

section \<open>The C function computes the specification\<close>

lemma find_flag_contents:
  "buf_inv b \<Longrightarrow>
   buf_inv (base_find_flag b) \<and>
   (b_flag_found (base_find_flag b), contents (base_find_flag b)) =
     seek_flag (b_flag_found b) (contents b)"
proof (induction b rule: base_find_flag.induct)
  case (1 b)
  show ?case
  proof (cases "\<not> b_flag_found b \<and> gsm0710_buffer_length b > 0")
    case True
    then have pos: "0 < b_datacount b" and nf: "\<not> b_flag_found b"
      by (auto simp: gsm0710_buffer_length_def)
    let ?b' = "if b_data b ! b_readp b = GSM0710_FRAME_FLAG then b\<lparr>b_flag_found := True\<rparr> else b"
    have inv: "buf_inv (gsm0710_buffer_inc ?b')"
      using 1(2) pos by (intro buf_inv_inc) auto
    have cont: "contents b = b_data b ! b_readp b # contents (gsm0710_buffer_inc ?b')"
      using contents_inc [of ?b'] 1(2) pos by (auto split: if_splits)
    have step: "base_find_flag b = base_find_flag (gsm0710_buffer_inc ?b')"
      using True by (subst base_find_flag.simps) simp
    from "1.IH" [OF True inv] cont nf show ?thesis
      unfolding step by (auto simp: seek_flag_def)
  next
    case False
    then have step: "base_find_flag b = b" by (subst base_find_flag.simps) (simp only: if_False)
    from False have "b_flag_found b \<or> contents b = []"
      by (auto simp: gsm0710_buffer_length_def)
    with 1(2) show ?thesis
      unfolding step by (auto simp: seek_flag_def contents_empty)
  qed
qed

lemma skip_flags_contents:
  "buf_inv b \<Longrightarrow>
   buf_inv (base_skip_flags b) \<and> b_flag_found (base_skip_flags b) = b_flag_found b \<and>
   contents (base_skip_flags b) = dropWhile (\<lambda>x. x = GSM0710_FRAME_FLAG) (contents b)"
proof (induction b rule: base_skip_flags.induct)
  case (1 b)
  show ?case
  proof (cases "gsm0710_buffer_length b > 0")
    case True
    then have pos: "0 < b_datacount b" by (simp add: gsm0710_buffer_length_def)
    note cont = contents_inc [OF 1(2) pos]
    show ?thesis
    proof (cases "b_data b ! b_readp b = GSM0710_FRAME_FLAG")
      case flag: True
      have step: "base_skip_flags b = base_skip_flags (gsm0710_buffer_inc b)"
        using True flag by (subst base_skip_flags.simps) simp
      from "1.IH" True flag buf_inv_inc [OF 1(2) pos] cont show ?thesis
        unfolding step by simp
    next
      case False
      then have step: "base_skip_flags b = b" by (subst base_skip_flags.simps) simp
      from False 1(2) cont show ?thesis
        unfolding step by simp
    qed
  next
    case False
    then have step: "base_skip_flags b = b" by (subst base_skip_flags.simps) simp
    from False have "contents b = []" by (intro contents_empty) (simp add: gsm0710_buffer_length_def)
    with 1(2) show ?thesis
      unfolding step by (simp add: contents_empty)
  qed
qed

text \<open>The local pointer and counter after \<open>k\<close> octets.\<close>

definition ptr_at :: "gsm_buffer \<Rightarrow> nat \<Rightarrow> nat \<times> nat" where
  "ptr_at b k = ((b_readp b + k) mod GSM0710_BUFFER_SIZE, b_datacount b - k)"

lemma ptr_at_0: "buf_inv b \<Longrightarrow> ptr_at b 0 = (b_readp b, b_datacount b)"
  by (simp add: ptr_at_def buf_inv_def)

lemma ptr_inc_at: "ptr_inc (ptr_at b k) = ptr_at b (Suc k)"
  by (auto simp: ptr_inc_def ptr_at_def mod_Suc)

lemma snd_ptr_at [simp]: "snd (ptr_at b k) = b_datacount b - k"
  by (simp add: ptr_at_def)

lemma read_at:
  "buf_inv b \<Longrightarrow> k < b_datacount b \<Longrightarrow> b_data b ! fst (ptr_at b k) = contents b ! k"
  by (simp add: ptr_at_def contents_def buf_inv_def)

lemma take_Suc3: "3 \<le> length xs \<Longrightarrow> take 3 xs = [xs ! 0, xs ! 1, xs ! 2]"
  by (rule nth_equalityI) (auto simp: less_Suc_eq eval_nat_numeral)

lemma take_Suc4: "4 \<le> length xs \<Longrightarrow> take 4 xs = [xs ! 0, xs ! 1, xs ! 2, xs ! 3]"
  by (rule nth_equalityI) (auto simp: less_Suc_eq eval_nat_numeral)

lemma base_header_eq:
  assumes "buf_inv b" and "5 \<le> b_datacount b"
  defines "xs \<equiv> contents b"
  defines "k \<equiv> (if xs ! 2 AND 1 = 0 then 3 else 2)"
  shows "base_header b =
    (GSM0710_DECODE_ADDRESS (xs ! 0), xs ! 1,
     unat (drop_bit 1 (xs ! 2 AND 254)) + (if k = 3 then unat (xs ! 3) * 128 else 0),
     fold crc_step (take (k + 1) xs) 0xFF, ptr_at b k)"
proof -
  have rd: "b_data b ! fst (ptr_at b j) = xs ! j" if "j < 5" for j
    using that assms(1,2) by (simp add: read_at xs_def)
  have p: "ptr_inc (ptr_at b 0) = ptr_at b 1" "ptr_inc (ptr_at b 1) = ptr_at b 2"
    "ptr_inc (ptr_at b 2) = ptr_at b 3"
    by (simp_all add: ptr_inc_at eval_nat_numeral)
  have len: "5 \<le> length xs" using assms(2) by (simp add: xs_def)
  have t: "take 3 xs = [xs ! 0, xs ! 1, xs ! 2]" "take 4 xs = [xs ! 0, xs ! 1, xs ! 2, xs ! 3]"
    using len by (simp_all add: take_Suc3 take_Suc4)
  show ?thesis
    unfolding base_header_def Let_def ptr_at_0 [OF assms(1), symmetric] p
    by (simp add: rd k_def t)
qed

lemma base_payload_eq:
  assumes inv: "buf_inv b" and fits: "j + len \<le> b_datacount b"
  shows "base_payload b (ptr_at b j) len = (take len (drop j (contents b)), ptr_at b (j + len))"
proof (cases "len > 0")
  case True
  let ?N = "GSM0710_BUFFER_SIZE" and ?q = "(b_readp b + j) mod GSM0710_BUFFER_SIZE"
  have d: "length (b_data b) = ?N" and q: "?q < ?N" and c: "b_datacount b \<le> ?N"
    using inv by (auto simp: buf_inv_def)
  have view: "take len (drop j (contents b)) = ring_view (b_data b) ?q len"
    using fits d by (simp add: contents_def drop_ring_view take_ring_view
        ring_view_mod [of "b_data b" "b_readp b + j", unfolded d])
  have nxt: "(b_readp b + (j + len)) mod ?N =
     (if ?q + len < ?N then ?q + len else ?q + len - ?N)"
  proof -
    have "(b_readp b + (j + len)) mod ?N = (?q + len) mod ?N"
      by (simp add: mod_add_left_eq add.assoc)
    also have "\<dots> = (if ?q + len < ?N then ?q + len else ?q + len - ?N)"
    proof (cases "?q + len < ?N")
      case False
      have "?q + len - ?N < ?N" using q c fits by linarith
      with False show ?thesis by (simp add: le_mod_geq)
    qed simp
    finally show ?thesis .
  qed
  show ?thesis
  proof (cases "len > ?N - ?q")
    case wrap: True
    have "ring_view (b_data b) ?q len = drop ?q (b_data b) @ take (?q + len - ?N) (b_data b)"
      using wrap q d c fits by (subst ring_view_wrap) auto
    then show ?thesis
      using True wrap q d by (auto simp: base_payload_def Let_def ptr_at_def view nxt add.commute)
  next
    case False
    have "ring_view (b_data b) ?q len = take len (drop ?q (b_data b))"
      using False q d by (intro ring_view_linear) linarith
    then show ?thesis
      using True False q by (auto simp: base_payload_def Let_def ptr_at_def view nxt)
  qed
next
  case False
  then show ?thesis by (simp add: base_payload_def)
qed

fun place_result :: "gsm_buffer \<Rightarrow> spec_result \<Rightarrow> base_result" where
  "place_result b SIncomplete = Incomplete"
| "place_result b (SDropped k) = Dropped (ptr_at b k)"
| "place_result b (SComplete f k) = Complete f (ptr_at b k)"

lemma base_analyse_eq:
  assumes "buf_inv b"
  shows "base_analyse n1 b = map_sum id (place_result b) (analyse_spec n1 (contents b))"
proof (cases "5 \<le> b_datacount b")
  case False
  then show ?thesis by (simp add: base_analyse_def analyse_spec_def)
next
  case True
  define xs where "xs = contents b"
  define k :: nat where "k = (if xs ! 2 AND 1 = 0 then 3 else 2)"
  define len where "len = unat (drop_bit 1 (xs ! 2 AND 254)) + (if k = 3 then unat (xs ! 3) * 128 else 0)"
  have hdr: "base_header b = (GSM0710_DECODE_ADDRESS (xs ! 0), xs ! 1, len,
     fold crc_step (take (k + 1) xs) 0xFF, ptr_at b k)"
    using base_header_eq [OF assms True] by (simp add: xs_def k_def len_def)
  have k: "k < b_datacount b" using True by (simp add: k_def)
  have xslen: "length xs = b_datacount b" by (simp add: xs_def)
  show ?thesis
  proof (cases "n1 (unat (GSM0710_DECODE_ADDRESS (xs ! 0)))")
    case (Inl e)
    with True show ?thesis
      by (simp add: base_analyse_def analyse_spec_def hdr xs_def [symmetric] xslen Let_def)
  next
    case (Inr N1)
    let ?data = "take len (drop (k + 1) xs)"
    let ?frame = "\<lparr>f_channel = GSM0710_DECODE_ADDRESS (xs ! 0), f_control = xs ! 1, f_data = ?data\<rparr>"
    let ?ck = "take (k + 1) xs @ (if GSM0710_FRAME_IS GSM0710_TYPE_UI ?frame then ?data else [])"
    have rhs: "analyse_spec n1 xs =
      (if len > N1 then Inr (SDropped k)
       else if b_datacount b < k + 3 + len then Inr SIncomplete
       else if xs ! (k + 1 + len) \<noteq> frame_calc_crc ?ck \<or> xs ! (k + 2 + len) \<noteq> GSM0710_FRAME_FLAG
         then Inr (SDropped (k + 2 + len))
       else Inr (SComplete ?frame (k + 3 + len)))"
      using True Inr unfolding analyse_spec_def Let_def k_def [symmetric] len_def [symmetric]
      by (simp del: One_nat_def add: xslen not_less)
    show ?thesis
    proof (cases "len \<le> N1 \<and> k + 3 + len \<le> b_datacount b")
      case False
      with True Inr k show ?thesis
        unfolding xs_def [symmetric] rhs base_analyse_def hdr by (auto simp: not_le)
    next
      case fit: True
      have pl: "base_payload b (ptr_inc (ptr_at b k)) len = (?data, ptr_at b (k + 1 + len))"
        using base_payload_eq [OF assms, of "Suc k" len] fit by (simp add: ptr_inc_at xs_def)
      have rd: "b_data b ! fst (ptr_at b (k + 1 + len)) = xs ! (k + 1 + len)"
        "b_data b ! fst (ptr_at b (k + 2 + len)) = xs ! (k + 2 + len)"
        using fit assms by (simp_all add: read_at xs_def)
      have pn: "ptr_inc (ptr_at b (k + 1 + len)) = ptr_at b (k + 2 + len)"
        "ptr_inc (ptr_at b (k + 2 + len)) = ptr_at b (k + 3 + len)"
        by (simp_all add: ptr_inc_at eval_nat_numeral)
      have fcs: "(if GSM0710_FRAME_IS GSM0710_TYPE_UI ?frame
          then fold crc_step ?data (fold crc_step (take (k + 1) xs) 0xFF)
          else fold crc_step (take (k + 1) xs) 0xFF) = fold crc_step ?ck 0xFF"
        by simp
      have ana: "base_analyse n1 b =
        (if crc_step (xs ! (k + 1 + len)) (fold crc_step ?ck 0xFF) \<noteq> 0xCF
            then Inr (Dropped (ptr_at b (k + 2 + len)))
         else if xs ! (k + 2 + len) \<noteq> GSM0710_FRAME_FLAG then Inr (Dropped (ptr_at b (k + 2 + len)))
         else Inr (Complete ?frame (ptr_at b (k + 3 + len))))"
        using True fit
        by (simp only: base_analyse_def hdr Inr pl Let_def prod.case bindE.simps fcs rd pn snd_ptr_at
            if_True not_less [symmetric] simp_thms)
          auto
      show ?thesis
        unfolding xs_def [symmetric] rhs ana fcs_accepts_iff using fit by auto
    qed
  qed
qed

lemma analyse_spec_bound:
  "analyse_spec n1 xs = Inr (SDropped k) \<Longrightarrow> k \<le> length xs"
  "analyse_spec n1 xs = Inr (SComplete f k) \<Longrightarrow> k \<le> length xs"
  by (auto simp: analyse_spec_def Let_def res split: if_splits)

lemma base_update_at:
  assumes "buf_inv b" and "k \<le> b_datacount b"
  shows "buf_inv (base_update b (ptr_at b k))" "contents (base_update b (ptr_at b k)) = drop k (contents b)"
    "\<not> b_flag_found (base_update b (ptr_at b k))"
proof -
  have w: "(b_readp b + b_datacount b) mod GSM0710_BUFFER_SIZE =
      ((b_readp b + k) mod GSM0710_BUFFER_SIZE + (b_datacount b - k)) mod GSM0710_BUFFER_SIZE"
    using assms(2) by (simp only: mod_add_left_eq) simp
  show "buf_inv (base_update b (ptr_at b k))"
    using assms(1) w by (auto simp: base_update_def ptr_at_def buf_inv_def)
  show "contents (base_update b (ptr_at b k)) = drop k (contents b)"
    "\<not> b_flag_found (base_update b (ptr_at b k))"
    using assms ring_view_mod [of "b_data b" "b_readp b + k" "b_datacount b - k"]
    by (simp_all add: base_update_def ptr_at_def contents_def buf_inv_def drop_ring_view)
qed

definition rx_abs :: "gsm_frame option \<times> gsm_buffer \<Rightarrow> gsm_frame option \<times> bool \<times> bytes" where
  "rx_abs r = (fst r, b_flag_found (snd r), contents (snd r))"

lemma not_in_dropWhile: "x \<notin> set xs \<Longrightarrow> tl (dropWhile (\<lambda>y. y \<noteq> x) xs) = []"
  by (induction xs) auto

lemma base_get_frame_refines_inv:
  "buf_inv b \<Longrightarrow>
   map_sum id rx_abs (base_buffer_get_frame n1 b d) = get_spec n1 (b_flag_found b) (contents b) d \<and>
   (\<forall>f b'. base_buffer_get_frame n1 b d = Inr (f, b') \<longrightarrow> buf_inv b')"
proof (induction n1 b d rule: base_buffer_get_frame.induct)
  case (1 n1 b d)
  let ?b1 = "base_find_flag b" and ?b2 = "base_skip_flags (base_find_flag b)"
  have inv1: "buf_inv ?b1"
    and seek: "seek_flag (b_flag_found b) (contents b) = (b_flag_found ?b1, contents ?b1)"
    using find_flag_contents [OF "1.prems"] by simp_all
  have inv2: "buf_inv ?b2" and flag2: "b_flag_found ?b2 = b_flag_found ?b1"
    and cont2: "contents ?b2 = dropWhile (\<lambda>x. x = GSM0710_FRAME_FLAG) (contents ?b1)"
    using skip_flags_contents [OF inv1] by simp_all
  show ?case
  proof (cases "d < MAX_RESYNC_GET_FRAME_COUNT")
    case False
    then show ?thesis by (subst (1 2) base_buffer_get_frame.simps, subst get_spec.simps) simp
  next
    case d: True
    show ?thesis
    proof (cases "b_flag_found ?b1")
      case False
      then have "GSM0710_FRAME_FLAG \<notin> set (contents b)" "contents ?b1 =
          tl (dropWhile (\<lambda>x. x \<noteq> GSM0710_FRAME_FLAG) (contents b))"
        using seek by (auto simp: seek_flag_def split: if_splits)
      then have "contents ?b1 = []" using not_in_dropWhile by metis
      with False d inv1 seek show ?thesis
        by (subst (1 2) base_buffer_get_frame.simps, subst get_spec.simps)
          (simp add: Let_def rx_abs_def)
    next
      case found: True
      note ana = base_analyse_eq [OF inv2, of n1]
      show ?thesis
      proof (cases "analyse_spec n1 (contents ?b2)")
        case (Inl e)
        with ana d found seek cont2 show ?thesis
          by (subst (1 2) base_buffer_get_frame.simps, subst get_spec.simps) (simp add: Let_def)
      next
        case (Inr r)
        show ?thesis
        proof (cases r)
          case SIncomplete
          with Inr ana d found seek cont2 inv2 flag2 show ?thesis
            by (subst (1 2) base_buffer_get_frame.simps, subst get_spec.simps)
              (simp add: Let_def rx_abs_def)
        next
          case (SDropped k)
          let ?b3 = "?b2\<lparr>b_dropped_count := b_dropped_count ?b2 + 1\<rparr>"
          have k: "k \<le> b_datacount ?b3"
            using analyse_spec_bound(1) [of n1 "contents ?b2" k] Inr SDropped by simp
          have p3: "ptr_at ?b2 k = ptr_at ?b3 k" by (simp add: ptr_at_def)
          have inv3: "buf_inv ?b3" using inv2 by simp
          note upd = base_update_at [OF inv3 k]
          have step: "base_buffer_get_frame n1 b d =
             base_buffer_get_frame n1 (base_update ?b3 (ptr_at ?b3 k)) (Suc d)"
            using Inr SDropped ana d found p3
            by (subst base_buffer_get_frame.simps) (simp add: Let_def)
          have spec: "get_spec n1 (b_flag_found b) (contents b) d =
             get_spec n1 False (drop k (contents ?b2)) (Suc d)"
            using Inr SDropped d found seek cont2 by (subst get_spec.simps) simp
          have "base_analyse n1 ?b2 = Inr (Dropped (ptr_at ?b2 k))"
            using ana Inr SDropped by simp
          from "1.IH" [OF d refl _ refl this refl] found upd p3
          show ?thesis unfolding step spec by simp
        next
          case (SComplete f k)
          let ?b3 = "?b2\<lparr>b_received_count := b_received_count ?b2 + 1\<rparr>"
          have k: "k \<le> b_datacount ?b3"
            using analyse_spec_bound(2) [of n1 "contents ?b2" f k] Inr SComplete by simp
          have p3: "ptr_at ?b2 k = ptr_at ?b3 k" by (simp add: ptr_at_def)
          have inv3: "buf_inv ?b3" using inv2 by simp
          note upd = base_update_at [OF inv3 k]
          from Inr SComplete ana d found seek cont2 upd p3 show ?thesis
            by (subst (1 2) base_buffer_get_frame.simps, subst get_spec.simps)
              (simp add: Let_def rx_abs_def)
        qed
      qed
    qed
  qed
qed

section \<open>What a frame returned looks like on the line\<close>

lemma analyse_spec_complete:
  assumes "analyse_spec n1 xs = Inr (SComplete f k)"
  shows "\<exists>hdr. xs = hdr @ f_data f
      @ [frame_calc_crc (hdr @ (if GSM0710_FRAME_IS GSM0710_TYPE_UI f then f_data f else [])),
         GSM0710_FRAME_FLAG] @ drop k xs \<and>
     3 \<le> length hdr \<and> length hdr \<le> 4 \<and> GSM0710_DECODE_ADDRESS (hdr ! 0) = f_channel f \<and>
     hdr ! 1 = f_control f \<and>
     (\<exists>N1. n1 (unat (f_channel f)) = Inr N1 \<and> length (f_data f) \<le> N1)"
proof -
  define j :: nat where "j = (if xs ! 2 AND 1 = 0 then 3 else 2)"
  define len where "len = unat (drop_bit 1 (xs ! 2 AND 254)) + (if j = 3 then unat (xs ! 3) * 128 else 0)"
  define hdr where "hdr = take (j + 1) xs"
  define payload where "payload = take len (drop (j + 1) xs)"
  define frame where
    "frame = \<lparr>f_channel = GSM0710_DECODE_ADDRESS (xs ! 0), f_control = xs ! 1, f_data = payload\<rparr>"
  have j: "j = 2 \<or> j = 3" by (simp add: j_def)
  from assms have five: "5 \<le> length xs" by (auto simp: analyse_spec_def split: if_splits)
  from assms five obtain N1 where
    n1: "n1 (unat (GSM0710_DECODE_ADDRESS (xs ! 0))) = Inr N1" "len \<le> N1"
    and long: "j + 3 + len \<le> length xs"
    and fcs: "xs ! (j + 1 + len)
      = frame_calc_crc (hdr @ (if GSM0710_FRAME_IS GSM0710_TYPE_UI frame then payload else []))"
    and flag: "xs ! (j + 2 + len) = GSM0710_FRAME_FLAG"
    and res: "f = frame" "k = j + 3 + len"
    unfolding analyse_spec_def Let_def j_def [symmetric] len_def [symmetric] hdr_def [symmetric]
      payload_def [symmetric] frame_def [symmetric]
    by (auto simp: bindE_eq_Inr not_less not_le split: if_splits)
  have plen: "length payload = len" using long by (simp add: payload_def)
  have "payload @ drop (j + 1 + len) xs = drop (j + 1) xs"
    unfolding payload_def by (metis append_take_drop_id drop_drop add.commute)
  then have "xs = hdr @ payload @ drop (j + 1 + len) xs"
    by (simp only: hdr_def append_take_drop_id)
  also have "drop (j + 1 + len) xs = xs ! (j + 1 + len) # xs ! (j + 2 + len) # drop k xs"
    using long res Cons_nth_drop_Suc [of "j + 1 + len" xs] Cons_nth_drop_Suc [of "j + 2 + len" xs]
    by (simp add: eval_nat_numeral)
  finally have "xs = hdr @ payload @ [xs ! (j + 1 + len), xs ! (j + 2 + len)] @ drop k xs" by simp
  moreover have "length hdr = j + 1" using five j by (auto simp: hdr_def)
  moreover have "hdr ! 0 = xs ! 0" "hdr ! 1 = xs ! 1" using five j by (auto simp: hdr_def)
  ultimately show ?thesis
    using fcs flag res n1 plen j by (intro exI [of _ hdr]) (auto simp: frame_def)
qed

lemma seek_flag_split:
  assumes "seek_flag flag xs = (True, ys)"
  shows "\<exists>pre. xs = pre @ ys \<and> (flag \<or> GSM0710_FRAME_FLAG \<in> set pre)"
proof (cases flag)
  case False
  with assms have mem: "GSM0710_FRAME_FLAG \<in> set xs"
    and ys: "ys = tl (dropWhile (\<lambda>x. x \<noteq> GSM0710_FRAME_FLAG) xs)"
    by (auto simp: seek_flag_def)
  from mem obtain as bs where xs: "xs = as @ GSM0710_FRAME_FLAG # bs" and as: "GSM0710_FRAME_FLAG \<notin> set as"
    by (meson split_list_first)
  from as have "dropWhile (\<lambda>x. x \<noteq> GSM0710_FRAME_FLAG) xs = GSM0710_FRAME_FLAG # bs"
    unfolding xs by (subst dropWhile_append2) auto
  with ys xs show ?thesis by (intro exI [of _ "as @ [GSM0710_FRAME_FLAG]"]) simp
qed (use assms in \<open>auto simp: seek_flag_def\<close>)

lemma get_spec_frame:
  "get_spec n1 flag xs d = Inr (Some f, flag', ys) \<Longrightarrow>
   \<exists>pre hdr. xs = pre @ hdr @ f_data f
      @ [frame_calc_crc (hdr @ (if GSM0710_FRAME_IS GSM0710_TYPE_UI f then f_data f else [])),
         GSM0710_FRAME_FLAG] @ ys \<and> (flag \<or> GSM0710_FRAME_FLAG \<in> set pre) \<and>
     3 \<le> length hdr \<and> length hdr \<le> 4 \<and> GSM0710_DECODE_ADDRESS (hdr ! 0) = f_channel f \<and>
     hdr ! 1 = f_control f \<and>
     (\<exists>N1. n1 (unat (f_channel f)) = Inr N1 \<and> length (f_data f) \<le> N1)"
proof (induction n1 flag xs d rule: get_spec.induct)
  case (1 n1 flag xs d)
  note unf = "1.prems" [unfolded get_spec.simps [of n1 flag xs d]]
  from unf have d: "d < MAX_RESYNC_GET_FRAME_COUNT" by (simp split: if_splits)
  obtain found zs0 where seek0: "seek_flag flag xs = (found, zs0)" by fastforce
  with unf d have "found" by (simp split: if_splits)
  with seek0 have seek: "seek_flag flag xs = (True, zs0)" by simp
  define zs where "zs = dropWhile (\<lambda>x. x = GSM0710_FRAME_FLAG) zs0"
  from seek_flag_split [OF seek] obtain pre where xs: "xs = pre @ zs0"
    and flag: "flag \<or> GSM0710_FRAME_FLAG \<in> set pre" by blast
  obtain mid where zs0: "zs0 = mid @ zs" by (metis takeWhile_dropWhile_id zs_def)
  from unf d seek obtain r where r: "analyse_spec n1 zs = Inr r"
    and run: "(case r of
                SIncomplete \<Rightarrow> Inr (None, True, zs)
              | SDropped k \<Rightarrow> get_spec n1 False (drop k zs) (Suc d)
              | SComplete frame k \<Rightarrow> Inr (Some frame, False, drop k zs)) = Inr (Some f, flag', ys)"
    by (auto simp: bindE_eq_Inr Let_def simp del: GSM0710_FRAME_FLAG_def simp flip: zs_def)
  show ?case
  proof (cases r)
    case SIncomplete
    with run show ?thesis by simp
  next
    case (SDropped k)
    with run have "get_spec n1 False (drop k zs) (Suc d) = Inr (Some f, flag', ys)" by simp
    from "1.IH" [OF d seek [symmetric] _ zs_def r SDropped this] obtain pre2 hdr where
      "drop k zs = pre2 @ hdr @ f_data f
      @ [frame_calc_crc (hdr @ (if GSM0710_FRAME_IS GSM0710_TYPE_UI f then f_data f else [])),
         GSM0710_FRAME_FLAG] @ ys" and
      "3 \<le> length hdr \<and> length hdr \<le> 4 \<and> GSM0710_DECODE_ADDRESS (hdr ! 0) = f_channel f \<and>
       hdr ! 1 = f_control f \<and>
       (\<exists>N1. n1 (unat (f_channel f)) = Inr N1 \<and> length (f_data f) \<le> N1)" by auto
    moreover have "xs = (pre @ mid @ take k zs) @ drop k zs" using xs zs0 by simp
    ultimately show ?thesis using flag
      by (intro exI [of _ "pre @ mid @ take k zs @ pre2"] exI [of _ hdr]) auto
  next
    case (SComplete g k)
    with run have fr: "f = g" "ys = drop k zs" by auto
    from analyse_spec_complete [of n1 zs f k] r SComplete fr obtain hdr where
      "zs = hdr @ f_data f
      @ [frame_calc_crc (hdr @ (if GSM0710_FRAME_IS GSM0710_TYPE_UI f then f_data f else [])),
         GSM0710_FRAME_FLAG] @ ys \<and>
       3 \<le> length hdr \<and> length hdr \<le> 4 \<and> GSM0710_DECODE_ADDRESS (hdr ! 0) = f_channel f \<and>
       hdr ! 1 = f_control f \<and>
       (\<exists>N1. n1 (unat (f_channel f)) = Inr N1 \<and> length (f_data f) \<le> N1)" by auto
    with xs zs0 flag show ?thesis
      by (intro exI [of _ "pre @ mid"] exI [of _ hdr]) auto
  qed
qed

end
