(* ===== verification/Mux_RxAdv.thy ===== *)
theory Mux_RxAdv
  imports Mux_Buffer Mux_Crc
begin

text \<open>
  Taking a frame of the advanced option out of the receive buffer
  (\<open>gsm0710_advanced_buffer_get_frame\<close>): octets between two flags are unescaped into
  \<open>adv_data\<close>, which survives between calls, so a frame may arrive in any number of pieces.
  \<open>goto l_begin\<close> is the result \<open>Restart\<close> of the inner loop.  The second half gives the meaning of
  the inner loop as a per-octet machine.
\<close>

section \<open>The C function\<close>

function adv_find_flag :: "gsm_buffer \<Rightarrow> gsm_buffer" where
  "adv_find_flag b =
     (if \<not> b_flag_found b \<and> gsm0710_buffer_length b > 0 then
        adv_find_flag (gsm0710_buffer_inc
          (if b_data b ! b_readp b = GSM0710_FRAME_ADV_FLAG then
             b\<lparr>b_flag_found := True, b_adv_data := [], b_adv_found_esc := False\<rparr>
           else b))
      else b)"
  by pat_completeness auto
termination
  by (relation "measure b_datacount") (auto simp: gsm0710_buffer_length_def)

declare adv_find_flag.simps [simp del]

function adv_skip_flags :: "gsm_buffer \<Rightarrow> gsm_buffer" where
  "adv_skip_flags b =
     (if gsm0710_buffer_length b > 0 \<and> b_data b ! b_readp b = GSM0710_FRAME_ADV_FLAG then
        adv_skip_flags (gsm0710_buffer_inc b)
      else b)"
  by pat_completeness auto
termination
  by (relation "measure b_datacount") (auto simp: gsm0710_buffer_length_def)

declare adv_skip_flags.simps [simp del]

text \<open>The closing flag is there: \<open>None\<close> is a frame whose check sequence does not match.\<close>

definition adv_extract :: "bytes \<Rightarrow> gsm_frame option" where
  "adv_extract data =
     (let len = length data - 3;
          fcs = crc_step (data ! 1) (crc_step (data ! 0) 0xFF);
          frame = \<lparr>f_channel = drop_bit 2 (data ! 0 AND 252), f_control = data ! 1,
                   f_data = take len (drop 2 data)\<rparr>;
          fcs' = (if len > 0 \<and> GSM0710_FRAME_IS GSM0710_TYPE_UI frame
                  then fold crc_step (f_data frame) fcs else fcs)
      in if crc_step (data ! (length data - 1)) fcs' \<noteq> 0xCF then None else Some frame)"

datatype adv_result =
    Exhausted gsm_buffer
  | Restart gsm_buffer
  | Frame gsm_frame gsm_buffer

function adv_scan :: "gsm_buffer \<Rightarrow> adv_result" where
  "adv_scan b =
     (if gsm0710_buffer_length b > 0 then
        (let c = b_data b ! b_readp b
         in if \<not> b_adv_found_esc b \<and> c = GSM0710_FRAME_ADV_FLAG then
              (let b1 = gsm0710_buffer_inc b
               in if length (b_adv_data b1) < 3 then Restart (b1\<lparr>b_flag_found := False\<rparr>)
                  else
                    (case adv_extract (b_adv_data b1) of
                       None \<Rightarrow>
                         Restart (b1\<lparr>b_flag_found := False, b_dropped_count := b_dropped_count b1 + 1\<rparr>)
                     | Some frame \<Rightarrow>
                         Frame frame
                           (b1\<lparr>b_received_count := b_received_count b1 + 1, b_flag_found := False\<rparr>)))
            else if length (b_adv_data b) \<ge> GSM0710_BUFFER_SIZE then
              Restart (b\<lparr>b_flag_found := False, b_dropped_count := b_dropped_count b + 1\<rparr>)
            else
              adv_scan (gsm0710_buffer_inc
                (if b_adv_found_esc b then
                   b\<lparr>b_adv_data := b_adv_data b @ [c XOR GSM0710_FRAME_ADV_ESC_COPML],
                     b_adv_found_esc := False\<rparr>
                 else if c = GSM0710_FRAME_ADV_ESC then b\<lparr>b_adv_found_esc := True\<rparr>
                 else b\<lparr>b_adv_data := b_adv_data b @ [c]\<rparr>)))
      else Exhausted b)"
  by pat_completeness auto
termination
  by (relation "measure b_datacount") (auto simp: gsm0710_buffer_length_def)

declare adv_scan.simps [simp del]

lemma find_flag_datacount:
  "b_datacount (adv_find_flag b) \<le> b_datacount b \<and>
   (\<not> b_flag_found b \<longrightarrow> b_datacount (adv_find_flag b) < b_datacount b \<or> b_datacount b = 0)"
proof (induction b rule: adv_find_flag.induct)
  case (1 b)
  then show ?case
    by (subst (1 2) adv_find_flag.simps) (auto simp: gsm0710_buffer_length_def)
qed

lemma skip_flags_datacount: "b_datacount (adv_skip_flags b) \<le> b_datacount b"
proof (induction b rule: adv_skip_flags.induct)
  case (1 b)
  then show ?case
    by (subst adv_skip_flags.simps) (auto simp: gsm0710_buffer_length_def)
qed

lemma scan_restart:
  "adv_scan b = Restart b' \<Longrightarrow>
   b_datacount b' \<le> b_datacount b \<and> 0 < b_datacount b \<and> \<not> b_flag_found b'"
proof (induction b arbitrary: b' rule: adv_scan.induct)
  case (1 b)
  show ?case
  proof (cases "gsm0710_buffer_length b > 0")
    case False
    with "1.prems" show ?thesis by (subst (asm) adv_scan.simps) simp
  next
    case len: True
    then have pos: "0 < b_datacount b" by (simp add: gsm0710_buffer_length_def)
    let ?c = "b_data b ! b_readp b"
    show ?thesis
    proof (cases "\<not> b_adv_found_esc b \<and> ?c = GSM0710_FRAME_ADV_FLAG")
      case True
      with "1.prems" len pos show ?thesis
        by (subst (asm) adv_scan.simps) (auto simp: Let_def split: if_splits option.splits)
    next
      case nf: False
      show ?thesis
      proof (cases "length (b_adv_data b) \<ge> GSM0710_BUFFER_SIZE")
        case True
        from "1.prems" [symmetric] len nf True have
          "b' = b\<lparr>b_flag_found := False, b_dropped_count := b_dropped_count b + 1\<rparr>"
          by (subst (asm) adv_scan.simps) (simp only: Let_def if_True if_False adv_result.inject)
        with pos show ?thesis by simp
      next
        case False
        let ?b' = "if b_adv_found_esc b then
                   b\<lparr>b_adv_data := b_adv_data b @ [?c XOR GSM0710_FRAME_ADV_ESC_COPML],
                     b_adv_found_esc := False\<rparr>
                 else if ?c = GSM0710_FRAME_ADV_ESC then b\<lparr>b_adv_found_esc := True\<rparr>
                 else b\<lparr>b_adv_data := b_adv_data b @ [?c]\<rparr>"
        have "adv_scan b = adv_scan (gsm0710_buffer_inc ?b')"
          using len nf False by (subst adv_scan.simps) (simp only: Let_def if_True if_False)
        with "1.prems" have "adv_scan (gsm0710_buffer_inc ?b') = Restart b'" by simp
        from "1.IH" [OF len refl nf False this] pos show ?thesis by (auto split: if_splits)
      qed
    qed
  qed
qed

function advanced_buffer_get_frame :: "gsm_buffer \<Rightarrow> gsm_frame option \<times> gsm_buffer" where
  "advanced_buffer_get_frame buf =
     (let b1 = adv_find_flag buf
      in if \<not> b_flag_found b1 then (None, b1)
         else
           (let b2 = (if length (b_adv_data b1) = 0 then adv_skip_flags b1 else b1)
            in case adv_scan b2 of
                 Exhausted b3 \<Rightarrow> (None, b3)
               | Restart b3 \<Rightarrow> advanced_buffer_get_frame b3
               | Frame frame b3 \<Rightarrow> (Some frame, b3)))"
  by pat_completeness auto
termination
proof (relation "measure (\<lambda>b. 2 * b_datacount b + (if b_flag_found b then 1 else 0))", goal_cases)
  case 1
  then show ?case by simp
next
  case (2 buf b1 b2 b3)
  have le: "b_datacount b2 \<le> b_datacount b1"
    using 2 skip_flags_datacount [of b1] by (simp split: if_splits)
  note r = scan_restart [OF 2(4)]
  from find_flag_datacount [of buf] le r 2(1) show ?case
    by (cases "b_flag_found buf") auto
qed

declare advanced_buffer_get_frame.simps [simp del]

section \<open>The same as a machine on octets\<close>

record adv_state =
  a_flag :: bool
  a_esc :: bool
  a_data :: bytes

definition adv_open :: adv_state where
  "adv_open = \<lparr>a_flag = True, a_esc = False, a_data = []\<rparr>"

definition adv_step :: "adv_state \<Rightarrow> u8 \<Rightarrow> gsm_frame option \<times> adv_state" where
  "adv_step s c =
     (if \<not> a_flag s then (None, if c = GSM0710_FRAME_ADV_FLAG then adv_open else s)
      else if \<not> a_esc s \<and> c = GSM0710_FRAME_ADV_FLAG then
        if a_data s = [] then (None, s)
        else if length (a_data s) < 3 then (None, s\<lparr>a_flag := False\<rparr>)
        else (adv_extract (a_data s), s\<lparr>a_flag := False\<rparr>)
      else if length (a_data s) \<ge> GSM0710_BUFFER_SIZE then
        (None, if c = GSM0710_FRAME_ADV_FLAG then adv_open else s\<lparr>a_flag := False\<rparr>)
      else if a_esc s then
        (None, s\<lparr>a_data := a_data s @ [c XOR GSM0710_FRAME_ADV_ESC_COPML], a_esc := False\<rparr>)
      else if c = GSM0710_FRAME_ADV_ESC then (None, s\<lparr>a_esc := True\<rparr>)
      else (None, s\<lparr>a_data := a_data s @ [c]\<rparr>))"

fun adv_run :: "adv_state \<Rightarrow> bytes \<Rightarrow> gsm_frame option \<times> adv_state \<times> bytes" where
  "adv_run s [] = (None, s, [])"
| "adv_run s (x # xs) =
     (case adv_step s x of
        (Some f, s') \<Rightarrow> (Some f, s', xs)
      | (None, s') \<Rightarrow> adv_run s' xs)"

text \<open>
  A call first skips flags when nothing of the frame is stored yet, even when the octet before
  was an escape: the one place where the outcome depends on how the octets were delivered.
\<close>

definition adv_get_spec :: "adv_state \<Rightarrow> bytes \<Rightarrow> gsm_frame option \<times> adv_state \<times> bytes" where
  "adv_get_spec s xs =
     adv_run s (if a_flag s \<and> a_data s = [] then dropWhile (\<lambda>x. x = GSM0710_FRAME_ADV_FLAG) xs
                else xs)"

definition adv_abs :: "gsm_buffer \<Rightarrow> adv_state" where
  "adv_abs b = \<lparr>a_flag = b_flag_found b, a_esc = b_adv_found_esc b, a_data = b_adv_data b\<rparr>"

lemma adv_abs_simps [simp]:
  "a_flag (adv_abs b) = b_flag_found b"
  "a_esc (adv_abs b) = b_adv_found_esc b"
  "a_data (adv_abs b) = b_adv_data b"
  "adv_abs (gsm0710_buffer_inc b) = adv_abs b"
  "adv_abs (b\<lparr>b_received_count := n\<rparr>) = adv_abs b"
  "adv_abs (b\<lparr>b_dropped_count := n\<rparr>) = adv_abs b"
  "adv_abs (b\<lparr>b_flag_found := v\<rparr>) = adv_abs b\<lparr>a_flag := v\<rparr>"
  "adv_abs (b\<lparr>b_adv_found_esc := v\<rparr>) = adv_abs b\<lparr>a_esc := v\<rparr>"
  "adv_abs (b\<lparr>b_adv_data := xs\<rparr>) = adv_abs b\<lparr>a_data := xs\<rparr>"
  by (simp_all add: adv_abs_def)

lemma contents_pop:
  assumes "buf_inv b" and "0 < b_datacount b"
  obtains c where "b_data b ! b_readp b = c" and "contents b = c # contents (gsm0710_buffer_inc b)"
  using contents_inc [OF assms] by blast

lemma adv_find_flag_run:
  "buf_inv b \<Longrightarrow>
   buf_inv (adv_find_flag b) \<and>
   adv_run (adv_abs b) (contents b) = adv_run (adv_abs (adv_find_flag b)) (contents (adv_find_flag b)) \<and>
   (b_flag_found b \<longrightarrow> adv_find_flag b = b) \<and>
   (\<not> b_flag_found b \<longrightarrow> b_flag_found (adv_find_flag b) \<longrightarrow> adv_abs (adv_find_flag b) = adv_open) \<and>
   (\<not> b_flag_found (adv_find_flag b) \<longrightarrow> b_datacount (adv_find_flag b) = 0)"
proof (induction b rule: adv_find_flag.induct)
  case (1 b)
  show ?case
  proof (cases "\<not> b_flag_found b \<and> gsm0710_buffer_length b > 0")
    case False
    then have "adv_find_flag b = b" by (subst adv_find_flag.simps) (simp only: if_False)
    with False 1(2) show ?thesis by (auto simp: gsm0710_buffer_length_def)
  next
    case True
    let ?b' = "if b_data b ! b_readp b = GSM0710_FRAME_ADV_FLAG then
             b\<lparr>b_flag_found := True, b_adv_data := [], b_adv_found_esc := False\<rparr> else b"
    have pos: "0 < b_datacount b" and nf: "\<not> b_flag_found b"
      using True by (auto simp: gsm0710_buffer_length_def)
    have step: "adv_find_flag b = adv_find_flag (gsm0710_buffer_inc ?b')"
      using True by (subst adv_find_flag.simps) (rule if_P)
    have inv: "buf_inv (gsm0710_buffer_inc ?b')"
      using 1(2) pos by (intro buf_inv_inc) (auto simp: buf_inv_def)
    have pop: "contents b = b_data b ! b_readp b # contents (gsm0710_buffer_inc ?b')"
      using contents_inc [of ?b'] 1(2) pos by (auto simp: buf_inv_def split: if_splits)
    show ?thesis
    proof (cases "b_data b ! b_readp b = GSM0710_FRAME_ADV_FLAG")
      case flag: True
      define b2 where "b2 = gsm0710_buffer_inc ?b'"
      have abs': "adv_abs b2 = adv_open" and f': "b_flag_found b2"
        using flag by (simp_all add: adv_open_def adv_abs_def b2_def)
      have stay: "adv_find_flag b = b2"
        using f' unfolding step b2_def [symmetric] by (subst adv_find_flag.simps) simp
      have "adv_step (adv_abs b) (b_data b ! b_readp b) = (None, adv_open)"
        using nf flag by (simp add: adv_step_def)
      with pop have "adv_run (adv_abs b) (contents b) = adv_run adv_open (contents b2)"
        by (simp add: b2_def)
      then show ?thesis
        unfolding stay using abs' f' inv nf by (simp add: b2_def)
    next
      case False
      then have "adv_step (adv_abs b) (b_data b ! b_readp b) = (None, adv_abs b)"
        using nf by (simp add: adv_step_def)
      with "1.IH" [OF True inv] pop False nf show ?thesis
        unfolding step by simp
    qed
  qed
qed

lemma adv_skip_flags_contents:
  "buf_inv b \<Longrightarrow>
   buf_inv (adv_skip_flags b) \<and> adv_abs (adv_skip_flags b) = adv_abs b \<and>
   contents (adv_skip_flags b) = dropWhile (\<lambda>x. x = GSM0710_FRAME_ADV_FLAG) (contents b)"
proof (induction b rule: adv_skip_flags.induct)
  case (1 b)
  show ?case
  proof (cases "gsm0710_buffer_length b > 0")
    case True
    then have pos: "0 < b_datacount b" by (simp add: gsm0710_buffer_length_def)
    note cont = contents_inc [OF 1(2) pos]
    show ?thesis
    proof (cases "b_data b ! b_readp b = GSM0710_FRAME_ADV_FLAG")
      case flag: True
      have step: "adv_skip_flags b = adv_skip_flags (gsm0710_buffer_inc b)"
        using True flag by (subst adv_skip_flags.simps) simp
      from "1.IH" True flag buf_inv_inc [OF 1(2) pos] cont show ?thesis
        unfolding step by simp
    next
      case False
      then have step: "adv_skip_flags b = b" by (subst adv_skip_flags.simps) simp
      from False 1(2) cont show ?thesis
        unfolding step by simp
    qed
  next
    case False
    then have step: "adv_skip_flags b = b" by (subst adv_skip_flags.simps) simp
    from False have "contents b = []" by (simp add: gsm0710_buffer_length_def)
    with 1(2) show ?thesis
      unfolding step by (metis dropWhile.simps(1))
  qed
qed

definition scan_ready :: "gsm_buffer \<Rightarrow> bool" where
  "scan_ready b \<longleftrightarrow>
     b_flag_found b \<and>
     (b_adv_data b = [] \<and> \<not> b_adv_found_esc b \<and> contents b \<noteq> [] \<longrightarrow>
        hd (contents b) \<noteq> GSM0710_FRAME_ADV_FLAG)"

fun scan_result :: "adv_result \<Rightarrow> gsm_frame option \<times> adv_state \<times> bytes" where
  "scan_result (Exhausted b) = (None, adv_abs b, contents b)"
| "scan_result (Restart b) = adv_run (adv_abs b) (contents b)"
| "scan_result (Frame f b) = (Some f, adv_abs b, contents b)"

fun scan_buffer :: "adv_result \<Rightarrow> gsm_buffer" where
  "scan_buffer (Exhausted b) = b"
| "scan_buffer (Restart b) = b"
| "scan_buffer (Frame f b) = b"

lemma adv_scan_run:
  "buf_inv b \<Longrightarrow> scan_ready b \<Longrightarrow>
   adv_run (adv_abs b) (contents b) = scan_result (adv_scan b) \<and>
   buf_inv (scan_buffer (adv_scan b)) \<and>
   (\<forall>b'. adv_scan b = Exhausted b' \<longrightarrow> contents b' = [])"
proof (induction b rule: adv_scan.induct)
  case (1 b)
  show ?case
  proof (cases "gsm0710_buffer_length b > 0")
    case False
    then have "adv_scan b = Exhausted b" by (subst adv_scan.simps) simp
    moreover from False have "contents b = []" by (simp add: gsm0710_buffer_length_def)
    ultimately show ?thesis using "1.prems" by simp
  next
    case len: True
    then have pos: "0 < b_datacount b" by (simp add: gsm0710_buffer_length_def)
    let ?c = "b_data b ! b_readp b"
    have flag: "b_flag_found b" using "1.prems" by (simp add: scan_ready_def)
    have pop: "contents b = ?c # contents (gsm0710_buffer_inc b)"
      using "1.prems"(1) pos by (rule contents_inc)
    show ?thesis
    proof (cases "\<not> b_adv_found_esc b \<and> ?c = GSM0710_FRAME_ADV_FLAG")
      case True
      let ?b1 = "gsm0710_buffer_inc b"
      have ne: "b_adv_data b \<noteq> []" using "1.prems"(2) True pop by (auto simp: scan_ready_def)
      have inv1: "buf_inv ?b1" using "1.prems"(1) pos by (rule buf_inv_inc)
      show ?thesis
      proof (cases "length (b_adv_data b) < 3")
        case short: True
        then have "adv_scan b = Restart (?b1\<lparr>b_flag_found := False\<rparr>)"
          using len True by (subst adv_scan.simps) (simp add: Let_def)
        with True short ne flag inv1 pop show ?thesis by (simp add: adv_step_def)
      next
        case False
        with True len have "adv_scan b = (case adv_extract (b_adv_data b) of
            None \<Rightarrow> Restart (?b1\<lparr>b_flag_found := False, b_dropped_count := b_dropped_count ?b1 + 1\<rparr>)
          | Some frame \<Rightarrow>
              Frame frame (?b1\<lparr>b_received_count := b_received_count ?b1 + 1, b_flag_found := False\<rparr>))"
          by (subst adv_scan.simps) (simp add: Let_def)
        with True False ne flag inv1 pop show ?thesis
          by (auto simp: adv_step_def split: option.split)
      qed
    next
      case nf: False
      show ?thesis
      proof (cases "length (b_adv_data b) \<ge> GSM0710_BUFFER_SIZE")
        case True
        have res: "adv_scan b = Restart (b\<lparr>b_flag_found := False, b_dropped_count := b_dropped_count b + 1\<rparr>)"
          using len nf True by (subst adv_scan.simps) (simp only: Let_def if_True if_False)
        have "adv_step (adv_abs b) ?c = adv_step (adv_abs b\<lparr>a_flag := False\<rparr>) ?c"
          using nf True flag by (simp add: adv_step_def adv_open_def) blast
        with pop have "adv_run (adv_abs b) (contents b) =
            adv_run (adv_abs b\<lparr>a_flag := False\<rparr>) (contents b)"
          by simp
        with res "1.prems"(1) show ?thesis by simp
      next
        case False
        let ?b' = "if b_adv_found_esc b then
                   b\<lparr>b_adv_data := b_adv_data b @ [?c XOR GSM0710_FRAME_ADV_ESC_COPML],
                     b_adv_found_esc := False\<rparr>
                 else if ?c = GSM0710_FRAME_ADV_ESC then b\<lparr>b_adv_found_esc := True\<rparr>
                 else b\<lparr>b_adv_data := b_adv_data b @ [?c]\<rparr>"
        have step: "adv_scan b = adv_scan (gsm0710_buffer_inc ?b')"
          using len nf False by (subst adv_scan.simps) (simp only: Let_def if_True if_False)
        have inv': "buf_inv (gsm0710_buffer_inc ?b')"
          using "1.prems"(1) pos False by (intro buf_inv_inc) (auto simp: buf_inv_def)
        have ready: "scan_ready (gsm0710_buffer_inc ?b')"
          using flag by (auto simp: scan_ready_def)
        have pop': "contents b = ?c # contents (gsm0710_buffer_inc ?b')"
          using contents_inc [of ?b'] "1.prems"(1) pos False by (auto simp: buf_inv_def split: if_splits)
        have mach: "adv_step (adv_abs b) ?c = (None, adv_abs (gsm0710_buffer_inc ?b'))"
          using nf False flag by (auto simp: adv_step_def adv_abs_def)
        from "1.IH" [OF len refl nf False inv' ready] pop' mach show ?thesis
          unfolding step by simp
      qed
    qed
  qed
qed

theorem advanced_get_frame_refines:
  "buf_inv b \<Longrightarrow>
   (case advanced_buffer_get_frame b of (f, b') \<Rightarrow>
      buf_inv b' \<and> (f, adv_abs b', contents b') = adv_get_spec (adv_abs b) (contents b))"
proof (induction b rule: advanced_buffer_get_frame.induct)
  case (1 b)
  let ?b1 = "adv_find_flag b"
  let ?b2 = "if length (b_adv_data ?b1) = 0 then adv_skip_flags ?b1 else ?b1"
  note find = adv_find_flag_run [OF "1.prems"]
  then have inv1: "buf_inv ?b1" by simp
  have seek: "adv_get_spec (adv_abs b) (contents b) = adv_get_spec (adv_abs ?b1) (contents ?b1)"
  proof (cases "b_flag_found b")
    case False
    have "adv_get_spec (adv_abs b) (contents b) = adv_run (adv_abs ?b1) (contents ?b1)"
      using find False by (simp add: adv_get_spec_def)
    also have "\<dots> = adv_get_spec (adv_abs ?b1) (contents ?b1)"
    proof (cases "b_flag_found ?b1")
      case True
      with find False have "adv_abs ?b1 = adv_open" by simp
      moreover have "adv_run adv_open (dropWhile (\<lambda>x. x = GSM0710_FRAME_ADV_FLAG) xs) = adv_run adv_open xs"
        for xs
        by (induction xs) (auto simp: adv_step_def adv_open_def)
      ultimately show ?thesis by (simp add: adv_get_spec_def adv_open_def)
    next
      case False
      then show ?thesis by (simp add: adv_get_spec_def)
    qed
    finally show ?thesis .
  qed (use find in simp)
  show ?case
  proof (cases "b_flag_found ?b1")
    case False
    with find have "contents ?b1 = []" by simp
    moreover have "advanced_buffer_get_frame b = (None, ?b1)"
      using False by (subst advanced_buffer_get_frame.simps) simp
    ultimately show ?thesis using inv1 unfolding seek by (simp add: adv_get_spec_def)
  next
    case flag: True
    have inv2: "buf_inv ?b2" and abs2: "adv_abs ?b2 = adv_abs ?b1"
      and cont2: "contents ?b2 = (if b_adv_data ?b1 = []
          then dropWhile (\<lambda>x. x = GSM0710_FRAME_ADV_FLAG) (contents ?b1) else contents ?b1)"
      using adv_skip_flags_contents [OF inv1] inv1 by simp_all
    have hd2: "b_adv_data ?b1 = [] \<Longrightarrow> contents ?b2 \<noteq> [] \<Longrightarrow> hd (contents ?b2) \<noteq> GSM0710_FRAME_ADV_FLAG"
      unfolding cont2 using hd_dropWhile [of "\<lambda>x. x = GSM0710_FRAME_ADV_FLAG" "contents ?b1"] by simp
    have "b_flag_found ?b2 = b_flag_found ?b1" "b_adv_data ?b2 = b_adv_data ?b1"
      using abs2 by (metis adv_abs_simps(1), metis adv_abs_simps(3))
    with flag hd2 have ready: "scan_ready ?b2" by (simp add: scan_ready_def)
    have spec: "adv_get_spec (adv_abs b) (contents b) = scan_result (adv_scan ?b2)"
      using adv_scan_run [OF inv2 ready] cont2 abs2 flag unfolding seek
      by (simp add: adv_get_spec_def)
    note scan = adv_scan_run [OF inv2 ready]
    have run: "advanced_buffer_get_frame b =
        (case adv_scan ?b2 of
           Exhausted b3 \<Rightarrow> (None, b3)
         | Restart b3 \<Rightarrow> advanced_buffer_get_frame b3
         | Frame frame b3 \<Rightarrow> (Some frame, b3))"
      using flag by (subst advanced_buffer_get_frame.simps) (simp only: Let_def if_False not_True_eq_False)
    show ?thesis
    proof (cases "adv_scan ?b2")
      case (Restart b3)
      then have "buf_inv b3" "\<not> b_flag_found b3" using scan scan_restart [of ?b2 b3] by auto
      with "1.IH" [OF refl _ refl Restart] flag Restart spec run show ?thesis
        by (simp add: adv_get_spec_def)
    qed (use scan spec run in auto)
  qed
qed

end
