(* ===== verification/Mux_Framing.thy ===== *)
theory Mux_Framing
  imports Mux_Tx Mux_RxBasic Mux_RxAdv
begin

text \<open>
  The frame formats seen from both ends: the octets \<open>write_frame\<close> puts on the line
  (\<open>basic_encode\<close>, \<open>adv_encode\<close>) and what the receiver's specification (\<open>get_spec\<close>,
  \<open>adv_get_spec\<close>) makes of them.  The locale \<open>frame_codec\<close> states the contract a frame format
  has with its clients; both formats provide it.
\<close>

section \<open>The contract of a frame format\<close>

text \<open>Taking frames until there is none, at most \<open>n\<close> of them.\<close>

fun drain :: "('s \<Rightarrow> bytes \<Rightarrow> (gsm_frame option \<times> 's \<times> bytes) res) \<Rightarrow> nat \<Rightarrow> 's \<Rightarrow> bytes \<Rightarrow>
    (gsm_frame list \<times> 's \<times> bytes) res" where
  "drain get 0 s xs = Inr ([], s, xs)"
| "drain get (Suc n) s xs =
     bindE (get s xs) (\<lambda>(f, s', ys).
       case f of
         None \<Rightarrow> Inr ([], s', ys)
       | Some frame \<Rightarrow>
           bindE (drain get n s' ys) (\<lambda>(fs, s'', zs). Inr (frame # fs, s'', zs)))"

locale frame_codec =
  fixes encode :: "gsm_frame \<Rightarrow> bytes"
    and get :: "'s \<Rightarrow> bytes \<Rightarrow> (gsm_frame option \<times> 's \<times> bytes) res"
    and idle :: "'s \<Rightarrow> bool"
    and valid :: "gsm_frame \<Rightarrow> bool"
  assumes get_encode:
      "idle s \<Longrightarrow> valid f \<Longrightarrow> \<exists>s'. idle s' \<and> get s (encode f @ rest) = Inr (Some f, s', rest)"
    and get_Nil: "idle s \<Longrightarrow> get s [] = Inr (None, s, [])"
begin

lemma drain_frames:
  "idle s \<Longrightarrow> list_all valid fs \<Longrightarrow> length fs < n \<Longrightarrow>
   \<exists>s'. idle s' \<and> drain get n s (concat (map encode fs)) = Inr (fs, s', [])"
proof (induction fs arbitrary: s n)
  case Nil
  then obtain m where "n = Suc m" by (cases n) auto
  with Nil show ?case by (simp add: get_Nil)
next
  case (Cons f fs)
  then obtain m where n: "n = Suc m" by (cases n) auto
  from Cons.prems obtain s1 where "idle s1"
    and "get s (encode f @ concat (map encode fs)) = Inr (Some f, s1, concat (map encode fs))"
    using get_encode by (metis list.pred_inject(2))
  moreover from this Cons n obtain s2 where "idle s2"
    and "drain get m s1 (concat (map encode fs)) = Inr (fs, s2, [])"
    by fastforce
  ultimately show ?case by (auto simp: n)
qed

end

section \<open>Address and length fields\<close>

lemma u8_and_254: "(x :: u8) AND 254 = x AND NOT 1"
proof -
  have "(254 :: u8) = NOT 1" by simp
  then show ?thesis by (simp only:)
qed

lemma unat_drop_1: "unat (drop_bit 1 ((x :: u8) AND 254)) = unat x div 2"
proof -
  have "drop_bit 1 (x AND 254) = drop_bit 1 x"
    unfolding u8_and_254
    using bit_imp_le_length [of x]
    by (intro bit_word_eqI) (simp only: bit_drop_bit_eq bit_and_iff bit_not_iff bit_1_iff o_def, fastforce)
  then show ?thesis by (simp only: drop_bit_eq_div unat_div) simp
qed

lemma and_1_eq_0_iff: "(x :: u8) AND 1 = 0 \<longleftrightarrow> even (unat x)"
proof -
  have "unat (x AND 1) = unat x mod 2"
    by (simp only: and_one_eq unat_mod) simp
  moreover have "x AND 1 = 0 \<longleftrightarrow> unat (x AND 1) = 0" by (simp only: unsigned_eq_0_iff)
  ultimately show ?thesis by (simp only: even_iff_mod_2_eq_zero)
qed

lemma unat_of_nat_u8: "n < 256 \<Longrightarrow> unat (word_of_nat n :: u8) = n"
  by (simp add: unsigned_of_nat take_bit_nat_eq_self)

lemma length_field_short:
  assumes "len \<le> 127"
  shows "length_field len = [word_of_nat (2 * len + 1)]"
proof -
  have "1 OR push_bit 1 len = 2 * len + 1"
    by (simp add: push_bit_eq_mult one_or_eq mult.commute del: One_nat_def)
  with assms show ?thesis by (simp add: length_field_def)
qed

lemma length_field_long:
  assumes "127 < len"
  shows "length_field len = [word_of_nat (2 * (len mod 128)), word_of_nat ((len div 128) mod 256)]"
proof -
  have m: "(127::nat) = mask 7" "(32640::nat) = push_bit 7 (mask 8)"
    by (simp_all add: mask_eq_exp_minus_1 push_bit_eq_mult)
  have lo: "(127 :: nat) AND len = len mod 128"
    unfolding m by (simp add: and.commute take_bit_eq_mask [symmetric] take_bit_eq_mod)
  have "drop_bit 7 ((32640 :: nat) AND len) = mask 8 AND drop_bit 7 len"
    unfolding m by (simp only: drop_bit_and drop_bit_push_bit diff_self_eq_0 push_bit_0_id) simp
  also have "\<dots> = (len div 128) mod 256"
    by (simp add: and.commute [of "mask 8"] take_bit_eq_mask [symmetric] take_bit_eq_mod drop_bit_eq_div)
  finally show ?thesis
    using assms lo by (simp add: length_field_def push_bit_eq_mult mult.commute del: One_nat_def)
qed

lemma length_length_field: "length (length_field len) = (if 127 < len then 2 else 1)"
  by (simp add: length_field_def)

lemma length_field_decode:
  assumes "len \<le> 32767" and "ys = length_field len @ rest"
  shows "(ys ! 0 AND 1 = 0) \<longleftrightarrow> 127 < len"
    "unat (drop_bit 1 (ys ! 0 AND 254)) + (if 127 < len then unat (ys ! 1) * 128 else 0) = len"
proof -
  have "((ys ! 0 AND 1 = 0) \<longleftrightarrow> 127 < len) \<and>
    unat (drop_bit 1 (ys ! 0 AND 254)) + (if 127 < len then unat (ys ! 1) * 128 else 0) = len"
  proof (cases "127 < len")
    case True
    then have ys: "ys ! 0 = word_of_nat (2 * (len mod 128))" "ys ! 1 = word_of_nat (len div 128)"
      using assms by (simp_all add: length_field_long)
    have "2 * (len mod 128) < 256" "len div 128 < 256" using assms(1) by simp_all
    then have "unat (ys ! 0) = 2 * (len mod 128)" "unat (ys ! 1) = len div 128"
      unfolding ys by (simp_all only: unat_of_nat_u8)
    with True show ?thesis by (simp only: and_1_eq_0_iff unat_drop_1) simp
  next
    case False
    then have ys: "ys ! 0 = word_of_nat (2 * len + 1)" using assms by (simp add: length_field_short)
    have "2 * len + 1 < 256" using False by simp
    then have "unat (ys ! 0) = 2 * len + 1" unfolding ys by (rule unat_of_nat_u8)
    with False show ?thesis by (simp only: and_1_eq_0_iff unat_drop_1) simp
  qed
  then show "(ys ! 0 AND 1 = 0) \<longleftrightarrow> 127 < len"
    "unat (drop_bit 1 (ys ! 0 AND 254)) + (if 127 < len then unat (ys ! 1) * 128 else 0) = len"
    by blast+
qed

lemma and_63: "unat c < 64 \<Longrightarrow> 63 AND c = (c :: u8)"
proof -
  assume "unat c < 64"
  then have "unat (take_bit 6 c) = unat c"
    by (simp add: unsigned_take_bit_eq take_bit_nat_eq_self)
  moreover have "(63 :: u8) = mask 6" by (simp add: mask_eq_exp_minus_1)
  ultimately show ?thesis
    by (metis and.commute take_bit_eq_mask unsigned_word_eqI)
qed

lemma decode_address:
  assumes "unat c < 64"
  shows "GSM0710_DECODE_ADDRESS (frame_address (unat c)) = c"
proof -
  have "GSM0710_DECODE_ADDRESS ((3 :: u8) OR push_bit 2 (63 AND c)) = 63 AND c"
  proof (rule bit_word_eqI)
    fix n
    assume n: "n < LENGTH(8)"
    then have "n \<in> {0, 1, 2, 3, 4, 5, 6, 7}" by auto
    then show "bit (GSM0710_DECODE_ADDRESS ((3 :: u8) OR push_bit 2 (63 AND c))) n = bit (63 AND c) n"
      by (auto simp: GSM0710_DECODE_ADDRESS_def bit_drop_bit_eq bit_and_iff bit_or_iff bit_push_bit_iff)
  qed
  moreover have "frame_address (unat c) = 3 OR push_bit 2 (63 AND c)"
    by (simp add: frame_address_def)
  ultimately show ?thesis using assms by (simp add: and_63)
qed

lemma frame_address_low: "bit (frame_address n) 0 \<and> bit (frame_address n) 1"
  by (simp add: frame_address_def bit_or_iff bit_push_bit_iff bit_and_iff)

lemma frame_address_ne_flag:
  "frame_address n \<noteq> GSM0710_FRAME_FLAG" "frame_address n \<noteq> GSM0710_FRAME_ADV_FLAG"
proof -
  have "\<not> bit (0xF9 :: u8) 1" "\<not> bit (0x7E :: u8) 0" by simp_all
  then show "frame_address n \<noteq> GSM0710_FRAME_FLAG" "frame_address n \<noteq> GSM0710_FRAME_ADV_FLAG"
    using frame_address_low [of n] by (auto simp del: bit_numeral_word_iff)
qed

section \<open>The basic format\<close>

definition basic_header :: "gsm_frame \<Rightarrow> bytes" where
  "basic_header f =
     [frame_address (unat (f_channel f)), f_control f] @ length_field (length (f_data f))"

definition basic_encode :: "gsm_frame \<Rightarrow> bytes" where
  "basic_encode f =
     GSM0710_FRAME_FLAG # basic_header f @ f_data f
       @ [frame_calc_crc (basic_header f), GSM0710_FRAME_FLAG]"

text \<open>
  The frames a receiver can take: the channel fits the address field, the payload fits its
  channel, and a UI frame has no payload, because the transmitter's check sequence does not
  cover the payload of a UI frame and the receiver's does.
\<close>

definition basic_valid :: "(nat \<Rightarrow> nat res) \<Rightarrow> gsm_frame \<Rightarrow> bool" where
  "basic_valid n1 f \<longleftrightarrow>
     unat (f_channel f) < 64 \<and> length (f_data f) \<le> 32767 \<and>
     (case n1 (unat (f_channel f)) of Inl _ \<Rightarrow> False | Inr N1 \<Rightarrow> length (f_data f) \<le> N1) \<and>
     (GSM0710_FRAME_IS GSM0710_TYPE_UI f \<longrightarrow> f_data f = [])"

text \<open>The same octets with any check octet \<open>c\<close>.\<close>

definition basic_wire :: "gsm_frame \<Rightarrow> u8 \<Rightarrow> bytes" where
  "basic_wire f c = GSM0710_FRAME_FLAG # basic_header f @ f_data f @ [c, GSM0710_FRAME_FLAG]"

text \<open>A frame whose fields fit, whatever its check sequence.\<close>

definition basic_fits :: "(nat \<Rightarrow> nat res) \<Rightarrow> gsm_frame \<Rightarrow> bool" where
  "basic_fits n1 f \<longleftrightarrow>
     unat (f_channel f) < 64 \<and> length (f_data f) \<le> 32767 \<and>
     (case n1 (unat (f_channel f)) of Inl _ \<Rightarrow> False | Inr N1 \<Rightarrow> length (f_data f) \<le> N1)"

lemma basic_valid_iff:
  "basic_valid n1 f \<longleftrightarrow> basic_fits n1 f \<and> (GSM0710_FRAME_IS GSM0710_TYPE_UI f \<longrightarrow> f_data f = [])"
  by (simp only: basic_valid_def basic_fits_def conj_assoc)

lemma analyse_wire:
  assumes "basic_fits n1 f"
  shows "analyse_spec n1 (basic_header f @ f_data f @ [c, GSM0710_FRAME_FLAG] @ rest)
    = Inr (if c = frame_calc_crc (basic_header f @
                  (if GSM0710_FRAME_IS GSM0710_TYPE_UI f then f_data f else []))
           then SComplete f (length (basic_header f) + length (f_data f) + 2)
           else SDropped (length (basic_header f) + length (f_data f) + 1))"
proof -
  define len where "len = length (f_data f)"
  define xs where "xs = basic_header f @ f_data f @ [c, GSM0710_FRAME_FLAG] @ rest"
  define k :: nat where "k = (if xs ! 2 AND 1 = 0 then 3 else 2)"
  obtain N1 where n1: "n1 (unat (f_channel f)) = Inr N1" and fits: "len \<le> N1" and ch: "unat (f_channel f) < 64"
    and len: "len \<le> 32767"
    using assms by (auto simp: basic_fits_def len_def split: sum.splits)
  define ys where "ys = length_field len @ f_data f @ [c, GSM0710_FRAME_FLAG] @ rest"
  have xs: "xs = frame_address (unat (f_channel f)) # f_control f # ys"
    by (simp add: xs_def ys_def basic_header_def len_def)
  note dec = length_field_decode [OF len ys_def]
  have k: "k = (if 127 < len then 3 else 2)"
    using dec(1) by (simp add: k_def xs)
  have hdr: "length (basic_header f) = k + 1"
    by (simp add: basic_header_def length_length_field k len_def)
  have dlen: "unat (drop_bit 1 (xs ! 2 AND 254)) + (if k = 3 then unat (xs ! 3) * 128 else 0) = len"
  proof -
    have "xs ! 2 = ys ! 0" "xs ! 3 = ys ! 1" "(k = 3) = (127 < len)" by (simp_all add: xs k)
    then show ?thesis using dec(2) by (simp only:)
  qed
  have pay: "take len (drop (k + 1) xs) = f_data f"
    using hdr by (simp add: xs_def len_def)
  have tk: "take (k + 1) xs = basic_header f"
    using hdr by (simp add: xs_def)
  have fcs: "xs ! (k + 1 + len) = c" "xs ! (k + 2 + len) = GSM0710_FRAME_FLAG"
    using hdr by (simp_all add: xs_def nth_append len_def)
  have lx: "length xs = k + 3 + len + length rest"
    using hdr by (simp add: xs_def len_def)
  have addr: "GSM0710_DECODE_ADDRESS (xs ! 0) = f_channel f" "xs ! 1 = f_control f"
    using decode_address [OF ch] by (simp_all add: xs)
  have fr: "\<lparr>f_channel = f_channel f, f_control = f_control f, f_data = f_data f\<rparr> = f" by simp
  have "k \<ge> 2" by (simp add: k)
  with lx have "\<not> length xs < 5" by simp
  then have "analyse_spec n1 xs = Inr (if c = frame_calc_crc (basic_header f @
                  (if GSM0710_FRAME_IS GSM0710_TYPE_UI f then f_data f else []))
      then SComplete f (k + 3 + len) else SDropped (k + 2 + len))"
    unfolding analyse_spec_def Let_def k_def [symmetric] dlen pay tk addr fr
    using n1 fits lx fcs by simp
  then show ?thesis unfolding xs_def [symmetric] hdr by (simp add: len_def)
qed

text \<open>
  The transmitter's check sequence covers the header, also that of a UI frame; the receiver's covers the
  payload of a UI frame as well.  So a UI frame passes only if its payload leaves the check sequence as it is.
\<close>

definition fcs_holds :: "bytes \<Rightarrow> gsm_frame \<Rightarrow> bool" where
  "fcs_holds header f \<longleftrightarrow>
     (GSM0710_FRAME_IS GSM0710_TYPE_UI f \<longrightarrow> frame_calc_crc (header @ f_data f) = frame_calc_crc header)"

lemma fcs_holds_valid: "(GSM0710_FRAME_IS GSM0710_TYPE_UI f \<longrightarrow> f_data f = []) \<Longrightarrow> fcs_holds header f"
  by (auto simp: fcs_holds_def)

lemma analyse_encode:
  assumes "basic_fits n1 f" and "fcs_holds (basic_header f) f"
  shows "analyse_spec n1 (basic_header f @ f_data f @ [frame_calc_crc (basic_header f), GSM0710_FRAME_FLAG] @ rest)
    = Inr (SComplete f (length (basic_header f) + length (f_data f) + 2))"
  using analyse_wire [OF assms(1), of "frame_calc_crc (basic_header f)" rest] assms(2)
  by (simp add: fcs_holds_def)

text \<open>The flags in front of a frame, of which there must be one unless it was seen already.\<close>

lemma get_spec_flag:
  "get_spec n1 False (GSM0710_FRAME_FLAG # xs) d = get_spec n1 True xs d"
  "get_spec n1 True (GSM0710_FRAME_FLAG # xs) d = get_spec n1 True xs d"
  unfolding get_spec.simps [of n1 False "GSM0710_FRAME_FLAG # xs" d]
    get_spec.simps [of n1 True "GSM0710_FRAME_FLAG # xs" d] get_spec.simps [of n1 True xs d]
  by (simp_all add: seek_flag_def)

text \<open>A frame with a wrong check octet is consumed up to its end flag, which opens the next one.\<close>

lemma get_spec_bad_frame:
  assumes "basic_fits n1 f" and "d < MAX_RESYNC_GET_FRAME_COUNT"
    and "c \<noteq> frame_calc_crc (basic_header f @
                  (if GSM0710_FRAME_IS GSM0710_TYPE_UI f then f_data f else []))"
  shows "get_spec n1 flag (basic_wire f c @ rest) d = get_spec n1 True rest (Suc d)"
proof -
  let ?body = "basic_header f @ f_data f @ [c, GSM0710_FRAME_FLAG] @ rest"
  have wire: "basic_wire f c @ rest = GSM0710_FRAME_FLAG # ?body" by (simp add: basic_wire_def)
  have start: "get_spec n1 flag (basic_wire f c @ rest) d = get_spec n1 True ?body d"
    unfolding wire by (cases flag) (simp_all only: get_spec_flag)
  have hd: "dropWhile (\<lambda>x. x = GSM0710_FRAME_FLAG) ?body = ?body"
    using frame_address_ne_flag [of "unat (f_channel f)"] by (simp add: basic_header_def)
  have rest: "drop (length (basic_header f) + length (f_data f) + 1) ?body = GSM0710_FRAME_FLAG # rest"
    by simp
  have "get_spec n1 True ?body d =
      get_spec n1 False (drop (length (basic_header f) + length (f_data f) + 1) ?body) (Suc d)"
    using assms(2) analyse_wire [OF assms(1), of c rest] assms(3) hd
    by (subst get_spec.simps) (simp only: seek_flag_def prod.case if_True if_False Let_def bindE.simps
        spec_result.case not_True_eq_False)
  then show ?thesis unfolding start rest get_spec_flag .
qed

lemma get_encode_accepted:
  assumes "basic_fits n1 f" and "fcs_holds (basic_header f) f" and "d < MAX_RESYNC_GET_FRAME_COUNT"
  shows "get_spec n1 flag (basic_encode f @ rest) d = Inr (Some f, False, rest)"
proof -
  let ?body = "basic_header f @ f_data f @ [frame_calc_crc (basic_header f), GSM0710_FRAME_FLAG] @ rest"
  have enc: "basic_encode f @ rest = GSM0710_FRAME_FLAG # ?body" by (simp add: basic_encode_def)
  have hd: "dropWhile (\<lambda>x. x = GSM0710_FRAME_FLAG) ?body = ?body"
    using frame_address_ne_flag [of "unat (f_channel f)"] by (simp add: basic_header_def)
  have seek: "seek_flag flag (basic_encode f @ rest) = (True, if flag then GSM0710_FRAME_FLAG # ?body else ?body)"
    unfolding enc seek_flag_def by (cases flag) simp_all
  have skip: "dropWhile (\<lambda>x. x = GSM0710_FRAME_FLAG)
      (if flag then GSM0710_FRAME_FLAG # ?body else ?body) = ?body"
    using hd by simp
  show ?thesis
    using assms(3) by (subst get_spec.simps)
      (simp only: seek skip prod.case if_True analyse_encode [OF assms(1,2)] Let_def bindE.simps
        spec_result.case not_True_eq_False if_False, simp)
qed

lemma get_encode_basic:
  assumes "basic_valid n1 f" and "d < MAX_RESYNC_GET_FRAME_COUNT"
  shows "get_spec n1 flag (basic_encode f @ rest) d = Inr (Some f, False, rest)"
  using get_encode_accepted [OF _ fcs_holds_valid assms(2)] assms(1) by (simp add: basic_valid_iff)

lemma get_encode_any:
  assumes "basic_fits n1 f"
  shows "\<exists>fl. get_spec n1 flag (basic_encode f) 0 =
    Inr (if fcs_holds (basic_header f) f then Some f else None, fl, [])"
proof (cases "fcs_holds (basic_header f) f")
  case True
  then show ?thesis
    using get_encode_accepted [OF assms True, of 0 flag "[]"]
    by (intro exI [of _ False]) (simp add: MAX_RESYNC_GET_FRAME_COUNT_def)
next
  case False
  then have ne: "frame_calc_crc (basic_header f) \<noteq> frame_calc_crc (basic_header f @
      (if GSM0710_FRAME_IS GSM0710_TYPE_UI f then f_data f else []))"
    by (auto simp: fcs_holds_def)
  have "get_spec n1 flag (basic_wire f (frame_calc_crc (basic_header f)) @ []) 0 = get_spec n1 True [] 1"
    using get_spec_bad_frame [OF assms _ ne, of 0 flag "[]"] by (simp add: MAX_RESYNC_GET_FRAME_COUNT_def)
  also have "\<dots> = Inr (None, True, [])"
    by (subst get_spec.simps) (simp add: seek_flag_def analyse_spec_def MAX_RESYNC_GET_FRAME_COUNT_def)
  finally show ?thesis using False
    by (intro exI [of _ True]) (simp add: basic_wire_def basic_encode_def)
qed

interpretation basic_format: frame_codec basic_encode "\<lambda>flag xs. get_spec n1 flag xs 0"
    "\<lambda>_. True" "basic_valid n1" for n1
proof unfold_locales
  show "\<exists>s'. True \<and> get_spec n1 s (basic_encode f @ rest) 0 = Inr (Some f, s', rest)"
    if "basic_valid n1 f" for s f rest
    using get_encode_basic [OF that] by (auto simp: MAX_RESYNC_GET_FRAME_COUNT_def)
  show "get_spec n1 s [] 0 = Inr (None, s, [])" for s
    by (subst get_spec.simps)
      (simp add: seek_flag_def analyse_spec_def MAX_RESYNC_GET_FRAME_COUNT_def)
qed

section \<open>The advanced format\<close>

definition adv_encode :: "gsm_frame \<Rightarrow> bytes" where
  "adv_encode f =
     (let header = [frame_address (unat (f_channel f)), f_control f]
      in GSM0710_FRAME_ADV_FLAG #
         fill_adv_frame_buf (header @ f_data f @ [frame_calc_crc header]) @ [GSM0710_FRAME_ADV_FLAG])"

definition adv_valid :: "gsm_frame \<Rightarrow> bool" where
  "adv_valid f \<longleftrightarrow>
     unat (f_channel f) < 64 \<and> length (f_data f) + 3 \<le> GSM0710_BUFFER_SIZE \<and>
     (GSM0710_FRAME_IS GSM0710_TYPE_UI f \<longrightarrow> f_data f = [])"

lemma fill_simps [simp]:
  "fill_adv_frame_buf [] = []"
  "fill_adv_frame_buf (xs @ ys) = fill_adv_frame_buf xs @ fill_adv_frame_buf ys"
  "fill_adv_frame_buf (x # xs) =
     (if x \<in> set GSM0710_FRAME_ADV_ESCAPED_SYMS
      then [GSM0710_FRAME_ADV_ESC, x XOR GSM0710_FRAME_ADV_ESC_COPML] else [x]) @ fill_adv_frame_buf xs"
  by (simp_all add: fill_adv_frame_buf_def)

lemma escaped_syms:
  "x \<notin> set GSM0710_FRAME_ADV_ESCAPED_SYMS \<Longrightarrow> x \<noteq> GSM0710_FRAME_ADV_FLAG \<and> x \<noteq> GSM0710_FRAME_ADV_ESC"
  by (auto simp: GSM0710_FRAME_ADV_ESCAPED_SYMS_def)

text \<open>Unescaping undoes escaping, one octet at a time.\<close>

lemma adv_run_octet:
  assumes "length acc < GSM0710_BUFFER_SIZE"
  shows "adv_run \<lparr>a_flag = True, a_esc = False, a_data = acc\<rparr> (fill_adv_frame_buf [x] @ rest) =
    adv_run \<lparr>a_flag = True, a_esc = False, a_data = acc @ [x]\<rparr> rest"
proof (cases "x \<in> set GSM0710_FRAME_ADV_ESCAPED_SYMS")
  case True
  with assms show ?thesis by (simp add: adv_step_def xor.assoc)
next
  case False
  with assms escaped_syms [OF False] show ?thesis by (simp add: adv_step_def)
qed

lemma adv_run_fill:
  "length acc + length xs \<le> GSM0710_BUFFER_SIZE \<Longrightarrow>
   adv_run \<lparr>a_flag = True, a_esc = False, a_data = acc\<rparr> (fill_adv_frame_buf xs @ rest) =
   adv_run \<lparr>a_flag = True, a_esc = False, a_data = acc @ xs\<rparr> rest"
proof (induction xs arbitrary: acc)
  case Nil
  then show ?case by simp
next
  case (Cons x xs)
  have split: "fill_adv_frame_buf (x # xs) @ rest = fill_adv_frame_buf [x] @ fill_adv_frame_buf xs @ rest"
    by simp
  have "length acc < GSM0710_BUFFER_SIZE" using Cons.prems by simp
  note octet = adv_run_octet [OF this, of x "fill_adv_frame_buf xs @ rest"]
  show ?case unfolding split octet using Cons.IH [of "acc @ [x]"] Cons.prems by simp
qed

definition adv_header :: "gsm_frame \<Rightarrow> bytes" where
  "adv_header f = [frame_address (unat (f_channel f)), f_control f]"

lemma adv_extract_encode:
  assumes "unat (f_channel f) < 64"
  shows "adv_extract (adv_header f @ f_data f @ [frame_calc_crc (adv_header f)]) =
    (if fcs_holds (adv_header f) f then Some f else None)"
proof -
  let ?a = "frame_address (unat (f_channel f))"
  let ?c = "frame_calc_crc [?a, f_control f]"
  let ?xs = "[?a, f_control f] @ f_data f @ [?c]"
  have ch: "drop_bit 2 (?a AND 252) = f_channel f"
    using decode_address [of "f_channel f"] assms by (simp add: GSM0710_DECODE_ADDRESS_def)
  have last: "?xs ! (length ?xs - 1) = ?c" by (simp add: nth_append)
  have take: "take (length ?xs - 3) (drop 2 ?xs) = f_data f" by simp
  have hd: "?xs ! 0 = ?a" "?xs ! 1 = f_control f" by simp_all
  have fr: "\<lparr>f_channel = f_channel f, f_control = f_control f, f_data = f_data f\<rparr> = f" by simp
  have ok: "crc_step ?c (fold crc_step ys (crc_step (f_control f) (crc_step ?a 0xFF))) = 0xCF \<longleftrightarrow>
      ?c = frame_calc_crc ([?a, f_control f] @ ys)" for ys
    using fcs_accepts_iff [of ?c "[?a, f_control f] @ ys"] by simp
  show ?thesis
    unfolding adv_extract_def Let_def adv_header_def take hd ch fr last
    using ok [of "[]"] ok [of "f_data f"] by (cases "f_data f = []") (auto simp: fcs_holds_def)
qed

text \<open>A whole frame of the advanced format, with nothing behind it.\<close>

lemma adv_run_encode:
  assumes ch: "unat (f_channel f) < 64" and len: "length (f_data f) + 3 \<le> GSM0710_BUFFER_SIZE"
    and idle: "\<not> a_flag s \<or> s = adv_open"
  shows "\<exists>s'. \<not> a_flag s' \<and> adv_get_spec s (adv_encode f @ rest) =
    (if fcs_holds (adv_header f) f then (Some f, s', rest) else adv_run s' rest)"
proof -
  let ?body = "adv_header f @ f_data f @ [frame_calc_crc (adv_header f)]"
  let ?wire = "fill_adv_frame_buf ?body @ GSM0710_FRAME_ADV_FLAG # rest"
  have enc: "adv_encode f @ rest = GSM0710_FRAME_ADV_FLAG # ?wire"
    by (simp add: adv_encode_def adv_header_def Let_def)
  have hd: "dropWhile (\<lambda>x. x = GSM0710_FRAME_ADV_FLAG) ?wire = ?wire"
    using frame_address_ne_flag(2) [of "unat (f_channel f)"] by (simp add: adv_header_def)
  have start: "adv_get_spec s (GSM0710_FRAME_ADV_FLAG # ?wire) = adv_run adv_open ?wire"
  proof (cases "a_flag s")
    case True
    with idle have "s = adv_open" by simp
    then show ?thesis using hd by (simp add: adv_get_spec_def adv_open_def)
  next
    case False
    then show ?thesis by (simp add: adv_get_spec_def adv_step_def)
  qed
  have body: "length ([] @ ?body) \<le> GSM0710_BUFFER_SIZE" "3 \<le> length ?body" "?body \<noteq> []"
    using len by (simp_all add: adv_header_def)
  have run: "adv_run adv_open ?wire =
      adv_run \<lparr>a_flag = True, a_esc = False, a_data = ?body\<rparr> (GSM0710_FRAME_ADV_FLAG # rest)"
    using adv_run_fill [of "[]" ?body "GSM0710_FRAME_ADV_FLAG # rest"] body(1)
    unfolding adv_open_def by (simp only: append_Nil list.size add_0)
  have step: "adv_step \<lparr>a_flag = True, a_esc = False, a_data = ?body\<rparr> GSM0710_FRAME_ADV_FLAG =
      (if fcs_holds (adv_header f) f then Some f else None, \<lparr>a_flag = False, a_esc = False, a_data = ?body\<rparr>)"
    using adv_extract_encode [OF ch] body(2,3) by (simp add: adv_step_def del: append_is_Nil_conv)
  show ?thesis unfolding enc start run adv_run.simps(2) step
    by (intro exI [of _ "\<lparr>a_flag = False, a_esc = False, a_data = ?body\<rparr>"]) simp
qed

lemma get_encode_adv:
  assumes valid: "adv_valid f" and idle: "\<not> a_flag s \<or> s = adv_open"
  shows "\<exists>s'. \<not> a_flag s' \<and> adv_get_spec s (adv_encode f @ rest) = (Some f, s', rest)"
  using adv_run_encode [OF _ _ idle, of f rest] valid fcs_holds_valid [of f "adv_header f"]
  by (simp add: adv_valid_def)

interpretation advanced_format: frame_codec adv_encode "\<lambda>s xs. Inr (adv_get_spec s xs)"
    "\<lambda>s. \<not> a_flag s \<or> s = adv_open" adv_valid
proof unfold_locales
  show "\<exists>s'. (\<not> a_flag s' \<or> s' = adv_open) \<and> Inr (adv_get_spec s (adv_encode f @ rest)) = Inr (Some f, s', rest)"
    if "\<not> a_flag s \<or> s = adv_open" "adv_valid f" for s f rest
    using get_encode_adv [OF that(2,1)] by auto
  show "Inr (adv_get_spec s []) = Inr (None, s, [])" if "\<not> a_flag s \<or> s = adv_open" for s
    by (simp add: adv_get_spec_def)
qed

end
