(* ===== verification/Mux_RxProps.thy ===== *)
theory Mux_RxProps
  imports Mux_Framing
begin

text \<open>
  What the receiver guarantees about the octet stream: it finds the frames the transmitter sent,
  however they were cut into reads; every frame it reports was on the line with a matching check
  sequence; after a damaged frame it finds the next one, and after three it ends the process.
\<close>

section \<open>From the specification back to the C function\<close>

lemma base_get_frame_of_spec:
  assumes "buf_inv b" and "get_spec n1 (b_flag_found b) (contents b) d = Inr (f, fl, ys)"
  shows "\<exists>b'. base_buffer_get_frame n1 b d = Inr (f, b') \<and> buf_inv b' \<and>
    b_flag_found b' = fl \<and> contents b' = ys"
  using base_get_frame_refines_inv [OF assms(1), of n1 d] assms(2)
  by (cases "base_buffer_get_frame n1 b d") (auto simp: rx_abs_def)

lemma base_get_frame_to_spec:
  assumes "buf_inv b" and "base_buffer_get_frame n1 b d = Inr (f, b')"
  shows "get_spec n1 (b_flag_found b) (contents b) d = Inr (f, b_flag_found b', contents b')" "buf_inv b'"
  using base_get_frame_refines_inv [OF assms(1), of n1 d] assms(2)
  by (auto simp: rx_abs_def)

text \<open>A fresh buffer that has received \<open>xs\<close>.\<close>

definition rx_feed :: "bytes \<Rightarrow> gsm_buffer" where
  "rx_feed xs = buffer_put gsm0710_buffer_init xs"

lemma free_init: "gsm0710_buffer_free gsm0710_buffer_init = GSM0710_BUFFER_SIZE"
  by (simp add: gsm0710_buffer_free_def)

lemma init_flags:
  "\<not> b_flag_found gsm0710_buffer_init" "b_adv_data gsm0710_buffer_init = []"
  "\<not> b_adv_found_esc gsm0710_buffer_init"
  by (simp_all add: gsm0710_buffer_init_def)

lemma rx_feed_simps [simp]:
  "buf_inv (rx_feed xs)"
  "length xs \<le> GSM0710_BUFFER_SIZE \<Longrightarrow> contents (rx_feed xs) = xs"
  "\<not> b_flag_found (rx_feed xs)"
  "adv_abs (rx_feed xs) = \<lparr>a_flag = False, a_esc = False, a_data = []\<rparr>"
  using buffer_put_laws [OF buf_inv_init, of xs]
  by (simp_all add: rx_feed_def free_init adv_abs_def init_flags)

section \<open>Cutting the stream\<close>

lemma analyse_spec_append:
  assumes "analyse_spec n1 xs = r" and "r \<noteq> Inr SIncomplete"
  shows "analyse_spec n1 (xs @ zs) = r"
proof -
  define k :: nat where "k = (if xs ! 2 AND 1 = 0 then 3 else 2)"
  define len where "len = unat (drop_bit 1 (xs ! 2 AND 254)) + (if k = 3 then unat (xs ! 3) * 128 else 0)"
  have five: "5 \<le> length xs" using assms by (auto simp: analyse_spec_def split: if_splits)
  have k: "k = 2 \<or> k = 3" by (simp add: k_def)
  have nth: "(xs @ zs) ! 0 = xs ! 0" "(xs @ zs) ! 1 = xs ! 1" "(xs @ zs) ! 2 = xs ! 2" "(xs @ zs) ! 3 = xs ! 3"
    using five by (auto simp: nth_append)
  have hdr: "take (k + 1) (xs @ zs) = take (k + 1) xs" using five k by auto
  show ?thesis
  proof (cases "length xs < k + 3 + len")
    case True
    show ?thesis
    proof (cases "n1 (unat (GSM0710_DECODE_ADDRESS (xs ! 0)))")
      case (Inl e)
      with assms(1) five show ?thesis
        unfolding analyse_spec_def Let_def nth by auto
    next
      case (Inr N1)
      have "N1 < len"
      proof (rule ccontr)
        assume "\<not> N1 < len"
        with five Inr True have "analyse_spec n1 xs = Inr SIncomplete"
          unfolding analyse_spec_def Let_def k_def [symmetric] len_def [symmetric] by simp
        with assms show False by simp
      qed
      with assms(1) five Inr show ?thesis
        unfolding analyse_spec_def Let_def nth k_def [symmetric] len_def [symmetric] by auto
    qed
  next
    case False
    then have pay: "take len (drop (k + 1) (xs @ zs)) = take len (drop (k + 1) xs)"
      and fcs: "(xs @ zs) ! (k + 1 + len) = xs ! (k + 1 + len)"
        "(xs @ zs) ! (k + 2 + len) = xs ! (k + 2 + len)"
      by (simp_all add: nth_append)
    from assms five False show ?thesis
      unfolding analyse_spec_def Let_def nth k_def [symmetric] len_def [symmetric] hdr pay fcs
      by (cases "n1 (unat (GSM0710_DECODE_ADDRESS (xs ! 0)))") auto
  qed
qed

lemma dropWhile_append_flags:
  "dropWhile P (dropWhile P xs @ zs) = dropWhile P (xs @ zs)"
  by (induction xs) auto

lemma seek_flag_append:
  assumes "seek_flag flag xs = (True, ys)"
  shows "seek_flag flag (xs @ zs) = (True, ys @ zs)"
proof (cases flag)
  case False
  with assms have mem: "GSM0710_FRAME_FLAG \<in> set xs" and
    ys: "ys = tl (dropWhile (\<lambda>x. x \<noteq> GSM0710_FRAME_FLAG) xs)"
    by (auto simp: seek_flag_def)
  have "dropWhile (\<lambda>x. x \<noteq> GSM0710_FRAME_FLAG) xs \<noteq> []" using mem by simp
  with mem False ys show ?thesis
    by (auto simp: seek_flag_def dropWhile_append simp del: GSM0710_FRAME_FLAG_def)
qed (use assms in \<open>auto simp: seek_flag_def\<close>)

lemma seek_flag_fails:
  assumes "seek_flag flag xs = (False, ys)"
  shows "\<not> flag \<and> seek_flag flag (xs @ zs) = seek_flag False zs"
proof -
  have mem: "\<not> flag" "GSM0710_FRAME_FLAG \<notin> set xs" using assms by (auto simp: seek_flag_def split: if_splits)
  have "dropWhile (\<lambda>x. x \<noteq> GSM0710_FRAME_FLAG) (xs @ zs) = dropWhile (\<lambda>x. x \<noteq> GSM0710_FRAME_FLAG) zs"
    using mem(2) by (subst dropWhile_append2) auto
  with mem show ?thesis by (simp add: seek_flag_def)
qed

text \<open>More octets do not change what was found; without a frame, the search resumes.\<close>

definition extends_to :: "(nat \<Rightarrow> nat res) \<Rightarrow> bytes \<Rightarrow> nat \<Rightarrow> (gsm_frame option \<times> bool \<times> bytes) res
    \<Rightarrow> (gsm_frame option \<times> bool \<times> bytes) res \<Rightarrow> bool" where
  "extends_to n1 zs d r r' \<longleftrightarrow>
     (case r of
        Inl e \<Rightarrow> r' = Inl e
      | Inr (Some f, fl, ys) \<Rightarrow> r' = Inr (Some f, fl, ys @ zs)
      | Inr (None, fl, ys) \<Rightarrow> \<exists>d' \<ge> d. r' = get_spec n1 fl (ys @ zs) d')"

lemma extends_to_Suc: "extends_to n1 zs (Suc d) r r' \<Longrightarrow> extends_to n1 zs d r r'"
  by (auto simp: extends_to_def split: sum.splits option.splits intro: Suc_leD)

lemma get_spec_append:
  "extends_to n1 zs d (get_spec n1 flag xs d) (get_spec n1 flag (xs @ zs) d)"
proof (induction n1 flag xs d rule: get_spec.induct)
  case (1 n1 flag xs d)
  show ?case
  proof (cases "d < MAX_RESYNC_GET_FRAME_COUNT")
    case False
    then show ?thesis by (simp add: extends_to_def get_spec.simps)
  next
    case d: True
    obtain found t where seek: "seek_flag flag xs = (found, t)" by fastforce
    show ?thesis
    proof (cases found)
      case False
      with seek have fl: "\<not> flag" and sk: "seek_flag flag (xs @ zs) = seek_flag False zs"
        using seek_flag_fails [of flag xs t zs] by auto
      have "get_spec n1 flag xs d = Inr (None, False, [])"
        using d seek False by (subst get_spec.simps) simp
      moreover have "get_spec n1 flag (xs @ zs) d = get_spec n1 False zs d"
        unfolding get_spec.simps [of n1 flag "xs @ zs" d] get_spec.simps [of n1 False zs d] sk by simp
      ultimately show ?thesis by (auto simp: extends_to_def)
    next
      case True
      with seek have seek1: "seek_flag flag xs = (True, t)" by simp
      note seek2 = seek_flag_append [OF seek1, of zs]
      define u where "u = dropWhile (\<lambda>x. x = GSM0710_FRAME_FLAG) t"
      have eq1: "get_spec n1 flag xs d = bindE (analyse_spec n1 u) (\<lambda>r. case r of
                   SIncomplete \<Rightarrow> Inr (None, True, u)
                 | SDropped k \<Rightarrow> get_spec n1 False (drop k u) (Suc d)
                 | SComplete frame k \<Rightarrow> Inr (Some frame, False, drop k u))"
        using d by (subst get_spec.simps) (simp add: seek1 u_def Let_def)
      have eq2: "get_spec n1 flag (xs @ zs) d = get_spec n1 True (u @ zs) d"
        using d unfolding get_spec.simps [of n1 flag "xs @ zs" d] get_spec.simps [of n1 True "u @ zs" d] seek2
        by (simp add: seek_flag_def u_def dropWhile_append_flags)
      show ?thesis
      proof (cases "analyse_spec n1 u = Inr SIncomplete")
        case True
        then show ?thesis unfolding eq1 eq2 by (auto simp: extends_to_def)
      next
        case False
        have "u \<noteq> []" using False by (auto simp: analyse_spec_def)
        then have ne: "hd u \<noteq> GSM0710_FRAME_FLAG" unfolding u_def by (rule hd_dropWhile)
        have skip: "dropWhile (\<lambda>x. x = GSM0710_FRAME_FLAG) (u @ zs) = u @ zs"
          using \<open>u \<noteq> []\<close> ne by (cases u) auto
        have eq3: "get_spec n1 True (u @ zs) d = bindE (analyse_spec n1 u) (\<lambda>r. case r of
                   SIncomplete \<Rightarrow> Inr (None, True, u @ zs)
                 | SDropped k \<Rightarrow> get_spec n1 False (drop k (u @ zs)) (Suc d)
                 | SComplete frame k \<Rightarrow> Inr (Some frame, False, drop k (u @ zs)))"
          using d analyse_spec_append [OF refl False, of zs] skip
          by (subst get_spec.simps) (simp add: seek_flag_def Let_def)
        show ?thesis
        proof (cases "analyse_spec n1 u")
          case (Inl e)
          then show ?thesis unfolding eq1 eq2 eq3 by (simp add: extends_to_def)
        next
          case (Inr r)
          show ?thesis
          proof (cases r)
            case SIncomplete
            with Inr False show ?thesis by simp
          next
            case (SDropped k)
            then have k: "k \<le> length u" using Inr analyse_spec_bound(1) by blast
            from "1.IH" [OF d seek1 [symmetric] _ u_def Inr SDropped]
            have "extends_to n1 zs (Suc d) (get_spec n1 False (drop k u) (Suc d))
                (get_spec n1 False (drop k u @ zs) (Suc d))" by simp
            with Inr SDropped k show ?thesis
              unfolding eq1 eq2 eq3 by (auto dest: extends_to_Suc)
          next
            case (SComplete f k)
            then have k: "k \<le> length u" using Inr analyse_spec_bound(2) by blast
            with Inr SComplete show ?thesis
              unfolding eq1 eq2 eq3 by (simp add: extends_to_def)
          qed
        qed
      qed
    qed
  qed
qed

lemma get_spec_depth:
  "get_spec n1 flag xs d = Inr r \<Longrightarrow> d' \<le> d \<Longrightarrow> get_spec n1 flag xs d' = Inr r"
proof (induction n1 flag xs d arbitrary: d' rule: get_spec.induct)
  case (1 n1 flag xs d)
  note unf = "1.prems"(1) [unfolded get_spec.simps [of n1 flag xs d]]
  from unf have d: "d < MAX_RESYNC_GET_FRAME_COUNT" by (simp split: if_splits)
  with "1.prems"(2) have d': "d' < MAX_RESYNC_GET_FRAME_COUNT" by simp
  obtain found t where seek: "seek_flag flag xs = (found, t)" by fastforce
  show ?case
  proof (cases found)
    case False
    with unf d d' seek show ?thesis by (subst get_spec.simps) simp
  next
    case True
    define u where "u = dropWhile (\<lambda>x. x = GSM0710_FRAME_FLAG) t"
    show ?thesis
    proof (cases "\<exists>k. analyse_spec n1 u = Inr (SDropped k)")
      case False
      with unf d d' seek True show ?thesis
        by (subst get_spec.simps)
          (auto simp: Let_def u_def bindE_eq_Inr split: spec_result.splits)
    next
      case drop: True
      then obtain k where k: "analyse_spec n1 u = Inr (SDropped k)" by blast
      with unf d seek True have "get_spec n1 False (drop k u) (Suc d) = Inr r"
        by (simp add: Let_def u_def)
      from "1.IH" [OF d seek [symmetric] _ u_def k refl this] True "1.prems"(2)
      have "get_spec n1 False (drop k u) (Suc d') = Inr r" by simp
      with d' seek True k show ?thesis
        by (subst get_spec.simps) (simp add: Let_def u_def)
    qed
  qed
qed

lemma get_spec_resume:
  assumes "get_spec n1 flag xs 0 = Inr (None, fl, ys)" and "get_spec n1 flag (xs @ zs) 0 = Inr r"
  shows "get_spec n1 fl (ys @ zs) 0 = Inr r"
  using get_spec_append [of n1 zs 0 flag xs] assms get_spec_depth [of n1 fl "ys @ zs" _ r 0]
  by (auto simp: extends_to_def)

lemma get_spec_length:
  "get_spec n1 flag xs d = Inr (f, fl, ys) \<Longrightarrow> length ys \<le> length xs"
proof (induction n1 flag xs d rule: get_spec.induct)
  case (1 n1 flag xs d)
  note unf = "1.prems" [unfolded get_spec.simps [of n1 flag xs d]]
  from unf have d: "d < MAX_RESYNC_GET_FRAME_COUNT" by (simp split: if_splits)
  obtain found t where seek: "seek_flag flag xs = (found, t)" by fastforce
  show ?case
  proof (cases found)
    case False
    with unf d seek show ?thesis by simp
  next
    case True
    define u where "u = dropWhile (\<lambda>x. x = GSM0710_FRAME_FLAG) t"
    have "length t \<le> length xs"
      using seek length_dropWhile_le [of "\<lambda>x. x \<noteq> GSM0710_FRAME_FLAG" xs]
      by (auto simp: seek_flag_def split: if_splits)
    then have le: "length u \<le> length xs"
      using length_dropWhile_le [of "\<lambda>x. x = GSM0710_FRAME_FLAG" t] by (simp add: u_def)
    show ?thesis
    proof (cases "\<exists>k. analyse_spec n1 u = Inr (SDropped k)")
      case False
      from unf d seek True obtain r where "analyse_spec n1 u = Inr r" and
        "(case r of
            SIncomplete \<Rightarrow> Inr (None, True, u)
          | SDropped k \<Rightarrow> get_spec n1 False (drop k u) (Suc d)
          | SComplete frame k \<Rightarrow> Inr (Some frame, False, drop k u)) = Inr (f, fl, ys)"
        by (auto simp: bindE_eq_Inr Let_def simp del: GSM0710_FRAME_FLAG_def simp flip: u_def)
      with False le show ?thesis by (cases r) auto
    next
      case drop: True
      then obtain k where k: "analyse_spec n1 u = Inr (SDropped k)" by blast
      with unf d seek True have "get_spec n1 False (drop k u) (Suc d) = Inr (f, fl, ys)"
        by (simp add: Let_def u_def)
      from "1.IH" [OF d seek [symmetric] _ u_def k refl this] True le show ?thesis by simp
    qed
  qed
qed

section \<open>Properties of the basic option\<close>

text \<open>C3. \<open>gsm0710_base_buffer_get_frame\<close>, with its circular array, wrapped pointers, shadow
  counters and recursion after a damaged frame, computes the list specification \<open>get_spec\<close>: the
  same frame, the same octets left over, the same flag state, and the same assertion or
  out-of-bounds access.\<close>

theorem base_get_frame_refines:
  assumes "buf_inv b"
  shows "map_sum id rx_abs (base_buffer_get_frame n1 b d) =
    get_spec n1 (b_flag_found b) (contents b) d"
  using base_get_frame_refines_inv [OF assms] by simp

theorem base_get_frame_refines_witness:
  "map_sum id rx_abs (base_buffer_get_frame (\<lambda>_. Inr 512) gsm0710_buffer_init 0) = Inr (None, False, [])"
  by (subst base_get_frame_refines [OF buf_inv_init])
    (simp add: get_spec.simps init_flags seek_flag_def MAX_RESYNC_GET_FRAME_COUNT_def)

text \<open>C6. A frame that is returned was on the line: behind a flag, a header whose address and control
  octets are those of the frame, the payload, a matching check octet and the end flag; the
  payload is within its channel's \<open>negotiated_N1\<close>; and what follows is left in the buffer.\<close>

theorem base_get_frame_sound:
  assumes "buf_inv b" and "base_buffer_get_frame n1 b d = Inr (Some f, b')"
  shows "\<exists>pre hdr. contents b = pre @ hdr @ f_data f
      @ [frame_calc_crc (hdr @ (if GSM0710_FRAME_IS GSM0710_TYPE_UI f then f_data f else [])),
         GSM0710_FRAME_FLAG] @ contents b' \<and> (b_flag_found b \<or> GSM0710_FRAME_FLAG \<in> set pre) \<and>
     3 \<le> length hdr \<and> length hdr \<le> 4 \<and> GSM0710_DECODE_ADDRESS (hdr ! 0) = f_channel f \<and>
     hdr ! 1 = f_control f \<and>
     (\<exists>N1. n1 (unat (f_channel f)) = Inr N1 \<and> length (f_data f) \<le> N1)"
  using get_spec_frame [OF base_get_frame_to_spec(1) [OF assms]] .

definition sample_frame :: gsm_frame where
  "sample_frame = \<lparr>f_channel = 3, f_control = 0xEF, f_data = [0x41]\<rparr>"

lemma sample_valid: "basic_valid (\<lambda>_. Inr 512) sample_frame" "adv_valid sample_frame"
  by (simp_all add: basic_valid_def adv_valid_def sample_frame_def GSM0710_FRAME_IS_def
      GSM0710_BUFFER_SIZE_def)

lemma sample_fits: "basic_fits (\<lambda>_. Inr 512) sample_frame"
  by (simp add: basic_fits_def sample_frame_def)

lemma length_basic_encode: "length (basic_encode f) \<le> length (f_data f) + 7"
  by (simp add: basic_encode_def basic_header_def length_length_field)

lemma sample_received:
  "\<exists>b'. base_buffer_get_frame (\<lambda>_. Inr 512) (rx_feed (basic_encode sample_frame)) 0 = Inr (Some sample_frame, b')
    \<and> contents b' = []"
proof -
  have "length (basic_encode sample_frame) \<le> GSM0710_BUFFER_SIZE"
    using length_basic_encode [of sample_frame] by (simp add: sample_frame_def GSM0710_BUFFER_SIZE_def)
  moreover have "get_spec (\<lambda>_. Inr 512) False (basic_encode sample_frame) 0 = Inr (Some sample_frame, False, [])"
    using get_encode_basic [OF sample_valid(1), of 0 False "[]"] by (simp add: MAX_RESYNC_GET_FRAME_COUNT_def)
  ultimately show ?thesis
    using base_get_frame_of_spec [of "rx_feed (basic_encode sample_frame)"] by fastforce
qed

theorem base_get_frame_sound_witness:
  "\<exists>pre hdr. basic_encode sample_frame = pre @ hdr @ [0x41, frame_calc_crc hdr, GSM0710_FRAME_FLAG]
     \<and> hdr ! 1 = 0xEF"
proof -
  obtain b' where g: "base_buffer_get_frame (\<lambda>_. Inr 512) (rx_feed (basic_encode sample_frame)) 0
      = Inr (Some sample_frame, b')" and c: "contents b' = []"
    using sample_received by blast
  have len: "length (basic_encode sample_frame) \<le> GSM0710_BUFFER_SIZE"
    using length_basic_encode [of sample_frame] by (simp add: sample_frame_def GSM0710_BUFFER_SIZE_def)
  from base_get_frame_sound [OF rx_feed_simps(1) g] len c show ?thesis
    by (auto simp: sample_frame_def GSM0710_FRAME_IS_def)
qed

text \<open>C7. Reassembly does not depend on how reads cut the stream: if a call found no frame and \<open>zs\<close>
  arrives afterwards, the next call returns what one call on the whole would have returned,
  provided that one call would not have ended the process.\<close>

theorem base_get_frame_chunks:
  assumes inv: "buf_inv b" and none: "base_buffer_get_frame n1 b 0 = Inr (None, b1)"
    and room: "length zs \<le> gsm0710_buffer_free b"
    and whole: "base_buffer_get_frame n1 (buffer_put b zs) 0 = Inr (f, b2)"
  shows "\<exists>b3. base_buffer_get_frame n1 (buffer_put b1 zs) 0 = Inr (f, b3) \<and>
    contents b3 = contents b2 \<and> b_flag_found b3 = b_flag_found b2"
proof -
  note s1 = base_get_frame_to_spec [OF inv none]
  have "b_datacount b1 \<le> b_datacount b" using get_spec_length [OF s1(1)] by simp
  then have room1: "length zs \<le> gsm0710_buffer_free b1"
    using room by (simp add: gsm0710_buffer_free_def)
  note p = buffer_put_laws [OF inv, of zs] and p1 = buffer_put_laws [OF s1(2), of zs]
  note s2 = base_get_frame_to_spec [OF p(1) whole]
  have "get_spec n1 (b_flag_found b) (contents b @ zs) 0 = Inr (f, b_flag_found b2, contents b2)"
    using s2(1) p room by simp
  from get_spec_resume [OF s1(1) this] have
    "get_spec n1 (b_flag_found (buffer_put b1 zs)) (contents (buffer_put b1 zs)) 0
      = Inr (f, b_flag_found b2, contents b2)"
    using p1 room1 by simp
  from base_get_frame_of_spec [OF p1(1) this] show ?thesis by blast
qed

theorem base_get_frame_chunks_witness:
  "\<exists>b1 b3. base_buffer_get_frame (\<lambda>_. Inr 512) gsm0710_buffer_init 0 = Inr (None, b1) \<and>
     base_buffer_get_frame (\<lambda>_. Inr 512) (buffer_put b1 (basic_encode sample_frame)) 0
       = Inr (Some sample_frame, b3) \<and> contents b3 = []"
proof -
  have "get_spec (\<lambda>_. Inr 512) (b_flag_found gsm0710_buffer_init) (contents gsm0710_buffer_init) 0
      = Inr (None, False, [])"
    by (simp add: get_spec.simps init_flags seek_flag_def MAX_RESYNC_GET_FRAME_COUNT_def)
  from base_get_frame_of_spec [OF buf_inv_init this] obtain b1 where
    n: "base_buffer_get_frame (\<lambda>_. Inr 512) gsm0710_buffer_init 0 = Inr (None, b1)" by blast
  obtain b2 where w: "base_buffer_get_frame (\<lambda>_. Inr 512)
      (buffer_put gsm0710_buffer_init (basic_encode sample_frame)) 0 = Inr (Some sample_frame, b2)"
    and c: "contents b2 = []"
    using sample_received by (auto simp: rx_feed_def)
  have "length (basic_encode sample_frame) \<le> gsm0710_buffer_free gsm0710_buffer_init"
    using length_basic_encode [of sample_frame]
    by (simp add: free_init sample_frame_def GSM0710_BUFFER_SIZE_def)
  from base_get_frame_chunks [OF buf_inv_init n this w] n c show ?thesis by auto
qed

text \<open>One or two frames with a wrong check octet cost only themselves: the valid frame behind
  them is returned by the same call.\<close>

theorem base_get_frame_resyncs:
  assumes inv: "buf_inv b"
    and bad: "basic_fits n1 g" "c \<noteq> frame_calc_crc (basic_header g @
                (if GSM0710_FRAME_IS GSM0710_TYPE_UI g then f_data g else []))"
    and valid: "basic_valid n1 f"
    and line: "contents b = basic_wire g c @ basic_encode f @ rest
             \<or> contents b = basic_wire g c @ basic_wire g c @ basic_encode f @ rest"
  shows "\<exists>b'. base_buffer_get_frame n1 b 0 = Inr (Some f, b') \<and> contents b' = rest"
proof -
  have "get_spec n1 (b_flag_found b) (contents b) 0 = Inr (Some f, False, rest)"
    using line
  proof
    assume "contents b = basic_wire g c @ basic_encode f @ rest"
    then show ?thesis
      using get_spec_bad_frame [OF bad(1) _ bad(2), of 0] get_encode_basic [OF valid, of 1]
      by (simp add: MAX_RESYNC_GET_FRAME_COUNT_def)
  next
    assume "contents b = basic_wire g c @ basic_wire g c @ basic_encode f @ rest"
    then show ?thesis
      using get_spec_bad_frame [OF bad(1) _ bad(2), of 0] get_spec_bad_frame [OF bad(1) _ bad(2), of 1]
        get_encode_basic [OF valid, of 2]
      by (simp add: MAX_RESYNC_GET_FRAME_COUNT_def numeral_2_eq_2)
  qed
  from base_get_frame_of_spec [OF inv this] show ?thesis by blast
qed

lemma sample_bad:
  "0 \<noteq> frame_calc_crc (basic_header sample_frame @
     (if GSM0710_FRAME_IS GSM0710_TYPE_UI sample_frame then f_data sample_frame else []))"
  by (simp add: sample_frame_def basic_header_def frame_address_def length_field_def
      GSM0710_FRAME_IS_def frame_calc_crc_def crc_step_eq crc_byte_def crc_bit_def)

theorem base_get_frame_resyncs_witness:
  "\<exists>b'. base_buffer_get_frame (\<lambda>_. Inr 512)
     (rx_feed (basic_wire sample_frame 0 @ basic_encode sample_frame @ [])) 0
       = Inr (Some sample_frame, b') \<and> contents b' = []"
proof (rule base_get_frame_resyncs [OF rx_feed_simps(1) _ sample_bad])
  show "basic_fits (\<lambda>_. Inr 512) sample_frame" "basic_valid (\<lambda>_. Inr 512) sample_frame"
    by (rule sample_fits, rule sample_valid)
  have "length (basic_wire sample_frame 0 @ basic_encode sample_frame @ []) \<le> GSM0710_BUFFER_SIZE"
    using length_basic_encode [of sample_frame]
    by (simp add: basic_wire_def basic_header_def length_length_field sample_frame_def GSM0710_BUFFER_SIZE_def)
  then show "contents (rx_feed (basic_wire sample_frame 0 @ basic_encode sample_frame @ []))
      = basic_wire sample_frame 0 @ basic_encode sample_frame @ [] \<or>
    contents (rx_feed (basic_wire sample_frame 0 @ basic_encode sample_frame @ []))
      = basic_wire sample_frame 0 @ basic_wire sample_frame 0 @ basic_encode sample_frame @ []"
    by (intro disjI1 rx_feed_simps)
qed

text \<open>Three frames in a row with a wrong check octet end the daemon (\<open>Gsm0710Muxd_Assert (13)\<close>),
  whatever follows them.\<close>

theorem base_get_frame_gives_up:
  assumes inv: "buf_inv b" and fits: "basic_fits n1 g"
    and bad: "c \<noteq> frame_calc_crc (basic_header g @
                (if GSM0710_FRAME_IS GSM0710_TYPE_UI g then f_data g else []))"
    and line: "contents b = basic_wire g c @ basic_wire g c @ basic_wire g c @ rest"
  shows "base_buffer_get_frame n1 b 0 = Inl (Assert 13)"
proof -
  have "get_spec n1 (b_flag_found b) (contents b) 0 = get_spec n1 True rest 3"
    using get_spec_bad_frame [OF fits _ bad, of 0] get_spec_bad_frame [OF fits _ bad, of 1]
      get_spec_bad_frame [OF fits _ bad, of 2] line
    by (simp add: MAX_RESYNC_GET_FRAME_COUNT_def eval_nat_numeral)
  also have "\<dots> = Inl (Assert 13)"
    by (subst get_spec.simps) (simp add: MAX_RESYNC_GET_FRAME_COUNT_def)
  finally show ?thesis
    using base_get_frame_refines_inv [OF inv, of n1 0]
    by (cases "base_buffer_get_frame n1 b 0") auto
qed

theorem base_get_frame_gives_up_witness:
  "base_buffer_get_frame (\<lambda>_. Inr 512)
     (rx_feed (basic_wire sample_frame 0 @ basic_wire sample_frame 0 @ basic_wire sample_frame 0 @ [])) 0
   = Inl (Assert 13)"
proof (rule base_get_frame_gives_up [OF rx_feed_simps(1) _ sample_bad rx_feed_simps(2)])
  show "basic_fits (\<lambda>_. Inr 512) sample_frame" by (rule sample_fits)
  show "length (basic_wire sample_frame 0 @ basic_wire sample_frame 0 @ basic_wire sample_frame 0 @ [])
      \<le> GSM0710_BUFFER_SIZE"
    by (simp add: basic_wire_def basic_header_def length_length_field sample_frame_def GSM0710_BUFFER_SIZE_def)
qed

end
