(* ===== verification/Mux_LineProps.thy ===== *)
theory Mux_LineProps
  imports Mux_RxProps
begin

text \<open>
  Both ends of the line together: what \<open>write_frame\<close> and \<open>handle_channel_data\<close> put on a serial
  line that accepts everything, and what the frame readers make of it; the bounds of the
  channel table and of \<open>adv_frame_buf\<close>.
\<close>

section \<open>Sending on a line that takes everything\<close>

lemma write_postfix_ok:
  assumes "writes_ok m" and "0 \<le> m_serial_fd m" and "length postfix = 2"
  shows "write_postfix len postfix m = (len, emit (Wrote (m_serial_fd m) postfix) m)"
  using write_retry_ok [OF assms(1,2)] assms(3) by (simp add: write_postfix_def)

lemma writes_ok_emit [simp]: "writes_ok (emit e m) = writes_ok m"
  by (simp add: writes_ok_def)

lemma writes_ok_pf [simp]: "writes_ok (m\<lparr>m_uih_pf_bit_received := v\<rparr>) = writes_ok m"
  by (simp add: writes_ok_def)

lemma write_basic_ok:
  assumes "writes_ok m" and "0 \<le> m_serial_fd m" and "length postfix = 2"
  shows "\<exists>es. write_basic prefix input postfix m = (length input, m\<lparr>m_trace := m_trace m @ es\<rparr>) \<and>
    written_to (m_serial_fd m) es = prefix @ input @ postfix"
proof (cases "input = []")
  case True
  have "write_basic prefix input postfix m =
     (0, emit (Wrote (m_serial_fd m) postfix) (emit (Wrote (m_serial_fd m) prefix) m))"
    using assms True by (simp add: write_basic_def write_retry_ok write_postfix_ok)
  then show ?thesis
    using True by (intro exI [of _ "[Wrote (m_serial_fd m) prefix, Wrote (m_serial_fd m) postfix]"])
      (simp add: emit_def)
next
  case False
  have "write_basic prefix input postfix m =
     (length input, emit (Wrote (m_serial_fd m) postfix) (emit (Wrote (m_serial_fd m) input)
        (emit (Wrote (m_serial_fd m) prefix) m)))"
    using assms False by (simp add: write_basic_def write_retry_ok write_postfix_ok)
  then show ?thesis
    by (intro exI [of _ "[Wrote (m_serial_fd m) prefix, Wrote (m_serial_fd m) input, Wrote (m_serial_fd m) postfix]"])
      (simp add: emit_def)
qed

text \<open>The line is up: open, not stopped, accepting.\<close>

definition line_up :: "mux \<Rightarrow> bool" where
  "line_up m \<longleftrightarrow> writes_ok m \<and> 0 \<le> m_serial_fd m \<and> \<not> m_stop_muxd m"

definition same_but_trace :: "mux \<Rightarrow> mux \<Rightarrow> bool" where
  "same_but_trace m m' \<longleftrightarrow>
     m' = m\<lparr>m_trace := m_trace m', m_uih_pf_bit_received := m_uih_pf_bit_received m'\<rparr>"

lemma same_but_trace_fields:
  assumes "same_but_trace m m'"
  shows "m_channels m' = m_channels m" "m_serial_fd m' = m_serial_fd m" "m_cmux_mode m' = m_cmux_mode m"
    "line_up m' = line_up m" "chan_n1 m' = chan_n1 m"
proof -
  obtain t v where m': "m' = m\<lparr>m_trace := t, m_uih_pf_bit_received := v\<rparr>"
    using assms unfolding same_but_trace_def by blast
  show "m_channels m' = m_channels m" "m_serial_fd m' = m_serial_fd m" "m_cmux_mode m' = m_cmux_mode m"
    "line_up m' = line_up m" "chan_n1 m' = chan_n1 m"
    unfolding m' by (simp_all add: line_up_def writes_ok_def chan_n1_def get_channel_def fun_eq_iff)
qed

text \<open>\<open>write_frame\<close> reads \<open>input[0]\<close> of a UIH or UI frame while a response with the P/F bit is due.\<close>

lemma frame_control_ok:
  assumes "m_uih_pf_bit_received m \<and> type \<in> {GSM0710_TYPE_UIH, GSM0710_TYPE_UI} \<longrightarrow> input \<noteq> []"
  shows "\<exists>control v. frame_control type input m = Inr (control, m\<lparr>m_uih_pf_bit_received := v\<rparr>) \<and>
    control \<in> {type, type OR GSM0710_PF} \<and> (\<not> m_uih_pf_bit_received m \<longrightarrow> control = type)"
proof -
  have "frame_control type input m = Inr (type, m) \<or> m_uih_pf_bit_received m \<and>
      frame_control type input m = Inr (type OR GSM0710_PF, m\<lparr>m_uih_pf_bit_received := False\<rparr>)"
    using assms by (cases input) (auto simp: frame_control_def split: if_split)
  then show ?thesis
  proof (elim disjE conjE)
    assume "frame_control type input m = Inr (type, m)"
    then show ?thesis by (intro exI [of _ type] exI [of _ "m_uih_pf_bit_received m"]) simp
  next
    assume "m_uih_pf_bit_received m"
      and "frame_control type input m = Inr (type OR GSM0710_PF, m\<lparr>m_uih_pf_bit_received := False\<rparr>)"
    then show ?thesis by (intro exI [of _ "type OR GSM0710_PF"] exI [of _ False]) simp
  qed
qed

lemma write_frame_line:
  assumes up: "line_up m" and basic: "\<not> m_cmux_mode m"
    and ch: "get_channel m channel = Inr ch" and id: "channel < 64"
    and input: "m_uih_pf_bit_received m \<and> type \<in> {GSM0710_TYPE_UIH, GSM0710_TYPE_UI} \<longrightarrow> input \<noteq> []"
  shows "\<exists>m' es control. let n = min (ch_negotiated_N1 ch) (length input);
      f = \<lparr>f_channel = word_of_nat channel, f_control = control, f_data = take n input\<rparr>
    in write_frame channel input type m = Inr (n, m') \<and> same_but_trace m m' \<and>
       m_trace m' = m_trace m @ es \<and> written_to (m_serial_fd m) es = basic_encode f \<and>
       control \<in> {type, type OR GSM0710_PF} \<and> (\<not> m_uih_pf_bit_received m \<longrightarrow> control = type)"
proof -
  define n where "n = min (ch_negotiated_N1 ch) (length input)"
  from frame_control_ok [OF input] obtain control v where
    fc: "frame_control type input m = Inr (control, m\<lparr>m_uih_pf_bit_received := v\<rparr>)"
    and c: "control \<in> {type, type OR GSM0710_PF}" "\<not> m_uih_pf_bit_received m \<longrightarrow> control = type"
    by blast
  let ?m1 = "m\<lparr>m_uih_pf_bit_received := v\<rparr>"
  let ?f = "\<lparr>f_channel = word_of_nat channel, f_control = control, f_data = take n input\<rparr>"
  have un: "unat (word_of_nat channel :: u8) = channel" using id by (intro unat_of_nat_u8) simp
  have hdr: "basic_header ?f = [frame_address channel, control] @ length_field (length (take n input))"
    by (simp add: basic_header_def un)
  from write_basic_ok [of ?m1 "[frame_calc_crc (basic_header ?f), GSM0710_FRAME_FLAG]"
      "GSM0710_FRAME_FLAG # basic_header ?f" "take n input"] up
  obtain es where
    w: "write_basic (GSM0710_FRAME_FLAG # basic_header ?f) (take n input)
        [frame_calc_crc (basic_header ?f), GSM0710_FRAME_FLAG] ?m1
        = (length (take n input), ?m1\<lparr>m_trace := m_trace m @ es\<rparr>)"
    and es: "written_to (m_serial_fd m) es = basic_encode ?f"
    by (auto simp: line_up_def basic_encode_def)
  have "write_frame channel input type m = Inr (n, ?m1\<lparr>m_trace := m_trace m @ es\<rparr>)"
    using up basic ch fc w unfolding write_frame_def send_frame_def
    by (simp add: line_up_def get_channel_def n_def [symmetric] hdr Let_def) (simp add: n_def)
  moreover have "same_but_trace m (?m1\<lparr>m_trace := m_trace m @ es\<rparr>)"
    by (simp add: same_but_trace_def)
  ultimately show ?thesis
    unfolding Let_def n_def [symmetric] using es c
    by (intro exI [of _ "?m1\<lparr>m_trace := m_trace m @ es\<rparr>"] exI [of _ es] exI [of _ control]) simp
qed

lemma write_frame_ok:
  assumes up: "line_up m" and basic: "\<not> m_cmux_mode m"
    and ch: "get_channel m channel = Inr ch" and id: "channel < 64"
    and input: "input \<noteq> [] \<or> type \<noteq> GSM0710_TYPE_UIH \<and> type \<noteq> GSM0710_TYPE_UI"
  shows "\<exists>m' es control. let n = min (ch_negotiated_N1 ch) (length input);
      f = \<lparr>f_channel = word_of_nat channel, f_control = control, f_data = take n input\<rparr>
    in write_frame channel input type m = Inr (n, m') \<and> same_but_trace m m' \<and>
       m_trace m' = m_trace m @ es \<and> written_to (m_serial_fd m) es = basic_encode f \<and>
       control \<in> {type, type OR GSM0710_PF} \<and> (\<not> m_uih_pf_bit_received m \<longrightarrow> control = type)"
  using write_frame_line [OF assms(1-4), of type input] input by fastforce

section \<open>Splitting an application's data\<close>

lemma frame_is_uih:
  "control \<in> {GSM0710_TYPE_UIH, GSM0710_TYPE_UIH OR GSM0710_PF} \<Longrightarrow>
   f_control f = control \<Longrightarrow> GSM0710_FRAME_IS GSM0710_TYPE_UIH f \<and> \<not> GSM0710_FRAME_IS GSM0710_TYPE_UI f"
  by (auto simp: GSM0710_FRAME_IS_def)

definition data_frame :: "nat \<Rightarrow> nat \<Rightarrow> gsm_frame \<Rightarrow> bool" where
  "data_frame channel N1 f \<longleftrightarrow>
     f_channel f = word_of_nat channel \<and> GSM0710_FRAME_IS GSM0710_TYPE_UIH f \<and>
     f_data f \<noteq> [] \<and> length (f_data f) \<le> N1"

lemma same_but_trace_trans:
  "same_but_trace m1 m2 \<Longrightarrow> same_but_trace m2 m3 \<Longrightarrow> same_but_trace m1 m3"
proof -
  assume "same_but_trace m1 m2" "same_but_trace m2 m3"
  then obtain t2 v2 t3 v3 where
    "m2 = m1\<lparr>m_trace := t2, m_uih_pf_bit_received := v2\<rparr>"
    "m3 = m2\<lparr>m_trace := t3, m_uih_pf_bit_received := v3\<rparr>"
    unfolding same_but_trace_def by blast
  then show ?thesis by (simp add: same_but_trace_def)
qed

lemma handle_channel_loop_ok:
  assumes "line_up m" and "\<not> m_cmux_mode m" and "get_channel m channel = Inr ch"
    and "channel < 64" and "0 < ch_negotiated_N1 ch" and "i < GSM0710_WRITE_RETRIES"
  shows "\<exists>m' es fs. handle_channel_loop i rest channel m = Inr (0, m') \<and> same_but_trace m m' \<and>
    m_trace m' = m_trace m @ es \<and> written_to (m_serial_fd m) es = concat (map basic_encode fs) \<and>
    concat (map f_data fs) = rest \<and> list_all (data_frame channel (ch_negotiated_N1 ch)) fs"
  using assms
proof (induction "length rest" arbitrary: rest m rule: less_induct)
  case less
  show ?case
  proof (cases "rest = []")
    case True
    then show ?thesis
      by (intro exI [of _ m] exI [of _ "[]"])
        (simp add: handle_channel_loop.simps same_but_trace_def)
  next
    case False
    define n where "n = min (ch_negotiated_N1 ch) (length rest)"
    have n: "0 < n" using less.prems(5) False by (simp add: n_def)
    from write_frame_ok [OF less.prems(1-4), of rest GSM0710_TYPE_UIH] False
    obtain m1 es control where
      w: "write_frame channel rest GSM0710_TYPE_UIH m = Inr (n, m1)"
      and same: "same_but_trace m m1" and tr: "m_trace m1 = m_trace m @ es"
      and es: "written_to (m_serial_fd m) es = basic_encode
          \<lparr>f_channel = word_of_nat channel, f_control = control, f_data = take n rest\<rparr>"
      and c: "control \<in> {GSM0710_TYPE_UIH, GSM0710_TYPE_UIH OR GSM0710_PF}"
      unfolding Let_def n_def [symmetric] by blast
    let ?f = "\<lparr>f_channel = word_of_nat channel, f_control = control, f_data = take n rest\<rparr>"
    note f1 = same_but_trace_fields [OF same]
    have g1: "get_channel m1 channel = Inr ch" using less.prems(3) f1(1) by (simp add: get_channel_def)
    have step: "handle_channel_loop i rest channel m = handle_channel_loop i (drop n rest) channel m1"
      using False less.prems(6) w n by (subst handle_channel_loop.simps) simp
    have short: "length (drop n rest) < length rest" using n False by simp
    from less.hyps [OF short _ _ g1 less.prems(4-6)] less.prems(1,2) f1
    obtain m' es' fs where
      r: "handle_channel_loop i (drop n rest) channel m1 = Inr (0, m')" "same_but_trace m1 m'"
        "m_trace m' = m_trace m1 @ es'" "written_to (m_serial_fd m) es' = concat (map basic_encode fs)"
        "concat (map f_data fs) = drop n rest" "list_all (data_frame channel (ch_negotiated_N1 ch)) fs"
      by auto
    have "data_frame channel (ch_negotiated_N1 ch) ?f"
      using frame_is_uih [OF c, of ?f] n False by (simp add: data_frame_def n_def)
    with r tr es same step show ?thesis
      by (intro exI [of _ m'] exI [of _ "es @ es'"] exI [of _ "?f # fs"])
        (simp add: same_but_trace_trans [OF same r(2)])
  qed
qed

lemma rx_feed_frame:
  assumes "length xs \<le> GSM0710_BUFFER_SIZE" and "get_spec n1 False xs d = Inr (f, fl, ys)"
  shows "\<exists>b'. base_buffer_get_frame n1 (rx_feed xs) d = Inr (f, b') \<and> contents b' = ys"
  using base_get_frame_of_spec [of "rx_feed xs" n1 d f fl ys] assms by auto

lemma rx_feed_fault:
  assumes "length xs \<le> GSM0710_BUFFER_SIZE" and "get_spec n1 False xs d = Inl e"
  shows "base_buffer_get_frame n1 (rx_feed xs) d = Inl e"
  using base_get_frame_refines_inv [of "rx_feed xs" n1 d] assms
  by (cases "base_buffer_get_frame n1 (rx_feed xs) d") auto

text \<open>A running daemon with every channel open, as the witnesses use it.\<close>

definition full_cfg :: build_cfg where
  "full_cfg = \<lparr>mtk_mux_channel_64 = True, sim_count = 2, android_vt_support = False,
     csd_dialer_support = False, tc1_volte = False, fusion_rild = False\<rparr>"

definition open_channel :: channel where
  "open_channel = zero_channel\<lparr>ch_fd := 7, ch_opened := True, ch_negotiated_N1 := 512\<rparr>"

definition running :: mux where
  "running = (mux_init full_cfg)\<lparr>m_channels := replicate 64 open_channel, m_serial_fd := 5,
     m_serial_state := MUX_STATE_MUXING, m_cmux_mode := False\<rparr>"

lemma running_simps [simp]:
  "line_up running" "\<not> m_cmux_mode running" "i < 64 \<Longrightarrow> get_channel running i = Inr open_channel"
  "ch_negotiated_N1 open_channel = 512" "m_channels running = replicate 64 open_channel"
  "\<not> m_uih_pf_bit_received running" "m_serial_fd running = 5" "m_trace running = []"
  by (simp_all add: running_def mux_init_def line_up_def writes_ok_def get_channel_def open_channel_def)

section \<open>Properties\<close>

text \<open>C4. What \<open>write_frame\<close> puts on an accepting line in basic mode, and what the frame reader of a peer with
  the same channel table and an empty receive buffer makes of it, for every frame type: the line takes everything it is given, the
  channel fits the address field, a frame fits the receive buffer, and a UIH or UI frame has a first octet
  to look at when a response with the P/F bit is due.  The frame sent carries the channel, the type (with the
  P/F bit added only where such a response is due) and the first \<open>negotiated_N1\<close> octets of the input, which is
  also the count returned.  The reader takes this very frame off the line, unless it is a UI frame whose
  payload changes the check sequence: the sender does not cover that payload and the reader does, so it
  refuses such a frame, the daemon's own pings among them, and its octets are gone.\<close>

theorem basic_tx_rx:
  assumes "line_up m" and "\<not> m_cmux_mode m" and "get_channel m channel = Inr ch" and "channel < 64"
    and "m_uih_pf_bit_received m \<and> type \<in> {GSM0710_TYPE_UIH, GSM0710_TYPE_UI} \<longrightarrow> input \<noteq> []"
    and "ch_negotiated_N1 ch + 7 \<le> GSM0710_BUFFER_SIZE"
  shows "\<exists>m' es f b'. write_frame channel input type m = Inr (length (f_data f), m') \<and>
    m_trace m' = m_trace m @ es \<and> f_channel f = word_of_nat channel \<and>
    f_control f \<in> {type, type OR GSM0710_PF} \<and> (\<not> m_uih_pf_bit_received m \<longrightarrow> f_control f = type) \<and>
    f_data f = take (ch_negotiated_N1 ch) input \<and>
    base_buffer_get_frame (chan_n1 m) (rx_feed (written_to (m_serial_fd m) es)) 0 =
      Inr (if fcs_holds (basic_header f) f then Some f else None, b') \<and> contents b' = []"
proof -
  define n where "n = min (ch_negotiated_N1 ch) (length input)"
  from write_frame_line [OF assms(1-5)] obtain m' es control where
    w: "write_frame channel input type m = Inr (n, m')" and tr: "m_trace m' = m_trace m @ es"
    and es: "written_to (m_serial_fd m) es = basic_encode
        \<lparr>f_channel = word_of_nat channel, f_control = control, f_data = take n input\<rparr>"
    and c: "control \<in> {type, type OR GSM0710_PF}" "\<not> m_uih_pf_bit_received m \<longrightarrow> control = type"
    unfolding Let_def n_def [symmetric] by blast
  let ?f = "\<lparr>f_channel = word_of_nat channel, f_control = control, f_data = take n input\<rparr>"
  have un: "unat (word_of_nat channel :: u8) = channel" using assms(4) by (intro unat_of_nat_u8) simp
  have N1: "chan_n1 m channel = Inr (ch_negotiated_N1 ch)" using assms(3) by (simp add: chan_n1_def)
  have n: "n \<le> ch_negotiated_N1 ch" "length (take n input) = n" by (simp_all add: n_def)
  then have fits: "basic_fits (chan_n1 m) ?f"
    using assms(4,6) un N1 by (simp add: basic_fits_def GSM0710_BUFFER_SIZE_def)
  have len: "length (basic_encode ?f) \<le> GSM0710_BUFFER_SIZE"
    using length_basic_encode [of ?f] n(1) assms(6) by simp
  obtain fl where "get_spec (chan_n1 m) False (basic_encode ?f) 0 =
      Inr (if fcs_holds (basic_header ?f) ?f then Some ?f else None, fl, [])"
    using get_encode_any [OF fits] by blast
  from rx_feed_frame [OF len this] obtain b' where
    "base_buffer_get_frame (chan_n1 m) (rx_feed (basic_encode ?f)) 0 =
      Inr (if fcs_holds (basic_header ?f) ?f then Some ?f else None, b')" "contents b' = []"
    by blast
  moreover have "take n input = take (ch_negotiated_N1 ch) input" by (simp add: n_def min_def)
  ultimately show ?thesis
    using w tr es c n(2) by (intro exI [of _ m'] exI [of _ es] exI [of _ ?f] exI [of _ b']) simp
qed

text \<open>C5. \<open>handle_channel_data\<close> on an accepting line: nothing remains unsent, and the octets sent are
  those of UIH frames of that channel, none empty and none longer than \<open>negotiated_N1\<close>, whose
  payloads put together are the data, in order.  The frame reader takes exactly these frames off
  the line.\<close>

theorem handle_channel_data_complete:
  assumes "line_up m" and "\<not> m_cmux_mode m" and "get_channel m channel = Inr ch"
    and "channel < 64" and "0 < ch_negotiated_N1 ch" and "ch_negotiated_N1 ch \<le> 32767"
  shows "\<exists>m' es fs s. handle_channel_data buf channel m = Inr (0, m') \<and> m_trace m' = m_trace m @ es \<and>
    concat (map f_data fs) = buf \<and> list_all (data_frame channel (ch_negotiated_N1 ch)) fs \<and>
    drain (\<lambda>flag xs. get_spec (chan_n1 m) flag xs 0) (Suc (length fs)) False
      (written_to (m_serial_fd m) es) = Inr (fs, s, [])"
proof -
  have "0 < GSM0710_WRITE_RETRIES" by (simp add: GSM0710_WRITE_RETRIES_def)
  from handle_channel_loop_ok [OF assms(1-5) this, of buf] obtain m' es fs where
    r: "handle_channel_data buf channel m = Inr (0, m')" "m_trace m' = m_trace m @ es"
      "written_to (m_serial_fd m) es = concat (map basic_encode fs)" "concat (map f_data fs) = buf"
      "list_all (data_frame channel (ch_negotiated_N1 ch)) fs"
    unfolding handle_channel_data_def by blast
  have un: "unat (word_of_nat channel :: u8) = channel" using assms(4) by (intro unat_of_nat_u8) simp
  have N1: "chan_n1 m channel = Inr (ch_negotiated_N1 ch)" using assms(3) by (simp add: chan_n1_def)
  have "basic_valid (chan_n1 m) f" if "data_frame channel (ch_negotiated_N1 ch) f" for f
    using that assms(4,6) N1 un
    by (auto simp: basic_valid_def data_frame_def GSM0710_FRAME_IS_def)
  then have "list_all (basic_valid (chan_n1 m)) fs"
    using r(5) by (simp add: list_all_iff)
  from basic_format.drain_frames [OF TrueI this lessI, of False] r show ?thesis by auto
qed


text \<open>Data passes; the ping of the watchdog does not.\<close>

theorem basic_tx_rx_witness:
  "(\<exists>m' es f b'. write_frame 3 [0x41, 0x54] GSM0710_TYPE_UIH running = Inr (2, m') \<and>
     m_trace m' = m_trace running @ es \<and>
     base_buffer_get_frame (chan_n1 running) (rx_feed (written_to 5 es)) 0 = Inr (Some f, b') \<and>
     contents b' = [] \<and> f = \<lparr>f_channel = 3, f_control = GSM0710_TYPE_UIH, f_data = [0x41, 0x54]\<rparr>) \<and>
   (\<exists>m' es b'. write_frame 0 test_channel_cmd GSM0710_TYPE_UI running = Inr (length test_channel_cmd, m') \<and>
     m_trace m' = m_trace running @ es \<and>
     base_buffer_get_frame (chan_n1 running) (rx_feed (written_to 5 es)) 0 = Inr (None, b') \<and> contents b' = [])"
  (is "?data \<and> ?ping")
proof
  have N1: "ch_negotiated_N1 open_channel + 7 \<le> GSM0710_BUFFER_SIZE" by (simp add: GSM0710_BUFFER_SIZE_def)
  from basic_tx_rx [OF running_simps(1-3) _ _ N1, of 3 GSM0710_TYPE_UIH "[0x41, 0x54]"]
  obtain m' es f b' where "write_frame 3 [0x41, 0x54] GSM0710_TYPE_UIH running = Inr (length (f_data f), m')"
    "m_trace m' = m_trace running @ es"
    and f: "f_channel f = 3" "f_control f = GSM0710_TYPE_UIH" "f_data f = [0x41, 0x54]"
    and "base_buffer_get_frame (chan_n1 running) (rx_feed (written_to 5 es)) 0 =
      Inr (if fcs_holds (basic_header f) f then Some f else None, b')" "contents b' = []"
    by auto
  moreover have "fcs_holds (basic_header f) f" using f by (simp add: fcs_holds_def GSM0710_FRAME_IS_def)
  ultimately show ?data by (intro exI [of _ m'] exI [of _ es] exI [of _ f] exI [of _ b']) simp
  from basic_tx_rx [OF running_simps(1-3) _ _ N1, of 0 GSM0710_TYPE_UI test_channel_cmd]
  obtain m' es f b' where
    "write_frame 0 test_channel_cmd GSM0710_TYPE_UI running = Inr (length (f_data f), m')"
    "m_trace m' = m_trace running @ es"
    and f: "f_channel f = 0" "f_control f = GSM0710_TYPE_UI" "f_data f = test_channel_cmd"
    and "base_buffer_get_frame (chan_n1 running) (rx_feed (written_to 5 es)) 0 =
      Inr (if fcs_holds (basic_header f) f then Some f else None, b')" "contents b' = []"
    by (auto simp: test_channel_cmd_def)
  moreover have "\<not> fcs_holds (basic_header f) f"
    using f by (simp add: fcs_holds_def GSM0710_FRAME_IS_def frame_calc_crc_not basic_header_def
        frame_address_def length_field_def test_channel_cmd_def crc_step_eq crc_byte_def crc_bit_def)
  ultimately show ?ping by (intro exI [of _ m'] exI [of _ es] exI [of _ b']) simp
qed

theorem handle_channel_data_complete_witness:
  "\<exists>m' es fs s. handle_channel_data (replicate 1000 0x41) 3 running = Inr (0, m') \<and>
    m_trace m' = m_trace running @ es \<and> concat (map f_data fs) = replicate 1000 0x41 \<and>
    list_all (data_frame 3 (ch_negotiated_N1 open_channel)) fs \<and>
    drain (\<lambda>flag xs. get_spec (chan_n1 running) flag xs 0) (Suc (length fs)) False
      (written_to (m_serial_fd running) es) = Inr (fs, s, [])"
  by (rule handle_channel_data_complete) simp_all

lemma get_spec_fault:
  "get_spec n1 flag xs d = Inl e \<Longrightarrow> (\<And>c :: u8. unat c < 64 \<Longrightarrow> \<exists>N1. n1 (unat c) = Inr N1) \<Longrightarrow>
   e = Assert 13"
proof (induction n1 flag xs d rule: get_spec.induct)
  case (1 n1 flag xs d)
  note unf = "1.prems"(1) [unfolded get_spec.simps [of n1 flag xs d]]
  show ?case
  proof (cases "d < MAX_RESYNC_GET_FRAME_COUNT")
    case False
    with unf show ?thesis by simp
  next
    case d: True
    obtain found t where seek: "seek_flag flag xs = (found, t)" by fastforce
    with unf d have found: "found" by (simp split: if_splits)
    define u where "u = dropWhile (\<lambda>x. x = GSM0710_FRAME_FLAG) t"
    have "unat (GSM0710_DECODE_ADDRESS (u ! 0)) < 64"
      unfolding GSM0710_DECODE_ADDRESS_def
      by (simp only: drop_bit_eq_div unat_div)
        (simp add: less_mult_imp_div_less)
    then obtain N1 where "n1 (unat (GSM0710_DECODE_ADDRESS (u ! 0))) = Inr N1"
      using "1.prems"(2) by blast
    then have "analyse_spec n1 u \<noteq> Inl e'" for e'
      by (auto simp: analyse_spec_def Let_def split: if_splits)
    then obtain r where r: "analyse_spec n1 u = Inr r"
      by (cases "analyse_spec n1 u") auto
    with unf d seek found obtain k where k: "r = SDropped k"
      and "get_spec n1 False (drop k u) (Suc d) = Inl e"
      by (cases r) (auto simp: Let_def simp del: GSM0710_FRAME_FLAG_def simp flip: u_def)
    from "1.IH" [OF d seek [symmetric] _ u_def r k this(2) "1.prems"(2)] found show ?thesis by simp
  qed
qed

text \<open>With a channel table of 64 entries the basic frame reader never leaves it: the only way it
  fails is to give up after three damaged frames.\<close>

theorem base_get_frame_in_table:
  assumes "buf_inv b" and "64 \<le> length (m_channels m)"
    and "base_buffer_get_frame (chan_n1 m) b d = Inl e"
  shows "e = Assert 13"
proof -
  have "get_spec (chan_n1 m) (b_flag_found b) (contents b) d = Inl e"
    using base_get_frame_refines_inv [OF assms(1), of "chan_n1 m" d] assms(3) by simp
  then show ?thesis
    by (rule get_spec_fault) (use assms(2) in \<open>simp add: chan_n1_def get_channel_def\<close>)
qed

theorem base_get_frame_in_table_witness:
  "base_buffer_get_frame (chan_n1 running) gsm0710_buffer_init 3 = Inl (Assert 13)"
proof -
  have f: "base_buffer_get_frame (chan_n1 running) gsm0710_buffer_init 3 = Inl (Assert 13)"
    by (subst base_buffer_get_frame.simps) (simp add: MAX_RESYNC_GET_FRAME_COUNT_def)
  from base_get_frame_in_table [OF buf_inv_init _ f] f show ?thesis by simp
qed

text \<open>With the table of 32 entries of a build without \<open>MTK_MUX_CHANNEL_64\<close>, any complete header
  for a channel from 32 to 63 makes the reader read \<open>channellist\<close> out of bounds.\<close>

theorem base_get_frame_out_of_table:
  assumes "buf_inv b" and "length (m_channels m) = 32" and "32 \<le> unat (f_channel f)"
    and "unat (f_channel f) < 64" and "contents b = basic_encode f @ rest"
  shows "base_buffer_get_frame (chan_n1 m) b 0 = Inl OutOfBounds"
proof -
  let ?body = "basic_header f @ f_data f @ [frame_calc_crc (basic_header f), GSM0710_FRAME_FLAG] @ rest"
  have "GSM0710_DECODE_ADDRESS (?body ! 0) = f_channel f"
    using decode_address [OF assms(4)] by (simp add: basic_header_def)
  moreover have "chan_n1 m (unat (f_channel f)) = Inl OutOfBounds"
    using assms(2,3) by (simp add: chan_n1_def get_channel_def array_get_def)
  moreover have "5 \<le> length ?body" by (simp add: basic_header_def length_length_field)
  ultimately have ana: "analyse_spec (chan_n1 m) ?body = Inl OutOfBounds"
    by (simp add: analyse_spec_def Let_def)
  have hd: "dropWhile (\<lambda>x. x = GSM0710_FRAME_FLAG) ?body = ?body"
    using frame_address_ne_flag [of "unat (f_channel f)"] by (simp add: basic_header_def)
  have enc: "contents b = GSM0710_FRAME_FLAG # ?body"
    unfolding assms(5) by (simp add: basic_encode_def)
  have "get_spec (chan_n1 m) (b_flag_found b) (contents b) 0 = get_spec (chan_n1 m) True ?body 0"
    unfolding enc by (cases "b_flag_found b") (simp_all only: get_spec_flag)
  also have "\<dots> = Inl OutOfBounds"
    using ana hd by (subst get_spec.simps)
      (simp only: seek_flag_def prod.case if_True not_True_eq_False if_False Let_def bindE.simps
        MAX_RESYNC_GET_FRAME_COUNT_def, simp)
  finally show ?thesis
    using base_get_frame_refines_inv [OF assms(1), of "chan_n1 m" 0]
    by (cases "base_buffer_get_frame (chan_n1 m) b 0") auto
qed

definition running32 :: mux where
  "running32 = running\<lparr>m_channels := replicate 32 open_channel\<rparr>"

theorem base_get_frame_out_of_table_witness:
  "base_buffer_get_frame (chan_n1 running32)
     (rx_feed (basic_encode (sample_frame\<lparr>f_channel := 40\<rparr>) @ [])) 0 = Inl OutOfBounds"
proof (rule base_get_frame_out_of_table [OF rx_feed_simps(1) _ _ _ rx_feed_simps(2)])
  show "length (m_channels running32) = 32" by (simp add: running32_def)
  show "length (basic_encode (sample_frame\<lparr>f_channel := 40\<rparr>) @ []) \<le> GSM0710_BUFFER_SIZE"
    using length_basic_encode [of "sample_frame\<lparr>f_channel := 40\<rparr>"]
    by (simp add: sample_frame_def GSM0710_BUFFER_SIZE_def)
qed simp_all

text \<open>A UI frame with payload is refused by the reader of the same program unless the payload
  leaves the check sum of the header unchanged, because \<open>write_frame\<close> does not cover it.\<close>

theorem ui_frame_refused:
  assumes "basic_fits n1 f" and "GSM0710_FRAME_IS GSM0710_TYPE_UI f"
    and "length (basic_encode f) \<le> GSM0710_BUFFER_SIZE"
    and "fold crc_step (f_data f) (fold crc_step (basic_header f) 0xFF) \<noteq> fold crc_step (basic_header f) 0xFF"
  shows "\<exists>b'. base_buffer_get_frame n1 (rx_feed (basic_encode f)) 0 = Inr (None, b') \<and> contents b' = []"
proof -
  have ne: "frame_calc_crc (basic_header f) \<noteq> frame_calc_crc (basic_header f @
      (if GSM0710_FRAME_IS GSM0710_TYPE_UI f then f_data f else []))"
    using assms(2) assms(4) [symmetric] by (simp add: frame_calc_crc_not)
  have "get_spec n1 False (basic_wire f (frame_calc_crc (basic_header f)) @ []) 0 = get_spec n1 True [] 1"
    using get_spec_bad_frame [OF assms(1) _ ne, of 0 False "[]"] by (simp add: MAX_RESYNC_GET_FRAME_COUNT_def)
  also have "\<dots> = Inr (None, True, [])"
    by (subst get_spec.simps) (simp add: seek_flag_def analyse_spec_def MAX_RESYNC_GET_FRAME_COUNT_def)
  finally have "get_spec n1 False (basic_encode f) 0 = Inr (None, True, [])"
    by (simp add: basic_wire_def basic_encode_def)
  from rx_feed_frame [OF assms(3) this] show ?thesis .
qed

definition ping_frame :: gsm_frame where
  "ping_frame = \<lparr>f_channel = 0, f_control = GSM0710_TYPE_UI, f_data = test_channel_cmd\<rparr>"

theorem ui_frame_refused_witness:
  "\<exists>b'. base_buffer_get_frame (\<lambda>_. Inr 512) (rx_feed (basic_encode ping_frame)) 0 = Inr (None, b') \<and>
     contents b' = []"
proof (rule ui_frame_refused)
  show "basic_fits (\<lambda>_. Inr 512) ping_frame"
    by (simp add: basic_fits_def ping_frame_def test_channel_cmd_def)
  show "GSM0710_FRAME_IS GSM0710_TYPE_UI ping_frame"
    by (simp add: GSM0710_FRAME_IS_def ping_frame_def)
  show "length (basic_encode ping_frame) \<le> GSM0710_BUFFER_SIZE"
    using length_basic_encode [of ping_frame]
    by (simp add: ping_frame_def test_channel_cmd_def GSM0710_BUFFER_SIZE_def)
  show "fold crc_step (f_data ping_frame) (fold crc_step (basic_header ping_frame) 0xFF)
      \<noteq> fold crc_step (basic_header ping_frame) 0xFF"
    by (simp add: ping_frame_def test_channel_cmd_def basic_header_def frame_address_def
        length_field_def crc_step_eq crc_byte_def crc_bit_def)
qed

section \<open>Properties of the advanced option\<close>

text \<open>C16. \<open>gsm0710_advanced_buffer_get_frame\<close> is the per-octet machine \<open>adv_step\<close> run over the
  octets held until a frame is complete, for any number of restarts and with \<open>adv_data\<close>, the
  escape flag and the start flag carried from call to call.\<close>

theorem advanced_get_frame_is_machine:
  assumes "buf_inv b"
  shows "case advanced_buffer_get_frame b of (f, b') \<Rightarrow>
    buf_inv b' \<and> (f, adv_abs b', contents b') = adv_get_spec (adv_abs b) (contents b)"
  by (rule advanced_get_frame_refines [OF assms])

theorem advanced_get_frame_is_machine_witness:
  "case advanced_buffer_get_frame gsm0710_buffer_init of (f, b') \<Rightarrow>
    buf_inv b' \<and> (f, adv_abs b', contents b') = (None, adv_abs gsm0710_buffer_init, [])"
  using advanced_get_frame_is_machine [OF buf_inv_init]
  by (simp add: adv_get_spec_def init_flags)

lemma length_fill: "length (fill_adv_frame_buf xs) \<le> 2 * length xs"
  by (induction xs) auto

text \<open>Whatever \<open>write_frame\<close> sends in advanced mode fits \<open>adv_frame_buf\<close> as \<open>main\<close> allocates it,
  \<open>(cmux_N1 + 3) * 2 + 2\<close> octets, escapes included, when no channel's \<open>negotiated_N1\<close> exceeds
  \<open>cmux_N1\<close>.\<close>

theorem advanced_write_fits:
  assumes "m_cmux_mode m" and "m_adv_frame_size m = (m_cmux_N1 m + 3) * 2 + 2"
    and "get_channel m channel = Inr ch" and "ch_negotiated_N1 ch \<le> m_cmux_N1 m" and "input \<noteq> []"
  shows "\<exists>n m'. write_frame channel input type m = Inr (n, m')"
proof (cases "m_stop_muxd m")
  case True
  then show ?thesis by (simp add: write_frame_def)
next
  case False
  obtain control v where fc: "frame_control type input m = Inr (control, m\<lparr>m_uih_pf_bit_received := v\<rparr>)"
    using frame_control_ok [of m type input] assms(5) by blast
  let ?p = "take (min (ch_negotiated_N1 ch) (length input)) input"
  let ?a = "frame_address channel"
  have "length (fill_adv_frame_buf [?a, control]) \<le> 4" "length (fill_adv_frame_buf ?p) \<le> 2 * m_cmux_N1 m"
    "length (fill_adv_frame_buf [frame_calc_crc [?a, control]]) \<le> 2"
    using length_fill [of "[?a, control]"] length_fill [of ?p] assms(4)
      length_fill [of "[frame_calc_crc [?a, control]]"] by auto
  then have fits: "length ([GSM0710_FRAME_ADV_FLAG] @ fill_adv_frame_buf [?a, control]
      @ fill_adv_frame_buf ?p @ fill_adv_frame_buf [frame_calc_crc [?a, control]] @ [GSM0710_FRAME_ADV_FLAG])
      \<le> m_adv_frame_size m"
    using assms(2) by (simp del: fill_simps)
  have g: "get_channel (m\<lparr>m_uih_pf_bit_received := v\<rparr>) channel = Inr ch"
    using assms(3) by (simp add: get_channel_def)
  have "\<exists>n m'. write_advanced ?a control ?p (m\<lparr>m_uih_pf_bit_received := v\<rparr>) = Inr (n, m')"
    using fits by (simp only: write_advanced_def Let_def not_less [symmetric] if_False)
      (simp split: prod.split)
  with False assms(1) fc g show ?thesis
    by (simp add: write_frame_def send_frame_def)
qed

definition running_adv :: mux where
  "running_adv = running\<lparr>m_cmux_mode := True, m_adv_frame_size := 3026\<rparr>"

theorem advanced_write_fits_witness:
  "\<exists>n m'. write_frame 3 [0x7E, 0x41] GSM0710_TYPE_UIH running_adv = Inr (n, m')"
proof (rule advanced_write_fits)
  show "get_channel running_adv 3 = Inr open_channel"
    using running_simps(3) [of 3] by (simp add: running_adv_def get_channel_def)
  show "ch_negotiated_N1 open_channel \<le> m_cmux_N1 running_adv"
    by (simp add: running_adv_def running_def mux_init_def)
qed (simp_all add: running_adv_def running_def mux_init_def)



end
