(* ===== verification/Mux_FrameList.thy ===== *)
theory Mux_FrameList
  imports Mux_World
begin

text \<open>
  The list of frames waiting for a terminal (\<open>gsm0710muxd_fc.c\<close>, \<open>_fl_*\<close>): a circular list of heap
  nodes with one sentinel.  The handle is the sentinel's address; pushing turns the sentinel into
  a data node and returns a new sentinel.  Reading or freeing a freed node is
  \<open>UseAfterFree\<close>, following \<open>NULL\<close> is \<open>NullDeref\<close>.  The locale \<open>frame_fifo\<close> is the contract of a
  queue of frames in a heap.
\<close>

section \<open>Memory\<close>

definition fl_load :: "fl_heap \<Rightarrow> nat \<Rightarrow> fl_node res" where
  "fl_load h a =
     (if a < length h then (case h ! a of None \<Rightarrow> Inl UseAfterFree | Some n \<Rightarrow> Inr n)
      else Inl UseAfterFree)"

definition fl_store :: "fl_heap \<Rightarrow> nat \<Rightarrow> fl_node \<Rightarrow> fl_heap" where
  "fl_store h a n = h[a := Some n]"

definition fl_alloc :: "fl_heap \<Rightarrow> fl_node \<Rightarrow> nat \<times> fl_heap" where
  "fl_alloc h n = (length h, h @ [Some n])"

definition fl_free :: "fl_heap \<Rightarrow> nat \<Rightarrow> fl_heap res" where
  "fl_free h a = bindE (fl_load h a) (\<lambda>_. Inr (h[a := None]))"

fun deref :: "nat option \<Rightarrow> nat res" where
  "deref None = Inl NullDeref"
| "deref (Some a) = Inr a"

section \<open>The C functions\<close>

definition fl_isEmpty :: "fl_heap \<Rightarrow> nat option \<Rightarrow> bool res" where
  "fl_isEmpty h list =
     (case list of
        None \<Rightarrow> Inr True
      | Some l \<Rightarrow> bindE (fl_load h l) (\<lambda>n. Inr (fn_next n = l)))"

definition fl_pushFrame :: "fl_heap \<Rightarrow> nat option \<Rightarrow> gsm_frame \<Rightarrow> (nat \<times> fl_heap) res" where
  "fl_pushFrame h list frame =
     bindE (deref list) (\<lambda>l.
     bindE (fl_load h l) (\<lambda>n.
       case fl_alloc h \<lparr>fn_frame = fn_frame n, fn_next = fn_next n\<rparr> of
         (head, h1) \<Rightarrow> Inr (head, fl_store h1 l \<lparr>fn_frame = Some frame, fn_next = head\<rparr>)))"

definition fl_popFrame :: "fl_heap \<Rightarrow> nat option \<Rightarrow> (gsm_frame option \<times> fl_heap) res" where
  "fl_popFrame h list =
     bindE (fl_isEmpty h list) (\<lambda>empty.
       if empty then Inr (None, h)
       else
         bindE (deref list) (\<lambda>l.
         bindE (fl_load h l) (\<lambda>n.
         bindE (fl_load h (fn_next n)) (\<lambda>node.
         bindE (fl_free (fl_store h l (n\<lparr>fn_next := fn_next node\<rparr>)) (fn_next n)) (\<lambda>h1.
           Inr (fn_frame node, h1))))))"

definition live_nodes :: "fl_heap \<Rightarrow> nat" where
  "live_nodes h = length (filter (\<lambda>c. c \<noteq> None) h)"

lemma live_nodes_store: "fl_load h a = Inr n \<Longrightarrow> live_nodes (fl_store h a n') = live_nodes h"
proof -
  assume "fl_load h a = Inr n"
  then have a: "a < length h" "h ! a = Some n"
    by (auto simp: fl_load_def split: if_splits option.splits)
  have "length (filter (\<lambda>c. c \<noteq> None) (h[a := Some n'])) = length (filter (\<lambda>c. c \<noteq> None) (h[a := h ! a]))"
    using a by (simp add: upd_conv_take_nth_drop del: list_update_id)
  then show ?thesis by (simp add: live_nodes_def fl_store_def)
qed

lemma live_nodes_free: "fl_free h a = Inr h' \<Longrightarrow> live_nodes h' < live_nodes h"
proof -
  assume "fl_free h a = Inr h'"
  then obtain n where a: "a < length h" "h ! a = Some n" and h': "h' = h[a := None]"
    by (auto simp: fl_free_def fl_load_def res split: if_splits option.splits)
  have "length (filter (\<lambda>c. c \<noteq> None) (h[a := None])) < length (filter (\<lambda>c. c \<noteq> None) (h[a := h ! a]))"
    using a by (simp add: upd_conv_take_nth_drop del: list_update_id)
  then show ?thesis by (simp add: live_nodes_def h')
qed

lemma pop_live_nodes:
  assumes "fl_popFrame h list = Inr (f, h')" and "fl_isEmpty h list = Inr False"
  shows "live_nodes h' < live_nodes h"
proof -
  from assms obtain l n and node :: fl_node where "fl_load h l = Inr n"
    and "fl_free (fl_store h l (n\<lparr>fn_next := fn_next node\<rparr>)) (fn_next n) = Inr h'"
    by (simp add: fl_popFrame_def bindE_eq_Inr) blast
  then show ?thesis using live_nodes_store live_nodes_free by metis
qed

text \<open>\<open>destroy_frame\<close> of a popped frame reads the frame: it must not be \<open>NULL\<close>.\<close>

function fl_cleanNodes :: "fl_heap \<Rightarrow> nat option \<Rightarrow> fl_heap res" where
  "fl_cleanNodes h list =
     (case fl_isEmpty h list of
        Inl e \<Rightarrow> Inl e
      | Inr True \<Rightarrow> Inr h
      | Inr False \<Rightarrow>
          (case fl_popFrame h list of
             Inl e \<Rightarrow> Inl e
           | Inr (None, h') \<Rightarrow> Inl NullDeref
           | Inr (Some frame, h') \<Rightarrow> fl_cleanNodes h' list))"
  by pat_completeness auto
termination
  by (relation "measure (\<lambda>(h, list). live_nodes h)") (auto dest: pop_live_nodes)

declare fl_cleanNodes.simps [simp del]

definition fl_init :: "fl_heap \<Rightarrow> nat option \<Rightarrow> (nat \<times> fl_heap) res" where
  "fl_init h list =
     (case list of
        None \<Rightarrow>
          (case fl_alloc h \<lparr>fn_frame = None, fn_next = 0\<rparr> of
             (head, h1) \<Rightarrow> Inr (head, fl_store h1 head \<lparr>fn_frame = None, fn_next = head\<rparr>))
      | Some l \<Rightarrow>
          bindE (fl_isEmpty h list) (\<lambda>empty.
            if \<not> empty then bindE (fl_cleanNodes h list) (\<lambda>h1. Inr (l, h1)) else Inr (l, h)))"

definition fl_destroy :: "fl_heap \<Rightarrow> nat option \<Rightarrow> fl_heap res" where
  "fl_destroy h list =
     (case list of
        None \<Rightarrow> Inr h
      | Some l \<Rightarrow>
          bindE (fl_isEmpty h list) (\<lambda>empty.
          bindE (if \<not> empty then fl_cleanNodes h list else Inr h) (\<lambda>h1. fl_free h1 l)))"

section \<open>The contract\<close>

text \<open>
  \<open>rep h l fp fs\<close>: in heap \<open>h\<close> the handle \<open>l\<close> is a queue of the frames \<open>fs\<close> in the cells \<open>fp\<close>.
\<close>

locale frame_fifo =
  fixes rep :: "'h \<Rightarrow> nat \<Rightarrow> nat set \<Rightarrow> gsm_frame list \<Rightarrow> bool"
    and push :: "'h \<Rightarrow> nat option \<Rightarrow> gsm_frame \<Rightarrow> (nat \<times> 'h) res"
    and pop :: "'h \<Rightarrow> nat option \<Rightarrow> (gsm_frame option \<times> 'h) res"
  assumes push_rep: "rep h l fp fs \<Longrightarrow>
      \<exists>h' l' fp'. push h (Some l) f = Inr (l', h') \<and> rep h' l' fp' (fs @ [f])"
    and pop_Nil: "rep h l fp [] \<Longrightarrow> pop h (Some l) = Inr (None, h)"
    and pop_Cons: "rep h l fp (f # fs) \<Longrightarrow>
      \<exists>h' fp'. pop h (Some l) = Inr (Some f, h') \<and> rep h' l fp' fs"
begin

fun push_all :: "'h \<Rightarrow> nat \<Rightarrow> gsm_frame list \<Rightarrow> (nat \<times> 'h) res" where
  "push_all h l [] = Inr (l, h)"
| "push_all h l (f # fs) = bindE (push h (Some l) f) (\<lambda>(l', h'). push_all h' l' fs)"

fun pop_all :: "nat \<Rightarrow> 'h \<Rightarrow> nat \<Rightarrow> (gsm_frame list \<times> 'h) res" where
  "pop_all 0 h l = Inr ([], h)"
| "pop_all (Suc n) h l =
     bindE (pop h (Some l)) (\<lambda>(f, h').
       case f of None \<Rightarrow> Inr ([], h')
       | Some g \<Rightarrow> bindE (pop_all n h' l) (\<lambda>(gs, h''). Inr (g # gs, h'')))"

lemma push_all_rep:
  "rep h l fp fs \<Longrightarrow> \<exists>h' l' fp'. push_all h l gs = Inr (l', h') \<and> rep h' l' fp' (fs @ gs)"
proof (induction gs arbitrary: h l fp fs)
  case Nil
  then show ?case by auto
next
  case (Cons g gs)
  from push_rep [OF Cons.prems, of g] obtain h1 l1 fp1
    where "push h (Some l) g = Inr (l1, h1)" and r: "rep h1 l1 fp1 (fs @ [g])" by blast
  with Cons.IH [OF r] show ?case by auto
qed

lemma pop_all_rep:
  "rep h l fp fs \<Longrightarrow> length fs < n \<Longrightarrow> \<exists>h' fp'. pop_all n h l = Inr (fs, h') \<and> rep h' l fp' []"
proof (induction fs arbitrary: h fp n)
  case Nil
  then obtain m where "n = Suc m" by (cases n) auto
  with Nil pop_Nil show ?case by fastforce
next
  case (Cons f fs)
  then obtain m where n: "n = Suc m" by (cases n) auto
  from pop_Cons [OF Cons.prems(1)] obtain h1 fp1
    where "pop h (Some l) = Inr (Some f, h1)" and r: "rep h1 l fp1 fs" by blast
  with Cons.IH [OF r, of m] Cons.prems(2) n show ?case by auto
qed

lemma fifo:
  assumes "rep h l fp fs" and "length (fs @ gs) < n"
  shows "\<exists>l' h1 h2. push_all h l gs = Inr (l', h1) \<and> pop_all n h1 l' = Inr (fs @ gs, h2)"
  using push_all_rep [OF assms(1), of gs] pop_all_rep assms(2) by metis

end

section \<open>The pointer structure is such a queue\<close>

text \<open>The path of data nodes from \<open>a\<close> to the sentinel \<open>l\<close>, with their addresses and frames.\<close>

fun fl_seg :: "fl_heap \<Rightarrow> nat \<Rightarrow> nat list \<Rightarrow> gsm_frame list \<Rightarrow> nat \<Rightarrow> bool" where
  "fl_seg h a [] [] l \<longleftrightarrow> a = l"
| "fl_seg h a (b # bs) (f # fs) l \<longleftrightarrow>
     a = b \<and> (\<exists>n. fl_load h b = Inr n \<and> fn_frame n = Some f \<and> fl_seg h (fn_next n) bs fs l)"
| "fl_seg h a _ _ l \<longleftrightarrow> False"

definition fl_path :: "fl_heap \<Rightarrow> nat \<Rightarrow> nat list \<Rightarrow> gsm_frame list \<Rightarrow> bool" where
  "fl_path h l bs fs \<longleftrightarrow>
     distinct (l # bs) \<and> (\<exists>n. fl_load h l = Inr n \<and> fl_seg h (fn_next n) bs fs l)"

definition fl_rep :: "fl_heap \<Rightarrow> nat \<Rightarrow> nat set \<Rightarrow> gsm_frame list \<Rightarrow> bool" where
  "fl_rep h l fp fs \<longleftrightarrow> (\<exists>bs. fl_path h l bs fs \<and> fp = set (l # bs))"

lemma fl_load_valid: "fl_load h a = Inr n \<longleftrightarrow> a < length h \<and> h ! a = Some n"
  by (auto simp: fl_load_def split: option.splits)

lemma fl_load_store: "fl_load (fl_store h a n) b = (if a = b \<and> a < length h then Inr n else fl_load h b)"
  by (auto simp: fl_load_def fl_store_def)

lemma fl_load_append: "a < length h \<Longrightarrow> fl_load (h @ k) a = fl_load h a"
  by (simp add: fl_load_def nth_append)

lemma fl_load_None: "fl_load (h[a := None]) b = (if a = b then Inl UseAfterFree else fl_load h b)"
  by (auto simp: fl_load_def)

lemma fl_seg_valid: "fl_seg h a bs fs l \<Longrightarrow> b \<in> set bs \<Longrightarrow> b < length h"
  by (induction h a bs fs l rule: fl_seg.induct) (auto simp: fl_load_valid)

lemma fl_seg_frame:
  assumes "fl_seg h a bs fs l" and "\<And>b. b \<in> set bs \<Longrightarrow> fl_load h' b = fl_load h b"
  shows "fl_seg h' a bs fs l"
  using assms by (induction h a bs fs l rule: fl_seg.induct) auto

lemma fl_seg_append:
  "fl_seg h a bs fs l \<Longrightarrow> fl_load h l = Inr n \<Longrightarrow> fn_frame n = Some f \<Longrightarrow>
   fl_seg h a (bs @ [l]) (fs @ [f]) (fn_next n)"
  by (induction h a bs fs l rule: fl_seg.induct) auto

lemma fl_isEmpty_path:
  assumes "fl_path h l bs fs"
  shows "fl_isEmpty h (Some l) = Inr (fs = [])"
proof -
  obtain n where n: "fl_load h l = Inr n" "fl_seg h (fn_next n) bs fs l" and d: "l \<notin> set bs"
    using assms by (auto simp: fl_path_def)
  have "fn_next n = l \<longleftrightarrow> fs = []"
    using n(2) d by (cases bs; cases fs) auto
  then show ?thesis using n by (simp add: fl_isEmpty_def)
qed

lemma fl_push_path:
  assumes "fl_path h l bs fs"
  shows "\<exists>h'. fl_pushFrame h (Some l) f = Inr (length h, h') \<and>
    fl_path h' (length h) (bs @ [l]) (fs @ [f]) \<and> length h' = Suc (length h) \<and>
    (\<forall>b < length h. b \<noteq> l \<longrightarrow> fl_load h' b = fl_load h b)"
proof -
  obtain n where n: "fl_load h l = Inr n" "fl_seg h (fn_next n) bs fs l" and d: "distinct (l # bs)"
    using assms by (auto simp: fl_path_def)
  let ?c = "length h"
  let ?n = "\<lparr>fn_frame = fn_frame n, fn_next = fn_next n\<rparr>"
  let ?h1 = "h @ [Some ?n]"
  let ?h' = "fl_store ?h1 l \<lparr>fn_frame = Some f, fn_next = ?c\<rparr>"
  have l: "l < ?c" using n(1) by (simp add: fl_load_valid)
  have bs: "b < ?c" if "b \<in> set bs" for b using fl_seg_valid [OF n(2) that] .
  have old: "fl_load ?h' b = fl_load h b" if "b < ?c" "b \<noteq> l" for b
    using that by (simp add: fl_load_store fl_load_append)
  have push: "fl_pushFrame h (Some l) f = Inr (?c, ?h')"
    by (simp add: fl_pushFrame_def n fl_alloc_def)
  have seg: "fl_seg ?h' (fn_next n) bs fs l"
    using n(2) by (rule fl_seg_frame) (use bs d old in auto)
  have "fl_load ?h' l = Inr \<lparr>fn_frame = Some f, fn_next = ?c\<rparr>"
    using l by (simp add: fl_load_store)
  from fl_seg_append [OF seg this, of f] have "fl_seg ?h' (fn_next n) (bs @ [l]) (fs @ [f]) ?c" by simp
  moreover have "fl_load ?h' ?c = Inr ?n" using l by (simp add: fl_load_store fl_load_valid)
  moreover have "distinct (?c # bs @ [l])" using d l bs by auto
  ultimately have "fl_path ?h' ?c (bs @ [l]) (fs @ [f])" by (auto simp: fl_path_def)
  with push old show ?thesis by (auto simp: fl_store_def)
qed

lemma fl_pop_path:
  assumes "fl_path h l bs (f # fs)"
  shows "\<exists>h' b cs. bs = b # cs \<and> fl_popFrame h (Some l) = Inr (Some f, h') \<and> fl_path h' l cs fs \<and>
    length h' = length h \<and> (\<forall>a. a \<noteq> l \<longrightarrow> a \<noteq> b \<longrightarrow> fl_load h' a = fl_load h a) \<and>
    fl_load h' b = Inl UseAfterFree"
proof -
  obtain n where n: "fl_load h l = Inr n" "fl_seg h (fn_next n) bs (f # fs) l" and d: "distinct (l # bs)"
    using assms by (auto simp: fl_path_def)
  then obtain b cs nb where bs: "bs = b # cs" "fn_next n = b" "fl_load h b = Inr nb"
    "fn_frame nb = Some f" "fl_seg h (fn_next nb) cs fs l"
    by (cases bs) auto
  let ?h1 = "fl_store h l (n\<lparr>fn_next := fn_next nb\<rparr>)"
  let ?h' = "?h1[b := None]"
  have l: "l < length h" and b: "b < length h" using n(1) bs(3) by (simp_all add: fl_load_valid)
  have lb: "l \<noteq> b" using d bs(1) by auto
  have ld: "fl_load ?h1 b = Inr nb" using bs(3) lb by (simp add: fl_load_store)
  have e: "fl_isEmpty h (Some l) = Inr False" using fl_isEmpty_path [OF assms] by simp
  have pop: "fl_popFrame h (Some l) = Inr (Some f, ?h')"
    by (simp add: fl_popFrame_def e n bs fl_free_def ld)
  have old: "fl_load ?h' a = fl_load h a" if "a \<noteq> l" "a \<noteq> b" for a
    using that by (simp add: fl_load_None fl_load_store)
  have keep: "fl_load ?h' a = fl_load h a" if "a \<in> set cs" for a
    using d bs(1) that by (intro old) auto
  have "fl_seg ?h' (fn_next nb) cs fs l"
    using bs(5) keep by (rule fl_seg_frame)
  moreover have "fl_load ?h' l = Inr (n\<lparr>fn_next := fn_next nb\<rparr>)"
    using l lb by (simp add: fl_load_None fl_load_store)
  ultimately have "fl_path ?h' l cs fs" using d bs(1) by (auto simp: fl_path_def)
  with pop old bs(1) show ?thesis by (auto simp: fl_store_def fl_load_None)
qed

interpretation fl: frame_fifo fl_rep fl_pushFrame fl_popFrame
proof unfold_locales
  fix h l fp fs f
  assume "fl_rep h l fp fs"
  then obtain bs where "fl_path h l bs fs" by (auto simp: fl_rep_def)
  from fl_push_path [OF this, of f]
  show "\<exists>h' l' fp'. fl_pushFrame h (Some l) f = Inr (l', h') \<and> fl_rep h' l' fp' (fs @ [f])"
    unfolding fl_rep_def by blast
next
  fix h l fp
  assume "fl_rep h l fp []"
  then obtain bs where "fl_path h l bs []" by (auto simp: fl_rep_def)
  from fl_isEmpty_path [OF this] show "fl_popFrame h (Some l) = Inr (None, h)"
    by (simp add: fl_popFrame_def)
next
  fix h l fp f fs
  assume "fl_rep h l fp (f # fs)"
  then obtain bs where "fl_path h l bs (f # fs)" by (auto simp: fl_rep_def)
  from fl_pop_path [OF this]
  show "\<exists>h' fp'. fl_popFrame h (Some l) = Inr (Some f, h') \<and> fl_rep h' l fp' fs"
    unfolding fl_rep_def by blast
qed

section \<open>Emptying and destroying\<close>

lemma fl_clean_path:
  "fl_path h l bs fs \<Longrightarrow>
   \<exists>h'. fl_cleanNodes h (Some l) = Inr h' \<and> fl_path h' l [] [] \<and> length h' = length h \<and>
     (\<forall>a. a \<noteq> l \<longrightarrow> a \<notin> set bs \<longrightarrow> fl_load h' a = fl_load h a) \<and>
     (\<forall>a \<in> set bs. fl_load h' a = Inl UseAfterFree)"
proof (induction fs arbitrary: h bs)
  case Nil
  from Nil have "bs = []" by (cases bs) (auto simp: fl_path_def)
  moreover have "fl_cleanNodes h (Some l) = Inr h"
    using fl_isEmpty_path [OF Nil] by (subst fl_cleanNodes.simps) simp
  ultimately show ?case using Nil by auto
next
  case (Cons f fs)
  from fl_pop_path [OF Cons.prems] obtain h1 b cs where bs: "bs = b # cs"
    and pop: "fl_popFrame h (Some l) = Inr (Some f, h1)" and p1: "fl_path h1 l cs fs"
    and len: "length h1 = length h"
    and old: "\<forall>a. a \<noteq> l \<longrightarrow> a \<noteq> b \<longrightarrow> fl_load h1 a = fl_load h a"
    and freed: "fl_load h1 b = Inl UseAfterFree" by blast
  from Cons.IH [OF p1] obtain h2 where h2: "fl_cleanNodes h1 (Some l) = Inr h2" "fl_path h2 l [] []"
    "length h2 = length h1" "\<forall>a. a \<noteq> l \<longrightarrow> a \<notin> set cs \<longrightarrow> fl_load h2 a = fl_load h1 a"
    "\<forall>a \<in> set cs. fl_load h2 a = Inl UseAfterFree" by blast
  have "fl_cleanNodes h (Some l) = Inr h2"
    using fl_isEmpty_path [OF Cons.prems] pop h2(1) by (subst fl_cleanNodes.simps) simp
  moreover have "b \<noteq> l" "b \<notin> set cs" using Cons.prems bs by (auto simp: fl_path_def)
  ultimately show ?case using h2 len old freed bs by auto
qed

lemma fl_destroy_path:
  assumes "fl_path h l bs fs"
  shows "\<exists>h'. fl_destroy h (Some l) = Inr h' \<and> (\<forall>a \<in> set (l # bs). fl_load h' a = Inl UseAfterFree) \<and>
    (\<forall>a. a \<notin> set (l # bs) \<longrightarrow> fl_load h' a = fl_load h a)"
proof (cases "fs = []")
  case True
  with assms have "bs = []" by (cases bs) (auto simp: fl_path_def)
  moreover obtain n where "fl_load h l = Inr n" using assms by (auto simp: fl_path_def)
  ultimately show ?thesis
    using fl_isEmpty_path [OF assms] True
    by (auto simp: fl_destroy_def fl_free_def fl_load_None)
next
  case False
  from fl_clean_path [OF assms] obtain h1 where h1: "fl_cleanNodes h (Some l) = Inr h1" "fl_path h1 l [] []"
    "\<forall>a. a \<noteq> l \<longrightarrow> a \<notin> set bs \<longrightarrow> fl_load h1 a = fl_load h a"
    "\<forall>a \<in> set bs. fl_load h1 a = Inl UseAfterFree" by blast
  from h1(2) obtain n where "fl_load h1 l = Inr n" by (auto simp: fl_path_def)
  with h1 False fl_isEmpty_path [OF assms] show ?thesis
    by (auto simp: fl_destroy_def fl_free_def fl_load_None)
qed

lemma fl_init_path:
  "fl_init h None = Inr (length h, h @ [Some \<lparr>fn_frame = None, fn_next = length h\<rparr>])"
  "fl_path (h @ [Some \<lparr>fn_frame = None, fn_next = length h\<rparr>]) (length h) [] []"
  by (simp_all add: fl_init_def fl_alloc_def fl_store_def fl_path_def fl_load_valid)

section \<open>Properties\<close>

text \<open>The circular list is a queue: frames pushed onto any well-formed list come out after the
  ones already there, in the order they went in.\<close>

theorem frame_list_fifo:
  assumes "fl_rep h l fp fs" and "length (fs @ gs) < n"
  shows "\<exists>l' h1 h2. fl.push_all h l gs = Inr (l', h1) \<and> fl.pop_all n h1 l' = Inr (fs @ gs, h2)"
  by (rule fl.fifo [OF assms])

theorem frame_list_fifo_witness:
  "\<exists>l' h1 h2. fl.push_all [Some \<lparr>fn_frame = None, fn_next = 0\<rparr>] 0
     [\<lparr>f_channel = 1, f_control = 0xEF, f_data = [7]\<rparr>] = Inr (l', h1) \<and>
   fl.pop_all 2 h1 l' = Inr ([] @ [\<lparr>f_channel = 1, f_control = 0xEF, f_data = [7]\<rparr>], h2)"
proof (rule frame_list_fifo)
  show "fl_rep [Some \<lparr>fn_frame = None, fn_next = 0\<rparr>] 0 {0} []"
    using fl_init_path(2) [of "[]"] by (auto simp: fl_rep_def)
qed simp

text \<open>Destroying a well-formed list frees exactly its nodes, once each, and touches no other
  node; destroying the same handle again reads freed memory.\<close>

theorem frame_list_destroy:
  assumes "fl_rep h l fp fs"
  shows "\<exists>h'. fl_destroy h (Some l) = Inr h' \<and> (\<forall>a \<in> fp. fl_load h' a = Inl UseAfterFree) \<and>
    (\<forall>a. a \<notin> fp \<longrightarrow> fl_load h' a = fl_load h a) \<and> fl_destroy h' (Some l) = Inl UseAfterFree"
proof -
  obtain bs where p: "fl_path h l bs fs" and fp: "fp = set (l # bs)"
    using assms by (auto simp: fl_rep_def)
  from fl_destroy_path [OF p] obtain h' where h': "fl_destroy h (Some l) = Inr h'"
    "\<forall>a \<in> fp. fl_load h' a = Inl UseAfterFree" "\<forall>a. a \<notin> fp \<longrightarrow> fl_load h' a = fl_load h a"
    unfolding fp by blast
  moreover have "fl_destroy h' (Some l) = Inl UseAfterFree"
    using h'(2) fp by (simp add: fl_destroy_def fl_isEmpty_def)
  ultimately show ?thesis by blast
qed

theorem frame_list_destroy_witness:
  "\<exists>h'. fl_destroy [Some \<lparr>fn_frame = None, fn_next = 0\<rparr>] (Some 0) = Inr h' \<and>
     (\<forall>a \<in> {0}. fl_load h' a = Inl UseAfterFree) \<and>
     (\<forall>a. a \<notin> {0} \<longrightarrow> fl_load h' a = fl_load [Some \<lparr>fn_frame = None, fn_next = 0\<rparr>] a) \<and>
     fl_destroy h' (Some 0) = Inl UseAfterFree"
proof (rule frame_list_destroy)
  show "fl_rep [Some \<lparr>fn_frame = None, fn_next = 0\<rparr>] 0 {0} []"
    using fl_init_path(2) [of "[]"] by (auto simp: fl_rep_def)
qed

end
