(* ===== verification/Mux_Flow.thy ===== *)
theory Mux_Flow
  imports Mux_Tx Mux_FrameList
begin

text \<open>
  Flow control towards the terminals (\<open>gsm0710muxd_fc.c\<close>): stopping and releasing a terminal,
  keeping the frames it could not take, and asking the modem to pause.  \<open>create_thread\<close> only
  records that the thread exists; its body is a function of its own.
\<close>

section \<open>Helpers\<close>

definition upd_channel :: "nat \<Rightarrow> (channel \<Rightarrow> channel) \<Rightarrow> mux \<Rightarrow> mux res" where
  "upd_channel i g m = bindE (get_channel m i) (\<lambda>c. Inr (set_channel i (g c) m))"

text \<open>A checked system call: whether it succeeded.\<close>

definition sys_check :: "mux \<Rightarrow> bool \<times> mux" where
  "sys_check m =
     (case m_syscalls m of
        [] \<Rightarrow> (True, m)
      | ok # rest \<Rightarrow> (ok, m\<lparr>m_syscalls := rest\<rparr>))"

definition create_thread :: "thread \<Rightarrow> mux \<Rightarrow> mux res" where
  "create_thread t m =
     (case sys_check m of
        (ok, m') \<Rightarrow> if ok then Inr (emit (Thread_Created t) m') else Inl (Assert 4))"

lemma get_set_channel [simp]:
  "i < length (m_channels m) \<Longrightarrow> get_channel (set_channel i c m) j = (if i = j then Inr c else get_channel m j)"
  by (auto simp: get_channel_def set_channel_def array_get_def)

lemma set_channel_simps [simp]:
  "m_heap (set_channel i c m) = m_heap m"
  "m_trace (set_channel i c m) = m_trace m"
  "m_writes (set_channel i c m) = m_writes m"
  "m_serial_fd (set_channel i c m) = m_serial_fd m"
  "m_stop_muxd (set_channel i c m) = m_stop_muxd m"
  "m_in_buf (set_channel i c m) = m_in_buf m"
  "m_cfg (set_channel i c m) = m_cfg m"
  "m_cmux_mode (set_channel i c m) = m_cmux_mode m"
  "m_serial_state (set_channel i c m) = m_serial_state m"
  "length (m_channels (set_channel i c m)) = length (m_channels m)"
  by (simp_all add: set_channel_def)

lemma get_channel_frame [simp]:
  "get_channel (m\<lparr>m_heap := h\<rparr>) i = get_channel m i"
  "get_channel (m\<lparr>m_in_buf := b\<rparr>) i = get_channel m i"
  "get_channel (m\<lparr>m_trace := t\<rparr>) i = get_channel m i"
  "get_channel (m\<lparr>m_syscalls := s\<rparr>) i = get_channel m i"
  "get_channel (emit e m) i = get_channel m i"
  by (simp_all add: get_channel_def)

lemma get_channel_valid: "get_channel m i = Inr c \<Longrightarrow> i < length (m_channels m)"
  by (simp add: get_channel_def res)

section \<open>The C functions\<close>

definition fc_chokePty :: "channel \<Rightarrow> mux \<Rightarrow> mux" where
  "fc_chokePty c m = emit (Ioctl_TCXONC (ch_fd c) TCIOFF) m"

definition fc_releasePty :: "channel \<Rightarrow> mux \<Rightarrow> mux" where
  "fc_releasePty c m = emit (Ioctl_TCXONC (ch_fd c) TCION) m"

definition fc_initContext :: "channel \<Rightarrow> channel" where
  "fc_initContext c =
     c\<lparr>ch_tx_fc_off := False, ch_rx_fc_off := False, ch_rx_thread := False, ch_rx_fl := None,
       ch_rx_fl_total := 0, ch_rx_fl_written := 0,
       ch_tx_fc_on_signals := 0, ch_rx_fc_on_signals := 0\<rparr>"

text \<open>The list is destroyed; the pointer to it stays.\<close>

definition fc_closeContext :: "nat \<Rightarrow> mux \<Rightarrow> mux res" where
  "fc_closeContext i m =
     bindE (get_channel m i) (\<lambda>c.
     bindE (fl_destroy (m_heap m) (ch_rx_fl c)) (\<lambda>h.
       Inr (set_channel i
              (c\<lparr>ch_tx_fc_off := False, ch_rx_fc_off := False, ch_rx_thread := False,
                 ch_rx_fl_total := 0, ch_rx_fl_written := 0\<rparr>) (m\<lparr>m_heap := h\<rparr>))))"

definition count_dropped :: "mux \<Rightarrow> mux" where
  "count_dropped m =
     m\<lparr>m_in_buf := (m_in_buf m)\<lparr>b_dropped_count := b_dropped_count (m_in_buf m) + 1\<rparr>\<rparr>"

definition fc_cacheFrameData :: "nat \<Rightarrow> gsm_frame \<Rightarrow> mux \<Rightarrow> mux res" where
  "fc_cacheFrameData i frame m =
     bindE (get_channel m i) (\<lambda>c.
       if ch_rx_fl_total c + length (f_data frame) > RX_FLOW_CTRL_HIGH_WATERMARK
       then Inr (count_dropped m)
       else
         bindE (fl_pushFrame (m_heap m) (ch_rx_fl c) frame) (\<lambda>(l, h).
           Inr (set_channel i
                  (c\<lparr>ch_rx_fl_total := ch_rx_fl_total c + length (f_data frame),
                     ch_rx_fl := Some l\<rparr>) (m\<lparr>m_heap := h\<rparr>))))"

definition fc_cacheRemainingFrameData :: "nat \<Rightarrow> gsm_frame \<Rightarrow> nat \<Rightarrow> mux \<Rightarrow> mux res" where
  "fc_cacheRemainingFrameData i frame written m =
     bindE (get_channel m i) (\<lambda>c.
     bindE (fl_isEmpty (m_heap m) (ch_rx_fl c)) (\<lambda>empty.
       if \<not> empty then Inl (Assert (err_num GSM0710MUXD_FRAMELIST_INIT_ERR))
       else
         bindE (fl_init (m_heap m) (ch_rx_fl c)) (\<lambda>(l, h).
         bindE (fl_pushFrame h (Some l) frame) (\<lambda>(l', h').
           Inr (set_channel i
                  (c\<lparr>ch_rx_fl_total := length (f_data frame) - written, ch_rx_fl := Some l',
                     ch_rx_fl_written := written\<rparr>) (m\<lparr>m_heap := h'\<rparr>))))))"

text \<open>The modem status command for a channel, with its flow control bit.\<close>

definition msc_cmd :: "nat \<Rightarrow> bool \<Rightarrow> bytes" where
  "msc_cmd dlci fc_off =
     (let cmd = msc_channel_cmd[2 := msc_channel_cmd ! 2 OR word_of_nat (push_bit 2 dlci)]
      in if fc_off then cmd[3 := cmd ! 3 OR 0x02] else cmd)"

text \<open>The end of \<open>retry_write_pty_thread\<close>: the modem may send again.\<close>

definition retry_finish :: "nat \<Rightarrow> mux \<Rightarrow> mux res" where
  "retry_finish i m =
     bindE (get_channel m i) (\<lambda>c.
     bindE (write_frame 0 (msc_cmd (ch_id c) False) (GSM0710_TYPE_UIH OR GSM0710_PF) m) (\<lambda>(_, m1).
       upd_channel i (\<lambda>c. c\<lparr>ch_rx_thread := False,
                             ch_rx_fc_on_signals := Suc (ch_rx_fc_on_signals c)\<rparr>) m1))"

text \<open>
  When the retry thread of an earlier pause still runs, it has emptied its list and is on its last
  lines: the \<open>pthread_cond_wait\<close> returns when they are done.
\<close>

definition start_retry_write_thread :: "nat \<Rightarrow> mux \<Rightarrow> mux res" where
  "start_retry_write_thread i m =
     bindE (get_channel m i) (\<lambda>c.
     bindE (write_frame 0 (msc_cmd (ch_id c) True) (GSM0710_TYPE_UIH OR GSM0710_PF) m) (\<lambda>(_, m1).
     bindE (get_channel m1 i) (\<lambda>c1.
     bindE (if ch_rx_thread c1 then retry_finish i m1 else Inr m1) (\<lambda>m2.
     bindE (upd_channel i (\<lambda>c. c\<lparr>ch_rx_fc_off := True\<rparr>) m2) (\<lambda>m3.
       create_thread (Retry_Write i) m3)))))"

section \<open>What a channel holds\<close>

text \<open>The frames waiting in the list of channel \<open>i\<close>; \<open>NULL\<close> is the empty list.\<close>

definition pending :: "mux \<Rightarrow> nat \<Rightarrow> gsm_frame list \<Rightarrow> bool" where
  "pending m i fs \<longleftrightarrow>
     (\<exists>c. get_channel m i = Inr c \<and>
       (case ch_rx_fl c of
          None \<Rightarrow> fs = []
        | Some l \<Rightarrow> \<exists>bs. fl_path (m_heap m) l bs fs))"

lemma cacheFrameData_run:
  assumes "pending m i fs" and "get_channel m i = Inr c" and "ch_rx_fl c \<noteq> None"
    and "ch_rx_fl_total c + length (f_data frame) \<le> RX_FLOW_CTRL_HIGH_WATERMARK"
  shows "\<exists>l h. fc_cacheFrameData i frame m = Inr (set_channel i
      (c\<lparr>ch_rx_fl_total := ch_rx_fl_total c + length (f_data frame), ch_rx_fl := Some l\<rparr>)
      (m\<lparr>m_heap := h\<rparr>)) \<and> (\<exists>bs. fl_path h l bs (fs @ [frame]))"
proof -
  obtain l bs where l: "ch_rx_fl c = Some l" and p: "fl_path (m_heap m) l bs fs"
    using assms(1-3) by (auto simp: pending_def)
  from fl_push_path [OF p, of frame] obtain h' where
    push: "fl_pushFrame (m_heap m) (Some l) frame = Inr (length (m_heap m), h')"
    and p': "fl_path h' (length (m_heap m)) (bs @ [l]) (fs @ [frame])" by blast
  have "fc_cacheFrameData i frame m = Inr (set_channel i
      (c\<lparr>ch_rx_fl_total := ch_rx_fl_total c + length (f_data frame), ch_rx_fl := Some (length (m_heap m))\<rparr>)
      (m\<lparr>m_heap := h'\<rparr>))"
    using assms(2,4) l push by (simp add: fc_cacheFrameData_def)
  with p' show ?thesis by blast
qed

lemma pending_set:
  assumes "i < length (m_channels m)" and "ch_rx_fl c = Some l" and "fl_path h l bs fs"
  shows "pending (set_channel i c (m\<lparr>m_heap := h\<rparr>)) i fs"
  using assms by (auto simp: pending_def)

lemma cacheFrameData_pending:
  assumes "pending m i fs" and "get_channel m i = Inr c" and "ch_rx_fl c \<noteq> None"
    and "ch_rx_fl_total c + length (f_data frame) \<le> RX_FLOW_CTRL_HIGH_WATERMARK"
  shows "\<exists>m' c'. fc_cacheFrameData i frame m = Inr m' \<and> pending m' i (fs @ [frame]) \<and>
    get_channel m' i = Inr c' \<and> ch_rx_fl_total c' = ch_rx_fl_total c + length (f_data frame)"
proof -
  have i: "i < length (m_channels m)" using get_channel_valid [OF assms(2)] .
  from cacheFrameData_run [OF assms] obtain l h bs where
    r: "fc_cacheFrameData i frame m = Inr (set_channel i
      (c\<lparr>ch_rx_fl_total := ch_rx_fl_total c + length (f_data frame), ch_rx_fl := Some l\<rparr>)
      (m\<lparr>m_heap := h\<rparr>))" and p: "fl_path h l bs (fs @ [frame])" by blast
  show ?thesis using r pending_set [OF i _ p] i by simp
qed

lemma cacheRemaining_run:
  assumes "pending m i []" and "get_channel m i = Inr c"
  shows "\<exists>l h. fc_cacheRemainingFrameData i frame written m = Inr (set_channel i
      (c\<lparr>ch_rx_fl_total := length (f_data frame) - written, ch_rx_fl := Some l, ch_rx_fl_written := written\<rparr>)
      (m\<lparr>m_heap := h\<rparr>)) \<and> (\<exists>bs. fl_path h l bs [frame])"
proof -
  have "\<exists>l h bs. fl_isEmpty (m_heap m) (ch_rx_fl c) = Inr True \<and>
      fl_init (m_heap m) (ch_rx_fl c) = Inr (l, h) \<and> fl_path h l bs []"
  proof (cases "ch_rx_fl c")
    case None
    then show ?thesis using fl_init_path [of "m_heap m"] by (auto simp: fl_isEmpty_def)
  next
    case (Some l)
    with assms obtain bs where p: "fl_path (m_heap m) l bs []" by (auto simp: pending_def)
    from fl_isEmpty_path [OF p] Some p show ?thesis by (auto simp: fl_init_def)
  qed
  then obtain l h bs where e: "fl_isEmpty (m_heap m) (ch_rx_fl c) = Inr True"
    and ini: "fl_init (m_heap m) (ch_rx_fl c) = Inr (l, h)" and p: "fl_path h l bs []" by blast
  from fl_push_path [OF p, of frame] obtain h' where
    push: "fl_pushFrame h (Some l) frame = Inr (length h, h')"
    and p': "fl_path h' (length h) (bs @ [l]) [frame]" by auto
  have "fc_cacheRemainingFrameData i frame written m = Inr (set_channel i
      (c\<lparr>ch_rx_fl_total := length (f_data frame) - written, ch_rx_fl := Some (length h),
         ch_rx_fl_written := written\<rparr>) (m\<lparr>m_heap := h'\<rparr>))"
    using assms(2) e ini push by (simp add: fc_cacheRemainingFrameData_def)
  with p' show ?thesis by blast
qed

section \<open>Properties\<close>

text \<open>While a terminal is paused, a frame that keeps the total within the watermark is queued
  behind the frames already waiting; one that does not is dropped and counted, and the waiting
  frames stay as they are.  The total never passes the watermark.\<close>

theorem cache_frame_data:
  assumes "pending m i fs" and "get_channel m i = Inr c" and "ch_rx_fl c \<noteq> None"
    and "ch_rx_fl_total c \<le> RX_FLOW_CTRL_HIGH_WATERMARK"
  shows "\<exists>m' c'. fc_cacheFrameData i frame m = Inr m' \<and> get_channel m' i = Inr c' \<and>
    ch_rx_fl_total c' \<le> RX_FLOW_CTRL_HIGH_WATERMARK \<and>
    (if ch_rx_fl_total c + length (f_data frame) \<le> RX_FLOW_CTRL_HIGH_WATERMARK
     then pending m' i (fs @ [frame])
     else pending m' i fs \<and> b_dropped_count (m_in_buf m') = b_dropped_count (m_in_buf m) + 1)"
proof (cases "ch_rx_fl_total c + length (f_data frame) \<le> RX_FLOW_CTRL_HIGH_WATERMARK")
  case True
  from cacheFrameData_pending [OF assms(1-3) True] True show ?thesis by force
next
  case False
  have "fc_cacheFrameData i frame m = Inr (count_dropped m)"
    using False assms(2) by (simp add: fc_cacheFrameData_def)
  moreover have "pending (count_dropped m) i fs"
    using assms(1) by (auto simp: pending_def count_dropped_def split: option.splits)
  moreover have "get_channel (count_dropped m) i = Inr c"
    using assms(2) by (simp add: count_dropped_def)
  moreover have "b_dropped_count (m_in_buf (count_dropped m)) = b_dropped_count (m_in_buf m) + 1"
    by (simp add: count_dropped_def)
  ultimately show ?thesis using False assms(4) by simp
qed

definition paused_channel :: channel where
  "paused_channel = zero_channel\<lparr>ch_fd := 7, ch_rx_fc_off := True, ch_rx_fl := Some 0\<rparr>"

definition paused :: "build_cfg \<Rightarrow> mux" where
  "paused c = (mux_init c)\<lparr>m_channels := [zero_channel, paused_channel],
     m_heap := [Some \<lparr>fn_frame = None, fn_next = 0\<rparr>]\<rparr>"

lemma paused_pending: "pending (paused c) 1 []" "get_channel (paused c) 1 = Inr paused_channel"
proof -
  show g: "get_channel (paused c) 1 = Inr paused_channel"
    by (simp add: get_channel_def paused_def)
  have "fl_path [Some \<lparr>fn_frame = None, fn_next = 0\<rparr>] 0 [] []"
    using fl_init_path(2) [of "[]"] by simp
  with g show "pending (paused c) 1 []"
    by (auto simp: pending_def paused_channel_def paused_def)
qed

definition no_cfg :: build_cfg where
  "no_cfg = \<lparr>mtk_mux_channel_64 = False, sim_count = 1, android_vt_support = False,
     csd_dialer_support = False, tc1_volte = False, fusion_rild = False\<rparr>"

theorem cache_frame_data_witness:
  "\<exists>m'. fc_cacheFrameData 1 \<lparr>f_channel = 1, f_control = 0xEF, f_data = [7]\<rparr> (paused no_cfg) = Inr m' \<and>
     pending m' 1 [\<lparr>f_channel = 1, f_control = 0xEF, f_data = [7]\<rparr>]"
  using cache_frame_data [OF paused_pending [of no_cfg], where frame = "\<lparr>f_channel = 1, f_control = 0xEF, f_data = [7]\<rparr>"]
  by (auto simp: paused_channel_def zero_channel_def RX_FLOW_CTRL_HIGH_WATERMARK_def)

text \<open>\<open>_fc_closeContext\<close> leaves the channel pointing at the list it freed: closing the same
  context a second time reads freed memory.\<close>

theorem close_context_twice:
  assumes "get_channel m i = Inr c" and "ch_rx_fl c = Some l" and "fl_rep (m_heap m) l fp fs"
  shows "\<exists>m'. fc_closeContext i m = Inr m' \<and> fc_closeContext i m' = Inl UseAfterFree"
proof -
  obtain bs where p: "fl_path (m_heap m) l bs fs" using assms(3) by (auto simp: fl_rep_def)
  from fl_destroy_path [OF p] obtain h where h: "fl_destroy (m_heap m) (Some l) = Inr h"
    and freed: "fl_load h l = Inl UseAfterFree" by auto
  have i: "i < length (m_channels m)" using get_channel_valid [OF assms(1)] .
  let ?c = "c\<lparr>ch_tx_fc_off := False, ch_rx_fc_off := False, ch_rx_thread := False,
              ch_rx_fl_total := 0, ch_rx_fl_written := 0\<rparr>"
  have "fc_closeContext i m = Inr (set_channel i ?c (m\<lparr>m_heap := h\<rparr>))"
    using assms(1,2) h by (simp add: fc_closeContext_def)
  moreover have "fc_closeContext i (set_channel i ?c (m\<lparr>m_heap := h\<rparr>)) = Inl UseAfterFree"
    using i assms(2) freed by (simp add: fc_closeContext_def fl_destroy_def fl_isEmpty_def)
  ultimately show ?thesis by blast
qed

theorem close_context_twice_witness:
  "\<exists>m'. fc_closeContext 1 (paused no_cfg) = Inr m' \<and> fc_closeContext 1 m' = Inl UseAfterFree"
proof (rule close_context_twice [OF paused_pending(2)])
  show "ch_rx_fl paused_channel = Some 0" by (simp add: paused_channel_def)
  show "fl_rep (m_heap (paused no_cfg)) 0 {0} []"
    using fl_init_path(2) [of "[]"] by (auto simp: fl_rep_def paused_def)
qed

end
