(* ===== verification/Mux_Channel.thy ===== *)
theory Mux_Channel
  imports Mux_Flow
begin

text \<open>
  The life of a logical channel: \<open>logical_channel_close\<close>, \<open>logical_channel_init\<close>,
  \<open>setup_pty_interface\<close>, \<open>logical_channel_establish\<close> and \<open>c_alloc_channel\<close>.  An \<open>int\<close> result is
  kept as such: 0, an error code, or -1 from \<open>SYSCHECK\<close>.  The terminal attributes, \<open>chown\<close> and the
  allocation of the thread argument have no effect the model shows.
\<close>

section \<open>Closing and initialising\<close>

text \<open>Closing the terminal's descriptor and removing its symbolic link.\<close>

definition close_pty :: "channel \<Rightarrow> mux \<Rightarrow> mux" where
  "close_pty c m =
     (if ch_fd c \<ge> 0 then
        emit (Closed (ch_fd c))
          (case ch_ptslink c of None \<Rightarrow> m | Some link \<Rightarrow> emit (Unlinked link) m)
      else m)"

definition logical_channel_close :: "nat \<Rightarrow> mux \<Rightarrow> mux res" where
  "logical_channel_close i m =
     bindE (get_channel m i) (\<lambda>c.
       fc_closeContext i
         (set_channel i
            (c\<lparr>ch_fd := (if ch_fd c \<ge> 0 then -1 else ch_fd c), ch_ptsname := None,
               ch_opened := False, ch_v24_signals := 0, ch_sabm_ua_pending := False,
               ch_disc_ua_pending := False, ch_negotiated_N1 := 0\<rparr>)
            (close_pty c m)))"

definition ptmx :: string where
  "ptmx = ''/dev/ptmx''"

text \<open>The entry of the table for a channel: only the first \<open>MUXD_CH_NUM_ALL\<close> entries are searched.\<close>

definition find_cfg :: "build_cfg \<Rightarrow> nat \<Rightarrow> channel_config option" where
  "find_cfg c dlci = find (\<lambda>e. pn_dlci e = dlci) (take (MUXD_CH_NUM_ALL c) (ch_cfg c))"

definition logical_channel_init :: "nat \<Rightarrow> nat \<Rightarrow> mux \<Rightarrow> mux res" where
  "logical_channel_init i dlci m =
     bindE (logical_channel_close i m) (\<lambda>m1.
       upd_channel i (\<lambda>c.
         let c1 = c\<lparr>ch_id := dlci, ch_devicename := (if dlci \<noteq> 0 then Some ptmx else None),
                    ch_reopen := False\<rparr>
         in fc_initContext
              (case find_cfg (m_cfg m1) dlci of
                 Some e \<Rightarrow> c1\<lparr>ch_ptslink := s_path e, ch_negotiated_N1 := pn_n1 e\<rparr>
               | None \<Rightarrow> c1\<lparr>ch_ptslink := None, ch_negotiated_N1 := m_cmux_N1 m1\<rparr>)) m1)"

section \<open>Opening a terminal\<close>

text \<open>\<open>open\<close> and the \<open>ptsname\<close> of the new descriptor; opening \<open>NULL\<close> fails.\<close>

definition sys_open :: "string option \<Rightarrow> mux \<Rightarrow> (int \<times> string option) \<times> mux" where
  "sys_open device m =
     (case (device, m_opens m) of
        (Some d, r # rest) \<Rightarrow>
          (r, (if fst r \<ge> 0 then emit (Opened d (fst r)) else id) (m\<lparr>m_opens := rest\<rparr>))
      | _ \<Rightarrow> ((-1, None), m))"

text \<open>\<open>SYSCHECK (call)\<close>: go on if it succeeds, return -1 from the function if not.\<close>

definition syscheck :: "(mux \<Rightarrow> (int \<times> mux) res) \<Rightarrow> mux \<Rightarrow> (int \<times> mux) res" where
  "syscheck k m = (case sys_check m of (ok, m') \<Rightarrow> if ok then k m' else Inr (-1, m'))"

definition setup_link :: "nat \<Rightarrow> string \<Rightarrow> (mux \<Rightarrow> (int \<times> mux) res) \<Rightarrow> mux \<Rightarrow> (int \<times> mux) res" where
  "setup_link i name k m =
     bindE (get_channel m i) (\<lambda>c.
       case ch_ptslink c of
         None \<Rightarrow> k m
       | Some link \<Rightarrow>
           syscheck (syscheck (\<lambda>m'. k (emit (Linked name link) m'))) (emit (Unlinked link) m))"

definition setup_pty_interface :: "nat \<Rightarrow> mux \<Rightarrow> (int \<times> mux) res" where
  "setup_pty_interface i m =
     bindE (get_channel m i) (\<lambda>c.
       case sys_open (ch_devicename c) m of
         ((fd, pts), m1) \<Rightarrow>
           bindE (upd_channel i (\<lambda>c. c\<lparr>ch_fd := fd\<rparr>) m1) (\<lambda>m2.
             if fd < 0 then Inr (-1, m2)
             else
               (case pts of
                  None \<Rightarrow> Inr (-1, m2)
                | Some name \<Rightarrow>
                    bindE (upd_channel i (\<lambda>c. c\<lparr>ch_ptsname := Some name\<rparr>) m2)
                      (syscheck (syscheck
                        (let start = (\<lambda>m'. bindE (create_thread (Poll_Channel i) m') (\<lambda>m''. Inr (0, m'')))
                         in if ch_devicename c = Some ptmx
                            then syscheck (syscheck (setup_link i name start))
                            else start))))))"

definition logical_channel_establish :: "nat \<Rightarrow> mux \<Rightarrow> (int \<times> mux) res" where
  "logical_channel_establish i m =
     bindE (setup_pty_interface i m) (\<lambda>(rc, m1).
       if rc \<noteq> 0 then Inl (Assert (err_num GSM0710MUXD_SETUP_PTY_ERR))
       else
         bindE (upd_channel i (\<lambda>c. c\<lparr>ch_v24_signals :=
                    GSM0710_SIGNAL_DV OR GSM0710_SIGNAL_RTR OR GSM0710_SIGNAL_RTC OR GSM0710_EA,
                    ch_sabm_ua_pending := True\<rparr>) m1) (\<lambda>m2.
         bindE (get_channel m2 i) (\<lambda>c.
         bindE (write_frame (ch_id c) [] (GSM0710_TYPE_SABM OR GSM0710_PF) m2) (\<lambda>(_, m3).
           Inr (0, m3)))))"

section \<open>Allocating channels\<close>

fun first_closed :: "mux \<Rightarrow> nat list \<Rightarrow> nat option res" where
  "first_closed m [] = Inr None"
| "first_closed m (i # is) =
     bindE (get_channel m i) (\<lambda>c. if ch_fd c < 0 then Inr (Some i) else first_closed m is)"

text \<open>The ids of the table entries from index 1 on, and what \<open>id\<close> holds after going through them.\<close>

definition cfg_ids :: "build_cfg \<Rightarrow> nat list" where
  "cfg_ids c = map pn_dlci (drop 1 (take (MUXD_CH_NUM_ALL c) (ch_cfg c)))"

definition c_alloc_channel :: "mux \<Rightarrow> (int \<times> mux) res" where
  "c_alloc_channel m =
     (if m_serial_state m = MUX_STATE_MUXING then
        bindE (first_closed m (cfg_ids (m_cfg m))) (\<lambda>r.
          case r of
            Some dlci \<Rightarrow> logical_channel_establish dlci m
          | None \<Rightarrow>
              bindE (first_closed m [1..<GSM0710_MAX_CHANNELS (m_cfg m)]) (\<lambda>r'.
                case r' of
                  Some i \<Rightarrow>
                    logical_channel_establish
                      (if cfg_ids (m_cfg m) = [] then 0 else last (cfg_ids (m_cfg m))) m
                | None \<Rightarrow> Inr (int (err_num GSM0710MUXD_ALLOC_CHANNEL_ERR), m)))
      else Inr (int (err_num GSM0710MUXD_ALLOC_CHANNEL_ERR), m))"

section \<open>Lemmas\<close>

lemma close_pty_simps [simp]:
  "m_channels (close_pty c m) = m_channels m"
  "m_heap (close_pty c m) = m_heap m"
  "m_cfg (close_pty c m) = m_cfg m"
  "m_cmux_N1 (close_pty c m) = m_cmux_N1 m"
  "m_serial_state (close_pty c m) = m_serial_state m"
  by (simp_all add: close_pty_def emit_def split: option.split)

lemma get_close_pty [simp]: "get_channel (close_pty c m) i = get_channel m i"
  by (simp add: get_channel_def)

lemma set_set_channel [simp]: "set_channel i c (set_channel i c' m) = set_channel i c m"
  by (simp add: set_channel_def)

lemma set_channel_heap: "(set_channel i c m)\<lparr>m_heap := h\<rparr> = set_channel i c (m\<lparr>m_heap := h\<rparr>)"
  by (simp add: set_channel_def)

text \<open>What a channel looks like after it was closed.\<close>

definition closed_channel :: "channel \<Rightarrow> channel" where
  "closed_channel c =
     c\<lparr>ch_fd := (if ch_fd c \<ge> 0 then -1 else ch_fd c), ch_ptsname := None,
       ch_opened := False, ch_v24_signals := 0, ch_sabm_ua_pending := False,
       ch_disc_ua_pending := False, ch_negotiated_N1 := 0,
       ch_tx_fc_off := False, ch_rx_fc_off := False, ch_rx_thread := False,
       ch_rx_fl_total := 0, ch_rx_fl_written := 0\<rparr>"

lemma closed_rx_fl [simp]: "ch_rx_fl (closed_channel c) = ch_rx_fl c"
  by (simp add: closed_channel_def)

lemma logical_channel_close_eq:
  assumes "get_channel m i = Inr c"
  shows "logical_channel_close i m =
    bindE (fl_destroy (m_heap m) (ch_rx_fl c)) (\<lambda>h.
      Inr (set_channel i (closed_channel c) ((close_pty c m)\<lparr>m_heap := h\<rparr>)))"
  using assms get_channel_valid [OF assms]
  by (simp add: logical_channel_close_def fc_closeContext_def closed_channel_def set_channel_heap)

definition init_channel :: "build_cfg \<Rightarrow> nat \<Rightarrow> nat \<Rightarrow> channel \<Rightarrow> channel" where
  "init_channel cfg N1 dlci c =
     fc_initContext
       (case find_cfg cfg dlci of
          Some e \<Rightarrow> (closed_channel c)\<lparr>ch_id := dlci,
             ch_devicename := (if dlci \<noteq> 0 then Some ptmx else None), ch_reopen := False,
             ch_ptslink := s_path e, ch_negotiated_N1 := pn_n1 e\<rparr>
        | None \<Rightarrow> (closed_channel c)\<lparr>ch_id := dlci,
             ch_devicename := (if dlci \<noteq> 0 then Some ptmx else None), ch_reopen := False,
             ch_ptslink := None, ch_negotiated_N1 := N1\<rparr>)"

lemma logical_channel_init_eq:
  assumes "get_channel m i = Inr c"
  shows "logical_channel_init i dlci m =
    bindE (fl_destroy (m_heap m) (ch_rx_fl c)) (\<lambda>h.
      Inr (set_channel i (init_channel (m_cfg m) (m_cmux_N1 m) dlci c)
             ((close_pty c m)\<lparr>m_heap := h\<rparr>)))"
proof -
  have i: "i < length (m_channels m)" using get_channel_valid [OF assms] .
  have N1: "m_cmux_N1 (set_channel i c' m') = m_cmux_N1 m'" for c' m'
    by (simp add: set_channel_def)
  show ?thesis
    using i by (cases "fl_destroy (m_heap m) (ch_rx_fl c)")
      (simp_all add: logical_channel_init_def logical_channel_close_eq [OF assms] upd_channel_def
        init_channel_def Let_def N1 split: option.split)
qed

section \<open>Properties\<close>

text \<open>\<open>logical_channel_init\<close> gives a channel without a frame list its starting values: id and
  device, the link and frame size of its table entry, or no link and \<open>cmux_N1\<close> when it has none,
  no open descriptor, not opened, nothing pending, flow control on.\<close>

theorem logical_channel_init_values:
  assumes "get_channel m i = Inr c" and "ch_rx_fl c = None"
  shows "\<exists>m' c'. logical_channel_init i dlci m = Inr m' \<and> get_channel m' i = Inr c' \<and>
    ch_id c' = dlci \<and> ch_devicename c' = (if dlci = 0 then None else Some ptmx) \<and> ch_fd c' < 0 \<and>
    (case find_cfg (m_cfg m) dlci of
       Some e \<Rightarrow> ch_ptslink c' = s_path e \<and> ch_negotiated_N1 c' = 512
     | None \<Rightarrow> ch_ptslink c' = None \<and> ch_negotiated_N1 c' = m_cmux_N1 m) \<and>
    \<not> ch_opened c' \<and> \<not> ch_reopen c' \<and> \<not> ch_sabm_ua_pending c' \<and> \<not> ch_disc_ua_pending c' \<and>
    \<not> ch_tx_fc_off c' \<and> \<not> ch_rx_fc_off c' \<and> ch_rx_fl c' = None"
proof -
  have i: "i < length (m_channels m)" using get_channel_valid [OF assms(1)] .
  have n1: "pn_n1 e = 512" if "find_cfg (m_cfg m) dlci = Some e" for e
    using that ch_cfg_n1 unfolding find_cfg_def
    by (metis find_Some_iff in_set_takeD nth_mem)
  have "logical_channel_init i dlci m = Inr (set_channel i (init_channel (m_cfg m) (m_cmux_N1 m) dlci c)
             ((close_pty c m)\<lparr>m_heap := m_heap m\<rparr>))"
    using logical_channel_init_eq [OF assms(1)] assms(2) by (simp add: fl_destroy_def)
  with i n1 show ?thesis
    by (auto simp: init_channel_def fc_initContext_def closed_channel_def split: option.split)
qed

theorem logical_channel_init_values_witness:
  "\<exists>m' c'. logical_channel_init 3 3 (mux_init no_cfg) = Inr m' \<and> get_channel m' 3 = Inr c' \<and>
     ch_id c' = 3 \<and> ch_fd c' < 0 \<and> ch_negotiated_N1 c' = 512"
proof -
  have g: "get_channel (mux_init no_cfg) 3 = Inr zero_channel"
    by (simp add: get_channel_def mux_init_def no_cfg_def GSM0710_MAX_CHANNELS_def)
  have z: "ch_rx_fl zero_channel = None" by (simp add: zero_channel_def)
  have "find_cfg (m_cfg (mux_init no_cfg)) 3 \<noteq> None"
    by (simp add: find_cfg_def mux_init_def no_cfg_def ch_cfg_def cfg_entry_def MUXD_CH_NUM_ALL_def
        MUXD_CH_NUM_RILD_def MUXD_CH_NUM_VT_def MUXD_CH_NUM_IMS_def MUXD_CH_NUM_NW_def)
  with logical_channel_init_values [OF g z, of 3] show ?thesis by auto
qed

text \<open>A channel that ever held pending frames cannot be used again: \<open>logical_channel_close\<close> frees
  its frame list and keeps the pointer, and \<open>logical_channel_init\<close>, which closes first, reads it.\<close>

theorem reinit_after_close:
  assumes "get_channel m i = Inr c" and "ch_rx_fl c = Some l" and "fl_rep (m_heap m) l fp fs"
  shows "\<exists>m'. logical_channel_close i m = Inr m' \<and> logical_channel_init i dlci m' = Inl UseAfterFree"
proof -
  obtain bs where p: "fl_path (m_heap m) l bs fs" using assms(3) by (auto simp: fl_rep_def)
  from fl_destroy_path [OF p] obtain h where h: "fl_destroy (m_heap m) (Some l) = Inr h"
    and freed: "fl_load h l = Inl UseAfterFree" by auto
  have i: "i < length (m_channels m)" using get_channel_valid [OF assms(1)] .
  let ?m = "set_channel i (closed_channel c) ((close_pty c m)\<lparr>m_heap := h\<rparr>)"
  have "logical_channel_close i m = Inr ?m"
    using logical_channel_close_eq [OF assms(1)] assms(2) h by simp
  moreover have "get_channel ?m i = Inr (closed_channel c)" using i by simp
  from logical_channel_init_eq [OF this] have "logical_channel_init i dlci ?m = Inl UseAfterFree"
    using assms(2) freed by (simp add: fl_destroy_def fl_isEmpty_def)
  ultimately show ?thesis by blast
qed

theorem reinit_after_close_witness:
  "\<exists>m'. logical_channel_close 1 (paused no_cfg) = Inr m' \<and> logical_channel_init 1 1 m' = Inl UseAfterFree"
proof (rule reinit_after_close [OF paused_pending(2)])
  show "ch_rx_fl paused_channel = Some 0" by (simp add: paused_channel_def)
  show "fl_rep (m_heap (paused no_cfg)) 0 {0} []"
    using fl_init_path(2) [of "[]"] by (auto simp: fl_rep_def paused_def)
qed

text \<open>When every channel of the table has its terminal, \<open>c_alloc_channel\<close> finds a free slot but
  sets up the last channel of the table a second time instead of that slot.\<close>

theorem alloc_wrong_channel:
  assumes "m_serial_state m = MUX_STATE_MUXING"
    and "first_closed m (cfg_ids (m_cfg m)) = Inr None"
    and "first_closed m [1..<GSM0710_MAX_CHANNELS (m_cfg m)] = Inr (Some i)"
    and "cfg_ids (m_cfg m) \<noteq> []"
  shows "c_alloc_channel m = logical_channel_establish (last (cfg_ids (m_cfg m))) m \<and>
    i \<notin> set (cfg_ids (m_cfg m))"
proof -
  have none: "first_closed m is = Inr None \<Longrightarrow> j \<in> set is \<Longrightarrow>
      \<exists>c. get_channel m j = Inr c \<and> 0 \<le> ch_fd c" for j "is"
    by (induction "is") (auto simp: res split: if_splits)
  have some: "first_closed m is = Inr (Some j) \<Longrightarrow>
      \<exists>c. get_channel m j = Inr c \<and> ch_fd c < 0" for j "is"
    by (induction "is") (auto simp: res split: if_splits)
  from none [OF assms(2)] some [OF assms(3)] have "i \<notin> set (cfg_ids (m_cfg m))" by fastforce
  with assms show ?thesis by (simp add: c_alloc_channel_def)
qed

definition all_up :: mux where
  "all_up = (mux_init no_cfg)\<lparr>m_serial_state := MUX_STATE_MUXING,
     m_channels := (replicate 32 zero_channel)[9 := zero_channel\<lparr>ch_fd := -1\<rparr>]\<rparr>"

theorem alloc_wrong_channel_witness:
  "c_alloc_channel all_up = logical_channel_establish 26 all_up"
proof -
  have ids: "cfg_ids (m_cfg all_up) = [1, 2, 3, 4, 5, 26]"
    by (simp add: cfg_ids_def all_up_def mux_init_def no_cfg_def ch_cfg_def cfg_entry_def
        MUXD_CH_NUM_ALL_def MUXD_CH_NUM_RILD_def MUXD_CH_NUM_VT_def MUXD_CH_NUM_IMS_def MUXD_CH_NUM_NW_def)
  have g: "get_channel all_up i = Inr (if i = 9 then zero_channel\<lparr>ch_fd := -1\<rparr> else zero_channel)"
    if "i < 32" for i
    using that by (simp add: get_channel_def all_up_def nth_list_update)
  have max: "GSM0710_MAX_CHANNELS (m_cfg all_up) = 32"
    by (simp add: all_up_def mux_init_def no_cfg_def GSM0710_MAX_CHANNELS_def)
  have fd: "ch_fd zero_channel = 0" by (simp add: zero_channel_def)
  have "first_closed all_up [1..<32] = Inr (Some 9)"
    by (simp add: upt_conv_Cons g fd)
  moreover have "first_closed all_up (cfg_ids (m_cfg all_up)) = Inr None"
    unfolding ids by (simp add: g fd)
  moreover have "m_serial_state all_up = MUX_STATE_MUXING" by (simp add: all_up_def)
  ultimately show ?thesis
    using alloc_wrong_channel [of all_up 9] by (simp add: ids max)
qed

end
