(* ===== verification/Mux_Control.thy ===== *)
theory Mux_Control
  imports Mux_Channel Mux_LineProps
begin

text \<open>
  Commands on the control channel (\<open>handle_command\<close>) and the thread that answers them
  (\<open>write_tx_msc_response\<close>).  The answer is handed over in the one-place cache
  \<open>tx_msc_response_cache\<close>.
\<close>

section \<open>The C functions\<close>

text \<open>Octets up to and including the first with its extension bit set, from index \<open>i\<close> on.\<close>

definition skip_extended :: "bytes \<Rightarrow> nat \<Rightarrow> nat" where
  "skip_extended data i = i + length (takeWhile (\<lambda>x. x AND GSM0710_EA = 0) (drop i data)) + 1"

text \<open>The modem status command: \<open>i\<close> is the index of its first value octet.\<close>

definition handle_msc :: "bytes \<Rightarrow> nat \<Rightarrow> mux \<Rightarrow> mux res" where
  "handle_msc data i m =
     (if i + 1 < length data then
        (let dlci = unat (GSM0710_DECODE_ADDRESS (data ! i));
             signals = data ! (i + 1)
         in bindE (get_channel m dlci) (\<lambda>c.
              if \<not> ch_opened c then Inr m
              else if signals AND GSM0710_SIGNAL_FC = GSM0710_SIGNAL_FC then
                (if \<not> ch_tx_fc_off c
                 then Inr (fc_chokePty c (set_channel dlci (c\<lparr>ch_tx_fc_off := True\<rparr>) m))
                 else Inr m)
              else
                (if ch_tx_fc_off c
                 then Inr (fc_releasePty c (set_channel dlci
                        (c\<lparr>ch_tx_fc_off := False,
                           ch_tx_fc_on_signals := Suc (ch_tx_fc_on_signals c)\<rparr>) m))
                 else Inr m)))
      else Inr m)"

text \<open>The answer to a command that is not supported; it copies the type field of the command.\<close>

definition nsc_response :: "bytes \<Rightarrow> nat \<Rightarrow> bytes res" where
  "nsc_response data type_length =
     (let n = type_length AND 127
      in if n > length data then Inl OutOfBounds
         else Inr ([GSM0710_CONTROL_NSC, GSM0710_EA OR word_of_nat (push_bit 1 n)] @ take n data))"

definition cache_response :: "bytes \<Rightarrow> mux \<Rightarrow> mux" where
  "cache_response data m =
     m\<lparr>m_tx_msc_response_cache := Some (data[0 := data ! 0 AND NOT GSM0710_CR]),
       m_tx_msc_response_signals := Suc (m_tx_msc_response_signals m)\<rparr>"

definition handle_command :: "gsm_frame \<Rightarrow> mux \<Rightarrow> mux res" where
  "handle_command frame m =
     (let data = f_data frame
      in if length data > 0 then
           (let type = data ! 0;
                type_length = skip_extended data 0
            in if type AND GSM0710_CR = GSM0710_CR then
                 (let i = skip_extended data type_length;
                      command = type AND NOT GSM0710_CR
                  in if command = GSM0710_CONTROL_CLD then
                       Inr (cache_response data (m\<lparr>m_serial_state := MUX_STATE_PEER_CLOSING\<rparr>))
                     else if command = GSM0710_CONTROL_PSC \<or> command = GSM0710_CONTROL_TEST
                           \<or> command = GSM0710_CONTROL_PN then
                       Inr (cache_response data m)
                     else if command = GSM0710_CONTROL_MSC then
                       bindE (handle_msc data i m) (\<lambda>m'. Inr (cache_response data m'))
                     else
                       bindE (nsc_response data type_length) (\<lambda>response.
                       bindE (rx_thread_write_frame 0 response GSM0710_TYPE_UIH m) (\<lambda>(_, m').
                         Inr m')))
               else Inr m)
         else Inr m)"

text \<open>\<open>strlen\<close> of a block that need not hold a zero octet: without one it reads past the block.\<close>

definition c_strlen :: "bytes \<Rightarrow> nat res" where
  "c_strlen xs =
     (if 0 \<in> set xs then Inr (length (takeWhile (\<lambda>x. x \<noteq> 0) xs)) else Inl OutOfBounds)"

text \<open>One round of the answering thread; with an empty cache it goes on waiting.\<close>

definition write_tx_msc_response :: "mux \<Rightarrow> mux res" where
  "write_tx_msc_response m =
     (case m_tx_msc_response_cache m of
        None \<Rightarrow> Inr m
      | Some cache \<Rightarrow>
          bindE (c_strlen cache) (\<lambda>len.
          bindE (rx_thread_write_frame 0 (take len cache) GSM0710_TYPE_UIH
                   (m\<lparr>m_tx_msc_response_cache := None\<rparr>)) (\<lambda>(_, m'). Inr m')))"

section \<open>Properties\<close>

lemma and_2_eq: "((x :: u8) AND 2 = 2) \<longleftrightarrow> bit x 1"
proof
  assume "x AND 2 = 2"
  then have "bit (x AND 2) 1 = bit (2 :: u8) 1" by (simp only:)
  then show "bit x 1" by (simp add: bit_and_iff)
next
  assume b: "bit x 1"
  show "x AND 2 = 2"
  proof (rule bit_word_eqI)
    fix n
    assume "n < LENGTH(8)"
    then have "n \<in> {0, 1, 2, 3, 4, 5, 6, 7}" by auto
    then show "bit (x AND 2) n = bit (2 :: u8) n" using b by (auto simp: bit_and_iff)
  qed
qed

lemma and_1_bit: "((x :: u8) AND 1 = 0) \<longleftrightarrow> \<not> bit x 0"
proof -
  have "x AND 1 = of_bool (odd x)" by (simp add: and_one_eq mod_2_eq_odd)
  then show ?thesis by (simp add: bit_0)
qed

lemma msc_command_run:
  fixes dlci :: u8
  assumes "GSM0710_COMMAND_IS t GSM0710_CONTROL_MSC" and "t AND GSM0710_CR = GSM0710_CR"
    and "unat dlci < 64" and "get_channel m (unat dlci) = Inr c" and "ch_opened c"
    and "f_data frame = [t, 0x05, frame_address (unat dlci), signals]"
  shows "\<exists>m' c'. handle_command frame m = Inr m' \<and> get_channel m' (unat dlci) = Inr c' \<and>
    (ch_tx_fc_off c' \<longleftrightarrow> bit signals 1) \<and>
    c' = c\<lparr>ch_tx_fc_off := ch_tx_fc_off c', ch_tx_fc_on_signals := ch_tx_fc_on_signals c'\<rparr> \<and>
    ch_tx_fc_on_signals c' =
      ch_tx_fc_on_signals c + (if ch_tx_fc_off c \<and> \<not> ch_tx_fc_off c' then 1 else 0) \<and>
    m_trace m' = m_trace m @
      (if ch_tx_fc_off c' = ch_tx_fc_off c then []
       else [Ioctl_TCXONC (ch_fd c) (if ch_tx_fc_off c' then TCIOFF else TCION)]) \<and>
    m_tx_msc_response_cache m' =
      Some [t AND NOT GSM0710_CR, 0x05, frame_address (unat dlci), signals] \<and>
    (\<forall>j. j \<noteq> unat dlci \<longrightarrow> get_channel m' j = get_channel m j)"
proof -
  have cmd: "t AND NOT GSM0710_CR = GSM0710_CONTROL_MSC"
    using assms(1) by (simp add: GSM0710_COMMAND_IS_def)
  have "bit (t AND NOT GSM0710_CR) 0 = bit GSM0710_CONTROL_MSC 0" by (simp only: cmd)
  then have ea: "t AND 1 \<noteq> 0" by (simp add: and_1_bit bit_and_iff bit_not_iff)
  let ?a = "frame_address (unat dlci)"
  let ?data = "[t, 0x05, ?a, signals]"
  have tl: "skip_extended ?data 0 = 1" using ea by (simp add: skip_extended_def)
  have i: "skip_extended ?data (Suc 0) = 2" by (simp add: skip_extended_def)
  have dec: "GSM0710_DECODE_ADDRESS ?a = dlci" using decode_address [OF assms(3)] .
  let ?on = "bit signals 1"
  let ?c = "if ?on then c\<lparr>ch_tx_fc_off := True\<rparr>
            else if ch_tx_fc_off c then c\<lparr>ch_tx_fc_off := False,
                 ch_tx_fc_on_signals := Suc (ch_tx_fc_on_signals c)\<rparr> else c"
  let ?m = "if ?on = ch_tx_fc_off c then m
            else emit (Ioctl_TCXONC (ch_fd c) (if ?on then TCIOFF else TCION)) (set_channel (unat dlci) ?c m)"
  have msc: "handle_msc ?data 2 m = Inr ?m"
    using assms(4,5) dec and_2_eq [of signals]
    by (auto simp: handle_msc_def Let_def fc_chokePty_def fc_releasePty_def)
  have run: "handle_command frame m = Inr (cache_response ?data ?m)"
    using assms(2) cmd unfolding handle_command_def Let_def assms(6)
    by (simp add: tl i msc del: split_paired_All)
  have k: "unat dlci < length (m_channels m)" using get_channel_valid [OF assms(4)] .
  have g: "get_channel (cache_response ?data ?m) j = (if j = unat dlci then Inr ?c else get_channel m j)" for j
    using k assms(4) by (auto simp: cache_response_def get_channel_def set_channel_def emit_def array_get_def)
  show ?thesis
    using g unfolding run
    by (intro exI [of _ "cache_response ?data ?m"] exI [of _ ?c])
      (auto simp: cache_response_def)
qed

text \<open>A modem status command for an open channel sets that channel's transmit pause to the flow
  control bit of the command, tells the terminal once when this is a change, wakes a waiting
  reader when the pause ends, queues the command with its C/R bit cleared as the answer, and
  changes no other channel.\<close>

theorem msc_command:
  fixes dlci :: u8
  assumes "GSM0710_COMMAND_IS t GSM0710_CONTROL_MSC" and "t AND GSM0710_CR = GSM0710_CR"
    and "unat dlci < 64" and "get_channel m (unat dlci) = Inr c" and "ch_opened c"
    and "f_data frame = [t, 0x05, frame_address (unat dlci), signals]"
  shows "\<exists>m' c'. handle_command frame m = Inr m' \<and> get_channel m' (unat dlci) = Inr c' \<and>
    (ch_tx_fc_off c' \<longleftrightarrow> bit signals 1) \<and>
    c' = c\<lparr>ch_tx_fc_off := ch_tx_fc_off c', ch_tx_fc_on_signals := ch_tx_fc_on_signals c'\<rparr> \<and>
    ch_tx_fc_on_signals c' =
      ch_tx_fc_on_signals c + (if ch_tx_fc_off c \<and> \<not> ch_tx_fc_off c' then 1 else 0) \<and>
    m_trace m' = m_trace m @
      (if ch_tx_fc_off c' = ch_tx_fc_off c then []
       else [Ioctl_TCXONC (ch_fd c) (if ch_tx_fc_off c' then TCIOFF else TCION)]) \<and>
    m_tx_msc_response_cache m' =
      Some [t AND NOT GSM0710_CR, 0x05, frame_address (unat dlci), signals] \<and>
    (\<forall>j. j \<noteq> unat dlci \<longrightarrow> get_channel m' j = get_channel m j)"
  using msc_command_run [OF assms] .

definition flow_cfg_mux :: mux where
  "flow_cfg_mux = (mux_init no_cfg)\<lparr>m_channels := [zero_channel, zero_channel\<lparr>ch_opened := True, ch_fd := 7\<rparr>]\<rparr>"

lemma flow_cfg_command:
  "GSM0710_COMMAND_IS 0xE3 GSM0710_CONTROL_MSC" "(0xE3 :: u8) AND GSM0710_CR = GSM0710_CR"
  "unat (1 :: u8) < 64"
  "get_channel flow_cfg_mux (unat (1 :: u8)) = Inr (zero_channel\<lparr>ch_opened := True, ch_fd := 7\<rparr>)"
  "ch_opened (zero_channel\<lparr>ch_opened := True, ch_fd := 7\<rparr>)"
  by (simp_all add: GSM0710_COMMAND_IS_def get_channel_def flow_cfg_mux_def)

theorem msc_command_witness:
  "\<exists>m' c'. handle_command \<lparr>f_channel = 0, f_control = 0xEF, f_data = [0xE3, 0x05, frame_address 1, 0x02]\<rparr>
      flow_cfg_mux = Inr m' \<and> get_channel m' 1 = Inr c' \<and> ch_tx_fc_off c'"
proof -
  have "bit (0x02 :: u8) 1" using and_2_eq [of 2] by simp
  then show ?thesis
    using msc_command [OF flow_cfg_command, of "\<lparr>f_channel = 0, f_control = 0xEF, f_data = [0xE3, 0x05, frame_address 1, 0x02]\<rparr>" "0x02"]
    by auto
qed


text \<open>The answer to a modem status command is taken for a string: it holds no zero octet, so the
  answering thread, looking for the end with \<open>strlen\<close>, reads past the block that holds it.\<close>

theorem msc_answer_over_read:
  fixes dlci :: u8
  assumes "GSM0710_COMMAND_IS t GSM0710_CONTROL_MSC" and "t AND GSM0710_CR = GSM0710_CR"
    and "unat dlci < 64" and "get_channel m (unat dlci) = Inr c" and "ch_opened c"
    and "f_data frame = [t, 0x05, frame_address (unat dlci), signals]" and "bit signals 0"
  shows "\<exists>m'. handle_command frame m = Inr m' \<and> write_tx_msc_response m' = Inl OutOfBounds"
proof -
  from msc_command_run [OF assms(1-6)] obtain m' where
    run: "handle_command frame m = Inr m'" and cache: "m_tx_msc_response_cache m' =
      Some [t AND NOT GSM0710_CR, 0x05, frame_address (unat dlci), signals]" by blast
  have "t AND NOT GSM0710_CR = GSM0710_CONTROL_MSC"
    using assms(1) by (simp add: GSM0710_COMMAND_IS_def)
  moreover have "bit (frame_address (unat dlci)) 0"
    by (simp add: frame_address_def bit_or_iff)
  then have "frame_address (unat dlci) \<noteq> 0" by auto
  moreover have "signals \<noteq> 0" using assms(7) by auto
  ultimately have "write_tx_msc_response m' = Inl OutOfBounds"
    by (simp add: write_tx_msc_response_def cache c_strlen_def)
  with run show ?thesis by blast
qed

theorem msc_answer_over_read_witness:
  "\<exists>m'. handle_command \<lparr>f_channel = 0, f_control = 0xEF, f_data = [0xE3, 0x05, frame_address 1, 0x0F]\<rparr>
      flow_cfg_mux = Inr m' \<and> write_tx_msc_response m' = Inl OutOfBounds"
proof -
  have "bit (0x0F :: u8) 0" using and_1_bit [of "0x0F"] by simp
  then show ?thesis
    using msc_answer_over_read [OF flow_cfg_command, of "\<lparr>f_channel = 0, f_control = 0xEF, f_data = [0xE3, 0x05, frame_address 1, 0x0F]\<rparr>" "0x0F"]
    by simp
qed

text \<open>A command that is not supported is answered by a "not supported" frame that repeats its type
  octets; when no octet of the command ends the type field, the answer is taken from beyond the
  frame (for less than 127 octets).\<close>

theorem unsupported_command:
  assumes "t AND GSM0710_CR = GSM0710_CR"
    and "t AND NOT GSM0710_CR \<notin> {GSM0710_CONTROL_CLD, GSM0710_CONTROL_PSC, GSM0710_CONTROL_TEST,
                                  GSM0710_CONTROL_PN, GSM0710_CONTROL_MSC}"
    and "f_data frame = t # rest"
  shows "(bit t 0 \<longrightarrow> handle_command frame m =
       bindE (rx_thread_write_frame 0 [GSM0710_CONTROL_NSC, 0x03, t] GSM0710_TYPE_UIH m)
         (\<lambda>(_, m'). Inr m')) \<and>
    ((\<forall>x \<in> set (t # rest). \<not> bit x 0) \<and> length rest < 126 \<longrightarrow>
       handle_command frame m = Inl OutOfBounds)"
proof (intro conjI impI)
  assume t: "bit t 0"
  then have "skip_extended (t # rest) 0 = 1"
    using and_1_bit [of t] by (simp add: skip_extended_def)
  moreover have "nsc_response (t # rest) (Suc 0) = Inr [GSM0710_CONTROL_NSC, 0x03, t]"
    by (simp add: nsc_response_def)
  ultimately show "handle_command frame m =
       bindE (rx_thread_write_frame 0 [GSM0710_CONTROL_NSC, 0x03, t] GSM0710_TYPE_UIH m) (\<lambda>(_, m'). Inr m')"
    using assms(1,2) by (simp add: handle_command_def Let_def assms(3))
next
  assume a: "(\<forall>x \<in> set (t # rest). \<not> bit x 0) \<and> length rest < 126"
  then have "takeWhile (\<lambda>x. x AND GSM0710_EA = 0) (t # rest) = t # rest"
    by (simp add: takeWhile_eq_all_conv and_1_bit)
  then have tl: "skip_extended (t # rest) 0 = length rest + 2"
    by (simp add: skip_extended_def)
  have "(length rest + 2) AND 127 = (length rest + 2) mod 2 ^ 7"
    using take_bit_eq_mask [of 7 "length rest + 2"] by (simp add: mask_eq_exp_minus_1 take_bit_eq_mod)
  then have "nsc_response (t # rest) (length rest + 2) = Inl OutOfBounds"
    using a by (simp add: nsc_response_def)
  with tl assms(1,2) show "handle_command frame m = Inl OutOfBounds"
    by (simp add: handle_command_def Let_def assms(3))
qed

theorem unsupported_command_witness:
  "handle_command \<lparr>f_channel = 0, f_control = 0xEF, f_data = [0x12]\<rparr> flow_cfg_mux = Inl OutOfBounds"
proof -
  have "\<not> bit (0x12 :: u8) 0" using and_1_bit [of "0x12"] by simp
  then show ?thesis
    using unsupported_command [of "0x12" "\<lparr>f_channel = 0, f_control = 0xEF, f_data = [0x12]\<rparr>" "[]" flow_cfg_mux]
    by simp
qed

end
