(* ===== verification/Mux_Serial.thy ===== *)
theory Mux_Serial
  imports Mux_Control
begin

text \<open>
  The serial device: searching a reply for a word (\<open>memstr\<close>), the AT commands that take the modem
  into multiplexer mode (\<open>poll_modem_ready\<close>, \<open>chat\<close>, \<open>chatCmux\<close>, \<open>start_muxer\<close>), opening the device
  (\<open>open_serial_device\<close>) and closing it on both kinds of close-down (\<open>close_devices\<close>,
  \<open>shutdown_devices\<close>).  Time is not modelled: a \<open>sleep\<close> is nothing, a timed wait is over at once.
\<close>

section \<open>Reading from the device\<close>

text \<open>
  \<open>read (fd, buf, n)\<close>: the octets, or \<open>None\<close> for -1 with \<open>errno\<close> set.  What does not fit in \<open>n\<close>
  octets stays for the next call.
\<close>

definition sys_read :: "int \<Rightarrow> nat \<Rightarrow> mux \<Rightarrow> bytes option \<times> mux" where
  "sys_read fd n m =
     (if fd < 0 then (None, m\<lparr>m_errno := EBADF\<rparr>)
      else
        (case m_reads m of
           [] \<Rightarrow> (None, m\<lparr>m_errno := EAGAIN\<rparr>)
         | Rd_Data xs # rest \<Rightarrow>
             (Some (take n xs), m\<lparr>m_reads := (if length xs \<le> n then rest else Rd_Data (drop n xs) # rest)\<rparr>)
         | Rd_Err e # rest \<Rightarrow> (None, m\<lparr>m_reads := rest, m_errno := e\<rparr>)
         | Sel_Timeout # rest \<Rightarrow> (None, m\<lparr>m_reads := rest, m_errno := EAGAIN\<rparr>)
         | Sel_Err e # rest \<Rightarrow> (None, m\<lparr>m_reads := rest, m_errno := e\<rparr>)))"

text \<open>\<open>select\<close> for reading on one descriptor: -1, 0 for a timeout, or 1.\<close>

definition sys_select :: "mux \<Rightarrow> int \<times> mux" where
  "sys_select m =
     (case m_reads m of
        [] \<Rightarrow> (0, m)
      | Sel_Timeout # rest \<Rightarrow> (0, m\<lparr>m_reads := rest\<rparr>)
      | Sel_Err e # rest \<Rightarrow> (-1, m\<lparr>m_reads := rest, m_errno := e\<rparr>)
      | _ \<Rightarrow> (1, m))"

fun read_size :: "read_result \<Rightarrow> nat" where
  "read_size (Rd_Data xs) = Suc (length xs)"
| "read_size _ = 1"

definition reads_size :: "mux \<Rightarrow> nat" where
  "reads_size m = sum_list (map read_size (m_reads m))"

section \<open>Searching a reply\<close>

text \<open>\<open>j\<close> is the number of characters of the word that matched so far.\<close>

fun memstr_from :: "bytes \<Rightarrow> nat \<Rightarrow> bytes \<Rightarrow> bool" where
  "memstr_from needle j [] = False"
| "memstr_from needle j (x # xs) =
     (if needle ! j = x then
        (if Suc j = length needle then True else memstr_from needle (Suc j) xs)
      else memstr_from needle 0 xs)"

definition memstr :: "bytes \<Rightarrow> bytes \<Rightarrow> bool" where
  "memstr haystack needle \<longleftrightarrow> needle = [] \<or> memstr_from needle 0 haystack"

definition ascii :: "string \<Rightarrow> bytes" where
  "ascii s = map of_char s"

section \<open>Waiting for a reply\<close>

text \<open>
  One round of the loops that wait for a reply: the \<open>select\<close> was interrupted, the wait is over with
  -1 (timeout or an error of \<open>select\<close> or \<open>read\<close>), or octets came.
\<close>

datatype wait = W_Again | W_Stop | W_Data bytes

definition wait_data :: "mux \<Rightarrow> wait \<times> mux" where
  "wait_data m =
     (case sys_select m of
        (sel, m1) \<Rightarrow>
          if sel < 0 then (if m_errno m1 = EINTR then (W_Again, m1) else (W_Stop, m1))
          else if sel = 0 then (W_Stop, m1)
          else
            (case sys_read (m_serial_fd m1) 1024 m1 of
               (None, m2) \<Rightarrow> (W_Stop, m2)
             | (Some xs, m2) \<Rightarrow> (W_Data xs, m2)))"

definition bootup_store :: "bytes \<Rightarrow> mux \<Rightarrow> (bytes \<times> mux) res" where
  "bootup_store xs m =
     (case m_in_buf_for_bootup m of
        None \<Rightarrow> Inl UseAfterFree
      | Some b \<Rightarrow>
          (case gsm0710_buffer_write b xs of
             (_, b') \<Rightarrow> Inr (take (b_datacount b') (b_data b'), m\<lparr>m_in_buf_for_bootup := Some b'\<rparr>)))"

definition bootup_reset :: "mux \<Rightarrow> mux" where
  "bootup_reset m = m\<lparr>m_in_buf_for_bootup := map_option gsm0710_buffer_reset (m_in_buf_for_bootup m)\<rparr>"

lemma wait_data_decreases:
  assumes "(w, m') = wait_data m" and "w \<noteq> W_Stop"
  shows "reads_size m' < reads_size m"
proof -
  have r: "sys_read fd 1024 n = (Some xs, m') \<Longrightarrow> reads_size m' < reads_size n" for fd xs n
    by (auto simp: sys_read_def reads_size_def split: if_splits list.splits read_result.splits)
  obtain sel m1 where s: "sys_select m = (sel, m1)" by fastforce
  have m1: "reads_size m1 \<le> reads_size m" "sel < 0 \<Longrightarrow> reads_size m1 < reads_size m"
    using s by (auto simp: sys_select_def reads_size_def split: list.splits read_result.splits)
  show ?thesis
    using assms s m1 r [of "m_serial_fd m1" m1]
    by (auto simp: wait_data_def split: if_splits prod.splits option.splits)
qed

lemma bootup_store_reads:
  "bootup_store xs m = Inr (t, m') \<Longrightarrow> reads_size m' = reads_size m"
  by (auto simp: bootup_store_def reads_size_def split: option.splits prod.splits)

lemma bootup_reset_reads [simp]: "reads_size (bootup_reset m) = reads_size m"
  by (simp add: bootup_reset_def reads_size_def)

function poll_modem_loop :: "mux \<Rightarrow> (int \<times> mux) res" where
  "poll_modem_loop m =
     (case wait_data m of
        (W_Again, m1) \<Rightarrow> poll_modem_loop m1
      | (W_Stop, m1) \<Rightarrow> Inr (-1, m1)
      | (W_Data xs, m1) \<Rightarrow>
          bindE (bootup_store xs m1) (\<lambda>(reply, m2).
            if memstr reply (ascii ''+EIND: 128'') then Inr (0, bootup_reset m2)
            else poll_modem_loop m2))"
  by pat_completeness auto
termination
  by (relation "measure reads_size")
    (auto dest!: wait_data_decreases bootup_store_reads)

text \<open>\<open>FD_SET\<close> with a negative descriptor writes before the set.\<close>

definition poll_modem_ready :: "mux \<Rightarrow> (int \<times> mux) res" where
  "poll_modem_ready m = (if m_serial_fd m < 0 then Inl OutOfBounds else poll_modem_loop m)"

function chat_wait :: "mux \<Rightarrow> (int \<times> mux) res" where
  "chat_wait m =
     (case wait_data m of
        (W_Again, m1) \<Rightarrow> chat_wait m1
      | (W_Stop, m1) \<Rightarrow> Inr (-1, m1)
      | (W_Data xs, m1) \<Rightarrow>
          bindE (bootup_store xs m1) (\<lambda>(reply, m2).
            if memstr reply (ascii ''OK'') then Inr (0, bootup_reset m2)
            else if memstr reply (ascii ''ERROR'') then Inr (-1, bootup_reset m2)
            else chat_wait m2))"
  by pat_completeness auto
termination
  by (relation "measure reads_size")
    (auto dest!: wait_data_decreases bootup_store_reads)

text \<open>
  \<open>OK\<close> is looked for in the octets of this \<open>read\<close> only; \<open>checkMuxFlag\<close> decides only whether to
  \<open>sleep (1)\<close> before returning.
\<close>

function chatCmux_wait :: "mux \<Rightarrow> (int \<times> mux) res" where
  "chatCmux_wait m =
     (case wait_data m of
        (W_Again, m1) \<Rightarrow> chatCmux_wait m1
      | (W_Stop, m1) \<Rightarrow> Inr (-1, m1)
      | (W_Data xs, m1) \<Rightarrow>
          bindE (bootup_store xs m1) (\<lambda>(reply, m2).
            if memstr xs (ascii ''OK'') then Inr (0, m2)
            else if memstr reply (ascii ''+CMUX: READY'') then chatCmux_wait (bootup_reset m2)
            else if memstr reply (ascii ''ERROR'') then Inr (-1, m2)
            else chatCmux_wait m2))"
  by pat_completeness auto
termination
  by (relation "measure reads_size")
    (auto dest!: wait_data_decreases bootup_store_reads)

declare poll_modem_loop.simps [simp del] chat_wait.simps [simp del] chatCmux_wait.simps [simp del]

section \<open>Sending a command\<close>

lemma write_retry_progress:
  assumes "write_retry fd buf m = (c, m')" and "0 \<le> c"
  shows "m_writes m' = m_writes m \<and> c = int (length buf) \<and> m_writes m = [] \<or>
    length (m_writes m') < length (m_writes m)"
  using assms
proof (induction fd buf m rule: write_retry.induct)
  case (1 fd buf m)
  obtain c1 m1 where s: "sys_write fd buf m = (c1, m1)" by fastforce
  note run = "1.prems"(1) [unfolded write_retry.simps [of fd buf m] s prod.case]
  show ?case
  proof (cases "c1 < 0 \<and> m_errno m1 = EINTR")
    case True
    with run have "write_retry fd buf m1 = (c, m')" by simp
    from "1.IH" [OF s [symmetric] True this "1.prems"(2)] s True show ?thesis
      by (auto simp: sys_write_def emit_def split: if_splits list.splits call_result.splits)
  next
    case False
    with run s "1.prems"(2) show ?thesis
      by (auto simp: sys_write_def emit_def split: if_splits list.splits call_result.splits)
  qed
qed

lemma write_retry_decreases:
  assumes "(c, m') = write_retry fd buf m" and "\<not> c < 0" and "buf \<noteq> []"
  shows "length (m_writes m') + (length buf - nat c) < length (m_writes m) + length buf"
  using write_retry_progress [OF assms(1) [symmetric]] assms(2,3) by auto

function chat_write :: "bytes \<Rightarrow> mux \<Rightarrow> bool \<times> mux" where
  "chat_write rest m =
     (if rest = [] then (True, m)
      else
        (case write_retry (m_serial_fd m) rest m of
           (wrote, m1) \<Rightarrow>
             if wrote < 0 then (False, m1) else chat_write (drop (nat wrote) rest) m1))"
  by pat_completeness auto
termination
  by (relation "measure (\<lambda>(rest, m). length (m_writes m) + length rest)")
    (auto dest: write_retry_decreases)

function chat_cr :: "mux \<Rightarrow> int \<times> mux" where
  "chat_cr m =
     (case write_retry (m_serial_fd m) [0x0D] m of
        (wrote, m1) \<Rightarrow> if wrote = 0 then chat_cr m1 else (wrote, m1))"
  by pat_completeness auto
termination
  by (relation "measure (\<lambda>m. length (m_writes m))") (auto dest: write_retry_decreases)

declare chat_write.simps [simp del] chat_cr.simps [simp del]

text \<open>The part \<open>chat\<close> and \<open>chatCmux\<close> share: the command, a carriage return, and the reply.\<close>

definition send_command :: "bytes \<Rightarrow> (mux \<Rightarrow> (int \<times> mux) res) \<Rightarrow> (mux \<Rightarrow> (int \<times> mux) res)
    \<Rightarrow> mux \<Rightarrow> (int \<times> mux) res" where
  "send_command cmd failed wait_reply m =
     (case chat_write cmd m of
        (False, m1) \<Rightarrow> failed m1
      | (True, m1) \<Rightarrow>
          (case chat_cr m1 of
             (wrote, m2) \<Rightarrow> if wrote < 0 then Inr (-1, m2) else wait_reply m2))"

definition chat :: "bytes \<Rightarrow> mux \<Rightarrow> (int \<times> mux) res" where
  "chat cmd m =
     send_command cmd
       (\<lambda>m1. if m_errno m1 = ETXTBSY \<or> m_errno m1 = ENODEV then Inl Exit else Inr (-1, m1))
       chat_wait m"

definition chatCmux :: "bytes \<Rightarrow> mux \<Rightarrow> (int \<times> mux) res" where
  "chatCmux cmd m = send_command cmd (\<lambda>m1. Inr (-1, m1)) chatCmux_wait m"

section \<open>Starting multiplexer mode\<close>

text \<open>\<open>%d\<close> and \<open>%04d\<close> of \<open>snprintf\<close> for numbers that are not negative.\<close>

fun decimal :: "nat \<Rightarrow> bytes" where
  "decimal n = (if n < 10 then [48 + word_of_nat n] else decimal (n div 10) @ [48 + word_of_nat (n mod 10)])"

declare decimal.simps [simp del]

definition decimal04 :: "nat \<Rightarrow> bytes" where
  "decimal04 n = (let d = decimal n in replicate (4 - length d) 48 @ d)"

definition cmux_command :: "mux \<Rightarrow> bytes" where
  "cmux_command m =
     (if m_cmux_mode m then ascii ''AT+CMUX=1''
      else ascii ''AT+CMUX='' @ decimal 0 @ ascii '','' @ decimal (m_cmux_subset m) @ ascii '','' @
           decimal (m_cmux_port_speed m) @ ascii '','' @ decimal (m_cmux_N1 m))"

text \<open>\<open>SYSCHECK (f (...))\<close> of a function of the program.\<close>

definition check_call :: "(int \<times> mux) res \<Rightarrow> (mux \<Rightarrow> (int \<times> mux) res) \<Rightarrow> (int \<times> mux) res" where
  "check_call r k = bindE r (\<lambda>(c, m). if c < 0 then Inr (-1, m) else k m)"

definition gsm0710_buffer_destroy_bootup :: "mux \<Rightarrow> mux res" where
  "gsm0710_buffer_destroy_bootup m =
     (case m_in_buf_for_bootup m of
        None \<Rightarrow> Inl UseAfterFree
      | Some _ \<Rightarrow> Inr (m\<lparr>m_in_buf_for_bootup := None\<rparr>))"

definition start_cmux :: "mux \<Rightarrow> (int \<times> mux) res" where
  "start_cmux m =
     check_call (chatCmux (cmux_command m) m) (\<lambda>m1.
     bindE (gsm0710_buffer_destroy_bootup m1) (\<lambda>m2.
       Inr (0, m2\<lparr>m_serial_state := MUX_STATE_MUXING\<rparr>)))"

definition start_muxer :: "mux \<Rightarrow> (int \<times> mux) res" where
  "start_muxer m =
     bindE (poll_modem_ready m) (\<lambda>(_, m1).
     bindE (chat (ascii ''AT'') m1) (\<lambda>(rc, m2).
     check_call (if rc < 0 then chat (ascii ''AT'') m2 else Inr (0, m2)) (\<lambda>m3.
     check_call (chat (ascii ''ATZ'') m3) (\<lambda>m4.
     check_call (chat (ascii ''ATE0'') m4) (\<lambda>m5.
     check_call
       (if m_pin_code m5 \<ge> 0 then chat (ascii ''AT+CPIN='' @ decimal04 (nat (m_pin_code m5))) m5
        else Inr (0, m5)) start_cmux)))))"

section \<open>Opening and closing the device\<close>

fun init_channels :: "nat list \<Rightarrow> mux \<Rightarrow> mux res" where
  "init_channels [] m = Inr m"
| "init_channels (i # is) m = bindE (logical_channel_init i i m) (init_channels is)"

definition get_time :: "mux \<Rightarrow> int \<times> mux" where
  "get_time m = (case m_clock m of [] \<Rightarrow> (0, m) | t # ts \<Rightarrow> (t, m\<lparr>m_clock := ts\<rparr>))"

text \<open>The control socket of the emulator: without its answer the socket is closed again.\<close>

definition qemud_handshake :: "mux \<Rightarrow> mux" where
  "qemud_handshake m =
     (let close_it = (\<lambda>m. emit (Closed (m_serial_fd m)) m\<lparr>m_serial_fd := -1\<rparr>)
      in case sys_write (m_serial_fd m) (ascii ''gsm'') m of
           (wrote, m1) \<Rightarrow>
             if wrote \<noteq> 3 then close_it m1
             else
               (case sys_read (m_serial_fd m1) 2 m1 of
                  (Some answer, m2) \<Rightarrow> if answer = ascii ''OK'' then m2 else close_it m2
                | (None, m2) \<Rightarrow> close_it m2))"

definition device_opened :: "mux \<Rightarrow> (int \<times> mux) res" where
  "device_opened m =
     (case get_time (m\<lparr>m_ping_number := 0\<rparr>) of
        (t, m1) \<Rightarrow> Inr (0, m1\<lparr>m_frame_receive_time := t, m_serial_state := MUX_STATE_INITILIZING\<rparr>))"

definition open_serial_device :: "mux \<Rightarrow> (int \<times> mux) res" where
  "open_serial_device m =
     bindE (init_channels [0..<GSM0710_MAX_CHANNELS (m_cfg m)] m) (\<lambda>m1.
       case sys_open (Some (m_devicename m1)) m1 of
         ((fd, _), m2) \<Rightarrow>
           (let m3 = m2\<lparr>m_serial_fd := fd\<rparr>
            in if fd < 0 then Inr (-1, m3)
               else if m_devicename m3 = ''/dev/socket/qemud'' then device_opened (qemud_handshake m3)
               else syscheck (syscheck device_opened) m3))"

text \<open>Close-down by this side: a DISC for every open channel, or CLD frames in advanced mode.\<close>

fun close_down_channels :: "nat list \<Rightarrow> nat \<Rightarrow> mux \<Rightarrow> (nat \<times> mux) res" where
  "close_down_channels [] sent m = Inr (sent, m)"
| "close_down_channels (i # is) sent m =
     bindE (get_channel m i) (\<lambda>c.
       if ch_fd c \<ge> 0 \<and> ch_opened c then
         (if m_cmux_mode m then
            bindE (write_frame i [] (GSM0710_CONTROL_CLD OR GSM0710_CR) m) (\<lambda>(_, m1).
              close_down_channels is sent m1)
          else
            bindE (write_frame i [] (GSM0710_TYPE_DISC OR GSM0710_PF)
                     (set_channel i (c\<lparr>ch_disc_ua_pending := True\<rparr>) m)) (\<lambda>(_, m1).
              close_down_channels is (Suc sent) m1))
       else close_down_channels is sent m)"

definition close_serial :: "mux \<Rightarrow> (int \<times> mux) res" where
  "close_serial =
     syscheck (\<lambda>m. Inr (0, (emit (Closed (m_serial_fd m)) m)
                            \<lparr>m_serial_fd := -1, m_serial_state := MUX_STATE_OFF\<rparr>))"

definition close_devices :: "mux \<Rightarrow> (int \<times> mux) res" where
  "close_devices m =
     bindE (close_down_channels [1..<GSM0710_MAX_CHANNELS (m_cfg m)] 0
              (m\<lparr>m_close_down_send_disc := True\<rparr>)) (\<lambda>(sent, m1).
       if m_serial_fd m1 \<ge> 0 then
         (let m2 = (if sent > 0 then m1\<lparr>m_close_down_send_disc := False\<rparr> else m1)
          in bindE (if m_cmux_mode m2 then write_frame 0 [] (GSM0710_CONTROL_CLD OR GSM0710_CR) m2
                    else write_frame 0 close_channel_cmd GSM0710_TYPE_UIH m2) (\<lambda>(_, m3).
               close_serial m3))
       else Inr (0, m1\<lparr>m_serial_state := MUX_STATE_OFF\<rparr>))"

fun close_opened_channels :: "nat list \<Rightarrow> mux \<Rightarrow> mux res" where
  "close_opened_channels [] m = Inr m"
| "close_opened_channels (i # is) m =
     bindE (get_channel m i) (\<lambda>c.
     bindE (if ch_fd c \<ge> 0 \<and> ch_opened c then logical_channel_close i m else Inr m)
       (close_opened_channels is))"

text \<open>The answer to a close-down command is the command with its C/R bit cleared.\<close>

definition shutdown_devices :: "shutdown_dev_type \<Rightarrow> mux \<Rightarrow> (int \<times> mux) res" where
  "shutdown_devices shutdown_type m =
     bindE (close_opened_channels [1..<GSM0710_MAX_CHANNELS (m_cfg m)] m) (\<lambda>m1.
       if m_serial_fd m1 \<ge> 0 then
         bindE (if shutdown_type = SHUTDOWN_DEV_WO_ACTIVE_FINALIZED
                then write_frame 0 [close_channel_cmd ! 0 AND NOT GSM0710_CR, close_channel_cmd ! 1]
                       GSM0710_TYPE_UIH m1
                else Inr (0, m1)) (\<lambda>(_, m2). close_serial m2)
       else Inr (0, m1\<lparr>m_serial_state := MUX_STATE_OFF\<rparr>))"

section \<open>Signals\<close>

definition SIGHUP :: int where "SIGHUP = 1"
definition SIGINT :: int where "SIGINT = 2"
definition SIGUSR1 :: int where "SIGUSR1 = 10"
definition SIGUSR2 :: int where "SIGUSR2 = 12"
definition SIGPIPE :: int where "SIGPIPE = 13"
definition SIGTERM :: int where "SIGTERM = 15"

definition set_main_exit_signal :: "int \<Rightarrow> mux \<Rightarrow> mux" where
  "set_main_exit_signal signal m =
     (if m_main_exit_signal m = SIGTERM \<and> signal = SIGUSR2 then m
      else m\<lparr>m_main_exit_signal := signal\<rparr>)"

definition signal_treatment :: "int \<Rightarrow> mux \<Rightarrow> mux res" where
  "signal_treatment param m =
     (if param = SIGPIPE then Inl Exit
      else if param = SIGHUP then Inr m
      else if param = SIGINT \<or> param = SIGTERM then Inr (set_main_exit_signal param m)
      else if param = SIGUSR1 then Inr (set_main_exit_signal 1 m)
      else if param = SIGUSR2 then
        (if \<not> m_stop_muxd m then
           bindE (shutdown_devices SHUTDOWN_DEV_W_ACTIVE_FINALIZED (m\<lparr>m_stop_muxd := True\<rparr>))
             (\<lambda>(_, m1). Inr m1)
         else Inr m)
      else
        bindE (if \<not> m_stop_muxd m
               then shutdown_devices SHUTDOWN_DEV_W_ACTIVE_FINALIZED (m\<lparr>m_stop_muxd := True\<rparr>)
               else Inr (0, m)) (\<lambda>_. Inl Exit))"

section \<open>Properties\<close>

lemma memstr_from_sound:
  "memstr_from n j h \<Longrightarrow> j < length n \<Longrightarrow> \<exists>p s. take j n @ h = p @ n @ s"
proof (induction n j h rule: memstr_from.induct)
  case (1 n j)
  then show ?case by simp
next
  case (2 n j x xs)
  show ?case
  proof (cases "n ! j = x")
    case x: True
    have t: "take j n @ x # xs = take (Suc j) n @ xs"
      using 2(4) x by (simp add: take_Suc_conv_app_nth)
    show ?thesis
    proof (cases "Suc j = length n")
      case True
      then have "take j n @ x # xs = [] @ n @ xs" using t by simp
      then show ?thesis by blast
    next
      case False
      with 2(3,4) x have "memstr_from n (Suc j) xs" "Suc j < length n" by simp_all
      from 2(1) [OF x False this] show ?thesis by (simp only: t)
    qed
  next
    case False
    with 2(3,4) have "memstr_from n 0 xs" "0 < length n" by auto
    from 2(2) [OF False this] obtain p s where "xs = p @ n @ s" by auto
    then have "take j n @ x # xs = (take j n @ x # p) @ n @ s" by simp
    then show ?thesis by blast
  qed
qed

lemma memstr_from_match:
  "j < length n \<Longrightarrow> memstr_from n j (drop j n @ s)"
proof (induction "length n - j" arbitrary: j)
  case (Suc k)
  then have d: "drop j n = n ! j # drop (Suc j) n" by (simp add: Cons_nth_drop_Suc)
  show ?case
  proof (cases "Suc j = length n")
    case False
    with Suc show ?thesis by (simp add: d)
  qed (simp add: d)
qed simp

lemma memstr_from_skip:
  "n \<noteq> [] \<Longrightarrow> hd n \<notin> set p \<Longrightarrow> memstr_from n 0 (p @ h) = memstr_from n 0 h"
  by (induction p) (auto simp: hd_conv_nth)

text \<open>\<open>memstr\<close> never reports a word the reply does not hold, and finds one whose first character does
  not occur before it; but it does not start again inside a failed match, so a reply like
  \<open>OOK\<close> is not recognised.\<close>

theorem memstr_finds:
  "(memstr h n \<longrightarrow> (\<exists>p s. h = p @ n @ s)) \<and>
   (n \<noteq> [] \<and> hd n \<notin> set p \<longrightarrow> memstr (p @ n @ s) n) \<and>
   \<not> memstr (ascii ''OOK'') (ascii ''OK'')"
proof (intro conjI impI)
  assume "memstr h n"
  then show "\<exists>p s. h = p @ n @ s"
    using memstr_from_sound [of n 0 h] by (cases "n = []") (auto simp: memstr_def)
next
  assume "n \<noteq> [] \<and> hd n \<notin> set p"
  then show "memstr (p @ n @ s) n"
    using memstr_from_match [of 0 n s] by (simp add: memstr_def memstr_from_skip)
next
  show "\<not> memstr (ascii ''OOK'') (ascii ''OK'')"
    by (simp add: memstr_def ascii_def)
qed

theorem memstr_finds_witness:
  "memstr (ascii ''AT'' @ ascii ''OK'' @ []) (ascii ''OK'')"
  using memstr_finds [of "[]" "ascii ''OK''" "ascii ''AT''" "[]"] by (simp add: ascii_def)

definition boot_empty :: "gsm_buffer \<Rightarrow> bool" where
  "boot_empty b \<longleftrightarrow> length (b_data b) = GSM0710_BUFFER_SIZE \<and> b_writep b = 0 \<and> b_datacount b = 0"

lemma boot_empty_reset: "boot_empty (gsm0710_buffer_reset b)"
  by (simp add: boot_empty_def gsm0710_buffer_reset_def)

lemma bootup_store_empty:
  assumes "m_in_buf_for_bootup m = Some b" and "boot_empty b" and "length xs \<le> 1024"
  shows "\<exists>b'. bootup_store xs m = Inr (xs, m\<lparr>m_in_buf_for_bootup := Some b'\<rparr>)"
  using assms
  by (auto simp: bootup_store_def gsm0710_buffer_write_def boot_empty_def gsm0710_buffer_free_def
      GSM0710_BUFFER_SIZE_def Let_def blit_def split: option.split)

lemma wait_data_ready:
  assumes "m_reads m = Rd_Data xs # rest" and "length xs \<le> 1024" and "0 \<le> m_serial_fd m"
  shows "wait_data m = (W_Data xs, m\<lparr>m_reads := rest\<rparr>)"
  using assms by (simp add: wait_data_def sys_select_def sys_read_def)

text \<open>The modem answers each command with one reply that says OK.\<close>

definition ok_reply :: "read_result \<Rightarrow> bool" where
  "ok_reply r = (case r of Rd_Data xs \<Rightarrow> length xs \<le> 1024 \<and> memstr xs (ascii ''OK'') | _ \<Rightarrow> False)"

definition sent :: "bytes \<Rightarrow> mux \<Rightarrow> mux" where
  "sent cmd m = emit (Wrote (m_serial_fd m) [0x0D]) (emit (Wrote (m_serial_fd m) cmd) m)"

lemma send_command_ok:
  assumes "writes_ok m" and "0 \<le> m_serial_fd m" and "cmd \<noteq> []"
  shows "send_command cmd f w m = w (sent cmd m)"
proof -
  have w: "write_retry (m_serial_fd m) xs m' = (int (length xs), emit (Wrote (m_serial_fd m) xs) m')"
    if "writes_ok m'" for xs m' using write_retry_ok [OF that assms(2)] .
  have "chat_write cmd m = (True, emit (Wrote (m_serial_fd m) cmd) m)"
    using assms by (simp add: chat_write.simps w)
  moreover have "chat_cr m' = (1, emit (Wrote (m_serial_fd m) [0x0D]) m')"
    if "writes_ok m'" "m_serial_fd m' = m_serial_fd m" for m'
    using w [OF that(1), of "[0x0D]"] that(2) by (simp add: chat_cr.simps)
  ultimately show ?thesis
    using assms(1) by (simp add: send_command_def sent_def writes_ok_def)
qed

lemma chat_ok:
  assumes "writes_ok m" and "0 \<le> m_serial_fd m" and "cmd \<noteq> []"
    and "m_in_buf_for_bootup m = Some b" and "boot_empty b"
    and "m_reads m = r # rest" and "ok_reply r"
  shows "\<exists>b'. boot_empty b' \<and>
    chat cmd m = Inr (0, (sent cmd m)\<lparr>m_reads := rest, m_in_buf_for_bootup := Some b'\<rparr>)"
proof -
  obtain xs where xs: "r = Rd_Data xs" "length xs \<le> 1024" "memstr xs (ascii ''OK'')"
    using assms(7) by (auto simp: ok_reply_def split: read_result.splits)
  have w: "wait_data (sent cmd m) = (W_Data xs, (sent cmd m)\<lparr>m_reads := rest\<rparr>)"
    using wait_data_ready [of "sent cmd m" xs rest] xs assms(2,6) by (simp add: sent_def emit_def)
  from bootup_store_empty [of "(sent cmd m)\<lparr>m_reads := rest\<rparr>" b xs] assms(4,5) xs(2)
  obtain b' where st: "bootup_store xs ((sent cmd m)\<lparr>m_reads := rest\<rparr>) =
      Inr (xs, (sent cmd m)\<lparr>m_reads := rest, m_in_buf_for_bootup := Some b'\<rparr>)"
    by (auto simp: sent_def emit_def)
  have "chat cmd m = Inr (0, (sent cmd m)\<lparr>m_reads := rest,
      m_in_buf_for_bootup := Some (gsm0710_buffer_reset b')\<rparr>)"
    using send_command_ok [OF assms(1-3)] w st xs(3)
    by (simp add: chat_def chat_wait.simps [of "sent cmd m"] bootup_reset_def)
  with boot_empty_reset show ?thesis by blast
qed


lemma chatCmux_ok:
  assumes "writes_ok m" and "0 \<le> m_serial_fd m" and "cmd \<noteq> []"
    and "m_in_buf_for_bootup m = Some b" and "boot_empty b"
    and "m_reads m = r # rest" and "ok_reply r"
  shows "\<exists>b'. chatCmux cmd m = Inr (0, (sent cmd m)\<lparr>m_reads := rest, m_in_buf_for_bootup := Some b'\<rparr>)"
proof -
  obtain xs where xs: "r = Rd_Data xs" "length xs \<le> 1024" "memstr xs (ascii ''OK'')"
    using assms(7) by (auto simp: ok_reply_def split: read_result.splits)
  have w: "wait_data (sent cmd m) = (W_Data xs, (sent cmd m)\<lparr>m_reads := rest\<rparr>)"
    using wait_data_ready [of "sent cmd m" xs rest] xs assms(2,6) by (simp add: sent_def emit_def)
  from bootup_store_empty [of "(sent cmd m)\<lparr>m_reads := rest\<rparr>" b xs] assms(4,5) xs(2)
  obtain b' where st: "bootup_store xs ((sent cmd m)\<lparr>m_reads := rest\<rparr>) =
      Inr (xs, (sent cmd m)\<lparr>m_reads := rest, m_in_buf_for_bootup := Some b'\<rparr>)"
    by (auto simp: sent_def emit_def)
  have "chatCmux cmd m = Inr (0, (sent cmd m)\<lparr>m_reads := rest, m_in_buf_for_bootup := Some b'\<rparr>)"
    using send_command_ok [OF assms(1-3)] w st xs(3)
    by (simp add: chatCmux_def chatCmux_wait.simps [of "sent cmd m"])
  then show ?thesis by blast
qed

lemma poll_ok:
  assumes "0 \<le> m_serial_fd m" and "m_in_buf_for_bootup m = Some b" and "boot_empty b"
    and "m_reads m = Rd_Data xs # rest" and "length xs \<le> 1024" and "memstr xs (ascii ''+EIND: 128'')"
  shows "\<exists>b'. boot_empty b' \<and>
    poll_modem_ready m = Inr (0, m\<lparr>m_reads := rest, m_in_buf_for_bootup := Some b'\<rparr>)"
proof -
  have w: "wait_data m = (W_Data xs, m\<lparr>m_reads := rest\<rparr>)"
    using wait_data_ready [of m xs rest] assms by simp
  from bootup_store_empty [of "m\<lparr>m_reads := rest\<rparr>" b xs] assms(2,3,5)
  obtain b' where st: "bootup_store xs (m\<lparr>m_reads := rest\<rparr>) =
      Inr (xs, m\<lparr>m_reads := rest, m_in_buf_for_bootup := Some b'\<rparr>)" by auto
  have "poll_modem_ready m = Inr (0, m\<lparr>m_reads := rest,
      m_in_buf_for_bootup := Some (gsm0710_buffer_reset b')\<rparr>)"
    using w st assms(1,6)
    by (simp add: poll_modem_ready_def poll_modem_loop.simps [of m] bootup_reset_def)
  with boot_empty_reset show ?thesis by blast
qed

text \<open>A state that differs from another in what it reads, keeps of the replies and sent only.\<close>

definition talked :: "mux \<Rightarrow> read_result list \<Rightarrow> bytes \<Rightarrow> mux \<Rightarrow> bool" where
  "talked m rest out m' \<longleftrightarrow> writes_ok m' \<and> m_serial_fd m' = m_serial_fd m \<and>
     m_reads m' = rest \<and> (\<exists>b. m_in_buf_for_bootup m' = Some b \<and> boot_empty b) \<and>
     m_pin_code m' = m_pin_code m \<and> cmux_command m' = cmux_command m \<and>
     written_to (m_serial_fd m) (m_trace m') = written_to (m_serial_fd m) (m_trace m) @ out"

lemma chat_talked:
  assumes "talked m (r # rest) out m1" and "0 \<le> m_serial_fd m" and "cmd \<noteq> []" and "ok_reply r"
  shows "\<exists>m2. chat cmd m1 = Inr (0, m2) \<and> talked m rest (out @ cmd @ [0x0D]) m2"
proof -
  obtain b where b: "m_in_buf_for_bootup m1 = Some b" "boot_empty b"
    using assms(1) by (auto simp: talked_def)
  from chat_ok [of m1 cmd b r rest] assms b obtain b' where
    "boot_empty b'" "chat cmd m1 = Inr (0, (sent cmd m1)\<lparr>m_reads := rest, m_in_buf_for_bootup := Some b'\<rparr>)"
    by (auto simp: talked_def)
  with assms(1) show ?thesis
    by (auto simp: talked_def sent_def emit_def writes_ok_def cmux_command_def)
qed

lemma cmux_command_not_Nil: "cmux_command m \<noteq> []"
  by (simp add: cmux_command_def ascii_def)

lemma start_muxer_run:
  assumes "writes_ok m" and "0 \<le> m_serial_fd m" and "m_pin_code m < 0"
    and "m_in_buf_for_bootup m = Some b" and "boot_empty b"
    and "m_reads m = Rd_Data xs # r1 # r2 # r3 # r4 # rest"
    and "length xs \<le> 1024" and "memstr xs (ascii ''+EIND: 128'')"
    and "list_all ok_reply [r1, r2, r3, r4]"
  shows "\<exists>m'. start_muxer m = Inr (0, m') \<and> m_serial_state m' = MUX_STATE_MUXING \<and>
    m_in_buf_for_bootup m' = None \<and> m_reads m' = rest \<and>
    written_to (m_serial_fd m) (m_trace m') = written_to (m_serial_fd m) (m_trace m) @
      ascii ''AT'' @ [0x0D] @ ascii ''ATZ'' @ [0x0D] @ ascii ''ATE0'' @ [0x0D] @
      cmux_command m @ [0x0D]"
proof -
  from poll_ok [OF assms(2,4-8)] obtain b1 where b1: "boot_empty b1"
    and poll: "poll_modem_ready m = Inr (0, m\<lparr>m_reads := r1 # r2 # r3 # r4 # rest,
      m_in_buf_for_bootup := Some b1\<rparr>)" (is "_ = Inr (0, ?m1)") by blast
  have t1: "talked m (r1 # r2 # r3 # r4 # rest) [] ?m1"
    using assms(1) b1 by (simp add: talked_def writes_ok_def cmux_command_def)
  have ok: "ok_reply r1" "ok_reply r2" "ok_reply r3" "ok_reply r4" using assms(9) by simp_all
  have ne: "ascii ''AT'' \<noteq> []" "ascii ''ATZ'' \<noteq> []" "ascii ''ATE0'' \<noteq> []"
    by (simp_all add: ascii_def)
  from chat_talked [OF t1 assms(2) ne(1) ok(1)] obtain m2 where
    c2: "chat (ascii ''AT'') ?m1 = Inr (0, m2)" and t2: "talked m (r2 # r3 # r4 # rest) ([] @ ascii ''AT'' @ [0x0D]) m2"
    by blast
  from chat_talked [OF t2 assms(2) ne(2) ok(2)] obtain m3 where
    c3: "chat (ascii ''ATZ'') m2 = Inr (0, m3)" and t3: "talked m (r3 # r4 # rest) (([] @ ascii ''AT'' @ [0x0D]) @ ascii ''ATZ'' @ [0x0D]) m3"
    by blast
  from chat_talked [OF t3 assms(2) ne(3) ok(3)] obtain m4 where
    c4: "chat (ascii ''ATE0'') m3 = Inr (0, m4)" and t4: "talked m (r4 # rest)
      ((([] @ ascii ''AT'' @ [0x0D]) @ ascii ''ATZ'' @ [0x0D]) @ ascii ''ATE0'' @ [0x0D]) m4"
    by blast
  obtain b4 where b4: "m_in_buf_for_bootup m4 = Some b4" "boot_empty b4"
    using t4 by (auto simp: talked_def)
  from chatCmux_ok [OF _ _ cmux_command_not_Nil b4, of r4 rest m] t4 assms(2) ok(4) obtain b5 where
    c5: "chatCmux (cmux_command m) m4 = Inr (0, (sent (cmux_command m) m4)
           \<lparr>m_reads := rest, m_in_buf_for_bootup := Some b5\<rparr>)" by (auto simp: talked_def)
  have "start_muxer m = start_cmux m4"
    using poll c2 c3 c4 t4 assms(3)
    by (simp add: start_muxer_def check_call_def talked_def)
  also have "\<dots> = Inr (0, (sent (cmux_command m) m4)\<lparr>m_reads := rest, m_in_buf_for_bootup := None,
      m_serial_state := MUX_STATE_MUXING\<rparr>)"
    using c5 t4 by (simp add: start_cmux_def check_call_def gsm0710_buffer_destroy_bootup_def talked_def)
  finally show ?thesis using t4 by (simp add: talked_def sent_def emit_def)
qed

text \<open>With a modem that reports it is up and answers every command with OK, and no PIN code,
  \<open>start_muxer\<close> sends AT, ATZ, ATE0 and the AT+CMUX command for the configured mode, each
  followed by a carriage return, and nothing else, and leaves the daemon in the multiplexing state.\<close>

theorem start_muxer_ok:
  assumes "writes_ok m" and "0 \<le> m_serial_fd m" and "m_pin_code m < 0"
    and "m_in_buf_for_bootup m = Some b" and "boot_empty b"
    and "m_reads m = Rd_Data xs # r1 # r2 # r3 # r4 # rest"
    and "length xs \<le> 1024" and "memstr xs (ascii ''+EIND: 128'')"
    and "list_all ok_reply [r1, r2, r3, r4]"
  shows "\<exists>m'. start_muxer m = Inr (0, m') \<and> m_serial_state m' = MUX_STATE_MUXING \<and>
    m_in_buf_for_bootup m' = None \<and> m_reads m' = rest \<and>
    written_to (m_serial_fd m) (m_trace m') = written_to (m_serial_fd m) (m_trace m) @
      ascii ''AT'' @ [0x0D] @ ascii ''ATZ'' @ [0x0D] @ ascii ''ATE0'' @ [0x0D] @
      cmux_command m @ [0x0D]"
  using start_muxer_run [OF assms] .

definition boot_up :: mux where
  "boot_up = (mux_init no_cfg)\<lparr>m_serial_fd := 5, m_cmux_mode := False, m_cmux_N1 := 512,
     m_reads := Rd_Data (ascii ''+EIND: 128'') # replicate 4 (Rd_Data (ascii ''OK''))\<rparr>"

theorem start_muxer_ok_witness:
  "\<exists>m'. start_muxer boot_up = Inr (0, m') \<and> written_to 5 (m_trace m') =
     ascii ''AT'' @ [0x0D] @ ascii ''ATZ'' @ [0x0D] @ ascii ''ATE0'' @ [0x0D] @
     ascii ''AT+CMUX=0,0,5,512'' @ [0x0D]"
proof -
  have mem: "memstr (ascii ''+EIND: 128'') (ascii ''+EIND: 128'')" "memstr (ascii ''OK'') (ascii ''OK'')"
    by (simp_all add: memstr_def ascii_def)
  have ok: "ok_reply (Rd_Data (ascii ''OK''))" using mem by (simp add: ok_reply_def ascii_def)
  have cmd: "cmux_command boot_up = ascii ''AT+CMUX=0,0,5,512''"
    by (simp add: cmux_command_def boot_up_def mux_init_def ascii_def decimal.simps)
  have "writes_ok boot_up" "0 \<le> m_serial_fd boot_up" "m_pin_code boot_up < 0"
      "m_in_buf_for_bootup boot_up = Some gsm0710_buffer_init"
      "m_reads boot_up = Rd_Data (ascii ''+EIND: 128'') # Rd_Data (ascii ''OK'') # Rd_Data (ascii ''OK'') #
         Rd_Data (ascii ''OK'') # Rd_Data (ascii ''OK'') # []"
      "m_serial_fd boot_up = 5" "m_trace boot_up = []"
    by (simp_all add: boot_up_def writes_ok_def mux_init_def numeral_eq_Suc)
  moreover have "boot_empty gsm0710_buffer_init"
    by (simp add: boot_empty_def gsm0710_buffer_init_def)
  moreover have "length (ascii ''+EIND: 128'') \<le> 1024" by (simp add: ascii_def)
  ultimately show ?thesis
    using start_muxer_ok [of boot_up gsm0710_buffer_init _ "Rd_Data (ascii ''OK'')" "Rd_Data (ascii ''OK'')"
        "Rd_Data (ascii ''OK'')" "Rd_Data (ascii ''OK'')" "[]"] mem(1) ok
    by (auto simp: cmd)
qed

end
