(* ===== verification/Mux_Watchdog.thy ===== *)
theory Mux_Watchdog
  imports Mux_Serial
begin

text \<open>
  \<open>watchdog\<close>, the state machine of the daemon: it opens the device, starts multiplexing, opens the
  control channel and the virtual ports, reopens terminals, pings the modem, and closes down.  While
  it waits for the channels to be answered the other threads run; what they do until the signal
  comes is the argument \<open>others\<close>.
\<close>

section \<open>Starting\<close>

definition start_threads :: "mux \<Rightarrow> mux res" where
  "start_threads m =
     bindE (create_thread Assemble_Frames m) (\<lambda>m1.
     bindE (create_thread Poll_Serial m1) (create_thread Tx_Msc_Response))"

definition init_control_channel :: "mux \<Rightarrow> mux res" where
  "init_control_channel m =
     bindE (upd_channel 0 (\<lambda>c. c\<lparr>ch_sabm_ua_pending := True\<rparr>) m) (\<lambda>m1.
     bindE (write_frame 0 [] (GSM0710_TYPE_SABM OR GSM0710_PF) m1) (\<lambda>(_, m2). Inr m2))"

fun alloc_channels :: "nat \<Rightarrow> mux \<Rightarrow> (int \<times> mux) res" where
  "alloc_channels 0 m = Inr (0, m)"
| "alloc_channels (Suc n) m =
     bindE (c_alloc_channel m) (\<lambda>(rc, m1).
       if rc > 0 then Inr (rc, m1) else alloc_channels n m1)"

definition start_rild :: "mux \<Rightarrow> mux" where
  "start_rild m =
     (if m_rild_started m = 0 then
        emit Set_Uid
          (emit (Property_Set ''ril.mtk'' ''1'')
             (emit (Property_Set ''ctl.stop'' ''ril-daemon'') (m\<lparr>m_rild_started := 1\<rparr>)))
      else m)"

definition watchdog_initilizing :: "(mux \<Rightarrow> mux res) \<Rightarrow> mux \<Rightarrow> (int \<times> mux) res" where
  "watchdog_initilizing others m =
     bindE (start_muxer m) (\<lambda>(rc, m1).
       if rc < 0 then Inl (Assert (err_num GSM0710MUXD_START_MUXER_ERR))
       else
         bindE (start_threads m1) (\<lambda>m2.
         bindE (init_control_channel m2) (\<lambda>m3.
         bindE (alloc_channels (m_vir_ports m3) m3) (\<lambda>(rc, m4).
           if rc > 0 then Inr (rc, m4)
           else
             bindE (if \<not> m_mux_setup_chnl_complete m4 then others m4 else Inr m4) (\<lambda>m5.
               Inr (0, start_rild m5))))))"

definition watchdog_opening :: "(mux \<Rightarrow> mux res) \<Rightarrow> mux \<Rightarrow> (int \<times> mux) res" where
  "watchdog_opening others m =
     bindE (open_serial_device m) (\<lambda>(rc, m1).
       if rc \<noteq> 0 then Inr (int (err_num GSM0710MUXD_OPEN_SERIAL_DEV_ERR), m1)
       else watchdog_initilizing others m1)"

section \<open>Multiplexing\<close>

text \<open>The result is whether every terminal to be reopened could be set up again.\<close>

fun reopen_channels :: "nat list \<Rightarrow> mux \<Rightarrow> (bool \<times> mux) res" where
  "reopen_channels [] m = Inr (True, m)"
| "reopen_channels (i # is) m =
     bindE (get_channel m i) (\<lambda>c.
       if ch_reopen c then
         bindE (setup_pty_interface i m) (\<lambda>(rc, m1).
           if rc \<noteq> 0 then bindE (reopen_channels is m1) (\<lambda>(_, m2). Inr (False, m2))
           else bindE (upd_channel i (\<lambda>c. c\<lparr>ch_reopen := False\<rparr>) m1) (reopen_channels is))
       else reopen_channels is m)"

definition ping_modem :: "mux \<Rightarrow> mux res" where
  "ping_modem m =
     (if m_use_ping m \<noteq> 0 then
        (if m_ping_number m > m_use_ping m then Inr (m\<lparr>m_serial_state := MUX_STATE_CLOSING\<rparr>)
         else
           bindE (write_frame 0 test_channel_cmd GSM0710_TYPE_UI m) (\<lambda>(_, m1).
             Inr (m1\<lparr>m_ping_number := m_ping_number m1 + 1\<rparr>)))
      else Inr m)"

definition check_silence :: "mux \<Rightarrow> mux" where
  "check_silence m =
     (if m_use_timeout m \<noteq> 0 then
        (case get_time m of
           (current_time, m1) \<Rightarrow>
             if current_time - m_frame_receive_time m1 > m_use_timeout m1
             then m1\<lparr>m_serial_state := MUX_STATE_CLOSING\<rparr> else m1)
      else m)"

text \<open>
  The loop that looks for a channel to reopen compares instead of testing,
  \<open>channellist[i].reopen == 1;\<close>, and stops at the first channel: \<open>pts_reopen\<close> is always set.
\<close>

definition watchdog_muxing :: "mux \<Rightarrow> (int \<times> mux) res" where
  "watchdog_muxing m =
     bindE (reopen_channels [1..<GSM0710_MAX_CHANNELS (m_cfg m)] (m\<lparr>m_pts_reopen := True\<rparr>)) (\<lambda>(ok, m1).
       if \<not> ok then Inl (Assert (err_num GSM0710MUXD_RESTART_PTY_ERR))
       else bindE (ping_modem m1) (\<lambda>m2. Inr (0, check_silence m2)))"

section \<open>All states\<close>

definition watchdog_close :: "(mux \<Rightarrow> (int \<times> mux) res) \<Rightarrow> mux \<Rightarrow> (int \<times> mux) res" where
  "watchdog_close close m =
     bindE (close m) (\<lambda>(_, m1). Inr (0, m1\<lparr>m_serial_state := MUX_STATE_OPENING\<rparr>))"

definition watchdog :: "(mux \<Rightarrow> mux res) \<Rightarrow> mux \<Rightarrow> (int \<times> mux) res" where
  "watchdog others m =
     (case m_serial_state m of
        MUX_STATE_OPENING \<Rightarrow> watchdog_opening others m
      | MUX_STATE_INITILIZING \<Rightarrow> watchdog_initilizing others m
      | MUX_STATE_MUXING \<Rightarrow> watchdog_muxing m
      | MUX_STATE_CLOSING \<Rightarrow> watchdog_close close_devices m
      | MUX_STATE_PEER_CLOSING \<Rightarrow>
          watchdog_close (shutdown_devices SHUTDOWN_DEV_WO_ACTIVE_FINALIZED) m
      | _ \<Rightarrow> Inr (0, m))"

section \<open>Close-down by this side\<close>

definition disc_frame :: "nat \<Rightarrow> gsm_frame" where
  "disc_frame i = \<lparr>f_channel = word_of_nat i, f_control = GSM0710_TYPE_DISC OR GSM0710_PF, f_data = []\<rparr>"

definition is_opened :: "mux \<Rightarrow> nat \<Rightarrow> bool" where
  "is_opened m i \<longleftrightarrow> (case get_channel m i of Inr c \<Rightarrow> ch_fd c \<ge> 0 \<and> ch_opened c | Inl _ \<Rightarrow> False)"

lemma same_but_trace_more:
  assumes "same_but_trace m m'"
  shows "m_syscalls m' = m_syscalls m" "m_serial_state m' = m_serial_state m" "m_cfg m' = m_cfg m"
    "m_ping_number m' = m_ping_number m" "m_use_ping m' = m_use_ping m" "m_use_timeout m' = m_use_timeout m"
proof -
  obtain t v where m': "m' = m\<lparr>m_trace := t, m_uih_pf_bit_received := v\<rparr>"
    using assms unfolding same_but_trace_def by blast
  show "m_syscalls m' = m_syscalls m" "m_serial_state m' = m_serial_state m" "m_cfg m' = m_cfg m"
    "m_ping_number m' = m_ping_number m" "m_use_ping m' = m_use_ping m" "m_use_timeout m' = m_use_timeout m"
    unfolding m' by simp_all
qed

lemma write_frame_disc:
  assumes "line_up m" and "\<not> m_cmux_mode m" and "i < length (m_channels m)" and "i < 64"
  shows "\<exists>n m' es. write_frame i [] (GSM0710_TYPE_DISC OR GSM0710_PF) m = Inr (n, m') \<and>
    same_but_trace m m' \<and> m_trace m' = m_trace m @ es \<and>
    written_to (m_serial_fd m) es = basic_encode (disc_frame i)"
proof -
  from assms(3) obtain c where g: "get_channel m i = Inr c" by (simp add: get_channel_def)
  have t: "GSM0710_TYPE_DISC OR GSM0710_PF \<noteq> GSM0710_TYPE_UIH \<and> GSM0710_TYPE_DISC OR GSM0710_PF \<noteq> GSM0710_TYPE_UI"
    by simp
  have pf: "(GSM0710_TYPE_DISC OR GSM0710_PF) OR GSM0710_PF = GSM0710_TYPE_DISC OR GSM0710_PF" by simp
  from write_frame_ok [OF assms(1,2) g assms(4), of "[]" "GSM0710_TYPE_DISC OR GSM0710_PF"] t pf
  show ?thesis by (auto simp: Let_def disc_frame_def)
qed

lemma close_down_channels_ok:
  assumes "line_up m" and "\<not> m_cmux_mode m" and "\<forall>i \<in> set is. i < length (m_channels m) \<and> i < 64"
  shows "\<exists>m' es. close_down_channels is n m = Inr (n + length (filter (is_opened m) is), m') \<and>
    line_up m' \<and> \<not> m_cmux_mode m' \<and> m_serial_fd m' = m_serial_fd m \<and>
    m_syscalls m' = m_syscalls m \<and> m_trace m' = m_trace m @ es \<and>
    written_to (m_serial_fd m) es = concat (map (basic_encode \<circ> disc_frame) (filter (is_opened m) is)) \<and>
    (\<forall>j c. get_channel m j = Inr c \<longrightarrow> get_channel m' j =
       Inr (if j \<in> set is \<and> is_opened m j then c\<lparr>ch_disc_ua_pending := True\<rparr> else c))"
  using assms
proof (induction "is" arbitrary: n m)
  case Nil
  then show ?case by (intro exI [of _ m] exI [of _ "[]"]) simp
next
  case (Cons i "is")
  then have i: "i < length (m_channels m)" "i < 64" by simp_all
  then obtain c where g: "get_channel m i = Inr c" by (simp add: get_channel_def)
  show ?case
  proof (cases "is_opened m i")
    case False
    with g have "\<not> (ch_fd c \<ge> 0 \<and> ch_opened c)" by (simp add: is_opened_def)
    then have run: "close_down_channels (i # is) n m = close_down_channels is n m"
      by (simp only: close_down_channels.simps g bindE.simps if_False)
    have "\<forall>i \<in> set is. i < length (m_channels m) \<and> i < 64" using Cons.prems(3) by simp
    from Cons.IH [OF Cons.prems(1,2) this, of n] obtain m' es where
      ih: "close_down_channels is n m = Inr (n + length (filter (is_opened m) is), m')"
        "line_up m'" "\<not> m_cmux_mode m'" "m_serial_fd m' = m_serial_fd m" "m_syscalls m' = m_syscalls m" "m_trace m' = m_trace m @ es"
        "written_to (m_serial_fd m) es = concat (map (basic_encode \<circ> disc_frame) (filter (is_opened m) is))"
      and gs: "\<forall>j c. get_channel m j = Inr c \<longrightarrow> get_channel m' j =
        Inr (if j \<in> set is \<and> is_opened m j then c\<lparr>ch_disc_ua_pending := True\<rparr> else c)" by blast
    show ?thesis
      using ih gs False unfolding run by (intro exI [of _ m'] exI [of _ es]) (auto simp: comp_def)
  next
    case True
    with g have o: "ch_fd c \<ge> 0 \<and> ch_opened c" by (simp add: is_opened_def)
    let ?m0 = "set_channel i (c\<lparr>ch_disc_ua_pending := True\<rparr>) m"
    have up0: "line_up ?m0" "\<not> m_cmux_mode ?m0" "i < length (m_channels ?m0)"
      using Cons.prems i by (simp_all add: line_up_def writes_ok_def)
    from write_frame_disc [OF up0 i(2)] obtain k m1 es1 where
      w: "write_frame i [] (GSM0710_TYPE_DISC OR GSM0710_PF) ?m0 = Inr (k, m1)"
      and s1: "same_but_trace ?m0 m1" and t1: "m_trace m1 = m_trace m @ es1"
      and e1: "written_to (m_serial_fd m) es1 = basic_encode (disc_frame i)" by auto
    note f1 = same_but_trace_fields [OF s1]
    have g1: "get_channel m1 j = get_channel ?m0 j" for j using f1(1) by (simp add: get_channel_def)
    have o1: "is_opened m1 j = is_opened m j" for j
      using i g by (auto simp: is_opened_def g1 split: sum.split)
    have up1: "line_up m1" "\<not> m_cmux_mode m1" "\<forall>i \<in> set is. i < length (m_channels m1) \<and> i < 64"
      using up0 f1 Cons.prems(3) by auto
    from Cons.IH [OF up1, of "Suc n"] obtain m' es where
      ih: "close_down_channels is (Suc n) m1 = Inr (Suc n + length (filter (is_opened m1) is), m')"
        "line_up m'" "\<not> m_cmux_mode m'" "m_serial_fd m' = m_serial_fd m1" "m_syscalls m' = m_syscalls m1" "m_trace m' = m_trace m1 @ es"
        "written_to (m_serial_fd m1) es = concat (map (basic_encode \<circ> disc_frame) (filter (is_opened m1) is))"
      and gs: "\<forall>j c. get_channel m1 j = Inr c \<longrightarrow> get_channel m' j =
        Inr (if j \<in> set is \<and> is_opened m1 j then c\<lparr>ch_disc_ua_pending := True\<rparr> else c)" by blast
    have fd: "m_serial_fd m1 = m_serial_fd m" "m_syscalls m1 = m_syscalls m"
      using f1(2) same_but_trace_more(1) [OF s1] by (simp_all add: set_channel_def)
    have oe: "is_opened m1 = is_opened m" using o1 by blast
    have run: "close_down_channels (i # is) n m = close_down_channels is (Suc n) m1"
      using o Cons.prems(2) w by (simp add: g)
    have "get_channel m' j = Inr (if j \<in> set (i # is) \<and> is_opened m j then c'\<lparr>ch_disc_ua_pending := True\<rparr> else c')"
      if j: "get_channel m j = Inr c'" for j c'
    proof (cases "i = j")
      case True
      with j g have "c' = c" by simp
      from gs [rule_format, of j "c\<lparr>ch_disc_ua_pending := True\<rparr>"] True i g \<open>is_opened m i\<close> \<open>c' = c\<close>
      show ?thesis by (simp add: g1)
    next
      case False
      from gs [rule_format, of j c'] False i j show ?thesis by (simp add: g1 oe)
    qed
    with ih t1 e1 True fd show ?thesis
      unfolding run by (intro exI [of _ m'] exI [of _ "es1 @ es"]) (simp add: oe comp_def)
  qed
qed

text \<open>Closing down from this side in basic mode, on a line that takes everything: a DISC frame for each
  open channel in the order of the channels, then the close-down command on channel 0, then the
  device is closed and the state is off.\<close>

theorem close_devices_line:
  assumes "line_up m" and "\<not> m_cmux_mode m" and "length (m_channels m) = GSM0710_MAX_CHANNELS (m_cfg m)"
    and "get_channel m 0 = Inr c0" and "2 \<le> ch_negotiated_N1 c0" and "m_syscalls m = []"
    and "m_cfg m = cfg"
  shows "\<exists>m' control. close_devices m = Inr (0, m') \<and> m_serial_fd m' = -1 \<and>
    m_serial_state m' = MUX_STATE_OFF \<and> control \<in> {GSM0710_TYPE_UIH, GSM0710_TYPE_UIH OR GSM0710_PF} \<and>
    written_to (m_serial_fd m) (m_trace m') = written_to (m_serial_fd m) (m_trace m) @
      concat (map (basic_encode \<circ> disc_frame) (filter (is_opened m) [1..<GSM0710_MAX_CHANNELS cfg])) @
      basic_encode \<lparr>f_channel = 0, f_control = control, f_data = close_channel_cmd\<rparr>"
proof -
  let ?m0 = "m\<lparr>m_close_down_send_disc := True\<rparr>"
  let ?is = "[1..<GSM0710_MAX_CHANNELS cfg]"
  have len: "length (m_channels m) \<le> 64" using assms(3) by (simp add: GSM0710_MAX_CHANNELS_def)
  have up0: "line_up ?m0" "\<not> m_cmux_mode ?m0" "\<forall>i \<in> set ?is. i < length (m_channels ?m0) \<and> i < 64"
    using assms(1,2,3,7) len by (auto simp: line_up_def writes_ok_def)
  have g0: "get_channel ?m0 j = get_channel m j" for j by (simp add: get_channel_def)
  have o0: "is_opened ?m0 = is_opened m" by (simp add: is_opened_def g0 fun_eq_iff)
  from close_down_channels_ok [OF up0, of 0] obtain m1 es where
    c1: "close_down_channels ?is 0 ?m0 = Inr (length (filter (is_opened m) ?is), m1)"
    and up1: "line_up m1" "\<not> m_cmux_mode m1" and fd1: "m_serial_fd m1 = m_serial_fd m"
    and sc1: "m_syscalls m1 = []" and t1: "m_trace m1 = m_trace m @ es"
    and e1: "written_to (m_serial_fd m) es = concat (map (basic_encode \<circ> disc_frame) (filter (is_opened m) ?is))"
    and gs: "\<And>j c. get_channel ?m0 j = Inr c \<Longrightarrow> get_channel m1 j =
       Inr (if j \<in> set ?is \<and> is_opened m j then c\<lparr>ch_disc_ua_pending := True\<rparr> else c)"
    by (auto simp: o0 assms(6))
  from gs [of 0 c0] have g1: "get_channel m1 0 = Inr c0" by (simp add: g0 assms(4))
  let ?m2 = "if length (filter (is_opened m) ?is) > 0 then m1\<lparr>m_close_down_send_disc := False\<rparr> else m1"
  have up2: "line_up ?m2" "\<not> m_cmux_mode ?m2" "get_channel ?m2 0 = Inr c0"
    "m_serial_fd ?m2 = m_serial_fd m" "m_trace ?m2 = m_trace m1" "m_syscalls ?m2 = []"
    using up1 g1 fd1 sc1 by (auto simp: line_up_def writes_ok_def get_channel_def)
  have n: "min (ch_negotiated_N1 c0) (length close_channel_cmd) = 2"
    using assms(5) by (simp add: close_channel_cmd_def)
  from write_frame_ok [OF up2(1,2,3), of close_channel_cmd GSM0710_TYPE_UIH] n
  obtain m3 es3 control where
    w: "write_frame 0 close_channel_cmd GSM0710_TYPE_UIH ?m2 = Inr (2, m3)"
    and s3: "same_but_trace ?m2 m3" and t3: "m_trace m3 = m_trace m1 @ es3"
    and e3: "written_to (m_serial_fd m) es3 =
       basic_encode \<lparr>f_channel = 0, f_control = control, f_data = close_channel_cmd\<rparr>"
    and c: "control \<in> {GSM0710_TYPE_UIH, GSM0710_TYPE_UIH OR GSM0710_PF}"
    unfolding Let_def n up2(4,5) by (auto simp: close_channel_cmd_def)
  have f3: "m_serial_fd m3 = m_serial_fd m" "m_syscalls m3 = []"
    using same_but_trace_fields(2) [OF s3] same_but_trace_more(1) [OF s3] up2(4,6) by simp_all
  have run: "close_devices m = close_serial m3"
    using c1 w up1(2) fd1 assms(1,7) up2(2) by (simp add: close_devices_def Let_def line_up_def)
  have "close_serial m3 = Inr (0, (emit (Closed (m_serial_fd m3)) m3)
       \<lparr>m_serial_fd := -1, m_serial_state := MUX_STATE_OFF\<rparr>)" (is "_ = Inr (0, ?m4)")
    by (simp add: close_serial_def syscheck_def sys_check_def f3)
  moreover have "m_trace ?m4 = m_trace m @ (es @ es3) @ [Closed (m_serial_fd m)]"
    using f3 t1 t3 by (simp add: emit_def)
  ultimately show ?thesis
    using e1 e3 c unfolding run by (intro exI [of _ ?m4] exI [of _ control]) simp
qed

text \<open>Channel 1 is open, the line is up.\<close>

definition one_open :: mux where
  "one_open = (mux_init no_cfg)\<lparr>m_serial_fd := 5, m_cmux_mode := False, m_serial_state := MUX_STATE_MUXING,
     m_channels := (replicate 32 (zero_channel\<lparr>ch_negotiated_N1 := 512\<rparr>))
       [1 := zero_channel\<lparr>ch_opened := True, ch_fd := 7, ch_negotiated_N1 := 512\<rparr>]\<rparr>"

lemma one_open_facts:
  "line_up one_open" "\<not> m_cmux_mode one_open" "m_cfg one_open = no_cfg"
  "GSM0710_MAX_CHANNELS no_cfg = 32" "length (m_channels one_open) = 32"
  "get_channel one_open 0 = Inr (zero_channel\<lparr>ch_negotiated_N1 := 512\<rparr>)"
  "m_syscalls one_open = []" "m_serial_fd one_open = 5" "m_trace one_open = []"
  "m_serial_state one_open = MUX_STATE_MUXING" "m_use_timeout one_open = 0" "m_ping_number one_open = 0"
  by (simp_all add: one_open_def mux_init_def line_up_def writes_ok_def no_cfg_def
      GSM0710_MAX_CHANNELS_def get_channel_def)

lemma one_open_channel:
  "i < 32 \<Longrightarrow> get_channel one_open i = Inr (if i = 1
     then zero_channel\<lparr>ch_opened := True, ch_fd := 7, ch_negotiated_N1 := 512\<rparr>
     else zero_channel\<lparr>ch_negotiated_N1 := 512\<rparr>)"
  by (simp add: get_channel_def one_open_facts(5)) (simp add: one_open_def nth_list_update)

theorem close_devices_line_witness:
  "\<exists>m' control. close_devices one_open = Inr (0, m') \<and> written_to 5 (m_trace m') =
     basic_encode (disc_frame 1) @
     basic_encode \<lparr>f_channel = 0, f_control = control, f_data = close_channel_cmd\<rparr>"
proof -
  have "is_opened one_open i = (i = 1)" if "i \<in> set [1..<32]" for i
    using that by (auto simp: is_opened_def one_open_channel zero_channel_def)
  then have "filter (is_opened one_open) [1..<32] = filter (\<lambda>i. i = 1) [1..<32]"
    by (intro filter_cong refl)
  also have "\<dots> = [1]" by (simp add: upt_conv_Cons)
  finally have f: "filter (is_opened one_open) [1..<32] = [1]" .
  show ?thesis
    using close_devices_line [of one_open "zero_channel\<lparr>ch_negotiated_N1 := 512\<rparr>" no_cfg] f
    by (auto simp: one_open_facts simp del: GSM0710_TYPE_UIH_def)
qed

section \<open>Pings\<close>

text \<open>A multiplexing daemon whose only watchdog task is the ping.\<close>

definition only_pings :: "mux \<Rightarrow> bool" where
  "only_pings m \<longleftrightarrow> m_serial_state m = MUX_STATE_MUXING \<and> line_up m \<and> \<not> m_cmux_mode m \<and>
     m_use_timeout m = 0 \<and> m_use_ping m > 0 \<and> 0 < length (m_channels m) \<and>
     (\<forall>i \<in> {1..<GSM0710_MAX_CHANNELS (m_cfg m)}. \<exists>c. get_channel m i = Inr c \<and> \<not> ch_reopen c)"

lemma reopen_none:
  "\<forall>i \<in> set is. \<exists>c. get_channel m i = Inr c \<and> \<not> ch_reopen c \<Longrightarrow> reopen_channels is m = Inr (True, m)"
  by (induction "is") auto

lemma watchdog_only_pings:
  assumes "only_pings m"
  shows "watchdog others m =
    bindE (ping_modem (m\<lparr>m_pts_reopen := True\<rparr>)) (\<lambda>m'. Inr (0, check_silence m'))"
proof -
  have "\<forall>i \<in> set [1..<GSM0710_MAX_CHANNELS (m_cfg m)].
      \<exists>c. get_channel (m\<lparr>m_pts_reopen := True\<rparr>) i = Inr c \<and> \<not> ch_reopen c"
    using assms by (auto simp: only_pings_def get_channel_def)
  from reopen_none [OF this] assms show ?thesis
    by (simp add: watchdog_def watchdog_muxing_def only_pings_def)
qed

lemma watchdog_sends_ping:
  assumes "only_pings m" and "m_ping_number m \<le> m_use_ping m"
  shows "\<exists>m'. watchdog others m = Inr (0, m') \<and> only_pings m' \<and>
    m_ping_number m' = m_ping_number m + 1 \<and> m_use_ping m' = m_use_ping m"
proof -
  let ?m = "m\<lparr>m_pts_reopen := True\<rparr>"
  have a: "line_up ?m" "\<not> m_cmux_mode ?m" using assms(1) by (simp_all add: only_pings_def line_up_def writes_ok_def)
  obtain c where g: "get_channel ?m 0 = Inr c" using assms(1) by (simp add: only_pings_def get_channel_def)
  from write_frame_ok [OF a g, of test_channel_cmd GSM0710_TYPE_UI] obtain n m1 where
    w: "write_frame 0 test_channel_cmd GSM0710_TYPE_UI ?m = Inr (n, m1)" and s: "same_but_trace ?m m1"
    by (auto simp: Let_def test_channel_cmd_def)
  note f = same_but_trace_fields [OF s] and k = same_but_trace_more [OF s]
  let ?m' = "m1\<lparr>m_ping_number := m_ping_number m1 + 1\<rparr>"
  have "ping_modem ?m = Inr ?m'"
    using w assms by (simp add: ping_modem_def only_pings_def)
  then have "watchdog others m = Inr (0, ?m')"
    using watchdog_only_pings [OF assms(1)] assms(1) k
    by (simp add: check_silence_def only_pings_def)
  moreover have "get_channel ?m' i = get_channel m i" for i using f(1) by (simp add: get_channel_def)
  then have "only_pings ?m'"
    using assms(1) f k a by (simp add: only_pings_def line_up_def writes_ok_def)
  ultimately show ?thesis using k by auto
qed

fun watchdogs :: "nat \<Rightarrow> (mux \<Rightarrow> mux res) \<Rightarrow> mux \<Rightarrow> mux res" where
  "watchdogs 0 others m = Inr m"
| "watchdogs (Suc n) others m = bindE (watchdog others m) (\<lambda>(_, m'). watchdogs n others m')"

text \<open>The count of unanswered pings is never reset while the daemon multiplexes: with pings on,
  the watchdog sends \<open>use_ping + 1 - ping_number\<close> of them and then, whatever the modem
  answers, goes into the closing state.\<close>

theorem ping_count_runs_out:
  assumes "only_pings m" and "m_ping_number m + int k = m_use_ping m + 1"
  shows "\<exists>m'. watchdogs (Suc k) others m = Inr m' \<and> m_serial_state m' = MUX_STATE_CLOSING"
  using assms
proof (induction k arbitrary: m)
  case 0
  then have "ping_modem (m\<lparr>m_pts_reopen := True\<rparr>) =
      Inr (m\<lparr>m_pts_reopen := True, m_serial_state := MUX_STATE_CLOSING\<rparr>)"
    by (simp add: ping_modem_def only_pings_def)
  then show ?case
    using watchdog_only_pings [OF 0(1)] 0(1) by (simp add: check_silence_def only_pings_def)
next
  case (Suc k)
  then have "m_ping_number m \<le> m_use_ping m" by simp
  from watchdog_sends_ping [OF Suc.prems(1) this] obtain m1 where
    m1: "watchdog others m = Inr (0, m1)" "only_pings m1" "m_ping_number m1 = m_ping_number m + 1"
      "m_use_ping m1 = m_use_ping m" by blast
  then have "m_ping_number m1 + int k = m_use_ping m1 + 1" using Suc.prems(2) by simp
  from Suc.IH [OF m1(2) this] show ?case by (simp add: m1(1))
qed

theorem ping_count_runs_out_witness:
  "\<exists>m'. watchdogs 3 Inr (one_open\<lparr>m_use_ping := 1\<rparr>) = Inr m' \<and> m_serial_state m' = MUX_STATE_CLOSING"
proof -
  let ?m = "one_open\<lparr>m_use_ping := 1\<rparr>"
  have g: "get_channel ?m i = get_channel one_open i" for i by (simp add: get_channel_def)
  have "line_up ?m" using one_open_facts(1) by (simp add: line_up_def writes_ok_def)
  then have "only_pings ?m"
    by (auto simp: only_pings_def g one_open_facts one_open_channel zero_channel_def)
  moreover have "m_ping_number ?m + int 2 = m_use_ping ?m + 1" by (simp add: one_open_facts)
  ultimately have "\<exists>m'. watchdogs (Suc 2) Inr ?m = Inr m' \<and> m_serial_state m' = MUX_STATE_CLOSING"
    by (rule ping_count_runs_out)
  then show ?thesis by (simp only: numeral_3_eq_3 numeral_2_eq_2)
qed

section \<open>Opening the device\<close>

definition no_lists :: "mux \<Rightarrow> bool" where
  "no_lists m \<longleftrightarrow> (\<forall>c \<in> set (m_channels m). ch_rx_fl c = None)"

lemma init_channels_ok:
  assumes "no_lists m" and "\<forall>i \<in> set is. i < length (m_channels m)" and "distinct is"
  shows "\<exists>m' es. init_channels is m = Inr m' \<and> no_lists m' \<and> m_trace m' = m_trace m @ es \<and>
    length (m_channels m') = length (m_channels m) \<and>
    (m_in_buf_for_bootup m', m_opens m', m_reads m', m_syscalls m', m_devicename m') =
    (m_in_buf_for_bootup m, m_opens m, m_reads m, m_syscalls m, m_devicename m) \<and>
    [e \<leftarrow> es. \<exists>fd. e = Closed fd] =
      map (\<lambda>i. Closed (ch_fd (m_channels m ! i))) [i \<leftarrow> is. ch_fd (m_channels m ! i) \<ge> 0]"
  using assms
proof (induction "is" arbitrary: m)
  case Nil
  then show ?case by simp
next
  case (Cons i "is")
  then have i: "i < length (m_channels m)" by simp
  let ?c = "m_channels m ! i"
  have g: "get_channel m i = Inr ?c" using i by (simp add: get_channel_def)
  have fl: "ch_rx_fl ?c = None" using Cons.prems(1) i by (simp add: no_lists_def)
  let ?c1 = "init_channel (m_cfg m) (m_cmux_N1 m) i ?c"
  let ?m1 = "set_channel i ?c1 (close_pty ?c m)"
  have run: "logical_channel_init i i m = Inr ?m1"
    using logical_channel_init_eq [OF g, of i] fl by (simp add: fl_destroy_def set_channel_def close_pty_def emit_def split: option.split)
  have n1: "no_lists ?m1"
    using Cons.prems(1) set_update_subset_insert [of "m_channels m" i ?c1]
    by (auto simp: no_lists_def set_channel_def init_channel_def fc_initContext_def split: option.split)
  define es1 where "es1 = (if ch_fd ?c \<ge> 0
    then (case ch_ptslink ?c of None \<Rightarrow> [] | Some l \<Rightarrow> [Unlinked l]) @ [Closed (ch_fd ?c)] else [])"
  have t1: "m_trace ?m1 = m_trace m @ es1" and
    e1: "[e \<leftarrow> es1. \<exists>fd. e = Closed fd] = (if ch_fd ?c \<ge> 0 then [Closed (ch_fd ?c)] else [])"
    by (simp_all add: close_pty_def es1_def split: option.split)
  have len: "length (m_channels ?m1) = length (m_channels m)" by simp
  have at: "m_channels ?m1 ! j = m_channels m ! j" if "j \<noteq> i" for j
    using that by (simp add: set_channel_def)
  have others: "(m_in_buf_for_bootup ?m1, m_opens ?m1, m_reads ?m1, m_syscalls ?m1, m_devicename ?m1) =
    (m_in_buf_for_bootup m, m_opens m, m_reads m, m_syscalls m, m_devicename m)"
    by (simp add: set_channel_def close_pty_def emit_def split: option.split)
  have "\<forall>i \<in> set is. i < length (m_channels ?m1)" "distinct is" "i \<notin> set is"
    using Cons.prems by simp_all
  from Cons.IH [OF n1 this(1,2)] obtain m' es where
    ih: "init_channels is ?m1 = Inr m'" "no_lists m'" "m_trace m' = m_trace ?m1 @ es"
      "length (m_channels m') = length (m_channels ?m1)"
      "(m_in_buf_for_bootup m', m_opens m', m_reads m', m_syscalls m', m_devicename m') =
       (m_in_buf_for_bootup ?m1, m_opens ?m1, m_reads ?m1, m_syscalls ?m1, m_devicename ?m1)"
      "[e \<leftarrow> es. \<exists>fd. e = Closed fd] =
        map (\<lambda>i. Closed (ch_fd (m_channels ?m1 ! i))) [i \<leftarrow> is. ch_fd (m_channels ?m1 ! i) \<ge> 0]"
    by blast
  have eq: "m_channels ?m1 ! j = m_channels m ! j" if "j \<in> set is" for j
    using at [of j] that \<open>i \<notin> set is\<close> by blast
  have "map (\<lambda>i. Closed (ch_fd (m_channels ?m1 ! i))) [i \<leftarrow> is. ch_fd (m_channels ?m1 ! i) \<ge> 0] =
      map (\<lambda>i. Closed (ch_fd (m_channels m ! i))) [i \<leftarrow> is. ch_fd (m_channels m ! i) \<ge> 0]"
    by (rule map_cong [OF filter_cong [OF refl]]) (auto simp only: eq set_filter mem_Collect_eq)
  with ih(6) e1 have "[e \<leftarrow> es1 @ es. \<exists>fd. e = Closed fd] =
      map (\<lambda>i. Closed (ch_fd (m_channels m ! i))) [i \<leftarrow> i # is. ch_fd (m_channels m ! i) \<ge> 0]"
    by simp
  moreover have "init_channels (i # is) m = Inr m'" using run ih(1) by simp
  moreover have "m_trace m' = m_trace m @ (es1 @ es)" using ih(3) t1 by simp
  ultimately show ?case
    using ih(2,4,5) others len by (intro exI [of _ m'] exI [of _ "es1 @ es"]) auto
qed


lemma open_serial_device_run:
  assumes "no_lists m" and "length (m_channels m) = GSM0710_MAX_CHANNELS (m_cfg m)"
    and "m_opens m = (fd, pts) # opens" and "0 \<le> fd" and "m_syscalls m = []"
    and "m_devicename m \<noteq> ''/dev/socket/qemud''"
  shows "\<exists>m' es. open_serial_device m = Inr (0, m') \<and> m_serial_fd m' = fd \<and>
    m_serial_state m' = MUX_STATE_INITILIZING \<and>
    m_in_buf_for_bootup m' = m_in_buf_for_bootup m \<and> m_reads m' = m_reads m \<and>
    m_trace m' = m_trace m @ es \<and>
    [e \<leftarrow> es. \<exists>fd. e = Closed fd] = map (\<lambda>c. Closed (ch_fd c)) [c \<leftarrow> m_channels m. ch_fd c \<ge> 0]"
proof -
  let ?is = "[0..<GSM0710_MAX_CHANNELS (m_cfg m)]"
  have "\<forall>i \<in> set ?is. i < length (m_channels m)" using assms(2) by simp
  from init_channels_ok [OF assms(1) this] obtain m1 es where
    c1: "init_channels ?is m = Inr m1" and t1: "m_trace m1 = m_trace m @ es" and
    k: "m_in_buf_for_bootup m1 = m_in_buf_for_bootup m" "m_opens m1 = (fd, pts) # opens"
      "m_reads m1 = m_reads m" "m_syscalls m1 = []" "m_devicename m1 = m_devicename m" and
    e1: "[e \<leftarrow> es. \<exists>fd. e = Closed fd] =
      map (\<lambda>i. Closed (ch_fd (m_channels m ! i))) [i \<leftarrow> ?is. ch_fd (m_channels m ! i) \<ge> 0]"
    using assms(3,5) by auto
  have "map (\<lambda>c. Closed (ch_fd c)) [c \<leftarrow> map (\<lambda>i. m_channels m ! i) ?is. ch_fd c \<ge> 0] =
      map (\<lambda>i. Closed (ch_fd (m_channels m ! i))) [i \<leftarrow> ?is. ch_fd (m_channels m ! i) \<ge> 0]"
    by (simp add: filter_map comp_def)
  moreover have "map (\<lambda>i. m_channels m ! i) ?is = m_channels m"
    using map_nth [of "m_channels m"] assms(2) by simp
  ultimately have e2: "[e \<leftarrow> es. \<exists>fd. e = Closed fd] =
      map (\<lambda>c. Closed (ch_fd c)) [c \<leftarrow> m_channels m. ch_fd c \<ge> 0]" using e1 by simp
  let ?m2 = "(emit (Opened (m_devicename m) fd) (m1\<lparr>m_opens := opens\<rparr>))\<lparr>m_serial_fd := fd\<rparr>"
  have o: "open_serial_device m = device_opened ?m2"
    using c1 k assms(4,6)
    by (simp add: open_serial_device_def sys_open_def syscheck_def sys_check_def emit_def Let_def)
  obtain t m3 where gt: "get_time (?m2\<lparr>m_ping_number := 0\<rparr>) = (t, m3)" by fastforce
  have m3: "m_serial_fd m3 = fd" "m_in_buf_for_bootup m3 = m_in_buf_for_bootup m1"
    "m_reads m3 = m_reads m1" "m_trace m3 = m_trace m1 @ [Opened (m_devicename m) fd]"
    using gt by (auto simp: get_time_def emit_def split: list.splits)
  have "device_opened ?m2 = Inr (0, m3\<lparr>m_frame_receive_time := t, m_serial_state := MUX_STATE_INITILIZING\<rparr>)"
    using gt by (simp add: device_opened_def)
  then show ?thesis
    using o m3 k t1 e2
    by (intro exI [of _ "m3\<lparr>m_frame_receive_time := t, m_serial_state := MUX_STATE_INITILIZING\<rparr>"]
        exI [of _ "es @ [Opened (m_devicename m) fd]"]) simp
qed

text \<open>The channel contexts start as zero, and 0 is a descriptor: the first time the daemon opens its
  device it closes descriptor 0, standard input, once for every channel.\<close>

theorem startup_closes_descriptor_0:
  assumes "m = (mux_init cfg)\<lparr>m_devicename := d, m_opens := [(fd, None)]\<rparr>" and "0 \<le> fd"
    and "d \<noteq> ''/dev/socket/qemud''"
  shows "\<exists>m'. open_serial_device m = Inr (0, m') \<and> m_serial_fd m' = fd \<and>
    m_serial_state m' = MUX_STATE_INITILIZING \<and>
    [e \<leftarrow> m_trace m'. \<exists>fd. e = Closed fd] = replicate (GSM0710_MAX_CHANNELS cfg) (Closed 0)"
proof -
  have ch: "m_channels m = replicate (GSM0710_MAX_CHANNELS cfg) zero_channel"
    and cfg: "m_cfg m = cfg" and op: "m_opens m = [(fd, None)]" and tr: "m_trace m = []"
    and sc: "m_syscalls m = []" and dv: "m_devicename m = d"
    using assms(1) by (simp_all add: mux_init_def)
  have "no_lists m" "length (m_channels m) = GSM0710_MAX_CHANNELS (m_cfg m)"
    by (simp_all add: no_lists_def ch cfg zero_channel_def)
  from open_serial_device_run [OF this op assms(2) sc] assms(3) show ?thesis
    by (auto simp: dv tr ch zero_channel_def map_replicate_const)
qed

theorem startup_closes_descriptor_0_witness:
  "\<exists>m'. open_serial_device ((mux_init no_cfg)\<lparr>m_devicename := ''/dev/ccci'', m_opens := [(0, None)]\<rparr>) = Inr (0, m') \<and>
     [e \<leftarrow> m_trace m'. \<exists>fd. e = Closed fd] = replicate 32 (Closed 0)"
  using startup_closes_descriptor_0 [OF refl, of 0 "''/dev/ccci''" no_cfg]
  by (auto simp: one_open_facts(4))

section \<open>Starting again\<close>

text \<open>\<open>start_muxer\<close> frees the buffer for the replies when it succeeds, and nothing allocates it again:
  when the daemon later closes down and its watchdog reopens the device, the first octets the modem
  sends are stored in freed memory.\<close>

theorem restart_uses_freed_buffer:
  assumes "m_in_buf_for_bootup m = None" and "m_serial_state m = MUX_STATE_OPENING"
    and "no_lists m" and "length (m_channels m) = GSM0710_MAX_CHANNELS (m_cfg m)"
    and "m_opens m = (fd, pts) # opens" and "0 \<le> fd" and "m_syscalls m = []"
    and "m_devicename m \<noteq> ''/dev/socket/qemud''" and "m_reads m = Rd_Data xs # rest"
  shows "watchdog others m = Inl UseAfterFree"
proof -
  from open_serial_device_run [OF assms(3-8)] obtain m1 where
    o: "open_serial_device m = Inr (0, m1)" and fd: "m_serial_fd m1 = fd"
    and none: "m_in_buf_for_bootup m1 = None" and rd: "m_reads m1 = Rd_Data xs # rest"
    using assms(1,9) by auto
  have "\<exists>m2. wait_data m1 = (W_Data (take 1024 xs), m2) \<and> m_in_buf_for_bootup m2 = None"
    using rd fd assms(6) none by (simp add: wait_data_def sys_select_def sys_read_def)
  then have "start_muxer m1 = Inl UseAfterFree"
    using fd assms(6)
    by (auto simp: start_muxer_def poll_modem_ready_def poll_modem_loop.simps [of m1] bootup_store_def)
  then show ?thesis
    using o assms(2) by (simp add: watchdog_def watchdog_opening_def watchdog_initilizing_def)
qed

theorem restart_uses_freed_buffer_witness:
  "watchdog Inr ((mux_init no_cfg)\<lparr>m_in_buf_for_bootup := None, m_opens := [(5, None)],
      m_reads := [Rd_Data [0]]\<rparr>) = Inl UseAfterFree"
  by (rule restart_uses_freed_buffer [of _ 5 None "[]" "[0]" "[]"])
    (simp_all add: mux_init_def no_lists_def zero_channel_def)

end
