(* ===== verification/Mux_Retry.thy ===== *)
theory Mux_Retry
  imports Mux_Watchdog
begin

text \<open>
  Delivering the payload of a received frame to its terminal: the thread that assembles frames
  writes it, or queues it when the terminal is paused; \<open>retry_write_pty_thread\<close> writes what was
  queued and then releases the modem.  Both threads and their interleaving are here: an inductive
  relation whose steps are the critical sections of the source, and the theorem that the terminal
  gets the accepted octets in order.
\<close>

section \<open>The thread that assembles frames\<close>

text \<open>
  An error of \<open>write\<close> the code does not know: when the application has just closed the terminal it
  is reopened by the watchdog, otherwise the process ends.
\<close>

definition reopen_or_assert :: "nat \<Rightarrow> (mux \<Rightarrow> mux res) \<Rightarrow> nat \<Rightarrow> mux \<Rightarrow> mux res" where
  "reopen_or_assert code others i m =
     bindE (get_channel m i) (\<lambda>c.
       if ch_reopen c then bindE (watchdog others m) (\<lambda>(_, m'). Inr m') else Inl (Assert code))"

definition cache_and_retry :: "nat \<Rightarrow> gsm_frame \<Rightarrow> nat \<Rightarrow> mux \<Rightarrow> mux res" where
  "cache_and_retry i frame written m =
     bindE (fc_cacheRemainingFrameData i frame written m) (start_retry_write_thread i)"

text \<open>
  The loop around \<open>write\<close>.  Every round but the last uses up an outcome of the list of the kernel,
  unless the descriptor is negative: then \<open>EBADF\<close> comes back for ever.  The first argument bounds
  the rounds; when it is used up the loop is taken not to end.  If this thread were to wait for
  the channels to be set up, whose answers it would have to read itself, it would wait for ever.
\<close>

primrec deliver_loop :: "nat \<Rightarrow> nat \<Rightarrow> gsm_frame \<Rightarrow> mux \<Rightarrow> mux res" where
  "deliver_loop 0 i frame m = Inl Hang"
| "deliver_loop (Suc n) i frame m =
     bindE (get_channel m i) (\<lambda>c.
       case sys_write (ch_fd c) (f_data frame) m of
         (write_result, m1) \<Rightarrow>
           if write_result \<ge> 0 then
             (if int (length (f_data frame)) - write_result > 0
              then cache_and_retry i frame (nat write_result) m1 else Inr m1)
           else
             (case m_errno m1 of
                EINTR \<Rightarrow> deliver_loop n i frame m1
              | EAGAIN \<Rightarrow>
                  if i \<noteq> MUXD_VT_CH_NUM then cache_and_retry i frame 0 m1 else Inr m1
              | EBADF \<Rightarrow> deliver_loop n i frame m1
              | EIO \<Rightarrow> deliver_loop n i frame m1
              | _ \<Rightarrow> bindE (reopen_or_assert 9 (\<lambda>_. Inl Hang) i m1) (deliver_loop n i frame)))"

definition deliver_frame :: "gsm_frame \<Rightarrow> mux \<Rightarrow> mux res" where
  "deliver_frame frame m =
     (let i = unat (f_channel frame)
      in bindE (get_channel m i) (\<lambda>c.
           if ch_rx_fc_off c then fc_cacheFrameData i frame m
           else deliver_loop (Suc (length (m_writes m))) i frame m))"

section \<open>The thread that retries\<close>

text \<open>Where the retry thread of a channel is, with the octets of its frame already written.\<close>

datatype retry =
    No_Thread
  | Created
  | Writing gsm_frame nat
  | Finishing

definition retry_start :: "nat \<Rightarrow> mux \<Rightarrow> (retry \<times> mux) res" where
  "retry_start i m =
     bindE (get_channel m i) (\<lambda>c.
     bindE (fl_popFrame (m_heap m) (ch_rx_fl c)) (\<lambda>(frame, h).
       case frame of
         None \<Rightarrow> Inl (Assert (err_num GSM0710MUXD_RXTHREAD_ERR))
       | Some f \<Rightarrow>
           Inr (Writing f (ch_rx_fl_written c),
                set_channel i (c\<lparr>ch_rx_thread := True, ch_rx_fl_written := 0\<rparr>) (m\<lparr>m_heap := h\<rparr>))))"

definition retry_next :: "nat \<Rightarrow> mux \<Rightarrow> (retry \<times> mux) res" where
  "retry_next i m =
     bindE (get_channel m i) (\<lambda>c.
     bindE (fl_popFrame (m_heap m) (ch_rx_fl c)) (\<lambda>(frame, h).
       case frame of
         None \<Rightarrow> Inr (Finishing, set_channel i (c\<lparr>ch_rx_fc_off := False\<rparr>) (m\<lparr>m_heap := h\<rparr>))
       | Some f \<Rightarrow> Inr (Writing f 0, m\<lparr>m_heap := h\<rparr>)))"

definition retry_write :: "(mux \<Rightarrow> mux res) \<Rightarrow> nat \<Rightarrow> gsm_frame \<Rightarrow> nat \<Rightarrow> mux \<Rightarrow> (retry \<times> mux) res" where
  "retry_write others i frame written m =
     bindE (get_channel m i) (\<lambda>c.
       case sys_write (ch_fd c) (drop written (f_data frame)) m of
         (write_result, m1) \<Rightarrow>
           if write_result \<ge> 0 then
             (let written' = written + nat write_result
              in if written' < length (f_data frame) then Inr (Writing frame written', m1)
                 else retry_next i m1)
           else if m_errno m1 = EINTR \<or> m_errno m1 = EAGAIN then Inr (Writing frame written, m1)
           else
             bindE (reopen_or_assert (err_num GSM0710MUXD_PTY_WRITE_ERR) others i m1)
               (\<lambda>m2. Inr (Writing frame written, m2)))"

section \<open>What goes to the line stays off the terminals\<close>

text \<open>Only the serial line was written, besides properties set.\<close>

definition line_only :: "mux \<Rightarrow> mux \<Rightarrow> bool" where
  "line_only m m' \<longleftrightarrow>
     (\<exists>t w e v. m' = m\<lparr>m_trace := m_trace m @ t, m_writes := w, m_errno := e,
                        m_uih_pf_bit_received := v\<rparr> \<and>
        (\<forall>fd. fd \<noteq> m_serial_fd m \<longrightarrow> written_to fd t = []))"

lemma line_only_refl [simp]: "line_only m m"
  unfolding line_only_def
  by (rule exI [of _ "[]"], rule exI [of _ "m_writes m"], rule exI [of _ "m_errno m"],
      rule exI [of _ "m_uih_pf_bit_received m"]) simp

lemma line_only_trans [trans]:
  assumes "line_only m1 m2" and "line_only m2 m3"
  shows "line_only m1 m3"
proof -
  obtain t w e v where 2: "m2 = m1\<lparr>m_trace := m_trace m1 @ t, m_writes := w, m_errno := e,
      m_uih_pf_bit_received := v\<rparr>" "\<forall>fd. fd \<noteq> m_serial_fd m1 \<longrightarrow> written_to fd t = []"
    using assms(1) unfolding line_only_def by blast
  obtain t' w' e' v' where 3: "m3 = m2\<lparr>m_trace := m_trace m2 @ t', m_writes := w', m_errno := e',
      m_uih_pf_bit_received := v'\<rparr>" "\<forall>fd. fd \<noteq> m_serial_fd m2 \<longrightarrow> written_to fd t' = []"
    using assms(2) unfolding line_only_def by blast
  show ?thesis
    unfolding line_only_def
    by (rule exI [of _ "t @ t'"], rule exI [of _ w'], rule exI [of _ e'], rule exI [of _ v'])
      (use 2 3 in simp)
qed

lemma line_only_fields:
  assumes "line_only m m'"
  shows "m_channels m' = m_channels m" "m_heap m' = m_heap m" "m_serial_fd m' = m_serial_fd m"
    "m_syscalls m' = m_syscalls m" "fd \<noteq> m_serial_fd m \<Longrightarrow> written_to fd (m_trace m') = written_to fd (m_trace m)"
    "get_channel m' i = get_channel m i" "m_cfg m' = m_cfg m"
    "m_serial_state m' = m_serial_state m" "m_in_buf m' = m_in_buf m" "m_cmux_mode m' = m_cmux_mode m"
proof -
  obtain t w e v where m': "m' = m\<lparr>m_trace := m_trace m @ t, m_writes := w, m_errno := e,
      m_uih_pf_bit_received := v\<rparr>" and t: "\<forall>fd. fd \<noteq> m_serial_fd m \<longrightarrow> written_to fd t = []"
    using assms unfolding line_only_def by blast
  show "m_channels m' = m_channels m" "m_heap m' = m_heap m" "m_serial_fd m' = m_serial_fd m"
    "m_syscalls m' = m_syscalls m" "fd \<noteq> m_serial_fd m \<Longrightarrow> written_to fd (m_trace m') = written_to fd (m_trace m)"
    "get_channel m' i = get_channel m i" "m_cfg m' = m_cfg m"
    "m_serial_state m' = m_serial_state m" "m_in_buf m' = m_in_buf m" "m_cmux_mode m' = m_cmux_mode m"
    using t unfolding m' by (simp_all add: get_channel_def)
qed

lemma line_onlyI:
  assumes "m' = m\<lparr>m_trace := m_trace m @ t, m_writes := w, m_errno := e, m_uih_pf_bit_received := v\<rparr>"
    and "\<And>fd. fd \<noteq> m_serial_fd m \<Longrightarrow> written_to fd t = []"
  shows "line_only m m'"
  using assms unfolding line_only_def by blast

lemma line_only_emit: "(\<And>fd. fd \<noteq> m_serial_fd m \<Longrightarrow> written_to fd [e] = []) \<Longrightarrow> line_only m (emit e m)"
  by (rule line_onlyI [where t = "[e]" and w = "m_writes m" and e = "m_errno m"
        and v = "m_uih_pf_bit_received m"]) (simp_all add: emit_def)

lemma line_only_update [simp]:
  "line_only m (m\<lparr>m_writes := w\<rparr>)" "line_only m (m\<lparr>m_errno := e\<rparr>)"
  "line_only m (m\<lparr>m_uih_pf_bit_received := v\<rparr>)"
proof -
  show "line_only m (m\<lparr>m_writes := w\<rparr>)"
    by (rule line_onlyI [where t = "[]" and w = w and e = "m_errno m" and v = "m_uih_pf_bit_received m"])
      simp_all
  show "line_only m (m\<lparr>m_errno := e\<rparr>)"
    by (rule line_onlyI [where t = "[]" and w = "m_writes m" and e = e and v = "m_uih_pf_bit_received m"])
      simp_all
  show "line_only m (m\<lparr>m_uih_pf_bit_received := v\<rparr>)"
    by (rule line_onlyI [where t = "[]" and w = "m_writes m" and e = "m_errno m" and v = v])
      simp_all
qed

lemma line_only_sys_write:
  assumes "sys_write (m_serial_fd m) buf m = (c, m')"
  shows "line_only m m'"
proof -
  have upd: "line_only m (m\<lparr>m_writes := w, m_errno := e\<rparr>)" for w e
    using line_only_trans [OF line_only_update(1) line_only_update(2)] .
  have em: "line_only m (emit (Wrote (m_serial_fd m) xs) (m\<lparr>m_writes := w\<rparr>))" for xs w
    by (rule line_only_trans [OF line_only_update(1) line_only_emit]) simp
  have e0: "line_only m (emit (Wrote (m_serial_fd m) xs) m)" for xs
    by (rule line_only_emit) simp
  show ?thesis
    using assms upd em e0
    by (auto simp: sys_write_def split: if_splits list.splits call_result.splits)
qed

lemma line_only_write_retry:
  assumes "write_retry fd buf m = (c, m')" and "fd = m_serial_fd m"
  shows "line_only m m'"
  using assms
proof (induction fd buf m rule: write_retry.induct)
  case (1 fd buf m)
  obtain c1 m1 where s: "sys_write fd buf m = (c1, m1)" by fastforce
  note run = "1.prems"(1) [unfolded write_retry.simps [of fd buf m] s prod.case]
  have l: "line_only m m1" using line_only_sys_write s "1.prems"(2) by blast
  show ?case
  proof (cases "c1 < 0 \<and> m_errno m1 = EINTR")
    case True
    with run have "write_retry fd buf m1 = (c, m')" by simp
    from "1.IH" [OF s [symmetric] True this] l "1.prems"(2) line_only_fields(3) [OF l]
      line_only_trans show ?thesis by auto
  next
    case False
    with run l show ?thesis by simp
  qed
qed

lemma line_only_write_failed: "line_only m (snd (write_failed len failed m))"
  by (simp add: write_failed_def line_only_emit)

lemma line_only_write_postfix: "line_only m (snd (write_postfix len postfix m))"
proof -
  obtain c m1 where w: "write_retry (m_serial_fd m) postfix m = (c, m1)" by fastforce
  from line_only_trans [OF line_only_write_retry [OF w refl] line_only_write_failed]
    line_only_write_retry [OF w refl] show ?thesis by (simp add: write_postfix_def w)
qed

lemma line_only_write_basic: "line_only m (snd (write_basic prefix input postfix m))"
proof -
  obtain c1 m1 where w1: "write_retry (m_serial_fd m) prefix m = (c1, m1)" by fastforce
  note l1 = line_only_write_retry [OF w1 refl]
  obtain c2 m2 where w2: "write_retry (m_serial_fd m1) input m1 = (c2, m2)" by fastforce
  note l2 = line_only_trans [OF l1 line_only_write_retry [OF w2 refl]]
  show ?thesis
    using line_only_trans [OF l1 line_only_write_failed] line_only_trans [OF l2 line_only_write_failed]
      line_only_trans [OF l1 line_only_write_postfix] line_only_trans [OF l2 line_only_write_postfix]
    by (simp add: write_basic_def w1 w2)
qed

lemma line_only_write_frame:
  assumes "write_frame channel input type m = Inr (n, m')"
  shows "line_only m m'"
proof (cases "m_stop_muxd m")
  case True
  with assms show ?thesis by (simp add: write_frame_def)
next
  case False
  obtain r where fc0: "frame_control type input m = r" by simp
  with assms False obtain control m1 where fc: "frame_control type input m = Inr (control, m1)"
    by (cases r) (auto simp: write_frame_def)
  with assms False obtain ch :: channel where s: "send_frame (frame_address channel) control
        (take (min (ch_negotiated_N1 ch) (length input)) input) m1 = Inr (n, m')"
    by (auto simp: write_frame_def bindE_eq_Inr)
  with fc have l1: "line_only m m1"
    by (auto simp: frame_control_def bindE_eq_Inr split: if_splits)
  have "line_only m1 m'"
  proof (cases "m_cmux_mode m1")
    case False
    with s line_only_write_basic [of m1] show ?thesis
      unfolding send_frame_def Let_def by (metis Inr_inject snd_conv)
  next
    case True
    with s show ?thesis
      by (auto simp: send_frame_def write_advanced_def Let_def split: if_splits prod.splits
          intro: line_only_sys_write)
  qed
  with l1 show ?thesis by (rule line_only_trans)
qed

section \<open>The two threads together\<close>

text \<open>A frame for a paused terminal is dropped when it would pass the watermark.\<close>

definition dropped :: "channel \<Rightarrow> gsm_frame \<Rightarrow> bool" where
  "dropped c frame \<longleftrightarrow>
     ch_rx_fc_off c \<and> ch_rx_fl_total c + length (f_data frame) > RX_FLOW_CTRL_HIGH_WATERMARK"

text \<open>
  The steps of channel \<open>i\<close>: the state of the daemon, where the retry thread is, and the octets
  accepted for the terminal so far.
\<close>

inductive pty_step :: "(mux \<Rightarrow> mux res) \<Rightarrow> nat \<Rightarrow> mux \<times> retry \<times> bytes \<Rightarrow> mux \<times> retry \<times> bytes \<Rightarrow> bool"
  for others :: "mux \<Rightarrow> mux res" and i :: nat where
  deliver: "unat (f_channel f) = i \<Longrightarrow> deliver_frame f m = Inr m' \<Longrightarrow>
     get_channel m i = Inr c \<Longrightarrow> get_channel m' i = Inr c' \<Longrightarrow>
     pty_step others i (m, r, acc)
       (m', if ch_rx_fc_off c' \<and> \<not> ch_rx_fc_off c then Created else r,
        if dropped c f then acc else acc @ f_data f)"
| start: "retry_start i m = Inr (r', m') \<Longrightarrow> pty_step others i (m, Created, acc) (m', r', acc)"
| retry: "retry_write others i f w m = Inr (r', m') \<Longrightarrow>
     pty_step others i (m, Writing f w, acc) (m', r', acc)"
| finish: "retry_finish i m = Inr m' \<Longrightarrow> pty_step others i (m, Finishing, acc) (m', No_Thread, acc)"

text \<open>What is written, what the retry thread holds and what is queued make up what was accepted.\<close>

definition pty_inv :: "int \<Rightarrow> nat \<Rightarrow> mux \<times> retry \<times> bytes \<Rightarrow> bool" where
  "pty_inv fd i s \<longleftrightarrow>
     (case s of (m, r, acc) \<Rightarrow>
        \<exists>c fs. get_channel m i = Inr c \<and> ch_fd c = fd \<and> 0 \<le> fd \<and> fd \<noteq> m_serial_fd m \<and>
          \<not> ch_reopen c \<and> pending m i fs \<and>
          (case r of
             No_Thread \<Rightarrow> \<not> ch_rx_fc_off c \<and> \<not> ch_rx_thread c \<and> fs = [] \<and>
               acc = written_to fd (m_trace m)
           | Finishing \<Rightarrow> \<not> ch_rx_fc_off c \<and> ch_rx_thread c \<and> fs = [] \<and>
               acc = written_to fd (m_trace m)
           | Created \<Rightarrow> ch_rx_fc_off c \<and> \<not> ch_rx_thread c \<and> ch_rx_fl c \<noteq> None \<and>
               (\<exists>f fs'. fs = f # fs' \<and> acc = written_to fd (m_trace m) @
                  drop (ch_rx_fl_written c) (f_data f) @ concat (map f_data fs'))
           | Writing f w \<Rightarrow> ch_rx_fc_off c \<and> ch_rx_thread c \<and> ch_rx_fl c \<noteq> None \<and>
               acc = written_to fd (m_trace m) @ drop w (f_data f) @ concat (map f_data fs)))"

text \<open>A state in which channel \<open>i\<close> has become \<open>c\<close>, and no terminal was written.\<close>

definition now_channel :: "nat \<Rightarrow> mux \<Rightarrow> channel \<Rightarrow> mux \<Rightarrow> bool" where
  "now_channel i m c m' \<longleftrightarrow> get_channel m' i = Inr c \<and> m_heap m' = m_heap m \<and>
     m_serial_fd m' = m_serial_fd m \<and>
     (\<forall>fd. fd \<noteq> m_serial_fd m \<longrightarrow> written_to fd (m_trace m') = written_to fd (m_trace m))"

lemma now_channel_trans:
  "now_channel i m c m' \<Longrightarrow> now_channel i m' c' m'' \<Longrightarrow> now_channel i m c' m''"
  by (auto simp: now_channel_def)

lemma now_channel_line:
  "line_only m m' \<Longrightarrow> get_channel m i = Inr c \<Longrightarrow> now_channel i m c m'"
  using line_only_fields [of m m'] by (auto simp: now_channel_def)

lemma now_channel_upd:
  "upd_channel i g m = Inr m' \<Longrightarrow> get_channel m i = Inr c \<Longrightarrow> now_channel i m (g c) m'"
  using get_channel_valid [of m i c] by (auto simp: upd_channel_def now_channel_def)

lemma now_channel_set:
  "get_channel m i = Inr c \<Longrightarrow> now_channel i m c' (set_channel i c' m)"
  using get_channel_valid [of m i c] by (simp add: now_channel_def)

lemma retry_finish_spec:
  assumes "retry_finish i m = Inr m'" and "get_channel m i = Inr c"
  shows "now_channel i m (c\<lparr>ch_rx_thread := False, ch_rx_fc_on_signals := Suc (ch_rx_fc_on_signals c)\<rparr>) m'"
proof -
  from assms obtain n m1 where
    w: "write_frame 0 (msc_cmd (ch_id c) False) (GSM0710_TYPE_UIH OR GSM0710_PF) m = Inr (n, m1)"
    and u: "upd_channel i (\<lambda>c. c\<lparr>ch_rx_thread := False,
              ch_rx_fc_on_signals := Suc (ch_rx_fc_on_signals c)\<rparr>) m1 = Inr m'"
    by (auto simp: retry_finish_def bindE_eq_Inr)
  from now_channel_line [OF line_only_write_frame [OF w] assms(2)]
  have 1: "now_channel i m c m1" .
  then have "get_channel m1 i = Inr c" by (simp add: now_channel_def)
  from now_channel_trans [OF 1 now_channel_upd [OF u this]] show ?thesis .
qed

lemma create_thread_spec:
  "create_thread t m = Inr m' \<Longrightarrow> get_channel m i = Inr c \<Longrightarrow> now_channel i m c m'"
  by (auto simp: create_thread_def sys_check_def now_channel_def get_channel_def
      split: list.splits if_splits prod.splits)

lemma start_retry_spec:
  assumes "start_retry_write_thread i m = Inr m'" and "get_channel m i = Inr c"
  shows "\<exists>n. now_channel i m
    (c\<lparr>ch_rx_thread := False, ch_rx_fc_on_signals := n, ch_rx_fc_off := True\<rparr>) m'"
proof -
  from assms(1,2) obtain k m1 c1 m2 m3 where
    w: "write_frame 0 (msc_cmd (ch_id c) True) (GSM0710_TYPE_UIH OR GSM0710_PF) m = Inr (k, m1)"
    and c1: "get_channel m1 i = Inr c1"
    and m2: "(if ch_rx_thread c1 then retry_finish i m1 else Inr m1) = Inr m2"
    and m3: "upd_channel i (\<lambda>c. c\<lparr>ch_rx_fc_off := True\<rparr>) m2 = Inr m3"
    and cr: "create_thread (Retry_Write i) m3 = Inr m'"
    by (auto simp: start_retry_write_thread_def bindE_eq_Inr)
  have 1: "now_channel i m c m1"
    using now_channel_line [OF line_only_write_frame [OF w] assms(2)] .
  then have c: "c1 = c" using c1 by (simp add: now_channel_def)
  have "\<exists>n. now_channel i m1 (c\<lparr>ch_rx_thread := False, ch_rx_fc_on_signals := n\<rparr>) m2"
  proof (cases "ch_rx_thread c")
    case True
    with m2 c have "retry_finish i m1 = Inr m2" by simp
    from retry_finish_spec [OF this] c1 c show ?thesis by blast
  next
    case False
    with m2 c c1 show ?thesis
      by (intro exI [of _ "ch_rx_fc_on_signals c"]) (simp add: now_channel_def)
  qed
  then obtain n where 2: "now_channel i m1 (c\<lparr>ch_rx_thread := False, ch_rx_fc_on_signals := n\<rparr>) m2" ..
  let ?c = "c\<lparr>ch_rx_thread := False, ch_rx_fc_on_signals := n, ch_rx_fc_off := True\<rparr>"
  from 2 have "get_channel m2 i = Inr (c\<lparr>ch_rx_thread := False, ch_rx_fc_on_signals := n\<rparr>)"
    by (simp add: now_channel_def)
  from now_channel_upd [OF m3 this] have 3: "now_channel i m2 ?c m3" by simp
  then have "get_channel m3 i = Inr ?c" by (simp add: now_channel_def)
  from create_thread_spec [OF cr this] have 4: "now_channel i m3 ?c m'" .
  from now_channel_trans [OF now_channel_trans [OF now_channel_trans [OF 1 2] 3] 4]
  show ?thesis by blast
qed

lemma pending_cong:
  assumes "pending m i fs" and "get_channel m i = Inr c" and "get_channel m' i = Inr c'"
    and "ch_rx_fl c' = ch_rx_fl c" and "m_heap m' = m_heap m"
  shows "pending m' i fs"
  using assms by (cases "ch_rx_fl c") (auto simp: pending_def)

lemma sys_write_pty:
  assumes "sys_write fd buf m = (n, m')" and "0 \<le> fd"
  shows "get_channel m' i = get_channel m i" "m_heap m' = m_heap m" "m_serial_fd m' = m_serial_fd m"
    "written_to fd (m_trace m') = written_to fd (m_trace m) @ (if 0 \<le> n then take (nat n) buf else [])"
  using assms
  by (auto simp: sys_write_def get_channel_def min_def split: list.splits call_result.splits)

text \<open>What is left of a frame after \<open>n\<close> octets is queued and the retry thread is created.\<close>

lemma cache_and_retry_inv:
  assumes "cache_and_retry i f n m = Inr m'" and "get_channel m i = Inr c" and "pending m i []"
    and "ch_fd c = fd" "0 \<le> fd" "fd \<noteq> m_serial_fd m" "\<not> ch_reopen c"
    and "acc = written_to fd (m_trace m) @ drop n (f_data f)"
  shows "pty_inv fd i (m', Created, acc)" "\<exists>c'. get_channel m' i = Inr c' \<and> ch_rx_fc_off c'"
proof -
  have i: "i < length (m_channels m)" using get_channel_valid [OF assms(2)] .
  from cacheRemaining_run [OF assms(3,2), of f n] obtain l h bs where
    r: "fc_cacheRemainingFrameData i f n m = Inr (set_channel i
        (c\<lparr>ch_rx_fl_total := length (f_data f) - n, ch_rx_fl := Some l, ch_rx_fl_written := n\<rparr>)
        (m\<lparr>m_heap := h\<rparr>))" (is "_ = Inr (set_channel i ?c1 ?m)") and p: "fl_path h l bs [f]" by blast
  let ?m1 = "set_channel i ?c1 ?m"
  have g1: "get_channel ?m1 i = Inr ?c1" using i by simp
  from assms(1) r have "start_retry_write_thread i ?m1 = Inr m'" by (simp add: cache_and_retry_def)
  from start_retry_spec [OF this g1] obtain k where
    nc: "now_channel i ?m1 (?c1\<lparr>ch_rx_thread := False, ch_rx_fc_on_signals := k, ch_rx_fc_off := True\<rparr>) m'"
    (is "now_channel i ?m1 ?c2 m'") ..
  then have g2: "get_channel m' i = Inr ?c2" and h: "m_heap m' = h" and fd: "m_serial_fd m' = m_serial_fd m"
    and wr: "written_to fd (m_trace m') = written_to fd (m_trace m)"
    using assms(6) by (simp_all add: now_channel_def)
  have "pending m' i [f]" using g2 h p by (auto simp: pending_def)
  with g2 fd wr assms(4-8) show "pty_inv fd i (m', Created, acc)"
    by (auto simp: pty_inv_def intro!: exI [of _ "[f]"])
  from g2 show "\<exists>c'. get_channel m' i = Inr c' \<and> ch_rx_fc_off c'" by simp
qed

text \<open>A frame for a terminal that is not paused.\<close>

lemma deliver_loop_inv:
  assumes "deliver_loop k i f m = Inr m'" and "pty_inv fd i (m, r, acc)" and "r \<in> {No_Thread, Finishing}"
    and "i \<noteq> MUXD_VT_CH_NUM"
  shows "\<exists>c'. get_channel m' i = Inr c' \<and>
    pty_inv fd i (m', if ch_rx_fc_off c' then Created else r, acc @ f_data f)"
  using assms(1,2)
proof (induction k arbitrary: m)
  case 0
  then show ?case by simp
next
  case (Suc k)
  from Suc.prems(2) assms(3) obtain c where g: "get_channel m i = Inr c"
    and c: "ch_fd c = fd" "0 \<le> fd" "fd \<noteq> m_serial_fd m" "\<not> ch_reopen c" "pending m i []"
      "\<not> ch_rx_fc_off c" "ch_rx_thread c \<longleftrightarrow> r = Finishing" and acc: "acc = written_to fd (m_trace m)"
    by (auto simp: pty_inv_def)
  obtain n m1 where w: "sys_write fd (f_data f) m = (n, m1)" by fastforce
  note s = sys_write_pty [OF w c(2)]
  have g1: "get_channel m1 i = Inr c" "pending m1 i []" "fd \<noteq> m_serial_fd m1"
    using g c(3) s pending_cong [OF c(5) g] by simp_all
  show ?case
  proof (cases "0 \<le> n")
    case True
    show ?thesis
    proof (cases "int (length (f_data f)) - n > 0")
      case more: True
      with Suc.prems(1) g w True c(1) have cr: "cache_and_retry i f (nat n) m1 = Inr m'" by simp
      have "acc @ f_data f = written_to fd (m_trace m1) @ drop (nat n) (f_data f)"
        using s(4) True acc by simp
      from cache_and_retry_inv [OF cr g1(1,2) c(1,2) g1(3) c(4) this] show ?thesis by force
    next
      case all: False
      with Suc.prems(1) g w True c(1) have m': "m' = m1" by simp
      have "take (nat n) (f_data f) = f_data f" using all True by simp
      then have "acc @ f_data f = written_to fd (m_trace m1)" using s(4) True acc by simp
      with m' g1 c assms(3) show ?thesis by (auto simp: pty_inv_def)
    qed
  next
    case False
    then have wr: "written_to fd (m_trace m1) = acc" using s(4) acc by simp
    with g1 c assms(3) have inv1: "pty_inv fd i (m1, r, acc)" by (auto simp: pty_inv_def)
    note run = Suc.prems(1) [unfolded deliver_loop.simps g bindE.simps c(1) w prod.case]
    have again: "deliver_loop k i f m1 = Inr m' \<Longrightarrow> ?thesis" using Suc.IH inv1 by blast
    have acc1: "acc @ f_data f = written_to fd (m_trace m1) @ drop 0 (f_data f)" using wr by simp
    have eagain: "cache_and_retry i f 0 m1 = Inr m' \<Longrightarrow> ?thesis"
      using cache_and_retry_inv [OF _ g1(1,2) c(1,2) g1(3) c(4) acc1] by force
    show ?thesis
      using run False again eagain assms(4) g1(1) c(4)
      by (auto simp: reopen_or_assert_def split: errno.splits)
  qed
qed

lemma pty_inv_deliver:
  assumes "pty_inv fd i (m, r, acc)" and "deliver_frame f m = Inr m'" and "unat (f_channel f) = i"
    and "get_channel m i = Inr c" and "get_channel m' i = Inr c'" and "i \<noteq> MUXD_VT_CH_NUM"
  shows "pty_inv fd i (m', if ch_rx_fc_off c' \<and> \<not> ch_rx_fc_off c then Created else r,
    if dropped c f then acc else acc @ f_data f)"
proof (cases "ch_rx_fc_off c")
  case False
  with assms(1,4) have r: "r \<in> {No_Thread, Finishing}"
    by (cases r) (auto simp: pty_inv_def)
  from False assms(2-4) have "deliver_loop (Suc (length (m_writes m))) i f m = Inr m'"
    by (simp add: deliver_frame_def)
  from deliver_loop_inv [OF this assms(1) r assms(6)] assms(5) False show ?thesis
    by (auto simp: dropped_def)
next
  case True
  with assms(2-4) have run: "fc_cacheFrameData i f m = Inr m'" by (simp add: deliver_frame_def)
  show ?thesis
  proof (cases "dropped c f")
    case drop: True
    then have "m' = count_dropped m"
      using run assms(4) by (simp add: fc_cacheFrameData_def dropped_def)
    then have g': "get_channel m' i = Inr c" "m_heap m' = m_heap m" "m_serial_fd m' = m_serial_fd m"
        "m_trace m' = m_trace m"
      using assms(4) by (simp_all add: count_dropped_def get_channel_def)
    with assms(5) have "c' = c" by simp
    moreover have "pending m' i fs = pending m i fs" for fs
      using pending_cong [of m i fs c m' c] pending_cong [of m' i fs c m c] g' assms(4) by auto
    ultimately show ?thesis
      using assms(1,4) True drop g' by (simp add: pty_inv_def cong: retry.case_cong)
  next
    case keep: False
    then have le: "ch_rx_fl_total c + length (f_data f) \<le> RX_FLOW_CTRL_HIGH_WATERMARK"
      using True by (simp add: dropped_def)
    from assms(1,4) True obtain fs where p: "pending m i fs" and fl: "ch_rx_fl c \<noteq> None"
      and c: "ch_fd c = fd" "0 \<le> fd" "fd \<noteq> m_serial_fd m" "\<not> ch_reopen c"
      and rr: "case r of Created \<Rightarrow> \<not> ch_rx_thread c \<and> (\<exists>f fs'. fs = f # fs' \<and>
            acc = written_to fd (m_trace m) @ drop (ch_rx_fl_written c) (f_data f) @ concat (map f_data fs'))
        | Writing f w \<Rightarrow> ch_rx_thread c \<and>
            acc = written_to fd (m_trace m) @ drop w (f_data f) @ concat (map f_data fs)
        | _ \<Rightarrow> False"
      by (cases r) (auto simp: pty_inv_def)
    from cacheFrameData_run [OF p assms(4) fl le] run obtain l h bs where
      m': "m' = set_channel i (c\<lparr>ch_rx_fl_total := ch_rx_fl_total c + length (f_data f), ch_rx_fl := Some l\<rparr>)
        (m\<lparr>m_heap := h\<rparr>)" and path: "fl_path h l bs (fs @ [f])" by auto
    have i: "i < length (m_channels m)" using get_channel_valid [OF assms(4)] .
    have "pending m' i (fs @ [f])" unfolding m' by (rule pending_set [OF i _ path]) simp
    with m' i c rr True keep assms(5) show ?thesis
      by (cases r) (auto simp: pty_inv_def intro!: exI [of _ "fs @ [f]"])
  qed
qed

lemma pending_pop:
  assumes "pending m i fs" and "get_channel m i = Inr c"
  shows "case fs of
      [] \<Rightarrow> fl_popFrame (m_heap m) (ch_rx_fl c) = Inr (None, m_heap m)
    | f # fs' \<Rightarrow> \<exists>h. fl_popFrame (m_heap m) (ch_rx_fl c) = Inr (Some f, h) \<and>
        (\<forall>c' m'. get_channel m' i = Inr c' \<longrightarrow> ch_rx_fl c' = ch_rx_fl c \<longrightarrow> m_heap m' = h \<longrightarrow> pending m' i fs')"
proof (cases "ch_rx_fl c")
  case None
  with assms show ?thesis by (auto simp: pending_def fl_popFrame_def fl_isEmpty_def)
next
  case (Some l)
  with assms obtain bs where p: "fl_path (m_heap m) l bs fs" by (auto simp: pending_def)
  show ?thesis
  proof (cases fs)
    case Nil
    with p fl_isEmpty_path [OF p] Some show ?thesis by (simp add: fl_popFrame_def)
  next
    case (Cons f fs')
    with p have "fl_path (m_heap m) l bs (f # fs')" by simp
    from fl_pop_path [OF this] obtain h b cs where
      "fl_popFrame (m_heap m) (Some l) = Inr (Some f, h)" "fl_path h l cs fs'" by blast
    with Cons Some show ?thesis by (auto simp: pending_def)
  qed
qed

lemma pty_inv_start:
  assumes "pty_inv fd i (m, Created, acc)" and "retry_start i m = Inr (r', m')"
  shows "pty_inv fd i (m', r', acc)"
proof -
  from assms(1) obtain c f fs where g: "get_channel m i = Inr c"
    and c: "ch_fd c = fd" "0 \<le> fd" "fd \<noteq> m_serial_fd m" "\<not> ch_reopen c" "ch_rx_fc_off c" "ch_rx_fl c \<noteq> None"
    and p: "pending m i (f # fs)"
    and acc: "acc = written_to fd (m_trace m) @ drop (ch_rx_fl_written c) (f_data f) @ concat (map f_data fs)"
    by (auto simp: pty_inv_def)
  from pending_pop [OF p g] obtain h where pop: "fl_popFrame (m_heap m) (ch_rx_fl c) = Inr (Some f, h)"
    and rest: "\<And>c' m'. get_channel m' i = Inr c' \<Longrightarrow> ch_rx_fl c' = ch_rx_fl c \<Longrightarrow> m_heap m' = h \<Longrightarrow> pending m' i fs"
    by auto
  let ?c = "c\<lparr>ch_rx_thread := True, ch_rx_fl_written := 0\<rparr>"
  have i: "i < length (m_channels m)" using get_channel_valid [OF g] .
  from assms(2) g pop have r': "r' = Writing f (ch_rx_fl_written c)"
    and m': "m' = set_channel i ?c (m\<lparr>m_heap := h\<rparr>)" by (simp_all add: retry_start_def)
  have g': "get_channel m' i = Inr ?c" using i m' by simp
  have "pending m' i fs" using rest [OF g'] m' by simp
  with g' r' m' c acc show ?thesis by (auto simp: pty_inv_def intro!: exI [of _ fs])
qed

lemma pty_inv_next:
  assumes "get_channel m i = Inr c" and "pending m i fs" and "retry_next i m = Inr (r', m')"
    and "ch_fd c = fd" "0 \<le> fd" "fd \<noteq> m_serial_fd m" "\<not> ch_reopen c" "ch_rx_fc_off c" "ch_rx_thread c"
      "ch_rx_fl c \<noteq> None"
    and "acc = written_to fd (m_trace m) @ concat (map f_data fs)"
  shows "pty_inv fd i (m', r', acc)"
proof (cases fs)
  case Nil
  let ?c = "c\<lparr>ch_rx_fc_off := False\<rparr>"
  have i: "i < length (m_channels m)" using get_channel_valid [OF assms(1)] .
  from pending_pop [OF assms(2,1)] Nil assms(1,3) have r': "r' = Finishing"
    and m': "m' = set_channel i ?c m" by (simp_all add: retry_next_def)
  have g': "get_channel m' i = Inr ?c" using i m' by simp
  moreover have "pending m' i []"
    using pending_cong [OF assms(2,1) g'] Nil m' by simp
  ultimately show ?thesis using assms(4-11) Nil r' m' by (auto simp: pty_inv_def)
next
  case (Cons f fs')
  from pending_pop [OF assms(2,1)] Cons obtain h where
    pop: "fl_popFrame (m_heap m) (ch_rx_fl c) = Inr (Some f, h)"
    and rest: "\<And>c' m'. get_channel m' i = Inr c' \<Longrightarrow> ch_rx_fl c' = ch_rx_fl c \<Longrightarrow> m_heap m' = h \<Longrightarrow> pending m' i fs'"
    by auto
  from assms(1,3) pop have r': "r' = Writing f 0" and m': "m' = m\<lparr>m_heap := h\<rparr>"
    by (simp_all add: retry_next_def)
  have g': "get_channel m' i = Inr c" using assms(1) m' by simp
  have "pending m' i fs'" using rest [OF g'] m' by simp
  with g' r' m' assms(4-11) Cons show ?thesis by (auto simp: pty_inv_def intro!: exI [of _ fs'])
qed

lemma pty_inv_retry:
  assumes "pty_inv fd i (m, Writing f w, acc)" and "retry_write others i f w m = Inr (r', m')"
  shows "pty_inv fd i (m', r', acc)"
proof -
  from assms(1) obtain c fs where g: "get_channel m i = Inr c"
    and c: "ch_fd c = fd" "0 \<le> fd" "fd \<noteq> m_serial_fd m" "\<not> ch_reopen c" "ch_rx_fc_off c" "ch_rx_thread c"
      "ch_rx_fl c \<noteq> None"
    and p: "pending m i fs"
    and acc: "acc = written_to fd (m_trace m) @ drop w (f_data f) @ concat (map f_data fs)"
    by (auto simp: pty_inv_def)
  obtain n m1 where wr: "sys_write fd (drop w (f_data f)) m = (n, m1)" by fastforce
  note s = sys_write_pty [OF wr c(2)]
  have g1: "get_channel m1 i = Inr c" "pending m1 i fs" "fd \<noteq> m_serial_fd m1"
    using g c(3) s pending_cong [OF p g] by simp_all
  show ?thesis
  proof (cases "0 \<le> n")
    case True
    have wd: "written_to fd (m_trace m1) @ drop (w + nat n) (f_data f) =
        written_to fd (m_trace m) @ drop w (f_data f)"
      using s(4) True append_take_drop_id [of "nat n" "drop w (f_data f)"]
      by (simp add: drop_drop add.commute)
    show ?thesis
    proof (cases "w + nat n < length (f_data f)")
      case more: True
      with assms(2) g c(1) wr True have "r' = Writing f (w + nat n)" "m' = m1"
        by (simp_all add: retry_write_def Let_def)
      with g1 c acc wd show ?thesis by (auto simp: pty_inv_def intro!: exI [of _ fs])
    next
      case all: False
      with assms(2) g c(1) wr True have nx: "retry_next i m1 = Inr (r', m')"
        by (simp add: retry_write_def Let_def)
      have "acc = written_to fd (m_trace m1) @ concat (map f_data fs)"
        using acc wd all by (simp add: append_assoc [symmetric] del: append_assoc)
      from pty_inv_next [OF g1(1,2) nx c(1,2) g1(3) c(4-7) this] show ?thesis .
    qed
  next
    case False
    with assms(2) g g1(1) c(1,4) wr have "r' = Writing f w" "m' = m1"
      by (auto simp: retry_write_def reopen_or_assert_def split: if_splits)
    with False s(4) g1 c acc show ?thesis by (auto simp: pty_inv_def intro!: exI [of _ fs])
  qed
qed

lemma pty_inv_finish:
  assumes "pty_inv fd i (m, Finishing, acc)" and "retry_finish i m = Inr m'"
  shows "pty_inv fd i (m', No_Thread, acc)"
proof -
  from assms(1) obtain c where g: "get_channel m i = Inr c"
    and c: "ch_fd c = fd" "0 \<le> fd" "fd \<noteq> m_serial_fd m" "\<not> ch_reopen c" "\<not> ch_rx_fc_off c"
    and p: "pending m i []" and acc: "acc = written_to fd (m_trace m)"
    by (auto simp: pty_inv_def)
  from retry_finish_spec [OF assms(2) g] obtain n where
    nc: "now_channel i m (c\<lparr>ch_rx_thread := False, ch_rx_fc_on_signals := n\<rparr>) m'" by blast
  then have g': "get_channel m' i = Inr (c\<lparr>ch_rx_thread := False, ch_rx_fc_on_signals := n\<rparr>)"
    and h: "m_heap m' = m_heap m" by (simp_all add: now_channel_def)
  have "pending m' i []" using pending_cong [OF p g g'] h by simp
  with nc c acc show ?thesis by (auto simp: pty_inv_def now_channel_def)
qed

lemma pty_step_inv:
  assumes "pty_step others i s s'" and "pty_inv fd i s" and "i \<noteq> MUXD_VT_CH_NUM"
  shows "pty_inv fd i s'"
  using assms
proof (induction rule: pty_step.induct)
  case (deliver f m m' c c' r acc)
  from pty_inv_deliver [OF deliver(5,2,1,3,4,6)] show ?case .
next
  case (start m r' m' acc)
  from pty_inv_start [OF start(2,1)] show ?case .
next
  case (retry f w m r' m' acc)
  from pty_inv_retry [OF retry(2,1)] show ?case .
next
  case (finish m m' acc)
  from pty_inv_finish [OF finish(2,1)] show ?case .
qed

lemma msc_cmd_not_Nil [simp]: "msc_cmd d b \<noteq> []"
  by (simp add: msc_cmd_def msc_channel_cmd_def Let_def)

lemma write_msc_ok:
  assumes "line_up m" and "\<not> m_cmux_mode m" and "get_channel m i = Inr c"
  shows "\<exists>n m'. write_frame 0 (msc_cmd d b) (GSM0710_TYPE_UIH OR GSM0710_PF) m = Inr (n, m') \<and>
    same_but_trace m m' \<and> get_channel m' i = Inr c"
proof -
  have i: "i < length (m_channels m)" using get_channel_valid [OF assms(3)] .
  then obtain c0 where c0: "get_channel m 0 = Inr c0" by (cases "m_channels m") (auto simp: get_channel_def)
  from write_frame_ok [OF assms(1,2) c0, of "msc_cmd d b" "GSM0710_TYPE_UIH OR GSM0710_PF"]
  obtain n m1 where w: "write_frame 0 (msc_cmd d b) (GSM0710_TYPE_UIH OR GSM0710_PF) m = Inr (n, m1)"
    and s: "same_but_trace m m1" by (auto simp: Let_def)
  from line_only_fields(6) [OF line_only_write_frame [OF w]] assms(3) w s show ?thesis by auto
qed

lemma retry_finish_ok:
  assumes "line_up m" and "\<not> m_cmux_mode m" and "get_channel m i = Inr c"
  shows "\<exists>m'. retry_finish i m = Inr m'"
proof -
  from write_msc_ok [OF assms, of "ch_id c" False] obtain n m1 where
    "write_frame 0 (msc_cmd (ch_id c) False) (GSM0710_TYPE_UIH OR GSM0710_PF) m = Inr (n, m1)"
    and "get_channel m1 i = Inr c" by blast
  then show ?thesis by (simp add: retry_finish_def upd_channel_def assms(3))
qed

lemma start_retry_ok:
  assumes "line_up m" and "\<not> m_cmux_mode m" and "m_syscalls m = []"
    and "\<exists>c. get_channel m i = Inr c \<and> \<not> ch_rx_thread c"
  shows "\<exists>m'. start_retry_write_thread i m = Inr m'"
proof -
  obtain c where c: "get_channel m i = Inr c" "\<not> ch_rx_thread c" using assms(4) by blast
  from write_msc_ok [OF assms(1,2) c(1), of "ch_id c" True] obtain n m1 where
    w: "write_frame 0 (msc_cmd (ch_id c) True) (GSM0710_TYPE_UIH OR GSM0710_PF) m = Inr (n, m1)"
    and s: "same_but_trace m m1" and g: "get_channel m1 i = Inr c" by blast
  have "m_syscalls (set_channel i c' m1) = []" for c'
    using same_but_trace_more(1) [OF s] assms(3) by (simp add: set_channel_def)
  then show ?thesis
    using c w g by (simp add: start_retry_write_thread_def upd_channel_def create_thread_def sys_check_def)
qed

section \<open>Properties\<close>

lemma pty_run_inv:
  assumes "(pty_step others i)\<^sup>*\<^sup>* s s'" and "pty_inv fd i s" and "i \<noteq> MUXD_VT_CH_NUM"
  shows "pty_inv fd i s'"
  using assms by (induction rule: rtranclp_induct) (auto intro: pty_step_inv)

text \<open>C2. However the two threads interleave and whatever the kernel accepts of each write: what the
  terminal of a channel (other than the video call channel) has received is always a prefix of the
  payloads accepted for it, in the order of arrival, and all of them once the retry thread is done.
  A payload is only left out when the terminal is paused and the watermark is reached.\<close>

theorem terminal_gets_payloads_in_order:
  assumes "(pty_step others i)\<^sup>*\<^sup>* (m0, No_Thread, written_to fd (m_trace m0)) (m, r, acc)"
    and "get_channel m0 i = Inr c" and "ch_fd c = fd" and "0 \<le> fd" and "fd \<noteq> m_serial_fd m0"
    and "\<not> ch_reopen c" and "\<not> ch_rx_fc_off c" and "\<not> ch_rx_thread c" and "pending m0 i []"
    and "i \<noteq> MUXD_VT_CH_NUM"
  shows "(\<exists>rest. acc = written_to fd (m_trace m) @ rest) \<and>
    (r = No_Thread \<longrightarrow> written_to fd (m_trace m) = acc)"
proof -
  have "pty_inv fd i (m0, No_Thread, written_to fd (m_trace m0))"
    using assms by (auto simp: pty_inv_def)
  from pty_run_inv [OF assms(1) this assms(10)] show ?thesis
    by (cases r) (auto simp: pty_inv_def)
qed

text \<open>A terminal that takes only part of a frame.\<close>

definition slow_channel :: channel where
  "slow_channel = zero_channel\<lparr>ch_opened := True, ch_fd := 7, ch_negotiated_N1 := 512\<rparr>"

definition slow_terminal :: mux where
  "slow_terminal = one_open\<lparr>m_writes := [CallOk 1]\<rparr>"

definition two_octets :: gsm_frame where
  "two_octets = \<lparr>f_channel = 1, f_control = 0xEF, f_data = [65, 66]\<rparr>"

lemma slow_channel_facts:
  "ch_fd slow_channel = 7" "\<not> ch_reopen slow_channel" "\<not> ch_rx_fc_off slow_channel"
  "\<not> ch_rx_thread slow_channel" "ch_rx_fl slow_channel = None"
  by (simp_all add: slow_channel_def zero_channel_def)

lemma slow_terminal_facts:
  "get_channel slow_terminal 1 = Inr slow_channel" "pending slow_terminal 1 []"
  "m_serial_fd slow_terminal = 5" "m_trace slow_terminal = []"
proof -
  show g: "get_channel slow_terminal 1 = Inr slow_channel"
    using one_open_channel [of 1] by (simp add: slow_terminal_def get_channel_def slow_channel_def)
  then show "pending slow_terminal 1 []" by (simp add: pending_def slow_channel_facts)
  show "m_serial_fd slow_terminal = 5" "m_trace slow_terminal = []"
    by (simp_all add: slow_terminal_def one_open_facts)
qed

lemma slow_deliver:
  "\<exists>m' c'. deliver_frame two_octets slow_terminal = Inr m' \<and> get_channel m' 1 = Inr c' \<and> ch_rx_fc_off c'"
proof -
  let ?m1 = "emit (Wrote 7 [65]) (slow_terminal\<lparr>m_writes := []\<rparr>)"
  have w: "sys_write 7 [65, 66] slow_terminal = (1, ?m1)"
    by (simp add: sys_write_def slow_terminal_def)
  have g1: "get_channel ?m1 1 = Inr slow_channel"
    using slow_terminal_facts(1) by (simp add: get_channel_def)
  have p1: "pending ?m1 1 []" using pending_cong [OF slow_terminal_facts(2,1) g1] by simp
  have up: "line_up ?m1" "\<not> m_cmux_mode ?m1" "m_syscalls ?m1 = []"
    using one_open_facts by (simp_all add: slow_terminal_def line_up_def writes_ok_def emit_def)
  from cacheRemaining_run [OF p1 g1, of two_octets 1] obtain l h where
    r: "fc_cacheRemainingFrameData 1 two_octets 1 ?m1 = Inr (set_channel 1
      (slow_channel\<lparr>ch_rx_fl_total := length (f_data two_octets) - 1, ch_rx_fl := Some l,
         ch_rx_fl_written := 1\<rparr>) (?m1\<lparr>m_heap := h\<rparr>))" (is "_ = Inr ?m2") by blast
  have up2: "line_up ?m2" "\<not> m_cmux_mode ?m2" "m_syscalls ?m2 = []" "\<exists>c. get_channel ?m2 1 = Inr c \<and> \<not> ch_rx_thread c"
    using up get_channel_valid [OF g1]
    by (simp_all add: line_up_def writes_ok_def slow_channel_facts) (simp add: set_channel_def)
  from start_retry_ok [OF up2] obtain m' where s: "start_retry_write_thread 1 ?m2 = Inr m'" by blast
  from up2(4) obtain c where "get_channel ?m2 1 = Inr c" by blast
  from start_retry_spec [OF s this] obtain c' where c': "get_channel m' 1 = Inr c'" "ch_rx_fc_off c'"
    by (auto simp: now_channel_def)
  have "deliver_loop (Suc 1) 1 two_octets slow_terminal = Inr m'"
    using w slow_terminal_facts(1) slow_channel_facts(1) r s
    by (simp add: two_octets_def cache_and_retry_def)
  moreover have "deliver_frame two_octets slow_terminal =
      deliver_loop (Suc (length (m_writes slow_terminal))) 1 two_octets slow_terminal"
    using slow_terminal_facts(1) slow_channel_facts(3)
    by (simp add: deliver_frame_def two_octets_def del: deliver_loop.simps)
  moreover have "length (m_writes slow_terminal) = 1" by (simp add: slow_terminal_def)
  ultimately have "deliver_frame two_octets slow_terminal = Inr m'" by (simp del: deliver_loop.simps)
  with c' show ?thesis by blast
qed

theorem terminal_gets_payloads_in_order_witness:
  "\<exists>m' rest. deliver_frame two_octets slow_terminal = Inr m' \<and> [65, 66] = written_to 7 (m_trace m') @ rest"
proof -
  from slow_deliver obtain m' c' where d: "deliver_frame two_octets slow_terminal = Inr m'"
    and g: "get_channel m' 1 = Inr c'" "ch_rx_fc_off c'" by blast
  have ch: "unat (f_channel two_octets) = 1" by (simp add: two_octets_def)
  from pty_step.deliver [OF ch d slow_terminal_facts(1) g(1), where others = Inr and r = No_Thread and acc = "[]"]
  have "pty_step Inr 1 (slow_terminal, No_Thread, []) (m', Created, [65, 66])"
    using g(2) by (simp add: slow_channel_facts dropped_def two_octets_def)
  then have "(pty_step Inr 1)\<^sup>*\<^sup>* (slow_terminal, No_Thread, written_to 7 (m_trace slow_terminal)) (m', Created, [65, 66])"
    by (simp add: slow_terminal_facts r_into_rtranclp)
  from terminal_gets_payloads_in_order [OF this slow_terminal_facts(1) _ _ _ _ _ _ slow_terminal_facts(2)]
  show ?thesis using d by (simp add: slow_channel_facts slow_terminal_facts MUXD_VT_CH_NUM_def)
qed

section \<open>The queue drains\<close>

lemma emit_heap [simp]: "(emit e m)\<lparr>m_heap := m_heap m\<rparr> = emit e m"
  by (simp add: emit_def)

lemma retry_write_ok:
  assumes "get_channel m i = Inr c" and "0 \<le> ch_fd c" and "writes_ok m"
  shows "retry_write others i f w m = retry_next i (emit (Wrote (ch_fd c) (drop w (f_data f))) m)"
  using assms by (auto simp: retry_write_def sys_write_def writes_ok_def Let_def)

lemma drains_from_writing:
  assumes "pty_inv fd i (m, Writing f w, acc)" and "writes_ok m" and "pending m i fs"
  shows "\<exists>m'. (pty_step others i)\<^sup>*\<^sup>* (m, Writing f w, acc) (m', Finishing, acc) \<and> writes_ok m' \<and>
    m_serial_fd m' = m_serial_fd m \<and> m_cmux_mode m' = m_cmux_mode m \<and> m_stop_muxd m' = m_stop_muxd m \<and>
    length (m_channels m') = length (m_channels m)"
  using assms
proof (induction fs arbitrary: m f w)
  case Nil
  then obtain c where g: "get_channel m i = Inr c" "0 \<le> ch_fd c" by (auto simp: pty_inv_def)
  let ?m1 = "emit (Wrote (ch_fd c) (drop w (f_data f))) m"
  have g1: "get_channel ?m1 i = Inr c" using g by simp
  have "pending ?m1 i []" using pending_cong [OF Nil.prems(3) g(1) g1] by simp
  from pending_pop [OF this g1] have "retry_next i ?m1 =
      Inr (Finishing, set_channel i (c\<lparr>ch_rx_fc_off := False\<rparr>) ?m1)"
    by (simp add: retry_next_def g)
  then have "pty_step others i (m, Writing f w, acc)
      (set_channel i (c\<lparr>ch_rx_fc_off := False\<rparr>) ?m1, Finishing, acc)"
    by (intro pty_step.retry) (simp add: retry_write_ok [OF g Nil.prems(2)])
  then show ?case
    using Nil.prems(2)
    by (intro exI [of _ "set_channel i (c\<lparr>ch_rx_fc_off := False\<rparr>) ?m1"])
      (auto simp: writes_ok_def set_channel_def emit_def)
next
  case (Cons f' fs)
  then obtain c where g: "get_channel m i = Inr c" "0 \<le> ch_fd c" by (auto simp: pty_inv_def)
  let ?m1 = "emit (Wrote (ch_fd c) (drop w (f_data f))) m"
  have g1: "get_channel ?m1 i = Inr c" using g by simp
  have "pending ?m1 i (f' # fs)" using pending_cong [OF Cons.prems(3) g(1) g1] by simp
  from pending_pop [OF this g1] obtain h where
    pop: "fl_popFrame (m_heap ?m1) (ch_rx_fl c) = Inr (Some f', h)"
    and p2: "\<And>c' m'. get_channel m' i = Inr c' \<Longrightarrow> ch_rx_fl c' = ch_rx_fl c \<Longrightarrow> m_heap m' = h \<Longrightarrow> pending m' i fs"
    by auto
  let ?m2 = "?m1\<lparr>m_heap := h\<rparr>"
  have "retry_next i ?m1 = Inr (Writing f' 0, ?m2)" using pop by (simp add: retry_next_def g)
  then have run: "retry_write others i f w m = Inr (Writing f' 0, ?m2)"
    by (simp add: retry_write_ok [OF g Cons.prems(2)])
  have ok2: "writes_ok ?m2" using Cons.prems(2) by (simp add: writes_ok_def)
  have "pending ?m2 i fs" using p2 [of ?m2 c] g by simp
  from Cons.IH [OF pty_inv_retry [OF Cons.prems(1) run] ok2 this] obtain m' where
    st: "(pty_step others i)\<^sup>*\<^sup>* (?m2, Writing f' 0, acc) (m', Finishing, acc)"
    and m': "writes_ok m'" "m_serial_fd m' = m_serial_fd m" "m_cmux_mode m' = m_cmux_mode m"
      "m_stop_muxd m' = m_stop_muxd m" "length (m_channels m') = length (m_channels m)" by auto
  from converse_rtranclp_into_rtranclp [OF pty_step.retry [OF run] st] m' show ?case by blast
qed

text \<open>C18. Once the kernel accepts what it is given, a paused channel comes to its end: the retry thread
  writes every queued payload, tells the modem to go on and is done, and the terminal has got
  everything that was accepted.\<close>

theorem paused_terminal_drains:
  assumes "pty_inv fd i (m, r, acc)" and "line_up m" and "\<not> m_cmux_mode m" and "r \<noteq> No_Thread"
    and "i \<noteq> MUXD_VT_CH_NUM"
  shows "\<exists>m'. (pty_step others i)\<^sup>*\<^sup>* (m, r, acc) (m', No_Thread, acc) \<and>
    written_to fd (m_trace m') = acc"
proof -
  have ok: "writes_ok m" using assms(2) by (simp add: line_up_def)
  have fin: "\<exists>m'. (pty_step others i)\<^sup>*\<^sup>* (m, r, acc) (m', No_Thread, acc)"
    if st: "(pty_step others i)\<^sup>*\<^sup>* (m, r, acc) (m1, Finishing, acc)" and up: "line_up m1" "\<not> m_cmux_mode m1"
    for m1
  proof -
    from pty_run_inv [OF st assms(1,5)] obtain c where "get_channel m1 i = Inr c"
      by (auto simp: pty_inv_def)
    from retry_finish_ok [OF up this] obtain m2 where "retry_finish i m1 = Inr m2" ..
    from rtranclp.rtrancl_into_rtrancl [OF st pty_step.finish [OF this]] show ?thesis by blast
  qed
  have wr: "\<exists>m'. (pty_step others i)\<^sup>*\<^sup>* (m, r, acc) (m', No_Thread, acc)"
    if st: "(pty_step others i)\<^sup>*\<^sup>* (m, r, acc) (m1, Writing f w, acc)" and up: "line_up m1" "\<not> m_cmux_mode m1"
    for m1 f w
  proof -
    note inv = pty_run_inv [OF st assms(1,5)]
    from inv obtain fs where p: "pending m1 i fs" by (auto simp: pty_inv_def)
    have "writes_ok m1" using up(1) by (simp add: line_up_def)
    from drains_from_writing [OF inv this p] obtain m2 where
      st2: "(pty_step others i)\<^sup>*\<^sup>* (m1, Writing f w, acc) (m2, Finishing, acc)" and m2: "writes_ok m2"
      "m_serial_fd m2 = m_serial_fd m1" "m_cmux_mode m2 = m_cmux_mode m1" "m_stop_muxd m2 = m_stop_muxd m1"
      by blast
    have "line_up m2" "\<not> m_cmux_mode m2" using up m2 by (simp_all add: line_up_def)
    from fin [OF rtranclp_trans [OF st st2] this] show ?thesis .
  qed
  have "\<exists>m'. (pty_step others i)\<^sup>*\<^sup>* (m, r, acc) (m', No_Thread, acc)"
  proof (cases r)
    case Created
    with assms(1) obtain c f fs where g: "get_channel m i = Inr c" and p: "pending m i (f # fs)"
      by (auto simp: pty_inv_def)
    from pending_pop [OF p g] obtain h where "fl_popFrame (m_heap m) (ch_rx_fl c) = Inr (Some f, h)" by auto
    then have st: "retry_start i m = Inr (Writing f (ch_rx_fl_written c),
        set_channel i (c\<lparr>ch_rx_thread := True, ch_rx_fl_written := 0\<rparr>) (m\<lparr>m_heap := h\<rparr>))"
      (is "_ = Inr (_, ?m1)") by (simp add: retry_start_def g)
    from pty_step.start [OF st] Created have "(pty_step others i)\<^sup>*\<^sup>* (m, r, acc)
        (?m1, Writing f (ch_rx_fl_written c), acc)" by blast
    moreover have "line_up ?m1" "\<not> m_cmux_mode ?m1"
      using assms(2,3) by (simp_all add: line_up_def writes_ok_def)
    ultimately show ?thesis by (rule wr)
  next
    case (Writing f w)
    from wr [OF _ assms(2,3)] Writing show ?thesis by blast
  next
    case Finishing
    from fin [OF _ assms(2,3)] Finishing show ?thesis by blast
  qed (use assms(4) in simp)
  then obtain m' where st: "(pty_step others i)\<^sup>*\<^sup>* (m, r, acc) (m', No_Thread, acc)" ..
  from pty_run_inv [OF st assms(1,5)] have "written_to fd (m_trace m') = acc"
    by (auto simp: pty_inv_def)
  with st show ?thesis by blast
qed

definition drain_state :: mux where
  "drain_state = one_open\<lparr>m_channels := (replicate 32 (zero_channel\<lparr>ch_negotiated_N1 := 512\<rparr>))
     [1 := zero_channel\<lparr>ch_opened := True, ch_fd := 7, ch_negotiated_N1 := 512, ch_rx_fc_off := True,
        ch_rx_thread := True, ch_rx_fl := Some 0\<rparr>],
     m_heap := [Some \<lparr>fn_frame = None, fn_next = 0\<rparr>]\<rparr>"

theorem paused_terminal_drains_witness:
  "\<exists>m'. (pty_step Inr 1)\<^sup>*\<^sup>* (drain_state, Writing two_octets 1, [66]) (m', No_Thread, [66]) \<and>
     written_to 7 (m_trace m') = [66]"
proof (rule paused_terminal_drains)
  have g: "get_channel drain_state 1 = Inr (zero_channel\<lparr>ch_opened := True, ch_fd := 7,
      ch_negotiated_N1 := 512, ch_rx_fc_off := True, ch_rx_thread := True, ch_rx_fl := Some 0\<rparr>)"
    by (simp add: drain_state_def get_channel_def)
  have "m_heap drain_state = [Some \<lparr>fn_frame = None, fn_next = 0\<rparr>]" by (simp add: drain_state_def)
  then have "pending drain_state 1 []"
    using fl_init_path(2) [of "[]"] g by (auto simp: pending_def)
  then show "pty_inv 7 1 (drain_state, Writing two_octets 1, [66])"
    using g by (auto simp: pty_inv_def two_octets_def drain_state_def one_open_facts zero_channel_def
        intro!: exI [of _ "[]"])
  show "line_up drain_state" "\<not> m_cmux_mode drain_state"
    using one_open_facts(1,2) by (simp_all add: drain_state_def line_up_def writes_ok_def)
qed (simp_all add: MUXD_VT_CH_NUM_def)

section \<open>Two errors\<close>

text \<open>A frame for a terminal that is not open, whose descriptor is -1, keeps the thread that
  assembles frames busy for ever: no number of rounds of its loop is enough.\<close>

theorem closed_terminal_hangs:
  assumes "get_channel m i = Inr c" and "ch_fd c < 0"
  shows "deliver_loop n i frame m = Inl Hang"
  using assms
  by (induction n arbitrary: m) (simp_all add: sys_write_def get_channel_def)

theorem closed_terminal_hangs_witness:
  "deliver_loop 1000 9 two_octets all_up = Inl Hang"
  by (rule closed_terminal_hangs [of _ _ "zero_channel\<lparr>ch_fd := -1\<rparr>"])
    (simp_all add: get_channel_def all_up_def)

definition uih_pf :: "nat \<Rightarrow> bytes \<Rightarrow> gsm_frame" where
  "uih_pf ch xs = \<lparr>f_channel = word_of_nat ch, f_control = GSM0710_TYPE_UIH OR GSM0710_PF, f_data = xs\<rparr>"

lemma write_frame_msc:
  assumes "line_up m" and "\<not> m_cmux_mode m" and "get_channel m 0 = Inr c0" and "4 \<le> ch_negotiated_N1 c0"
    and "length xs = 4"
  shows "\<exists>n m' es. write_frame 0 xs (GSM0710_TYPE_UIH OR GSM0710_PF) m = Inr (n, m') \<and>
    same_but_trace m m' \<and> m_trace m' = m_trace m @ es \<and>
    written_to (m_serial_fd m) es = basic_encode (uih_pf 0 xs)"
proof -
  have xs: "xs \<noteq> []" using assms(5) by auto
  have n: "min (ch_negotiated_N1 c0) (length xs) = 4" "take 4 xs = xs" using assms(4,5) by simp_all
  have pf: "(GSM0710_TYPE_UIH OR GSM0710_PF) OR GSM0710_PF = GSM0710_TYPE_UIH OR GSM0710_PF" by simp
  from write_frame_ok [OF assms(1-3), of xs "GSM0710_TYPE_UIH OR GSM0710_PF"] xs show ?thesis
    unfolding Let_def n pf uih_pf_def by auto
qed

text \<open>When a terminal fills up again while the retry thread of its last pause is on its last lines,
  \<open>start_retry_write_thread\<close> asks the modem to stop before it waits for that thread, which then
  asks it to go on: the channel is paused, but the last the modem hears is that it may send.\<close>

theorem pause_is_overridden:
  assumes "line_up m" and "\<not> m_cmux_mode m" and "get_channel m 0 = Inr c0" and "4 \<le> ch_negotiated_N1 c0"
    and "get_channel m i = Inr c" and "ch_rx_thread c" and "m_syscalls m = []"
  shows "\<exists>m' c'. start_retry_write_thread i m = Inr m' \<and> get_channel m' i = Inr c' \<and> ch_rx_fc_off c' \<and>
    written_to (m_serial_fd m) (m_trace m') = written_to (m_serial_fd m) (m_trace m) @
      basic_encode (uih_pf 0 (msc_cmd (ch_id c) True)) @ basic_encode (uih_pf 0 (msc_cmd (ch_id c) False))"
proof -
  have len: "length (msc_cmd d b) = 4" for d b by (simp add: msc_cmd_def msc_channel_cmd_def Let_def)
  from write_frame_msc [OF assms(1-4) len] obtain n m1 es where
    w: "write_frame 0 (msc_cmd (ch_id c) True) (GSM0710_TYPE_UIH OR GSM0710_PF) m = Inr (n, m1)"
    and s: "same_but_trace m m1" and t: "m_trace m1 = m_trace m @ es"
    and e: "written_to (m_serial_fd m) es = basic_encode (uih_pf 0 (msc_cmd (ch_id c) True))" by blast
  note f = same_but_trace_fields [OF s]
  have g: "get_channel m1 j = get_channel m j" for j using f(1) by (simp add: get_channel_def)
  have a: "line_up m1" "\<not> m_cmux_mode m1" "get_channel m1 0 = Inr c0" using f assms(1-3) g by simp_all
  from write_frame_msc [OF a assms(4) len] obtain n' m2 es' where
    w': "write_frame 0 (msc_cmd (ch_id c) False) (GSM0710_TYPE_UIH OR GSM0710_PF) m1 = Inr (n', m2)"
    and s': "same_but_trace m1 m2" and t': "m_trace m2 = m_trace m1 @ es'"
    and e': "written_to (m_serial_fd m1) es' = basic_encode (uih_pf 0 (msc_cmd (ch_id c) False))" by blast
  note f' = same_but_trace_fields [OF s']
  have g': "get_channel m2 i = Inr c" using f'(1) g assms(5) by (simp add: get_channel_def)
  have i: "i < length (m_channels m2)" using get_channel_valid [OF g'] .
  let ?c = "c\<lparr>ch_rx_thread := False, ch_rx_fc_on_signals := Suc (ch_rx_fc_on_signals c)\<rparr>"
  have fin: "retry_finish i m1 = Inr (set_channel i ?c m2)"
    using g assms(5) w' g' by (simp add: retry_finish_def upd_channel_def)
  have sc: "m_syscalls m2 = []"
    using same_but_trace_more(1) [OF s] same_but_trace_more(1) [OF s'] assms(7) by simp
  let ?m3 = "set_channel i (?c\<lparr>ch_rx_fc_off := True\<rparr>) m2"
  have "start_retry_write_thread i m = Inr (emit (Thread_Created (Retry_Write i)) ?m3)"
    using assms(5,6) w g fin i sc
    by (simp add: start_retry_write_thread_def upd_channel_def create_thread_def sys_check_def)
      (simp add: set_channel_def sc)
  then show ?thesis
    using i t t' e e' f(2) by (simp add: set_channel_def [of i _ m2, symmetric])
qed

theorem pause_is_overridden_witness:
  "\<exists>m'. start_retry_write_thread 1 drain_state = Inr m' \<and> written_to 5 (m_trace m') =
     basic_encode (uih_pf 0 (msc_cmd 0 True)) @ basic_encode (uih_pf 0 (msc_cmd 0 False))"
proof -
  have g: "get_channel drain_state 1 = Inr (zero_channel\<lparr>ch_opened := True, ch_fd := 7,
      ch_negotiated_N1 := 512, ch_rx_fc_off := True, ch_rx_thread := True, ch_rx_fl := Some 0\<rparr>)"
    and g0: "get_channel drain_state 0 = Inr (zero_channel\<lparr>ch_negotiated_N1 := 512\<rparr>)"
    by (simp_all add: drain_state_def get_channel_def)
  have "line_up drain_state" "\<not> m_cmux_mode drain_state" "m_syscalls drain_state = []"
    "m_serial_fd drain_state = 5" "m_trace drain_state = []"
    using one_open_facts by (simp_all add: drain_state_def line_up_def writes_ok_def)
  then show ?thesis
    using pause_is_overridden [OF _ _ g0 _ g] by (auto simp: zero_channel_def)
qed

end
