(* ===== verification/Mux_Extract.thy ===== *)
theory Mux_Extract
  imports Mux_Retry
begin

text \<open>
  \<open>extract_frames\<close>: taking the frames out of the receive buffer and acting on each, data frames,
  control channel commands, and the frames that open and close channels (UA, DM, DISC, SABM).
  The static counter \<open>sabm_ua_received\<close> is \<open>m_sabm_ua_received\<close>.
\<close>

section \<open>Frames that open and close channels\<close>

text \<open>The number of answers after which the set-up is complete.\<close>

definition setup_target :: "build_cfg \<Rightarrow> nat" where
  "setup_target c = (if android_vt_support c then MUXD_CH_NUM_ALL c - 1 else MUXD_CH_NUM_ALL c)"

definition setup_complete :: "mux \<Rightarrow> mux" where
  "setup_complete m =
     m\<lparr>m_mux_setup_chnl_complete := True, m_setup_complete_signals := Suc (m_setup_complete_signals m)\<rparr>"

text \<open>The index of the first channel from 1 on that waits for the answer to its DISC.\<close>

fun none_disc_pending :: "nat list \<Rightarrow> mux \<Rightarrow> bool res" where
  "none_disc_pending [] m = Inr True"
| "none_disc_pending (i # is) m =
     bindE (get_channel m i) (\<lambda>c. if ch_disc_ua_pending c then Inr False else none_disc_pending is m)"

definition ua_for_opened :: "nat \<Rightarrow> channel \<Rightarrow> mux \<Rightarrow> mux res" where
  "ua_for_opened i c m =
     bindE (if ch_disc_ua_pending c then
              (if i = 0 then Inl (Assert 22)
               else bindE (logical_channel_close i m) (upd_channel i (\<lambda>c. c\<lparr>ch_disc_ua_pending := False\<rparr>)))
            else Inr m) (\<lambda>m1.
       if m_close_down_send_disc m1 then
         bindE (none_disc_pending [1..<GSM0710_MAX_CHANNELS (m_cfg m1)] m1) (\<lambda>none.
           Inr (if none then m1\<lparr>m_ua_rsp_for_disc_signals := Suc (m_ua_rsp_for_disc_signals m1)\<rparr> else m1))
       else Inr m1)"

definition ua_for_closed :: "nat \<Rightarrow> channel \<Rightarrow> mux \<Rightarrow> mux" where
  "ua_for_closed i c m =
     (if ch_sabm_ua_pending c then
        (let m1 = set_channel i (c\<lparr>ch_opened := True, ch_sabm_ua_pending := False\<rparr>) m;
             m2 = m1\<lparr>m_sabm_ua_received := Suc (m_sabm_ua_received m1)\<rparr>
         in if m_sabm_ua_received m2 = setup_target (m_cfg m2) then setup_complete m2 else m2)
      else if ch_disc_ua_pending c then set_channel i (c\<lparr>ch_disc_ua_pending := False\<rparr>) m
      else m)"

definition handle_ua :: "nat \<Rightarrow> mux \<Rightarrow> mux res" where
  "handle_ua i m =
     bindE (get_channel m i) (\<lambda>c.
       if ch_opened c then ua_for_opened i c m else Inr (ua_for_closed i c m))"

definition handle_dm :: "nat \<Rightarrow> mux \<Rightarrow> mux res" where
  "handle_dm i m =
     bindE (get_channel m i) (\<lambda>c.
       if ch_opened c then logical_channel_close i m
       else if i = 0 then Inr (m\<lparr>m_serial_state := MUX_STATE_CLOSING\<rparr>)
       else if i = 26 then
         Inr ((emit (Property_Set ''lackof.atci.channel'' ''1'') (setup_complete m))
                \<lparr>m_LackofAtciChannel := True\<rparr>)
       else Inr m)"

definition handle_disc :: "nat \<Rightarrow> mux \<Rightarrow> mux res" where
  "handle_disc i m =
     bindE (get_channel m i) (\<lambda>c.
       if ch_opened c then
         bindE (rx_thread_write_frame i [] (GSM0710_TYPE_UA OR GSM0710_PF)
                  (set_channel i (c\<lparr>ch_opened := False\<rparr>) m)) (\<lambda>(_, m1).
           if i = 0 then Inr (m1\<lparr>m_serial_state := MUX_STATE_PEER_CLOSING\<rparr>)
           else logical_channel_close i m1)
       else
         bindE (rx_thread_write_frame i [] (GSM0710_TYPE_DM OR GSM0710_PF) m) (\<lambda>(_, m1). Inr m1))"

definition handle_sabm :: "nat \<Rightarrow> mux \<Rightarrow> mux res" where
  "handle_sabm i m =
     bindE (upd_channel i (\<lambda>c. c\<lparr>ch_opened := True\<rparr>) m) (\<lambda>m1.
     bindE (rx_thread_write_frame i [] (GSM0710_TYPE_UA OR GSM0710_PF) m1) (\<lambda>(_, m2). Inr m2))"

section \<open>All frames\<close>

definition handle_information :: "gsm_frame \<Rightarrow> mux \<Rightarrow> mux res" where
  "handle_information frame m =
     (let m1 = (if f_control frame AND GSM0710_PF \<noteq> 0 then m\<lparr>m_uih_pf_bit_received := True\<rparr> else m)
      in if f_channel frame > 0 then deliver_frame frame m1 else handle_command frame m1)"

definition handle_frame :: "gsm_frame \<Rightarrow> mux \<Rightarrow> mux res" where
  "handle_frame frame m =
     (let i = unat (f_channel frame); control = f_control frame AND NOT GSM0710_PF
      in if GSM0710_FRAME_IS GSM0710_TYPE_UI frame \<or> GSM0710_FRAME_IS GSM0710_TYPE_UIH frame
         then handle_information frame m
         else if control = GSM0710_TYPE_UA then handle_ua i m
         else if control = GSM0710_TYPE_DM then handle_dm i m
         else if control = GSM0710_TYPE_DISC then handle_disc i m
         else if control = GSM0710_TYPE_SABM then handle_sabm i m
         else Inr m)"

definition next_frame :: "mux \<Rightarrow> (gsm_frame option \<times> mux) res" where
  "next_frame m =
     (if m_cmux_mode m then
        (case advanced_buffer_get_frame (m_in_buf m) of (f, b) \<Rightarrow> Inr (f, m\<lparr>m_in_buf := b\<rparr>))
      else
        bindE (base_buffer_get_frame (chan_n1 m) (m_in_buf m) 0) (\<lambda>(f, b).
          Inr (f, m\<lparr>m_in_buf := b\<rparr>)))"

text \<open>
  Every frame uses up an octet of the buffer at least, and nothing fills it meanwhile: the number of
  octets held bounds the rounds of the loop.
\<close>

primrec extract_loop :: "nat \<Rightarrow> mux \<Rightarrow> (nat \<times> mux) res" where
  "extract_loop 0 m = Inl Hang"
| "extract_loop (Suc n) m =
     bindE (next_frame m) (\<lambda>(f, m1).
       case f of
         None \<Rightarrow> Inr (0, m1)
       | Some frame \<Rightarrow>
           bindE (handle_frame frame (m1\<lparr>m_in_buf := signal_bufferready (m_in_buf m1)\<rparr>)) (\<lambda>m2.
           bindE (extract_loop n m2) (\<lambda>(frames_extracted, m3). Inr (Suc frames_extracted, m3))))"

definition extract_frames :: "mux \<Rightarrow> (nat \<times> mux) res" where
  "extract_frames m = extract_loop (Suc (b_datacount (m_in_buf m))) m"

section \<open>Opening channels\<close>

text \<open>C19. An unnumbered acknowledgement for a closed channel that waits for the answer to its SABM opens
  that channel, counts it, and completes the set-up exactly when it is the last one expected; for a
  closed channel that waits for nothing it changes nothing.\<close>

theorem ua_opens_channel:
  assumes "get_channel m i = Inr c" and "\<not> ch_opened c" and "GSM0710_FRAME_IS GSM0710_TYPE_UA f"
    and "unat (f_channel f) = i"
  shows "(ch_sabm_ua_pending c \<longrightarrow> (\<exists>m'. handle_frame f m = Inr m' \<and>
      get_channel m' i = Inr (c\<lparr>ch_opened := True, ch_sabm_ua_pending := False\<rparr>) \<and>
      (\<forall>j. j \<noteq> i \<longrightarrow> get_channel m' j = get_channel m j) \<and>
      m_sabm_ua_received m' = m_sabm_ua_received m + 1 \<and>
      (m_mux_setup_chnl_complete m' \<longleftrightarrow> m_mux_setup_chnl_complete m \<or>
         m_sabm_ua_received m + 1 = setup_target (m_cfg m)))) \<and>
    (\<not> ch_sabm_ua_pending c \<and> \<not> ch_disc_ua_pending c \<longrightarrow> handle_frame f m = Inr m)"
proof -
  have i: "i < length (m_channels m)" using get_channel_valid [OF assms(1)] .
  have "handle_frame f m = handle_ua i m"
    using assms(3,4) by (simp add: handle_frame_def GSM0710_FRAME_IS_def)
  also have "\<dots> = Inr (ua_for_closed i c m)" using assms(1,2) by (simp add: handle_ua_def)
  finally have run: "handle_frame f m = Inr (ua_for_closed i c m)" .
  show ?thesis
    unfolding run using i
    by (auto simp: ua_for_closed_def setup_complete_def Let_def get_channel_def set_channel_def array_get_def)
qed

definition waiting :: mux where
  "waiting = (mux_init no_cfg)\<lparr>m_channels := [zero_channel\<lparr>ch_sabm_ua_pending := True\<rparr>], m_sabm_ua_received := 6\<rparr>"

theorem ua_opens_channel_witness:
  "\<exists>m'. handle_frame \<lparr>f_channel = 0, f_control = 0x73, f_data = []\<rparr> waiting = Inr m' \<and>
     m_mux_setup_chnl_complete m'"
proof -
  have g: "get_channel waiting 0 = Inr (zero_channel\<lparr>ch_sabm_ua_pending := True\<rparr>)"
    by (simp add: get_channel_def waiting_def)
  have "setup_target (m_cfg waiting) = 7" "m_sabm_ua_received waiting = 6"
    by (simp_all add: waiting_def mux_init_def setup_target_def no_cfg_def MUXD_CH_NUM_ALL_def
        MUXD_CH_NUM_RILD_def MUXD_CH_NUM_VT_def MUXD_CH_NUM_IMS_def MUXD_CH_NUM_NW_def)
  then show ?thesis
    using ua_opens_channel [OF g, of "\<lparr>f_channel = 0, f_control = 0x73, f_data = []\<rparr>"]
    by (auto simp: zero_channel_def GSM0710_FRAME_IS_def)
qed

section \<open>Data for a terminal\<close>

lemma deliver_ok:
  assumes "get_channel m i = Inr c" and "0 \<le> ch_fd c" and "\<not> ch_rx_fc_off c" and "writes_ok m"
    and "unat (f_channel f) = i"
  shows "deliver_frame f m = Inr (emit (Wrote (ch_fd c) (f_data f)) m)"
  using assms by (simp add: deliver_frame_def sys_write_def writes_ok_def)

text \<open>A daemon in basic mode whose channel \<open>i\<close> has an open, accepting terminal.\<close>

definition terminal_up :: "nat \<Rightarrow> channel \<Rightarrow> mux \<Rightarrow> bool" where
  "terminal_up i c m \<longleftrightarrow> get_channel m i = Inr c \<and> 0 \<le> ch_fd c \<and> \<not> ch_rx_fc_off c \<and> writes_ok m \<and>
     \<not> m_cmux_mode m \<and> buf_inv (m_in_buf m)"

lemma signal_bufferready_flag [simp]: "b_flag_found (signal_bufferready b) = b_flag_found b"
  by (simp add: signal_bufferready_def)

lemma handle_data_frame:
  assumes "terminal_up i c m" and "GSM0710_FRAME_IS GSM0710_TYPE_UIH f" and "f_channel f > 0"
    and "unat (f_channel f) = i"
  shows "\<exists>m'. handle_frame f m = Inr m' \<and> terminal_up i c m' \<and> m_in_buf m' = m_in_buf m \<and>
    m_channels m' = m_channels m \<and> m_trace m' = m_trace m @ [Wrote (ch_fd c) (f_data f)]"
proof -
  let ?m1 = "if f_control f AND GSM0710_PF \<noteq> 0 then m\<lparr>m_uih_pf_bit_received := True\<rparr> else m"
  have t: "get_channel ?m1 i = Inr c" "0 \<le> ch_fd c" "\<not> ch_rx_fc_off c" "writes_ok ?m1"
    using assms(1) by (auto simp: terminal_up_def get_channel_def writes_ok_def)
  from deliver_ok [OF this assms(4)] assms(2,3)
  have "handle_frame f m = Inr (emit (Wrote (ch_fd c) (f_data f)) ?m1)"
    by (simp add: handle_frame_def handle_information_def Let_def)
  moreover have "terminal_up i c (emit (Wrote (ch_fd c) (f_data f)) ?m1)"
    using assms(1) by (auto simp: terminal_up_def writes_ok_def get_channel_def)
  ultimately show ?thesis by auto
qed

lemma chan_n1_cong: "m_channels m = m_channels m' \<Longrightarrow> chan_n1 m = chan_n1 m'"
  by (simp add: chan_n1_def get_channel_def fun_eq_iff)

lemma extract_loop_data:
  assumes "terminal_up i c m" and "contents (m_in_buf m) = concat (map basic_encode fs)"
    and "list_all (basic_valid (chan_n1 m)) fs"
    and "\<forall>f \<in> set fs. GSM0710_FRAME_IS GSM0710_TYPE_UIH f \<and> f_channel f > 0 \<and> unat (f_channel f) = i"
    and "length fs < n"
  shows "\<exists>m'. extract_loop n m = Inr (length fs, m') \<and> terminal_up i c m' \<and>
    contents (m_in_buf m') = [] \<and> m_trace m' = m_trace m @ map (\<lambda>f. Wrote (ch_fd c) (f_data f)) fs"
  using assms
proof (induction fs arbitrary: m n)
  case Nil
  then obtain k where n: "n = Suc k" by (cases n) auto
  have inv: "buf_inv (m_in_buf m)" "\<not> m_cmux_mode m" using Nil.prems(1) by (simp_all add: terminal_up_def)
  obtain fl where "get_spec (chan_n1 m) (b_flag_found (m_in_buf m)) (contents (m_in_buf m)) 0 = Inr (None, fl, [])"
    using basic_format.get_Nil [OF TrueI] Nil.prems(2) by simp
  from base_get_frame_of_spec [OF inv(1) this] obtain b' where
    b': "base_buffer_get_frame (chan_n1 m) (m_in_buf m) 0 = Inr (None, b')" "buf_inv b'" "contents b' = []"
    by blast
  have "extract_loop n m = Inr (0, m\<lparr>m_in_buf := b'\<rparr>)" using b' inv(2) by (simp add: n next_frame_def)
  moreover have "terminal_up i c (m\<lparr>m_in_buf := b'\<rparr>)"
    using Nil.prems(1) b'(2) by (simp add: terminal_up_def writes_ok_def get_channel_def)
  ultimately show ?case using b'(3) by simp
next
  case (Cons f fs)
  then obtain k where n: "n = Suc k" by (cases n) auto
  have inv: "buf_inv (m_in_buf m)" "\<not> m_cmux_mode m" using Cons.prems(1) by (simp_all add: terminal_up_def)
  have v: "basic_valid (chan_n1 m) f" using Cons.prems(3) by simp
  obtain fl where "get_spec (chan_n1 m) (b_flag_found (m_in_buf m)) (contents (m_in_buf m)) 0 =
      Inr (Some f, fl, concat (map basic_encode fs))"
    using basic_format.get_encode [OF TrueI v] Cons.prems(2) by (simp del: contents_Nil_iff) blast
  from base_get_frame_of_spec [OF inv(1) this] obtain b' where
    b': "base_buffer_get_frame (chan_n1 m) (m_in_buf m) 0 = Inr (Some f, b')" "buf_inv b'"
      "contents b' = concat (map basic_encode fs)" by blast
  let ?m1 = "m\<lparr>m_in_buf := signal_bufferready b'\<rparr>"
  have up1: "terminal_up i c ?m1"
    using Cons.prems(1) b'(2) by (simp add: terminal_up_def writes_ok_def get_channel_def)
  from handle_data_frame [OF up1] Cons.prems(4) obtain m2 where
    h: "handle_frame f ?m1 = Inr m2" and up2: "terminal_up i c m2" and b2: "m_in_buf m2 = signal_bufferready b'"
    and c2: "m_channels m2 = m_channels m" and t2: "m_trace m2 = m_trace m @ [Wrote (ch_fd c) (f_data f)]" by auto
  have "contents (m_in_buf m2) = concat (map basic_encode fs)" using b2 b'(3) by simp
  moreover have "list_all (basic_valid (chan_n1 m2)) fs"
    using Cons.prems(3) chan_n1_cong [OF c2] by simp
  moreover have "\<forall>f \<in> set fs. GSM0710_FRAME_IS GSM0710_TYPE_UIH f \<and> f_channel f > 0 \<and> unat (f_channel f) = i"
    using Cons.prems(4) by simp
  moreover have "length fs < k" using Cons.prems(5) n by simp
  ultimately obtain m' where ih: "extract_loop k m2 = Inr (length fs, m')" "terminal_up i c m'"
      "contents (m_in_buf m') = []" "m_trace m' = m_trace m2 @ map (\<lambda>f. Wrote (ch_fd c) (f_data f)) fs"
    using Cons.IH [OF up2] by blast
  have "extract_loop n m = Inr (Suc (length fs), m')"
    using b'(1) inv(2) h ih(1) by (simp add: n next_frame_def)
  with ih(2-4) t2 show ?case by auto
qed

lemma written_to_map: "written_to fd (map (\<lambda>f. Wrote fd (f_data f)) fs) = concat (map f_data fs)"
  by (induction fs) auto

lemma basic_encode_length: "0 < length (basic_encode f)"
  by (simp add: basic_encode_def)

lemma length_concat_encode: "length fs \<le> length (concat (map basic_encode fs))"
proof (induction fs)
  case (Cons f fs)
  with basic_encode_length [of f] show ?case by (cases "basic_encode f") simp_all
qed simp

lemma extract_data:
  assumes "terminal_up i c m" and "contents (m_in_buf m) = concat (map basic_encode fs)"
    and "list_all (basic_valid (chan_n1 m)) fs"
    and "\<forall>f \<in> set fs. GSM0710_FRAME_IS GSM0710_TYPE_UIH f \<and> f_channel f > 0 \<and> unat (f_channel f) = i"
  shows "\<exists>m'. extract_frames m = Inr (length fs, m') \<and> contents (m_in_buf m') = [] \<and>
    written_to (ch_fd c) (m_trace m') = written_to (ch_fd c) (m_trace m) @ concat (map f_data fs)"
proof -
  have "length fs < Suc (b_datacount (m_in_buf m))"
    using length_concat_encode [of fs] assms(2) by (metis length_contents le_imp_less_Suc)
  from extract_loop_data [OF assms this] show ?thesis
    by (auto simp: extract_frames_def written_to_map)
qed

text \<open>C1. From one application to the other: what an application writes to a channel of one daemon is
  split into frames, put on the line, received, checked and reassembled by a second daemon, and
  written to the terminal of the same channel there: the same octets, in order, nothing lost,
  nothing added.  (The octets on the line fit in the receive buffer; the kernel accepts every
  write; both daemons are in basic mode and agree on the frame size.)\<close>

theorem end_to_end:
  assumes "line_up m" and "\<not> m_cmux_mode m" and "get_channel m i = Inr ch" and "0 < i" and "i < 64"
    and "0 < ch_negotiated_N1 ch" and "ch_negotiated_N1 ch \<le> 32767"
    and "terminal_up i c d" and "ch_negotiated_N1 ch \<le> ch_negotiated_N1 c"
    and "m_in_buf d = rx_feed (written_to (m_serial_fd m) (drop (length (m_trace m)) (m_trace m')))"
    and "handle_channel_data data i m = Inr (rest, m')"
    and "length (written_to (m_serial_fd m) (drop (length (m_trace m)) (m_trace m'))) \<le> GSM0710_BUFFER_SIZE"
  shows "rest = 0 \<and> (\<exists>n d'. extract_frames d = Inr (n, d') \<and> contents (m_in_buf d') = [] \<and>
    written_to (ch_fd c) (m_trace d') = written_to (ch_fd c) (m_trace d) @ data)"
proof -
  have "0 < GSM0710_WRITE_RETRIES" by (simp add: GSM0710_WRITE_RETRIES_def)
  from handle_channel_loop_ok [OF assms(1-3,5,6) this, of data] obtain m1 es fs where
    r: "handle_channel_data data i m = Inr (0, m1)" "m_trace m1 = m_trace m @ es"
      "written_to (m_serial_fd m) es = concat (map basic_encode fs)" "concat (map f_data fs) = data"
      "list_all (data_frame i (ch_negotiated_N1 ch)) fs"
    unfolding handle_channel_data_def by blast
  have m': "rest = 0" "m' = m1" using r(1) assms(11) by simp_all
  have es: "drop (length (m_trace m)) (m_trace m') = es" using m' r(2) by simp
  have un: "unat (word_of_nat i :: u8) = i" using assms(5) by (intro unat_of_nat_u8) simp
  have pos: "(word_of_nat i :: u8) > 0" using un assms(4) by (simp add: word_less_nat_alt)
  have N1: "chan_n1 d i = Inr (ch_negotiated_N1 c)" using assms(8) by (simp add: chan_n1_def terminal_up_def)
  have data: "contents (m_in_buf d) = concat (map basic_encode fs)"
    using assms(10,12) es r(3) by simp
  have "basic_valid (chan_n1 d) f" if "data_frame i (ch_negotiated_N1 ch) f" for f
    using that assms(5,7,9) N1 un by (auto simp: basic_valid_def data_frame_def GSM0710_FRAME_IS_def)
  then have v: "list_all (basic_valid (chan_n1 d)) fs" using r(5) by (simp add: list_all_iff)
  have "\<forall>f \<in> set fs. GSM0710_FRAME_IS GSM0710_TYPE_UIH f \<and> f_channel f > 0 \<and> unat (f_channel f) = i"
    using r(5) un pos by (auto simp: list_all_iff data_frame_def)
  from extract_data [OF assms(8) data v this] r(4) m'(1) show ?thesis by auto
qed


definition sent_trace :: "event list" where
  "sent_trace = (case handle_channel_data [65, 66] 1 one_open of Inr (_, m') \<Rightarrow> m_trace m' | Inl _ \<Rightarrow> [])"

lemma sent_trace_eq: "length (written_to 5 sent_trace) = 8"
  by code_simp

theorem end_to_end_witness:
  "\<exists>n d'. extract_frames (one_open\<lparr>m_in_buf := rx_feed (written_to 5 sent_trace)\<rparr>) = Inr (n, d') \<and>
     written_to 7 (m_trace d') = [65, 66]"
proof -
  let ?d = "one_open\<lparr>m_in_buf := rx_feed (written_to 5 sent_trace)\<rparr>"
  have g: "get_channel one_open 1 = Inr slow_channel"
    using one_open_channel [of 1] by (simp add: slow_channel_def)
  have N1: "ch_negotiated_N1 slow_channel = 512" by (simp add: slow_channel_def)
  have up: "terminal_up 1 slow_channel ?d"
    using g one_open_facts(1,2)
    by (simp add: terminal_up_def get_channel_def slow_channel_facts line_up_def writes_ok_def)
  from handle_channel_data_complete [OF one_open_facts(1,2) g, of "[65, 66]"] N1 obtain m' where
    r: "handle_channel_data [65, 66] 1 one_open = Inr (0, m')" by auto
  then have t: "m_trace m' = sent_trace" by (simp add: sent_trace_def)
  have "length (written_to 5 sent_trace) \<le> GSM0710_BUFFER_SIZE"
    by (simp add: sent_trace_eq GSM0710_BUFFER_SIZE_def)
  then show ?thesis
    using end_to_end [OF one_open_facts(1,2) g _ _ _ _ up _ _ r] N1 t
    by (auto simp: one_open_facts slow_channel_facts)
qed

end
