(* ===== verification/Mux_Threads.thy ===== *)
theory Mux_Threads
  imports Mux_Extract
begin

text \<open>
  The bodies of the daemon's threads, one round each, and \<open>main\<close>: the thread that polls a terminal
  (\<open>poll_thread\<close>, \<open>pseudo_device_read\<close>), the one that reads the serial device
  (\<open>poll_thread_serial\<close>, \<open>thread_serial_device_read\<close>), the one that assembles frames
  (\<open>assemble_frame_thread\<close>), and the program from its options to its end.
\<close>

section \<open>Reading a terminal\<close>

text \<open>
  The wait of a paused channel ends when the modem status command that ends the pause is handled:
  what \<open>handle_msc\<close> does to the channel.
\<close>

definition wait_tx_fc_on :: "nat \<Rightarrow> mux \<Rightarrow> mux res" where
  "wait_tx_fc_on i m =
     bindE (get_channel m i) (\<lambda>c.
       if ch_tx_fc_off c then
         Inr (fc_releasePty c (set_channel i
                (c\<lparr>ch_tx_fc_off := False, ch_tx_fc_on_signals := Suc (ch_tx_fc_on_signals c)\<rparr>) m))
       else Inr m)"

definition close_pty_channel :: "nat \<Rightarrow> mux \<Rightarrow> (int \<times> mux) res" where
  "close_pty_channel i m =
     bindE (get_channel m i) (\<lambda>c.
       let m1 = (case ch_ptslink c of None \<Rightarrow> m | Some link \<Rightarrow> emit (Unlinked link) m)
       in Inr (int (err_num GSM0710MUXD_PTY_READ_ERR),
               set_channel i (c\<lparr>ch_fd := -1, ch_ptsname := None, ch_reopen := True\<rparr>)
                 (emit (Closed (ch_fd c)) m1)))"

definition pty_data :: "bytes \<Rightarrow> channel \<Rightarrow> mux \<Rightarrow> (int \<times> mux) res" where
  "pty_data buf c m =
     bindE (if buf \<noteq> [] then handle_channel_data buf (ch_id c) m else Inr (0, m)) (\<lambda>(remaining, m1).
       if remaining > 0 then Inl (Assert (err_num GSM0710MUXD_SERIAL_WRITE_ERR)) else Inr (0, m1))"

lemma wait_tx_fc_on_reads: "wait_tx_fc_on i m = Inr m' \<Longrightarrow> reads_size m' = reads_size m"
  by (auto simp: wait_tx_fc_on_def bindE_eq_Inr fc_releasePty_def emit_def set_channel_def reads_size_def
      split: if_splits)

lemma sys_read_reads_le: "sys_read fd n m = (x, m') \<Longrightarrow> reads_size m' \<le> reads_size m"
  by (auto simp: sys_read_def reads_size_def split: if_splits list.splits read_result.splits)

lemma sys_read_error_less:
  "sys_read fd n m = (None, m') \<Longrightarrow> m_errno m' = EINTR \<Longrightarrow> reads_size m' < reads_size m"
  by (auto simp: sys_read_def reads_size_def split: if_splits list.splits read_result.splits)

text \<open>The loop over \<open>read_action_count\<close>.\<close>

function pty_read_loop :: "nat \<Rightarrow> nat \<Rightarrow> mux \<Rightarrow> (int \<times> mux) res" where
  "pty_read_loop k i m =
     (if k < MUXD_PTY_READ_ROUND then
        bindE (wait_tx_fc_on i m) (\<lambda>m1.
        bindE (get_channel m1 i) (\<lambda>c.
          case sys_read (ch_fd c) 1024 m1 of
            (Some buf, m2) \<Rightarrow> pty_data buf c m2
          | (None, m2) \<Rightarrow>
              if m_errno m2 = EINTR then pty_read_loop k i m2
              else if m_errno m2 = EAGAIN then
                pty_read_loop (if k = 0 then 1 else MUXD_PTY_READ_ROUND) i m2
              else close_pty_channel i m2))
      else Inr (0, m))"
  by pat_completeness auto
termination
  by (relation "measures [\<lambda>(k, i, m). reads_size m, \<lambda>(k, i, m). MUXD_PTY_READ_ROUND - k]")
    (auto dest!: wait_tx_fc_on_reads dest: sys_read_error_less [OF sym] sys_read_reads_le [OF sym])

declare pty_read_loop.simps [simp del]

definition pseudo_device_read :: "nat \<Rightarrow> mux \<Rightarrow> (int \<times> mux) res" where
  "pseudo_device_read i m =
     bindE (get_channel m i) (\<lambda>c.
       if \<not> m_mux_setup_chnl_complete m then Inr (int (err_num GSM0710MUXD_PTY_READ_ERR), m)
       else if \<not> ch_opened c \<and> \<not> m_LackofAtciChannel m then Inl (Assert (err_num GSM0710MUXD_TXTHREAD_ERR))
       else pty_read_loop 0 i m)"

datatype thread_state = Running | Terminated

definition poll_thread :: "(mux \<Rightarrow> mux res) \<Rightarrow> nat \<Rightarrow> mux \<Rightarrow> (thread_state \<times> mux) res" where
  "poll_thread others i m =
     (let finish = (\<lambda>m. bindE (watchdog others m) (\<lambda>(_, m'). Inr (Terminated, m')))
      in case sys_select m of
           (sel, m1) \<Rightarrow>
             if sel > 0 then
               bindE (pseudo_device_read i m1) (\<lambda>(rc, m2).
                 if rc \<noteq> 0 then finish m2 else Inr (Running, m2))
             else if sel = 0 then Inr (Running, m1)
             else if m_errno m1 = EINTR \<or> m_errno m1 = EAGAIN then Inr (Running, m1)
             else if m_errno m1 = EBADF \<and> m_stop_muxd m1 then finish m1
             else Inl (Assert (err_num GSM0710MUXD_TXTHREAD_SELECT_ERR)))"

section \<open>Reading the serial device\<close>

text \<open>
  When the buffer is full the thread sleeps on a condition variable: a round that finds no room sets
  \<open>input_sleeping\<close>, and the first round that finds room again unsets it.
\<close>

definition thread_serial_device_read :: "mux \<Rightarrow> (int \<times> mux) res" where
  "thread_serial_device_read m =
     (if m_stop_muxd m then Inr (1, m)
      else if m_serial_state m = MUX_STATE_MUXING then
        (let free = gsm0710_buffer_free (m_in_buf m)
         in if free = 0 then Inr (0, m\<lparr>m_in_buf := (m_in_buf m)\<lparr>b_input_sleeping := True\<rparr>\<rparr>)
            else if b_input_sleeping (m_in_buf m)
              then Inr (0, m\<lparr>m_in_buf := (m_in_buf m)\<lparr>b_input_sleeping := False\<rparr>\<rparr>)
            else
              (case sys_read (m_serial_fd m) (min free 4096) m of
                 (Some xs, m1) \<Rightarrow>
                   Inr (0, if xs \<noteq> [] then m1\<lparr>m_in_buf := snd (gsm0710_buffer_write (m_in_buf m1) xs)\<rparr> else m1)
               | (None, m1) \<Rightarrow>
                   if m_errno m1 = EINTR \<or> m_errno m1 = EAGAIN then Inr (0, m1) else Inl (Assert 1)))
      else Inr (1, m))"

definition poll_thread_serial :: "mux \<Rightarrow> (thread_state \<times> mux) res" where
  "poll_thread_serial m =
     bindE (thread_serial_device_read m) (\<lambda>(rc, m1).
       Inr (if rc \<noteq> 0 then Terminated else Running, m1))"

text \<open>One round of the thread that assembles frames; without new data it goes on waiting.\<close>

definition assemble_frame_thread :: "mux \<Rightarrow> mux res" where
  "assemble_frame_thread m =
     (let b = m_in_buf m
      in if (b_datacount b = 0 \<or> \<not> b_newdataready b) \<and> \<not> b_input_sleeping b then Inr m
         else
           bindE (extract_frames (m\<lparr>m_in_buf := b\<lparr>b_newdataready := False\<rparr>\<rparr>)) (\<lambda>(_, m1). Inr m1))"

section \<open>The program\<close>

text \<open>The options; \<open>atoi\<close> of the argument is carried by the constructor.\<close>

datatype program_option =
    Opt_v | Opt_o | Opt_d | Opt_s
  | Opt_t int
  | Opt_p int
  | Opt_P int
  | Opt_f nat
  | Opt_n
  | Opt_m string
  | Opt_b int
  | Opt_usage

definition baud_rates :: "int list" where
  "baud_rates = [0, 9600, 19200, 38400, 57600, 115200, 230400, 460800, 921600]"

definition baud_rate_index :: "int \<Rightarrow> nat option" where
  "baud_rate_index baud_rate =
     (if baud_rate \<in> set baud_rates then Some (index_of baud_rate baud_rates) else None)"

text \<open>
  The flag is that \<open>cmux_port_speed\<close> is -1, the index of a rate that is not in the table.
\<close>

fun parse_option :: "program_option \<Rightarrow> bool \<times> mux \<Rightarrow> (bool \<times> mux) res" where
  "parse_option (Opt_t n) (bad, m) = Inr (bad, m\<lparr>m_use_timeout := n\<rparr>)"
| "parse_option (Opt_p n) (bad, m) = Inr (bad, m\<lparr>m_use_ping := n\<rparr>)"
| "parse_option (Opt_P n) (bad, m) = Inr (bad, m\<lparr>m_pin_code := n\<rparr>)"
| "parse_option (Opt_f n) (bad, m) = Inr (bad, m\<lparr>m_cmux_N1 := n\<rparr>)"
| "parse_option Opt_n (bad, m) =
     (let ports = MUXD_CH_NUM_ALL (m_cfg m) - 1
      in if ports > GSM0710_MAX_CHANNELS (m_cfg m) - 1 \<or> ports < 1 then Inl Exit
         else Inr (bad, m\<lparr>m_vir_ports := ports\<rparr>))"
| "parse_option (Opt_m mode) (bad, m) = Inr (bad, m\<lparr>m_cmux_mode := (mode = ''advanced'')\<rparr>)"
| "parse_option (Opt_b rate) (bad, m) =
     (case baud_rate_index rate of
        None \<Rightarrow> Inr (True, m)
      | Some k \<Rightarrow> Inr (False, m\<lparr>m_cmux_port_speed := k\<rparr>))"
| "parse_option Opt_usage s = Inl Exit"
| "parse_option _ s = Inr s"

fun parse_options :: "program_option list \<Rightarrow> bool \<times> mux \<Rightarrow> (bool \<times> mux) res" where
  "parse_options [] s = Inr s"
| "parse_options (opt # opts) s = bindE (parse_option opt s) (parse_options opts)"

text \<open>
  Up to the main loop: the buffers are allocated, and the options are logged, which reads
  \<open>baud_rates[cmux_port_speed]\<close>.
\<close>

definition main_start :: "program_option list \<Rightarrow> mux \<Rightarrow> mux res" where
  "main_start opts m =
     bindE (parse_options opts (False, m)) (\<lambda>(bad, m1).
       if bad then Inl OutOfBounds
       else
         Inr (m1\<lparr>m_in_buf := gsm0710_buffer_init, m_in_buf_for_bootup := Some gsm0710_buffer_init,
                 m_adv_frame_size := (if m_cmux_mode m1 then (m_cmux_N1 m1 + 3) * 2 + 2 else 0),
                 m_serial_state := MUX_STATE_OPENING\<rparr>))"

text \<open>At most \<open>n\<close> rounds of the main loop: \<open>None\<close> while it still runs, or the last \<open>rc\<close>.\<close>

primrec main_loop :: "nat \<Rightarrow> (mux \<Rightarrow> mux res) \<Rightarrow> int \<Rightarrow> mux \<Rightarrow> (int option \<times> mux) res" where
  "main_loop 0 others rc m = Inr (None, m)"
| "main_loop (Suc n) others rc m =
     (if m_main_exit_signal m \<noteq> 0 then Inr (Some rc, m)
      else
        bindE (watchdog others m) (\<lambda>(rc', m1).
          if rc' \<noteq> 0 then Inr (Some rc', m1) else main_loop n others rc' m1))"

text \<open>
  The end: the receive buffer is freed, and then the number of frames received, which is in it, is
  logged.
\<close>

definition main_finish :: "int \<Rightarrow> mux \<Rightarrow> (int \<times> mux) res" where
  "main_finish rc m =
     check_call
       (if m_main_exit_signal m \<noteq> 0 \<or> rc = int (err_num GSM0710MUXD_OPEN_SERIAL_DEV_ERR)
           \<or> rc = int (err_num GSM0710MUXD_CREATE_THREAD_ERR)
        then shutdown_devices SHUTDOWN_DEV_W_ACTIVE_FINALIZED m else Inr (0, m))
       (\<lambda>_. Inl UseAfterFree)"

section \<open>Properties\<close>

text \<open>Nothing is lost between the serial device and the receive buffer: one round of the reading thread
  takes as much as there is room for, appends all of it in order, and leaves the rest to the
  kernel; it never fails while the device can be read.\<close>

theorem serial_read_appends:
  assumes "buf_inv (m_in_buf m)" and "\<not> m_stop_muxd m" and "m_serial_state m = MUX_STATE_MUXING"
    and "0 \<le> m_serial_fd m" and "m_reads m = Rd_Data xs # rest"
    and "\<not> b_input_sleeping (m_in_buf m)" and "b_datacount (m_in_buf m) < GSM0710_BUFFER_SIZE"
  shows "\<exists>m' n. thread_serial_device_read m = Inr (0, m') \<and> buf_inv (m_in_buf m') \<and>
    n = min (length xs) (GSM0710_BUFFER_SIZE - b_datacount (m_in_buf m)) \<and>
    contents (m_in_buf m') = contents (m_in_buf m) @ take n xs \<and>
    m_reads m' = (if n < length xs then Rd_Data (drop n xs) # rest else rest)"
proof -
  define free where "free = gsm0710_buffer_free (m_in_buf m)"
  define n where "n = min (length xs) free"
  have free: "free = GSM0710_BUFFER_SIZE - b_datacount (m_in_buf m)" "free \<noteq> 0" "min free 4096 = free"
    using assms(7) unfolding free_def gsm0710_buffer_free_def GSM0710_BUFFER_SIZE_def by simp_all
  have n: "take free xs = take n xs" "length xs \<le> free \<longleftrightarrow> \<not> n < length xs" "drop free xs = drop n xs"
    by (simp_all add: n_def min_def)
  define m1 where "m1 = m\<lparr>m_reads := (if n < length xs then Rd_Data (drop n xs) # rest else rest)\<rparr>"
  have rd: "sys_read (m_serial_fd m) free m = (Some (take n xs), m1)"
    using assms(4,5) n by (simp add: sys_read_def m1_def)
  obtain j b' where w: "gsm0710_buffer_write (m_in_buf m) (take n xs) = (j, b')" by fastforce
  note laws = buffer_write_correct [OF assms(1) w]
  have c: "contents b' = contents (m_in_buf m) @ take n xs"
    using laws(2,3) by (simp add: free_def [symmetric] n_def)
  define m' where "m' = (if take n xs \<noteq> [] then m1\<lparr>m_in_buf := b'\<rparr> else m1)"
  have buf: "m_in_buf m1 = m_in_buf m" by (simp add: m1_def)
  have "thread_serial_device_read m = Inr (0, m')"
    unfolding thread_serial_device_read_def Let_def free_def [symmetric]
    using assms(2,3,6) free(2) rd w by (simp add: free(3) buf m'_def)
  moreover have "buf_inv (m_in_buf m')" "contents (m_in_buf m') = contents (m_in_buf m) @ take n xs"
    using assms(1) laws(1) c by (simp_all add: m'_def buf)
  moreover have "m_reads m' = (if n < length xs then Rd_Data (drop n xs) # rest else rest)"
    by (simp add: m'_def m1_def)
  moreover have "n = min (length xs) (GSM0710_BUFFER_SIZE - b_datacount (m_in_buf m))"
    by (simp only: n_def free(1))
  ultimately show ?thesis by blast
qed

theorem serial_read_appends_witness:
  "\<exists>m'. thread_serial_device_read (one_open\<lparr>m_reads := [Rd_Data [0xF9, 3]]\<rparr>) = Inr (0, m') \<and>
     contents (m_in_buf m') = [0xF9, 3]"
proof -
  have b: "m_in_buf one_open = gsm0710_buffer_init" by (simp add: one_open_def mux_init_def)
  have s: "\<not> m_stop_muxd one_open" using one_open_facts(1) by (simp add: line_up_def)
  have sleeping: "\<not> b_input_sleeping gsm0710_buffer_init" by (simp add: gsm0710_buffer_init_def)
  have room: "2 \<le> GSM0710_BUFFER_SIZE" by (simp add: GSM0710_BUFFER_SIZE_def)
  show ?thesis
    using serial_read_appends [of "one_open\<lparr>m_reads := [Rd_Data [0xF9, 3]]\<rparr>" "[0xF9, 3]" "[]"] s
      sleeping room by (auto simp: b one_open_facts min_def)
qed

text \<open>What an application writes to the terminal of an open channel goes out whole: one round of the
  polling thread reads up to 1024 octets and puts frames with exactly these octets on the line.\<close>

theorem pty_data_goes_out:
  assumes "line_up m" and "\<not> m_cmux_mode m" and "get_channel m i = Inr c" and "ch_id c = i" and "i < 64"
    and "0 < ch_negotiated_N1 c" and "ch_opened c" and "\<not> ch_tx_fc_off c" and "0 \<le> ch_fd c"
    and "m_mux_setup_chnl_complete m" and "m_reads m = [Rd_Data xs]" and "xs \<noteq> []" and "length xs \<le> 1024"
  shows "\<exists>m' es fs. poll_thread others i m = Inr (Running, m') \<and> m_trace m' = m_trace m @ es \<and>
    m_reads m' = [] \<and> written_to (m_serial_fd m) es = concat (map basic_encode fs) \<and>
    concat (map f_data fs) = xs \<and> list_all (data_frame i (ch_negotiated_N1 c)) fs"
proof -
  let ?m1 = "m\<lparr>m_reads := []\<rparr>"
  have up: "line_up ?m1" "\<not> m_cmux_mode ?m1" "get_channel ?m1 i = Inr c"
    using assms(1-3) by (simp_all add: line_up_def writes_ok_def get_channel_def)
  have "0 < GSM0710_WRITE_RETRIES" by (simp add: GSM0710_WRITE_RETRIES_def)
  from handle_channel_loop_ok [OF up assms(5,6) this, of xs] obtain m' es fs where
    r: "handle_channel_data xs i ?m1 = Inr (0, m')" "m_trace m' = m_trace m @ es"
      "written_to (m_serial_fd m) es = concat (map basic_encode fs)" "concat (map f_data fs) = xs"
      "list_all (data_frame i (ch_negotiated_N1 c)) fs" and same: "same_but_trace ?m1 m'"
    unfolding handle_channel_data_def by auto
  obtain t v where "m' = ?m1\<lparr>m_trace := t, m_uih_pf_bit_received := v\<rparr>"
    using same unfolding same_but_trace_def by blast
  then have s: "m_reads m' = []" by simp
  have rd: "sys_read (ch_fd c) 1024 m = (Some xs, ?m1)" using assms(9,11,13) by (simp add: sys_read_def)
  have "pseudo_device_read i m = Inr (0, m')"
    using assms(3,4,7,8,10,12) rd r(1)
    by (simp add: pseudo_device_read_def pty_read_loop.simps [of 0] MUXD_PTY_READ_ROUND_def
        wait_tx_fc_on_def pty_data_def)
  then have "poll_thread others i m = Inr (Running, m')"
    using assms(11) by (simp add: poll_thread_def sys_select_def)
  with r s show ?thesis by blast
qed


definition app_writes :: mux where
  "app_writes = one_open\<lparr>m_reads := [Rd_Data [65, 66]], m_mux_setup_chnl_complete := True,
     m_channels := (m_channels one_open)[1 := slow_channel\<lparr>ch_id := 1\<rparr>]\<rparr>"

theorem pty_data_goes_out_witness:
  "\<exists>m' es fs. poll_thread Inr 1 app_writes = Inr (Running, m') \<and>
     written_to 5 es = concat (map basic_encode fs) \<and> concat (map f_data fs) = [65, 66]"
proof -
  have g: "get_channel app_writes 1 = Inr (slow_channel\<lparr>ch_id := 1\<rparr>)"
    by (simp add: get_channel_def app_writes_def one_open_facts(5))
  have up: "line_up app_writes" "\<not> m_cmux_mode app_writes" "m_serial_fd app_writes = 5"
    "m_mux_setup_chnl_complete app_writes" "m_reads app_writes = [Rd_Data [65, 66]]"
    using one_open_facts by (simp_all add: app_writes_def line_up_def writes_ok_def)
  show ?thesis
    using pty_data_goes_out [OF up(1,2) g, of "[65, 66]" Inr] up(3-5)
    by (auto simp: slow_channel_def zero_channel_def)
qed

section \<open>Losing and regaining the application\<close>

text \<open>When an application drops its terminal (\<open>EIO\<close>), the round of the polling thread that notices
  it closes the terminal, has the watchdog open a new one on the same channel and link, with a new
  polling thread, and ends; nothing is sent to the modem and the channel stays open.\<close>

theorem dropped_terminal_is_reopened:
  assumes "get_channel m i = Inr c" and "0 < i" and "ch_opened c" and "\<not> ch_tx_fc_off c" and "0 \<le> ch_fd c"
    and "m_mux_setup_chnl_complete m" and "m_reads m = [Rd_Err EIO]" and "m_serial_state m = MUX_STATE_MUXING"
    and "length (m_channels m) = GSM0710_MAX_CHANNELS (m_cfg m)"
    and "\<forall>j. j \<noteq> i \<longrightarrow> 0 < j \<longrightarrow> j < length (m_channels m) \<longrightarrow> \<not> ch_reopen (m_channels m ! j)"
    and "ch_devicename c = Some ptmx" and "ch_ptslink c = Some link"
    and "m_opens m = [(fd, Some name)]" and "0 \<le> fd" and "m_syscalls m = []"
    and "m_use_ping m = 0" and "m_use_timeout m = 0"
  shows "\<exists>m'. poll_thread others i m = Inr (Terminated, m') \<and> m_trace m' = m_trace m @
      [Unlinked link, Closed (ch_fd c), Opened ptmx fd, Unlinked link, Linked name link,
       Thread_Created (Poll_Channel i)] \<and>
    get_channel m' i = Inr (c\<lparr>ch_fd := fd, ch_ptsname := Some name, ch_reopen := False\<rparr>)"
proof -
  have i: "i < length (m_channels m)" using get_channel_valid [OF assms(1)] .
  let ?c1 = "c\<lparr>ch_fd := -1, ch_ptsname := None, ch_reopen := True\<rparr>"
  let ?m1 = "set_channel i ?c1 (emit (Closed (ch_fd c)) (emit (Unlinked link) (m\<lparr>m_reads := [], m_errno := EIO\<rparr>)))"
  have "sys_read (ch_fd c) 1024 m = (None, m\<lparr>m_reads := [], m_errno := EIO\<rparr>)"
    using assms(5,7) by (simp add: sys_read_def)
  then have pr: "pseudo_device_read i m = Inr (int (err_num GSM0710MUXD_PTY_READ_ERR), ?m1)"
    using assms(1,3,4,6,12)
    by (simp add: pseudo_device_read_def pty_read_loop.simps [of 0] MUXD_PTY_READ_ROUND_def
        wait_tx_fc_on_def close_pty_channel_def get_channel_def)
  let ?m2 = "?m1\<lparr>m_pts_reopen := True\<rparr>"
  let ?c2 = "?c1\<lparr>ch_fd := fd, ch_ptsname := Some name\<rparr>"
  let ?m3 = "?m2\<lparr>m_opens := [], m_trace := m_trace ?m2 @ [Opened ptmx fd, Unlinked link, Linked name link,
     Thread_Created (Poll_Channel i)], m_channels := (m_channels m)[i := ?c2]\<rparr>"
  have opens: "setup_pty_interface i ?m2 = Inr (0, ?m3)"
    using i assms(11-15)
    by (simp add: setup_pty_interface_def sys_open_def upd_channel_def syscheck_def sys_check_def
        setup_link_def create_thread_def get_channel_def set_channel_def emit_def Let_def)
  have skip: "reopen_channels js m' = Inr (True, m')"
    if "\<forall>j \<in> set js. j < length (m_channels m') \<and> \<not> ch_reopen (m_channels m' ! j)" for js m'
    using that by (induction js) (auto simp: get_channel_def)
  have walk: "reopen_channels js m' = reopen_channels (dropWhile (\<lambda>j. j \<noteq> i) js) m'"
    if "\<forall>j \<in> set js. j \<noteq> i \<longrightarrow> j < length (m_channels m') \<and> \<not> ch_reopen (m_channels m' ! j)" for js m'
    using that by (induction js) (auto simp: get_channel_def)
  let ?max = "GSM0710_MAX_CHANNELS (m_cfg m)"
  let ?m4 = "?m3\<lparr>m_channels := (m_channels m)[i := ?c2\<lparr>ch_reopen := False\<rparr>]\<rparr>"
  have spl: "[1..<?max] = [1..<i] @ i # [Suc i..<?max]"
    using assms(2,9) i upt_add_eq_append [of 1 i "?max - i"] by (simp add: upt_conv_Cons)
  have dw: "dropWhile (\<lambda>j. j \<noteq> i) [1..<?max] = i # [Suc i..<?max]"
    unfolding spl by (simp add: dropWhile_append)
  have "reopen_channels [1..<?max] ?m2 = reopen_channels (i # [Suc i..<?max]) ?m2"
    unfolding dw [symmetric] using assms(9,10) by (intro walk) (auto simp: set_channel_def)
  also have "\<dots> = reopen_channels [Suc i..<?max] ?m4"
    using i opens by (simp add: upd_channel_def get_channel_def set_channel_def)
  also have "\<dots> = Inr (True, ?m4)"
    using assms(9,10) by (intro skip) auto
  finally have "watchdog others ?m1 = Inr (0, ?m4)"
    using assms(8,16,17)
    by (simp add: watchdog_def watchdog_muxing_def ping_modem_def check_silence_def)
      (simp add: set_channel_def emit_def)
  then have "poll_thread others i m = Inr (Terminated, ?m4)"
    using assms(7) pr by (simp add: poll_thread_def sys_select_def)
  then show ?thesis using i by (intro exI [of _ ?m4]) (simp add: get_channel_def)
qed

definition app_gone :: mux where
  "app_gone = one_open\<lparr>m_reads := [Rd_Err EIO], m_mux_setup_chnl_complete := True, m_opens := [(9, Some ''pts'')],
     m_channels := (m_channels one_open)
       [1 := slow_channel\<lparr>ch_devicename := Some ptmx, ch_ptslink := Some ''link''\<rparr>]\<rparr>"

theorem dropped_terminal_is_reopened_witness:
  "\<exists>m'. poll_thread Inr 1 app_gone = Inr (Terminated, m') \<and> m_trace m' =
      [Unlinked ''link'', Closed 7, Opened ptmx 9, Unlinked ''link'', Linked ''pts'' ''link'',
       Thread_Created (Poll_Channel 1)]"
proof -
  let ?c = "slow_channel\<lparr>ch_devicename := Some ptmx, ch_ptslink := Some ''link''\<rparr>"
  have g: "get_channel app_gone 1 = Inr ?c"
    by (simp add: get_channel_def app_gone_def one_open_facts(5))
  have n: "\<not> ch_reopen (m_channels app_gone ! j)" if "j \<noteq> 1" "j < 32" for j
    using one_open_channel [OF that(2)] that
    by (auto simp: app_gone_def get_channel_def one_open_facts(5) zero_channel_def)
  have o: "m_use_ping one_open = 0" by (simp add: one_open_def mux_init_def)
  have f: "m_serial_state app_gone = MUX_STATE_MUXING" "length (m_channels app_gone) = 32"
    "GSM0710_MAX_CHANNELS (m_cfg app_gone) = 32" "m_syscalls app_gone = []" "m_use_timeout app_gone = 0"
    "m_trace app_gone = []" "m_reads app_gone = [Rd_Err EIO]" "m_opens app_gone = [(9, Some ''pts'')]"
    "m_mux_setup_chnl_complete app_gone" "m_use_ping app_gone = 0"
    by (simp_all add: app_gone_def one_open_facts o)
  have c: "ch_opened ?c" "\<not> ch_tx_fc_off ?c" "ch_fd ?c = 7"
    by (simp_all add: slow_channel_def zero_channel_def)
  show ?thesis
    using dropped_terminal_is_reopened [OF g, of "''link''" 9 "''pts''" Inr] f c n
    by (auto simp del: split_paired_Ex)
qed

end
