(* ===== verification/Audio_Ringbuf.thy ===== *)
theory Audio_Ringbuf
  imports Byte_Queue
begin

text \<open>
  The ring buffer of the audio subsystem (\<open>audio/common/utility/audio_ringbuf.c\<close>).  The pointers
  \<open>read\<close> and \<open>write\<close> are offsets from \<open>base\<close>, and the array \<open>base\<close> points to has \<open>size\<close> octets; a
  \<open>memcpy\<close> or \<open>memset\<close> that leaves it, or has a negative count, is \<open>OutOfBounds\<close>.  \<open>AUD_ASSERT\<close> only
  reports: \<open>rb_asserts\<close> counts the reports, and the code goes on.  The second half shows that the
  buffer provides the contract of \<open>Byte_Queue\<close>.
\<close>

section \<open>The C functions\<close>

definition MAX_SIZE_OF_ONE_FRAME :: nat where
  "MAX_SIZE_OF_ONE_FRAME = 16"

record ringbuf =
  rb_data :: bytes
  rb_read :: nat
  rb_write :: nat
  rb_asserts :: nat

abbreviation rb_size :: "ringbuf \<Rightarrow> nat" where
  "rb_size rb \<equiv> length (rb_data rb)"

definition AUD_ASSERT :: "bool \<Rightarrow> ringbuf \<Rightarrow> ringbuf" where
  "AUD_ASSERT e rb = (if e then rb else rb\<lparr>rb_asserts := Suc (rb_asserts rb)\<rparr>)"

definition mem_read :: "bytes \<Rightarrow> nat \<Rightarrow> int \<Rightarrow> bytes res" where
  "mem_read d off n =
     (if 0 \<le> n \<and> off + nat n \<le> length d then Inr (take (nat n) (drop off d)) else Inl OutOfBounds)"

definition mem_write :: "bytes \<Rightarrow> nat \<Rightarrow> bytes \<Rightarrow> bytes res" where
  "mem_write d off xs = (if off + length xs \<le> length d then Inr (blit d off xs) else Inl OutOfBounds)"

definition mem_set :: "bytes \<Rightarrow> nat \<Rightarrow> u8 \<Rightarrow> int \<Rightarrow> bytes res" where
  "mem_set d off v n = (if 0 \<le> n then mem_write d off (replicate (nat n) v) else Inl OutOfBounds)"

definition audio_ringbuf_count :: "ringbuf \<Rightarrow> nat" where
  "audio_ringbuf_count rb =
     (if rb_write rb \<ge> rb_read rb then rb_write rb - rb_read rb
      else rb_size rb - (rb_read rb - rb_write rb))"

definition audio_ringbuf_free_space :: "ringbuf \<Rightarrow> nat" where
  "audio_ringbuf_free_space rb = rb_size rb - audio_ringbuf_count rb - MAX_SIZE_OF_ONE_FRAME"

definition audio_ringbuf_copy_to_linear :: "ringbuf \<Rightarrow> int \<Rightarrow> (bytes \<times> ringbuf) res" where
  "audio_ringbuf_copy_to_linear rb count =
     (let d = rb_data rb; r = rb_read rb
      in if r \<le> rb_write rb then
           bindE (mem_read d r count) (\<lambda>xs. Inr (xs, rb\<lparr>rb_read := r + nat count\<rparr>))
         else
           (let r2e = int (rb_size rb) - int r
            in if count \<le> r2e then
                 bindE (mem_read d r count) (\<lambda>xs.
                   Inr (xs, rb\<lparr>rb_read := (if r + nat count = rb_size rb then 0 else r + nat count)\<rparr>))
               else
                 bindE (mem_read d r r2e) (\<lambda>xs.
                 bindE (mem_read d 0 (count - r2e)) (\<lambda>ys.
                   Inr (xs @ ys, rb\<lparr>rb_read := nat (count - r2e)\<rparr>)))))"

definition audio_ringbuf_copy_from_linear :: "ringbuf \<Rightarrow> bytes \<Rightarrow> int \<Rightarrow> ringbuf res" where
  "audio_ringbuf_copy_from_linear rb0 linear_buf count =
     (let rb = AUD_ASSERT (int (audio_ringbuf_free_space rb0) \<ge> count) rb0;
          d = rb_data rb; w = rb_write rb
      in if rb_read rb \<le> w then
           (let w2e = int (rb_size rb) - int w
            in if count \<le> w2e then
                 bindE (mem_read linear_buf 0 count) (\<lambda>xs.
                 bindE (mem_write d w xs) (\<lambda>d'.
                   Inr (rb\<lparr>rb_data := d',
                           rb_write := (if w + nat count = rb_size rb then 0 else w + nat count)\<rparr>)))
               else
                 bindE (mem_read linear_buf 0 w2e) (\<lambda>xs.
                 bindE (mem_write d w xs) (\<lambda>d1.
                 bindE (mem_read linear_buf (nat w2e) (count - w2e)) (\<lambda>ys.
                 bindE (mem_write d1 0 ys) (\<lambda>d2.
                   Inr (rb\<lparr>rb_data := d2, rb_write := nat (count - w2e)\<rparr>))))))
         else
           bindE (mem_read linear_buf 0 count) (\<lambda>xs.
           bindE (mem_write d w xs) (\<lambda>d'.
             Inr (rb\<lparr>rb_data := d', rb_write := w + nat count\<rparr>))))"

definition audio_ringbuf_copy_to_empty :: "ringbuf \<Rightarrow> ringbuf \<Rightarrow> ringbuf res" where
  "audio_ringbuf_copy_to_empty des src =
     (let d = rb_data src; r = rb_read src; w = rb_write src
      in if r \<le> w then audio_ringbuf_copy_from_linear des (drop r d) (int w - int r)
         else
           bindE (audio_ringbuf_copy_from_linear des (drop r d) (int (rb_size src) - int r)) (\<lambda>des1.
             audio_ringbuf_copy_from_linear des1 d (int w)))"

definition audio_ringbuf_copy_from_ringbuf ::
  "ringbuf \<Rightarrow> ringbuf \<Rightarrow> int \<Rightarrow> (int \<times> ringbuf \<times> ringbuf) res" where
  "audio_ringbuf_copy_from_ringbuf des0 src count =
     (let des = AUD_ASSERT (count \<le> int (audio_ringbuf_count src) \<and>
                            count \<le> int (audio_ringbuf_free_space des0)) des0;
          d = rb_data src; r = rb_read src
      in if r \<le> rb_write src then
           bindE (audio_ringbuf_copy_from_linear des (drop r d) count) (\<lambda>des1.
             Inr (count, des1, src\<lparr>rb_read := r + nat count\<rparr>))
         else
           (let cnt2e = int (rb_size src) - int r
            in if cnt2e \<ge> count then
                 bindE (audio_ringbuf_copy_from_linear des (drop r d) count) (\<lambda>des1.
                   Inr (count, des1,
                        src\<lparr>rb_read := (if r + nat count = rb_size src then 0 else r + nat count)\<rparr>))
               else
                 bindE (audio_ringbuf_copy_from_linear des (drop r d) cnt2e) (\<lambda>des1.
                 bindE (audio_ringbuf_copy_from_linear des1 d (count - cnt2e)) (\<lambda>des2.
                   Inr (count, des2, src\<lparr>rb_read := nat (count - cnt2e)\<rparr>)))))"

text \<open>The macro \<open>AUDIO_RINGBUF_COPY_FROM_RINGBUF_ALL\<close> of the header.\<close>

definition copy_from_ringbuf_all :: "ringbuf \<Rightarrow> ringbuf \<Rightarrow> (int \<times> ringbuf \<times> ringbuf) res" where
  "copy_from_ringbuf_all des src =
     (let data_count = audio_ringbuf_count src; free_count = audio_ringbuf_free_space des
      in audio_ringbuf_copy_from_ringbuf des src
           (int (if data_count > free_count then free_count else data_count)))"

definition audio_ringbuf_write_zero :: "ringbuf \<Rightarrow> int \<Rightarrow> ringbuf res" where
  "audio_ringbuf_write_zero rb0 count =
     (let rb = AUD_ASSERT (int (audio_ringbuf_free_space rb0) \<ge> count) rb0;
          d = rb_data rb; w = rb_write rb
      in if rb_read rb \<le> w then
           (let w2e = int (rb_size rb) - int w
            in if count \<le> w2e then
                 bindE (mem_set d w 0 count) (\<lambda>d'.
                   Inr (rb\<lparr>rb_data := d',
                           rb_write := (if w + nat count = rb_size rb then 0 else w + nat count)\<rparr>))
               else
                 bindE (mem_set d w 0 w2e) (\<lambda>d1.
                 bindE (mem_set d1 0 0 (count - w2e)) (\<lambda>d2.
                   Inr (rb\<lparr>rb_data := d2, rb_write := nat (count - w2e)\<rparr>))))
         else
           bindE (mem_set d w 0 count) (\<lambda>d'.
             Inr (rb\<lparr>rb_data := d', rb_write := w + nat count\<rparr>)))"

text \<open>Unlike its siblings it leaves the write pointer at the end of the array.\<close>

definition audio_ringbuf_write_value :: "ringbuf \<Rightarrow> int \<Rightarrow> int \<Rightarrow> ringbuf res" where
  "audio_ringbuf_write_value rb0 value count =
     (let rb = AUD_ASSERT (int (audio_ringbuf_free_space rb0) \<ge> count) rb0;
          d = rb_data rb; w = rb_write rb; v = word_of_int value
      in if rb_read rb \<le> w then
           (let w2e = int (rb_size rb) - int w
            in if count \<le> w2e then
                 bindE (mem_set d w v count) (\<lambda>d'.
                   Inr (rb\<lparr>rb_data := d', rb_write := w + nat count\<rparr>))
               else
                 bindE (mem_set d w v w2e) (\<lambda>d1.
                 bindE (mem_set d1 0 v (count - w2e)) (\<lambda>d2.
                   Inr (rb\<lparr>rb_data := d2, rb_write := nat (count - w2e)\<rparr>))))
         else
           bindE (mem_set d w v count) (\<lambda>d'.
             Inr (rb\<lparr>rb_data := d', rb_write := w + nat count\<rparr>)))"

text \<open>A negative count is a large one after the cast to \<open>uint32_t\<close>.\<close>

definition as_uint32 :: "int \<Rightarrow> nat" where
  "as_uint32 n = nat (n mod 2 ^ 32)"

definition audio_ringbuf_drop_data :: "ringbuf \<Rightarrow> int \<Rightarrow> ringbuf" where
  "audio_ringbuf_drop_data rb count =
     (if as_uint32 count > audio_ringbuf_count rb then AUD_ASSERT False rb
      else if rb_read rb \<le> rb_write rb then rb\<lparr>rb_read := rb_read rb + nat count\<rparr>
      else
        (let r2e = int (rb_size rb) - int (rb_read rb)
         in if count \<le> r2e then
              rb\<lparr>rb_read := (if rb_read rb + nat count = rb_size rb then 0 else rb_read rb + nat count)\<rparr>
            else rb\<lparr>rb_read := nat (count - r2e)\<rparr>))"

definition audio_ringbuf_drop_all :: "ringbuf \<Rightarrow> ringbuf" where
  "audio_ringbuf_drop_all rb = rb\<lparr>rb_read := rb_write rb\<rparr>"

definition audio_ringbuf_compensate_value :: "ringbuf \<Rightarrow> int \<Rightarrow> int \<Rightarrow> ringbuf res" where
  "audio_ringbuf_compensate_value rb value count =
     (if as_uint32 count > audio_ringbuf_free_space rb then Inr (AUD_ASSERT False rb)
      else
        (let v = word_of_int value; d = rb_data rb; b2r = int (rb_read rb)
         in bindE
              (if rb_read rb \<le> rb_write rb then
                 (if b2r \<ge> count then
                    (let r = nat (b2r - count)
                     in bindE (mem_set d r v count) (\<lambda>d'. Inr (rb\<lparr>rb_read := r, rb_data := d'\<rparr>)))
                  else if b2r > 0 then
                    (let left_data = count - b2r; r = nat (int (rb_size rb) - left_data)
                     in bindE (mem_set d 0 v b2r) (\<lambda>d1.
                        bindE (mem_set d1 r v left_data) (\<lambda>d2. Inr (rb\<lparr>rb_read := r, rb_data := d2\<rparr>))))
                  else
                    (let r = nat (int (rb_size rb) - count)
                     in bindE (mem_set d r v count) (\<lambda>d'. Inr (rb\<lparr>rb_read := r, rb_data := d'\<rparr>))))
               else
                 (let r = nat (b2r - count)
                  in bindE (mem_set d r v count) (\<lambda>d'. Inr (rb\<lparr>rb_read := r, rb_data := d'\<rparr>))))
              (\<lambda>rb1. Inr (AUD_ASSERT (rb_write rb1 < rb_size rb1)
                            (AUD_ASSERT (rb_read rb1 < rb_size rb1) rb1)))))"

definition audio_ringbuf_rollback :: "ringbuf \<Rightarrow> int \<Rightarrow> ringbuf" where
  "audio_ringbuf_rollback rb count =
     (if as_uint32 count > audio_ringbuf_free_space rb then AUD_ASSERT False rb
      else
        (let b2r = int (rb_read rb)
         in if rb_read rb \<le> rb_write rb then
              (if b2r \<ge> count then rb\<lparr>rb_read := nat (b2r - count)\<rparr>
               else if b2r > 0 then rb\<lparr>rb_read := nat (int (rb_size rb) - (count - b2r))\<rparr>
               else rb\<lparr>rb_read := nat (int (rb_size rb) - count)\<rparr>)
            else rb\<lparr>rb_read := nat (b2r - count)\<rparr>))"

section \<open>What the buffer holds\<close>

definition rb_inv :: "ringbuf \<Rightarrow> bool" where
  "rb_inv rb \<longleftrightarrow> rb_read rb \<le> rb_size rb \<and> rb_write rb \<le> rb_size rb \<and>
     audio_ringbuf_count rb < rb_size rb"

definition rb_view :: "ringbuf \<Rightarrow> bytes" where
  "rb_view rb = ring_view (rb_data rb) (rb_read rb) (audio_ringbuf_count rb)"

lemma length_rb_view [simp]: "length (rb_view rb) = audio_ringbuf_count rb"
  by (simp add: rb_view_def)

lemma count_le_size: "rb_inv rb \<Longrightarrow> audio_ringbuf_count rb \<le> rb_size rb"
  by (auto simp: rb_inv_def audio_ringbuf_count_def)

lemma AUD_ASSERT_fields [simp]:
  "rb_data (AUD_ASSERT e rb) = rb_data rb" "rb_read (AUD_ASSERT e rb) = rb_read rb"
  "rb_write (AUD_ASSERT e rb) = rb_write rb"
  "audio_ringbuf_count (AUD_ASSERT e rb) = audio_ringbuf_count rb"
  "AUD_ASSERT True rb = rb"
  by (simp_all add: AUD_ASSERT_def audio_ringbuf_count_def)

lemma ring_put_end: "length xs \<le> length d \<Longrightarrow> ring_put d (length d) xs = ring_put d 0 xs"
  by (cases "xs = []") (auto simp: ring_put_def Let_def blit_def)

lemma ring_put_mod: "w \<le> length d \<Longrightarrow> length xs \<le> length d \<Longrightarrow> ring_put d (w mod length d) xs = ring_put d w xs"
  by (cases "w = length d") (auto simp: ring_put_end)

lemma write_position:
  assumes "rb_inv rb"
  shows "rb_write rb mod rb_size rb = (rb_read rb + audio_ringbuf_count rb) mod rb_size rb"
  using assms by (auto simp: rb_inv_def audio_ringbuf_count_def)

text \<open>Writing at the write pointer, wrapping where the array ends, extends the view.\<close>

lemma rb_view_put:
  assumes "rb_inv rb" and "audio_ringbuf_count rb + length xs \<le> rb_size rb"
  shows "ring_view (ring_put (rb_data rb) (rb_write rb) xs) (rb_read rb)
           (audio_ringbuf_count rb + length xs) = rb_view rb @ xs"
proof -
  let ?d = "rb_data rb" and ?r = "rb_read rb mod rb_size rb" and ?c = "audio_ringbuf_count rb"
  have pos: "0 < rb_size rb" and w: "rb_write rb \<le> rb_size rb" using assms(1) by (auto simp: rb_inv_def)
  have l: "length (ring_put ?d (rb_write rb) xs) = rb_size rb" using w assms(2) by simp
  have "(?r + ?c) mod rb_size rb = rb_write rb mod rb_size rb"
    using write_position [OF assms(1)] by (simp add: mod_add_left_eq)
  then have "ring_put ?d ((?r + ?c) mod rb_size rb) xs = ring_put ?d (rb_write rb) xs"
    using w assms(2) by (simp add: ring_put_mod)
  moreover have "?r < length ?d" using pos by simp
  ultimately have "ring_view (ring_put ?d (rb_write rb) xs) ?r (?c + length xs) = ring_view ?d ?r ?c @ xs"
    using ring_view_put [of ?r ?d ?c xs] assms(2) by simp
  then show ?thesis unfolding rb_view_def ring_view_mod using l ring_view_mod by metis
qed

section \<open>Writing\<close>

text \<open>The state after \<open>n\<close> octets \<open>xs\<close> were written and the pointer moved to \<open>w\<close>.\<close>

definition put_result :: "ringbuf \<Rightarrow> bytes \<Rightarrow> ringbuf \<Rightarrow> bool" where
  "put_result rb xs rb' \<longleftrightarrow>
     (\<exists>w. rb' = rb\<lparr>rb_data := ring_put (rb_data rb) (rb_write rb) xs, rb_write := w\<rparr> \<and> rb_inv rb' \<and>
          rb_size rb' = rb_size rb \<and> audio_ringbuf_count rb' = audio_ringbuf_count rb + length xs)"

lemma put_result_view:
  assumes "put_result rb xs rb'" and "rb_inv rb"
  shows "rb_inv rb'" and "rb_view rb' = rb_view rb @ xs" and "rb_size rb' = rb_size rb"
    and "rb_asserts rb' = rb_asserts rb" and "rb_read rb' = rb_read rb"
proof -
  obtain w where rb': "rb' = rb\<lparr>rb_data := ring_put (rb_data rb) (rb_write rb) xs, rb_write := w\<rparr>"
    and inv: "rb_inv rb'" and c: "audio_ringbuf_count rb' = audio_ringbuf_count rb + length xs"
    using assms(1) by (auto simp: put_result_def)
  show s: "rb_size rb' = rb_size rb" using assms(1) by (auto simp: put_result_def)
  show "rb_inv rb'" by fact
  have "audio_ringbuf_count rb + length xs \<le> rb_size rb" using count_le_size [OF inv] c s by simp
  from rb_view_put [OF assms(2) this] show "rb_view rb' = rb_view rb @ xs"
    unfolding rb_view_def [of rb'] c by (simp add: rb')
  show "rb_asserts rb' = rb_asserts rb" "rb_read rb' = rb_read rb" by (simp_all add: rb')
qed

lemma mem_read_ok [simp]:
  "off + n \<le> length d \<Longrightarrow> mem_read d off (int n) = Inr (take n (drop off d))"
  by (simp add: mem_read_def)

lemma mem_write_ok [simp]: "off + length xs \<le> length d \<Longrightarrow> mem_write d off xs = Inr (blit d off xs)"
  by (simp add: mem_write_def)

lemma mem_set_ok [simp]:
  "off + n \<le> length d \<Longrightarrow> mem_set d off v (int n) = Inr (blit d off (replicate n v))"
  by (simp add: mem_set_def)

lemma free_space_le:
  assumes "rb_inv rb" and "n \<le> audio_ringbuf_free_space rb"
  shows "audio_ringbuf_count rb + n \<le> rb_size rb"
    and "0 < n \<Longrightarrow> audio_ringbuf_count rb + n + MAX_SIZE_OF_ONE_FRAME \<le> rb_size rb"
    and "\<not> rb_read rb \<le> rb_write rb \<Longrightarrow> rb_write rb + n \<le> rb_read rb"
    and "\<not> rb_read rb \<le> rb_write rb \<Longrightarrow> 0 < n \<Longrightarrow> rb_write rb + n < rb_read rb"
  using assms count_le_size [OF assms(1)]
  by (auto simp: audio_ringbuf_free_space_def audio_ringbuf_count_def rb_inv_def MAX_SIZE_OF_ONE_FRAME_def
      split: if_splits)

text \<open>The three positions of the written part, with the pointer each leaves behind.\<close>

lemma put_wrapped:
  assumes "rb_inv rb" and "length xs \<le> audio_ringbuf_free_space rb" and "rb_read rb \<le> rb_write rb"
    and "rb_size rb < rb_write rb + length xs"
  shows "put_result rb xs (rb\<lparr>rb_data := blit (blit (rb_data rb) (rb_write rb) (take (rb_size rb - rb_write rb) xs)) 0
                (drop (rb_size rb - rb_write rb) xs),
             rb_write := rb_write rb + length xs - rb_size rb\<rparr>)"
proof -
  let ?e = "rb_size rb - rb_write rb"
  have n: "0 < length xs" using assms(1,4) by (auto simp: rb_inv_def)
  note f = free_space_le [OF assms(1,2)]
  have le: "rb_write rb - rb_read rb + length xs + 16 \<le> rb_size rb"
    using f(2) [OF n] assms(3) by (simp add: audio_ringbuf_count_def MAX_SIZE_OF_ONE_FRAME_def)
  have "ring_put (rb_data rb) (rb_write rb) xs = blit (blit (rb_data rb) (rb_write rb) (take ?e xs)) 0 (drop ?e xs)"
    using assms(1,4) by (auto simp: ring_put_def Let_def rb_inv_def)
  moreover have "length (blit (blit (rb_data rb) (rb_write rb) (take ?e xs)) 0 (drop ?e xs)) = rb_size rb"
    using assms(1,3,4) le by (subst length_blit; (subst length_blit)?) (auto simp: rb_inv_def)
  ultimately show ?thesis
    using assms(1,3,4) le unfolding put_result_def
    by (intro exI [of _ "rb_write rb + length xs - rb_size rb"])
      (auto simp: rb_inv_def audio_ringbuf_count_def)
qed

lemma put_straight:
  assumes "rb_inv rb" and "length xs \<le> audio_ringbuf_free_space rb"
    and "rb_write rb + length xs \<le> rb_size rb"
    and "w = rb_write rb + length xs \<or> rb_read rb \<le> rb_write rb \<and> rb_write rb + length xs = rb_size rb \<and> w = 0"
  shows "put_result rb xs (rb\<lparr>rb_data := blit (rb_data rb) (rb_write rb) xs, rb_write := w\<rparr>)"
proof -
  note f = free_space_le [OF assms(1,2)]
  have "ring_put (rb_data rb) (rb_write rb) xs = blit (rb_data rb) (rb_write rb) xs"
    using assms(3) by (auto simp: ring_put_def Let_def)
  moreover have "length (blit (rb_data rb) (rb_write rb) xs) = rb_size rb"
    using assms(3) by simp
  ultimately show ?thesis
    using assms f unfolding put_result_def
    by (intro exI [of _ w]) (cases "xs = []"; auto simp: rb_inv_def audio_ringbuf_count_def MAX_SIZE_OF_ONE_FRAME_def)
qed

text \<open>What the function does when the write pointer is in the upper part, whatever room there is.\<close>

lemma copy_from_linear_fits:
  assumes "rb_read rb \<le> rb_write rb" and "rb_write rb + n \<le> rb_size rb" and "n \<le> length buf"
  shows "audio_ringbuf_copy_from_linear rb buf (int n) =
    Inr ((AUD_ASSERT (n \<le> audio_ringbuf_free_space rb) rb)
          \<lparr>rb_data := blit (rb_data rb) (rb_write rb) (take n buf),
           rb_write := (if rb_write rb + n = rb_size rb then 0 else rb_write rb + n)\<rparr>)"
proof -
  have e: "int (rb_size rb) - int (rb_write rb) = int (rb_size rb - rb_write rb)" "n \<le> rb_size rb - rb_write rb"
    using assms(2) by simp_all
  have "length (take n buf) = n" using assms(3) by simp
  then show ?thesis
    using assms e(2) by (simp add: audio_ringbuf_copy_from_linear_def Let_def e(1) del: of_nat_diff)
qed

lemma copy_from_linear_wraps:
  fixes rb n
  defines "e \<equiv> rb_size rb - rb_write rb"
  assumes "rb_read rb \<le> rb_write rb" and "rb_write rb \<le> rb_size rb" and "e < n" and "n - e \<le> rb_size rb"
    and "n \<le> length buf"
  shows "audio_ringbuf_copy_from_linear rb buf (int n) =
    Inr ((AUD_ASSERT (n \<le> audio_ringbuf_free_space rb) rb)
          \<lparr>rb_data := blit (blit (rb_data rb) (rb_write rb) (take e buf)) 0 (take (n - e) (drop e buf)),
           rb_write := n - e\<rparr>)"
proof -
  have e: "int (rb_size rb) - int (rb_write rb) = int e" using assms(3) by (simp add: e_def)
  have d: "int n - int e = int (n - e)" "nat (int e) = e" "\<not> int n \<le> int e" using assms(4) by simp_all
  let ?d1 = "blit (rb_data rb) (rb_write rb) (take e buf)"
  have t: "length (take e buf) = e" "length (take (n - e) (drop e buf)) = n - e"
    using assms(4,6) by simp_all
  have d1: "length ?d1 = rb_size rb" using t(1) assms(3) by (intro length_blit) (simp add: e_def)
  have r: "mem_read buf 0 (int e) = Inr (take e buf)"
    "mem_read buf e (int (n - e)) = Inr (take (n - e) (drop e buf))"
    using assms(4,6) mem_read_ok [of 0 e buf] mem_read_ok [of e "n - e" buf] by simp_all
  have wr: "mem_write (rb_data rb) (rb_write rb) (take e buf) = Inr ?d1"
    "mem_write ?d1 0 (take (n - e) (drop e buf)) = Inr (blit ?d1 0 (take (n - e) (drop e buf)))"
    using t d1 assms(3,5) by (intro mem_write_ok; simp add: e_def)+
  show ?thesis
    unfolding audio_ringbuf_copy_from_linear_def Let_def AUD_ASSERT_fields e d of_nat_le_iff
    using assms(2) d(3) unfolding of_nat_le_iff
    by (simp only: r wr if_True if_False bindE.simps nat_int AUD_ASSERT_fields)
qed

lemma copy_from_linear_ok:
  assumes "rb_inv rb" and "n \<le> audio_ringbuf_free_space rb" and "n \<le> length buf"
  shows "\<exists>rb'. audio_ringbuf_copy_from_linear rb buf (int n) = Inr rb' \<and> put_result rb (take n buf) rb'"
proof -
  let ?xs = "take n buf" and ?e = "rb_size rb - rb_write rb"
  have len: "length ?xs = n" "length ?xs \<le> audio_ringbuf_free_space rb" using assms(2,3) by simp_all
  have w: "rb_write rb \<le> rb_size rb" "rb_read rb \<le> rb_size rb" using assms(1) by (simp_all add: rb_inv_def)
  have free: "(n \<le> audio_ringbuf_free_space rb) = True" using assms(2) by simp
  consider (below) "\<not> rb_read rb \<le> rb_write rb" | (fits) "rb_read rb \<le> rb_write rb" "n \<le> ?e"
    | (wraps) "rb_read rb \<le> rb_write rb" "?e < n" by linarith
  then show ?thesis
  proof cases
    case below
    then have fits: "rb_write rb + n \<le> rb_size rb" using free_space_le(3) [OF assms(1,2)] w by simp
    have run: "audio_ringbuf_copy_from_linear rb buf (int n) =
        Inr (rb\<lparr>rb_data := blit (rb_data rb) (rb_write rb) ?xs, rb_write := rb_write rb + n\<rparr>)"
      using below fits assms(2,3) len(1) by (simp add: audio_ringbuf_copy_from_linear_def Let_def)
    show ?thesis
      unfolding run using put_straight [OF assms(1) len(2), of "rb_write rb + n"] fits
      by (simp only: len(1)) simp
  next
    case fits
    then have n: "rb_write rb + n \<le> rb_size rb" using w(1) by simp
    show ?thesis
      unfolding copy_from_linear_fits [OF fits(1) n assms(3)] free AUD_ASSERT_fields
      using put_straight [OF assms(1) len(2), of "if rb_write rb + n = rb_size rb then 0 else rb_write rb + n"]
        fits(1) n by (simp only: len(1)) simp
  next
    case wraps
    have l: "n - ?e \<le> rb_size rb" using free_space_le(1) [OF assms(1,2)] by simp
    have xs: "take ?e ?xs = take ?e buf" "drop ?e ?xs = take (n - ?e) (drop ?e buf)"
      "rb_write rb + length ?xs - rb_size rb = n - ?e"
      using wraps(2) len(1) w(1) by (simp_all add: min_def drop_take)
    have le: "rb_size rb < rb_write rb + length ?xs" using wraps(2) len(1) by simp
    show ?thesis
      unfolding copy_from_linear_wraps [OF wraps(1) w(1) wraps(2) l assms(3)] free AUD_ASSERT_fields
      using put_wrapped [OF assms(1) len(2) wraps(1) le] by (simp only: xs) simp
  qed
qed

text \<open>\<open>memset\<close> instead of \<open>memcpy\<close>: the same positions, so the same result.\<close>

lemma write_zero_as_copy:
  assumes "rb_inv rb" and "n \<le> audio_ringbuf_free_space rb"
  shows "audio_ringbuf_write_zero rb (int n) = audio_ringbuf_copy_from_linear rb (replicate n 0) (int n)"
proof -
  let ?e = "rb_size rb - rb_write rb"
  have e: "int (rb_size rb) - int (rb_write rb) = int ?e" using assms(1) by (auto simp: rb_inv_def)
  show ?thesis
  proof (cases "n \<le> ?e")
    case True
    then show ?thesis
      by (simp add: audio_ringbuf_write_zero_def audio_ringbuf_copy_from_linear_def Let_def e mem_set_def)
  next
    case False
    then have d: "int n - int ?e = int (n - ?e)" "nat (int ?e) = ?e" by simp_all
    from False show ?thesis
      by (simp add: audio_ringbuf_write_zero_def audio_ringbuf_copy_from_linear_def Let_def e d
          mem_set_def min_def del: of_nat_diff)
  qed
qed

section \<open>Reading\<close>

lemma copy_to_linear_ok:
  assumes "rb_inv rb" and "n \<le> audio_ringbuf_count rb"
  shows "\<exists>r. audio_ringbuf_copy_to_linear rb (int n) = Inr (take n (rb_view rb), rb\<lparr>rb_read := r\<rparr>) \<and>
    r \<le> rb_size rb \<and> r mod rb_size rb = (rb_read rb + n) mod rb_size rb \<and>
    rb_inv (rb\<lparr>rb_read := r\<rparr>) \<and>
    audio_ringbuf_count (rb\<lparr>rb_read := r\<rparr>) = audio_ringbuf_count rb - n"
proof -
  let ?e = "rb_size rb - rb_read rb"
  have inv: "rb_write rb \<le> rb_size rb" "rb_read rb \<le> rb_size rb" "audio_ringbuf_count rb < rb_size rb"
    using assms(1) by (simp_all add: rb_inv_def)
  have e: "int (rb_size rb) - int (rb_read rb) = int ?e" using inv by simp
  have view: "take n (rb_view rb) = ring_view (rb_data rb) (rb_read rb) n"
    using assms(2) by (simp add: rb_view_def take_ring_view)
  have c: "audio_ringbuf_count rb =
      (if rb_write rb \<ge> rb_read rb then rb_write rb - rb_read rb else rb_size rb - (rb_read rb - rb_write rb))"
    by (simp add: audio_ringbuf_count_def)
  show ?thesis
  proof (cases "n \<le> ?e")
    case True
    then have fits: "rb_read rb + n \<le> rb_size rb" using inv by simp
    let ?r = "if \<not> rb_read rb \<le> rb_write rb \<and> rb_read rb + n = rb_size rb then 0 else rb_read rb + n"
    have run: "audio_ringbuf_copy_to_linear rb (int n) = Inr (take n (rb_view rb), rb\<lparr>rb_read := ?r\<rparr>)"
      using True fits unfolding view ring_view_linear [OF fits]
      by (simp add: audio_ringbuf_copy_to_linear_def Let_def e del: of_nat_diff)
    show ?thesis
      unfolding run using inv assms(2) c fits
      by (intro exI [of _ ?r]) (auto simp: rb_inv_def audio_ringbuf_count_def split: if_splits)
  next
    case False
    have rw: "\<not> rb_read rb \<le> rb_write rb" using False assms(2) inv(1) c by auto
    have n: "n - ?e \<le> rb_write rb" "rb_size rb \<le> rb_read rb + n" "n \<le> rb_size rb"
      using False assms(2) inv c rw by auto
    have d: "int n - int ?e = int (n - ?e)" "\<not> int n \<le> int ?e" using False by simp_all
    have sum: "rb_read rb + n - rb_size rb = n - ?e" using inv False by simp
    have v: "take n (rb_view rb) = drop (rb_read rb) (rb_data rb) @ take (n - ?e) (rb_data rb)"
      unfolding view ring_view_wrap [OF inv(2) n(2,3)] sum ..
    have r: "mem_read (rb_data rb) (rb_read rb) (int ?e) = Inr (drop (rb_read rb) (rb_data rb))"
      "mem_read (rb_data rb) 0 (int (n - ?e)) = Inr (take (n - ?e) (rb_data rb))"
      using inv n mem_read_ok [of "rb_read rb" ?e "rb_data rb"] mem_read_ok [of 0 "n - ?e" "rb_data rb"]
      by simp_all
    have run: "audio_ringbuf_copy_to_linear rb (int n) = Inr (take n (rb_view rb), rb\<lparr>rb_read := n - ?e\<rparr>)"
      unfolding audio_ringbuf_copy_to_linear_def Let_def e d v
      using rw d(2) by (simp only: r if_False bindE.simps nat_int)
    have m: "(n - ?e) mod rb_size rb = (rb_read rb + n) mod rb_size rb"
      using n(2) unfolding sum [symmetric] by (metis le_mod_geq)
    show ?thesis
      unfolding run using inv assms(2) c n rw m
      by (intro exI [of _ "n - ?e"]) (auto simp: rb_inv_def audio_ringbuf_count_def)
  qed
qed

text \<open>Another read pointer at the same place of the circle, and what is then in the buffer.\<close>

lemma view_at:
  assumes "r mod rb_size rb = (rb_read rb + n) mod rb_size rb"
    and "audio_ringbuf_count (rb\<lparr>rb_read := r\<rparr>) = audio_ringbuf_count rb - n"
  shows "rb_view (rb\<lparr>rb_read := r\<rparr>) = drop n (rb_view rb)"
proof -
  have "ring_view (rb_data rb) r c = ring_view (rb_data rb) (rb_read rb + n) c" for c
    using assms(1) ring_view_mod by metis
  then show ?thesis unfolding rb_view_def assms(2) drop_ring_view by simp
qed

definition rb_put :: "ringbuf \<Rightarrow> bytes \<Rightarrow> ringbuf" where
  "rb_put rb xs =
     (case audio_ringbuf_copy_from_linear rb xs (int (length xs)) of Inr rb' \<Rightarrow> rb' | Inl _ \<Rightarrow> rb)"

definition rb_get :: "ringbuf \<Rightarrow> nat \<Rightarrow> bytes \<times> ringbuf" where
  "rb_get rb n =
     (case audio_ringbuf_copy_to_linear rb (int n) of Inr p \<Rightarrow> p | Inl _ \<Rightarrow> ([], rb))"

lemma rb_put_result:
  assumes "rb_inv rb" and "length xs \<le> audio_ringbuf_free_space rb"
  shows "put_result rb xs (rb_put rb xs)"
  using copy_from_linear_ok [OF assms order_refl] by (auto simp: rb_put_def)

lemma rb_get_result:
  assumes "rb_inv rb" and "n \<le> length (rb_view rb)"
  shows "fst (rb_get rb n) = take n (rb_view rb) \<and> rb_view (snd (rb_get rb n)) = drop n (rb_view rb) \<and>
    rb_inv (snd (rb_get rb n))"
  using copy_to_linear_ok [OF assms(1), of n] view_at assms(2) by (fastforce simp: rb_get_def)

interpretation audio_queue: byte_queue rb_inv rb_view audio_ringbuf_free_space rb_put rb_get
  by unfold_locales
    (use rb_put_result put_result_view rb_get_result in blast)+

section \<open>From one buffer to another\<close>

lemma view_parts:
  assumes "rb_inv rb" and "n \<le> audio_ringbuf_count rb"
  shows "n \<le> rb_size rb - rb_read rb \<Longrightarrow> take n (drop (rb_read rb) (rb_data rb)) = take n (rb_view rb)"
    and "rb_size rb - rb_read rb < n \<Longrightarrow>
      drop (rb_read rb) (rb_data rb) @ take (n - (rb_size rb - rb_read rb)) (rb_data rb) = take n (rb_view rb)"
proof -
  have inv: "rb_read rb \<le> rb_size rb" "audio_ringbuf_count rb < rb_size rb"
    using assms(1) by (simp_all add: rb_inv_def)
  have v: "take n (rb_view rb) = ring_view (rb_data rb) (rb_read rb) n"
    using assms(2) by (simp add: rb_view_def take_ring_view)
  show "n \<le> rb_size rb - rb_read rb \<Longrightarrow> take n (drop (rb_read rb) (rb_data rb)) = take n (rb_view rb)"
    unfolding v using inv by (subst ring_view_linear) simp_all
  assume wrap: "rb_size rb - rb_read rb < n"
  then have "rb_read rb + n - rb_size rb = n - (rb_size rb - rb_read rb)" using inv by simp
  then show "drop (rb_read rb) (rb_data rb) @ take (n - (rb_size rb - rb_read rb)) (rb_data rb) = take n (rb_view rb)"
    unfolding v using wrap inv assms(2) by (subst ring_view_wrap) simp_all
qed

lemma put_result_free:
  "put_result rb xs rb' \<Longrightarrow> audio_ringbuf_free_space rb' = audio_ringbuf_free_space rb - length xs"
  by (auto simp: put_result_def audio_ringbuf_free_space_def)

text \<open>What the source becomes is what \<open>audio_ringbuf_copy_to_linear\<close> makes of it.\<close>

lemma copy_from_ringbuf_run:
  assumes "rb_inv src" and "n \<le> audio_ringbuf_count src" and "n \<le> audio_ringbuf_free_space des"
    and "audio_ringbuf_copy_to_linear src (int n) = Inr (xs, src')"
  shows "n \<le> rb_size src - rb_read src \<Longrightarrow>
      audio_ringbuf_copy_from_ringbuf des src (int n) =
        bindE (audio_ringbuf_copy_from_linear des (drop (rb_read src) (rb_data src)) (int n))
          (\<lambda>des1. Inr (int n, des1, src'))"
    and "rb_size src - rb_read src < n \<Longrightarrow>
      audio_ringbuf_copy_from_ringbuf des src (int n) =
        bindE (audio_ringbuf_copy_from_linear des (drop (rb_read src) (rb_data src)) (int (rb_size src - rb_read src)))
          (\<lambda>des1. bindE (audio_ringbuf_copy_from_linear des1 (rb_data src) (int (n - (rb_size src - rb_read src))))
            (\<lambda>des2. Inr (int n, des2, src')))"
proof -
  let ?e = "rb_size src - rb_read src"
  have inv: "rb_read src \<le> rb_size src" "rb_write src \<le> rb_size src" using assms(1) by (simp_all add: rb_inv_def)
  have e: "int (rb_size src) - int (rb_read src) = int ?e" using inv by simp
  have ok: "(int n \<le> int (audio_ringbuf_count src) \<and> int n \<le> int (audio_ringbuf_free_space des)) = True"
    using assms(2,3) by simp
  { assume n: "n \<le> ?e"
    then show "audio_ringbuf_copy_from_ringbuf des src (int n) =
        bindE (audio_ringbuf_copy_from_linear des (drop (rb_read src) (rb_data src)) (int n))
          (\<lambda>des1. Inr (int n, des1, src'))"
      using assms(4) unfolding audio_ringbuf_copy_from_ringbuf_def audio_ringbuf_copy_to_linear_def Let_def e ok
      by (auto simp: bindE_eq_Inr mem_read_def simp del: of_nat_diff split: if_splits) }
  { assume n: "?e < n"
    have "\<not> rb_read src \<le> rb_write src" using n assms(2) inv by (auto simp: audio_ringbuf_count_def)
    moreover have "int n - int ?e = int (n - ?e)" "\<not> int n \<le> int ?e" using n by simp_all
    ultimately show "audio_ringbuf_copy_from_ringbuf des src (int n) =
        bindE (audio_ringbuf_copy_from_linear des (drop (rb_read src) (rb_data src)) (int ?e))
          (\<lambda>des1. bindE (audio_ringbuf_copy_from_linear des1 (rb_data src) (int (n - ?e)))
            (\<lambda>des2. Inr (int n, des2, src')))"
      using assms(4) unfolding audio_ringbuf_copy_from_ringbuf_def audio_ringbuf_copy_to_linear_def Let_def e ok
      by (auto simp: bindE_eq_Inr simp del: of_nat_diff) }
qed

lemma copy_from_ringbuf_ok:
  assumes "rb_inv src" and "rb_inv des" and "n \<le> audio_ringbuf_count src" and "n \<le> audio_ringbuf_free_space des"
  shows "\<exists>des' src'. audio_ringbuf_copy_from_ringbuf des src (int n) = Inr (int n, des', src') \<and>
    rb_inv des' \<and> rb_view des' = rb_view des @ take n (rb_view src) \<and> rb_asserts des' = rb_asserts des \<and>
    rb_inv src' \<and> rb_view src' = drop n (rb_view src)"
proof -
  let ?e = "rb_size src - rb_read src" and ?tail = "drop (rb_read src) (rb_data src)"
  obtain r where ctl: "audio_ringbuf_copy_to_linear src (int n) = Inr (take n (rb_view src), src\<lparr>rb_read := r\<rparr>)"
    and r: "r mod rb_size src = (rb_read src + n) mod rb_size src" "rb_inv (src\<lparr>rb_read := r\<rparr>)"
      "audio_ringbuf_count (src\<lparr>rb_read := r\<rparr>) = audio_ringbuf_count src - n"
    using copy_to_linear_ok [OF assms(1,3)] by blast
  note src = r(2) view_at [OF r(1,3)]
  note run = copy_from_ringbuf_run [OF assms(1,3,4) ctl]
  show ?thesis
  proof (cases "n \<le> ?e")
    case True
    then obtain des1 where "audio_ringbuf_copy_from_linear des ?tail (int n) = Inr des1"
        and p: "put_result des (take n ?tail) des1"
      using copy_from_linear_ok [OF assms(2,4), of ?tail] by auto
    with run(1) [OF True] src put_result_view [OF p assms(2)] view_parts(1) [OF assms(1,3) True]
    show ?thesis by simp
  next
    case False
    then have e: "?e < n" "?e \<le> audio_ringbuf_free_space des" using assms(4) by simp_all
    have l: "length ?tail = ?e" by simp
    obtain des1 where c1: "audio_ringbuf_copy_from_linear des ?tail (int ?e) = Inr des1"
        and p1: "put_result des ?tail des1"
      using copy_from_linear_ok [OF assms(2) e(2), of ?tail] by auto
    note v1 = put_result_view [OF p1 assms(2)]
    have fits: "n - ?e \<le> audio_ringbuf_free_space des1" "n - ?e \<le> length (rb_data src)"
      using put_result_free [OF p1] assms(3,4) count_le_size [OF assms(1)] by (simp_all add: l)
    obtain des2 where c2: "audio_ringbuf_copy_from_linear des1 (rb_data src) (int (n - ?e)) = Inr des2"
        and p2: "put_result des1 (take (n - ?e) (rb_data src)) des2"
      using copy_from_linear_ok [OF v1(1) fits] by blast
    note v2 = put_result_view [OF p2 v1(1)]
    have "audio_ringbuf_copy_from_ringbuf des src (int n) = Inr (int n, des2, src\<lparr>rb_read := r\<rparr>)"
      unfolding run(2) [OF e(1)] c1 bindE.simps c2 ..
    then show ?thesis
      using src v2 v1 view_parts(2) [OF assms(1,3) e(1)] by simp
  qed
qed

section \<open>Putting back\<close>

lemma mod_add_rcancel: "((a + n) mod N = (b + n) mod N) = (a mod N = (b::nat) mod N)"
proof
  assume h: "(a + n) mod N = (b + n) mod N"
  show "a mod N = b mod N"
  proof (cases "N = 0")
    case False
    then have "n mod N \<le> N" by simp
    then have k: "n + (N - n mod N) = N * Suc (n div N)"
      unfolding mult_Suc_right using minus_mod_eq_mult_div [of n N] mod_less_eq_dividend [of n N] by linarith
    have "(x + n + (N - n mod N)) mod N = x mod N" for x
      by (simp only: add.assoc k mod_mult_self2)
    then show ?thesis using h by (metis mod_add_left_eq)
  qed (use h in simp)
next
  assume "a mod N = b mod N"
  then show "(a + n) mod N = (b + n) mod N" by (metis mod_add_left_eq)
qed

lemma as_uint32_small [simp]: "n < 2 ^ 32 \<Longrightarrow> as_uint32 (int n) = n"
  by (simp add: as_uint32_def zmod_int [symmetric] del: of_nat_mod)

lemma rollback_ok:
  assumes "rb_inv rb" and "n \<le> audio_ringbuf_free_space rb" and "rb_size rb < 2 ^ 32"
  shows "\<exists>r. audio_ringbuf_rollback rb (int n) = rb\<lparr>rb_read := r\<rparr> \<and> rb_inv (rb\<lparr>rb_read := r\<rparr>) \<and>
    r \<le> rb_size rb \<and> (r + n) mod rb_size rb = rb_read rb mod rb_size rb \<and>
    audio_ringbuf_count (rb\<lparr>rb_read := r\<rparr>) = audio_ringbuf_count rb + n"
proof -
  note f = free_space_le [OF assms(1,2)]
  have inv: "rb_read rb \<le> rb_size rb" "rb_write rb \<le> rb_size rb" "audio_ringbuf_count rb < rb_size rb"
    using assms(1) by (simp_all add: rb_inv_def)
  have small: "\<not> as_uint32 (int n) > audio_ringbuf_free_space rb" using assms(2,3) f(1) by simp
  consider (plain) "n \<le> rb_read rb" | (wrap) "rb_read rb < n" by linarith
  then show ?thesis
  proof cases
    case plain
    have "audio_ringbuf_rollback rb (int n) = rb\<lparr>rb_read := rb_read rb - n\<rparr>"
      using small plain by (simp add: audio_ringbuf_rollback_def Let_def nat_diff_distrib)
    moreover have "audio_ringbuf_count (rb\<lparr>rb_read := rb_read rb - n\<rparr>) = audio_ringbuf_count rb + n"
      using plain f inv by (cases "n = 0") (auto simp: audio_ringbuf_count_def)
    ultimately show ?thesis
      using plain f inv by (intro exI [of _ "rb_read rb - n"])
        (cases "n = 0"; auto simp: rb_inv_def MAX_SIZE_OF_ONE_FRAME_def)
  next
    case wrap
    then have le: "rb_read rb \<le> rb_write rb" using f(3) by fastforce
    let ?r = "rb_size rb - (n - rb_read rb)"
    have "audio_ringbuf_rollback rb (int n) = rb\<lparr>rb_read := ?r\<rparr>"
      using small wrap le f(1) inv
      by (auto simp: audio_ringbuf_rollback_def Let_def nat_diff_distrib of_nat_diff [symmetric] simp del: of_nat_diff)
    moreover have "audio_ringbuf_count (rb\<lparr>rb_read := ?r\<rparr>) = audio_ringbuf_count rb + n"
      using wrap f inv le by (auto simp: audio_ringbuf_count_def MAX_SIZE_OF_ONE_FRAME_def)
    moreover have "?r + n = rb_size rb + rb_read rb" using wrap f(1) inv by simp
    ultimately show ?thesis
      using wrap f(2) inv by (intro exI [of _ ?r]) (simp add: rb_inv_def MAX_SIZE_OF_ONE_FRAME_def)
  qed
qed

text \<open>Writing \<open>xs\<close> leaves what lies between its end and its start unchanged.\<close>

lemma ring_view_behind_put:
  assumes "w < length d" and "length xs + c \<le> length d"
  shows "ring_view (ring_put d w xs) (w + length xs) c = ring_view d (w + length xs) c"
proof (rule ring_view_cong)
  show "length (ring_put d w xs) = length d" using assms by simp
  fix i
  assume i: "i < c"
  then have "length xs + i < length d" using assms(2) by simp
  from mod_add_cases [OF assms(1) this] this assms i
  show "ring_put d w xs ! ((w + length xs + i) mod length d) = d ! ((w + length xs + i) mod length d)"
    by (subst nth_ring_put) (auto simp: add.assoc split: if_splits)
qed

lemma compensate_value_ok:
  assumes "rb_inv rb" and "0 < n" and "n \<le> audio_ringbuf_free_space rb" and "rb_size rb < 2 ^ 32"
    and "rb_write rb < rb_size rb" and "rb_read rb < rb_size rb"
  shows "\<exists>rb'. audio_ringbuf_compensate_value rb v (int n) = Inr rb' \<and> rb_asserts rb' = rb_asserts rb \<and>
    rb_inv rb' \<and> rb_view rb' = replicate n (word_of_int v) @ rb_view rb"
proof -
  note f = free_space_le [OF assms(1,3)]
  let ?xs = "replicate n (word_of_int v :: u8)" and ?d = "rb_data rb" and ?N = "rb_size rb"
  let ?c = "audio_ringbuf_count rb"
  have small: "\<not> as_uint32 (int n) > audio_ringbuf_free_space rb" using assms(3,4) f(1) by simp
  have room: "?c + n + MAX_SIZE_OF_ONE_FRAME \<le> ?N" using f(2) assms(2) .
  let ?r = "if n \<le> rb_read rb then rb_read rb - n else ?N - (n - rb_read rb)"
  have r: "?r < ?N" "(?r + n) mod ?N = rb_read rb"
    using assms(2,6) room by (auto simp: MAX_SIZE_OF_ONE_FRAME_def)
  have le: "rb_read rb \<le> rb_write rb" if "\<not> n \<le> rb_read rb" using f(3) that by fastforce
  have data: "ring_put ?d ?r ?xs =
      (if n \<le> rb_read rb then blit ?d ?r ?xs
       else blit (blit ?d 0 (replicate (rb_read rb) (word_of_int v))) ?r (replicate (n - rb_read rb) (word_of_int v)))"
    (is "_ = ?dat")
  proof (rule nth_equalityI)
    have l: "length ?dat = ?N" using assms(2,6) room by (auto simp: length_blit)
    show "length (ring_put ?d ?r ?xs) = length ?dat" using l r(1) room by simp
    fix i
    assume "i < length (ring_put ?d ?r ?xs)"
    then have i: "i < ?N" using r(1) room by simp
    show "ring_put ?d ?r ?xs ! i = ?dat ! i"
      using i r(1) room assms(2,6) by (subst nth_ring_put) (auto simp: nth_blit)
  qed
  have count: "audio_ringbuf_count (rb\<lparr>rb_read := ?r, rb_data := ring_put ?d ?r ?xs\<rparr>) = ?c + n"
    using f(4) [OF _ assms(2)] le room r(1) assms(5,6)
    by (auto simp: audio_ringbuf_count_def MAX_SIZE_OF_ONE_FRAME_def)
  have run: "audio_ringbuf_compensate_value rb v (int n) =
      Inr (rb\<lparr>rb_read := ?r, rb_data := ring_put ?d ?r ?xs\<rparr>)"
  proof (cases "n \<le> rb_read rb")
    case True
    have "mem_set ?d (rb_read rb - n) (word_of_int v) (int n) = Inr (blit ?d (rb_read rb - n) ?xs)"
      using True assms(6) by (intro mem_set_ok) simp
    then show ?thesis
      using small True assms(5,6) unfolding data
      by (simp add: audio_ringbuf_compensate_value_def Let_def AUD_ASSERT_def nat_diff_distrib)
  next
    case False
    let ?left = "n - rb_read rb"
    have i: "int n - int (rb_read rb) = int ?left" "nat (int ?N - int ?left) = ?N - ?left"
      "nat (int ?N - int n) = ?N - n"
      using False by (simp_all add: nat_diff_distrib')
    have m: "mem_set ?d 0 (word_of_int v) (int (rb_read rb)) = Inr (blit ?d 0 (replicate (rb_read rb) (word_of_int v)))"
      using assms(6) by (intro mem_set_ok) simp
    have m2: "mem_set (blit ?d 0 (replicate (rb_read rb) (word_of_int v))) (?N - ?left) (word_of_int v) (int ?left) =
        Inr (blit (blit ?d 0 (replicate (rb_read rb) (word_of_int v))) (?N - ?left) (replicate ?left (word_of_int v)))"
      using assms(6) room by (intro mem_set_ok) simp
    show ?thesis
      using small False le assms(2,5,6) room m m2 unfolding data
      by (auto simp: audio_ringbuf_compensate_value_def Let_def AUD_ASSERT_def i length_blit simp del: of_nat_diff)
  qed
  have "ring_view (ring_put ?d ?r ?xs) ?r (n + ?c) = ?xs @ ring_view ?d (rb_read rb) ?c"
  proof -
    have "ring_view (ring_put ?d ?r ?xs) ?r n = ?xs"
      using ring_view_put [of ?r ?d 0 ?xs] r(1) room by simp
    moreover have "ring_view (ring_put ?d ?r ?xs) (?r + n) ?c = ring_view ?d (?r + n) ?c"
      using ring_view_behind_put [of ?r ?d ?xs ?c] r(1) room by simp
    moreover have "ring_view ?d (?r + n) ?c = ring_view ?d (rb_read rb) ?c"
      using r(2) by (metis ring_view_mod)
    ultimately show ?thesis by (simp only: ring_view_append)
  qed
  then show ?thesis
    unfolding run using count r(1) room assms(5)
    by (auto simp: rb_view_def rb_inv_def add.commute MAX_SIZE_OF_ONE_FRAME_def)
qed

section \<open>Properties\<close>

text \<open>C33. From buffer to buffer: the macro \<open>AUDIO_RINGBUF_COPY_FROM_RINGBUF_ALL\<close> moves as many octets as the
  source holds and the target has room for, whichever is less. They are the oldest of the source, they come
  behind those of the target in their order, wherever either of the two wraps, the rest stays in the source,
  the macro returns their number, and no assertion fails.\<close>

theorem ringbuf_to_ringbuf:
  assumes "rb_inv src" and "rb_inv des"
  defines "n \<equiv> min (audio_ringbuf_count src) (audio_ringbuf_free_space des)"
  shows "\<exists>des' src'. copy_from_ringbuf_all des src = Inr (int n, des', src') \<and>
    rb_inv des' \<and> rb_view des' = rb_view des @ take n (rb_view src) \<and>
    rb_inv src' \<and> rb_view src' = drop n (rb_view src) \<and>
    audio_ringbuf_count src' = audio_ringbuf_count src - n \<and> rb_asserts des' = rb_asserts des"
proof -
  have n: "n \<le> audio_ringbuf_count src" "n \<le> audio_ringbuf_free_space des" by (simp_all add: n_def)
  have all: "copy_from_ringbuf_all des src = audio_ringbuf_copy_from_ringbuf des src (int n)"
    by (simp add: copy_from_ringbuf_all_def Let_def n_def min_def)
  obtain des' src' where "audio_ringbuf_copy_from_ringbuf des src (int n) = Inr (int n, des', src')"
    and v: "rb_inv des'" "rb_view des' = rb_view des @ take n (rb_view src)" "rb_asserts des' = rb_asserts des"
      "rb_inv src'" "rb_view src' = drop n (rb_view src)"
    using copy_from_ringbuf_ok [OF assms(1,2) n] by blast
  moreover have "audio_ringbuf_count src' = audio_ringbuf_count src - n"
    using arg_cong [OF v(5), of length] by simp
  ultimately show ?thesis unfolding all by simp
qed

definition wrapped_src :: ringbuf where
  "wrapped_src = \<lparr>rb_data = [3, 4] @ replicate 18 0 @ [1, 2], rb_read = 20, rb_write = 2, rb_asserts = 0\<rparr>"

definition wrapped_des :: ringbuf where
  "wrapped_des = \<lparr>rb_data = replicate 24 9, rb_read = 21, rb_write = 23, rb_asserts = 0\<rparr>"

lemma wrapped_facts:
  "rb_inv wrapped_src" "rb_inv wrapped_des" "audio_ringbuf_count wrapped_src = 4"
  "audio_ringbuf_free_space wrapped_des = 6" "rb_view wrapped_src = [1, 2, 3, 4]" "rb_size wrapped_src = 22"
  by (simp_all add: rb_inv_def wrapped_src_def wrapped_des_def audio_ringbuf_count_def
      audio_ringbuf_free_space_def MAX_SIZE_OF_ONE_FRAME_def rb_view_def ring_view_def nth_append upt_rec)

theorem ringbuf_to_ringbuf_witness:
  "\<exists>des' src'. copy_from_ringbuf_all (wrapped_des\<lparr>rb_write := 3\<rparr>) wrapped_src = Inr (2, des', src') \<and>
     rb_view des' = [9, 9, 9, 9, 9, 9, 1, 2] \<and> rb_view src' = [3, 4]"
proof -
  let ?des = "wrapped_des\<lparr>rb_write := 3\<rparr>"
  have "rb_view ?des = [9, 9, 9, 9, 9, 9]"
    by (simp add: wrapped_des_def audio_ringbuf_count_def rb_view_def ring_view_def upt_rec)
  moreover have "rb_inv ?des" "audio_ringbuf_free_space ?des = 2"
    by (simp_all add: rb_inv_def wrapped_des_def audio_ringbuf_count_def audio_ringbuf_free_space_def
        MAX_SIZE_OF_ONE_FRAME_def)
  ultimately show ?thesis using ringbuf_to_ringbuf [OF wrapped_facts(1), of ?des]
    by (auto simp: wrapped_facts numeral_2_eq_2)
qed

text \<open>Octets that were taken out can be put back: after \<open>audio_ringbuf_copy_to_linear\<close> the same count in
  \<open>audio_ringbuf_rollback\<close> gives the buffer its old contents again.\<close>

theorem rollback_restores:
  assumes "rb_inv rb" and "n \<le> audio_ringbuf_count rb"
    and "audio_ringbuf_count rb + MAX_SIZE_OF_ONE_FRAME \<le> rb_size rb" and "rb_size rb < 2 ^ 32"
    and "audio_ringbuf_copy_to_linear rb (int n) = Inr (xs, rb1)"
  shows "xs = take n (rb_view rb) \<and> rb_view rb1 = drop n (rb_view rb) \<and>
    rb_inv (audio_ringbuf_rollback rb1 (int n)) \<and> rb_view (audio_ringbuf_rollback rb1 (int n)) = rb_view rb"
proof -
  obtain r where r: "xs = take n (rb_view rb)" "rb1 = rb\<lparr>rb_read := r\<rparr>" "rb_inv rb1"
      "r mod rb_size rb = (rb_read rb + n) mod rb_size rb" "audio_ringbuf_count rb1 = audio_ringbuf_count rb - n"
    using copy_to_linear_ok [OF assms(1,2)] assms(5) by auto
  have "n \<le> audio_ringbuf_free_space rb1" "rb_size rb1 = rb_size rb"
    using assms(2,3) r(2,5) by (simp_all add: audio_ringbuf_free_space_def)
  with rollback_ok [OF r(3)] assms(4) obtain q where q:
      "audio_ringbuf_rollback rb1 (int n) = rb1\<lparr>rb_read := q\<rparr>" "rb_inv (rb1\<lparr>rb_read := q\<rparr>)"
      "(q + n) mod rb_size rb = r mod rb_size rb"
      "audio_ringbuf_count (rb1\<lparr>rb_read := q\<rparr>) = audio_ringbuf_count rb1 + n"
    using r(2) by auto
  have "q mod rb_size rb = rb_read rb mod rb_size rb" using q(3) r(4) mod_add_rcancel by metis
  then have "ring_view (rb_data rb) q c = ring_view (rb_data rb) (rb_read rb) c" for c
    using ring_view_mod by metis
  moreover have "audio_ringbuf_count (rb\<lparr>rb_read := q\<rparr>) = audio_ringbuf_count rb"
    using q(4) r(2,5) assms(2) by (simp add: audio_ringbuf_count_def)
  moreover have old: "audio_ringbuf_rollback rb1 (int n) = rb\<lparr>rb_read := q\<rparr>" using q(1) r(2) by simp
  ultimately have "rb_view (audio_ringbuf_rollback rb1 (int n)) = rb_view rb"
    unfolding old by (simp add: rb_view_def)
  then show ?thesis using q(1,2) r view_at [of r rb n] by simp
qed

theorem rollback_restores_witness:
  "rb_view (audio_ringbuf_rollback (wrapped_src\<lparr>rb_read := 1\<rparr>) 3) = [1, 2, 3, 4]"
proof -
  have "audio_ringbuf_copy_to_linear wrapped_src (int 3) = Inr ([1, 2, 3], wrapped_src\<lparr>rb_read := 1\<rparr>)"
    by (simp add: audio_ringbuf_copy_to_linear_def wrapped_src_def mem_read_def)
  from rollback_restores [OF wrapped_facts(1) _ _ _ this] show ?thesis
    by (simp add: wrapped_facts MAX_SIZE_OF_ONE_FRAME_def)
qed

lemma mod_add_le:
  "r < N \<Longrightarrow> i \<le> N \<Longrightarrow> (r + i) mod N = (if r + i < N then r + i else r + i - (N :: nat))"
  by (cases "i = N") (simp_all add: mod_add_cases)

text \<open>The check for room stops nothing: a write larger than the free room is reported and carried out.
  In the upper part of the array the write pointer passes the read pointer, and of what the buffer
  held and got only the count modulo its size is left; in the lower part it runs out of the array.\<close>

theorem overfull_write:
  assumes "rb_inv rb" and "audio_ringbuf_free_space rb < length xs" and "length xs \<le> rb_size rb"
  shows "(rb_read rb \<le> rb_write rb \<longrightarrow>
      (\<exists>rb'. audio_ringbuf_copy_from_linear rb xs (int (length xs)) = Inr rb' \<and>
        rb_asserts rb' = Suc (rb_asserts rb) \<and>
        audio_ringbuf_count rb' = (audio_ringbuf_count rb + length xs) mod rb_size rb)) \<and>
    (rb_write rb < rb_read rb \<and> rb_size rb < rb_write rb + length xs \<longrightarrow>
      audio_ringbuf_copy_from_linear rb xs (int (length xs)) = Inl OutOfBounds)"
proof (intro conjI impI)
  let ?n = "length xs" and ?e = "rb_size rb - rb_write rb"
  have w: "rb_write rb \<le> rb_size rb" "rb_read rb \<le> rb_size rb" "audio_ringbuf_count rb < rb_size rb"
    using assms(1) by (simp_all add: rb_inv_def)
  have over: "(?n \<le> audio_ringbuf_free_space rb) = False" using assms(2) by simp
  assume up: "rb_read rb \<le> rb_write rb"
  then have c: "audio_ringbuf_count rb = rb_write rb - rb_read rb" by (simp add: audio_ringbuf_count_def)
  show "\<exists>rb'. audio_ringbuf_copy_from_linear rb xs (int ?n) = Inr rb' \<and>
      rb_asserts rb' = Suc (rb_asserts rb) \<and>
      audio_ringbuf_count rb' = (audio_ringbuf_count rb + ?n) mod rb_size rb"
  proof (cases "?n \<le> ?e")
    case True
    then have fits: "rb_write rb + ?n \<le> rb_size rb" using w by simp
    have l: "length (blit (rb_data rb) (rb_write rb) xs) = rb_size rb" using fits by simp
    show ?thesis
      unfolding copy_from_linear_fits [OF up fits order_refl] over
      unfolding mod_add_le [OF w(3) assms(3)] using fits up w l by (auto simp: AUD_ASSERT_def audio_ringbuf_count_def)
  next
    case False
    then have wr: "?e < ?n" "?n - ?e \<le> rb_size rb" using assms(3) by simp_all
    let ?d = "blit (blit (rb_data rb) (rb_write rb) (take ?e xs)) 0 (take (?n - ?e) (drop ?e xs))"
    have "length (blit (rb_data rb) (rb_write rb) (take ?e xs)) = rb_size rb" using wr w by (intro length_blit) simp
    then have l: "length ?d = rb_size rb" using wr by (subst length_blit) simp_all
    have m: "rb_write rb + ?n - rb_size rb = ?n - ?e" using wr w by simp
    have "(audio_ringbuf_count rb + ?n) mod rb_size rb =
        (if rb_read rb \<le> ?n - ?e then ?n - ?e - rb_read rb else rb_size rb - (rb_read rb - (?n - ?e)))"
      unfolding mod_add_le [OF w(3) assms(3)] using wr w(1,2) up c by auto
    then show ?thesis
      unfolding copy_from_linear_wraps [OF up w(1) wr order_refl] over
      using l by (simp add: AUD_ASSERT_def audio_ringbuf_count_def)
  qed
next
  assume "rb_write rb < rb_read rb \<and> rb_size rb < rb_write rb + length xs"
  then show "audio_ringbuf_copy_from_linear rb xs (int (length xs)) = Inl OutOfBounds"
    by (simp add: audio_ringbuf_copy_from_linear_def Let_def mem_write_def)
qed

theorem overfull_write_witness:
  "\<exists>rb'. audio_ringbuf_copy_from_linear wrapped_des (replicate 22 7) 22 = Inr rb' \<and>
     rb_asserts rb' = 1 \<and> audio_ringbuf_count rb' = 0"
proof -
  have "audio_ringbuf_count wrapped_des = 2" "rb_read wrapped_des \<le> rb_write wrapped_des"
    "rb_size wrapped_des = 24" "rb_asserts wrapped_des = 0"
    by (simp_all add: wrapped_des_def audio_ringbuf_count_def)
  with overfull_write [OF wrapped_facts(2), of "replicate 22 7"] show ?thesis
    by (simp add: wrapped_facts)
qed

end
