(* ===== verification/Sim_Fcp.thy ===== *)
theory Sim_Fcp
  imports Hw_Prelude
begin

text \<open>
  The parser of the file control parameters a SIM card answers with
  (\<open>ril/gsm/mtk-ril/usim_fcp_parser.c\<close>): tag, length and value objects, one query function for each
  kind of object.  A pointer into the answer is an offset into the list of its octets; reading
  outside is \<open>OutOfBounds\<close>.  \<open>assert (0)\<close> is \<open>Assert 0\<close>.  The loop of \<open>fcp_tlv_search_tag\<close> may run
  for ever: it is a partial function, and \<open>Hang\<close> is its missing result.
\<close>

section \<open>Constants and structures\<close>

definition FCP_TEMP_T :: u8 where "FCP_TEMP_T = 0x62"

datatype usim_fcp_tag =
    FCP_FILE_DES_T | FCP_FILE_ID_T | FCP_DF_NAME_T | FCP_PROPRIETARY_T | FCP_LIFE_CYCLE_T
  | FCP_SEC_ATTRIBUTE_QUERY | FCP_SEC_COMPACT_T | FCP_SEC_EXPANDED_T | FCP_SEC_REF_T
  | FCP_PIN_DO_T | FCP_TOTAL_FILE_SIZE_T | FCP_FILE_SIZE_T | FCP_SFI_T

fun fcp_tag_value :: "usim_fcp_tag \<Rightarrow> u8" where
  "fcp_tag_value FCP_FILE_DES_T = 0x82"
| "fcp_tag_value FCP_FILE_ID_T = 0x83"
| "fcp_tag_value FCP_DF_NAME_T = 0x84"
| "fcp_tag_value FCP_PROPRIETARY_T = 0xA5"
| "fcp_tag_value FCP_LIFE_CYCLE_T = 0x8A"
| "fcp_tag_value FCP_SEC_ATTRIBUTE_QUERY = 0xFF"
| "fcp_tag_value FCP_SEC_COMPACT_T = 0x8C"
| "fcp_tag_value FCP_SEC_EXPANDED_T = 0xAB"
| "fcp_tag_value FCP_SEC_REF_T = 0x8B"
| "fcp_tag_value FCP_PIN_DO_T = 0xC6"
| "fcp_tag_value FCP_TOTAL_FILE_SIZE_T = 0x81"
| "fcp_tag_value FCP_FILE_SIZE_T = 0x80"
| "fcp_tag_value FCP_SFI_T = 0x88"

definition PROP_UICC_CHAR_T :: u8 where "PROP_UICC_CHAR_T = 0x80"
definition PROP_APP_PWR_T :: u8 where "PROP_APP_PWR_T = 0x81"
definition PROP_MIN_APP_CLK_T :: u8 where "PROP_MIN_APP_CLK_T = 0x82"
definition PROP_AVAIL_MEM_T :: u8 where "PROP_AVAIL_MEM_T = 0x83"
definition PIN_PS_DO_T :: u8 where "PIN_PS_DO_T = 0x90"
definition PIN_USAGE_QUALIFIER_T :: u8 where "PIN_USAGE_QUALIFIER_T = 0x95"
definition PIN_KEY_REF_T :: u8 where "PIN_KEY_REF_T = 0x83"

record usim_file_descriptor =
  fd_fd :: u8
  fd_data_coding :: u8
  fd_rec_len :: u16
  fd_num_rec :: u8

record usim_df_name =
  df_length :: u8
  df_name :: bytes

record usim_proprietary_information =
  pi_do_flag :: u8
  pi_char_byte :: u8
  pi_supp_volt_class :: u8
  pi_app_pwr_consump :: u8
  pi_pwr_ref_freq :: u8
  pi_app_min_freq :: u8
  pi_available_mem_bytes :: u32

record usim_pin_status =
  ps_pin_flag :: u32
  ps_enabled_pin_flag :: u32

datatype sfi_usage = SFI_NOT_SUPPORT | SFI_FILE_ID | SFI_PROP_ID

record usim_short_file_identifier =
  sfi_sfi_usage :: sfi_usage
  sfi_sfi_prop :: u8

section \<open>Searching for a tag\<close>

text \<open>The length byte plus two is kept in an octet, and subtracted from a 16 bit length.\<close>

partial_function (option) fcp_search_loop ::
  "bytes \<Rightarrow> u8 \<Rightarrow> nat \<Rightarrow> u16 \<Rightarrow> (u8 \<times> nat option) res option" where
  "fcp_search_loop mem tag p len =
     (if len > 0 then
        (case array_get mem (p + 1) of
           Inl e \<Rightarrow> Some (Inl e)
         | Inr l \<Rightarrow>
             (let tag_len = l + 2
              in case array_get mem p of
                   Inl e \<Rightarrow> Some (Inl e)
                 | Inr t \<Rightarrow>
                     if t = tag then Some (Inr (l, Some (p + 2)))
                     else fcp_search_loop mem tag (p + unat tag_len) (len - ucast tag_len)))
      else Some (Inr (0, None)))"

definition returns :: "'a res option \<Rightarrow> 'a res" where
  "returns r = (case r of None \<Rightarrow> Inl Hang | Some x \<Rightarrow> x)"

definition fcp_tlv_search_tag :: "bytes \<Rightarrow> nat \<Rightarrow> u16 \<Rightarrow> usim_fcp_tag \<Rightarrow> (u8 \<times> nat option) res" where
  "fcp_tlv_search_tag mem p len tag = returns (fcp_search_loop mem (fcp_tag_value tag) p len)"

text \<open>
  The variant of \<open>ril/fusion/mtk-ril/mdcomm/sim/usim_fcp_parser.c\<close>: the length stops at zero instead
  of wrapping.
\<close>

partial_function (option) fusion_search_loop ::
  "bytes \<Rightarrow> u8 \<Rightarrow> nat \<Rightarrow> u16 \<Rightarrow> (u8 \<times> nat option) res option" where
  "fusion_search_loop mem tag p len =
     (if len > 0 then
        (case array_get mem (p + 1) of
           Inl e \<Rightarrow> Some (Inl e)
         | Inr l \<Rightarrow>
             (let tag_len = l + 2
              in case array_get mem p of
                   Inl e \<Rightarrow> Some (Inl e)
                 | Inr t \<Rightarrow>
                     if t = tag then Some (Inr (l, Some (p + 2)))
                     else fusion_search_loop mem tag (p + unat tag_len)
                            (if len \<le> ucast tag_len then 0 else len - ucast tag_len)))
      else Some (Inr (0, None)))"

definition fusion_tlv_search_tag :: "bytes \<Rightarrow> nat \<Rightarrow> u16 \<Rightarrow> usim_fcp_tag \<Rightarrow> (u8 \<times> nat option) res" where
  "fusion_tlv_search_tag mem p len tag = returns (fusion_search_loop mem (fcp_tag_value tag) p len)"

text \<open>The search inside proprietary information computes the step as an \<open>int\<close>.\<close>

function prop_info_tlv_search_tag :: "bytes \<Rightarrow> nat \<Rightarrow> u16 \<Rightarrow> u8 \<Rightarrow> (u8 \<times> nat option) res" where
  "prop_info_tlv_search_tag mem p len tag =
     (if len > 0 then
        bindE (array_get mem p) (\<lambda>t.
        bindE (array_get mem (p + 1)) (\<lambda>l.
          if t = tag then Inr (l, Some (p + 2))
          else prop_info_tlv_search_tag mem (p + unat l + 2) (len - (ucast l + 2)) tag))
      else Inr (0, None))"
  by pat_completeness auto
termination
  by (relation "measure (\<lambda>(mem, p, len, tag). length mem - p)")
    (auto simp: array_get_def split: if_splits)

declare prop_info_tlv_search_tag.simps [simp del]

section \<open>The queries\<close>

definition be16 :: "u8 \<Rightarrow> u8 \<Rightarrow> u16" where
  "be16 hi lo = push_bit 8 (ucast hi) OR ucast lo"

definition fcp_file_descriptor_query :: "bytes \<Rightarrow> nat \<Rightarrow> u16 \<Rightarrow> usim_file_descriptor res" where
  "fcp_file_descriptor_query mem p len =
     bindE (fcp_tlv_search_tag mem p len FCP_FILE_DES_T) (\<lambda>(value_len, out_ptr).
       case out_ptr of
         None \<Rightarrow> Inl (Assert 0)
       | Some q \<Rightarrow>
           if \<not> (value_len = 2 \<or> value_len = 5) then Inl (Assert 0)
           else
             bindE (array_get mem q) (\<lambda>b0.
             bindE (array_get mem (q + 1)) (\<lambda>b1.
               if value_len = 5 then
                 bindE (array_get mem (q + 2)) (\<lambda>b2.
                 bindE (array_get mem (q + 3)) (\<lambda>b3.
                 bindE (array_get mem (q + 4)) (\<lambda>b4.
                   Inr \<lparr>fd_fd = b0, fd_data_coding = b1, fd_rec_len = be16 b2 b3, fd_num_rec = b4\<rparr>)))
               else Inr \<lparr>fd_fd = b0, fd_data_coding = b1, fd_rec_len = 0, fd_num_rec = 0\<rparr>)))"

text \<open>The variant answers \<open>FALSE\<close> where the other one stops the process.\<close>

definition fusion_file_descriptor_query ::
  "bytes \<Rightarrow> nat \<Rightarrow> u16 \<Rightarrow> usim_file_descriptor \<Rightarrow> (bool \<times> usim_file_descriptor) res" where
  "fusion_file_descriptor_query mem p len d =
     bindE (fusion_tlv_search_tag mem p len FCP_FILE_DES_T) (\<lambda>(value_len, out_ptr).
       case out_ptr of
         None \<Rightarrow> Inr (False, d)
       | Some q \<Rightarrow>
           if \<not> (value_len = 2 \<or> value_len = 5) then Inr (False, d)
           else
             bindE (array_get mem q) (\<lambda>b0.
             bindE (array_get mem (q + 1)) (\<lambda>b1.
               if value_len = 5 then
                 bindE (array_get mem (q + 2)) (\<lambda>b2.
                 bindE (array_get mem (q + 3)) (\<lambda>b3.
                 bindE (array_get mem (q + 4)) (\<lambda>b4.
                   Inr (True, \<lparr>fd_fd = b0, fd_data_coding = b1, fd_rec_len = be16 b2 b3, fd_num_rec = b4\<rparr>))))
               else Inr (True, \<lparr>fd_fd = b0, fd_data_coding = b1, fd_rec_len = 0, fd_num_rec = 0\<rparr>))))"

definition fcp_file_identifier_query :: "bytes \<Rightarrow> nat \<Rightarrow> u16 \<Rightarrow> (bool \<times> u16) res" where
  "fcp_file_identifier_query mem p len =
     bindE (fcp_tlv_search_tag mem p len FCP_FILE_ID_T) (\<lambda>(value_len, out_ptr).
       case out_ptr of
         None \<Rightarrow> Inr (False, 0)
       | Some q \<Rightarrow>
           if value_len \<noteq> 2 then Inl (Assert 0)
           else
             bindE (array_get mem q) (\<lambda>b0.
             bindE (array_get mem (q + 1)) (\<lambda>b1. Inr (True, be16 b0 b1))))"

text \<open>\<open>memcpy\<close> out of the answer.\<close>

definition mem_take :: "bytes \<Rightarrow> nat \<Rightarrow> nat \<Rightarrow> bytes res" where
  "mem_take mem q n = (if q + n \<le> length mem then Inr (take n (drop q mem)) else Inl OutOfBounds)"

definition fcp_df_name_query :: "bytes \<Rightarrow> nat \<Rightarrow> u16 \<Rightarrow> (bool \<times> usim_df_name) res" where
  "fcp_df_name_query mem p len =
     bindE (fcp_tlv_search_tag mem p len FCP_DF_NAME_T) (\<lambda>(value_len, out_ptr).
       if value_len > 16 then Inl (Assert 0)
       else
         (case out_ptr of
            None \<Rightarrow> Inr (False, \<lparr>df_length = 0, df_name = replicate 16 0\<rparr>)
          | Some q \<Rightarrow>
              bindE (mem_take mem q (unat value_len)) (\<lambda>xs.
                Inr (True, \<lparr>df_length = value_len, df_name = blit (replicate 16 0) 0 xs\<rparr>))))"

text \<open>\<open>x |= value[n - i - 1] << i * 8\<close> for \<open>i = 0 \<dots> n - 1\<close>; the shift is one of \<open>int\<close>.\<close>

fun or_big_endian :: "bytes \<Rightarrow> nat \<Rightarrow> nat \<Rightarrow> nat list \<Rightarrow> u32 \<Rightarrow> u32 res" where
  "or_big_endian mem q n [] x = Inr x"
| "or_big_endian mem q n (i # is) x =
     bindE (array_get mem (q + (n - i - 1))) (\<lambda>b.
       or_big_endian mem q n is (x OR push_bit (i * 8) (ucast b)))"

text \<open>A step of the proprietary query: look for a tag and, when it has a value, use it.\<close>

definition prop_step ::
  "bytes \<Rightarrow> nat \<Rightarrow> u8 \<Rightarrow> u8 \<Rightarrow> (nat \<Rightarrow> u8 \<Rightarrow> 's \<Rightarrow> 's res) \<Rightarrow> 's \<Rightarrow> 's res" where
  "prop_step mem out_ptr value_len tag f s =
     bindE (prop_info_tlv_search_tag mem out_ptr (ucast value_len) tag) (\<lambda>(prop_len, prop_ptr).
       if prop_len \<noteq> 0 then
         (case prop_ptr of None \<Rightarrow> Inl NullDeref | Some q \<Rightarrow> f q prop_len s)
       else Inr s)"

definition prop_uicc_char :: "bytes \<Rightarrow> nat \<Rightarrow> u8 \<Rightarrow> usim_proprietary_information \<Rightarrow> usim_proprietary_information res" where
  "prop_uicc_char mem q prop_len s =
     (if prop_len \<noteq> 1 then Inl (Assert 0)
      else bindE (array_get mem q) (\<lambda>b. Inr (s\<lparr>pi_do_flag := pi_do_flag s OR 1, pi_char_byte := b\<rparr>)))"

definition prop_app_pwr :: "bytes \<Rightarrow> nat \<Rightarrow> u8 \<Rightarrow> usim_proprietary_information \<Rightarrow> usim_proprietary_information res" where
  "prop_app_pwr mem q prop_len s =
     (if prop_len \<noteq> 3 then Inl (Assert 0)
      else
        bindE (array_get mem q) (\<lambda>b0.
        bindE (array_get mem (q + 1)) (\<lambda>b1.
        bindE (array_get mem (q + 2)) (\<lambda>b2.
          Inr (s\<lparr>pi_do_flag := pi_do_flag s OR 2, pi_supp_volt_class := b0,
                 pi_app_pwr_consump := b1, pi_pwr_ref_freq := b2\<rparr>)))))"

text \<open>The value is taken through \<open>out_ptr\<close>, the start of the whole template, as in the source.\<close>

definition prop_min_app_clk :: "bytes \<Rightarrow> nat \<Rightarrow> nat \<Rightarrow> u8 \<Rightarrow> usim_proprietary_information \<Rightarrow> usim_proprietary_information res" where
  "prop_min_app_clk mem out_ptr q prop_len s =
     (if prop_len \<noteq> 1 then Inl (Assert 0)
      else bindE (array_get mem out_ptr) (\<lambda>b. Inr (s\<lparr>pi_do_flag := pi_do_flag s OR 4, pi_app_min_freq := b\<rparr>)))"

definition prop_avail_mem :: "bytes \<Rightarrow> nat \<Rightarrow> u8 \<Rightarrow> usim_proprietary_information \<Rightarrow> usim_proprietary_information res" where
  "prop_avail_mem mem q prop_len s =
     (if prop_len > 4 then Inl (Assert 0)
      else
        bindE (or_big_endian mem q (unat prop_len) [0..<unat prop_len] (pi_available_mem_bytes s)) (\<lambda>n.
          Inr (s\<lparr>pi_do_flag := pi_do_flag s OR 8, pi_available_mem_bytes := n\<rparr>)))"

definition no_proprietary :: usim_proprietary_information where
  "no_proprietary =
     \<lparr>pi_do_flag = 0, pi_char_byte = 0, pi_supp_volt_class = 0, pi_app_pwr_consump = 0,
      pi_pwr_ref_freq = 0, pi_app_min_freq = 0, pi_available_mem_bytes = 0\<rparr>"

definition fcp_proprietary_info_query :: "bytes \<Rightarrow> nat \<Rightarrow> u16 \<Rightarrow> (bool \<times> usim_proprietary_information) res" where
  "fcp_proprietary_info_query mem p len =
     bindE (fcp_tlv_search_tag mem p len FCP_PROPRIETARY_T) (\<lambda>(value_len, out_ptr).
       if value_len \<noteq> 0 then
         (case out_ptr of
            None \<Rightarrow> Inl NullDeref
          | Some q \<Rightarrow>
              bindE (prop_step mem q value_len PROP_UICC_CHAR_T (prop_uicc_char mem) no_proprietary) (\<lambda>s1.
              bindE (prop_step mem q value_len PROP_APP_PWR_T (prop_app_pwr mem) s1) (\<lambda>s2.
              bindE (prop_step mem q value_len PROP_MIN_APP_CLK_T (prop_min_app_clk mem q) s2) (\<lambda>s3.
              bindE (prop_step mem q value_len PROP_AVAIL_MEM_T (prop_avail_mem mem) s3) (\<lambda>s4.
                Inr (True, s4))))))
       else Inr (False, no_proprietary))"

definition fcp_life_cycle_query :: "bytes \<Rightarrow> nat \<Rightarrow> u16 \<Rightarrow> u8 res" where
  "fcp_life_cycle_query mem p len =
     bindE (fcp_tlv_search_tag mem p len FCP_LIFE_CYCLE_T) (\<lambda>(value_len, out_ptr).
       case out_ptr of
         None \<Rightarrow> Inl (Assert 0)
       | Some q \<Rightarrow> if value_len \<noteq> 1 then Inl (Assert 0) else array_get mem q)"

definition fcp_security_attribute_query :: "bytes \<Rightarrow> nat \<Rightarrow> u16 \<Rightarrow> bool res" where
  "fcp_security_attribute_query mem p len = Inr False"

definition fcp_total_file_size_query :: "bytes \<Rightarrow> nat \<Rightarrow> u16 \<Rightarrow> u32 \<Rightarrow> (bool \<times> u32) res" where
  "fcp_total_file_size_query mem p len tot_file_size =
     bindE (fcp_tlv_search_tag mem p len FCP_TOTAL_FILE_SIZE_T) (\<lambda>(value_len, out_ptr).
       case out_ptr of
         None \<Rightarrow> Inr (False, 0)
       | Some q \<Rightarrow>
           if value_len > 4 then Inl (Assert 0)
           else
             bindE (or_big_endian mem q (unat value_len) [0..<unat value_len] tot_file_size) (\<lambda>n.
               Inr (True, n)))"

definition fcp_file_size_query :: "bytes \<Rightarrow> nat \<Rightarrow> u16 \<Rightarrow> (bool \<times> u16) res" where
  "fcp_file_size_query mem p len =
     bindE (fcp_tlv_search_tag mem p len FCP_FILE_SIZE_T) (\<lambda>(value_len, out_ptr).
       case out_ptr of
         None \<Rightarrow> Inr (False, 0)
       | Some q \<Rightarrow>
           if value_len \<noteq> 2 then Inl (Assert 0)
           else
             bindE (array_get mem q) (\<lambda>b0.
             bindE (array_get mem (q + 1)) (\<lambda>b1. Inr (True, be16 b0 b1))))"

definition fcp_sfi_query ::
  "bytes \<Rightarrow> nat \<Rightarrow> u16 \<Rightarrow> usim_short_file_identifier \<Rightarrow> usim_short_file_identifier res" where
  "fcp_sfi_query mem p len s =
     bindE (fcp_tlv_search_tag mem p len FCP_SFI_T) (\<lambda>(value_len, out_ptr).
       case out_ptr of
         None \<Rightarrow> Inr (s\<lparr>sfi_sfi_usage := SFI_FILE_ID\<rparr>)
       | Some q \<Rightarrow>
           if value_len = 0 then Inr (s\<lparr>sfi_sfi_usage := SFI_NOT_SUPPORT\<rparr>)
           else if value_len \<noteq> 1 then Inl (Assert 0)
           else
             bindE (array_get mem q) (\<lambda>b.
               Inr (s\<lparr>sfi_sfi_usage := SFI_PROP_ID, sfi_sfi_prop := b\<rparr>)))"

section \<open>PIN status\<close>

text \<open>The bit of each key reference.\<close>

definition pin_masks :: "(u8 \<times> u32) list" where
  "pin_masks =
     [(0x01, 0x00000001), (0x02, 0x00000004), (0x03, 0x00000010), (0x04, 0x00000040),
      (0x05, 0x00000100), (0x06, 0x00000400), (0x07, 0x00001000), (0x08, 0x00004000),
      (0x81, 0x00000002), (0x82, 0x00000008), (0x83, 0x00000020), (0x84, 0x00000080),
      (0x85, 0x00000200), (0x86, 0x00000800), (0x87, 0x00002000), (0x88, 0x00008000),
      (0x0A, 0x00010000), (0x0B, 0x00020000), (0x0C, 0x00040000), (0x0D, 0x00080000),
      (0x0E, 0x00100000), (0x8A, 0x00200000), (0x8B, 0x00400000), (0x8C, 0x00800000),
      (0x8D, 0x01000000), (0x8E, 0x02000000), (0x11, 0x80000000)]"

text \<open>
  A key reference: its bit in \<open>pin_flag\<close>, and its bit in \<open>enabled_pin_flag\<close> when the status octets
  seen before have the bit of its position set.  The position is checked against the length of the
  reference itself.
\<close>

definition pin_key_ref ::
  "bytes \<Rightarrow> nat \<Rightarrow> u8 \<Rightarrow> nat option \<Rightarrow> u8 \<Rightarrow> usim_pin_status \<Rightarrow> (u8 \<times> usim_pin_status) res" where
  "pin_key_ref mem tag l pin_ps_do_ptr count s =
     (if count div 8 \<ge> l then Inl (Assert 0)
      else
        bindE (array_get mem (tag + 2)) (\<lambda>key.
          case map_of pin_masks key of
            None \<Rightarrow> Inr (count + 1, s)
          | Some m \<Rightarrow>
              (case pin_ps_do_ptr of
                 None \<Rightarrow> Inl NullDeref
               | Some q \<Rightarrow>
                   bindE (array_get mem (q + unat (count div 8))) (\<lambda>b.
                     let s1 = s\<lparr>ps_pin_flag := ps_pin_flag s OR m\<rparr>;
                         s2 = (if b AND drop_bit (unat (count mod 8)) 0x80 \<noteq> 0
                               then s1\<lparr>ps_enabled_pin_flag := ps_enabled_pin_flag s1 OR m\<rparr> else s1)
                     in Inr (count + 1, s2)))))"

function pin_status_loop ::
  "bytes \<Rightarrow> nat \<Rightarrow> u16 \<Rightarrow> nat option \<Rightarrow> u8 \<Rightarrow> usim_pin_status \<Rightarrow> usim_pin_status res" where
  "pin_status_loop mem tag value_len pin_ps_do_ptr count s =
     (if value_len > 0 then
        bindE (array_get mem (tag + 1)) (\<lambda>l.
        bindE (array_get mem tag) (\<lambda>t.
        bindE (if t = PIN_PS_DO_T then Inr (Some (tag + 2), count, s)
               else if t = PIN_USAGE_QUALIFIER_T then Inr (pin_ps_do_ptr, count, s)
               else if t = PIN_KEY_REF_T then
                 map_sum id (\<lambda>(c, s'). (pin_ps_do_ptr, c, s')) (pin_key_ref mem tag l pin_ps_do_ptr count s)
               else Inl (Assert 0)) (\<lambda>(ps, c, s').
          pin_status_loop mem (tag + unat l + 2) (value_len - (ucast l + 2)) ps c s')))
      else Inr s)"
  by pat_completeness auto
termination
  by (relation "measure (\<lambda>(mem, tag, n, ps, c, s). length mem - tag)")
    (auto simp: array_get_def split: if_splits)

declare pin_status_loop.simps [simp del]

definition fcp_pin_status_do_query ::
  "bytes \<Rightarrow> nat \<Rightarrow> u16 \<Rightarrow> usim_pin_status \<Rightarrow> (bool \<times> usim_pin_status) res" where
  "fcp_pin_status_do_query mem p len s =
     bindE (fcp_tlv_search_tag mem p len FCP_PIN_DO_T) (\<lambda>(value_len, out_ptr).
       case out_ptr of
         None \<Rightarrow> Inr (False, s\<lparr>ps_pin_flag := 0\<rparr>)
       | Some q \<Rightarrow> bindE (pin_status_loop mem q (ucast value_len) None 0 s) (\<lambda>s'. Inr (True, s')))"

section \<open>The entry point\<close>

text \<open>The structure the caller passes, and has filled, is one of these.\<close>

datatype fcp_struct =
    File_Descriptor usim_file_descriptor
  | File_Identifier u16
  | Df_Name usim_df_name
  | Proprietary usim_proprietary_information
  | Life_Cycle u8
  | Security_Attributes u8
  | Pin_Status usim_pin_status
  | Total_File_Size u32
  | File_Size u16
  | Short_File_Identifier usim_short_file_identifier

text \<open>The octets before the check of the template tag are read whatever \<open>len\<close> is.\<close>

definition usim_fcp_query_tag ::
  "bytes \<Rightarrow> u16 \<Rightarrow> usim_fcp_tag \<Rightarrow> fcp_struct \<Rightarrow> (bool \<times> fcp_struct) res" where
  "usim_fcp_query_tag mem len tag st =
     bindE (array_get mem 1) (\<lambda>l.
       let n = ucast l
       in if len = 0 then Inl (Assert 0)
          else bindE (array_get mem 0) (\<lambda>t.
            if t \<noteq> FCP_TEMP_T then Inl (Assert 0)
            else
              (case (tag, st) of
                 (FCP_FILE_DES_T, File_Descriptor _) \<Rightarrow>
                   bindE (fcp_file_descriptor_query mem 2 n) (\<lambda>d. Inr (True, File_Descriptor d))
               | (FCP_FILE_ID_T, File_Identifier _) \<Rightarrow>
                   bindE (fcp_file_identifier_query mem 2 n) (\<lambda>(b, x). Inr (b, File_Identifier x))
               | (FCP_DF_NAME_T, Df_Name _) \<Rightarrow>
                   bindE (fcp_df_name_query mem 2 n) (\<lambda>(b, x). Inr (b, Df_Name x))
               | (FCP_PROPRIETARY_T, Proprietary _) \<Rightarrow>
                   bindE (fcp_proprietary_info_query mem 2 n) (\<lambda>(b, x). Inr (b, Proprietary x))
               | (FCP_LIFE_CYCLE_T, Life_Cycle _) \<Rightarrow>
                   bindE (fcp_life_cycle_query mem 2 n) (\<lambda>x. Inr (True, Life_Cycle x))
               | (FCP_SEC_ATTRIBUTE_QUERY, Security_Attributes x) \<Rightarrow>
                   bindE (fcp_security_attribute_query mem 2 n) (\<lambda>b. Inr (b, Security_Attributes x))
               | (FCP_PIN_DO_T, Pin_Status x) \<Rightarrow>
                   bindE (fcp_pin_status_do_query mem 2 n x) (\<lambda>(b, x'). Inr (b, Pin_Status x'))
               | (FCP_TOTAL_FILE_SIZE_T, Total_File_Size x) \<Rightarrow>
                   bindE (fcp_total_file_size_query mem 2 n x) (\<lambda>(b, x'). Inr (b, Total_File_Size x'))
               | (FCP_FILE_SIZE_T, File_Size _) \<Rightarrow>
                   bindE (fcp_file_size_query mem 2 n) (\<lambda>(b, x). Inr (b, File_Size x))
               | (FCP_SFI_T, Short_File_Identifier x) \<Rightarrow>
                   bindE (fcp_sfi_query mem 2 n x) (\<lambda>x'. Inr (True, Short_File_Identifier x'))
               | _ \<Rightarrow> Inl (Assert 0))))"

section \<open>Objects in the answer\<close>

definition tlv :: "u8 \<times> bytes \<Rightarrow> bytes" where
  "tlv obj = fst obj # word_of_nat (length (snd obj)) # snd obj"

definition tlvs :: "(u8 \<times> bytes) list \<Rightarrow> bytes" where
  "tlvs objs = concat (map tlv objs)"

text \<open>The values are short enough for the search of \<open>n\<close>, and all of them for a 16 bit length.\<close>

definition short_objects :: "nat \<Rightarrow> (u8 \<times> bytes) list \<Rightarrow> bool" where
  "short_objects n objs \<longleftrightarrow> (\<forall>obj \<in> set objs. length (snd obj) \<le> n) \<and> length (tlvs objs) < 65536"

lemma tlvs_simps [simp]:
  "tlvs [] = []" "tlvs (obj # objs) = tlv obj @ tlvs objs" "length (tlv obj) = length (snd obj) + 2"
  by (simp_all add: tlvs_def tlv_def)

lemma short_objects_Cons:
  "short_objects n (obj # objs) \<Longrightarrow> short_objects n objs \<and> length (snd obj) \<le> n \<and>
     length (snd obj) + 2 + length (tlvs objs) < 65536"
  by (auto simp: short_objects_def)

lemma array_get_append [simp]:
  "array_get (pre @ x # xs) (length pre) = Inr x"
  "array_get (pre @ x # y # xs) (Suc (length pre)) = Inr y"
  by (simp_all add: array_get_def nth_append)

lemma u16_length_step: "n < 65536 \<Longrightarrow> (word_of_nat (k + n) :: u16) - word_of_nat k = word_of_nat n"
  by simp

lemma unat_word_of_nat_small: "n < 2 ^ LENGTH('a) \<Longrightarrow> unat (word_of_nat n :: 'a::len word) = n"
  by (simp add: unat_of_nat take_bit_nat_eq_self)

lemma u16_pos: "0 < n \<Longrightarrow> n < 65536 \<Longrightarrow> (0 :: u16) < word_of_nat n"
  by (simp add: word_less_nat_alt unat_word_of_nat_small)

lemma u8_step:
  assumes "n \<le> 253"
  shows "unat (word_of_nat n + 2 :: u8) = n + 2" and "ucast (word_of_nat n + 2 :: u8) = (word_of_nat (n + 2) :: u16)"
proof -
  have e: "word_of_nat n + 2 = (word_of_nat (n + 2) :: u8)" by simp
  show u: "unat (word_of_nat n + 2 :: u8) = n + 2"
    unfolding e using assms by (intro unat_word_of_nat_small) simp
  show "ucast (word_of_nat n + 2 :: u8) = (word_of_nat (n + 2) :: u16)"
    using u assms unat_word_of_nat_small [of "n + 2", where 'a = 16]
    by (simp add: word_unat_eq_iff unsigned_ucast_eq take_bit_nat_eq_self)
qed

lemma map_of_split:
  "map_of xs k = Some v \<Longrightarrow> \<exists>ys zs. xs = ys @ (k, v) # zs \<and> (\<forall>y \<in> set ys. fst y \<noteq> k)"
proof (induction xs)
  case (Cons x xs)
  show ?case
  proof (cases "fst x = k")
    case True
    with Cons.prems have "x # xs = [] @ (k, v) # xs" by (cases x) auto
    then show ?thesis by fastforce
  next
    case False
    with Cons obtain ys zs where "xs = ys @ (k, v) # zs" "\<forall>y \<in> set ys. fst y \<noteq> k" by (cases x) auto
    then show ?thesis using False by (intro exI [of _ "x # ys"] exI [of _ zs]) simp
  qed
qed simp

lemma tlvs_append: "tlvs (xs @ ys) = tlvs xs @ tlvs ys"
  by (simp add: tlvs_def)

text \<open>The result the contract prescribes for objects at an address.\<close>

fun tlv_result :: "nat \<Rightarrow> (u8 \<times> bytes) list \<Rightarrow> u8 \<Rightarrow> u8 \<times> nat option" where
  "tlv_result p [] tag = (0, None)"
| "tlv_result p ((t, v) # objs) tag =
     (if t = tag then (word_of_nat (length v), Some (p + 2)) else tlv_result (p + (length v + 2)) objs tag)"

section \<open>The contract of a search\<close>

text \<open>
  What every search promises about one object in front of it: it is the one, or it is passed with the
  rest of the length.  What follows from it for any list of objects is proved here once.
\<close>

locale tlv_search =
  fixes search :: "bytes \<Rightarrow> nat \<Rightarrow> u16 \<Rightarrow> u8 \<Rightarrow> (u8 \<times> nat option) res"
    and limit :: nat
  assumes search_end: "search mem p 0 tag = Inr (0, None)"
    and search_step: "mem = pre @ tlv (t, v) @ post \<Longrightarrow> length v \<le> limit \<Longrightarrow> p = length pre \<Longrightarrow>
      length v + 2 + n < 65536 \<Longrightarrow>
      search mem p (word_of_nat ((length v + 2) + n)) tag =
        (if t = tag then Inr (word_of_nat (length v), Some (p + 2))
         else search mem (p + (length v + 2)) (word_of_nat n) tag)"
begin

text \<open>Objects with other tags are passed.\<close>

lemma skips:
  assumes "\<forall>obj \<in> set objs. length (snd obj) \<le> limit \<and> fst obj \<noteq> tag" and "mem = pre @ tlvs objs @ post"
    and "length (tlvs objs) + n < 65536"
  shows "search mem (length pre) (word_of_nat (length (tlvs objs) + n)) tag =
    search mem (length (pre @ tlvs objs)) (word_of_nat n) tag"
  using assms
proof (induction objs arbitrary: pre)
  case Nil
  then show ?case by simp
next
  case (Cons obj objs)
  obtain t v where obj: "obj = (t, v)" by fastforce
  have v: "length v \<le> limit" "t \<noteq> tag" using Cons.prems(1) by (simp_all add: obj)
  let ?n = "length (tlvs objs) + n"
  have len: "length (tlvs (obj # objs)) + n = (length v + 2) + ?n" "length v + 2 + ?n < 65536"
    using Cons.prems(3) by (simp_all add: obj)
  have mem: "mem = pre @ tlv (t, v) @ tlvs objs @ post" using Cons.prems(2) by (simp add: obj)
  have "search mem (length pre) (word_of_nat (length (tlvs (obj # objs)) + n)) tag =
      search mem (length (pre @ tlv (t, v))) (word_of_nat ?n) tag"
    unfolding len(1) using search_step [OF mem v(1) refl len(2), of tag] v(2) by simp
  also have "\<dots> = search mem (length ((pre @ tlv (t, v)) @ tlvs objs)) (word_of_nat n) tag"
    using Cons.prems by (intro Cons.IH) (simp_all add: obj)
  finally show ?case by (simp add: obj)
qed

lemma result:
  assumes "short_objects limit objs" and "mem = pre @ tlvs objs @ post" and "p = length pre"
  shows "search mem p (word_of_nat (length (tlvs objs))) tag = Inr (tlv_result p objs tag)"
  using assms
proof (induction objs arbitrary: pre p)
  case Nil
  then show ?case by (simp add: search_end)
next
  case (Cons obj objs)
  obtain t v where obj: "obj = (t, v)" by fastforce
  from short_objects_Cons [OF Cons.prems(1)]
  have short: "short_objects limit objs" "length v \<le> limit" "length v + 2 + length (tlvs objs) < 65536"
    by (simp_all add: obj)
  have mem: "mem = pre @ tlv (t, v) @ tlvs objs @ post" using Cons.prems(2) by (simp add: obj)
  have len: "length (tlvs (obj # objs)) = (length v + 2) + length (tlvs objs)" by (simp add: obj)
  have "search mem (p + (length v + 2)) (word_of_nat (length (tlvs objs))) tag =
      Inr (tlv_result (p + (length v + 2)) objs tag)"
    by (rule Cons.IH [OF short(1), of "pre @ tlv (t, v)"]) (simp_all add: mem Cons.prems(3))
  then show ?case
    unfolding len search_step [OF mem short(2) Cons.prems(3) short(3)] by (simp add: obj)
qed

text \<open>The first object with the tag is found, whatever comes after the objects.\<close>

lemma finds:
  assumes "short_objects limit objs" and "mem = pre @ tlvs objs @ post" and "p = length pre"
  shows "case map_of objs tag of
      None \<Rightarrow> search mem p (word_of_nat (length (tlvs objs))) tag = Inr (0, None)
    | Some v \<Rightarrow> (\<exists>q. search mem p (word_of_nat (length (tlvs objs))) tag = Inr (word_of_nat (length v), Some q) \<and>
        mem_take mem q (length v) = Inr v \<and> length v \<le> limit)"
proof (cases "map_of objs tag")
  case None
  have "\<forall>obj \<in> set objs. length (snd obj) \<le> limit \<and> fst obj \<noteq> tag" and "length (tlvs objs) + 0 < 65536"
    using assms(1) None by (force simp: short_objects_def map_of_eq_None_iff)+
  from skips [OF this(1) assms(2) this(2)] show ?thesis
    using None by (simp add: search_end assms(3))
next
  case (Some v)
  obtain ys zs where objs: "objs = ys @ (tag, v) # zs" "\<forall>y \<in> set ys. fst y \<noteq> tag"
    using map_of_split [OF Some] by blast
  have mem: "mem = pre @ tlvs ys @ tlv (tag, v) @ tlvs zs @ post"
    "mem = (pre @ tlvs ys) @ tlv (tag, v) @ tlvs zs @ post"
    using assms(2) by (simp_all add: objs(1) tlvs_append)
  have short: "\<forall>obj \<in> set ys. length (snd obj) \<le> limit \<and> fst obj \<noteq> tag" "length v \<le> limit"
    "length (tlvs ys) + ((length v + 2) + length (tlvs zs)) < 65536"
    using assms(1) objs by (auto simp: short_objects_def tlvs_append)
  have len: "length (tlvs objs) = length (tlvs ys) + ((length v + 2) + length (tlvs zs))"
    by (simp add: objs(1) tlvs_append)
  let ?q = "length (pre @ tlvs ys) + 2"
  have "search mem p (word_of_nat (length (tlvs objs))) tag = Inr (word_of_nat (length v), Some ?q)"
    unfolding len assms(3) skips [OF short(1) mem(1) short(3)]
    using short(3) by (subst search_step [OF mem(2) short(2) refl]) simp_all
  moreover have "mem_take mem ?q (length v) = Inr v"
    unfolding mem(2) by (simp add: mem_take_def tlv_def)
  ultimately show ?thesis using Some short(2) by (auto simp del: length_append)
qed

end

text \<open>An object whose length byte is 254 is zero octets long for the search: it never gets past it.\<close>

definition stuck_at :: "u8 \<Rightarrow> bytes \<Rightarrow> u8 \<Rightarrow> nat \<Rightarrow> u16 \<Rightarrow> bool" where
  "stuck_at t mem tag p len \<longleftrightarrow>
     array_get mem p = Inr t \<and> t \<noteq> tag \<and> array_get mem (Suc p) = Inr 254 \<and> 0 < len"

lemma search_loop_stuck_step:
  assumes "fcp_search_loop mem tag p len = Some y"
  shows "\<not> stuck_at t mem tag p len"
  using assms
proof (rule fcp_search_loop.raw_induct [where P = "\<lambda>mem tag p len _. \<not> stuck_at t mem tag p len", rotated])
  fix search mem tag p len y
  assume ih: "\<And>m g q l y'. search m g q l = Some y' \<Longrightarrow> \<not> stuck_at t m g q l"
    and run: "(if len > 0 then
        (case array_get mem (p + 1) of
           Inl e \<Rightarrow> Some (Inl e)
         | Inr l \<Rightarrow>
             (let tag_len = l + 2
              in case array_get mem p of
                   Inl e \<Rightarrow> Some (Inl e)
                 | Inr t \<Rightarrow>
                     if t = tag then Some (Inr (l, Some (p + 2)))
                     else search mem tag (p + unat tag_len) (len - ucast tag_len)))
      else Some (Inr (0, None))) = Some y"
  show "\<not> stuck_at t mem tag p len"
  proof
    assume a: "stuck_at t mem tag p len"
    then have "search mem tag p len = Some y" using run by (auto simp: Let_def stuck_at_def)
    from ih [OF this] a show False by simp
  qed
qed

lemma search_loop_stuck:
  assumes "array_get mem p = Inr t" and "t \<noteq> tag" and "array_get mem (p + 1) = Inr 254" and "0 < len"
  shows "fcp_search_loop mem tag p len = None"
  using assms search_loop_stuck_step [of mem tag p len _ t]
  by (cases "fcp_search_loop mem tag p len") (auto simp: stuck_at_def)

section \<open>The three searches\<close>

lemma tlv_get:
  assumes "mem = pre @ tlv (t, v) @ post" and "p = length pre"
  shows "array_get mem p = Inr t" and "array_get mem (Suc p) = Inr (word_of_nat (length v))"
proof -
  have "mem = pre @ t # word_of_nat (length v) # v @ post" using assms(1) by (simp add: tlv_def)
  then show "array_get mem p = Inr t" "array_get mem (Suc p) = Inr (word_of_nat (length v))"
    unfolding assms(2) by simp_all
qed

lemma ucast_length:
  "n \<le> 255 \<Longrightarrow> unat (word_of_nat n :: u8) = n \<and> ucast (word_of_nat n :: u8) = (word_of_nat n :: u16)"
  using unat_word_of_nat_small [of n, where 'a = 16] unat_word_of_nat_small [of n, where 'a = 8]
  by (simp add: word_unat_eq_iff unsigned_ucast_eq take_bit_nat_eq_self)

interpretation fcp: tlv_search "\<lambda>mem p len tag. returns (fcp_search_loop mem tag p len)" 253
proof
  show "returns (fcp_search_loop mem tag p 0) = Inr (0, None)" for mem p tag
    by (subst fcp_search_loop.simps) (simp add: returns_def)
next
  fix mem pre t v post p n tag
  assume a: "mem = pre @ tlv (t, v) @ post" "length v \<le> 253" "p = length pre" "length v + 2 + n < 65536"
  have pos: "(0 :: u16) < word_of_nat ((length v + 2) + n)" using a(4) by (intro u16_pos) simp_all
  have sub: "(word_of_nat ((length v + 2) + n) :: u16) - word_of_nat (length v + 2) = word_of_nat n"
    using a(4) by (intro u16_length_step) simp
  show "returns (fcp_search_loop mem tag p (word_of_nat ((length v + 2) + n))) =
      (if t = tag then Inr (word_of_nat (length v), Some (p + 2))
       else returns (fcp_search_loop mem tag (p + (length v + 2)) (word_of_nat n)))"
    using pos sub tlv_get [OF a(1,3)] u8_step [OF a(2)]
    by (subst fcp_search_loop.simps) (simp add: Let_def returns_def del: of_nat_add)
qed

interpretation fusion: tlv_search "\<lambda>mem p len tag. returns (fusion_search_loop mem tag p len)" 253
proof
  show "returns (fusion_search_loop mem tag p 0) = Inr (0, None)" for mem p tag
    by (subst fusion_search_loop.simps) (simp add: returns_def)
next
  fix mem pre t v post p n tag
  assume a: "mem = pre @ tlv (t, v) @ post" "length v \<le> 253" "p = length pre" "length v + 2 + n < 65536"
  have pos: "(0 :: u16) < word_of_nat ((length v + 2) + n)" using a(4) by (intro u16_pos) simp_all
  have sub: "(word_of_nat ((length v + 2) + n) :: u16) - word_of_nat (length v + 2) = word_of_nat n"
    using a(4) by (intro u16_length_step) simp
  define len :: u16 where "len = word_of_nat ((length v + 2) + n)"
  define k :: u16 where "k = word_of_nat (length v + 2)"
  have u: "unat len = (length v + 2) + n" "unat k = length v + 2"
    using a(2,4) unfolding len_def k_def by (intro unat_word_of_nat_small; simp)+
  have "len \<le> k \<longleftrightarrow> n = 0" unfolding word_le_nat_alt u by simp
  then have rest: "(if len \<le> k then 0 else len - k) = word_of_nat n"
    using sub by (simp add: len_def k_def del: of_nat_add)
  have step: "unat (word_of_nat (length v) + 2 :: u8) = length v + 2" "ucast (word_of_nat (length v) + 2 :: u8) = k"
    using u8_step [OF a(2)] by (simp_all only: k_def)
  have pos: "0 < len" using pos by (simp only: len_def)
  show "returns (fusion_search_loop mem tag p (word_of_nat ((length v + 2) + n))) =
      (if t = tag then Inr (word_of_nat (length v), Some (p + 2))
       else returns (fusion_search_loop mem tag (p + (length v + 2)) (word_of_nat n)))"
    unfolding len_def [symmetric]
    using pos tlv_get [OF a(1,3)]
    by (subst fusion_search_loop.simps) (simp only: rest Let_def returns_def step if_True add_2_eq_Suc' One_nat_def
        add_Suc_right add_0_right sum.case option.case split: if_split, simp)
qed

interpretation prop_info: tlv_search prop_info_tlv_search_tag 255
proof
  show "prop_info_tlv_search_tag mem p 0 tag = Inr (0, None)" for mem p tag
    by (subst prop_info_tlv_search_tag.simps) simp
next
  fix mem pre t v post p n tag
  assume a: "mem = pre @ tlv (t, v) @ post" "length v \<le> 255" "p = length pre" "length v + 2 + n < 65536"
  have pos: "(0 :: u16) < word_of_nat ((length v + 2) + n)" using a(4) by (intro u16_pos) simp_all
  have sub: "(word_of_nat ((length v + 2) + n) :: u16) - (word_of_nat (length v) + 2) = word_of_nat n" by simp
  show "prop_info_tlv_search_tag mem p (word_of_nat ((length v + 2) + n)) tag =
      (if t = tag then Inr (word_of_nat (length v), Some (p + 2))
       else prop_info_tlv_search_tag mem (p + (length v + 2)) (word_of_nat n) tag)"
    using pos sub tlv_get [OF a(1,3)] ucast_length [OF a(2)]
    by (subst prop_info_tlv_search_tag.simps) (simp del: of_nat_add)
qed

section \<open>Queries on well formed answers\<close>

text \<open>The objects inside a template, and what \<open>usim_fcp_query_tag\<close> looks at.\<close>

definition template :: "(u8 \<times> bytes) list \<Rightarrow> bytes" where
  "template objs = FCP_TEMP_T # word_of_nat (length (tlvs objs)) # tlvs objs"

definition good_template :: "(u8 \<times> bytes) list \<Rightarrow> bool" where
  "good_template objs \<longleftrightarrow> (\<forall>obj \<in> set objs. length (snd obj) \<le> 253) \<and> length (tlvs objs) \<le> 255"

lemma template_facts:
  assumes "good_template objs"
  shows "array_get (template objs @ rest) 1 = Inr (word_of_nat (length (tlvs objs)))"
    and "array_get (template objs @ rest) 0 = Inr FCP_TEMP_T"
    and "ucast (word_of_nat (length (tlvs objs)) :: u8) = (word_of_nat (length (tlvs objs)) :: u16)"
proof -
  have n: "length (tlvs objs) \<le> 255" using assms by (simp add: good_template_def)
  then show "ucast (word_of_nat (length (tlvs objs)) :: u8) = (word_of_nat (length (tlvs objs)) :: u16)"
    using unat_word_of_nat_small [of "length (tlvs objs)", where 'a = 16]
      unat_word_of_nat_small [of "length (tlvs objs)", where 'a = 8]
    by (simp add: word_unat_eq_iff unsigned_ucast_eq take_bit_nat_eq_self)
qed (simp_all add: template_def array_get_def)

lemma template_split:
  "template objs @ rest = [FCP_TEMP_T, word_of_nat (length (tlvs objs))] @ tlvs objs @ rest"
  "2 = length [FCP_TEMP_T, word_of_nat (length (tlvs objs)) :: u8]"
  by (simp_all add: template_def)

lemma template_search:
  assumes "good_template objs"
  shows "case map_of objs (fcp_tag_value tag) of
      None \<Rightarrow> fcp_tlv_search_tag (template objs @ rest) 2 (word_of_nat (length (tlvs objs))) tag = Inr (0, None)
    | Some v \<Rightarrow> (\<exists>q. fcp_tlv_search_tag (template objs @ rest) 2 (word_of_nat (length (tlvs objs))) tag =
          Inr (word_of_nat (length v), Some q) \<and>
        mem_take (template objs @ rest) q (length v) = Inr v \<and> length v \<le> 253)"
  using fcp.finds [OF _ template_split] assms unfolding fcp_tlv_search_tag_def
  by (simp add: short_objects_def good_template_def)

lemma fusion_template_search:
  assumes "good_template objs"
  shows "case map_of objs (fcp_tag_value tag) of
      None \<Rightarrow> fusion_tlv_search_tag (template objs @ rest) 2 (word_of_nat (length (tlvs objs))) tag = Inr (0, None)
    | Some v \<Rightarrow> (\<exists>q. fusion_tlv_search_tag (template objs @ rest) 2 (word_of_nat (length (tlvs objs))) tag =
          Inr (word_of_nat (length v), Some q) \<and>
        mem_take (template objs @ rest) q (length v) = Inr v \<and> length v \<le> 253)"
  using fusion.finds [OF _ template_split] assms unfolding fusion_tlv_search_tag_def
  by (simp add: short_objects_def good_template_def)

text \<open>Single octets of a value found.\<close>

lemma mem_take_get:
  assumes "mem_take mem q (length v) = Inr v" and "i < length v"
  shows "array_get mem (q + i) = Inr (v ! i)"
proof -
  have fits: "q + length v \<le> length mem" and v: "take (length v) (drop q mem) = v"
    using assms(1) by (auto simp: mem_take_def split: if_splits)
  have "v ! i = take (length v) (drop q mem) ! i" by (simp only: v)
  also have "\<dots> = mem ! (q + i)" using assms(2) fits by simp
  finally show ?thesis using assms(2) fits by (simp add: array_get_def)
qed

lemma word_of_nat_eq_numeral:
  "n \<le> 253 \<Longrightarrow> (word_of_nat n :: u8) = numeral k \<longleftrightarrow> n = unat (numeral k :: u8)"
  using unat_word_of_nat_small [of n, where 'a = 8] by (auto simp: word_unat_eq_iff)

lemma query_file_descriptor:
  assumes "good_template objs" and "map_of objs (fcp_tag_value FCP_FILE_DES_T) = Some v"
    and "length v = 2 \<or> length v = 5" and "n \<noteq> 0"
  shows "usim_fcp_query_tag (template objs @ rest) n FCP_FILE_DES_T (File_Descriptor d) =
    Inr (True, File_Descriptor
      \<lparr>fd_fd = v ! 0, fd_data_coding = v ! 1,
       fd_rec_len = (if length v = 5 then be16 (v ! 2) (v ! 3) else 0),
       fd_num_rec = (if length v = 5 then v ! 4 else 0)\<rparr>)"
proof -
  from template_search [OF assms(1), where tag = FCP_FILE_DES_T and rest = rest] assms(2) obtain q where
    q: "fcp_tlv_search_tag (template objs @ rest) 2 (word_of_nat (length (tlvs objs))) FCP_FILE_DES_T =
      Inr (word_of_nat (length v), Some q)" "mem_take (template objs @ rest) q (length v) = Inr v"
    by auto
  have g: "i < length v \<Longrightarrow> array_get (template objs @ rest) (q + i) = Inr (v ! i)" for i
    using mem_take_get [OF q(2)] .
  have "array_get (template objs @ rest) q = Inr (v ! 0)" using g [of 0] assms(3) by fastforce
  then show ?thesis
    using assms(3,4) template_facts(1,2) [OF assms(1), of rest] template_facts(3) [OF assms(1)] g [of 1] g [of 2] g [of 3] g [of 4]
    by (auto simp: usim_fcp_query_tag_def fcp_file_descriptor_query_def q(1))
qed

lemma query_file_size:
  assumes "good_template objs" and "n \<noteq> 0"
    and "\<And>v. map_of objs (fcp_tag_value FCP_FILE_SIZE_T) = Some v \<Longrightarrow> length v = 2"
  shows "usim_fcp_query_tag (template objs @ rest) n FCP_FILE_SIZE_T (File_Size x) =
    Inr (case map_of objs (fcp_tag_value FCP_FILE_SIZE_T) of
           None \<Rightarrow> (False, File_Size 0)
         | Some v \<Rightarrow> (True, File_Size (be16 (v ! 0) (v ! 1))))"
proof (cases "map_of objs (fcp_tag_value FCP_FILE_SIZE_T)")
  case None
  with template_search [OF assms(1), where tag = FCP_FILE_SIZE_T and rest = rest]
  have "fcp_tlv_search_tag (template objs @ rest) 2 (word_of_nat (length (tlvs objs))) FCP_FILE_SIZE_T = Inr (0, None)"
    by simp
  then show ?thesis
    using assms(2) template_facts(1,2) [OF assms(1), of rest] template_facts(3) [OF assms(1)] None
    by (simp add: usim_fcp_query_tag_def fcp_file_size_query_def)
next
  case (Some w)
  from template_search [OF assms(1), where tag = FCP_FILE_SIZE_T and rest = rest] Some obtain q where
    q: "fcp_tlv_search_tag (template objs @ rest) 2 (word_of_nat (length (tlvs objs))) FCP_FILE_SIZE_T =
      Inr (word_of_nat (length w), Some q)" "mem_take (template objs @ rest) q (length w) = Inr w"
    by auto
  have "length w = 2" using assms(3) Some by blast
  moreover have "i < length w \<Longrightarrow> array_get (template objs @ rest) (q + i) = Inr (w ! i)" for i
    using mem_take_get [OF q(2)] .
  from this [of 0] this [of 1] calculation show ?thesis
    using assms(2) template_facts(1,2) [OF assms(1), of rest] template_facts(3) [OF assms(1)] Some
    by (simp add: usim_fcp_query_tag_def fcp_file_size_query_def q(1))
qed

section \<open>PIN status templates\<close>

text \<open>What the flags should become: one status bit for each key reference, in order, the first bit of
  the octet first.\<close>

fun pin_spec :: "u8 \<Rightarrow> nat \<Rightarrow> u8 list \<Rightarrow> usim_pin_status \<Rightarrow> usim_pin_status" where
  "pin_spec b i [] s = s"
| "pin_spec b i (key # keys) s =
     pin_spec b (Suc i) keys
       (case map_of pin_masks key of
          None \<Rightarrow> s
        | Some m \<Rightarrow>
            s\<lparr>ps_pin_flag := ps_pin_flag s OR m,
              ps_enabled_pin_flag := (if bit b (7 - i) then ps_enabled_pin_flag s OR m else ps_enabled_pin_flag s)\<rparr>)"

definition key_ref :: "u8 \<Rightarrow> u8 \<times> bytes" where
  "key_ref key = (PIN_KEY_REF_T, [key])"

definition pin_template :: "u8 \<Rightarrow> u8 list \<Rightarrow> (u8 \<times> bytes) list" where
  "pin_template b keys = (PIN_PS_DO_T, [b]) # map key_ref keys"

lemma status_bit: "i < 8 \<Longrightarrow> b AND drop_bit i (0x80 :: u8) \<noteq> 0 \<longleftrightarrow> bit b (7 - i)"
proof -
  assume "i < 8"
  then have "i \<in> {0, 1, 2, 3, 4, 5, 6, 7}" by auto
  then have "drop_bit i (0x80 :: u8) = push_bit (7 - i) 1" by auto
  then show ?thesis by (simp only: bit_iff_and_push_bit_not_eq_0)
qed

lemma pin_key_ref_step:
  assumes "array_get mem (tag + 2) = Inr key" and "array_get mem q = Inr b" and "i \<le> 8"
  shows "pin_key_ref mem tag 1 (Some q) (word_of_nat i) s =
    (if i < 8 then Inr (word_of_nat (Suc i), pin_spec b i [key] s) else Inl (Assert 0))"
proof -
  have u: "unat (word_of_nat i :: u8) = i" using assms(3) by (intro unat_word_of_nat_small) simp
  have d: "unat ((word_of_nat i :: u8) div 8) = i div 8" "unat ((word_of_nat i :: u8) mod 8) = i mod 8"
    by (simp_all add: unat_div unat_mod u)
  have g: "1 \<le> (word_of_nat i :: u8) div 8 \<longleftrightarrow> \<not> i < 8"
    using assms(3) by (auto simp: word_le_nat_alt d)
  show ?thesis
  proof (cases "i < 8")
    case True
    then show ?thesis
      using assms(1,2) g status_bit [OF True, of b]
      by (auto simp: pin_key_ref_def d Let_def add.commute split: option.splits)
  next
    case False
    then show ?thesis using g by (simp add: pin_key_ref_def)
  qed
qed

lemma length_key_refs [simp]: "length (tlvs (map key_ref keys)) = 3 * length keys"
  by (induction keys) (simp_all add: key_ref_def)

lemma key_refs_loop:
  assumes "mem = pre @ tlvs (map key_ref keys) @ post" and "array_get mem q = Inr b" and "i \<le> 8"
    and "length keys \<le> 1000"
  shows "pin_status_loop mem (length pre) (word_of_nat (3 * length keys)) (Some q) (word_of_nat i) s =
    (if i + length keys \<le> 8 then Inr (pin_spec b i keys s) else Inl (Assert 0))"
  using assms
proof (induction keys arbitrary: pre i s)
  case Nil
  then show ?case by (subst pin_status_loop.simps) simp
next
  case (Cons key keys)
  let ?tag = "length pre" and ?n = "3 * length keys"
  have n: "3 * length (key # keys) = 3 + ?n" by simp
  have pos: "(0 :: u16) < word_of_nat (3 + ?n)" using Cons.prems(4) by (intro u16_pos) simp_all
  have mem: "mem = pre @ PIN_KEY_REF_T # 1 # key # tlvs (map key_ref keys) @ post"
    using Cons.prems(1) by (simp add: key_ref_def [of key] tlv_def)
  have g: "array_get mem (?tag + 1) = Inr 1" "array_get mem ?tag = Inr PIN_KEY_REF_T"
    "array_get mem (?tag + 2) = Inr key"
    unfolding mem by (simp_all add: array_get_def nth_append)
  note ref = pin_key_ref_step [OF g(3) Cons.prems(2,3), of s]
  have tags: "PIN_KEY_REF_T \<noteq> PIN_PS_DO_T" "PIN_KEY_REF_T \<noteq> PIN_USAGE_QUALIFIER_T"
    by (simp_all add: PIN_KEY_REF_T_def PIN_PS_DO_T_def PIN_USAGE_QUALIFIER_T_def)
  have len: "(word_of_nat (3 + ?n) :: u16) - (ucast (1 :: u8) + 2) = word_of_nat ?n" by simp
  show ?case
  proof (cases "i < 8")
    case True
    have "pin_status_loop mem ?tag (word_of_nat (3 * length (key # keys))) (Some q) (word_of_nat i) s =
        pin_status_loop mem (?tag + unat (1 :: u8) + 2) ((word_of_nat (3 + ?n) :: u16) - (ucast (1 :: u8) + 2))
          (Some q) (word_of_nat (Suc i)) (pin_spec b i [key] s)"
      unfolding n
      by (subst pin_status_loop.simps) (simp only: pos if_True g bindE.simps tags if_False ref True map_sum.simps prod.case simp_thms)
    also have "\<dots> = pin_status_loop mem (length (pre @ tlv (key_ref key))) (word_of_nat ?n)
          (Some q) (word_of_nat (Suc i)) (pin_spec b i [key] s)"
      unfolding len by (simp add: key_ref_def)
    also have "\<dots> = (if Suc i + length keys \<le> 8 then Inr (pin_spec b (Suc i) keys (pin_spec b i [key] s))
        else Inl (Assert 0))"
      using Cons.prems True by (intro Cons.IH) simp_all
    finally show ?thesis by simp
  next
    case False
    have "pin_status_loop mem ?tag (word_of_nat (3 * length (key # keys))) (Some q) (word_of_nat i) s = Inl (Assert 0)"
      unfolding n
      by (subst pin_status_loop.simps)
        (simp only: pos if_True g bindE.simps tags if_False ref False map_sum.simps prod.case simp_thms id_apply)
    with False show ?thesis by simp
  qed
qed

lemma mem_take_split:
  assumes "mem_take mem q (length v) = Inr v"
  shows "mem = take q mem @ v @ drop (q + length v) mem" and "length (take q mem) = q"
proof -
  have fits: "q + length v \<le> length mem" and v: "take (length v) (drop q mem) = v"
    using assms by (auto simp: mem_take_def split: if_splits)
  have "mem = take q mem @ take (length v) (drop q mem) @ drop (length v) (drop q mem)"
    by (simp only: append_take_drop_id)
  then show "mem = take q mem @ v @ drop (q + length v) mem" by (simp add: v add.commute)
  show "length (take q mem) = q" using fits by simp
qed

lemma pin_template_loop:
  assumes "mem = pre @ tlvs (pin_template b keys) @ post" and "length keys \<le> 1000"
  shows "pin_status_loop mem (length pre) (word_of_nat (length (tlvs (pin_template b keys)))) None 0 s =
    (if length keys \<le> 8 then Inr (pin_spec b 0 keys s) else Inl (Assert 0))"
proof -
  let ?n = "3 * length keys"
  have n: "length (tlvs (pin_template b keys)) = 3 + ?n" by (simp add: pin_template_def)
  have pos: "(0 :: u16) < word_of_nat (3 + ?n)" using assms(2) by (intro u16_pos) simp_all
  have mem: "mem = pre @ PIN_PS_DO_T # 1 # b # tlvs (map key_ref keys) @ post"
    using assms(1) by (simp add: pin_template_def tlv_def)
  have g: "array_get mem (length pre + 1) = Inr 1" "array_get mem (length pre) = Inr PIN_PS_DO_T"
    "array_get mem (length pre + 2) = Inr b"
    unfolding mem by (simp_all add: array_get_def nth_append)
  have len: "(word_of_nat (3 + ?n) :: u16) - (ucast (1 :: u8) + 2) = word_of_nat ?n" by simp
  have m: "mem = (pre @ [PIN_PS_DO_T, 1, b]) @ tlvs (map key_ref keys) @ post" using mem by simp
  have "pin_status_loop mem (length pre) (word_of_nat (3 + ?n)) None 0 s =
      pin_status_loop mem (length pre + unat (1 :: u8) + 2) ((word_of_nat (3 + ?n) :: u16) - (ucast (1 :: u8) + 2))
        (Some (length pre + 2)) 0 s"
    by (subst pin_status_loop.simps) (simp only: pos if_True g bindE.simps prod.case simp_thms)
  also have "\<dots> = pin_status_loop mem (length (pre @ [PIN_PS_DO_T, 1, b])) (word_of_nat ?n)
        (Some (length pre + 2)) (word_of_nat 0) s"
    unfolding len by simp
  also have "\<dots> = (if 0 + length keys \<le> 8 then Inr (pin_spec b 0 keys s) else Inl (Assert 0))"
    using assms(2) by (intro key_refs_loop [OF m g(3)]) simp_all
  finally show ?thesis unfolding n by simp
qed

section \<open>Properties\<close>

text \<open>C34. Every query on a well formed template works on the right value: the search finds the first object
  with the tag, reports the length of its value and points to the value, and reports that there is
  none exactly when there is none, whatever octets follow the template.\<close>

theorem fcp_search_correct:
  assumes "good_template objs"
  shows "case map_of objs (fcp_tag_value tag) of
      None \<Rightarrow> fcp_tlv_search_tag (template objs @ rest) 2 (word_of_nat (length (tlvs objs))) tag = Inr (0, None)
    | Some v \<Rightarrow> (\<exists>q. fcp_tlv_search_tag (template objs @ rest) 2 (word_of_nat (length (tlvs objs))) tag =
          Inr (word_of_nat (length v), Some q) \<and> mem_take (template objs @ rest) q (length v) = Inr v)"
  using template_search [OF assms, where tag = tag and rest = rest] by (auto split: option.splits)

definition linear_file :: "(u8 \<times> bytes) list" where
  "linear_file = [(0x82, [0x42, 0x21, 0x00, 0x1C, 0x05]), (0x83, [0x6F, 0x3A]), (0x80, [0x00, 0x8C])]"

lemma linear_file_good: "good_template linear_file"
  by (auto simp: good_template_def linear_file_def)

theorem fcp_search_correct_witness:
  "\<exists>q. fcp_tlv_search_tag (template linear_file) 2 (word_of_nat (length (tlvs linear_file))) FCP_FILE_ID_T =
     Inr (2, Some q) \<and> mem_take (template linear_file) q 2 = Inr [0x6F, 0x3A]"
proof -
  have "map_of linear_file (fcp_tag_value FCP_FILE_ID_T) = Some [0x6F, 0x3A]" by (simp add: linear_file_def)
  with fcp_search_correct [OF linear_file_good, where tag = FCP_FILE_ID_T and rest = "[]"] show ?thesis
    by (auto simp: numeral_2_eq_2 [symmetric])
qed

text \<open>C35. A card can stop the daemon: when the search reaches an object with another tag and the length
  byte 254, the step it adds to its pointer is zero, and it never returns.\<close>

theorem fcp_search_hangs:
  assumes "good_template objs" and "map_of objs (fcp_tag_value tag) = None" and "t \<noteq> fcp_tag_value tag"
    and "len = word_of_nat (length (tlvs objs) + n)" and "0 < n" and "n \<le> 1000"
  shows "fcp_tlv_search_tag (tlvs objs @ t # 254 # rest) 0 len tag = Inl Hang"
proof -
  let ?mem = "tlvs objs @ t # 254 # rest"
  have objs: "\<forall>obj \<in> set objs. length (snd obj) \<le> 253 \<and> fst obj \<noteq> fcp_tag_value tag"
    "length (tlvs objs) + n < 65536"
    using assms(1,2,6) by (force simp: good_template_def map_of_eq_None_iff)+
  have "(0 :: u16) < word_of_nat n" using assms(5,6) by (intro u16_pos) simp_all
  then have "fcp_search_loop ?mem (fcp_tag_value tag) (length (tlvs objs)) (word_of_nat n) = None"
    using assms(3) by (intro search_loop_stuck [of _ _ t]) simp_all
  moreover have "returns (fcp_search_loop ?mem (fcp_tag_value tag) 0 len) =
      returns (fcp_search_loop ?mem (fcp_tag_value tag) (length (tlvs objs)) (word_of_nat n))"
    using fcp.skips [OF objs(1) _ objs(2), of ?mem "[]"] assms(4) by simp
  ultimately show ?thesis by (simp add: fcp_tlv_search_tag_def returns_def)
qed

theorem fcp_search_hangs_witness:
  "fcp_tlv_search_tag (tlvs linear_file @ [0xC6, 254]) 0 (word_of_nat (length (tlvs linear_file) + 2)) FCP_SFI_T
     = Inl Hang"
  by (rule fcp_search_hangs [OF linear_file_good, where n = 2]) (simp_all add: linear_file_def)

text \<open>C36. The two variants of the parser agree on every well formed template, in all searches and in the
  file descriptor; where the one of the gsm directory stops the process, for a descriptor that is
  missing or has another length, the fusion variant answers \<open>FALSE\<close>.\<close>

theorem variants_agree:
  assumes "good_template objs" and "len = word_of_nat (length (tlvs objs))"
  shows "fusion_tlv_search_tag (template objs @ rest) 2 len tag = fcp_tlv_search_tag (template objs @ rest) 2 len tag \<and>
    fusion_file_descriptor_query (template objs @ rest) 2 len d =
      (case fcp_file_descriptor_query (template objs @ rest) 2 len of
         Inl e \<Rightarrow> Inr (False, d) | Inr x \<Rightarrow> Inr (True, x))"
proof -
  let ?mem = "template objs @ rest"
  have same: "fusion_tlv_search_tag ?mem 2 len t = fcp_tlv_search_tag ?mem 2 len t" for t
    using fcp.result [OF _ template_split] fusion.result [OF _ template_split] assms
    unfolding fcp_tlv_search_tag_def fusion_tlv_search_tag_def
    by (simp add: short_objects_def good_template_def)
  note found = template_search [OF assms(1), where tag = FCP_FILE_DES_T and rest = rest, folded assms(2)]
  have "fusion_file_descriptor_query ?mem 2 len d =
      (case fcp_file_descriptor_query ?mem 2 len of Inl e \<Rightarrow> Inr (False, d) | Inr x \<Rightarrow> Inr (True, x))"
  proof (cases "map_of objs (fcp_tag_value FCP_FILE_DES_T)")
    case None
    with found show ?thesis
      unfolding fusion_file_descriptor_query_def fcp_file_descriptor_query_def same by simp
  next
    case (Some v)
    with found obtain q where
      q: "fcp_tlv_search_tag ?mem 2 len FCP_FILE_DES_T = Inr (word_of_nat (length v), Some q)"
        "mem_take ?mem q (length v) = Inr v" "length v \<le> 253"
      by auto
    have g: "i < length v \<Longrightarrow> array_get ?mem (q + i) = Inr (v ! i)" for i
      using mem_take_get [OF q(2)] .
    show ?thesis
    proof (cases "length v = 2 \<or> length v = 5")
      case True
      with g [of 0] have "array_get ?mem q = Inr (v ! 0)" by fastforce
      with True show ?thesis
        using g [of 1] g [of 2] g [of 3] g [of 4]
        unfolding fusion_file_descriptor_query_def fcp_file_descriptor_query_def same q(1) by auto
    next
      case False
      then have "(word_of_nat (length v) :: u8) \<noteq> 2" "(word_of_nat (length v) :: u8) \<noteq> 5"
        using q(3) by (simp_all add: word_of_nat_eq_numeral)
      then show ?thesis
        unfolding fusion_file_descriptor_query_def fcp_file_descriptor_query_def same q(1) by simp
    qed
  qed
  with same show ?thesis by simp
qed

theorem variants_agree_witness:
  "fusion_file_descriptor_query (template linear_file) 2 (word_of_nat (length (tlvs linear_file)))
     \<lparr>fd_fd = 0, fd_data_coding = 0, fd_rec_len = 0, fd_num_rec = 0\<rparr> =
   Inr (True, \<lparr>fd_fd = 0x42, fd_data_coding = 0x21, fd_rec_len = 0x1C, fd_num_rec = 5\<rparr>)"
proof -
  have "fcp_file_descriptor_query (template linear_file) 2 (word_of_nat (length (tlvs linear_file))) =
      Inr \<lparr>fd_fd = 0x42, fd_data_coding = 0x21, fd_rec_len = 0x1C, fd_num_rec = 5\<rparr>"
    unfolding fcp_file_descriptor_query_def fcp_tlv_search_tag_def
    by (subst fcp_search_loop.simps)
      (simp add: template_def linear_file_def tlv_def array_get_def returns_def be16_def)
  with variants_agree [OF linear_file_good refl, where rest = "[]" and tag = FCP_FILE_DES_T] show ?thesis by simp
qed

text \<open>The PIN status template: for up to eight key references the flags are those of the references
  with a known key, in order, one status bit each; the ninth ends the process, since the position
  is compared with the length of the reference and not with that of the status octets.\<close>

theorem pin_status_flags:
  assumes "good_template objs" and "map_of objs (fcp_tag_value FCP_PIN_DO_T) = Some (tlvs (pin_template b keys))"
    and "length keys \<le> 80" and "len = word_of_nat (length (tlvs objs))"
  shows "fcp_pin_status_do_query (template objs @ rest) 2 len s =
    (if length keys \<le> 8 then Inr (True, pin_spec b 0 keys s) else Inl (Assert 0))"
proof -
  let ?mem = "template objs @ rest" and ?v = "tlvs (pin_template b keys)"
  from template_search [OF assms(1), where tag = FCP_PIN_DO_T and rest = rest] assms(2) obtain q where
    q: "fcp_tlv_search_tag ?mem 2 len FCP_PIN_DO_T = Inr (word_of_nat (length ?v), Some q)"
      "mem_take ?mem q (length ?v) = Inr ?v" "length ?v \<le> 253"
    unfolding assms(4) by auto
  have c: "ucast (word_of_nat (length ?v) :: u8) = (word_of_nat (length ?v) :: u16)"
    using q(3) unat_word_of_nat_small [of "length ?v", where 'a = 16]
      unat_word_of_nat_small [of "length ?v", where 'a = 8]
    by (simp add: word_unat_eq_iff unsigned_ucast_eq take_bit_nat_eq_self)
  have "pin_status_loop ?mem q (word_of_nat (length ?v)) None 0 s =
      (if length keys \<le> 8 then Inr (pin_spec b 0 keys s) else Inl (Assert 0))"
    using pin_template_loop [OF mem_take_split(1) [OF q(2)], of s] assms(3)
    unfolding mem_take_split(2) [OF q(2)] by simp
  then show ?thesis by (simp add: fcp_pin_status_do_query_def q(1) c)
qed

definition pin_file :: "u8 list \<Rightarrow> (u8 \<times> bytes) list" where
  "pin_file keys = [(0x82, [0x78, 0x21]), (0xC6, tlvs (pin_template 0x60 keys))]"

theorem pin_status_flags_witness:
  "fcp_pin_status_do_query (template (pin_file [0x01, 0x81, 0x0A])) 2 (word_of_nat (length (tlvs (pin_file [0x01, 0x81, 0x0A]))))
     \<lparr>ps_pin_flag = 0, ps_enabled_pin_flag = 0\<rparr> =
   Inr (True, \<lparr>ps_pin_flag = 0x10003, ps_enabled_pin_flag = 0x10002\<rparr>)"
proof -
  have "good_template (pin_file [0x01, 0x81, 0x0A])"
    by (auto simp: good_template_def pin_file_def pin_template_def key_ref_def)
  from pin_status_flags [OF this, where b = "0x60" and keys = "[0x01, 0x81, 0x0A]" and rest = "[]"] show ?thesis
    by (simp add: pin_file_def pin_masks_def)
qed

text \<open>The proprietary information query reports the first object with each tag, except the minimum
  application clock frequency: for that it reports the tag of the first object, whatever the card
  said.\<close>

theorem proprietary_min_clock:
  assumes "good_template objs" and "map_of objs (fcp_tag_value FCP_PROPRIETARY_T) = Some (tlvs props)"
    and "map_of props PROP_UICC_CHAR_T = Some [c]" and "map_of props PROP_APP_PWR_T = None"
    and "map_of props PROP_MIN_APP_CLK_T = Some [f]" and "map_of props PROP_AVAIL_MEM_T = None"
    and "\<forall>obj \<in> set props. length (snd obj) \<le> 255" and "len = word_of_nat (length (tlvs objs))"
  shows "fcp_proprietary_info_query (template objs @ rest) 2 len =
    Inr (True, no_proprietary\<lparr>pi_do_flag := 5, pi_char_byte := c, pi_app_min_freq := fst (hd props)\<rparr>)"
proof -
  let ?mem = "template objs @ rest" and ?v = "tlvs props"
  from template_search [OF assms(1), where tag = FCP_PROPRIETARY_T and rest = rest] assms(2) obtain q where
    q: "fcp_tlv_search_tag ?mem 2 len FCP_PROPRIETARY_T = Inr (word_of_nat (length ?v), Some q)"
      "mem_take ?mem q (length ?v) = Inr ?v" "length ?v \<le> 253"
    unfolding assms(8) by auto
  obtain t v props' where props: "props = (t, v) # props'"
    using assms(3) by (cases props) auto
  have u: "unat (word_of_nat (length ?v) :: u8) = length ?v" using q(3) by (intro unat_word_of_nat_small) simp
  have c: "ucast (word_of_nat (length ?v) :: u8) = (word_of_nat (length ?v) :: u16)"
    using u q(3) unat_word_of_nat_small [of "length ?v", where 'a = 16]
    by (simp add: word_unat_eq_iff unsigned_ucast_eq take_bit_nat_eq_self)
  have nz: "(word_of_nat (length ?v) :: u8) \<noteq> 0"
    using u by (auto simp: props word_unat_eq_iff)
  have short: "short_objects 255 props" using assms(7) q(3) by (simp add: short_objects_def)
  have find: "case map_of props tag of
      None \<Rightarrow> prop_info_tlv_search_tag ?mem q (word_of_nat (length ?v)) tag = Inr (0, None)
    | Some v \<Rightarrow> (\<exists>r. prop_info_tlv_search_tag ?mem q (word_of_nat (length ?v)) tag =
        Inr (word_of_nat (length v), Some r) \<and> mem_take ?mem r (length v) = Inr v \<and> length v \<le> 255)" for tag
    using prop_info.finds [OF short mem_take_split(1) [OF q(2)] mem_take_split(2) [OF q(2), symmetric], of tag] .
  obtain r1 where r1: "prop_info_tlv_search_tag ?mem q (word_of_nat (length ?v)) PROP_UICC_CHAR_T = Inr (1, Some r1)"
      "array_get ?mem r1 = Inr c"
    using find [of PROP_UICC_CHAR_T] assms(3) mem_take_get [of ?mem _ "[c]" 0] by force
  obtain r3 where r3: "prop_info_tlv_search_tag ?mem q (word_of_nat (length ?v)) PROP_MIN_APP_CLK_T = Inr (1, Some r3)"
    using find [of PROP_MIN_APP_CLK_T] assms(5) by force
  have r24: "prop_info_tlv_search_tag ?mem q (word_of_nat (length ?v)) PROP_APP_PWR_T = Inr (0, None)"
    "prop_info_tlv_search_tag ?mem q (word_of_nat (length ?v)) PROP_AVAIL_MEM_T = Inr (0, None)"
    using find [of PROP_APP_PWR_T] find [of PROP_AVAIL_MEM_T] assms(4,6) by simp_all
  have hd: "array_get ?mem q = Inr (fst (hd props))"
    using mem_take_get [OF q(2), of 0] by (simp add: props tlv_def)
  show ?thesis
    using nz
    by (simp add: fcp_proprietary_info_query_def q(1) prop_step_def c r1 r3 r24 hd prop_uicc_char_def
        prop_min_app_clk_def no_proprietary_def)
qed

definition props_file :: "(u8 \<times> bytes) list" where
  "props_file = [(0x82, [0x78, 0x21]), (0xA5, tlvs [(0x80, [0x71]), (0x82, [0x0A])])]"

theorem proprietary_min_clock_witness:
  "fcp_proprietary_info_query (template props_file) 2 (word_of_nat (length (tlvs props_file))) =
     Inr (True, no_proprietary\<lparr>pi_do_flag := 5, pi_char_byte := 0x71, pi_app_min_freq := 0x80\<rparr>)"
proof -
  have "good_template props_file" by (auto simp: good_template_def props_file_def)
  from proprietary_min_clock [OF this, where props = "[(0x80, [0x71]), (0x82, [0x0A])]" and c = "0x71"
      and f = "0x0A" and rest = "[]"] show ?thesis
    by (simp add: props_file_def PROP_UICC_CHAR_T_def PROP_APP_PWR_T_def PROP_MIN_APP_CLK_T_def
        PROP_AVAIL_MEM_T_def)
qed

end
