(* ===== verification/At_Tok.thy ===== *)
theory At_Tok
  imports Hw_Prelude
begin

text \<open>
  The tokenizer of AT command answers (\<open>ril/gsm/mtk-ril/at_tok.c\<close>).  The cursor \<open>*p_cur\<close> is \<open>NULL\<close>
  (\<open>None\<close>) or points to the rest of the line, a list of characters without its final zero; the zeros
  \<open>strsep\<close> writes only end the token it hands out.  A function returns its result code, the new
  cursor, and what it stored through \<open>p_out\<close>, if anything.  \<open>strtol\<close> and its relatives are those of
  the C library in the C locale, for a \<open>long\<close> of \<open>w\<close> bits.
\<close>

section \<open>The C library\<close>

definition c_isspace :: "char \<Rightarrow> bool" where
  "c_isspace c \<longleftrightarrow> c \<in> {CHR '' '', CHR 0x09, CHR 0x0A, CHR 0x0B, CHR 0x0C, CHR 0x0D}"

text \<open>\<open>strchr\<close>: the rest from the first such character on.\<close>

definition c_strchr :: "string \<Rightarrow> char \<Rightarrow> string option" where
  "c_strchr s c = (if c \<in> set s then Some (dropWhile (\<lambda>x. x \<noteq> c) s) else None)"

text \<open>\<open>strsep\<close> with a single delimiter: the token and the new cursor.\<close>

definition c_strsep :: "string \<Rightarrow> char \<Rightarrow> string \<times> string option" where
  "c_strsep s c =
     (takeWhile (\<lambda>x. x \<noteq> c) s, if c \<in> set s then Some (tl (dropWhile (\<lambda>x. x \<noteq> c) s)) else None)"

definition c_digit :: "nat \<Rightarrow> char \<Rightarrow> nat option" where
  "c_digit base c =
     (let x = (of_char c :: nat);
          d = (if of_char (CHR ''0'') \<le> x \<and> x \<le> of_char (CHR ''9'') then Some (x - of_char (CHR ''0''))
               else if of_char (CHR ''A'') \<le> x \<and> x \<le> of_char (CHR ''Z'') then Some (x - of_char (CHR ''A'') + 10)
               else if of_char (CHR ''a'') \<le> x \<and> x \<le> of_char (CHR ''z'') then Some (x - of_char (CHR ''a'') + 10)
               else None)
      in case d of None \<Rightarrow> None | Some v \<Rightarrow> if v < base then Some v else None)"

definition is_digit :: "nat \<Rightarrow> char \<Rightarrow> bool" where
  "is_digit base c \<longleftrightarrow> c_digit base c \<noteq> None"

definition digits_value :: "nat \<Rightarrow> string \<Rightarrow> nat" where
  "digits_value base s = foldl (\<lambda>n c. n * base + the (c_digit base c)) 0 s"

text \<open>Sign, an optional \<open>0x\<close> for base 16, and digits: the sign and the magnitude when there are any.\<close>

definition c_number :: "nat \<Rightarrow> string \<Rightarrow> (bool \<times> nat) option" where
  "c_number base s0 =
     (let s1 = dropWhile c_isspace s0;
          neg = (s1 \<noteq> [] \<and> hd s1 = CHR ''-'');
          s2 = (if s1 \<noteq> [] \<and> hd s1 \<in> {CHR ''-'', CHR ''+''} then tl s1 else s1);
          s3 = (if base = 16 \<and> length s2 > 2 \<and> hd s2 = CHR ''0'' \<and> s2 ! 1 \<in> {CHR ''x'', CHR ''X''} \<and>
                   is_digit 16 (s2 ! 2) then drop 2 s2 else s2);
          ds = takeWhile (is_digit base) s3
      in if ds = [] then None else Some (neg, digits_value base ds))"

text \<open>The value is clamped to the type; \<open>None\<close> is \<open>end == ret\<close>, when the value is 0.\<close>

definition c_strtol :: "nat \<Rightarrow> nat \<Rightarrow> string \<Rightarrow> int option" where
  "c_strtol w base s =
     map_option (\<lambda>(neg, n).
       if neg then max (- (2 ^ (w - 1))) (- int n) else min (2 ^ (w - 1) - 1) (int n)) (c_number base s)"

definition c_strtoul :: "nat \<Rightarrow> nat \<Rightarrow> string \<Rightarrow> int option" where
  "c_strtoul w base s =
     map_option (\<lambda>(neg, n).
       if int n > 2 ^ w - 1 then 2 ^ w - 1 else (if neg then - int n else int n) mod 2 ^ w) (c_number base s)"

section \<open>The C functions\<close>

type_synonym cursor = "string option"

definition at_tok_start :: "cursor \<Rightarrow> int \<times> cursor" where
  "at_tok_start cur =
     (case cur of
        None \<Rightarrow> (-1, None)
      | Some s \<Rightarrow> (case c_strchr s (CHR '':'') of None \<Rightarrow> (-1, None) | Some r \<Rightarrow> (0, Some (tl r))))"

definition at_tok_char :: "cursor \<Rightarrow> int \<times> cursor" where
  "at_tok_char cur =
     (case cur of
        None \<Rightarrow> (-1, None)
      | Some s \<Rightarrow> (case c_strchr s (CHR ''('') of None \<Rightarrow> (-1, None) | Some r \<Rightarrow> (0, Some (tl r))))"

definition skipWhiteSpace :: "cursor \<Rightarrow> cursor" where
  "skipWhiteSpace cur = map_option (dropWhile c_isspace) cur"

definition skipNextComma :: "cursor \<Rightarrow> cursor" where
  "skipNextComma cur =
     map_option (\<lambda>s. let r = dropWhile (\<lambda>x. x \<noteq> CHR '','') s in if r \<noteq> [] then tl r else r) cur"

definition nextTok :: "cursor \<Rightarrow> string option \<times> cursor" where
  "nextTok cur =
     (case skipWhiteSpace cur of
        None \<Rightarrow> (None, None)
      | Some s \<Rightarrow>
          if s \<noteq> [] \<and> hd s = CHR 0x22 then
            (case c_strsep (tl s) (CHR 0x22) of (tok, cur') \<Rightarrow> (Some tok, skipNextComma cur'))
          else (case c_strsep s (CHR '','') of (tok, cur') \<Rightarrow> (Some tok, cur')))"

definition to_int :: "int \<Rightarrow> int" where
  "to_int l = sint (word_of_int l :: 32 word)"

definition at_tok_nextint_base :: "nat \<Rightarrow> cursor \<Rightarrow> nat \<Rightarrow> bool \<Rightarrow> int \<times> cursor \<times> int option" where
  "at_tok_nextint_base w cur base uns =
     (if cur = None then (-1, cur, None)
      else
        (case nextTok cur of
           (None, cur') \<Rightarrow> (-1, cur', None)
         | (Some ret, cur') \<Rightarrow>
             (case (if uns then c_strtoul w base ret else c_strtol w base ret) of
                None \<Rightarrow> (-1, cur', Some 0)
              | Some l \<Rightarrow> (0, cur', Some (to_int l)))))"

definition at_tok_nextint :: "nat \<Rightarrow> cursor \<Rightarrow> int \<times> cursor \<times> int option" where
  "at_tok_nextint w cur = at_tok_nextint_base w cur 10 False"

definition at_tok_nexthexint :: "nat \<Rightarrow> cursor \<Rightarrow> int \<times> cursor \<times> int option" where
  "at_tok_nexthexint w cur = at_tok_nextint_base w cur 16 True"

text \<open>With \<open>p_out\<close> not \<open>NULL\<close>.\<close>

definition at_tok_nextbool :: "nat \<Rightarrow> cursor \<Rightarrow> int \<times> cursor \<times> int option" where
  "at_tok_nextbool w cur =
     (case at_tok_nextint w cur of
        (ret, cur', result) \<Rightarrow>
          if ret < 0 then (-1, cur', None)
          else if \<not> (result = Some 0 \<or> result = Some 1) then (-1, cur', None)
          else (ret, cur', result))"

definition at_tok_nextstr :: "cursor \<Rightarrow> int \<times> cursor \<times> string option" where
  "at_tok_nextstr cur =
     (if cur = None then (-1, cur, None) else (case nextTok cur of (tok, cur') \<Rightarrow> (0, cur', tok)))"

definition at_tok_hasmore :: "cursor \<Rightarrow> bool" where
  "at_tok_hasmore cur \<longleftrightarrow> \<not> (cur = None \<or> cur = Some [])"

definition at_tok_equal :: "cursor \<Rightarrow> int \<times> cursor" where
  "at_tok_equal cur =
     (case cur of
        None \<Rightarrow> (-1, None)
      | Some s \<Rightarrow> (case c_strchr s (CHR ''='') of None \<Rightarrow> (-1, None) | Some r \<Rightarrow> (0, Some (tl r))))"

text \<open>A \<open>long long\<close> has 64 bits.\<close>

definition at_tok_nextlonglong_base :: "cursor \<Rightarrow> nat \<Rightarrow> bool \<Rightarrow> int \<times> cursor \<times> int option" where
  "at_tok_nextlonglong_base cur base uns =
     (if cur = None then (-1, cur, None)
      else
        (case nextTok cur of
           (None, cur') \<Rightarrow> (-1, cur', None)
         | (Some ret, cur') \<Rightarrow>
             (case (if uns then c_strtoul 64 base ret else c_strtol 64 base ret) of
                None \<Rightarrow> (-1, cur', Some 0)
              | Some ll \<Rightarrow> (0, cur', Some (sint (word_of_int ll :: 64 word))))))"

definition at_tok_nextlonglong :: "cursor \<Rightarrow> int \<times> cursor \<times> int option" where
  "at_tok_nextlonglong cur = at_tok_nextlonglong_base cur 10 False"

section \<open>Answers as the modem prints them\<close>

definition digit_char :: "nat \<Rightarrow> char" where
  "digit_char d = char_of (48 + d)"

fun print_nat :: "nat \<Rightarrow> string" where
  "print_nat n = (if n < 10 then [digit_char n] else print_nat (n div 10) @ [digit_char (n mod 10)])"

declare print_nat.simps [simp del]

definition print_int :: "int \<Rightarrow> string" where
  "print_int z = (if z < 0 then CHR ''-'' # print_nat (nat (- z)) else print_nat (nat z))"

datatype field = Int_Field int | Str_Field string

fun print_field :: "field \<Rightarrow> string" where
  "print_field (Int_Field z) = print_int z"
| "print_field (Str_Field s) = CHR 0x22 # s @ [CHR 0x22]"

fun print_fields :: "field list \<Rightarrow> string" where
  "print_fields [] = []"
| "print_fields [f] = print_field f"
| "print_fields (f # fs) = print_field f @ CHR '','' # print_fields fs"

fun valid_field :: "field \<Rightarrow> bool" where
  "valid_field (Int_Field z) \<longleftrightarrow> - (2 ^ 31) \<le> z \<and> z < 2 ^ 31"
| "valid_field (Str_Field s) \<longleftrightarrow> CHR 0x22 \<notin> set s"

text \<open>Reading fields of the given kinds one after the other, as the handlers do.\<close>

fun read_fields :: "nat \<Rightarrow> cursor \<Rightarrow> field list \<Rightarrow> (field list \<times> cursor) option" where
  "read_fields w cur [] = Some ([], cur)"
| "read_fields w cur (Int_Field _ # ks) =
     (case at_tok_nextint w cur of
        (ret, cur', out) \<Rightarrow>
          if ret < 0 then None
          else map_option (\<lambda>(fs, c). (Int_Field (the out) # fs, c)) (read_fields w cur' ks))"
| "read_fields w cur (Str_Field _ # ks) =
     (case at_tok_nextstr cur of
        (ret, cur', out) \<Rightarrow>
          if ret < 0 then None
          else map_option (\<lambda>(fs, c). (Str_Field (the out) # fs, c)) (read_fields w cur' ks))"

section \<open>Decimal numbers\<close>

lemma digit_cases: "d < 10 \<Longrightarrow> d \<in> {0, 1, 2, 3, 4, 5, 6, 7, 8, 9 :: nat}"
  by auto

lemma of_digit_char: "d < 10 \<Longrightarrow> (of_char (digit_char d) :: nat) = 48 + d"
  by (simp add: digit_char_def)

lemma c_digit_digit_char: "d < 10 \<Longrightarrow> c_digit 10 (digit_char d) = Some d"
  by (simp add: c_digit_def of_digit_char)

lemma digits_value_snoc:
  "digits_value b (s @ [c]) = digits_value b s * b + the (c_digit b c)"
  by (simp add: digits_value_def)

lemma print_nat_value: "digits_value 10 (print_nat n) = n"
proof (induction n rule: print_nat.induct)
  case (1 n)
  show ?case
  proof (cases "n < 10")
    case True
    then show ?thesis by (subst print_nat.simps) (simp add: digits_value_def c_digit_digit_char)
  next
    case False
    then show ?thesis
      using 1 by (subst print_nat.simps) (simp add: digits_value_snoc c_digit_digit_char)
  qed
qed

lemma print_nat_digits: "c \<in> set (print_nat n) \<Longrightarrow> \<exists>d < 10. c = digit_char d"
proof (induction n rule: print_nat.induct)
  case (1 n)
  then show ?case
    by (subst (asm) (2) print_nat.simps) (force split: if_splits)
qed

lemma print_nat_nonempty [simp]: "print_nat n \<noteq> []"
  by (subst print_nat.simps) simp

text \<open>What a digit is not.\<close>

lemma digit_char_not:
  "d < 10 \<Longrightarrow> \<not> c_isspace (digit_char d) \<and>
     digit_char d \<notin> {CHR '','', CHR 0x22, CHR ''-'', CHR ''+'', CHR '':''}"
  by (drule digit_cases) (auto simp: digit_char_def c_isspace_def char_of_def)

lemma print_nat_chars:
  "c \<in> set (print_nat n) \<Longrightarrow> is_digit 10 c \<and> \<not> c_isspace c \<and>
     c \<notin> {CHR '','', CHR 0x22, CHR ''-'', CHR ''+'', CHR '':''}"
  using print_nat_digits [of c n] digit_char_not by (auto simp: is_digit_def c_digit_digit_char)

lemma print_int_cases:
  obtains c cs where "print_int z = c # cs" and "\<not> c_isspace c" and "c \<noteq> CHR 0x22"
    and "CHR '','' \<notin> set (print_int z)"
proof (cases "z < 0")
  case True
  have "CHR '','' \<notin> set (print_nat (nat (- z)))" using print_nat_chars by blast
  then show ?thesis
    using that [of "CHR ''-''" "print_nat (nat (- z))"] True by (auto simp: print_int_def c_isspace_def)
next
  case False
  obtain c cs where c: "print_nat (nat z) = c # cs" by (cases "print_nat (nat z)") auto
  then have "c \<in> set (print_nat (nat z))" by simp
  from print_nat_chars [OF this] have "\<not> c_isspace c" "c \<noteq> CHR 0x22" by auto
  moreover have "CHR '','' \<notin> set (print_nat (nat z))" using print_nat_chars by blast
  ultimately show ?thesis using that [of c cs] False c by (simp add: print_int_def)
qed

lemma takeWhile_digits [simp]: "takeWhile (is_digit 10) (print_nat n) = print_nat n"
  using print_nat_chars by (simp add: takeWhile_eq_all_conv)

lemma c_number_print_int:
  "c_number 10 (print_int z) = Some (z < 0, nat \<bar>z\<bar>)"
proof (cases "z < 0")
  case True
  then show ?thesis
    by (simp add: c_number_def print_int_def Let_def c_isspace_def print_nat_value)
next
  case False
  obtain c cs where c: "print_nat (nat z) = c # cs" by (cases "print_nat (nat z)") auto
  then have "c \<in> set (print_nat (nat z))" by simp
  from print_nat_chars [OF this] have "\<not> c_isspace c" "c \<noteq> CHR ''-''" "c \<noteq> CHR ''+''" by auto
  then have d: "dropWhile c_isspace (print_nat (nat z)) = print_nat (nat z)"
    and h: "hd (print_nat (nat z)) \<notin> {CHR ''-'', CHR ''+''}"
    by (simp_all add: c)
  show ?thesis
    using False h by (simp add: c_number_def print_int_def Let_def d print_nat_value)
qed

lemma c_strtol_print_int:
  assumes "32 \<le> w" and "- (2 ^ 31) \<le> z" and "z < 2 ^ 31"
  shows "c_strtol w 10 (print_int z) = Some z"
proof -
  have "(2 :: int) ^ 31 \<le> 2 ^ (w - 1)" using assms(1) by (intro power_increasing) simp_all
  then show ?thesis using assms(2,3) by (auto simp: c_strtol_def c_number_print_int)
qed

lemma to_int_small: "- (2 ^ 31) \<le> z \<Longrightarrow> z < 2 ^ 31 \<Longrightarrow> to_int z = z"
  unfolding to_int_def by (simp add: signed_of_int signed_take_bit_int_eq_self)

section \<open>Tokens\<close>

lemma takeWhile_sep: "c \<notin> set s \<Longrightarrow> takeWhile (\<lambda>x. x \<noteq> c) (s @ c # rest) = s"
  by (induction s) auto

lemma dropWhile_sep: "c \<notin> set s \<Longrightarrow> dropWhile (\<lambda>x. x \<noteq> c) (s @ c # rest) = c # rest"
  by (induction s) auto

lemma c_strsep_found: "c \<notin> set s \<Longrightarrow> c_strsep (s @ c # rest) c = (s, Some rest)"
  by (simp add: c_strsep_def takeWhile_sep dropWhile_sep)

lemma c_strsep_last: "c \<notin> set s \<Longrightarrow> c_strsep s c = (s, None)"
  by (auto simp: c_strsep_def takeWhile_eq_all_conv)

lemma nextTok_int:
  "nextTok (Some (print_int z @ CHR '','' # rest)) = (Some (print_int z), Some rest)"
  "nextTok (Some (print_int z)) = (Some (print_int z), None)"
proof -
  obtain c cs where c: "print_int z = c # cs" "\<not> c_isspace c" "c \<noteq> CHR 0x22"
    and comma: "CHR '','' \<notin> set (print_int z)"
    using print_int_cases .
  show "nextTok (Some (print_int z @ CHR '','' # rest)) = (Some (print_int z), Some rest)"
    using c_strsep_found [OF comma, of rest] c by (simp add: nextTok_def skipWhiteSpace_def)
  show "nextTok (Some (print_int z)) = (Some (print_int z), None)"
    using c_strsep_last [OF comma] c by (simp add: nextTok_def skipWhiteSpace_def)
qed

lemma nextTok_str:
  assumes "CHR 0x22 \<notin> set s"
  shows "nextTok (Some (print_field (Str_Field s) @ CHR '','' # rest)) = (Some s, Some rest)"
    and "nextTok (Some (print_field (Str_Field s))) = (Some s, Some [])"
  using c_strsep_found [OF assms, of "CHR '','' # rest"] c_strsep_found [OF assms, of "[]"]
  by (simp_all add: nextTok_def skipWhiteSpace_def skipNextComma_def c_isspace_def Let_def)

lemma nextTok_space: "nextTok (Some (CHR '' '' # s)) = nextTok (Some s)"
  by (simp add: nextTok_def skipWhiteSpace_def c_isspace_def)

text \<open>One field, followed by a comma and more or by nothing.\<close>

lemma read_int:
  assumes "valid_field (Int_Field z)" and "32 \<le> w" and "nextTok (Some line) = (Some (print_int z), cur)"
  shows "at_tok_nextint w (Some line) = (0, cur, Some z)"
  using assms c_strtol_print_int [of w z] to_int_small [of z]
  by (simp add: at_tok_nextint_def at_tok_nextint_base_def)

text \<open>What is left behind the last field: nothing, or the empty rest of the line.\<close>

definition at_end :: "cursor \<Rightarrow> bool" where
  "at_end cur \<longleftrightarrow> cur = None \<or> cur = Some []"

lemma read_fields_print:
  assumes "list_all valid_field fs" and "fs \<noteq> []" and "32 \<le> w"
  shows "\<exists>cur. read_fields w (Some (print_fields fs)) fs = Some (fs, cur) \<and> at_end cur"
  using assms
proof (induction fs rule: print_fields.induct)
  case 1
  then show ?case by simp
next
  case (2 f)
  then show ?case
    by (cases f) (auto simp: read_int nextTok_int at_tok_nextstr_def nextTok_str [simplified] at_end_def)
next
  case (3 f g fs)
  let ?rest = "print_fields (g # fs)"
  obtain cur where ih: "read_fields w (Some ?rest) (g # fs) = Some (g # fs, cur)" "at_end cur"
    using 3 by auto
  show ?case
  proof (cases f)
    case (Int_Field z)
    have "at_tok_nextint w (Some (print_int z @ CHR '','' # ?rest)) = (0, Some ?rest, Some z)"
      using 3(2,4) by (intro read_int nextTok_int) (simp_all add: Int_Field)
    then show ?thesis using ih by (simp add: Int_Field)
  next
    case (Str_Field s)
    have "at_tok_nextstr (Some (print_field f @ CHR '','' # ?rest)) = (0, Some ?rest, Some s)"
      using 3(2) nextTok_str(1) [of s ?rest] by (simp add: Str_Field at_tok_nextstr_def)
    then show ?thesis using ih by (simp add: Str_Field)
  qed
qed

text \<open>The space behind the colon does not matter.\<close>

lemma read_fields_space:
  "fs \<noteq> [] \<Longrightarrow> read_fields w (Some (CHR '' '' # s)) fs = read_fields w (Some s) fs"
  by (cases fs; cases "hd fs")
    (simp_all add: at_tok_nextint_def at_tok_nextint_base_def at_tok_nextstr_def nextTok_space)

text \<open>C38. The tokenizer reads back what the modem prints: after the prefix and the colon the values of any
  line of numbers and quoted strings come out unchanged and in order, commas inside a string
  included, and nothing is left over.\<close>

theorem at_line_round_trip:
  assumes "CHR '':'' \<notin> set prefix" and "list_all valid_field fs" and "fs \<noteq> []" and "32 \<le> w"
  shows "\<exists>cur cur'. at_tok_start (Some (prefix @ '': '' @ print_fields fs)) = (0, cur) \<and>
    read_fields w cur fs = Some (fs, cur') \<and> \<not> at_tok_hasmore cur'"
proof -
  have "at_tok_start (Some (prefix @ '': '' @ print_fields fs)) = (0, Some (CHR '' '' # print_fields fs))"
    using dropWhile_sep [OF assms(1), of "CHR '' '' # print_fields fs"]
    by (simp add: at_tok_start_def c_strchr_def)
  moreover obtain cur' where "read_fields w (Some (print_fields fs)) fs = Some (fs, cur')" "at_end cur'"
    using read_fields_print [OF assms(2-4)] by blast
  ultimately show ?thesis
    using read_fields_space [OF assms(3)] by (auto simp: at_tok_hasmore_def at_end_def)
qed

theorem at_line_round_trip_witness:
  "\<exists>cur cur'. at_tok_start (Some ''+CRSM: 144,-5,\"62,1A\"'') = (0, cur) \<and>
     read_fields 32 cur [Int_Field 144, Int_Field (-5), Str_Field ''62,1A''] =
       Some ([Int_Field 144, Int_Field (-5), Str_Field ''62,1A''], cur')"
proof -
  have "print_nat 144 = ''144''" "print_nat 5 = ''5''"
    by code_simp+
  then show ?thesis
    using at_line_round_trip [of "''+CRSM''" "[Int_Field 144, Int_Field (-5), Str_Field ''62,1A'']" 32]
    by (auto simp: print_int_def)
qed

end
