(* ===== verification/Sim_Response.thy ===== *)
theory Sim_Response
  imports Sim_Fcp At_Tok
begin

text \<open>
  From the answer line of the modem to what the framework is told (\<open>usim_fcp_parser.c\<close> and the
  callers in \<open>ril/gsm/mtk-ril/ril_sim.c\<close>): hexadecimal strings, the old style answer made from the
  file control parameters of a USIM, and the number and length of the records of \<open>EF-DIR\<close>.
\<close>

section \<open>Hexadecimal strings\<close>

definition toByte :: "char \<Rightarrow> nat" where
  "toByte c =
     (let x = (of_char c :: nat)
      in if of_char (CHR ''0'') \<le> x \<and> x \<le> of_char (CHR ''9'') then x - of_char (CHR ''0'')
         else if of_char (CHR ''A'') \<le> x \<and> x \<le> of_char (CHR ''F'') then x - of_char (CHR ''A'') + 10
         else if of_char (CHR ''a'') \<le> x \<and> x \<le> of_char (CHR ''f'') then x - of_char (CHR ''a'') + 10
         else 0)"

text \<open>The character at an index of a C string; the one behind the last is zero.\<close>

definition c_char :: "string \<Rightarrow> nat \<Rightarrow> char" where
  "c_char s i = (if i < length s then s ! i else CHR 0x00)"

definition hex_octet :: "char \<Rightarrow> char \<Rightarrow> u8" where
  "hex_octet c d = push_bit 4 (word_of_nat (toByte c)) OR word_of_nat (toByte d)"

function hex_loop :: "string \<Rightarrow> nat \<Rightarrow> bytes \<Rightarrow> bytes res" where
  "hex_loop s i buffer =
     (if i < length s then
        (if i div 2 < length buffer then
           hex_loop s (i + 2) (buffer[i div 2 := hex_octet (c_char s i) (c_char s (i + 1))])
         else Inl OutOfBounds)
      else Inr buffer)"
  by pat_completeness auto
termination
  by (relation "measure (\<lambda>(s, i, buffer). length s - i)") auto

declare hex_loop.simps [simp del]

text \<open>\<open>malloc (length / 2)\<close>; the zeros stand for what the memory happens to hold.\<close>

definition hexStringToByteArray :: "string \<Rightarrow> bytes res" where
  "hexStringToByteArray s = hex_loop s 0 (replicate (length s div 2) 0)"

definition HEX_DIGITS :: string where
  "HEX_DIGITS = ''0123456789ABCDEF''"

definition byteArrayToHexString :: "bytes \<Rightarrow> string" where
  "byteArrayToHexString array =
     concat (map (\<lambda>b. [HEX_DIGITS ! unat (drop_bit 4 b AND 0x0F), HEX_DIGITS ! unat (b AND 0x0F)]) array)"

section \<open>The callers\<close>

definition IS_DF_ADF :: "u8 \<Rightarrow> bool" where "IS_DF_ADF x \<longleftrightarrow> 0x38 AND x = 0x38"
definition IS_TRANSPARENT_EF :: "u8 \<Rightarrow> bool" where "IS_TRANSPARENT_EF x \<longleftrightarrow> 0x07 AND x = 0x01"
definition IS_LINEAR_FIXED_EF :: "u8 \<Rightarrow> bool" where "IS_LINEAR_FIXED_EF x \<longleftrightarrow> 0x07 AND x = 0x02"
definition IS_CYCLIC_EF :: "u8 \<Rightarrow> bool" where "IS_CYCLIC_EF x \<longleftrightarrow> 0x07 AND x = 0x06"

definition GET_RESPONSE_EF_SIZE_BYTES :: nat where "GET_RESPONSE_EF_SIZE_BYTES = 15"

definition no_descriptor :: usim_file_descriptor where
  "no_descriptor = \<lparr>fd_fd = 0, fd_data_coding = 0, fd_rec_len = 0, fd_num_rec = 0\<rparr>"

definition query_descriptor :: "bytes \<Rightarrow> u16 \<Rightarrow> (bool \<times> usim_file_descriptor) res" where
  "query_descriptor fcp len =
     bindE (usim_fcp_query_tag fcp len FCP_FILE_DES_T (File_Descriptor no_descriptor)) (\<lambda>(ok, st).
       Inr (ok, case st of File_Descriptor d \<Rightarrow> d | _ \<Rightarrow> no_descriptor))"

definition query_size :: "bytes \<Rightarrow> u16 \<Rightarrow> (bool \<times> u16) res" where
  "query_size fcp len =
     bindE (usim_fcp_query_tag fcp len FCP_FILE_SIZE_T (File_Size 0)) (\<lambda>(ok, st).
       Inr (ok, case st of File_Size n \<Rightarrow> n | _ \<Rightarrow> 0))"

text \<open>The octets of the answer for an elementary file; the indices are the \<open>RESPONSE_DATA_\<close> ones.\<close>

definition ef_response :: "usim_file_descriptor \<Rightarrow> u16 \<Rightarrow> bytes" where
  "ef_response d n =
     (let r = (replicate GET_RESPONSE_EF_SIZE_BYTES 0)
                [6 := 4, 2 := ucast (drop_bit 8 (n AND 0xFF00)), 3 := ucast (n AND 0xFF)]
      in if IS_LINEAR_FIXED_EF (fd_fd d) then r[13 := 1, 14 := ucast (fd_rec_len d)]
         else if IS_TRANSPARENT_EF (fd_fd d) then r[13 := 0]
         else if IS_CYCLIC_EF (fd_fd d) then r[13 := 3, 14 := ucast (fd_rec_len d)]
         else r)"

text \<open>The new string, \<open>None\<close> for \<open>NULL\<close>.\<close>

definition makeSimRspFromUsimFcp :: "string \<Rightarrow> string option res" where
  "makeSimRspFromUsimFcp simResponse =
     bindE (hexStringToByteArray simResponse) (\<lambda>fcpByte.
       let fcpLen = word_of_nat (length fcpByte)
       in bindE (query_descriptor fcpByte fcpLen) (\<lambda>(ok, d).
            if \<not> ok then Inr None
            else
              bindE (if \<not> IS_DF_ADF (fd_fd d) then query_size fcpByte fcpLen else Inr (True, 0)) (\<lambda>(ok', n).
                if \<not> ok' then Inr None
                else Inr (Some (byteArrayToHexString
                       (if IS_DF_ADF (fd_fd d) then (replicate GET_RESPONSE_EF_SIZE_BYTES 0)[6 := 2]
                        else ef_response d n))))))"

text \<open>The number and the length of the records; the length is only set when the query succeeds.\<close>

definition readEfDirResponseParser :: "string \<Rightarrow> int \<Rightarrow> (int \<times> int) res" where
  "readEfDirResponseParser simResponse record_length =
     bindE (hexStringToByteArray simResponse) (\<lambda>fcpByte.
     bindE (query_descriptor fcpByte (word_of_nat (length fcpByte))) (\<lambda>(ok, d).
       Inr (if \<not> ok then (-1, record_length) else (uint (fd_num_rec d), uint (fd_rec_len d)))))"

text \<open>The response string of a \<open>+CRSM\<close> line, \<open>None\<close> for \<open>NULL\<close>.\<close>

definition queryEfDirReadLine :: "nat \<Rightarrow> string \<Rightarrow> string option" where
  "queryEfDirReadLine w line =
     (case at_tok_start (Some line) of
        (err, c0) \<Rightarrow>
          if err < 0 then None
          else
            (case at_tok_nextint w c0 of
               (err1, c1, _) \<Rightarrow>
                 if err1 < 0 then None
                 else
                   (case at_tok_nextint w c1 of
                      (err2, c2, _) \<Rightarrow>
                        if err2 < 0 then None
                        else if at_tok_hasmore c2 then
                          (case at_tok_nextstr c2 of (err3, _, out) \<Rightarrow> if err3 < 0 then None else out)
                        else None)))"

section \<open>Hexadecimal round trip\<close>

fun hex_pairs :: "string \<Rightarrow> bytes" where
  "hex_pairs (c # d # s) = hex_octet c d # hex_pairs s"
| "hex_pairs _ = []"

lemma hex_loop_pairs:
  assumes "length s = 2 * length buffer" and "j \<le> length buffer"
  shows "hex_loop s (2 * j) buffer = Inr (take j buffer @ hex_pairs (drop (2 * j) s))"
  using assms
proof (induction "length buffer - j" arbitrary: j buffer)
  case 0
  then show ?case by (subst hex_loop.simps) simp
next
  case (Suc k)
  then have j: "j < length buffer" by simp
  let ?b = "hex_octet (s ! (2 * j)) (s ! Suc (2 * j))"
  have l: "2 * j < length s" "Suc (2 * j) < length s" using Suc.prems(1) j by simp_all
  have d: "drop (2 * j) s = s ! (2 * j) # s ! Suc (2 * j) # drop (2 * Suc j) s"
    using l by (simp add: Cons_nth_drop_Suc)
  have "hex_loop s (2 * j) buffer = hex_loop s (2 * Suc j) (buffer[j := ?b])"
    using l j by (subst hex_loop.simps) (simp add: c_char_def)
  also have "\<dots> = Inr (take (Suc j) (buffer[j := ?b]) @ hex_pairs (drop (2 * Suc j) s))"
    using Suc.hyps(2) Suc.prems j by (intro Suc.hyps(1)) simp_all
  also have "take (Suc j) (buffer[j := ?b]) = take j buffer @ [?b]"
    using j by (simp add: take_Suc_conv_app_nth)
  finally show ?case unfolding d by simp
qed

lemma toByte_digit: "n < 16 \<Longrightarrow> toByte (HEX_DIGITS ! n) = n"
proof -
  assume "n < 16"
  then have "n \<in> {0, 1, 2, 3, 4, 5, 6, 7, 8, 9, 10, 11, 12, 13, 14, 15}"
    by (simp only: insert_iff empty_iff) presburger
  then show ?thesis by (auto simp: toByte_def HEX_DIGITS_def)
qed

lemma low_nibble: "x AND 0x0F = take_bit 4 (x :: u8)"
  by (simp add: take_bit_eq_mask mask_eq_exp_minus_1)

lemma nibbles: "push_bit 4 (take_bit 4 (drop_bit 4 b)) OR take_bit 4 b = (b :: u8)"
proof (rule bit_word_eqI)
  fix n
  assume "n < LENGTH(8)"
  then show "bit (push_bit 4 (take_bit 4 (drop_bit 4 b)) OR take_bit 4 b) n = bit b n"
    by (cases "n < 4") (auto simp: bit_simps)
qed

lemma take_bit_4_less: "unat (take_bit 4 (b :: u8)) < 16"
  using take_bit_nat_less_exp [of 4 "unat b"] by (simp add: unsigned_take_bit_eq)

lemma hex_octet_digits:
  "hex_octet (HEX_DIGITS ! unat (drop_bit 4 b AND 0x0F)) (HEX_DIGITS ! unat (b AND 0x0F)) = b"
  by (simp add: hex_octet_def low_nibble toByte_digit take_bit_4_less nibbles)

lemma hex_pairs_print: "hex_pairs (byteArrayToHexString xs) = xs"
  by (induction xs) (simp_all add: byteArrayToHexString_def hex_octet_digits)

lemma length_hex [simp]: "length (byteArrayToHexString xs) = 2 * length xs"
  by (induction xs) (simp_all add: byteArrayToHexString_def)

lemma hex_round_trip: "hexStringToByteArray (byteArrayToHexString xs) = Inr xs"
  using hex_loop_pairs [of "byteArrayToHexString xs" "replicate (length xs) 0" 0]
  by (simp add: hexStringToByteArray_def hex_pairs_print)

lemma hex_chars: "c \<in> set (byteArrayToHexString xs) \<Longrightarrow> c \<in> set HEX_DIGITS"
proof (induction xs)
  case Nil
  then show ?case by (simp add: byteArrayToHexString_def)
next
  case (Cons x xs)
  have "HEX_DIGITS ! unat (y AND 0x0F :: u8) \<in> set HEX_DIGITS" for y
    using take_bit_4_less [of y] by (intro nth_mem) (simp add: HEX_DIGITS_def low_nibble)
  with Cons show ?case by (auto simp: byteArrayToHexString_def)
qed

section \<open>Templates in hexadecimal\<close>

lemma template_length: "length (template objs) = length (tlvs objs) + 2"
  by (simp add: template_def)

lemma fcp_len_nonzero:
  assumes "good_template objs"
  shows "(word_of_nat (length (template objs)) :: u16) \<noteq> 0"
proof -
  have "unat (word_of_nat (length (template objs)) :: u16) = length (tlvs objs) + 2"
    using assms unfolding template_length by (intro unat_word_of_nat_small) (simp add: good_template_def)
  then show ?thesis by (auto simp: word_unat_eq_iff)
qed

definition descriptor_of :: "bytes \<Rightarrow> usim_file_descriptor" where
  "descriptor_of v =
     \<lparr>fd_fd = v ! 0, fd_data_coding = v ! 1,
      fd_rec_len = (if length v = 5 then be16 (v ! 2) (v ! 3) else 0),
      fd_num_rec = (if length v = 5 then v ! 4 else 0)\<rparr>"

lemma query_descriptor_template:
  assumes "good_template objs" and "map_of objs (fcp_tag_value FCP_FILE_DES_T) = Some v"
    and "length v = 2 \<or> length v = 5"
  shows "query_descriptor (template objs) (word_of_nat (length (template objs))) = Inr (True, descriptor_of v)"
  using query_file_descriptor [OF assms fcp_len_nonzero [OF assms(1)], of "[]"]
  by (simp add: query_descriptor_def descriptor_of_def)

lemma query_size_template:
  assumes "good_template objs"
    and "\<And>v. map_of objs (fcp_tag_value FCP_FILE_SIZE_T) = Some v \<Longrightarrow> length v = 2"
  shows "query_size (template objs) (word_of_nat (length (template objs))) =
    Inr (case map_of objs (fcp_tag_value FCP_FILE_SIZE_T) of
           None \<Rightarrow> (False, 0) | Some v \<Rightarrow> (True, be16 (v ! 0) (v ! 1)))"
  using query_file_size [OF assms(1) fcp_len_nonzero [OF assms(1)] assms(2), of "[]"]
  by (simp add: query_size_def split: option.splits)

lemma be16_parts:
  "ucast (drop_bit 8 (be16 a b AND 0xFF00)) = a" "ucast (be16 a b AND 0xFF) = b" "ucast (be16 a b) = b"
proof -
  have m: "(0xFF :: u16) = mask 8" "(0xFF00 :: u16) = push_bit 8 (mask 8)"
    by (simp_all add: mask_eq_exp_minus_1)
  show "ucast (drop_bit 8 (be16 a b AND 0xFF00)) = a"
    unfolding m by (rule bit_word_eqI) (auto simp: be16_def bit_simps dest: bit_imp_le_length)
  show "ucast (be16 a b AND 0xFF) = b"
    unfolding m by (rule bit_word_eqI) (auto simp: be16_def bit_simps)
  show "ucast (be16 a b) = b"
    by (rule bit_word_eqI) (auto simp: be16_def bit_simps)
qed

text \<open>The structure octet and the record length octet for each kind of elementary file.\<close>

definition ef_structure :: "u8 \<Rightarrow> bytes \<Rightarrow> u8 \<times> u8" where
  "ef_structure fd v =
     (let l = (if length v = 5 then v ! 3 else 0)
      in if fd AND 7 = 2 then (1, l) else if fd AND 7 = 6 then (3, l) else (0, 0))"

lemma response_updates:
  "[a0, a1, a2, a3, a4, a5, a6, a7, a8, a9, a10, a11, a12, a13, a14][6 := x, 2 := y, 3 := z] =
     [a0, a1, y, z, a4, a5, x, a7, a8, a9, a10, a11, a12, a13, a14]"
  "[a0, a1, a2, a3, a4, a5, a6, a7, a8, a9, a10, a11, a12, a13, a14][13 := x, 14 := y] =
     [a0, a1, a2, a3, a4, a5, a6, a7, a8, a9, a10, a11, a12, x, y]"
  "[a0, a1, a2, a3, a4, a5, a6, a7, a8, a9, a10, a11, a12, a13, a14][13 := x] =
     [a0, a1, a2, a3, a4, a5, a6, a7, a8, a9, a10, a11, a12, x, a14]"
  "[a0, a1, a2, a3, a4, a5, a6, a7, a8, a9, a10, a11, a12, a13, a14][6 := x] =
     [a0, a1, a2, a3, a4, a5, x, a7, a8, a9, a10, a11, a12, a13, a14]"
  by (simp_all add: eval_nat_numeral)

lemma empty_response:
  "replicate GET_RESPONSE_EF_SIZE_BYTES x = [x, x, x, x, x, x, x, x, x, x, x, x, x, x, x]"
  by (simp add: GET_RESPONSE_EF_SIZE_BYTES_def eval_nat_numeral)

section \<open>Properties\<close>

text \<open>C37. The answer the framework gets for a file of a USIM, made from the hexadecimal string of a well
  formed template: for an elementary file its size, the type and structure codes and, when it has
  records, the low octet of their length; for a directory the type alone; and \<open>NULL\<close> for an
  elementary file without a size.\<close>

theorem sim_response:
  assumes "good_template objs" and "map_of objs (fcp_tag_value FCP_FILE_DES_T) = Some v"
    and "length v = 2 \<or> length v = 5"
    and "\<And>w. map_of objs (fcp_tag_value FCP_FILE_SIZE_T) = Some w \<Longrightarrow> length w = 2"
  shows "makeSimRspFromUsimFcp (byteArrayToHexString (template objs)) = Inr
    (if v ! 0 AND 0x38 = 0x38 then Some (byteArrayToHexString [0, 0, 0, 0, 0, 0, 2, 0, 0, 0, 0, 0, 0, 0, 0])
     else case map_of objs (fcp_tag_value FCP_FILE_SIZE_T) of
       None \<Rightarrow> None
     | Some w \<Rightarrow> Some (byteArrayToHexString
         [0, 0, w ! 0, w ! 1, 0, 0, 4, 0, 0, 0, 0, 0, 0, fst (ef_structure (v ! 0) v), snd (ef_structure (v ! 0) v)]))"
proof -
  have df: "IS_DF_ADF (v ! 0) \<longleftrightarrow> v ! 0 AND 0x38 = 0x38" by (simp add: IS_DF_ADF_def and.commute)
  have fd: "fd_fd (descriptor_of v) = v ! 0"
    "ucast (fd_rec_len (descriptor_of v)) = (if length v = 5 then v ! 3 else 0)"
    by (simp_all add: descriptor_of_def be16_parts)
  have ef: "ef_response (descriptor_of v) (be16 a b) =
      [0, 0, a, b, 0, 0, 4, 0, 0, 0, 0, 0, 0, fst (ef_structure (v ! 0) v), snd (ef_structure (v ! 0) v)]" for a b
    unfolding ef_response_def empty_response Let_def be16_parts fd response_updates
    by (simp add: ef_structure_def Let_def IS_LINEAR_FIXED_EF_def IS_TRANSPARENT_EF_def IS_CYCLIC_EF_def
        and.commute [of 7])
  have r2: "(replicate GET_RESPONSE_EF_SIZE_BYTES (0 :: u8))[6 := 2] = [0, 0, 0, 0, 0, 0, 2, 0, 0, 0, 0, 0, 0, 0, 0]"
    by (simp only: empty_response response_updates)
  show ?thesis
    using query_descriptor_template [OF assms(1-3)] query_size_template [OF assms(1,4)]
    by (simp add: makeSimRspFromUsimFcp_def hex_round_trip Let_def fd(1) df ef r2 split: option.splits)
qed

theorem sim_response_witness:
  "makeSimRspFromUsimFcp (byteArrayToHexString (template linear_file)) =
     Inr (Some ''0000008C000004000000000000011C'')"
proof -
  have "byteArrayToHexString [0, 0, 0, 0x8C, 0, 0, 4, 0, 0, 0, 0, 0, 0, 1, 0x1C] =
      ''0000008C000004000000000000011C''"
    by code_simp
  then show ?thesis
    using sim_response [OF linear_file_good, of "[0x42, 0x21, 0x00, 0x1C, 0x05]"]
    by (simp add: linear_file_def ef_structure_def split: if_splits)
qed

text \<open>The records of \<open>EF-DIR\<close>: from the line \<open>+CRSM: sw1,sw2,"..."\<close> of the modem, with a well formed
  template of a file with records in hexadecimal, come the number of its records and their length.\<close>

theorem ef_dir_records:
  assumes "CHR '':'' \<notin> set prefix" and "32 \<le> w" and "valid_field (Int_Field sw1)" and "valid_field (Int_Field sw2)"
    and "good_template objs" and "map_of objs (fcp_tag_value FCP_FILE_DES_T) = Some v" and "length v = 5"
  shows "\<exists>rsp. queryEfDirReadLine w (prefix @ '': '' @ print_fields
      [Int_Field sw1, Int_Field sw2, Str_Field (byteArrayToHexString (template objs))]) = Some rsp \<and>
    readEfDirResponseParser rsp n = Inr (uint (v ! 4), uint (be16 (v ! 2) (v ! 3)))"
proof -
  let ?hex = "byteArrayToHexString (template objs)"
  let ?r2 = "print_fields [Int_Field sw2, Str_Field ?hex]" and ?r3 = "print_fields [Str_Field ?hex]"
  have quote: "CHR 0x22 \<notin> set ?hex" using hex_chars [of "CHR 0x22" "template objs"] by (auto simp: HEX_DIGITS_def)
  have start: "at_tok_start (Some (prefix @ '': '' @ print_fields [Int_Field sw1, Int_Field sw2, Str_Field ?hex])) =
      (0, Some (CHR '' '' # print_int sw1 @ CHR '','' # ?r2))"
    using dropWhile_sep [OF assms(1)] by (simp add: at_tok_start_def c_strchr_def)
  have i1: "at_tok_nextint w (Some (CHR '' '' # print_int sw1 @ CHR '','' # ?r2)) = (0, Some ?r2, Some sw1)"
    by (rule read_int [OF assms(3,2)]) (simp only: nextTok_space nextTok_int)
  have i2: "at_tok_nextint w (Some ?r2) = (0, Some ?r3, Some sw2)"
    by (rule read_int [OF assms(4,2)]) (simp only: print_fields.simps print_field.simps(1) nextTok_int)
  have s3: "at_tok_hasmore (Some ?r3)" "at_tok_nextstr (Some ?r3) = (0, Some [], Some ?hex)"
    using nextTok_str(2) [OF quote] by (simp_all add: at_tok_hasmore_def at_tok_nextstr_def)
  have "queryEfDirReadLine w (prefix @ '': '' @ print_fields
      [Int_Field sw1, Int_Field sw2, Str_Field ?hex]) = Some ?hex"
    unfolding queryEfDirReadLine_def start prod.case i1 i2 by (simp add: s3 del: print_fields.simps)
  moreover have "readEfDirResponseParser ?hex n = Inr (uint (v ! 4), uint (be16 (v ! 2) (v ! 3)))"
    using query_descriptor_template [OF assms(5,6)] assms(7)
    by (simp add: readEfDirResponseParser_def hex_round_trip descriptor_of_def)
  ultimately show ?thesis by blast
qed

theorem ef_dir_records_witness:
  "\<exists>rsp. queryEfDirReadLine 32 (''+CRSM'' @ '': '' @ print_fields
      [Int_Field 144, Int_Field 0, Str_Field (byteArrayToHexString (template linear_file))]) = Some rsp \<and>
    readEfDirResponseParser rsp 0 = Inr (5, 28)"
  using ef_dir_records [of "''+CRSM''" 32 144 0 linear_file "[0x42, 0x21, 0x00, 0x1C, 0x05]" 0] linear_file_good
  by (simp add: linear_file_def be16_def)

end
