(* ===== verification/At_Channel.thy ===== *)
theory At_Channel
  imports At_Tok
begin

text \<open>
  An AT channel of the radio interface layer (\<open>ril/gsm/mtk-ril/atchannels.c\<close>): what kind of line an
  answer of the modem is, the response a command collects, and writing to the channel.  One thread
  reads lines and dispatches each with \<open>processLine\<close>, under the mutex of the channel; another sends
  a command and waits on the condition variable, whose signals are counted.  What leaves the file is
  collected in order: unsolicited lines handed over, characters written, low power \<open>ioctl\<close>s, radio states,
  and the numbers of callbacks, acknowledgements and modem resets.  The kernel is a script of results.
  Memory allocation does not fail.
\<close>

section \<open>Data\<close>

datatype ATCommandType = NO_RESULT | NUMERIC | SINGLELINE | MULTILINE | RAW

text \<open>\<open>rsp_intermediates\<close> is the linked list \<open>p_intermediates\<close>, its head first.\<close>

record at_response =
  rsp_success :: bool
  rsp_ack :: bool
  rsp_finalResponse :: "string option"
  rsp_intermediates :: "string list"

text \<open>\<open>Read_Data []\<close> is the end of the file.  A read or write moves at most what it is asked to.\<close>

datatype at_read = Read_Data string | Read_Failed | Read_Interrupted

datatype at_write = Written nat | Write_Failed | Write_Interrupted

record at_channel =
  ac_id :: nat
  ac_fd :: int
  ac_tid_reader :: nat
  ac_tid_myProxy :: nat
  ac_unsolHandler :: bool
  ac_readCount :: nat
  ac_type :: ATCommandType
  ac_responsePrefix :: "string option"
  ac_smsPDU :: "string option"
  ac_p_response :: "at_response option"
  ac_readerClosed :: bool
  ac_ATBuffer :: string
  ac_ATBufferCur :: nat
  ac_restart_locked :: bool
  ac_signals :: nat
  ac_unsolicited :: "(string \<times> string option) list"
  ac_closed_calls :: nat
  ac_acks :: nat
  ac_efun :: "int list"
  ac_md_resets :: nat
  ac_timeout_calls :: nat
  ac_radio_states :: "(nat \<times> bool) list"
  ac_reads :: "at_read list"
  ac_writes :: "at_write list"
  ac_sent :: string

text \<open>
  The product, and what other files hold or answer: \<open>on_reader_closed\<close> and \<open>on_timeout\<close> tell whether the
  callbacks are set, \<open>internal_load\<close> is \<open>isInternalLoad () == 1 || s_isUserLoad != 1\<close>, \<open>get3GSIM\<close> is
  \<open>RIL_get3GSIM ()\<close>, \<open>getSimCount\<close> is \<open>getSimCount ()\<close>.
\<close>

record ril_env =
  SIM_COUNT :: nat
  channel_64 :: bool
  ims_channel :: bool
  isNumericSet :: int
  s_md_off :: int
  on_reader_closed :: bool
  on_timeout :: bool
  internal_load :: bool
  s_at_timeoutMsec :: int
  chip_test_mode :: bool
  get3GSIM :: int
  getSimCount :: nat

definition RIL_URC :: nat where "RIL_URC = 0"

definition RIL_CHANNEL_OFFSET :: "ril_env \<Rightarrow> nat" where
  "RIL_CHANNEL_OFFSET env = 6 + (if channel_64 env then 5 else 0) + (if ims_channel env then 1 else 0)"

definition MAX_AT_RESPONSE :: nat where "MAX_AT_RESPONSE = 8 * 1024"

definition AT_ERROR_GENERIC :: int where "AT_ERROR_GENERIC = -1"
definition AT_ERROR_COMMAND_PENDING :: int where "AT_ERROR_COMMAND_PENDING = -2"
definition AT_ERROR_CHANNEL_CLOSED :: int where "AT_ERROR_CHANNEL_CLOSED = -3"
definition AT_ERROR_TIMEOUT :: int where "AT_ERROR_TIMEOUT = -4"
definition AT_ERROR_INVALID_THREAD :: int where "AT_ERROR_INVALID_THREAD = -5"
definition AT_ERROR_INVALID_RESPONSE :: int where "AT_ERROR_INVALID_RESPONSE = -6"
definition AT_ERROR_RADIO_UNAVAILABLE :: int where "AT_ERROR_RADIO_UNAVAILABLE = -7"

section \<open>Kinds of lines\<close>

fun strStartsWith :: "string \<Rightarrow> string \<Rightarrow> bool" where
  "strStartsWith line [] \<longleftrightarrow> True"
| "strStartsWith [] (y # prefix) \<longleftrightarrow> False"
| "strStartsWith (x # line) (y # prefix) \<longleftrightarrow> (if x \<noteq> y then False else strStartsWith line prefix)"

definition s_finalResponsesError :: "string list" where
  "s_finalResponsesError =
     [''ERROR'', ''+CMS ERROR:'', ''+CME ERROR:'', ''NO CARRIER'', ''NO ANSWER'', ''NO DIALTONE'', ''+C2K ERROR:'']"

definition isFinalResponseError :: "string \<Rightarrow> bool" where
  "isFinalResponseError line \<longleftrightarrow> list_ex (strStartsWith line) s_finalResponsesError"

definition isFinalResponseErrorEx :: "ril_env \<Rightarrow> string \<Rightarrow> at_channel \<Rightarrow> bool" where
  "isFinalResponseErrorEx env line ch \<longleftrightarrow>
     (if list_ex (\<lambda>j. ac_id ch = RIL_URC + j * RIL_CHANNEL_OFFSET env \<and> strStartsWith line ''NO CARRIER'')
           [0..<SIM_COUNT env]
      then False
      else list_ex (strStartsWith line) s_finalResponsesError)"

definition s_finalResponsesSuccess :: "string list" where
  "s_finalResponsesSuccess = [''OK'', ''CONNECT'']"

definition isFinalResponseSuccess :: "string \<Rightarrow> bool" where
  "isFinalResponseSuccess line \<longleftrightarrow> list_ex (strStartsWith line) s_finalResponsesSuccess"

definition isFinalResponse :: "string \<Rightarrow> bool" where
  "isFinalResponse line \<longleftrightarrow> isFinalResponseSuccess line \<or> isFinalResponseError line"

text \<open>\<open>RIL_VERSION\<close> is 15.\<close>

definition s_reqAck :: "string list" where "s_reqAck = [''ACK'']"

definition isRequestAcked :: "string \<Rightarrow> bool" where
  "isRequestAcked line \<longleftrightarrow> list_ex (strStartsWith line) s_reqAck"

definition s_smsUnsoliciteds :: "string list" where
  "s_smsUnsoliciteds = [''+CMT:'', ''+CDS:'', ''+CBM:'', ''+EIMSCMT:'', ''+EIMSCDS:'', ''+C2KCMT:'']"

definition isSMSUnsolicited :: "string \<Rightarrow> bool" where
  "isSMSUnsolicited line \<longleftrightarrow> list_ex (strStartsWith line) s_smsUnsoliciteds"

definition s_IntermediatePattern :: "string list" where "s_IntermediatePattern = [''> '']"

definition isIntermediatePattern :: "string \<Rightarrow> bool" where
  "isIntermediatePattern line \<longleftrightarrow> line \<in> set s_IntermediatePattern"

definition s_finalResponsesSuccessInNumeric :: "string list" where
  "s_finalResponsesSuccessInNumeric = [''0'', ''1'']"

definition s_finalResponsesErrorInNumeric :: "string list" where
  "s_finalResponsesErrorInNumeric =
     [''2'', ''3'', ''4'', ''6'', ''7'', ''8'', ''+CMS ERROR:'', ''+CME ERROR:'', ''+C2K ERROR:'']"

definition isFinalResponseSuccessInNumeric :: "string \<Rightarrow> bool" where
  "isFinalResponseSuccessInNumeric line \<longleftrightarrow> line \<in> set s_finalResponsesSuccessInNumeric"

text \<open>\<open>strncmp\<close> with the length of the pattern.\<close>

definition isFinalResponseErrorInNumeric :: "string \<Rightarrow> bool" where
  "isFinalResponseErrorInNumeric line \<longleftrightarrow> list_ex (strStartsWith line) s_finalResponsesErrorInNumeric"

section \<open>Writing\<close>

text \<open>\<open>while (cur < len)\<close> with its retry: what is left to write, the script, what was sent.\<close>

fun write_loop :: "string \<Rightarrow> at_write list \<Rightarrow> string \<Rightarrow> (int \<times> at_write list \<times> string) res" where
  "write_loop [] ws sent = Inr (0, ws, sent)"
| "write_loop (x # s) [] sent = Inl Hang"
| "write_loop (x # s) (Write_Interrupted # ws) sent = write_loop (x # s) ws sent"
| "write_loop (x # s) (Write_Failed # ws) sent = Inr (AT_ERROR_GENERIC, ws, sent)"
| "write_loop (x # s) (Written n # ws) sent = write_loop (drop n (x # s)) ws (sent @ take n (x # s))"

text \<open>The loop of the final \<open>^Z\<close>, which also repeats a write of nothing.\<close>

fun write_one :: "char \<Rightarrow> at_write list \<Rightarrow> string \<Rightarrow> (int \<times> at_write list \<times> string) res" where
  "write_one c [] sent = Inl Hang"
| "write_one c (Write_Interrupted # ws) sent = write_one c ws sent"
| "write_one c (Write_Failed # ws) sent = Inr (AT_ERROR_GENERIC, ws, sent)"
| "write_one c (Written 0 # ws) sent = write_one c ws sent"
| "write_one c (Written (Suc n) # ws) sent = Inr (0, ws, sent @ [c])"

definition writeline :: "string \<Rightarrow> at_channel \<Rightarrow> (int \<times> at_channel) res" where
  "writeline s ch =
     (if ac_fd ch < 0 \<or> ac_readerClosed ch then Inr (AT_ERROR_CHANNEL_CLOSED, ch)
      else
        bindE (write_loop (s @ [CHR 0x0D]) (ac_writes ch) (ac_sent ch)) (\<lambda>(err, ws, sent).
          Inr (err, ch\<lparr>ac_writes := ws, ac_sent := sent\<rparr>)))"

definition writeCtrlZ :: "string \<Rightarrow> at_channel \<Rightarrow> (int \<times> at_channel) res" where
  "writeCtrlZ s ch =
     (if ac_fd ch < 0 \<or> ac_readerClosed ch then Inr (AT_ERROR_CHANNEL_CLOSED, ch)
      else
        bindE (write_loop s (ac_writes ch) (ac_sent ch)) (\<lambda>(err, ws, sent).
          if err < 0 then Inr (err, ch\<lparr>ac_writes := ws, ac_sent := sent\<rparr>)
          else
            bindE (write_one (CHR 0x1A) ws sent) (\<lambda>(err', ws', sent').
              Inr (err', ch\<lparr>ac_writes := ws', ac_sent := sent'\<rparr>))))"

section \<open>Dispatching a line\<close>

text \<open>A change of the pending response; the callers have checked that there is one.\<close>

definition on_response :: "(at_response \<Rightarrow> at_response) \<Rightarrow> at_channel \<Rightarrow> at_channel" where
  "on_response f ch = ch\<lparr>ac_p_response := map_option f (ac_p_response ch)\<rparr>"

definition addIntermediate :: "string \<Rightarrow> at_channel \<Rightarrow> at_channel" where
  "addIntermediate line = on_response (\<lambda>r. r\<lparr>rsp_intermediates := line # rsp_intermediates r\<rparr>)"

definition handleFinalResponse :: "string \<Rightarrow> at_channel \<Rightarrow> at_channel" where
  "handleFinalResponse line ch =
     (on_response (\<lambda>r. r\<lparr>rsp_finalResponse := Some line\<rparr>) ch)\<lparr>ac_signals := Suc (ac_signals ch)\<rparr>"

definition final_response :: "bool \<Rightarrow> string \<Rightarrow> at_channel \<Rightarrow> at_channel" where
  "final_response ok line ch = handleFinalResponse line (on_response (\<lambda>r. r\<lparr>rsp_success := ok\<rparr>) ch)"

definition handleRequestAck :: "at_channel \<Rightarrow> at_channel" where
  "handleRequestAck ch = ch\<lparr>ac_signals := Suc (ac_signals ch)\<rparr>"

definition handleUnsolicited :: "string \<Rightarrow> at_channel \<Rightarrow> at_channel" where
  "handleUnsolicited line ch =
     (if ac_unsolHandler ch then ch\<lparr>ac_unsolicited := ac_unsolicited ch @ [(line, None)]\<rparr> else ch)"

definition has_prefix :: "string \<Rightarrow> at_channel \<Rightarrow> bool res" where
  "has_prefix line ch =
     (case ac_responsePrefix ch of None \<Rightarrow> Inl NullDeref | Some p \<Rightarrow> Inr (strStartsWith line p))"

definition isdigit0 :: "string \<Rightarrow> bool" where
  "isdigit0 line \<longleftrightarrow> line \<noteq> [] \<and> is_digit 10 (hd line)"

text \<open>The \<open>switch\<close>: is the line an intermediate result of the command?\<close>

definition intermediate_line :: "ril_env \<Rightarrow> string \<Rightarrow> at_response \<Rightarrow> at_channel \<Rightarrow> bool res" where
  "intermediate_line env line r ch =
     (case ac_type ch of
        NO_RESULT \<Rightarrow> Inr False
      | NUMERIC \<Rightarrow> Inr (rsp_intermediates r = [] \<and> isdigit0 line)
      | SINGLELINE \<Rightarrow> if rsp_intermediates r = [] then has_prefix line ch else Inr False
      | MULTILINE \<Rightarrow> has_prefix line ch
      | RAW \<Rightarrow>
          Inr (if isNumericSet env = 1
               then \<not> isFinalResponseSuccessInNumeric line \<and> \<not> isFinalResponseErrorInNumeric line
               else \<not> isFinalResponseSuccess line \<and> \<not> isFinalResponseErrorEx env line ch \<and>
                    \<not> isIntermediatePattern line))"

text \<open>
  The chain of conditions for a line that is not an intermediate result.  \<open>smsPDU\<close> is a local copy:
  the field of the channel keeps its value after the PDU was written.
\<close>

definition other_line :: "ril_env \<Rightarrow> string \<Rightarrow> at_channel \<Rightarrow> at_channel res" where
  "other_line env line ch =
     (if isFinalResponseSuccess line then Inr (final_response True line ch)
      else if isFinalResponseErrorEx env line ch then Inr (final_response False line ch)
      else if ac_smsPDU ch \<noteq> None \<and> line = ''> '' then
        bindE (writeCtrlZ (the (ac_smsPDU ch)) ch) (\<lambda>(err, ch'). Inr ch')
      else if isIntermediatePattern line then Inr (final_response True line ch)
      else if isNumericSet env = 1 then
        (if isFinalResponseSuccessInNumeric line then Inr (final_response True line ch)
         else if isFinalResponseErrorInNumeric line then Inr (final_response False line ch)
         else Inr ch)
      else Inr (handleUnsolicited line ch))"

definition processLine :: "ril_env \<Rightarrow> string \<Rightarrow> at_channel \<Rightarrow> at_channel res" where
  "processLine env line ch =
     (case ac_p_response ch of
        None \<Rightarrow> Inr (handleUnsolicited line ch)
      | Some r \<Rightarrow>
          if isRequestAcked line then
            Inr (handleRequestAck (on_response (\<lambda>r. r\<lparr>rsp_ack := True\<rparr>) ch))
          else
            bindE (intermediate_line env line r ch) (\<lambda>i.
              if i then Inr (addIntermediate line ch) else other_line env line ch))"

section \<open>Opening and closing\<close>

text \<open>What \<open>initRILChannels\<close> makes of the channel \<open>i\<close>; nothing has happened on it.\<close>

definition init_ril_channel :: "nat \<Rightarrow> at_channel" where
  "init_ril_channel i =
     \<lparr>ac_id = i, ac_fd = -1, ac_tid_reader = 0, ac_tid_myProxy = 0, ac_unsolHandler = False,
      ac_readCount = 0, ac_type = NO_RESULT, ac_responsePrefix = None, ac_smsPDU = None,
      ac_p_response = None, ac_readerClosed = False, ac_ATBuffer = replicate (MAX_AT_RESPONSE + 1) (CHR 0x00),
      ac_ATBufferCur = 0, ac_restart_locked = False, ac_signals = 0, ac_unsolicited = [],
      ac_closed_calls = 0, ac_acks = 0, ac_efun = [], ac_md_resets = 0, ac_timeout_calls = 0,
      ac_radio_states = [], ac_reads = [], ac_writes = [], ac_sent = []\<rparr>"

text \<open>\<open>ret\<close> and \<open>tid\<close> are what \<open>pthread_create\<close> returns and stores.\<close>

definition at_open :: "bool \<Rightarrow> int \<Rightarrow> nat \<Rightarrow> at_channel \<Rightarrow> int \<times> at_channel" where
  "at_open h ret tid ch =
     (let ch1 = ch\<lparr>ac_unsolHandler := h, ac_readerClosed := False, ac_responsePrefix := None,
                   ac_smsPDU := None, ac_p_response := None, ac_tid_reader := tid\<rparr>
      in if ret < 0 then (-1, ch1) else (0, ch1))"

definition at_close :: "at_channel \<Rightarrow> at_channel" where
  "at_close ch = ch\<lparr>ac_fd := -1, ac_readerClosed := True, ac_signals := Suc (ac_signals ch)\<rparr>"

definition onReaderClosed :: "ril_env \<Rightarrow> at_channel \<Rightarrow> at_channel" where
  "onReaderClosed env ch =
     (if on_reader_closed env \<and> \<not> ac_readerClosed ch then
        ch\<lparr>ac_readerClosed := True, ac_signals := Suc (ac_signals ch),
           ac_closed_calls := Suc (ac_closed_calls ch)\<rparr>
      else ch)"

definition at_response_new :: at_response where
  "at_response_new = \<lparr>rsp_success = False, rsp_ack = False, rsp_finalResponse = None, rsp_intermediates = []\<rparr>"

definition clearPendingCommand :: "at_channel \<Rightarrow> at_channel" where
  "clearPendingCommand ch = ch\<lparr>ac_p_response := None, ac_responsePrefix := None, ac_smsPDU := None\<rparr>"

text \<open>The loop of \<open>reverseIntermediates\<close>: \<open>pcur\<close> and the list built so far.\<close>

fun reverse_loop :: "string list \<Rightarrow> string list \<Rightarrow> string list" where
  "reverse_loop [] built = built"
| "reverse_loop (x # pcur) built = reverse_loop pcur (x # built)"

definition reverseIntermediates :: "at_response \<Rightarrow> at_response" where
  "reverseIntermediates r = r\<lparr>rsp_intermediates := reverse_loop (rsp_intermediates r) []\<rparr>"

text \<open>\<open>isATCmdRspErr\<close>; a missing response is only looked at when \<open>err\<close> is not negative.\<close>

definition isATCmdRspErr :: "int \<Rightarrow> at_response option \<Rightarrow> bool res" where
  "isATCmdRspErr err p_response =
     (if err < 0 then Inr True
      else case p_response of None \<Rightarrow> Inl NullDeref | Some r \<Rightarrow> Inr (\<not> rsp_success r))"

definition CME_ERROR_NON_CME :: int where "CME_ERROR_NON_CME = -1"
definition CME_SUCCESS :: int where "CME_SUCCESS = 0"
definition CME_UNKNOWN :: int where "CME_UNKNOWN = 100"

text \<open>\<open>w\<close> is the width of a \<open>long\<close>, for \<open>strtol\<close>.\<close>

definition at_get_cme_error :: "nat \<Rightarrow> at_response option \<Rightarrow> int" where
  "at_get_cme_error w p_response =
     (case p_response of
        None \<Rightarrow> CME_ERROR_NON_CME
      | Some r \<Rightarrow>
          if rsp_success r then CME_SUCCESS
          else
            (case rsp_finalResponse r of
               None \<Rightarrow> CME_ERROR_NON_CME
             | Some line \<Rightarrow>
                 if strStartsWith line ''ERROR'' then CME_UNKNOWN
                 else if \<not> strStartsWith line ''+CME ERROR:'' then CME_ERROR_NON_CME
                 else
                   (case at_tok_start (Some line) of
                      (err, cur) \<Rightarrow>
                        if err < 0 then CME_ERROR_NON_CME
                        else
                          (case at_tok_nextint w cur of
                             (err', cur', ret) \<Rightarrow> if err' < 0 then CME_ERROR_NON_CME else the ret))))"

end
