(* ===== verification/At_Reader.thy ===== *)
theory At_Reader
  imports At_Channel
begin

text \<open>
  Reading lines from an AT channel: \<open>readline\<close> on the buffer \<open>ATBuffer\<close> of the channel and the body of
  \<open>readerLoop\<close>.  The pointers are indices into the buffer; every access is checked against its length,
  \<open>MAX_AT_RESPONSE + 1\<close>.  The second half gives a function on the characters held that it refines,
  and shows that the lines of the modem come out whatever the pieces they arrive in.
\<close>

section \<open>The C functions\<close>

definition is_newline :: "char \<Rightarrow> bool" where
  "is_newline c \<longleftrightarrow> c = CHR 0x0D \<or> c = CHR 0x0A"

abbreviation NUL :: char where "NUL \<equiv> CHR 0x00"

text \<open>\<open>while (*cur == '\r' || *cur == '\n') cur++;\<close>\<close>

function skip_newlines :: "string \<Rightarrow> nat \<Rightarrow> nat res" where
  "skip_newlines buf cur =
     bindE (array_get buf cur) (\<lambda>c. if is_newline c then skip_newlines buf (Suc cur) else Inr cur)"
  by pat_completeness auto
termination
  by (relation "measure (\<lambda>(buf, cur). length buf - cur)") (auto simp: array_get_def split: if_splits)

declare skip_newlines.simps [simp del]

text \<open>The scan of \<open>findNextEOL\<close>.\<close>

function find_newline :: "string \<Rightarrow> nat \<Rightarrow> nat option res" where
  "find_newline buf cur =
     bindE (array_get buf cur) (\<lambda>c.
       if c \<noteq> NUL \<and> c \<noteq> CHR 0x0D \<and> c \<noteq> CHR 0x0A then find_newline buf (Suc cur)
       else Inr (if c = NUL then None else Some cur))"
  by pat_completeness auto
termination
  by (relation "measure (\<lambda>(buf, cur). length buf - cur)") (auto simp: array_get_def split: if_splits)

declare find_newline.simps [simp del]

text \<open>The three characters are looked at one after the other, as \<open>&&\<close> does.\<close>

definition is_prompt_at :: "string \<Rightarrow> nat \<Rightarrow> bool res" where
  "is_prompt_at buf cur =
     bindE (array_get buf cur) (\<lambda>c0.
       if c0 \<noteq> CHR ''>'' then Inr False
       else bindE (array_get buf (cur + 1)) (\<lambda>c1.
         if c1 \<noteq> CHR '' '' then Inr False
         else bindE (array_get buf (cur + 2)) (\<lambda>c2. Inr (c2 = NUL))))"

definition findNextEOL :: "string \<Rightarrow> nat \<Rightarrow> nat option res" where
  "findNextEOL buf cur =
     bindE (is_prompt_at buf cur) (\<lambda>p. if p then Inr (Some (cur + 2)) else find_newline buf cur)"

text \<open>\<open>strlen\<close>.\<close>

function str_len :: "string \<Rightarrow> nat \<Rightarrow> nat res" where
  "str_len buf cur =
     bindE (array_get buf cur) (\<lambda>c. if c = NUL then Inr 0 else bindE (str_len buf (Suc cur)) (\<lambda>n. Inr (Suc n)))"
  by pat_completeness auto
termination
  by (relation "measure (\<lambda>(buf, cur). length buf - cur)") (auto simp: array_get_def split: if_splits)

declare str_len.simps [simp del]

definition array_set :: "'a list \<Rightarrow> nat \<Rightarrow> 'a \<Rightarrow> 'a list res" where
  "array_set xs i x = (if i < length xs then Inr (xs[i := x]) else Inl OutOfBounds)"

definition copy_to :: "'a list \<Rightarrow> nat \<Rightarrow> 'a list \<Rightarrow> 'a list res" where
  "copy_to dst off src = (if off + length src \<le> length dst then Inr (blit dst off src) else Inl OutOfBounds)"

text \<open>
  \<open>do count = read (fd, p, n); while (count < 0 && errno == EINTR)\<close>: the data, \<open>None\<close> for an error;
  what a read does not take is left for the next one.
\<close>

fun read_retry :: "nat \<Rightarrow> at_read list \<Rightarrow> (string option \<times> at_read list) res" where
  "read_retry n [] = Inl Hang"
| "read_retry n (Read_Interrupted # rs) = read_retry n rs"
| "read_retry n (Read_Failed # rs) = Inr (None, rs)"
| "read_retry n (Read_Data s # rs) =
     Inr (Some (take n s), if length s > n then Read_Data (drop n s) # rs else rs)"

fun reads_size :: "at_read list \<Rightarrow> nat" where
  "reads_size [] = 0"
| "reads_size (Read_Data s # rs) = Suc (length s) + reads_size rs"
| "reads_size (_ # rs) = Suc (reads_size rs)"

lemma read_retry_smaller:
  "read_retry n rs = Inr (d, rs') \<Longrightarrow> 0 < n \<Longrightarrow> reads_size rs' < reads_size rs"
  by (induction n rs rule: read_retry.induct) (auto split: if_splits)

text \<open>The buffer is thrown away when it is full.\<close>

definition make_room :: "string \<Rightarrow> nat \<Rightarrow> nat \<Rightarrow> (string \<times> nat \<times> nat) res" where
  "make_room buf cur p_read =
     (if p_read = MAX_AT_RESPONSE then bindE (array_set buf 0 NUL) (\<lambda>buf'. Inr (buf', 0, 0))
      else Inr (buf, cur, p_read))"

text \<open>
  \<open>while (p_eol == NULL)\<close>: the buffer, \<open>ATBufferCur\<close>, \<open>p_eol\<close> (\<open>None\<close> when \<open>readline\<close> returns \<open>NULL\<close>),
  the characters counted in \<open>readCount\<close> and the script.  A \<open>p_read\<close> behind the limit would make the
  size of the read negative.
\<close>

function read_loop ::
  "string \<Rightarrow> nat \<Rightarrow> nat \<Rightarrow> nat \<Rightarrow> at_read list \<Rightarrow> (string \<times> nat \<times> nat option \<times> nat \<times> at_read list) res" where
  "read_loop buf0 cur0 p_read0 n rs =
     bindE (make_room buf0 cur0 p_read0) (\<lambda>(buf, cur, p_read).
       if MAX_AT_RESPONSE \<le> p_read then Inl OutOfBounds
       else
         bindE (read_retry (MAX_AT_RESPONSE - p_read) rs) (\<lambda>(d, rs').
           case d of
             None \<Rightarrow> Inr (buf, cur, None, n, rs')
           | Some s \<Rightarrow>
               if s = [] then Inr (buf, cur, None, n, rs')
               else
                 bindE (copy_to buf p_read s) (\<lambda>buf1.
                 bindE (array_set buf1 (p_read + length s) NUL) (\<lambda>buf2.
                 bindE (skip_newlines buf2 cur) (\<lambda>cur'.
                 bindE (findNextEOL buf2 cur') (\<lambda>p_eol.
                   case p_eol of
                     Some e \<Rightarrow> Inr (buf2, cur', Some e, n + length s, rs')
                   | None \<Rightarrow> read_loop buf2 cur' (p_read + length s) (n + length s) rs'))))))"
  by pat_completeness auto
termination
  by (relation "measure (\<lambda>(buf, cur, p, n, rs). reads_size rs)") (auto simp: read_retry_smaller res)

declare read_loop.simps [simp del]

text \<open>The part before the loop: the buffer, \<open>ATBufferCur\<close>, \<open>p_read\<close> and \<open>p_eol\<close>.\<close>

definition readline_start :: "string \<Rightarrow> nat \<Rightarrow> (string \<times> nat \<times> nat \<times> nat option) res" where
  "readline_start buf cur =
     bindE (array_get buf cur) (\<lambda>c.
       if c = NUL then bindE (array_set buf 0 NUL) (\<lambda>buf'. Inr (buf', 0, 0, None))
       else
         bindE (skip_newlines buf cur) (\<lambda>cur'.
         bindE (findNextEOL buf cur') (\<lambda>p_eol.
           case p_eol of
             Some e \<Rightarrow> Inr (buf, cur', 0, Some e)
           | None \<Rightarrow>
               bindE (str_len buf cur') (\<lambda>len.
               bindE (copy_to buf 0 (take (len + 1) (drop cur' buf))) (\<lambda>buf'.
                 Inr (buf', 0, len, None))))))"

text \<open>
  The part behind it: the line, which ends where \<open>p_eol\<close> points, and the new position.  After a prompt
  the character at that position is set to zero.
\<close>

definition readline_end :: "string \<Rightarrow> nat \<Rightarrow> nat \<Rightarrow> (string \<times> string \<times> nat) res" where
  "readline_end buf ret p_eol =
     bindE (array_set buf p_eol NUL) (\<lambda>buf1.
     bindE (is_prompt_at buf1 ret) (\<lambda>p.
       if p then
         bindE (array_set buf1 (p_eol + 1) NUL) (\<lambda>buf2.
           Inr (take (p_eol - ret) (drop ret buf1), buf2, p_eol + 1))
       else Inr (take (p_eol - ret) (drop ret buf1), buf1, p_eol + 1)))"

definition readline :: "at_channel \<Rightarrow> (string option \<times> at_channel) res" where
  "readline ch =
     bindE (readline_start (ac_ATBuffer ch) (ac_ATBufferCur ch)) (\<lambda>(buf, cur, p_read, p_eol).
     bindE (case p_eol of
              Some e \<Rightarrow> Inr (buf, cur, Some e, ac_readCount ch, ac_reads ch)
            | None \<Rightarrow> read_loop buf cur p_read (ac_readCount ch) (ac_reads ch))
       (\<lambda>(buf', cur', p_eol', count, rs).
          let ch' = ch\<lparr>ac_ATBuffer := buf', ac_ATBufferCur := cur', ac_readCount := count, ac_reads := rs\<rparr>
          in case p_eol' of
               None \<Rightarrow> Inr (None, ch')
             | Some e \<Rightarrow>
                 bindE (readline_end buf' cur' e) (\<lambda>(line, buf'', cur'').
                   Inr (Some line, ch'\<lparr>ac_ATBuffer := buf'', ac_ATBufferCur := cur''\<rparr>))))"

text \<open>One round of \<open>readerLoop\<close>; \<open>False\<close> when the loop is left and the thread ends.\<close>

definition reader_round :: "ril_env \<Rightarrow> at_channel \<Rightarrow> (bool \<times> at_channel) res" where
  "reader_round env ch =
     bindE (readline ch) (\<lambda>(line, ch1).
       case line of
         None \<Rightarrow> Inr (False, onReaderClosed env ch1)
       | Some l1 \<Rightarrow>
           if isSMSUnsolicited l1 then
             bindE (readline ch1) (\<lambda>(line2, ch2).
               case line2 of
                 None \<Rightarrow> Inr (False, onReaderClosed env ch2)
               | Some l2 \<Rightarrow>
                   Inr (True, if ac_unsolHandler ch2
                              then ch2\<lparr>ac_unsolicited := ac_unsolicited ch2 @ [(l1, Some l2)]\<rparr> else ch2))
           else bindE (processLine env l1 ch1) (\<lambda>ch2. Inr (True, ch2)))"

section \<open>What the buffer holds\<close>

text \<open>The characters from \<open>ATBufferCur\<close> up to the terminating zero, which is at index \<open>e\<close>.\<close>

definition text_at :: "string \<Rightarrow> nat \<Rightarrow> string \<Rightarrow> nat \<Rightarrow> bool" where
  "text_at buf cur h e \<longleftrightarrow>
     length buf = Suc MAX_AT_RESPONSE \<and> NUL \<notin> set h \<and> e = cur + length h \<and> e \<le> MAX_AT_RESPONSE \<and>
     (\<exists>pre post. buf = pre @ h @ NUL # post \<and> length pre = cur)"

lemma text_atE:
  assumes "text_at buf cur h e"
  obtains pre post where "buf = pre @ h @ NUL # post" and "length pre = cur" and "e = cur + length h"
    and "NUL \<notin> set h" and "length buf = Suc MAX_AT_RESPONSE" and "e \<le> MAX_AT_RESPONSE"
  using assms unfolding text_at_def by blast

lemma is_newline_NUL [simp]: "\<not> is_newline NUL"
  by (simp add: is_newline_def)

lemma array_get_pre: "array_get (pre @ x # post) (length pre) = Inr x"
  by (simp add: array_get_def)

lemma skip_newlines_list:
  "skip_newlines (pre @ h @ NUL # post) (length pre) = Inr (length pre + length (takeWhile is_newline h))"
proof (induction h arbitrary: pre)
  case Nil
  then show ?case by (subst skip_newlines.simps) (simp add: array_get_pre)
next
  case (Cons c h)
  show ?case
  proof (cases "is_newline c")
    case True
    with Cons [of "pre @ [c]"] show ?thesis by (subst skip_newlines.simps) (simp add: array_get_pre)
  next
    case False
    then show ?thesis by (subst skip_newlines.simps) (simp add: array_get_pre)
  qed
qed

lemma find_newline_list:
  "NUL \<notin> set h \<Longrightarrow> find_newline (pre @ h @ NUL # post) (length pre) =
     Inr (if list_ex is_newline h then Some (length pre + length (takeWhile (\<lambda>c. \<not> is_newline c) h)) else None)"
proof (induction h arbitrary: pre)
  case Nil
  then show ?case by (subst find_newline.simps) (simp add: array_get_pre)
next
  case (Cons c h)
  show ?case
  proof (cases "is_newline c")
    case True
    with Cons.prems show ?thesis
      by (subst find_newline.simps) (auto simp: array_get_pre is_newline_def)
  next
    case False
    then have c: "c \<noteq> CHR 0x0D" "c \<noteq> CHR 0x0A" by (auto simp: is_newline_def)
    show ?thesis
      using Cons.IH [of "pre @ [c]"] Cons.prems False c
      by (subst find_newline.simps) (auto simp: array_get_pre)
  qed
qed

lemma str_len_list: "NUL \<notin> set h \<Longrightarrow> str_len (pre @ h @ NUL # post) (length pre) = Inr (length h)"
proof (induction h arbitrary: pre)
  case Nil
  then show ?case by (subst str_len.simps) (simp add: array_get_pre)
next
  case (Cons c h)
  from Cons.IH [of "pre @ [c]"] Cons.prems show ?case
    by (subst str_len.simps) (auto simp: array_get_pre)
qed

lemma array_get_pre2:
  "array_get (pre @ x # y # post) (Suc (length pre)) = Inr y"
  "array_get (pre @ x # y # z # post) (Suc (Suc (length pre))) = Inr z"
  by (simp_all add: array_get_def nth_append)

lemma is_prompt_list:
  assumes "NUL \<notin> set h"
  shows "is_prompt_at (pre @ h @ NUL # post) (length pre) = Inr (h = ''> '')"
proof (cases h)
  case Nil
  then show ?thesis by (simp add: is_prompt_at_def array_get_pre)
next
  case (Cons a t)
  then show ?thesis
  proof (cases t)
    case Nil
    then show ?thesis using \<open>h = a # t\<close> by (auto simp: is_prompt_at_def array_get_pre array_get_pre2)
  next
    case (Cons b u)
    then show ?thesis using \<open>h = a # t\<close> assms
      by (cases u) (auto simp: is_prompt_at_def array_get_pre array_get_pre2)
  qed
qed

section \<open>The list view of \<open>readline\<close>\<close>

text \<open>
  \<open>cut_line h e\<close> takes a line off the text \<open>h\<close>, which does not begin with a newline and ends at \<open>e\<close>:
  nothing when it is not complete, else the line, the text behind it and its end.  A line \<open>> \<close> loses
  what is behind it; and behind a prompt at the very end of the buffer there is no room for the zero.
\<close>

definition cut_line :: "string \<Rightarrow> nat \<Rightarrow> (string \<times> string \<times> nat) option res" where
  "cut_line h e =
     (if h = ''> '' then
        (if e < MAX_AT_RESPONSE then Inr (Some (h, [], Suc e)) else Inl OutOfBounds)
      else if list_ex is_newline h then
        (let line = takeWhile (\<lambda>c. \<not> is_newline c) h;
             rest = tl (dropWhile (\<lambda>c. \<not> is_newline c) h)
         in Inr (Some (if line = ''> '' then (line, [], e - length rest) else (line, rest, e))))
      else Inr None)"

function spec_loop :: "string \<Rightarrow> nat \<Rightarrow> at_read list \<Rightarrow> (string option \<times> string \<times> nat \<times> at_read list) res" where
  "spec_loop h0 e0 rs =
     (let (h, e) = (if e0 = MAX_AT_RESPONSE then ([], 0) else (h0, e0))
      in if MAX_AT_RESPONSE \<le> e then Inl OutOfBounds
         else
           bindE (read_retry (MAX_AT_RESPONSE - e) rs) (\<lambda>(d, rs').
             case d of
               None \<Rightarrow> Inr (None, h, e, rs')
             | Some s \<Rightarrow>
                 if s = [] then Inr (None, h, e, rs')
                 else
                   bindE (cut_line (dropWhile is_newline (h @ s)) (e + length s)) (\<lambda>found.
                     case found of
                       Some (line, h', e') \<Rightarrow> Inr (Some line, h', e', rs')
                     | None \<Rightarrow> spec_loop (dropWhile is_newline (h @ s)) (e + length s) rs')))"
  by pat_completeness auto
termination
  by (relation "measure (\<lambda>(h, e, rs). reads_size rs)") (auto simp: read_retry_smaller res split: if_splits)

declare spec_loop.simps [simp del]

definition spec_readline ::
  "string \<Rightarrow> nat \<Rightarrow> at_read list \<Rightarrow> (string option \<times> string \<times> nat \<times> at_read list) res" where
  "spec_readline h e rs =
     (if h = [] then spec_loop [] 0 rs
      else
        bindE (cut_line (dropWhile is_newline h) e) (\<lambda>found.
          case found of
            Some (line, h', e') \<Rightarrow> Inr (Some line, h', e', rs)
          | None \<Rightarrow> spec_loop (dropWhile is_newline h) (length (dropWhile is_newline h)) rs))"

section \<open>The refinement\<close>

lemma findNextEOL_text:
  assumes "text_at buf cur h e"
  shows "findNextEOL buf cur = Inr (if h = ''> '' then Some (cur + 2)
    else if list_ex is_newline h then Some (cur + length (takeWhile (\<lambda>c. \<not> is_newline c) h)) else None)"
proof -
  obtain pre post where b: "buf = pre @ h @ NUL # post" "length pre = cur" "NUL \<notin> set h"
    using assms by (rule text_atE)
  show ?thesis
    unfolding findNextEOL_def b(1) b(2) [symmetric] is_prompt_list [OF b(3)] find_newline_list [OF b(3)] by simp
qed

lemma skip_newlines_text:
  assumes "text_at buf cur h e"
  shows "skip_newlines buf cur = Inr (cur + length (takeWhile is_newline h)) \<and>
    text_at buf (cur + length (takeWhile is_newline h)) (dropWhile is_newline h) e"
proof -
  obtain pre post where b: "buf = pre @ h @ NUL # post" "length pre = cur" "e = cur + length h"
      "NUL \<notin> set h" "length buf = Suc MAX_AT_RESPONSE" "e \<le> MAX_AT_RESPONSE"
    using assms by (rule text_atE)
  have len: "length (takeWhile is_newline h) + length (dropWhile is_newline h) = length h"
    using arg_cong [OF takeWhile_dropWhile_id [of is_newline h], of length] by (simp del: takeWhile_dropWhile_id)
  have "buf = (pre @ takeWhile is_newline h) @ dropWhile is_newline h @ NUL # post"
    using b(1) append.assoc [of "takeWhile is_newline h" "dropWhile is_newline h"] by simp
  moreover have "NUL \<notin> set (dropWhile is_newline h)" using b(4) by (auto dest: set_dropWhileD)
  ultimately have "text_at buf (cur + length (takeWhile is_newline h)) (dropWhile is_newline h) e"
    unfolding text_at_def using b(2-6) len
    by (intro conjI exI [of _ "pre @ takeWhile is_newline h"] exI [of _ post]) simp_all
  then show ?thesis using skip_newlines_list [of pre h post] b(1,2) by simp
qed

lemma append_text:
  assumes "text_at buf cur h e" and "e + length s \<le> MAX_AT_RESPONSE" and "NUL \<notin> set s"
  shows "\<exists>buf1 buf2. copy_to buf e s = Inr buf1 \<and> array_set buf1 (e + length s) NUL = Inr buf2 \<and>
    text_at buf2 cur (h @ s) (e + length s)"
proof -
  obtain pre post where b: "buf = pre @ h @ NUL # post" "length pre = cur" "e = cur + length h"
      "NUL \<notin> set h" "length buf = Suc MAX_AT_RESPONSE" "e \<le> MAX_AT_RESPONSE"
    using assms(1) by (rule text_atE)
  let ?tail = "drop (length s) (NUL # post)"
  have fits: "length s < length (NUL # post)" using b(2,3,5) assms(2) by (simp add: b(1))
  then obtain x post' where t: "?tail = x # post'" by (cases ?tail) simp_all
  have e: "e = length (pre @ h)" using b(2,3) by simp
  have blit: "blit buf e s = (pre @ h @ s) @ x # post'"
    unfolding blit_def e b(1) using t by simp
  have len: "e + length s < length buf" using b(5) assms(2) by simp
  then have copy: "copy_to buf e s = Inr ((pre @ h @ s) @ x # post')"
    using blit by (simp add: copy_to_def)
  have l2: "length ((pre @ h @ s) @ x # post') = length buf"
    unfolding blit [symmetric] using len by (intro length_blit) simp
  have idx: "e + length s = length (pre @ h @ s)" using e by simp
  have "array_set ((pre @ h @ s) @ x # post') (e + length s) NUL = Inr (pre @ (h @ s) @ NUL # post')"
    unfolding idx array_set_def by (simp only: list_update_length) simp
  moreover have "text_at (pre @ (h @ s) @ NUL # post') cur (h @ s) (e + length s)"
    unfolding text_at_def using l2 b(2-5) assms(2,3) by (auto simp: add.assoc)
  ultimately show ?thesis using copy by blast
qed

lemma move_text:
  assumes "text_at buf cur h e"
  shows "str_len buf cur = Inr (length h) \<and>
    (\<exists>buf'. copy_to buf 0 (take (length h + 1) (drop cur buf)) = Inr buf' \<and> text_at buf' 0 h (length h))"
proof -
  obtain pre post where b: "buf = pre @ h @ NUL # post" "length pre = cur" "e = cur + length h"
      "NUL \<notin> set h" "length buf = Suc MAX_AT_RESPONSE" "e \<le> MAX_AT_RESPONSE"
    using assms by (rule text_atE)
  have t: "take (length h + 1) (drop cur buf) = h @ [NUL]" using b(1,2) by simp
  have "copy_to buf 0 (h @ [NUL]) = Inr (h @ NUL # drop (length h + 1) buf)"
    using b(1) by (simp add: copy_to_def blit_def)
  moreover have "length (h @ NUL # drop (length h + 1) buf) = length buf" using b(1) by simp
  ultimately show ?thesis
    using str_len_list [OF b(4), of pre post] b unfolding t text_at_def by auto
qed

lemma empty_text: "length buf = Suc MAX_AT_RESPONSE \<Longrightarrow>
  \<exists>buf'. array_set buf 0 NUL = Inr buf' \<and> text_at buf' 0 [] 0"
  by (cases buf) (auto simp: array_set_def text_at_def)

text \<open>The end of \<open>readline\<close>, for a text that does not begin with a newline.\<close>

lemma prompt_end:
  assumes "text_at buf cur ''> '' e"
  shows "if e < MAX_AT_RESPONSE
    then \<exists>buf'. readline_end buf cur (cur + 2) = Inr (''> '', buf', cur + 3) \<and> text_at buf' (cur + 3) [] (Suc e)
    else readline_end buf cur (cur + 2) = Inl OutOfBounds"
proof -
  obtain pre post where b: "buf = pre @ ''> '' @ NUL # post" "length pre = cur" "e = cur + length ''> ''"
      "length buf = Suc MAX_AT_RESPONSE"
    using assms by (rule text_atE)
  have set: "array_set buf (cur + 2) NUL = Inr buf"
    using b(1,2) by (auto simp: array_set_def list_update_append)
  have prompt: "is_prompt_at buf cur = Inr True"
    using is_prompt_list [of "''> ''" pre post] b(1,2) by simp
  have line: "take (cur + 2 - cur) (drop cur buf) = ''> ''" using b(1,2) by simp
  show ?thesis
  proof (cases "e < MAX_AT_RESPONSE")
    case True
    then obtain x post' where p: "post = x # post'" using b by (cases post) auto
    let ?buf' = "(pre @ ''> '' @ [NUL]) @ NUL # post'"
    have "array_set buf (cur + 2 + 1) NUL = Inr ?buf'"
      using b(1,2) p by (auto simp: array_set_def list_update_append)
    moreover have "text_at ?buf' (cur + 3) [] (Suc e)"
      unfolding text_at_def using b True p
      by (intro conjI exI [of _ "pre @ ''> '' @ [NUL]"] exI [of _ post']) simp_all
    ultimately show ?thesis using True set prompt line by (simp add: readline_end_def eval_nat_numeral)
  next
    case False
    then have "array_set buf (cur + 2 + 1) NUL = Inl OutOfBounds"
      using b by (simp add: array_set_def)
    then show ?thesis using False set prompt by (simp add: readline_end_def)
  qed
qed

lemma newline_end:
  assumes "text_at buf cur (l @ c # r) e" and "NUL \<notin> set l" and "is_newline c"
  shows "\<exists>buf'. readline_end buf cur (cur + length l) = Inr (l, buf', cur + length l + 1) \<and>
    (if l = ''> '' then text_at buf' (cur + length l + 1) [] (e - length r)
     else text_at buf' (cur + length l + 1) r e)"
proof -
  obtain pre post where b: "buf = pre @ (l @ c # r) @ NUL # post" "length pre = cur"
      "e = cur + length (l @ c # r)" "NUL \<notin> set (l @ c # r)" "length buf = Suc MAX_AT_RESPONSE"
      "e \<le> MAX_AT_RESPONSE"
    using assms(1) by (rule text_atE)
  let ?buf1 = "pre @ l @ NUL # r @ NUL # post"
  have set: "array_set buf (cur + length l) NUL = Inr ?buf1"
    using b(1,2) by (auto simp: array_set_def list_update_append)
  have prompt: "is_prompt_at ?buf1 cur = Inr (l = ''> '')"
    using is_prompt_list [OF assms(2), of pre "r @ NUL # post"] b(2) by simp
  have line: "take (cur + length l - cur) (drop cur ?buf1) = l" using b(2) by simp
  have l1: "length ?buf1 = Suc MAX_AT_RESPONSE" using b(1,5) by simp
  show ?thesis
  proof (cases "l = ''> ''")
    case False
    have "text_at ?buf1 (cur + length l + 1) r e"
      unfolding text_at_def using b(2-6) l1
      by (intro conjI exI [of _ "pre @ l @ [NUL]"] exI [of _ post]) simp_all
    then show ?thesis using False set prompt line by (simp add: readline_end_def)
  next
    case True
    obtain x t where t: "r @ NUL # post = x # t" by (cases "r @ NUL # post") auto
    let ?buf2 = "(pre @ l @ [NUL]) @ NUL # t"
    have s2: "array_set ?buf1 (cur + length l + 1) NUL = Inr ?buf2"
      unfolding t using b(2) by (auto simp: array_set_def list_update_append)
    have "length ?buf2 = Suc MAX_AT_RESPONSE" using l1 t by (simp del: append_eq_Cons_conv)
    then have "text_at ?buf2 (cur + length l + 1) [] (e - length r)"
      unfolding text_at_def using b(2,3,6)
      by (intro conjI exI [of _ "pre @ l @ [NUL]"] exI [of _ t]) simp_all
    then show ?thesis using True set prompt line s2 by (simp add: readline_end_def)
  qed
qed

lemma split_line:
  assumes "list_ex is_newline h"
  obtains l c r where "h = l @ c # r" and "is_newline c" and "takeWhile (\<lambda>c. \<not> is_newline c) h = l"
    and "tl (dropWhile (\<lambda>c. \<not> is_newline c) h) = r"
proof -
  have "dropWhile (\<lambda>c. \<not> is_newline c) h \<noteq> []" using assms by (auto simp: list_ex_iff dropWhile_eq_Nil_conv)
  then obtain c r where d: "dropWhile (\<lambda>c. \<not> is_newline c) h = c # r" by (cases "dropWhile (\<lambda>c. \<not> is_newline c) h") auto
  moreover have "is_newline c" using hd_dropWhile [of "\<lambda>c. \<not> is_newline c" h] d by simp
  moreover have "h = takeWhile (\<lambda>c. \<not> is_newline c) h @ c # r" using takeWhile_dropWhile_id [of _ h] d by metis
  ultimately show ?thesis using that by simp
qed

text \<open>A result of the code and one of the list view agree.\<close>

definition agrees ::
  "(string option \<times> string \<times> nat \<times> nat \<times> at_read list) res \<Rightarrow> (string option \<times> string \<times> nat \<times> at_read list) res \<Rightarrow> bool"
where
  "agrees code spec \<longleftrightarrow>
     (case spec of
        Inl f \<Rightarrow> code = Inl f
      | Inr (line, h, e, rs) \<Rightarrow> (\<exists>buf cur n. code = Inr (line, buf, cur, n, rs) \<and> text_at buf cur h e))"

definition finish ::
  "string \<times> nat \<times> nat option \<times> nat \<times> at_read list \<Rightarrow> (string option \<times> string \<times> nat \<times> nat \<times> at_read list) res" where
  "finish = (\<lambda>(buf, cur, p_eol, n, rs).
     case p_eol of
       None \<Rightarrow> Inr (None, buf, cur, n, rs)
     | Some e \<Rightarrow> bindE (readline_end buf cur e) (\<lambda>(line, buf', cur'). Inr (Some line, buf', cur', n, rs)))"

lemma finish_agrees:
  assumes "text_at buf cur h e" and "findNextEOL buf cur = Inr (Some p)"
  shows "\<exists>found. cut_line h e = found \<and> found \<noteq> Inr None \<and>
    agrees (finish (buf, cur, Some p, n, rs))
      (bindE found (\<lambda>x. case x of Some (line, h', e') \<Rightarrow> Inr (Some line, h', e', rs) | None \<Rightarrow> Inl Hang))"
proof (cases "h = ''> ''")
  case True
  then have "p = cur + 2" using findNextEOL_text [OF assms(1)] assms(2) by simp
  then show ?thesis
    using prompt_end [of buf cur e] assms(1) True
    by (auto simp: cut_line_def agrees_def finish_def split: if_splits)
next
  case False
  with findNextEOL_text [OF assms(1)] assms(2) have nl: "list_ex is_newline h"
    and p: "p = cur + length (takeWhile (\<lambda>c. \<not> is_newline c) h)"
    by (auto split: if_splits)
  obtain l c r where h: "h = l @ c # r" "is_newline c" "takeWhile (\<lambda>c. \<not> is_newline c) h = l"
      "tl (dropWhile (\<lambda>c. \<not> is_newline c) h) = r"
    using split_line [OF nl] .
  have "NUL \<notin> set l" using assms(1) h(1) by (auto simp: text_at_def)
  from newline_end [OF assms(1) [unfolded h(1)] this h(2)] show ?thesis
    using False nl p h(3,4) by (auto simp: cut_line_def agrees_def finish_def Let_def)
qed

text \<open>No zero among the characters that arrive: the modem sends text.\<close>

fun clean_read :: "at_read \<Rightarrow> bool" where
  "clean_read (Read_Data s) \<longleftrightarrow> NUL \<notin> set s"
| "clean_read _ \<longleftrightarrow> True"

lemma read_retry_clean:
  assumes "read_retry n rs = Inr (d, rs')" and "list_all clean_read rs"
  shows "list_all clean_read rs'" and "d = Some s \<Longrightarrow> NUL \<notin> set s \<and> length s \<le> n"
  using assms
  by (induction n rs rule: read_retry.induct)
    (auto split: if_splits dest: in_set_takeD in_set_dropD)

lemma make_room_text:
  assumes "text_at buf cur h e"
  shows "\<exists>buf1 cur1 h1 e1. make_room buf cur e = Inr (buf1, cur1, e1) \<and> text_at buf1 cur1 h1 e1 \<and>
    (if e = MAX_AT_RESPONSE then ([], 0) else (h, e)) = (h1, e1) \<and> e1 < MAX_AT_RESPONSE"
proof (cases "e = MAX_AT_RESPONSE")
  case True
  have "length buf = Suc MAX_AT_RESPONSE" using assms by (simp add: text_at_def)
  from empty_text [OF this] True show ?thesis by (auto simp: make_room_def MAX_AT_RESPONSE_def)
next
  case False
  then have "e < MAX_AT_RESPONSE" using assms by (simp add: text_at_def)
  with False assms show ?thesis by (auto simp: make_room_def)
qed

lemma loop_agrees:
  "text_at buf cur h e \<Longrightarrow> list_all clean_read rs \<Longrightarrow>
   agrees (bindE (read_loop buf cur e n rs) finish) (spec_loop h e rs)"
proof (induction rs arbitrary: buf cur h e n rule: measure_induct_rule [of reads_size])
  case (less rs)
  obtain buf1 cur1 h1 e1 where r: "make_room buf cur e = Inr (buf1, cur1, e1)" "text_at buf1 cur1 h1 e1"
      "(if e = MAX_AT_RESPONSE then ([], 0) else (h, e)) = (h1, e1)" "e1 < MAX_AT_RESPONSE"
    using make_room_text [OF less.prems(1)] by blast
  let ?n = "MAX_AT_RESPONSE - e1"
  show ?case
  proof (cases "read_retry ?n rs")
    case (Inl f)
    then show ?thesis
      using r by (subst read_loop.simps, subst spec_loop.simps) (simp add: agrees_def)
  next
    case (Inr x)
    obtain d rs' where x: "read_retry ?n rs = Inr (d, rs')" using Inr by (cases x) simp
    note clean = read_retry_clean [OF x less.prems(2)]
    consider "d = None" | "d = Some []" | s where "d = Some s" "s \<noteq> []" by (cases d) auto
    then show ?thesis
    proof cases
      case 1
      then show ?thesis using r x
        by (subst read_loop.simps, subst spec_loop.simps) (auto simp: agrees_def finish_def)
    next
      case 2
      then show ?thesis using r x
        by (subst read_loop.simps, subst spec_loop.simps) (auto simp: agrees_def finish_def)
    next
      case 3
      let ?h = "dropWhile is_newline (h1 @ s)" and ?e = "e1 + length s"
      have s: "NUL \<notin> set s" "length s \<le> ?n" using clean(2) 3 by simp_all
      then have fits: "?e \<le> MAX_AT_RESPONSE" using r(4) by simp
      obtain bufa buf2 where a: "copy_to buf1 e1 s = Inr bufa" "array_set bufa ?e NUL = Inr buf2"
          "text_at buf2 cur1 (h1 @ s) ?e"
        using append_text [OF r(2) fits s(1)] by blast
      obtain cur2 where k: "skip_newlines buf2 cur1 = Inr cur2" "text_at buf2 cur2 ?h ?e"
        using skip_newlines_text [OF a(3)] by blast
      have code: "read_loop buf cur e n rs =
          (case findNextEOL buf2 cur2 of
             Inl f \<Rightarrow> Inl f
           | Inr (Some p) \<Rightarrow> Inr (buf2, cur2, Some p, n + length s, rs')
           | Inr None \<Rightarrow> read_loop buf2 cur2 ?e (n + length s) rs')"
        using r x 3 a(1,2) k(1) findNextEOL_text [OF k(2)]
        by (subst read_loop.simps) simp
      have spec: "spec_loop h e rs =
          bindE (cut_line ?h ?e) (\<lambda>found. case found of
            Some (line, h', e') \<Rightarrow> Inr (Some line, h', e', rs') | None \<Rightarrow> spec_loop ?h ?e rs')"
        using r x 3 by (subst spec_loop.simps) simp
      show ?thesis
      proof (cases "findNextEOL buf2 cur2 = Inr None")
        case True
        then have "cut_line ?h ?e = Inr None"
          using findNextEOL_text [OF k(2)] by (auto simp: cut_line_def split: if_splits)
        moreover have "reads_size rs' < reads_size rs" using read_retry_smaller [OF x] r(4) by simp
        ultimately show ?thesis
          unfolding code spec using less.IH [OF _ k(2) clean(1)] True by simp
      next
        case False
        then obtain p where p: "findNextEOL buf2 cur2 = Inr (Some p)"
          using findNextEOL_text [OF k(2)] by (auto split: if_splits)
        obtain found where "cut_line ?h ?e = found" "found \<noteq> Inr None"
          "agrees (finish (buf2, cur2, Some p, n + length s, rs'))
             (bindE found (\<lambda>x. case x of Some (line, h', e') \<Rightarrow> Inr (Some line, h', e', rs') | None \<Rightarrow> Inl Hang))"
          using finish_agrees [OF k(2) p] by blast
        then show ?thesis unfolding code spec using p by (cases found) (auto split: option.splits)
      qed
    qed
  qed
qed

definition holds :: "at_channel \<Rightarrow> string \<Rightarrow> nat \<Rightarrow> bool" where
  "holds ch h e \<longleftrightarrow> text_at (ac_ATBuffer ch) (ac_ATBufferCur ch) h e"

lemma readline_core:
  "readline ch =
     bindE (bindE (bindE (readline_start (ac_ATBuffer ch) (ac_ATBufferCur ch)) (\<lambda>(buf, cur, p_read, p_eol).
              case p_eol of
                Some e \<Rightarrow> Inr (buf, cur, Some e, ac_readCount ch, ac_reads ch)
              | None \<Rightarrow> read_loop buf cur p_read (ac_readCount ch) (ac_reads ch))) finish)
       (\<lambda>(line, buf, cur, n, rs).
          Inr (line, ch\<lparr>ac_ATBuffer := buf, ac_ATBufferCur := cur, ac_readCount := n, ac_reads := rs\<rparr>))"
  unfolding readline_def bindE_assoc finish_def
  by (auto intro!: bindE_cong [OF refl] simp: bindE_assoc Let_def split: option.splits)

lemma head_text:
  assumes "text_at buf cur h e"
  shows "array_get buf cur = Inr (if h = [] then NUL else hd h)" and "h \<noteq> [] \<Longrightarrow> hd h \<noteq> NUL"
proof -
  obtain pre post where b: "buf = pre @ h @ NUL # post" "length pre = cur" "NUL \<notin> set h"
    using assms by (rule text_atE)
  show "array_get buf cur = Inr (if h = [] then NUL else hd h)"
    using array_get_pre [of pre] unfolding b(1) b(2) [symmetric] by (cases h) simp_all
  show "h \<noteq> [] \<Longrightarrow> hd h \<noteq> NUL" using b(3) by (cases h) auto
qed

lemma readline_agrees:
  assumes "text_at buf cur h e" and "list_all clean_read rs"
  shows "agrees (bindE (bindE (readline_start buf cur) (\<lambda>(buf, cur, p_read, p_eol).
      case p_eol of Some e \<Rightarrow> Inr (buf, cur, Some e, n, rs) | None \<Rightarrow> read_loop buf cur p_read n rs)) finish)
    (spec_readline h e rs)"
proof (cases "h = []")
  case True
  have "length buf = Suc MAX_AT_RESPONSE" using assms(1) by (simp add: text_at_def)
  then obtain buf' where "array_set buf 0 NUL = Inr buf'" "text_at buf' 0 [] 0" using empty_text by blast
  then show ?thesis
    using head_text(1) [OF assms(1)] True loop_agrees [OF _ assms(2)]
    by (simp add: readline_start_def spec_readline_def)
next
  case False
  let ?h = "dropWhile is_newline h"
  obtain cur2 where k: "skip_newlines buf cur = Inr cur2" "text_at buf cur2 ?h e"
    using skip_newlines_text [OF assms(1)] by blast
  have start: "readline_start buf cur =
      bindE (findNextEOL buf cur2) (\<lambda>p_eol.
        case p_eol of
          Some e \<Rightarrow> Inr (buf, cur2, 0, Some e)
        | None \<Rightarrow> bindE (str_len buf cur2) (\<lambda>len.
            bindE (copy_to buf 0 (take (len + 1) (drop cur2 buf))) (\<lambda>buf'. Inr (buf', 0, len, None))))"
    using head_text [OF assms(1)] False k(1) by (simp add: readline_start_def cong: option.case_cong)
  show ?thesis
  proof (cases "findNextEOL buf cur2 = Inr None")
    case True
    then have "cut_line ?h e = Inr None"
      using findNextEOL_text [OF k(2)] by (auto simp: cut_line_def split: if_splits)
    moreover obtain buf' where "str_len buf cur2 = Inr (length ?h)"
        "copy_to buf 0 (take (length ?h + 1) (drop cur2 buf)) = Inr buf'" "text_at buf' 0 ?h (length ?h)"
      using move_text [OF k(2)] by blast
    ultimately show ?thesis
      unfolding start spec_readline_def using False True loop_agrees [OF _ assms(2)] by simp
  next
    case found: False
    then obtain p where p: "findNextEOL buf cur2 = Inr (Some p)"
      using findNextEOL_text [OF k(2)] by (auto split: if_splits)
    obtain x where "cut_line ?h e = x" "x \<noteq> Inr None"
      "agrees (finish (buf, cur2, Some p, n, rs))
         (bindE x (\<lambda>x. case x of Some (line, h', e') \<Rightarrow> Inr (Some line, h', e', rs) | None \<Rightarrow> Inl Hang))"
      using finish_agrees [OF k(2) p] by blast
    then show ?thesis
      unfolding start spec_readline_def using False p by (cases x) (auto split: option.splits)
  qed
qed

text \<open>C29. \<open>readline\<close> on the character array, with its pointers, its zero bytes and its move of a partial line,
  computes the list function: the same line, the same characters left, and an access outside the
  buffer in exactly one case, a prompt at the very end of a full buffer.\<close>

theorem readline_refines:
  assumes "holds ch h e" and "list_all clean_read (ac_reads ch)"
  shows "case spec_readline h e (ac_reads ch) of
      Inl f \<Rightarrow> readline ch = Inl f
    | Inr (line, h', e', rs) \<Rightarrow>
        (\<exists>buf cur n. readline ch = Inr (line, ch\<lparr>ac_ATBuffer := buf, ac_ATBufferCur := cur, ac_readCount := n, ac_reads := rs\<rparr>) \<and>
          text_at buf cur h' e')"
  using readline_agrees [OF assms(1) [unfolded holds_def] assms(2), of "ac_readCount ch"]
  unfolding readline_core agrees_def by (force split: sum.splits prod.splits)

section \<open>The lines of the modem\<close>

text \<open>The characters still to come, from a terminal that delivers text and no errors.\<close>

fun chars :: "at_read list \<Rightarrow> string" where
  "chars [] = []"
| "chars (Read_Data s # rs) = s @ chars rs"
| "chars (_ # rs) = chars rs"

fun live_read :: "at_read \<Rightarrow> bool" where
  "live_read (Read_Data s) \<longleftrightarrow> s \<noteq> [] \<and> NUL \<notin> set s"
| "live_read Read_Interrupted \<longleftrightarrow> True"
| "live_read Read_Failed \<longleftrightarrow> False"

lemma live_clean: "list_all live_read rs \<Longrightarrow> list_all clean_read rs"
proof (induction rs)
  case (Cons r rs)
  then show ?case by (cases r) auto
qed simp

lemma read_retry_live:
  assumes "list_all live_read rs" and "0 < n"
  shows "if chars rs = [] then read_retry n rs = Inl Hang
    else \<exists>s rs'. read_retry n rs = Inr (Some s, rs') \<and> s \<noteq> [] \<and> length s \<le> n \<and>
      chars rs = s @ chars rs' \<and> list_all live_read rs'"
  using assms by (induction n rs rule: read_retry.induct) (auto dest: in_set_dropD)

text \<open>A line the modem sends: some text, not empty and without newlines, and not like a prompt.\<close>

definition good_line :: "string \<Rightarrow> bool" where
  "good_line l \<longleftrightarrow> l \<noteq> [] \<and> list_all (\<lambda>c. \<not> is_newline c \<and> c \<noteq> NUL) l \<and> take 2 l \<noteq> ''> ''"

lemma not_newlines: "list_all (\<lambda>c. \<not> is_newline c) l \<Longrightarrow>
    \<not> list_ex is_newline l \<and> takeWhile (\<lambda>c. \<not> is_newline c) (l @ xs) = l @ takeWhile (\<lambda>c. \<not> is_newline c) xs \<and>
    dropWhile (\<lambda>c. \<not> is_newline c) (l @ xs) = dropWhile (\<lambda>c. \<not> is_newline c) xs"
  by (induction l) auto

lemma newlines: "list_all is_newline nls \<Longrightarrow> dropWhile is_newline (nls @ xs) = dropWhile is_newline xs"
  by (induction nls) auto

lemma good_line_not_newline: "good_line l \<Longrightarrow> list_all (\<lambda>c. \<not> is_newline c) l"
  by (auto simp: good_line_def list_all_iff)

lemma cut_good:
  assumes "good_line l" and "is_newline c"
  shows "cut_line (l @ c # r) e = Inr (Some (l, r, e))"
proof -
  have "l @ c # r \<noteq> ''> ''"
  proof
    assume a: "l @ c # r = ''> ''"
    then have "l = '''' \<or> l = ''>''" by (cases l; cases "tl l") auto
    with a assms show False by (auto simp: good_line_def is_newline_def)
  qed
  moreover have "l \<noteq> ''> ''" using assms(1) by (auto simp: good_line_def)
  ultimately show ?thesis
    using not_newlines [OF good_line_not_newline [OF assms(1)]] assms(2)
    by (simp add: cut_line_def)
qed

lemma cut_part:
  assumes "good_line (l1 @ l2)"
  shows "cut_line l1 e = Inr None"
proof -
  have "l1 \<noteq> ''> ''" using assms by (auto simp: good_line_def)
  then show ?thesis
    using not_newlines [of l1] good_line_not_newline [OF assms] by (simp add: cut_line_def)
qed

lemma append_eq_cases:
  assumes "xs @ ys = zs @ ts"
  obtains us where "zs = xs @ us" and "ys = us @ ts" | us where "us \<noteq> []" and "xs = zs @ us" and "ts = us @ ys"
proof -
  obtain us where "xs = zs @ us \<and> us @ ys = ts \<or> xs @ us = zs \<and> ys = us @ ts"
    using assms by (auto simp: append_eq_append_conv2)
  then show ?thesis using that by (cases "us = []") auto
qed

text \<open>What is taken of a stream is either part of the next line and what precedes it, or all of it.\<close>

lemma split_stream:
  assumes "x @ ys = nls @ l @ c # S" and "list_all is_newline nls" and "good_line l" and "is_newline c"
  shows "(\<exists>nls'. cut_line (dropWhile is_newline x) e = Inr None \<and>
        dropWhile is_newline x @ ys = nls' @ l @ c # S \<and> list_all is_newline nls' \<and>
        length (dropWhile is_newline x) \<le> length nls' + length l \<and> length x \<le> length nls + length l \<and>
        length nls' + length l + length x = length nls + length l + length (dropWhile is_newline x)) \<or>
    (\<exists>r. cut_line (dropWhile is_newline x) e = Inr (Some (l, r, e)) \<and> S = r @ ys)"
proof -
  consider
      nls' where "nls = x @ nls'" "ys = nls' @ l @ c # S"
    | l1 l2 where "l1 \<noteq> []" "x = nls @ l1" "l = l1 @ l2" "ys = l2 @ c # S"
    | r where "x = nls @ l @ c # r" "S = r @ ys"
  proof (rule append_eq_cases [OF assms(1)])
    fix us assume "nls = x @ us" "ys = us @ l @ c # S"
    then show thesis by (rule that(1))
  next
    fix us assume u: "us \<noteq> []" "x = nls @ us" "l @ c # S = us @ ys"
    show thesis
    proof (rule append_eq_cases [OF u(3) [symmetric]])
      fix vs assume "l = us @ vs" "ys = vs @ c # S"
      with u show thesis by (intro that(2))
    next
      fix vs assume "vs \<noteq> []" "us = l @ vs" "c # S = vs @ ys"
      with u show thesis using that(3) by (cases vs) auto
    qed
  qed
  then show ?thesis
  proof cases
    case 1
    then have d: "dropWhile is_newline x = []" and "list_all is_newline nls'"
      using assms(2) newlines [of x "[]"] by simp_all
    then show ?thesis unfolding d using 1 cut_part [of "[]" l] assms(3) by (intro disjI1 exI [of _ nls']) simp
  next
    case 2
    then obtain a t where a: "l1 = a # t" by (cases l1) auto
    have "\<not> is_newline a" using assms(3) 2(3) a by (simp add: good_line_def)
    then have "dropWhile is_newline x = l1" using newlines [OF assms(2), of l1] 2(2) a by simp
    then show ?thesis
      using 2 cut_part [of l1 l2] assms(3) by (intro disjI1 exI [of _ "[]"]) simp
  next
    case 3
    obtain a t where a: "l = a # t" "\<not> is_newline a" using assms(3) by (cases l) (auto simp: good_line_def)
    have "dropWhile is_newline x = l @ c # r" using newlines [OF assms(2), of "l @ c # r"] 3(1) a by simp
    then show ?thesis using 3(2) cut_good [OF assms(3,4)] by auto
  qed
qed

lemma spec_loop_line:
  assumes "h @ chars rs = nls @ l @ c # S" and "list_all is_newline nls" and "good_line l" and "is_newline c"
    and "list_all live_read rs" and "length h \<le> length nls + length l"
    and "e + (length nls + length l - length h) < MAX_AT_RESPONSE"
  shows "\<exists>h' e' rs'. spec_loop h e rs = Inr (Some l, h', e', rs') \<and> h' @ chars rs' = S \<and> list_all live_read rs'"
  using assms
proof (induction rs arbitrary: h e nls rule: measure_induct_rule [of reads_size])
  case (less rs)
  have e: "e < MAX_AT_RESPONSE" using less.prems(7) by simp
  have "chars rs \<noteq> []" using less.prems(1,6) by (auto dest: arg_cong [of _ _ length])
  then obtain s rs' where s: "read_retry (MAX_AT_RESPONSE - e) rs = Inr (Some s, rs')" "s \<noteq> []"
      "chars rs = s @ chars rs'" "list_all live_read rs'"
    using read_retry_live [OF less.prems(5), of "MAX_AT_RESPONSE - e"] e by auto
  let ?h = "dropWhile is_newline (h @ s)"
  have step: "spec_loop h e rs =
      bindE (cut_line ?h (e + length s)) (\<lambda>found. case found of
        Some (line, h', e') \<Rightarrow> Inr (Some line, h', e', rs') | None \<Rightarrow> spec_loop ?h (e + length s) rs')"
    using s e by (subst spec_loop.simps) simp
  have "(h @ s) @ chars rs' = nls @ l @ c # S" using less.prems(1) s(3) by simp
  from split_stream [OF this less.prems(2-4), of "e + length s"] show ?case
  proof
    assume "\<exists>nls'. cut_line ?h (e + length s) = Inr None \<and> ?h @ chars rs' = nls' @ l @ c # S \<and>
        list_all is_newline nls' \<and> length ?h \<le> length nls' + length l \<and> length (h @ s) \<le> length nls + length l \<and>
        length nls' + length l + length (h @ s) = length nls + length l + length ?h"
    then obtain nls' where n: "cut_line ?h (e + length s) = Inr None" "?h @ chars rs' = nls' @ l @ c # S"
        "list_all is_newline nls'" "length ?h \<le> length nls' + length l"
        "length h + length s \<le> length nls + length l"
        "length nls' + length l + (length h + length s) = length nls + length l + length ?h"
      by auto
    have "reads_size rs' < reads_size rs" using read_retry_smaller [OF s(1)] e by simp
    moreover have "e + length s + (length nls' + length l - length ?h) < MAX_AT_RESPONSE"
      using less.prems(7) n(4-6) by simp
    ultimately show ?thesis
      unfolding step using less.IH [OF _ n(2,3) less.prems(3,4) s(4) n(4)] n(1) by simp
  next
    assume "\<exists>r. cut_line ?h (e + length s) = Inr (Some (l, r, e + length s)) \<and> S = r @ chars rs'"
    then show ?thesis unfolding step using s(4) by auto
  qed
qed

lemma spec_readline_line:
  assumes "h @ chars rs = nls @ l @ c # S" and "list_all is_newline nls" and "good_line l" and "is_newline c"
    and "list_all live_read rs" and "length nls + length l < MAX_AT_RESPONSE"
  shows "\<exists>h' e' rs'. spec_readline h e rs = Inr (Some l, h', e', rs') \<and> h' @ chars rs' = S \<and> list_all live_read rs'"
proof (cases "h = []")
  case True
  then show ?thesis
    using spec_loop_line [of "[]" rs nls l c S 0] assms by (simp add: spec_readline_def)
next
  case False
  let ?h = "dropWhile is_newline h"
  from split_stream [OF assms(1-4), of e] show ?thesis
  proof
    assume "\<exists>nls'. cut_line ?h e = Inr None \<and> ?h @ chars rs = nls' @ l @ c # S \<and> list_all is_newline nls' \<and>
        length ?h \<le> length nls' + length l \<and> length h \<le> length nls + length l \<and>
        length nls' + length l + length h = length nls + length l + length ?h"
    then obtain nls' where n: "cut_line ?h e = Inr None" "?h @ chars rs = nls' @ l @ c # S"
        "list_all is_newline nls'" "length ?h \<le> length nls' + length l"
        "length nls' + length l + length h = length nls + length l + length ?h"
      by auto
    have "length ?h \<le> length h" by (rule length_dropWhile_le)
    then have "length ?h + (length nls' + length l - length ?h) < MAX_AT_RESPONSE"
      using n(4,5) assms(6) by simp
    from spec_loop_line [OF n(2,3) assms(3-5) n(4) this] show ?thesis
      using False n(1) by (simp add: spec_readline_def)
  next
    assume "\<exists>r. cut_line ?h e = Inr (Some (l, r, e)) \<and> S = r @ chars rs"
    then show ?thesis using False assms(5) by (auto simp: spec_readline_def)
  qed
qed

text \<open>What reading changes of a channel, and the rest of it.\<close>

definition at_core :: "at_channel \<Rightarrow> at_channel" where
  "at_core ch = ch\<lparr>ac_ATBuffer := [], ac_ATBufferCur := 0, ac_readCount := 0, ac_reads := []\<rparr>"

lemma at_core_reading [simp]:
  "at_core (ch\<lparr>ac_ATBuffer := buf, ac_ATBufferCur := cur, ac_readCount := n, ac_reads := rs\<rparr>) = at_core ch"
  by (simp add: at_core_def)

text \<open>The channel holds or will be sent the stream \<open>s\<close>.\<close>

definition stream :: "at_channel \<Rightarrow> string \<Rightarrow> bool" where
  "stream ch s \<longleftrightarrow> (\<exists>h e. holds ch h e \<and> h @ chars (ac_reads ch) = s) \<and> list_all live_read (ac_reads ch)"

lemma readline_line:
  assumes "stream ch (nls @ l @ c # S)" and "list_all is_newline nls" and "good_line l" and "is_newline c"
    and "length nls + length l < MAX_AT_RESPONSE"
  shows "\<exists>ch'. readline ch = Inr (Some l, ch') \<and> stream ch' S \<and> at_core ch' = at_core ch"
proof -
  obtain h e where h: "holds ch h e" "h @ chars (ac_reads ch) = nls @ l @ c # S" "list_all live_read (ac_reads ch)"
    using assms(1) by (auto simp: stream_def)
  obtain h' e' rs' where "spec_readline h e (ac_reads ch) = Inr (Some l, h', e', rs')" "h' @ chars rs' = S"
      "list_all live_read rs'"
    using spec_readline_line [OF h(2) assms(2-4) h(3) assms(5)] by blast
  with readline_refines [OF h(1) live_clean [OF h(3)]] show ?thesis
    by (fastforce simp: stream_def holds_def)
qed

lemma spec_loop_waits:
  assumes "list_all live_read rs" and "list_all is_newline (h @ chars rs)" and "e + length (chars rs) < MAX_AT_RESPONSE"
  shows "spec_loop h e rs = Inl Hang"
  using assms
proof (induction rs arbitrary: h e rule: measure_induct_rule [of reads_size])
  case (less rs)
  show ?case
  proof (cases "chars rs = []")
    case True
    then show ?thesis
      using read_retry_live [OF less.prems(1), of "MAX_AT_RESPONSE - e"] less.prems(3)
      by (subst spec_loop.simps) simp
  next
    case False
    then obtain s rs' where s: "read_retry (MAX_AT_RESPONSE - e) rs = Inr (Some s, rs')" "s \<noteq> []"
        "chars rs = s @ chars rs'" "list_all live_read rs'"
      using read_retry_live [OF less.prems(1), of "MAX_AT_RESPONSE - e"] less.prems(3) by auto
    have d: "dropWhile is_newline (h @ s) = []"
      using less.prems(2) s(3) newlines [of "h @ s" "[]"] by simp
    have "reads_size rs' < reads_size rs" using read_retry_smaller [OF s(1)] less.prems(3) by simp
    then have "spec_loop [] (e + length s) rs' = Inl Hang"
      using less.prems(2,3) s(3,4) by (intro less.IH) simp_all
    then show ?thesis
      using s(1,2) less.prems(3) by (subst spec_loop.simps) (simp add: d cut_line_def)
  qed
qed

lemma readline_waits:
  assumes "stream ch nls" and "list_all is_newline nls" and "length nls < MAX_AT_RESPONSE"
  shows "readline ch = Inl Hang"
proof -
  obtain h e where h: "holds ch h e" "h @ chars (ac_reads ch) = nls" "list_all live_read (ac_reads ch)"
    using assms(1) by (auto simp: stream_def)
  have l: "length (chars (ac_reads ch)) \<le> length nls" and n: "list_all is_newline h"
    using h(2) assms(2) by (auto dest: arg_cong [of _ _ length])
  have d: "dropWhile is_newline h = []" using newlines [OF n, of "[]"] by simp
  have "spec_loop [] 0 (ac_reads ch) = Inl Hang"
    using h(2,3) assms(2,3) l by (intro spec_loop_waits) auto
  then have "spec_readline h e (ac_reads ch) = Inl Hang"
    by (simp add: spec_readline_def d cut_line_def)
  then show ?thesis using readline_refines [OF h(1) live_clean [OF h(3)]] by simp
qed

text \<open>How the modem frames a line, and reading several.\<close>

definition modem_line :: "string \<Rightarrow> string" where
  "modem_line l = [CHR 0x0D, CHR 0x0A] @ l @ [CHR 0x0D, CHR 0x0A]"

definition short_line :: "string \<Rightarrow> bool" where
  "short_line l \<longleftrightarrow> good_line l \<and> length l + 3 < MAX_AT_RESPONSE"

fun read_lines :: "nat \<Rightarrow> at_channel \<Rightarrow> (string option list \<times> at_channel) res" where
  "read_lines 0 ch = Inr ([], ch)"
| "read_lines (Suc n) ch =
     bindE (readline ch) (\<lambda>(l, ch1). bindE (read_lines n ch1) (\<lambda>(ls, ch2). Inr (l # ls, ch2)))"

text \<open>Between two lines at most the newline that ended the last one is left.\<close>

definition line_stream :: "at_channel \<Rightarrow> string list \<Rightarrow> bool" where
  "line_stream ch ls \<longleftrightarrow>
     stream ch (concat (map modem_line ls)) \<or> stream ch (CHR 0x0A # concat (map modem_line ls))"

lemma line_stream_next:
  assumes "line_stream ch (l # ls)" and "short_line l"
  shows "\<exists>ch'. readline ch = Inr (Some l, ch') \<and> line_stream ch' ls \<and> at_core ch' = at_core ch"
proof -
  let ?S = "CHR 0x0A # concat (map modem_line ls)"
  have l: "good_line l" "length l + 3 < MAX_AT_RESPONSE" using assms(2) by (simp_all add: short_line_def)
  from assms(1) obtain nls where "stream ch (nls @ l @ CHR 0x0D # ?S)" "list_all is_newline nls" "length nls \<le> 3"
    unfolding line_stream_def
    by (elim disjE)
      (force simp: modem_line_def is_newline_def intro: that [of "[CHR 0x0D, CHR 0x0A]"],
       force simp: modem_line_def is_newline_def intro: that [of "[CHR 0x0A, CHR 0x0D, CHR 0x0A]"])
  then show ?thesis
    using readline_line [of ch nls l "CHR 0x0D" ?S] l by (force simp: line_stream_def is_newline_def)
qed

lemma line_stream_end:
  assumes "line_stream ch []"
  shows "readline ch = Inl Hang"
  using assms readline_waits [of ch "[]"] readline_waits [of ch "[CHR 0x0A]"]
  by (auto simp: line_stream_def is_newline_def MAX_AT_RESPONSE_def)

text \<open>C30. The lines the modem sends come out of \<open>readline\<close> one by one, unchanged and in order, however they
  are cut into reads, with interruptions anywhere; after the last one it waits.\<close>

theorem modem_lines_read:
  assumes "line_stream ch ls" and "list_all short_line ls"
  shows "\<exists>ch'. read_lines (length ls) ch = Inr (map Some ls, ch') \<and> at_core ch' = at_core ch \<and>
    readline ch' = Inl Hang"
  using assms
proof (induction ls arbitrary: ch)
  case Nil
  then show ?case using line_stream_end by simp
next
  case (Cons l ls)
  obtain ch1 where "readline ch = Inr (Some l, ch1)" "line_stream ch1 ls" "at_core ch1 = at_core ch"
    using line_stream_next [OF Cons.prems(1)] Cons.prems(2) by auto
  with Cons.IH [of ch1] Cons.prems(2) show ?case by auto
qed

text \<open>A channel as \<open>initRILChannels\<close> and \<open>at_open\<close> leave it, with what the modem will send.\<close>

definition opened_channel :: "at_read list \<Rightarrow> at_channel" where
  "opened_channel rs = (snd (at_open True 0 7 (init_ril_channel 0)))\<lparr>ac_fd := 5, ac_reads := rs\<rparr>"

lemma opened_channel_holds: "holds (opened_channel rs) [] 0"
proof -
  have "replicate (Suc MAX_AT_RESPONSE) NUL = [] @ [] @ NUL # replicate MAX_AT_RESPONSE NUL" by simp
  then show ?thesis
    unfolding holds_def text_at_def opened_channel_def at_open_def init_ril_channel_def
    by (auto simp: Let_def)
qed

lemma opened_channel_stream: "list_all live_read rs \<Longrightarrow> stream (opened_channel rs) (chars rs)"
  using opened_channel_holds [of rs] unfolding stream_def
  by (auto simp: opened_channel_def intro!: exI [of _ "[]"] exI [of _ 0])

theorem readline_refines_witness:
  "\<exists>ch'. readline (opened_channel [Read_Data ([CHR 0x0A] @ ''OK'' @ [CHR 0x0D] @ ''RI'')]) = Inr (Some ''OK'', ch') \<and>
     holds ch' ''RI'' 6"
proof -
  let ?ch = "opened_channel [Read_Data ([CHR 0x0A] @ ''OK'' @ [CHR 0x0D] @ ''RI'')]"
  have reads: "ac_reads ?ch = [Read_Data ([CHR 0x0A] @ ''OK'' @ [CHR 0x0D] @ ''RI'')]" by (simp add: opened_channel_def)
  then have "spec_readline [] 0 (ac_reads ?ch) = Inr (Some ''OK'', ''RI'', 6, [])"
    by (simp add: spec_readline_def) (subst spec_loop.simps, simp add: cut_line_def is_newline_def MAX_AT_RESPONSE_def)
  moreover have "list_all clean_read (ac_reads ?ch)" unfolding reads by simp
  ultimately show ?thesis
    using readline_refines [OF opened_channel_holds [of "[Read_Data ([CHR 0x0A] @ ''OK'' @ [CHR 0x0D] @ ''RI'')]"]]
    by (auto simp: holds_def)
qed

theorem modem_lines_read_witness:
  "\<exists>ch. read_lines 2 (opened_channel
      [Read_Data [CHR 0x0D, CHR 0x0A, CHR ''O''], Read_Interrupted,
       Read_Data ([CHR ''K'', CHR 0x0D, CHR 0x0A, CHR 0x0D, CHR 0x0A] @ ''RING''), Read_Data [CHR 0x0D, CHR 0x0A]]) =
    Inr ([Some ''OK'', Some ''RING''], ch) \<and> readline ch = Inl Hang"
proof -
  let ?rs = "[Read_Data [CHR 0x0D, CHR 0x0A, CHR ''O''], Read_Interrupted,
       Read_Data ([CHR ''K'', CHR 0x0D, CHR 0x0A, CHR 0x0D, CHR 0x0A] @ ''RING''), Read_Data [CHR 0x0D, CHR 0x0A]]"
  have "chars ?rs = concat (map modem_line [''OK'', ''RING''])" by (simp add: modem_line_def)
  then have "line_stream (opened_channel ?rs) [''OK'', ''RING'']"
    using opened_channel_stream [of ?rs] unfolding line_stream_def by simp
  moreover have "list_all short_line [''OK'', ''RING'']"
    by (simp add: short_line_def good_line_def is_newline_def MAX_AT_RESPONSE_def)
  ultimately show ?thesis using modem_lines_read [of "opened_channel ?rs" "[''OK'', ''RING'']"]
    by (auto simp: eval_nat_numeral)
qed

section \<open>The prompt\<close>

text \<open>C39. A prompt that ends a full buffer: \<open>readline\<close> puts a zero behind the terminating zero, one character
  outside \<open>ATBuffer\<close>.  A line that leaves just room for the prompt behind it is enough.\<close>

theorem prompt_overflows_buffer:
  assumes "holds ch [] e" and "ac_reads ch = Read_Data (l @ c # ''> '') # rs" and "good_line l" and "is_newline c"
    and "length l + 3 = MAX_AT_RESPONSE" and "list_all clean_read rs"
  shows "\<exists>ch'. readline ch = Inr (Some l, ch') \<and> readline ch' = Inl OutOfBounds"
proof -
  have clean: "list_all clean_read (ac_reads ch)"
    using assms(2,3,4,6) by (auto simp: good_line_def list_all_iff is_newline_def)
  have "dropWhile is_newline (l @ c # ''> '') = l @ c # ''> ''"
    using assms(3) by (cases l) (auto simp: good_line_def)
  moreover have "read_retry MAX_AT_RESPONSE (ac_reads ch) = Inr (Some (l @ c # ''> ''), rs)"
    using assms(2,5) by simp
  ultimately have "spec_loop [] 0 (ac_reads ch) = Inr (Some l, ''> '', MAX_AT_RESPONSE, rs)"
    using assms(5) cut_good [OF assms(3,4), of "''> ''" MAX_AT_RESPONSE]
    by (subst spec_loop.simps) (simp add: MAX_AT_RESPONSE_def)
  then have "spec_readline [] e (ac_reads ch) = Inr (Some l, ''> '', MAX_AT_RESPONSE, rs)"
    by (simp add: spec_readline_def)
  then obtain buf cur n where r: "readline ch =
      Inr (Some l, ch\<lparr>ac_ATBuffer := buf, ac_ATBufferCur := cur, ac_readCount := n, ac_reads := rs\<rparr>)"
    "text_at buf cur ''> '' MAX_AT_RESPONSE"
    using readline_refines [OF assms(1) clean] by auto
  let ?ch' = "ch\<lparr>ac_ATBuffer := buf, ac_ATBufferCur := cur, ac_readCount := n, ac_reads := rs\<rparr>"
  have "holds ?ch' ''> '' MAX_AT_RESPONSE" using r(2) by (simp add: holds_def)
  moreover have "spec_readline ''> '' MAX_AT_RESPONSE rs = Inl OutOfBounds"
    by (simp add: spec_readline_def cut_line_def is_newline_def)
  ultimately have "readline ?ch' = Inl OutOfBounds"
    using readline_refines [of ?ch' "''> ''" MAX_AT_RESPONSE] assms(6) by simp
  with r(1) show ?thesis by blast
qed

lemma good_line_As: "2 \<le> n \<Longrightarrow> good_line (replicate n (CHR ''A''))"
proof -
  assume "2 \<le> n"
  then obtain m where "n = m + 2" using le_Suc_ex by (metis add.commute)
  then have "n = Suc (Suc m)" by simp
  then show ?thesis by (simp add: good_line_def is_newline_def list_all_iff)
qed

theorem prompt_overflows_buffer_witness:
  "\<exists>ch'. readline (opened_channel [Read_Data (replicate (MAX_AT_RESPONSE - 3) (CHR ''A'') @ CHR 0x0D # ''> '')]) =
     Inr (Some (replicate (MAX_AT_RESPONSE - 3) (CHR ''A'')), ch') \<and> readline ch' = Inl OutOfBounds"
proof -
  have m: "3 \<le> MAX_AT_RESPONSE" "2 \<le> MAX_AT_RESPONSE - 3" by (simp_all add: MAX_AT_RESPONSE_def)
  define l where "l = replicate (MAX_AT_RESPONSE - 3) (CHR ''A'')"
  have "good_line l" "length l + 3 = MAX_AT_RESPONSE"
    unfolding l_def using m good_line_As by simp_all
  moreover have "ac_reads (opened_channel [Read_Data (l @ CHR 0x0D # ''> '')]) = Read_Data (l @ CHR 0x0D # ''> '') # []"
    by (simp add: opened_channel_def)
  moreover have "is_newline (CHR 0x0D)" by (simp add: is_newline_def)
  ultimately show ?thesis
    using prompt_overflows_buffer [OF opened_channel_holds] unfolding l_def [symmetric] by simp
qed

text \<open>A prompt that is followed by a newline takes everything behind it with it: what the modem had sent
  after it is never seen.\<close>

theorem prompt_line_drops_rest:
  assumes "holds ch [] e" and "ac_reads ch = [Read_Data (''> '' @ c # rest)]" and "is_newline c"
    and "NUL \<notin> set rest" and "length rest + 3 \<le> MAX_AT_RESPONSE"
  shows "\<exists>ch'. readline ch = Inr (Some ''> '', ch') \<and> readline ch' = Inl Hang"
proof -
  let ?h = "''> '' @ c # rest"
  have blank: "\<not> is_newline (CHR ''>'')" "\<not> is_newline (CHR '' '')" by (simp_all add: is_newline_def)
  have clean: "list_all clean_read (ac_reads ch)" using assms(2-4) by (auto simp: is_newline_def)
  have "read_retry MAX_AT_RESPONSE (ac_reads ch) = Inr (Some ?h, [])" using assms(2,5) by simp
  moreover have "cut_line ?h (length ?h) = Inr (Some (''> '', [], 3))"
    using assms(3) not_newlines [of "''> ''" "c # rest"] by (simp add: cut_line_def blank)
  moreover have "dropWhile is_newline ?h = ?h" by (simp add: blank)
  ultimately have "spec_loop [] 0 (ac_reads ch) = Inr (Some ''> '', [], 3, [])"
    using assms(5) by (subst spec_loop.simps) (simp add: MAX_AT_RESPONSE_def)
  then have "spec_readline [] e (ac_reads ch) = Inr (Some ''> '', [], 3, [])"
    by (simp add: spec_readline_def)
  then obtain buf cur n where r: "readline ch =
      Inr (Some ''> '', ch\<lparr>ac_ATBuffer := buf, ac_ATBufferCur := cur, ac_readCount := n, ac_reads := []\<rparr>)"
    "text_at buf cur [] 3"
    using readline_refines [OF assms(1) clean] by auto
  let ?ch' = "ch\<lparr>ac_ATBuffer := buf, ac_ATBufferCur := cur, ac_readCount := n, ac_reads := []\<rparr>"
  have "stream ?ch' []" using r(2) by (auto simp: stream_def holds_def)
  then have "readline ?ch' = Inl Hang" using readline_waits [of ?ch' "[]"] by (simp add: MAX_AT_RESPONSE_def)
  with r(1) show ?thesis by blast
qed

theorem prompt_line_drops_rest_witness:
  "\<exists>ch'. readline (opened_channel [Read_Data (''> '' @ CHR 0x0D # CHR 0x0A # ''+CMGS: 5'' @ [CHR 0x0D, CHR 0x0A])]) =
     Inr (Some ''> '', ch') \<and> readline ch' = Inl Hang"
  using prompt_line_drops_rest [OF opened_channel_holds, where c = "CHR 0x0D" and
      rest = "CHR 0x0A # ''+CMGS: 5'' @ [CHR 0x0D, CHR 0x0A]"]
  by (simp add: opened_channel_def is_newline_def MAX_AT_RESPONSE_def)

end
