(* ===== verification/At_Command.thy ===== *)
theory At_Command
  imports At_Reader
begin

text \<open>
  Sending a command and waiting for its response (\<open>at_send_command_full_nolock_ack\<close> and what is built on
  it in \<open>ril/gsm/mtk-ril/atchannels.c\<close>).  While a command waits the mutex of the channel is free and the
  reader dispatches lines.  A wait is therefore a list of the reader's events followed by what
  \<open>pthread_cond_timedwait\<close> returns, and a schedule is a list of waits: a statement about every schedule
  is one about every interleaving of the two threads, early and late wake-ups included.
\<close>

section \<open>Events of the reader\<close>

datatype at_event = Line string | Sms string string | Reader_Closed | Close

definition handle_sms :: "string \<Rightarrow> string \<Rightarrow> at_channel \<Rightarrow> at_channel" where
  "handle_sms l1 l2 ch =
     (if ac_unsolHandler ch then ch\<lparr>ac_unsolicited := ac_unsolicited ch @ [(l1, Some l2)]\<rparr> else ch)"

fun handle_event :: "ril_env \<Rightarrow> at_event \<Rightarrow> at_channel \<Rightarrow> at_channel res" where
  "handle_event env (Line l) ch = processLine env l ch"
| "handle_event env (Sms l1 l2) ch = Inr (handle_sms l1 l2 ch)"
| "handle_event env Reader_Closed ch = Inr (onReaderClosed env ch)"
| "handle_event env Close ch = Inr (at_close ch)"

fun handle_events :: "ril_env \<Rightarrow> at_event list \<Rightarrow> at_channel \<Rightarrow> at_channel res" where
  "handle_events env [] ch = Inr ch"
| "handle_events env (ev # evs) ch = bindE (handle_event env ev ch) (handle_events env evs)"

section \<open>The C functions\<close>

definition ETIMEDOUT :: int where "ETIMEDOUT = 110"

text \<open>
  Up to the wait: \<open>Some err\<close> when the function goes to its end at once, with the response it stores.
  \<open>want\<close> tells whether \<open>pp_outResponse\<close> is not \<open>NULL\<close>.
\<close>

definition send_begin ::
  "string \<Rightarrow> ATCommandType \<Rightarrow> string option \<Rightarrow> string option \<Rightarrow> bool \<Rightarrow> at_channel \<Rightarrow>
   (int option \<times> at_response option \<times> at_channel) res" where
  "send_begin command type responsePrefix smspdu want ch =
     (if ac_p_response ch \<noteq> None then Inr (Some AT_ERROR_COMMAND_PENDING, None, ch)
      else
        bindE (writeline command
                 (ch\<lparr>ac_type := type, ac_responsePrefix := responsePrefix, ac_smsPDU := smspdu,
                     ac_p_response := Some at_response_new\<rparr>)) (\<lambda>(err, ch1).
          if err < 0
          then Inr (Some err, if want then Some (at_response_new\<lparr>rsp_success := False\<rparr>) else None, ch1)
          else Inr (None, None, ch1)))"

text \<open>After a wake-up: a request that the modem has acknowledged is reported, once.\<close>

definition report_ack :: "bool \<Rightarrow> at_channel \<Rightarrow> at_channel res" where
  "report_ack ackToken ch =
     (case ac_p_response ch of
        None \<Rightarrow> Inl NullDeref
      | Some r \<Rightarrow>
          Inr (if rsp_finalResponse r = None \<and> \<not> ac_readerClosed ch \<and> rsp_ack r
               then (on_response (\<lambda>r. r\<lparr>rsp_ack := False\<rparr>) ch)
                      \<lparr>ac_acks := (if ackToken then Suc (ac_acks ch) else ac_acks ch)\<rparr>
               else ch))"

text \<open>The \<open>while\<close> loop; its code is 0 when it ends without a timeout.\<close>

fun wait_loop ::
  "ril_env \<Rightarrow> bool \<Rightarrow> bool \<Rightarrow> (at_event list \<times> int) list \<Rightarrow> at_channel \<Rightarrow> (int \<times> at_channel) res" where
  "wait_loop env timed ackToken sched ch =
     (case ac_p_response ch of
        None \<Rightarrow> Inl NullDeref
      | Some r \<Rightarrow>
          if rsp_finalResponse r = None \<and> \<not> ac_readerClosed ch then
            (case sched of
               [] \<Rightarrow> Inl Hang
             | (evs, err) # sched' \<Rightarrow>
                 bindE (handle_events env evs ch) (\<lambda>ch1.
                   if timed \<and> err = ETIMEDOUT then Inr (AT_ERROR_TIMEOUT, ch1)
                   else bindE (report_ack ackToken ch1) (\<lambda>ch2. wait_loop env timed ackToken sched' ch2)))
          else Inr (0, ch))"

declare wait_loop.simps [simp del]

text \<open>From the end of the loop to the return.\<close>

definition send_end :: "bool \<Rightarrow> at_channel \<Rightarrow> (int \<times> at_response option \<times> at_channel) res" where
  "send_end want ch =
     (if ac_readerClosed ch then Inr (AT_ERROR_CHANNEL_CLOSED, None, clearPendingCommand ch)
      else
        (case ac_p_response ch of
           None \<Rightarrow> if want then Inl NullDeref else Inr (0, None, clearPendingCommand ch)
         | Some r \<Rightarrow>
             Inr (0, if want then Some (reverseIntermediates r) else None,
                  clearPendingCommand (ch\<lparr>ac_p_response := None\<rparr>))))"

definition at_send_command_full_nolock_ack ::
  "ril_env \<Rightarrow> string \<Rightarrow> ATCommandType \<Rightarrow> string option \<Rightarrow> string option \<Rightarrow> int \<Rightarrow> bool \<Rightarrow> bool \<Rightarrow>
   (at_event list \<times> int) list \<Rightarrow> at_channel \<Rightarrow> (int \<times> at_response option \<times> at_channel) res" where
  "at_send_command_full_nolock_ack env command type responsePrefix smspdu timeoutMsec want ackToken sched ch =
     bindE (send_begin command type responsePrefix smspdu want ch) (\<lambda>(stop, out, ch1).
       case stop of
         Some err \<Rightarrow> Inr (err, out, clearPendingCommand ch1)
       | None \<Rightarrow>
           bindE (wait_loop env (timeoutMsec \<noteq> 0) ackToken sched ch1) (\<lambda>(err, ch2).
             if err < 0 then Inr (err, None, clearPendingCommand ch2) else send_end want ch2))"

definition at_send_command_full_nolock ::
  "ril_env \<Rightarrow> string \<Rightarrow> ATCommandType \<Rightarrow> string option \<Rightarrow> string option \<Rightarrow> int \<Rightarrow> bool \<Rightarrow>
   (at_event list \<times> int) list \<Rightarrow> at_channel \<Rightarrow> (int \<times> at_response option \<times> at_channel) res" where
  "at_send_command_full_nolock env command type responsePrefix smspdu timeoutMsec want sched ch =
     at_send_command_full_nolock_ack env command type responsePrefix smspdu timeoutMsec want False sched ch"

text \<open>\<open>strstr\<close>: the rest from the first occurrence on.\<close>

fun c_strstr :: "string \<Rightarrow> string \<Rightarrow> string option" where
  "c_strstr [] w = (if w = [] then Some [] else None)"
| "c_strstr (x # s) w = (if strStartsWith (x # s) w then Some (x # s) else c_strstr s w)"

definition has_word :: "string \<Rightarrow> string \<Rightarrow> bool" where
  "has_word s w \<longleftrightarrow> c_strstr s w \<noteq> None"

definition c_atoi :: "string \<Rightarrow> int" where
  "c_atoi s = (case c_strtol 32 10 s of None \<Rightarrow> 0 | Some n \<Rightarrow> n)"

text \<open>The table of \<open>at_commands_timeout.h\<close>, in minutes.\<close>

definition s_at_timeout :: "(string \<times> int) list" where
  "s_at_timeout = [(''CGACT'', 15), (''CGATT'', 15), (''COPS'', 15), (''CMGS'', 10), (''EFUN'', 15), (''EGACT'', 15)]"

fun find_timeout :: "(string \<times> int) list \<Rightarrow> string \<Rightarrow> int option" where
  "find_timeout [] command = None"
| "find_timeout ((w, t) # rest) command = (if has_word command w then Some (t * 60 * 1000) else find_timeout rest command)"

definition getATCommandTimeout :: "ril_env \<Rightarrow> string \<Rightarrow> int" where
  "getATCommandTimeout env command =
     (case find_timeout s_at_timeout command of Some t \<Rightarrow> t | None \<Rightarrow> s_at_timeoutMsec env)"

definition allowed_when_off :: "string list" where
  "allowed_when_off = [''EPOF'', ''EPON'', ''ESIMAUTH'', ''EAUTH'', ''EFUN'', ''ERSA'', ''EMDT'']"

definition failed_response :: "bool \<Rightarrow> at_response option" where
  "failed_response want = (if want then Some (at_response_new\<lparr>rsp_success := False\<rparr>) else None)"

text \<open>The two low power \<open>ioctl\<close>s, before and after; \<open>-1\<close> is the mode without \<open>EFUN=\<close>.\<close>

definition efun_mode :: "string \<Rightarrow> int" where
  "efun_mode command = (case c_strstr command ''EFUN='' of None \<Rightarrow> -1 | Some s \<Rightarrow> c_atoi (drop 5 s))"

definition efun_before :: "string \<Rightarrow> at_channel \<Rightarrow> at_channel" where
  "efun_before command ch =
     (if has_word command ''EFUN='' \<and> efun_mode command \<noteq> 0
      then ch\<lparr>ac_efun := ac_efun ch @ [efun_mode command]\<rparr> else ch)"

definition efun_after :: "string \<Rightarrow> int \<Rightarrow> at_response option \<Rightarrow> at_channel \<Rightarrow> at_channel" where
  "efun_after command err out ch =
     (if has_word command ''EFUN'' \<and> efun_mode command = 0 \<and> err = 0 \<and>
         (case out of None \<Rightarrow> False | Some r \<Rightarrow> rsp_success r)
      then ch\<lparr>ac_efun := ac_efun ch @ [0]\<rparr> else ch)"

text \<open>A timeout ends the process of an internal load; otherwise the modem is reset.\<close>

definition on_command_timeout :: "ril_env \<Rightarrow> int \<Rightarrow> at_channel \<Rightarrow> at_channel res" where
  "on_command_timeout env err ch =
     (if err = AT_ERROR_TIMEOUT then
        (if internal_load env then Inl Exit else Inr (ch\<lparr>ac_md_resets := Suc (ac_md_resets ch)\<rparr>))
      else Inr ch)"

text \<open>
  \<open>self\<close> is the calling thread.  The parameter \<open>timeoutMsec\<close> of the source is overwritten before its use.
  The mutex \<open>restartMutex\<close> is held from its \<open>trylock\<close> to the end, so its flag is as before on return.
\<close>

definition at_send_command_full_ack ::
  "ril_env \<Rightarrow> nat \<Rightarrow> string \<Rightarrow> ATCommandType \<Rightarrow> string option \<Rightarrow> string option \<Rightarrow> bool \<Rightarrow> bool \<Rightarrow>
   (at_event list \<times> int) list \<Rightarrow> at_channel \<Rightarrow> (int \<times> at_response option \<times> at_channel) res" where
  "at_send_command_full_ack env self command type responsePrefix smspdu want ackToken sched ch =
     (if s_md_off env = 1 \<and> list_all (\<lambda>w. \<not> has_word command w) allowed_when_off then
        Inr (AT_ERROR_RADIO_UNAVAILABLE, failed_response want, ch)
      else if ac_tid_reader ch = self then Inr (AT_ERROR_INVALID_THREAD, failed_response want, ch)
      else if ac_tid_myProxy ch \<noteq> 0 then Inl (Assert 0)
      else if ac_restart_locked ch then Inr (AT_ERROR_CHANNEL_CLOSED, failed_response want, ch)
      else
        bindE (at_send_command_full_nolock_ack env command type responsePrefix smspdu
                 (getATCommandTimeout env command) want ackToken sched
                 (efun_before command (ch\<lparr>ac_tid_myProxy := self, ac_restart_locked := True\<rparr>))) (\<lambda>(err, out, ch1).
        bindE (on_command_timeout env err ch1) (\<lambda>ch2.
          let ch3 = (efun_after command err out ch2)\<lparr>ac_tid_myProxy := 0, ac_restart_locked := False\<rparr>
          in Inr (err, out,
                  if err = AT_ERROR_TIMEOUT \<and> on_timeout env
                  then ch3\<lparr>ac_timeout_calls := Suc (ac_timeout_calls ch3)\<rparr> else ch3))))"

definition at_send_command_ack ::
  "ril_env \<Rightarrow> nat \<Rightarrow> string \<Rightarrow> bool \<Rightarrow> bool \<Rightarrow> (at_event list \<times> int) list \<Rightarrow> at_channel \<Rightarrow>
   (int \<times> at_response option \<times> at_channel) res" where
  "at_send_command_ack env self command want ackToken sched ch =
     at_send_command_full_ack env self command NO_RESULT None None want ackToken sched ch"

text \<open>A successful command that must have an intermediate response and has none is an error.\<close>

definition need_intermediate ::
  "int \<times> at_response option \<times> at_channel \<Rightarrow> int \<times> at_response option \<times> at_channel" where
  "need_intermediate = (\<lambda>(err, out, ch).
     case out of
       None \<Rightarrow> (err, out, ch)
     | Some r \<Rightarrow>
         if err = 0 \<and> rsp_success r \<and> rsp_intermediates r = [] then (AT_ERROR_INVALID_RESPONSE, None, ch)
         else (err, out, ch))"

definition at_send_command_singleline_ack ::
  "ril_env \<Rightarrow> nat \<Rightarrow> string \<Rightarrow> string \<Rightarrow> bool \<Rightarrow> bool \<Rightarrow> (at_event list \<times> int) list \<Rightarrow> at_channel \<Rightarrow>
   (int \<times> at_response option \<times> at_channel) res" where
  "at_send_command_singleline_ack env self command responsePrefix want ackToken sched ch =
     map_sum id need_intermediate
       (at_send_command_full_ack env self command SINGLELINE (Some responsePrefix) None want ackToken sched ch)"

definition at_send_command_numeric_ack ::
  "ril_env \<Rightarrow> nat \<Rightarrow> string \<Rightarrow> bool \<Rightarrow> bool \<Rightarrow> (at_event list \<times> int) list \<Rightarrow> at_channel \<Rightarrow>
   (int \<times> at_response option \<times> at_channel) res" where
  "at_send_command_numeric_ack env self command want ackToken sched ch =
     map_sum id need_intermediate
       (at_send_command_full_ack env self command NUMERIC None None want ackToken sched ch)"

definition at_send_command_sms_ack ::
  "ril_env \<Rightarrow> nat \<Rightarrow> string \<Rightarrow> string \<Rightarrow> string \<Rightarrow> bool \<Rightarrow> bool \<Rightarrow> (at_event list \<times> int) list \<Rightarrow> at_channel \<Rightarrow>
   (int \<times> at_response option \<times> at_channel) res" where
  "at_send_command_sms_ack env self command pdu responsePrefix want ackToken sched ch =
     map_sum id need_intermediate
       (at_send_command_full_ack env self command SINGLELINE (Some responsePrefix) (Some pdu) want ackToken sched ch)"

definition at_send_command_multiline_ack ::
  "ril_env \<Rightarrow> nat \<Rightarrow> string \<Rightarrow> string \<Rightarrow> bool \<Rightarrow> bool \<Rightarrow> (at_event list \<times> int) list \<Rightarrow> at_channel \<Rightarrow>
   (int \<times> at_response option \<times> at_channel) res" where
  "at_send_command_multiline_ack env self command responsePrefix want ackToken sched ch =
     at_send_command_full_ack env self command MULTILINE (Some responsePrefix) None want ackToken sched ch"

text \<open>Chip test mode: the radio states follow \<open>AT+EFUN\<close>.  A state is on when the bit of its SIM is set.\<close>

definition updateRadioStateWithTargetMode :: "ril_env \<Rightarrow> int \<Rightarrow> at_channel \<Rightarrow> at_channel" where
  "updateRadioStateWithTargetMode env targetMode ch =
     (let simId3G = get3GSIM env - 1;
          power = (\<lambda>i. if simId3G = 0 then targetMode AND push_bit i 1
                       else (let protocolId = (if int i = simId3G then 0 else if i = 0 then simId3G else int i)
                             in targetMode AND push_bit (nat protocolId) 1))
      in ch\<lparr>ac_radio_states := ac_radio_states ch @ map (\<lambda>i. (i, power i > 0)) [0..<getSimCount env]\<rparr>)"

text \<open>\<open>sscanf (command, "AT+EFUN=%d", &targetMode)\<close>.\<close>

definition scan_efun :: "string \<Rightarrow> int option" where
  "scan_efun command = (if strStartsWith command ''AT+EFUN='' then c_strtol 32 10 (drop 8 command) else None)"

definition at_send_command_raw_ack ::
  "ril_env \<Rightarrow> nat \<Rightarrow> string \<Rightarrow> bool \<Rightarrow> bool \<Rightarrow> (at_event list \<times> int) list \<Rightarrow> at_channel \<Rightarrow>
   (int \<times> at_response option \<times> at_channel) res" where
  "at_send_command_raw_ack env self command want ackToken sched ch =
     bindE (at_send_command_full_ack env self command RAW None None want ackToken sched ch) (\<lambda>(err, out, ch1).
       Inr (err, out,
         if chip_test_mode env \<and> strStartsWith command ''AT+EFUN''
         then (case scan_efun command of None \<Rightarrow> ch1 | Some m \<Rightarrow> updateRadioStateWithTargetMode env m ch1)
         else ch1))"

definition HANDSHAKE_RETRY_COUNT :: nat where "HANDSHAKE_RETRY_COUNT = 8"

text \<open>The rounds of \<open>at_handshake\<close>, one schedule each, until one succeeds.\<close>

fun handshake_loop ::
  "ril_env \<Rightarrow> nat \<Rightarrow> int \<Rightarrow> (at_event list \<times> int) list list \<Rightarrow> at_channel \<Rightarrow> (int \<times> at_channel) res" where
  "handshake_loop env 0 err scheds ch = Inr (err, ch)"
| "handshake_loop env (Suc n) err [] ch = Inl Hang"
| "handshake_loop env (Suc n) err (sched # scheds) ch =
     bindE (at_send_command_full_nolock env ''ATE0Q0V1'' NO_RESULT None None 0 False sched ch) (\<lambda>(err', out, ch').
       if err' = 0 then Inr (0, ch') else handshake_loop env n err' scheds ch')"

definition at_handshake ::
  "ril_env \<Rightarrow> nat \<Rightarrow> (at_event list \<times> int) list list \<Rightarrow> at_channel \<Rightarrow> (int \<times> at_channel) res" where
  "at_handshake env self scheds ch =
     (if ac_tid_reader ch = self then Inr (AT_ERROR_INVALID_THREAD, ch)
      else handshake_loop env HANDSHAKE_RETRY_COUNT 0 scheds ch)"

section \<open>Lines and the state of the channel\<close>

lemma strStartsWith_iff: "strStartsWith line prefix \<longleftrightarrow> take (length prefix) line = prefix"
  by (induction line prefix rule: strStartsWith.induct) auto

lemma on_response_Some [simp]:
  "ac_p_response ch = Some r \<Longrightarrow> on_response f ch = ch\<lparr>ac_p_response := Some (f r)\<rparr>"
  by (simp add: on_response_def)

lemma write_loop_sent: "write_loop s ws sent = Inr (0, ws', sent') \<Longrightarrow> sent' = sent @ s"
proof (induction s ws sent rule: write_loop.induct)
  case (5 x s n ws sent)
  have "take n (x # s) @ drop n (x # s) = x # s" by (rule append_take_drop_id)
  with 5 show ?case by fastforce
qed (auto simp: AT_ERROR_GENERIC_def)

text \<open>Which plain lines are intermediate results, given those there already are.\<close>

definition wanted :: "ril_env \<Rightarrow> at_channel \<Rightarrow> ATCommandType \<Rightarrow> string option \<Rightarrow> string list \<Rightarrow> string \<Rightarrow> bool" where
  "wanted env ch T p acc l \<longleftrightarrow>
     (case T of
        NO_RESULT \<Rightarrow> False
      | NUMERIC \<Rightarrow> acc = [] \<and> isdigit0 l
      | SINGLELINE \<Rightarrow> acc = [] \<and> strStartsWith l (the p)
      | MULTILINE \<Rightarrow> strStartsWith l (the p)
      | RAW \<Rightarrow> \<not> isFinalResponseSuccess l \<and> \<not> isFinalResponseErrorEx env l ch \<and> \<not> isIntermediatePattern l)"

definition plain_line :: "ril_env \<Rightarrow> at_channel \<Rightarrow> string \<Rightarrow> bool" where
  "plain_line env ch l \<longleftrightarrow> \<not> isRequestAcked l \<and> \<not> isFinalResponseSuccess l \<and> \<not> isFinalResponseErrorEx env l ch \<and>
     \<not> isIntermediatePattern l"

fun plain_event :: "ril_env \<Rightarrow> at_channel \<Rightarrow> at_event \<Rightarrow> bool" where
  "plain_event env ch (Line l) \<longleftrightarrow> plain_line env ch l"
| "plain_event env ch (Sms l1 l2) \<longleftrightarrow> True"
| "plain_event env ch _ \<longleftrightarrow> False"

text \<open>What becomes of the events of a command: the intermediate results, and what is handed over.\<close>

fun answer ::
  "ril_env \<Rightarrow> at_channel \<Rightarrow> ATCommandType \<Rightarrow> string option \<Rightarrow> string list \<Rightarrow> at_event list \<Rightarrow>
   string list \<times> (string \<times> string option) list" where
  "answer env ch T p acc (Line l # evs) =
     (if wanted env ch T p acc l then answer env ch T p (acc @ [l]) evs
      else map_prod id ((#) (l, None)) (answer env ch T p acc evs))"
| "answer env ch T p acc (Sms l1 l2 # evs) = map_prod id ((#) (l1, Some l2)) (answer env ch T p acc evs)"
| "answer env ch T p acc _ = (acc, [])"

text \<open>The prefix is there when the type needs one.\<close>

definition prefix_given :: "ATCommandType \<Rightarrow> string option \<Rightarrow> bool" where
  "prefix_given T p \<longleftrightarrow> (T = SINGLELINE \<or> T = MULTILINE \<longrightarrow> p \<noteq> None)"

lemma intermediate_line_wanted:
  assumes "isNumericSet env \<noteq> 1" and "prefix_given (ac_type ch) (ac_responsePrefix ch)" and "ac_id c = ac_id ch"
  shows "intermediate_line env l r ch =
    Inr (wanted env c (ac_type ch) (ac_responsePrefix ch) (rev (rsp_intermediates r)) l)"
  using assms
  by (cases "ac_type ch")
    (auto simp: intermediate_line_def wanted_def prefix_given_def has_prefix_def isFinalResponseErrorEx_def
      split: option.splits)

lemma plain_line_id: "ac_id c = ac_id ch \<Longrightarrow> plain_line env c l = plain_line env ch l"
  by (simp add: plain_line_def isFinalResponseErrorEx_def)

lemma processLine_plain:
  assumes "isNumericSet env \<noteq> 1" and "prefix_given (ac_type ch) (ac_responsePrefix ch)" and "ac_id c = ac_id ch"
    and "ac_p_response ch = Some r" and "plain_line env c l"
  shows "processLine env l ch =
    Inr (if wanted env c (ac_type ch) (ac_responsePrefix ch) (rev (rsp_intermediates r)) l
         then addIntermediate l ch else handleUnsolicited l ch)"
proof -
  have "plain_line env ch l" using assms(3,5) plain_line_id by metis
  moreover have "isIntermediatePattern ''> ''" by (simp add: isIntermediatePattern_def s_IntermediatePattern_def)
  ultimately show ?thesis
    using assms(1,4) intermediate_line_wanted [OF assms(1-3), of l r]
    by (auto simp: processLine_def plain_line_def other_line_def)
qed

lemma handle_plain:
  assumes "isNumericSet env \<noteq> 1" and "prefix_given (ac_type ch) (ac_responsePrefix ch)" and "ac_id c = ac_id ch"
    and "ac_p_response ch = Some r" and "ac_unsolHandler ch" and "list_all (plain_event env c) evs"
  shows "handle_events env evs ch =
    (case answer env c (ac_type ch) (ac_responsePrefix ch) (rev (rsp_intermediates r)) evs of
       (a, u) \<Rightarrow> Inr (ch\<lparr>ac_p_response := Some (r\<lparr>rsp_intermediates := rev a\<rparr>),
                        ac_unsolicited := ac_unsolicited ch @ u\<rparr>))"
  using assms
proof (induction evs arbitrary: ch r)
  case Nil
  then show ?case by simp
next
  case (Cons ev evs)
  show ?case
  proof (cases ev)
    case (Line l)
    with Cons.prems have plain: "plain_line env c l" by simp
    show ?thesis
    proof (cases "wanted env c (ac_type ch) (ac_responsePrefix ch) (rev (rsp_intermediates r)) l")
      case True
      have "processLine env l ch = Inr (addIntermediate l ch)"
        using processLine_plain [OF Cons.prems(1-4) plain] True by simp
      then show ?thesis
        using Cons.IH [of "addIntermediate l ch"] Cons.prems Line True by (simp add: addIntermediate_def)
    next
      case False
      have "processLine env l ch = Inr (handleUnsolicited l ch)"
        using processLine_plain [OF Cons.prems(1-4) plain] False by simp
      then show ?thesis
        using Cons.IH [of "handleUnsolicited l ch"] Cons.prems Line False
        by (simp add: handleUnsolicited_def split: prod.splits)
    qed
  next
    case (Sms l1 l2)
    then show ?thesis
      using Cons.IH [of "handle_sms l1 l2 ch"] Cons.prems by (simp add: handle_sms_def split: prod.splits)
  qed (use Cons.prems in simp_all)
qed

text \<open>A final line that is not wanted as an intermediate result.\<close>

definition final_line :: "ril_env \<Rightarrow> at_channel \<Rightarrow> string \<Rightarrow> bool" where
  "final_line env ch l \<longleftrightarrow> \<not> isRequestAcked l \<and> (isFinalResponseSuccess l \<or> isFinalResponseErrorEx env l ch)"

lemma processLine_final:
  assumes "isNumericSet env \<noteq> 1" and "prefix_given (ac_type ch) (ac_responsePrefix ch)" and "ac_id c = ac_id ch"
    and "ac_p_response ch = Some r" and "final_line env c l"
    and "\<not> wanted env c (ac_type ch) (ac_responsePrefix ch) (rev (rsp_intermediates r)) l"
  shows "processLine env l ch = Inr (final_response (isFinalResponseSuccess l) l ch)"
proof -
  have "isFinalResponseErrorEx env l ch = isFinalResponseErrorEx env l c"
    using assms(3) by (simp add: isFinalResponseErrorEx_def)
  then show ?thesis
    using assms(4-6) intermediate_line_wanted [OF assms(1-3), of l r]
    by (auto simp: processLine_def final_line_def other_line_def)
qed

lemma handle_events_append:
  "handle_events env (xs @ ys) ch = bindE (handle_events env xs ch) (handle_events env ys)"
  by (induction xs arbitrary: ch) (auto simp: bindE_assoc intro: bindE_cong)

text \<open>A pending command and the channel of the sender.\<close>

definition waiting :: "ril_env \<Rightarrow> at_channel \<Rightarrow> at_channel \<Rightarrow> at_response \<Rightarrow> bool" where
  "waiting env c ch r \<longleftrightarrow> isNumericSet env \<noteq> 1 \<and> prefix_given (ac_type ch) (ac_responsePrefix ch) \<and>
     ac_id c = ac_id ch \<and> ac_p_response ch = Some r \<and> ac_unsolHandler ch \<and> \<not> ac_readerClosed ch \<and>
     rsp_finalResponse r = None \<and> \<not> rsp_ack r"

definition completed :: "string \<Rightarrow> string list \<Rightarrow> (string \<times> string option) list \<Rightarrow> at_response \<Rightarrow> at_channel \<Rightarrow> at_channel" where
  "completed fin a u r ch =
     ch\<lparr>ac_p_response := Some (r\<lparr>rsp_intermediates := rev a, rsp_success := isFinalResponseSuccess fin,
                                rsp_finalResponse := Some fin\<rparr>),
        ac_unsolicited := ac_unsolicited ch @ u, ac_signals := Suc (ac_signals ch)\<rparr>"

lemma handle_to_final:
  assumes "waiting env c ch r" and "list_all (plain_event env c) evs"
    and "answer env c (ac_type ch) (ac_responsePrefix ch) (rev (rsp_intermediates r)) evs = (a, u)"
    and "final_line env c fin" and "\<not> wanted env c (ac_type ch) (ac_responsePrefix ch) a fin"
  shows "handle_events env (evs @ [Line fin]) ch = Inr (completed fin a u r ch)"
proof -
  let ?ch = "ch\<lparr>ac_p_response := Some (r\<lparr>rsp_intermediates := rev a\<rparr>), ac_unsolicited := ac_unsolicited ch @ u\<rparr>"
  have "handle_events env evs ch = Inr ?ch"
    using handle_plain [of env ch c r evs] assms(1-3) by (simp add: waiting_def)
  moreover have "processLine env fin ?ch = Inr (final_response (isFinalResponseSuccess fin) fin ?ch)"
    using assms processLine_final [of env ?ch c "r\<lparr>rsp_intermediates := rev a\<rparr>" fin] by (simp add: waiting_def)
  ultimately show ?thesis
    by (simp add: handle_events_append completed_def final_response_def handleFinalResponse_def)
qed

text \<open>
  The outcome of the events of a pending command so far: the intermediate results, what was handed over,
  and the last final line.  The reader does not look whether there is one already.
\<close>

type_synonym at_outcome = "string list \<times> (string \<times> string option) list \<times> string option"

fun line_event :: "ril_env \<Rightarrow> at_channel \<Rightarrow> at_event \<Rightarrow> bool" where
  "line_event env c (Line l) \<longleftrightarrow> plain_line env c l \<or> final_line env c l"
| "line_event env c (Sms l1 l2) \<longleftrightarrow> True"
| "line_event env c _ \<longleftrightarrow> False"

fun outcome_step ::
  "ril_env \<Rightarrow> at_channel \<Rightarrow> ATCommandType \<Rightarrow> string option \<Rightarrow> at_outcome \<Rightarrow> at_event \<Rightarrow> at_outcome" where
  "outcome_step env c T p (a, u, fin) (Line l) =
     (if wanted env c T p a l then (a @ [l], u, fin)
      else if final_line env c l then (a, u, Some l)
      else (a, u @ [(l, None)], fin))"
| "outcome_step env c T p (a, u, fin) (Sms l1 l2) = (a, u @ [(l1, Some l2)], fin)"
| "outcome_step env c T p (a, u, fin) _ = (a, u, fin)"

definition outcome ::
  "ril_env \<Rightarrow> at_channel \<Rightarrow> ATCommandType \<Rightarrow> string option \<Rightarrow> at_event list \<Rightarrow> at_outcome" where
  "outcome env c T p evs = foldl (outcome_step env c T p) ([], [], None) evs"

fun with_final :: "string option \<Rightarrow> at_response \<Rightarrow> at_response" where
  "with_final None r = r"
| "with_final (Some l) r = r\<lparr>rsp_success := isFinalResponseSuccess l, rsp_finalResponse := Some l\<rparr>"

definition progress :: "at_response \<Rightarrow> at_channel \<Rightarrow> at_outcome \<Rightarrow> at_channel \<Rightarrow> bool" where
  "progress r0 ch0 o1 ch \<longleftrightarrow>
     (case o1 of (a, u, fin) \<Rightarrow>
        \<exists>k. ch = ch0\<lparr>ac_p_response := Some (with_final fin (r0\<lparr>rsp_intermediates := rev a\<rparr>)),
                      ac_unsolicited := ac_unsolicited ch0 @ u, ac_signals := k\<rparr>)"

lemma with_final_fields [simp]:
  "rsp_intermediates (with_final fin r) = rsp_intermediates r" "rsp_ack (with_final fin r) = rsp_ack r"
  "rsp_finalResponse (with_final fin r) = (case fin of None \<Rightarrow> rsp_finalResponse r | Some l \<Rightarrow> Some l)"
  "with_final fin (r\<lparr>rsp_intermediates := xs\<rparr>) = with_final fin r\<lparr>rsp_intermediates := xs\<rparr>"
  "with_final (Some l) (with_final fin r) = with_final (Some l) r"
  by (cases fin; simp)+

lemma progressE:
  assumes "progress r0 ch0 (a, u, fin) ch"
  obtains k where "ch = ch0\<lparr>ac_p_response := Some (with_final fin r0\<lparr>rsp_intermediates := rev a\<rparr>),
    ac_unsolicited := ac_unsolicited ch0 @ u, ac_signals := k\<rparr>"
  using assms unfolding progress_def prod.case with_final_fields by (elim exE)

lemma progressI:
  "ch = ch0\<lparr>ac_p_response := Some (with_final fin r0\<lparr>rsp_intermediates := rev a\<rparr>),
     ac_unsolicited := ac_unsolicited ch0 @ u, ac_signals := k\<rparr> \<Longrightarrow> progress r0 ch0 (a, u, fin) ch"
  unfolding progress_def prod.case with_final_fields by (rule exI)

lemma progress_steps:
  assumes "progress r0 ch0 (a, u, fin) ch" and "ac_unsolHandler ch0"
  shows "progress r0 ch0 (a @ [l], u, fin) (addIntermediate l ch)"
    "progress r0 ch0 (a, u, Some l) (final_response (isFinalResponseSuccess l) l ch)"
    "progress r0 ch0 (a, u @ [(l, None)], fin) (handleUnsolicited l ch)"
    "progress r0 ch0 (a, u @ [(l1, Some l2)], fin) (handle_sms l1 l2 ch)"
proof -
  from assms(1) obtain k where ch: "ch = ch0\<lparr>ac_p_response := Some (with_final fin r0\<lparr>rsp_intermediates := rev a\<rparr>),
    ac_unsolicited := ac_unsolicited ch0 @ u, ac_signals := k\<rparr>" by (rule progressE)
  show "progress r0 ch0 (a @ [l], u, fin) (addIntermediate l ch)"
    by (rule progressI [where k = k]) (simp add: ch addIntermediate_def)
  show "progress r0 ch0 (a, u, Some l) (final_response (isFinalResponseSuccess l) l ch)"
    by (rule progressI [where k = "Suc k"])
      (cases fin; simp add: ch final_response_def handleFinalResponse_def)
  show "progress r0 ch0 (a, u @ [(l, None)], fin) (handleUnsolicited l ch)"
    by (rule progressI [where k = k]) (simp add: ch handleUnsolicited_def assms(2))
  show "progress r0 ch0 (a, u @ [(l1, Some l2)], fin) (handle_sms l1 l2 ch)"
    by (rule progressI [where k = k]) (simp add: ch handle_sms_def assms(2))
qed

lemma handle_event_progress:
  assumes wait: "waiting env c ch0 r0" and pr: "progress r0 ch0 o1 ch" and ev: "line_event env c ev"
  shows "\<exists>ch'. handle_event env ev ch = Inr ch' \<and>
    progress r0 ch0 (outcome_step env c (ac_type ch0) (ac_responsePrefix ch0) o1 ev) ch'"
proof -
  obtain a u fin where o1: "o1 = (a, u, fin)" by (cases o1)
  let ?r = "with_final fin r0\<lparr>rsp_intermediates := rev a\<rparr>"
  note pr' = pr [unfolded o1]
  from pr' obtain k where ch: "ch = ch0\<lparr>ac_p_response := Some ?r, ac_unsolicited := ac_unsolicited ch0 @ u, ac_signals := k\<rparr>"
    by (rule progressE)
  have pre: "isNumericSet env \<noteq> 1" "prefix_given (ac_type ch) (ac_responsePrefix ch)" "ac_id c = ac_id ch"
    "ac_p_response ch = Some ?r" and same: "ac_type ch = ac_type ch0" "ac_responsePrefix ch = ac_responsePrefix ch0"
    and u: "ac_unsolHandler ch0"
    using wait by (simp_all add: waiting_def ch)
  note step = progress_steps [OF pr' u]
  show ?thesis
  proof (cases ev)
    case (Line l)
    then consider "wanted env c (ac_type ch0) (ac_responsePrefix ch0) a l" "\<not> isRequestAcked l"
      | "\<not> wanted env c (ac_type ch0) (ac_responsePrefix ch0) a l" "final_line env c l"
      | "\<not> wanted env c (ac_type ch0) (ac_responsePrefix ch0) a l" "\<not> final_line env c l" "plain_line env c l"
      using ev by (auto simp: plain_line_def final_line_def)
    then show ?thesis
    proof cases
      case 1
      have "processLine env l ch = Inr (addIntermediate l ch)"
        using 1 intermediate_line_wanted [OF pre(1-3), of l ?r] pre(4) same by (simp add: processLine_def)
      then show ?thesis using 1(1) step(1) by (simp add: Line o1)
    next
      case 2
      have "processLine env l ch = Inr (final_response (isFinalResponseSuccess l) l ch)"
        using processLine_final [OF pre 2(2)] 2(1) same by simp
      then show ?thesis using 2 step(2) by (simp add: Line o1)
    next
      case 3
      have "processLine env l ch = Inr (handleUnsolicited l ch)"
        using processLine_plain [OF pre 3(3)] 3(1) same by simp
      then show ?thesis using 3 step(3) by (simp add: Line o1)
    qed
  next
    case (Sms l1 l2)
    then show ?thesis using step(4) by (simp add: o1)
  qed (use ev in simp_all)
qed

lemma handle_events_progress:
  assumes "waiting env c ch0 r0" and "progress r0 ch0 o1 ch" and "list_all (line_event env c) evs"
  shows "\<exists>ch'. handle_events env evs ch = Inr ch' \<and>
    progress r0 ch0 (foldl (outcome_step env c (ac_type ch0) (ac_responsePrefix ch0)) o1 evs) ch'"
  using assms(2,3)
proof (induction evs arbitrary: o1 ch)
  case (Cons ev evs)
  from handle_event_progress [OF assms(1) Cons.prems(1), of ev] Cons.prems(2)
  obtain ch1 where "handle_event env ev ch = Inr ch1"
    "progress r0 ch0 (outcome_step env c (ac_type ch0) (ac_responsePrefix ch0) o1 ev) ch1" by auto
  with Cons.IH [of _ ch1] Cons.prems(2) show ?case by simp
qed simp

text \<open>A final line is never taken back.\<close>

lemma outcome_final_stays:
  "snd (snd (foldl (outcome_step env c T p) o1 evs)) = None \<Longrightarrow> snd (snd o1) = None"
proof (induction evs arbitrary: o1)
  case (Cons ev evs)
  then have "snd (snd (outcome_step env c T p o1 ev)) = None" by simp
  then show ?case by (cases o1; cases ev) (auto split: if_splits)
qed simp

definition no_timeout :: "(at_event list \<times> int) list \<Rightarrow> bool" where
  "no_timeout sched \<longleftrightarrow> (\<forall>w \<in> set sched. snd w \<noteq> ETIMEDOUT)"

lemma progress_ack:
  assumes "waiting env c ch0 r0" and "progress r0 ch0 o1 ch"
  shows "report_ack ackToken ch = Inr ch"
  using assms by (cases o1) (auto simp: progress_def report_ack_def waiting_def)

text \<open>One round of the \<open>while\<close> loop, and its end.\<close>

lemma wait_round:
  assumes "waiting env c ch0 r0" and "progress r0 ch0 o1 ch" and "snd (snd o1) = None"
    and "list_all (line_event env c) evs" and "timed \<longrightarrow> err \<noteq> ETIMEDOUT"
  shows "\<exists>ch'. progress r0 ch0 (foldl (outcome_step env c (ac_type ch0) (ac_responsePrefix ch0)) o1 evs) ch' \<and>
    wait_loop env timed ackToken ((evs, err) # sched) ch = wait_loop env timed ackToken sched ch'"
proof -
  obtain a u where o1: "o1 = (a, u, None)" using assms(3) by (cases o1) auto
  then have go: "ac_p_response ch = Some (r0\<lparr>rsp_intermediates := rev a\<rparr>)" "rsp_finalResponse r0 = None"
    "\<not> ac_readerClosed ch"
    using assms(1,2) by (auto simp: progress_def waiting_def)
  from handle_events_progress [OF assms(1,2,4)] obtain ch' where
    h: "handle_events env evs ch = Inr ch'"
      "progress r0 ch0 (foldl (outcome_step env c (ac_type ch0) (ac_responsePrefix ch0)) o1 evs) ch'" by blast
  have "wait_loop env timed ackToken ((evs, err) # sched) ch = wait_loop env timed ackToken sched ch'"
    using go h(1) progress_ack [OF assms(1) h(2)] assms(5) by (subst wait_loop.simps) auto
  with h(2) show ?thesis by blast
qed

lemma wait_to_final:
  assumes wait: "waiting env c ch0 r0" and pr: "progress r0 ch0 o1 ch"
    and ev: "list_all (line_event env c) (concat (map fst before) @ evs)"
    and time: "timed \<longrightarrow> no_timeout (before @ [(evs, err)])"
    and none: "snd (snd (foldl (outcome_step env c (ac_type ch0) (ac_responsePrefix ch0)) o1 (concat (map fst before)))) = None"
    and final: "foldl (outcome_step env c (ac_type ch0) (ac_responsePrefix ch0)) o1 (concat (map fst before) @ evs) = (a, u, Some fin)"
  shows "\<exists>ch'. wait_loop env timed ackToken (before @ (evs, err) # later) ch = Inr (0, ch') \<and>
    progress r0 ch0 (a, u, Some fin) ch'"
  using pr ev time none final
proof (induction before arbitrary: o1 ch)
  case Nil
  then obtain ch' where p: "progress r0 ch0 (a, u, Some fin) ch'"
    and w: "wait_loop env timed ackToken ([] @ (evs, err) # later) ch = wait_loop env timed ackToken later ch'"
    using wait_round [OF wait, of o1 ch evs timed err ackToken later] by (auto simp: no_timeout_def)
  have "ac_p_response ch' \<noteq> None" "\<And>r. ac_p_response ch' = Some r \<Longrightarrow> rsp_finalResponse r \<noteq> None"
    using p by (auto simp: progress_def)
  then have "wait_loop env timed ackToken later ch' = Inr (0, ch')"
    by (subst wait_loop.simps) (auto split: option.split)
  with p w show ?case by auto
next
  case (Cons w before)
  obtain evs1 err1 where w: "w = (evs1, err1)" by fastforce
  let ?o = "foldl (outcome_step env c (ac_type ch0) (ac_responsePrefix ch0)) o1 evs1"
  have "snd (snd o1) = None" using outcome_final_stays [OF Cons.prems(4)] .
  then obtain ch1 where p: "progress r0 ch0 ?o ch1"
    and r: "wait_loop env timed ackToken ((evs1, err1) # before @ (evs, err) # later) ch =
      wait_loop env timed ackToken (before @ (evs, err) # later) ch1"
    using wait_round [OF wait Cons.prems(1), of evs1 timed err1 ackToken "before @ (evs, err) # later"] Cons.prems(2,3)
    by (auto simp: w no_timeout_def)
  have "\<exists>ch'. wait_loop env timed ackToken (before @ (evs, err) # later) ch1 = Inr (0, ch') \<and>
      progress r0 ch0 (a, u, Some fin) ch'"
    using Cons.prems(2-5) by (intro Cons.IH [OF p]) (simp_all add: w no_timeout_def)
  then show ?case using r by (simp add: w)
qed

section \<open>A command and its response\<close>

definition ready :: "ril_env \<Rightarrow> at_channel \<Rightarrow> bool" where
  "ready env ch \<longleftrightarrow> isNumericSet env \<noteq> 1 \<and> ac_p_response ch = None \<and> 0 \<le> ac_fd ch \<and> \<not> ac_readerClosed ch \<and>
     ac_unsolHandler ch"

lemma reverse_loop_rev: "reverse_loop xs built = rev xs @ built"
  by (induction xs arbitrary: built) auto

text \<open>The channel while the command waits for its first event.\<close>

definition sending :: "ATCommandType \<Rightarrow> string option \<Rightarrow> string option \<Rightarrow> at_write list \<Rightarrow> string \<Rightarrow> at_channel \<Rightarrow> at_channel" where
  "sending T p smspdu ws sent ch =
     ch\<lparr>ac_type := T, ac_responsePrefix := p, ac_smsPDU := smspdu, ac_p_response := Some at_response_new,
        ac_writes := ws, ac_sent := sent\<rparr>"

lemma sending_fields [simp]:
  "ac_type (sending T p s ws sent ch) = T" "ac_responsePrefix (sending T p s ws sent ch) = p"
  "ac_p_response (sending T p s ws sent ch) = Some at_response_new" "ac_id (sending T p s ws sent ch) = ac_id ch"
  "ac_readerClosed (sending T p s ws sent ch) = ac_readerClosed ch" "ac_fd (sending T p s ws sent ch) = ac_fd ch"
  "ac_unsolHandler (sending T p s ws sent ch) = ac_unsolHandler ch" "ac_sent (sending T p s ws sent ch) = sent"
  "ac_unsolicited (sending T p s ws sent ch) = ac_unsolicited ch" "ac_smsPDU (sending T p s ws sent ch) = s"
  "ac_writes (sending T p s ws sent ch) = ws"
  by (simp_all add: sending_def)

lemma send_begin_ok:
  assumes "ready env ch" and "write_loop (command @ [CHR 0x0D]) (ac_writes ch) (ac_sent ch) = Inr (0, ws, sent)"
  shows "send_begin command T p smspdu want ch = Inr (None, None, sending T p smspdu ws sent ch)"
  using assms by (simp add: send_begin_def ready_def writeline_def sending_def)

lemma sending_waiting:
  assumes "ready env ch" and "prefix_given T p"
  shows "waiting env ch (sending T p smspdu ws sent ch) at_response_new"
  using assms by (simp add: waiting_def ready_def at_response_new_def)

text \<open>What the caller gets, and how it leaves the channel.\<close>

definition response :: "bool \<Rightarrow> string \<Rightarrow> string list \<Rightarrow> at_response" where
  "response ok fin a = \<lparr>rsp_success = ok, rsp_ack = False, rsp_finalResponse = Some fin, rsp_intermediates = a\<rparr>"

definition after_command ::
  "string \<Rightarrow> (string \<times> string option) list \<Rightarrow> ril_env \<Rightarrow> at_channel \<Rightarrow> at_channel \<Rightarrow> bool" where
  "after_command written u env ch ch' \<longleftrightarrow> ready env ch' \<and> ac_sent ch' = ac_sent ch @ written \<and>
     ac_unsolicited ch' = ac_unsolicited ch @ u \<and> ac_smsPDU ch' = None \<and>
     ac_id ch' = ac_id ch \<and> ac_tid_reader ch' = ac_tid_reader ch \<and> ac_tid_myProxy ch' = ac_tid_myProxy ch \<and>
     ac_restart_locked ch' = ac_restart_locked ch"

lemma send_end_progress:
  assumes "ready env ch" and "progress at_response_new (sending T p smspdu ws (ac_sent ch @ w) ch) (a, u, Some fin) ch1"
  shows "\<exists>ch'. send_end True ch1 = Inr (0, Some (response (isFinalResponseSuccess fin) fin a), ch') \<and>
    after_command w u env ch ch'"
  using assms
  by (auto simp: send_end_def progress_def sending_def ready_def reverseIntermediates_def reverse_loop_rev
      response_def after_command_def clearPendingCommand_def at_response_new_def)

text \<open>C28. A command that is written on a channel that is ready and not in numeric mode, the reader and the
  wake-ups, in any order: \<open>before\<close> are the waits that end without a
  final line, \<open>evs\<close> is all the reader does in the wait in which one arrives, also after that line and before
  the waiting thread goes on; a wake-up may be early, late or spurious.  The response then has the last
  final line of that wait, the success it stands for, and as intermediate results, in the order of the
  modem, exactly the lines the type of the command asks for; every other line and every short message is
  handed over as unsolicited, in order; the channel is ready again, and what the reader does later is not
  this command's.  The lines are those of a command that needs no dialogue: no acknowledgement \<open>ACK\<close> and no
  prompt among them; the reader does not lose the modem, and no wait times out unless the command waits
  without a limit.\<close>

theorem command_response:
  assumes "ready env ch" and "prefix_given T p"
    and "write_loop (command @ [CHR 0x0D]) (ac_writes ch) (ac_sent ch) = Inr (0, ws, sent)"
    and "list_all (line_event env ch) (concat (map fst before) @ evs)"
    and "timeoutMsec \<noteq> 0 \<longrightarrow> no_timeout (before @ [(evs, err)])"
    and "outcome env ch T p (concat (map fst before)) = (a0, u0, None)"
    and "outcome env ch T p (concat (map fst before) @ evs) = (a, u, Some fin)"
  shows "\<exists>ch'. at_send_command_full_nolock_ack env command T p smspdu timeoutMsec True ackToken
      (before @ (evs, err) # later) ch =
      Inr (0, Some (response (isFinalResponseSuccess fin) fin a), ch') \<and>
    after_command (command @ [CHR 0x0D]) u env ch ch'"
proof -
  let ?s = "sending T p smspdu ws sent ch"
  have sent: "sent = ac_sent ch @ command @ [CHR 0x0D]" using write_loop_sent [OF assms(3)] .
  have start: "progress at_response_new ?s ([], [], None) ?s"
    by (rule progressI [where k = "ac_signals ch"]) (cases ch, simp add: sending_def at_response_new_def)
  obtain ch1 where run: "wait_loop env (timeoutMsec \<noteq> 0) ackToken (before @ (evs, err) # later) ?s = Inr (0, ch1)"
      "progress at_response_new ?s (a, u, Some fin) ch1"
    using wait_to_final [OF sending_waiting [OF assms(1,2)] start assms(4,5), of a u fin ackToken later] assms(6,7)
    by (auto simp: outcome_def)
  from send_end_progress [OF assms(1), of T p smspdu ws "command @ [CHR 0x0D]"] run(2)
  obtain ch' where "send_end True ch1 = Inr (0, Some (response (isFinalResponseSuccess fin) fin a), ch')"
    "after_command (command @ [CHR 0x0D]) u env ch ch'" unfolding sent by blast
  then show ?thesis using send_begin_ok [OF assms(1,3)] run(1)
    by (auto simp: at_send_command_full_nolock_ack_def)
qed

definition plain_env :: ril_env where
  "plain_env = \<lparr>SIM_COUNT = 2, channel_64 = False, ims_channel = False, isNumericSet = 0, s_md_off = 0,
     on_reader_closed = True, on_timeout = True, internal_load = True, s_at_timeoutMsec = 900000,
     chip_test_mode = False, get3GSIM = 1, getSimCount = 2\<rparr>"

definition quiet_channel :: "at_write list \<Rightarrow> at_channel" where
  "quiet_channel ws = (opened_channel [])\<lparr>ac_id := 3, ac_writes := ws\<rparr>"

lemma quiet_ready: "ready plain_env (quiet_channel ws)"
  by (simp add: ready_def plain_env_def quiet_channel_def opened_channel_def init_ril_channel_def at_open_def Let_def)

lemma quiet_fields [simp]:
  "ac_sent (quiet_channel ws) = []" "ac_unsolicited (quiet_channel ws) = []" "ac_id (quiet_channel ws) = 3"
  "ac_writes (quiet_channel ws) = ws" "ac_tid_reader (quiet_channel ws) = 7"
  "ac_tid_myProxy (quiet_channel ws) = 0" "\<not> ac_restart_locked (quiet_channel ws)"
  by (simp_all add: quiet_channel_def opened_channel_def init_ril_channel_def at_open_def Let_def)

lemma quiet_errors:
  "isFinalResponseErrorEx plain_env l (quiet_channel ws) = list_ex (strStartsWith l) s_finalResponsesError"
  by (simp add: isFinalResponseErrorEx_def plain_env_def RIL_URC_def RIL_CHANNEL_OFFSET_def eval_nat_numeral)

lemmas line_defs =
  isRequestAcked_def s_reqAck_def isFinalResponseSuccess_def s_finalResponsesSuccess_def
  quiet_errors s_finalResponsesError_def isIntermediatePattern_def s_IntermediatePattern_def

theorem command_response_witness:
  "\<exists>ch'. at_send_command_full_nolock_ack plain_env ''AT+CPBR=1,2'' MULTILINE (Some ''+CPBR:'') None 9000 True False
      [([Line ''+CPBR: 1'', Line ''RING''], 0), ([], 0), ([Sms ''+CMT: 5'' ''07A1''], 0),
       ([Line ''+CPBR: 2'', Line ''OK'', Line ''RING'', Line ''+CPBR: 3'', Line ''NO CARRIER''], 0)]
      (quiet_channel [Written 5, Write_Interrupted, Written 99]) =
      Inr (0, Some (response False ''NO CARRIER'' [''+CPBR: 1'', ''+CPBR: 2'', ''+CPBR: 3'']), ch') \<and>
    ac_unsolicited ch' = [(''RING'', None), (''+CMT: 5'', Some ''07A1''), (''RING'', None)]"
proof -
  let ?ch = "quiet_channel [Written 5, Write_Interrupted, Written 99]"
  let ?before = "[([Line ''+CPBR: 1'', Line ''RING''], 0), ([], 0), ([Sms ''+CMT: 5'' ''07A1''], 0)]
    :: (at_event list \<times> int) list"
  let ?evs = "[Line ''+CPBR: 2'', Line ''OK'', Line ''RING'', Line ''+CPBR: 3'', Line ''NO CARRIER'']"
  have sent: "write_loop (''AT+CPBR=1,2'' @ [CHR 0x0D]) (ac_writes ?ch) (ac_sent ?ch) =
      Inr (0, [], ''AT+CPBR=1,2'' @ [CHR 0x0D])" by simp
  have "outcome plain_env ?ch MULTILINE (Some ''+CPBR:'') (concat (map fst ?before)) =
      ([''+CPBR: 1''], [(''RING'', None), (''+CMT: 5'', Some ''07A1'')], None)"
    and "outcome plain_env ?ch MULTILINE (Some ''+CPBR:'') (concat (map fst ?before) @ ?evs) =
      ([''+CPBR: 1'', ''+CPBR: 2'', ''+CPBR: 3''],
       [(''RING'', None), (''+CMT: 5'', Some ''07A1''), (''RING'', None)], Some ''NO CARRIER'')"
    by (simp_all add: outcome_def wanted_def final_line_def line_defs)
  moreover have "list_all (line_event plain_env ?ch) (concat (map fst ?before) @ ?evs)"
    by (simp add: plain_line_def final_line_def line_defs)
  moreover have "no_timeout (?before @ [(?evs, 0)])" by (simp add: no_timeout_def ETIMEDOUT_def)
  moreover have "prefix_given MULTILINE (Some ''+CPBR:'')" by (simp add: prefix_given_def)
  ultimately show ?thesis
    using command_response [OF quiet_ready _ sent, of MULTILINE "Some ''+CPBR:''" ?before ?evs 9000 0 _ _ _ _
        "''NO CARRIER''" None False "[]"]
    by (auto simp: after_command_def isFinalResponseSuccess_def s_finalResponsesSuccess_def)
qed

text \<open>A line that arrives between the final line and the wake-up of the waiting command still counts: an
  unsolicited final code, such as \<open>NO CARRIER\<close> of a call that ends, turns the success of the command
  into its failure.\<close>

theorem late_line_overrides:
  assumes "ready env ch" and "prefix_given T p"
    and "write_loop (command @ [CHR 0x0D]) (ac_writes ch) (ac_sent ch) = Inr (0, ws, sent)"
    and "list_all (plain_event env ch) evs" and "err \<noteq> ETIMEDOUT"
    and "final_line env ch fin" and "final_line env ch late" and "\<not> isFinalResponseSuccess late"
    and "answer env ch T p [] evs = (a, u)" and "\<not> wanted env ch T p a fin" and "\<not> wanted env ch T p a late"
  shows "\<exists>ch'. at_send_command_full_nolock_ack env command T p smspdu timeoutMsec True ackToken
      [(evs @ [Line fin, Line late], err)] ch = Inr (0, Some (response False late a), ch')"
proof -
  let ?s = "sending T p smspdu ws sent ch"
  let ?c = "completed fin a u at_response_new ?s"
  let ?r = "at_response_new\<lparr>rsp_intermediates := rev a, rsp_success := isFinalResponseSuccess fin, rsp_finalResponse := Some fin\<rparr>"
  have c: "ac_p_response ?c = Some ?r" "ac_type ?c = T" "ac_responsePrefix ?c = p" "ac_id ?c = ac_id ch"
    by (simp_all add: completed_def)
  have "handle_events env (evs @ [Line fin]) ?s = Inr ?c"
    using assms(4,6,9,10) sending_waiting [OF assms(1,2)]
    by (intro handle_to_final) (simp_all add: at_response_new_def)
  moreover have "processLine env late ?c = Inr (final_response False late ?c)"
    using processLine_final [of env ?c ch ?r late] assms(1,2,7,8,11) c by (simp add: ready_def)
  ultimately have "handle_events env (evs @ [Line fin, Line late]) ?s = Inr (final_response False late ?c)"
    using handle_events_append [of env "evs @ [Line fin]" "[Line late]" ?s] by simp
  then have "wait_loop env (timeoutMsec \<noteq> 0) ackToken [(evs @ [Line fin, Line late], err)] ?s =
      Inr (0, final_response False late ?c)"
    using assms(1,5) c(1)
    by (subst wait_loop.simps, simp add: at_response_new_def ready_def report_ack_def final_response_def handleFinalResponse_def)
      (subst wait_loop.simps, simp)
  then show ?thesis
    using send_begin_ok [OF assms(1,3)] assms(1) c(1)
    by (simp add: at_send_command_full_nolock_ack_def send_end_def final_response_def handleFinalResponse_def
        completed_def ready_def reverseIntermediates_def reverse_loop_rev response_def at_response_new_def)
qed

theorem late_line_overrides_witness:
  "\<exists>ch'. at_send_command_full_nolock_ack plain_env ''ATH'' NO_RESULT None None 0 True False
     [([Line ''OK'', Line ''NO CARRIER''], 0)] (quiet_channel [Written 4]) =
   Inr (0, Some (response False ''NO CARRIER'' []), ch')"
proof -
  have "write_loop (''ATH'' @ [CHR 0x0D]) (ac_writes (quiet_channel [Written 4])) (ac_sent (quiet_channel [Written 4])) =
      Inr (0, [], ''ATH'' @ [CHR 0x0D])" by simp
  from late_line_overrides [OF quiet_ready _ this, where T = NO_RESULT and p = None and evs = "[]" and
      fin = "''OK''" and late = "''NO CARRIER''" and smspdu = None and timeoutMsec = 0 and ackToken = False and err = 0]
  show ?thesis
    by (simp add: prefix_given_def ETIMEDOUT_def final_line_def wanted_def line_defs)
qed

lemma prompt_writes_pdu:
  assumes "waiting env c ch r" and "ac_smsPDU ch = Some pdu" and "0 \<le> ac_fd ch" and "pdu \<noteq> []"
    and "ac_writes ch = Written n # Written (Suc m) # ws" and "length pdu \<le> n"
    and "\<not> wanted env c (ac_type ch) (ac_responsePrefix ch) (rev (rsp_intermediates r)) ''> ''"
  shows "processLine env ''> '' ch = Inr (ch\<lparr>ac_writes := ws, ac_sent := ac_sent ch @ pdu @ [CHR 0x1A]\<rparr>)"
proof -
  have "write_loop pdu (Written n # Written (Suc m) # ws) (ac_sent ch) = Inr (0, Written (Suc m) # ws, ac_sent ch @ pdu)"
    using assms(4,6) by (cases pdu) simp_all
  then have "writeCtrlZ pdu ch = Inr (0, ch\<lparr>ac_writes := ws, ac_sent := ac_sent ch @ pdu @ [CHR 0x1A]\<rparr>)"
    using assms(1,3,5) by (simp add: writeCtrlZ_def waiting_def)
  moreover have "\<not> isFinalResponseErrorEx env ''> '' ch"
    by (simp add: isFinalResponseErrorEx_def s_finalResponsesError_def)
  ultimately show ?thesis
    using assms(1,2,7) intermediate_line_wanted [of env ch c "''> ''" r]
    by (simp add: processLine_def waiting_def other_line_def isRequestAcked_def s_reqAck_def
        isFinalResponseSuccess_def s_finalResponsesSuccess_def)
qed

lemma prompts_write_pdus:
  assumes "waiting env c ch r" and "ac_smsPDU ch = Some pdu" and "0 \<le> ac_fd ch" and "pdu \<noteq> []"
    and "ac_writes ch = concat (replicate k [Written n, Written (Suc m)]) @ ws" and "length pdu \<le> n"
    and "\<not> wanted env c (ac_type ch) (ac_responsePrefix ch) (rev (rsp_intermediates r)) ''> ''"
  shows "handle_events env (replicate k (Line ''> '')) ch =
    Inr (ch\<lparr>ac_writes := ws, ac_sent := ac_sent ch @ concat (replicate k (pdu @ [CHR 0x1A]))\<rparr>)"
  using assms
proof (induction k arbitrary: ch)
  case 0
  then show ?case by simp
next
  case (Suc k)
  let ?ws = "concat (replicate k [Written n, Written (Suc m)]) @ ws"
  let ?ch = "ch\<lparr>ac_writes := ?ws, ac_sent := ac_sent ch @ pdu @ [CHR 0x1A]\<rparr>"
  have "processLine env ''> '' ch = Inr ?ch"
    using Suc.prems by (intro prompt_writes_pdu) simp_all
  moreover have "handle_events env (replicate k (Line ''> '')) ?ch =
      Inr (?ch\<lparr>ac_writes := ws, ac_sent := ac_sent ?ch @ concat (replicate k (pdu @ [CHR 0x1A]))\<rparr>)"
    using Suc.prems by (intro Suc.IH) (simp_all add: waiting_def)
  ultimately show ?case by simp
qed

text \<open>The PDU of a short message is sent again for every prompt: \<open>processLine\<close> clears its local copy of
  \<open>smsPDU\<close>, not the field of the channel.\<close>

theorem pdu_sent_for_every_prompt:
  assumes "ready env ch" and "ac_writes ch = Written n # concat (replicate k [Written n, Written (Suc m)]) @ ws"
    and "length command < n" and "length pdu \<le> n" and "pdu \<noteq> []" and "err \<noteq> ETIMEDOUT"
    and "final_line env ch fin" and "\<not> strStartsWith ''> '' p" and "\<not> strStartsWith fin p"
  shows "\<exists>ch'. at_send_command_full_nolock_ack env command SINGLELINE (Some p) (Some pdu) timeoutMsec True ackToken
      [(replicate k (Line ''> '') @ [Line fin], err)] ch =
      Inr (0, Some (response (isFinalResponseSuccess fin) fin []), ch') \<and>
    ac_sent ch' = ac_sent ch @ command @ CHR 0x0D # concat (replicate k (pdu @ [CHR 0x1A]))"
proof -
  let ?ws = "concat (replicate k [Written n, Written (Suc m)]) @ ws" and ?sent = "ac_sent ch @ command @ [CHR 0x0D]"
  let ?s = "sending SINGLELINE (Some p) (Some pdu) ?ws ?sent ch"
  let ?s' = "?s\<lparr>ac_writes := ws, ac_sent := ?sent @ concat (replicate k (pdu @ [CHR 0x1A]))\<rparr>"
  have wl: "write_loop (command @ [CHR 0x0D]) (ac_writes ch) (ac_sent ch) = Inr (0, ?ws, ?sent)"
    using assms(2,3) by (cases command) simp_all
  have wait: "waiting env ch ?s at_response_new"
    using sending_waiting [OF assms(1), of SINGLELINE "Some p"] by (simp add: prefix_given_def)
  have "handle_events env (replicate k (Line ''> '')) ?s = Inr ?s'"
    using prompts_write_pdus [OF wait, of pdu k n m ws] assms(1,4,5,8)
    by (simp add: ready_def wanted_def at_response_new_def)
  moreover have "waiting env ch ?s' at_response_new" using wait by (simp add: waiting_def)
  then have "handle_events env ([] @ [Line fin]) ?s' = Inr (completed fin [] [] at_response_new ?s')"
    using assms(7,9) by (intro handle_to_final [where c = ch]) (simp_all add: at_response_new_def wanted_def)
  ultimately have "handle_events env (replicate k (Line ''> '') @ [Line fin]) ?s =
      Inr (completed fin [] [] at_response_new ?s')"
    by (simp add: handle_events_append)
  then have "wait_loop env (timeoutMsec \<noteq> 0) ackToken [(replicate k (Line ''> '') @ [Line fin], err)] ?s =
      Inr (0, completed fin [] [] at_response_new ?s')"
    using assms(1,6)
    by (subst wait_loop.simps, simp add: at_response_new_def ready_def report_ack_def completed_def)
      (subst wait_loop.simps, simp)
  then show ?thesis
    using send_begin_ok [OF assms(1) wl] assms(1)
    by (simp add: at_send_command_full_nolock_ack_def send_end_def completed_def ready_def clearPendingCommand_def
        reverseIntermediates_def reverse_loop_rev response_def at_response_new_def)
qed

theorem pdu_sent_for_every_prompt_witness:
  "\<exists>ch'. at_send_command_full_nolock_ack plain_env ''AT+CMGS=9'' SINGLELINE (Some ''+CMGS:'') (Some ''0001'') 0 True False
      [([Line ''> '', Line ''> '', Line ''ERROR''], 0)]
      (quiet_channel [Written 99, Written 99, Written 1, Written 99, Written 1]) =
      Inr (0, Some (response False ''ERROR'' []), ch') \<and>
    ac_sent ch' = ''AT+CMGS=9'' @ CHR 0x0D # ''0001'' @ CHR 0x1A # ''0001'' @ [CHR 0x1A]"
proof -
  have "ac_writes (quiet_channel [Written 99, Written 99, Written 1, Written 99, Written 1]) =
      Written 99 # concat (replicate 2 [Written 99, Written (Suc 0)]) @ []"
    by (simp add: eval_nat_numeral(2))
  from pdu_sent_for_every_prompt [OF quiet_ready this, where command = "''AT+CMGS=9''" and pdu = "''0001''" and err = 0
      and fin = "''ERROR''" and p = "''+CMGS:''" and timeoutMsec = 0 and ackToken = False]
  show ?thesis
    by (simp add: ETIMEDOUT_def final_line_def line_defs numeral_2_eq_2)
qed

text \<open>A second command while one is pending, which the handshake can issue, is refused, and its refusal
  clears the pending command: the waiting thread finds no response when it wakes up and reads
  through a null pointer.\<close>

theorem refused_command_clears_pending:
  assumes "waiting env c ch r"
  shows "\<exists>ch'. at_send_command_full_nolock env command T p smspdu timeoutMsec want sched ch =
      Inr (AT_ERROR_COMMAND_PENDING, None, ch') \<and>
    wait_loop env timed ackToken (([], err) # sched') ch' = Inl NullDeref"
proof -
  have "at_send_command_full_nolock env command T p smspdu timeoutMsec want sched ch =
      Inr (AT_ERROR_COMMAND_PENDING, None, clearPendingCommand ch)"
    using assms
    by (simp add: at_send_command_full_nolock_def at_send_command_full_nolock_ack_def send_begin_def waiting_def)
  moreover have "wait_loop env timed ackToken (([], err) # sched') (clearPendingCommand ch) = Inl NullDeref"
    by (subst wait_loop.simps) (simp add: clearPendingCommand_def)
  ultimately show ?thesis by blast
qed

theorem refused_command_clears_pending_witness:
  "\<exists>ch ch'. send_begin ''AT+COPS?'' SINGLELINE (Some ''+COPS:'') None True (quiet_channel [Written 9]) = Inr (None, None, ch) \<and>
     at_send_command_full_nolock plain_env ''ATE0Q0V1'' NO_RESULT None None 0 False [] ch =
       Inr (AT_ERROR_COMMAND_PENDING, None, ch') \<and>
     wait_loop plain_env True False [([], 0)] ch' = Inl NullDeref"
proof -
  let ?ch = "quiet_channel [Written 9]"
  have "write_loop (''AT+COPS?'' @ [CHR 0x0D]) (ac_writes ?ch) (ac_sent ?ch) = Inr (0, [], ''AT+COPS?'' @ [CHR 0x0D])"
    by simp
  from send_begin_ok [OF quiet_ready this] have
    "send_begin ''AT+COPS?'' SINGLELINE (Some ''+COPS:'') None True ?ch =
      Inr (None, None, sending SINGLELINE (Some ''+COPS:'') None [] (''AT+COPS?'' @ [CHR 0x0D]) ?ch)" .
  moreover have "waiting plain_env ?ch (sending SINGLELINE (Some ''+COPS:'') None [] (''AT+COPS?'' @ [CHR 0x0D]) ?ch)
      at_response_new"
    by (rule sending_waiting [OF quiet_ready]) (simp add: prefix_given_def)
  ultimately show ?thesis
    using refused_command_clears_pending [where err = 0 and sched' = "[]" and timed = True and ackToken = False] by blast
qed

text \<open>In numeric mode a line that is neither an intermediate result nor a final code of the pending command
  is dropped: an unsolicited line such as \<open>RING\<close> never reaches its handler.\<close>

theorem numeric_mode_drops_lines:
  assumes "isNumericSet env = 1" and "ac_p_response ch = Some r" and "plain_line env ch l"
    and "ac_type ch = NO_RESULT \<or> ac_type ch = NUMERIC \<and> rsp_intermediates r \<noteq> []"
    and "\<not> isFinalResponseSuccessInNumeric l" and "\<not> isFinalResponseErrorInNumeric l"
  shows "processLine env l ch = Inr ch"
proof -
  have "isIntermediatePattern ''> ''" by (simp add: isIntermediatePattern_def s_IntermediatePattern_def)
  then show ?thesis
    using assms by (auto simp: processLine_def plain_line_def intermediate_line_def other_line_def)
qed

theorem numeric_mode_drops_lines_witness:
  "\<exists>ch. ac_p_response ch = Some at_response_new \<and> ac_unsolHandler ch \<and>
     processLine (plain_env\<lparr>isNumericSet := 1\<rparr>) ''RING'' ch = Inr ch"
proof -
  let ?ch = "sending NO_RESULT None None [] [] (quiet_channel [])"
  have "plain_line (plain_env\<lparr>isNumericSet := 1\<rparr>) ?ch ''RING''"
    by (simp add: plain_line_def line_defs isFinalResponseErrorEx_def)
  then have "processLine (plain_env\<lparr>isNumericSet := 1\<rparr>) ''RING'' ?ch = Inr ?ch"
    by (intro numeric_mode_drops_lines [where r = at_response_new])
      (simp_all add: isFinalResponseSuccessInNumeric_def s_finalResponsesSuccessInNumeric_def
        isFinalResponseErrorInNumeric_def s_finalResponsesErrorInNumeric_def)
  moreover have "ac_unsolHandler ?ch" using quiet_ready [of "[]"] by (simp add: ready_def)
  ultimately show ?thesis by (intro exI [of _ ?ch]) simp
qed

section \<open>From the terminal to the response\<close>

fun event_lines :: "at_event \<Rightarrow> string list" where
  "event_lines (Line l) = [l]"
| "event_lines (Sms l1 l2) = [l1, l2]"
| "event_lines _ = []"

text \<open>An event the reader makes of lines that are short enough.\<close>

fun reader_event :: "at_event \<Rightarrow> bool" where
  "reader_event (Line l) \<longleftrightarrow> short_line l \<and> \<not> isSMSUnsolicited l"
| "reader_event (Sms l1 l2) \<longleftrightarrow> short_line l1 \<and> short_line l2 \<and> isSMSUnsolicited l1"
| "reader_event _ \<longleftrightarrow> False"

fun reader_rounds :: "ril_env \<Rightarrow> nat \<Rightarrow> at_channel \<Rightarrow> at_channel res" where
  "reader_rounds env 0 ch = Inr ch"
| "reader_rounds env (Suc n) ch =
     bindE (reader_round env ch) (\<lambda>(go, ch1). if go then reader_rounds env n ch1 else Inr ch1)"

text \<open>
  Dispatching a line neither looks at what the reader holds nor changes it: \<open>with_reading\<close> puts any
  buffer in place of it.
\<close>

definition with_reading :: "string \<Rightarrow> nat \<Rightarrow> nat \<Rightarrow> at_read list \<Rightarrow> at_channel \<Rightarrow> at_channel" where
  "with_reading b c n rs ch = ch\<lparr>ac_ATBuffer := b, ac_ATBufferCur := c, ac_readCount := n, ac_reads := rs\<rparr>"

lemma with_reading_fields [simp]:
  "ac_p_response (with_reading b c n rs ch) = ac_p_response ch" "ac_type (with_reading b c n rs ch) = ac_type ch"
  "ac_responsePrefix (with_reading b c n rs ch) = ac_responsePrefix ch" "ac_id (with_reading b c n rs ch) = ac_id ch"
  "ac_smsPDU (with_reading b c n rs ch) = ac_smsPDU ch" "ac_unsolHandler (with_reading b c n rs ch) = ac_unsolHandler ch"
  "ac_fd (with_reading b c n rs ch) = ac_fd ch" "ac_readerClosed (with_reading b c n rs ch) = ac_readerClosed ch"
  "ac_writes (with_reading b c n rs ch) = ac_writes ch" "ac_sent (with_reading b c n rs ch) = ac_sent ch"
  by (simp_all add: with_reading_def)

lemma with_reading_steps [simp]:
  "on_response f (with_reading b c n rs ch) = with_reading b c n rs (on_response f ch)"
  "addIntermediate l (with_reading b c n rs ch) = with_reading b c n rs (addIntermediate l ch)"
  "handleRequestAck (with_reading b c n rs ch) = with_reading b c n rs (handleRequestAck ch)"
  "handleUnsolicited l (with_reading b c n rs ch) = with_reading b c n rs (handleUnsolicited l ch)"
  "final_response ok l (with_reading b c n rs ch) = with_reading b c n rs (final_response ok l ch)"
  "handle_sms l1 l2 (with_reading b c n rs ch) = with_reading b c n rs (handle_sms l1 l2 ch)"
  "isFinalResponseErrorEx env l (with_reading b c n rs ch) = isFinalResponseErrorEx env l ch"
  by (simp_all add: with_reading_def on_response_def addIntermediate_def handleRequestAck_def handleUnsolicited_def
      final_response_def handleFinalResponse_def handle_sms_def isFinalResponseErrorEx_def)

lemma map_sum_bindE: "map_sum id g (bindE r f) = bindE r (\<lambda>x. map_sum id g (f x))"
  by (cases r) auto

lemma bindE_map_sum: "bindE (map_sum id g r) f = bindE r (\<lambda>x. f (g x))"
  by (cases r) auto

lemma with_reading_writeCtrlZ:
  "writeCtrlZ s (with_reading b c n rs ch) = map_sum id (map_prod id (with_reading b c n rs)) (writeCtrlZ s ch)"
  unfolding writeCtrlZ_def with_reading_fields map_sum_bindE if_distrib [of "map_sum id (map_prod id (with_reading b c n rs))"]
  by (auto simp: with_reading_def map_sum_bindE split: prod.splits intro!: bindE_cong)

lemma with_reading_other_line:
  "other_line env l (with_reading b c n rs ch) = map_sum id (with_reading b c n rs) (other_line env l ch)"
proof -
  have "bindE (map_sum id (map_prod id (with_reading b c n rs)) r) (\<lambda>(err, ch'). Inr ch') =
      map_sum id (with_reading b c n rs) (bindE r (\<lambda>(err, ch'). Inr ch'))" for r :: "(int \<times> at_channel) res"
    by (cases r) auto
  then show ?thesis by (simp add: other_line_def with_reading_writeCtrlZ)
qed

lemma with_reading_processLine:
  "processLine env l (with_reading b c n rs ch) = map_sum id (with_reading b c n rs) (processLine env l ch)"
proof -
  have "intermediate_line env l r (with_reading b c n rs ch) = intermediate_line env l r ch" for r
    by (simp add: intermediate_line_def has_prefix_def split: ATCommandType.split)
  then show ?thesis
    by (auto simp: processLine_def with_reading_other_line map_sum_bindE split: option.split intro!: bindE_cong)
qed

lemma with_reading_event:
  assumes "reader_event ev"
  shows "handle_event env ev (with_reading b c n rs ch) = map_sum id (with_reading b c n rs) (handle_event env ev ch)"
  using assms by (cases ev) (simp_all add: with_reading_processLine)

lemma at_core_with_reading: "at_core (with_reading b c n rs ch) = at_core ch"
  by (simp add: with_reading_def at_core_def)

lemma line_stream_reading:
  "line_stream (with_reading (ac_ATBuffer ch) (ac_ATBufferCur ch) n (ac_reads ch) ch') ls \<longleftrightarrow> line_stream ch ls"
  by (simp add: line_stream_def stream_def holds_def with_reading_def)

lemma same_core: "at_core ch1 = at_core ch \<Longrightarrow>
  ch1 = with_reading (ac_ATBuffer ch1) (ac_ATBufferCur ch1) (ac_readCount ch1) (ac_reads ch1) ch"
  by (cases ch; cases ch1) (simp add: at_core_def with_reading_def)

text \<open>One event: its lines are read, and it is handled on the channel.\<close>

lemma reader_round_event:
  assumes "line_stream ch (event_lines ev @ ls)" and "reader_event ev"
  shows "\<exists>b c n rs. reader_round env ch =
      bindE (handle_event env ev ch) (\<lambda>ch'. Inr (True, with_reading b c n rs ch')) \<and>
    (\<forall>ch'. line_stream (with_reading b c n rs ch') ls)"
proof (cases ev)
  case (Line l)
  then have l: "short_line l" "\<not> isSMSUnsolicited l" using assms(2) by simp_all
  obtain ch1 where r: "readline ch = Inr (Some l, ch1)" "line_stream ch1 ls" "at_core ch1 = at_core ch"
    using line_stream_next [of ch l ls] assms(1) l(1) Line by auto
  let ?w = "with_reading (ac_ATBuffer ch1) (ac_ATBufferCur ch1) (ac_readCount ch1) (ac_reads ch1)"
  have "processLine env l ch1 = map_sum id ?w (processLine env l ch)"
    using with_reading_processLine same_core [OF r(3)] by metis
  then have "reader_round env ch = bindE (handle_event env ev ch) (\<lambda>ch'. Inr (True, ?w ch'))"
    using r(1) l(2) Line by (simp add: reader_round_def bindE_map_sum)
  moreover have "line_stream (?w ch') ls" for ch' using r(2) line_stream_reading by blast
  ultimately show ?thesis by blast
next
  case (Sms l1 l2)
  then have l: "short_line l1" "short_line l2" "isSMSUnsolicited l1" using assms(2) by simp_all
  obtain ch1 where r: "readline ch = Inr (Some l1, ch1)" "line_stream ch1 (l2 # ls)" "at_core ch1 = at_core ch"
    using line_stream_next [of ch l1 "l2 # ls"] assms(1) l(1) Sms by auto
  obtain ch2 where r2: "readline ch1 = Inr (Some l2, ch2)" "line_stream ch2 ls" "at_core ch2 = at_core ch"
    using line_stream_next [OF r(2) l(2)] r(3) by auto
  let ?w = "with_reading (ac_ATBuffer ch2) (ac_ATBufferCur ch2) (ac_readCount ch2) (ac_reads ch2)"
  have "handle_sms l1 l2 ch2 = ?w (handle_sms l1 l2 ch)"
    using with_reading_steps(6) same_core [OF r2(3)] by metis
  then have "reader_round env ch = bindE (handle_event env ev ch) (\<lambda>ch'. Inr (True, ?w ch'))"
    using r(1) r2(1) l(3) Sms by (simp add: reader_round_def handle_sms_def [of l1 l2 ch2, symmetric])
  moreover have "line_stream (?w ch') ls" for ch' using r2(2) line_stream_reading by blast
  ultimately show ?thesis by blast
qed (use assms(2) in simp_all)

text \<open>C31. The reader thread on a terminal: however the stream is cut into reads, its rounds do to the channel
  exactly what handling the events of the lines in order does, the two lines of a short message
  together; a line is dispatched before the next is read.\<close>

theorem reader_dispatches:
  assumes "line_stream ch (concat (map event_lines evs))" and "list_all reader_event evs"
  shows "map_sum id at_core (reader_rounds env (length evs) ch) = map_sum id at_core (handle_events env evs ch)"
  using assms
proof (induction evs arbitrary: ch)
  case Nil
  then show ?case by simp
next
  case (Cons ev evs)
  have "line_stream ch (event_lines ev @ concat (map event_lines evs))" "reader_event ev"
    using Cons.prems by simp_all
  then obtain b c n rs where r: "reader_round env ch = bindE (handle_event env ev ch) (\<lambda>ch'. Inr (True, with_reading b c n rs ch'))"
    "\<forall>ch'. line_stream (with_reading b c n rs ch') (concat (map event_lines evs))"
    using reader_round_event [of ch ev "concat (map event_lines evs)" env] by blast
  have core: "map_sum id at_core (handle_events env evs (with_reading b c n rs ch')) =
      map_sum id at_core (handle_events env evs ch')" if "list_all reader_event evs" for ch'
    using that
  proof (induction evs arbitrary: ch')
    case (Cons ev evs)
    then have "handle_event env ev (with_reading b c n rs ch') = map_sum id (with_reading b c n rs) (handle_event env ev ch')"
      by (intro with_reading_event) simp_all
    then show ?case using Cons by (cases "handle_event env ev ch'") simp_all
  qed (simp add: at_core_with_reading)
  show ?case
  proof (cases "handle_event env ev ch")
    case (Inr ch')
    then show ?thesis
      using r Cons.IH [of "with_reading b c n rs ch'"] Cons.prems(2) core [unfolded id_def] by (simp add: id_def)
  qed (use r in simp)
qed

theorem reader_dispatches_witness:
  "map_sum id at_core (reader_rounds plain_env 2 (opened_channel
      [Read_Data ([CHR 0x0D, CHR 0x0A] @ ''+CMT: 3''), Read_Data ([CHR 0x0D, CHR 0x0A, CHR 0x0D, CHR 0x0A] @ ''07''),
       Read_Interrupted, Read_Data ([CHR 0x0D, CHR 0x0A, CHR 0x0D, CHR 0x0A] @ ''RING'' @ [CHR 0x0D, CHR 0x0A])])) =
   Inr (at_core (opened_channel []\<lparr>ac_unsolicited := [(''+CMT: 3'', Some ''07''), (''RING'', None)]\<rparr>))"
proof -
  let ?rs = "[Read_Data ([CHR 0x0D, CHR 0x0A] @ ''+CMT: 3''),
       Read_Data ([CHR 0x0D, CHR 0x0A, CHR 0x0D, CHR 0x0A] @ ''07''), Read_Interrupted,
       Read_Data ([CHR 0x0D, CHR 0x0A, CHR 0x0D, CHR 0x0A] @ ''RING'' @ [CHR 0x0D, CHR 0x0A])]"
  let ?evs = "[Sms ''+CMT: 3'' ''07'', Line ''RING'']"
  have "chars ?rs = concat (map modem_line (concat (map event_lines ?evs)))" by (simp add: modem_line_def)
  then have "line_stream (opened_channel ?rs) (concat (map event_lines ?evs))"
    using opened_channel_stream [of ?rs] by (simp add: line_stream_def)
  moreover have "list_all reader_event ?evs"
    by (simp add: short_line_def good_line_def is_newline_def MAX_AT_RESPONSE_def isSMSUnsolicited_def s_smsUnsoliciteds_def)
  ultimately have "map_sum id at_core (reader_rounds plain_env (length ?evs) (opened_channel ?rs)) =
      map_sum id at_core (handle_events plain_env ?evs (opened_channel ?rs))"
    by (rule reader_dispatches)
  then show ?thesis
    by (simp add: opened_channel_def at_open_def init_ril_channel_def Let_def processLine_def handle_sms_def
        handleUnsolicited_def at_core_def numeral_2_eq_2)
qed

text \<open>C27. A whole exchange on the terminal: the command is written, the modem answers on the line, cut into
  reads in any way, the reader takes the answer and the caller gets its lines; what else came in
  between was handed over.\<close>

theorem exchange_over_line:
  assumes "ready env ch" and "prefix_given T p"
    and "write_loop (command @ [CHR 0x0D]) (ac_writes ch) (ac_sent ch) = Inr (0, ws, sent)"
    and "line_stream ch (concat (map event_lines evs) @ [fin])"
    and "list_all (plain_event env ch) evs" and "list_all reader_event (evs @ [Line fin])" and "final_line env ch fin"
    and "answer env ch T p [] evs = (a, u)" and "\<not> wanted env ch T p a fin"
  shows "\<exists>ch1 ch2 ch3. send_begin command T p smspdu True ch = Inr (None, None, ch1) \<and>
    reader_rounds env (length evs + 1) ch1 = Inr ch2 \<and> wait_loop env timed ackToken [] ch2 = Inr (0, ch2) \<and>
    send_end True ch2 = Inr (0, Some (response (isFinalResponseSuccess fin) fin a), ch3) \<and>
    after_command (command @ [CHR 0x0D]) u env ch ch3"
proof -
  let ?s = "sending T p smspdu ws sent ch" and ?evs = "evs @ [Line fin]"
  let ?c = "completed fin a u at_response_new ?s"
  have sent: "sent = ac_sent ch @ command @ [CHR 0x0D]" using write_loop_sent [OF assms(3)] .
  have "handle_events env ?evs ?s = Inr ?c"
    using assms(5,7-9) sending_waiting [OF assms(1,2)]
    by (intro handle_to_final) (simp_all add: at_response_new_def)
  moreover have "line_stream ?s (concat (map event_lines ?evs))"
    using assms(4) by (simp add: line_stream_def stream_def holds_def sending_def)
  ultimately have "map_sum id at_core (reader_rounds env (length ?evs) ?s) = Inr (at_core ?c)"
    using reader_dispatches [OF _ assms(6), of ?s env] by simp
  then obtain ch2 where ch2: "reader_rounds env (length evs + 1) ?s = Inr ch2" "at_core ch2 = at_core ?c"
    by (cases "reader_rounds env (length ?evs) ?s") auto
  obtain b c n rs where w: "ch2 = with_reading b c n rs ?c" using same_core [OF ch2(2)] by blast
  have "wait_loop env timed ackToken [] ch2 = Inr (0, ch2)"
    by (subst wait_loop.simps) (simp add: w completed_def)
  moreover have "\<exists>ch3. send_end True ch2 = Inr (0, Some (response (isFinalResponseSuccess fin) fin a), ch3) \<and>
      after_command (command @ [CHR 0x0D]) u env ch ch3"
    using assms(1)
    by (auto simp: w sent send_end_def with_reading_def completed_def sending_def ready_def reverseIntermediates_def
        reverse_loop_rev response_def after_command_def clearPendingCommand_def at_response_new_def)
  ultimately show ?thesis using send_begin_ok [OF assms(1,3)] ch2(1) by blast
qed

theorem exchange_over_line_witness:
  "\<exists>ch1 ch2 ch3. send_begin ''AT+CREG?'' SINGLELINE (Some ''+CREG:'') None True
      (quiet_channel [Written 9]\<lparr>ac_reads := [Read_Data ([CHR 0x0D, CHR 0x0A] @ ''+CREG: 2,1'' @ [CHR 0x0D, CHR 0x0A, CHR 0x0D]),
        Read_Data ([CHR 0x0A] @ ''OK'' @ [CHR 0x0D, CHR 0x0A])]\<rparr>) = Inr (None, None, ch1) \<and>
    reader_rounds plain_env 2 ch1 = Inr ch2 \<and> wait_loop plain_env True False [] ch2 = Inr (0, ch2) \<and>
    send_end True ch2 = Inr (0, Some (response True ''OK'' [''+CREG: 2,1'']), ch3)"
proof -
  let ?rs = "[Read_Data ([CHR 0x0D, CHR 0x0A] @ ''+CREG: 2,1'' @ [CHR 0x0D, CHR 0x0A, CHR 0x0D]),
        Read_Data ([CHR 0x0A] @ ''OK'' @ [CHR 0x0D, CHR 0x0A])]"
  let ?ch = "quiet_channel [Written 9]\<lparr>ac_reads := ?rs\<rparr>"
  have "ready plain_env ?ch" using quiet_ready [of "[Written 9]"] by (simp add: ready_def)
  moreover have "write_loop (''AT+CREG?'' @ [CHR 0x0D]) (ac_writes ?ch) (ac_sent ?ch) = Inr (0, [], ''AT+CREG?'' @ [CHR 0x0D])"
    by simp
  moreover have "line_stream ?ch [''+CREG: 2,1'', ''OK'']"
  proof -
    have "holds ?ch [] 0" using opened_channel_holds [of "[]"] by (simp add: holds_def quiet_channel_def)
    then show ?thesis by (fastforce simp: line_stream_def stream_def modem_line_def)
  qed
  moreover have errors: "isFinalResponseErrorEx plain_env l ?ch = list_ex (strStartsWith l) s_finalResponsesError" for l
    using quiet_errors [of l "[Written 9]"] by (simp add: isFinalResponseErrorEx_def)
  ultimately show ?thesis
    using exchange_over_line [of plain_env ?ch SINGLELINE "Some ''+CREG:''" "''AT+CREG?''" "[]" "''AT+CREG?'' @ [CHR 0x0D]"
        "[Line ''+CREG: 2,1'']" "''OK''" "[''+CREG: 2,1'']" "[]" None True False]
    by (auto simp: prefix_given_def plain_line_def final_line_def wanted_def line_defs errors short_line_def
        good_line_def is_newline_def MAX_AT_RESPONSE_def isSMSUnsolicited_def s_smsUnsoliciteds_def numeral_2_eq_2)
qed

end
