(* ===== verification/At_Select.thy ===== *)
theory At_Select
  imports At_Channel
begin

text \<open>
  Which channel a request uses (\<open>ril/gsm/mtk-ril/atchannels.c\<close>, the enumerations of \<open>ril.h\<close> and
  \<open>atchannels.h\<close>).  A SIM has a set of channels; \<open>s_RILChannel\<close> holds the sets one after the other and a
  pointer into it is an index.  The subsystem selects the channel of the set, the socket the set.
\<close>

section \<open>Enumerations\<close>

datatype RIL_SOCKET_ID = RIL_SOCKET_1 | RIL_SOCKET_2 | RIL_SOCKET_3 | RIL_SOCKET_4

fun socket_nr :: "RIL_SOCKET_ID \<Rightarrow> nat" where
  "socket_nr RIL_SOCKET_1 = 0"
| "socket_nr RIL_SOCKET_2 = 1"
| "socket_nr RIL_SOCKET_3 = 2"
| "socket_nr RIL_SOCKET_4 = 3"

datatype RILSubSystemId =
  RIL_DEFAULT | RIL_SIM | RIL_STK | RIL_CC | RIL_SS | RIL_SMS | RIL_DATA | RIL_NW | RIL_OEM
| RIL_RT | RIL_NRT | RIL_RADIO | RIL_DATA2 | RIL_SIM2

text \<open>\<open>RIL_CMD_1\<close> to \<open>RIL_CMD_4\<close>, then \<open>RIL_ATCI\<close>, then \<open>RIL_CMD_7\<close> to \<open>RIL_CMD_11\<close> with 64 channels.\<close>

definition RIL_CMD :: "nat \<Rightarrow> nat" where "RIL_CMD k = (if k \<le> 4 then k else k - 1)"
definition RIL_ATCI :: nat where "RIL_ATCI = 5"

text \<open>Each set repeats the enumerators of the first one.\<close>

definition RIL_CHANNEL_SET3_OFFSET :: "ril_env \<Rightarrow> nat" where
  "RIL_CHANNEL_SET3_OFFSET env = RIL_CHANNEL_OFFSET env + RIL_CHANNEL_OFFSET env"
definition RIL_CHANNEL_SET4_OFFSET :: "ril_env \<Rightarrow> nat" where
  "RIL_CHANNEL_SET4_OFFSET env = RIL_CHANNEL_SET3_OFFSET env + RIL_CHANNEL_OFFSET env"
definition RIL_SUPPORT_CHANNELS :: "ril_env \<Rightarrow> nat" where
  "RIL_SUPPORT_CHANNELS env = RIL_CHANNEL_SET4_OFFSET env + RIL_CHANNEL_OFFSET env"

section \<open>The C functions\<close>

definition getSupportChannels :: "ril_env \<Rightarrow> nat" where
  "getSupportChannels env =
     (if SIM_COUNT env = 2 then RIL_CHANNEL_SET3_OFFSET env
      else if SIM_COUNT env = 3 then RIL_CHANNEL_SET4_OFFSET env
      else if SIM_COUNT env = 4 then RIL_SUPPORT_CHANNELS env
      else RIL_CHANNEL_OFFSET env)"

definition initRILChannels :: "ril_env \<Rightarrow> at_channel list" where
  "initRILChannels env = map init_ril_channel [0..<getSupportChannels env]"

definition getChannelCtxbyId :: "ril_env \<Rightarrow> nat \<Rightarrow> nat res" where
  "getChannelCtxbyId env i = (if i < getSupportChannels env then Inr i else Inl (Assert 0))"

definition getRILIdByChannelCtx :: "ril_env \<Rightarrow> nat \<Rightarrow> RIL_SOCKET_ID" where
  "getRILIdByChannelCtx env i =
     (if i \<ge> RIL_CHANNEL_SET4_OFFSET env then RIL_SOCKET_4
      else if i \<ge> RIL_CHANNEL_SET3_OFFSET env then RIL_SOCKET_3
      else if i \<ge> RIL_CHANNEL_OFFSET env then RIL_SOCKET_2
      else RIL_SOCKET_1)"

definition getDefaultChannelCtx :: "ril_env \<Rightarrow> RIL_SOCKET_ID \<Rightarrow> nat" where
  "getDefaultChannelCtx env rid =
     (if RIL_SOCKET_2 = rid then RIL_CHANNEL_OFFSET env
      else if RIL_SOCKET_3 = rid then RIL_CHANNEL_SET3_OFFSET env
      else if RIL_SOCKET_4 = rid then RIL_CHANNEL_SET4_OFFSET env
      else RIL_URC)"

text \<open>The \<open>switch\<close>; the last five subsystems exist with 64 channels only.\<close>

definition subsystem_channel :: "ril_env \<Rightarrow> RILSubSystemId \<Rightarrow> nat" where
  "subsystem_channel env s =
     (if s = RIL_CC \<or> s = RIL_SS then RIL_CMD 2
      else if s = RIL_DATA then RIL_CMD 4
      else if s = RIL_NW \<or> s = RIL_OEM then RIL_CMD 1
      else if s = RIL_SIM \<or> s = RIL_STK \<or> s = RIL_SMS then RIL_CMD 3
      else if channel_64 env \<and> s = RIL_RT then RIL_CMD 7
      else if channel_64 env \<and> s = RIL_NRT then RIL_CMD 8
      else if channel_64 env \<and> s = RIL_RADIO then RIL_CMD 9
      else if channel_64 env \<and> s = RIL_DATA2 then RIL_CMD 10
      else if channel_64 env \<and> s = RIL_SIM2 then RIL_CMD 11
      else RIL_URC)"

definition getRILChannelCtx :: "ril_env \<Rightarrow> RILSubSystemId \<Rightarrow> RIL_SOCKET_ID \<Rightarrow> nat" where
  "getRILChannelCtx env s rid = socket_nr rid * RIL_CHANNEL_OFFSET env + subsystem_channel env s"

text \<open>\<open>proxyId\<close> is what \<open>RIL_queryMyProxyIdByThread\<close> returns, \<open>-1\<close> for a thread that is no proxy.\<close>

definition getChannelCtxbyProxy :: "ril_env \<Rightarrow> int \<Rightarrow> RIL_SOCKET_ID \<Rightarrow> nat res" where
  "getChannelCtxbyProxy env proxyId rid =
     (if \<not> proxyId < int (getSupportChannels env) then Inl (Assert 0)
      else if proxyId > -1 \<and> proxyId < int (getSupportChannels env) then
        (if RIL_SOCKET_1 = rid \<and> proxyId \<ge> int (RIL_CHANNEL_OFFSET env) then Inr (getDefaultChannelCtx env rid)
         else if RIL_SOCKET_2 = rid \<and> (proxyId < int (RIL_CHANNEL_OFFSET env) \<or>
                proxyId > int (RIL_CHANNEL_SET3_OFFSET env)) then Inr (getDefaultChannelCtx env rid)
         else if RIL_SOCKET_3 = rid \<and> (proxyId < int (RIL_CHANNEL_SET3_OFFSET env) \<or>
                proxyId > int (RIL_CHANNEL_SET4_OFFSET env)) then Inr (getDefaultChannelCtx env rid)
         else if RIL_SOCKET_4 = rid \<and> proxyId < int (RIL_CHANNEL_SET4_OFFSET env) then
           Inr (getDefaultChannelCtx env rid)
         else Inr (nat proxyId))
      else Inr (getDefaultChannelCtx env rid))"

text \<open>\<open>targetSim\<close> is the number in the property \<open>PROPERTY_3G_SIM\<close>.\<close>

definition getMainProtocolRid :: "int \<Rightarrow> RIL_SOCKET_ID" where
  "getMainProtocolRid targetSim =
     (if targetSim = 2 then RIL_SOCKET_2
      else if targetSim = 3 then RIL_SOCKET_3
      else if targetSim = 4 then RIL_SOCKET_4
      else RIL_SOCKET_1)"

text \<open>The cases of \<open>channelIdToString\<close>, for the set whose names carry \<open>s\<close>; the IMS channel has none.\<close>

definition set_names :: "ril_env \<Rightarrow> string \<Rightarrow> (nat \<times> string) list" where
  "set_names env s =
     [(RIL_URC, ''RIL_URC'' @ s @ ''_READER''),
      (RIL_CMD 1, ''RIL_CMD'' @ s @ ''_READER_1''),
      (RIL_CMD 2, ''RIL_CMD'' @ s @ ''_READER_2''),
      (RIL_CMD 3, ''RIL_CMD'' @ s @ ''_READER_3''),
      (RIL_CMD 4, ''RIL_CMD'' @ s @ ''_READER_4''),
      (RIL_ATCI, ''RIL_ATCI'' @ s @ ''_READER'')] @
     (if channel_64 env then
        [(RIL_CMD 7, ''RIL_CMD'' @ s @ ''_READER_7''),
         (RIL_CMD 8, ''RIL_CMD'' @ s @ ''_READER_8''),
         (RIL_CMD 9, ''RIL_CMD'' @ s @ ''_READER_9''),
         (RIL_CMD 10, ''RIL_CMD'' @ s @ ''_READER_10''),
         (RIL_CMD 11, ''RIL_CMD'' @ s @ ''_READER_11'')]
      else [])"

definition channel_names :: "ril_env \<Rightarrow> (nat \<times> string) list" where
  "channel_names env =
     concat (map (\<lambda>(off, s). map (\<lambda>(i, name). (off + i, name)) (set_names env s))
       [(0, ''''), (RIL_CHANNEL_OFFSET env, ''2''), (RIL_CHANNEL_SET3_OFFSET env, ''3''),
        (RIL_CHANNEL_SET4_OFFSET env, ''4'')])"

definition channelIdToString :: "ril_env \<Rightarrow> nat \<Rightarrow> string" where
  "channelIdToString env i =
     (case map_of (channel_names env) i of Some name \<Rightarrow> name | None \<Rightarrow> ''<unknown proxy>'')"

section \<open>Channels stay with their SIM\<close>

lemmas offset_defs = RIL_CHANNEL_SET3_OFFSET_def RIL_CHANNEL_SET4_OFFSET_def RIL_SUPPORT_CHANNELS_def

lemma offset_pos [simp]: "0 < RIL_CHANNEL_OFFSET env"
  by (simp add: RIL_CHANNEL_OFFSET_def)

lemma subsystem_channel_less: "subsystem_channel env s < RIL_CHANNEL_OFFSET env"
  by (auto simp: subsystem_channel_def RIL_CHANNEL_OFFSET_def RIL_CMD_def RIL_URC_def)

lemma support_channels:
  "1 \<le> SIM_COUNT env \<Longrightarrow> SIM_COUNT env \<le> 4 \<Longrightarrow> getSupportChannels env = SIM_COUNT env * RIL_CHANNEL_OFFSET env"
  by (auto simp: getSupportChannels_def offset_defs)

lemma set_of_channel:
  "k < RIL_CHANNEL_OFFSET env \<Longrightarrow> getRILIdByChannelCtx env (socket_nr rid * RIL_CHANNEL_OFFSET env + k) = rid"
  by (cases rid) (auto simp: getRILIdByChannelCtx_def offset_defs)

lemma default_channel: "getDefaultChannelCtx env rid = socket_nr rid * RIL_CHANNEL_OFFSET env"
  by (cases rid) (auto simp: getDefaultChannelCtx_def offset_defs RIL_URC_def)

lemma default_channel_set [simp]: "getRILIdByChannelCtx env (getDefaultChannelCtx env rid) = rid"
  using set_of_channel [of 0] by (simp add: default_channel)

text \<open>C40. Every subsystem of a SIM that the product has is given a channel that is initialised and belongs
  to that SIM: \<open>getRILIdByChannelCtx\<close> inverts the choice, and two requests share a channel exactly when
  they are for the same SIM and the same channel of the set.\<close>

theorem channel_of_sim:
  assumes "SIM_COUNT env \<le> 4" and "socket_nr rid < SIM_COUNT env"
  shows "getRILChannelCtx env s rid < length (initRILChannels env) \<and>
    getRILIdByChannelCtx env (getRILChannelCtx env s rid) = rid \<and>
    (getRILChannelCtx env s rid = getRILChannelCtx env s' rid' \<longleftrightarrow>
       rid = rid' \<and> subsystem_channel env s = subsystem_channel env s')"
proof -
  let ?n = "RIL_CHANNEL_OFFSET env"
  have k: "subsystem_channel env t < ?n" for t by (rule subsystem_channel_less)
  have "getRILChannelCtx env s rid < Suc (socket_nr rid) * ?n" using k [of s] by (simp add: getRILChannelCtx_def)
  also have "\<dots> \<le> SIM_COUNT env * ?n" using assms by (intro mult_le_mono) auto
  finally have "getRILChannelCtx env s rid < length (initRILChannels env)"
    using assms by (simp add: initRILChannels_def support_channels)
  moreover have inv: "getRILIdByChannelCtx env (getRILChannelCtx env t r) = r" for t r
    unfolding getRILChannelCtx_def by (rule set_of_channel [OF k])
  moreover have "getRILChannelCtx env s rid = getRILChannelCtx env s' rid' \<longleftrightarrow>
      rid = rid' \<and> subsystem_channel env s = subsystem_channel env s'"
    using inv [of s rid] inv [of s' rid'] by (auto simp: getRILChannelCtx_def)
  ultimately show ?thesis by blast
qed

definition dual_env :: ril_env where
  "dual_env = \<lparr>SIM_COUNT = 3, channel_64 = True, ims_channel = True, isNumericSet = 0, s_md_off = 0,
     on_reader_closed = True, on_timeout = True, internal_load = False, s_at_timeoutMsec = 300000,
     chip_test_mode = False, get3GSIM = 1, getSimCount = 3\<rparr>"

theorem channel_of_sim_witness:
  "getRILChannelCtx dual_env RIL_SIM2 RIL_SOCKET_3 = 34 \<and> length (initRILChannels dual_env) = 36 \<and>
   getRILIdByChannelCtx dual_env 34 = RIL_SOCKET_3"
proof -
  have h: "SIM_COUNT dual_env \<le> 4" "socket_nr RIL_SOCKET_3 < SIM_COUNT dual_env" by (simp_all add: dual_env_def)
  have v: "getRILChannelCtx dual_env RIL_SIM2 RIL_SOCKET_3 = 34" by code_simp
  show ?thesis using channel_of_sim [OF h, of RIL_SIM2 RIL_SIM2 RIL_SOCKET_3] v
    by (simp add: initRILChannels_def getSupportChannels_def offset_defs RIL_CHANNEL_OFFSET_def dual_env_def)
qed

text \<open>The proxies whose own channel is given out for a socket, by the code's comparisons.\<close>

definition proxy_fits :: "ril_env \<Rightarrow> nat \<Rightarrow> RIL_SOCKET_ID \<Rightarrow> bool" where
  "proxy_fits env i rid \<longleftrightarrow>
     (case rid of
        RIL_SOCKET_1 \<Rightarrow> i < RIL_CHANNEL_OFFSET env
      | RIL_SOCKET_2 \<Rightarrow> RIL_CHANNEL_OFFSET env \<le> i \<and> i \<le> RIL_CHANNEL_SET3_OFFSET env
      | RIL_SOCKET_3 \<Rightarrow> RIL_CHANNEL_SET3_OFFSET env \<le> i \<and> i \<le> RIL_CHANNEL_SET4_OFFSET env
      | RIL_SOCKET_4 \<Rightarrow> RIL_CHANNEL_SET4_OFFSET env \<le> i)"

text \<open>A thread that works for a proxy gets a channel of the SIM it asks for, whatever the proxy, but in
  two cases: on the URC channel of the third SIM it is given that channel for the second, and on that
  of the fourth for the third, as the upper limits are compared with \<open>>\<close> in place of \<open>>=\<close>.\<close>

theorem proxy_crosses_sims:
  assumes "SIM_COUNT env \<le> 4" and "proxyId < int (getSupportChannels env)"
  shows "\<exists>i. getChannelCtxbyProxy env proxyId rid = Inr i \<and>
    (getRILIdByChannelCtx env i \<noteq> rid \<longleftrightarrow>
       rid = RIL_SOCKET_2 \<and> proxyId = int (getDefaultChannelCtx env RIL_SOCKET_3) \<or>
       rid = RIL_SOCKET_3 \<and> proxyId = int (getDefaultChannelCtx env RIL_SOCKET_4))"
proof (cases "proxyId < 0")
  case True
  then have "getChannelCtxbyProxy env proxyId rid = Inr (getDefaultChannelCtx env rid)"
    using assms by (simp add: getChannelCtxbyProxy_def)
  with True show ?thesis by auto
next
  case False
  then obtain i where i: "proxyId = int i" by (metis nonneg_int_cases not_less)
  have d: "getDefaultChannelCtx env RIL_SOCKET_3 = RIL_CHANNEL_SET3_OFFSET env"
    "getDefaultChannelCtx env RIL_SOCKET_4 = RIL_CHANNEL_SET4_OFFSET env"
    by (simp_all add: getDefaultChannelCtx_def)
  have in_set: "getChannelCtxbyProxy env proxyId rid = Inr (if proxy_fits env i rid then i else getDefaultChannelCtx env rid)"
    using assms by (cases rid) (auto simp: i getChannelCtxbyProxy_def proxy_fits_def)
  have "getRILIdByChannelCtx env i \<noteq> rid \<longleftrightarrow>
      rid = RIL_SOCKET_2 \<and> i = RIL_CHANNEL_SET3_OFFSET env \<or> rid = RIL_SOCKET_3 \<and> i = RIL_CHANNEL_SET4_OFFSET env"
    if "proxy_fits env i rid"
    using that by (cases rid) (auto simp: proxy_fits_def getRILIdByChannelCtx_def offset_defs)
  moreover have "proxy_fits env i rid"
    if "rid = RIL_SOCKET_2 \<and> i = RIL_CHANNEL_SET3_OFFSET env \<or> rid = RIL_SOCKET_3 \<and> i = RIL_CHANNEL_SET4_OFFSET env"
    using that by (auto simp: proxy_fits_def offset_defs)
  ultimately show ?thesis unfolding in_set d by (auto simp: i)
qed

theorem proxy_crosses_sims_witness:
  "getChannelCtxbyProxy dual_env 24 RIL_SOCKET_2 = Inr 24 \<and> getRILIdByChannelCtx dual_env 24 \<noteq> RIL_SOCKET_2"
proof -
  have h: "SIM_COUNT dual_env \<le> 4" by (simp add: dual_env_def)
  have s: "(24::int) < int (getSupportChannels dual_env)" by code_simp
  have d: "getDefaultChannelCtx dual_env RIL_SOCKET_3 = 24" by code_simp
  have v: "getChannelCtxbyProxy dual_env 24 RIL_SOCKET_2 = Inr 24" by code_simp
  show ?thesis using proxy_crosses_sims [OF h s, of RIL_SOCKET_2] v d by auto
qed

text \<open>Names: no two channels with a name share it.\<close>

lemma channel_names_distinct: "distinct (map snd (channel_names env))"
  by (cases "channel_64 env") (simp_all add: channel_names_def set_names_def)

lemma channelIdToString_inj:
  assumes "channelIdToString env i = channelIdToString env j"
    and "channelIdToString env i \<noteq> ''<unknown proxy>''"
  shows "i = j"
proof -
  have "map_of (channel_names env) i \<noteq> None" "map_of (channel_names env) j \<noteq> None"
    using assms by (auto simp: channelIdToString_def split: option.splits)
  then obtain a b where ab: "map_of (channel_names env) i = Some a" "map_of (channel_names env) j = Some b" by auto
  then have "(i, a) \<in> set (channel_names env)" "(j, b) \<in> set (channel_names env)" by (auto dest: map_of_SomeD)
  moreover have "a = b" using assms ab by (simp add: channelIdToString_def)
  moreover have "inj_on snd (set (channel_names env))" using channel_names_distinct [of env] by (simp add: distinct_map)
  ultimately show ?thesis using inj_onD [of snd "set (channel_names env)" "(i, b)" "(j, b)"] by simp
qed

end
