(* ===== verification/Hub_Alloc.thy ===== *)
theory Hub_Alloc
  imports Hw_Prelude
begin

text \<open>
  What the allocators of the context hub promise: the locale \<open>allocator\<close>, with what follows for any
  sequence of requests.  \<open>Hub_Heap\<close> and \<open>Hub_Slab\<close> interpret it.
\<close>

lemma map_sum_eq_Inr [res]: "map_sum id g r = Inr y \<longleftrightarrow> (\<exists>x. r = Inr x \<and> g x = y)"
  by (cases r) auto

text \<open>A block is an address and a length.\<close>

type_synonym block = "nat \<times> nat"

definition apart :: "block \<Rightarrow> block \<Rightarrow> bool" where
  "apart x y \<longleftrightarrow> fst x + snd x \<le> fst y \<or> fst y + snd y \<le> fst x"

datatype ('r, 'o) alloc_op = Alloc 'r | Free nat | Other 'o

text \<open>
  \<open>live s\<close> are the blocks handed out, in the area \<open>area s\<close>; \<open>wants r\<close> is the length a request asks for.  Other
  operations may only take blocks back.
\<close>

locale allocator =
  fixes ok :: "'s \<Rightarrow> bool"
    and live :: "'s \<Rightarrow> block set"
    and area :: "'s \<Rightarrow> block"
    and wants :: "'r \<Rightarrow> nat"
    and alloc :: "'r \<Rightarrow> 's \<Rightarrow> (nat option \<times> 's) res"
    and free :: "nat \<Rightarrow> 's \<Rightarrow> 's res"
    and other :: "'o \<Rightarrow> 's \<Rightarrow> 's res"
  assumes alloc_None: "ok s \<Longrightarrow> alloc r s = Inr (None, s') \<Longrightarrow> ok s' \<and> live s' = live s \<and> area s' = area s"
    and alloc_Some: "ok s \<Longrightarrow> alloc r s = Inr (Some p, s') \<Longrightarrow>
      ok s' \<and> area s' = area s \<and>
      (\<exists>n \<ge> wants r. live s' = insert (p, n) (live s) \<and> (\<forall>b \<in> live s. apart (p, n) b \<and> fst b \<noteq> p) \<and>
        fst (area s) \<le> p \<and> p + n \<le> fst (area s) + snd (area s))"
    and free_live: "ok s \<Longrightarrow> (p, n) \<in> live s \<Longrightarrow>
      \<exists>s'. free p s = Inr s' \<and> ok s' \<and> live s' = live s - {(p, n)} \<and> area s' = area s"
    and other_live: "ok s \<Longrightarrow> other x s = Inr s' \<Longrightarrow> ok s' \<and> live s' \<subseteq> live s \<and> area s' = area s"
begin

text \<open>A client that frees only what it holds.\<close>

fun run :: "('r, 'o) alloc_op list \<Rightarrow> 's \<Rightarrow> 's res" where
  "run [] s = Inr s"
| "run (Alloc r # ops) s = bindE (alloc r s) (\<lambda>(p, s'). run ops s')"
| "run (Free p # ops) s = (if p \<in> fst ` live s then bindE (free p s) (run ops) else run ops s)"
| "run (Other x # ops) s = bindE (other x s) (run ops)"

definition separate :: "'s \<Rightarrow> bool" where
  "separate s \<longleftrightarrow>
     (\<forall>x \<in> live s. fst (area s) \<le> fst x \<and> fst x + snd x \<le> fst (area s) + snd (area s)) \<and>
     (\<forall>x \<in> live s. \<forall>y \<in> live s. x \<noteq> y \<longrightarrow> apart x y)"

lemma alloc_separate:
  assumes "ok s" and "separate s" and "alloc r s = Inr (p, s')"
  shows "ok s' \<and> separate s'"
proof (cases p)
  case None
  then show ?thesis using alloc_None [of s r s'] assms by (simp add: separate_def)
next
  case (Some q)
  then obtain n where n: "ok s'" "area s' = area s" "live s' = insert (q, n) (live s)"
    "\<forall>b \<in> live s. apart (q, n) b" "fst (area s) \<le> q" "q + n \<le> fst (area s) + snd (area s)"
    using alloc_Some [of s r q s'] assms(1,3) by blast
  have "apart b (q, n)" if "b \<in> live s" for b using n(4) that by (auto simp: apart_def)
  with n assms(2) show ?thesis by (auto simp: separate_def)
qed

lemma run_separate:
  "ok s \<Longrightarrow> separate s \<Longrightarrow> run ops s = Inr s' \<Longrightarrow> ok s' \<and> separate s'"
proof (induction ops arbitrary: s)
  case Nil
  then show ?case by simp
next
  case (Cons op ops)
  show ?case
  proof (cases op)
    case (Alloc r)
    with Cons.prems obtain p s1 where a: "alloc r s = Inr (p, s1)" "run ops s1 = Inr s'" by (auto simp: res)
    then show ?thesis using Cons.IH alloc_separate Cons.prems(1,2) by blast
  next
    case (Free p)
    show ?thesis
    proof (cases "p \<in> fst ` live s")
      case True
      then obtain n where "(p, n) \<in> live s" by auto
      from free_live [OF Cons.prems(1) this] obtain s1 where f: "free p s = Inr s1" "ok s1"
        "live s1 = live s - {(p, n)}" "area s1 = area s" by blast
      then have "separate s1" using Cons.prems(2) by (auto simp: separate_def)
      moreover have "run ops s1 = Inr s'" using Cons.prems(3) Free True f(1) by simp
      ultimately show ?thesis using Cons.IH f(2) by blast
    qed (use Cons Free in simp)
  next
    case (Other x)
    with Cons.prems obtain s1 where o: "other x s = Inr s1" "run ops s1 = Inr s'" by (auto simp: res)
    then have s1: "ok s1" "live s1 \<subseteq> live s" "area s1 = area s" using other_live Cons.prems(1) by blast+
    have "separate s1" using Cons.prems(2) s1(2) unfolding separate_def s1(3) by blast
    then show ?thesis using Cons.IH o(2) s1(1) by blast
  qed
qed

end

end
