(* ===== verification/Hub_Heap.thy ===== *)
theory Hub_Heap
  imports Hub_Alloc
begin

text \<open>
  The heap of the context hub's operating system (\<open>contexthub/firmware/src/heap.c\<close>): chunks with a header,
  one behind the other, each with the address of the one before it.  Addresses count from
  \<open>ALIGNED_HEAP_START\<close>; the memory maps them to the headers written there.  A header that does not fit into the
  heap is \<open>OutOfBounds\<close>, one that was never written \<open>UseAfterFree\<close>.  The target has 32 bit pointers.
\<close>

section \<open>Data\<close>

definition TASK_IDX_BITS :: nat where "TASK_IDX_BITS = 8"
definition TIDX_HEAP_EXTRA :: nat where "TIDX_HEAP_EXTRA = 2"
definition TIDX_HEAP_BITS :: nat where "TIDX_HEAP_BITS = TASK_IDX_BITS + TIDX_HEAP_EXTRA"
definition TIDX_MASK :: nat where "TIDX_MASK = 2 ^ TIDX_HEAP_BITS - 1"
definition MAX_HEAP_ORDER :: nat where "MAX_HEAP_ORDER = 31 - TIDX_HEAP_BITS"

record heap_node =
  hn_prev :: "nat option"
  hn_size :: nat
  hn_used :: bool
  hn_tidx :: nat

text \<open>\<open>sizeof (struct HeapNode)\<close>: the pointer and one word of bit fields.\<close>

definition HN :: nat where "HN = 8"

text \<open>Assignments to the bit fields.\<close>

definition size_bits :: "nat \<Rightarrow> nat" where "size_bits n = n mod 2 ^ MAX_HEAP_ORDER"
definition tidx_bits :: "nat \<Rightarrow> nat" where "tidx_bits t = t mod 2 ^ TIDX_HEAP_BITS"

text \<open>\<open>hh_lock\<close>: somebody else holds \<open>gHeapLock\<close>.\<close>

record hub_heap =
  hh_mem :: "nat \<Rightarrow> heap_node option"
  hh_real :: nat
  hh_head :: nat
  hh_tail :: nat
  hh_lock :: bool
  hh_need :: bool

definition hn_load :: "hub_heap \<Rightarrow> nat \<Rightarrow> heap_node res" where
  "hn_load h a =
     (if a + HN \<le> hh_real h then (case hh_mem h a of None \<Rightarrow> Inl UseAfterFree | Some n \<Rightarrow> Inr n)
      else Inl OutOfBounds)"

definition hn_store :: "hub_heap \<Rightarrow> nat \<Rightarrow> heap_node \<Rightarrow> hub_heap res" where
  "hn_store h a n =
     (if a + HN \<le> hh_real h then Inr (h\<lparr>hh_mem := (hh_mem h)(a \<mapsto> n)\<rparr>) else Inl OutOfBounds)"

text \<open>\<open>node->prev = p\<close>; the rest of the header may be anything.\<close>

definition set_prev :: "hub_heap \<Rightarrow> nat \<Rightarrow> nat \<Rightarrow> hub_heap res" where
  "set_prev h a p =
     bindE (hn_load h a) (\<lambda>n. hn_store h a (n\<lparr>hn_prev := Some p\<rparr>))"

section \<open>The C functions\<close>

definition heapPrvGetNext :: "hub_heap \<Rightarrow> nat \<Rightarrow> nat option res" where
  "heapPrvGetNext h node =
     (if hh_tail h = node then Inr None
      else bindE (hn_load h node) (\<lambda>n. Inr (Some (node + HN + hn_size n))))"

text \<open>\<open>REAL_HEAP_SIZE\<close>, and what happens to be in the \<open>tidx\<close> of the first header.\<close>

definition heapInit :: "nat \<Rightarrow> nat \<Rightarrow> (bool \<times> hub_heap) res" where
  "heapInit real t =
     (let h = \<lparr>hh_mem = (\<lambda>_. None), hh_real = real, hh_head = 0, hh_tail = 0, hh_lock = False, hh_need = False\<rparr>
      in if real < HN then Inr (False, h)
         else
           bindE (hn_store h 0 \<lparr>hn_prev = None, hn_size = size_bits (real - HN), hn_used = False, hn_tidx = tidx_bits t\<rparr>)
             (\<lambda>h1. Inr (True, h1)))"

text \<open>
  The inner loop of \<open>heapMergeFreeChunks\<close>.  Its rounds are bounded by the size of the heap: a chunk
  has at least its header, and each round takes one chunk away or goes on to the next.
\<close>

fun merge_pass :: "nat \<Rightarrow> nat option \<Rightarrow> hub_heap \<Rightarrow> hub_heap res" where
  "merge_pass 0 node h = Inl Hang"
| "merge_pass (Suc fuel) None h = Inr h"
| "merge_pass (Suc fuel) (Some node) h =
     bindE (heapPrvGetNext h node) (\<lambda>next.
     bindE (hn_load h node) (\<lambda>n.
       case next of
         None \<Rightarrow> merge_pass fuel next h
       | Some b \<Rightarrow>
           if hn_used n then merge_pass fuel next h
           else
             bindE (hn_load h b) (\<lambda>m.
               if hn_used m then merge_pass fuel next h
               else
                 bindE (hn_store h node (n\<lparr>hn_size := size_bits (hn_size n + HN + hn_size m)\<rparr>)) (\<lambda>h1.
                 bindE (heapPrvGetNext h1 node) (\<lambda>next'.
                   case next' of
                     Some c \<Rightarrow> bindE (set_prev h1 c node) (\<lambda>h2. merge_pass fuel (Some node) h2)
                   | None \<Rightarrow> merge_pass fuel (Some node) (h1\<lparr>hh_tail := node\<rparr>))))))"

text \<open>Nobody sets the flag again while the loop runs.\<close>

definition heapMergeFreeChunks :: "hub_heap \<Rightarrow> hub_heap res" where
  "heapMergeFreeChunks h =
     (if hh_need h then merge_pass (Suc (hh_real h)) (Some (hh_head h)) (h\<lparr>hh_need := False\<rparr>) else Inr h)"

text \<open>The search for the best chunk: \<open>node\<close> and \<open>best\<close>.\<close>

definition better :: "hub_heap \<Rightarrow> nat option \<Rightarrow> nat \<Rightarrow> bool res" where
  "better h best s =
     (case best of None \<Rightarrow> Inr True | Some b \<Rightarrow> bindE (hn_load h b) (\<lambda>m. Inr (hn_size m > s)))"

function find_best :: "hub_heap \<Rightarrow> nat \<Rightarrow> nat option \<Rightarrow> nat option \<Rightarrow> nat option res" where
  "find_best h sz None best = Inr best"
| "find_best h sz (Some node) best =
     bindE (hn_load h node) (\<lambda>n.
     bindE (if \<not> hn_used n \<and> hn_size n \<ge> sz then better h best (hn_size n) else Inr False) (\<lambda>take_it.
       if take_it \<and> hn_size n = sz then Inr (Some node)
       else
         bindE (heapPrvGetNext h node) (\<lambda>next.
           find_best h sz next (if take_it then Some node else best))))"
  by pat_completeness auto
termination
  by (relation "measure (\<lambda>(h, sz, node, best). case node of None \<Rightarrow> 0 | Some a \<Rightarrow> Suc (hh_real h - a))")
    (auto simp: res hn_load_def heapPrvGetNext_def HN_def split: if_splits option.splits)

declare find_best.simps [simp del]

text \<open>The part for a chunk found: it is split when that leaves more than a header.\<close>

definition split_chunk :: "hub_heap \<Rightarrow> nat \<Rightarrow> nat \<Rightarrow> hub_heap res" where
  "split_chunk h best sz =
     bindE (hn_load h best) (\<lambda>n.
       if hn_size n - sz > HN then
         let node = best + HN + sz;
             rest = \<lparr>hn_prev = Some best, hn_size = size_bits (hn_size n - sz - HN), hn_used = False, hn_tidx = 0\<rparr>
         in bindE (hn_store h node rest) (\<lambda>h1.
            bindE (if best \<noteq> hh_tail h1 then
                     bindE (heapPrvGetNext h1 node) (\<lambda>next.
                       case next of None \<Rightarrow> Inl NullDeref | Some c \<Rightarrow> set_prev h1 c node)
                   else Inr (h1\<lparr>hh_tail := node\<rparr>)) (\<lambda>h2.
            bindE (hn_load h2 best) (\<lambda>n2. hn_store h2 best (n2\<lparr>hn_size := size_bits sz\<rparr>))))
       else Inr h)"

text \<open>\<open>(sz + 3) &~ 3\<close> in 32 bits.\<close>

definition align4 :: "u32 \<Rightarrow> nat" where
  "align4 sz = unat ((sz + 3) AND NOT 3)"

text \<open>\<open>tid\<close> is what \<open>osGetCurrentTid\<close> returns.\<close>

definition heapAlloc :: "u32 \<Rightarrow> nat \<Rightarrow> hub_heap \<Rightarrow> (nat option \<times> hub_heap) res" where
  "heapAlloc sz tid h =
     (if hh_lock h then Inr (None, h)
      else
        bindE (heapMergeFreeChunks h) (\<lambda>h1.
        bindE (find_best h1 (align4 sz) (Some (hh_head h1)) None) (\<lambda>best.
          case best of
            None \<Rightarrow> Inr (None, h1)
          | Some b \<Rightarrow>
              bindE (split_chunk h1 b (align4 sz)) (\<lambda>h2.
              bindE (hn_load h2 b) (\<lambda>n.
              bindE (hn_store h2 b (n\<lparr>hn_used := True, hn_tidx := tidx_bits tid\<rparr>)) (\<lambda>h3.
                Inr (Some (b + HN), h3)))))))"

text \<open>The two loops of \<open>heapFree\<close>, with the same bound.\<close>

fun back_loop :: "nat \<Rightarrow> hub_heap \<Rightarrow> nat \<Rightarrow> nat res" where
  "back_loop 0 h node = Inl Hang"
| "back_loop (Suc fuel) h node =
     bindE (hn_load h node) (\<lambda>n.
       case hn_prev n of
         None \<Rightarrow> Inr node
       | Some p \<Rightarrow> bindE (hn_load h p) (\<lambda>m. if hn_used m then Inr node else back_loop fuel h p))"

fun forward_loop :: "nat \<Rightarrow> hub_heap \<Rightarrow> nat \<Rightarrow> hub_heap res" where
  "forward_loop 0 h node = Inl Hang"
| "forward_loop (Suc fuel) h node =
     bindE (heapPrvGetNext h node) (\<lambda>t.
       case t of
         None \<Rightarrow> Inr h
       | Some t \<Rightarrow>
           bindE (hn_load h t) (\<lambda>m.
             if hn_used m then Inr h
             else
               bindE (hn_load h node) (\<lambda>n.
               bindE (hn_store h node (n\<lparr>hn_size := size_bits (hn_size n + HN + hn_size m)\<rparr>)) (\<lambda>h1.
                 forward_loop fuel (if hh_tail h1 = t then h1\<lparr>hh_tail := node\<rparr> else h1) node))))"

definition heapFree :: "nat option \<Rightarrow> hub_heap \<Rightarrow> hub_heap res" where
  "heapFree ptr h =
     (case ptr of
        None \<Rightarrow> Inr h
      | Some p \<Rightarrow>
          if p < HN then Inl OutOfBounds
          else
            bindE (hn_load h (p - HN)) (\<lambda>n.
            bindE (hn_store h (p - HN) (n\<lparr>hn_used := False, hn_tidx := 0\<rparr>)) (\<lambda>h1.
              if hh_lock h1 then Inr (h1\<lparr>hh_need := True\<rparr>)
              else
                bindE (back_loop (Suc (hh_real h1)) h1 (p - HN)) (\<lambda>node.
                bindE (forward_loop (Suc (hh_real h1)) h1 node) (\<lambda>h2.
                bindE (heapPrvGetNext h2 node) (\<lambda>t.
                  case t of None \<Rightarrow> Inr h2 | Some t \<Rightarrow> set_prev h2 t node))))))"

function free_all_loop :: "nat \<Rightarrow> hub_heap \<Rightarrow> nat \<Rightarrow> int \<Rightarrow> (int \<times> hub_heap) res" where
  "free_all_loop tid h node count =
     bindE (hn_load h node) (\<lambda>n.
     bindE (if hn_tidx n = tid then hn_store h node (n\<lparr>hn_used := False, hn_tidx := 0\<rparr>) else Inr h) (\<lambda>h1.
     bindE (heapPrvGetNext h1 node) (\<lambda>next.
       let count' = (if hn_tidx n = tid then count + 1 else count)
       in case next of None \<Rightarrow> Inr (count', h1) | Some b \<Rightarrow> free_all_loop tid h1 b count')))"
  by pat_completeness auto
termination
  by (relation "measure (\<lambda>(tid, h, node, count). Suc (hh_real h) - node)")
    (auto simp: res hn_load_def hn_store_def heapPrvGetNext_def HN_def split: if_splits option.splits)

declare free_all_loop.simps [simp del]

definition heapFreeAll :: "nat \<Rightarrow> hub_heap \<Rightarrow> (int \<times> hub_heap) res" where
  "heapFreeAll tid h =
     (if tid = 0 then Inr (-1, h)
      else if hh_lock h then Inr (-1, h)
      else
        bindE (free_all_loop (tid AND TIDX_MASK) h (hh_head h) 0) (\<lambda>(count, h1).
          Inr (count, h1\<lparr>hh_need := True\<rparr>)))"

section \<open>The heap as a list of chunks\<close>

record chunk =
  ck_size :: nat
  ck_used :: bool
  ck_tidx :: nat

abbreviation node_of :: "nat option \<Rightarrow> chunk \<Rightarrow> heap_node" where
  "node_of p c \<equiv> \<lparr>hn_prev = p, hn_size = ck_size c, hn_used = ck_used c, hn_tidx = ck_tidx c\<rparr>"

text \<open>\<open>layout m p a cs\<close>: from address \<open>a\<close> on lie the chunks \<open>cs\<close>, the one before the first at \<open>p\<close>.\<close>

fun layout :: "(nat \<Rightarrow> heap_node option) \<Rightarrow> nat option \<Rightarrow> nat \<Rightarrow> chunk list \<Rightarrow> bool" where
  "layout m p a [] \<longleftrightarrow> True"
| "layout m p a (c # cs) \<longleftrightarrow> m a = Some (node_of p c) \<and> layout m (Some a) (a + HN + ck_size c) cs"

definition span :: "chunk list \<Rightarrow> nat" where
  "span cs = sum_list (map (\<lambda>c. HN + ck_size c) cs)"

fun last_at :: "nat option \<Rightarrow> nat \<Rightarrow> chunk list \<Rightarrow> nat option" where
  "last_at p a [] = p"
| "last_at p a (c # cs) = last_at (Some a) (a + HN + ck_size c) cs"

lemma span_simps [simp]: "span [] = 0" "span (c # cs) = HN + ck_size c + span cs" "span (xs @ ys) = span xs + span ys"
  by (simp_all add: span_def)

lemma HN_pos [simp]: "0 < HN" "HN \<noteq> 0"
  by (simp_all add: HN_def)

lemma last_at_append [simp]: "last_at p a (xs @ ys) = last_at (last_at p a xs) (a + span xs) ys"
  by (induction xs arbitrary: p a) (simp_all add: ac_simps)

lemma layout_append [simp]:
  "layout m p a (xs @ ys) \<longleftrightarrow> layout m p a xs \<and> layout m (last_at p a xs) (a + span xs) ys"
  by (induction xs arbitrary: p a) (simp_all add: ac_simps)

lemma layout_cong: "(\<And>b. a \<le> b \<Longrightarrow> b < a + span cs \<Longrightarrow> m b = m' b) \<Longrightarrow> layout m p a cs = layout m' p a cs"
proof (induction cs arbitrary: p a)
  case (Cons c cs)
  have "m a = m' a" using Cons.prems by simp
  moreover have "layout m (Some a) (a + HN + ck_size c) cs = layout m' (Some a) (a + HN + ck_size c) cs"
    using Cons.prems by (intro Cons.IH) auto
  ultimately show ?case by simp
qed simp

lemma layout_upd [simp]: "b < a \<or> a + span cs \<le> b \<Longrightarrow> layout (m(b := x)) p a cs = layout m p a cs"
  by (rule layout_cong) auto

definition heap_ok :: "hub_heap \<Rightarrow> chunk list \<Rightarrow> bool" where
  "heap_ok h cs \<longleftrightarrow> cs \<noteq> [] \<and> layout (hh_mem h) None 0 cs \<and> span cs = hh_real h \<and> hh_head h = 0 \<and>
     last_at None 0 cs = Some (hh_tail h) \<and> hh_real h < 2 ^ MAX_HEAP_ORDER"

lemma heap_ok_flags [simp]: "heap_ok (h\<lparr>hh_need := b\<rparr>) cs = heap_ok h cs"
  by (simp add: heap_ok_def)

lemma size_bits_id: "n < 2 ^ MAX_HEAP_ORDER \<Longrightarrow> size_bits n = n"
  by (simp add: size_bits_def)

text \<open>The chunk at a position: its header, its successor, and whether it is the last.\<close>

lemma last_at_bound: "last_at p a cs = Some b \<Longrightarrow> p = Some b \<and> cs = [] \<or> a \<le> b \<and> b < a + span cs"
proof (induction cs arbitrary: p a)
  case (Cons c cs)
  from Cons.IH [of "Some a" "a + HN + ck_size c"] Cons.prems show ?case by auto
qed simp

lemma heap_at:
  assumes "heap_ok h (xs @ c # ys)"
  shows "hn_load h (span xs) = Inr (node_of (last_at None 0 xs) c)"
    and "hn_store h (span xs) n = Inr (h\<lparr>hh_mem := (hh_mem h)(span xs \<mapsto> n)\<rparr>)"
    and "heapPrvGetNext h (span xs) = Inr (if ys = [] then None else Some (span (xs @ [c])))"
    and "hh_tail h = span xs \<longleftrightarrow> ys = []"
proof -
  have fits: "span xs + HN \<le> hh_real h" using assms by (auto simp: heap_ok_def)
  then show "hn_store h (span xs) n = Inr (h\<lparr>hh_mem := (hh_mem h)(span xs \<mapsto> n)\<rparr>)" by (simp add: hn_store_def)
  show load: "hn_load h (span xs) = Inr (node_of (last_at None 0 xs) c)"
    using assms fits by (simp add: heap_ok_def hn_load_def)
  have "last_at (Some (span xs)) (span xs + HN + ck_size c) ys = Some (hh_tail h)"
    using assms by (simp add: heap_ok_def ac_simps)
  then show tail: "hh_tail h = span xs \<longleftrightarrow> ys = []"
    using last_at_bound [of "Some (span xs)" "span xs + HN + ck_size c" ys "hh_tail h"] by (cases ys) auto
  show "heapPrvGetNext h (span xs) = Inr (if ys = [] then None else Some (span (xs @ [c])))"
    using load tail by (simp add: heapPrvGetNext_def ac_simps)
qed

text \<open>Replacing some chunks in the middle; the header behind them gets its new predecessor.\<close>

lemma heap_splice:
  assumes "heap_ok h (xs @ mid @ ys)" and "mid' \<noteq> []" and "span mid' = span mid"
    and "layout (hh_mem h') (last_at None 0 xs) (span xs) mid'"
    and "\<And>b. b < span xs \<Longrightarrow> hh_mem h' b = hh_mem h b"
    and "ys = [] \<Longrightarrow> last_at None 0 (xs @ mid') = Some (hh_tail h')"
    and "\<And>e zs. ys = e # zs \<Longrightarrow>
      hh_mem h' (span (xs @ mid)) = Some (node_of (last_at None 0 (xs @ mid')) e) \<and> hh_tail h' = hh_tail h"
    and "\<And>b. span (xs @ mid) < b \<Longrightarrow> hh_mem h' b = hh_mem h b"
    and "hh_real h' = hh_real h" and "hh_head h' = hh_head h"
  shows "heap_ok h' (xs @ mid' @ ys)"
proof -
  have "layout (hh_mem h') None 0 xs = layout (hh_mem h) None 0 xs"
    using assms(5) by (intro layout_cong) auto
  moreover have "layout (hh_mem h') (last_at None 0 (xs @ mid')) (span (xs @ mid)) ys \<and>
      last_at (last_at None 0 (xs @ mid')) (span (xs @ mid)) ys = Some (hh_tail h')"
  proof (cases ys)
    case (Cons e zs)
    let ?a = "span (xs @ mid) + HN + ck_size e"
    have "layout (hh_mem h') (Some (span (xs @ mid))) ?a zs = layout (hh_mem h) (Some (span (xs @ mid))) ?a zs"
    proof (rule layout_cong)
      fix b
      assume "?a \<le> b"
      then have "span (xs @ mid) < b" using HN_pos(1) by linarith
      then show "hh_mem h' b = hh_mem h b" by (rule assms(8))
    qed
    then show ?thesis using assms(1,7) Cons by (simp add: heap_ok_def ac_simps)
  qed (use assms(6) in simp)
  ultimately show ?thesis using assms(1-4,9,10) by (simp add: heap_ok_def ac_simps)
qed

lemma set_prev_at:
  assumes "hh_mem h a = Some (node_of q e)" and "a + HN \<le> hh_real h"
  shows "set_prev h a p = Inr (h\<lparr>hh_mem := (hh_mem h)(a \<mapsto> node_of (Some p) e)\<rparr>)"
  using assms by (simp add: set_prev_def hn_load_def hn_store_def)

section \<open>Merging\<close>

text \<open>What the merge pass does to the chunks; nothing comes of it when it merges the last one.\<close>

definition joined :: "chunk \<Rightarrow> chunk \<Rightarrow> chunk" where
  "joined c d = c\<lparr>ck_size := ck_size c + HN + ck_size d\<rparr>"

function merged :: "chunk list \<Rightarrow> chunk list option" where
  "merged [] = Some []"
| "merged [c] = Some [c]"
| "merged (c # d # cs) =
     (if \<not> ck_used c \<and> \<not> ck_used d then (if cs = [] then None else merged (joined c d # cs))
      else map_option ((#) c) (merged (d # cs)))"
  by pat_completeness auto
termination by (relation "measure length") auto

lemma joined_simps [simp]: "ck_used (joined c d) = ck_used c" "ck_tidx (joined c d) = ck_tidx c"
  "ck_size (joined c d) = ck_size c + HN + ck_size d"
  by (simp_all add: joined_def)

lemma merge_two:
  assumes "heap_ok h (xs @ c # d # e # zs)"
  defines "h2 \<equiv> h\<lparr>hh_mem := (hh_mem h)(span xs \<mapsto> node_of (last_at None 0 xs) (joined c d),
      span (xs @ [c, d]) \<mapsto> node_of (Some (span xs)) e)\<rparr>"
  shows "heap_ok h2 (xs @ joined c d # e # zs)"
proof -
  have "heap_ok h2 (xs @ [joined c d] @ e # zs)"
  proof (rule heap_splice [of h xs "[c, d]"])
    show "heap_ok h (xs @ [c, d] @ e # zs)" using assms(1) by simp
  qed (auto simp: h2_def ac_simps)
  then show ?thesis by simp
qed

lemma merge_pass_merged:
  assumes "heap_ok h (xs @ cs)" and "cs \<noteq> []" and "length cs < fuel"
  shows "case merged cs of
      None \<Rightarrow> merge_pass fuel (Some (span xs)) h = Inl OutOfBounds
    | Some ds \<Rightarrow> \<exists>m. merge_pass fuel (Some (span xs)) h = Inr (h\<lparr>hh_mem := m\<rparr>) \<and> heap_ok (h\<lparr>hh_mem := m\<rparr>) (xs @ ds)"
  using assms
proof (induction cs arbitrary: xs h fuel rule: merged.induct)
  case (2 c)
  then obtain f where f: "fuel = Suc (Suc f)" by (cases fuel; cases "fuel - 1") auto
  show ?case using 2 heap_at [of h xs c "[]"] by (auto simp: f intro!: exI [of _ "hh_mem h"])
next
  case (3 c d cs)
  then obtain f where f: "fuel = Suc f" "length (d # cs) < f" by (cases fuel) auto
  have at: "hn_load h (span xs) = Inr (node_of (last_at None 0 xs) c)"
      "heapPrvGetNext h (span xs) = Inr (Some (span (xs @ [c])))"
      "hh_tail h \<noteq> span xs"
    using heap_at [of h xs c "d # cs"] 3 by simp_all
  have at_d: "hn_load h (span (xs @ [c])) = Inr (node_of (Some (span xs)) d)"
    using heap_at [of h "xs @ [c]" d cs] 3 by simp
  have real: "hh_real h = span (xs @ c # d # cs)" "hh_real h < 2 ^ MAX_HEAP_ORDER" using 3(3) by (simp_all add: heap_ok_def)
  let ?h1 = "h\<lparr>hh_mem := (hh_mem h)(span xs \<mapsto> node_of (last_at None 0 xs) (joined c d))\<rparr>"
  show ?case
  proof (cases "\<not> ck_used c \<and> \<not> ck_used d")
    case False
    have "merge_pass fuel (Some (span xs)) h = merge_pass f (Some (span (xs @ [c]))) h"
      using at at_d False by (auto simp: f(1))
    then show ?thesis
      using 3(2) [of h "xs @ [c]" f] 3(3-5) f(2) False by (auto split: option.splits)
  next
    case free: True
    have size: "size_bits (ck_size c + HN + ck_size d) = ck_size (joined c d)"
      using real by (intro size_bits_id [THEN trans]) auto
    have store: "hn_store h (span xs) (node_of (last_at None 0 xs) (joined c d)) = Inr ?h1"
      using real by (simp add: hn_store_def)
    have next1: "heapPrvGetNext ?h1 (span xs) = Inr (Some (span (xs @ [c, d])))"
      using at(3) real by (simp add: heapPrvGetNext_def hn_load_def ac_simps)
    have step: "merge_pass fuel (Some (span xs)) h =
        bindE (set_prev ?h1 (span (xs @ [c, d])) (span xs)) (merge_pass f (Some (span xs)))"
      using at(1,2) at_d free store next1 size by (simp add: f(1))
    show ?thesis
    proof (cases cs)
      case Nil
      then have "set_prev ?h1 (span (xs @ [c, d])) (span xs) = Inl OutOfBounds"
        using real by (simp add: set_prev_def hn_load_def)
      then show ?thesis using step free Nil by simp
    next
      case (Cons e zs)
      define h2 where "h2 = h\<lparr>hh_mem := (hh_mem h)(span xs \<mapsto> node_of (last_at None 0 xs) (joined c d),
          span (xs @ [c, d]) \<mapsto> node_of (Some (span xs)) e)\<rparr>"
      have "hh_mem h (span (xs @ [c, d])) = Some (node_of (Some (span (xs @ [c]))) e)"
        using 3(3) Cons by (simp add: heap_ok_def ac_simps)
      then have "set_prev ?h1 (span (xs @ [c, d])) (span xs) = Inr h2"
        using real Cons set_prev_at [of ?h1 "span (xs @ [c, d])" "Some (span (xs @ [c]))" e "span xs"]
        by (simp add: h2_def)
      with step have run: "merge_pass fuel (Some (span xs)) h = merge_pass f (Some (span xs)) h2"
        by (metis bindE.simps(2))
      have "heap_ok h2 (xs @ joined c d # cs)"
        using merge_two [of h xs c d e zs] 3(3) Cons by (simp add: h2_def)
      then have "case merged (joined c d # cs) of
          None \<Rightarrow> merge_pass f (Some (span xs)) h2 = Inl OutOfBounds
        | Some ds \<Rightarrow> \<exists>m. merge_pass f (Some (span xs)) h2 = Inr (h2\<lparr>hh_mem := m\<rparr>) \<and> heap_ok (h2\<lparr>hh_mem := m\<rparr>) (xs @ ds)"
        using f(2) free Cons by (intro 3(1)) simp_all
      moreover have "h2\<lparr>hh_mem := m\<rparr> = h\<lparr>hh_mem := m\<rparr>" for m by (simp add: h2_def)
      moreover have "merged (c # d # cs) = merged (joined c d # cs)" using free Cons by simp
      ultimately show ?thesis unfolding run by (simp only:)
    qed
  qed
qed simp

lemma heapMergeFreeChunks_ok:
  assumes "heap_ok h cs"
  shows "if hh_need h \<and> merged cs = None then heapMergeFreeChunks h = Inl OutOfBounds
    else \<exists>m. heapMergeFreeChunks h = Inr (h\<lparr>hh_need := False, hh_mem := m\<rparr>) \<and>
      heap_ok (h\<lparr>hh_need := False, hh_mem := m\<rparr>) (if hh_need h then the (merged cs) else cs)"
proof (cases "hh_need h")
  case True
  let ?h = "h\<lparr>hh_need := False\<rparr>"
  have "length cs \<le> span cs"
  proof (induction cs)
    case (Cons c cs)
    then show ?case using HN_pos(1) by (simp add: Suc_le_eq add_strict_increasing)
  qed simp
  then have "length cs < Suc (hh_real h)" and ne: "cs \<noteq> []" and head: "hh_head h = 0"
    using assms by (simp_all add: heap_ok_def)
  then have *: "case merged cs of
      None \<Rightarrow> merge_pass (Suc (hh_real h)) (Some 0) ?h = Inl OutOfBounds
    | Some ds \<Rightarrow> \<exists>m. merge_pass (Suc (hh_real h)) (Some 0) ?h = Inr (?h\<lparr>hh_mem := m\<rparr>) \<and> heap_ok (?h\<lparr>hh_mem := m\<rparr>) ds"
    by (intro merge_pass_merged [where xs = "[]", unfolded span_simps append_Nil]) (use assms in simp_all)
  with * show ?thesis
    using True head by (auto simp: heapMergeFreeChunks_def simp del: merge_pass.simps split: option.splits)
next
  case False
  then have "h = h\<lparr>hh_need := False, hh_mem := hh_mem h\<rparr>" by simp
  then show ?thesis using False assms by (metis heapMergeFreeChunks_def)
qed

section \<open>Searching and splitting\<close>

definition fits :: "nat \<Rightarrow> chunk \<Rightarrow> bool" where
  "fits sz c \<longleftrightarrow> \<not> ck_used c \<and> sz \<le> ck_size c"

text \<open>A smallest chunk that fits.\<close>

definition best_in :: "nat \<Rightarrow> chunk list \<Rightarrow> nat option \<Rightarrow> bool" where
  "best_in sz cs r \<longleftrightarrow>
     (case r of
        None \<Rightarrow> \<forall>c \<in> set cs. \<not> fits sz c
      | Some b \<Rightarrow> \<exists>us c vs. cs = us @ c # vs \<and> b = span us \<and> fits sz c \<and>
          (\<forall>d \<in> set cs. fits sz d \<longrightarrow> ck_size c \<le> ck_size d))"

lemma best_in_skip: "best_in sz xs r \<Longrightarrow> \<not> fits sz c \<Longrightarrow> best_in sz (xs @ [c]) r"
  by (force simp: best_in_def split: option.splits)

lemma best_in_keep:
  assumes "best_in sz xs (Some b)" and "xs = us @ d # vs" and "b = span us" and "ck_size d \<le> ck_size c"
  shows "best_in sz (xs @ [c]) (Some b)"
proof -
  obtain us' d' vs' where d': "xs = us' @ d' # vs'" "b = span us'" "fits sz d'"
      "\<forall>e \<in> set xs. fits sz e \<longrightarrow> ck_size d' \<le> ck_size e"
    using assms(1) by (auto simp: best_in_def)
  have "span us = span us' \<Longrightarrow> us @ d # vs = us' @ d' # vs' \<Longrightarrow> d = d'" for us us' vs vs'
  proof (induction us arbitrary: us')
    case Nil
    then show ?case by (cases us') auto
  next
    case (Cons a us)
    then show ?case by (cases us') auto
  qed
  then have "d = d'" using assms(2,3) d'(1,2) by metis
  then have "xs @ [c] = us' @ d' # (vs' @ [c]) \<and> b = span us' \<and> fits sz d' \<and>
      (\<forall>e \<in> set (xs @ [c]). fits sz e \<longrightarrow> ck_size d' \<le> ck_size e)"
    using d' assms(4) by auto
  then show ?thesis unfolding best_in_def option.case by blast
qed

lemma best_in_take:
  assumes "fits sz c" and "\<forall>d \<in> set xs. fits sz d \<longrightarrow> ck_size c \<le> ck_size d"
  shows "best_in sz (xs @ [c]) (Some (span xs))"
proof -
  have "xs @ [c] = xs @ c # [] \<and> span xs = span xs \<and> fits sz c \<and>
      (\<forall>d \<in> set (xs @ [c]). fits sz d \<longrightarrow> ck_size c \<le> ck_size d)" using assms by simp
  then show ?thesis unfolding best_in_def option.case by blast
qed

lemma find_best_in:
  assumes "heap_ok h (xs @ ys)" and "best_in sz xs best"
  shows "\<exists>r. find_best h sz (if ys = [] then None else Some (span xs)) best = Inr r \<and> best_in sz (xs @ ys) r"
  using assms
proof (induction ys arbitrary: xs best)
  case Nil
  then show ?case by (simp add: find_best.simps)
next
  case (Cons c ys)
  note at = heap_at [OF Cons.prems(1)]
  define take_it where "take_it \<longleftrightarrow> fits sz c \<and> (\<forall>d \<in> set xs. fits sz d \<longrightarrow> ck_size c < ck_size d)"
  have better: "(if \<not> ck_used c \<and> ck_size c \<ge> sz then better h best (ck_size c) else Inr False) = Inr take_it \<and>
      (\<not> take_it \<longrightarrow> best_in sz (xs @ [c]) best)"
  proof (cases "fits sz c")
    case False
    then show ?thesis using best_in_skip [OF Cons.prems(2)] by (auto simp: take_it_def fits_def)
  next
    case f: True
    show ?thesis
    proof (cases best)
      case None
      then show ?thesis using Cons.prems(2) f by (auto simp: take_it_def best_in_def better_def fits_def)
    next
      case (Some b)
      obtain us d vs where d: "xs = us @ d # vs" "b = span us" "fits sz d" "\<forall>e \<in> set xs. fits sz e \<longrightarrow> ck_size d \<le> ck_size e"
        using Cons.prems(2) Some by (auto simp: best_in_def)
      have "hn_load h b = Inr (node_of (last_at None 0 us) d)"
        using heap_at(1) [of h us d "vs @ c # ys"] Cons.prems(1) d(1,2) by simp
      moreover have "ck_size c < ck_size d \<longleftrightarrow> take_it" using d f by (fastforce simp: take_it_def)
      moreover have "best_in sz (xs @ [c]) best" if "\<not> ck_size c < ck_size d"
        using best_in_keep [of sz xs b us d vs c] Cons.prems(2) d(1,2) that Some by simp
      ultimately show ?thesis using f Some by (auto simp: better_def fits_def)
    qed
  qed
  have step: "find_best h sz (Some (span xs)) best =
      (if take_it \<and> ck_size c = sz then Inr (Some (span xs))
       else find_best h sz (if ys = [] then None else Some (span (xs @ [c]))) (if take_it then Some (span xs) else best))"
    unfolding find_best.simps at(1) bindE.simps heap_node.select_convs better [THEN conjunct1] at(3) ..
  show ?case
  proof (cases "take_it \<and> ck_size c = sz")
    case True
    then have "xs @ c # ys = xs @ c # ys \<and> span xs = span xs \<and> fits sz c \<and>
        (\<forall>d \<in> set (xs @ c # ys). fits sz d \<longrightarrow> ck_size c \<le> ck_size d)" by (auto simp: take_it_def fits_def)
    then have "best_in sz (xs @ c # ys) (Some (span xs))" unfolding best_in_def option.case by blast
    then show ?thesis using True step by simp
  next
    case False
    have "best_in sz (xs @ [c]) (if take_it then Some (span xs) else best)"
      using better best_in_take [of sz c xs] by (auto simp: take_it_def less_imp_le)
    then show ?thesis
      using Cons.IH [of "xs @ [c]" "if take_it then Some (span xs) else best"] Cons.prems(1)
        step [unfolded if_not_P [OF False]] by simp
  qed
qed

text \<open>Changing the flags of a chunk.\<close>

lemma heap_flags:
  assumes "heap_ok h (xs @ c # ys)" and "ck_size d = ck_size c"
  shows "hn_store h (span xs) (node_of (last_at None 0 xs) d) =
      Inr (h\<lparr>hh_mem := (hh_mem h)(span xs \<mapsto> node_of (last_at None 0 xs) d)\<rparr>)"
    and "heap_ok (h\<lparr>hh_mem := (hh_mem h)(span xs \<mapsto> node_of (last_at None 0 xs) d)\<rparr>) (xs @ d # ys)"
proof -
  show "hn_store h (span xs) (node_of (last_at None 0 xs) d) =
      Inr (h\<lparr>hh_mem := (hh_mem h)(span xs \<mapsto> node_of (last_at None 0 xs) d)\<rparr>)"
    by (rule heap_at(2) [OF assms(1)])
  let ?h = "h\<lparr>hh_mem := (hh_mem h)(span xs \<mapsto> node_of (last_at None 0 xs) d)\<rparr>"
  have "heap_ok ?h (xs @ [d] @ ys)"
  proof (rule heap_splice [of h xs "[c]"])
    show "heap_ok h (xs @ [c] @ ys)" using assms(1) by simp
  qed (use assms in \<open>auto simp: heap_ok_def add.assoc\<close>)
  then show "heap_ok ?h (xs @ d # ys)" by simp
qed

lemma split_chunk_ok:
  assumes "heap_ok h (xs @ c # ys)" and "sz \<le> ck_size c"
  defines "cs \<equiv> if ck_size c - sz > HN
     then [c\<lparr>ck_size := sz\<rparr>, \<lparr>ck_size = ck_size c - sz - HN, ck_used = False, ck_tidx = 0\<rparr>] else [c]"
  shows "\<exists>m t. split_chunk h (span xs) sz = Inr (h\<lparr>hh_mem := m, hh_tail := t\<rparr>) \<and>
    heap_ok (h\<lparr>hh_mem := m, hh_tail := t\<rparr>) (xs @ cs @ ys)"
proof (cases "ck_size c - sz > HN")
  case False
  then show ?thesis
    using heap_at(1) [OF assms(1)] assms(1)
    by (auto simp: split_chunk_def cs_def intro!: exI [of _ "hh_mem h"] exI [of _ "hh_tail h"])
next
  case True
  let ?p = "last_at None 0 xs" and ?b = "span xs" and ?n = "span xs + HN + sz"
  let ?r = "\<lparr>ck_size = ck_size c - sz - HN, ck_used = False, ck_tidx = 0\<rparr> :: chunk"
  let ?t = "if ys = [] then ?n else hh_tail h"
  let ?m1 = "(hh_mem h)(?n \<mapsto> node_of (Some ?b) ?r)"
  let ?m2 = "case ys of [] \<Rightarrow> ?m1 | e # zs \<Rightarrow> ?m1(span (xs @ [c]) \<mapsto> node_of (Some ?n) e)"
  let ?m = "?m2(?b \<mapsto> node_of ?p (c\<lparr>ck_size := sz\<rparr>))"
  have real: "hh_real h = span (xs @ c # ys)" "hh_real h < 2 ^ MAX_HEAP_ORDER" using assms(1) by (simp_all add: heap_ok_def)
  have sizes: "size_bits sz = sz" "size_bits (ck_size c - sz - HN) = ck_size c - sz - HN"
    using real True assms(2) by (auto intro!: size_bits_id)
  have fit: "?n + HN \<le> hh_real h" "?b + HN \<le> hh_real h" using real True assms(2) by simp_all
  have here: "hh_mem h ?b = Some (node_of ?p c)" using assms(1) by (simp add: heap_ok_def)
  have "split_chunk h ?b sz = Inr (h\<lparr>hh_mem := ?m, hh_tail := ?t\<rparr>)"
  proof (cases ys)
    case Nil
    then show ?thesis
      using heap_at(1,4) [OF assms(1)] True fit sizes
      by (simp add: split_chunk_def Let_def hn_store_def hn_load_def here)
  next
    case (Cons e zs)
    have e: "hh_mem h (span (xs @ [c])) = Some (node_of (Some ?b) e)"
      using assms(1) Cons by (simp add: heap_ok_def ac_simps)
    have "hh_tail h \<noteq> ?n"
    proof -
      have "last_at (Some (span (xs @ [c]))) (span (xs @ [c, e])) zs = Some (hh_tail h)"
        using assms(1) Cons by (simp add: heap_ok_def ac_simps)
      then have "span (xs @ [c]) \<le> hh_tail h"
        using last_at_bound [of "Some (span (xs @ [c]))" "span (xs @ [c, e])" zs "hh_tail h"] by auto
      then show ?thesis using True assms(2) by simp
    qed
    then show ?thesis
      using heap_at(1,4) [OF assms(1)] True fit sizes Cons e real assms(2)
      by (simp add: split_chunk_def Let_def hn_store_def hn_load_def here heapPrvGetNext_def set_prev_def)
  qed
  moreover have "heap_ok (h\<lparr>hh_mem := ?m, hh_tail := ?t\<rparr>) (xs @ [c\<lparr>ck_size := sz\<rparr>, ?r] @ ys)"
  proof (rule heap_splice [of h xs "[c]"])
    show "heap_ok h (xs @ [c] @ ys)" using assms(1) by simp
  qed (use True assms(2) HN_pos(1) in \<open>auto split: list.splits\<close>)
  ultimately show ?thesis unfolding cs_def if_P [OF True] by blast
qed

section \<open>Allocating\<close>

text \<open>What becomes of the chunk that is taken.\<close>

definition taken :: "nat \<Rightarrow> nat \<Rightarrow> chunk \<Rightarrow> chunk list" where
  "taken sz tid c =
     (if ck_size c - sz > HN
      then [\<lparr>ck_size = sz, ck_used = True, ck_tidx = tidx_bits tid\<rparr>,
            \<lparr>ck_size = ck_size c - sz - HN, ck_used = False, ck_tidx = 0\<rparr>]
      else [c\<lparr>ck_used := True, ck_tidx := tidx_bits tid\<rparr>])"

lemma heapAlloc_ok:
  assumes "heap_ok h cs" and "\<not> hh_lock h"
  defines "ds \<equiv> if hh_need h then the (merged cs) else cs"
  shows "if hh_need h \<and> merged cs = None then heapAlloc sz tid h = Inl OutOfBounds
    else \<exists>p h'. heapAlloc sz tid h = Inr (p, h') \<and> \<not> hh_lock h' \<and> \<not> hh_need h' \<and> hh_real h' = hh_real h \<and>
      (case p of
         None \<Rightarrow> (\<forall>c \<in> set ds. \<not> fits (align4 sz) c) \<and> heap_ok h' ds
       | Some a \<Rightarrow> \<exists>us c vs. ds = us @ c # vs \<and> a = span us + HN \<and> fits (align4 sz) c \<and>
           (\<forall>d \<in> set ds. fits (align4 sz) d \<longrightarrow> ck_size c \<le> ck_size d) \<and>
           heap_ok h' (us @ taken (align4 sz) tid c @ vs))"
proof (cases "hh_need h \<and> merged cs = None")
  case True
  then show ?thesis using heapMergeFreeChunks_ok [OF assms(1)] assms(2) by (simp add: heapAlloc_def)
next
  case False
  let ?s = "align4 sz"
  obtain m where m: "heapMergeFreeChunks h = Inr (h\<lparr>hh_need := False, hh_mem := m\<rparr>)"
      "heap_ok (h\<lparr>hh_need := False, hh_mem := m\<rparr>) ds"
    using heapMergeFreeChunks_ok [OF assms(1)] False unfolding ds_def by auto
  let ?h = "h\<lparr>hh_need := False, hh_mem := m\<rparr>"
  have ne: "ds \<noteq> []" and head: "hh_head h = 0" using m(2) by (simp_all add: heap_ok_def)
  obtain r where r: "find_best ?h ?s (Some 0) None = Inr r" "best_in ?s ds r"
    using find_best_in [of ?h "[]" ds ?s None] m(2) ne by (auto simp: best_in_def)
  show ?thesis
  proof (cases r)
    case None
    then have "heapAlloc sz tid h = Inr (None, ?h)" using m(1) r(1) assms(2) head by (simp add: heapAlloc_def)
    then show ?thesis using None r(2) m(2) False assms(2) by (auto simp: best_in_def)
  next
    case (Some b)
    then obtain us c vs where c: "ds = us @ c # vs" "b = span us" "fits ?s c"
        "\<forall>d \<in> set ds. fits ?s d \<longrightarrow> ck_size c \<le> ck_size d"
      using r(2) by (auto simp: best_in_def)
    define mid where "mid = (if ck_size c - ?s > HN
      then [c\<lparr>ck_size := ?s\<rparr>, \<lparr>ck_size = ck_size c - ?s - HN, ck_used = False, ck_tidx = 0\<rparr>] else [c])"
    obtain m2 t where sp: "split_chunk ?h (span us) ?s = Inr (?h\<lparr>hh_mem := m2, hh_tail := t\<rparr>)"
        "heap_ok (?h\<lparr>hh_mem := m2, hh_tail := t\<rparr>) (us @ mid @ vs)"
      using split_chunk_ok [of ?h us c vs ?s] m(2) c(1,3) unfolding mid_def fits_def by blast
    define h2 where "h2 = ?h\<lparr>hh_mem := m2, hh_tail := t\<rparr>"
    obtain d rest where d: "mid = d # rest" "taken ?s tid c = d\<lparr>ck_used := True, ck_tidx := tidx_bits tid\<rparr> # rest"
    proof (cases "ck_size c - ?s > HN")
      case True
      then show ?thesis
        by (intro that [of "c\<lparr>ck_size := ?s\<rparr>" "[\<lparr>ck_size = ck_size c - ?s - HN, ck_used = False, ck_tidx = 0\<rparr>]"])
          (simp_all add: mid_def taken_def)
    qed (auto simp: mid_def taken_def intro: that [of c "[]"])
    let ?d = "d\<lparr>ck_used := True, ck_tidx := tidx_bits tid\<rparr>"
    have ok2: "heap_ok h2 (us @ d # rest @ vs)" using sp(2) d(1) by (simp add: h2_def)
    let ?h3 = "h2\<lparr>hh_mem := (hh_mem h2)(span us \<mapsto> node_of (last_at None 0 us) ?d)\<rparr>"
    have "heapAlloc sz tid h = Inr (Some (span us + HN), ?h3)"
      using m(1) r(1) assms(2) head Some c(2) sp(1) [folded h2_def] heap_at(1) [OF ok2] heap_flags(1) [OF ok2, of ?d]
      by (simp add: heapAlloc_def)
    moreover have "heap_ok ?h3 (us @ taken ?s tid c @ vs)" using heap_flags(2) [OF ok2, of ?d] d(2) by simp
    moreover have "\<not> hh_lock ?h3 \<and> \<not> hh_need ?h3 \<and> hh_real ?h3 = hh_real h" using assms(2) by (simp add: h2_def)
    ultimately show ?thesis using c False by (intro if_not_P [THEN iffD2] exI [of _ "Some (span us + HN)"] exI [of _ ?h3]) auto
  qed
qed

text \<open>The pass fails exactly when the last two chunks are free.\<close>

definition ends_free :: "chunk list \<Rightarrow> bool" where
  "ends_free cs \<longleftrightarrow> 2 \<le> length cs \<and> \<not> ck_used (last cs) \<and> \<not> ck_used (last (butlast cs))"

lemma merged_None: "merged cs = None \<longleftrightarrow> ends_free cs"
proof (induction cs rule: merged.induct)
  case (3 c d cs)
  then show ?case
  proof (cases cs)
    case (Cons e zs)
    then show ?thesis using 3 by (cases zs) (auto simp: ends_free_def)
  qed (auto simp: ends_free_def)
qed (simp_all add: ends_free_def)

section \<open>Freeing\<close>

abbreviation unused :: "chunk \<Rightarrow> bool" where "unused c \<equiv> \<not> ck_used c"

lemma back_loop_ok:
  assumes "heap_ok h (us @ fs @ c # ys)" and "list_all unused fs" and "us = [] \<or> ck_used (last us)" and "length fs < fuel"
  shows "back_loop fuel h (span (us @ fs)) = Inr (span us)"
  using assms
proof (induction fs arbitrary: c ys fuel rule: rev_induct)
  case Nil
  then obtain f where f: "fuel = Suc f" by (cases fuel) auto
  have at: "hn_load h (span us) = Inr (node_of (last_at None 0 us) c)" using heap_at(1) [of h us c ys] Nil by simp
  show ?case
  proof (cases us rule: rev_cases)
    case Nil
    then show ?thesis using at by (simp add: f)
  next
    case (snoc vs d)
    have "hn_load h (span vs) = Inr (node_of (last_at None 0 vs) d)"
      using heap_at(1) [of h vs d "c # ys"] Nil.prems(1) snoc by simp
    then show ?thesis using at Nil.prems(3) snoc by (simp add: f)
  qed
next
  case (snoc d fs)
  then obtain f where f: "fuel = Suc f" "length fs < f" by (cases fuel) auto
  have at: "hn_load h (span (us @ fs @ [d])) = Inr (node_of (Some (span (us @ fs))) c)"
    using heap_at(1) [of h "us @ fs @ [d]" c ys] snoc.prems(1) by simp
  have d: "hn_load h (span (us @ fs)) = Inr (node_of (last_at None 0 (us @ fs)) d)"
    using heap_at(1) [of h "us @ fs" d "c # ys"] snoc.prems(1) by simp
  have "back_loop fuel h (span (us @ fs @ [d])) = back_loop f h (span (us @ fs))"
    using at d snoc.prems(2) by (simp add: f(1))
  then show ?case using snoc.IH [of d "c # ys" f] snoc.prems f(2) by simp
qed

text \<open>The state while chunks are taken in: the header behind them is not yet told.\<close>

definition absorbed :: "hub_heap \<Rightarrow> chunk list \<Rightarrow> chunk \<Rightarrow> chunk list \<Rightarrow> chunk list \<Rightarrow> hub_heap" where
  "absorbed h us c gs rest =
     h\<lparr>hh_mem := (hh_mem h)(span us \<mapsto> node_of (last_at None 0 us) (foldl joined c gs)),
       hh_tail := (if rest = [] then span us else hh_tail h)\<rparr>"

lemma absorbed_none:
  assumes "heap_ok h (us @ c # rest)"
  shows "absorbed h us c [] rest = h"
proof -
  have "hh_mem h (span us) = Some (node_of (last_at None 0 us) c)" using assms by (simp add: heap_ok_def)
  then have "(hh_mem h)(span us \<mapsto> node_of (last_at None 0 us) c) = hh_mem h" by auto
  moreover have "rest = [] \<Longrightarrow> hh_tail h = span us" using heap_at(4) [OF assms] by simp
  ultimately show ?thesis by (auto simp: absorbed_def)
qed

lemma foldl_joined: "HN + ck_size (foldl joined c gs) = span (c # gs)"
  and foldl_joined_used [simp]: "ck_used (foldl joined c gs) = ck_used c"
  and foldl_joined_tidx [simp]: "ck_tidx (foldl joined c gs) = ck_tidx c"
  by (induction gs arbitrary: c) simp_all

lemma forward_loop_ok:
  assumes "heap_ok h (us @ c # gs @ fs @ vs)" and "list_all unused fs" and "vs = [] \<or> ck_used (hd vs)"
    and "length fs < fuel"
  shows "forward_loop fuel (absorbed h us c gs (fs @ vs)) (span us) = Inr (absorbed h us c (gs @ fs) vs)"
  using assms
proof (induction fs arbitrary: gs fuel)
  case Nil
  then obtain f where f: "fuel = Suc f" by (cases fuel) auto
  let ?a = "absorbed h us c gs vs"
  have real: "hh_real h = span (us @ c # gs @ vs)" using Nil.prems(1) by (simp add: heap_ok_def)
  show ?case
  proof (cases vs)
    case Nil
    then show ?thesis by (simp add: f heapPrvGetNext_def absorbed_def)
  next
    case (Cons e zs)
    have at_e: "hn_load h (span (us @ c # gs)) = Inr (node_of (last_at None 0 (us @ c # gs)) e)"
      and tail: "hh_tail h \<noteq> span us"
      using heap_at(1) [of h "us @ c # gs" e zs] heap_at(4) [of h us c "gs @ vs"] Nil.prems(1) Cons by simp_all
    have "heapPrvGetNext ?a (span us) = Inr (Some (span (us @ c # gs)))"
      using tail real Cons foldl_joined [of c gs] by (simp add: heapPrvGetNext_def absorbed_def hn_load_def)
    moreover have "hn_load ?a (span (us @ c # gs)) = Inr (node_of (last_at None 0 (us @ c # gs)) e)"
      using at_e real Cons by (simp add: absorbed_def hn_load_def)
    ultimately show ?thesis using Nil.prems(3) Cons by (simp add: f)
  qed
next
  case (Cons d fs)
  then obtain f where f: "fuel = Suc f" "length fs < f" by (cases fuel) auto
  let ?a = "absorbed h us c gs ((d # fs) @ vs)"
  have real: "hh_real h = span (us @ c # gs @ d # fs @ vs)" "hh_real h < 2 ^ MAX_HEAP_ORDER"
    using Cons.prems(1) by (simp_all add: heap_ok_def)
  have at_d: "hn_load h (span (us @ c # gs)) = Inr (node_of (last_at None 0 (us @ c # gs)) d)"
    and tail: "hh_tail h \<noteq> span us"
    and tail_d: "hh_tail h = span (us @ c # gs) \<longleftrightarrow> fs @ vs = []"
    using heap_at(1,4) [of h "us @ c # gs" d "fs @ vs"] heap_at(4) [of h us c "gs @ d # fs @ vs"] Cons.prems(1) by simp_all
  have next1: "heapPrvGetNext ?a (span us) = Inr (Some (span (us @ c # gs)))"
    using tail real foldl_joined [of c gs] by (simp add: heapPrvGetNext_def absorbed_def hn_load_def)
  have d: "hn_load ?a (span (us @ c # gs)) = Inr (node_of (last_at None 0 (us @ c # gs)) d)"
    using at_d real by (simp add: absorbed_def hn_load_def)
  have n: "hn_load ?a (span us) = Inr (node_of (last_at None 0 us) (foldl joined c gs))"
    using real by (simp add: absorbed_def hn_load_def)
  have size: "size_bits (ck_size (foldl joined c gs) + HN + ck_size d) = ck_size (foldl joined c gs) + HN + ck_size d"
    using real foldl_joined [of c gs] by (intro size_bits_id) simp
  let ?h1 = "?a\<lparr>hh_mem := (hh_mem ?a)(span us \<mapsto> node_of (last_at None 0 us) (foldl joined c (gs @ [d])))\<rparr>"
  have store: "hn_store ?a (span us) (node_of (last_at None 0 us) (foldl joined c (gs @ [d]))) = Inr ?h1"
    using real by (simp add: hn_store_def absorbed_def)
  have "(if hh_tail ?h1 = span (us @ c # gs) then ?h1\<lparr>hh_tail := span us\<rparr> else ?h1) =
      absorbed h us c (gs @ [d]) (fs @ vs)"
    using tail_d by (auto simp: absorbed_def)
  moreover have "forward_loop fuel ?a (span us) =
      forward_loop f (if hh_tail ?h1 = span (us @ c # gs) then ?h1\<lparr>hh_tail := span us\<rparr> else ?h1) (span us)"
    using next1 d n Cons.prems(2) size store by (simp add: f(1) joined_def [of "foldl joined c gs"])
  ultimately have "forward_loop fuel ?a (span us) = forward_loop f (absorbed h us c (gs @ [d]) (fs @ vs)) (span us)"
    by simp
  then show ?case using Cons.IH [of "gs @ [d]" f] Cons.prems f(2) by simp
qed

declare back_loop.simps [simp del] forward_loop.simps [simp del] merge_pass.simps [simp del]

abbreviation freed :: "chunk \<Rightarrow> chunk" where "freed c \<equiv> c\<lparr>ck_used := False, ck_tidx := 0\<rparr>"

text \<open>Telling the header behind the chunks taken in.\<close>

lemma absorbed_ok:
  assumes "heap_ok h (us @ c # gs @ vs)"
  shows "\<exists>h'. bindE (heapPrvGetNext (absorbed h us c gs vs) (span us))
      (\<lambda>t. case t of None \<Rightarrow> Inr (absorbed h us c gs vs) | Some t \<Rightarrow> set_prev (absorbed h us c gs vs) t (span us)) = Inr h' \<and>
    heap_ok h' (us @ foldl joined c gs # vs) \<and> hh_lock h' = hh_lock h \<and> hh_need h' = hh_need h \<and> hh_real h' = hh_real h"
proof -
  let ?a = "absorbed h us c gs vs"
  have real: "hh_real h = span (us @ c # gs @ vs)" using assms by (simp add: heap_ok_def)
  have sp: "span [foldl joined c gs] = span (c # gs)" using foldl_joined [of c gs] by simp
  have whole: "heap_ok h (us @ (c # gs) @ vs)" using assms by simp
  show ?thesis
  proof (cases vs)
    case Nil
    have "heap_ok ?a (us @ [foldl joined c gs] @ vs)"
      by (rule heap_splice [OF whole]) (use sp Nil in \<open>auto simp: absorbed_def\<close>)
    then show ?thesis using Nil by (simp add: heapPrvGetNext_def absorbed_def)
  next
    case (Cons e zs)
    let ?b = "span (us @ c # gs)"
    let ?h' = "?a\<lparr>hh_mem := (hh_mem ?a)(?b \<mapsto> node_of (Some (span us)) e)\<rparr>"
    have e: "hh_mem ?a ?b = Some (node_of (last_at None 0 (us @ c # gs)) e)"
      using assms Cons by (simp add: absorbed_def heap_ok_def ac_simps)
    have tail: "hh_tail h \<noteq> span us" using heap_at(4) [of h us c "gs @ vs"] assms Cons by simp
    have "heapPrvGetNext ?a (span us) = Inr (Some ?b)"
      using tail real Cons foldl_joined [of c gs] by (simp add: heapPrvGetNext_def absorbed_def hn_load_def)
    moreover have "set_prev ?a ?b (span us) = Inr ?h'"
      using set_prev_at [OF e] real Cons by (simp add: absorbed_def)
    moreover have "heap_ok ?h' (us @ [foldl joined c gs] @ vs)"
      by (rule heap_splice [OF whole]) (use sp Cons in \<open>auto simp: absorbed_def ac_simps\<close>)
    ultimately show ?thesis by (simp add: absorbed_def)
  qed
qed

lemma heapFree_ok:
  assumes "heap_ok h (us @ fs @ c # gs @ vs)" and "list_all unused fs" and "list_all unused gs"
    and "us = [] \<or> ck_used (last us)" and "vs = [] \<or> ck_used (hd vs)"
  defines "run \<equiv> fs @ freed c # gs"
  shows "\<exists>h'. heapFree (Some (span (us @ fs) + HN)) h = Inr h' \<and> hh_lock h' = hh_lock h \<and> hh_real h' = hh_real h \<and>
    hh_need h' = (hh_lock h \<or> hh_need h) \<and>
    heap_ok h' (if hh_lock h then us @ run @ vs else us @ foldl joined (hd run) (tl run) # vs)"
proof -
  define a p where "a = span (us @ fs)" and "p = last_at None 0 (us @ fs)"
  define h1 where "h1 = h\<lparr>hh_mem := (hh_mem h)(a \<mapsto> node_of p (freed c))\<rparr>"
  have load: "hn_load h a = Inr (node_of (p) c)"
    using heap_at(1) [of h "us @ fs" c "gs @ vs"] assms(1) by (simp add: a_def p_def)
  have store: "hn_store h a (node_of (p) (freed c)) = Inr h1"
    and ok1: "heap_ok h1 ((us @ fs) @ freed c # gs @ vs)"
    using heap_flags [of h "us @ fs" c "gs @ vs" "freed c"] assms(1) by (simp_all add: a_def p_def h1_def)
  have same: "hh_lock h1 = hh_lock h" "hh_need h1 = hh_need h" "hh_real h1 = hh_real h" by (simp_all add: h1_def)
  show ?thesis
  proof (cases "hh_lock h")
    case True
    then have "heapFree (Some (a + HN)) h = Inr (h1\<lparr>hh_need := True\<rparr>)"
      using load store same by (simp add: heapFree_def)
    then show ?thesis using ok1 same True unfolding a_def [symmetric] by (simp add: run_def)
  next
    case False
    obtain d rest where d: "run = d # rest" by (cases run) (simp_all add: run_def)
    have "(us @ fs) @ freed c # gs @ vs = us @ run @ vs" by (simp add: run_def)
    also have "\<dots> = us @ d # rest @ vs" by (simp add: d)
    finally have ok_run: "heap_ok h1 (us @ d # rest @ vs)" using ok1 by (simp only:)
    have len: "length cs \<le> span cs" for cs
    proof (induction cs)
      case (Cons c cs)
      then show ?case using HN_pos(1) by (simp add: Suc_le_eq add_strict_increasing)
    qed simp
    then have "length run \<le> hh_real h1"
      using ok1 len [of "us @ run @ vs"] by (simp add: heap_ok_def run_def)
    then have fuel: "length fs < Suc (hh_real h1)" "length rest < Suc (hh_real h1)"
      using arg_cong [OF d, of length] by (simp_all add: run_def)
    have first: "back_loop (Suc (hh_real h1)) h1 a = Inr (span us)"
      using back_loop_ok [of h1 us fs "freed c" "gs @ vs"] ok1 assms(2,4) fuel(1) by (simp add: a_def)
    have "list_all unused rest"
      using assms(2,3) d by (cases fs) (auto simp: run_def)
    then have "forward_loop (Suc (hh_real h1)) (absorbed h1 us d [] (rest @ vs)) (span us) =
        Inr (absorbed h1 us d rest vs)"
      using forward_loop_ok [of h1 us d "[]" rest vs] ok_run assms(5) fuel(2) by simp
    then have forward: "forward_loop (Suc (hh_real h1)) h1 (span us) = Inr (absorbed h1 us d rest vs)"
      using absorbed_none [OF ok_run] by simp
    obtain h' where h': "bindE (heapPrvGetNext (absorbed h1 us d rest vs) (span us))
        (\<lambda>t. case t of None \<Rightarrow> Inr (absorbed h1 us d rest vs) | Some t \<Rightarrow> set_prev (absorbed h1 us d rest vs) t (span us)) = Inr h'"
      "heap_ok h' (us @ foldl joined d rest # vs)" "hh_lock h' = hh_lock h" "hh_need h' = hh_need h" "hh_real h' = hh_real h"
      using absorbed_ok [OF ok_run] same by auto
    have "heapFree (Some (a + HN)) h = Inr h'"
      using load store first forward h'(1) False same
      by (simp add: heapFree_def)
    then show ?thesis using h'(2-5) False d unfolding a_def [symmetric] by simp
  qed
qed

section \<open>Freeing what a task holds\<close>

definition free_tid :: "nat \<Rightarrow> chunk \<Rightarrow> chunk" where
  "free_tid t c = (if ck_tidx c = t then freed c else c)"

lemma free_tid_size [simp]: "ck_size (free_tid t c) = ck_size c" "span (map (free_tid t) cs) = span cs"
  by (induction cs) (simp_all add: free_tid_def)

lemma free_all_loop_ok:
  assumes "heap_ok h (xs @ c # ys)"
  shows "\<exists>m. free_all_loop t h (span xs) n =
      Inr (n + int (length (filter (\<lambda>d. ck_tidx d = t) (c # ys))), h\<lparr>hh_mem := m\<rparr>) \<and>
    heap_ok (h\<lparr>hh_mem := m\<rparr>) (xs @ map (free_tid t) (c # ys))"
  using assms
proof (induction ys arbitrary: h xs c n)
  case Nil
  note at = heap_at [OF Nil]
  show ?case
  proof (cases "ck_tidx c = t")
    case True
    let ?h = "h\<lparr>hh_mem := (hh_mem h)(span xs \<mapsto> node_of (last_at None 0 xs) (freed c))\<rparr>"
    have f: "hn_store h (span xs) (node_of (last_at None 0 xs) (freed c)) = Inr ?h" "heap_ok ?h (xs @ [freed c])"
      using heap_flags [OF Nil, of "freed c"] by simp_all
    then show ?thesis
      using at(1) heap_at(3) [OF f(2)] True by (subst free_all_loop.simps) (auto simp: free_tid_def)
  next
    case False
    then show ?thesis using at(1,3) Nil
      by (subst free_all_loop.simps) (auto simp: free_tid_def intro!: exI [of _ "hh_mem h"])
  qed
next
  case (Cons d ys)
  note at = heap_at [OF Cons.prems]
  show ?case
  proof (cases "ck_tidx c = t")
    case True
    let ?h = "h\<lparr>hh_mem := (hh_mem h)(span xs \<mapsto> node_of (last_at None 0 xs) (freed c))\<rparr>"
    have f: "hn_store h (span xs) (node_of (last_at None 0 xs) (freed c)) = Inr ?h" "heap_ok ?h (xs @ freed c # d # ys)"
      using heap_flags [OF Cons.prems, of "freed c"] by simp_all
    have step: "free_all_loop t h (span xs) n = free_all_loop t ?h (span (xs @ [freed c])) (n + 1)"
      using at(1) f(1) heap_at(3) [OF f(2)] True by (subst free_all_loop.simps) simp
    show ?thesis
      using Cons.IH [of ?h "xs @ [freed c]" d "n + 1"] f(2) True unfolding step by (auto simp: free_tid_def)
  next
    case False
    have step: "free_all_loop t h (span xs) n = free_all_loop t h (span (xs @ [c])) n"
      using at(1,3) False by (subst free_all_loop.simps) simp
    show ?thesis
      using Cons.IH [of h "xs @ [c]" d n] Cons.prems False unfolding step by (auto simp: free_tid_def)
  qed
qed

section \<open>The blocks handed out\<close>

text \<open>The chunks of a heap, by walking through it.\<close>

fun walk :: "nat \<Rightarrow> hub_heap \<Rightarrow> nat \<Rightarrow> chunk list" where
  "walk 0 h a = []"
| "walk (Suc f) h a =
     (case hh_mem h a of
        None \<Rightarrow> []
      | Some n \<Rightarrow> \<lparr>ck_size = hn_size n, ck_used = hn_used n, ck_tidx = hn_tidx n\<rparr> #
          (if hh_tail h = a then [] else walk f h (a + HN + hn_size n)))"

definition chunks_of :: "hub_heap \<Rightarrow> chunk list" where
  "chunks_of h = walk (hh_real h) h 0"

lemma walk_ok: "heap_ok h (xs @ ys) \<Longrightarrow> ys \<noteq> [] \<Longrightarrow> length ys \<le> f \<Longrightarrow> walk f h (span xs) = ys"
proof (induction ys arbitrary: xs f)
  case (Cons c ys)
  then obtain g where f: "f = Suc g" by (cases f) auto
  have "hh_mem h (span xs) = Some (node_of (last_at None 0 xs) c)" using Cons.prems(1) by (simp add: heap_ok_def)
  moreover have "hh_tail h = span xs \<longleftrightarrow> ys = []" by (rule heap_at(4) [OF Cons.prems(1)])
  ultimately show ?case using Cons.IH [of "xs @ [c]" g] Cons.prems by (auto simp: f add.assoc)
qed simp

lemma length_le_span: "length cs \<le> span cs"
proof (induction cs)
  case (Cons c cs)
  then show ?case using HN_pos(1) by (simp add: Suc_le_eq add_strict_increasing)
qed simp

lemma chunks_of_ok: "heap_ok h cs \<Longrightarrow> chunks_of h = cs"
  using walk_ok [of h "[]" cs "hh_real h"] length_le_span [of cs] by (simp add: chunks_of_def heap_ok_def)

fun live_at :: "nat \<Rightarrow> chunk list \<Rightarrow> block set" where
  "live_at a [] = {}"
| "live_at a (c # cs) = (if ck_used c then {(a + HN, ck_size c)} else {}) \<union> live_at (a + HN + ck_size c) cs"

lemma live_at_append [simp]: "live_at a (xs @ ys) = live_at a xs \<union> live_at (a + span xs) ys"
  by (induction xs arbitrary: a) (auto simp: ac_simps)

lemma live_at_bounds: "(p, n) \<in> live_at a cs \<Longrightarrow> a + HN \<le> p \<and> p + n \<le> a + span cs"
  by (induction cs arbitrary: a) (fastforce split: if_splits)+

lemma live_at_unused: "list_all unused cs \<Longrightarrow> live_at a cs = {}"
  by (induction cs arbitrary: a) auto

lemma live_at_merged: "merged cs = Some ds \<Longrightarrow> live_at a ds = live_at a cs"
proof (induction cs arbitrary: a ds rule: merged.induct)
  case (3 c d cs)
  then show ?case
    by (cases "\<not> ck_used c \<and> \<not> ck_used d") (auto simp: ac_simps split: if_splits)
qed auto

lemma live_at_free_tid: "live_at a (map (free_tid t) cs) \<subseteq> live_at a cs"
  by (induction cs arbitrary: a) (auto simp: free_tid_def)

lemma live_at_split:
  "(p, n) \<in> live_at a cs \<Longrightarrow> \<exists>xs c ys. cs = xs @ c # ys \<and> ck_used c \<and> p = a + span xs + HN \<and> n = ck_size c"
proof (induction cs arbitrary: a)
  case (Cons d cs)
  show ?case
  proof (cases "(p, n) \<in> live_at (a + HN + ck_size d) cs")
    case True
    then obtain xs c ys where "cs = xs @ c # ys" "ck_used c" "p = a + HN + ck_size d + span xs + HN" "n = ck_size c"
      using Cons.IH by blast
    then show ?thesis by (intro exI [of _ "d # xs"] exI [of _ c] exI [of _ ys]) simp
  next
    case False
    with Cons.prems show ?thesis by (intro exI [of _ "[]"] exI [of _ d] exI [of _ cs]) (auto split: if_splits)
  qed
qed simp

definition heap_live :: "hub_heap \<Rightarrow> block set" where
  "heap_live h = live_at 0 (chunks_of h)"

definition heap_inv :: "hub_heap \<Rightarrow> bool" where
  "heap_inv h \<longleftrightarrow> heap_ok h (chunks_of h)"

lemma heap_inv_ok: "heap_ok h cs \<Longrightarrow> heap_inv h \<and> heap_live h = live_at 0 cs"
  by (simp add: heap_inv_def heap_live_def chunks_of_ok)

lemma heap_inv_flags [simp]: "heap_inv (h\<lparr>hh_need := b\<rparr>) = heap_inv h" "heap_live (h\<lparr>hh_need := b\<rparr>) = heap_live h"
  "heap_inv (h\<lparr>hh_lock := b\<rparr>) = heap_inv h" "heap_live (h\<lparr>hh_lock := b\<rparr>) = heap_live h"
proof -
  have w: "walk f (h\<lparr>hh_need := b\<rparr>) a = walk f h a" "walk f (h\<lparr>hh_lock := b\<rparr>) a = walk f h a" for f a
    by (induction f arbitrary: a) (auto split: option.splits)
  show "heap_inv (h\<lparr>hh_need := b\<rparr>) = heap_inv h" "heap_live (h\<lparr>hh_need := b\<rparr>) = heap_live h"
    "heap_inv (h\<lparr>hh_lock := b\<rparr>) = heap_inv h" "heap_live (h\<lparr>hh_lock := b\<rparr>) = heap_live h"
    by (simp_all add: heap_inv_def heap_live_def chunks_of_def w heap_ok_def)
qed

lemma live_taken: "\<exists>n \<ge> sz. live_at a (taken sz tid c) = {(a + HN, n)} \<and> n \<le> ck_size c"
  if "sz \<le> ck_size c"
  using that by (auto simp: taken_def)

lemma span_taken: "sz \<le> ck_size c \<Longrightarrow> span (taken sz tid c) = HN + ck_size c"
  by (auto simp: taken_def)

text \<open>A position splits into the free chunks around it and the rest.\<close>

lemma free_around:
  "\<exists>us fs gs vs. xs = us @ fs \<and> ys = gs @ vs \<and> list_all unused fs \<and> list_all unused gs \<and>
     (us = [] \<or> ck_used (last us)) \<and> (vs = [] \<or> ck_used (hd vs))"
proof -
  let ?fs = "rev (takeWhile unused (rev xs))" and ?us = "rev (dropWhile unused (rev xs))"
  let ?gs = "takeWhile unused ys" and ?vs = "dropWhile unused ys"
  have "xs = ?us @ ?fs" by (metis rev_append rev_rev_ident takeWhile_dropWhile_id)
  moreover have "list_all unused ?fs" "list_all unused ?gs" by (auto simp: list_all_iff dest: set_takeWhileD)
  moreover have "?us = [] \<or> ck_used (last ?us)"
    using hd_dropWhile [of unused "rev xs"] by (auto simp: last_rev)
  moreover have "?vs = [] \<or> ck_used (hd ?vs)" using hd_dropWhile [of unused ys] by auto
  ultimately show ?thesis by (metis takeWhile_dropWhile_id)
qed

text \<open>What else happens to a heap: a task ends, or somebody takes or releases the lock.\<close>

datatype heap_other = Free_All nat | Set_Lock bool

fun heap_step :: "heap_other \<Rightarrow> hub_heap \<Rightarrow> hub_heap res" where
  "heap_step (Free_All tid) h = bindE (heapFreeAll tid h) (\<lambda>(n, h'). Inr h')"
| "heap_step (Set_Lock b) h = Inr (h\<lparr>hh_lock := b\<rparr>)"

lemma heap_alloc_live:
  assumes "heap_inv h" and "heapAlloc sz tid h = Inr (r, h')"
  shows "heap_inv h' \<and> hh_real h' = hh_real h \<and>
    (case r of
       None \<Rightarrow> heap_live h' = heap_live h
     | Some p \<Rightarrow> \<exists>n \<ge> align4 sz. heap_live h' = insert (p, n) (heap_live h) \<and>
         (\<forall>b \<in> heap_live h. apart (p, n) b \<and> fst b \<noteq> p) \<and> p + n \<le> hh_real h)"
proof (cases "hh_lock h")
  case True
  then show ?thesis using assms by (simp add: heapAlloc_def)
next
  case False
  let ?cs = "chunks_of h"
  define ds where "ds = (if hh_need h then the (merged ?cs) else ?cs)"
  have ok: "heap_ok h ?cs" using assms(1) by (simp add: heap_inv_def)
  note alloc = heapAlloc_ok [OF ok False, of sz tid, folded ds_def]
  have nf: "\<not> (hh_need h \<and> merged ?cs = None)"
  proof
    assume "hh_need h \<and> merged ?cs = None"
    then show False using alloc assms(2) by simp
  qed
  then have live: "live_at 0 ds = heap_live h" using live_at_merged by (auto simp: ds_def heap_live_def)
  from alloc nf assms(2) have a: "hh_real h' = hh_real h"
    "case r of
       None \<Rightarrow> (\<forall>c \<in> set ds. \<not> fits (align4 sz) c) \<and> heap_ok h' ds
     | Some a \<Rightarrow> \<exists>us c vs. ds = us @ c # vs \<and> a = span us + HN \<and> fits (align4 sz) c \<and>
         (\<forall>d \<in> set ds. fits (align4 sz) d \<longrightarrow> ck_size c \<le> ck_size d) \<and>
         heap_ok h' (us @ taken (align4 sz) tid c @ vs)" by auto
  show ?thesis
  proof (cases r)
    case None
    then have "heap_ok h' ds" using a(2) by simp
    then have "heap_inv h' \<and> heap_live h' = live_at 0 ds" by (rule heap_inv_ok)
    then show ?thesis using None a(1) live by simp
  next
    case (Some p)
    then obtain us c vs where c: "ds = us @ c # vs" "p = span us + HN" "fits (align4 sz) c"
        "heap_ok h' (us @ taken (align4 sz) tid c @ vs)"
      using a(2) by auto
    have sz: "align4 sz \<le> ck_size c" and un: "\<not> ck_used c" using c(3) by (simp_all add: fits_def)
    obtain n where n: "align4 sz \<le> n" "live_at (span us) (taken (align4 sz) tid c) = {(p, n)}" "n \<le> ck_size c"
      using live_taken [OF sz, of "span us" tid] c(2) by auto
    have old: "heap_live h = live_at 0 us \<union> live_at (span us + HN + ck_size c) vs"
      using live c(1) un by simp
    have new: "heap_inv h'" "heap_live h' = insert (p, n) (heap_live h)"
      using heap_inv_ok [OF c(4)] n(2) span_taken [OF sz, of tid] old by (simp_all add: ac_simps)
    have "apart (p, n) b \<and> fst b \<noteq> p" if b: "b \<in> heap_live h" for b
    proof -
      obtain q k where q: "b = (q, k)" by (cases b)
      then have "HN \<le> q \<and> q + k \<le> span us \<or> span us + HN + ck_size c + HN \<le> q"
        using b old live_at_bounds by fastforce
      then show ?thesis using q c(2) n(3) HN_pos(1) by (auto simp: apart_def)
    qed
    moreover have "p + n \<le> hh_real h"
      using c(2,4) n(3) a(1) span_taken [OF sz, of tid] by (simp add: heap_ok_def)
    ultimately show ?thesis using new a(1) n(1) Some by auto
  qed
qed

lemma heap_free_full:
  assumes "heap_inv h" and "(p, n) \<in> heap_live h"
  shows "\<exists>h'. heapFree (Some p) h = Inr h' \<and> heap_inv h' \<and> heap_live h' = heap_live h - {(p, n)} \<and> hh_real h' = hh_real h \<and>
    hh_lock h' = hh_lock h \<and> hh_need h' = (hh_lock h \<or> hh_need h)"
proof -
  let ?cs = "chunks_of h"
  have ok: "heap_ok h ?cs" using assms(1) by (simp add: heap_inv_def)
  obtain xs c ys where c: "?cs = xs @ c # ys" "ck_used c" "p = span xs + HN" "n = ck_size c"
    using live_at_split [of p n 0 ?cs] assms(2) by (auto simp: heap_live_def)
  obtain us fs gs vs where s: "xs = us @ fs" "ys = gs @ vs" "list_all unused fs" "list_all unused gs"
      "us = [] \<or> ck_used (last us)" "vs = [] \<or> ck_used (hd vs)"
    using free_around [of xs ys] by blast
  let ?run = "fs @ freed c # gs"
  have "heap_ok h (us @ fs @ c # gs @ vs)" using ok c(1) s(1,2) by simp
  then obtain h' where h': "heapFree (Some p) h = Inr h'" "hh_real h' = hh_real h \<and> hh_lock h' = hh_lock h \<and> hh_need h' = (hh_lock h \<or> hh_need h)"
      "heap_ok h' (if hh_lock h then us @ ?run @ vs else us @ foldl joined (hd ?run) (tl ?run) # vs)"
    using heapFree_ok [of h us fs c gs vs] s(3-6) c(3) s(1) by auto
  have "list_all unused ?run" using s(3,4) by simp
  then have run: "live_at a ?run = {}" "\<not> ck_used (hd ?run)" for a
    by (rule live_at_unused) (use s(3) in \<open>cases fs; simp\<close>)
  have sp: "HN + ck_size (foldl joined (hd ?run) (tl ?run)) = span ?run"
    using foldl_joined [of "hd ?run" "tl ?run"] by (metis append_is_Nil_conv list.collapse list.distinct(1))
  have old: "heap_live h = live_at 0 us \<union> {(p, n)} \<union> live_at (span us + span ?run) vs"
    using c s(1,2) live_at_unused [OF s(3)] live_at_unused [OF s(4)] by (simp add: heap_live_def ac_simps)
  have "heap_live h' = live_at 0 us \<union> live_at (span us + span ?run) vs"
  proof (cases "hh_lock h")
    case True
    then have "heap_live h' = live_at 0 (us @ ?run @ vs)" using heap_inv_ok [OF h'(3)] by simp
    also have "\<dots> = live_at 0 us \<union> live_at (span us + span ?run) vs"
      by (simp only: live_at_append [of 0 us] live_at_append [of "span us" ?run vs] run(1) add_0 Un_empty_left)
    finally show ?thesis .
  next
    case False
    then have "heap_live h' = live_at 0 (us @ foldl joined (hd ?run) (tl ?run) # vs)"
      using heap_inv_ok [OF h'(3)] by simp
    then show ?thesis using run(2) sp by (simp add: add.assoc del: span_simps)
  qed
  moreover have "(p, n) \<notin> live_at 0 us \<union> live_at (span us + span ?run) vs"
  proof
    assume "(p, n) \<in> live_at 0 us \<union> live_at (span us + span ?run) vs"
    then have "p + n \<le> span us \<or> span us + span ?run + HN \<le> p" using live_at_bounds by fastforce
    then show False using c(3) s(1) HN_pos(1) by simp
  qed
  ultimately show ?thesis using old h'(1,2) heap_inv_ok [OF h'(3)] by auto
qed

lemma heap_free_live:
  "heap_inv h \<Longrightarrow> (p, n) \<in> heap_live h \<Longrightarrow>
     \<exists>h'. heapFree (Some p) h = Inr h' \<and> heap_inv h' \<and> heap_live h' = heap_live h - {(p, n)} \<and> hh_real h' = hh_real h"
  using heap_free_full by blast

lemma heap_free_all_live:
  assumes "heap_inv h" and "heapFreeAll tid h = Inr (n, h')"
  shows "heap_inv h' \<and> heap_live h' \<subseteq> heap_live h \<and> hh_real h' = hh_real h"
proof (cases "tid = 0 \<or> hh_lock h")
  case True
  then show ?thesis using assms by (auto simp: heapFreeAll_def split: if_splits)
next
  case False
  let ?cs = "chunks_of h"
  have ok: "heap_ok h ?cs" using assms(1) by (simp add: heap_inv_def)
  then obtain c ys where c: "?cs = c # ys" by (cases ?cs) (auto simp: heap_ok_def)
  have head: "hh_head h = 0" using ok by (simp add: heap_ok_def)
  obtain m where m: "free_all_loop (tid AND TIDX_MASK) h 0 0 =
        Inr (int (length (filter (\<lambda>d. ck_tidx d = tid AND TIDX_MASK) ?cs)), h\<lparr>hh_mem := m\<rparr>)"
      "heap_ok (h\<lparr>hh_mem := m\<rparr>) (map (free_tid (tid AND TIDX_MASK)) ?cs)"
    using free_all_loop_ok [of h "[]" c ys "tid AND TIDX_MASK" 0] ok by (auto simp: c)
  then have "h' = h\<lparr>hh_mem := m, hh_need := True\<rparr>" using assms(2) False head by (simp add: heapFreeAll_def)
  moreover have "live_at 0 (map (free_tid (tid AND TIDX_MASK)) ?cs) \<subseteq> heap_live h"
    unfolding heap_live_def by (rule live_at_free_tid)
  ultimately show ?thesis using heap_inv_ok [OF m(2)] by simp
qed

interpretation hub: allocator heap_inv heap_live "\<lambda>h. (0, hh_real h)" "\<lambda>(sz, tid). align4 sz"
  "\<lambda>(sz, tid). heapAlloc sz tid" "\<lambda>p. heapFree (Some p)" heap_step
proof (unfold_locales, goal_cases)
  case (1 s r s')
  then show ?case using heap_alloc_live [of s "fst r" "snd r" None s'] by (cases r) simp
next
  case (2 s r p s')
  then show ?case using heap_alloc_live [of s "fst r" "snd r" "Some p" s'] by (cases r) auto
next
  case (3 s p n)
  then show ?case using heap_free_live by simp
next
  case (4 s x s')
  then show ?case
    by (cases x) (auto simp: res heap_free_all_live dest: heap_free_all_live)
qed

section \<open>Properties\<close>

text \<open>A run of the heap: requests of size and task, blocks given back by who holds them, ends of tasks.\<close>

fun heap_run :: "(u32 \<times> nat, heap_other) alloc_op list \<Rightarrow> hub_heap \<Rightarrow> hub_heap res" where
  "heap_run [] h = Inr h"
| "heap_run (Alloc (sz, tid) # ops) h = bindE (heapAlloc sz tid h) (\<lambda>(p, h'). heap_run ops h')"
| "heap_run (Free p # ops) h =
     (if p \<in> fst ` heap_live h then bindE (heapFree (Some p) h) (heap_run ops) else heap_run ops h)"
| "heap_run (Other x # ops) h = bindE (heap_step x h) (heap_run ops)"

lemma heap_run_hub: "heap_run ops h = hub.run ops h"
  by (induction ops h rule: heap_run.induct) (auto intro!: bindE_cong)

lemma heapInit_ok:
  assumes "heapInit real t = Inr (True, h)" and "real < 2 ^ MAX_HEAP_ORDER"
  shows "heap_ok h [\<lparr>ck_size = real - HN, ck_used = False, ck_tidx = tidx_bits t\<rparr>] \<and> hh_real h = real \<and>
    \<not> hh_lock h \<and> \<not> hh_need h"
  using assms by (auto simp: heapInit_def Let_def hn_store_def heap_ok_def size_bits_def split: if_splits)

text \<open>C21. The blocks of the heap.  After any run from \<open>heapInit\<close> on, with requests of any size, blocks given
  back in any order with or without the lock, and ends of tasks, the headers are as they should be and
  the blocks handed out lie inside the heap and do not overlap.\<close>

theorem heap_blocks_apart:
  assumes "heapInit real t = Inr (True, h0)" and "real < 2 ^ MAX_HEAP_ORDER" and "heap_run ops h0 = Inr h"
  shows "heap_ok h (chunks_of h) \<and>
    (\<forall>x \<in> heap_live h. fst x + snd x \<le> real \<and> (\<forall>y \<in> heap_live h. x \<noteq> y \<longrightarrow> apart x y))"
proof -
  have h0: "heap_inv h0" "heap_live h0 = {}" "hh_real h0 = real"
    using heapInit_ok [OF assms(1,2)] heap_inv_ok by fastforce+
  then have "hub.separate h0" by (simp add: hub.separate_def)
  then have "heap_inv h \<and> hub.separate h"
    using hub.run_separate [OF h0(1)] assms(3) by (simp add: heap_run_hub)
  moreover have "hh_real h = real" if "heap_run ops h0 = Inr h" "heap_inv h0" "hh_real h0 = real" for ops h0
    using that
  proof (induction ops h0 rule: heap_run.induct)
    case (2 sz tid ops s)
    then obtain p s1 where s1: "heapAlloc sz tid s = Inr (p, s1)" "heap_run ops s1 = Inr h" by (auto simp: res)
    then show ?case using 2 heap_alloc_live [of s sz tid p s1] by (simp add: res)
  next
    case (3 p ops s)
    show ?case
    proof (cases "p \<in> fst ` heap_live s")
      case True
      then obtain n where "(p, n) \<in> heap_live s" by auto
      then obtain s1 where s1: "heapFree (Some p) s = Inr s1" "heap_inv s1" "hh_real s1 = hh_real s"
        using heap_free_live 3 by blast
      then show ?thesis using 3 True by simp
    qed (use 3 in simp)
  next
    case (4 x ops s)
    then obtain s1 where s1: "heap_step x s = Inr s1" "heap_run ops s1 = Inr h" by (auto simp: res)
    then have "heap_inv s1 \<and> hh_real s1 = hh_real s" using 4(3) hub.other_live [of s x s1] by simp
    then show ?case using 4 s1 by simp
  qed simp
  then have "hh_real h = real" using assms(3) h0(1,3) by blast
  ultimately show ?thesis by (auto simp: hub.separate_def heap_inv_def)
qed

text \<open>Evaluating the loops at numerals.\<close>

lemmas loops_numeral =
  back_loop.simps(2) [of "pred_numeral k" for k, folded numeral_eq_Suc]
  forward_loop.simps(2) [of "pred_numeral k" for k, folded numeral_eq_Suc]
  merge_pass.simps(2-3) [of "pred_numeral k" for k, folded numeral_eq_Suc]
  walk.simps(2) [of "pred_numeral k" for k, folded numeral_eq_Suc]

lemmas heap_eval =
  loops_numeral back_loop.simps forward_loop.simps merge_pass.simps find_best.simps
  heapInit_def heapAlloc_def heapFree_def heapFreeAll_def heapMergeFreeChunks_def split_chunk_def better_def
  hn_load_def hn_store_def set_prev_def heapPrvGetNext_def size_bits_def tidx_bits_def align4_def Let_def
  HN_def TIDX_MASK_def MAX_HEAP_ORDER_def TIDX_HEAP_BITS_def TASK_IDX_BITS_def TIDX_HEAP_EXTRA_def
  heap_live_def chunks_of_def

theorem heap_blocks_apart_witness:
  "\<exists>h. bindE (heapInit 128 0) (\<lambda>(ok, h). heap_run [Alloc (10, 1), Alloc (21, 2), Alloc (0xFFFFFFFE, 3), Free 8,
       Alloc (5, 4)] h) = Inr h \<and> heap_live h = {(8, 12), (28, 24), (60, 0)} \<and>
     (\<forall>x \<in> heap_live h. \<forall>y \<in> heap_live h. x \<noteq> y \<longrightarrow> apart x y)"
proof -
  let ?ops = "[Alloc (10, 1), Alloc (21, 2), Alloc (0xFFFFFFFE, 3), Free 8, Alloc (5, 4)]
      :: (u32 \<times> nat, heap_other) alloc_op list"
  have v: "map_sum id heap_live (bindE (heapInit 128 0) (\<lambda>(ok, h). heap_run ?ops h)) = Inr {(8, 12), (28, 24), (60, 0)}"
    by (simp add: heap_eval insert_commute)
  obtain h0 where h0: "heapInit 128 0 = Inr (True, h0)" by (simp add: heapInit_def Let_def hn_store_def HN_def)
  with v obtain h where h: "heap_run ?ops h0 = Inr h" "heap_live h = {(8, 12), (28, 24), (60, 0)}"
    by (cases "heap_run ?ops h0") auto
  have "(128::nat) < 2 ^ MAX_HEAP_ORDER" by (simp add: MAX_HEAP_ORDER_def TIDX_HEAP_BITS_def TASK_IDX_BITS_def TIDX_HEAP_EXTRA_def)
  from heap_blocks_apart [OF h0 this h(1)] h0 h show ?thesis by auto
qed

text \<open>C22. Every request, in every state of a well-formed heap. A locked heap gives NULL and stays as it is. With a
  merge pending whose last two chunks are free the request writes behind the heap. In all other states the
  free chunks are merged if a merge is pending, and the size, rounded up to a multiple of 4 in 32 bits (a
  size near \<open>2 ^ 32\<close> wraps to 0), is given a smallest chunk that is large enough, cut to size when more
  than a header would be left; the request gives NULL only when no chunk is large enough, and no other chunk
  changes.\<close>

theorem alloc_best_fit:
  assumes "heap_ok h cs"
  defines "ds \<equiv> if hh_need h then the (merged cs) else cs"
  shows "if hh_lock h then heapAlloc sz tid h = Inr (None, h)
    else if hh_need h \<and> ends_free cs then heapAlloc sz tid h = Inl OutOfBounds
    else \<exists>p h'. heapAlloc sz tid h = Inr (p, h') \<and> \<not> hh_lock h' \<and> \<not> hh_need h' \<and>
      (case p of
         None \<Rightarrow> (\<forall>c \<in> set ds. \<not> fits (align4 sz) c) \<and> heap_ok h' ds
       | Some a \<Rightarrow> \<exists>us c vs. ds = us @ c # vs \<and> a = span us + HN \<and> fits (align4 sz) c \<and>
           (\<forall>d \<in> set ds. fits (align4 sz) d \<longrightarrow> ck_size c \<le> ck_size d) \<and>
           heap_ok h' (us @ taken (align4 sz) tid c @ vs))"
proof (cases "hh_lock h")
  case True
  then show ?thesis by (simp add: heapAlloc_def)
next
  case False
  show ?thesis using heapAlloc_ok [OF assms(1) False, of sz tid] False
    unfolding ds_def merged_None by (auto split: if_split_asm)
qed

theorem alloc_best_fit_witness:
  "\<exists>h. heapInit 64 0 = Inr (True, h) \<and> heapAlloc 60 1 h = Inr (None, h) \<and>
     map_sum id fst (heapAlloc 13 1 h) = Inr (Some 8)"
proof -
  obtain h where h: "heapInit 64 0 = Inr (True, h)" by (simp add: heapInit_def Let_def hn_store_def HN_def)
  have b: "(64::nat) < 2 ^ MAX_HEAP_ORDER" by (simp add: MAX_HEAP_ORDER_def TIDX_HEAP_BITS_def TASK_IDX_BITS_def TIDX_HEAP_EXTRA_def)
  have ok: "heap_ok h [\<lparr>ck_size = 64 - HN, ck_used = False, ck_tidx = tidx_bits 0\<rparr>]" and free: "hh_lock h = False" "hh_need h = False"
    using heapInit_ok [OF h b] by simp_all
  have "map_sum id fst (heapAlloc 13 1 h) = Inr (Some 8)"
  proof -
    let ?cs = "[\<lparr>ck_size = 64 - HN, ck_used = False, ck_tidx = tidx_bits 0\<rparr>] :: chunk list"
    obtain r h' where r: "heapAlloc 13 1 h = Inr (r, h')"
      and best: "case r of
         None \<Rightarrow> (\<forall>c \<in> set ?cs. \<not> fits (align4 13) c) \<and> heap_ok h' ?cs
       | Some a \<Rightarrow> \<exists>us c vs. ?cs = us @ c # vs \<and> a = span us + HN \<and> fits (align4 13) c \<and>
           (\<forall>d \<in> set ?cs. fits (align4 13) d \<longrightarrow> ck_size c \<le> ck_size d) \<and>
           heap_ok h' (us @ taken (align4 13) 1 c @ vs)"
      using alloc_best_fit [OF ok, of 13 1] unfolding free simp_thms if_False by (elim exE conjE)
    have "fits (align4 13) (hd ?cs)" by (simp add: fits_def align4_def HN_def)
    then obtain a where a: "r = Some a" using best by (cases r) simp_all
    obtain us c vs where "?cs = us @ c # vs" "a = span us + HN" using best unfolding a option.case by (elim exE conjE)
    then have "r = Some 8" using a by (cases us) (simp_all add: HN_def)
    with r(1) show ?thesis by simp
  qed
  moreover have "heapAlloc 60 1 h = Inr (None, h)" using h by (auto simp: heap_eval)
  ultimately show ?thesis using h by blast
qed

text \<open>C26. When a merge is pending and the last two chunks are free, the next request writes behind the heap:
  after the last chunk is taken in, \<open>gHeapTail\<close> still names it, so the merged chunk is given a successor
  at the end of the heap.  In all other states a request returns.  Ending a task is enough to get there.\<close>

theorem merge_overruns_heap:
  assumes "heap_ok h cs" and "\<not> hh_lock h"
  shows "heapAlloc sz tid h = Inl OutOfBounds \<longleftrightarrow> hh_need h \<and> ends_free cs"
  using heapAlloc_ok [OF assms, of sz tid] by (auto simp: merged_None split: if_splits)

theorem merge_overruns_heap_witness:
  "bindE (heapInit 64 0) (\<lambda>(ok, h). bindE (heapAlloc 16 1 h) (\<lambda>(p, h1). bindE (heapFreeAll 1 h1) (\<lambda>(n, h2).
     map_sum id fst (heapAlloc 4 1 h2)))) = Inl OutOfBounds"
proof -
  let ?first = "\<lparr>hn_prev = None, hn_size = 16, hn_used = False, hn_tidx = 0\<rparr>"
    and ?last = "\<lparr>hn_prev = Some 0, hn_size = 32, hn_used = False, hn_tidx = 0\<rparr>"
  define h where "h = \<lparr>hh_mem = [24 \<mapsto> ?last, 0 \<mapsto> ?first], hh_real = 64, hh_head = 0, hh_tail = 24,
      hh_lock = False, hh_need = True\<rparr>"
  have run: "bindE (heapInit 64 0) (\<lambda>(ok, h). bindE (heapAlloc 16 1 h) (\<lambda>(p, h1). map_sum id snd (heapFreeAll 1 h1))) = Inr h"
    by (simp add: heap_eval h_def free_all_loop.simps [of _ _ 0] free_all_loop.simps [of _ _ 24] fun_eq_iff)
  have "heap_ok h [\<lparr>ck_size = 16, ck_used = False, ck_tidx = 0\<rparr>, \<lparr>ck_size = 32, ck_used = False, ck_tidx = 0\<rparr>]"
    by (simp add: heap_ok_def h_def HN_def MAX_HEAP_ORDER_def TIDX_HEAP_BITS_def TASK_IDX_BITS_def TIDX_HEAP_EXTRA_def)
  then have "heapAlloc 4 1 h = Inl OutOfBounds"
    using merge_overruns_heap [of h _ 4 1] by (simp add: h_def ends_free_def)
  moreover from run obtain ok h0 p h1 n where "heapInit 64 0 = Inr (ok, h0)" "heapAlloc 16 1 h0 = Inr (p, h1)"
      "heapFreeAll 1 h1 = Inr (n, h)"
    by (auto simp: res)
  ultimately show ?thesis by simp
qed

text \<open>No two free chunks lie side by side.\<close>

fun coalesced :: "chunk list \<Rightarrow> bool" where
  "coalesced (c # d # cs) \<longleftrightarrow> (ck_used c \<or> ck_used d) \<and> coalesced (d # cs)"
| "coalesced [c] \<longleftrightarrow> True"
| "coalesced [] \<longleftrightarrow> True"

lemma coalesced_append: "coalesced (xs @ c # ys) \<Longrightarrow> \<not> ck_used c \<Longrightarrow>
    (xs = [] \<or> ck_used (last xs)) \<and> (ys = [] \<or> ck_used (hd ys))"
proof (induction xs)
  case Nil
  then show ?case by (cases ys) auto
next
  case (Cons d xs)
  then show ?case by (cases xs) auto
qed

text \<open>Giving a block back undoes its allocation: the chunks are again what they were, so a task that frees
  what it took leaves no fragments.\<close>

theorem free_undoes_alloc:
  assumes "heap_ok h cs" and "\<not> hh_lock h" and "\<not> hh_need h" and "coalesced cs"
    and "heapAlloc sz tid h = Inr (Some p, h1)"
  shows "\<exists>h2 ds. heapFree (Some p) h1 = Inr h2 \<and> heap_ok h2 ds \<and>
    map (\<lambda>c. (ck_size c, ck_used c)) ds = map (\<lambda>c. (ck_size c, ck_used c)) cs"
proof -
  have lock: "\<not> hh_lock h1" using heapAlloc_ok [OF assms(1,2), of sz tid] assms(3,5) by auto
  obtain us c vs where c: "cs = us @ c # vs" "p = span us + HN" "fits (align4 sz) c"
      "heap_ok h1 (us @ taken (align4 sz) tid c @ vs)"
    using heapAlloc_ok [OF assms(1,2), of sz tid] assms(3,5) by auto
  have around: "us = [] \<or> ck_used (last us)" "vs = [] \<or> ck_used (hd vs)"
    using coalesced_append [of us c vs] assms(4) c(1,3) by (auto simp: fits_def)
  obtain d gs where d: "taken (align4 sz) tid c = d # gs" "list_all unused gs" "span (d # gs) = HN + ck_size c"
    using span_taken [of "align4 sz" c tid] c(3)
    by (cases "ck_size c - align4 sz > HN") (auto simp: taken_def fits_def)
  obtain h2 where h2: "heapFree (Some p) h1 = Inr h2" "heap_ok h2 (us @ foldl joined (freed d) gs # vs)"
    using heapFree_ok [of h1 us "[]" d gs vs] c(2,4) d(1,2) around lock by auto
  have "ck_size (foldl joined (freed d) gs) = ck_size c"
    using foldl_joined [of "freed d" gs] d(3) by simp
  then show ?thesis using h2 c(1,3) by (intro exI conjI) (auto simp: fits_def)
qed

theorem free_undoes_alloc_witness:
  "\<exists>h h1 h2. heapInit 64 0 = Inr (True, h) \<and> heapAlloc 13 1 h = Inr (Some 8, h1) \<and> heapFree (Some 8) h1 = Inr h2 \<and>
     map ck_size (chunks_of h2) = [56]"
proof -
  obtain h where h: "heapInit 64 0 = Inr (True, h)" by (simp add: heapInit_def Let_def hn_store_def HN_def)
  have b: "(64::nat) < 2 ^ MAX_HEAP_ORDER" by (simp add: MAX_HEAP_ORDER_def TIDX_HEAP_BITS_def TASK_IDX_BITS_def TIDX_HEAP_EXTRA_def)
  let ?cs = "[\<lparr>ck_size = 64 - HN, ck_used = False, ck_tidx = tidx_bits 0\<rparr>]"
  have ok: "heap_ok h ?cs" "\<not> hh_lock h" "\<not> hh_need h"
    using heapInit_ok [OF h b] by simp_all
  obtain h1 where h1: "heapAlloc 13 1 h = Inr (Some 8, h1)" using h by (auto simp: heap_eval)
  obtain h2 ds where h2: "heapFree (Some 8) h1 = Inr h2" "heap_ok h2 ds"
      "map (\<lambda>c. (ck_size c, ck_used c)) ds = map (\<lambda>c. (ck_size c, ck_used c)) ?cs"
    using free_undoes_alloc [OF ok _ h1] by auto
  then have "map ck_size (chunks_of h2) = [56]" by (auto simp: chunks_of_ok HN_def)
  then show ?thesis using h h1 h2(1) by (intro exI conjI)
qed

end
