(* ===== verification/Hub_Slab.thy ===== *)
theory Hub_Slab
  imports Hub_Heap
begin

text \<open>
  Items of one size (\<open>contexthub/firmware/src/slab.c\<close>) and the bit set that says which are taken
  (\<open>src/cpu/cortexm4f/atomicBitset.c\<close>, with its assembly read instruction by instruction; a store that
  is not exclusive only repeats the round).  Pointers are addresses of 32 bits.
\<close>

section \<open>Bit sets\<close>

record bitset =
  bs_numBits :: u32
  bs_words :: "u32 list"

text \<open>The count leading zeros instruction.\<close>

definition clz :: "u32 \<Rightarrow> nat" where
  "clz w = length (takeWhile (\<lambda>i. \<not> bit w (31 - i)) [0..<32])"

definition ATOMIC_BITSET_NUM_WORDS :: "u32 \<Rightarrow> u32" where
  "ATOMIC_BITSET_NUM_WORDS numbits = (numbits + 31) div 32"

definition ATOMIC_BITSET_SZ :: "u32 \<Rightarrow> u32" where
  "ATOMIC_BITSET_SZ numbits = 4 + 4 * ATOMIC_BITSET_NUM_WORDS numbits"

definition atomicBitsetInit :: "u32 \<Rightarrow> bitset res" where
  "atomicBitsetInit numBits =
     (let words = replicate (unat (ATOMIC_BITSET_NUM_WORDS numBits)) 0
      in if numBits AND 31 \<noteq> 0 then
           (if unat (numBits div 32) < length words
            then Inr \<lparr>bs_numBits = numBits, bs_words = words[unat (numBits div 32) := push_bit (unat (numBits AND 31)) (- 1)]\<rparr>
            else Inl OutOfBounds)
         else Inr \<lparr>bs_numBits = numBits, bs_words = words\<rparr>)"

definition atomicBitsetGetNumBits :: "bitset \<Rightarrow> u32" where
  "atomicBitsetGetNumBits bits = bs_numBits bits"

definition atomicBitsetGetBit :: "bitset \<Rightarrow> u32 \<Rightarrow> bool res" where
  "atomicBitsetGetBit bits num =
     (if num \<ge> bs_numBits bits then Inr False
      else
        bindE (array_get (bs_words bits) (unat (num div 32))) (\<lambda>w.
          Inr (w AND push_bit (unat (num AND 31)) 1 \<noteq> 0)))"

definition atomicBitsetClearBit :: "bitset \<Rightarrow> u32 \<Rightarrow> bitset res" where
  "atomicBitsetClearBit bits num =
     (if num \<ge> bs_numBits bits then Inr bits
      else
        bindE (array_get (bs_words bits) (unat (num div 32))) (\<lambda>w.
          Inr (bits\<lparr>bs_words := (bs_words bits)[unat (num div 32) := w AND NOT (push_bit (unat (num AND 31)) 1)]\<rparr>)))"

definition atomicBitsetSetBit :: "bitset \<Rightarrow> u32 \<Rightarrow> bitset res" where
  "atomicBitsetSetBit bits num =
     (if num \<ge> bs_numBits bits then Inr bits
      else
        bindE (array_get (bs_words bits) (unat (num div 32))) (\<lambda>w.
          Inr (bits\<lparr>bs_words := (bs_words bits)[unat (num div 32) := w OR push_bit (unat (num AND 31)) 1]\<rparr>)))"

text \<open>The rounds of \<open>atomicBitsetFindClearAndSet\<close> over the words; the highest clear bit of a word is taken.\<close>

fun find_clear :: "nat \<Rightarrow> u32 list \<Rightarrow> nat option \<times> u32 list" where
  "find_clear idx [] = (None, [])"
| "find_clear idx (w # words) =
     (if NOT w = 0 then (case find_clear (Suc idx) words of (r, words') \<Rightarrow> (r, w # words'))
      else (let b = 31 - clz (NOT w) in (Some (idx * 32 + b), (w OR push_bit b 1) # words)))"

definition atomicBitsetFindClearAndSet :: "bitset \<Rightarrow> int \<times> bitset" where
  "atomicBitsetFindClearAndSet bits =
     (case find_clear 0 (bs_words bits) of (r, words) \<Rightarrow>
        (case r of None \<Rightarrow> - 1 | Some i \<Rightarrow> sint (word_of_nat i :: u32), bits\<lparr>bs_words := words\<rparr>))"

definition atomicBitsetXchg :: "bitset \<Rightarrow> bitset \<Rightarrow> bool \<times> bitset \<times> bitset" where
  "atomicBitsetXchg a b =
     (if bs_numBits a \<noteq> bs_numBits b then (False, a, b)
      else (True, a\<lparr>bs_words := bs_words b\<rparr>, b\<lparr>bs_words := bs_words a\<rparr>))"

definition atomicBitsetBulkRead :: "bitset \<Rightarrow> u32 \<Rightarrow> u32 list option" where
  "atomicBitsetBulkRead bits numBits = (if bs_numBits bits \<noteq> numBits then None else Some (bs_words bits))"

section \<open>The slab\<close>

record slab =
  sl_itemSz :: u32
  sl_dataChunks :: u32
  sl_bitset :: bitset

definition round_up :: "u32 \<Rightarrow> u32 \<Rightarrow> u32" where
  "round_up n align = ((n + align - 1) div align) * align"

text \<open>
  The allocator starts with two words, \<open>itemSz\<close> and \<open>dataChunks\<close>; the bit set and the items follow.  The
  heap begins at \<open>base\<close>.  Result: the slab, with the address that \<open>heapAlloc\<close> gave.
\<close>

definition slabAllocatorNew ::
  "u32 \<Rightarrow> u32 \<Rightarrow> u32 \<Rightarrow> u32 \<Rightarrow> nat \<Rightarrow> hub_heap \<Rightarrow> ((nat \<times> slab) option \<times> hub_heap) res" where
  "slabAllocatorNew base itemSz itemAlign numItems tid h =
     (let bitsetSz = round_up (ATOMIC_BITSET_SZ numItems) itemAlign;
          itemSz' = round_up itemSz itemAlign;
          dataSz = itemSz' * numItems
      in bindE (heapAlloc (8 + bitsetSz + dataSz) tid h) (\<lambda>(p, h1).
           case p of
             None \<Rightarrow> Inr (None, h1)
           | Some a \<Rightarrow>
               bindE (atomicBitsetInit numItems) (\<lambda>bits.
                 Inr (Some (a, \<lparr>sl_itemSz = itemSz', sl_dataChunks = base + word_of_nat a + 8 + bitsetSz,
                                sl_bitset = bits\<rparr>), h1))))"

definition slabAllocatorDestroy :: "nat \<Rightarrow> hub_heap \<Rightarrow> hub_heap res" where
  "slabAllocatorDestroy ptr h = heapFree (Some ptr) h"

definition slabAllocatorAlloc :: "slab \<Rightarrow> u32 option \<times> slab" where
  "slabAllocatorAlloc s =
     (case atomicBitsetFindClearAndSet (sl_bitset s) of (itemIdx, bits) \<Rightarrow>
        let s' = s\<lparr>sl_bitset := bits\<rparr>
        in if itemIdx < 0 then (None, s')
           else (Some (sl_dataChunks s + sl_itemSz s * word_of_int itemIdx), s'))"

text \<open>Is the address that of an item in use?  Division by zero ends the task.\<close>

definition item_of :: "slab \<Rightarrow> u32 \<Rightarrow> u32 option res" where
  "item_of s ptr =
     (if sl_itemSz s = 0 then Inl (Assert 0)
      else
        let itemOffset = ptr - sl_dataChunks s; itemIdx = itemOffset div sl_itemSz s
        in if itemOffset mod sl_itemSz s \<noteq> 0 \<or> itemIdx \<ge> atomicBitsetGetNumBits (sl_bitset s) then Inr None
           else bindE (atomicBitsetGetBit (sl_bitset s) itemIdx) (\<lambda>b. Inr (if b then Some itemIdx else None)))"

definition slabAllocatorFree :: "u32 \<Rightarrow> slab \<Rightarrow> slab res" where
  "slabAllocatorFree ptr s =
     bindE (item_of s ptr) (\<lambda>i.
       case i of
         None \<Rightarrow> Inr s
       | Some itemIdx \<Rightarrow> bindE (atomicBitsetClearBit (sl_bitset s) itemIdx) (\<lambda>bits. Inr (s\<lparr>sl_bitset := bits\<rparr>)))"

definition slabAllocatorGetNth :: "slab \<Rightarrow> u32 \<Rightarrow> u32 option res" where
  "slabAllocatorGetNth s idx =
     bindE (atomicBitsetGetBit (sl_bitset s) idx) (\<lambda>b.
       Inr (if \<not> b then None else Some (sl_dataChunks s + sl_itemSz s * idx)))"

definition slabAllocatorGetIndex :: "slab \<Rightarrow> u32 \<Rightarrow> u32 res" where
  "slabAllocatorGetIndex s ptr = bindE (item_of s ptr) (\<lambda>i. Inr (case i of None \<Rightarrow> - 1 | Some itemIdx \<Rightarrow> itemIdx))"

definition slabAllocatorGetNumItems :: "slab \<Rightarrow> u32" where
  "slabAllocatorGetNumItems s = atomicBitsetGetNumBits (sl_bitset s)"

section \<open>Bit sets as sets\<close>

text \<open>The bit at an index of the words, and the indices taken.\<close>

definition nth_bit :: "u32 list \<Rightarrow> nat \<Rightarrow> bool" where
  "nth_bit ws i \<longleftrightarrow> i div 32 < length ws \<and> bit (ws ! (i div 32)) (i mod 32)"

definition bits_of :: "bitset \<Rightarrow> nat set" where
  "bits_of s = {i. i < unat (bs_numBits s) \<and> nth_bit (bs_words s) i}"

text \<open>There are just enough words, and the bits behind the last one count as taken.\<close>

definition bitset_ok :: "bitset \<Rightarrow> bool" where
  "bitset_ok s \<longleftrightarrow> length (bs_words s) = (unat (bs_numBits s) + 31) div 32 \<and>
     (\<forall>i. unat (bs_numBits s) \<le> i \<longrightarrow> i < 32 * length (bs_words s) \<longrightarrow> nth_bit (bs_words s) i)"

lemma takeWhile_less: "\<exists>x \<in> set xs. \<not> P x \<Longrightarrow> length (takeWhile P xs) < length xs"
  by (induction xs) auto

lemma clz_bit:
  assumes "w \<noteq> 0"
  shows "clz w < 32 \<and> bit w (31 - clz w)"
proof -
  let ?P = "\<lambda>i. \<not> bit w (31 - i)"
  obtain n where n: "bit w n" using assms by (auto simp: bit_eq_iff)
  then have "n < 32" using bit_imp_le_length by fastforce
  then have "\<exists>x \<in> set [0..<32]. \<not> ?P x" using n by (intro bexI [of _ "31 - n"]) auto
  then have lt: "clz w < length [0..<32]" unfolding clz_def by (rule takeWhile_less)
  then have "\<not> ?P ([0..<32] ! clz w)" unfolding clz_def by (rule nth_length_takeWhile)
  with lt show ?thesis by simp
qed

lemma nth_bit_Cons: "nth_bit (w # ws) i \<longleftrightarrow> (if i < 32 then bit w i else nth_bit ws (i - 32))"
proof (cases "i < 32")
  case True
  then show ?thesis by (simp add: nth_bit_def)
next
  case False
  define j where "j = i - 32"
  have "i = j + 32" using False by (simp add: j_def)
  moreover have "(j + 32) div 32 = Suc (j div 32)" "(j + 32) mod 32 = j mod 32" by simp_all
  ultimately show ?thesis by (simp add: nth_bit_def del: div_add_self2)
qed

lemma bit_mask: "bit (push_bit b 1 :: u32) j \<longleftrightarrow> b = j \<and> j < 32"
  by (auto simp: bit_push_bit_iff bit_1_iff simp del: push_bit_of_1)

lemma find_clear_spec:
  "find_clear idx ws = (r, ws') \<Longrightarrow>
     length ws' = length ws \<and>
     (r = None \<and> ws' = ws \<and> (\<forall>i < 32 * length ws. nth_bit ws i) \<or>
      (\<exists>i < 32 * length ws. \<not> nth_bit ws i \<and> r = Some (32 * idx + i) \<and> (\<forall>j. nth_bit ws' j \<longleftrightarrow> nth_bit ws j \<or> j = i)))"
proof (induction ws arbitrary: idx r ws')
  case Nil
  then show ?case by simp
next
  case (Cons w ws)
  show ?case
  proof (cases "NOT w = 0")
    case True
    then have full: "bit w i" if "i < 32" for i
    proof -
      have "w = - 1" using True by (metis bit.double_compl bit.compl_zero)
      then show ?thesis using that by simp
    qed
    obtain q us where q: "find_clear (Suc idx) ws = (q, us)" by fastforce
    then have res: "r = q" "ws' = w # us" using Cons.prems True by auto
    from Cons.IH [OF q] consider
        "q = None" "us = ws" "\<forall>i < 32 * length ws. nth_bit ws i"
      | i where "i < 32 * length ws" "\<not> nth_bit ws i" "q = Some (32 * Suc idx + i)"
          "\<forall>j. nth_bit us j \<longleftrightarrow> nth_bit ws j \<or> j = i" "length us = length ws" by blast
    then show ?thesis
    proof cases
      case 1
      then show ?thesis using full res by (auto simp: nth_bit_Cons)
    next
      case (2 i)
      then show ?thesis using full res
        by (intro conjI disjI2 exI [of _ "i + 32"]) (auto simp: nth_bit_Cons)
    qed
  next
    case False
    let ?b = "31 - clz (NOT w)"
    have b: "?b < 32" "\<not> bit w ?b" using clz_bit [OF False] by (auto simp: bit_not_iff)
    have "bit (w OR push_bit ?b 1) j \<longleftrightarrow> bit w j \<or> j = ?b" if "j < 32" for j
      using that b(1) by (auto simp: bit_or_iff bit_mask simp del: push_bit_of_1)
    then show ?thesis
      using Cons.prems False b by (intro conjI disjI2 exI [of _ ?b]) (auto simp: nth_bit_Cons Let_def)
  qed
qed

lemma word_index:
  "unat (num div 32 :: u32) = unat num div 32"
  "unat (num AND 31 :: u32) = unat num mod 32"
proof -
  show "unat (num div 32 :: u32) = unat num div 32" by (simp add: unat_div_distrib)
  have "num AND 31 = take_bit 5 num" by (simp add: take_bit_eq_mask mask_eq_exp_minus_1)
  then show "unat (num AND 31 :: u32) = unat num mod 32" by (simp add: unat_mod_distrib take_bit_eq_mod)
qed

lemma in_words:
  assumes "bitset_ok s" and "i < unat (bs_numBits s)"
  shows "i div 32 < length (bs_words s)"
  using assms by (simp add: bitset_ok_def div_less_iff_less_mult)

lemma getBit_ok:
  assumes ok: "bitset_ok s"
  shows "atomicBitsetGetBit s num = Inr (unat num \<in> bits_of s)"
proof (cases "num \<ge> bs_numBits s")
  case True
  then show ?thesis by (simp add: atomicBitsetGetBit_def bits_of_def word_le_nat_alt)
next
  case False
  then have lt: "unat num < unat (bs_numBits s)" by (simp add: word_le_nat_alt)
  with in_words [OF ok] have "unat num div 32 < length (bs_words s)" by blast
  with False lt show ?thesis
    unfolding atomicBitsetGetBit_def word_index bit_iff_and_push_bit_not_eq_0 [symmetric]
    by (simp add: bits_of_def nth_bit_def)
qed

text \<open>One word changed in one bit.\<close>

lemma nth_bit_update:
  assumes "n div 32 < length ws" and "\<And>j. j < 32 \<Longrightarrow> bit w' j \<longleftrightarrow> (if j = n mod 32 then v else bit (ws ! (n div 32)) j)"
  shows "nth_bit (ws[n div 32 := w']) i \<longleftrightarrow> (if i = n then v else nth_bit ws i)"
proof (cases "i div 32 = n div 32")
  case True
  then have "i = n \<longleftrightarrow> i mod 32 = n mod 32" by (metis div_mult_mod_eq)
  with True assms show ?thesis by (simp add: nth_bit_def)
next
  case False
  then show ?thesis by (auto simp: nth_bit_def)
qed

lemma bitset_update:
  assumes "bitset_ok s" and "n < unat (bs_numBits s)"
    and "\<And>j. j < 32 \<Longrightarrow> bit w' j \<longleftrightarrow> (if j = n mod 32 then v else bit (bs_words s ! (n div 32)) j)"
    and s': "s' = s\<lparr>bs_words := (bs_words s)[n div 32 := w']\<rparr>"
  shows "bitset_ok s' \<and> bs_numBits s' = bs_numBits s \<and> bits_of s' = (if v then insert n (bits_of s) else bits_of s - {n})"
proof -
  have "nth_bit (bs_words s') i \<longleftrightarrow> (if i = n then v else nth_bit (bs_words s) i)" for i
    using nth_bit_update [OF in_words [OF assms(1,2)] assms(3)] by (simp add: s')
  with assms(1,2) show ?thesis by (auto simp: bitset_ok_def bits_of_def s')
qed

lemma clearBit_ok:
  assumes ok: "bitset_ok s"
  shows "\<exists>s'. atomicBitsetClearBit s num = Inr s' \<and> bitset_ok s' \<and> bs_numBits s' = bs_numBits s \<and>
    bits_of s' = bits_of s - {unat num}"
proof (cases "num \<ge> bs_numBits s")
  case True
  then show ?thesis using ok by (auto simp: atomicBitsetClearBit_def bits_of_def word_le_nat_alt)
next
  case False
  then have lt: "unat num < unat (bs_numBits s)" by (simp add: word_le_nat_alt)
  note in_w = in_words [OF ok lt]
  define w' where "w' = bs_words s ! (unat num div 32) AND NOT (push_bit (unat num mod 32) 1)"
  have "bit w' j \<longleftrightarrow> (if j = unat num mod 32 then False else bit (bs_words s ! (unat num div 32)) j)" if "j < 32" for j
    using that by (auto simp: w'_def bit_and_iff bit_not_iff bit_mask simp del: push_bit_of_1)
  from bitset_update [OF ok lt this refl] False in_w show ?thesis
    by (simp add: atomicBitsetClearBit_def word_index w'_def del: push_bit_of_1)
qed

lemma setBit_ok:
  assumes ok: "bitset_ok s" and lt: "unat num < unat (bs_numBits s)"
  shows "\<exists>s'. atomicBitsetSetBit s num = Inr s' \<and> bitset_ok s' \<and> bs_numBits s' = bs_numBits s \<and>
    bits_of s' = insert (unat num) (bits_of s)"
proof -
  note in_w = in_words [OF ok lt]
  define w' where "w' = bs_words s ! (unat num div 32) OR push_bit (unat num mod 32) 1"
  have "bit w' j \<longleftrightarrow> (if j = unat num mod 32 then True else bit (bs_words s ! (unat num div 32)) j)" if "j < 32" for j
    using that by (auto simp: w'_def bit_or_iff bit_mask simp del: push_bit_of_1)
  from bitset_update [OF ok lt this refl] lt in_w show ?thesis
    by (simp add: atomicBitsetSetBit_def word_index w'_def word_le_nat_alt del: push_bit_of_1)
qed

lemma findClear_ok:
  assumes ok: "bitset_ok s" and n: "unat (bs_numBits s) \<le> 2 ^ 31" and f: "atomicBitsetFindClearAndSet s = (r, s')"
  shows "bitset_ok s' \<and> bs_numBits s' = bs_numBits s \<and>
    (r = - 1 \<and> s' = s \<and> bits_of s = {..<unat (bs_numBits s)} \<or>
     (\<exists>i < unat (bs_numBits s). i \<notin> bits_of s \<and> r = int i \<and> bits_of s' = insert i (bits_of s)))"
proof -
  obtain q ws where q: "find_clear 0 (bs_words s) = (q, ws)" by fastforce
  with f have s': "s' = s\<lparr>bs_words := ws\<rparr>" "r = (case q of None \<Rightarrow> - 1 | Some i \<Rightarrow> sint (word_of_nat i :: u32))"
    by (auto simp: atomicBitsetFindClearAndSet_def)
  have words: "unat (bs_numBits s) \<le> 32 * length (bs_words s)" using ok by (simp add: bitset_ok_def)
  from find_clear_spec [OF q] consider
      "q = None" "ws = bs_words s" "\<forall>i < 32 * length (bs_words s). nth_bit (bs_words s) i"
    | i where "i < 32 * length (bs_words s)" "\<not> nth_bit (bs_words s) i" "q = Some i" "length ws = length (bs_words s)"
        "\<forall>j. nth_bit ws j \<longleftrightarrow> nth_bit (bs_words s) j \<or> j = i" by auto
  then show ?thesis
  proof cases
    case 1
    then show ?thesis using ok s' words by (auto simp: bits_of_def)
  next
    case (2 i)
    then have i: "i < unat (bs_numBits s)" using ok by (auto simp: bitset_ok_def not_le [symmetric])
    then have "sint (word_of_nat i :: u32) = int i" using n by (simp add: signed_of_nat signed_take_bit_int_eq_self)
    with 2 i show ?thesis using ok by (auto simp: s' bitset_ok_def bits_of_def)
  qed
qed

lemma words_up: "0 < r \<Longrightarrow> r < 32 \<Longrightarrow> (32 * q + r + 31) div 32 = Suc q" for q r :: nat
  by (intro div_nat_eqI) simp_all

lemma same_word: "i div 32 = n div 32 \<Longrightarrow> n mod 32 \<le> i mod 32 \<longleftrightarrow> n \<le> i" for i n :: nat
  by (metis add_le_cancel_left div_mult_mod_eq)

text \<open>A fresh set is empty; the count of words wraps for the 31 largest sizes.\<close>

lemma bitsetInit_ok:
  assumes "unat n \<le> 2 ^ 32 - 32"
  shows "\<exists>s. atomicBitsetInit n = Inr s \<and> bitset_ok s \<and> bs_numBits s = n \<and> bits_of s = {}"
proof -
  have "unat (n + 31) = unat n + 31" using assms by (subst unat_add_lem [THEN iffD1]) simp_all
  then have len: "unat (ATOMIC_BITSET_NUM_WORDS n) = (unat n + 31) div 32"
    by (simp add: ATOMIC_BITSET_NUM_WORDS_def unat_div_distrib)
  define w where "w = (push_bit (unat n mod 32) (- 1) :: u32)"
  have bw: "bit w j \<longleftrightarrow> unat n mod 32 \<le> j" if "j < 32" for j
    using that by (auto simp: w_def bit_push_bit_iff bit_not_iff bit_mask_iff)
  show ?thesis
  proof (cases "n AND 31 = 0")
    case True
    then have "unat n mod 32 = 0" by (metis word_index(2) unat_eq_0)
    then have "(unat n + 31) div 32 * 32 = unat n" by presburger
    with True show ?thesis
      by (simp add: atomicBitsetInit_def Let_def len bitset_ok_def bits_of_def nth_bit_def mult.commute [of 32] del: mult_ac)
  next
    case False
    then have "unat n mod 32 \<noteq> 0" by (metis word_index(2) unat_eq_0)
    then have l: "(unat n + 31) div 32 = Suc (unat n div 32)"
      using words_up [of "unat n mod 32" "unat n div 32"] by simp
    define q ws where "q = unat n div 32" and "ws = (replicate (Suc q) 0)[q := w]"
    have "atomicBitsetInit n = Inr \<lparr>bs_numBits = n, bs_words = ws\<rparr>"
      using False by (simp add: atomicBitsetInit_def Let_def len l word_index w_def ws_def q_def)
    moreover have b: "nth_bit ws i \<longleftrightarrow> i div 32 = q \<and> unat n mod 32 \<le> i mod 32" for i
    proof (cases "i div 32 = q")
      case True
      then show ?thesis using bw [of "i mod 32"] by (simp add: nth_bit_def ws_def del: replicate_Suc)
    next
      case False
      then show ?thesis by (simp add: nth_bit_def ws_def nth_list_update del: replicate_Suc)
    qed
    have "nth_bit ws i" if "unat n \<le> i" "i < 32 * Suc q" for i
    proof -
      have "i div 32 = q" using that div_le_mono [of "unat n" i 32] less_mult_imp_div_less [of i "Suc q" 32] by (simp add: q_def)
      with that show ?thesis using same_word [of i "unat n"] by (simp add: b q_def)
    qed
    moreover have "\<not> nth_bit ws i" if "i < unat n" for i
      using that same_word [of i "unat n"] by (auto simp: b q_def)
    moreover have "length ws = Suc q" by (simp add: ws_def del: replicate_Suc)
    moreover have "(unat n + 31) div 32 = Suc q" using l by (simp add: q_def)
    ultimately show ?thesis by (simp add: bitset_ok_def bits_of_def del: mult_Suc_right)
  qed
qed

section \<open>What the slab promises\<close>

text \<open>The items lie one behind the other below \<open>2 ^ 32\<close>.\<close>

definition item_addr :: "slab \<Rightarrow> nat \<Rightarrow> nat" where
  "item_addr s i = unat (sl_dataChunks s) + unat (sl_itemSz s) * i"

definition slab_area :: "slab \<Rightarrow> block" where
  "slab_area s = (item_addr s 0, unat (sl_itemSz s) * unat (bs_numBits (sl_bitset s)))"

definition slab_live :: "slab \<Rightarrow> block set" where
  "slab_live s = (\<lambda>i. (item_addr s i, unat (sl_itemSz s))) ` bits_of (sl_bitset s)"

definition slab_ok :: "slab \<Rightarrow> bool" where
  "slab_ok s \<longleftrightarrow> bitset_ok (sl_bitset s) \<and> 0 < unat (sl_itemSz s) \<and> unat (bs_numBits (sl_bitset s)) \<le> 2 ^ 31 \<and>
     item_addr s (unat (bs_numBits (sl_bitset s))) \<le> 2 ^ 32"

lemma item_addr_inj: "0 < unat (sl_itemSz s) \<Longrightarrow> item_addr s i = item_addr s j \<longleftrightarrow> i = j"
  by (simp add: item_addr_def)

lemma item_addr_less: "i < n \<Longrightarrow> item_addr s i + unat (sl_itemSz s) \<le> item_addr s n"
  using mult_le_mono2 [of "Suc i" n "unat (sl_itemSz s)"] by (simp add: item_addr_def)

lemma bits_of_less: "i \<in> bits_of s \<Longrightarrow> i < unat (bs_numBits s)"
  by (simp add: bits_of_def)

text \<open>The address arithmetic of the words does not wrap.\<close>

lemma item_word:
  assumes "slab_ok s" and "i < unat (bs_numBits (sl_bitset s))"
  shows "unat (sl_dataChunks s + sl_itemSz s * word_of_nat i) = item_addr s i"
proof -
  have le: "item_addr s i < 2 ^ 32"
    using item_addr_less [OF assms(2), of s] assms(1) by (simp add: slab_ok_def)
  have "sl_dataChunks s + sl_itemSz s * word_of_nat i = word_of_nat (item_addr s i)"
    by (simp add: item_addr_def)
  with le show ?thesis by (simp add: unat_of_nat take_bit_nat_eq_self)
qed

lemma slab_alloc_cases:
  assumes ok: "slab_ok s" and a: "slabAllocatorAlloc s = (p, s')"
  shows "slab_ok s' \<and> sl_dataChunks s' = sl_dataChunks s \<and> sl_itemSz s' = sl_itemSz s \<and>
    bs_numBits (sl_bitset s') = bs_numBits (sl_bitset s) \<and>
    (case p of
       None \<Rightarrow> s' = s \<and> bits_of (sl_bitset s) = {..<unat (bs_numBits (sl_bitset s))}
     | Some w \<Rightarrow> \<exists>i < unat (bs_numBits (sl_bitset s)). i \<notin> bits_of (sl_bitset s) \<and> unat w = item_addr s i \<and>
         bits_of (sl_bitset s') = insert i (bits_of (sl_bitset s)))"
proof -
  obtain r b where f: "atomicBitsetFindClearAndSet (sl_bitset s) = (r, b)" by fastforce
  then have s': "s' = s\<lparr>sl_bitset := b\<rparr>"
    and p: "p = (if r < 0 then None else Some (sl_dataChunks s + sl_itemSz s * word_of_int r))"
    using a by (auto simp: slabAllocatorAlloc_def Let_def split: if_splits)
  have "bitset_ok (sl_bitset s)" "unat (bs_numBits (sl_bitset s)) \<le> 2 ^ 31" using ok by (auto simp: slab_ok_def)
  note spec = findClear_ok [OF this f]
  then have ok': "slab_ok s'" using ok by (simp add: slab_ok_def s' item_addr_def)
  show ?thesis
  proof (cases "r < 0")
    case True
    then show ?thesis using spec ok ok' p s' by auto
  next
    case False
    with spec obtain i where "i < unat (bs_numBits (sl_bitset s))" "i \<notin> bits_of (sl_bitset s)" "r = int i"
      "bits_of b = insert i (bits_of (sl_bitset s))" by auto
    with spec ok' p s' item_word [OF ok] show ?thesis by auto
  qed
qed

lemma item_of_ok:
  assumes ok: "slab_ok s"
  shows "(\<exists>i \<in> bits_of (sl_bitset s). unat ptr = item_addr s i \<and> item_of s ptr = Inr (Some (word_of_nat i))) \<or>
    (\<forall>i \<in> bits_of (sl_bitset s). unat ptr \<noteq> item_addr s i) \<and> item_of s ptr = Inr None"
proof -
  let ?D = "sl_dataChunks s" and ?z = "sl_itemSz s" and ?n = "unat (bs_numBits (sl_bitset s))"
  define off idx where "off = ptr - ?D" and "idx = off div ?z"
  have z: "?z \<noteq> 0" "0 < unat ?z" and bok: "bitset_ok (sl_bitset s)" and top: "item_addr s ?n \<le> 2 ^ 32"
    using ok by (auto simp: slab_ok_def)
  have item: "item_of s ptr = (if off mod ?z \<noteq> 0 \<or> idx \<ge> bs_numBits (sl_bitset s) then Inr None
      else Inr (if unat idx \<in> bits_of (sl_bitset s) then Some idx else None))"
    using z by (simp add: item_of_def Let_def off_def idx_def atomicBitsetGetNumBits_def getBit_ok [OF bok])
  show ?thesis
  proof (cases "off mod ?z = 0 \<and> idx < bs_numBits (sl_bitset s) \<and> unat idx \<in> bits_of (sl_bitset s)")
    case True
    then have "off = ?z * idx" by (metis add.right_neutral idx_def mult.commute word_mod_div_equality)
    then have "ptr = ?D + ?z * word_of_nat (unat idx)" by (simp add: off_def algebra_simps)
    then have "unat ptr = item_addr s (unat idx)" using item_word [OF ok] bits_of_less True by metis
    then show ?thesis using True by (intro disjI1 bexI [of _ "unat idx"]) (auto simp: item)
  next
    case False
    have "unat ptr \<noteq> item_addr s i" if i: "i \<in> bits_of (sl_bitset s)" for i
    proof
      assume p: "unat ptr = item_addr s i"
      have "i < ?n" using i by (rule bits_of_less)
      then have "unat ptr = unat (?D + ?z * word_of_nat i)" using item_word [OF ok] p by simp
      then have "ptr = ?D + ?z * word_of_nat i" by (rule word_unat_eq_iff [THEN iffD2])
      then have "off = ?z * word_of_nat i" by (simp add: off_def)
      moreover have "unat ?z * i < 2 ^ 32" using p unsigned_less [where ?'a = nat, of ptr] by (simp add: item_addr_def)
      moreover have "unat (word_of_nat i :: u32) = i"
        using \<open>i < ?n\<close> unsigned_less [where ?'a = nat, of "bs_numBits (sl_bitset s)"] by (simp add: unat_of_nat take_bit_nat_eq_self)
      ultimately have "unat off = unat ?z * i" by (simp add: unat_mult_lem [THEN iffD1])
      then have "unat (off mod ?z) = 0" "unat idx = i" using z by (simp_all add: unat_mod_distrib unat_div_distrib idx_def)
      then show False using False i \<open>i < ?n\<close> by (auto simp: word_less_nat_alt unat_eq_0)
    qed
    then show ?thesis using False by (auto simp: item not_less)
  qed
qed

text \<open>A pointer that is no item in use is ignored.\<close>

lemma slab_free_ok:
  assumes ok: "slab_ok s"
  shows "\<exists>s'. slabAllocatorFree ptr s = Inr s' \<and> slab_ok s' \<and> sl_dataChunks s' = sl_dataChunks s \<and>
    sl_itemSz s' = sl_itemSz s \<and> bs_numBits (sl_bitset s') = bs_numBits (sl_bitset s) \<and>
    bits_of (sl_bitset s') = bits_of (sl_bitset s) - {i. item_addr s i = unat ptr}"
  using item_of_ok [OF ok, of ptr]
proof (elim disjE conjE bexE)
  fix i
  assume i: "i \<in> bits_of (sl_bitset s)" "unat ptr = item_addr s i" "item_of s ptr = Inr (Some (word_of_nat i))"
  have "i < 2 ^ 32"
    using bits_of_less [OF i(1)] unsigned_less [where ?'a = nat, of "bs_numBits (sl_bitset s)"] by simp
  then have "unat (word_of_nat i :: u32) = i" by (simp add: unat_of_nat take_bit_nat_eq_self)
  moreover from ok have "bitset_ok (sl_bitset s)" "0 < unat (sl_itemSz s)" by (simp_all add: slab_ok_def)
  moreover from this obtain b where "atomicBitsetClearBit (sl_bitset s) (word_of_nat i) = Inr b" "bitset_ok b"
    "bs_numBits b = bs_numBits (sl_bitset s)" "bits_of b = bits_of (sl_bitset s) - {unat (word_of_nat i :: u32)}"
    using clearBit_ok by blast
  moreover have "{j. item_addr s j = unat ptr} = {i}" using i(2) calculation(3) by (auto simp: item_addr_inj)
  ultimately show ?thesis using i(3) ok by (simp add: slabAllocatorFree_def slab_ok_def item_addr_def)
next
  assume "\<forall>i \<in> bits_of (sl_bitset s). unat ptr \<noteq> item_addr s i" "item_of s ptr = Inr None"
  moreover from this have "bits_of (sl_bitset s) \<inter> {i. item_addr s i = unat ptr} = {}" by force
  ultimately show ?thesis using ok by (auto simp: slabAllocatorFree_def)
qed

lemma slab_same:
  assumes "sl_dataChunks s' = sl_dataChunks s" and "sl_itemSz s' = sl_itemSz s"
    and "bs_numBits (sl_bitset s') = bs_numBits (sl_bitset s)"
  shows "item_addr s' = item_addr s" and "slab_area s' = slab_area s"
    and "slab_live s' = (\<lambda>i. (item_addr s i, unat (sl_itemSz s))) ` bits_of (sl_bitset s')"
proof -
  show i: "item_addr s' = item_addr s" using assms by (simp add: item_addr_def fun_eq_iff)
  show "slab_area s' = slab_area s" "slab_live s' = (\<lambda>i. (item_addr s i, unat (sl_itemSz s))) ` bits_of (sl_bitset s')"
    using assms by (simp_all add: slab_area_def slab_live_def i)
qed

lemma slab_free_live:
  assumes ok: "slab_ok s"
  obtains s' where "slabAllocatorFree ptr s = Inr s'" "slab_ok s'" "sl_itemSz s' = sl_itemSz s" "slab_area s' = slab_area s"
    "slab_live s' = {x \<in> slab_live s. fst x \<noteq> unat ptr}"
proof -
  obtain s' where s': "slabAllocatorFree ptr s = Inr s'" "slab_ok s'" "sl_dataChunks s' = sl_dataChunks s"
    "sl_itemSz s' = sl_itemSz s" "bs_numBits (sl_bitset s') = bs_numBits (sl_bitset s)"
    "bits_of (sl_bitset s') = bits_of (sl_bitset s) - {i. item_addr s i = unat ptr}"
    using slab_free_ok [OF ok] by blast
  note same = slab_same [OF s'(3-5)]
  have "slab_live s' = {x \<in> slab_live s. fst x \<noteq> unat ptr}" by (subst same(3), subst s'(6)) (auto simp: slab_live_def)
  then show thesis using that [OF s'(1,2,4) same(2)] by blast
qed

lemma items_apart:
  assumes "i \<noteq> j"
  shows "apart (item_addr s i, unat (sl_itemSz s)) (item_addr s j, unat (sl_itemSz s))"
  using assms item_addr_less [of i j s] item_addr_less [of j i s] by (cases i j rule: linorder_cases) (auto simp: apart_def)

interpretation slab: allocator "\<lambda>s. slab_ok s \<and> unat (sl_itemSz s) = sz" slab_live slab_area "\<lambda>_ :: unit. sz"
  "\<lambda>_ s. Inr (case slabAllocatorAlloc s of (q, s') \<Rightarrow> (map_option unat q, s'))" "\<lambda>p. slabAllocatorFree (word_of_nat p)"
  slabAllocatorFree for sz :: nat
proof (unfold_locales, goal_cases)
  case (1 s r s')
  then have "slabAllocatorAlloc s = (None, s')" by (cases "slabAllocatorAlloc s") simp
  with 1 slab_alloc_cases [of s None s'] show ?case by auto
next
  case (2 s r p s')
  then obtain w where a: "slabAllocatorAlloc s = (Some w, s')" and p: "p = unat w"
    by (cases "slabAllocatorAlloc s") auto
  from slab_alloc_cases [OF _ a] 2 obtain i where i: "slab_ok s'" "sl_dataChunks s' = sl_dataChunks s"
    "sl_itemSz s' = sl_itemSz s" "bs_numBits (sl_bitset s') = bs_numBits (sl_bitset s)"
    "i < unat (bs_numBits (sl_bitset s))" "i \<notin> bits_of (sl_bitset s)" "p = item_addr s i"
    "bits_of (sl_bitset s') = insert i (bits_of (sl_bitset s))" by (auto simp: p)
  note same = slab_same [OF i(2-4)]
  have z: "0 < unat (sl_itemSz s)" using 2 by (simp add: slab_ok_def)
  have "apart (p, sz) b \<and> fst b \<noteq> p" if "b \<in> slab_live s" for b
  proof -
    from that obtain j where j: "j \<in> bits_of (sl_bitset s)" "b = (item_addr s j, sz)" using 2 by (auto simp: slab_live_def)
    then have "i \<noteq> j" using i(6) by blast
    then show ?thesis using items_apart [of i j s] z 2 j(2) i(7) by (simp add: item_addr_inj)
  qed
  moreover have "fst (slab_area s) \<le> p" "p + sz \<le> fst (slab_area s) + snd (slab_area s)"
    using item_addr_less [OF i(5), of s] 2 i(7) by (auto simp: slab_area_def item_addr_def)
  moreover have "slab_live s' = insert (p, sz) (slab_live s)" by (subst same(3)) (use 2 i(7,8) in \<open>simp add: slab_live_def\<close>)
  ultimately show ?case using i(1,3) 2 same(2) by auto
next
  case (3 s p n)
  then obtain i where i: "i \<in> bits_of (sl_bitset s)" "p = item_addr s i" by (auto simp: slab_live_def)
  have "item_addr s i < 2 ^ 32"
    using item_addr_less [OF bits_of_less [OF i(1)]] 3 by (simp add: slab_ok_def) (meson add_le_same_cancel1 leD le_trans not_le_imp_less)
  then have "unat (word_of_nat p :: u32) = p" using i(2) by (simp add: unat_of_nat take_bit_nat_eq_self)
  moreover have "{x \<in> slab_live s. fst x \<noteq> p} = slab_live s - {(p, n)}" using 3 by (auto simp: slab_live_def)
  ultimately show ?case using slab_free_live [of s "word_of_nat p"] 3 by metis
next
  case (4 s x s')
  from slab_free_live [of s x] 4 show ?case by (metis (no_types, lifting) mem_Collect_eq subsetI sum.inject(2))
qed

section \<open>The slab inside the heap\<close>

definition up :: "nat \<Rightarrow> nat \<Rightarrow> nat" where
  "up x a = (x + a - 1) div a * a"

lemma up_ge: "0 < a \<Longrightarrow> x \<le> up x a"
proof -
  assume a: "0 < a"
  have "x + a - 1 < ((x + a - 1) div a + 1) * a" using a by (simp add: dividend_less_div_times)
  then show "x \<le> up x a" by (simp add: up_def)
qed

lemma round_up_nat:
  assumes "0 < unat a" and "unat x + unat a \<le> 2 ^ 32"
  shows "unat (round_up x a) = up (unat x) (unat a)"
proof -
  define m where "m = unat x + unat a - 1"
  have m: "m < 2 ^ 32" using assms by (simp add: m_def)
  have "x + a - 1 = word_of_nat m" using assms(1) by (simp add: m_def of_nat_diff)
  then have u: "unat (x + a - 1) = m" using m by (simp add: unat_of_nat take_bit_nat_eq_self)
  have "m div unat a * unat a \<le> m" by simp
  then have "m div unat a * unat a < 2 ^ 32" using m by linarith
  then have "unat ((x + a - 1) div a * a) = m div unat a * unat a"
    by (subst unat_mult_lem [THEN iffD1]) (simp_all add: unat_div_distrib u)
  then show ?thesis by (simp add: round_up_def up_def m_def)
qed

text \<open>The octets a slab needs, counted without wrapping around.\<close>

definition slab_octets :: "nat \<Rightarrow> nat \<Rightarrow> nat \<Rightarrow> nat" where
  "slab_octets itemSz itemAlign numItems =
     8 + up (4 + 4 * ((numItems + 31) div 32)) itemAlign + up itemSz itemAlign * numItems"

definition slab_fits :: "u32 \<Rightarrow> u32 \<Rightarrow> u32 \<Rightarrow> bool" where
  "slab_fits itemSz itemAlign numItems \<longleftrightarrow>
     0 < unat itemSz \<and> 0 < unat itemAlign \<and> 0 < unat numItems \<and> unat numItems \<le> 2 ^ 31 \<and>
     slab_octets (unat itemSz) (unat itemAlign) (unat numItems) + unat itemAlign < 2 ^ 32 - 3"

lemma unat_eqI: "x = word_of_nat m \<Longrightarrow> m < 2 ^ 32 \<Longrightarrow> unat (x :: u32) = m"
  by (simp add: unat_of_nat take_bit_nat_eq_self)

lemma slab_sizes:
  assumes "slab_fits itemSz itemAlign numItems"
  defines "bsz \<equiv> round_up (ATOMIC_BITSET_SZ numItems) itemAlign" and "isz \<equiv> round_up itemSz itemAlign"
  shows "unat bsz = up (4 + 4 * ((unat numItems + 31) div 32)) (unat itemAlign)"
    and "unat isz = up (unat itemSz) (unat itemAlign)"
    and "unat (8 + bsz + isz * numItems) = slab_octets (unat itemSz) (unat itemAlign) (unat numItems)"
proof -
  let ?n = "unat numItems" and ?a = "unat itemAlign" and ?z = "unat itemSz"
  let ?b = "4 + 4 * ((?n + 31) div 32)"
  have f: "0 < ?z" "0 < ?a" "0 < ?n" "?n \<le> 2 ^ 31" "slab_octets ?z ?a ?n + ?a < 2 ^ 32 - 3"
    using assms(1) by (auto simp: slab_fits_def)
  have le: "?b \<le> up ?b ?a" "?z \<le> up ?z ?a" "up ?z ?a \<le> up ?z ?a * ?n" using f(2,3) up_ge by simp_all
  then have small: "?b + ?a \<le> 2 ^ 32" "?z + ?a \<le> 2 ^ 32" using f(5) unfolding slab_octets_def by linarith+
  have "unat (numItems + 31) = ?n + 31" using f(4) by (subst unat_add_lem [THEN iffD1]) simp_all
  then have w: "unat (ATOMIC_BITSET_NUM_WORDS numItems) = (?n + 31) div 32"
    by (simp add: ATOMIC_BITSET_NUM_WORDS_def unat_div_distrib)
  have "ATOMIC_BITSET_SZ numItems = word_of_nat ?b"
    unfolding ATOMIC_BITSET_SZ_def w [symmetric] by simp
  then have b: "unat (ATOMIC_BITSET_SZ numItems) = ?b" using small(1) f(2) by (intro unat_eqI) simp_all
  show bsz: "unat bsz = up ?b ?a" using round_up_nat [of itemAlign] f(2) small(1) by (simp add: bsz_def b)
  show isz: "unat isz = up ?z ?a" using round_up_nat [of itemAlign] f(2) small(2) by (simp add: isz_def)
  have "8 + bsz + isz * numItems = word_of_nat (8 + unat bsz + unat isz * ?n)" by simp
  then show "unat (8 + bsz + isz * numItems) = slab_octets ?z ?a ?n"
    using f(5) unfolding bsz isz slab_octets_def by (intro unat_eqI) simp_all
qed

lemma align4_ge:
  assumes "unat sz + 3 < 2 ^ 32"
  shows "unat sz \<le> align4 sz"
proof -
  have "unat (sz + 3) = unat sz + 3" using assms by (subst unat_add_lem [THEN iffD1]) simp_all
  moreover have "unat (sz + 3) \<le> align4 sz + unat ((sz + 3) AND 3)"
  proof -
    have "x AND NOT y = x - (x AND y)" for x y :: u32
      by (subst disjunctive_diff) (auto simp: bit_and_iff bit_or_iff bit_not_iff intro!: bit_eqI)
    then have "unat (sz + 3) = unat (((sz + 3) AND 3) + ((sz + 3) AND NOT 3))" by (metis add.commute diff_add_cancel)
    also have "\<dots> \<le> unat ((sz + 3) AND 3) + align4 sz" unfolding align4_def unat_word_ariths by (rule mod_less_eq_dividend)
    finally show ?thesis by simp
  qed
  moreover have "unat ((sz + 3) AND 3) \<le> 3"
  proof -
    have "(sz + 3) AND 3 = take_bit 2 (sz + 3)" by (simp add: take_bit_eq_mask mask_eq_exp_minus_1)
    then have "unat ((sz + 3) AND 3) < 2 ^ 2" by (simp only: unsigned_take_bit_eq take_bit_nat_less_exp)
    then show ?thesis by simp
  qed
  ultimately show ?thesis by linarith
qed

lemma slabNew_ok:
  assumes inv: "heap_inv h" and new: "slabAllocatorNew base itemSz itemAlign numItems tid h = Inr (Some (a, s), h1)"
    and fits: "slab_fits itemSz itemAlign numItems" and base: "unat base + hh_real h \<le> 2 ^ 32"
  shows "slab_ok s \<and> heap_inv h1 \<and> slab_live s = {} \<and> bs_numBits (sl_bitset s) = numItems \<and>
    unat (sl_itemSz s) = up (unat itemSz) (unat itemAlign) \<and>
    (\<exists>len. (a, len) \<in> heap_live h1 \<and> unat base + a + 8 \<le> fst (slab_area s) \<and>
      fst (slab_area s) + snd (slab_area s) \<le> unat base + a + len)"
proof -
  define bsz isz where "bsz = round_up (ATOMIC_BITSET_SZ numItems) itemAlign" and "isz = round_up itemSz itemAlign"
  define bn zn where "bn = up (4 + 4 * ((unat numItems + 31) div 32)) (unat itemAlign)"
    and "zn = up (unat itemSz) (unat itemAlign)"
  have sizes: "unat bsz = bn" "unat isz = zn" "unat (8 + bsz + isz * numItems) = 8 + bn + zn * unat numItems"
    using slab_sizes [OF fits] by (simp_all add: bsz_def isz_def bn_def zn_def slab_octets_def)
  have n: "0 < unat itemSz" "0 < unat itemAlign" "unat numItems \<le> 2 ^ 31" "8 + bn + zn * unat numItems < 2 ^ 32 - 3"
    using fits by (auto simp: slab_fits_def slab_octets_def bn_def zn_def)
  from new obtain bits where alloc: "heapAlloc (8 + bsz + isz * numItems) tid h = Inr (Some a, h1)"
    and bits: "atomicBitsetInit numItems = Inr bits"
    and s: "s = \<lparr>sl_itemSz = isz, sl_dataChunks = base + word_of_nat a + 8 + bsz, sl_bitset = bits\<rparr>"
    by (auto simp: slabAllocatorNew_def Let_def res bsz_def isz_def split: option.splits)
  obtain len where len: "align4 (8 + bsz + isz * numItems) \<le> len" "heap_inv h1"
    "heap_live h1 = insert (a, len) (heap_live h)" "a + len \<le> hh_real h"
    using heap_alloc_live [OF inv alloc] by auto
  have octets: "8 + bn + zn * unat numItems \<le> len"
    using align4_ge [of "8 + bsz + isz * numItems"] len(1) n(4) by (simp add: sizes)
  obtain b where "atomicBitsetInit numItems = Inr b" "bitset_ok b" "bs_numBits b = numItems" "bits_of b = {}"
    using bitsetInit_ok [of numItems] n(3) by fastforce
  with bits have bits': "bitset_ok bits" "bs_numBits bits = numItems" "bits_of bits = {}" by auto
  have "0 < zn" using up_ge [OF n(2), of "unat itemSz"] n(1) by (simp add: zn_def)
  then have z: "0 < zn" "0 < zn * unat numItems" using fits by (simp_all add: slab_fits_def)
  have "sl_dataChunks s = word_of_nat (unat base + a + 8 + bn)"
    by (simp add: s sizes(1) [symmetric])
  then have D: "unat (sl_dataChunks s) = unat base + a + 8 + bn"
    by (rule unat_eqI) (use base len(4) octets z(2) in linarith)
  show ?thesis
    using bits' len(2,3,4) octets z(1) base n(3) D
    by (auto simp: slab_ok_def slab_live_def slab_area_def item_addr_def s sizes(2) zn_def intro!: exI [of _ len])
qed

datatype slab_op = SlabAlloc | SlabFree u32

fun slab_run :: "slab_op list \<Rightarrow> slab \<Rightarrow> slab res" where
  "slab_run [] s = Inr s"
| "slab_run (SlabAlloc # ops) s = slab_run ops (snd (slabAllocatorAlloc s))"
| "slab_run (SlabFree p # ops) s = bindE (slabAllocatorFree p s) (slab_run ops)"

primrec slab_request :: "slab_op \<Rightarrow> (unit, u32) alloc_op" where
  "slab_request SlabAlloc = Alloc ()"
| "slab_request (SlabFree p) = Other p"

lemma slab_run_slab: "slab_run ops s = slab.run (map slab_request ops) s"
  by (induction ops s rule: slab_run.induct) (auto intro!: bindE_cong split: prod.splits)

lemma slab_run_ok:
  "slab_ok s \<Longrightarrow> \<exists>s'. slab_run ops s = Inr s' \<and> slab_ok s' \<and> slab_area s' = slab_area s \<and> sl_itemSz s' = sl_itemSz s"
proof (induction ops s rule: slab_run.induct)
  case (2 ops s)
  obtain p s1 where a: "slabAllocatorAlloc s = (p, s1)" by fastforce
  from slab_alloc_cases [OF 2(2) a] have "slab_ok s1" "slab_area s1 = slab_area s" "sl_itemSz s1 = sl_itemSz s"
    by (auto intro: slab_same(2))
  then show ?case using 2(1) a by simp
next
  case (3 p ops s)
  from slab_free_live [OF 3(2), of p] obtain s1 where "slabAllocatorFree p s = Inr s1" "slab_ok s1"
    "sl_itemSz s1 = sl_itemSz s" "slab_area s1 = slab_area s" by blast
  then show ?case using 3(1) by simp
qed simp

text \<open>C23. A slab in the heap.  The items that a slab hands out, after any sequence of requests and of frees
  of any addresses at all, lie inside the block the heap gave to the slab, behind its two words, and do
  not overlap; no operation goes out of bounds.\<close>

theorem slab_items_apart:
  assumes "heap_inv h" and "slabAllocatorNew base itemSz itemAlign numItems tid h = Inr (Some (a, s), h1)"
    and "slab_fits itemSz itemAlign numItems" and "unat base + hh_real h \<le> 2 ^ 32"
  shows "\<exists>s' len. slab_run ops s = Inr s' \<and> (a, len) \<in> heap_live h1 \<and>
    (\<forall>x \<in> slab_live s'. unat itemSz \<le> snd x \<and> unat base + a + 8 \<le> fst x \<and> fst x + snd x \<le> unat base + a + len \<and>
      (\<forall>y \<in> slab_live s'. x \<noteq> y \<longrightarrow> apart x y))"
proof -
  from slabNew_ok [OF assms] obtain len where s: "slab_ok s" "slab_live s = {}"
    "unat (sl_itemSz s) = up (unat itemSz) (unat itemAlign)" "(a, len) \<in> heap_live h1"
    "unat base + a + 8 \<le> fst (slab_area s)" "fst (slab_area s) + snd (slab_area s) \<le> unat base + a + len" by blast
  from slab_run_ok [OF s(1)] obtain s' where s': "slab_run ops s = Inr s'" "slab_area s' = slab_area s"
    "sl_itemSz s' = sl_itemSz s" by blast
  have "slab.separate s" by (simp add: slab.separate_def s(2))
  then have "slab.separate s'"
    using slab.run_separate [of s "unat (sl_itemSz s)" "map slab_request ops" s'] s(1) s'(1) by (simp add: slab_run_slab)
  moreover have "unat itemSz \<le> snd x" if "x \<in> slab_live s'" for x
    using that s(3) s'(3) up_ge [of "unat itemAlign" "unat itemSz"] assms(3) by (auto simp: slab_live_def slab_fits_def)
  ultimately have "\<forall>x \<in> slab_live s'. unat itemSz \<le> snd x \<and> unat base + a + 8 \<le> fst x \<and>
      fst x + snd x \<le> unat base + a + len \<and> (\<forall>y \<in> slab_live s'. x \<noteq> y \<longrightarrow> apart x y)"
    using s(5,6) s'(2) by (force simp: slab.separate_def)
  with s(4) s'(1) show ?thesis by blast
qed

lemmas slab_eval =
  slabAllocatorNew_def round_up_def ATOMIC_BITSET_SZ_def ATOMIC_BITSET_NUM_WORDS_def atomicBitsetInit_def
  slabAllocatorAlloc_def atomicBitsetFindClearAndSet_def slabAllocatorFree_def item_of_def atomicBitsetGetNumBits_def
  atomicBitsetGetBit_def atomicBitsetClearBit_def clz_def upt_rec array_get_def

definition three_items :: slab where
  "three_items = \<lparr>sl_itemSz = 8, sl_dataChunks = 0x20000018,
                  sl_bitset = \<lparr>bs_numBits = 3, bs_words = [0xFFFFFFF8]\<rparr>\<rparr>"

lemma three_items_new:
  obtains h h1 where "heapInit 128 0 = Inr (True, h)" "heap_inv h" "hh_real h = 128"
    "slabAllocatorNew 0x20000000 6 4 3 1 h = Inr (Some (8, three_items), h1)"
proof -
  obtain h where h: "heapInit 128 0 = Inr (True, h)" by (simp add: heapInit_def Let_def hn_store_def HN_def)
  have "(128::nat) < 2 ^ MAX_HEAP_ORDER" by (simp add: MAX_HEAP_ORDER_def TIDX_HEAP_BITS_def TASK_IDX_BITS_def TIDX_HEAP_EXTRA_def)
  then have "heap_inv h" "hh_real h = 128" using heapInit_ok [OF h] heap_inv_ok by fastforce+
  moreover have "map_sum id fst (bindE (heapInit 128 0) (\<lambda>(ok, h). slabAllocatorNew 0x20000000 6 4 3 1 h)) =
      Inr (Some (8, three_items))"
    by (simp add: heap_eval slab_eval three_items_def minus_exp_eq_not_mask [symmetric])
  then have "map_sum id fst (slabAllocatorNew 0x20000000 6 4 3 1 h) = Inr (Some (8, three_items))" by (simp add: h)
  then obtain h1 where "slabAllocatorNew 0x20000000 6 4 3 1 h = Inr (Some (8, three_items), h1)" by (auto simp: res)
  ultimately show thesis using that h by blast
qed

lemma three_fit: "slab_fits 6 4 3"
  by (simp add: slab_fits_def slab_octets_def up_def)

lemma three_items_ok: "slab_ok three_items"
proof -
  obtain h h1 where h: "heap_inv h" "hh_real h = 128"
    "slabAllocatorNew 0x20000000 6 4 3 1 h = Inr (Some (8, three_items), h1)" by (rule three_items_new)
  have "unat (0x20000000 :: u32) + hh_real h \<le> 2 ^ 32" using h(2) by simp
  from slabNew_ok [OF h(1,3) three_fit this] show ?thesis by blast
qed

theorem slab_items_apart_witness:
  "\<exists>s'. slab_run [SlabAlloc, SlabAlloc, SlabFree 0x20000028, SlabFree 0x20000011, SlabFree 0x20000028, SlabAlloc]
      three_items = Inr s' \<and> bs_words (sl_bitset s') = [0xFFFFFFFE] \<and>
    (\<forall>x \<in> slab_live s'. 0x20000010 \<le> fst x \<and> (\<forall>y \<in> slab_live s'. x \<noteq> y \<longrightarrow> apart x y))"
proof -
  let ?ops = "[SlabAlloc, SlabAlloc, SlabFree 0x20000028, SlabFree 0x20000011, SlabFree 0x20000028, SlabAlloc]"
  obtain h h1 where h: "heap_inv h" "hh_real h = 128"
    "slabAllocatorNew 0x20000000 6 4 3 1 h = Inr (Some (8, three_items), h1)" by (rule three_items_new)
  have "unat (0x20000000 :: u32) + hh_real h \<le> 2 ^ 32" using h(2) by simp
  from slab_items_apart [OF h(1,3) three_fit this, of ?ops] obtain s' where s': "slab_run ?ops three_items = Inr s'"
    "\<forall>x \<in> slab_live s'. 0x20000010 \<le> fst x \<and> (\<forall>y \<in> slab_live s'. x \<noteq> y \<longrightarrow> apart x y)" by auto
  moreover have "bs_words (sl_bitset s') = [0xFFFFFFFE]" using s'(1) by (auto simp: slab_eval three_items_def)
  ultimately show ?thesis by blast
qed

text \<open>How many items are in use.\<close>

lemma slab_alloc_live:
  assumes "slab_ok s" and "slabAllocatorAlloc s = (p, s')"
  shows "card (slab_live s) \<le> unat (slabAllocatorGetNumItems s) \<and>
    (case p of
       None \<Rightarrow> card (slab_live s) = unat (slabAllocatorGetNumItems s) \<and> s' = s
     | Some w \<Rightarrow> card (slab_live s') = Suc (card (slab_live s)) \<and> unat w \<notin> fst ` slab_live s \<and>
         slab_live s' = insert (unat w, unat (sl_itemSz s)) (slab_live s))"
proof -
  have z: "0 < unat (sl_itemSz s)" using assms(1) by (simp add: slab_ok_def)
  have inj: "inj_on (\<lambda>i. (item_addr s i, unat (sl_itemSz s))) A" for A using z by (auto simp: inj_on_def item_addr_inj)
  have card: "card (slab_live s) = card (bits_of (sl_bitset s))" by (simp add: slab_live_def card_image inj)
  have fin: "finite (bits_of b)" for b by (simp add: bits_of_def)
  have le: "card (bits_of (sl_bitset s)) \<le> unat (bs_numBits (sl_bitset s))"
    using card_mono [of "{..<unat (bs_numBits (sl_bitset s))}" "bits_of (sl_bitset s)"] bits_of_less by fastforce
  from slab_alloc_cases [OF assms] have same: "sl_dataChunks s' = sl_dataChunks s" "sl_itemSz s' = sl_itemSz s"
    "bs_numBits (sl_bitset s') = bs_numBits (sl_bitset s)" by auto
  show ?thesis
  proof (cases p)
    case None
    then show ?thesis using slab_alloc_cases [OF assms] card le
      by (simp add: slabAllocatorGetNumItems_def atomicBitsetGetNumBits_def)
  next
    case (Some w)
    then obtain i where i: "i \<notin> bits_of (sl_bitset s)" "unat w = item_addr s i"
      "bits_of (sl_bitset s') = insert i (bits_of (sl_bitset s))" using slab_alloc_cases [OF assms] by auto
    have live: "slab_live s' = insert (unat w, unat (sl_itemSz s)) (slab_live s)"
      using i by (subst slab_same(3) [OF same]) (simp add: slab_live_def)
    have "unat w \<notin> fst ` slab_live s" using i z by (auto simp: slab_live_def item_addr_inj)
    moreover from this have "card (slab_live s') = Suc (card (slab_live s))"
      unfolding live by (subst card_insert_disjoint) (force simp: slab_live_def fin)+
    ultimately show ?thesis using live Some card le
      by (simp add: slabAllocatorGetNumItems_def atomicBitsetGetNumBits_def)
  qed
qed

text \<open>C24. Requests of a slab.  A request fails exactly when every item is taken, and then changes nothing;
  otherwise it is given an item that nobody has.\<close>

theorem slab_full:
  assumes "slab_ok s" and "slabAllocatorAlloc s = (p, s')"
  shows "card (slab_live s) \<le> unat (slabAllocatorGetNumItems s) \<and>
    (case p of
       None \<Rightarrow> card (slab_live s) = unat (slabAllocatorGetNumItems s) \<and> s' = s
     | Some w \<Rightarrow> card (slab_live s') = Suc (card (slab_live s)) \<and> unat w \<notin> fst ` slab_live s \<and>
         slab_live s' = insert (unat w, unat (sl_itemSz s)) (slab_live s))"
  by (rule slab_alloc_live [OF assms])

text \<open>Items by number.  The number of an item in use and its address give each other back.\<close>

theorem slab_index_roundtrip:
  assumes "slab_ok s"
  shows "slabAllocatorGetNth s idx = Inr (Some p) \<longleftrightarrow> idx \<noteq> - 1 \<and> slabAllocatorGetIndex s p = Inr idx"
proof -
  let ?n = "unat (bs_numBits (sl_bitset s))"
  have ok: "bitset_ok (sl_bitset s)" "?n \<le> 2 ^ 31" "0 < unat (sl_itemSz s)" using assms by (auto simp: slab_ok_def)
  have nth: "slabAllocatorGetNth s idx = Inr (Some p) \<longleftrightarrow>
      unat idx \<in> bits_of (sl_bitset s) \<and> unat p = item_addr s (unat idx)"
  proof (cases "unat idx \<in> bits_of (sl_bitset s)")
    case True
    then have "unat (sl_dataChunks s + sl_itemSz s * idx) = item_addr s (unat idx)"
      using item_word [OF assms bits_of_less, of "unat idx"] by simp
    then show ?thesis using True by (auto simp: slabAllocatorGetNth_def getBit_ok [OF ok(1)] word_unat_eq_iff)
  qed (simp add: slabAllocatorGetNth_def getBit_ok [OF ok(1)])
  have small: "i < 2 ^ 31" if "i \<in> bits_of (sl_bitset s)" for i using bits_of_less [OF that] ok(2) by simp
  from item_of_ok [OF assms, of p] show ?thesis
  proof (elim disjE conjE bexE)
    fix i
    assume i: "i \<in> bits_of (sl_bitset s)" "unat p = item_addr s i" "item_of s p = Inr (Some (word_of_nat i))"
    have u: "unat (word_of_nat i :: u32) = i" using small [OF i(1)] by (simp add: unat_of_nat take_bit_nat_eq_self)
    moreover have "unat (- 1 :: u32) = 2 ^ 32 - 1" by (simp add: unsigned_minus_1_eq_mask mask_eq_exp_minus_1)
    ultimately have "word_of_nat i \<noteq> (- 1 :: u32)" using small [OF i(1)] u by auto
    then show ?thesis using i u ok(3) by (auto simp: nth slabAllocatorGetIndex_def item_addr_inj)
  next
    assume "\<forall>i \<in> bits_of (sl_bitset s). unat p \<noteq> item_addr s i" "item_of s p = Inr None"
    then show ?thesis by (auto simp: nth slabAllocatorGetIndex_def)
  qed
qed

theorem slab_full_witness:
  "slab_ok three_items \<and> slabAllocatorAlloc three_items = (Some 0x20000028, three_items
     \<lparr>sl_bitset := \<lparr>bs_numBits = 3, bs_words = [0xFFFFFFFC]\<rparr>\<rparr>) \<and> (0x20000028 :: nat) \<notin> fst ` slab_live three_items"
proof -
  let ?s = "three_items\<lparr>sl_bitset := \<lparr>bs_numBits = 3, bs_words = [0xFFFFFFFC]\<rparr>\<rparr>"
  have "slabAllocatorAlloc three_items = (Some 0x20000028, ?s)" by (simp add: slab_eval three_items_def)
  from slab_full [OF three_items_ok this] three_items_ok this show ?thesis by simp
qed

theorem slab_index_roundtrip_witness:
  "slabAllocatorGetNth (snd (slabAllocatorAlloc three_items)) 2 = Inr (Some 0x20000028) \<and>
   slabAllocatorGetIndex (snd (slabAllocatorAlloc three_items)) 0x20000028 = Inr 2"
proof -
  obtain q s1 where a: "slabAllocatorAlloc three_items = (q, s1)" by fastforce
  then have "slab_ok s1" using slab_alloc_cases [OF three_items_ok a] by blast
  moreover have "slabAllocatorGetNth s1 2 = Inr (Some 0x20000028)"
    using a by (auto simp: slab_eval slabAllocatorGetNth_def three_items_def)
  ultimately show ?thesis using slab_index_roundtrip [where s = s1 and idx = 2 and p = "0x20000028"] a by simp
qed

end
