(* ===== verification/Hub_Links.thy ===== *)
theory Hub_Links
  imports Hw_Prelude
begin

text \<open>
  Lists of records linked by index, as the host queue and the task pool of the context hub keep them: a
  successor function, a predecessor function, and the list of the indices they link.
\<close>

section \<open>Linked one way\<close>

definition hd_or :: "nat list \<Rightarrow> nat \<Rightarrow> nat" where
  "hd_or xs n = (case xs of [] \<Rightarrow> n | x # _ \<Rightarrow> x)"

definition last_or :: "nat list \<Rightarrow> nat \<Rightarrow> nat" where
  "last_or xs n = (if xs = [] then n else last xs)"

lemma hd_or_simps [simp]: "hd_or [] n = n" "hd_or (x # xs) n = x" "hd_or (xs @ ys) n = hd_or xs (hd_or ys n)"
  by (auto simp: hd_or_def split: list.split)

lemma hd_or_in: "xs \<noteq> [] \<Longrightarrow> hd_or xs n \<in> set xs"
  by (cases xs) auto

lemma last_or_simps [simp]: "last_or [] n = n" "last_or (xs @ [x]) n = x" "last_or (x # xs) n = last_or xs x"
  by (auto simp: last_or_def)

text \<open>Each index of the list leads to the next one, the last to \<open>n\<close>.\<close>

fun links :: "(nat \<Rightarrow> nat) \<Rightarrow> nat list \<Rightarrow> nat \<Rightarrow> bool" where
  "links nx [] n = True"
| "links nx (x # xs) n = (nx x = hd_or xs n \<and> links nx xs n)"

lemma links_append: "links nx (xs @ ys) n \<longleftrightarrow> links nx xs (hd_or ys n) \<and> links nx ys n"
  by (induction xs) auto

lemma links_cong: "(\<And>x. x \<in> set xs \<Longrightarrow> nx' x = nx x) \<Longrightarrow> links nx' xs n = links nx xs n"
  by (induction xs) auto

lemma links_upd: "i \<notin> set xs \<Longrightarrow> links (nx(i := v)) xs n = links nx xs n"
  by (rule links_cong) auto

lemma links_last: "links nx (xs @ [x]) n \<Longrightarrow> x \<notin> set xs \<Longrightarrow> links (nx(x := m)) (xs @ [x]) m"
  by (simp add: links_append links_upd)

section \<open>Linked both ways\<close>

text \<open>The indices are linked both ways, behind \<open>p\<close> and before \<open>n\<close>.\<close>

fun dlinks :: "(nat \<Rightarrow> nat) \<Rightarrow> (nat \<Rightarrow> nat) \<Rightarrow> nat \<Rightarrow> nat list \<Rightarrow> nat \<Rightarrow> bool" where
  "dlinks nx pv p [] n = True"
| "dlinks nx pv p (x # xs) n = (pv x = p \<and> nx x = hd_or xs n \<and> dlinks nx pv x xs n)"

lemma dlinks_append: "dlinks nx pv p (xs @ ys) n \<longleftrightarrow> dlinks nx pv p xs (hd_or ys n) \<and> dlinks nx pv (last_or xs p) ys n"
  by (induction xs arbitrary: p) auto

lemma dlinks_cong:
  "(\<And>x. x \<in> set xs \<Longrightarrow> nx' x = nx x \<and> pv' x = pv x) \<Longrightarrow> dlinks nx' pv' p xs n = dlinks nx pv p xs n"
  by (induction xs arbitrary: p) auto

lemma dlinks_upd:
  "i \<notin> set xs \<Longrightarrow> dlinks (nx(i := v)) pv p xs n = dlinks nx pv p xs n"
  "i \<notin> set xs \<Longrightarrow> dlinks nx (pv(i := v)) p xs n = dlinks nx pv p xs n"
  by (induction xs arbitrary: p) auto

lemma dlinks_next:
  "dlinks nx pv p (xs @ [x]) n \<Longrightarrow> x \<notin> set xs \<Longrightarrow> dlinks (nx(x := m)) pv p (xs @ [x]) m"
  by (simp add: dlinks_append dlinks_upd)

lemma dlinks_prev:
  "dlinks nx pv p (x # xs) n \<Longrightarrow> x \<notin> set xs \<Longrightarrow> dlinks nx (pv(x := q)) q (x # xs) n"
  by (simp add: dlinks_upd)

end
