(* ===== verification/Hub_SimpleQ.thy ===== *)
theory Hub_SimpleQ
  imports Hub_Slab Hub_Links
begin

text \<open>
  The queue of the context hub's host interface (\<open>contexthub/firmware/src/simpleQ.c\<close>): entries of one size in
  one block of the heap, linked by index, with a list of the free ones, and its refinement of a list.
  An entry is an element of a list, its index the place there; what the callback \<open>discardCbk\<close> answers
  is a parameter, and what it is shown is kept as a trace.
\<close>

section \<open>The queue\<close>

definition SIMPLE_QUEUE_MAX_ELEMENTS :: nat where
  "SIMPLE_QUEUE_MAX_ELEMENTS = 0x0FFFFFFE"

definition SIMPLE_QUEUE_IDX_NONE :: nat where
  "SIMPLE_QUEUE_IDX_NONE = SIMPLE_QUEUE_MAX_ELEMENTS + 1"

record sq_entry =
  se_nextIdx :: nat
  se_discardable :: bool
  se_data :: bytes

record simple_queue =
  sq_head :: nat
  sq_tail :: nat
  sq_num :: nat
  sq_freeHead :: nat
  sq_entrySz :: u32
  sq_data :: "sq_entry list"
  sq_discarded :: "(bytes \<times> bool) list"

type_synonym discard_cbk = "bytes \<Rightarrow> bool \<Rightarrow> bool"

definition simpleQueueGetNth :: "simple_queue \<Rightarrow> nat \<Rightarrow> sq_entry res" where
  "simpleQueueGetNth q n = array_get (sq_data q) n"

definition sq_update :: "nat \<Rightarrow> (sq_entry \<Rightarrow> sq_entry) \<Rightarrow> simple_queue \<Rightarrow> simple_queue res" where
  "sq_update n f q = bindE (simpleQueueGetNth q n) (\<lambda>e. Inr (q\<lparr>sq_data := (sq_data q)[n := f e]\<rparr>))"

text \<open>The list of the free entries; the argument counts the rounds left.\<close>

fun init_loop :: "nat \<Rightarrow> nat \<Rightarrow> simple_queue \<Rightarrow> simple_queue res" where
  "init_loop 0 i q = Inr q"
| "init_loop (Suc k) i q = bindE (sq_update i (se_nextIdx_update (\<lambda>_. i + 1)) q) (init_loop k (i + 1))"

text \<open>
  The header takes 24 octets; as many entries exist as fit in the block that was asked for.  An entry
  has a word before its data.
\<close>

definition simpleQueueAlloc :: "u32 \<Rightarrow> u32 \<Rightarrow> nat \<Rightarrow> hub_heap \<Rightarrow> ((nat \<times> simple_queue) option \<times> hub_heap) res" where
  "simpleQueueAlloc numEntries entrySz tid h =
     (let sz = 24 + (4 + entrySz) * numEntries
      in if unat numEntries > SIMPLE_QUEUE_MAX_ELEMENTS then Inr (None, h)
         else bindE (heapAlloc sz tid h) (\<lambda>(p, h1).
           case p of
             None \<Rightarrow> Inr (None, h1)
           | Some a \<Rightarrow>
               if unat sz < 24 then Inl OutOfBounds
               else
                 let esz = entrySz + 4;
                     zero = \<lparr>se_nextIdx = 0, se_discardable = False, se_data = replicate (unat (esz - 4)) 0\<rparr>;
                     q = \<lparr>sq_head = SIMPLE_QUEUE_IDX_NONE, sq_tail = SIMPLE_QUEUE_IDX_NONE, sq_num = unat numEntries,
                          sq_freeHead = 0, sq_entrySz = esz, sq_data = replicate ((unat sz - 24) div unat esz) zero,
                          sq_discarded = []\<rparr>
                 in bindE (init_loop (unat (numEntries - 1)) 0 q) (\<lambda>q1.
                    bindE (sq_update (unat (numEntries - 1)) (se_nextIdx_update (\<lambda>_. SIMPLE_QUEUE_IDX_NONE)) q1) (\<lambda>q2.
                      Inr (Some (a, q2), h1)))))"

definition sq_fuel :: "simple_queue \<Rightarrow> nat" where
  "sq_fuel q = Suc (length (sq_data q))"

fun destroy_loop :: "nat \<Rightarrow> nat \<Rightarrow> simple_queue \<Rightarrow> simple_queue res" where
  "destroy_loop 0 i q = Inl Hang"
| "destroy_loop (Suc n) i q =
     (if i = SIMPLE_QUEUE_IDX_NONE then Inr q
      else bindE (simpleQueueGetNth q i) (\<lambda>cur.
             destroy_loop n (se_nextIdx cur) (q\<lparr>sq_discarded := sq_discarded q @ [(se_data cur, True)]\<rparr>)))"

definition simpleQueueDestroy :: "nat \<Rightarrow> simple_queue \<Rightarrow> hub_heap \<Rightarrow> ((bytes \<times> bool) list \<times> hub_heap) res" where
  "simpleQueueDestroy ptr q h =
     bindE (destroy_loop (sq_fuel q) (sq_head q) q) (\<lambda>q1.
     bindE (heapFree (Some ptr) h) (\<lambda>h1. Inr (sq_discarded q1, h1)))"

definition simpleQueueDequeue :: "simple_queue option \<Rightarrow> (bytes option \<times> simple_queue option) res" where
  "simpleQueueDequeue qp =
     (case qp of
        None \<Rightarrow> Inr (None, None)
      | Some q \<Rightarrow>
          if sq_head q = SIMPLE_QUEUE_IDX_NONE then Inr (None, Some q)
          else
            let head = sq_head q
            in bindE (simpleQueueGetNth q head) (\<lambda>e.
               let q1 = q\<lparr>sq_head := se_nextIdx e, sq_tail := if sq_tail q = head then SIMPLE_QUEUE_IDX_NONE else sq_tail q\<rparr>
               in bindE (sq_update head (se_nextIdx_update (\<lambda>_. sq_freeHead q1)) q1) (\<lambda>q2.
                  Inr (Some (take (unat (sq_entrySz q - 4)) (se_data e)), Some (q2\<lparr>sq_freeHead := head\<rparr>)))))"

text \<open>Taking the entry \<open>cur\<close> at \<open>idx\<close> out of the list; \<open>prev\<close> is the one before.\<close>

definition sq_unlink :: "nat \<Rightarrow> nat \<Rightarrow> sq_entry \<Rightarrow> simple_queue \<Rightarrow> simple_queue res" where
  "sq_unlink prev idx cur q =
     bindE (if prev = SIMPLE_QUEUE_IDX_NONE then Inr (q\<lparr>sq_head := se_nextIdx cur\<rparr>)
            else sq_update prev (se_nextIdx_update (\<lambda>_. se_nextIdx cur)) q) (\<lambda>q1.
       Inr (q1\<lparr>sq_tail := if sq_tail q1 = idx then prev else sq_tail q1\<rparr>))"

text \<open>Looking for an entry that may be discarded and that the callback gives up; \<open>prev\<close> is the one before.\<close>

fun discard_loop :: "discard_cbk \<Rightarrow> nat \<Rightarrow> nat \<Rightarrow> nat \<Rightarrow> simple_queue \<Rightarrow> (nat option \<times> simple_queue) res" where
  "discard_loop cbk 0 prev idx q = Inl Hang"
| "discard_loop cbk (Suc n) prev idx q =
     (if idx = SIMPLE_QUEUE_IDX_NONE then Inr (None, q)
      else bindE (simpleQueueGetNth q idx) (\<lambda>cur.
        if \<not> se_discardable cur then discard_loop cbk n idx (se_nextIdx cur) q
        else
          let q0 = q\<lparr>sq_discarded := sq_discarded q @ [(se_data cur, False)]\<rparr>
          in if cbk (se_data cur) False then
               bindE (sq_unlink prev idx cur q0) (\<lambda>q1. Inr (Some idx, q1))
             else discard_loop cbk n idx (se_nextIdx cur) q0))"

definition simpleQueueAllocWithDiscard :: "discard_cbk \<Rightarrow> simple_queue \<Rightarrow> (nat option \<times> simple_queue) res" where
  "simpleQueueAllocWithDiscard cbk q = discard_loop cbk (sq_fuel q) SIMPLE_QUEUE_IDX_NONE (sq_head q) q"

text \<open>An entry for new data, from the free list or from a victim.\<close>

definition sq_get_entry :: "discard_cbk \<Rightarrow> simple_queue \<Rightarrow> (nat option \<times> simple_queue) res" where
  "sq_get_entry cbk q =
     (if sq_freeHead q \<noteq> SIMPLE_QUEUE_IDX_NONE then
        bindE (simpleQueueGetNth q (sq_freeHead q)) (\<lambda>e. Inr (Some (sq_freeHead q), q\<lparr>sq_freeHead := se_nextIdx e\<rparr>))
      else simpleQueueAllocWithDiscard cbk q)"

definition sq_link_fill :: "nat \<Rightarrow> bytes \<Rightarrow> bool \<Rightarrow> simple_queue \<Rightarrow> simple_queue res" where
  "sq_link_fill e data possiblyDiscardable q =
     bindE (sq_update e (se_nextIdx_update (\<lambda>_. SIMPLE_QUEUE_IDX_NONE)) q) (\<lambda>q1.
     bindE (if sq_head q1 = SIMPLE_QUEUE_IDX_NONE then Inr (q1\<lparr>sq_head := e\<rparr>)
            else sq_update (sq_tail q1) (se_nextIdx_update (\<lambda>_. e)) q1) (\<lambda>q2.
     sq_update e (\<lambda>r. r\<lparr>se_data := blit (se_data r) 0 data, se_discardable := possiblyDiscardable\<rparr>) (q2\<lparr>sq_tail := e\<rparr>)))"

text \<open>The length is signed and the comparison is not; the caller's array has the elements of \<open>data\<close>.\<close>

definition simpleQueueEnqueue :: "discard_cbk \<Rightarrow> simple_queue \<Rightarrow> bytes \<Rightarrow> int \<Rightarrow> bool \<Rightarrow> (bool \<times> simple_queue) res" where
  "simpleQueueEnqueue cbk q data len possiblyDiscardable =
     (if (word_of_int len :: u32) > sq_entrySz q - 4 then Inr (False, q)
      else bindE (sq_get_entry cbk q) (\<lambda>(e, q1).
        case e of
          None \<Rightarrow> Inr (False, q1)
        | Some i \<Rightarrow>
            if nat len > length data then Inl OutOfBounds
            else bindE (sq_link_fill i (take (nat len) data) possiblyDiscardable q1) (\<lambda>q2. Inr (True, q2))))"

section \<open>What the queue holds\<close>

definition sq_nx :: "simple_queue \<Rightarrow> nat \<Rightarrow> nat" where
  "sq_nx q i = se_nextIdx (sq_data q ! i)"

definition sq_item :: "simple_queue \<Rightarrow> nat \<Rightarrow> bytes \<times> bool" where
  "sq_item q i = (se_data (sq_data q ! i), se_discardable (sq_data q ! i))"

text \<open>
  \<open>sq_shape q zs xs fs L\<close>: of the entries, \<open>xs\<close> are queued and hold \<open>L\<close>, \<open>fs\<close> are free, and \<open>zs\<close> are in neither list.
\<close>

definition sq_shape :: "simple_queue \<Rightarrow> nat list \<Rightarrow> nat list \<Rightarrow> nat list \<Rightarrow> (bytes \<times> bool) list \<Rightarrow> bool" where
  "sq_shape q zs xs fs L \<longleftrightarrow>
     links (sq_nx q) xs SIMPLE_QUEUE_IDX_NONE \<and> sq_head q = hd_or xs SIMPLE_QUEUE_IDX_NONE \<and>
     sq_tail q = last_or xs SIMPLE_QUEUE_IDX_NONE \<and>
     links (sq_nx q) fs SIMPLE_QUEUE_IDX_NONE \<and> sq_freeHead q = hd_or fs SIMPLE_QUEUE_IDX_NONE \<and>
     distinct (zs @ xs @ fs) \<and> set (zs @ xs @ fs) = {..<sq_num q} \<and> length (sq_data q) = sq_num q \<and>
     sq_num q \<le> SIMPLE_QUEUE_MAX_ELEMENTS \<and> (\<forall>e \<in> set (sq_data q). length (se_data e) = unat (sq_entrySz q - 4)) \<and>
     L = map (sq_item q) xs"

lemma sq_shape_index:
  assumes "sq_shape q zs xs fs L" and "i \<in> set (zs @ xs @ fs)"
  shows "i < length (sq_data q)" and "i \<noteq> SIMPLE_QUEUE_IDX_NONE"
  using assms by (auto simp: sq_shape_def SIMPLE_QUEUE_IDX_NONE_def)

lemma sq_shape_capacity:
  assumes "sq_shape q zs xs fs L"
  shows "length zs + length L + length fs = sq_num q"
proof -
  have "distinct (zs @ xs @ fs)" "set (zs @ xs @ fs) = {..<sq_num q}" "length L = length xs"
    using assms by (simp_all add: sq_shape_def)
  with distinct_card [OF this(1)] show ?thesis by simp
qed

lemma sq_fields [simp]:
  "sq_nx (q\<lparr>sq_head := a\<rparr>) = sq_nx q" "sq_nx (q\<lparr>sq_tail := a\<rparr>) = sq_nx q"
  "sq_nx (q\<lparr>sq_freeHead := a\<rparr>) = sq_nx q" "sq_nx (q\<lparr>sq_discarded := t\<rparr>) = sq_nx q"
  "sq_item (q\<lparr>sq_head := a\<rparr>) = sq_item q" "sq_item (q\<lparr>sq_tail := a\<rparr>) = sq_item q"
  "sq_item (q\<lparr>sq_freeHead := a\<rparr>) = sq_item q" "sq_item (q\<lparr>sq_discarded := t\<rparr>) = sq_item q"
  by (simp_all add: sq_nx_def sq_item_def fun_eq_iff)

lemma sq_shape_trace [simp]: "sq_shape (q\<lparr>sq_discarded := t\<rparr>) zs xs fs L = sq_shape q zs xs fs L"
  by (simp add: sq_shape_def)

text \<open>Writing an entry.\<close>

lemma sq_update_ok: "i < length (sq_data q) \<Longrightarrow>
  sq_update i f q = Inr (q\<lparr>sq_data := (sq_data q)[i := f (sq_data q ! i)]\<rparr>)"
  by (simp add: sq_update_def simpleQueueGetNth_def)

lemma sq_nx_update: "i < length (sq_data q) \<Longrightarrow>
  sq_nx (q\<lparr>sq_data := (sq_data q)[i := e]\<rparr>) = (sq_nx q)(i := se_nextIdx e)"
  by (auto simp: sq_nx_def fun_eq_iff nth_list_update)

lemma sq_item_update: "i < length (sq_data q) \<Longrightarrow>
  sq_item (q\<lparr>sq_data := (sq_data q)[i := e]\<rparr>) = (sq_item q)(i := (se_data e, se_discardable e))"
  by (auto simp: sq_item_def fun_eq_iff nth_list_update)

lemma map_upd_other: "i \<notin> set xs \<Longrightarrow> map (f(i := v)) xs = map f xs"
  by auto

lemma sq_data_update:
  assumes "\<forall>e \<in> set es. length (se_data e) = n" and "length (se_data e') = n"
  shows "\<forall>e \<in> set (es[i := e']). length (se_data e) = n"
  using assms set_update_subset_insert [of es i e'] by blast

section \<open>The operations\<close>

text \<open>The entry to which the callback agrees, with what is queued before and behind it.\<close>

fun sq_victim :: "discard_cbk \<Rightarrow> (bytes \<times> bool) list \<Rightarrow> ((bytes \<times> bool) list \<times> (bytes \<times> bool) list) option" where
  "sq_victim cbk [] = None"
| "sq_victim cbk ((d, b) # L) =
     (if b \<and> cbk d False then Some ([], L) else map_option (\<lambda>(us, vs). ((d, b) # us, vs)) (sq_victim cbk L))"

lemma take_free:
  assumes "sq_shape q [] xs (f # fs) L"
  shows "sq_shape (q\<lparr>sq_freeHead := sq_nx q f\<rparr>) [f] xs fs L"
  using assms by (auto simp: sq_shape_def)

lemma unlink_entry:
  assumes sh: "sq_shape q [] (us @ i # vs) fs (U @ x # V)" and len: "length us = length U"
    and prev: "prev = last_or us SIMPLE_QUEUE_IDX_NONE"
  shows "\<exists>q'. sq_unlink prev i (sq_data q ! i) q = Inr q' \<and> sq_shape q' [i] (us @ vs) fs (U @ V) \<and>
    sq_discarded q' = sq_discarded q \<and> sq_num q' = sq_num q \<and> sq_entrySz q' = sq_entrySz q"
proof -
  let ?N = SIMPLE_QUEUE_IDX_NONE
  have lx: "links (sq_nx q) us i" "sq_nx q i = hd_or vs ?N" "links (sq_nx q) vs ?N"
    and ends: "sq_head q = hd_or us i" "sq_tail q = last_or (us @ i # vs) ?N"
    and d: "distinct (us @ i # vs @ fs)" and items: "U = map (sq_item q) us" "V = map (sq_item q) vs"
    using sh len by (auto simp: sq_shape_def links_append)
  have tail: "(if last_or (us @ i # vs) ?N = i then last_or us ?N else last_or (us @ i # vs) ?N) = last_or (us @ vs) ?N"
    using d by (cases vs rule: rev_cases) (auto simp: last_or_def)
  show ?thesis
  proof (cases us rule: rev_cases)
    case Nil
    let ?q' = "q\<lparr>sq_head := sq_nx q i, sq_tail := if sq_tail q = i then prev else sq_tail q\<rparr>"
    have "sq_unlink prev i (sq_data q ! i) q = Inr ?q'" using prev Nil by (simp add: sq_unlink_def sq_nx_def)
    moreover have "sq_shape ?q' [i] (us @ vs) fs (U @ V)" using Nil sh lx ends d items tail prev by (auto simp: sq_shape_def)
    ultimately show ?thesis by simp
  next
    case (snoc ws p)
    have p: "p < length (sq_data q)" "p \<noteq> ?N" using sq_shape_index [OF sh, of p] snoc by auto
    define q1 where "q1 = q\<lparr>sq_data := (sq_data q)[p := (sq_data q ! p)\<lparr>se_nextIdx := sq_nx q i\<rparr>]\<rparr>"
    have fields: "sq_head q1 = sq_head q" "sq_tail q1 = sq_tail q" "sq_freeHead q1 = sq_freeHead q" "sq_num q1 = sq_num q"
      "sq_entrySz q1 = sq_entrySz q" "sq_discarded q1 = sq_discarded q" "length (sq_data q1) = length (sq_data q)"
      by (simp_all add: q1_def)
    have nx: "sq_nx q1 = (sq_nx q)(p := hd_or vs ?N)" using p(1) lx(2) by (simp add: q1_def sq_nx_update)
    have it: "sq_item q1 = sq_item q" using p(1) by (simp add: q1_def sq_item_update) (simp add: sq_item_def fun_eq_iff)
    have "p \<notin> set ws" "p \<notin> set vs" "p \<notin> set fs" using d snoc by auto
    then have l: "links (sq_nx q1) us (hd_or vs ?N)" "links (sq_nx q1) vs ?N" "links (sq_nx q1) fs ?N"
      using lx sh links_last [of "sq_nx q" ws p i "hd_or vs ?N"] snoc by (simp_all add: nx links_upd sq_shape_def)
    have z: "\<forall>e \<in> set (sq_data q1). length (se_data e) = unat (sq_entrySz q - 4)"
    proof -
      have "\<forall>e \<in> set (sq_data q). length (se_data e) = unat (sq_entrySz q - 4)" using sh by (simp add: sq_shape_def)
      from sq_data_update [OF this, of "(sq_data q ! p)\<lparr>se_nextIdx := sq_nx q i\<rparr>" p] this p(1) show ?thesis
        by (simp add: q1_def)
    qed
    have h: "hd_or us i = hd_or us (hd_or vs ?N)" using snoc by (simp add: hd_or_def split: list.split)
    have "sq_shape (q1\<lparr>sq_tail := if sq_tail q1 = i then prev else sq_tail q1\<rparr>) [i] (us @ vs) fs (U @ V)"
      using sh l z ends tail items d prev by (auto simp: sq_shape_def links_append fields it h)
    moreover have "sq_update p (se_nextIdx_update (\<lambda>_. sq_nx q i)) q = Inr q1" using p(1) by (simp add: sq_update_ok q1_def)
    then have "sq_unlink prev i (sq_data q ! i) q = Inr (q1\<lparr>sq_tail := if sq_tail q1 = i then prev else sq_tail q1\<rparr>)"
      using prev p(2) snoc by (simp add: sq_unlink_def sq_nx_def)
    ultimately show ?thesis using fields by simp
  qed
qed

lemma discard_loop_ok:
  assumes "sq_shape q [] (us @ vs) fs (U @ V)" and "length us = length U" and "length vs < n"
  shows "\<exists>r q' t. discard_loop cbk n (last_or us SIMPLE_QUEUE_IDX_NONE) (hd_or vs SIMPLE_QUEUE_IDX_NONE) q = Inr (r, q') \<and>
    sq_discarded q' = sq_discarded q @ t \<and> sq_num q' = sq_num q \<and> sq_entrySz q' = sq_entrySz q \<and>
    (case sq_victim cbk V of
       None \<Rightarrow> r = None \<and> sq_shape q' [] (us @ vs) fs (U @ V)
     | Some (A, B) \<Rightarrow> \<exists>i xs. r = Some i \<and> sq_shape q' [i] xs fs (U @ A @ B))"
  using assms
proof (induction vs arbitrary: us U V q n)
  case Nil
  have "length (U @ V) = length us" using Nil(1) by (simp add: sq_shape_def)
  then have "V = []" using Nil(2) by simp
  then show ?case using Nil by (cases n) auto
next
  case (Cons i vs)
  obtain k where k: "n = Suc k" "length vs < k" using Cons.prems(3) by (cases n) auto
  have i: "i < length (sq_data q)" "i \<noteq> SIMPLE_QUEUE_IDX_NONE" using sq_shape_index [OF Cons.prems(1), of i] by auto
  have "V = map (sq_item q) (i # vs)" using Cons.prems(1,2) by (simp add: sq_shape_def)
  then obtain d b W where V: "V = (d, b) # W" "sq_item q i = (d, b)" by (metis list.simps(9) surj_pair)
  have nx: "se_nextIdx (sq_data q ! i) = hd_or vs SIMPLE_QUEUE_IDX_NONE"
    using Cons.prems(1) by (simp add: sq_shape_def links_append sq_nx_def)
  have cur: "simpleQueueGetNth q i = Inr (sq_data q ! i)" "se_data (sq_data q ! i) = d" "se_discardable (sq_data q ! i) = b"
    using i(1) V(2) by (simp_all add: simpleQueueGetNth_def sq_item_def)
  have skip: ?case if step: "discard_loop cbk n (last_or us SIMPLE_QUEUE_IDX_NONE) i q =
      discard_loop cbk k i (hd_or vs SIMPLE_QUEUE_IDX_NONE) (q\<lparr>sq_discarded := sq_discarded q @ t\<rparr>)" "\<not> (b \<and> cbk d False)" for t
  proof -
    have "sq_shape (q\<lparr>sq_discarded := sq_discarded q @ t\<rparr>) [] ((us @ [i]) @ vs) fs ((U @ [(d, b)]) @ W)"
      using Cons.prems(1) V(1) by simp
    from Cons.IH [OF this _ k(2)] Cons.prems(2) show ?thesis using step V(1) by (fastforce split: option.splits)
  qed
  show ?case
  proof (cases b)
    case False
    then show ?thesis using skip [of "[]"] k(1) i(2) cur nx by simp
  next
    case b: True
    show ?thesis
    proof (cases "cbk d False")
      case False
      then show ?thesis using skip [of "[(d, False)]"] k(1) i(2) cur nx b by simp
    next
      case True
      let ?q0 = "q\<lparr>sq_discarded := sq_discarded q @ [(d, False)]\<rparr>"
      have "sq_shape ?q0 [] (us @ i # vs) fs (U @ (d, b) # W)" using Cons.prems(1) V(1) by simp
      from unlink_entry [OF this Cons.prems(2) refl] obtain q' where
        q': "sq_unlink (last_or us SIMPLE_QUEUE_IDX_NONE) i (sq_data q ! i) ?q0 = Inr q'" "sq_shape q' [i] (us @ vs) fs (U @ W)"
        "sq_discarded q' = sq_discarded q @ [(d, False)]" "sq_num q' = sq_num q" "sq_entrySz q' = sq_entrySz q" by auto
      have "discard_loop cbk n (last_or us SIMPLE_QUEUE_IDX_NONE) i q = Inr (Some i, q')"
        using b True k(1) i(2) cur q'(1) by simp
      then show ?thesis using b True V(1) q'(2-5) by (simp, blast)
    qed
  qed
qed

lemma get_entry_ok:
  assumes sh: "sq_shape q [] xs fs L"
  shows "\<exists>r q' t. sq_get_entry cbk q = Inr (r, q') \<and> sq_discarded q' = sq_discarded q @ t \<and> sq_num q' = sq_num q \<and>
    sq_entrySz q' = sq_entrySz q \<and>
    (if length L < sq_num q then \<exists>i ys gs. r = Some i \<and> sq_shape q' [i] ys gs L
     else case sq_victim cbk L of
            None \<Rightarrow> r = None \<and> sq_shape q' [] xs fs L
          | Some (A, B) \<Rightarrow> \<exists>i ys gs. r = Some i \<and> sq_shape q' [i] ys gs (A @ B))"
proof (cases fs)
  case (Cons f gs)
  then have f: "f < length (sq_data q)" "f \<noteq> SIMPLE_QUEUE_IDX_NONE" "sq_freeHead q = f"
    using sq_shape_index [OF sh, of f] sh by (auto simp: sq_shape_def)
  have "sq_shape (q\<lparr>sq_freeHead := sq_nx q f\<rparr>) [f] xs gs L" using take_free sh Cons by simp
  moreover have "length L < sq_num q" using sq_shape_capacity [OF sh] Cons by simp
  ultimately show ?thesis using f
    by (intro exI [of _ "Some f"] exI [of _ "q\<lparr>sq_freeHead := sq_nx q f\<rparr>"] exI [of _ "[]"])
      (auto simp: sq_get_entry_def simpleQueueGetNth_def sq_nx_def)
next
  case Nil
  then have full: "\<not> length L < sq_num q" "sq_freeHead q = SIMPLE_QUEUE_IDX_NONE"
    using sq_shape_capacity [OF sh] sh by (simp_all add: sq_shape_def)
  have "length xs < sq_fuel q" using sq_shape_capacity [OF sh] sh by (simp add: sq_fuel_def sq_shape_def)
  from discard_loop_ok [of q "[]" xs fs "[]" L "sq_fuel q" cbk, unfolded append_Nil last_or_simps, OF sh _ this, simplified] obtain r q' t where
    "discard_loop cbk (sq_fuel q) SIMPLE_QUEUE_IDX_NONE (hd_or xs SIMPLE_QUEUE_IDX_NONE) q = Inr (r, q')"
    "sq_discarded q' = sq_discarded q @ t" "sq_num q' = sq_num q" "sq_entrySz q' = sq_entrySz q"
    "case sq_victim cbk L of None \<Rightarrow> r = None \<and> sq_shape q' [] xs fs L
     | Some (A, B) \<Rightarrow> \<exists>i xs. r = Some i \<and> sq_shape q' [i] xs fs (A @ B)" by blast
  moreover have "sq_head q = hd_or xs SIMPLE_QUEUE_IDX_NONE" using sh by (simp add: sq_shape_def)
  ultimately show ?thesis using full
    by (auto simp: sq_get_entry_def simpleQueueAllocWithDiscard_def split: option.splits)
qed

lemma link_fill_ok:
  assumes sh: "sq_shape q [i] xs fs L" and len: "length data \<le> unat (sq_entrySz q - 4)"
  shows "\<exists>q' d. sq_link_fill i data b q = Inr q' \<and> sq_shape q' [] (xs @ [i]) fs (L @ [(d, b)]) \<and>
    take (length data) d = data \<and> length d = unat (sq_entrySz q - 4) \<and> sq_num q' = sq_num q \<and> sq_entrySz q' = sq_entrySz q \<and>
    sq_discarded q' = sq_discarded q"
proof -
  let ?N = SIMPLE_QUEUE_IDX_NONE
  define z where "z = unat (sq_entrySz q - 4)"
  have i: "i < length (sq_data q)" "i \<noteq> ?N" using sq_shape_index [OF sh, of i] by auto
  have di: "i \<notin> set xs" "i \<notin> set fs" "distinct xs" "distinct fs" using sh by (auto simp: sq_shape_def)
  have lx: "links (sq_nx q) xs ?N" "links (sq_nx q) fs ?N" and ends: "sq_head q = hd_or xs ?N" "sq_tail q = last_or xs ?N"
    and L: "L = map (sq_item q) xs" and sz: "\<forall>e \<in> set (sq_data q). length (se_data e) = z"
    using sh by (auto simp: sq_shape_def z_def)
  define q1 where "q1 = q\<lparr>sq_data := (sq_data q)[i := (sq_data q ! i)\<lparr>se_nextIdx := ?N\<rparr>]\<rparr>"
  have u1: "sq_update i (se_nextIdx_update (\<lambda>_. ?N)) q = Inr q1" using i(1) by (simp add: sq_update_ok q1_def)
  have nx1: "sq_nx q1 = (sq_nx q)(i := ?N)" and it1: "sq_item q1 = sq_item q"
    using i(1) by (simp_all add: q1_def sq_nx_update sq_item_update) (simp add: sq_item_def fun_eq_iff)
  have f1: "sq_head q1 = sq_head q" "sq_tail q1 = sq_tail q" "length (sq_data q1) = length (sq_data q)" by (simp_all add: q1_def)
  have sz1: "\<forall>e \<in> set (sq_data q1). length (se_data e) = z"
    using sq_data_update [OF sz, of "(sq_data q ! i)\<lparr>se_nextIdx := ?N\<rparr>" i] sz i(1) by (simp add: q1_def)
  have "\<exists>q2. (if sq_head q1 = ?N then Inr (q1\<lparr>sq_head := i\<rparr>)
        else sq_update (sq_tail q1) (se_nextIdx_update (\<lambda>_. i)) q1) = Inr q2 \<and>
      sq_head q2 = hd_or (xs @ [i]) ?N \<and> sq_item q2 = sq_item q \<and> sq_freeHead q2 = sq_freeHead q \<and>
      sq_num q2 = sq_num q \<and> sq_entrySz q2 = sq_entrySz q \<and> sq_discarded q2 = sq_discarded q \<and>
      length (sq_data q2) = length (sq_data q) \<and> links (sq_nx q2) (xs @ [i]) ?N \<and> links (sq_nx q2) fs ?N \<and>
      (\<forall>e \<in> set (sq_data q2). length (se_data e) = z)"
  proof (cases xs rule: rev_cases)
    case Nil
    then show ?thesis using ends f1 it1 nx1 di lx sz1 by (simp add: links_upd) (simp add: q1_def)
  next
    case (snoc ws p)
    have p: "p < length (sq_data q1)" "p \<noteq> i" "p \<notin> set ws" "p \<notin> set fs"
      using sq_shape_index [OF sh, of p] di snoc sh f1(3) by (auto simp: sq_shape_def)
    have head: "sq_head q1 \<noteq> ?N"
      using sq_shape_index(2) [OF sh, of "hd_or xs ?N"] hd_or_in [of xs ?N] ends(1) f1(1) snoc by fastforce
    define q2 where "q2 = q1\<lparr>sq_data := (sq_data q1)[p := (sq_data q1 ! p)\<lparr>se_nextIdx := i\<rparr>]\<rparr>"
    have "sq_update (sq_tail q1) (se_nextIdx_update (\<lambda>_. i)) q1 = Inr q2"
      using p(1) f1(2) ends(2) snoc by (simp add: sq_update_ok q2_def)
    moreover have nx2: "sq_nx q2 = (sq_nx q)(i := ?N, p := i)" and "sq_item q2 = sq_item q"
      using p(1) by (simp_all add: q2_def sq_nx_update sq_item_update nx1 it1) (simp add: sq_item_def fun_eq_iff it1 [symmetric])
    moreover have "links (sq_nx q2) (xs @ [i]) ?N"
      using lx(1) di p snoc links_last [of "(sq_nx q)(i := ?N)" ws p ?N i] by (simp add: nx2 links_append links_upd)
    moreover have "links (sq_nx q2) fs ?N" using lx(2) di p(4) by (simp add: nx2 links_upd)
    moreover have "\<forall>e \<in> set (sq_data q2). length (se_data e) = z"
      using sq_data_update [OF sz1, of "(sq_data q1 ! p)\<lparr>se_nextIdx := i\<rparr>" p] sz1 p(1) by (simp add: q2_def)
    moreover have "sq_head q2 = hd_or (xs @ [i]) ?N"
      using ends(1) f1(1) snoc by (simp add: q2_def)
    ultimately show ?thesis using head by (intro exI [of _ q2]) (simp add: q2_def q1_def)
  qed
  then obtain q2 where u2: "(if sq_head q1 = ?N then Inr (q1\<lparr>sq_head := i\<rparr>)
        else sq_update (sq_tail q1) (se_nextIdx_update (\<lambda>_. i)) q1) = Inr q2"
    and q2: "sq_head q2 = hd_or (xs @ [i]) ?N" "sq_item q2 = sq_item q" "sq_freeHead q2 = sq_freeHead q"
      "sq_num q2 = sq_num q" "sq_entrySz q2 = sq_entrySz q" "sq_discarded q2 = sq_discarded q"
      "length (sq_data q2) = length (sq_data q)" "links (sq_nx q2) (xs @ [i]) ?N" "links (sq_nx q2) fs ?N"
      "\<forall>e \<in> set (sq_data q2). length (se_data e) = z" by blast
  let ?d = "blit (se_data (sq_data q2 ! i)) 0 data"
  let ?e = "(sq_data q2 ! i)\<lparr>se_data := ?d, se_discardable := b\<rparr>"
  define q3 where "q3 = q2\<lparr>sq_tail := i, sq_data := (sq_data q2)[i := ?e]\<rparr>"
  have d: "length ?d = z" "take (length data) ?d = data"
    using q2(7,10) i(1) len by (simp_all add: z_def) (simp add: blit_def)
  have "sq_update i (\<lambda>r. r\<lparr>se_data := blit (se_data r) 0 data, se_discardable := b\<rparr>) (q2\<lparr>sq_tail := i\<rparr>) = Inr q3"
    using q2(7) i(1) by (simp add: sq_update_ok q3_def)
  moreover have nx3: "sq_nx q3 = sq_nx q2" and it3: "sq_item q3 = (sq_item q)(i := (?d, b))"
    using q2(2,7) i(1) sq_nx_update [of i "q2\<lparr>sq_tail := i\<rparr>" ?e] sq_item_update [of i "q2\<lparr>sq_tail := i\<rparr>" ?e]
    by (auto simp: q3_def fun_eq_iff sq_nx_def)
  moreover have "\<forall>e \<in> set (sq_data q3). length (se_data e) = z"
    using sq_data_update [OF q2(10), of ?e i] d(1) by (simp add: q3_def)
  then have "sq_shape q3 [] (xs @ [i]) fs (L @ [(?d, b)])"
    using sh q2(1,3-9) di L nx3 it3 by (simp add: sq_shape_def z_def) (auto simp: q3_def)
  ultimately show ?thesis using u1 u2 d q2(4-6)
    by (intro exI [of _ q3] exI [of _ ?d]) (simp add: sq_link_fill_def z_def, simp add: q3_def)
qed

lemma dequeue_ok:
  assumes sh: "sq_shape q [] xs fs L"
  shows "case L of
      [] \<Rightarrow> simpleQueueDequeue (Some q) = Inr (None, Some q)
    | x # M \<Rightarrow> \<exists>q' ys gs. simpleQueueDequeue (Some q) = Inr (Some (fst x), Some q') \<and> sq_shape q' [] ys gs M \<and>
        sq_num q' = sq_num q \<and> sq_entrySz q' = sq_entrySz q \<and> sq_discarded q' = sq_discarded q"
proof (cases xs)
  case Nil
  then show ?thesis using sh by (simp add: sq_shape_def simpleQueueDequeue_def)
next
  case (Cons i ys)
  let ?N = SIMPLE_QUEUE_IDX_NONE
  have i: "i < length (sq_data q)" "i \<noteq> ?N" using sq_shape_index [OF sh, of i] Cons by auto
  have L: "L = sq_item q i # map (sq_item q) ys" using sh Cons by (simp add: sq_shape_def)
  have d: "i \<notin> set ys" "i \<notin> set fs" using sh Cons by (auto simp: sq_shape_def)
  have lx: "se_nextIdx (sq_data q ! i) = hd_or ys ?N" "links (sq_nx q) ys ?N" "links (sq_nx q) fs ?N"
    and ends: "sq_head q = i" "sq_tail q = last_or ys i" "sq_freeHead q = hd_or fs ?N"
    using sh Cons by (auto simp: sq_shape_def sq_nx_def)
  have tail: "(if sq_tail q = i then ?N else sq_tail q) = last_or ys ?N" using d(1) ends(2) by (auto simp: last_or_def)
  define q2 where "q2 = q\<lparr>sq_head := hd_or ys ?N, sq_tail := last_or ys ?N,
    sq_data := (sq_data q)[i := (sq_data q ! i)\<lparr>se_nextIdx := hd_or fs ?N\<rparr>], sq_freeHead := i\<rparr>"
  have sz: "\<forall>e \<in> set (sq_data q). length (se_data e) = unat (sq_entrySz q - 4)" using sh by (simp add: sq_shape_def)
  then have full: "length (se_data (sq_data q ! i)) = unat (sq_entrySz q - 4)" using i(1) by simp
  have "simpleQueueDequeue (Some q) = Inr (Some (fst (sq_item q i)), Some q2)"
    using i ends(1,3) lx(1) full sq_update_ok [of i "q\<lparr>sq_head := hd_or ys ?N, sq_tail := last_or ys ?N\<rparr>"]
    by (simp add: simpleQueueDequeue_def Let_def simpleQueueGetNth_def tail sq_item_def q2_def)
  moreover have nx: "sq_nx q2 = (sq_nx q)(i := hd_or fs ?N)" and it: "sq_item q2 = sq_item q"
    using i(1) by (auto simp: q2_def sq_nx_def sq_item_def fun_eq_iff nth_list_update)
  moreover have "\<forall>e \<in> set (sq_data q2). length (se_data e) = unat (sq_entrySz q - 4)"
    using sq_data_update [OF sz, of "(sq_data q ! i)\<lparr>se_nextIdx := hd_or fs ?N\<rparr>" i] full by (simp add: q2_def)
  then have "sq_shape q2 [] ys (i # fs) (map (sq_item q) ys)"
    using sh Cons d lx nx it by (simp add: sq_shape_def links_upd) (auto simp: q2_def)
  ultimately show ?thesis using L
    by (simp, intro exI [of _ q2] conjI exI [of _ ys] exI [of _ "i # fs"]) (simp_all add: q2_def)
qed

section \<open>The queue refines a list\<close>

datatype sq_op = SEnq discard_cbk bytes bool | SDeq

datatype sq_out = STaken bool | SGot "bytes option"

text \<open>
  What a list of at most \<open>cap\<close> entries of \<open>sz\<close> octets may do.  A shorter entry keeps what its place held
  behind the new octets.
\<close>

inductive sq_spec :: "nat \<Rightarrow> nat \<Rightarrow> sq_op \<Rightarrow> (bytes \<times> bool) list \<Rightarrow> sq_out \<Rightarrow> (bytes \<times> bool) list \<Rightarrow> bool" for sz cap where
  too_long: "sz < length data \<Longrightarrow> sq_spec sz cap (SEnq cbk data b) L (STaken False) L"
| room: "length L < cap \<Longrightarrow> length d = sz \<Longrightarrow> take (length data) d = data \<Longrightarrow>
    sq_spec sz cap (SEnq cbk data b) L (STaken True) (L @ [(d, b)])"
| replaced: "length L = cap \<Longrightarrow> sq_victim cbk L = Some (A, B) \<Longrightarrow> length d = sz \<Longrightarrow> take (length data) d = data \<Longrightarrow>
    sq_spec sz cap (SEnq cbk data b) L (STaken True) (A @ B @ [(d, b)])"
| refused: "length L = cap \<Longrightarrow> sq_victim cbk L = None \<Longrightarrow> sq_spec sz cap (SEnq cbk data b) L (STaken False) L"
| got: "sq_spec sz cap SDeq ((d, b) # L) (SGot (Some d)) L"
| none: "sq_spec sz cap SDeq [] (SGot None) []"

inductive_cases sq_spec_enqE: "sq_spec sz cap (SEnq cbk data b) L r M"
inductive_cases sq_spec_deqE: "sq_spec sz cap SDeq L r M"

fun sq_step :: "sq_op \<Rightarrow> simple_queue \<Rightarrow> (sq_out \<times> simple_queue) res" where
  "sq_step (SEnq cbk data b) q = bindE (simpleQueueEnqueue cbk q data (int (length data)) b) (\<lambda>(r, q1). Inr (STaken r, q1))"
| "sq_step SDeq q =
     bindE (simpleQueueDequeue (Some q)) (\<lambda>(r, qp). case qp of None \<Rightarrow> Inl NullDeref | Some q1 \<Rightarrow> Inr (SGot r, q1))"

text \<open>The caller's arrays are smaller than half of the address space.\<close>

fun sq_op_ok :: "sq_op \<Rightarrow> bool" where
  "sq_op_ok (SEnq cbk data b) \<longleftrightarrow> length data < 2 ^ 31"
| "sq_op_ok SDeq \<longleftrightarrow> True"

lemma sq_step_ok:
  assumes sh: "sq_shape q [] xs fs L" and op: "sq_op_ok op"
  shows "\<exists>r q' ys gs M. sq_step op q = Inr (r, q') \<and> sq_spec (unat (sq_entrySz q - 4)) (sq_num q) op L r M \<and>
    sq_shape q' [] ys gs M \<and> sq_num q' = sq_num q \<and> sq_entrySz q' = sq_entrySz q"
proof (cases op)
  case SDeq
  show ?thesis
  proof (cases L)
    case Nil
    then have "sq_step op q = Inr (SGot None, q)" using dequeue_ok [OF sh] SDeq by simp
    then show ?thesis using Nil sh SDeq sq_spec.none by blast
  next
    case (Cons x M)
    with dequeue_ok [OF sh] obtain q' ys gs where "simpleQueueDequeue (Some q) = Inr (Some (fst x), Some q')"
      "sq_shape q' [] ys gs M" "sq_num q' = sq_num q" "sq_entrySz q' = sq_entrySz q" by auto
    moreover have "sq_spec sz cap SDeq L (SGot (Some (fst x))) M" for sz cap
      using sq_spec.got [of sz cap "fst x" "snd x" M] Cons by simp
    moreover from calculation(1) have "sq_step op q = Inr (SGot (Some (fst x)), q')" using SDeq by simp
    ultimately show ?thesis using SDeq by blast
  qed
next
  case (SEnq cbk data b)
  let ?z = "unat (sq_entrySz q - 4)"
  have w: "unat (word_of_int (int (length data)) :: u32) = length data"
    using op SEnq by (simp add: unat_of_nat take_bit_nat_eq_self)
  show ?thesis
  proof (cases "length data \<le> ?z")
    case False
    then have "simpleQueueEnqueue cbk q data (int (length data)) b = Inr (False, q)"
      using w by (simp add: simpleQueueEnqueue_def word_less_nat_alt)
    then have "sq_step op q = Inr (STaken False, q)" using SEnq by simp
    moreover have "sq_spec ?z (sq_num q) op L (STaken False) L" unfolding SEnq using False by (intro sq_spec.too_long) simp
    ultimately show ?thesis using sh by blast
  next
    case True
    then have enq: "simpleQueueEnqueue cbk q data (int (length data)) b = bindE (sq_get_entry cbk q) (\<lambda>(e, q1).
        case e of None \<Rightarrow> Inr (False, q1) | Some i \<Rightarrow> bindE (sq_link_fill i data b q1) (\<lambda>q2. Inr (True, q2)))"
      using w by (simp add: simpleQueueEnqueue_def word_less_nat_alt cong: option.case_cong)
    from get_entry_ok [OF sh, of cbk] obtain r q1 where r: "sq_get_entry cbk q = Inr (r, q1)" "sq_num q1 = sq_num q"
      "sq_entrySz q1 = sq_entrySz q"
      "if length L < sq_num q then \<exists>i ys gs. r = Some i \<and> sq_shape q1 [i] ys gs L
       else case sq_victim cbk L of
              None \<Rightarrow> r = None \<and> sq_shape q1 [] xs fs L
            | Some (A, B) \<Rightarrow> \<exists>i ys gs. r = Some i \<and> sq_shape q1 [i] ys gs (A @ B)" by blast
    have put: "\<exists>q' d ys gs. sq_step op q = Inr (STaken True, q') \<and> sq_shape q' [] ys gs (M @ [(d, b)]) \<and> length d = ?z \<and>
        take (length data) d = data \<and> sq_num q' = sq_num q \<and> sq_entrySz q' = sq_entrySz q"
      if entry: "r = Some i" "sq_shape q1 [i] ys gs M" for i ys gs M
    proof -
      obtain q' d where f: "sq_link_fill i data b q1 = Inr q'" "sq_shape q' [] (ys @ [i]) gs (M @ [(d, b)])"
        "take (length data) d = data" "length d = ?z" "sq_num q' = sq_num q" "sq_entrySz q' = sq_entrySz q"
        using link_fill_ok [OF entry(2), of data b] r(2,3) True by auto
      have "sq_step op q = Inr (STaken True, q')" using entry(1) r(1) f(1) SEnq enq by simp
      with f(2-6) show ?thesis by blast
    qed
    have cap: "length L \<le> sq_num q" using sq_shape_capacity [OF sh] by simp
    consider "length L < sq_num q" | "length L = sq_num q" "sq_victim cbk L = None"
      | A B where "length L = sq_num q" "sq_victim cbk L = Some (A, B)" using cap by (cases "sq_victim cbk L") force+
    then show ?thesis
    proof cases
      case 1
      then obtain i ys gs where "r = Some i" "sq_shape q1 [i] ys gs L" using r(4) by auto
      from put [OF this] obtain q' d ys' gs' where "sq_step op q = Inr (STaken True, q')" "sq_shape q' [] ys' gs' (L @ [(d, b)])"
        "length d = ?z" "take (length data) d = data" "sq_num q' = sq_num q" "sq_entrySz q' = sq_entrySz q" by blast
      with sq_spec.room [OF 1 this(3,4)] SEnq show ?thesis by blast
    next
      case 2
      then have "r = None" "sq_shape q1 [] xs fs L" using r(4) by auto
      then have "sq_step op q = Inr (STaken False, q1)" using r(1) SEnq enq by simp
      with sq_spec.refused [OF 2] SEnq r(2,3) \<open>sq_shape q1 [] xs fs L\<close> show ?thesis by blast
    next
      case (3 A B)
      then obtain i ys gs where "r = Some i" "sq_shape q1 [i] ys gs (A @ B)" using r(4) by auto
      from put [OF this] obtain q' d ys' gs' where "sq_step op q = Inr (STaken True, q')"
        "sq_shape q' [] ys' gs' (A @ B @ [(d, b)])" "length d = ?z" "take (length data) d = data" "sq_num q' = sq_num q"
        "sq_entrySz q' = sq_entrySz q" by auto
      with sq_spec.replaced [OF 3 this(3,4)] SEnq show ?thesis by blast
    qed
  qed
qed

section \<open>The queue in the heap\<close>

lemma init_loop_ok:
  "i + k \<le> length (sq_data q) \<Longrightarrow>
     init_loop k i q = Inr (q\<lparr>sq_data := map (\<lambda>j. if i \<le> j \<and> j < i + k then (sq_data q ! j)\<lparr>se_nextIdx := j + 1\<rparr> else sq_data q ! j)
       [0..<length (sq_data q)]\<rparr>)"
proof (induction k arbitrary: i q)
  case 0
  have "map ((!) (sq_data q)) [0..<length (sq_data q)] = sq_data q" by (rule map_nth)
  then show ?case by (simp add: not_le [symmetric] cong: if_cong)
next
  case (Suc k)
  let ?q = "q\<lparr>sq_data := (sq_data q)[i := (sq_data q ! i)\<lparr>se_nextIdx := i + 1\<rparr>]\<rparr>"
  have "init_loop (Suc k) i q = init_loop k (i + 1) ?q" using Suc.prems by (simp add: sq_update_ok)
  then show ?case using Suc.IH [of "i + 1" ?q] Suc.prems by (auto simp: nth_list_update)
qed

lemma links_upt:
  "i \<le> n \<Longrightarrow> (\<And>j. i \<le> j \<Longrightarrow> j < n \<Longrightarrow> nx j = (if j + 1 < n then j + 1 else m)) \<Longrightarrow> links nx [i..<n] m"
proof (induction "n - i" arbitrary: i)
  case (Suc k)
  then have "links nx [Suc i..<n] m" by auto
  moreover have "nx i = hd_or [Suc i..<n] m" using Suc.hyps(2) Suc.prems(2) [of i] by (simp add: hd_or_def upt_rec)
  ultimately show ?case using Suc.hyps(2) by (simp add: upt_conv_Cons)
qed simp

lemma simpleQueueAlloc_ok:
  assumes inv: "heap_inv h" and new: "simpleQueueAlloc numEntries entrySz tid h = Inr (Some (a, q), h1)"
    and n: "0 < unat numEntries" and fit: "24 + (4 + unat entrySz) * unat numEntries + 3 < 2 ^ 32"
  shows "sq_shape q [] [] [0..<unat numEntries] [] \<and> sq_num q = unat numEntries \<and> unat (sq_entrySz q - 4) = unat entrySz \<and>
    heap_inv h1 \<and> (\<exists>len. (a, len) \<in> heap_live h1 \<and> 24 + unat (sq_entrySz q) * sq_num q \<le> len)"
proof -
  let ?n = "unat numEntries" and ?z = "4 + unat entrySz"
  define sz where "sz = 24 + (4 + entrySz) * numEntries"
  have "?z \<le> ?z * ?n" using n by simp
  then have small: "?z < 2 ^ 32" by (rule le_less_trans) (use fit in simp)
  have esz: "unat (entrySz + 4) = ?z" using small by (intro unat_eqI) simp_all
  have sz: "unat sz = 24 + ?z * ?n" using fit unfolding sz_def by (intro unat_eqI) simp_all
  have cnt: "unat (numEntries - 1) = ?n - 1" using n by (intro unat_minus_one) auto
  have d4: "unat (entrySz + 4 - 4) = unat entrySz" by simp
  let ?zero = "\<lparr>se_nextIdx = 0, se_discardable = False, se_data = replicate (unat entrySz) 0\<rparr>"
  define q0 where "q0 = \<lparr>sq_head = SIMPLE_QUEUE_IDX_NONE, sq_tail = SIMPLE_QUEUE_IDX_NONE, sq_num = ?n, sq_freeHead = 0,
    sq_entrySz = entrySz + 4, sq_data = replicate ?n ?zero, sq_discarded = []\<rparr>"
  have room: "(unat sz - 24) div unat (entrySz + 4) = ?n" using sz esz by simp
  have max: "?n \<le> SIMPLE_QUEUE_MAX_ELEMENTS" using new by (auto simp: simpleQueueAlloc_def Let_def split: if_splits)
  obtain q1 where alloc: "heapAlloc sz tid h = Inr (Some a, h1)" and q1: "init_loop (?n - 1) 0 q0 = Inr q1"
    and q: "sq_update (?n - 1) (se_nextIdx_update (\<lambda>_. SIMPLE_QUEUE_IDX_NONE)) q1 = Inr q"
    using new max sz room unfolding simpleQueueAlloc_def Let_def sz_def [symmetric]
    by (auto simp: res cnt d4 q0_def split: option.splits if_splits)
  have f1: "q1 = q0\<lparr>sq_data := map (\<lambda>j. if j < ?n - 1 then ?zero\<lparr>se_nextIdx := j + 1\<rparr> else ?zero) [0..<?n]\<rparr>"
    using q1 init_loop_ok [of 0 "?n - 1" q0] n by (auto simp: q0_def cong: map_cong)
  then have f: "q = q1\<lparr>sq_data := (sq_data q1)[?n - 1 := ?zero\<lparr>se_nextIdx := SIMPLE_QUEUE_IDX_NONE\<rparr>]\<rparr>"
    using q n sq_update_ok [of "?n - 1" q1] by (simp add: q0_def)
  have data: "sq_data q = map (\<lambda>j. ?zero\<lparr>se_nextIdx := if j + 1 < ?n then j + 1 else SIMPLE_QUEUE_IDX_NONE\<rparr>) [0..<?n]"
    using n by (intro nth_equalityI) (auto simp: f f1 nth_list_update)
  have flds: "sq_head q = SIMPLE_QUEUE_IDX_NONE" "sq_tail q = SIMPLE_QUEUE_IDX_NONE" "sq_freeHead q = 0" "sq_num q = ?n"
    "sq_entrySz q = entrySz + 4" by (simp_all add: f f1 q0_def)
  have "links (sq_nx q) [0..<?n] SIMPLE_QUEUE_IDX_NONE" by (rule links_upt) (simp_all add: sq_nx_def data)
  moreover have "hd_or [0..<?n] SIMPLE_QUEUE_IDX_NONE = 0" using n by (simp add: upt_conv_Cons)
  moreover have "{0..<?n} = {..<?n}" by auto
  ultimately have "sq_shape q [] [] [0..<?n] []" using max by (auto simp: sq_shape_def flds data)
  moreover obtain len where "align4 sz \<le> len" "heap_inv h1" "(a, len) \<in> heap_live h1"
    using heap_alloc_live [OF inv alloc] by auto
  moreover have "24 + ?z * ?n \<le> align4 sz" using align4_ge [of sz] sz fit by simp
  ultimately show ?thesis using esz by (auto simp: flds)
qed

text \<open>A queue of no entries.  The free list of a queue for 0 entries is laid out up to \<open>numEntries - 1\<close>, which
  wraps around: the first round writes behind the block.\<close>

theorem empty_queue_overruns:
  assumes "heapAlloc 24 tid h = Inr (Some a, h1)"
  shows "simpleQueueAlloc 0 entrySz tid h = Inl OutOfBounds"
proof -
  have "unat (- 1 :: u32) = 4294967295" by (simp add: unsigned_minus_1_eq_mask mask_eq_exp_minus_1)
  moreover have "init_loop 4294967295 0 q = Inl OutOfBounds" if "sq_data q = []" for q
  proof -
    have "init_loop (Suc 4294967294) 0 q = Inl OutOfBounds"
      unfolding init_loop.simps by (simp add: sq_update_def simpleQueueGetNth_def array_get_def that)
    then show ?thesis by simp
  qed
  ultimately show ?thesis using assms by (simp add: simpleQueueAlloc_def Let_def)
qed

fun sq_run :: "sq_op list \<Rightarrow> simple_queue \<Rightarrow> (sq_out list \<times> simple_queue) res" where
  "sq_run [] q = Inr ([], q)"
| "sq_run (op # ops) q = bindE (sq_step op q) (\<lambda>(r, q1). map_sum id (map_prod ((#) r) id) (sq_run ops q1))"

inductive sq_runs :: "nat \<Rightarrow> nat \<Rightarrow> sq_op list \<Rightarrow> (bytes \<times> bool) list \<Rightarrow> sq_out list \<Rightarrow> (bytes \<times> bool) list \<Rightarrow> bool" for sz cap where
  stop: "sq_runs sz cap [] L [] L"
| step: "sq_spec sz cap op L r M \<Longrightarrow> sq_runs sz cap ops M rs N \<Longrightarrow> sq_runs sz cap (op # ops) L (r # rs) N"

lemma sq_run_ok:
  "sq_shape q [] xs fs L \<Longrightarrow> list_all sq_op_ok ops \<Longrightarrow>
     \<exists>rs q' ys gs M. sq_run ops q = Inr (rs, q') \<and> sq_runs (unat (sq_entrySz q - 4)) (sq_num q) ops L rs M \<and>
       sq_shape q' [] ys gs M \<and> sq_num q' = sq_num q"
proof (induction ops arbitrary: q xs fs L)
  case Nil
  then show ?case using sq_runs.stop by fastforce
next
  case (Cons op ops)
  from sq_step_ok [OF Cons.prems(1), of op] Cons.prems(2) obtain r q1 ys gs M where
    q1: "sq_step op q = Inr (r, q1)" "sq_spec (unat (sq_entrySz q - 4)) (sq_num q) op L r M" "sq_shape q1 [] ys gs M"
    "sq_num q1 = sq_num q" "sq_entrySz q1 = sq_entrySz q" by auto
  from Cons.IH [OF q1(3)] Cons.prems(2) obtain rs q' ys' gs' N where
    q': "sq_run ops q1 = Inr (rs, q')" "sq_runs (unat (sq_entrySz q - 4)) (sq_num q) ops M rs N" "sq_shape q' [] ys' gs' N"
    "sq_num q' = sq_num q" using q1(4,5) by auto
  have "sq_run (op # ops) q = Inr (r # rs, q')" using q1(1) q'(1) by simp
  with sq_runs.step [OF q1(2) q'(2)] q'(3,4) show ?case by blast
qed

text \<open>C15. The queue is a bounded list.  From \<open>simpleQueueAlloc\<close> on, any sequence of enqueues and dequeues, with any
  answers of the callback, runs without fault inside the block the heap gave, and answers what a list
  of the given number of entries may answer.\<close>

theorem sq_refines_list:
  assumes "heap_inv h" and "simpleQueueAlloc numEntries entrySz tid h = Inr (Some (a, q), h1)"
    and "0 < unat numEntries" and "24 + (4 + unat entrySz) * unat numEntries + 3 < 2 ^ 32" and "list_all sq_op_ok ops"
  shows "\<exists>rs q' xs fs L len. sq_run ops q = Inr (rs, q') \<and> sq_runs (unat entrySz) (unat numEntries) ops [] rs L \<and>
    sq_shape q' [] xs fs L \<and> (a, len) \<in> heap_live h1 \<and> 24 + unat (sq_entrySz q) * sq_num q' \<le> len"
proof -
  from simpleQueueAlloc_ok [OF assms(1-4)] obtain len where q: "sq_shape q [] [] [0..<unat numEntries] []"
    "sq_num q = unat numEntries" "unat (sq_entrySz q - 4) = unat entrySz"
    "(a, len) \<in> heap_live h1" "24 + unat (sq_entrySz q) * sq_num q \<le> len" by blast
  from sq_run_ok [OF q(1) assms(5)] q(2-5) show ?thesis by metis
qed

text \<open>The entries that were taken, and the data that came out.\<close>

fun sq_accepted :: "sq_op list \<Rightarrow> sq_out list \<Rightarrow> (bytes \<times> bool) list" where
  "sq_accepted (SEnq cbk data b # ops) (r # rs) = (if r = STaken True then [(data, b)] else []) @ sq_accepted ops rs"
| "sq_accepted (SDeq # ops) (r # rs) = sq_accepted ops rs"
| "sq_accepted ops rs = []"

fun sq_came_out :: "sq_out list \<Rightarrow> bytes list" where
  "sq_came_out (SGot (Some d) # rs) = d # sq_came_out rs"
| "sq_came_out (r # rs) = sq_came_out rs"
| "sq_came_out [] = []"

text \<open>The data are those of the entries, in order and padded, but for some entries that may be discarded.\<close>

inductive thinned :: "bytes list \<Rightarrow> (bytes \<times> bool) list \<Rightarrow> bool" where
  nothing: "thinned [] []"
| dropped: "thinned ds es \<Longrightarrow> thinned ds ((p, True) # es)"
| kept: "take (length p) d = p \<Longrightarrow> thinned ds es \<Longrightarrow> thinned (d # ds) ((p, b) # es)"

lemma thinned_insert: "thinned ds (es @ fs) \<Longrightarrow> thinned ds (es @ (p, True) # fs)"
proof (induction es arbitrary: ds)
  case Nil
  then show ?case by (simp add: thinned.intros(2))
next
  case (Cons e es)
  from Cons.prems have "thinned ds (e # (es @ fs))" by simp
  then show ?case by cases (auto intro: thinned.intros Cons.IH)
qed

lemma thinned_shorter: "thinned ds (es @ (d, b) # fs) \<Longrightarrow> take (length p) d = p \<Longrightarrow> thinned ds (es @ (p, b) # fs)"
proof (induction es arbitrary: ds)
  case Nil
  from Nil.prems(1) have "thinned ds ((d, b) # fs)" by simp
  then show ?case
  proof cases
    case (kept x ds')
    have "length p \<le> length d" using Nil.prems(2) by (metis length_take min.absorb_iff2 min.commute)
    then have "take (length p) x = p" using kept(2) Nil.prems(2) by (metis min.absorb1 take_take)
    then show ?thesis using kept by (simp add: thinned.intros(3))
  qed (simp add: thinned.intros(2))
next
  case (Cons e es)
  from Cons.prems(1) have "thinned ds (e # (es @ (d, b) # fs))" by simp
  then show ?case using Cons.prems(2) by cases (auto intro: thinned.intros Cons.IH)
qed

lemma sq_victim_split: "sq_victim cbk L = Some (A, B) \<Longrightarrow> \<exists>v. L = A @ (v, True) # B"
proof (induction L arbitrary: A)
  case (Cons e L)
  obtain d b where e: "e = (d, b)" by fastforce
  show ?case using Cons.IH Cons.prems by (auto simp: e split: if_splits)
qed simp

lemma thinned_self: "thinned (map fst L) L"
  by (induction L) (auto intro: thinned.intros)

lemma sq_runs_thinned: "sq_runs sz cap ops L rs M \<Longrightarrow> thinned (sq_came_out rs @ map fst M) (L @ sq_accepted ops rs)"
proof (induction rule: sq_runs.induct)
  case (stop L)
  then show ?case by (simp add: thinned_self)
next
  case (step op L r M ops rs N)
  from step.hyps(1) step.IH show ?case
  proof cases
    case (room d data cbk b)
    then show ?thesis using step.IH thinned_shorter [of _ L d b "sq_accepted ops rs" data] by simp
  next
    case (replaced cbk A B d data b)
    from sq_victim_split [OF replaced(5)] obtain v where L: "L = A @ (v, True) # B" by blast
    have "thinned (sq_came_out rs @ map fst N) ((A @ B) @ (data, b) # sq_accepted ops rs)"
      using step.IH replaced thinned_shorter [of _ "A @ B" d b "sq_accepted ops rs" data] by simp
    then show ?thesis using replaced L thinned_insert [of _ A "B @ (data, b) # sq_accepted ops rs" v] by simp
  next
    case (got d b)
    then show ?thesis using step.IH thinned.intros(3) [of d d] by simp
  qed (use step.IH in simp_all)
qed

text \<open>What the host reads.  From \<open>simpleQueueAlloc\<close> on, the data dequeued and then those still queued are the
  data of the enqueues that succeeded, in their order, each possibly padded; only entries marked as
  discardable may be missing.\<close>

theorem sq_loses_only_discardable:
  assumes "heap_inv h" and "simpleQueueAlloc numEntries entrySz tid h = Inr (Some (a, q), h1)"
    and "0 < unat numEntries" and "24 + (4 + unat entrySz) * unat numEntries + 3 < 2 ^ 32" and "list_all sq_op_ok ops"
    and "sq_run ops q = Inr (rs, q')"
  shows "\<exists>xs fs L. sq_shape q' [] xs fs L \<and> thinned (sq_came_out rs @ map fst L) (sq_accepted ops rs)"
proof -
  from simpleQueueAlloc_ok [OF assms(1-4)] have "sq_shape q [] [] [0..<unat numEntries] []" by blast
  from sq_run_ok [OF this assms(5)] assms(6) obtain sz cap ys gs M where "sq_runs sz cap ops [] rs M" "sq_shape q' [] ys gs M"
    by auto
  with sq_runs_thinned [OF this(1)] show ?thesis by auto
qed

text \<open>To evaluate one operation after the other.\<close>

lemma bindE_weak_cong: "r = r' \<Longrightarrow> bindE r f = bindE r' f"
  by simp

lemma replicate_pred: "replicate (numeral k) x = x # replicate (pred_numeral k) x"
  by (simp add: numeral_eq_Suc)

lemmas sq_eval = replicate_pred
  simpleQueueAlloc_def simpleQueueEnqueue_def simpleQueueDequeue_def sq_get_entry_def simpleQueueAllocWithDiscard_def
  sq_fuel_def sq_unlink_def sq_link_fill_def sq_update_def simpleQueueGetNth_def array_get_def blit_def Let_def
  SIMPLE_QUEUE_IDX_NONE_def SIMPLE_QUEUE_MAX_ELEMENTS_def

definition two_slots :: simple_queue where
  "two_slots = \<lparr>sq_head = 0xFFFFFFF, sq_tail = 0xFFFFFFF, sq_num = 2, sq_freeHead = 0, sq_entrySz = 8,
     sq_data = [\<lparr>se_nextIdx = 1, se_discardable = False, se_data = [0, 0, 0, 0]\<rparr>,
                \<lparr>se_nextIdx = 0xFFFFFFF, se_discardable = False, se_data = [0, 0, 0, 0]\<rparr>], sq_discarded = []\<rparr>"

lemma two_slots_new:
  obtains h h1 where "heap_inv h" "simpleQueueAlloc 2 4 1 h = Inr (Some (8, two_slots), h1)"
    "heapInit 128 0 = Inr (True, h)"
proof -
  obtain h where h: "heapInit 128 0 = Inr (True, h)" by (simp add: heapInit_def Let_def hn_store_def HN_def)
  have "(128::nat) < 2 ^ MAX_HEAP_ORDER" by (simp add: MAX_HEAP_ORDER_def TIDX_HEAP_BITS_def TASK_IDX_BITS_def TIDX_HEAP_EXTRA_def)
  then have "heap_inv h" using heapInit_ok [OF h] heap_inv_ok by fastforce
  moreover have "map_sum id fst (bindE (heapInit 128 0) (\<lambda>(ok, h). simpleQueueAlloc 2 4 1 h)) = Inr (Some (8, two_slots))"
    by (simp add: heap_eval sq_eval two_slots_def cong: bindE_weak_cong)
  then have "map_sum id fst (simpleQueueAlloc 2 4 1 h) = Inr (Some (8, two_slots))" by (simp add: h)
  then obtain h1 where "simpleQueueAlloc 2 4 1 h = Inr (Some (8, two_slots), h1)" by (auto simp: res)
  ultimately show thesis using that h by blast
qed

definition demo_ops :: "sq_op list" where
  "demo_ops = [SEnq (\<lambda>_ _. True) [1, 2] False, SEnq (\<lambda>_ _. True) [3] True, SEnq (\<lambda>_ _. True) [4, 5, 6, 7] False,
     SEnq (\<lambda>_ _. True) [9] False, SEnq (\<lambda>_ _. True) [0, 0, 0, 0, 0] True, SDeq, SEnq (\<lambda>_ _. True) [8] False, SDeq, SDeq]"

lemma demo_run:
  "\<exists>q'. sq_run demo_ops two_slots = Inr ([STaken True, STaken True, STaken True, STaken False, STaken False,
     SGot (Some [1, 2, 0, 0]), STaken True, SGot (Some [4, 5, 6, 7]), SGot (Some [8, 2, 0, 0])], q')"
  by (simp add: demo_ops_def sq_eval two_slots_def cong: bindE_weak_cong)

theorem sq_refines_list_witness:
  "\<exists>rs q' L. sq_run demo_ops two_slots = Inr (rs, q') \<and> sq_runs 4 2 demo_ops [] rs L \<and> STaken False \<in> set rs"
proof -
  obtain h h1 where h: "heap_inv h" "simpleQueueAlloc 2 4 1 h = Inr (Some (8, two_slots), h1)" by (rule two_slots_new)
  have "list_all sq_op_ok demo_ops" by (simp add: demo_ops_def)
  from sq_refines_list [OF h _ _ this] demo_run show ?thesis by fastforce
qed

theorem sq_loses_only_discardable_witness:
  "\<exists>rs q' (L :: (bytes \<times> bool) list). sq_run demo_ops two_slots = Inr (rs, q') \<and> sq_came_out rs = [[1, 2, 0, 0], [4, 5, 6, 7], [8, 2, 0, 0]] \<and>
     sq_accepted demo_ops rs = [([1, 2], False), ([3], True), ([4, 5, 6, 7], False), ([8], False)] \<and>
     thinned (sq_came_out rs @ map fst L) (sq_accepted demo_ops rs)"
proof -
  obtain h h1 where h: "heap_inv h" "simpleQueueAlloc 2 4 1 h = Inr (Some (8, two_slots), h1)" by (rule two_slots_new)
  have ops: "list_all sq_op_ok demo_ops" by (simp add: demo_ops_def)
  define rs where "rs = [STaken True, STaken True, STaken True, STaken False, STaken False, SGot (Some [1, 2, 0, 0]),
     STaken True, SGot (Some [4, 5, 6, 7]), SGot (Some [8, 2, 0, 0 :: u8])]"
  obtain q' where q': "sq_run demo_ops two_slots = Inr (rs, q')" using demo_run unfolding rs_def by blast
  from sq_loses_only_discardable [OF h _ _ ops q'] obtain L :: "(bytes \<times> bool) list"
    where "thinned (sq_came_out rs @ map fst L) (sq_accepted demo_ops rs)" by auto
  with q' show ?thesis by (intro exI conjI) (assumption, simp_all add: demo_ops_def rs_def)
qed

theorem empty_queue_overruns_witness:
  "\<exists>h. heapInit 128 0 = Inr (True, h) \<and> simpleQueueAlloc 0 4 1 h = Inl OutOfBounds"
proof -
  obtain h where h: "heapInit 128 0 = Inr (True, h)" by (simp add: heapInit_def Let_def hn_store_def HN_def)
  have "map_sum id fst (bindE (heapInit 128 0) (\<lambda>(ok, h). heapAlloc 24 1 h)) = Inr (Some 8)" by (simp add: heap_eval)
  then obtain h1 where "heapAlloc 24 1 h = Inr (Some 8, h1)" by (auto simp: h res)
  from empty_queue_overruns [OF this] h show ?thesis by blast
qed

end
