(* ===== verification/Hub_Tasks.thy ===== *)
theory Hub_Tasks
  imports Hub_Links
begin

text \<open>
  The task pool of the context hub's scheduler (first part of \<open>contexthub/firmware/src/seos.c\<close>): the array of
  \<open>MAX_TASKS\<close> tasks, the lists of the free and of the running ones, linked by index, the task IDs, and the
  searches by task ID and by application.  A task is named by its index in the pool.
\<close>

section \<open>The pool\<close>

definition MAX_TASKS :: nat where
  "MAX_TASKS = 32"

definition MAX_EMBEDDED_EVT_SUBS :: nat where
  "MAX_EMBEDDED_EVT_SUBS = 6"

definition TASK_TID_INCREMENT :: u16 where
  "TASK_TID_INCREMENT = push_bit 8 1"

definition TASK_TID_IDX_MASK :: u16 where
  "TASK_TID_IDX_MASK = push_bit 8 1 - 1"

definition TASK_TID_COUNTER_MASK :: u16 where
  "TASK_TID_COUNTER_MASK = word_of_int (2 ^ 16 - uint TASK_TID_INCREMENT)"

definition NO_NODE :: nat where
  "NO_NODE = 255"

text \<open>What the scheduler reads of the header of an application.\<close>

record app_hdr =
  ah_appId :: "64 word"
  ah_fwFlags :: u16
  ah_appVer :: u32
  ah_rel_end :: u32

record task_list =
  tl_prev :: nat
  tl_next :: nat

text \<open>The list of subscriptions is in the task or in a chunk of the heap.\<close>

datatype subs_ptr = SubsNull | SubsInt | SubsHeap nat

record task =
  tk_app :: "app_hdr option"
  tk_subbedEventsInt :: "u32 list"
  tk_subbedEvents :: subs_ptr
  tk_list :: task_list
  tk_tid :: u16
  tk_subbedEvtCount :: u8
  tk_subbedEvtListSz :: u8
  tk_flags :: u8
  tk_ioCount :: u8

record task_pool =
  tp_data :: "task list"
  tp_free :: task_list
  tp_tasks :: task_list

datatype list_head = MFreeTasks | MTasks

definition list_init :: task_list where
  "list_init = \<lparr>tl_prev = NO_NODE, tl_next = NO_NODE\<rparr>"

text \<open>All zero, as \<open>memset\<close> and the start-up code leave a task.\<close>

definition task_zero :: task where
  "task_zero = \<lparr>tk_app = None, tk_subbedEventsInt = replicate MAX_EMBEDDED_EVT_SUBS 0, tk_subbedEvents = SubsNull,
     tk_list = \<lparr>tl_prev = 0, tl_next = 0\<rparr>, tk_tid = 0, tk_subbedEvtCount = 0, tk_subbedEvtListSz = 0, tk_flags = 0,
     tk_ioCount = 0\<rparr>"

definition pool_update :: "nat \<Rightarrow> (task \<Rightarrow> task) \<Rightarrow> task_pool \<Rightarrow> task_pool res" where
  "pool_update i f p = bindE (array_get (tp_data p) i) (\<lambda>t. Inr (p\<lparr>tp_data := (tp_data p)[i := f t]\<rparr>))"

fun head_get :: "list_head \<Rightarrow> task_pool \<Rightarrow> task_list" where
  "head_get MFreeTasks p = tp_free p"
| "head_get MTasks p = tp_tasks p"

fun head_update :: "list_head \<Rightarrow> (task_list \<Rightarrow> task_list) \<Rightarrow> task_pool \<Rightarrow> task_pool" where
  "head_update MFreeTasks f p = p\<lparr>tp_free := f (tp_free p)\<rparr>"
| "head_update MTasks f p = p\<lparr>tp_tasks := f (tp_tasks p)\<rparr>"

text \<open>The \<open>TaskList\<close> that an index stands for: a task's, or with \<open>NO_NODE\<close> the head.\<close>

definition link_update :: "list_head \<Rightarrow> nat \<Rightarrow> (task_list \<Rightarrow> task_list) \<Rightarrow> task_pool \<Rightarrow> task_pool res" where
  "link_update l i f p = (if i = NO_NODE then Inr (head_update l f p) else pool_update i (tk_list_update f) p)"

definition osTaskByIdx :: "nat \<Rightarrow> nat option" where
  "osTaskByIdx idx = (if idx \<ge> MAX_TASKS then None else Some idx)"

definition osTaskListPeekHead :: "list_head \<Rightarrow> task_pool \<Rightarrow> nat option" where
  "osTaskListPeekHead l p = (let idx = tl_next (head_get l p) in if idx = NO_NODE then None else Some idx)"

definition osTaskListRemoveTask :: "list_head \<Rightarrow> nat \<Rightarrow> task_pool \<Rightarrow> task_pool res" where
  "osTaskListRemoveTask l i p =
     bindE (array_get (tp_data p) i) (\<lambda>t.
       let left_idx = tl_prev (tk_list t); right_idx = tl_next (tk_list t)
       in bindE (pool_update i (tk_list_update (\<lambda>_. list_init)) p) (\<lambda>p1.
          bindE (link_update l left_idx (tl_next_update (\<lambda>_. right_idx)) p1)
            (link_update l right_idx (tl_prev_update (\<lambda>_. left_idx)))))"

definition osTaskListAddTail :: "list_head \<Rightarrow> nat \<Rightarrow> task_pool \<Rightarrow> task_pool res" where
  "osTaskListAddTail l i p =
     (let last_idx = tl_prev (head_get l p)
      in bindE (pool_update i (tk_list_update (\<lambda>_. \<lparr>tl_prev = last_idx, tl_next = NO_NODE\<rparr>)) p) (\<lambda>p1.
         bindE (link_update l last_idx (tl_next_update (\<lambda>_. i)) p1) (\<lambda>p2.
           Inr (head_update l (tl_prev_update (\<lambda>_. i)) p2))))"

definition osAllocTask :: "task_pool \<Rightarrow> (nat option \<times> task_pool) res" where
  "osAllocTask p =
     (case osTaskListPeekHead MFreeTasks p of
        None \<Rightarrow> Inr (None, p)
      | Some i \<Rightarrow>
          bindE (osTaskListRemoveTask MFreeTasks i p) (\<lambda>p1.
          bindE (pool_update i (\<lambda>t. task_zero\<lparr>tk_tid := tk_tid t\<rparr>) p1) (\<lambda>p2. Inr (Some i, p2))))"

definition osFreeTask :: "nat \<Rightarrow> task_pool \<Rightarrow> task_pool res" where
  "osFreeTask i p = bindE (pool_update i (\<lambda>t. t\<lparr>tk_flags := 0, tk_ioCount := 0\<rparr>) p) (osTaskListAddTail MFreeTasks i)"

definition osRemoveTask :: "nat \<Rightarrow> task_pool \<Rightarrow> task_pool res" where
  "osRemoveTask i p = osTaskListRemoveTask MTasks i p"

definition osAddTask :: "nat \<Rightarrow> task_pool \<Rightarrow> task_pool res" where
  "osAddTask i p = osTaskListAddTail MTasks i p"

definition MAKE_NEW_TID :: "nat \<Rightarrow> task \<Rightarrow> task" where
  "MAKE_NEW_TID idx t =
     t\<lparr>tk_tid := ((tk_tid t + TASK_TID_INCREMENT) AND TASK_TID_COUNTER_MASK) OR (word_of_nat idx AND TASK_TID_IDX_MASK)\<rparr>"

text \<open>The result is an index; it is not compared with the task ID of the task there.\<close>

definition osTaskFindByTid :: "u32 \<Rightarrow> nat option" where
  "osTaskFindByTid tid = (let idx = unat (tid AND ucast TASK_TID_IDX_MASK) in if idx < MAX_TASKS then Some idx else None)"

text \<open>The start-up of the lists; the argument counts the rounds left.\<close>

fun init_pool_loop :: "nat \<Rightarrow> nat \<Rightarrow> task_pool \<Rightarrow> task_pool res" where
  "init_pool_loop 0 i p = Inr p"
| "init_pool_loop (Suc k) i p =
     bindE (pool_update i (tk_list_update (\<lambda>_. list_init)) p) (\<lambda>p1. bindE (osFreeTask i p1) (init_pool_loop k (i + 1)))"

definition init_task_pool :: "task_pool res" where
  "init_task_pool =
     init_pool_loop MAX_TASKS 0 \<lparr>tp_data = replicate MAX_TASKS task_zero, tp_free = list_init, tp_tasks = list_init\<rparr>"

text \<open>
  \<open>for_each_task\<close> on \<open>mTasks\<close>, for a body that leaves the pool as it is and may leave the loop: the first
  result that is not \<open>None\<close>.  The body is told how many tasks came before.
\<close>

fun for_each_task :: "nat \<Rightarrow> nat \<Rightarrow> nat \<Rightarrow> (nat \<Rightarrow> nat \<Rightarrow> task \<Rightarrow> 'a option res) \<Rightarrow> task_pool \<Rightarrow> 'a option res" where
  "for_each_task 0 idx k f p = Inl Hang"
| "for_each_task (Suc n) idx k f p =
     (case osTaskByIdx idx of
        None \<Rightarrow> Inr None
      | Some i \<Rightarrow>
          bindE (array_get (tp_data p) i) (\<lambda>t.
          bindE (f k i t) (\<lambda>r.
            case r of Some x \<Rightarrow> Inr (Some x) | None \<Rightarrow> for_each_task n (tl_next (tk_list t)) (k + 1) f p)))"

definition task_search :: "(nat \<Rightarrow> nat \<Rightarrow> task \<Rightarrow> 'a option res) \<Rightarrow> task_pool \<Rightarrow> 'a option res" where
  "task_search f p = for_each_task (Suc MAX_TASKS) (tl_next (tp_tasks p)) 0 f p"

definition osTaskFindByAppID :: "64 word \<Rightarrow> task_pool \<Rightarrow> nat option res" where
  "osTaskFindByAppID appID p =
     task_search (\<lambda>k i t. Inr (case tk_app t of Some a \<Rightarrow> if ah_appId a = appID then Some i else None | None \<Rightarrow> None)) p"

definition osTidById :: "64 word \<Rightarrow> task_pool \<Rightarrow> u32 option res" where
  "osTidById appId p =
     task_search (\<lambda>k i t. Inr (case tk_app t of Some a \<Rightarrow> if ah_appId a = appId then Some (ucast (tk_tid t)) else None | None \<Rightarrow> None)) p"

definition osAppInfoById :: "64 word \<Rightarrow> task_pool \<Rightarrow> (u32 \<times> u32 \<times> u32) option res" where
  "osAppInfoById appId p =
     task_search (\<lambda>k i t. Inr (case tk_app t of
       Some a \<Rightarrow> if ah_appId a = appId then Some (word_of_nat k, ah_appVer a, ah_rel_end a) else None
     | None \<Rightarrow> None)) p"

definition osAppInfoByIndex :: "u32 \<Rightarrow> task_pool \<Rightarrow> (64 word \<times> u32 \<times> u32) option res" where
  "osAppInfoByIndex appIdx p =
     task_search (\<lambda>k i t. if word_of_nat k \<noteq> appIdx then Inr None
       else case tk_app t of None \<Rightarrow> Inl NullDeref | Some a \<Rightarrow> Inr (Some (ah_appId a, ah_appVer a, ah_rel_end a))) p"

section \<open>What the lists hold\<close>

definition tlink :: "task_pool \<Rightarrow> nat \<Rightarrow> task_list" where
  "tlink p i = tk_list (tp_data p ! i)"

text \<open>A task without its place in a list.\<close>

definition tbody :: "task_pool \<Rightarrow> nat \<Rightarrow> task" where
  "tbody p i = tk_list_update (\<lambda>_. list_init) (tp_data p ! i)"

definition list_is :: "list_head \<Rightarrow> task_pool \<Rightarrow> nat list \<Rightarrow> bool" where
  "list_is l p xs \<longleftrightarrow>
     dlinks (\<lambda>i. tl_next (tlink p i)) (\<lambda>i. tl_prev (tlink p i)) NO_NODE xs NO_NODE \<and>
     tl_next (head_get l p) = hd_or xs NO_NODE \<and> tl_prev (head_get l p) = last_or xs NO_NODE"

text \<open>The free tasks are \<open>fs\<close>, the running ones \<open>ts\<close>; a task may be in neither list.\<close>

definition pool_ok :: "task_pool \<Rightarrow> nat list \<Rightarrow> nat list \<Rightarrow> bool" where
  "pool_ok p fs ts \<longleftrightarrow>
     length (tp_data p) = MAX_TASKS \<and> list_is MFreeTasks p fs \<and> list_is MTasks p ts \<and>
     distinct (fs @ ts) \<and> set (fs @ ts) \<subseteq> {..<MAX_TASKS}"

lemma less_MAX_TASKS: "i < MAX_TASKS \<Longrightarrow> i \<noteq> NO_NODE"
  by (simp add: MAX_TASKS_def NO_NODE_def)

lemma pool_update_ok:
  assumes "i < length (tp_data p)"
  shows "\<exists>p'. pool_update i f p = Inr p' \<and> p' = p\<lparr>tp_data := (tp_data p)[i := f (tp_data p ! i)]\<rparr>"
  using assms by (simp add: pool_update_def)

lemma head_update_get [simp]: "head_get m (head_update l f p) = (if m = l then f (head_get m p) else head_get m p)"
  by (cases m; cases l) auto

lemma head_update_data [simp]: "tp_data (head_update l f p) = tp_data p"
  by (cases l) auto

lemma head_data [simp]: "head_get m (p\<lparr>tp_data := d\<rparr>) = head_get m p"
  by (cases m) auto

text \<open>Writing one link leaves the rest of the pool alone.\<close>

lemma link_update_ok:
  assumes "i = NO_NODE \<or> i < length (tp_data p)"
  shows "\<exists>p'. link_update l i f p = Inr p' \<and> length (tp_data p') = length (tp_data p) \<and> tbody p' = tbody p \<and>
    (\<forall>m. head_get m p' = (if m = l \<and> i = NO_NODE then f (head_get m p) else head_get m p)) \<and>
    tlink p' = (if i = NO_NODE then tlink p else (tlink p)(i := f (tlink p i)))"
proof (cases "i = NO_NODE")
  case True
  then show ?thesis by (simp add: link_update_def tbody_def tlink_def fun_eq_iff)
next
  case False
  then have "i < length (tp_data p)" using assms by simp
  then show ?thesis using False
    by (auto simp: link_update_def pool_update_def tbody_def tlink_def fun_eq_iff nth_list_update)
qed

lemma list_update_links:
  assumes "i < length (tp_data p)"
  shows "\<exists>p'. pool_update i (tk_list_update (\<lambda>_. l)) p = Inr p' \<and> length (tp_data p') = length (tp_data p) \<and>
    tbody p' = tbody p \<and> (\<forall>m. head_get m p' = head_get m p) \<and> tlink p' = (tlink p)(i := l)"
  using assms by (auto simp: pool_update_def tbody_def tlink_def fun_eq_iff nth_list_update)

lemma list_is_cong:
  assumes "\<And>i. i \<in> set xs \<Longrightarrow> tlink p' i = tlink p i" and "head_get l p' = head_get l p"
  shows "list_is l p' xs = list_is l p xs"
proof -
  have "dlinks (\<lambda>i. tl_next (tlink p' i)) (\<lambda>i. tl_prev (tlink p' i)) NO_NODE xs NO_NODE =
      dlinks (\<lambda>i. tl_next (tlink p i)) (\<lambda>i. tl_prev (tlink p i)) NO_NODE xs NO_NODE"
    using assms(1) by (intro dlinks_cong) simp
  then show ?thesis using assms(2) by (simp add: list_is_def)
qed

text \<open>A list with a node taken out, and with one put at its end.\<close>

lemma dlinks_out:
  assumes d: "dlinks nx pv p (us @ i # vs) n" and dist: "distinct (us @ i # vs)"
    and nx: "\<And>j. j \<in> set (us @ vs) \<Longrightarrow> nx' j = (if us \<noteq> [] \<and> j = last us then hd_or vs n else nx j)"
    and pv: "\<And>j. j \<in> set (us @ vs) \<Longrightarrow> pv' j = (if vs \<noteq> [] \<and> j = hd vs then last_or us p else pv j)"
  shows "dlinks nx' pv' p (us @ vs) n"
proof -
  have us: "dlinks nx pv p us i" and vs: "dlinks nx pv i vs n" using d by (simp_all add: dlinks_append)
  have apart: "us \<noteq> [] \<Longrightarrow> last us \<notin> set vs" "vs \<noteq> [] \<Longrightarrow> hd vs \<notin> set us"
    using dist last_in_set [of us] hd_in_set [of vs] by (auto simp: disjoint_iff)
  have "dlinks nx' pv' p us (hd_or vs n)"
  proof (cases us rule: rev_cases)
    case (snoc ws w)
    have "dlinks (nx(w := hd_or vs n)) pv p us (hd_or vs n)"
      using dlinks_next [of nx pv p ws w i "hd_or vs n"] us dist snoc by simp
    moreover have "dlinks nx' pv' p us (hd_or vs n) = dlinks (nx(w := hd_or vs n)) pv p us (hd_or vs n)"
      using snoc apart nx pv by (intro dlinks_cong) auto
    ultimately show ?thesis by simp
  qed simp
  moreover have "dlinks nx' pv' (last_or us p) vs n"
  proof (cases vs)
    case (Cons v ws)
    have "dlinks nx (pv(v := last_or us p)) (last_or us p) vs n"
      using dlinks_prev [of nx pv i v ws n] vs dist Cons by simp
    moreover have "dlinks nx' pv' (last_or us p) vs n = dlinks nx (pv(v := last_or us p)) (last_or us p) vs n"
      using Cons apart nx pv by (intro dlinks_cong) auto
    ultimately show ?thesis by simp
  qed simp
  ultimately show ?thesis by (simp add: dlinks_append)
qed

lemma remove_ok:
  assumes li: "list_is l p (us @ i # vs)" and dist: "distinct (us @ i # vs)" and len: "length (tp_data p) = MAX_TASKS"
    and sub: "set (us @ i # vs) \<subseteq> {..<MAX_TASKS}"
  shows "\<exists>p'. osTaskListRemoveTask l i p = Inr p' \<and> list_is l p' (us @ vs) \<and> length (tp_data p') = MAX_TASKS \<and>
    tbody p' = tbody p \<and> (\<forall>m. m \<noteq> l \<longrightarrow> head_get m p' = head_get m p) \<and> (\<forall>j. j \<notin> set (us @ i # vs) \<longrightarrow> tlink p' j = tlink p j)"
proof -
  define L where "L = last_or us NO_NODE"
  define R where "R = hd_or vs NO_NODE"
  have i: "i < length (tp_data p)" using sub len by simp
  have lr: "tl_prev (tlink p i) = L" "tl_next (tlink p i) = R" using li by (simp_all add: list_is_def dlinks_append L_def R_def)
  have L: "L = NO_NODE \<and> us = [] \<or> L \<in> set us \<and> L = last us \<and> L < MAX_TASKS \<and> us \<noteq> []" using sub by (cases us rule: rev_cases) (auto simp: L_def)
  have R: "R = NO_NODE \<and> vs = [] \<or> R \<in> set vs \<and> R = hd vs \<and> R < MAX_TASKS \<and> vs \<noteq> []" using sub by (cases vs) (auto simp: R_def)
  obtain p1 where p1: "pool_update i (tk_list_update (\<lambda>_. list_init)) p = Inr p1" "length (tp_data p1) = MAX_TASKS"
    "tbody p1 = tbody p" "\<And>m. head_get m p1 = head_get m p" "tlink p1 = (tlink p)(i := list_init)"
    using list_update_links [OF i] len by metis
  have "L = NO_NODE \<or> L < length (tp_data p1)" using L p1(2) by auto
  from link_update_ok [OF this, of l "tl_next_update (\<lambda>_. R)"] obtain p2 where
    p2: "link_update l L (tl_next_update (\<lambda>_. R)) p1 = Inr p2" "length (tp_data p2) = MAX_TASKS" "tbody p2 = tbody p"
    "\<And>m. head_get m p2 = (if m = l \<and> L = NO_NODE then tl_next_update (\<lambda>_. R) (head_get m p) else head_get m p)"
    "tlink p2 = (if L = NO_NODE then tlink p1 else (tlink p1)(L := tl_next_update (\<lambda>_. R) (tlink p1 L)))"
    using p1 by auto
  have "R = NO_NODE \<or> R < length (tp_data p2)" using R p2(2) by auto
  from link_update_ok [OF this, of l "tl_prev_update (\<lambda>_. L)"] obtain p3 where
    p3: "link_update l R (tl_prev_update (\<lambda>_. L)) p2 = Inr p3" "length (tp_data p3) = MAX_TASKS" "tbody p3 = tbody p"
    "\<And>m. head_get m p3 = (if m = l \<and> R = NO_NODE then tl_prev_update (\<lambda>_. L) (head_get m p2) else head_get m p2)"
    "tlink p3 = (if R = NO_NODE then tlink p2 else (tlink p2)(R := tl_prev_update (\<lambda>_. L) (tlink p2 R)))"
    using p2 by auto
  have run: "osTaskListRemoveTask l i p = Inr p3"
    using i lr p1(1) p2(1) p3(1) by (simp add: osTaskListRemoveTask_def tlink_def)
  have ne: "L \<noteq> i" "R \<noteq> i" "L = R \<Longrightarrow> L = NO_NODE" using L R dist sub less_MAX_TASKS [of i] by auto
  have p3n: "tl_next (tlink p3 j) = (if L \<noteq> NO_NODE \<and> j = L then R else tl_next (tlink p1 j))"
    and p3p: "tl_prev (tlink p3 j) = (if R \<noteq> NO_NODE \<and> j = R then L else tl_prev (tlink p1 j))" for j
    using p3(5) p2(5) by (simp_all split: if_splits)
  have p1j: "tlink p1 j = tlink p j" if "j \<in> set (us @ vs)" for j using that p1(5) dist by auto
  have nx: "tl_next (tlink p3 j) = (if us \<noteq> [] \<and> j = last us then R else tl_next (tlink p j))" if "j \<in> set (us @ vs)" for j
    using p1j [OF that] p3n [of j] L less_MAX_TASKS by auto
  have pv: "tl_prev (tlink p3 j) = (if vs \<noteq> [] \<and> j = hd vs then L else tl_prev (tlink p j))" if "j \<in> set (us @ vs)" for j
    using p1j [OF that] p3p [of j] R less_MAX_TASKS by auto
  have "dlinks (\<lambda>i. tl_next (tlink p3 i)) (\<lambda>i. tl_prev (tlink p3 i)) NO_NODE (us @ vs) NO_NODE"
  proof (rule dlinks_out [of "\<lambda>i. tl_next (tlink p i)" "\<lambda>i. tl_prev (tlink p i)" _ us i vs, OF _ dist])
    show "dlinks (\<lambda>i. tl_next (tlink p i)) (\<lambda>i. tl_prev (tlink p i)) NO_NODE (us @ i # vs) NO_NODE" using li by (simp add: list_is_def)
  qed (use nx pv in \<open>simp_all only: L_def R_def\<close>)
  moreover have "tl_next (head_get l p3) = hd_or (us @ vs) NO_NODE" "tl_prev (head_get l p3) = last_or (us @ vs) NO_NODE"
  proof -
    have hn: "tl_next (head_get l p3) = (if us = [] then R else tl_next (head_get l p))"
      and hp: "tl_prev (head_get l p3) = (if vs = [] then L else tl_prev (head_get l p))"
      using p3(4) [of l] p2(4) [of l] L R less_MAX_TASKS [of L] less_MAX_TASKS [of R] by auto
    show "tl_next (head_get l p3) = hd_or (us @ vs) NO_NODE" using hn li by (cases us) (simp_all add: list_is_def R_def)
    show "tl_prev (head_get l p3) = last_or (us @ vs) NO_NODE" using hp li by (cases vs) (simp_all add: list_is_def L_def last_or_def)
  qed
  ultimately have "list_is l p3 (us @ vs)" by (simp add: list_is_def)
  moreover have "tlink p3 j = tlink p j" if "j \<notin> set (us @ i # vs)" for j
    using that L R p3(5) p2(5) p1(5) by auto
  ultimately show ?thesis using run p3 p2(4) by auto
qed

lemma add_ok:
  assumes li: "list_is l p xs" and i: "i \<notin> set xs" "i < MAX_TASKS" and dist: "distinct xs"
    and len: "length (tp_data p) = MAX_TASKS" and sub: "set xs \<subseteq> {..<MAX_TASKS}"
  shows "\<exists>p'. osTaskListAddTail l i p = Inr p' \<and> list_is l p' (xs @ [i]) \<and> length (tp_data p') = MAX_TASKS \<and>
    tbody p' = tbody p \<and> (\<forall>m. m \<noteq> l \<longrightarrow> head_get m p' = head_get m p) \<and> (\<forall>j. j \<notin> set (xs @ [i]) \<longrightarrow> tlink p' j = tlink p j)"
proof -
  define L where "L = last_or xs NO_NODE"
  have head: "tl_prev (head_get l p) = L" using li by (simp add: list_is_def L_def)
  have L: "L = NO_NODE \<and> xs = [] \<or> L = last xs \<and> L \<in> set xs \<and> L < MAX_TASKS \<and> xs \<noteq> []" using sub by (cases xs rule: rev_cases) (auto simp: L_def)
  obtain p1 where p1: "pool_update i (tk_list_update (\<lambda>_. \<lparr>tl_prev = L, tl_next = NO_NODE\<rparr>)) p = Inr p1"
    "length (tp_data p1) = MAX_TASKS" "tbody p1 = tbody p" "\<And>m. head_get m p1 = head_get m p"
    "tlink p1 = (tlink p)(i := \<lparr>tl_prev = L, tl_next = NO_NODE\<rparr>)"
    using list_update_links [of i p] i(2) len by metis
  have "L = NO_NODE \<or> L < length (tp_data p1)" using L p1(2) by auto
  from link_update_ok [OF this, of l "tl_next_update (\<lambda>_. i)"] obtain p2 where
    p2: "link_update l L (tl_next_update (\<lambda>_. i)) p1 = Inr p2" "length (tp_data p2) = MAX_TASKS" "tbody p2 = tbody p"
    "\<And>m. head_get m p2 = (if m = l \<and> L = NO_NODE then tl_next_update (\<lambda>_. i) (head_get m p) else head_get m p)"
    "tlink p2 = (if L = NO_NODE then tlink p1 else (tlink p1)(L := tl_next_update (\<lambda>_. i) (tlink p1 L)))"
    using p1 by auto
  let ?p3 = "head_update l (tl_prev_update (\<lambda>_. i)) p2"
  have run: "osTaskListAddTail l i p = Inr ?p3" using head p1(1) p2(1) by (simp add: osTaskListAddTail_def)
  have same: "tlink ?p3 = tlink p2" "tbody ?p3 = tbody p2" by (simp_all add: tlink_def tbody_def fun_eq_iff)
  have ti: "tlink p2 i = \<lparr>tl_prev = L, tl_next = NO_NODE\<rparr>" using p2(5) p1(5) L i by auto
  have "dlinks (\<lambda>i. tl_next (tlink p2 i)) (\<lambda>i. tl_prev (tlink p2 i)) NO_NODE xs i"
  proof (cases xs rule: rev_cases)
    case (snoc ws w)
    let ?nx = "\<lambda>i. tl_next (tlink p i)" and ?pv = "\<lambda>i. tl_prev (tlink p i)"
    have w: "w = L" "L \<noteq> NO_NODE" "w \<notin> set ws" using L snoc less_MAX_TASKS dist by auto
    have "dlinks (?nx(w := i)) ?pv NO_NODE xs i" using li snoc w dlinks_next [of ?nx ?pv NO_NODE ws w NO_NODE i] by (simp add: list_is_def)
    moreover have "dlinks (\<lambda>i. tl_next (tlink p2 i)) (\<lambda>i. tl_prev (tlink p2 i)) NO_NODE xs i = dlinks (?nx(w := i)) ?pv NO_NODE xs i"
      using w i(1) p2(5) p1(5) snoc by (intro dlinks_cong) auto
    ultimately show ?thesis by simp
  qed simp
  then have "list_is l ?p3 (xs @ [i])"
    using ti p2(4) li L less_MAX_TASKS by (auto simp: list_is_def dlinks_append same L_def hd_or_def split: list.splits)
  moreover have "tlink p2 j = tlink p j" if "j \<notin> set (xs @ [i])" for j using that L p2(5) p1(5) by auto
  ultimately show ?thesis using run p2 same by auto
qed

section \<open>The operations on the pool\<close>

lemma pool_ok_index:
  assumes "pool_ok p fs ts" and "i \<in> set (fs @ ts)"
  shows "i < MAX_TASKS" and "i < length (tp_data p)"
  using assms by (auto simp: pool_ok_def)

text \<open>A write that leaves the links as they are, or that is into a task that is in no list.\<close>

lemma body_write_ok:
  assumes "pool_ok p fs ts" and "i < MAX_TASKS" and "tk_list (f (tp_data p ! i)) = tk_list (tp_data p ! i) \<or> i \<notin> set (fs @ ts)"
  shows "\<exists>p'. pool_update i f p = Inr p' \<and> pool_ok p' fs ts \<and>
    tp_data p' = (tp_data p)[i := f (tp_data p ! i)] \<and> (\<forall>m. head_get m p' = head_get m p)"
proof -
  have i: "i < length (tp_data p)" using assms(1,2) by (simp add: pool_ok_def)
  let ?p = "p\<lparr>tp_data := (tp_data p)[i := f (tp_data p ! i)]\<rparr>"
  have "tlink ?p j = tlink p j" if "j \<in> set fs \<or> j \<in> set ts" for j using assms(3) that i by (auto simp: tlink_def nth_list_update)
  then have "list_is MFreeTasks ?p fs = list_is MFreeTasks p fs" "list_is MTasks ?p ts = list_is MTasks p ts"
    by (auto intro!: list_is_cong)
  then show ?thesis using assms(1) i by (simp add: pool_update_def pool_ok_def)
qed

lemma tbody_write: "i < length (tp_data p) \<Longrightarrow>
  tp_data p' = (tp_data p)[i := t] \<Longrightarrow> tbody p' = (tbody p)(i := tk_list_update (\<lambda>_. list_init) t)"
  by (auto simp: tbody_def fun_eq_iff nth_list_update)

lemma tbody_fields:
  "tk_app (tbody p i) = tk_app (tp_data p ! i)" "tk_tid (tbody p i) = tk_tid (tp_data p ! i)"
  "tk_ioCount (tbody p i) = tk_ioCount (tp_data p ! i)" "tk_flags (tbody p i) = tk_flags (tp_data p ! i)"
  "tk_subbedEvents (tbody p i) = tk_subbedEvents (tp_data p ! i)" "tk_subbedEventsInt (tbody p i) = tk_subbedEventsInt (tp_data p ! i)"
  "tk_subbedEvtCount (tbody p i) = tk_subbedEvtCount (tp_data p ! i)" "tk_subbedEvtListSz (tbody p i) = tk_subbedEvtListSz (tp_data p ! i)"
  by (simp_all add: tbody_def)

lemma alloc_none: "pool_ok p [] ts \<Longrightarrow> osAllocTask p = Inr (None, p)"
  by (simp add: pool_ok_def list_is_def osAllocTask_def osTaskListPeekHead_def Let_def)

lemma alloc_some:
  assumes ok: "pool_ok p (i # fs) ts"
  shows "\<exists>p'. osAllocTask p = Inr (Some i, p') \<and> pool_ok p' fs ts \<and>
    tbody p' = (tbody p)(i := tk_list_update (\<lambda>_. list_init) (task_zero\<lparr>tk_tid := tk_tid (tp_data p ! i)\<rparr>))"
proof -
  have i: "i < MAX_TASKS" "i \<notin> set (fs @ ts)" and len: "length (tp_data p) = MAX_TASKS" and sub: "set (i # fs) \<subseteq> {..<MAX_TASKS}"
    and dist: "distinct ([] @ i # fs)" using ok by (auto simp: pool_ok_def)
  have "list_is MFreeTasks p ([] @ i # fs)" using ok by (simp add: pool_ok_def)
  from remove_ok [OF this dist len] obtain p1 where p1: "osTaskListRemoveTask MFreeTasks i p = Inr p1" "list_is MFreeTasks p1 fs"
    "length (tp_data p1) = MAX_TASKS" "tbody p1 = tbody p" "head_get MTasks p1 = head_get MTasks p"
    "\<And>j. j \<notin> set (i # fs) \<Longrightarrow> tlink p1 j = tlink p j" using sub by auto
  have "tlink p1 j = tlink p j" if "j \<in> set ts" for j using p1(6) [of j] that ok by (auto simp: pool_ok_def)
  with p1(5) have "list_is MTasks p1 ts = list_is MTasks p ts" by (intro list_is_cong) auto
  then have ok1: "pool_ok p1 fs ts" using ok p1 by (simp add: pool_ok_def)
  obtain p2 where p2: "pool_update i (\<lambda>t. task_zero\<lparr>tk_tid := tk_tid t\<rparr>) p1 = Inr p2" "pool_ok p2 fs ts"
    "tp_data p2 = (tp_data p1)[i := task_zero\<lparr>tk_tid := tk_tid (tp_data p1 ! i)\<rparr>]"
    using body_write_ok [OF ok1 i(1), of "\<lambda>t. task_zero\<lparr>tk_tid := tk_tid t\<rparr>"] i(2) by blast
  have "tk_tid (tp_data p1 ! i) = tk_tid (tp_data p ! i)" using p1(4) by (metis tbody_fields(2))
  then have "tbody p2 = (tbody p)(i := tk_list_update (\<lambda>_. list_init) (task_zero\<lparr>tk_tid := tk_tid (tp_data p ! i)\<rparr>))"
    using tbody_write [OF _ p2(3)] i(1) p1(3,4) by simp
  moreover have "tl_next (tp_free p) = i" using ok by (simp add: pool_ok_def list_is_def)
  ultimately show ?thesis
    using p1(1) p2 i(1) by (simp add: osAllocTask_def osTaskListPeekHead_def less_MAX_TASKS)
qed

lemma free_ok:
  assumes ok: "pool_ok p fs ts" and i: "i < MAX_TASKS" "i \<notin> set (fs @ ts)"
  shows "\<exists>p'. osFreeTask i p = Inr p' \<and> pool_ok p' (fs @ [i]) ts \<and>
    tbody p' = (tbody p)(i := (tbody p i)\<lparr>tk_flags := 0, tk_ioCount := 0\<rparr>)"
proof -
  obtain p1 where p1: "pool_update i (\<lambda>t. t\<lparr>tk_flags := 0, tk_ioCount := 0\<rparr>) p = Inr p1" "pool_ok p1 fs ts"
    "tp_data p1 = (tp_data p)[i := (tp_data p ! i)\<lparr>tk_flags := 0, tk_ioCount := 0\<rparr>]"
    using body_write_ok [OF ok i(1), of "\<lambda>t. t\<lparr>tk_flags := 0, tk_ioCount := 0\<rparr>"] by auto
  have "list_is MFreeTasks p1 fs" "i \<notin> set fs" "distinct fs" "length (tp_data p1) = MAX_TASKS" "set fs \<subseteq> {..<MAX_TASKS}"
    using p1(2) i by (simp_all add: pool_ok_def)
  from add_ok [OF this(1,2) i(1) this(3-5)] obtain p2 where p2: "osTaskListAddTail MFreeTasks i p1 = Inr p2"
    "list_is MFreeTasks p2 (fs @ [i])" "length (tp_data p2) = MAX_TASKS" "tbody p2 = tbody p1"
    "head_get MTasks p2 = head_get MTasks p1" "\<And>j. j \<notin> set (fs @ [i]) \<Longrightarrow> tlink p2 j = tlink p1 j" by auto
  have "tlink p2 j = tlink p1 j" if "j \<in> set ts" for j using p2(6) [of j] that p1(2) i by (auto simp: pool_ok_def)
  with p2(5) have "list_is MTasks p2 ts = list_is MTasks p1 ts" by (intro list_is_cong) auto
  then have "pool_ok p2 (fs @ [i]) ts" using p1(2) p2 i by (auto simp: pool_ok_def)
  moreover have "tbody p1 = (tbody p)(i := (tbody p i)\<lparr>tk_flags := 0, tk_ioCount := 0\<rparr>)"
    using tbody_write [OF _ p1(3)] i(1) ok
    by (cases "tp_data p ! i") (simp add: pool_ok_def tbody_def)
  ultimately show ?thesis using p1(1) p2 by (simp add: osFreeTask_def)
qed

lemma add_task_ok:
  assumes ok: "pool_ok p fs ts" and i: "i < MAX_TASKS" "i \<notin> set (fs @ ts)"
  shows "\<exists>p'. osAddTask i p = Inr p' \<and> pool_ok p' fs (ts @ [i]) \<and> tbody p' = tbody p"
proof -
  have "list_is MTasks p ts" "i \<notin> set ts" "distinct ts" "length (tp_data p) = MAX_TASKS" "set ts \<subseteq> {..<MAX_TASKS}"
    using ok i by (simp_all add: pool_ok_def)
  from add_ok [OF this(1,2) i(1) this(3-5)] obtain p2 where p2: "osTaskListAddTail MTasks i p = Inr p2"
    "list_is MTasks p2 (ts @ [i])" "length (tp_data p2) = MAX_TASKS" "tbody p2 = tbody p"
    "head_get MFreeTasks p2 = head_get MFreeTasks p" "\<And>j. j \<notin> set (ts @ [i]) \<Longrightarrow> tlink p2 j = tlink p j" by auto
  have "tlink p2 j = tlink p j" if "j \<in> set fs" for j using p2(6) [of j] that ok i by (auto simp: pool_ok_def)
  with p2(5) have "list_is MFreeTasks p2 fs = list_is MFreeTasks p fs" by (intro list_is_cong) auto
  then have "pool_ok p2 fs (ts @ [i])" using ok p2 i by (auto simp: pool_ok_def)
  then show ?thesis using p2 by (simp add: osAddTask_def)
qed

lemma remove_task_ok:
  assumes ok: "pool_ok p fs (us @ i # vs)"
  shows "\<exists>p'. osRemoveTask i p = Inr p' \<and> pool_ok p' fs (us @ vs) \<and> tbody p' = tbody p"
proof -
  have "list_is MTasks p (us @ i # vs)" "distinct (us @ i # vs)" "length (tp_data p) = MAX_TASKS" "set (us @ i # vs) \<subseteq> {..<MAX_TASKS}"
    using ok by (simp_all add: pool_ok_def)
  from remove_ok [OF this] obtain p2 where p2: "osTaskListRemoveTask MTasks i p = Inr p2"
    "list_is MTasks p2 (us @ vs)" "length (tp_data p2) = MAX_TASKS" "tbody p2 = tbody p"
    "head_get MFreeTasks p2 = head_get MFreeTasks p" "\<And>j. j \<notin> set (us @ i # vs) \<Longrightarrow> tlink p2 j = tlink p j" by auto
  have "tlink p2 j = tlink p j" if "j \<in> set fs" for j using p2(6) [of j] that ok by (auto simp: pool_ok_def)
  with p2(5) have "list_is MFreeTasks p2 fs = list_is MFreeTasks p fs" by (intro list_is_cong) auto
  then have "pool_ok p2 fs (us @ vs)" using ok p2 by (auto simp: pool_ok_def)
  then show ?thesis using p2 by (simp add: osRemoveTask_def)
qed

lemma init_pool_loop_ok:
  "pool_ok p [0..<i] [] \<Longrightarrow> i + k = MAX_TASKS \<Longrightarrow> (\<forall>j < MAX_TASKS. tbody p j = tk_list_update (\<lambda>_. list_init) task_zero) \<Longrightarrow>
     \<exists>p'. init_pool_loop k i p = Inr p' \<and> pool_ok p' [0..<MAX_TASKS] [] \<and>
       (\<forall>j < MAX_TASKS. tbody p' j = tk_list_update (\<lambda>_. list_init) task_zero)"
proof (induction k arbitrary: i p)
  case 0
  then show ?case by simp
next
  case (Suc k)
  then have i: "i < MAX_TASKS" "i \<notin> set ([0..<i] @ [])" by simp_all
  obtain p1 where p1: "pool_update i (tk_list_update (\<lambda>_. list_init)) p = Inr p1" "pool_ok p1 [0..<i] []"
    "tp_data p1 = (tp_data p)[i := tk_list_update (\<lambda>_. list_init) (tp_data p ! i)]"
    using body_write_ok [OF Suc.prems(1) i(1), of "tk_list_update (\<lambda>_. list_init)"] i(2) by auto
  have "i < length (tp_data p)" using Suc.prems(1) i(1) by (simp add: pool_ok_def)
  then have b1: "tbody p1 = tbody p" using p1(3) by (auto simp: tbody_def fun_eq_iff nth_list_update)
  from free_ok [OF p1(2) i] obtain p2 where p2: "osFreeTask i p1 = Inr p2" "pool_ok p2 ([0..<i] @ [i]) []"
    "tbody p2 = (tbody p1)(i := (tbody p1 i)\<lparr>tk_flags := 0, tk_ioCount := 0\<rparr>)" by blast
  have "\<forall>j < MAX_TASKS. tbody p2 j = tk_list_update (\<lambda>_. list_init) task_zero"
    using p2(3) b1 Suc.prems(3) i(1) by (simp add: task_zero_def)
  moreover have "pool_ok p2 [0..<Suc i] []" using p2(2) by simp
  moreover have "Suc i + k = MAX_TASKS" using Suc.prems(2) by simp
  ultimately obtain p' where "init_pool_loop k (Suc i) p2 = Inr p'" "pool_ok p' [0..<MAX_TASKS] []"
    "\<forall>j < MAX_TASKS. tbody p' j = tk_list_update (\<lambda>_. list_init) task_zero"
    using Suc.IH [of p2 "Suc i"] by blast
  then show ?case using p1(1) p2(1) by simp
qed

lemma init_ok:
  "\<exists>p. init_task_pool = Inr p \<and> pool_ok p [0..<MAX_TASKS] [] \<and> (\<forall>j < MAX_TASKS. tbody p j = tk_list_update (\<lambda>_. list_init) task_zero)"
  unfolding init_task_pool_def
  by (rule init_pool_loop_ok) (auto simp: pool_ok_def list_is_def list_init_def tbody_def)

section \<open>Task IDs\<close>

text \<open>The task ID of the slot \<open>i\<close> when it has been started \<open>n\<close> times.\<close>

definition tid_of :: "nat \<Rightarrow> nat \<Rightarrow> u16" where
  "tid_of n i = (if n = 0 then 0 else word_of_nat (256 * n + i))"

lemma unat_tid_of: "i < 256 \<Longrightarrow> unat (tid_of n i) = (if n = 0 then 0 else 256 * (n mod 256) + i)"
proof -
  assume i: "i < 256"
  have r: "n mod 256 \<le> 255" using mod_less_divisor [of 256 n] by linarith
  have "256 * n + i = 65536 * (n div 256) + (256 * (n mod 256) + i)" using div_mult_mod_eq [of n 256] by linarith
  then have "(256 * n + i) mod 65536 = (256 * (n mod 256) + i) mod 65536" by (metis mod_mult_self4)
  moreover have "256 * (n mod 256) + i < 65536" using i r by linarith
  ultimately have "(256 * n + i) mod 65536 = 256 * (n mod 256) + i" by (simp only: mod_less)
  then have "unat (word_of_nat (256 * n + i) :: u16) = 256 * (n mod 256) + i" by (simp only: unat_of_nat) simp
  then show ?thesis by (simp only: tid_of_def) simp
qed

lemma and_not_mask: "x AND NOT (mask n) = x - take_bit n (x :: 'a::len word)"
proof -
  have "(x AND NOT (mask n)) + (x AND mask n) = (x AND NOT (mask n)) OR (x AND mask n)"
    by (rule disjunctive_add_eq_or) (auto simp: bit_eq_iff bit_simps)
  also have "\<dots> = x" by (rule bit_word_eqI) (auto simp: bit_simps)
  finally show ?thesis by (simp add: take_bit_eq_mask eq_diff_eq)
qed

text \<open>\<open>MAKE_NEW_TID\<close> counts: also on the ID 0 of a slot that was never used.\<close>

lemma MAKE_NEW_TID_of:
  assumes "i < 256" and "tk_tid t = tid_of n i"
  shows "MAKE_NEW_TID i t = t\<lparr>tk_tid := tid_of (Suc n) i\<rparr>"
proof -
  define j where "j = (if n = 0 then 0 else i)"
  define x where "x = (word_of_nat (256 * Suc n + j) :: u16)"
  have j: "j < 256" using assms by (simp add: j_def)
  have m: "TASK_TID_COUNTER_MASK = NOT (mask 8)" "TASK_TID_IDX_MASK = mask 8"
    by (simp_all add: TASK_TID_COUNTER_MASK_def TASK_TID_IDX_MASK_def TASK_TID_INCREMENT_def mask_eq_exp_minus_1)
  have x: "tid_of n i + TASK_TID_INCREMENT = x" by (simp add: tid_of_def TASK_TID_INCREMENT_def x_def j_def)
  have e: "(2 :: nat) ^ 8 = 256" by simp
  have "(256 * Suc n + j) mod 256 = j" using j by (simp only: mod_mult_self4 mod_less)
  then have "take_bit 8 (256 * Suc n + j) = j" by (simp only: take_bit_eq_mod e)
  then have t: "take_bit 8 x = word_of_nat j" unfolding x_def by (simp only: take_bit_of_nat)
  have i: "(word_of_nat i :: u16) AND mask 8 = word_of_nat i"
    using assms(1) by (simp flip: take_bit_eq_mask add: take_bit_of_nat take_bit_nat_eq_self)
  have "(x AND NOT (mask 8)) OR word_of_nat i = (x AND NOT (mask 8)) + word_of_nat i"
  proof (rule disjunctive_add_eq_or [symmetric])
    have "(x AND NOT (mask 8)) AND (word_of_nat i AND mask 8) = 0" by (rule bit_word_eqI) (auto simp: bit_simps)
    then show "(x AND NOT (mask 8)) AND word_of_nat i = 0" by (simp only: i)
  qed
  also have "\<dots> = x - word_of_nat j + word_of_nat i" by (simp only: and_not_mask t)
  also have "\<dots> = tid_of (Suc n) i" by (simp add: tid_of_def x_def)
  finally show ?thesis unfolding MAKE_NEW_TID_def by (simp only: assms(2) x m i)
qed

section \<open>The searches\<close>

fun first_of :: "(nat \<Rightarrow> nat \<Rightarrow> 'a option) \<Rightarrow> nat \<Rightarrow> nat list \<Rightarrow> 'a option" where
  "first_of g k [] = None"
| "first_of g k (i # xs) = (case g k i of Some x \<Rightarrow> Some x | None \<Rightarrow> first_of g (k + 1) xs)"

lemma osTaskByIdx_simps [simp]: "osTaskByIdx NO_NODE = None" "i < MAX_TASKS \<Longrightarrow> osTaskByIdx i = Some i"
  by (simp_all add: osTaskByIdx_def NO_NODE_def MAX_TASKS_def)

lemma for_each_task_ok:
  assumes "dlinks (\<lambda>i. tl_next (tlink p i)) pv q ts NO_NODE" and "length ts < n" and "length (tp_data p) = MAX_TASKS"
    and "\<And>k i. i \<in> set ts \<Longrightarrow> i < MAX_TASKS \<and> f k i (tp_data p ! i) = Inr (g k i)"
  shows "for_each_task n (hd_or ts NO_NODE) k f p = Inr (first_of g k ts)"
  using assms
proof (induction ts arbitrary: n k q)
  case Nil
  then show ?case by (cases n) auto
next
  case (Cons i ts)
  obtain m where m: "n = Suc m" "length ts < m" using Cons.prems(2) by (cases n) auto
  have i: "i < MAX_TASKS" "f k i (tp_data p ! i) = Inr (g k i)" using Cons.prems(4) by auto
  have nx: "tl_next (tk_list (tp_data p ! i)) = hd_or ts NO_NODE" using Cons.prems(1) by (simp add: tlink_def)
  have "for_each_task m (hd_or ts NO_NODE) (k + 1) f p = Inr (first_of g (k + 1) ts)"
    using Cons.IH [of i m "k + 1"] Cons.prems m(2) by auto
  then show ?case using m(1) i nx Cons.prems(3) by (auto split: option.split)
qed

lemma task_list_length:
  assumes "pool_ok p fs ts"
  shows "length ts \<le> MAX_TASKS"
proof -
  have "card (set ts) \<le> card {..<MAX_TASKS}" using assms by (intro card_mono) (auto simp: pool_ok_def)
  moreover have "card (set ts) = length ts" using assms by (intro distinct_card) (simp add: pool_ok_def)
  ultimately show ?thesis by simp
qed

lemma search_ok:
  assumes ok: "pool_ok p fs ts" and f: "\<And>k i. i \<in> set ts \<Longrightarrow> f k i (tp_data p ! i) = Inr (g k i)"
  shows "task_search f p = Inr (first_of g 0 ts)"
proof -
  have "tl_next (tp_tasks p) = hd_or ts NO_NODE" using ok by (simp add: pool_ok_def list_is_def)
  moreover have "for_each_task (Suc MAX_TASKS) (hd_or ts NO_NODE) 0 f p = Inr (first_of g 0 ts)"
  proof (rule for_each_task_ok)
    show "dlinks (\<lambda>i. tl_next (tlink p i)) (\<lambda>i. tl_prev (tlink p i)) NO_NODE ts NO_NODE"
      using ok by (simp add: pool_ok_def list_is_def)
  qed (use ok f task_list_length [OF ok] in \<open>auto simp: pool_ok_def\<close>)
  ultimately show ?thesis by (simp add: task_search_def)
qed

end
