(* ===== verification/Hub_EvtQ.thy ===== *)
theory Hub_EvtQ
  imports Hub_Slab "HOL-Library.Multiset"
begin

text \<open>
  The event queue of the context hub's scheduler (\<open>contexthub/firmware/src/eventQ.c\<close>): a doubly linked list
  of records that are items of a slab, and the proof that it is a list with room for so many events.
  What the callback \<open>forceDiscardCbk\<close> is told is kept as a trace; \<open>platWake\<close> has no state here.
\<close>

section \<open>The queue\<close>

definition EVENT_TYPE_BIT_DISCARDABLE :: u32 where
  "EVENT_TYPE_BIT_DISCARDABLE = 0x8000"

text \<open>An event: \<open>evtType\<close>, \<open>evtData\<close>, \<open>evtFreeData\<close>.\<close>

type_synonym event = "u32 \<times> u32 \<times> u32"

record evt_record =
  er_next :: "u32 option"
  er_prev :: "u32 option"
  er_evt :: event

type_synonym records = "u32 \<Rightarrow> evt_record option"

record evt_queue =
  eq_head :: "u32 option"
  eq_tail :: "u32 option"
  eq_evtsSlab :: slab
  eq_slabPtr :: nat
  eq_recs :: records
  eq_discarded :: "event list"

definition rec_load :: "records \<Rightarrow> u32 \<Rightarrow> evt_record res" where
  "rec_load m a = (case m a of None \<Rightarrow> Inl UseAfterFree | Some r \<Rightarrow> Inr r)"

definition rec_update :: "(evt_record \<Rightarrow> evt_record) \<Rightarrow> u32 option \<Rightarrow> records \<Rightarrow> records res" where
  "rec_update f p m =
     (case p of None \<Rightarrow> Inl NullDeref | Some a \<Rightarrow> bindE (rec_load m a) (\<lambda>r. Inr (m(a \<mapsto> f r))))"

definition is_discardable :: "event \<Rightarrow> bool" where
  "is_discardable e \<longleftrightarrow> fst e AND EVENT_TYPE_BIT_DISCARDABLE \<noteq> 0"

definition evtQueueAlloc :: "u32 \<Rightarrow> u32 \<Rightarrow> nat \<Rightarrow> hub_heap \<Rightarrow> ((nat \<times> evt_queue) option \<times> hub_heap) res" where
  "evtQueueAlloc base numRecs tid h =
     bindE (heapAlloc 16 tid h) (\<lambda>(q, h1).
     bindE (slabAllocatorNew base 20 4 numRecs tid h1) (\<lambda>(slab, h2).
       case (q, slab) of
         (Some a, Some (p, s)) \<Rightarrow>
           Inr (Some (a, \<lparr>eq_head = None, eq_tail = None, eq_evtsSlab = s, eq_slabPtr = p, eq_recs = Map.empty,
                          eq_discarded = []\<rparr>), h2)
       | _ \<Rightarrow>
           bindE (case q of None \<Rightarrow> Inr h2 | Some a \<Rightarrow> heapFree (Some a) h2) (\<lambda>h3.
           bindE (case slab of None \<Rightarrow> Inr h3 | Some (p, s) \<Rightarrow> slabAllocatorDestroy p h3) (\<lambda>h4.
             Inr (None, h4)))))"

text \<open>The loops over the records go round at most once for every item of the slab.\<close>

definition evtq_fuel :: "evt_queue \<Rightarrow> nat" where
  "evtq_fuel q = Suc (unat (slabAllocatorGetNumItems (eq_evtsSlab q)))"

text \<open>The record goes back to the slab; nobody may read it any more.\<close>

definition free_record :: "u32 \<Rightarrow> evt_queue \<Rightarrow> evt_queue res" where
  "free_record a q =
     bindE (slabAllocatorFree a (eq_evtsSlab q)) (\<lambda>s. Inr (q\<lparr>eq_evtsSlab := s, eq_recs := (eq_recs q)(a := None)\<rparr>))"

fun drain_loop :: "nat \<Rightarrow> evt_queue \<Rightarrow> evt_queue res" where
  "drain_loop 0 q = Inl Hang"
| "drain_loop (Suc n) q =
     (case eq_head q of
        None \<Rightarrow> Inr q
      | Some t \<Rightarrow>
          bindE (rec_load (eq_recs q) t) (\<lambda>r.
          bindE (free_record t (q\<lparr>eq_head := er_next r, eq_discarded := eq_discarded q @ [er_evt r]\<rparr>)) (\<lambda>q1.
            drain_loop n q1)))"

definition evtQueueFree :: "nat \<Rightarrow> evt_queue \<Rightarrow> hub_heap \<Rightarrow> (event list \<times> hub_heap) res" where
  "evtQueueFree ptr q h =
     bindE (drain_loop (evtq_fuel q) q) (\<lambda>q1.
     bindE (slabAllocatorDestroy (eq_slabPtr q1) h) (\<lambda>h1.
     bindE (heapFree (Some ptr) h1) (\<lambda>h2. Inr (eq_discarded q1, h2))))"

text \<open>Looking for a victim.\<close>

fun victim_loop :: "nat \<Rightarrow> records \<Rightarrow> u32 option \<Rightarrow> u32 option res" where
  "victim_loop 0 m p = Inl Hang"
| "victim_loop (Suc n) m p =
     (case p of
        None \<Rightarrow> Inr None
      | Some a \<Rightarrow> bindE (rec_load m a) (\<lambda>r. if is_discardable (er_evt r) then Inr (Some a) else victim_loop n m (er_next r)))"

text \<open>Discarding it and taking it out of the list.\<close>

definition unlink_prev :: "evt_record \<Rightarrow> evt_queue \<Rightarrow> evt_queue res" where
  "unlink_prev r q =
     (case er_prev r of
        None \<Rightarrow> Inr (q\<lparr>eq_head := er_next r\<rparr>)
      | Some a \<Rightarrow> bindE (rec_update (er_next_update (\<lambda>_. er_next r)) (Some a) (eq_recs q)) (\<lambda>m. Inr (q\<lparr>eq_recs := m\<rparr>)))"

definition unlink_next :: "evt_record \<Rightarrow> evt_queue \<Rightarrow> evt_queue res" where
  "unlink_next r q =
     (case er_next r of
        None \<Rightarrow> Inr (q\<lparr>eq_tail := er_prev r\<rparr>)
      | Some a \<Rightarrow> bindE (rec_update (er_prev_update (\<lambda>_. er_prev r)) (Some a) (eq_recs q)) (\<lambda>m. Inr (q\<lparr>eq_recs := m\<rparr>)))"

definition unlink_victim :: "u32 \<Rightarrow> evt_queue \<Rightarrow> evt_queue res" where
  "unlink_victim a q =
     bindE (rec_load (eq_recs q) a) (\<lambda>r.
     bindE (unlink_prev r (q\<lparr>eq_discarded := eq_discarded q @ [er_evt r]\<rparr>)) (unlink_next r))"

text \<open>A record for the new event, from the slab or from a victim.\<close>

definition get_record :: "evt_queue \<Rightarrow> (u32 option \<times> evt_queue) res" where
  "get_record q =
     (case slabAllocatorAlloc (eq_evtsSlab q) of
        (Some a, s) \<Rightarrow> Inr (Some a, q\<lparr>eq_evtsSlab := s\<rparr>)
      | (None, s) \<Rightarrow>
          bindE (victim_loop (evtq_fuel q) (eq_recs q) (eq_head q)) (\<lambda>v.
            case v of
              None \<Rightarrow> Inr (None, q\<lparr>eq_evtsSlab := s\<rparr>)
            | Some a \<Rightarrow> bindE (unlink_victim a (q\<lparr>eq_evtsSlab := s\<rparr>)) (\<lambda>q1. Inr (Some a, q1))))"

definition link_front :: "u32 \<Rightarrow> event \<Rightarrow> evt_queue \<Rightarrow> evt_queue res" where
  "link_front a e q =
     (let m = (eq_recs q)(a \<mapsto> \<lparr>er_next = eq_head q, er_prev = None, er_evt = e\<rparr>)
      in case eq_tail q of
           None \<Rightarrow> Inr (q\<lparr>eq_recs := m, eq_head := Some a, eq_tail := Some a\<rparr>)
         | Some _ \<Rightarrow> bindE (rec_update (er_prev_update (\<lambda>_. Some a)) (eq_head q) m) (\<lambda>m'. Inr (q\<lparr>eq_recs := m', eq_head := Some a\<rparr>)))"

definition link_back :: "u32 \<Rightarrow> event \<Rightarrow> evt_queue \<Rightarrow> evt_queue res" where
  "link_back a e q =
     (let m = (eq_recs q)(a \<mapsto> \<lparr>er_next = None, er_prev = eq_tail q, er_evt = e\<rparr>)
      in case eq_head q of
           None \<Rightarrow> Inr (q\<lparr>eq_recs := m, eq_tail := Some a, eq_head := Some a\<rparr>)
         | Some _ \<Rightarrow> bindE (rec_update (er_next_update (\<lambda>_. Some a)) (eq_tail q) m) (\<lambda>m'. Inr (q\<lparr>eq_recs := m', eq_tail := Some a\<rparr>)))"

definition evtQueueEnqueue :: "evt_queue option \<Rightarrow> event \<Rightarrow> bool \<Rightarrow> (bool \<times> evt_queue option) res" where
  "evtQueueEnqueue qp e atFront =
     (case qp of
        None \<Rightarrow> Inr (False, None)
      | Some q \<Rightarrow>
          bindE (get_record q) (\<lambda>(rec, q1).
            case rec of
              None \<Rightarrow> Inr (False, Some q1)
            | Some a \<Rightarrow> bindE (if atFront then link_front a e q1 else link_back a e q1) (\<lambda>q2. Inr (True, Some q2))))"

text \<open>
  While the queue is empty and \<open>sleepIfNone\<close>, a round runs the timers that are due and may sleep; the
  events that others enqueue in a round are the next entry of \<open>rounds\<close>, and no entry means that
  nothing ever happens again.
\<close>

fun enqueue_all :: "(event \<times> bool) list \<Rightarrow> evt_queue \<Rightarrow> evt_queue res" where
  "enqueue_all [] q = Inr q"
| "enqueue_all ((e, f) # es) q =
     bindE (evtQueueEnqueue (Some q) e f) (\<lambda>(b, qp). case qp of None \<Rightarrow> Inl NullDeref | Some q1 \<Rightarrow> enqueue_all es q1)"

definition take_first :: "evt_queue \<Rightarrow> (event option \<times> evt_queue) res" where
  "take_first q =
     (case eq_head q of
        None \<Rightarrow> Inr (None, q)
      | Some a \<Rightarrow>
          bindE (rec_load (eq_recs q) a) (\<lambda>r.
          bindE (case er_next r of
                   None \<Rightarrow> Inr (q\<lparr>eq_head := None, eq_tail := None\<rparr>)
                 | Some b \<Rightarrow> bindE (rec_update (er_prev_update (\<lambda>_. None)) (Some b) (eq_recs q)) (\<lambda>m. Inr (q\<lparr>eq_head := Some b, eq_recs := m\<rparr>)))
            (\<lambda>q1. bindE (free_record a q1) (\<lambda>q2. Inr (Some (er_evt r), q2)))))"

fun evtQueueDequeue :: "bool \<Rightarrow> (event \<times> bool) list list \<Rightarrow> evt_queue \<Rightarrow> (event option \<times> evt_queue) res" where
  "evtQueueDequeue sleepIfNone rounds q =
     (if eq_head q \<noteq> None \<or> \<not> sleepIfNone then take_first q
      else case rounds of
             [] \<Rightarrow> Inl Hang
           | es # rounds' \<Rightarrow> bindE (enqueue_all es q) (evtQueueDequeue sleepIfNone rounds'))"

declare evtQueueDequeue.simps [simp del]

section \<open>Chains of records\<close>

text \<open>The address that follows in a list, and the one before.\<close>

definition first :: "u32 list \<Rightarrow> u32 option \<Rightarrow> u32 option" where
  "first xs n = (case xs of [] \<Rightarrow> n | x # _ \<Rightarrow> Some x)"

definition lasto :: "u32 option \<Rightarrow> u32 list \<Rightarrow> u32 option" where
  "lasto p xs = (if xs = [] then p else Some (last xs))"

text \<open>The records at \<open>xs\<close> are linked both ways, between \<open>p\<close> and \<open>n\<close>, and hold the events \<open>es\<close>.\<close>

fun chain :: "records \<Rightarrow> u32 option \<Rightarrow> u32 list \<Rightarrow> event list \<Rightarrow> u32 option \<Rightarrow> bool" where
  "chain m p [] [] n = True"
| "chain m p (x # xs) (e # es) n =
     (m x = Some \<lparr>er_next = first xs n, er_prev = p, er_evt = e\<rparr> \<and> chain m (Some x) xs es n)"
| "chain m p xs es n = False"

lemma first_simps [simp]: "first [] n = n" "first (x # xs) n = Some x" "first (xs @ ys) n = first xs (first ys n)"
  by (auto simp: first_def split: list.split)

lemma lasto_simps [simp]: "lasto p [] = p" "lasto p (x # xs) = lasto (Some x) xs" "lasto p (xs @ ys) = lasto (lasto p xs) ys"
  by (auto simp: lasto_def)

lemma lasto_Some: "lasto (Some x) xs = Some (last (x # xs))"
  by (simp add: lasto_def)

lemma chain_length: "chain m p xs es n \<Longrightarrow> length xs = length es"
  by (induction m p xs es n rule: chain.induct) auto

lemma chain_dom: "chain m p xs es n \<Longrightarrow> x \<in> set xs \<Longrightarrow> m x \<noteq> None"
  by (induction m p xs es n rule: chain.induct) auto

lemma chain_append:
  "length xs = length es \<Longrightarrow>
     chain m p (xs @ ys) (es @ fs) n \<longleftrightarrow> chain m p xs es (first ys n) \<and> chain m (lasto p xs) ys fs n"
  by (induction xs es arbitrary: p rule: list_induct2) auto

lemma chain_cong: "(\<And>x. x \<in> set xs \<Longrightarrow> m' x = m x) \<Longrightarrow> chain m' p xs es n = chain m p xs es n"
  by (induction m p xs es n rule: chain.induct) auto

text \<open>Relinking one end.\<close>

lemma chain_prev:
  assumes "chain m p (x # xs) es n" and "x \<notin> set xs"
  shows "\<exists>m'. rec_update (er_prev_update (\<lambda>_. p')) (Some x) m = Inr m' \<and> chain m' p' (x # xs) es n \<and>
    (\<forall>y. y \<noteq> x \<longrightarrow> m' y = m y)"
proof (cases es)
  case (Cons e fs)
  let ?m = "m(x \<mapsto> \<lparr>er_next = first xs n, er_prev = p', er_evt = e\<rparr>)"
  have "chain ?m (Some x) xs fs n" using assms Cons by (subst chain_cong [of _ _ m]) auto
  then show ?thesis using assms(1) Cons by (simp add: rec_update_def rec_load_def)
qed (use assms in simp)

lemma chain_next:
  assumes c: "chain m p (xs @ [x]) es n" and "x \<notin> set xs"
  shows "\<exists>m'. rec_update (er_next_update (\<lambda>_. n')) (Some x) m = Inr m' \<and> chain m' p (xs @ [x]) es n' \<and>
    (\<forall>y. y \<noteq> x \<longrightarrow> m' y = m y)"
proof -
  have "es \<noteq> []" using chain_length [OF c] by auto
  then obtain fs e where es: "es = fs @ [e]" by (metis rev_exhaust)
  have len: "length xs = length fs" using chain_length [OF c] es by simp
  have x: "m x = Some \<lparr>er_next = n, er_prev = lasto p xs, er_evt = e\<rparr>" and xs: "chain m p xs fs (Some x)"
    using c by (simp_all add: es chain_append [OF len])
  let ?m = "m(x \<mapsto> \<lparr>er_next = n', er_prev = lasto p xs, er_evt = e\<rparr>)"
  have "chain ?m p xs fs (Some x)" using xs assms(2) by (subst chain_cong [of _ _ m]) auto
  then have "chain ?m p (xs @ [x]) es n'" by (simp add: es chain_append [OF len])
  then show ?thesis using x by (auto simp: rec_update_def rec_load_def)
qed

section \<open>What the queue holds\<close>

text \<open>
  \<open>queue_ok q xs es\<close>: the records at \<open>xs\<close>, which are the items of the slab that are taken, hold the events
  \<open>es\<close> in this order.
\<close>

definition linked :: "evt_queue \<Rightarrow> u32 list \<Rightarrow> event list \<Rightarrow> bool" where
  "linked q xs es \<longleftrightarrow>
     chain (eq_recs q) None xs es None \<and> eq_head q = first xs None \<and> eq_tail q = lasto None xs \<and> distinct xs"

definition queue_ok :: "evt_queue \<Rightarrow> u32 list \<Rightarrow> event list \<Rightarrow> bool" where
  "queue_ok q xs es \<longleftrightarrow>
     linked q xs es \<and> slab_ok (eq_evtsSlab q) \<and> unat ` set xs = fst ` slab_live (eq_evtsSlab q)"

text \<open>The queue as a list with room for \<open>cap\<close> events.\<close>

primrec victim :: "event list \<Rightarrow> (event \<times> event list) option" where
  "victim [] = None"
| "victim (e # es) = (if is_discardable e then Some (e, es) else map_option (map_prod id ((#) e)) (victim es))"

definition put :: "event \<Rightarrow> bool \<Rightarrow> event list \<Rightarrow> event list" where
  "put e atFront es = (if atFront then e # es else es @ [e])"

text \<open>Result: was the event taken, what was discarded for it, and the list after.\<close>

definition enqueue_spec :: "nat \<Rightarrow> event \<Rightarrow> bool \<Rightarrow> event list \<Rightarrow> bool \<times> event list \<times> event list" where
  "enqueue_spec cap e atFront es =
     (if length es < cap then (True, [], put e atFront es)
      else case victim es of None \<Rightarrow> (False, [], es) | Some (v, es') \<Rightarrow> (True, [v], put e atFront es'))"

definition eq_cap :: "evt_queue \<Rightarrow> nat" where
  "eq_cap q = unat (slabAllocatorGetNumItems (eq_evtsSlab q))"

lemma card_live:
  assumes "slab_ok s" and "unat ` set xs = fst ` slab_live s" and "distinct xs"
  shows "length xs = card (slab_live s)"
proof -
  have "inj_on fst (slab_live s)" using assms(1) by (auto simp: slab_live_def inj_on_def slab_ok_def item_addr_inj)
  then have "card (slab_live s) = card (unat ` set xs)" using assms(2) card_image by metis
  also have "\<dots> = card (set xs)" by (intro card_image) (simp add: inj_on_def word_unat_eq_iff)
  finally show ?thesis using distinct_card [OF assms(3)] by simp
qed

section \<open>The operations on chains\<close>

lemma chain_insert: "a \<notin> set xs \<Longrightarrow> chain (m(a \<mapsto> r)) p xs es n = chain m p xs es n"
  by (rule chain_cong) auto

lemma link_front_ok:
  assumes l: "linked q xs es" and a: "a \<notin> set xs"
  shows "\<exists>q'. link_front a e q = Inr q' \<and> linked q' (a # xs) (e # es) \<and> eq_evtsSlab q' = eq_evtsSlab q \<and> eq_slabPtr q' = eq_slabPtr q \<and>
    eq_discarded q' = eq_discarded q"
proof (cases xs)
  case Nil
  then show ?thesis using l by (cases es) (simp_all add: linked_def link_front_def)
next
  case (Cons x ys)
  let ?m = "(eq_recs q)(a \<mapsto> \<lparr>er_next = eq_head q, er_prev = None, er_evt = e\<rparr>)"
  have "chain ?m None (x # ys) es None" "x \<notin> set ys" using l a Cons by (simp_all add: linked_def chain_insert)
  from chain_prev [OF this, of "Some a"] obtain m' where m': "rec_update (er_prev_update (\<lambda>_. Some a)) (Some x) ?m = Inr m'"
    "chain m' (Some a) (x # ys) es None" "\<forall>y. y \<noteq> x \<longrightarrow> m' y = ?m y" by blast
  then have "m' a = Some \<lparr>er_next = Some x, er_prev = None, er_evt = e\<rparr>" using a Cons l by (auto simp: linked_def)
  then show ?thesis using l a Cons m' by (auto simp: linked_def link_front_def lasto_Some)
qed

lemma link_back_ok:
  assumes l: "linked q xs es" and a: "a \<notin> set xs"
  shows "\<exists>q'. link_back a e q = Inr q' \<and> linked q' (xs @ [a]) (es @ [e]) \<and> eq_evtsSlab q' = eq_evtsSlab q \<and> eq_slabPtr q' = eq_slabPtr q \<and>
    eq_discarded q' = eq_discarded q"
proof (cases xs rule: rev_exhaust)
  case Nil
  then show ?thesis using l by (cases es) (simp_all add: linked_def link_back_def)
next
  case (snoc ys x)
  let ?m = "(eq_recs q)(a \<mapsto> \<lparr>er_next = None, er_prev = eq_tail q, er_evt = e\<rparr>)"
  have c: "chain ?m None (ys @ [x]) es None" "x \<notin> set ys" using l a snoc by (simp_all add: linked_def chain_insert)
  from chain_next [OF this, of "Some a"] obtain m' where m': "rec_update (er_next_update (\<lambda>_. Some a)) (Some x) ?m = Inr m'"
    "chain m' None (ys @ [x]) es (Some a)" "\<forall>y. y \<noteq> x \<longrightarrow> m' y = ?m y" by blast
  then have "m' a = Some \<lparr>er_next = None, er_prev = Some x, er_evt = e\<rparr>" using a snoc l by (auto simp: linked_def)
  moreover have "length (ys @ [x]) = length es" using chain_length [OF c(1)] .
  from chain_append [OF this, of m' None "[a]" "[e]" None] have
    "chain m' None ((ys @ [x]) @ [a]) (es @ [e]) None \<longleftrightarrow> chain m' None (ys @ [x]) es (Some a) \<and> chain m' (Some x) [a] [e] None"
    by (simp add: lasto_def)
  ultimately have "chain m' None (xs @ [a]) (es @ [e]) None" using m'(2) snoc by simp
  moreover have "eq_head q \<noteq> None" "eq_tail q = Some x" using l snoc by (auto simp: linked_def first_def split: list.split)
  ultimately show ?thesis using l a snoc m'(1) by (auto simp: linked_def link_back_def Let_def lasto_def split: option.split)
qed

lemma unlink_victim_ok:
  assumes l: "linked q (us @ a # vs) (es @ e # fs)" and len: "length us = length es"
  shows "\<exists>q'. unlink_victim a q = Inr q' \<and> linked q' (us @ vs) (es @ fs) \<and> eq_evtsSlab q' = eq_evtsSlab q \<and> eq_slabPtr q' = eq_slabPtr q \<and>
    eq_discarded q' = eq_discarded q @ [e]"
proof -
  let ?m = "eq_recs q" and ?n = "first vs None" and ?p = "lasto None us"
  let ?r = "\<lparr>er_next = ?n, er_prev = ?p, er_evt = e\<rparr>"
  have us: "chain ?m None us es (Some a)" and vs: "chain ?m (Some a) vs fs None"
    and a: "?m a = Some \<lparr>er_next = ?n, er_prev = ?p, er_evt = e\<rparr>"
    and dist: "distinct (us @ a # vs)" and ends: "eq_head q = first us (Some a)" "eq_tail q = lasto (Some a) vs"
    using l by (simp_all add: linked_def chain_append [OF len])
  let ?q0 = "q\<lparr>eq_discarded := eq_discarded q @ [e]\<rparr>"
  have "\<exists>m'. unlink_prev ?r ?q0 = Inr (?q0\<lparr>eq_recs := m', eq_head := first us ?n\<rparr>) \<and> chain m' None us es ?n \<and> chain m' (Some a) vs fs None"
  proof (cases us rule: rev_exhaust)
    case Nil
    then show ?thesis using us vs by (cases es) (auto simp: unlink_prev_def intro!: exI [of _ ?m])
  next
    case (snoc ws u)
    then have "u \<notin> set ws" using dist by simp
    from chain_next [OF us [unfolded snoc] this, of ?n] obtain m' where
      m': "rec_update (er_next_update (\<lambda>_. ?n)) (Some u) ?m = Inr m'" "chain m' None (ws @ [u]) es ?n"
      "\<forall>y. y \<noteq> u \<longrightarrow> m' y = ?m y" by blast
    have "u \<notin> set vs" using dist snoc by auto
    then have "chain m' (Some a) vs fs None" using vs m'(3) by (subst chain_cong [of _ _ ?m]) auto
    moreover have "first us ?n = eq_head q" using snoc ends(1) by (auto simp: first_def split: list.split)
    ultimately show ?thesis using m'(1,2) snoc by (intro exI [of _ m']) (simp add: unlink_prev_def)
  qed
  then obtain m1 where m1: "unlink_prev ?r ?q0 = Inr (?q0\<lparr>eq_recs := m1, eq_head := first us ?n\<rparr>)" "chain m1 None us es ?n" "chain m1 (Some a) vs fs None" by blast
  let ?q1 = "?q0\<lparr>eq_recs := m1, eq_head := first us ?n\<rparr>"
  have "\<exists>m'. unlink_next ?r ?q1 = Inr (?q1\<lparr>eq_recs := m', eq_tail := lasto ?p vs\<rparr>) \<and> chain m' None us es ?n \<and> chain m' ?p vs fs None"
  proof (cases vs)
    case Nil
    then show ?thesis using m1(2,3) by (cases fs) (auto simp: unlink_next_def intro!: exI [of _ m1])
  next
    case (Cons v ws)
    then have "v \<notin> set ws" using dist by simp
    from chain_prev [OF m1(3) [unfolded Cons] this, of ?p] obtain m' where
      m': "rec_update (er_prev_update (\<lambda>_. ?p)) (Some v) m1 = Inr m'" "chain m' ?p (v # ws) fs None"
      "\<forall>y. y \<noteq> v \<longrightarrow> m' y = m1 y" by blast
    have "v \<notin> set us" using dist Cons by auto
    then have "chain m' None us es ?n" using m1(2) m'(3) by (subst chain_cong [of _ _ m1]) auto
    moreover have "lasto ?p vs = eq_tail q" using Cons ends(2) by simp
    ultimately show ?thesis using m'(1,2) Cons by (intro exI [of _ m']) (simp add: unlink_next_def)
  qed
  then obtain m2 where m2: "unlink_next ?r ?q1 = Inr (?q1\<lparr>eq_recs := m2, eq_tail := lasto ?p vs\<rparr>)" "chain m2 None us es ?n" "chain m2 ?p vs fs None" by blast
  have "unlink_victim a q = Inr (?q1\<lparr>eq_recs := m2, eq_tail := lasto ?p vs\<rparr>)"
    using m1(1) m2(1) by (simp add: unlink_victim_def rec_load_def a)
  moreover have "linked (?q1\<lparr>eq_recs := m2, eq_tail := lasto ?p vs\<rparr>) (us @ vs) (es @ fs)"
    using m2(2,3) dist by (simp add: linked_def chain_append [OF len])
  ultimately show ?thesis by simp
qed

lemma victim_loop_ok:
  assumes "chain m p xs es None" and "length xs < n"
  shows "(victim es = None \<and> victim_loop n m (first xs None) = Inr None) \<or>
    (\<exists>us a vs fs e gs. xs = us @ a # vs \<and> es = fs @ e # gs \<and> length us = length fs \<and>
       victim es = Some (e, fs @ gs) \<and> victim_loop n m (first xs None) = Inr (Some a))"
  using assms
proof (induction xs arbitrary: p es n)
  case Nil
  then show ?case by (cases es; cases n) auto
next
  case (Cons x xs)
  then obtain e es' k where e: "es = e # es'" "n = Suc k" by (cases es; cases n) auto
  with Cons.prems have x: "m x = Some \<lparr>er_next = first xs None, er_prev = p, er_evt = e\<rparr>"
    and c: "chain m (Some x) xs es' None" "length xs < k" by auto
  show ?case
  proof (cases "is_discardable e")
    case True
    then show ?thesis using e x chain_length [OF c(1)]
      by (intro disjI2 exI [of _ "[]"] exI [of _ x] exI [of _ xs] exI [of _ e] exI [of _ es']) (simp add: rec_load_def)
  next
    case False
    from Cons.IH [OF c] show ?thesis
    proof (elim disjE exE conjE)
      fix us a vs fs d gs
      assume "xs = us @ a # vs" "es' = fs @ d # gs" "length us = length fs" "victim es' = Some (d, fs @ gs)"
        "victim_loop k m (first xs None) = Inr (Some a)"
      then show ?thesis using False e x
        by (intro disjI2 exI [of _ "x # us"] exI [of _ a] exI [of _ vs] exI [of _ "e # fs"] exI [of _ d] exI [of _ gs])
          (simp add: rec_load_def)
    qed (use False e x in \<open>simp add: rec_load_def\<close>)
  qed
qed

section \<open>The queue refines the list\<close>

text \<open>\<open>a\<close> is a record that is taken and not linked.\<close>

definition spare :: "u32 \<Rightarrow> evt_queue \<Rightarrow> u32 list \<Rightarrow> event list \<Rightarrow> bool" where
  "spare a q xs es \<longleftrightarrow> linked q xs es \<and> a \<notin> set xs \<and> slab_ok (eq_evtsSlab q) \<and>
     unat ` insert a (set xs) = fst ` slab_live (eq_evtsSlab q)"

lemma unat_image_insert: "unat (a :: u32) \<in> unat ` A \<longleftrightarrow> a \<in> A"
  by (auto dest: unsigned_word_eqI)

lemma get_record_ok:
  assumes ok: "queue_ok q xs es"
  shows "\<exists>r q'. get_record q = Inr (r, q') \<and> eq_cap q' = eq_cap q \<and> eq_slabPtr q' = eq_slabPtr q \<and>
    (if length es < eq_cap q then \<exists>a. r = Some a \<and> spare a q' xs es \<and> eq_discarded q' = eq_discarded q
     else case victim es of
            None \<Rightarrow> r = None \<and> q' = q
          | Some (v, es') \<Rightarrow> \<exists>a ys. r = Some a \<and> spare a q' ys es' \<and> eq_discarded q' = eq_discarded q @ [v])"
proof -
  have l: "linked q xs es" and s: "slab_ok (eq_evtsSlab q)" and live: "unat ` set xs = fst ` slab_live (eq_evtsSlab q)"
    using ok by (auto simp: queue_ok_def)
  have chain: "chain (eq_recs q) None xs es None" and head: "eq_head q = first xs None" and dist: "distinct xs"
    using l by (auto simp: linked_def)
  have len: "length es = card (slab_live (eq_evtsSlab q))" using card_live [OF s live dist] chain_length [OF chain] by simp
  obtain p s' where a: "slabAllocatorAlloc (eq_evtsSlab q) = (p, s')" by fastforce
  note alloc = slab_alloc_live [OF s a]
  show ?thesis
  proof (cases p)
    case (Some w)
    then have w: "slab_ok s'" "card (slab_live s') = Suc (length es)" "unat w \<notin> fst ` slab_live (eq_evtsSlab q)"
      "fst ` slab_live s' = insert (unat w) (unat ` set xs)"
      and cap: "slabAllocatorGetNumItems s' = slabAllocatorGetNumItems (eq_evtsSlab q)"
      using alloc slab_alloc_cases [OF s a] len live
      by (auto simp: slabAllocatorGetNumItems_def atomicBitsetGetNumBits_def)
    from w(1,2) cap have "length es < eq_cap q"
    proof -
      obtain p'' s'' where "slabAllocatorAlloc s' = (p'', s'')" by fastforce
      from slab_alloc_live [OF w(1) this] w(2) cap show ?thesis by (simp add: eq_cap_def)
    qed
    moreover have "spare w (q\<lparr>eq_evtsSlab := s'\<rparr>) xs es"
      using l w live unat_image_insert [of w "set xs"] by (simp add: spare_def linked_def)
    ultimately show ?thesis using a Some cap by (simp add: get_record_def eq_cap_def)
  next
    case None
    then have full: "\<not> length es < eq_cap q" "s' = eq_evtsSlab q" using alloc len by (simp_all add: eq_cap_def)
    have "length xs < evtq_fuel q" using alloc None len chain_length [OF chain] by (simp add: evtq_fuel_def)
    from victim_loop_ok [OF chain this] show ?thesis
    proof (elim disjE exE conjE)
      assume "victim es = None" "victim_loop (evtq_fuel q) (eq_recs q) (first xs None) = Inr None"
      then show ?thesis using a None full by (simp add: get_record_def head)
    next
      fix us v vs fs e gs
      assume v: "xs = us @ v # vs" "es = fs @ e # gs" "length us = length fs" "victim es = Some (e, fs @ gs)"
        "victim_loop (evtq_fuel q) (eq_recs q) (first xs None) = Inr (Some v)"
      from unlink_victim_ok [OF l [unfolded v(1,2)] v(3)] obtain q' where q': "unlink_victim v q = Inr q'"
        "linked q' (us @ vs) (fs @ gs)" "eq_evtsSlab q' = eq_evtsSlab q" "eq_discarded q' = eq_discarded q @ [e]"
        "eq_slabPtr q' = eq_slabPtr q" by blast
      have "spare v q' (us @ vs) (fs @ gs)" using q'(2,3) dist v(1) s live by (simp add: spare_def)
      then show ?thesis using a None full v(4,5) q' by (auto simp: get_record_def head eq_cap_def)
    qed
  qed
qed

lemma enqueue_ok:
  assumes "queue_ok q xs es"
  shows "\<exists>q' ys. evtQueueEnqueue (Some q) e f = Inr (fst (enqueue_spec (eq_cap q) e f es), Some q') \<and>
    queue_ok q' ys (snd (snd (enqueue_spec (eq_cap q) e f es))) \<and> eq_cap q' = eq_cap q \<and> eq_slabPtr q' = eq_slabPtr q \<and>
    eq_discarded q' = eq_discarded q @ fst (snd (enqueue_spec (eq_cap q) e f es))"
proof -
  obtain r q1 where r: "get_record q = Inr (r, q1)" "eq_cap q1 = eq_cap q"
    "if length es < eq_cap q then \<exists>a. r = Some a \<and> spare a q1 xs es \<and> eq_discarded q1 = eq_discarded q
     else case victim es of
            None \<Rightarrow> r = None \<and> q1 = q
          | Some (v, es') \<Rightarrow> \<exists>a ys. r = Some a \<and> spare a q1 ys es' \<and> eq_discarded q1 = eq_discarded q @ [v]"
    "eq_slabPtr q1 = eq_slabPtr q"
    using get_record_ok [OF assms] by blast
  have put: "\<exists>q' ys. evtQueueEnqueue (Some q) e f = Inr (True, Some q') \<and> queue_ok q' ys (put e f es') \<and>
      eq_cap q' = eq_cap q1 \<and> eq_slabPtr q' = eq_slabPtr q1 \<and> eq_discarded q' = eq_discarded q1" if "r = Some a" "spare a q1 ys es'" for a ys es'
  proof (cases f)
    case True
    from link_front_ok [of q1 ys es' a e] that(2) obtain q' where "link_front a e q1 = Inr q'"
      "linked q' (a # ys) (e # es')" "eq_evtsSlab q' = eq_evtsSlab q1" "eq_discarded q' = eq_discarded q1"
      "eq_slabPtr q' = eq_slabPtr q1"
      by (auto simp: spare_def)
    then show ?thesis using that r(1) True
      by (intro exI [of _ q'] exI [of _ "a # ys"]) (simp add: evtQueueEnqueue_def queue_ok_def spare_def put_def eq_cap_def)
  next
    case False
    from link_back_ok [of q1 ys es' a e] that(2) obtain q' where "link_back a e q1 = Inr q'"
      "linked q' (ys @ [a]) (es' @ [e])" "eq_evtsSlab q' = eq_evtsSlab q1" "eq_discarded q' = eq_discarded q1"
      "eq_slabPtr q' = eq_slabPtr q1"
      by (auto simp: spare_def)
    then show ?thesis using that r(1) False
      by (intro exI [of _ q'] exI [of _ "ys @ [a]"]) (simp add: evtQueueEnqueue_def queue_ok_def spare_def put_def eq_cap_def)
  qed
  show ?thesis
  proof (cases "length es < eq_cap q")
    case True
    with r(3) obtain a where "r = Some a" "spare a q1 xs es" "eq_discarded q1 = eq_discarded q" by auto
    with put [OF this(1,2)] True r(2,4) show ?thesis by (simp add: enqueue_spec_def)
  next
    case False
    show ?thesis
    proof (cases "victim es")
      case None
      then show ?thesis using False r assms by (auto simp: enqueue_spec_def evtQueueEnqueue_def)
    next
      case (Some w)
      obtain v es' where w: "w = (v, es')" by fastforce
      with r(3) False Some obtain a ys where "r = Some a" "spare a q1 ys es'" "eq_discarded q1 = eq_discarded q @ [v]"
        by auto
      with put [OF this(1,2)] False Some w r(2,4) show ?thesis by (simp add: enqueue_spec_def)
    qed
  qed
qed

lemma free_record_ok:
  assumes s: "slab_ok (eq_evtsSlab q)" and live: "unat ` insert a S = fst ` slab_live (eq_evtsSlab q)" and a: "a \<notin> S"
  shows "\<exists>s'. free_record a q = Inr (q\<lparr>eq_evtsSlab := s', eq_recs := (eq_recs q)(a := None)\<rparr>) \<and> slab_ok s' \<and>
    unat ` S = fst ` slab_live s' \<and> slabAllocatorGetNumItems s' = slabAllocatorGetNumItems (eq_evtsSlab q)"
proof -
  from slab_free_ok [OF s, of a] obtain s' where s': "slabAllocatorFree a (eq_evtsSlab q) = Inr s'" "slab_ok s'"
    "bs_numBits (sl_bitset s') = bs_numBits (sl_bitset (eq_evtsSlab q))" by blast
  from slab_free_live [OF s, of a] s'(1) have "slab_live s' = {x \<in> slab_live (eq_evtsSlab q). fst x \<noteq> unat a}" by auto
  then have "fst ` slab_live s' = fst ` slab_live (eq_evtsSlab q) - {unat a}" by auto
  also have "\<dots> = unat ` S" using a unat_image_insert [of a S] by (auto simp: live [symmetric])
  finally show ?thesis using s'
    by (intro exI [of _ s']) (simp add: free_record_def slabAllocatorGetNumItems_def atomicBitsetGetNumBits_def)
qed

lemma take_first_ok:
  assumes ok: "queue_ok q xs es"
  shows "\<exists>q' ys. take_first q = Inr (if es = [] then None else Some (hd es), q') \<and> queue_ok q' ys (tl es) \<and>
    eq_cap q' = eq_cap q \<and> eq_slabPtr q' = eq_slabPtr q \<and> eq_discarded q' = eq_discarded q"
proof (cases xs)
  case Nil
  then have "es = []" using ok chain_length [of "eq_recs q" None xs es None] by (simp add: queue_ok_def linked_def)
  then show ?thesis using ok Nil by (auto simp: take_first_def queue_ok_def linked_def)
next
  case (Cons x ys)
  obtain e es' where es: "es = e # es'" using ok Cons by (cases es) (auto simp: queue_ok_def linked_def)
  let ?m = "eq_recs q"
  have x: "?m x = Some \<lparr>er_next = first ys None, er_prev = None, er_evt = e\<rparr>" and c: "chain ?m (Some x) ys es' None"
    and d: "x \<notin> set ys" "distinct ys" and ends: "eq_head q = Some x" "eq_tail q = lasto (Some x) ys"
    using ok Cons es by (simp_all add: queue_ok_def linked_def)
  have s: "slab_ok (eq_evtsSlab q)" "unat ` insert x (set ys) = fst ` slab_live (eq_evtsSlab q)"
    using ok Cons by (simp_all add: queue_ok_def)
  have "\<exists>q1. (case first ys None of None \<Rightarrow> Inr (q\<lparr>eq_head := None, eq_tail := None\<rparr>)
       | Some b \<Rightarrow> bindE (rec_update (er_prev_update (\<lambda>_. None)) (Some b) ?m) (\<lambda>m. Inr (q\<lparr>eq_head := Some b, eq_recs := m\<rparr>))) = Inr q1 \<and>
     linked q1 ys es' \<and> eq_evtsSlab q1 = eq_evtsSlab q \<and> eq_discarded q1 = eq_discarded q \<and> eq_slabPtr q1 = eq_slabPtr q"
  proof (cases ys)
    case Nil
    then show ?thesis using c by (cases es') (simp_all add: linked_def)
  next
    case (Cons y zs)
    then have "y \<notin> set zs" using d by simp
    from chain_prev [OF c [unfolded Cons] this, of None] obtain m' where
      "rec_update (er_prev_update (\<lambda>_. None)) (Some y) ?m = Inr m'" "chain m' None (y # zs) es' None" by blast
    then show ?thesis using Cons d ends by (simp add: linked_def)
  qed
  then obtain q1 where q1: "(case first ys None of None \<Rightarrow> Inr (q\<lparr>eq_head := None, eq_tail := None\<rparr>)
       | Some b \<Rightarrow> bindE (rec_update (er_prev_update (\<lambda>_. None)) (Some b) ?m) (\<lambda>m. Inr (q\<lparr>eq_head := Some b, eq_recs := m\<rparr>))) = Inr q1"
    "linked q1 ys es'" "eq_evtsSlab q1 = eq_evtsSlab q" "eq_discarded q1 = eq_discarded q"
    "eq_slabPtr q1 = eq_slabPtr q" by blast
  from free_record_ok [of q1 x "set ys"] s q1(3) d(1) obtain s' where s': "free_record x q1 =
      Inr (q1\<lparr>eq_evtsSlab := s', eq_recs := (eq_recs q1)(x := None)\<rparr>)" "slab_ok s'" "unat ` set ys = fst ` slab_live s'"
    "slabAllocatorGetNumItems s' = slabAllocatorGetNumItems (eq_evtsSlab q1)" by auto
  have "chain ((eq_recs q1)(x := None)) None ys es' None" using q1(2) d(1) by (subst chain_cong [of _ _ "eq_recs q1"]) (auto simp: linked_def)
  then have "queue_ok (q1\<lparr>eq_evtsSlab := s', eq_recs := (eq_recs q1)(x := None)\<rparr>) ys es'"
    using q1(2) s'(2,3) by (simp add: queue_ok_def linked_def)
  moreover have "take_first q = Inr (Some e, q1\<lparr>eq_evtsSlab := s', eq_recs := (eq_recs q1)(x := None)\<rparr>)"
    using q1(1) s'(1) by (simp add: take_first_def ends rec_load_def x del: not_None_eq)
  ultimately show ?thesis using q1(3-5) s'(4) es by (auto simp: eq_cap_def)
qed

text \<open>\<open>evtQueueFree\<close> takes the records one by one and does not mend the links behind them.\<close>

lemma drain_ok:
  assumes "chain (eq_recs q) p xs es None" and "eq_head q = first xs None" and "distinct xs" and "length xs < n"
    and "slab_ok (eq_evtsSlab q)" and "unat ` set xs = fst ` slab_live (eq_evtsSlab q)"
  shows "\<exists>q'. drain_loop n q = Inr q' \<and> eq_discarded q' = eq_discarded q @ es \<and> eq_slabPtr q' = eq_slabPtr q \<and>
    slab_live (eq_evtsSlab q') = {}"
  using assms
proof (induction xs arbitrary: p es q n)
  case Nil
  then show ?case by (cases es; cases n) auto
next
  case (Cons x xs)
  then obtain e es' k where e: "es = e # es'" "n = Suc k" by (cases es; cases n) auto
  with Cons.prems have x: "eq_recs q x = Some \<lparr>er_next = first xs None, er_prev = p, er_evt = e\<rparr>"
    and c: "chain (eq_recs q) (Some x) xs es' None" "length xs < k" "distinct xs" "x \<notin> set xs" by auto
  let ?q = "q\<lparr>eq_head := first xs None, eq_discarded := eq_discarded q @ [e]\<rparr>"
  from free_record_ok [of ?q x "set xs"] Cons.prems(5,6) c(4) obtain s' where
    s': "free_record x ?q = Inr (?q\<lparr>eq_evtsSlab := s', eq_recs := (eq_recs q)(x := None)\<rparr>)" "slab_ok s'"
    "unat ` set xs = fst ` slab_live s'" by auto
  let ?q1 = "?q\<lparr>eq_evtsSlab := s', eq_recs := (eq_recs q)(x := None)\<rparr>"
  have "chain (eq_recs ?q1) (Some x) xs es' None" using c(1,4) by (subst chain_cong [of _ _ "eq_recs q"]) auto
  from Cons.IH [OF this _ c(3,2)] s'(2,3) obtain q' where "drain_loop k ?q1 = Inr q'"
    "eq_discarded q' = eq_discarded q @ e # es'" "eq_slabPtr q' = eq_slabPtr q" "slab_live (eq_evtsSlab q') = {}" by auto
  then show ?case using e x s'(1) Cons.prems(2) by (simp add: rec_load_def)
qed

section \<open>Properties\<close>

datatype evtq_op = Enq event bool | Deq

datatype evtq_out = Taken bool | Got "event option"

fun evtq_run :: "evtq_op list \<Rightarrow> evt_queue \<Rightarrow> (evtq_out list \<times> evt_queue) res" where
  "evtq_run [] q = Inr ([], q)"
| "evtq_run (Enq e f # ops) q =
     bindE (evtQueueEnqueue (Some q) e f) (\<lambda>(b, qp).
       case qp of
         None \<Rightarrow> Inl NullDeref
       | Some q1 \<Rightarrow> map_sum id (map_prod ((#) (Taken b)) id) (evtq_run ops q1))"
| "evtq_run (Deq # ops) q =
     bindE (evtQueueDequeue False [] q) (\<lambda>(e, q1). map_sum id (map_prod ((#) (Got e)) id) (evtq_run ops q1))"

text \<open>The same of a list with room for \<open>cap\<close> events; the second component is what was discarded.\<close>

fun list_run :: "nat \<Rightarrow> evtq_op list \<Rightarrow> event list \<Rightarrow> evtq_out list \<times> event list \<times> event list" where
  "list_run cap [] es = ([], [], es)"
| "list_run cap (Enq e f # ops) es =
     (case enqueue_spec cap e f es of (b, ds, es1) \<Rightarrow>
        case list_run cap ops es1 of (outs, ds', es2) \<Rightarrow> (Taken b # outs, ds @ ds', es2))"
| "list_run cap (Deq # ops) es =
     (case list_run cap ops (tl es) of (outs, ds, es2) \<Rightarrow> (Got (if es = [] then None else Some (hd es)) # outs, ds, es2))"

lemma run_refines:
  "queue_ok q xs es \<Longrightarrow>
     \<exists>q' ys. evtq_run ops q = Inr (fst (list_run (eq_cap q) ops es), q') \<and>
       queue_ok q' ys (snd (snd (list_run (eq_cap q) ops es))) \<and> eq_cap q' = eq_cap q \<and> eq_slabPtr q' = eq_slabPtr q \<and>
       eq_discarded q' = eq_discarded q @ fst (snd (list_run (eq_cap q) ops es))"
proof (induction "eq_cap q" ops es arbitrary: q xs rule: list_run.induct)
  case (1 es)
  then show ?case by auto
next
  case (2 e f ops es)
  obtain b ds es1 where spec: "enqueue_spec (eq_cap q) e f es = (b, ds, es1)" by (metis prod_cases3)
  from enqueue_ok [OF 2(2), of e f] spec obtain q1 ys where q1: "evtQueueEnqueue (Some q) e f = Inr (b, Some q1)"
    "queue_ok q1 ys es1" "eq_cap q1 = eq_cap q" "eq_discarded q1 = eq_discarded q @ ds" "eq_slabPtr q1 = eq_slabPtr q" by auto
  from 2(1) [OF spec [symmetric] refl q1(3) [symmetric] q1(2)] show ?case
    using q1(1,3-5) spec by (auto split: prod.splits)
next
  case (3 ops es)
  from take_first_ok [OF 3(2)] obtain q1 ys where q1: "take_first q = Inr (if es = [] then None else Some (hd es), q1)"
    "queue_ok q1 ys (tl es)" "eq_cap q1 = eq_cap q" "eq_discarded q1 = eq_discarded q" "eq_slabPtr q1 = eq_slabPtr q" by blast
  from 3(1) [OF q1(3) [symmetric] q1(2)] show ?case
    using q1(1,3-5) by (auto simp: evtQueueDequeue.simps split: prod.splits)
qed

lemma alloc_ok:
  assumes inv: "heap_inv h" and new: "evtQueueAlloc base numRecs tid h = Inr (Some (a, q), h1)"
    and fits: "slab_fits 20 4 numRecs" and base: "unat base + hh_real h \<le> 2 ^ 32"
  shows "queue_ok q [] [] \<and> eq_cap q = unat numRecs \<and> eq_discarded q = [] \<and> heap_inv h1 \<and>
    (\<exists>n1 n2. (a, n1) \<in> heap_live h1 \<and> (eq_slabPtr q, n2) \<in> heap_live h1 \<and> eq_slabPtr q \<noteq> a \<and>
       heap_live h1 = insert (a, n1) (insert (eq_slabPtr q, n2) (heap_live h)))"
proof -
  from new obtain h0 p s where h0: "heapAlloc 16 tid h = Inr (Some a, h0)"
    and s: "slabAllocatorNew base 20 4 numRecs tid h0 = Inr (Some (p, s), h1)"
    and q: "q = \<lparr>eq_head = None, eq_tail = None, eq_evtsSlab = s, eq_slabPtr = p, eq_recs = Map.empty, eq_discarded = []\<rparr>"
    by (auto simp: evtQueueAlloc_def res split: option.splits prod.splits)
  from heap_alloc_live [OF inv h0] obtain n1 where n1: "heap_inv h0" "hh_real h0 = hh_real h"
    "heap_live h0 = insert (a, n1) (heap_live h)" by auto
  from slabNew_ok [OF n1(1) s fits] base n1(2) have s': "slab_ok s" "heap_inv h1" "slab_live s = {}"
    "bs_numBits (sl_bitset s) = numRecs" by auto
  from s obtain sz where "heapAlloc sz tid h0 = Inr (Some p, h1)"
    by (auto simp: slabAllocatorNew_def Let_def res split: option.splits)
  from heap_alloc_live [OF n1(1) this] n1(3) obtain n2 where "heap_live h1 = insert (p, n2) (heap_live h0)" "p \<noteq> a" by auto
  then show ?thesis using s' n1(3) q
    by (auto simp: queue_ok_def linked_def eq_cap_def slabAllocatorGetNumItems_def atomicBitsetGetNumBits_def)
qed

text \<open>C20. The event queue is a bounded list.  From \<open>evtQueueAlloc\<close> on, any sequence of \<open>evtQueueEnqueue\<close>, at
  either end, and \<open>evtQueueDequeue\<close> runs without fault, answers what the list answers that has room for
  the given number of events and, when full, throws away its oldest event that may be lost, or refuses;
  the callback is told of just those.\<close>

theorem evtq_refines_list:
  assumes "heap_inv h" and "evtQueueAlloc base numRecs tid h = Inr (Some (a, q), h1)"
    and "slab_fits 20 4 numRecs" and "unat base + hh_real h \<le> 2 ^ 32"
    and "list_run (unat numRecs) ops [] = (outs, discarded, es)"
  shows "\<exists>q' xs. evtq_run ops q = Inr (outs, q') \<and> queue_ok q' xs es \<and> eq_discarded q' = discarded"
  using alloc_ok [OF assms(1-4)] run_refines [of q "[]" "[]" ops] assms(5) by auto

lemma two_events:
  obtains h q h1 where "heap_inv h" "hh_real h = 256" "evtQueueAlloc 0x20000000 2 1 h = Inr (Some (8, q), h1)"
proof -
  obtain h where h: "heapInit 256 0 = Inr (True, h)" by (simp add: heapInit_def Let_def hn_store_def HN_def)
  have "(256::nat) < 2 ^ MAX_HEAP_ORDER" by (simp add: MAX_HEAP_ORDER_def TIDX_HEAP_BITS_def TASK_IDX_BITS_def TIDX_HEAP_EXTRA_def)
  then have inv: "heap_inv h" "hh_real h = 256" using heapInit_ok [OF h] heap_inv_ok by fastforce+
  have "map_sum id (map_option fst o fst) (bindE (heapInit 256 0) (\<lambda>(b, h). evtQueueAlloc 0x20000000 2 1 h)) = Inr (Some 8)"
    by (simp add: heap_eval slab_eval evtQueueAlloc_def)
  then obtain q h1 where "evtQueueAlloc 0x20000000 2 1 h = Inr (Some (8, q), h1)" by (auto simp: h res)
  with inv show thesis by (rule that)
qed

theorem evtq_refines_list_witness:
  "\<exists>h q h1 q'. heap_inv h \<and> evtQueueAlloc 0x20000000 2 1 h = Inr (Some (8, q), h1) \<and>
     evtq_run [Enq (1, 0, 0) False, Enq (0x8002, 0, 0) False, Enq (3, 0, 0) True, Enq (4, 0, 0) False, Deq, Deq, Deq] q =
       Inr ([Taken True, Taken True, Taken True, Taken False, Got (Some (3, 0, 0)), Got (Some (1, 0, 0)), Got None], q') \<and>
     eq_discarded q' = [(0x8002, 0, 0)]"
proof -
  let ?ops = "[Enq (1, 0, 0) False, Enq (0x8002, 0, 0) False, Enq (3, 0, 0) True, Enq (4, 0, 0) False, Deq, Deq, Deq]"
  obtain h q h1 where h: "heap_inv h" "hh_real h = 256" "evtQueueAlloc 0x20000000 2 1 h = Inr (Some (8, q), h1)"
    by (rule two_events)
  have l: "list_run (unat (2 :: u32)) ?ops [] =
      ([Taken True, Taken True, Taken True, Taken False, Got (Some (3, 0, 0)), Got (Some (1, 0, 0)), Got None],
       [(0x8002, 0, 0)], [])"
    by (simp add: enqueue_spec_def put_def is_discardable_def EVENT_TYPE_BIT_DISCARDABLE_def)
  have "slab_fits 20 4 2" by (simp add: slab_fits_def slab_octets_def up_def)
  moreover have "unat (0x20000000 :: u32) + hh_real h \<le> 2 ^ 32" by (simp add: h(2))
  ultimately show ?thesis using evtq_refines_list [OF h(1,3) _ _ l] h by blast
qed

text \<open>The events that were taken, and those that came out.\<close>

definition accepted :: "evtq_op list \<Rightarrow> evtq_out list \<Rightarrow> event list" where
  "accepted ops outs = concat (map (\<lambda>(op, r). case op of Enq e f \<Rightarrow> if r = Taken True then [e] else [] | Deq \<Rightarrow> []) (zip ops outs))"

definition came_out :: "evtq_out list \<Rightarrow> event list" where
  "came_out outs = concat (map (\<lambda>r. case r of Got (Some e) \<Rightarrow> [e] | _ \<Rightarrow> []) outs)"

lemma accepted_simps [simp]:
  "accepted [] outs = []"
  "accepted (Enq e f # ops) (Taken b # outs) = (if b then [e] else []) @ accepted ops outs"
  "accepted (Deq # ops) (r # outs) = accepted ops outs"
  by (simp_all add: accepted_def)

lemma came_out_simps [simp]:
  "came_out [] = []" "came_out (Taken b # outs) = came_out outs" "came_out (Got None # outs) = came_out outs"
  "came_out (Got (Some e) # outs) = e # came_out outs"
  by (simp_all add: came_out_def)

lemma victim_mset: "victim es = Some (v, es') \<Longrightarrow> is_discardable v \<and> mset es = add_mset v (mset es')"
  by (induction es arbitrary: es') (auto split: if_splits)

lemma list_run_keeps:
  "list_run cap ops es = (outs, ds, es') \<Longrightarrow>
     mset es + mset (accepted ops outs) = mset (came_out outs) + mset ds + mset es' \<and> (\<forall>d \<in> set ds. is_discardable d)"
proof (induction cap ops es arbitrary: outs ds es' rule: list_run.induct)
  case (1 cap es)
  then show ?case by simp
next
  case (2 cap e f ops es)
  obtain b ds1 es1 where s: "enqueue_spec cap e f es = (b, ds1, es1)" by (metis prod_cases3)
  obtain outs' ds' where r: "list_run cap ops es1 = (outs', ds', es')" "outs = Taken b # outs'" "ds = ds1 @ ds'"
    using 2(2) s by (auto split: prod.splits)
  have one: "mset es + mset (if b then [e] else []) = mset ds1 + mset es1" "\<forall>d \<in> set ds1. is_discardable d"
    using s by (auto simp: enqueue_spec_def put_def dest: victim_mset split: if_splits option.splits)
  note ih = 2(1) [OF s [symmetric] refl r(1)]
  have "mset es + mset (accepted (Enq e f # ops) outs) = (mset es + mset (if b then [e] else [])) + mset (accepted ops outs')"
    by (simp add: r(2))
  also have "\<dots> = mset ds1 + (mset es1 + mset (accepted ops outs'))" by (simp only: one(1) add.assoc)
  also have "\<dots> = mset (came_out outs) + mset ds + mset es'" using ih by (simp add: r(2,3))
  finally show ?case using one(2) ih r(3) by auto
next
  case (3 cap ops es)
  obtain outs' where r: "list_run cap ops (tl es) = (outs', ds, es')" "outs = Got (if es = [] then None else Some (hd es)) # outs'"
    using 3(2) by (auto split: prod.splits)
  show ?case using 3(1) [OF r(1)] r(2) by (cases es) auto
qed

text \<open>C25. No event is lost or made up.  Over any run from \<open>evtQueueAlloc\<close> on, the events taken are those that came
  out, those told to the callback and those still queued, each as often; only events that may be lost
  are discarded.\<close>

theorem evtq_keeps_events:
  assumes "heap_inv h" and "evtQueueAlloc base numRecs tid h = Inr (Some (a, q), h1)"
    and "slab_fits 20 4 numRecs" and "unat base + hh_real h \<le> 2 ^ 32" and "evtq_run ops q = Inr (outs, q')"
  shows "\<exists>xs es. queue_ok q' xs es \<and> length es \<le> unat numRecs \<and>
    mset (accepted ops outs) = mset (came_out outs) + mset (eq_discarded q') + mset es \<and>
    (\<forall>e \<in> set (eq_discarded q'). is_discardable e)"
proof -
  note new = alloc_ok [OF assms(1-4)]
  obtain outs' ds es where l: "list_run (unat numRecs) ops [] = (outs', ds, es)" by (metis prod_cases3)
  with run_refines [of q "[]" "[]" ops] new assms(5) obtain xs where q': "outs' = outs" "queue_ok q' xs es"
    "eq_discarded q' = ds" "eq_cap q' = unat numRecs" by auto
  have "length es \<le> eq_cap q'"
  proof -
    have s: "linked q' xs es" "slab_ok (eq_evtsSlab q')" "unat ` set xs = fst ` slab_live (eq_evtsSlab q')"
      using q'(2) by (auto simp: queue_ok_def)
    then have "length es = card (slab_live (eq_evtsSlab q'))"
      using card_live [OF s(2,3)] chain_length by (fastforce simp: linked_def)
    moreover obtain p s' where "slabAllocatorAlloc (eq_evtsSlab q') = (p, s')" by fastforce
    ultimately show ?thesis using slab_alloc_live [OF s(2)] by (simp add: eq_cap_def)
  qed
  then show ?thesis using list_run_keeps [OF l] q' by auto
qed

theorem evtq_keeps_events_witness:
  "\<exists>q q' xs es. evtq_run [Enq (1, 0, 0) False, Enq (0x8002, 0, 0) False, Enq (3, 0, 0) True, Deq] q =
       Inr ([Taken True, Taken True, Taken True, Got (Some (3, 0, 0))], q') \<and> queue_ok q' xs es \<and>
     mset [(1, 0, 0), (0x8002, 0, 0), (3, 0, 0)] = mset [(3, 0, 0)] + mset (eq_discarded q') + mset es \<and>
     (\<forall>e \<in> set (eq_discarded q'). is_discardable e)"
proof -
  let ?ops = "[Enq (1, 0, 0) False, Enq (0x8002, 0, 0) False, Enq (3, 0, 0) True, Deq]"
  obtain h q h1 where h: "heap_inv h" "hh_real h = 256" "evtQueueAlloc 0x20000000 2 1 h = Inr (Some (8, q), h1)"
    by (rule two_events)
  have f: "slab_fits 20 4 2" by (simp add: slab_fits_def slab_octets_def up_def)
  have b: "unat (0x20000000 :: u32) + hh_real h \<le> 2 ^ 32" by (simp add: h(2))
  have l: "list_run 2 ?ops [] = ([Taken True, Taken True, Taken True, Got (Some (3, 0, 0))], [(0x8002, 0, 0)], [(1, 0, 0)])"
    by (simp add: enqueue_spec_def put_def is_discardable_def EVENT_TYPE_BIT_DISCARDABLE_def)
  obtain q' where "evtq_run ?ops q = Inr ([Taken True, Taken True, Taken True, Got (Some (3, 0, 0))], q')"
    using run_refines [of q "[]" "[]" ?ops] alloc_ok [OF h(1,3) f b] l by auto
  with evtq_keeps_events [OF h(1,3) f b this] show ?thesis by auto
qed

section \<open>Waiting and the end of a queue\<close>

lemma enqueue_all_ok:
  "queue_ok q xs es \<Longrightarrow> 0 < eq_cap q \<Longrightarrow>
     \<exists>q' ys es'. enqueue_all l q = Inr q' \<and> queue_ok q' ys es' \<and> eq_cap q' = eq_cap q \<and> (es' = [] \<longleftrightarrow> es = [] \<and> l = [])"
proof (induction l arbitrary: q xs es)
  case Nil
  then show ?case by auto
next
  case (Cons ef l)
  obtain e f where ef: "ef = (e, f)" by fastforce
  obtain b ds es1 where spec: "enqueue_spec (eq_cap q) e f es = (b, ds, es1)" by (metis prod_cases3)
  from enqueue_ok [OF Cons.prems(1), of e f] spec obtain q1 ys where q1: "evtQueueEnqueue (Some q) e f = Inr (b, Some q1)"
    "queue_ok q1 ys es1" "eq_cap q1 = eq_cap q" by auto
  have "es1 \<noteq> []" using spec Cons.prems(2) by (auto simp: enqueue_spec_def put_def split: if_splits option.splits)
  with Cons.IH [OF q1(2)] q1(1,3) Cons.prems(2) ef show ?case by auto
qed

lemma queue_head: "queue_ok q xs es \<Longrightarrow> eq_head q = None \<longleftrightarrow> es = []"
  using chain_length [of "eq_recs q" None xs es None] by (auto simp: queue_ok_def linked_def first_def split: list.splits)

lemma dequeue_now:
  assumes "queue_ok q xs es" and "es \<noteq> []"
  shows "\<exists>e q' ys es'. evtQueueDequeue b rounds q = Inr (Some e, q') \<and> queue_ok q' ys es'"
proof -
  from take_first_ok [OF assms(1)] assms(2) obtain q' ys where t: "take_first q = Inr (Some (hd es), q')" "queue_ok q' ys (tl es)"
    by auto
  then have "evtQueueDequeue b rounds q = Inr (Some (hd es), q')"
    using queue_head [OF assms(1)] assms(2) by (subst evtQueueDequeue.simps) simp
  with t(2) show ?thesis by blast
qed

lemma wakes:
  assumes "queue_ok q xs es" and "0 < eq_cap q"
  shows "if es = [] \<and> (\<forall>l \<in> set rounds. l = []) then evtQueueDequeue True rounds q = Inl Hang
    else \<exists>e q' ys es'. evtQueueDequeue True rounds q = Inr (Some e, q') \<and> queue_ok q' ys es'"
  using assms
proof (induction rounds arbitrary: q xs es)
  case Nil
  then show ?case using dequeue_now [of q xs es True "[]"] queue_head [of q xs es]
    by (cases "es = []") (simp_all add: evtQueueDequeue.simps)
next
  case (Cons l rounds)
  show ?case
  proof (cases "es = []")
    case True
    from enqueue_all_ok [OF Cons.prems, of l] True obtain q' ys es' where q': "enqueue_all l q = Inr q'"
      "queue_ok q' ys es'" "eq_cap q' = eq_cap q" "es' = [] \<longleftrightarrow> l = []" by auto
    have "evtQueueDequeue True (l # rounds) q = evtQueueDequeue True rounds q'"
      using queue_head [OF Cons.prems(1)] True q'(1) by (subst evtQueueDequeue.simps) simp
    moreover have "0 < eq_cap q'" using Cons.prems(2) q'(3) by simp
    ultimately show ?thesis using Cons.IH [OF q'(2)] q'(4) True by (cases "l = []") (simp_all del: split_paired_Ex split: if_splits)
  next
    case False
    then show ?thesis using dequeue_now [OF Cons.prems(1)] by simp
  qed
qed

text \<open>Waiting for an event.  On an empty queue \<open>evtQueueDequeue\<close> that may sleep returns an event as soon as
  some round of timers or interrupts enqueues one, and sleeps for ever only when none does.\<close>

theorem evtq_wakes:
  assumes "queue_ok q xs []" and "0 < eq_cap q"
  shows "if \<forall>l \<in> set rounds. l = [] then evtQueueDequeue True rounds q = Inl Hang
    else \<exists>e q' ys es'. evtQueueDequeue True rounds q = Inr (Some e, q') \<and> queue_ok q' ys es'"
  using wakes [OF assms, of rounds] by simp

text \<open>The end of a queue.  \<open>evtQueueFree\<close> tells the callback of every event still queued, in order, and gives
  back the blocks of the queue and of its slab and no other.\<close>

theorem evtq_free:
  assumes "queue_ok q xs es" and "heap_inv h" and "(ptr, n1) \<in> heap_live h" and "(eq_slabPtr q, n2) \<in> heap_live h"
    and "ptr \<noteq> eq_slabPtr q"
  shows "\<exists>h'. evtQueueFree ptr q h = Inr (eq_discarded q @ es, h') \<and> heap_inv h' \<and>
    heap_live h' = heap_live h - {(ptr, n1), (eq_slabPtr q, n2)}"
proof -
  have l: "chain (eq_recs q) None xs es None" "eq_head q = first xs None" "distinct xs" "slab_ok (eq_evtsSlab q)"
    "unat ` set xs = fst ` slab_live (eq_evtsSlab q)" using assms(1) by (auto simp: queue_ok_def linked_def)
  obtain p s' where "slabAllocatorAlloc (eq_evtsSlab q) = (p, s')" by fastforce
  from slab_alloc_live [OF l(4) this] have "length xs < evtq_fuel q"
    using card_live [OF l(4,5,3)] by (simp add: evtq_fuel_def)
  from drain_ok [OF l(1-3) this l(4,5)] obtain q' where q': "drain_loop (evtq_fuel q) q = Inr q'"
    "eq_discarded q' = eq_discarded q @ es" "eq_slabPtr q' = eq_slabPtr q" by blast
  from heap_free_live [OF assms(2,4)] obtain h1 where h1: "heapFree (Some (eq_slabPtr q)) h = Inr h1" "heap_inv h1"
    "heap_live h1 = heap_live h - {(eq_slabPtr q, n2)}" by blast
  then have "(ptr, n1) \<in> heap_live h1" using assms(3,5) by simp
  from heap_free_live [OF h1(2) this] obtain h2 where "heapFree (Some ptr) h1 = Inr h2" "heap_inv h2"
    "heap_live h2 = heap_live h1 - {(ptr, n1)}" by blast
  with q' h1 show ?thesis by (auto simp: evtQueueFree_def slabAllocatorDestroy_def)
qed

theorem evtq_wakes_witness:
  "\<exists>q e q'. evtQueueDequeue True [[], [((5, 0, 0), False)]] q = Inr (Some e, q') \<and> evtQueueDequeue True [[]] q = Inl Hang"
proof -
  obtain h q h1 where h: "heap_inv h" "hh_real h = 256" "evtQueueAlloc 0x20000000 2 1 h = Inr (Some (8, q), h1)"
    by (rule two_events)
  have f: "slab_fits 20 4 2" by (simp add: slab_fits_def slab_octets_def up_def)
  have b: "unat (0x20000000 :: u32) + hh_real h \<le> 2 ^ 32" by (simp add: h(2))
  have q: "queue_ok q [] []" "0 < eq_cap q" using alloc_ok [OF h(1,3) f b] by auto
  show ?thesis
    using evtq_wakes [OF q, of "[[], [((5, 0, 0), False)]]", simplified] evtq_wakes [OF q, of "[[]]", simplified] by blast
qed

theorem evtq_free_witness:
  "\<exists>q q1 h h'. evtq_run [Enq (1, 0, 0) False, Enq (2, 0, 0) True] q = Inr ([Taken True, Taken True], q1) \<and>
     evtQueueFree 8 q1 h = Inr ([(2, 0, 0), (1, 0, 0)], h') \<and> heap_inv h'"
proof -
  let ?ops = "[Enq (1, 0, 0) False, Enq (2, 0, 0) True]"
  obtain h q h1 where h: "heap_inv h" "hh_real h = 256" "evtQueueAlloc 0x20000000 2 1 h = Inr (Some (8, q), h1)"
    by (rule two_events)
  have f: "slab_fits 20 4 2" by (simp add: slab_fits_def slab_octets_def up_def)
  have b: "unat (0x20000000 :: u32) + hh_real h \<le> 2 ^ 32" by (simp add: h(2))
  note new = alloc_ok [OF h(1,3) f b]
  have l: "list_run 2 ?ops [] = ([Taken True, Taken True], [], [(2, 0, 0), (1, 0, 0)])"
    by (simp add: enqueue_spec_def put_def)
  obtain q1 xs where q1: "evtq_run ?ops q = Inr ([Taken True, Taken True], q1)" "queue_ok q1 xs [(2, 0, 0), (1, 0, 0)]"
    "eq_discarded q1 = []" "eq_slabPtr q1 = eq_slabPtr q"
    using run_refines [of q "[]" "[]" ?ops] new l by (simp del: evtq_run.simps list_run.simps) metis
  from new q1(4) obtain n1 n2 where "(8, n1) \<in> heap_live h1" "(eq_slabPtr q1, n2) \<in> heap_live h1" "8 \<noteq> eq_slabPtr q1" "heap_inv h1"
    by metis
  with evtq_free [OF q1(2), of h1 8 n1 n2] q1(1,3) show ?thesis by auto
qed

end
