(* ===== verification/Hub_Sched.thy ===== *)
theory Hub_Sched
  imports Hub_Tasks Hub_EvtQ
begin

text \<open>
  The scheduler of the context hub (\<open>contexthub/firmware/src/seos.c\<close>): start and end of tasks, the calls by
  which code sends events and subscribes to them, and the round of the main loop that hands an event to
  the tasks.  Code outside (applications, drivers, callbacks) is the parameter \<open>ext\<close>: what a call of it
  answers and does to the state.  A task is named by its index; the function \<open>os_taskAddr\<close> says where
  the linker has put it.
\<close>

section \<open>Words with a tag\<close>

definition TAG :: u32 where
  "TAG = 0x80000000"

definition taggedPtrToUint :: "u32 \<Rightarrow> u32" where
  "taggedPtrToUint p = p AND NOT TAG"

definition taggedPtrIsPtr :: "u32 \<Rightarrow> bool" where
  "taggedPtrIsPtr p \<longleftrightarrow> \<not> (p AND TAG \<noteq> 0)"

definition taggedPtrMakeFromUint :: "u32 \<Rightarrow> u32" where
  "taggedPtrMakeFromUint p = p OR TAG"

section \<open>Events\<close>

definition EVT_SUBSCRIBE_TO_EVT :: u32 where "EVT_SUBSCRIBE_TO_EVT = 0"
definition EVT_UNSUBSCRIBE_TO_EVT :: u32 where "EVT_UNSUBSCRIBE_TO_EVT = 1"
definition EVT_DEFERRED_CALLBACK :: u32 where "EVT_DEFERRED_CALLBACK = 2"
definition EVT_PRIVATE_EVT :: u32 where "EVT_PRIVATE_EVT = 3"
definition EVT_NO_FIRST_USER_EVENT :: u32 where "EVT_NO_FIRST_USER_EVENT = 0x100"
definition EVT_APP_END :: u32 where "EVT_APP_END = 0xFD"
definition EVT_APP_STOP :: u32 where "EVT_APP_STOP = 0xFE"
definition EVT_APP_FREE_EVT_DATA :: u32 where "EVT_APP_FREE_EVT_DATA = 0xFF"
definition EVT_MASK :: u32 where "EVT_MASK = 0xFFFF"
definition EVENT_TYPE_BIT_DISCARDABLE_COMPAT :: u32 where "EVENT_TYPE_BIT_DISCARDABLE_COMPAT = 0x80000000"
definition FL_TASK_STOPPED :: u8 where "FL_TASK_STOPPED = 1"
definition FL_APP_HDR_INTERNAL :: u16 where "FL_APP_HDR_INTERNAL = 1"

definition EVENT_WITH_ORIGIN :: "u32 \<Rightarrow> u32 \<Rightarrow> u32" where
  "EVENT_WITH_ORIGIN evt origin = (evt AND EVT_MASK) OR push_bit 16 origin"

definition EVENT_GET_ORIGIN :: "u32 \<Rightarrow> u32" where
  "EVENT_GET_ORIGIN evt = drop_bit 16 evt"

definition EVENT_GET_EVENT :: "u32 \<Rightarrow> u32" where
  "EVENT_GET_EVENT evt = evt AND (EVT_MASK AND NOT EVENT_TYPE_BIT_DISCARDABLE)"

text \<open>\<open>union InternalThing\<close>, by the member that was written last.\<close>

datatype thing =
    EvtSub u32 u32
  | Deferred u32 u32
  | PrivateEvt u32 u32 u32 u32

text \<open>What a task is given with an event: the word that was sent, or the record that names an event to free.\<close>

datatype evt_arg = Data u32 | FreeData u32 u32

datatype ext_call =
    AppLoad nat
  | InternalAppLoad nat
  | AppUnload nat
  | AppInit nat u16
  | AppEnd nat
  | AppHandle nat u32 evt_arg
  | FreeFn u32 u32
  | DeferredCbk u32 u32
  | FreeResources u16
  | SensorUnregisterAll u16
  | TimTimerCancelAll u16

text \<open>
  \<open>os_things\<close> are the contents of the items of \<open>os_slab\<close>, \<open>os_chunks\<close> those of the chunks of the heap that hold
  subscriptions; \<open>os_freeF\<close> is the address of \<open>osDeferredActionFreeF\<close>.  \<open>os_log\<close> keeps the calls of code outside.
\<close>

record os =
  os_pool :: task_pool
  os_currentTask :: nat
  os_systemTask :: nat
  os_evts :: evt_queue
  os_slab :: slab
  os_things :: "u32 \<Rightarrow> thing option"
  os_heap :: hub_heap
  os_chunks :: "nat \<Rightarrow> u32 list option"
  os_curFree :: "u32 option"
  os_freeF :: u32
  os_taskAddr :: "nat \<Rightarrow> u32"
  os_log :: "ext_call list"

type_synonym ext = "ext_call \<Rightarrow> os \<Rightarrow> (bool \<times> os) res"

definition call_ext :: "ext \<Rightarrow> ext_call \<Rightarrow> os \<Rightarrow> (bool \<times> os) res" where
  "call_ext ext c s = ext c (s\<lparr>os_log := os_log s @ [c]\<rparr>)"

definition get_task :: "nat \<Rightarrow> os \<Rightarrow> task res" where
  "get_task i s = array_get (tp_data (os_pool s)) i"

definition set_task :: "nat \<Rightarrow> (task \<Rightarrow> task) \<Rightarrow> os \<Rightarrow> os res" where
  "set_task i f s = bindE (pool_update i f (os_pool s)) (\<lambda>p. Inr (s\<lparr>os_pool := p\<rparr>))"

definition osGetCurrentTid :: "os \<Rightarrow> u32 res" where
  "osGetCurrentTid s = bindE (get_task (os_currentTask s) s) (\<lambda>t. Inr (ucast (tk_tid t)))"

definition osSetCurrentTid :: "u32 \<Rightarrow> os \<Rightarrow> (u32 \<times> os) res" where
  "osSetCurrentTid tid s =
     bindE (case osTaskByIdx (unat (tid AND ucast TASK_TID_IDX_MASK)) of
              None \<Rightarrow> Inr None
            | Some i \<Rightarrow> bindE (get_task i s) (\<lambda>t. Inr (if ucast (tk_tid t) = tid then Some i else None))) (\<lambda>m.
     bindE (osGetCurrentTid s) (\<lambda>old.
       Inr (old, case m of Some i \<Rightarrow> s\<lparr>os_currentTask := i\<rparr> | None \<Rightarrow> s)))"

definition osTaskTestFlags :: "nat \<Rightarrow> u8 \<Rightarrow> os \<Rightarrow> bool res" where
  "osTaskTestFlags i flagMask s = bindE (get_task i s) (\<lambda>t. Inr (tk_flags t AND flagMask \<noteq> 0))"

definition osTaskClrSetFlags :: "nat \<Rightarrow> u8 \<Rightarrow> u8 \<Rightarrow> os \<Rightarrow> os res" where
  "osTaskClrSetFlags i clrMask setMask s = set_task i (tk_flags_update (\<lambda>f. (f AND NOT clrMask) OR setMask)) s"

definition osTaskAddIoCount :: "nat \<Rightarrow> int \<Rightarrow> os \<Rightarrow> os res" where
  "osTaskAddIoCount i delta s = set_task i (tk_ioCount_update (\<lambda>c. c + word_of_int delta)) s"

definition osTaskGetIoCount :: "nat \<Rightarrow> os \<Rightarrow> u8 res" where
  "osTaskGetIoCount i s = bindE (get_task i s) (\<lambda>t. Inr (tk_ioCount t))"

text \<open>The entry points of an application are in the header that the task points to.\<close>

definition as_task :: "nat \<Rightarrow> (os \<Rightarrow> ('a \<times> os) res) \<Rightarrow> os \<Rightarrow> ('a \<times> os) res" where
  "as_task i f s =
     bindE (f (s\<lparr>os_currentTask := i\<rparr>)) (\<lambda>(r, s1). Inr (r, s1\<lparr>os_currentTask := os_currentTask s\<rparr>))"

definition app_call :: "ext \<Rightarrow> nat \<Rightarrow> ext_call \<Rightarrow> os \<Rightarrow> (bool \<times> os) res" where
  "app_call ext i c s =
     bindE (get_task i s) (\<lambda>t. case tk_app t of None \<Rightarrow> Inl NullDeref | Some _ \<Rightarrow> call_ext ext c s)"

definition osTaskHandle :: "ext \<Rightarrow> nat \<Rightarrow> u32 \<Rightarrow> evt_arg \<Rightarrow> os \<Rightarrow> os res" where
  "osTaskHandle ext i evtType evtData s =
     bindE (as_task i (app_call ext i (AppHandle i evtType evtData)) s) (\<lambda>(_, s1). Inr s1)"

definition osDeferredActionFreeF :: "u32 \<Rightarrow> os \<Rightarrow> os res" where
  "osDeferredActionFreeF event s =
     bindE (slabAllocatorFree event (os_slab s)) (\<lambda>sl. Inr (s\<lparr>os_slab := sl, os_things := (os_things s)(event := None)\<rparr>))"

definition call_freeF :: "ext \<Rightarrow> u32 \<Rightarrow> u32 \<Rightarrow> os \<Rightarrow> os res" where
  "call_freeF ext f evtData s =
     (if f = os_freeF s then osDeferredActionFreeF evtData s
      else bindE (call_ext ext (FreeFn f evtData) s) (\<lambda>(_, s1). Inr s1))"

definition handleEventFreeing :: "ext \<Rightarrow> u32 \<Rightarrow> u32 \<Rightarrow> u32 \<Rightarrow> os \<Rightarrow> os res" where
  "handleEventFreeing ext evtType evtData evtFreeData s =
     (if (if taggedPtrIsPtr evtFreeData then evtFreeData = 0 else taggedPtrToUint evtFreeData = 0) then Inr s
      else if taggedPtrIsPtr evtFreeData then call_freeF ext evtFreeData evtData s
      else case osTaskFindByTid (taggedPtrToUint evtFreeData) of
             None \<Rightarrow> Inr s
           | Some i \<Rightarrow> osTaskHandle ext i EVT_APP_FREE_EVT_DATA (FreeData evtType evtData) s)"

section \<open>Sending\<close>

text \<open>\<open>handleEventFreeing\<close> is the callback of the queue for the events it throws away.\<close>

fun free_events :: "ext \<Rightarrow> event list \<Rightarrow> os \<Rightarrow> os res" where
  "free_events ext [] s = Inr s"
| "free_events ext ((t, d, f) # es) s = bindE (handleEventFreeing ext t d f s) (free_events ext es)"

definition os_enqueue :: "ext \<Rightarrow> event \<Rightarrow> bool \<Rightarrow> os \<Rightarrow> (bool \<times> os) res" where
  "os_enqueue ext e atFront s =
     bindE (evtQueueEnqueue (Some ((os_evts s)\<lparr>eq_discarded := []\<rparr>)) e atFront) (\<lambda>(b, qp).
       case qp of
         None \<Rightarrow> Inl NullDeref
       | Some q \<Rightarrow> bindE (free_events ext (eq_discarded q) (s\<lparr>os_evts := q\<rparr>)) (\<lambda>s1. Inr (b, s1)))"

definition osEnqueueEvtCommon :: "ext \<Rightarrow> u32 \<Rightarrow> u32 \<Rightarrow> u32 \<Rightarrow> os \<Rightarrow> (bool \<times> os) res" where
  "osEnqueueEvtCommon ext evtType evtData evtFreeInfo s =
     bindE (osTaskTestFlags (os_currentTask s) FL_TASK_STOPPED s) (\<lambda>stopped.
       if stopped then bindE (handleEventFreeing ext evtType evtData evtFreeInfo s) (\<lambda>s1. Inr (True, s1))
       else
         bindE (osGetCurrentTid s) (\<lambda>tid.
         bindE (osTaskAddIoCount (os_currentTask s) 1 s) (\<lambda>s1.
         bindE (os_enqueue ext (EVENT_WITH_ORIGIN evtType tid, evtData, evtFreeInfo) False s1) (\<lambda>(b, s2).
           if b then Inr (True, s2)
           else bindE (osTaskAddIoCount (os_currentTask s) (-1) s2) (\<lambda>s3. Inr (False, s3))))))"

definition osEnqueueEvt :: "ext \<Rightarrow> u32 \<Rightarrow> u32 \<Rightarrow> u32 \<Rightarrow> os \<Rightarrow> (bool \<times> os) res" where
  "osEnqueueEvt ext evtType evtData evtFreeF s = osEnqueueEvtCommon ext evtType evtData evtFreeF s"

definition osEnqueueEvtOrFree :: "ext \<Rightarrow> u32 \<Rightarrow> u32 \<Rightarrow> u32 \<Rightarrow> os \<Rightarrow> (bool \<times> os) res" where
  "osEnqueueEvtOrFree ext evtType evtData evtFreeF s =
     bindE (osEnqueueEvt ext evtType evtData evtFreeF s) (\<lambda>(success, s1).
       if \<not> success \<and> evtFreeF \<noteq> 0 then bindE (call_freeF ext evtFreeF evtData s1) (\<lambda>s2. Inr (success, s2))
       else Inr (success, s1))"

definition osEnqueueEvtAsApp :: "ext \<Rightarrow> u32 \<Rightarrow> u32 \<Rightarrow> os \<Rightarrow> (bool \<times> os) res" where
  "osEnqueueEvtAsApp ext evtType evtData s =
     bindE (osGetCurrentTid s) (\<lambda>tid.
       osEnqueueEvtCommon ext
         (if evtType AND EVENT_TYPE_BIT_DISCARDABLE_COMPAT \<noteq> 0 then evtType OR EVENT_TYPE_BIT_DISCARDABLE else evtType)
         evtData (taggedPtrMakeFromUint tid) s)"

text \<open>An item of the slab, with its contents.\<close>

definition new_thing :: "thing \<Rightarrow> os \<Rightarrow> u32 option \<times> os" where
  "new_thing t s =
     (case slabAllocatorAlloc (os_slab s) of
        (None, sl) \<Rightarrow> (None, s\<lparr>os_slab := sl\<rparr>)
      | (Some a, sl) \<Rightarrow> (Some a, s\<lparr>os_slab := sl, os_things := (os_things s)(a \<mapsto> t)\<rparr>))"

definition osEventSubscribeUnsubscribe :: "ext \<Rightarrow> u32 \<Rightarrow> u32 \<Rightarrow> bool \<Rightarrow> os \<Rightarrow> (bool \<times> os) res" where
  "osEventSubscribeUnsubscribe ext tid evtType sub s =
     (case new_thing (EvtSub tid evtType) s of
        (None, s1) \<Rightarrow> Inr (False, s1)
      | (Some act, s1) \<Rightarrow>
          osEnqueueEvtOrFree ext (if sub then EVT_SUBSCRIBE_TO_EVT else EVT_UNSUBSCRIBE_TO_EVT) act (os_freeF s1) s1)"

definition osEventSubscribe :: "ext \<Rightarrow> u32 \<Rightarrow> os \<Rightarrow> (bool \<times> os) res" where
  "osEventSubscribe ext evtType s = bindE (osGetCurrentTid s) (\<lambda>tid. osEventSubscribeUnsubscribe ext tid evtType True s)"

definition osEventUnsubscribe :: "ext \<Rightarrow> u32 \<Rightarrow> os \<Rightarrow> (bool \<times> os) res" where
  "osEventUnsubscribe ext evtType s = bindE (osGetCurrentTid s) (\<lambda>tid. osEventSubscribeUnsubscribe ext tid evtType False s)"

definition osDefer :: "ext \<Rightarrow> u32 \<Rightarrow> u32 \<Rightarrow> bool \<Rightarrow> os \<Rightarrow> (bool \<times> os) res" where
  "osDefer ext callback cookie urgent s =
     (case new_thing (Deferred callback cookie) s of
        (None, s1) \<Rightarrow> Inr (False, s1)
      | (Some act, s1) \<Rightarrow>
          bindE (os_enqueue ext (EVT_DEFERRED_CALLBACK, act, os_freeF s1) urgent s1) (\<lambda>(b, s2).
            if b then Inr (True, s2) else bindE (osDeferredActionFreeF act s2) (\<lambda>s3. Inr (False, s3))))"

definition osEnqueuePrivateEvtEx :: "ext \<Rightarrow> u32 \<Rightarrow> u32 \<Rightarrow> u32 \<Rightarrow> u32 \<Rightarrow> os \<Rightarrow> (bool \<times> os) res" where
  "osEnqueuePrivateEvtEx ext evtType evtData evtFreeInfo toTid s =
     (case new_thing (PrivateEvt evtType evtData evtFreeInfo toTid) s of
        (None, s1) \<Rightarrow> Inr (False, s1)
      | (Some act, s1) \<Rightarrow> osEnqueueEvtOrFree ext EVT_PRIVATE_EVT act (os_freeF s1) s1)"

definition osEnqueuePrivateEvt :: "ext \<Rightarrow> u32 \<Rightarrow> u32 \<Rightarrow> u32 \<Rightarrow> u32 \<Rightarrow> os \<Rightarrow> (bool \<times> os) res" where
  "osEnqueuePrivateEvt ext evtType evtData evtFreeF toTid s = osEnqueuePrivateEvtEx ext evtType evtData evtFreeF toTid s"

definition osEnqueuePrivateEvtAsApp :: "ext \<Rightarrow> u32 \<Rightarrow> u32 \<Rightarrow> u32 \<Rightarrow> os \<Rightarrow> (bool \<times> os) res" where
  "osEnqueuePrivateEvtAsApp ext evtType evtData toTid s =
     bindE (osGetCurrentTid s) (\<lambda>tid. osEnqueuePrivateEvtEx ext evtType evtData (taggedPtrMakeFromUint tid) toTid s)"

definition osRetainCurrentEvent :: "os \<Rightarrow> u32 option \<times> os" where
  "osRetainCurrentEvent s = (os_curFree s, s\<lparr>os_curFree := None\<rparr>)"

definition osFreeRetainedEvent :: "ext \<Rightarrow> u32 \<Rightarrow> u32 \<Rightarrow> u32 \<Rightarrow> os \<Rightarrow> os res" where
  "osFreeRetainedEvent ext evtType evtData evtFreeingInfo s = handleEventFreeing ext evtType evtData evtFreeingInfo s"

section \<open>Start and end of a task\<close>

definition osTaskInit :: "ext \<Rightarrow> nat \<Rightarrow> os \<Rightarrow> (bool \<times> os) res" where
  "osTaskInit ext i s = bindE (get_task i s) (\<lambda>t. as_task i (app_call ext i (AppInit i (tk_tid t))) s)"

definition do_call :: "ext \<Rightarrow> ext_call \<Rightarrow> os \<Rightarrow> os res" where
  "do_call ext c s = bindE (call_ext ext c s) (\<lambda>(_, s1). Inr s1)"

definition osTaskEnd :: "ext \<Rightarrow> nat \<Rightarrow> os \<Rightarrow> os res" where
  "osTaskEnd ext i s =
     bindE (get_task i s) (\<lambda>t.
     bindE (app_call ext i (AppEnd i) (s\<lparr>os_currentTask := i\<rparr>)) (\<lambda>(_, s1).
     bindE (do_call ext (FreeResources (tk_tid t)) (s1\<lparr>os_currentTask := os_systemTask s1\<rparr>)) (\<lambda>s2.
     bindE (do_call ext (SensorUnregisterAll (tk_tid t)) s2) (\<lambda>s3.
     bindE (do_call ext (TimTimerCancelAll (tk_tid t)) s3) (\<lambda>s4.
     bindE (heapFreeAll (unat (tk_tid t)) (os_heap s4)) (\<lambda>(_, h).
       Inr (s4\<lparr>os_heap := h, os_currentTask := os_currentTask s\<rparr>)))))))"

definition osLoadApp :: "ext \<Rightarrow> app_hdr \<Rightarrow> os \<Rightarrow> (nat option \<times> os) res" where
  "osLoadApp ext app s =
     bindE (osAllocTask (os_pool s)) (\<lambda>(task, p).
       case task of
         None \<Rightarrow> Inr (None, s\<lparr>os_pool := p\<rparr>)
       | Some i \<Rightarrow>
           bindE (set_task i (tk_app_update (\<lambda>_. Some app)) (s\<lparr>os_pool := p\<rparr>)) (\<lambda>s1.
           bindE (call_ext ext (if ah_fwFlags app AND FL_APP_HDR_INTERNAL \<noteq> 0 then InternalAppLoad i else AppLoad i) s1) (\<lambda>(done, s2).
             if done then Inr (Some i, s2)
             else bindE (osFreeTask i (os_pool s2)) (\<lambda>p1. Inr (None, s2\<lparr>os_pool := p1\<rparr>)))))"

definition osUnloadApp :: "ext \<Rightarrow> nat \<Rightarrow> os \<Rightarrow> os res" where
  "osUnloadApp ext i s =
     bindE (do_call ext (AppUnload i) s) (\<lambda>s1.
     bindE (osFreeTask i (os_pool s1)) (\<lambda>p. Inr (s1\<lparr>os_pool := p\<rparr>)))"

definition osStartApp :: "ext \<Rightarrow> app_hdr \<Rightarrow> os \<Rightarrow> (bool \<times> os) res" where
  "osStartApp ext app s =
     bindE (osLoadApp ext app s) (\<lambda>(task, s1).
       case task of
         None \<Rightarrow> Inr (False, s1)
       | Some i \<Rightarrow>
           bindE (set_task i (\<lambda>t. MAKE_NEW_TID i (t\<lparr>tk_subbedEvtListSz := word_of_nat MAX_EMBEDDED_EVT_SUBS, tk_subbedEvents := SubsInt\<rparr>)) s1) (\<lambda>s2.
           bindE (osTaskInit ext i s2) (\<lambda>(done, s3).
             if done then bindE (osAddTask i (os_pool s3)) (\<lambda>p. Inr (True, s3\<lparr>os_pool := p\<rparr>))
             else bindE (osUnloadApp ext i s3) (\<lambda>s4. Inr (False, s4)))))"

definition osStopTask :: "ext \<Rightarrow> nat option \<Rightarrow> os \<Rightarrow> (bool \<times> os) res" where
  "osStopTask ext task s =
     (case task of
        None \<Rightarrow> Inr (False, s)
      | Some i \<Rightarrow>
          bindE (osTaskClrSetFlags i 0 FL_TASK_STOPPED s) (\<lambda>s1.
          bindE (osRemoveTask i (os_pool s1)) (\<lambda>p.
          bindE (osTaskGetIoCount i (s1\<lparr>os_pool := p\<rparr>)) (\<lambda>n.
            if n \<noteq> 0 then
              bindE (osTaskHandle ext i EVT_APP_STOP (Data 0) (s1\<lparr>os_pool := p\<rparr>)) (\<lambda>s2.
              bindE (osEnqueueEvtOrFree ext EVT_APP_END (os_taskAddr s2 i) 0 s2) (\<lambda>(_, s3). Inr (True, s3)))
            else
              bindE (osTaskEnd ext i (s1\<lparr>os_pool := p\<rparr>)) (\<lambda>s2.
              bindE (osUnloadApp ext i s2) (\<lambda>s3. Inr (True, s3)))))))"

section \<open>The main loop\<close>

definition subs_array :: "task \<Rightarrow> os \<Rightarrow> u32 list res" where
  "subs_array t s =
     (case tk_subbedEvents t of
        SubsNull \<Rightarrow> Inr []
      | SubsInt \<Rightarrow> Inr (tk_subbedEventsInt t)
      | SubsHeap a \<Rightarrow> (case os_chunks s a of
          None \<Rightarrow> if tk_subbedEvtCount t = 0 then Inr [] else Inl UseAfterFree
        | Some xs \<Rightarrow> Inr xs))"

definition set_subs :: "nat \<Rightarrow> u32 list \<Rightarrow> os \<Rightarrow> os res" where
  "set_subs i xs s =
     bindE (get_task i s) (\<lambda>t.
       case tk_subbedEvents t of
         SubsNull \<Rightarrow> Inl NullDeref
       | SubsInt \<Rightarrow> set_task i (tk_subbedEventsInt_update (\<lambda>_. xs)) s
       | SubsHeap a \<Rightarrow> Inr (s\<lparr>os_chunks := (os_chunks s)(a \<mapsto> xs)\<rparr>))"

text \<open>The index of \<open>evt\<close> among the first \<open>n\<close>, or \<open>n\<close>; the first argument counts the rounds left.\<close>

fun find_sub :: "nat \<Rightarrow> nat \<Rightarrow> u32 \<Rightarrow> u32 list \<Rightarrow> nat res" where
  "find_sub 0 i evt xs = Inr i"
| "find_sub (Suc k) i evt xs = bindE (array_get xs i) (\<lambda>x. if x = evt then Inr i else find_sub k (i + 1) evt xs)"

definition enlarge_subs :: "nat \<Rightarrow> os \<Rightarrow> os res" where
  "enlarge_subs i s =
     bindE (get_task i s) (\<lambda>t.
       let sz = unat (tk_subbedEvtListSz t); newSz = (sz * 3 + 1) div 2
       in bindE (osGetCurrentTid s) (\<lambda>tid.
          bindE (heapAlloc (word_of_nat (4 * newSz)) (unat tid) (os_heap s)) (\<lambda>(newList, h).
            case newList of
              None \<Rightarrow> Inr (s\<lparr>os_heap := h\<rparr>)
            | Some a \<Rightarrow>
                bindE (subs_array t s) (\<lambda>xs.
                if sz > length xs then Inl OutOfBounds
                else
                bindE (case tk_subbedEvents t of
                         SubsHeap b \<Rightarrow>
                           bindE (heapFree (Some b) h) (\<lambda>h1. Inr (s\<lparr>os_heap := h1, os_chunks := (os_chunks s)(b := None)\<rparr>))
                       | _ \<Rightarrow> Inr (s\<lparr>os_heap := h\<rparr>)) (\<lambda>s1.
                  set_task i (\<lambda>u. u\<lparr>tk_subbedEvents := SubsHeap a, tk_subbedEvtListSz := word_of_nat newSz\<rparr>)
                    (s1\<lparr>os_chunks := (os_chunks s1)(a \<mapsto> take sz xs @ replicate (newSz - sz) 0)\<rparr>))))))"

definition subscribe :: "nat \<Rightarrow> u32 \<Rightarrow> os \<Rightarrow> os res" where
  "subscribe i evt s =
     bindE (get_task i s) (\<lambda>t.
     bindE (if tk_subbedEvtListSz t = tk_subbedEvtCount t then enlarge_subs i s else Inr s) (\<lambda>s1.
     bindE (get_task i s1) (\<lambda>t1.
       if tk_subbedEvtListSz t1 > tk_subbedEvtCount t1 then
         bindE (subs_array t1 s1) (\<lambda>xs.
           if unat (tk_subbedEvtCount t1) \<ge> length xs then Inl OutOfBounds
           else bindE (set_subs i (xs[unat (tk_subbedEvtCount t1) := evt]) s1)
                  (set_task i (tk_subbedEvtCount_update (\<lambda>c. c + 1))))
       else Inr s1)))"

definition unsubscribe :: "nat \<Rightarrow> nat \<Rightarrow> os \<Rightarrow> os res" where
  "unsubscribe i j s =
     bindE (get_task i s) (\<lambda>t.
     bindE (subs_array t s) (\<lambda>xs.
     bindE (array_get xs (unat (tk_subbedEvtCount t - 1))) (\<lambda>x.
     bindE (set_subs i (xs[j := x]) s) (set_task i (tk_subbedEvtCount_update (\<lambda>c. c - 1))))))"

definition handle_evtSub :: "bool \<Rightarrow> u32 \<Rightarrow> u32 \<Rightarrow> os \<Rightarrow> os res" where
  "handle_evtSub sub tid evt s =
     (case osTaskFindByTid tid of
        None \<Rightarrow> Inr s
      | Some i \<Rightarrow>
          bindE (get_task i s) (\<lambda>t.
          bindE (subs_array t s) (\<lambda>xs.
          bindE (find_sub (unat (tk_subbedEvtCount t)) 0 evt xs) (\<lambda>j.
            if \<not> sub \<and> j \<noteq> unat (tk_subbedEvtCount t) then unsubscribe i j s
            else if sub \<and> j = unat (tk_subbedEvtCount t) then subscribe i evt s
            else Inr s))))"

text \<open>The task at an address.\<close>

definition task_at :: "u32 \<Rightarrow> os \<Rightarrow> nat res" where
  "task_at a s = (case find (\<lambda>i. os_taskAddr s i = a) [0..<MAX_TASKS] of None \<Rightarrow> Inl OutOfBounds | Some i \<Rightarrow> Inr i)"

definition handle_private :: "ext \<Rightarrow> u32 \<Rightarrow> u32 \<Rightarrow> u32 \<Rightarrow> u32 \<Rightarrow> os \<Rightarrow> os res" where
  "handle_private ext evtType evtData evtFreeInfo toTid s =
     bindE (case osTaskFindByTid toTid of
              None \<Rightarrow> Inr s
            | Some i \<Rightarrow>
                bindE (osTaskHandle ext i evtType (Data evtData) (s\<lparr>os_curFree := None\<rparr>)) (\<lambda>s1.
                  Inr (s1\<lparr>os_curFree := os_curFree s\<rparr>)))
       (handleEventFreeing ext evtType evtData evtFreeInfo)"

definition read_thing :: "u32 \<Rightarrow> os \<Rightarrow> thing res" where
  "read_thing a s = (case os_things s a of None \<Rightarrow> Inl UseAfterFree | Some t \<Rightarrow> Inr t)"

text \<open>A member of the union that is not the one written is not read as what it is not.\<close>

definition osInternalEvtHandle :: "ext \<Rightarrow> u32 \<Rightarrow> u32 \<Rightarrow> os \<Rightarrow> os res" where
  "osInternalEvtHandle ext evtType evtData s =
     (if evtType = EVT_SUBSCRIBE_TO_EVT \<or> evtType = EVT_UNSUBSCRIBE_TO_EVT then
        bindE (read_thing evtData s) (\<lambda>da.
          case da of EvtSub tid evt \<Rightarrow> handle_evtSub (evtType = EVT_SUBSCRIBE_TO_EVT) tid evt s | _ \<Rightarrow> Inl OutOfBounds)
      else if evtType = EVT_APP_END then
        bindE (task_at evtData s) (\<lambda>i. bindE (osTaskEnd ext i s) (osUnloadApp ext i))
      else if evtType = EVT_DEFERRED_CALLBACK then
        bindE (read_thing evtData s) (\<lambda>da.
          case da of Deferred callback cookie \<Rightarrow> do_call ext (DeferredCbk callback cookie) s | _ \<Rightarrow> Inl OutOfBounds)
      else if evtType = EVT_PRIVATE_EVT then
        bindE (read_thing evtData s) (\<lambda>da.
          case da of PrivateEvt t d f to \<Rightarrow> handle_private ext t d f to s | _ \<Rightarrow> Inl OutOfBounds)
      else Inr s)"

text \<open>The inner loop over the subscriptions of one task: is the event among the first \<open>n\<close>?\<close>

definition wants_event :: "task \<Rightarrow> u32 \<Rightarrow> os \<Rightarrow> bool res" where
  "wants_event t evt s =
     bindE (subs_array t s) (\<lambda>xs.
     bindE (find_sub (unat (tk_subbedEvtCount t)) 0 evt xs) (\<lambda>j. Inr (j < unat (tk_subbedEvtCount t))))"

text \<open>\<open>for_each_task\<close> with a body that calls the tasks; the number bounds the rounds.\<close>

fun deliver_tasks :: "nat \<Rightarrow> ext \<Rightarrow> nat \<Rightarrow> u32 \<Rightarrow> u32 \<Rightarrow> os \<Rightarrow> os res" where
  "deliver_tasks 0 ext idx evtType evtData s = Inl Hang"
| "deliver_tasks (Suc n) ext idx evtType evtData s =
     (case osTaskByIdx idx of
        None \<Rightarrow> Inr s
      | Some i \<Rightarrow>
          bindE (get_task i s) (\<lambda>t.
          bindE (wants_event t evtType s) (\<lambda>w.
          bindE (if w then osTaskHandle ext i evtType (Data evtData) s else Inr s) (\<lambda>s1.
          bindE (get_task i s1) (\<lambda>t1. deliver_tasks n ext (tl_next (tk_list t1)) evtType evtData s1)))))"

definition dispatch :: "ext \<Rightarrow> event \<Rightarrow> os \<Rightarrow> os res" where
  "dispatch ext e s =
     (case e of (t, evtData, evtFreeingInfo) \<Rightarrow>
        let evtType = EVENT_GET_EVENT t;
            tid = EVENT_GET_ORIGIN evtType
        in bindE (case osTaskFindByTid tid of None \<Rightarrow> Inr s | Some i \<Rightarrow> osTaskAddIoCount i (-1) s) (\<lambda>s1.
           bindE (let s2 = s1\<lparr>os_curFree := Some evtFreeingInfo\<rparr>
                  in if evtType < EVT_NO_FIRST_USER_EVENT then osInternalEvtHandle ext evtType evtData s2
                     else deliver_tasks (Suc MAX_TASKS) ext (tl_next (tp_tasks (os_pool s2))) evtType evtData s2) (\<lambda>s3.
           bindE (case os_curFree s3 of None \<Rightarrow> Inr s3 | Some _ \<Rightarrow> handleEventFreeing ext evtType evtData evtFreeingInfo s3) (\<lambda>s4.
             Inr (s4\<lparr>os_curFree := None\<rparr>)))))"

definition osMainDequeueLoop :: "ext \<Rightarrow> (event \<times> bool) list list \<Rightarrow> os \<Rightarrow> os res" where
  "osMainDequeueLoop ext rounds s =
     bindE (evtQueueDequeue True rounds (os_evts s)) (\<lambda>(e, q).
       case e of None \<Rightarrow> Inr (s\<lparr>os_evts := q\<rparr>) | Some ev \<Rightarrow> dispatch ext ev (s\<lparr>os_evts := q\<rparr>))"

end
