(* ===== verification/Hub_SchedInv.thy ===== *)
theory Hub_SchedInv
  imports Hub_Sched
begin

text \<open>
  The invariant of the scheduler: the queue, the pool and the heap are well-formed, and the items of the slab
  that are in use are those the queued internal events point to.  Every call of the scheduler keeps it and
  runs without fault, when the code outside does; then so does code outside that is made of such calls.
\<close>

section \<open>Events and words\<close>

lemma origin_words [simp]:
  "EVENT_GET_EVENT (EVENT_WITH_ORIGIN t orig) = EVENT_GET_EVENT t"
  "EVENT_WITH_ORIGIN t orig AND EVENT_TYPE_BIT_DISCARDABLE = t AND EVENT_TYPE_BIT_DISCARDABLE"
proof -
  have "EVT_MASK = mask 16" by (simp add: EVT_MASK_def mask_eq_exp_minus_1)
  moreover have "push_bit 16 orig AND mask 16 = (0 :: u32)" by (rule bit_word_eqI) (auto simp: bit_simps)
  ultimately have m: "EVENT_WITH_ORIGIN t orig AND EVT_MASK = t AND EVT_MASK" for t
    by (simp add: EVENT_WITH_ORIGIN_def bit.conj_disj_distrib2)
  have d: "EVENT_TYPE_BIT_DISCARDABLE AND EVT_MASK = EVENT_TYPE_BIT_DISCARDABLE"
    by (simp add: EVENT_TYPE_BIT_DISCARDABLE_def EVT_MASK_def)
  show "EVENT_GET_EVENT (EVENT_WITH_ORIGIN t orig) = EVENT_GET_EVENT t"
    using m [of t] by (simp add: EVENT_GET_EVENT_def flip: and.assoc)
  have "x AND EVENT_TYPE_BIT_DISCARDABLE = (x AND EVT_MASK) AND EVENT_TYPE_BIT_DISCARDABLE" for x
    by (metis d and.assoc and.commute)
  then show "EVENT_WITH_ORIGIN t orig AND EVENT_TYPE_BIT_DISCARDABLE = t AND EVENT_TYPE_BIT_DISCARDABLE" using m [of t] by metis
qed

lemma origin_discardable [simp]: "is_discardable (EVENT_WITH_ORIGIN t orig, x) = is_discardable (t, x)"
  by (simp add: is_discardable_def)

lemma internal_types [simp]:
  "EVENT_GET_EVENT EVT_SUBSCRIBE_TO_EVT = EVT_SUBSCRIBE_TO_EVT" "EVENT_GET_EVENT EVT_UNSUBSCRIBE_TO_EVT = EVT_UNSUBSCRIBE_TO_EVT"
  "EVENT_GET_EVENT EVT_DEFERRED_CALLBACK = EVT_DEFERRED_CALLBACK" "EVENT_GET_EVENT EVT_PRIVATE_EVT = EVT_PRIVATE_EVT"
  "\<not> is_discardable (EVT_SUBSCRIBE_TO_EVT, x)" "\<not> is_discardable (EVT_UNSUBSCRIBE_TO_EVT, x)"
  "\<not> is_discardable (EVT_DEFERRED_CALLBACK, x)" "\<not> is_discardable (EVT_PRIVATE_EVT, x)"
  by (simp_all add: EVENT_GET_EVENT_def EVT_SUBSCRIBE_TO_EVT_def EVT_UNSUBSCRIBE_TO_EVT_def EVT_DEFERRED_CALLBACK_def
    EVT_PRIVATE_EVT_def EVT_MASK_def EVENT_TYPE_BIT_DISCARDABLE_def is_discardable_def)

text \<open>The origin that the main loop reads is that of an event type without its upper half.\<close>

lemma origin_lost: "EVENT_GET_ORIGIN (EVENT_GET_EVENT t) = 0"
proof -
  have e: "EVT_MASK AND NOT EVENT_TYPE_BIT_DISCARDABLE = (mask 15 :: u32)"
    by (simp add: EVT_MASK_def EVENT_TYPE_BIT_DISCARDABLE_def mask_eq_exp_minus_1)
  show ?thesis unfolding EVENT_GET_ORIGIN_def EVENT_GET_EVENT_def e by (rule bit_word_eqI) (auto simp: bit_simps)
qed

lemma tagged_uint:
  "x AND TAG = 0 \<Longrightarrow> \<not> taggedPtrIsPtr (taggedPtrMakeFromUint x) \<and> taggedPtrToUint (taggedPtrMakeFromUint x) = x"
proof -
  assume x: "x AND TAG = 0"
  have "(x OR TAG) AND TAG = TAG" by (simp add: ac_simps)
  moreover have "(x OR TAG) AND NOT TAG = x AND NOT TAG" by (simp add: bit.conj_disj_distrib2)
  moreover have "x AND NOT TAG = x"
  proof -
    have "x = (x AND NOT TAG) OR (x AND TAG)" by (metis bit.conj_disj_distrib bit.disj_cancel_left and.right_neutral)
    with x show ?thesis by simp
  qed
  moreover have "TAG \<noteq> 0" by (simp add: TAG_def)
  ultimately show ?thesis by (simp add: taggedPtrIsPtr_def taggedPtrToUint_def taggedPtrMakeFromUint_def)
qed

lemma ucast_no_tag: "(ucast (t :: u16) :: u32) AND TAG = 0"
proof -
  have "take_bit 16 TAG = 0" by (simp add: TAG_def)
  then have "\<not> bit TAG n" if "n < 16" for n using that bit_take_bit_iff [of 16 TAG n] by simp
  moreover have "\<not> bit (ucast t :: u32) n" if "16 \<le> n" for n using that by (auto simp: bit_simps dest: bit_imp_le_length)
  ultimately have "\<not> bit (ucast t AND TAG) n" for n unfolding bit_and_iff by (cases "n < 16") auto
  then show ?thesis by (intro bit_word_eqI) simp
qed

section \<open>What a call may change\<close>

definition same_task :: "task \<Rightarrow> task \<Rightarrow> bool" where
  "same_task t t' \<longleftrightarrow> t' = t\<lparr>tk_ioCount := tk_ioCount t'\<rparr>"

definition same_pool :: "task_pool \<Rightarrow> task_pool \<Rightarrow> bool" where
  "same_pool p p' \<longleftrightarrow> list_all2 same_task (tp_data p) (tp_data p') \<and> tp_free p' = tp_free p \<and> tp_tasks p' = tp_tasks p"

text \<open>A task is handed an event of the applications.\<close>

fun is_delivery :: "ext_call \<Rightarrow> bool" where
  "is_delivery (AppHandle i t a) = (EVT_NO_FIRST_USER_EVENT \<le> t)"
| "is_delivery c = False"

text \<open>\<open>H\<close> are the items of the slab that are in hand: in use and in no queued event.\<close>

definition frame :: "nat set \<Rightarrow> os \<Rightarrow> os \<Rightarrow> bool" where
  "frame H s s' \<longleftrightarrow>
     same_pool (os_pool s) (os_pool s') \<and> os_currentTask s' = os_currentTask s \<and> os_systemTask s' = os_systemTask s \<and>
     os_heap s' = os_heap s \<and> os_chunks s' = os_chunks s \<and> os_freeF s' = os_freeF s \<and> os_taskAddr s' = os_taskAddr s \<and>
     (\<forall>a. unat a \<in> H \<longrightarrow> os_things s' a = os_things s a) \<and>
     (\<exists>l. os_log s' = os_log s @ l \<and> list_all (\<lambda>c. \<not> is_delivery c) l) \<and>
     (os_curFree s' = os_curFree s \<or> os_curFree s' = None \<and> os_curFree s \<noteq> Some (os_freeF s))"

lemma same_task_refl [simp]: "same_task t t"
  by (simp add: same_task_def)

lemma same_task_trans: "same_task t u \<Longrightarrow> same_task u v \<Longrightarrow> same_task t v"
  by (cases t; cases u; cases v) (simp add: same_task_def)

lemma same_pool_refl [simp]: "same_pool p p"
  by (simp add: same_pool_def list_all2_refl)

lemma same_pool_trans: "same_pool p q \<Longrightarrow> same_pool q r \<Longrightarrow> same_pool p r"
  unfolding same_pool_def by (auto intro: list_all2_trans same_task_trans)

lemma frame_refl [simp]: "frame H s s"
  by (auto simp: frame_def)

lemma frame_trans:
  assumes "frame H s s1" and "frame H s1 s2"
  shows "frame H s s2"
proof -
  obtain l m where "os_log s1 = os_log s @ l" "list_all (\<lambda>c. \<not> is_delivery c) l"
    "os_log s2 = os_log s1 @ m" "list_all (\<lambda>c. \<not> is_delivery c) m" using assms by (auto simp: frame_def)
  then have "\<exists>l. os_log s2 = os_log s @ l \<and> list_all (\<lambda>c. \<not> is_delivery c) l" by (intro exI [of _ "l @ m"]) simp
  moreover have "same_pool (os_pool s) (os_pool s2)" using assms same_pool_trans by (auto simp: frame_def)
  ultimately show ?thesis using assms by (auto simp: frame_def)
qed

lemma frame_mono: "frame H s s' \<Longrightarrow> K \<subseteq> H \<Longrightarrow> frame K s s'"
  unfolding frame_def by blast

lemma same_pool_tasks:
  assumes "same_pool p p'"
  shows "length (tp_data p') = length (tp_data p)" and "i < length (tp_data p) \<Longrightarrow> same_task (tp_data p ! i) (tp_data p' ! i)"
  using assms by (auto simp: same_pool_def list_all2_conv_all_nth)

lemma same_task_fields:
  assumes "same_task t t'"
  shows "tk_app t' = tk_app t" "tk_subbedEventsInt t' = tk_subbedEventsInt t" "tk_subbedEvents t' = tk_subbedEvents t"
    "tk_list t' = tk_list t" "tk_tid t' = tk_tid t" "tk_subbedEvtCount t' = tk_subbedEvtCount t"
    "tk_subbedEvtListSz t' = tk_subbedEvtListSz t" "tk_flags t' = tk_flags t"
proof -
  have e: "t' = t\<lparr>tk_ioCount := tk_ioCount t'\<rparr>" using assms by (simp add: same_task_def)
  show "tk_app t' = tk_app t" "tk_subbedEventsInt t' = tk_subbedEventsInt t" "tk_subbedEvents t' = tk_subbedEvents t"
    "tk_list t' = tk_list t" "tk_tid t' = tk_tid t" "tk_subbedEvtCount t' = tk_subbedEvtCount t"
    "tk_subbedEvtListSz t' = tk_subbedEvtListSz t" "tk_flags t' = tk_flags t" by (subst e, simp)+
qed

lemma same_pool_ok:
  assumes "pool_ok p fs ts" and "same_pool p p'"
  shows "pool_ok p' fs ts"
proof -
  have "tlink p' i = tlink p i" if "i \<in> set (fs @ ts)" for i
    using same_task_fields(4) [OF same_pool_tasks(2) [OF assms(2), of i]] that assms(1) by (auto simp: tlink_def pool_ok_def)
  then have "list_is MFreeTasks p' fs = list_is MFreeTasks p fs" "list_is MTasks p' ts = list_is MTasks p ts"
    using assms(2) by (auto intro!: list_is_cong simp: same_pool_def)
  then show ?thesis using assms(1) same_pool_tasks(1) [OF assms(2)] by (simp add: pool_ok_def)
qed

section \<open>The invariant\<close>

text \<open>The slot that a task ID stands for has an application.\<close>

definition slot_live :: "os \<Rightarrow> u32 \<Rightarrow> bool" where
  "slot_live s tid \<longleftrightarrow> (case osTaskFindByTid tid of None \<Rightarrow> True | Some i \<Rightarrow> tk_app (tp_data (os_pool s) ! i) \<noteq> None)"

text \<open>How an event of the applications may be freed.\<close>

definition info_ok :: "os \<Rightarrow> u32 \<Rightarrow> bool" where
  "info_ok s f \<longleftrightarrow> f \<noteq> os_freeF s \<and> (taggedPtrIsPtr f \<or> taggedPtrToUint f = 0 \<or> slot_live s (taggedPtrToUint f))"

fun thing_ok :: "os \<Rightarrow> u32 \<Rightarrow> thing \<Rightarrow> bool" where
  "thing_ok s t (EvtSub tid evt) \<longleftrightarrow> t = EVT_SUBSCRIBE_TO_EVT \<or> t = EVT_UNSUBSCRIBE_TO_EVT"
| "thing_ok s t (Deferred callback cookie) \<longleftrightarrow> t = EVT_DEFERRED_CALLBACK"
| "thing_ok s t (PrivateEvt pt pd pf to) \<longleftrightarrow> t = EVT_PRIVATE_EVT \<and> info_ok s pf \<and> slot_live s to"

text \<open>An internal event points to a thing of its kind; the others are of the applications.\<close>

definition event_ok :: "os \<Rightarrow> event \<Rightarrow> bool" where
  "event_ok s e \<longleftrightarrow> (case e of (t, d, f) \<Rightarrow>
     if f = os_freeF s
     then \<not> is_discardable e \<and> (\<exists>th. os_things s d = Some th \<and> thing_ok s (EVENT_GET_EVENT t) th)
     else EVT_NO_FIRST_USER_EVENT \<le> EVENT_GET_EVENT t \<and> info_ok s f)"

definition refs :: "u32 \<Rightarrow> event list \<Rightarrow> nat list" where
  "refs freeF es = [unat d. (t, d, f) \<leftarrow> es, f = freeF]"

definition things_ok :: "os \<Rightarrow> event list \<Rightarrow> nat set \<Rightarrow> bool" where
  "things_ok s es H \<longleftrightarrow>
     slab_ok (os_slab s) \<and> (\<forall>e \<in> set es. event_ok s e) \<and> distinct (refs (os_freeF s) es) \<and>
     set (refs (os_freeF s) es) \<inter> H = {} \<and> set (refs (os_freeF s) es) \<union> H = fst ` slab_live (os_slab s)"

definition tasks_ok :: "os \<Rightarrow> bool" where
  "tasks_ok s \<longleftrightarrow>
     (\<exists>fs ts. pool_ok (os_pool s) fs ts \<and> (\<forall>i \<in> set ts. tk_app (tp_data (os_pool s) ! i) \<noteq> None)) \<and> os_currentTask s < MAX_TASKS \<and> os_systemTask s < MAX_TASKS \<and>
     (\<forall>i < MAX_TASKS. \<exists>n. tk_tid (tp_data (os_pool s) ! i) = tid_of n i) \<and>
     (\<forall>i < MAX_TASKS. tk_tid (tp_data (os_pool s) ! i) = 0 \<or> slot_live s (ucast (tk_tid (tp_data (os_pool s) ! i)))) \<and>
     taggedPtrIsPtr (os_freeF s) \<and> os_freeF s \<noteq> 0"

text \<open>Room for the subscriptions of a task.\<close>

definition subs_len :: "task \<Rightarrow> os \<Rightarrow> nat" where
  "subs_len t s =
     (case tk_subbedEvents t of
        SubsNull \<Rightarrow> 0
      | SubsInt \<Rightarrow> length (tk_subbedEventsInt t)
      | SubsHeap a \<Rightarrow> (case os_chunks s a of None \<Rightarrow> 0 | Some xs \<Rightarrow> length xs))"

definition subs_ok :: "os \<Rightarrow> bool" where
  "subs_ok s \<longleftrightarrow>
     (\<forall>i < MAX_TASKS. let t = tp_data (os_pool s) ! i in
        unat (tk_subbedEvtCount t) \<le> subs_len t s \<and> unat (tk_subbedEvtListSz t) \<le> subs_len t s \<and>
        (\<forall>a. tk_subbedEvents t = SubsHeap a \<longrightarrow> os_chunks s a \<noteq> None \<and> a \<in> fst ` heap_live (os_heap s) \<and>
           (\<forall>j < MAX_TASKS. j \<noteq> i \<longrightarrow> tk_subbedEvents (tp_data (os_pool s) ! j) \<noteq> SubsHeap a)))"

text \<open>No block was freed while the heap was locked.\<close>

definition heap_calm :: "hub_heap \<Rightarrow> bool" where
  "heap_calm h \<longleftrightarrow> heap_inv h \<and> \<not> hh_need h \<and> \<not> hh_lock h"

definition still_ok :: "os \<Rightarrow> bool" where
  "still_ok s \<longleftrightarrow> tasks_ok s \<and> subs_ok s \<and> heap_calm (os_heap s)"

definition invq :: "os \<Rightarrow> nat set \<Rightarrow> event list \<Rightarrow> bool" where
  "invq s H es \<longleftrightarrow> (\<exists>xs. queue_ok (os_evts s) xs es) \<and> things_ok s es H \<and> still_ok s"

definition sinv :: "os \<Rightarrow> nat set \<Rightarrow> bool" where
  "sinv s H \<longleftrightarrow> (\<exists>es. invq s H es)"

definition good :: "nat set \<Rightarrow> os \<Rightarrow> os \<Rightarrow> bool" where
  "good H s s' \<longleftrightarrow> sinv s' H \<and> frame H s s'"

lemma good_trans: "good H s s1 \<Longrightarrow> good K s1 s2 \<Longrightarrow> K \<subseteq> H \<Longrightarrow> good K s s2"
  unfolding good_def by (auto intro: frame_trans [OF frame_mono])

lemma good_refl: "sinv s H \<Longrightarrow> good H s s"
  by (simp add: good_def)

lemma find_by_tid_less: "osTaskFindByTid tid = Some i \<Longrightarrow> i < MAX_TASKS"
  by (auto simp: osTaskFindByTid_def Let_def split: if_splits)

lemma tasks_ok_pool: "tasks_ok s \<Longrightarrow> length (tp_data (os_pool s)) = MAX_TASKS"
  by (auto simp: tasks_ok_def pool_ok_def)

text \<open>Nothing of this depends on the counts of the tasks.\<close>

lemma slot_live_same:
  assumes "same_pool (os_pool s) (os_pool s')" and "length (tp_data (os_pool s)) = MAX_TASKS"
  shows "slot_live s' = slot_live s"
proof
  fix tid
  show "slot_live s' tid = slot_live s tid"
  proof (cases "osTaskFindByTid tid")
    case (Some i)
    then have "i < length (tp_data (os_pool s))" using find_by_tid_less assms(2) by simp
    from same_task_fields(1) [OF same_pool_tasks(2) [OF assms(1) this]] Some show ?thesis by (simp add: slot_live_def)
  qed (simp add: slot_live_def)
qed

lemma still_ok_frame:
  assumes "still_ok s" and f: "frame H s s'"
  shows "still_ok s'"
proof -
  have p: "same_pool (os_pool s) (os_pool s')" using f by (simp add: frame_def)
  have len: "length (tp_data (os_pool s)) = MAX_TASKS" using assms(1) tasks_ok_pool by (simp add: still_ok_def)
  have t: "same_task (tp_data (os_pool s) ! i) (tp_data (os_pool s') ! i)" if "i < MAX_TASKS" for i
    using same_pool_tasks(2) [OF p] that len by simp
  note fields = same_task_fields [OF t]
  obtain fs ts where pool: "pool_ok (os_pool s) fs ts" "\<forall>i \<in> set ts. tk_app (tp_data (os_pool s) ! i) \<noteq> None"
    using assms(1) by (auto simp: still_ok_def tasks_ok_def)
  have "tk_app (tp_data (os_pool s') ! i) \<noteq> None" if "i \<in> set ts" for i
    using that pool fields(1) [OF pool_ok_index(1) [OF pool(1)]] by auto
  then have "\<exists>fs ts. pool_ok (os_pool s') fs ts \<and> (\<forall>i \<in> set ts. tk_app (tp_data (os_pool s') ! i) \<noteq> None)"
    using same_pool_ok [OF pool(1) p] by blast
  then have tasks: "tasks_ok s'" using assms f by (simp add: still_ok_def tasks_ok_def frame_def fields(5) slot_live_same [OF p len])
  have "subs_len (tp_data (os_pool s') ! i) s' = subs_len (tp_data (os_pool s) ! i) s" if "i < MAX_TASKS" for i
    using f fields(2,3) [OF that] by (simp add: subs_len_def frame_def split: subs_ptr.split)
  moreover have "os_chunks s' = os_chunks s" "os_heap s' = os_heap s" using f by (simp_all add: frame_def)
  ultimately have "subs_ok s' = subs_ok s" unfolding subs_ok_def Let_def by (simp add: fields)
  then have "subs_ok s'" using assms(1) by (simp add: still_ok_def)
  then show ?thesis using assms(1) f tasks by (simp add: still_ok_def frame_def)
qed

lemma info_ok_frame: "still_ok s \<Longrightarrow> frame H s s' \<Longrightarrow> info_ok s' f = info_ok s f"
  using slot_live_same [of s s'] tasks_ok_pool [of s] by (simp add: info_ok_def frame_def still_ok_def)

lemma thing_ok_frame: "still_ok s \<Longrightarrow> frame H s s' \<Longrightarrow> thing_ok s' t th = thing_ok s t th"
  using slot_live_same [of s s'] tasks_ok_pool [of s] info_ok_frame [of s H s']
  by (cases th) (simp_all add: frame_def still_ok_def)

lemma event_ok_frame:
  assumes "still_ok s" and "frame H s s'" and "event_ok s (t, d, f)" and "f = os_freeF s \<Longrightarrow> os_things s' d = os_things s d"
  shows "event_ok s' (t, d, f)"
proof -
  have "os_freeF s' = os_freeF s" using assms(2) by (simp add: frame_def)
  then show ?thesis using assms(3,4) info_ok_frame [OF assms(1,2)] thing_ok_frame [OF assms(1,2)]
    by (auto simp: event_ok_def split: if_splits)
qed

lemma refs_simps [simp]:
  "refs F [] = []" "refs F ((t, d, f) # es) = (if f = F then unat d # refs F es else refs F es)"
  "refs F (xs @ ys) = refs F xs @ refs F ys"
  by (simp_all add: refs_def)

lemma refs_in: "(t, d, f) \<in> set es \<Longrightarrow> f = F \<Longrightarrow> unat d \<in> set (refs F es)"
  by (force simp: refs_def)

text \<open>The queue and the things can be followed apart from the rest.\<close>

lemma things_ok_cong:
  assumes "things_ok s es H" and "still_ok s" and f: "frame G s s'" and "os_slab s' = os_slab s" and "os_things s' = os_things s"
  shows "things_ok s' es H"
proof -
  have "event_ok s' e" if "e \<in> set es" for e
  proof -
    obtain t d f where e: "e = (t, d, f)" by (cases e)
    have "event_ok s (t, d, f)" using assms(1) that e by (simp add: things_ok_def)
    from event_ok_frame [OF assms(2) f this] assms(5) e show ?thesis by simp
  qed
  moreover have "os_freeF s' = os_freeF s" using f by (simp add: frame_def)
  ultimately show ?thesis using assms(1,4) by (simp add: things_ok_def)
qed

lemma inv_cong:
  assumes "sinv s H" and "frame G s s'" and "os_slab s' = os_slab s" and "os_things s' = os_things s" and "os_evts s' = os_evts s"
  shows "sinv s' H"
  using assms things_ok_cong [OF _ _ assms(2-4)] still_ok_frame [OF _ assms(2)] unfolding sinv_def invq_def by metis

lemma inv_still: "sinv s H \<Longrightarrow> still_ok s"
  by (auto simp: sinv_def invq_def)

section \<open>Code outside\<close>

text \<open>A call of code outside returns, and does no more than calls of the scheduler may do.\<close>

definition ext_ok :: "ext \<Rightarrow> bool" where
  "ext_ok ext \<longleftrightarrow> (\<forall>c s H. sinv s H \<longrightarrow> (\<exists>b s'. ext c s = Inr (b, s') \<and> good H s s'))"

lemma call_ext_any:
  assumes "ext_ok ext" and "sinv s H"
  shows "\<exists>b s'. call_ext ext c s = Inr (b, s') \<and> sinv s' H \<and> frame H (s\<lparr>os_log := os_log s @ [c]\<rparr>) s'"
proof -
  let ?s = "s\<lparr>os_log := os_log s @ [c]\<rparr>"
  have "slot_live ?s = slot_live s" "info_ok ?s = info_ok s" by (auto simp: slot_live_def info_ok_def fun_eq_iff split: option.splits)
  note sl = this
  have th: "thing_ok ?s t th = thing_ok s t th" for t th by (cases th) (simp_all add: sl)
  then have "event_ok ?s = event_ok s" by (auto simp: event_ok_def sl fun_eq_iff)
  then have "things_ok ?s es H = things_ok s es H" for es by (simp add: things_ok_def)
  moreover have "subs_len t ?s = subs_len t s" for t by (simp add: subs_len_def split: subs_ptr.split)
  then have "still_ok ?s = still_ok s" by (simp add: still_ok_def tasks_ok_def subs_ok_def sl)
  ultimately have "sinv ?s H" using assms(2) by (auto simp: sinv_def invq_def)
  with assms(1) show ?thesis unfolding ext_ok_def call_ext_def good_def by blast
qed

lemma call_ext_ok:
  assumes "ext_ok ext" and "sinv s H" and "\<not> is_delivery c"
  shows "\<exists>b s'. call_ext ext c s = Inr (b, s') \<and> good H s s'"
proof -
  have "frame H s (s\<lparr>os_log := os_log s @ [c]\<rparr>)" using assms(3) by (auto simp: frame_def)
  then show ?thesis using call_ext_any [OF assms(1,2), of c] frame_trans by (auto simp: good_def)
qed

lemma inv_current:
  assumes "sinv s H" and "i < MAX_TASKS"
  shows "sinv (s\<lparr>os_currentTask := i\<rparr>) H"
proof -
  let ?s = "s\<lparr>os_currentTask := i\<rparr>"
  have sl: "slot_live ?s = slot_live s" "info_ok ?s = info_ok s" by (auto simp: slot_live_def info_ok_def fun_eq_iff split: option.splits)
  have th: "thing_ok ?s t th = thing_ok s t th" for t th by (cases th) (simp_all add: sl)
  then have "event_ok ?s = event_ok s" by (auto simp: event_ok_def sl fun_eq_iff)
  then have "things_ok ?s es H = things_ok s es H" for es by (simp add: things_ok_def)
  moreover have "subs_len t ?s = subs_len t s" for t by (simp add: subs_len_def split: subs_ptr.split)
  then have "still_ok s \<Longrightarrow> still_ok ?s" using assms(2) by (simp add: still_ok_def tasks_ok_def subs_ok_def sl)
  ultimately show ?thesis using assms(1) by (auto simp: sinv_def invq_def)
qed

lemma as_task_ok:
  assumes "sinv s H" and i: "i < MAX_TASKS"
    and f: "\<And>s. sinv s H \<Longrightarrow> s = s0\<lparr>os_currentTask := i\<rparr> \<Longrightarrow> \<exists>b s'. f s = Inr (b, s') \<and> good H s s'" and s0: "s0 = s"
  shows "\<exists>b s'. as_task i f s = Inr (b, s') \<and> good H s s'"
proof -
  from f [OF inv_current [OF assms(1) i]] s0 obtain b s1 where
    b: "f (s\<lparr>os_currentTask := i\<rparr>) = Inr (b, s1)" "good H (s\<lparr>os_currentTask := i\<rparr>) s1" by auto
  let ?s = "s1\<lparr>os_currentTask := os_currentTask s\<rparr>"
  have "os_currentTask s < MAX_TASKS" using inv_still [OF assms(1)] by (simp add: still_ok_def tasks_ok_def)
  then have "sinv ?s H" using b(2) inv_current by (simp add: good_def)
  moreover have "frame H s ?s" using b(2) by (simp add: good_def frame_def)
  ultimately show ?thesis using b(1) by (simp add: as_task_def good_def)
qed

lemma get_task_ok:
  assumes "still_ok s" and "i < MAX_TASKS"
  shows "get_task i s = Inr (tp_data (os_pool s) ! i)"
  using assms tasks_ok_pool [of s] by (simp add: get_task_def still_ok_def)

lemma app_call_ok:
  assumes "ext_ok ext" and "sinv s H" and "\<not> is_delivery c" and "i < MAX_TASKS" and "tk_app (tp_data (os_pool s) ! i) \<noteq> None"
  shows "\<exists>b s'. app_call ext i c s = Inr (b, s') \<and> good H s s'"
  using assms call_ext_ok [OF assms(1-3)] get_task_ok [OF inv_still [OF assms(2)] assms(4)]
  by (auto simp: app_call_def)

lemma osTaskHandle_ok:
  assumes "ext_ok ext" and "sinv s H" and "t < EVT_NO_FIRST_USER_EVENT" and "i < MAX_TASKS" and "tk_app (tp_data (os_pool s) ! i) \<noteq> None"
  shows "\<exists>s'. osTaskHandle ext i t a s = Inr s' \<and> good H s s'"
proof -
  have "\<exists>b s'. as_task i (app_call ext i (AppHandle i t a)) s = Inr (b, s') \<and> good H s s'"
    by (rule as_task_ok [OF assms(2,4) _ refl], rule app_call_ok [OF assms(1)]) (use assms in auto)
  then show ?thesis by (auto simp: osTaskHandle_def)
qed

section \<open>Freeing an event\<close>

lemma call_freeF_user:
  assumes "ext_ok ext" and "sinv s H" and "f \<noteq> os_freeF s"
  shows "\<exists>s'. call_freeF ext f d s = Inr s' \<and> good H s s'"
  using assms call_ext_ok [OF assms(1,2), of "FreeFn f d"] by (auto simp: call_freeF_def)

lemma handleEventFreeing_user:
  assumes "ext_ok ext" and "sinv s H" and "info_ok s f"
  shows "\<exists>s'. handleEventFreeing ext t d f s = Inr s' \<and> good H s s'"
proof -
  have "EVT_APP_FREE_EVT_DATA < EVT_NO_FIRST_USER_EVENT" by (simp add: EVT_APP_FREE_EVT_DATA_def EVT_NO_FIRST_USER_EVENT_def)
  note h = osTaskHandle_ok [OF assms(1,2) this find_by_tid_less]
  show ?thesis
  proof (cases "taggedPtrIsPtr f")
    case True
    then show ?thesis using assms(3) good_refl [OF assms(2)] call_freeF_user [OF assms(1,2), of f d]
      by (auto simp: handleEventFreeing_def info_ok_def)
  next
    case False
    then show ?thesis using assms(3) good_refl [OF assms(2)] h
      by (auto simp: handleEventFreeing_def info_ok_def slot_live_def split: option.splits)
  qed
qed

text \<open>The free function of the internal events gives the item back.\<close>

lemma osDeferredActionFreeF_ok:
  assumes "sinv s H" and a: "unat a \<in> H"
  shows "\<exists>s'. osDeferredActionFreeF a s = Inr s' \<and> good (H - {unat a}) s s'"
proof -
  obtain xs es where q: "queue_ok (os_evts s) xs es" and t: "things_ok s es H" and st: "still_ok s"
    using assms(1) by (auto simp: sinv_def invq_def)
  obtain sl where sl: "slabAllocatorFree a (os_slab s) = Inr sl" "slab_ok sl" "slab_live sl = {x \<in> slab_live (os_slab s). fst x \<noteq> unat a}"
    by (rule slab_free_live [of "os_slab s" a]) (use t in \<open>auto simp: things_ok_def\<close>)
  let ?s = "s\<lparr>os_slab := sl, os_things := (os_things s)(a := None)\<rparr>"
  have f: "frame (H - {unat a}) s ?s" by (auto simp: frame_def)
  have "event_ok ?s e" if "e \<in> set es" for e
  proof -
    obtain t' d g where e: "e = (t', d, g)" by (cases e)
    have "event_ok s (t', d, g)" using t that e by (simp add: things_ok_def)
    moreover have "d \<noteq> a" if "g = os_freeF s" using refs_in [of t' d g es] \<open>e \<in> set es\<close> e that t a by (auto simp: things_ok_def)
    ultimately show ?thesis using event_ok_frame [OF st f] e by simp
  qed
  moreover have "fst ` {x \<in> slab_live (os_slab s). fst x \<noteq> unat a} = fst ` slab_live (os_slab s) - {unat a}" by auto
  moreover have "unat a \<notin> set (refs (os_freeF s) es)" using t a by (auto simp: things_ok_def)
  ultimately have "things_ok ?s es (H - {unat a})" using t a sl(2,3) by (auto simp: things_ok_def)
  then have "sinv ?s (H - {unat a})" using q still_ok_frame [OF st f] by (auto simp: sinv_def invq_def)
  then show ?thesis using sl(1) f by (simp add: osDeferredActionFreeF_def good_def)
qed

text \<open>An event that is in hand: with an internal one, the item.\<close>

definition unless_internal :: "os \<Rightarrow> event \<Rightarrow> nat set \<Rightarrow> nat set" where
  "unless_internal s e H = (case e of (t, d, f) \<Rightarrow> if f = os_freeF s then H - {unat d} else H)"

definition in_hand :: "os \<Rightarrow> event \<Rightarrow> nat set \<Rightarrow> bool" where
  "in_hand s e H \<longleftrightarrow> event_ok s e \<and> (case e of (t, d, f) \<Rightarrow> f = os_freeF s \<longrightarrow> unat d \<in> H)"

lemma unless_internal_subset: "unless_internal s e H \<subseteq> H"
  by (auto simp: unless_internal_def split: prod.splits)

lemma in_hand_frame:
  assumes "in_hand s e H" and "still_ok s" and "frame H s s'"
  shows "in_hand s' e H" and "unless_internal s' e H = unless_internal s e H"
proof -
  obtain t d f where e: "e = (t, d, f)" by (cases e)
  have h: "event_ok s (t, d, f)" "f = os_freeF s \<Longrightarrow> unat d \<in> H" using assms(1) e by (simp_all add: in_hand_def)
  have same: "os_freeF s' = os_freeF s" using assms(3) by (simp add: frame_def)
  have "f = os_freeF s \<Longrightarrow> os_things s' d = os_things s d" using h(2) assms(3) by (simp add: frame_def)
  from event_ok_frame [OF assms(2,3) h(1) this] show "in_hand s' e H" using h(2) e same by (simp add: in_hand_def)
  show "unless_internal s' e H = unless_internal s e H" using e same by (simp add: unless_internal_def)
qed

lemma handleEventFreeing_ok:
  assumes ext: "ext_ok ext" and i: "sinv s H" and h: "in_hand s (t', d, f) H"
  shows "\<exists>s'. handleEventFreeing ext t d f s = Inr s' \<and> good (unless_internal s (t', d, f) H) s s'"
proof (cases "f = os_freeF s")
  case True
  then have "handleEventFreeing ext t d f s = osDeferredActionFreeF d s"
    using inv_still [OF i] by (simp add: handleEventFreeing_def call_freeF_def still_ok_def tasks_ok_def)
  then show ?thesis using True h osDeferredActionFreeF_ok [OF i, of d] by (simp add: in_hand_def unless_internal_def)
next
  case False
  then show ?thesis using h handleEventFreeing_user [OF ext i, of f t d] by (simp add: in_hand_def event_ok_def unless_internal_def)
qed

lemma free_events_ok:
  assumes ext: "ext_ok ext" and "sinv s H" and "\<forall>(t, d, f) \<in> set ds. info_ok s f"
  shows "\<exists>s'. free_events ext ds s = Inr s' \<and> good H s s'"
  using assms(2,3)
proof (induction ds arbitrary: s)
  case Nil
  then show ?case by (simp add: good_refl)
next
  case (Cons e ds)
  obtain t d f where e: "e = (t, d, f)" by (cases e)
  from handleEventFreeing_user [OF ext Cons.prems(1), of f t d] Cons.prems(2) e obtain s1 where
    s1: "handleEventFreeing ext t d f s = Inr s1" "good H s s1" by auto
  have "info_ok s1 = info_ok s" using info_ok_frame [OF inv_still [OF Cons.prems(1)]] s1(2) by (auto simp: good_def)
  then have "\<forall>(t, d, f) \<in> set ds. info_ok s1 f" using Cons.prems(2) by auto
  from Cons.IH [OF _ this] s1(2) obtain s2 where "free_events ext ds s1 = Inr s2" "good H s1 s2" by (auto simp: good_def)
  then show ?case using s1 e good_trans by auto
qed

section \<open>Sending\<close>

lemma queue_ok_discarded [simp]: "queue_ok (q\<lparr>eq_discarded := l\<rparr>) xs es = queue_ok q xs es"
  "eq_cap (q\<lparr>eq_discarded := l\<rparr>) = eq_cap q"
  by (simp_all add: queue_ok_def linked_def eq_cap_def)

lemma victim_refs:
  assumes "victim es = Some (v, es')" and "snd (snd v) \<noteq> F"
  shows "refs F es' = refs F es \<and> insert v (set es') = set es"
  using assms
proof (induction es arbitrary: es')
  case (Cons e es)
  obtain t d f where e: "e = (t, d, f)" by (cases e)
  show ?case
  proof (cases "is_discardable e")
    case True
    then show ?thesis using Cons.prems e by auto
  next
    case False
    then obtain es1 where v: "victim es = Some (v, es1)" "es' = e # es1" using Cons.prems(1) by (auto split: option.splits)
    from Cons.IH [OF v(1) Cons.prems(2)] v(2) e show ?thesis by auto
  qed
qed simp

lemma put_refs [simp]: "set (refs F (put e b es)) = set (refs F (e # es))" "distinct (refs F (put e b es)) = distinct (refs F (e # es))"
  "set (put e b es) = insert e (set es)"
  by (cases e; auto simp: put_def)+

text \<open>What \<open>evtQueueEnqueue\<close> does to the invariant; the events it throws away are of the applications.\<close>

lemma enqueue_inv:
  assumes q: "invq s H es" and h: "in_hand s e H"
  shows "\<exists>b q ds. evtQueueEnqueue (Some ((os_evts s)\<lparr>eq_discarded := []\<rparr>)) e atFront = Inr (b, Some q) \<and>
    eq_discarded q = ds \<and> (\<forall>(t, d, f) \<in> set ds. info_ok s f) \<and>
    sinv (s\<lparr>os_evts := q\<rparr>) (if b then unless_internal s e H else H)"
proof -
  obtain xs where qo: "queue_ok (os_evts s) xs es" and th: "things_ok s es H" and st: "still_ok s" using q by (auto simp: invq_def)
  obtain t d f where e: "e = (t, d, f)" by (cases e)
  have ev: "event_ok s (t, d, f)" "f = os_freeF s \<Longrightarrow> unat d \<in> H" using h e by (simp_all add: in_hand_def)
  have thing: "things_ok s es H" and evs: "\<forall>e \<in> set es. event_ok s e" using th by (simp_all add: things_ok_def)
  have "queue_ok ((os_evts s)\<lparr>eq_discarded := []\<rparr>) xs es" using qo by simp
  from enqueue_ok [OF this, of e atFront] obtain q ys where
    q: "evtQueueEnqueue (Some ((os_evts s)\<lparr>eq_discarded := []\<rparr>)) e atFront = Inr (fst (enqueue_spec (eq_cap (os_evts s)) e atFront es), Some q)"
    "queue_ok q ys (snd (snd (enqueue_spec (eq_cap (os_evts s)) e atFront es)))"
    "eq_discarded q = fst (snd (enqueue_spec (eq_cap (os_evts s)) e atFront es))" by auto
  let ?s = "s\<lparr>os_evts := q\<rparr>" and ?H = "unless_internal s e H"
  have f: "frame H s ?s" by (auto simp: frame_def)
  have added: "things_ok ?s (put e atFront es') ?H" if es': "refs (os_freeF s) es' = refs (os_freeF s) es" "set es' \<subseteq> set es" for es'
  proof -
    have "things_ok s (put e atFront es') ?H"
      using thing es' ev e unfolding things_ok_def put_refs by (auto simp: unless_internal_def)
    then show ?thesis using st f by (rule things_ok_cong) simp_all
  qed
  have same: "things_ok ?s es H" using thing st f by (rule things_ok_cong) simp_all
  have still: "still_ok ?s" using still_ok_frame [OF st f] .
  have fin: ?thesis if "enqueue_spec (eq_cap (os_evts s)) e atFront es = (b, ds, es')" "\<forall>(t, d, f) \<in> set ds. info_ok s f"
      "things_ok ?s es' (if b then ?H else H)" for b ds es'
    using q that still by (auto simp: sinv_def invq_def)
  show ?thesis
  proof (cases "length es < eq_cap (os_evts s)")
    case True
    then show ?thesis by (intro fin [of True "[]" "put e atFront es"]) (use added in \<open>simp_all add: enqueue_spec_def\<close>)
  next
    case full: False
    show ?thesis
    proof (cases "victim es")
      case None
      then show ?thesis using full by (intro fin [of False "[]" es]) (use same in \<open>simp_all add: enqueue_spec_def\<close>)
    next
      case (Some w)
      obtain v es' where w: "victim es = Some (v, es')" using Some by (cases w) auto
      obtain t' d' f' where v: "v = (t', d', f')" by (cases v)
      have mem: "v \<in> set es" "is_discardable v" using victim_mset [OF w] by (simp_all add: set_mset_mset [symmetric] del: set_mset_mset)
      then have "f' \<noteq> os_freeF s" "info_ok s f'" using evs v by (auto simp: event_ok_def split: if_splits)
      moreover have "refs (os_freeF s) es' = refs (os_freeF s) es" "set es' \<subseteq> set es"
        using victim_refs [OF w, of "os_freeF s"] \<open>f' \<noteq> os_freeF s\<close> v by auto
      ultimately show ?thesis using full w v by (intro fin [of True "[v]" "put e atFront es'"]) (use added in \<open>simp_all add: enqueue_spec_def\<close>)
    qed
  qed
qed

lemma os_enqueue_ok:
  assumes ext: "ext_ok ext" and i: "sinv s H" and h: "in_hand s e H"
  shows "\<exists>b s'. os_enqueue ext e atFront s = Inr (b, s') \<and> good (if b then unless_internal s e H else H) s s'"
proof -
  obtain es where "invq s H es" using i by (auto simp: sinv_def)
  from enqueue_inv [OF this h, of atFront] obtain b q where
    q: "evtQueueEnqueue (Some ((os_evts s)\<lparr>eq_discarded := []\<rparr>)) e atFront = Inr (b, Some q)"
    "\<forall>(t, d, f) \<in> set (eq_discarded q). info_ok s f" "sinv (s\<lparr>os_evts := q\<rparr>) (if b then unless_internal s e H else H)" by auto
  let ?s = "s\<lparr>os_evts := q\<rparr>" and ?K = "if b then unless_internal s e H else H"
  have f: "frame H s ?s" by (auto simp: frame_def)
  have "?K \<subseteq> H" using unless_internal_subset by simp
  then have g: "good ?K s ?s" using q(3) frame_mono [OF f] by (simp add: good_def)
  have "info_ok ?s = info_ok s" using info_ok_frame [OF inv_still [OF i] f] by (simp add: fun_eq_iff)
  then have "\<forall>(t, d, f) \<in> set (eq_discarded q). info_ok ?s f" using q(2) by simp
  from free_events_ok [OF ext q(3) this] obtain s' where "free_events ext (eq_discarded q) ?s = Inr s'" "good ?K ?s s'" by auto
  then show ?thesis using q(1) good_trans [OF g] by (auto simp: os_enqueue_def)
qed

lemma set_task_io:
  assumes "sinv s H" and i: "i < MAX_TASKS"
  shows "\<exists>s'. osTaskAddIoCount i delta s = Inr s' \<and> good H s s' \<and> os_log s' = os_log s"
proof -
  let ?p = "os_pool s"
  let ?t = "tk_ioCount_update (\<lambda>c. c + word_of_int delta) (tp_data ?p ! i)"
  let ?s = "s\<lparr>os_pool := ?p\<lparr>tp_data := (tp_data ?p)[i := ?t]\<rparr>\<rparr>"
  have len: "length (tp_data ?p) = MAX_TASKS" using inv_still [OF assms(1)] tasks_ok_pool by (simp add: still_ok_def)
  have run: "osTaskAddIoCount i delta s = Inr ?s" using i len by (simp add: osTaskAddIoCount_def set_task_def pool_update_def)
  have "same_task (tp_data ?p ! i) ?t" by (simp add: same_task_def)
  then have "same_pool ?p (?p\<lparr>tp_data := (tp_data ?p)[i := ?t]\<rparr>)"
    using i len by (auto simp: same_pool_def list_all2_conv_all_nth nth_list_update)
  then have f: "frame H s ?s" by (auto simp: frame_def)
  have "sinv ?s H" by (rule inv_cong [OF assms(1) f]) simp_all
  then show ?thesis using run f by (auto simp: good_def)
qed

lemma current_less: "sinv s H \<Longrightarrow> os_currentTask s < MAX_TASKS"
  using inv_still by (auto simp: still_ok_def tasks_ok_def)

lemma osEnqueueEvtCommon_ok:
  assumes ext: "ext_ok ext" and i: "sinv s H" and h: "in_hand s (t, d, f) H"
  shows "\<exists>b s'. osEnqueueEvtCommon ext t d f s = Inr (b, s') \<and> good (if b then unless_internal s (t, d, f) H else H) s s'"
proof -
  let ?c = "os_currentTask s" and ?e = "\<lambda>w. (EVENT_WITH_ORIGIN t w, d, f)"
  note c = current_less [OF i] and get = get_task_ok [OF inv_still [OF i] current_less [OF i]]
  show ?thesis
  proof (cases "tk_flags (tp_data (os_pool s) ! ?c) AND FL_TASK_STOPPED \<noteq> 0")
    case True
    then show ?thesis using handleEventFreeing_ok [OF ext i h, of t] get
      by (auto simp: osEnqueueEvtCommon_def osTaskTestFlags_def)
  next
    case False
    define tid where "tid = (ucast (tk_tid (tp_data (os_pool s) ! ?c)) :: u32)"
    from set_task_io [OF i c, of 1] obtain s1 where s1: "osTaskAddIoCount ?c 1 s = Inr s1" "good H s s1" by auto
    then have i1: "sinv s1 H" and f1: "frame H s s1" by (simp_all add: good_def)
    note h1 = in_hand_frame [OF h inv_still [OF i] f1]
    have same: "os_freeF s1 = os_freeF s" using f1 by (simp add: frame_def)
    have h2: "in_hand s1 (?e tid) H" using h1(1) by (auto simp: in_hand_def event_ok_def)
    have u: "unless_internal s1 (?e tid) H = unless_internal s (t, d, f) H" by (simp add: unless_internal_def same)
    from os_enqueue_ok [OF ext i1 h2] obtain b s2 where
      s2: "os_enqueue ext (?e tid) False s1 = Inr (b, s2)" "good (if b then unless_internal s (t, d, f) H else H) s1 s2" unfolding u by blast
    have g2: "good (if b then unless_internal s (t, d, f) H else H) s s2"
      using good_trans [OF s1(2) s2(2)] unless_internal_subset by simp
    have run: "osEnqueueEvtCommon ext t d f s =
        (if b then Inr (True, s2) else bindE (osTaskAddIoCount ?c (-1) s2) (\<lambda>s3. Inr (False, s3)))"
      using False get s1(1) s2(1) by (simp add: osEnqueueEvtCommon_def osTaskTestFlags_def osGetCurrentTid_def tid_def)
    show ?thesis
    proof (cases b)
      case True
      then show ?thesis using run g2 by auto
    next
      case False
      then have "sinv s2 H" "good H s s2" using g2 by (simp_all add: good_def)
      from set_task_io [OF this(1) c, of "-1"] obtain s3 where "osTaskAddIoCount ?c (-1) s2 = Inr s3" "good H s2 s3" by auto
      then show ?thesis using run False good_trans [OF \<open>good H s s2\<close>] by auto
    qed
  qed
qed

text \<open>On every path an event that was in hand is in hand no more.\<close>

lemma osEnqueueEvtOrFree_ok:
  assumes ext: "ext_ok ext" and i: "sinv s H" and h: "in_hand s (t, d, f) H" and p: "taggedPtrIsPtr f"
  shows "\<exists>b s'. osEnqueueEvtOrFree ext t d f s = Inr (b, s') \<and> good (unless_internal s (t, d, f) H) s s'"
proof -
  from osEnqueueEvtCommon_ok [OF ext i h] obtain b s1 where
    s1: "osEnqueueEvtCommon ext t d f s = Inr (b, s1)" "good (if b then unless_internal s (t, d, f) H else H) s s1" by auto
  show ?thesis
  proof (cases "b \<or> f = 0")
    case True
    then have "f = 0 \<Longrightarrow> unless_internal s (t, d, f) H = H"
      using inv_still [OF i] by (auto simp: unless_internal_def still_ok_def tasks_ok_def)
    then have "good (unless_internal s (t, d, f) H) s s1" using s1(2) True by (auto split: if_splits)
    then show ?thesis using s1(1) True by (auto simp: osEnqueueEvtOrFree_def osEnqueueEvt_def)
  next
    case False
    then have g: "good H s s1" and i1: "sinv s1 H" and f1: "frame H s s1" using s1(2) by (simp_all add: good_def)
    note h1 = in_hand_frame [OF h inv_still [OF i] f1]
    have "call_freeF ext f d s1 = handleEventFreeing ext t d f s1" using False p by (simp add: handleEventFreeing_def)
    then obtain s2 where "call_freeF ext f d s1 = Inr s2" "good (unless_internal s (t, d, f) H) s1 s2"
      using handleEventFreeing_ok [OF ext i1 h1(1), of t] h1(2) by auto
    then show ?thesis using s1(1) False good_trans [OF g] unless_internal_subset
      by (auto simp: osEnqueueEvtOrFree_def osEnqueueEvt_def)
  qed
qed

text \<open>A new item is in hand.\<close>

lemma new_thing_ok:
  assumes i: "sinv s H" and th: "thing_ok s t th"
  shows "case new_thing th s of
     (None, s1) \<Rightarrow> good H s s1
   | (Some a, s1) \<Rightarrow> sinv s1 (insert (unat a) H) \<and> frame H s s1 \<and> unat a \<notin> H \<and> os_things s1 a = Some th \<and>
       os_freeF s1 = os_freeF s"
proof -
  obtain xs es where q: "queue_ok (os_evts s) xs es" and t: "things_ok s es H" and st: "still_ok s"
    using i by (auto simp: sinv_def invq_def)
  have so: "slab_ok (os_slab s)" using t by (simp add: things_ok_def)
  obtain p sl where al: "slabAllocatorAlloc (os_slab s) = (p, sl)" by fastforce
  show ?thesis
  proof (cases p)
    case None
    then have "sl = os_slab s" using slab_alloc_live [OF so al] by simp
    then show ?thesis using None al i by (simp add: new_thing_def good_refl)
  next
    case (Some a)
    let ?s = "s\<lparr>os_slab := sl, os_things := (os_things s)(a \<mapsto> th)\<rparr>"
    have a: "unat a \<notin> fst ` slab_live (os_slab s)" "fst ` slab_live sl = insert (unat a) (fst ` slab_live (os_slab s))"
      using slab_alloc_live [OF so al] Some by auto
    have sl: "slab_ok sl" using slab_alloc_cases [OF so al] by simp
    have refs: "set (refs (os_freeF s) es) \<union> H = fst ` slab_live (os_slab s)" using t by (simp add: things_ok_def)
    then have fresh: "unat a \<notin> H" "unat a \<notin> set (refs (os_freeF s) es)" using a(1) by auto
    have f: "frame H s ?s" using fresh(1) by (auto simp: frame_def)
    have "event_ok ?s e" if "e \<in> set es" for e
    proof -
      obtain t' d g where e: "e = (t', d, g)" by (cases e)
      have "event_ok s (t', d, g)" using t that e by (simp add: things_ok_def)
      moreover have "d \<noteq> a" if "g = os_freeF s" using refs_in [of t' d g es] \<open>e \<in> set es\<close> e that fresh(2) by auto
      ultimately show ?thesis using event_ok_frame [OF st f] e by simp
    qed
    then have "things_ok ?s es (insert (unat a) H)" using t sl a(2) fresh by (auto simp: things_ok_def)
    then have "sinv ?s (insert (unat a) H)" using q still_ok_frame [OF st f] by (auto simp: sinv_def invq_def)
    then show ?thesis using Some al f fresh(1) by (simp add: new_thing_def)
  qed
qed

text \<open>The common part of the calls that put a thing into an internal event.\<close>

lemma send_thing_ok:
  assumes i: "sinv s H" and th: "thing_ok s (EVENT_GET_EVENT t) th" and d: "\<And>x. \<not> is_discardable (t, x)"
    and send: "\<And>a (s1 :: os). sinv s1 (insert (unat a) H) \<Longrightarrow> in_hand s1 (t, a, os_freeF s1) (insert (unat a) H) \<Longrightarrow> taggedPtrIsPtr (os_freeF s1) \<Longrightarrow>
      \<exists>b s2. g a s1 = Inr (b, s2) \<and> good (unless_internal s1 (t, a, os_freeF s1) (insert (unat a) H)) s1 s2"
  shows "\<exists>b s2. (case new_thing th s of (None, s1) \<Rightarrow> Inr (False, s1) | (Some a, s1) \<Rightarrow> g a s1) = Inr (b, s2) \<and> good H s s2"
proof -
  obtain p s1 where n: "new_thing th s = (p, s1)" by fastforce
  show ?thesis
  proof (cases p)
    case None
    then show ?thesis using n new_thing_ok [OF i th] by auto
  next
    case (Some a)
    then have s1: "sinv s1 (insert (unat a) H)" "frame H s s1" "unat a \<notin> H" "os_things s1 a = Some th"
      using n new_thing_ok [OF i th] by simp_all
    have "thing_ok s1 (EVENT_GET_EVENT t) th" using thing_ok_frame [OF inv_still [OF i] s1(2)] th by simp
    then have "in_hand s1 (t, a, os_freeF s1) (insert (unat a) H)" using d s1(4) by (simp add: in_hand_def event_ok_def)
    moreover have "taggedPtrIsPtr (os_freeF s1)" using inv_still [OF s1(1)] by (simp add: still_ok_def tasks_ok_def)
    ultimately obtain b s2 where s2: "g a s1 = Inr (b, s2)" "good (unless_internal s1 (t, a, os_freeF s1) (insert (unat a) H)) s1 s2"
      using send [OF s1(1)] by blast
    have "unless_internal s1 (t, a, os_freeF s1) (insert (unat a) H) = H" using s1(3) by (auto simp: unless_internal_def)
    then have "good H s s2" using s2(2) frame_trans [OF s1(2)] by (simp add: good_def)
    then show ?thesis using n Some s2(1) by simp
  qed
qed

lemma osEventSubscribeUnsubscribe_ok:
  assumes ext: "ext_ok ext" and i: "sinv s H"
  shows "\<exists>b s'. osEventSubscribeUnsubscribe ext tid evt sub s = Inr (b, s') \<and> good H s s'"
  unfolding osEventSubscribeUnsubscribe_def
  by (rule send_thing_ok [OF i, where t = "if sub then EVT_SUBSCRIBE_TO_EVT else EVT_UNSUBSCRIBE_TO_EVT"])
    (use osEnqueueEvtOrFree_ok [OF ext] in \<open>auto split: if_splits\<close>)

lemma osEnqueuePrivateEvtEx_ok:
  assumes ext: "ext_ok ext" and i: "sinv s H" and "info_ok s f" and "slot_live s to"
  shows "\<exists>b s'. osEnqueuePrivateEvtEx ext t d f to s = Inr (b, s') \<and> good H s s'"
  unfolding osEnqueuePrivateEvtEx_def
  by (rule send_thing_ok [OF i, where t = EVT_PRIVATE_EVT]) (use assms osEnqueueEvtOrFree_ok [OF ext] in auto)

lemma osDefer_ok:
  assumes ext: "ext_ok ext" and i: "sinv s H"
  shows "\<exists>b s'. osDefer ext cbk cookie urgent s = Inr (b, s') \<and> good H s s'"
  unfolding osDefer_def
proof (rule send_thing_ok [OF i, where t = EVT_DEFERRED_CALLBACK])
  fix a :: u32 and s1 :: os
  let ?H = "insert (unat a) H" and ?e = "(EVT_DEFERRED_CALLBACK, a, os_freeF s1)"
  assume i1: "sinv s1 ?H" and h: "in_hand s1 ?e ?H"
  from os_enqueue_ok [OF ext i1 h] obtain b s2 where
    s2: "os_enqueue ext ?e urgent s1 = Inr (b, s2)" "good (if b then unless_internal s1 ?e ?H else ?H) s1 s2" by blast
  have free: "\<exists>s3. osDeferredActionFreeF a s2 = Inr s3 \<and> good (unless_internal s1 ?e ?H) s1 s3" if "\<not> b"
  proof -
    have g: "good ?H s1 s2" using s2(2) that by simp
    then obtain s3 where "osDeferredActionFreeF a s2 = Inr s3" "good (?H - {unat a}) s2 s3"
      using osDeferredActionFreeF_ok [of s2 ?H a] by (auto simp: good_def)
    then show ?thesis using good_trans [OF g] by (auto simp: unless_internal_def)
  qed
  show "\<exists>b s2. bindE (os_enqueue ext ?e urgent s1) (\<lambda>(b, s2).
      if b then Inr (True, s2) else bindE (osDeferredActionFreeF a s2) (\<lambda>s3. Inr (False, s3))) = Inr (b, s2) \<and>
      good (unless_internal s1 ?e ?H) s1 s2"
    using s2 free by (cases b) auto
qed auto

end
