(* ===== verification/Hub_SchedRun.thy ===== *)
theory Hub_SchedRun
  imports Hub_SchedInv
begin

text \<open>
  Applications as programs of the scheduler's calls, the rules such calls keep, and that calls that keep them
  do not fault and preserve the invariant, nested as deep as one likes.
\<close>

section \<open>Applications\<close>

datatype api =
    Subscribe u32
  | Unsubscribe u32
  | Enqueue u32 u32 u32
  | EnqueueOrFree u32 u32 u32
  | EnqueueAsApp u32 u32
  | EnqueuePrivate u32 u32 u32 u32
  | EnqueuePrivateAsApp u32 u32 u32
  | Defer u32 u32 bool
  | Retain
  | FreeRetained u32 u32 u32

fun api_step :: "ext \<Rightarrow> api \<Rightarrow> os \<Rightarrow> (bool \<times> os) res" where
  "api_step ext (Subscribe t) s = osEventSubscribe ext t s"
| "api_step ext (Unsubscribe t) s = osEventUnsubscribe ext t s"
| "api_step ext (Enqueue t d f) s = osEnqueueEvt ext t d f s"
| "api_step ext (EnqueueOrFree t d f) s = osEnqueueEvtOrFree ext t d f s"
| "api_step ext (EnqueueAsApp t d) s = osEnqueueEvtAsApp ext t d s"
| "api_step ext (EnqueuePrivate t d f to) s = osEnqueuePrivateEvt ext t d f to s"
| "api_step ext (EnqueuePrivateAsApp t d to) s = osEnqueuePrivateEvtAsApp ext t d to s"
| "api_step ext (Defer cbk cookie urgent) s = osDefer ext cbk cookie urgent s"
| "api_step ext Retain s = Inr (case osRetainCurrentEvent s of (info, s1) \<Rightarrow> (info \<noteq> None, s1))"
| "api_step ext (FreeRetained t d f) s = bindE (osFreeRetainedEvent ext t d f s) (\<lambda>s1. Inr (True, s1))"

text \<open>
  The rules of the calls, of which the code checks none.  The event types below \<open>EVT_NO_FIRST_USER_EVENT\<close> are
  reserved; an event is freed by nobody, by a function of its sender at an address without the tag bit, or by a
  task with an application; a private event goes to a task that has been started; and the event that the main
  loop is at is not retained when it is the scheduler's own, as that of a deferred call is.
\<close>

fun allowed :: "api \<Rightarrow> os \<Rightarrow> bool" where
  "allowed (Enqueue t d f) s \<longleftrightarrow> EVT_NO_FIRST_USER_EVENT \<le> EVENT_GET_EVENT t \<and> info_ok s f \<and> taggedPtrIsPtr f"
| "allowed (EnqueueOrFree t d f) s \<longleftrightarrow> EVT_NO_FIRST_USER_EVENT \<le> EVENT_GET_EVENT t \<and> info_ok s f \<and> taggedPtrIsPtr f"
| "allowed (EnqueueAsApp t d) s \<longleftrightarrow> EVT_NO_FIRST_USER_EVENT \<le> EVENT_GET_EVENT t"
| "allowed (EnqueuePrivate t d f to) s \<longleftrightarrow> info_ok s f \<and> slot_live s to"
| "allowed (EnqueuePrivateAsApp t d to) s \<longleftrightarrow> slot_live s to"
| "allowed Retain s \<longleftrightarrow> os_curFree s \<noteq> Some (os_freeF s)"
| "allowed (FreeRetained t d f) s \<longleftrightarrow> info_ok s f"
| "allowed op s \<longleftrightarrow> True"

text \<open>
  Here a call that breaks a rule is left out.  \<open>Hub_SchedRules\<close> has the runs in which every call is made and shows
  that they are these runs as long as no rule is broken.
\<close>

fun run_api :: "ext \<Rightarrow> api list \<Rightarrow> os \<Rightarrow> os res" where
  "run_api ext [] s = Inr s"
| "run_api ext (op # ops) s =
     (if allowed op s then bindE (api_step ext op s) (\<lambda>(b, s1). run_api ext ops s1) else run_api ext ops s)"

text \<open>
  What a called piece of code does may depend on the call and on all calls before.  Calls that are nested deeper
  than the number do nothing.
\<close>

type_synonym prog = "ext_call \<Rightarrow> ext_call list \<Rightarrow> api list \<times> bool"

fun app_ext :: "nat \<Rightarrow> prog \<Rightarrow> ext" where
  "app_ext 0 prog c s = Inr (snd (prog c (os_log s)), s)"
| "app_ext (Suc n) prog c s =
     bindE (run_api (app_ext n prog) (fst (prog c (os_log s))) s) (\<lambda>s1. Inr (snd (prog c (os_log s)), s1))"

lemma user_in_hand:
  "EVT_NO_FIRST_USER_EVENT \<le> EVENT_GET_EVENT t \<Longrightarrow> info_ok s f \<Longrightarrow>
     in_hand s (t, d, f) H \<and> unless_internal s (t, d, f) H = H"
  by (auto simp: in_hand_def event_ok_def info_ok_def unless_internal_def)

lemma discardable_type: "EVENT_GET_EVENT (t OR EVENT_TYPE_BIT_DISCARDABLE) = EVENT_GET_EVENT t"
proof -
  have "(t OR EVENT_TYPE_BIT_DISCARDABLE) AND (EVT_MASK AND NOT EVENT_TYPE_BIT_DISCARDABLE) =
      t AND (EVT_MASK AND NOT EVENT_TYPE_BIT_DISCARDABLE)" by (rule bit_word_eqI) (auto simp: bit_simps)
  then show ?thesis by (simp add: EVENT_GET_EVENT_def)
qed

text \<open>The current task may free the events it sends.\<close>

lemma current_info:
  assumes "sinv s H"
  shows "\<exists>tid. osGetCurrentTid s = Inr tid \<and> info_ok s (taggedPtrMakeFromUint tid)"
proof -
  let ?i = "os_currentTask s"
  define tid where "tid = (ucast (tk_tid (tp_data (os_pool s) ! ?i)) :: u32)"
  have st: "still_ok s" using inv_still [OF assms] .
  have i: "?i < MAX_TASKS" using current_less [OF assms] .
  have "osGetCurrentTid s = Inr tid" using get_task_ok [OF st i] by (simp add: osGetCurrentTid_def tid_def)
  moreover have "tid AND TAG = 0" by (simp add: tid_def ucast_no_tag)
  from tagged_uint [OF this] have tag: "\<not> taggedPtrIsPtr (taggedPtrMakeFromUint tid)" "taggedPtrToUint (taggedPtrMakeFromUint tid) = tid" by simp_all
  have "tid = 0 \<or> slot_live s tid" using st i by (auto simp: still_ok_def tasks_ok_def tid_def)
  moreover have "taggedPtrMakeFromUint tid \<noteq> os_freeF s" using st tag(1) by (auto simp: still_ok_def tasks_ok_def)
  ultimately show ?thesis using tag by (auto simp: info_ok_def)
qed

lemma retain_ok:
  assumes "sinv s H" and "os_curFree s \<noteq> Some (os_freeF s)"
  shows "good H s (s\<lparr>os_curFree := None\<rparr>)"
proof -
  let ?s = "s\<lparr>os_curFree := None\<rparr>"
  have f: "frame H s ?s" using assms(2) by (auto simp: frame_def)
  have "sinv ?s H" by (rule inv_cong [OF assms(1) f]) simp_all
  then show ?thesis using f by (simp add: good_def)
qed

lemma api_step_ok:
  assumes ext: "ext_ok ext" and i: "sinv s H" and al: "allowed op s"
  shows "\<exists>b s'. api_step ext op s = Inr (b, s') \<and> good H s s'"
proof -
  obtain tid where tid: "osGetCurrentTid s = Inr tid" "info_ok s (taggedPtrMakeFromUint tid)" using current_info [OF i] by blast
  have user: "\<exists>b s'. osEnqueueEvtCommon ext t d f s = Inr (b, s') \<and> good H s s'"
    if "EVT_NO_FIRST_USER_EVENT \<le> EVENT_GET_EVENT t" "info_ok s f" for t d f
    using osEnqueueEvtCommon_ok [OF ext i, of t d f] user_in_hand [OF that, of d H] by (auto split: if_splits)
  show ?thesis
  proof (cases op)
    case (EnqueueOrFree t d f)
    then show ?thesis using al osEnqueueEvtOrFree_ok [OF ext i, of t d f] user_in_hand [of t s f d H] by auto
  next
    case (EnqueueAsApp t d)
    then show ?thesis using al tid user by (simp add: osEnqueueEvtAsApp_def discardable_type)
  next
    case Retain
    then show ?thesis using al retain_ok [OF i] by (simp add: osRetainCurrentEvent_def)
  next
    case (FreeRetained t d f)
    then show ?thesis using al handleEventFreeing_user [OF ext i, of f t d] by (auto simp: osFreeRetainedEvent_def)
  qed (use al tid user osEventSubscribeUnsubscribe_ok [OF ext i] osEnqueuePrivateEvtEx_ok [OF ext i] osDefer_ok [OF ext i] in
    \<open>auto simp: osEventSubscribe_def osEventUnsubscribe_def osEnqueueEvt_def osEnqueuePrivateEvt_def osEnqueuePrivateEvtAsApp_def\<close>)
qed

lemma run_api_ok:
  assumes ext: "ext_ok ext"
  shows "sinv s H \<Longrightarrow> \<exists>s'. run_api ext ops s = Inr s' \<and> good H s s'"
proof (induction ops arbitrary: s)
  case Nil
  then show ?case by (simp add: good_refl)
next
  case (Cons op ops)
  show ?case
  proof (cases "allowed op s")
    case True
    from api_step_ok [OF ext Cons.prems True] obtain b s1 where s1: "api_step ext op s = Inr (b, s1)" "good H s s1" by blast
    then obtain s2 where "run_api ext ops s1 = Inr s2" "good H s1 s2" using Cons.IH [of s1] by (auto simp: good_def)
    then show ?thesis using s1 True good_trans [OF s1(2)] by auto
  next
    case False
    then show ?thesis using Cons by simp
  qed
qed

lemma app_ext_ok: "ext_ok (app_ext n prog)"
proof (induction n)
  case 0
  then show ?case by (simp add: ext_ok_def good_refl)
next
  case (Suc n)
  show ?case unfolding ext_ok_def
  proof (intro allI impI)
    fix c s H
    assume "sinv s H"
    from run_api_ok [OF Suc this] obtain s1 where "run_api (app_ext n prog) (fst (prog c (os_log s))) s = Inr s1" "good H s s1" by blast
    then show "\<exists>b s'. app_ext (Suc n) prog c s = Inr (b, s') \<and> good H s s'" by simp
  qed
qed

end
