(* ===== verification/Hub_SchedSubs.thy ===== *)
theory Hub_SchedSubs
  imports Hub_SchedRun
begin

text \<open>
  Subscriptions in the scheduler: the list of a task in the task itself or in a chunk of the heap, how it grows,
  and what handling a subscription does to it.
\<close>

section \<open>The list of a task\<close>

definition subs_arr :: "task \<Rightarrow> os \<Rightarrow> u32 list" where
  "subs_arr t s =
     (case tk_subbedEvents t of
        SubsNull \<Rightarrow> []
      | SubsInt \<Rightarrow> tk_subbedEventsInt t
      | SubsHeap a \<Rightarrow> (case os_chunks s a of None \<Rightarrow> [] | Some xs \<Rightarrow> xs))"

abbreviation task_of :: "os \<Rightarrow> nat \<Rightarrow> task" where
  "task_of s i \<equiv> tp_data (os_pool s) ! i"

text \<open>The events that a task gets.\<close>

definition sub_of :: "os \<Rightarrow> nat \<Rightarrow> u32 list" where
  "sub_of s i = take (unat (tk_subbedEvtCount (task_of s i))) (subs_arr (task_of s i) s)"

lemma subs_len_arr: "subs_len t s = length (subs_arr t s)"
  by (simp add: subs_len_def subs_arr_def split: subs_ptr.split option.split)

lemma subs_okD:
  assumes "subs_ok s" and "i < MAX_TASKS"
  shows "unat (tk_subbedEvtCount (task_of s i)) \<le> length (subs_arr (task_of s i) s)"
    and "unat (tk_subbedEvtListSz (task_of s i)) \<le> length (subs_arr (task_of s i) s)"
    and "subs_array (task_of s i) s = Inr (subs_arr (task_of s i) s)"
    and "tk_subbedEvents (task_of s i) = SubsHeap a \<Longrightarrow> os_chunks s a \<noteq> None \<and> a \<in> fst ` heap_live (os_heap s)"
    and "tk_subbedEvents (task_of s i) = SubsHeap a \<Longrightarrow> j < MAX_TASKS \<Longrightarrow> j \<noteq> i \<Longrightarrow> tk_subbedEvents (task_of s j) \<noteq> SubsHeap a"
proof -
  have all: "unat (tk_subbedEvtCount (task_of s i)) \<le> subs_len (task_of s i) s \<and> unat (tk_subbedEvtListSz (task_of s i)) \<le> subs_len (task_of s i) s \<and>
      (\<forall>a. tk_subbedEvents (task_of s i) = SubsHeap a \<longrightarrow> os_chunks s a \<noteq> None \<and> a \<in> fst ` heap_live (os_heap s) \<and>
        (\<forall>j < MAX_TASKS. j \<noteq> i \<longrightarrow> tk_subbedEvents (task_of s j) \<noteq> SubsHeap a))"
    using assms unfolding subs_ok_def Let_def by blast
  then show "unat (tk_subbedEvtCount (task_of s i)) \<le> length (subs_arr (task_of s i) s)"
    "unat (tk_subbedEvtListSz (task_of s i)) \<le> length (subs_arr (task_of s i) s)" by (simp_all add: subs_len_arr)
  show "subs_array (task_of s i) s = Inr (subs_arr (task_of s i) s)"
    using all by (cases "tk_subbedEvents (task_of s i)") (auto simp: subs_array_def subs_arr_def)
  show "tk_subbedEvents (task_of s i) = SubsHeap a \<Longrightarrow> os_chunks s a \<noteq> None \<and> a \<in> fst ` heap_live (os_heap s)"
    "tk_subbedEvents (task_of s i) = SubsHeap a \<Longrightarrow> j < MAX_TASKS \<Longrightarrow> j \<noteq> i \<Longrightarrow> tk_subbedEvents (task_of s j) \<noteq> SubsHeap a"
    using all by simp_all
qed

lemma find_sub_ok:
  "i + k \<le> length xs \<Longrightarrow> find_sub k i evt xs = Inr (i + length (takeWhile (\<lambda>x. x \<noteq> evt) (take k (drop i xs))))"
proof (induction k arbitrary: i)
  case (Suc k)
  have "i < length xs" using Suc.prems by simp
  from Cons_nth_drop_Suc [OF this, symmetric] have d: "take (Suc k) (drop i xs) = xs ! i # take k (drop (Suc i) xs)"
    by (simp only: take_Suc_Cons)
  have "find_sub k (Suc i) evt xs = Inr (Suc i + length (takeWhile (\<lambda>x. x \<noteq> evt) (take k (drop (Suc i) xs))))"
    using Suc by simp
  then show ?case using Suc.prems unfolding d by simp
qed simp

lemma find_sub_list:
  assumes "n \<le> length xs"
  shows "\<exists>j. find_sub n 0 evt xs = Inr j \<and> (if evt \<in> set (take n xs) then j < n \<and> xs ! j = evt else j = n)"
proof -
  let ?l = "takeWhile (\<lambda>x. x \<noteq> evt) (take n xs)"
  have "find_sub n 0 evt xs = Inr (length ?l)" using find_sub_ok [of 0 n xs evt] assms by simp
  moreover have "length ?l < n \<and> xs ! length ?l = evt" if "evt \<in> set (take n xs)"
  proof -
    have "?l \<noteq> take n xs" using that by (metis (mono_tags, lifting) takeWhile_eq_all_conv)
    then have l: "length ?l < length (take n xs)"
      by (metis length_takeWhile_le order_le_less takeWhile_eq_take take_all_iff order_refl)
    from nth_length_takeWhile [OF this] l show ?thesis by simp
  qed
  moreover have "length ?l = n" if "evt \<notin> set (take n xs)"
  proof -
    have "?l = take n xs" using that by (auto simp: takeWhile_eq_all_conv)
    then have "length ?l = length (take n xs)" by (rule arg_cong)
    then show ?thesis using assms by simp
  qed
  ultimately show ?thesis by auto
qed

section \<open>States that differ in subscriptions\<close>

definition alike :: "os \<Rightarrow> os \<Rightarrow> bool" where
  "alike s s' \<longleftrightarrow>
     length (tp_data (os_pool s')) = length (tp_data (os_pool s)) \<and>
     tp_free (os_pool s') = tp_free (os_pool s) \<and> tp_tasks (os_pool s') = tp_tasks (os_pool s) \<and>
     (\<forall>i < length (tp_data (os_pool s)). tk_app (task_of s' i) = tk_app (task_of s i) \<and> tk_list (task_of s' i) = tk_list (task_of s i) \<and>
        tk_tid (task_of s' i) = tk_tid (task_of s i)) \<and>
     os_currentTask s' = os_currentTask s \<and> os_systemTask s' = os_systemTask s \<and> os_evts s' = os_evts s \<and> os_slab s' = os_slab s \<and>
     os_things s' = os_things s \<and> os_curFree s' = os_curFree s \<and> os_freeF s' = os_freeF s \<and> os_taskAddr s' = os_taskAddr s \<and>
     os_log s' = os_log s"

lemma alike_refl [simp]: "alike s s"
  by (simp add: alike_def)

lemma alike_trans: "alike s s1 \<Longrightarrow> alike s1 s2 \<Longrightarrow> alike s s2"
  by (simp add: alike_def)

lemma alike_pool_ok:
  assumes "alike s s'" and p: "pool_ok (os_pool s) fs ts"
  shows "pool_ok (os_pool s') fs ts"
proof -
  have "tlink (os_pool s') i = tlink (os_pool s) i" if "i \<in> set (fs @ ts)" for i
    using assms(1) pool_ok_index(2) [OF p that] by (simp add: alike_def tlink_def)
  then have "list_is MFreeTasks (os_pool s') fs = list_is MFreeTasks (os_pool s) fs" "list_is MTasks (os_pool s') ts = list_is MTasks (os_pool s) ts"
    using assms(1) by (auto intro!: list_is_cong simp: alike_def)
  then show ?thesis using assms by (simp add: pool_ok_def alike_def)
qed

lemma alike_slot_live:
  assumes "alike s s'" and "length (tp_data (os_pool s)) = MAX_TASKS"
  shows "slot_live s' = slot_live s"
proof
  fix tid
  show "slot_live s' tid = slot_live s tid"
  proof (cases "osTaskFindByTid tid")
    case (Some i)
    then show ?thesis using find_by_tid_less [OF Some] assms by (simp add: slot_live_def alike_def)
  qed (simp add: slot_live_def)
qed

lemma alike_sinv:
  assumes al: "alike s s'" and i: "sinv s H" and "subs_ok s'" and "heap_calm (os_heap s')"
  shows "sinv s' H"
proof -
  have st: "still_ok s" using inv_still [OF i] .
  then have len: "length (tp_data (os_pool s)) = MAX_TASKS" using tasks_ok_pool by (simp add: still_ok_def)
  have F: "os_freeF s' = os_freeF s" "os_things s' = os_things s" "os_slab s' = os_slab s" "os_evts s' = os_evts s"
    using al by (simp_all add: alike_def)
  note sl = alike_slot_live [OF al len]
  have info: "info_ok s' = info_ok s" by (simp add: info_ok_def sl F fun_eq_iff)
  have th: "thing_ok s' t th = thing_ok s t th" for t th by (cases th) (simp_all add: info sl)
  then have "event_ok s' = event_ok s" by (simp add: event_ok_def info F fun_eq_iff)
  then have things: "things_ok s' es H = things_ok s es H" for es by (simp add: things_ok_def F)
  obtain fs ts where pool: "pool_ok (os_pool s) fs ts" "\<forall>i \<in> set ts. tk_app (task_of s i) \<noteq> None"
    using st by (auto simp: still_ok_def tasks_ok_def)
  have "tk_app (task_of s' i) \<noteq> None" if "i \<in> set ts" for i
    using al that pool pool_ok_index(2) [OF pool(1), of i] by (simp add: alike_def)
  then have "\<exists>fs ts. pool_ok (os_pool s') fs ts \<and> (\<forall>i \<in> set ts. tk_app (task_of s' i) \<noteq> None)"
    using alike_pool_ok [OF al pool(1)] by blast
  then have "tasks_ok s'" using st al len by (simp add: still_ok_def tasks_ok_def alike_def sl)
  then show ?thesis using i assms(3,4) things by (auto simp: sinv_def invq_def still_ok_def F)
qed

text \<open>Writing the subscriptions of one task.\<close>

lemma subs_write:
  assumes st: "still_ok s" and i: "i < MAX_TASKS"
    and s': "s' = s\<lparr>os_pool := (os_pool s)\<lparr>tp_data := (tp_data (os_pool s))[i := t]\<rparr>, os_heap := h, os_chunks := ch\<rparr>"
    and t: "tk_app t = tk_app (task_of s i)" "tk_list t = tk_list (task_of s i)" "tk_tid t = tk_tid (task_of s i)"
    and h: "heap_calm h"
    and others0: "\<forall>j < MAX_TASKS. \<forall>a. j \<noteq> i \<longrightarrow> tk_subbedEvents (task_of s j) = SubsHeap a \<longrightarrow> ch a = os_chunks s a \<and> a \<in> fst ` heap_live h"
    and len: "unat (tk_subbedEvtCount t) \<le> length (subs_arr t s')" "unat (tk_subbedEvtListSz t) \<le> length (subs_arr t s')"
    and own0: "\<forall>a. tk_subbedEvents t = SubsHeap a \<longrightarrow> ch a \<noteq> None \<and> a \<in> fst ` heap_live h \<and>
      (\<forall>j < MAX_TASKS. j \<noteq> i \<longrightarrow> tk_subbedEvents (task_of s j) \<noteq> SubsHeap a)"
  shows "alike s s'" and "subs_ok s'" and "heap_calm (os_heap s')" and "sub_of s' i = take (unat (tk_subbedEvtCount t)) (subs_arr t s')"
    and "j < MAX_TASKS \<Longrightarrow> j \<noteq> i \<Longrightarrow> sub_of s' j = sub_of s j"
proof -
  have n: "length (tp_data (os_pool s)) = MAX_TASKS" using st tasks_ok_pool by (simp add: still_ok_def)
  have so: "subs_ok s" using st by (simp add: still_ok_def)
  have others: "ch a = os_chunks s a \<and> a \<in> fst ` heap_live h" if "j < MAX_TASKS" "j \<noteq> i" "tk_subbedEvents (task_of s j) = SubsHeap a" for j a
    using others0 that by blast
  note own = own0 [rule_format]
  show "alike s s'" using t i n by (auto simp: alike_def s' nth_list_update)
  show "heap_calm (os_heap s')" using h s' by simp
  have ti: "task_of s' i = t" and tj: "\<And>j. j \<noteq> i \<Longrightarrow> task_of s' j = task_of s j" using i n by (simp_all add: s')
  show "sub_of s' i = take (unat (tk_subbedEvtCount t)) (subs_arr t s')" by (simp add: sub_of_def ti)
  have arr: "subs_arr (task_of s j) s' = subs_arr (task_of s j) s" if "j < MAX_TASKS" "j \<noteq> i" for j
    using others [OF that] by (simp add: subs_arr_def s' split: subs_ptr.split)
  then show "j < MAX_TASKS \<Longrightarrow> j \<noteq> i \<Longrightarrow> sub_of s' j = sub_of s j" by (simp add: sub_of_def tj)
  have hc: "os_heap s' = h" "os_chunks s' = ch" by (simp_all add: s')
  show "subs_ok s'" unfolding subs_ok_def Let_def
  proof (intro allI impI)
    fix j
    assume j: "j < MAX_TASKS"
    show "unat (tk_subbedEvtCount (task_of s' j)) \<le> subs_len (task_of s' j) s' \<and> unat (tk_subbedEvtListSz (task_of s' j)) \<le> subs_len (task_of s' j) s' \<and>
      (\<forall>a. tk_subbedEvents (task_of s' j) = SubsHeap a \<longrightarrow> os_chunks s' a \<noteq> None \<and> a \<in> fst ` heap_live (os_heap s') \<and>
        (\<forall>k < MAX_TASKS. k \<noteq> j \<longrightarrow> tk_subbedEvents (task_of s' k) \<noteq> SubsHeap a))"
    proof (cases "j = i")
      case True
      then show ?thesis using len own ti tj by (simp add: subs_len_arr hc)
    next
      case False
      have "tk_subbedEvents t \<noteq> SubsHeap a" if "tk_subbedEvents (task_of s j) = SubsHeap a" for a using own [of a] that j False by blast
      moreover have "tk_subbedEvents (task_of s k) \<noteq> SubsHeap a" if "tk_subbedEvents (task_of s j) = SubsHeap a" "k < MAX_TASKS" "k \<noteq> j" for a k
        using subs_okD(5) [OF so j that] .
      ultimately have "tk_subbedEvents (task_of s' k) \<noteq> SubsHeap a" if "tk_subbedEvents (task_of s j) = SubsHeap a" "k < MAX_TASKS" "k \<noteq> j" for a k
        using that ti tj [of k] by (cases "k = i") auto
      then show ?thesis using subs_okD(1,2,4) [OF so j] others [OF j False] tj [OF False] arr [OF j False]
        by (simp add: subs_len_arr hc)
    qed
  qed
qed

section \<open>Growing the list\<close>

lemma calm_alloc:
  assumes "heap_calm h"
  shows "\<exists>r h'. heapAlloc sz tid h = Inr (r, h') \<and> heap_calm h' \<and>
    (case r of None \<Rightarrow> heap_live h' = heap_live h
     | Some a \<Rightarrow> a \<notin> fst ` heap_live h \<and> fst ` heap_live h' = insert a (fst ` heap_live h))"
proof -
  have ok: "heap_ok h (chunks_of h)" and c: "\<not> hh_need h" "\<not> hh_lock h" and i: "heap_inv h"
    using assms by (simp_all add: heap_calm_def heap_inv_def)
  from heapAlloc_ok [OF ok c(2), of sz tid] c(1) obtain r h' where a: "heapAlloc sz tid h = Inr (r, h')" "\<not> hh_lock h'" "\<not> hh_need h'"
    by auto
  from heap_alloc_live [OF i a(1)] have l: "heap_inv h'" "case r of None \<Rightarrow> heap_live h' = heap_live h
     | Some p \<Rightarrow> \<exists>n \<ge> align4 sz. heap_live h' = insert (p, n) (heap_live h) \<and>
         (\<forall>b \<in> heap_live h. apart (p, n) b \<and> fst b \<noteq> p) \<and> p + n \<le> hh_real h" by simp_all
  show ?thesis
  proof (cases r)
    case None
    then show ?thesis using a l by (simp add: heap_calm_def)
  next
    case (Some p)
    then obtain n where "heap_live h' = insert (p, n) (heap_live h)" "\<forall>b \<in> heap_live h. fst b \<noteq> p" using l(2) by auto
    then show ?thesis using Some a l(1) by (auto simp: heap_calm_def)
  qed
qed

lemma calm_free:
  assumes "heap_calm h" and "a \<in> fst ` heap_live h"
  shows "\<exists>h'. heapFree (Some a) h = Inr h' \<and> heap_calm h' \<and> (\<forall>b \<in> fst ` heap_live h. b \<noteq> a \<longrightarrow> b \<in> fst ` heap_live h')"
proof -
  obtain n where n: "(a, n) \<in> heap_live h" using assms(2) by auto
  have i: "heap_inv h" using assms(1) by (simp add: heap_calm_def)
  from heap_free_full [OF i n] obtain h' where h': "heapFree (Some a) h = Inr h'" "heap_inv h'" "heap_live h' = heap_live h - {(a, n)}"
    "hh_lock h' = hh_lock h" "hh_need h' = (hh_lock h \<or> hh_need h)" by auto
  then have "heap_calm h'" using assms(1) by (simp add: heap_calm_def)
  moreover have "b \<in> fst ` heap_live h'" if "b \<in> fst ` heap_live h" "b \<noteq> a" for b using that h'(3) by force
  ultimately show ?thesis using h'(1) by blast
qed

text \<open>What stays when subscriptions of the task \<open>i\<close> are handled.\<close>

definition subs_step :: "nat \<Rightarrow> os \<Rightarrow> os \<Rightarrow> bool" where
  "subs_step i s s' \<longleftrightarrow> alike s s' \<and> subs_ok s' \<and> heap_calm (os_heap s') \<and> (\<forall>j < MAX_TASKS. j \<noteq> i \<longrightarrow> sub_of s' j = sub_of s j)"

lemma unat_ucast_u16: "unat (ucast (x :: u16) :: u32) = unat x"
proof -
  have "unat x < 2 ^ LENGTH(16)" by (rule unsigned_less)
  then show ?thesis by (simp add: unsigned_ucast_eq take_bit_nat_eq_self)
qed

lemma subs_step_refl: "still_ok s \<Longrightarrow> subs_step i s s"
  by (simp add: subs_step_def still_ok_def)

lemma subs_step_still:
  assumes "still_ok s" and "subs_step i s s'"
  shows "still_ok s'"
proof -
  have al: "alike s s'" using assms(2) by (simp add: subs_step_def)
  have len: "length (tp_data (os_pool s)) = MAX_TASKS" using assms(1) tasks_ok_pool by (simp add: still_ok_def)
  obtain fs ts where pool: "pool_ok (os_pool s) fs ts" "\<forall>i \<in> set ts. tk_app (task_of s i) \<noteq> None"
    using assms(1) by (auto simp: still_ok_def tasks_ok_def)
  have "tk_app (task_of s' i) \<noteq> None" if "i \<in> set ts" for i
    using al that pool pool_ok_index(2) [OF pool(1), of i] by (simp add: alike_def)
  then have "\<exists>fs ts. pool_ok (os_pool s') fs ts \<and> (\<forall>i \<in> set ts. tk_app (task_of s' i) \<noteq> None)"
    using alike_pool_ok [OF al pool(1)] by blast
  then have "tasks_ok s'" using assms(1) al len by (simp add: still_ok_def tasks_ok_def alike_def alike_slot_live [OF al len])
  then show ?thesis using assms(2) by (simp add: still_ok_def subs_step_def)
qed

lemma subs_step_trans: "subs_step i s s1 \<Longrightarrow> subs_step i s1 s2 \<Longrightarrow> subs_step i s s2"
  unfolding subs_step_def using alike_trans by auto

text \<open>
  The places of the larger list; whether the heap gives it to the task that runs; and whether the list of a task
  then has room for one more: the size is kept in an octet, and of the sizes 6, 9, 14, 21, 32, 48, 72, 108, 162,
  243, 365 the last counts as 109.
\<close>

definition more_subs :: "task \<Rightarrow> nat" where
  "more_subs t = (unat (tk_subbedEvtListSz t) * 3 + 1) div 2"

definition grows :: "nat \<Rightarrow> os \<Rightarrow> bool" where
  "grows i s \<longleftrightarrow>
     (case heapAlloc (word_of_nat (4 * more_subs (task_of s i))) (unat (tk_tid (task_of s (os_currentTask s)))) (os_heap s) of
        Inr (Some a, h) \<Rightarrow> True
      | _ \<Rightarrow> False)"

definition room_after :: "nat \<Rightarrow> os \<Rightarrow> bool" where
  "room_after i s \<longleftrightarrow>
     (let t = task_of s i
      in if tk_subbedEvtListSz t = tk_subbedEvtCount t
         then grows i s \<and> tk_subbedEvtCount t < word_of_nat (more_subs t)
         else tk_subbedEvtCount t < tk_subbedEvtListSz t)"

text \<open>A list of \<open>n\<close> places is replaced by one of half as many more, of which the task remembers the lower octet.\<close>

lemma enlarge_subs_ok:
  assumes st: "still_ok s" and i: "i < MAX_TASKS" and full: "tk_subbedEvtListSz (task_of s i) = tk_subbedEvtCount (task_of s i)"
  shows "\<exists>s'. enlarge_subs i s = Inr s' \<and> subs_step i s s' \<and> sub_of s' i = sub_of s i \<and>
    tk_subbedEvtCount (task_of s' i) = tk_subbedEvtCount (task_of s i) \<and>
    tk_subbedEvtListSz (task_of s' i) = (if grows i s then word_of_nat (more_subs (task_of s i)) else tk_subbedEvtListSz (task_of s i))"
proof -
  let ?t = "task_of s i"
  let ?n = "unat (tk_subbedEvtListSz ?t)"
  let ?m = "(?n * 3 + 1) div 2"
  have so: "subs_ok s" and calm: "heap_calm (os_heap s)" and len: "length (tp_data (os_pool s)) = MAX_TASKS"
    using st tasks_ok_pool by (simp_all add: still_ok_def)
  note D = subs_okD [OF so i]
  have get: "get_task i s = Inr ?t" using get_task_ok [OF st i] .
  define tid where "tid = (ucast (tk_tid (task_of s (os_currentTask s))) :: u32)"
  have tid: "osGetCurrentTid s = Inr tid"
    using get_task_ok [OF st, of "os_currentTask s"] st by (auto simp: osGetCurrentTid_def still_ok_def tasks_ok_def tid_def)
  have ut: "unat tid = unat (tk_tid (task_of s (os_currentTask s)))" by (simp add: tid_def unat_ucast_u16)
  obtain r h where al: "heapAlloc (word_of_nat (4 * ?m)) (unat tid) (os_heap s) = Inr (r, h)" "heap_calm h"
    "case r of None \<Rightarrow> heap_live h = heap_live (os_heap s)
     | Some a \<Rightarrow> a \<notin> fst ` heap_live (os_heap s) \<and> fst ` heap_live h = insert a (fst ` heap_live (os_heap s))"
    using calm_alloc [OF calm] by blast
  have grow: "grows i s = (r \<noteq> None)" using al(1) by (simp add: grows_def more_subs_def ut split: option.split)
  show ?thesis
  proof (cases r)
    case None
    let ?s = "s\<lparr>os_heap := h\<rparr>"
    have run: "enlarge_subs i s = Inr ?s" using get tid al(1) None by (simp add: enlarge_subs_def Let_def)
    have arr: "subs_arr t ?s = subs_arr t s" for t by (simp add: subs_arr_def split: subs_ptr.split)
    then have "subs_ok ?s" using so al(3) None by (simp add: subs_ok_def subs_len_arr)
    then have "subs_step i s ?s" using al(2) by (simp add: subs_step_def alike_def sub_of_def arr)
    then show ?thesis using run grow None by (simp add: sub_of_def arr)
  next
    case (Some a)
    define u where "u = ?t\<lparr>tk_subbedEvents := SubsHeap a, tk_subbedEvtListSz := word_of_nat ?m\<rparr>"
    let ?xs = "take ?n (subs_arr ?t s) @ replicate (?m - ?n) 0"
    have a: "a \<notin> fst ` heap_live (os_heap s)" "fst ` heap_live h = insert a (fst ` heap_live (os_heap s))" using al(3) Some by simp_all
    have "\<exists>h1 ch. (case tk_subbedEvents ?t of
          SubsHeap b \<Rightarrow> bindE (heapFree (Some b) h) (\<lambda>h1. Inr (s\<lparr>os_heap := h1, os_chunks := (os_chunks s)(b := None)\<rparr>))
        | _ \<Rightarrow> Inr (s\<lparr>os_heap := h\<rparr>)) = Inr (s\<lparr>os_heap := h1, os_chunks := ch\<rparr>) \<and> heap_calm h1 \<and>
      (\<forall>b \<in> fst ` heap_live h. tk_subbedEvents ?t \<noteq> SubsHeap b \<longrightarrow> b \<in> fst ` heap_live h1 \<and> ch b = os_chunks s b)"
    proof (cases "tk_subbedEvents ?t")
      case (SubsHeap b)
      then have "b \<in> fst ` heap_live h" using D(4) a(2) by auto
      from calm_free [OF al(2) this] obtain h1 where "heapFree (Some b) h = Inr h1" "heap_calm h1"
        "\<forall>c \<in> fst ` heap_live h. c \<noteq> b \<longrightarrow> c \<in> fst ` heap_live h1" by blast
      then show ?thesis using SubsHeap by (intro exI [of _ h1] exI [of _ "(os_chunks s)(b := None)"]) auto
    qed (use al(2) in \<open>auto intro!: exI [of _ h] exI [of _ "os_chunks s"]\<close>)
    then obtain h1 ch where fr: "(case tk_subbedEvents ?t of
          SubsHeap b \<Rightarrow> bindE (heapFree (Some b) h) (\<lambda>h1. Inr (s\<lparr>os_heap := h1, os_chunks := (os_chunks s)(b := None)\<rparr>))
        | _ \<Rightarrow> Inr (s\<lparr>os_heap := h\<rparr>)) = Inr (s\<lparr>os_heap := h1, os_chunks := ch\<rparr>)" "heap_calm h1"
      "\<And>b. b \<in> fst ` heap_live h \<Longrightarrow> tk_subbedEvents ?t \<noteq> SubsHeap b \<Longrightarrow> b \<in> fst ` heap_live h1 \<and> ch b = os_chunks s b" by blast
    define s2 where "s2 = s\<lparr>os_pool := (os_pool s)\<lparr>tp_data := (tp_data (os_pool s))[i := u]\<rparr>, os_heap := h1, os_chunks := ch(a \<mapsto> ?xs)\<rparr>"
    have run: "enlarge_subs i s = Inr s2"
      using get tid al(1) Some D(2,3) fr(1) i len
      by (simp add: enlarge_subs_def Let_def set_task_def pool_update_def s2_def u_def)
    have ax: "subs_arr u s2 = ?xs" by (simp add: subs_arr_def u_def s2_def)
    have n: "?n \<le> ?m" "length ?xs = ?m" using D(2) by simp_all
    have not_a: "tk_subbedEvents (task_of s j) \<noteq> SubsHeap a" if "j < MAX_TASKS" for j
      using subs_okD(4) [OF so that, of a] a(1) by blast
    have live: "a \<in> fst ` heap_live h1" using fr(3) [of a] a(2) not_a [OF i] by auto
    have others: "(ch(a \<mapsto> ?xs)) b = os_chunks s b \<and> b \<in> fst ` heap_live h1"
      if "j < MAX_TASKS" "j \<noteq> i" "tk_subbedEvents (task_of s j) = SubsHeap b" for j b
    proof -
      have "b \<in> fst ` heap_live h" using subs_okD(4) [OF so that(1,3)] a(2) by blast
      moreover have "tk_subbedEvents ?t \<noteq> SubsHeap b" using subs_okD(5) [OF so that(1,3) i] that(2) by blast
      moreover have "b \<noteq> a" using not_a [OF that(1)] that(3) by blast
      ultimately show ?thesis using fr(3) [of b] by simp
    qed
    have cnt: "unat (tk_subbedEvtCount u) \<le> length (subs_arr u s2)" using n full unfolding ax by (simp add: u_def)
    have sz: "unat (tk_subbedEvtListSz u) \<le> length (subs_arr u s2)" unfolding ax n(2) by (simp add: u_def unat_of_nat)
    have own: "(ch(a \<mapsto> ?xs)) b \<noteq> None \<and> b \<in> fst ` heap_live h1 \<and> (\<forall>j < MAX_TASKS. j \<noteq> i \<longrightarrow> tk_subbedEvents (task_of s j) \<noteq> SubsHeap b)"
      if "tk_subbedEvents u = SubsHeap b" for b using that live not_a by (simp add: u_def)
    have fields: "tk_app u = tk_app ?t" "tk_list u = tk_list ?t" "tk_tid u = tk_tid ?t" by (simp_all add: u_def)
    have others': "\<forall>j < MAX_TASKS. \<forall>b. j \<noteq> i \<longrightarrow> tk_subbedEvents (task_of s j) = SubsHeap b \<longrightarrow>
        (ch(a \<mapsto> ?xs)) b = os_chunks s b \<and> b \<in> fst ` heap_live h1" using others by blast
    have own': "\<forall>b. tk_subbedEvents u = SubsHeap b \<longrightarrow> (ch(a \<mapsto> ?xs)) b \<noteq> None \<and> b \<in> fst ` heap_live h1 \<and>
        (\<forall>j < MAX_TASKS. j \<noteq> i \<longrightarrow> tk_subbedEvents (task_of s j) \<noteq> SubsHeap b)" using own by blast
    note w = subs_write [OF st i s2_def fields fr(2) others' cnt sz own']
    have "sub_of s2 i = sub_of s i" using w(4) full D(1) unfolding ax by (simp add: sub_of_def u_def)
    moreover have "subs_step i s s2" using w(1,2,3,5) by (simp add: subs_step_def)
    moreover have "task_of s2 i = u" using i len by (simp add: s2_def)
    ultimately show ?thesis using run grow Some by (simp add: u_def more_subs_def)
  qed
qed

section \<open>Handling a subscription\<close>

lemma unat_Suc_u8: "c < (d :: u8) \<Longrightarrow> unat (c + 1) = Suc (unat c)"
proof -
  assume "c < d"
  then have "Suc (unat c) < 256" using unat_u8_less [of d] unfolding word_less_nat_alt by linarith
  then show ?thesis by (simp add: unat_word_ariths)
qed

lemma set_subs_ok:
  assumes st: "still_ok s" and i: "i < MAX_TASKS" and "tk_subbedEvents (task_of s i) \<noteq> SubsNull"
    and len: "length xs = length (subs_arr (task_of s i) s)" and c: "unat c \<le> length xs"
  shows "\<exists>s'. bindE (set_subs i xs s) (set_task i (tk_subbedEvtCount_update (\<lambda>_. c))) = Inr s' \<and> subs_step i s s' \<and>
    sub_of s' i = take (unat c) xs"
proof -
  let ?t = "task_of s i"
  have so: "subs_ok s" and calm: "heap_calm (os_heap s)" and n: "length (tp_data (os_pool s)) = MAX_TASKS"
    using st tasks_ok_pool by (simp_all add: still_ok_def)
  note get = get_task_ok [OF st i] and D = subs_okD [OF so i]
  have o1: "os_chunks s b = os_chunks s b \<and> b \<in> fst ` heap_live (os_heap s)"
    if "j < MAX_TASKS" "j \<noteq> i" "tk_subbedEvents (task_of s j) = SubsHeap b" for j b
    using subs_okD(4) [OF so that(1,3)] by simp
  have "\<exists>u ch. bindE (set_subs i xs s) (set_task i (tk_subbedEvtCount_update (\<lambda>_. c))) =
      Inr (s\<lparr>os_pool := (os_pool s)\<lparr>tp_data := (tp_data (os_pool s))[i := u]\<rparr>, os_heap := os_heap s, os_chunks := ch\<rparr>) \<and>
      tk_app u = tk_app ?t \<and> tk_list u = tk_list ?t \<and> tk_tid u = tk_tid ?t \<and> tk_subbedEvtCount u = c \<and>
      tk_subbedEvtListSz u = tk_subbedEvtListSz ?t \<and> tk_subbedEvents u = tk_subbedEvents ?t \<and>
      (\<forall>b. tk_subbedEvents ?t \<noteq> SubsHeap b \<longrightarrow> ch b = os_chunks s b) \<and> (\<forall>b. tk_subbedEvents ?t = SubsHeap b \<longrightarrow> ch b = Some xs) \<and>
      (tk_subbedEvents ?t = SubsInt \<longrightarrow> tk_subbedEventsInt u = xs)"
  proof (cases "tk_subbedEvents ?t")
    case SubsInt
    then show ?thesis using get i n
      by (intro exI [of _ "?t\<lparr>tk_subbedEventsInt := xs, tk_subbedEvtCount := c\<rparr>"] exI [of _ "os_chunks s"])
        (simp add: set_subs_def set_task_def pool_update_def)
  next
    case (SubsHeap b)
    then show ?thesis using get i n
      by (intro exI [of _ "?t\<lparr>tk_subbedEvtCount := c\<rparr>"] exI [of _ "(os_chunks s)(b \<mapsto> xs)"])
        (simp add: set_subs_def set_task_def pool_update_def)
  qed (use assms(3) in simp)
  then obtain u ch where run: "bindE (set_subs i xs s) (set_task i (tk_subbedEvtCount_update (\<lambda>_. c))) =
      Inr (s\<lparr>os_pool := (os_pool s)\<lparr>tp_data := (tp_data (os_pool s))[i := u]\<rparr>, os_heap := os_heap s, os_chunks := ch\<rparr>)"
    and u: "tk_app u = tk_app ?t" "tk_list u = tk_list ?t" "tk_tid u = tk_tid ?t" "tk_subbedEvtCount u = c"
      "tk_subbedEvtListSz u = tk_subbedEvtListSz ?t" "tk_subbedEvents u = tk_subbedEvents ?t"
    and ch: "\<And>b. tk_subbedEvents ?t \<noteq> SubsHeap b \<Longrightarrow> ch b = os_chunks s b" "\<And>b. tk_subbedEvents ?t = SubsHeap b \<Longrightarrow> ch b = Some xs"
    and int: "tk_subbedEvents ?t = SubsInt \<Longrightarrow> tk_subbedEventsInt u = xs" by blast
  define s2 where "s2 = s\<lparr>os_pool := (os_pool s)\<lparr>tp_data := (tp_data (os_pool s))[i := u]\<rparr>, os_heap := os_heap s, os_chunks := ch\<rparr>"
  have ax: "subs_arr u s2 = xs"
    using assms(3) u(6) ch int by (cases "tk_subbedEvents ?t") (simp_all add: subs_arr_def s2_def)
  have others: "ch b = os_chunks s b \<and> b \<in> fst ` heap_live (os_heap s)"
    if "j < MAX_TASKS" "j \<noteq> i" "tk_subbedEvents (task_of s j) = SubsHeap b" for j b
    using o1 [OF that] ch(1) [of b] D(5) [of b j] that by auto
  have cnt: "unat (tk_subbedEvtCount u) \<le> length (subs_arr u s2)" using c by (simp add: ax u)
  have sz: "unat (tk_subbedEvtListSz u) \<le> length (subs_arr u s2)" using D(2) len by (simp add: ax u)
  have own: "ch b \<noteq> None \<and> b \<in> fst ` heap_live (os_heap s) \<and> (\<forall>j < MAX_TASKS. j \<noteq> i \<longrightarrow> tk_subbedEvents (task_of s j) \<noteq> SubsHeap b)"
    if "tk_subbedEvents u = SubsHeap b" for b
    using that ch(2) [of b] D(4,5) [of b] u(6) by simp
  have others': "\<forall>j < MAX_TASKS. \<forall>a. j \<noteq> i \<longrightarrow> tk_subbedEvents (task_of s j) = SubsHeap a \<longrightarrow> ch a = os_chunks s a \<and> a \<in> fst ` heap_live (os_heap s)"
    using others by blast
  have own': "\<forall>a. tk_subbedEvents u = SubsHeap a \<longrightarrow> ch a \<noteq> None \<and> a \<in> fst ` heap_live (os_heap s) \<and>
      (\<forall>j < MAX_TASKS. j \<noteq> i \<longrightarrow> tk_subbedEvents (task_of s j) \<noteq> SubsHeap a)" using own by blast
  note w = subs_write [OF st i s2_def u(1-3) calm others' cnt sz own']
  have "subs_step i s s2" using w(1,2,3,5) by (simp add: subs_step_def)
  moreover have "sub_of s2 i = take (unat c) xs" using w(4) by (simp add: ax u)
  ultimately show ?thesis using run unfolding s2_def by blast
qed

lemma subs_null_empty: "subs_ok s \<Longrightarrow> i < MAX_TASKS \<Longrightarrow> tk_subbedEvents (task_of s i) = SubsNull \<Longrightarrow>
   tk_subbedEvtCount (task_of s i) = 0 \<and> tk_subbedEvtListSz (task_of s i) = 0"
  using subs_okD(1,2) [of s i] by (simp add: subs_arr_def unat_eq_0)

lemma set_task_cong:
  assumes "get_task i s = Inr t" and "f t = g t"
  shows "set_task i f s = set_task i g s"
  using assms by (simp add: set_task_def get_task_def pool_update_def array_get_def split: if_splits)

lemma set_subs_task:
  "set_subs i xs s = Inr s1 \<Longrightarrow> get_task i s = Inr t \<Longrightarrow> \<exists>u. get_task i s1 = Inr u \<and> tk_subbedEvtCount u = tk_subbedEvtCount t"
  by (cases "tk_subbedEvents t")
    (auto simp: set_subs_def set_task_def pool_update_def get_task_def array_get_def split: if_splits)

lemma set_subs_count:
  assumes "get_task i s = Inr t" and "f (tk_subbedEvtCount t) = c"
  shows "bindE (set_subs i xs s) (set_task i (tk_subbedEvtCount_update f)) =
    bindE (set_subs i xs s) (set_task i (tk_subbedEvtCount_update (\<lambda>_. c)))"
proof (rule bindE_cong [OF refl])
  fix s1
  assume "set_subs i xs s = Inr s1"
  from set_subs_task [OF this assms(1)] obtain u where u: "get_task i s1 = Inr u" "tk_subbedEvtCount u = tk_subbedEvtCount t" by blast
  have "tk_subbedEvtCount_update f u = tk_subbedEvtCount_update (\<lambda>_. c) u" using u(2) assms(2) by (cases u) simp
  with set_task_cong [OF u(1), of "tk_subbedEvtCount_update f" "tk_subbedEvtCount_update (\<lambda>_. c)"]
  show "set_task i (tk_subbedEvtCount_update f) s1 = set_task i (tk_subbedEvtCount_update (\<lambda>_. c)) s1" by blast
qed

lemma subscribe_ok:
  assumes st: "still_ok s" and i: "i < MAX_TASKS"
  shows "\<exists>s'. subscribe i evt s = Inr s' \<and> subs_step i s s' \<and>
    sub_of s' i = (if room_after i s then sub_of s i @ [evt] else sub_of s i)"
proof -
  let ?t = "task_of s i"
  note get = get_task_ok [OF st i]
  have "\<exists>s1. (if tk_subbedEvtListSz ?t = tk_subbedEvtCount ?t then enlarge_subs i s else Inr s) = Inr s1 \<and> subs_step i s s1 \<and>
      sub_of s1 i = sub_of s i \<and> tk_subbedEvtCount (task_of s1 i) = tk_subbedEvtCount ?t \<and>
      (tk_subbedEvtListSz (task_of s1 i) > tk_subbedEvtCount ?t \<longleftrightarrow> room_after i s)"
  proof (cases "tk_subbedEvtListSz ?t = tk_subbedEvtCount ?t")
    case True
    from enlarge_subs_ok [OF st i True] obtain s1 where "enlarge_subs i s = Inr s1" "subs_step i s s1"
      "sub_of s1 i = sub_of s i" "tk_subbedEvtCount (task_of s1 i) = tk_subbedEvtCount ?t"
      "tk_subbedEvtListSz (task_of s1 i) = (if grows i s then word_of_nat (more_subs ?t) else tk_subbedEvtListSz ?t)" by blast
    then show ?thesis using True by (intro exI [of _ s1]) (simp add: room_after_def Let_def)
  next
    case False
    then show ?thesis using subs_step_refl [OF st] by (intro exI [of _ s]) (simp add: room_after_def Let_def)
  qed
  then obtain s1 where s1: "(if tk_subbedEvtListSz ?t = tk_subbedEvtCount ?t then enlarge_subs i s else Inr s) = Inr s1"
    "subs_step i s s1" "sub_of s1 i = sub_of s i" "tk_subbedEvtCount (task_of s1 i) = tk_subbedEvtCount ?t"
    "tk_subbedEvtListSz (task_of s1 i) > tk_subbedEvtCount ?t \<longleftrightarrow> room_after i s" by blast
  let ?u = "task_of s1 i" and ?c = "tk_subbedEvtCount ?t"
  have st1: "still_ok s1" using subs_step_still [OF st s1(2)] .
  then have so1: "subs_ok s1" by (simp add: still_ok_def)
  note D = subs_okD [OF so1 i] and get1 = get_task_ok [OF st1 i]
  show ?thesis
  proof (cases "tk_subbedEvtListSz ?u > ?c")
    case False
    then have "subscribe i evt s = Inr s1" using get get1 s1(1,4) by (simp add: subscribe_def)
    moreover have "\<not> room_after i s" using False s1(5) by blast
    ultimately show ?thesis using s1(2,3) by simp
  next
    case True
    let ?xs = "(subs_arr ?u s1)[unat ?c := evt]"
    have lt: "unat ?c < length (subs_arr ?u s1)" using True D(2) by (simp add: word_less_nat_alt)
    have c: "unat (?c + 1) = Suc (unat ?c)" using unat_Suc_u8 [OF True] .
    have "tk_subbedEvents ?u \<noteq> SubsNull" using lt by (auto simp: subs_arr_def)
    from set_subs_ok [OF st1 i this, of ?xs "?c + 1"] lt c obtain s2 where
      s2: "bindE (set_subs i ?xs s1) (set_task i (tk_subbedEvtCount_update (\<lambda>_. ?c + 1))) = Inr s2" "subs_step i s1 s2"
        "sub_of s2 i = take (Suc (unat ?c)) ?xs" by auto
    have "bindE (set_subs i ?xs s1) (set_task i (tk_subbedEvtCount_update (\<lambda>c. c + 1))) = Inr s2"
      using set_subs_count [OF get1, of "\<lambda>c. c + 1" "?c + 1" ?xs] s1(4) s2(1) by simp
    then have "subscribe i evt s = Inr s2"
      using get get1 s1(1,4) True lt D(3) by (simp add: subscribe_def)
    moreover have "take (Suc (unat ?c)) ?xs = take (unat ?c) (subs_arr ?u s1) @ [evt]"
      using lt by (simp add: take_Suc_conv_app_nth)
    then have "sub_of s2 i = sub_of s i @ [evt]" using s2(3) s1(3,4) by (simp add: sub_of_def)
    moreover have "room_after i s" using True s1(5) by blast
    ultimately show ?thesis using subs_step_trans [OF s1(2) s2(2)] by simp
  qed
qed

text \<open>The last subscription takes the place of the one that goes.\<close>

lemma unsubscribe_ok:
  assumes st: "still_ok s" and i: "i < MAX_TASKS" and j: "j < unat (tk_subbedEvtCount (task_of s i))"
  shows "\<exists>s'. unsubscribe i j s = Inr s' \<and> subs_step i s s' \<and> sub_of s' i = butlast ((sub_of s i)[j := last (sub_of s i)])"
proof -
  let ?t = "task_of s i"
  let ?c = "tk_subbedEvtCount ?t"
  have so: "subs_ok s" using st by (simp add: still_ok_def)
  note get = get_task_ok [OF st i] and D = subs_okD [OF so i]
  have pos: "?c \<noteq> 0" using j by auto
  then have c: "unat (?c - 1) = unat ?c - 1" by (simp add: unat_minus_one)
  let ?x = "subs_arr ?t s ! (unat ?c - 1)"
  let ?xs = "(subs_arr ?t s)[j := ?x]"
  have lt: "unat ?c - 1 < length (subs_arr ?t s)" using D(1) j by linarith
  have "tk_subbedEvents ?t \<noteq> SubsNull" using lt by (auto simp: subs_arr_def)
  from set_subs_ok [OF st i this, of ?xs "?c - 1"] lt c obtain s2 where
    s2: "bindE (set_subs i ?xs s) (set_task i (tk_subbedEvtCount_update (\<lambda>_. ?c - 1))) = Inr s2" "subs_step i s s2"
      "sub_of s2 i = take (unat ?c - 1) ?xs" by auto
  have "bindE (set_subs i ?xs s) (set_task i (tk_subbedEvtCount_update (\<lambda>c. c - 1))) = Inr s2"
    using set_subs_count [OF get, of "\<lambda>c. c - 1" "?c - 1" ?xs] s2(1) by simp
  then have "unsubscribe i j s = Inr s2" using get D(3) lt c by (simp add: unsubscribe_def)
  moreover have "take (unat ?c - 1) ?xs = butlast ((sub_of s i)[j := last (sub_of s i)])"
  proof -
    have l: "length (sub_of s i) = unat ?c" using D(1) by (simp add: sub_of_def)
    then have ne: "sub_of s i \<noteq> []" using j by auto
    have "last (sub_of s i) = ?x" using l D(1) j by (simp add: last_conv_nth [OF ne]) (simp add: sub_of_def)
    moreover have "(sub_of s i)[j := ?x] = take (unat ?c) ?xs" by (simp add: sub_of_def take_update_swap)
    ultimately show ?thesis using l D(1) by (simp add: butlast_take butlast_conv_take min_def)
  qed
  ultimately show ?thesis using s2(2,3) by auto
qed

text \<open>What an item asks for: a subscription that is not there comes behind the others if there is room after all.\<close>

definition sub_done :: "bool \<Rightarrow> u32 \<Rightarrow> nat \<Rightarrow> os \<Rightarrow> os \<Rightarrow> bool" where
  "sub_done sub evt i s s' \<longleftrightarrow>
     (if sub then
        if evt \<in> set (sub_of s i) then sub_of s' i = sub_of s i
        else sub_of s' i = (if room_after i s then sub_of s i @ [evt] else sub_of s i)
      else
        if evt \<in> set (sub_of s i) then
          \<exists>j < length (sub_of s i). sub_of s i ! j = evt \<and> sub_of s' i = butlast ((sub_of s i)[j := last (sub_of s i)])
        else sub_of s' i = sub_of s i)"

lemma handle_evtSub_ok:
  assumes st: "still_ok s"
  shows "\<exists>s'. handle_evtSub sub tid evt s = Inr s' \<and>
    (case osTaskFindByTid tid of None \<Rightarrow> s' = s | Some i \<Rightarrow> subs_step i s s' \<and> sub_done sub evt i s s')"
proof (cases "osTaskFindByTid tid")
  case None
  then show ?thesis by (simp add: handle_evtSub_def)
next
  case (Some i)
  let ?t = "task_of s i"
  have i: "i < MAX_TASKS" using find_by_tid_less [OF Some] .
  have so: "subs_ok s" using st by (simp add: still_ok_def)
  note get = get_task_ok [OF st i] and D = subs_okD [OF so i]
  have len: "length (sub_of s i) = unat (tk_subbedEvtCount ?t)" using D(1) by (simp add: sub_of_def)
  from find_sub_list [OF D(1), of evt] obtain j where j: "find_sub (unat (tk_subbedEvtCount ?t)) 0 evt (subs_arr ?t s) = Inr j"
    "if evt \<in> set (sub_of s i) then j < unat (tk_subbedEvtCount ?t) \<and> subs_arr ?t s ! j = evt else j = unat (tk_subbedEvtCount ?t)"
    unfolding sub_of_def by blast
  have run: "handle_evtSub sub tid evt s =
      (if \<not> sub \<and> j \<noteq> unat (tk_subbedEvtCount ?t) then unsubscribe i j s
       else if sub \<and> j = unat (tk_subbedEvtCount ?t) then subscribe i evt s else Inr s)"
    using Some get D(3) j(1) by (simp add: handle_evtSub_def)
  show ?thesis
  proof (cases "evt \<in> set (sub_of s i)")
    case True
    then have jl: "j < unat (tk_subbedEvtCount ?t)" "sub_of s i ! j = evt" using j(2) by (simp_all add: sub_of_def)
    then show ?thesis using run Some True unsubscribe_ok [OF st i jl(1)] subs_step_refl [OF st] len
      by (cases sub) (auto simp: sub_done_def)
  next
    case False
    then show ?thesis using run Some j(2) subscribe_ok [OF st i, of evt] subs_step_refl [OF st] by (cases sub) (auto simp: sub_done_def)
  qed
qed

end
