(* ===== verification/Hub_SchedMain.thy ===== *)
theory Hub_SchedMain
  imports Hub_SchedSubs
begin

text \<open>
  The main loop of the scheduler: what a round does with the event at the head of the queue, from the boot on,
  with applications that are programs of the scheduler's calls.
\<close>

section \<open>Handing over an event\<close>

lemma osTaskHandle_any:
  assumes "ext_ok ext" and i: "sinv s H" and k: "k < MAX_TASKS" and app: "tk_app (task_of s k) \<noteq> None"
  shows "\<exists>s'. osTaskHandle ext k t a s = Inr s' \<and> sinv s' H \<and> frame H (s\<lparr>os_log := os_log s @ [AppHandle k t a]\<rparr>) s'"
proof -
  let ?s = "s\<lparr>os_currentTask := k\<rparr>" and ?c = "AppHandle k t a"
  have i1: "sinv ?s H" using inv_current [OF i k] .
  from call_ext_any [OF assms(1) i1, of ?c] obtain b s1 where
    s1: "call_ext ext ?c ?s = Inr (b, s1)" "sinv s1 H" "frame H (?s\<lparr>os_log := os_log ?s @ [?c]\<rparr>) s1" by blast
  have "app_call ext k ?c ?s = Inr (b, s1)" using s1(1) app get_task_ok [OF inv_still [OF i1] k] by (auto simp: app_call_def)
  then have "osTaskHandle ext k t a s = Inr (s1\<lparr>os_currentTask := os_currentTask s\<rparr>)" by (simp add: osTaskHandle_def as_task_def)
  moreover have "sinv (s1\<lparr>os_currentTask := os_currentTask s\<rparr>) H" using inv_current [OF s1(2)] current_less [OF i] by blast
  moreover have "frame H (s\<lparr>os_log := os_log s @ [?c]\<rparr>) (s1\<lparr>os_currentTask := os_currentTask s\<rparr>)"
    using s1(3) by (simp add: frame_def)
  ultimately show ?thesis by blast
qed

text \<open>The calls by which tasks were handed events of the applications.\<close>

definition deliveries :: "os \<Rightarrow> ext_call list" where
  "deliveries s = filter is_delivery (os_log s)"

lemma frame_deliveries: "frame H s s' \<Longrightarrow> deliveries s' = deliveries s"
  by (auto simp: frame_def deliveries_def list_all_iff)

definition framew :: "nat set \<Rightarrow> os \<Rightarrow> os \<Rightarrow> bool" where
  "framew H s s' \<longleftrightarrow> (\<exists>l. frame H (s\<lparr>os_log := l\<rparr>) s')"

lemma framew_refl [simp]: "framew H s s"
  using frame_refl [of H s] unfolding framew_def by (intro exI [of _ "os_log s"]) simp

lemma framew_fields:
  assumes "framew H s s'"
  shows "same_pool (os_pool s) (os_pool s')" "os_currentTask s' = os_currentTask s" "os_systemTask s' = os_systemTask s"
    "os_heap s' = os_heap s" "os_chunks s' = os_chunks s" "os_freeF s' = os_freeF s" "os_taskAddr s' = os_taskAddr s"
    "unat a \<in> H \<Longrightarrow> os_things s' a = os_things s a"
    "os_curFree s' = os_curFree s \<or> os_curFree s' = None \<and> os_curFree s \<noteq> Some (os_freeF s)"
  using assms unfolding framew_def frame_def by auto

lemma framewI:
  assumes "same_pool (os_pool s) (os_pool s')" "os_currentTask s' = os_currentTask s" "os_systemTask s' = os_systemTask s"
    "os_heap s' = os_heap s" "os_chunks s' = os_chunks s" "os_freeF s' = os_freeF s" "os_taskAddr s' = os_taskAddr s"
    "\<And>a. unat a \<in> H \<Longrightarrow> os_things s' a = os_things s a"
    "os_curFree s' = os_curFree s \<or> os_curFree s' = None \<and> os_curFree s \<noteq> Some (os_freeF s)"
  shows "framew H s s'"
  using assms unfolding framew_def frame_def by (intro exI [of _ "os_log s'"]) auto

lemma framew_trans: "framew H s s1 \<Longrightarrow> framew H s1 s2 \<Longrightarrow> framew H s s2"
  by (rule framewI) (use framew_fields [of H s s1] framew_fields [of H s1 s2] same_pool_trans in auto)

lemma frame_framew: "frame H s s' \<Longrightarrow> framew H s s'"
  unfolding framew_def by (intro exI [of _ "os_log s"]) simp

lemma framew_log: "framew H (s\<lparr>os_log := l\<rparr>) s' = framew H s s'"
  by (simp add: framew_def)

lemma framew_sub_of:
  assumes "framew H s s'" and "length (tp_data (os_pool s)) = MAX_TASKS" and "i < MAX_TASKS"
  shows "sub_of s' i = sub_of s i" and "tk_app (task_of s' i) = tk_app (task_of s i)"
proof -
  have t: "same_task (task_of s i) (task_of s' i)" using same_pool_tasks(2) [OF framew_fields(1) [OF assms(1)]] assms(2,3) by simp
  note f = same_task_fields [OF t]
  show "sub_of s' i = sub_of s i"
    using framew_fields(5) [OF assms(1)] f(2,3,6) by (simp add: sub_of_def subs_arr_def split: subs_ptr.split)
  show "tk_app (task_of s' i) = tk_app (task_of s i)" using f(1) .
qed

lemma wants_event_ok:
  assumes "still_ok s" and "i < MAX_TASKS"
  shows "wants_event (task_of s i) evt s = Inr (evt \<in> set (sub_of s i))"
proof -
  have so: "subs_ok s" using assms(1) by (simp add: still_ok_def)
  note D = subs_okD [OF so assms(2)]
  from find_sub_list [OF D(1), of evt] D(3) show ?thesis by (auto simp: wants_event_def sub_of_def split: if_splits)
qed

text \<open>The tasks from a place of the list on that have subscribed to the event get it, in the order of the list.\<close>

lemma deliver_tasks_ok:
  assumes ext: "ext_ok ext" and t: "EVT_NO_FIRST_USER_EVENT \<le> t"
    and "sinv s H" and "pool_ok (os_pool s) fs (us @ ts)" and "\<forall>i \<in> set ts. tk_app (task_of s i) \<noteq> None" and "length ts < n"
  shows "\<exists>s'. deliver_tasks n ext (hd_or ts NO_NODE) t d s = Inr s' \<and> sinv s' H \<and> framew H s s' \<and>
    deliveries s' = deliveries s @ map (\<lambda>i. AppHandle i t (Data d)) (filter (\<lambda>i. t \<in> set (sub_of s i)) ts)"
  using assms(3-6)
proof (induction ts arbitrary: us s n)
  case Nil
  then show ?case by (cases n) auto
next
  case (Cons i ts)
  obtain m where m: "n = Suc m" "length ts < m" using Cons.prems(4) by (cases n) auto
  have i: "i < MAX_TASKS" using pool_ok_index(1) [OF Cons.prems(2)] by auto
  have st: "still_ok s" using inv_still [OF Cons.prems(1)] .
  have len: "length (tp_data (os_pool s)) = MAX_TASKS" using Cons.prems(2) by (simp add: pool_ok_def)
  let ?w = "t \<in> set (sub_of s i)"
  obtain s1 where s1: "(if ?w then osTaskHandle ext i t (Data d) s else Inr s) = Inr s1" "sinv s1 H" "framew H s s1"
    "deliveries s1 = deliveries s @ (if ?w then [AppHandle i t (Data d)] else [])"
  proof (cases ?w)
    case True
    from osTaskHandle_any [OF ext Cons.prems(1) i] Cons.prems(3) obtain s1 where
      h: "osTaskHandle ext i t (Data d) s = Inr s1" "sinv s1 H" "frame H (s\<lparr>os_log := os_log s @ [AppHandle i t (Data d)]\<rparr>) s1" by fastforce
    have "deliveries s1 = deliveries s @ [AppHandle i t (Data d)]" using frame_deliveries [OF h(3)] t by (simp add: deliveries_def)
    then show ?thesis using that [of s1] h True frame_framew [OF h(3)] by (simp add: framew_log)
  next
    case False
    then show ?thesis using that [of s] Cons.prems(1) by simp
  qed
  have pool: "pool_ok (os_pool s1) fs ((us @ [i]) @ ts)" using same_pool_ok [OF Cons.prems(2) framew_fields(1) [OF s1(3)]] by simp
  have "tk_app (task_of s1 j) \<noteq> None" if "j \<in> set ts" for j
    using framew_sub_of(2) [OF s1(3) len] pool_ok_index(1) [OF pool, of j] that Cons.prems(3) by auto
  then have apps: "\<forall>j \<in> set ts. tk_app (task_of s1 j) \<noteq> None" by blast
  from Cons.IH [OF s1(2) pool apps m(2)] obtain s2 where s2: "deliver_tasks m ext (hd_or ts NO_NODE) t d s1 = Inr s2" "sinv s2 H"
    "framew H s1 s2" "deliveries s2 = deliveries s1 @ map (\<lambda>i. AppHandle i t (Data d)) (filter (\<lambda>i. t \<in> set (sub_of s1 i)) ts)" by blast
  have "sub_of s1 j = sub_of s j" if "j \<in> set ts" for j
    using framew_sub_of(1) [OF s1(3) len] pool_ok_index(1) [OF pool, of j] that by auto
  then have "filter (\<lambda>i. t \<in> set (sub_of s1 i)) ts = filter (\<lambda>i. t \<in> set (sub_of s i)) ts" by (intro filter_cong) auto
  then have del: "deliveries s2 = deliveries s @ map (\<lambda>i. AppHandle i t (Data d)) (filter (\<lambda>i. t \<in> set (sub_of s i)) (i # ts))"
    using s1(4) s2(4) by simp
  have "tl_next (tk_list (task_of s1 i)) = hd_or ts NO_NODE"
    using pool by (simp add: pool_ok_def list_is_def dlinks_append tlink_def)
  then have "deliver_tasks n ext (hd_or (i # ts) NO_NODE) t d s = Inr s2"
    using m(1) i get_task_ok [OF st i] wants_event_ok [OF st i, of t] s1(1) get_task_ok [OF inv_still [OF s1(2)] i] s2(1)
    by (simp split: if_splits)
  then show ?case using s2(2) framew_trans [OF s1(3) s2(3)] del by blast
qed

declare deliver_tasks.simps [simp del]

section \<open>A round\<close>

lemma sinv_curFree:
  assumes "sinv s H"
  shows "sinv (s\<lparr>os_curFree := x\<rparr>) H"
proof -
  let ?s = "s\<lparr>os_curFree := x\<rparr>"
  have sl: "slot_live ?s = slot_live s" "info_ok ?s = info_ok s" by (auto simp: slot_live_def info_ok_def fun_eq_iff split: option.splits)
  have th: "thing_ok ?s t th = thing_ok s t th" for t th by (cases th) (simp_all add: sl)
  then have "event_ok ?s = event_ok s" by (auto simp: event_ok_def sl fun_eq_iff)
  then have "things_ok ?s es H = things_ok s es H" for es by (simp add: things_ok_def)
  moreover have "subs_len t ?s = subs_len t s" for t by (simp add: subs_len_def split: subs_ptr.split)
  then have "still_ok ?s = still_ok s" by (simp add: still_ok_def tasks_ok_def subs_ok_def sl)
  ultimately show ?thesis using assms by (auto simp: sinv_def invq_def)
qed

lemma in_hand_curFree [simp]: "in_hand (s\<lparr>os_curFree := x\<rparr>) e H = in_hand s e H"
  "unless_internal (s\<lparr>os_curFree := x\<rparr>) e H = unless_internal s e H"
proof -
  let ?s = "s\<lparr>os_curFree := x\<rparr>"
  have sl: "slot_live ?s = slot_live s" "info_ok ?s = info_ok s" by (auto simp: slot_live_def info_ok_def fun_eq_iff split: option.splits)
  have th: "thing_ok ?s t th = thing_ok s t th" for t th by (cases th) (simp_all add: sl)
  then have "event_ok ?s = event_ok s" by (auto simp: event_ok_def sl fun_eq_iff)
  then show "in_hand ?s e H = in_hand s e H" by (simp add: in_hand_def)
  show "unless_internal ?s e H = unless_internal s e H" by (simp add: unless_internal_def)
qed

lemma curFree_fields [simp]: "sub_of (s\<lparr>os_curFree := x\<rparr>) i = sub_of s i" "deliveries (s\<lparr>os_curFree := x\<rparr>) = deliveries s"
  by (simp_all add: sub_of_def subs_arr_def deliveries_def split: subs_ptr.split)

text \<open>What a round begins with: the count of the task 0 goes down.\<close>

lemma dispatch_begin:
  assumes i: "sinv s K" and h: "in_hand s (t, d, f) K"
  shows "\<exists>s1. osTaskAddIoCount 0 (-1) s = Inr s1 \<and> sinv (s1\<lparr>os_curFree := Some f\<rparr>) K \<and> in_hand (s1\<lparr>os_curFree := Some f\<rparr>) (t, d, f) K \<and>
    unless_internal s1 (t, d, f) K = unless_internal s (t, d, f) K \<and> frame K s s1 \<and> os_log s1 = os_log s \<and>
    dispatch ext (t, d, f) s =
      bindE (let s2 = s1\<lparr>os_curFree := Some f\<rparr>
             in if EVENT_GET_EVENT t < EVT_NO_FIRST_USER_EVENT then osInternalEvtHandle ext (EVENT_GET_EVENT t) d s2
                else deliver_tasks (Suc MAX_TASKS) ext (tl_next (tp_tasks (os_pool s2))) (EVENT_GET_EVENT t) d s2) (\<lambda>s3.
      bindE (case os_curFree s3 of None \<Rightarrow> Inr s3 | Some _ \<Rightarrow> handleEventFreeing ext (EVENT_GET_EVENT t) d f s3) (\<lambda>s4.
        Inr (s4\<lparr>os_curFree := None\<rparr>)))"
proof -
  have "0 < MAX_TASKS" by (simp add: MAX_TASKS_def)
  from set_task_io [OF i this, of "-1"] obtain s1 where s1: "osTaskAddIoCount 0 (-1) s = Inr s1" "good K s s1" "os_log s1 = os_log s" by blast
  then have f1: "sinv s1 K" "frame K s s1" by (simp_all add: good_def)
  have "osTaskFindByTid 0 = Some 0" by (simp add: osTaskFindByTid_def MAX_TASKS_def)
  then have "dispatch ext (t, d, f) s =
      bindE (let s2 = s1\<lparr>os_curFree := Some f\<rparr>
             in if EVENT_GET_EVENT t < EVT_NO_FIRST_USER_EVENT then osInternalEvtHandle ext (EVENT_GET_EVENT t) d s2
                else deliver_tasks (Suc MAX_TASKS) ext (tl_next (tp_tasks (os_pool s2))) (EVENT_GET_EVENT t) d s2) (\<lambda>s3.
      bindE (case os_curFree s3 of None \<Rightarrow> Inr s3 | Some _ \<Rightarrow> handleEventFreeing ext (EVENT_GET_EVENT t) d f s3) (\<lambda>s4.
        Inr (s4\<lparr>os_curFree := None\<rparr>)))"
    using s1(1) by (simp add: dispatch_def Let_def origin_lost)
  then show ?thesis using s1 f1 sinv_curFree [OF f1(1)] in_hand_frame [OF h inv_still [OF i] f1(2)] by auto
qed

lemma frame_sub_of:
  assumes "frame H s s'" and "still_ok s" and "i < MAX_TASKS"
  shows "sub_of s' i = sub_of s i"
  using framew_sub_of(1) [OF frame_framew [OF assms(1)] _ assms(3)] tasks_ok_pool assms(2) by (simp add: still_ok_def)

text \<open>An event of the applications.\<close>

lemma dispatch_user:
  assumes ext: "ext_ok ext" and i: "sinv s {}" and e: "event_ok s (t, d, f)" and user: "f \<noteq> os_freeF s"
    and pool: "pool_ok (os_pool s) fs ts" and apps: "\<forall>i \<in> set ts. tk_app (task_of s i) \<noteq> None"
  shows "\<exists>s'. dispatch ext (t, d, f) s = Inr s' \<and> sinv s' {} \<and> same_pool (os_pool s) (os_pool s') \<and>
    os_freeF s' = os_freeF s \<and> os_taskAddr s' = os_taskAddr s \<and> os_currentTask s' = os_currentTask s \<and>
    (\<forall>i < MAX_TASKS. sub_of s' i = sub_of s i) \<and>
    deliveries s' = deliveries s @
      map (\<lambda>i. AppHandle i (EVENT_GET_EVENT t) (Data d)) (filter (\<lambda>i. EVENT_GET_EVENT t \<in> set (sub_of s i)) ts)"
proof -
  let ?t = "EVENT_GET_EVENT t"
  have h: "in_hand s (t, d, f) {}" using e user by (simp add: in_hand_def)
  have u: "EVT_NO_FIRST_USER_EVENT \<le> ?t" "info_ok s f" using e user by (simp_all add: event_ok_def)
  have len: "length (tp_data (os_pool s)) = MAX_TASKS" using pool by (simp add: pool_ok_def)
  from dispatch_begin [OF i h, of ext] obtain s1 where s1: "osTaskAddIoCount 0 (-1) s = Inr s1" "sinv (s1\<lparr>os_curFree := Some f\<rparr>) {}"
    "frame {} s s1" "os_log s1 = os_log s"
    "dispatch ext (t, d, f) s =
      bindE (let s2 = s1\<lparr>os_curFree := Some f\<rparr>
             in if ?t < EVT_NO_FIRST_USER_EVENT then osInternalEvtHandle ext ?t d s2
                else deliver_tasks (Suc MAX_TASKS) ext (tl_next (tp_tasks (os_pool s2))) ?t d s2) (\<lambda>s3.
      bindE (case os_curFree s3 of None \<Rightarrow> Inr s3 | Some _ \<Rightarrow> handleEventFreeing ext ?t d f s3) (\<lambda>s4.
        Inr (s4\<lparr>os_curFree := None\<rparr>)))" by blast
  define s2 where "s2 = s1\<lparr>os_curFree := Some f\<rparr>"
  have st: "still_ok s" using inv_still [OF i] .
  have pool1: "pool_ok (os_pool s2) fs ([] @ ts)" using same_pool_ok [OF pool, of "os_pool s1"] s1(3) by (simp add: s2_def frame_def)
  have sub2: "sub_of s2 j = sub_of s j" if "j < MAX_TASKS" for j using frame_sub_of [OF s1(3) st that] by (simp add: s2_def)
  have "tk_app (task_of s2 j) \<noteq> None" if "j \<in> set ts" for j
    using framew_sub_of(2) [OF frame_framew [OF s1(3)] len] pool_ok_index(1) [OF pool, of j] that apps by (simp add: s2_def)
  then have apps2: "\<forall>j \<in> set ts. tk_app (task_of s2 j) \<noteq> None" by blast
  have "length ts < Suc MAX_TASKS" using task_list_length [OF pool] by simp
  from deliver_tasks_ok [OF ext u(1) s1(2) [folded s2_def] pool1 apps2 this] obtain s3 where
    s3: "deliver_tasks (Suc MAX_TASKS) ext (hd_or ts NO_NODE) ?t d s2 = Inr s3" "sinv s3 {}" "framew {} s2 s3"
      "deliveries s3 = deliveries s2 @ map (\<lambda>i. AppHandle i ?t (Data d)) (filter (\<lambda>i. ?t \<in> set (sub_of s2 i)) ts)" by blast
  have flt: "filter (\<lambda>i. ?t \<in> set (sub_of s2 i)) ts = filter (\<lambda>i. ?t \<in> set (sub_of s i)) ts"
    using sub2 pool_ok_index(1) [OF pool] by (intro filter_cong) auto
  have F: "os_freeF s2 = os_freeF s" using s1(3) by (simp add: s2_def frame_def)
  have len2: "length (tp_data (os_pool s2)) = MAX_TASKS" using pool1 by (simp add: pool_ok_def)
  have "info_ok s1 f" using info_ok_frame [OF st s1(3)] u(2) by simp
  moreover have "same_pool (os_pool s1) (os_pool s3)" "os_freeF s3 = os_freeF s1" using framew_fields(1,6) [OF s3(3)] by (simp_all add: s2_def)
  ultimately have info3: "info_ok s3 f"
    using slot_live_same [of s1 s3] len2 by (simp add: info_ok_def s2_def)
  obtain s4 where s4: "(case os_curFree s3 of None \<Rightarrow> Inr s3 | Some _ \<Rightarrow> handleEventFreeing ext ?t d f s3) = Inr s4" "good {} s3 s4"
    using handleEventFreeing_user [OF ext s3(2) info3, of ?t d] good_refl [OF s3(2)] by (cases "os_curFree s3") auto
  have head: "tl_next (tp_tasks (os_pool s2)) = hd_or ts NO_NODE" using pool1 by (simp add: pool_ok_def list_is_def)
  let ?s = "s4\<lparr>os_curFree := None\<rparr>"
  have body: "(let s2 = s1\<lparr>os_curFree := Some f\<rparr>
      in if ?t < EVT_NO_FIRST_USER_EVENT then osInternalEvtHandle ext ?t d s2
         else deliver_tasks (Suc MAX_TASKS) ext (tl_next (tp_tasks (os_pool s2))) ?t d s2) = Inr s3"
    using u(1) s3(1) head unfolding s2_def [symmetric] Let_def by auto
  have run: "dispatch ext (t, d, f) s = Inr ?s" unfolding s1(5) body using s4(1) by simp
  have fw: "framew {} s2 s4" using framew_trans [OF s3(3) frame_framew] s4(2) by (simp add: good_def)
  have "sinv ?s {}" using s4(2) by (intro sinv_curFree) (simp add: good_def)
  moreover have "same_pool (os_pool s) (os_pool ?s)"
    using same_pool_trans [of "os_pool s" "os_pool s1"] s1(3) framew_fields(1) [OF fw] by (simp add: s2_def frame_def)
  moreover have "sub_of ?s j = sub_of s j" if "j < MAX_TASKS" for j using framew_sub_of(1) [OF fw len2 that] sub2 [OF that] by simp
  moreover have "deliveries ?s = deliveries s3" using s4(2) frame_deliveries [of "{}" s3 s4] by (simp add: good_def)
  moreover have "deliveries s2 = deliveries s" using s1(4) by (simp add: s2_def deliveries_def)
  ultimately show ?thesis using run flt s3(4) framew_fields(2,6,7) [OF fw] s1(3) by (simp add: s2_def frame_def)
qed

text \<open>An event of the scheduler itself; the item goes back to the slab.\<close>

lemma internal_type:
  "thing_ok s t th \<Longrightarrow> t < EVT_NO_FIRST_USER_EVENT"
  by (cases th) (auto simp: EVT_NO_FIRST_USER_EVENT_def EVT_SUBSCRIBE_TO_EVT_def EVT_UNSUBSCRIBE_TO_EVT_def EVT_DEFERRED_CALLBACK_def EVT_PRIVATE_EVT_def)

text \<open>What handling the thing does to the subscriptions.\<close>

definition subs_after :: "u32 \<Rightarrow> thing \<Rightarrow> os \<Rightarrow> os \<Rightarrow> bool" where
  "subs_after t th s s' \<longleftrightarrow>
     (\<forall>i < MAX_TASKS.
        case th of
          EvtSub tid evt \<Rightarrow>
            if osTaskFindByTid tid \<noteq> Some i then sub_of s' i = sub_of s i
            else sub_done (t = EVT_SUBSCRIBE_TO_EVT) evt i s s'
        | _ \<Rightarrow> sub_of s' i = sub_of s i)"

text \<open>Only the subscriptions count, the room for them, the heap, and who asks it for more.\<close>

definition subs_same :: "os \<Rightarrow> os \<Rightarrow> bool" where
  "subs_same s u \<longleftrightarrow> os_heap u = os_heap s \<and>
     tk_tid (task_of u (os_currentTask u)) = tk_tid (task_of s (os_currentTask s)) \<and>
     (\<forall>i < MAX_TASKS. sub_of u i = sub_of s i \<and> tk_subbedEvtListSz (task_of u i) = tk_subbedEvtListSz (task_of s i) \<and>
        tk_subbedEvtCount (task_of u i) = tk_subbedEvtCount (task_of s i))"

lemma subs_after_cong:
  assumes "\<And>i. i < MAX_TASKS \<Longrightarrow> sub_of u' i = sub_of s' i" and "subs_same s u" and "subs_after t th s s'"
  shows "subs_after t th u u'"
proof -
  have same: "sub_of u i = sub_of s i" "room_after i u = room_after i s" if "i < MAX_TASKS" for i
    using assms(2) that by (simp_all add: subs_same_def room_after_def grows_def more_subs_def Let_def)
  then have "sub_done sub evt i u u' = sub_done sub evt i s s'" if "i < MAX_TASKS" for sub evt i
    using assms(1) that by (simp add: sub_done_def)
  then show ?thesis using assms(1,3) same(1) by (cases th) (simp_all add: subs_after_def)
qed

lemma internal_ok:
  assumes ext: "ext_ok ext" and i: "sinv s K" and th: "os_things s d = Some th" "thing_ok s t th"
    and d: "unat d \<in> K" and c: "os_curFree s = Some (os_freeF s)"
  shows "\<exists>s'. osInternalEvtHandle ext t d s = Inr s' \<and> sinv s' K \<and> os_curFree s' = os_curFree s \<and> os_freeF s' = os_freeF s \<and>
    os_taskAddr s' = os_taskAddr s \<and> os_currentTask s' = os_currentTask s \<and>
    (\<forall>fs ts. pool_ok (os_pool s) fs ts \<longrightarrow> pool_ok (os_pool s') fs ts) \<and>
    (\<forall>i < MAX_TASKS. tk_app (task_of s' i) = tk_app (task_of s i) \<and> tk_tid (task_of s' i) = tk_tid (task_of s i)) \<and>
    subs_after t th s s'"
proof -
  have st: "still_ok s" using inv_still [OF i] .
  have len: "length (tp_data (os_pool s)) = MAX_TASKS" using st tasks_ok_pool by (simp add: still_ok_def)
  have read: "read_thing d s = Inr th" using th(1) by (simp add: read_thing_def)
  have fin: ?thesis if "osInternalEvtHandle ext t d s = Inr s'" "sinv s' K" "framew K s s'" "os_curFree s' = os_curFree s"
    "\<And>tid evt. th \<noteq> EvtSub tid evt" for s'
  proof -
    have "subs_after t th s s'" using that(5) framew_sub_of(1) [OF that(3) len] by (cases th) (auto simp: subs_after_def)
    moreover have "\<forall>i < MAX_TASKS. tk_app (task_of s' i) = tk_app (task_of s i) \<and> tk_tid (task_of s' i) = tk_tid (task_of s i)"
      using same_pool_tasks(2) [OF framew_fields(1) [OF that(3)]] len same_task_fields(1,5) by auto
    ultimately show ?thesis using that(1,2,4) framew_fields(2,6,7) [OF that(3)] same_pool_ok framew_fields(1) [OF that(3)] by blast
  qed
  show ?thesis
  proof (cases th)
    case (EvtSub tid evt)
    then have t: "t = EVT_SUBSCRIBE_TO_EVT \<or> t = EVT_UNSUBSCRIBE_TO_EVT" using th(2) by simp
    let ?sub = "t = EVT_SUBSCRIBE_TO_EVT"
    have run: "osInternalEvtHandle ext t d s = handle_evtSub ?sub tid evt s"
      using t read EvtSub by (auto simp: osInternalEvtHandle_def)
    from handle_evtSub_ok [OF st, of ?sub tid evt] obtain s' where s': "handle_evtSub ?sub tid evt s = Inr s'"
      "case osTaskFindByTid tid of None \<Rightarrow> s' = s | Some i \<Rightarrow> subs_step i s s' \<and> sub_done ?sub evt i s s'" by blast
    show ?thesis
    proof (cases "osTaskFindByTid tid")
      case None
      then show ?thesis using run s' EvtSub i by (simp add: subs_after_def)
    next
      case (Some k)
      with s'(2) have step: "subs_step k s s'" by simp
      then have al: "alike s s'" "subs_ok s'" "heap_calm (os_heap s')" by (simp_all add: subs_step_def)
      have "subs_after t th s s'" unfolding subs_after_def
      proof (intro allI impI)
        fix j
        assume "j < MAX_TASKS"
        then show "case th of
            EvtSub tid evt \<Rightarrow>
              if osTaskFindByTid tid \<noteq> Some j then sub_of s' j = sub_of s j else sub_done ?sub evt j s s'
          | _ \<Rightarrow> sub_of s' j = sub_of s j"
          using step s'(2) EvtSub Some by (cases "j = k") (simp_all add: subs_step_def)
      qed
      then show ?thesis using run s'(1) alike_sinv [OF al(1) i al(2,3)] al(1) alike_pool_ok [OF al(1)] len by (simp add: alike_def)
    qed
  next
    case (Deferred cbk cookie)
    then have t: "t = EVT_DEFERRED_CALLBACK" using th(2) by simp
    from call_ext_ok [OF ext i, of "DeferredCbk cbk cookie"] obtain b s' where
      s': "call_ext ext (DeferredCbk cbk cookie) s = Inr (b, s')" "good K s s'" by auto
    have "osInternalEvtHandle ext t d s = Inr s'" using t read Deferred s'(1)
      by (simp add: osInternalEvtHandle_def do_call_def EVT_SUBSCRIBE_TO_EVT_def EVT_UNSUBSCRIBE_TO_EVT_def EVT_DEFERRED_CALLBACK_def EVT_APP_END_def)
    moreover have fw: "framew K s s'" using s'(2) frame_framew by (simp add: good_def)
    moreover have "os_curFree s' = os_curFree s" using framew_fields(9) [OF fw] c by simp
    ultimately show ?thesis using fin [of s'] s'(2) Deferred by (simp add: good_def)
  next
    case (PrivateEvt pt pd pf to)
    then have t: "t = EVT_PRIVATE_EVT" and pf: "info_ok s pf" "slot_live s to" using th(2) by simp_all
    have run: "osInternalEvtHandle ext t d s = handle_private ext pt pd pf to s" using t read PrivateEvt
      by (simp add: osInternalEvtHandle_def EVT_SUBSCRIBE_TO_EVT_def EVT_UNSUBSCRIBE_TO_EVT_def EVT_DEFERRED_CALLBACK_def EVT_APP_END_def EVT_PRIVATE_EVT_def)
    have "\<exists>s1. (case osTaskFindByTid to of
              None \<Rightarrow> Inr s
            | Some k \<Rightarrow>
                bindE (osTaskHandle ext k pt (Data pd) (s\<lparr>os_curFree := None\<rparr>)) (\<lambda>s1.
                  Inr (s1\<lparr>os_curFree := os_curFree s\<rparr>))) = Inr s1 \<and> sinv s1 K \<and> framew K s s1 \<and> os_curFree s1 = os_curFree s"
    proof (cases "osTaskFindByTid to")
      case None
      then show ?thesis using i by simp
    next
      case (Some k)
      have k: "k < MAX_TASKS" "tk_app (task_of s k) \<noteq> None" using find_by_tid_less [OF Some] pf(2) Some by (simp_all add: slot_live_def)
      let ?s = "s\<lparr>os_curFree := None\<rparr>"
      from osTaskHandle_any [OF ext sinv_curFree [OF i], of k None pt "Data pd"] k obtain s1 where
        s1: "osTaskHandle ext k pt (Data pd) ?s = Inr s1" "sinv s1 K" "frame K (?s\<lparr>os_log := os_log ?s @ [AppHandle k pt (Data pd)]\<rparr>) s1" by auto
      have fw: "framew K ?s s1" using frame_framew [OF s1(3)] by (simp add: framew_log)
      have "framew K s (s1\<lparr>os_curFree := os_curFree s\<rparr>)"
        by (rule framewI) (use framew_fields [OF fw] in simp_all)
      then show ?thesis using Some s1(1) sinv_curFree [OF s1(2)] by simp
    qed
    then obtain s1 where s1: "(case osTaskFindByTid to of
              None \<Rightarrow> Inr s
            | Some k \<Rightarrow>
                bindE (osTaskHandle ext k pt (Data pd) (s\<lparr>os_curFree := None\<rparr>)) (\<lambda>s1.
                  Inr (s1\<lparr>os_curFree := os_curFree s\<rparr>))) = Inr s1" "sinv s1 K" "framew K s s1" "os_curFree s1 = os_curFree s" by blast
    have "info_ok s1 pf" using pf(1) slot_live_same [OF framew_fields(1) [OF s1(3)] len] framew_fields(6) [OF s1(3)]
      by (simp add: info_ok_def)
    from handleEventFreeing_user [OF ext s1(2) this, of pt pd] obtain s2 where s2: "handleEventFreeing ext pt pd pf s1 = Inr s2" "good K s1 s2" by blast
    have fw: "framew K s s2" using framew_trans [OF s1(3) frame_framew] s2(2) by (simp add: good_def)
    have "os_curFree s2 = os_curFree s" using framew_fields(9) [OF fw] c by simp
    then show ?thesis using fin [of s2] run s1(1) s2 fw PrivateEvt by (simp add: handle_private_def good_def)
  qed
qed

lemma dispatch_internal:
  assumes ext: "ext_ok ext" and i: "sinv s K" and h: "in_hand s (t, d, os_freeF s) K" and th: "os_things s d = Some th"
  shows "\<exists>s'. dispatch ext (t, d, os_freeF s) s = Inr s' \<and> sinv s' (K - {unat d}) \<and> os_freeF s' = os_freeF s \<and>
    os_taskAddr s' = os_taskAddr s \<and> os_currentTask s' = os_currentTask s \<and>
    (\<forall>fs ts. pool_ok (os_pool s) fs ts \<longrightarrow> pool_ok (os_pool s') fs ts) \<and>
    (\<forall>i < MAX_TASKS. tk_app (task_of s' i) = tk_app (task_of s i) \<and> tk_tid (task_of s' i) = tk_tid (task_of s i)) \<and>
    subs_after (EVENT_GET_EVENT t) th s s'"
proof -
  let ?t = "EVENT_GET_EVENT t" and ?f = "os_freeF s"
  have st: "still_ok s" using inv_still [OF i] .
  have len: "length (tp_data (os_pool s)) = MAX_TASKS" using st tasks_ok_pool by (simp add: still_ok_def)
  have d: "unat d \<in> K" "thing_ok s ?t th" using h th by (simp_all add: in_hand_def event_ok_def)
  from dispatch_begin [OF i h, of ext] obtain s1 where s1: "sinv (s1\<lparr>os_curFree := Some ?f\<rparr>) K"
    "in_hand (s1\<lparr>os_curFree := Some ?f\<rparr>) (t, d, ?f) K"
    "frame K s s1" "dispatch ext (t, d, ?f) s =
      bindE (let s2 = s1\<lparr>os_curFree := Some ?f\<rparr>
             in if ?t < EVT_NO_FIRST_USER_EVENT then osInternalEvtHandle ext ?t d s2
                else deliver_tasks (Suc MAX_TASKS) ext (tl_next (tp_tasks (os_pool s2))) ?t d s2) (\<lambda>s3.
      bindE (case os_curFree s3 of None \<Rightarrow> Inr s3 | Some _ \<Rightarrow> handleEventFreeing ext ?t d ?f s3) (\<lambda>s4.
        Inr (s4\<lparr>os_curFree := None\<rparr>)))" by blast
  define s2 where "s2 = s1\<lparr>os_curFree := Some ?f\<rparr>"
  have F: "os_freeF s2 = ?f" "os_things s2 d = Some th" using s1(3) d(1) th by (simp_all add: s2_def frame_def)
  have "thing_ok s1 ?t th" using thing_ok_frame [OF st s1(3)] d(2) by simp
  moreover have "thing_ok s2 ?t th = thing_ok s1 ?t th"
    by (cases th) (simp_all add: s2_def info_ok_def slot_live_def split: option.split)
  ultimately have th2: "thing_ok s2 ?t th" by simp
  have c2: "os_curFree s2 = Some (os_freeF s2)" using F by (simp add: s2_def)
  from internal_ok [OF ext s1(1) [folded s2_def] F(2) th2 d(1) c2] obtain s3 where s3: "osInternalEvtHandle ext ?t d s2 = Inr s3" "sinv s3 K"
    "os_curFree s3 = os_curFree s2" "os_freeF s3 = os_freeF s2" "os_taskAddr s3 = os_taskAddr s2" "os_currentTask s3 = os_currentTask s2"
    "\<forall>fs ts. pool_ok (os_pool s2) fs ts \<longrightarrow> pool_ok (os_pool s3) fs ts"
    "\<forall>i < MAX_TASKS. tk_app (task_of s3 i) = tk_app (task_of s2 i) \<and> tk_tid (task_of s3 i) = tk_tid (task_of s2 i)"
    "subs_after ?t th s2 s3" by blast
  have body: "(let s2 = s1\<lparr>os_curFree := Some ?f\<rparr>
      in if ?t < EVT_NO_FIRST_USER_EVENT then osInternalEvtHandle ext ?t d s2
         else deliver_tasks (Suc MAX_TASKS) ext (tl_next (tp_tasks (os_pool s2))) ?t d s2) = Inr s3"
    using internal_type [OF th2] s3(1) unfolding s2_def [symmetric] Let_def by auto
  have free: "handleEventFreeing ext ?t d ?f s3 = osDeferredActionFreeF d s3"
    using inv_still [OF s3(2)] s3(4) F by (simp add: handleEventFreeing_def call_freeF_def still_ok_def tasks_ok_def)
  from osDeferredActionFreeF_ok [OF s3(2) d(1)] obtain s4 where s4: "osDeferredActionFreeF d s3 = Inr s4" "good (K - {unat d}) s3 s4" by blast
  let ?s = "s4\<lparr>os_curFree := None\<rparr>"
  have run: "dispatch ext (t, d, ?f) s = Inr ?s" unfolding s1(4) body using s3(3) c2 free s4(1) by simp
  have f4: "frame (K - {unat d}) s3 s4" "sinv s4 (K - {unat d})" using s4(2) by (simp_all add: good_def)
  have len3: "length (tp_data (os_pool s3)) = MAX_TASKS" using inv_still [OF s3(2)] tasks_ok_pool by (simp add: still_ok_def)
  have p4: "same_pool (os_pool s3) (os_pool s4)" and p1: "same_pool (os_pool s) (os_pool s1)" using f4(1) s1(3) by (simp_all add: frame_def)
  have pools: "pool_ok (os_pool ?s) fs ts" if "pool_ok (os_pool s) fs ts" for fs ts
    using same_pool_ok [OF _ p4] s3(7) same_pool_ok [OF that p1] by (simp add: s2_def)
  have apps: "tk_app (task_of ?s k) = tk_app (task_of s k) \<and> tk_tid (task_of ?s k) = tk_tid (task_of s k)" if k: "k < MAX_TASKS" for k
    using same_task_fields(1,5) [OF same_pool_tasks(2) [OF p4]] same_task_fields(1,5) [OF same_pool_tasks(2) [OF p1]] s3(8) k len len3
    by (simp add: s2_def)
  have "sub_of ?s k = sub_of s3 k" if "k < MAX_TASKS" for k using frame_sub_of [OF f4(1) inv_still [OF s3(2)] that] by simp
  moreover have "subs_same s2 s"
  proof -
    have "os_currentTask s < length (tp_data (os_pool s))" using current_less [OF i] len by simp
    from same_task_fields(5) [OF same_pool_tasks(2) [OF p1 this]]
    show ?thesis using frame_sub_of [OF s1(3) st] same_task_fields(6,7) [OF same_pool_tasks(2) [OF p1]] len s1(3)
      by (simp add: subs_same_def s2_def frame_def)
  qed
  ultimately have "subs_after ?t th s ?s" by (rule subs_after_cong [OF _ _ s3(9)])
  moreover have "os_freeF ?s = ?f \<and> os_taskAddr ?s = os_taskAddr s \<and> os_currentTask ?s = os_currentTask s"
    using f4(1) s3(4-6) s1(3) by (simp add: s2_def frame_def)
  ultimately show ?thesis using run sinv_curFree [OF f4(2), of None] pools apps by blast
qed

text \<open>Taking the first event out of the queue puts its item in hand.\<close>

lemma take_event:
  assumes q: "invq s {} ((t, d, f) # es)"
  shows "\<exists>q'. evtQueueDequeue True rounds (os_evts s) = Inr (Some (t, d, f), q') \<and>
    sinv (s\<lparr>os_evts := q'\<rparr>) (if f = os_freeF s then {unat d} else {}) \<and>
    in_hand (s\<lparr>os_evts := q'\<rparr>) (t, d, f) (if f = os_freeF s then {unat d} else {})"
proof -
  let ?e = "(t, d, f)" and ?K = "if f = os_freeF s then {unat d} else {}"
  obtain xs where qo: "queue_ok (os_evts s) xs (?e # es)" and th: "things_ok s (?e # es) {}" and st: "still_ok s"
    using q by (auto simp: invq_def)
  from take_first_ok [OF qo] obtain q' ys where q': "take_first (os_evts s) = Inr (Some ?e, q')" "queue_ok q' ys es" by auto
  have "eq_head (os_evts s) \<noteq> None" using queue_head [OF qo] by simp
  then have run: "evtQueueDequeue True rounds (os_evts s) = Inr (Some ?e, q')"
    using q'(1) by (subst evtQueueDequeue.simps) simp
  let ?s = "s\<lparr>os_evts := q'\<rparr>"
  have f: "frame {} s ?s" by (auto simp: frame_def)
  have "things_ok s es ?K" using th by (cases "f = os_freeF s") (simp_all add: things_ok_def)
  then have "things_ok ?s es ?K" by (rule things_ok_cong [OF _ st f]) simp_all
  then have "sinv ?s ?K" using q'(2) still_ok_frame [OF st f] by (auto simp: sinv_def invq_def)
  moreover have "event_ok s ?e" using th by (simp add: things_ok_def)
  then have "event_ok ?s ?e" using event_ok_frame [OF st f] by simp
  then have "in_hand ?s ?e ?K" by (simp add: in_hand_def)
  ultimately show ?thesis using run by blast
qed

lemma round_ok:
  assumes ext: "ext_ok ext" and i: "sinv s {}" and ne: "eq_head (os_evts s) \<noteq> None"
  shows "\<exists>s'. osMainDequeueLoop ext rounds s = Inr s' \<and> sinv s' {}"
proof -
  obtain es where es: "invq s {} es" using i by (auto simp: sinv_def)
  then obtain xs where "queue_ok (os_evts s) xs es" by (auto simp: invq_def)
  with ne have "es \<noteq> []" using queue_head by metis
  then obtain t d f es' where e: "es = (t, d, f) # es'" by (cases es) auto
  from take_event [OF es [unfolded e], of rounds] obtain q' where q': "evtQueueDequeue True rounds (os_evts s) = Inr (Some (t, d, f), q')"
    "sinv (s\<lparr>os_evts := q'\<rparr>) (if f = os_freeF s then {unat d} else {})"
    "in_hand (s\<lparr>os_evts := q'\<rparr>) (t, d, f) (if f = os_freeF s then {unat d} else {})" by blast
  let ?s = "s\<lparr>os_evts := q'\<rparr>"
  have "\<exists>s'. dispatch ext (t, d, f) ?s = Inr s' \<and> sinv s' {}"
  proof (cases "f = os_freeF s")
    case True
    then obtain th where "os_things ?s d = Some th" using q'(3) by (auto simp: in_hand_def event_ok_def)
    with dispatch_internal [OF ext q'(2)] q'(3) True show ?thesis by fastforce
  next
    case False
    obtain fs ts where "pool_ok (os_pool ?s) fs ts" "\<forall>i \<in> set ts. tk_app (task_of ?s i) \<noteq> None"
      using inv_still [OF q'(2)] by (auto simp: still_ok_def tasks_ok_def)
    with dispatch_user [OF ext, of ?s t d f fs ts] q'(2,3) False show ?thesis by (auto simp: in_hand_def)
  qed
  then show ?thesis using q'(1) by (auto simp: osMainDequeueLoop_def)
qed

end
