(* ===== verification/Hub_SchedStart.thy ===== *)
theory Hub_SchedStart
  imports Hub_SchedMain
begin

text \<open>
  The start of applications, the boot, and the runs of the scheduler: applications are started, code of the
  system calls the scheduler, and rounds of the main loop hand over events.
\<close>

section \<open>Starting an application\<close>

text \<open>A change of the pool that takes no application from a slot.\<close>

lemma sinv_pool:
  assumes i: "sinv s H" and pool: "pool_ok p fs ts" "\<forall>i \<in> set ts. tk_app (tp_data p ! i) \<noteq> None"
    and live: "\<And>i. i < MAX_TASKS \<Longrightarrow> tk_app (task_of s i) \<noteq> None \<Longrightarrow> tk_app (tp_data p ! i) \<noteq> None"
    and tids: "\<And>i. i < MAX_TASKS \<Longrightarrow> (\<exists>n. tk_tid (tp_data p ! i) = tid_of n i) \<and> (tk_tid (tp_data p ! i) = 0 \<or> slot_live (s\<lparr>os_pool := p\<rparr>) (ucast (tk_tid (tp_data p ! i))))"
    and subs: "subs_ok (s\<lparr>os_pool := p\<rparr>)"
  shows "sinv (s\<lparr>os_pool := p\<rparr>) H"
proof -
  let ?s = "s\<lparr>os_pool := p\<rparr>"
  have sl: "slot_live ?s tid" if "slot_live s tid" for tid
    using that live find_by_tid_less [of tid] by (auto simp: slot_live_def split: option.splits)
  then have info: "info_ok s f \<Longrightarrow> info_ok ?s f" for f by (auto simp: info_ok_def)
  have th: "thing_ok s t th \<Longrightarrow> thing_ok ?s t th" for t th by (cases th) (auto simp: sl info)
  have ev: "event_ok ?s e" if "event_ok s e" for e
  proof -
    obtain t d f where e: "e = (t, d, f)" by (cases e)
    show ?thesis using that th info unfolding e by (auto simp: event_ok_def split: if_splits)
  qed
  then have "things_ok s es H \<Longrightarrow> things_ok ?s es H" for es by (simp add: things_ok_def)
  moreover have "still_ok s \<Longrightarrow> still_ok ?s" using pool tids subs by (auto simp: still_ok_def tasks_ok_def)
  ultimately show ?thesis using i by (auto simp: sinv_def invq_def)
qed

text \<open>A task with the fields of another, but for its place in a list.\<close>

lemma tbody_eq:
  assumes "tbody p' i = tbody p i"
  shows "tk_app (tp_data p' ! i) = tk_app (tp_data p ! i)" "tk_tid (tp_data p' ! i) = tk_tid (tp_data p ! i)"
    "tk_subbedEvents (tp_data p' ! i) = tk_subbedEvents (tp_data p ! i)" "tk_subbedEventsInt (tp_data p' ! i) = tk_subbedEventsInt (tp_data p ! i)"
    "tk_subbedEvtCount (tp_data p' ! i) = tk_subbedEvtCount (tp_data p ! i)" "tk_subbedEvtListSz (tp_data p' ! i) = tk_subbedEvtListSz (tp_data p ! i)"
  using assms tbody_fields [of p i] tbody_fields [of p' i] by metis+

text \<open>The subscriptions when one task has none.\<close>

lemma subs_ok_fresh:
  assumes so: "subs_ok s" and i: "i < MAX_TASKS"
    and others: "\<And>j. j < MAX_TASKS \<Longrightarrow> j \<noteq> i \<Longrightarrow> tk_subbedEvents (tp_data p ! j) = tk_subbedEvents (task_of s j) \<and>
      tk_subbedEventsInt (tp_data p ! j) = tk_subbedEventsInt (task_of s j) \<and> tk_subbedEvtCount (tp_data p ! j) = tk_subbedEvtCount (task_of s j) \<and>
      tk_subbedEvtListSz (tp_data p ! j) = tk_subbedEvtListSz (task_of s j)"
    and own: "tk_subbedEvtCount (tp_data p ! i) = 0"
      "tk_subbedEvents (tp_data p ! i) = SubsNull \<and> tk_subbedEvtListSz (tp_data p ! i) = 0 \<or>
       tk_subbedEvents (tp_data p ! i) = SubsInt \<and> unat (tk_subbedEvtListSz (tp_data p ! i)) \<le> length (tk_subbedEventsInt (tp_data p ! i))"
  shows "subs_ok (s\<lparr>os_pool := p\<rparr>)" and "j < MAX_TASKS \<Longrightarrow> j \<noteq> i \<Longrightarrow> sub_of (s\<lparr>os_pool := p\<rparr>) j = sub_of s j"
    and "sub_of (s\<lparr>os_pool := p\<rparr>) i = []"
proof -
  let ?s = "s\<lparr>os_pool := p\<rparr>"
  have arr: "subs_arr (task_of ?s j) ?s = subs_arr (task_of s j) s" if "j < MAX_TASKS" "j \<noteq> i" for j
    using others [OF that] by (simp add: subs_arr_def split: subs_ptr.split)
  show "j < MAX_TASKS \<Longrightarrow> j \<noteq> i \<Longrightarrow> sub_of ?s j = sub_of s j" using arr [of j] others [of j] by (simp add: sub_of_def)
  show "sub_of ?s i = []" using own by (simp add: sub_of_def)
  show "subs_ok ?s" unfolding subs_ok_def Let_def
  proof (intro allI impI)
    fix j
    assume j: "j < MAX_TASKS"
    show "unat (tk_subbedEvtCount (task_of ?s j)) \<le> subs_len (task_of ?s j) ?s \<and> unat (tk_subbedEvtListSz (task_of ?s j)) \<le> subs_len (task_of ?s j) ?s \<and>
      (\<forall>a. tk_subbedEvents (task_of ?s j) = SubsHeap a \<longrightarrow> os_chunks ?s a \<noteq> None \<and> a \<in> fst ` heap_live (os_heap ?s) \<and>
        (\<forall>k < MAX_TASKS. k \<noteq> j \<longrightarrow> tk_subbedEvents (task_of ?s k) \<noteq> SubsHeap a))"
    proof (cases "j = i")
      case True
      then show ?thesis using own by (auto simp: subs_len_def)
    next
      case False
      have "tk_subbedEvents (task_of ?s k) \<noteq> SubsHeap a"
        if "tk_subbedEvents (task_of s j) = SubsHeap a" "k < MAX_TASKS" "k \<noteq> j" for a k
        using subs_okD(5) [OF so j that] others [of k] own that by (cases "k = i") auto
      then show ?thesis using subs_okD(1,2,4) [OF so j] others [OF j False] arr [OF j False]
        by (simp add: subs_len_arr)
    qed
  qed
qed

lemma find_own_tid:
  assumes "i < MAX_TASKS" and "n \<noteq> 0"
  shows "osTaskFindByTid (ucast (tid_of n i)) = Some i"
proof -
  have i: "i < 256" using assms(1) by (simp add: MAX_TASKS_def)
  have "unat ((ucast (tid_of n i) :: u32) AND ucast TASK_TID_IDX_MASK) = unat (tid_of n i) mod 256"
  proof -
    have "(ucast TASK_TID_IDX_MASK :: u32) = mask 8" by (simp add: TASK_TID_IDX_MASK_def mask_eq_exp_minus_1)
    then have A: "(ucast (tid_of n i) :: u32) AND ucast TASK_TID_IDX_MASK = take_bit 8 (ucast (tid_of n i))" by (simp add: take_bit_eq_mask)
    have "unat (tid_of n i) < 2 ^ LENGTH(16)" by (rule unsigned_less)
    then have "unat (tid_of n i) < 2 ^ 32" by simp
    then have "unat (ucast (tid_of n i) :: u32) = unat (tid_of n i)" by (simp add: unsigned_ucast_eq take_bit_nat_eq_self)
    then show ?thesis unfolding A unsigned_take_bit_eq by (simp add: take_bit_eq_mod)
  qed
  also have "\<dots> = i" using unat_tid_of [OF i, of n] assms(2) i by simp
  finally show ?thesis using assms(1) by (simp add: osTaskFindByTid_def)
qed

lemma slot_self:
  assumes "i < MAX_TASKS" and "tk_app (task_of s i) \<noteq> None"
  shows "tid_of n i = 0 \<or> slot_live s (ucast (tid_of n i))"
  using assms find_own_tid [OF assms(1), of n] by (cases "n = 0") (auto simp: slot_live_def tid_of_def)

text \<open>A change of the pool that leaves what is in the tasks, but for flags and counts.\<close>

definition same_content :: "task_pool \<Rightarrow> task_pool \<Rightarrow> bool" where
  "same_content p p' \<longleftrightarrow> (\<forall>j. tk_app (tp_data p' ! j) = tk_app (tp_data p ! j) \<and> tk_tid (tp_data p' ! j) = tk_tid (tp_data p ! j) \<and>
     tk_subbedEvents (tp_data p' ! j) = tk_subbedEvents (tp_data p ! j) \<and> tk_subbedEventsInt (tp_data p' ! j) = tk_subbedEventsInt (tp_data p ! j) \<and>
     tk_subbedEvtCount (tp_data p' ! j) = tk_subbedEvtCount (tp_data p ! j) \<and> tk_subbedEvtListSz (tp_data p' ! j) = tk_subbedEvtListSz (tp_data p ! j))"

lemma relist_ok:
  assumes i2: "sinv s H" and pool: "pool_ok p fs ts" and apps: "\<And>j. j \<in> set ts \<Longrightarrow> tk_app (task_of s j) \<noteq> None"
    and same: "same_content (os_pool s) p"
  shows "sinv (s\<lparr>os_pool := p\<rparr>) H" and "sub_of (s\<lparr>os_pool := p\<rparr>) j = sub_of s j"
    and "tk_app (task_of (s\<lparr>os_pool := p\<rparr>) j) = tk_app (task_of s j)" and "tk_tid (task_of (s\<lparr>os_pool := p\<rparr>) j) = tk_tid (task_of s j)"
proof -
  let ?s = "s\<lparr>os_pool := p\<rparr>"
  have e: "tk_app (tp_data p ! j) = tk_app (task_of s j)" "tk_tid (tp_data p ! j) = tk_tid (task_of s j)"
    "tk_subbedEvents (tp_data p ! j) = tk_subbedEvents (task_of s j)" "tk_subbedEventsInt (tp_data p ! j) = tk_subbedEventsInt (task_of s j)"
    "tk_subbedEvtCount (tp_data p ! j) = tk_subbedEvtCount (task_of s j)" "tk_subbedEvtListSz (tp_data p ! j) = tk_subbedEvtListSz (task_of s j)" for j
    using same by (simp_all add: same_content_def)
  have arr: "subs_arr (tp_data p ! j) ?s = subs_arr (task_of s j) s" for j using e by (simp add: subs_arr_def split: subs_ptr.split)
  then show "sub_of ?s j = sub_of s j" by (simp add: sub_of_def e)
  show "tk_app (task_of ?s j) = tk_app (task_of s j)" "tk_tid (task_of ?s j) = tk_tid (task_of s j)" by (simp_all add: e)
  have "subs_ok s" using inv_still [OF i2] by (simp add: still_ok_def)
  moreover have "subs_len (tp_data p ! j) ?s = subs_len (task_of s j) s" for j unfolding subs_len_arr arr ..
  then have "subs_ok ?s = subs_ok s" unfolding subs_ok_def Let_def by (simp add: e)
  ultimately have "subs_ok ?s" by simp
  moreover have sl: "slot_live ?s = slot_live s" by (auto simp: slot_live_def fun_eq_iff e split: option.splits)
  moreover have "(\<exists>n. tk_tid (tp_data p ! j) = tid_of n j) \<and> (tk_tid (tp_data p ! j) = 0 \<or> slot_live ?s (ucast (tk_tid (tp_data p ! j))))"
    if "j < MAX_TASKS" for j
    unfolding sl e using inv_still [OF i2] that by (simp add: still_ok_def tasks_ok_def)
  ultimately show "sinv ?s H" using apps by (intro sinv_pool [OF i2 pool]) (simp_all add: e)
qed

lemma same_contentI:
  assumes "tbody p' = tbody p \<or> tbody p' = (tbody p)(i := (tbody p i)\<lparr>tk_flags := 0, tk_ioCount := 0\<rparr>)"
  shows "same_content p p'"
  unfolding same_content_def
proof (intro allI)
  fix j
  have "tbody p' j = tbody p j \<or> tbody p' j = (tbody p j)\<lparr>tk_flags := 0, tk_ioCount := 0\<rparr>" using assms by (cases "j = i") auto
  then show "tk_app (tp_data p' ! j) = tk_app (tp_data p ! j) \<and> tk_tid (tp_data p' ! j) = tk_tid (tp_data p ! j) \<and>
     tk_subbedEvents (tp_data p' ! j) = tk_subbedEvents (tp_data p ! j) \<and> tk_subbedEventsInt (tp_data p' ! j) = tk_subbedEventsInt (tp_data p ! j) \<and>
     tk_subbedEvtCount (tp_data p' ! j) = tk_subbedEvtCount (tp_data p ! j) \<and> tk_subbedEvtListSz (tp_data p' ! j) = tk_subbedEvtListSz (tp_data p ! j)"
    using tbody_fields [of p j] tbody_fields [of p' j] by auto
qed

text \<open>\<open>osLoadApp\<close> takes the first free slot, or gives it back.\<close>

lemma load_ok:
  assumes ext: "ext_ok ext" and i: "sinv s H" and pool: "pool_ok (os_pool s) fs ts" and apps: "\<forall>i \<in> set ts. tk_app (task_of s i) \<noteq> None"
    and n: "\<And>k. k < MAX_TASKS \<Longrightarrow> tk_tid (task_of s k) = tid_of (st k) k"
  shows "case fs of
     [] \<Rightarrow> osLoadApp ext app s = Inr (None, s)
   | i # fs' \<Rightarrow> \<exists>r s'. osLoadApp ext app s = Inr (r, s') \<and> sinv s' H \<and> os_freeF s' = os_freeF s \<and> os_currentTask s' = os_currentTask s \<and>
       tk_app (task_of s' i) = Some app \<and> sub_of s' i = [] \<and>
       (\<forall>j < MAX_TASKS. tk_tid (task_of s' j) = tid_of (st j) j \<and> (j \<noteq> i \<longrightarrow> tk_app (task_of s' j) = tk_app (task_of s j) \<and> sub_of s' j = sub_of s j)) \<and>
       (case r of None \<Rightarrow> pool_ok (os_pool s') (fs' @ [i]) ts
        | Some k \<Rightarrow> k = i \<and> pool_ok (os_pool s') fs' ts \<and> tk_subbedEvtCount (task_of s' i) = 0 \<and> length (tk_subbedEventsInt (task_of s' i)) = MAX_EMBEDDED_EVT_SUBS)"
proof (cases fs)
  case Nil
  then show ?thesis using alloc_none pool by (simp add: osLoadApp_def)
next
  case (Cons i fs')
  have il: "i < MAX_TASKS" and ni: "i \<notin> set (fs' @ ts)" and len: "length (tp_data (os_pool s)) = MAX_TASKS"
    using pool Cons by (auto simp: pool_ok_def)
  have st: "still_ok s" and so: "subs_ok s" using inv_still [OF i] by (simp_all add: still_ok_def)
  from alloc_some [OF pool [unfolded Cons]] obtain p where p: "osAllocTask (os_pool s) = Inr (Some i, p)" "pool_ok p fs' ts"
    "tbody p = (tbody (os_pool s))(i := tk_list_update (\<lambda>_. list_init) (task_zero\<lparr>tk_tid := tk_tid (task_of s i)\<rparr>))" by blast
  have pl: "length (tp_data p) = MAX_TASKS" using p(2) by (simp add: pool_ok_def)
  from body_write_ok [OF p(2) il, of "tk_app_update (\<lambda>_. Some app)"] obtain p1 where
    p1: "pool_update i (tk_app_update (\<lambda>_. Some app)) p = Inr p1" "pool_ok p1 fs' ts"
      "tp_data p1 = (tp_data p)[i := tk_app_update (\<lambda>_. Some app) (tp_data p ! i)]" by auto
  define s1 where "s1 = s\<lparr>os_pool := p1\<rparr>"
  have other: "tbody p1 j = tbody (os_pool s) j" if "j \<noteq> i" for j
    using p(3) that fun_cong [OF tbody_write [OF _ p1(3)], of j] il pl by simp
  have ti: "tp_data p ! i = (task_zero\<lparr>tk_tid := tk_tid (task_of s i)\<rparr>)\<lparr>tk_list := tk_list (tp_data p ! i)\<rparr>"
  proof -
    have "tk_list_update (\<lambda>_. list_init) (tp_data p ! i) = tk_list_update (\<lambda>_. list_init) (task_zero\<lparr>tk_tid := tk_tid (task_of s i)\<rparr>)"
      using fun_cong [OF p(3), of i] by (simp add: tbody_def)
    then show ?thesis by (cases "tp_data p ! i") (simp add: task_zero_def)
  qed
  have own: "tp_data p1 ! i = (task_zero\<lparr>tk_tid := tk_tid (task_of s i), tk_app := Some app\<rparr>)\<lparr>tk_list := tk_list (tp_data p ! i)\<rparr>"
    using p1(3) il pl by (simp, subst ti, simp add: task_zero_def)
  have fresh: "subs_ok s1" "\<And>j. j < MAX_TASKS \<Longrightarrow> j \<noteq> i \<Longrightarrow> sub_of s1 j = sub_of s j" "sub_of s1 i = []"
    unfolding s1_def by (rule subs_ok_fresh [OF so il], use tbody_eq [OF other] own in \<open>simp_all add: task_zero_def\<close>)+
  have app1: "tk_app (task_of s1 i) = Some app" "\<And>j. j \<noteq> i \<Longrightarrow> tk_app (task_of s1 j) = tk_app (task_of s j)"
    using own tbody_eq(1) [OF other] by (simp_all add: s1_def)
  have tid1: "tk_tid (task_of s1 j) = tid_of (st j) j" if "j < MAX_TASKS" for j
    using own tbody_eq(2) [OF other] n that by (cases "j = i") (simp_all add: s1_def)
  have tids: "tk_tid (task_of s j) = 0 \<or> slot_live s (ucast (tk_tid (task_of s j)))" if "j < MAX_TASKS" for j
    using st that by (simp add: still_ok_def tasks_ok_def)
  have live: "slot_live s1 tid" if "slot_live s tid" for tid
    using that app1 by (auto simp: slot_live_def split: option.splits) (metis option.distinct(1))
  have "sinv s1 H" unfolding s1_def
  proof (rule sinv_pool [OF i p1(2)])
    show "\<forall>j \<in> set ts. tk_app (tp_data p1 ! j) \<noteq> None"
    proof
      fix j
      assume j: "j \<in> set ts"
      with ni have "j \<noteq> i" by auto
      then show "tk_app (tp_data p1 ! j) \<noteq> None" using apps app1(2) [of j] j by (simp add: s1_def)
    qed
    show "tk_app (tp_data p1 ! j) \<noteq> None" if "tk_app (task_of s j) \<noteq> None" for j
      using that app1 by (cases "j = i") (simp_all add: s1_def)
    show "(\<exists>n. tk_tid (tp_data p1 ! j) = tid_of n j) \<and> (tk_tid (tp_data p1 ! j) = 0 \<or> slot_live (s\<lparr>os_pool := p1\<rparr>) (ucast (tk_tid (tp_data p1 ! j))))"
      if j: "j < MAX_TASKS" for j
    proof -
      have "tk_tid (tp_data p1 ! j) = tk_tid (task_of s j)" using tid1 [OF j] n [OF j] by (simp add: s1_def)
      then show ?thesis using tid1 [OF j] tids [OF j] live by (auto simp: s1_def)
    qed
    show "subs_ok (s\<lparr>os_pool := p1\<rparr>)" using fresh(1) by (simp add: s1_def)
  qed
  moreover define c where "c = (if ah_fwFlags app AND FL_APP_HDR_INTERNAL \<noteq> 0 then InternalAppLoad i else AppLoad i)"
  moreover have "\<not> is_delivery c" by (simp add: c_def)
  ultimately obtain b s2 where s2: "call_ext ext c s1 = Inr (b, s2)" "good H s1 s2" using call_ext_ok [OF ext] by blast
  then have i2: "sinv s2 H" and f2: "frame H s1 s2" by (simp_all add: good_def)
  have sp: "same_pool (os_pool s1) (os_pool s2)" using f2 by (simp add: frame_def)
  have len1: "length (tp_data (os_pool s1)) = MAX_TASKS" using p1(2) by (simp add: pool_ok_def s1_def)
  note sf = same_task_fields [OF same_pool_tasks(2) [OF sp, unfolded len1]]
  have pool2: "pool_ok (os_pool s2) fs' ts" using same_pool_ok [OF _ sp] p1(2) by (simp add: s1_def)
  have sub2: "sub_of s2 j = sub_of s1 j" if "j < MAX_TASKS" for j
    using framew_sub_of(1) [OF frame_framew [OF f2] len1 that] .
  have run: "osLoadApp ext app s = (if b then Inr (Some i, s2) else bindE (osFreeTask i (os_pool s2)) (\<lambda>p1. Inr (None, s2\<lparr>os_pool := p1\<rparr>)))"
    using p(1) p1(1) s2(1) unfolding c_def by (simp add: osLoadApp_def set_task_def s1_def)
  have desc2: "tk_app (task_of s2 i) = Some app \<and> sub_of s2 i = [] \<and> os_freeF s2 = os_freeF s \<and> os_currentTask s2 = os_currentTask s \<and>
      (\<forall>j < MAX_TASKS. tk_tid (task_of s2 j) = tid_of (st j) j \<and> (j \<noteq> i \<longrightarrow> tk_app (task_of s2 j) = tk_app (task_of s j) \<and> sub_of s2 j = sub_of s j))"
    using sf(1,5) sub2 fresh(2,3) app1 tid1 il f2 by (simp add: frame_def s1_def)
  show ?thesis
  proof (cases b)
    case True
    have "tk_subbedEvtCount (task_of s2 i) = 0 \<and> length (tk_subbedEventsInt (task_of s2 i)) = MAX_EMBEDDED_EVT_SUBS"
      using sf(2,6) [OF il] own by (simp add: s1_def task_zero_def)
    then show ?thesis using Cons run True i2 pool2 desc2 by simp
  next
    case False
    from free_ok [OF pool2 il ni] obtain p3 where p3: "osFreeTask i (os_pool s2) = Inr p3" "pool_ok p3 (fs' @ [i]) ts"
      "tbody p3 = (tbody (os_pool s2))(i := (tbody (os_pool s2) i)\<lparr>tk_flags := 0, tk_ioCount := 0\<rparr>)" by blast
    let ?s = "s2\<lparr>os_pool := p3\<rparr>"
    have apps2: "tk_app (task_of s2 j) \<noteq> None" if "j \<in> set ts" for j
    proof -
      have "j < MAX_TASKS" "j \<noteq> i" using that ni pool_ok_index(1) [OF pool2, of j] by auto
      then show ?thesis using desc2 apps that by simp
    qed
    note R = relist_ok [OF i2 p3(2) apps2 same_contentI [OF disjI2 [OF p3(3)]]]
    show ?thesis using Cons run False p3(1,2) desc2 R by simp
  qed
qed

text \<open>
  \<open>osStartApp\<close>: the first free slot gets the application and its next task ID and goes to the end of the running
  tasks, without subscriptions; when the application does not load or start, to the end of the free ones.
\<close>

lemma start_ok:
  assumes ext: "ext_ok ext" and i: "sinv s H" and pool: "pool_ok (os_pool s) fs ts" and apps: "\<forall>i \<in> set ts. tk_app (task_of s i) \<noteq> None"
    and n: "\<And>k. k < MAX_TASKS \<Longrightarrow> tk_tid (task_of s k) = tid_of (st k) k"
  shows "case fs of
     [] \<Rightarrow> osStartApp ext app s = Inr (False, s)
   | i # fs' \<Rightarrow> \<exists>b s' m. osStartApp ext app s = Inr (b, s') \<and> sinv s' H \<and> os_freeF s' = os_freeF s \<and> os_currentTask s' = os_currentTask s \<and>
       tk_app (task_of s' i) = Some app \<and> sub_of s' i = [] \<and> tk_tid (task_of s' i) = tid_of m i \<and>
       (\<forall>j < MAX_TASKS. j \<noteq> i \<longrightarrow> tk_tid (task_of s' j) = tid_of (st j) j \<and> tk_app (task_of s' j) = tk_app (task_of s j) \<and> sub_of s' j = sub_of s j) \<and>
       (if b then pool_ok (os_pool s') fs' (ts @ [i]) \<and> m = Suc (st i) else pool_ok (os_pool s') (fs' @ [i]) ts \<and> m \<in> {st i, Suc (st i)})"
proof (cases fs)
  case Nil
  then show ?thesis using load_ok [OF ext i pool apps n, of app] by (simp add: osStartApp_def)
next
  case (Cons i fs')
  have il: "i < MAX_TASKS" and ni: "i \<notin> set (fs' @ ts)" using pool Cons by (auto simp: pool_ok_def)
  from load_ok [OF ext i pool apps n, of app] Cons obtain r s1 where L: "osLoadApp ext app s = Inr (r, s1)" "sinv s1 H"
    "os_freeF s1 = os_freeF s" "os_currentTask s1 = os_currentTask s" "tk_app (task_of s1 i) = Some app" "sub_of s1 i = []"
    "\<And>j. j < MAX_TASKS \<Longrightarrow> tk_tid (task_of s1 j) = tid_of (st j) j"
    "\<And>j. j < MAX_TASKS \<Longrightarrow> j \<noteq> i \<Longrightarrow> tk_app (task_of s1 j) = tk_app (task_of s j) \<and> sub_of s1 j = sub_of s j"
    "case r of None \<Rightarrow> pool_ok (os_pool s1) (fs' @ [i]) ts
     | Some k \<Rightarrow> k = i \<and> pool_ok (os_pool s1) fs' ts \<and> tk_subbedEvtCount (task_of s1 i) = 0 \<and> length (tk_subbedEventsInt (task_of s1 i)) = MAX_EMBEDDED_EVT_SUBS" by auto
  show ?thesis
  proof (cases r)
    case None
    then have "osStartApp ext app s = Inr (False, s1)" "pool_ok (os_pool s1) (fs' @ [i]) ts" using L(1,9) by (simp_all add: osStartApp_def)
    then show ?thesis unfolding Cons list.case using L(2-8) il
      by (intro exI [of _ False] exI [of _ s1] exI [of _ "st i"]) simp
  next
    case (Some k)
    then have k: "k = i" and pool1: "pool_ok (os_pool s1) fs' ts" and cnt: "tk_subbedEvtCount (task_of s1 i) = 0"
      "length (tk_subbedEventsInt (task_of s1 i)) = MAX_EMBEDDED_EVT_SUBS" using L(9) by simp_all
    let ?f = "\<lambda>t. MAKE_NEW_TID i (t\<lparr>tk_subbedEvtListSz := word_of_nat MAX_EMBEDDED_EVT_SUBS, tk_subbedEvents := SubsInt\<rparr>)"
    define u where "u = (task_of s1 i)\<lparr>tk_subbedEvtListSz := word_of_nat MAX_EMBEDDED_EVT_SUBS, tk_subbedEvents := SubsInt, tk_tid := tid_of (Suc (st i)) i\<rparr>"
    have "i < 256" using il by (simp add: MAX_TASKS_def)
    from MAKE_NEW_TID_of [OF this, of "(task_of s1 i)\<lparr>tk_subbedEvtListSz := word_of_nat MAX_EMBEDDED_EVT_SUBS, tk_subbedEvents := SubsInt\<rparr>" "st i"]
    have fu: "?f (task_of s1 i) = u" using L(7) [OF il] by (simp add: u_def)
    obtain p2 where p2: "pool_update i ?f (os_pool s1) = Inr p2" "pool_ok p2 fs' ts" "tp_data p2 = (tp_data (os_pool s1))[i := u]"
      using body_write_ok [OF pool1 il, of ?f] ni fu by auto
    define s2 where "s2 = s1\<lparr>os_pool := p2\<rparr>"
    have len1: "length (tp_data (os_pool s1)) = MAX_TASKS" using pool1 by (simp add: pool_ok_def)
    have ti: "tp_data p2 ! i = u" and tj: "\<And>j. j \<noteq> i \<Longrightarrow> tp_data p2 ! j = task_of s1 j" using p2(3) il len1 by simp_all
    have so1: "subs_ok s1" and tk1: "tasks_ok s1" using inv_still [OF L(2)] by (simp_all add: still_ok_def)
    have subs2: "subs_ok s2" "\<And>j. j < MAX_TASKS \<Longrightarrow> j \<noteq> i \<Longrightarrow> sub_of s2 j = sub_of s1 j" "sub_of s2 i = []"
      unfolding s2_def by (rule subs_ok_fresh [OF so1 il], use tj in simp, use ti cnt in \<open>simp_all add: u_def MAX_EMBEDDED_EVT_SUBS_def\<close>)+
    have apps1: "tk_app (task_of s1 j) \<noteq> None" if "j \<in> set ts" for j
    proof -
      have "j < MAX_TASKS" "j \<noteq> i" using that ni pool_ok_index(1) [OF pool1, of j] by auto
      then show ?thesis using L(8) [of j] apps that by simp
    qed
    have app2: "tk_app (tp_data p2 ! j) = tk_app (task_of s1 j)" for j using ti tj [of j] by (cases "j = i") (simp_all add: u_def)
    have tid2: "tk_tid (tp_data p2 ! j) = (if j = i then tid_of (Suc (st i)) i else tk_tid (task_of s1 j))" for j
      using ti tj [of j] by (cases "j = i") (simp_all add: u_def)
    have sl2: "slot_live s2 = slot_live s1" by (auto simp: slot_live_def s2_def app2 fun_eq_iff split: option.splits)
    have i2: "sinv s2 H" unfolding s2_def
    proof (rule sinv_pool [OF L(2) p2(2)])
      show "(\<exists>n. tk_tid (tp_data p2 ! j) = tid_of n j) \<and> (tk_tid (tp_data p2 ! j) = 0 \<or> slot_live (s1\<lparr>os_pool := p2\<rparr>) (ucast (tk_tid (tp_data p2 ! j))))"
        if j: "j < MAX_TASKS" for j
      proof (cases "j = i")
        case True
        have "tk_app (task_of s2 i) \<noteq> None" using app2 L(5) by (simp add: s2_def)
        from slot_self [OF il this, of "Suc (st i)"] True tid2 [of j] show ?thesis by (auto simp: s2_def)
      next
        case False
        then show ?thesis using tid2 [of j] tk1 j sl2 by (auto simp: s2_def tasks_ok_def)
      qed
    qed (use app2 apps1 subs2(1) in \<open>auto simp: s2_def\<close>)
    have "\<exists>b s'. as_task i (app_call ext i (AppInit i (tk_tid u))) s2 = Inr (b, s') \<and> good H s2 s'"
      by (rule as_task_ok [OF i2 il _ refl], rule app_call_ok [OF ext]) (use il app2 L(5) in \<open>auto simp: s2_def\<close>)
    then obtain b s3 where s3: "as_task i (app_call ext i (AppInit i (tk_tid u))) s2 = Inr (b, s3)" "good H s2 s3" by blast
    have i3: "sinv s3 H" and f3: "frame H s2 s3" using s3(2) by (simp_all add: good_def)
    have sp: "same_pool (os_pool s2) (os_pool s3)" using f3 by (simp add: frame_def)
    have len2: "length (tp_data (os_pool s2)) = MAX_TASKS" using p2(2) by (simp add: s2_def pool_ok_def)
    have pool3: "pool_ok (os_pool s3) fs' ts" using same_pool_ok [OF _ sp] p2(2) by (simp add: s2_def)
    have desc3: "tk_app (task_of s3 j) = tk_app (task_of s1 j)" "tk_tid (task_of s3 j) = (if j = i then tid_of (Suc (st i)) i else tk_tid (task_of s1 j))"
      "sub_of s3 j = sub_of s2 j" if "j < MAX_TASKS" for j
      using same_task_fields(1,5) [OF same_pool_tasks(2) [OF sp, unfolded len2, OF that]] app2 tid2 framew_sub_of(1) [OF frame_framew [OF f3] len2 that]
      by (simp_all add: s2_def)
    have st3: "os_freeF s3 = os_freeF s" "os_currentTask s3 = os_currentTask s" using f3 L(3,4) by (simp_all add: frame_def s2_def)
    have run: "osStartApp ext app s =
        (if b then bindE (osAddTask i (os_pool s3)) (\<lambda>p. Inr (True, s3\<lparr>os_pool := p\<rparr>))
         else bindE (osUnloadApp ext i s3) (\<lambda>s4. Inr (False, s4)))"
      using L(1) Some k p2(1) s3(1) get_task_ok [OF inv_still [OF i2] il] ti
      by (simp add: osStartApp_def set_task_def osTaskInit_def s2_def)
    have apps3: "tk_app (task_of s3 j) \<noteq> None" if "j \<in> set ts" for j
      using desc3(1) [of j] apps1 [OF that] pool_ok_index(1) [OF pool1, of j] that by simp
    show ?thesis
    proof (cases b)
      case True
      from add_task_ok [OF pool3 il ni] obtain p4 where p4: "osAddTask i (os_pool s3) = Inr p4" "pool_ok p4 fs' (ts @ [i])" "tbody p4 = tbody (os_pool s3)" by blast
      have apps4: "tk_app (task_of s3 j) \<noteq> None" if "j \<in> set (ts @ [i])" for j using that apps3 desc3(1) [OF il] L(5) by auto
      note R = relist_ok [OF i3 p4(2) apps4 same_contentI [OF disjI1 [OF p4(3)]]]
      show ?thesis using run True p4(1,2) R desc3 st3 L(5-8) subs2 il
        unfolding Cons list.case by (intro exI [of _ True] exI [of _ "s3\<lparr>os_pool := p4\<rparr>"] exI [of _ "Suc (st i)"]) simp
    next
      case False
      have "\<not> is_delivery (AppUnload i)" by simp
      from call_ext_ok [OF ext i3 this] obtain b4 s4 where s4: "call_ext ext (AppUnload i) s3 = Inr (b4, s4)" "good H s3 s4" by blast
      have i4: "sinv s4 H" and f4: "frame H s3 s4" using s4(2) by (simp_all add: good_def)
      have sp4: "same_pool (os_pool s3) (os_pool s4)" using f4 by (simp add: frame_def)
      have len3: "length (tp_data (os_pool s3)) = MAX_TASKS" using pool3 by (simp add: pool_ok_def)
      have pool4: "pool_ok (os_pool s4) fs' ts" using same_pool_ok [OF pool3 sp4] .
      have desc4: "tk_app (task_of s4 j) = tk_app (task_of s3 j)" "tk_tid (task_of s4 j) = tk_tid (task_of s3 j)"
        "sub_of s4 j = sub_of s3 j" if "j < MAX_TASKS" for j
        using same_task_fields(1,5) [OF same_pool_tasks(2) [OF sp4, unfolded len3, OF that]] framew_sub_of(1) [OF frame_framew [OF f4] len3 that]
        by simp_all
      have apps4: "tk_app (task_of s4 j) \<noteq> None" if "j \<in> set ts" for j
        using desc4(1) [of j] apps3 [OF that] pool_ok_index(1) [OF pool1, of j] that by simp
      from free_ok [OF pool4 il ni] obtain p5 where p5: "osFreeTask i (os_pool s4) = Inr p5" "pool_ok p5 (fs' @ [i]) ts"
        "tbody p5 = (tbody (os_pool s4))(i := (tbody (os_pool s4) i)\<lparr>tk_flags := 0, tk_ioCount := 0\<rparr>)" by blast
      note R = relist_ok [OF i4 p5(2) apps4 same_contentI [OF disjI2 [OF p5(3)]]]
      have "osUnloadApp ext i s3 = Inr (s4\<lparr>os_pool := p5\<rparr>)" using s4(1) p5(1) by (simp add: osUnloadApp_def do_call_def)
      then show ?thesis using run False p5(2) R desc3 desc4 st3 f4 L(5-8) subs2 il
        unfolding Cons list.case by (intro exI [of _ False] exI [of _ "s4\<lparr>os_pool := p5\<rparr>"] exI [of _ "Suc (st i)"]) (simp add: frame_def)
    qed
  qed
qed

end
