(* ===== verification/Hub_SchedReach.thy ===== *)
theory Hub_SchedReach
  imports Hub_SchedStart
begin

text \<open>
  The boot of the scheduler, its runs, and what holds in every state of a run.
\<close>

section \<open>The boot\<close>

text \<open>
  \<open>osInit\<close>: the heap of \<open>real\<close> octets at \<open>base\<close>, the event queue, the slab of internal things.  \<open>tid\<close> is what
  \<open>osGetCurrentTid\<close> returns while there is no current task.
\<close>

definition osInit :: "u32 \<Rightarrow> u32 \<Rightarrow> nat \<Rightarrow> nat \<Rightarrow> nat \<Rightarrow> (evt_queue \<times> slab \<times> hub_heap) option res" where
  "osInit base thingSz tid real t =
     bindE (heapInit real t) (\<lambda>(_, h).
     bindE (evtQueueAlloc base 512 tid h) (\<lambda>(q, h1).
       case q of
         None \<Rightarrow> Inr None
       | Some (_, eq) \<Rightarrow>
           bindE (slabAllocatorNew base thingSz 4 64 tid h1) (\<lambda>(s, h2).
             case s of None \<Rightarrow> Inr None | Some (_, sl) \<Rightarrow> Inr (Some (eq, sl, h2)))))"

text \<open>
  Then the task pool, and the task of the system, which is in no list.  When \<open>osInit\<close> gives up, the result is
  \<open>None\<close>: the source goes on without a queue.
\<close>

definition boot :: "u32 \<Rightarrow> u32 \<Rightarrow> nat \<Rightarrow> nat \<Rightarrow> nat \<Rightarrow> u32 \<Rightarrow> (nat \<Rightarrow> u32) \<Rightarrow> os option res" where
  "boot base thingSz tid real t freeF addr =
     bindE (osInit base thingSz tid real t) (\<lambda>r.
       case r of
         None \<Rightarrow> Inr None
       | Some (q, sl, h) \<Rightarrow>
           bindE init_task_pool (\<lambda>p.
           bindE (osAllocTask p) (\<lambda>(task, p1).
             case task of
               None \<Rightarrow> Inl NullDeref
             | Some i \<Rightarrow>
                 Inr (Some \<lparr>os_pool = p1, os_currentTask = i, os_systemTask = i, os_evts = q, os_slab = sl, os_things = Map.empty,
                            os_heap = h, os_chunks = Map.empty, os_curFree = None, os_freeF = freeF, os_taskAddr = addr, os_log = []\<rparr>))))"

definition boot_args :: "u32 \<Rightarrow> u32 \<Rightarrow> nat \<Rightarrow> u32 \<Rightarrow> bool" where
  "boot_args base thingSz real freeF \<longleftrightarrow>
     real < 2 ^ MAX_HEAP_ORDER \<and> HN \<le> real \<and> unat base + real \<le> 2 ^ 32 \<and> slab_fits thingSz 4 64 \<and> taggedPtrIsPtr freeF \<and> freeF \<noteq> 0"

text \<open>The state after the boot: all tasks are free but the first, nobody has subscribed, nothing is queued.\<close>

lemma slabNew_flags:
  "slabAllocatorNew base z a n tid h = Inr (r, h') \<Longrightarrow> \<not> hh_lock h \<Longrightarrow> \<not> hh_need h \<Longrightarrow> heap_inv h \<Longrightarrow> heap_calm h'"
proof -
  assume n: "slabAllocatorNew base z a n tid h = Inr (r, h')" and c: "\<not> hh_lock h" "\<not> hh_need h" "heap_inv h"
  then obtain sz p where "heapAlloc sz tid h = Inr (p, h')" by (auto simp: slabAllocatorNew_def Let_def res split: option.splits)
  with calm_alloc [of h sz tid] c show ?thesis by (auto simp: heap_calm_def)
qed

lemma boot_ok:
  assumes args: "boot_args base thingSz real freeF" and b: "boot base thingSz tid real t freeF addr = Inr (Some s)"
  shows "invq s {} [] \<and> pool_ok (os_pool s) [1..<MAX_TASKS] [] \<and> (\<forall>i < MAX_TASKS. tk_tid (task_of s i) = 0 \<and> sub_of s i = []) \<and>
    os_freeF s = freeF \<and> os_taskAddr s = addr \<and> os_log s = [] \<and> eq_cap (os_evts s) = 512 \<and> tk_flags (task_of s 0) = 0 \<and> os_currentTask s = 0"
proof -
  from b obtain q sl h p task p1 where o: "osInit base thingSz tid real t = Inr (Some (q, sl, h))" and p: "init_task_pool = Inr p"
    and al: "osAllocTask p = Inr (Some task, p1)"
    and s: "s = \<lparr>os_pool = p1, os_currentTask = task, os_systemTask = task, os_evts = q, os_slab = sl, os_things = Map.empty,
                 os_heap = h, os_chunks = Map.empty, os_curFree = None, os_freeF = freeF, os_taskAddr = addr, os_log = []\<rparr>"
    by (auto simp: boot_def res split: option.splits prod.splits)
  from o obtain ok h0 a h1 ptr where h0: "heapInit real t = Inr (ok, h0)" and q: "evtQueueAlloc base 512 tid h0 = Inr (Some (a, q), h1)"
    and sl: "slabAllocatorNew base thingSz 4 64 tid h1 = Inr (Some (ptr, sl), h)"
    by (auto simp: osInit_def res split: option.splits prod.splits)
  have A: "real < 2 ^ MAX_HEAP_ORDER" "HN \<le> real" "unat base + real \<le> 2 ^ 32" "slab_fits thingSz 4 64" "taggedPtrIsPtr freeF" "freeF \<noteq> 0"
    using args by (simp_all add: boot_args_def)
  have "ok = True" using h0 A(2) by (auto simp: heapInit_def Let_def res)
  with heapInit_ok [OF _ A(1)] h0 have hi: "heap_inv h0" "hh_real h0 = real" "\<not> hh_lock h0" "\<not> hh_need h0" using heap_inv_ok by blast+
  have fits: "slab_fits 20 4 512" by (simp add: slab_fits_def slab_octets_def up_def)
  from alloc_ok [OF hi(1) q fits] hi(2) A(3) have Q: "queue_ok q [] []" "eq_cap q = unat (512 :: u32)" "heap_inv h1" by auto
  from q obtain h01 p0 where "heapAlloc 16 tid h0 = Inr (p0, h01)" "\<exists>r. slabAllocatorNew base 20 4 512 tid h01 = Inr (r, h1)"
    by (auto simp: evtQueueAlloc_def res split: option.splits prod.splits)
  then have c1: "heap_calm h1"
    using calm_alloc [of h0 16 tid] hi slabNew_flags [of base 20 4 512 tid h01 _ h1] by (auto simp: heap_calm_def)
  have "hh_real h1 = real"
  proof -
    obtain sz r where "slabAllocatorNew base 20 4 512 tid h01 = Inr (r, h1)" "heapAlloc 16 tid h0 = Inr (p0, h01)"
      using \<open>\<exists>r. slabAllocatorNew base 20 4 512 tid h01 = Inr (r, h1)\<close> \<open>heapAlloc 16 tid h0 = Inr (p0, h01)\<close> by blast
    moreover from this(1) obtain sz p' where "heapAlloc sz tid h01 = Inr (p', h1)" by (auto simp: slabAllocatorNew_def Let_def res split: option.splits)
    ultimately show ?thesis using heap_alloc_live [OF hi(1)] heap_alloc_live [of h01 sz tid p' h1] hi(2) by metis
  qed
  with slabNew_ok [OF Q(3) sl A(4)] A(3) have S: "slab_ok sl" "slab_live sl = {}" by auto
  have ch: "heap_calm h" using slabNew_flags [OF sl] c1 by (simp add: heap_calm_def)
  obtain p' where p': "init_task_pool = Inr p'" "pool_ok p' [0..<MAX_TASKS] []" "\<forall>j < MAX_TASKS. tbody p' j = tk_list_update (\<lambda>_. list_init) task_zero"
    using init_ok by blast
  have ups: "[0..<MAX_TASKS] = 0 # [1..<MAX_TASKS]" by (simp add: upt_conv_Cons MAX_TASKS_def)
  from alloc_some [OF p'(2) [unfolded ups]] obtain p2 where p2: "osAllocTask p' = Inr (Some 0, p2)" "pool_ok p2 [1..<MAX_TASKS] []"
    "tbody p2 = (tbody p')(0 := tk_list_update (\<lambda>_. list_init) (task_zero\<lparr>tk_tid := tk_tid (tp_data p' ! 0)\<rparr>))" by blast
  have "p' = p" using p p'(1) by (metis sum.inject(2))
  then have "Inr (Some 0, p2) = (Inr (Some task, p1) :: fault + nat option \<times> task_pool)" using al p2(1) by metis
  then have same: "p1 = p2" "task = 0" by simp_all
  have t0: "tk_tid (tp_data p' ! 0) = 0" using p'(3) tbody_fields(2) [of p' 0] by (simp add: MAX_TASKS_def task_zero_def)
  have tb: "tbody p1 j = tk_list_update (\<lambda>_. list_init) task_zero" if "j < MAX_TASKS" for j
    using that same p2(3) p'(3) t0 by (cases "j = 0") (simp_all add: task_zero_def)
  have tf: "tk_tid (tp_data p1 ! j) = 0" "tk_subbedEvents (tp_data p1 ! j) = SubsNull" "tk_subbedEvtCount (tp_data p1 ! j) = 0"
    "tk_subbedEvtListSz (tp_data p1 ! j) = 0" "tk_flags (tp_data p1 ! j) = 0" if "j < MAX_TASKS" for j
    using tb [OF that] tbody_fields [of p1 j] by (simp_all add: task_zero_def)
  have "subs_ok s" using tf by (simp add: subs_ok_def Let_def s)
  moreover have "tasks_ok s"
  proof -
    have "\<exists>fs ts. pool_ok (os_pool s) fs ts \<and> (\<forall>i \<in> set ts. tk_app (task_of s i) \<noteq> None)" using p2(2) same by (fastforce simp: s)
    then show ?thesis using tf A(5,6) same(2) by (auto simp: tasks_ok_def s MAX_TASKS_def tid_of_def intro!: exI [of _ 0])
  qed
  ultimately have "still_ok s" using ch by (simp add: still_ok_def s)
  moreover have "things_ok s [] {}" using S by (simp add: things_ok_def s)
  ultimately have "invq s {} []" using Q(1) by (auto simp: invq_def s)
  moreover have "sub_of s i = []" if "i < MAX_TASKS" for i using tf [OF that] by (simp add: sub_of_def s)
  ultimately show ?thesis using tf p2(2) same Q(2) by (simp add: s MAX_TASKS_def)
qed

section \<open>Runs\<close>

datatype sched_op = Start app_hdr | Call nat api | Round

text \<open>
  A call is made by the system or by a callback that runs as a task.  A round on the empty queue waits for what
  does not happen in this run.
\<close>

definition call_as :: "ext \<Rightarrow> nat \<Rightarrow> api \<Rightarrow> os \<Rightarrow> os res" where
  "call_as ext i op s =
     (if i < MAX_TASKS
      then bindE (as_task i (\<lambda>s1. bindE (run_api ext [op] s1) (\<lambda>s2. Inr ((), s2))) s) (\<lambda>(_, s1). Inr s1)
      else Inr s)"

fun sched_run :: "ext \<Rightarrow> sched_op list \<Rightarrow> os \<Rightarrow> os res" where
  "sched_run ext [] s = Inr s"
| "sched_run ext (Start app # ops) s = bindE (osStartApp ext app s) (\<lambda>(b, s1). sched_run ext ops s1)"
| "sched_run ext (Call i op # ops) s = bindE (call_as ext i op s) (sched_run ext ops)"
| "sched_run ext (Round # ops) s =
     (if eq_head (os_evts s) = None then sched_run ext ops s else bindE (osMainDequeueLoop ext [] s) (sched_run ext ops))"

lemma inv_pool:
  assumes "sinv s H"
  obtains fs ts st where "pool_ok (os_pool s) fs ts" and "\<forall>i \<in> set ts. tk_app (task_of s i) \<noteq> None"
    and "\<And>k. k < MAX_TASKS \<Longrightarrow> tk_tid (task_of s k) = tid_of (st k) k"
proof -
  have t: "tasks_ok s" using inv_still [OF assms] by (simp add: still_ok_def)
  then obtain fs ts where "pool_ok (os_pool s) fs ts" "\<forall>i \<in> set ts. tk_app (task_of s i) \<noteq> None" by (auto simp: tasks_ok_def)
  moreover have "\<forall>k. \<exists>n. k < MAX_TASKS \<longrightarrow> tk_tid (task_of s k) = tid_of n k" using t by (auto simp: tasks_ok_def)
  then obtain st where "\<forall>k. k < MAX_TASKS \<longrightarrow> tk_tid (task_of s k) = tid_of (st k) k" by metis
  ultimately show thesis using that by blast
qed

lemma start_sinv:
  assumes ext: "ext_ok ext" and i: "sinv s H"
  shows "\<exists>b s'. osStartApp ext app s = Inr (b, s') \<and> sinv s' H \<and> os_freeF s' = os_freeF s"
proof -
  obtain fs ts st where p: "pool_ok (os_pool s) fs ts" "\<forall>i \<in> set ts. tk_app (task_of s i) \<noteq> None"
    "\<And>k. k < MAX_TASKS \<Longrightarrow> tk_tid (task_of s k) = tid_of (st k) k" using inv_pool [OF i] by blast
  show ?thesis
  proof (cases fs)
    case Nil
    then show ?thesis using start_ok [OF ext i p, of app] i by auto
  next
    case (Cons j fs')
    then show ?thesis using start_ok [OF ext i p, of app] by auto
  qed
qed

lemma call_as_ok:
  assumes ext: "ext_ok ext" and i: "sinv s H"
  shows "\<exists>s'. call_as ext i op s = Inr s' \<and> sinv s' H \<and> frame H s s'"
proof (cases "i < MAX_TASKS")
  case True
  let ?s = "s\<lparr>os_currentTask := i\<rparr>"
  from run_api_ok [OF ext inv_current [OF assms(2) True], of "[op]"] obtain s1 where
    s1: "run_api ext [op] ?s = Inr s1" "sinv s1 H" "frame H ?s s1" by (auto simp: good_def)
  then have "call_as ext i op s = Inr (s1\<lparr>os_currentTask := os_currentTask s\<rparr>)" using True by (simp add: call_as_def as_task_def)
  moreover have "frame H s (s1\<lparr>os_currentTask := os_currentTask s\<rparr>)" using s1(3) by (simp add: frame_def)
  ultimately show ?thesis using inv_current [OF s1(2) current_less [OF assms(2)]] by blast
qed (use i in \<open>simp add: call_as_def\<close>)

lemma sched_run_ok:
  assumes ext: "ext_ok ext"
  shows "sinv s {} \<Longrightarrow> \<exists>s'. sched_run ext ops s = Inr s' \<and> sinv s' {}"
proof (induction ops arbitrary: s)
  case Nil
  then show ?case by simp
next
  case (Cons op ops)
  show ?case
  proof (cases op)
    case (Start app)
    from start_sinv [OF ext Cons.prems, of app] obtain b s1 where "osStartApp ext app s = Inr (b, s1)" "sinv s1 {}" by blast
    then show ?thesis using Cons.IH Start by simp
  next
    case (Call i a)
    from call_as_ok [OF ext Cons.prems, of i a] obtain s1 where "call_as ext i a s = Inr s1" "sinv s1 {}" by blast
    then show ?thesis using Cons.IH Call by simp
  next
    case Round
    show ?thesis
    proof (cases "eq_head (os_evts s) = None")
      case True
      then show ?thesis using Cons Round by simp
    next
      case False
      from round_ok [OF ext Cons.prems False] obtain s1 where "osMainDequeueLoop ext [] s = Inr s1" "sinv s1 {}" by blast
      then show ?thesis using Cons.IH [of s1] Round False by auto
    qed
  qed
qed

lemma sched_run_append: "sched_run ext (ops @ ops') s = bindE (sched_run ext ops s) (sched_run ext ops')"
proof (induction ext ops s rule: sched_run.induct)
  case (4 ext ops s)
  then show ?case by (cases "eq_head (os_evts s) = None") (auto simp: bindE_assoc intro!: bindE_cong)
qed (auto simp: bindE_assoc intro!: bindE_cong)

lemma boot_sinv: "boot_args base thingSz real freeF \<Longrightarrow> boot base thingSz tid real t freeF addr = Inr (Some s) \<Longrightarrow> sinv s {}"
  using boot_ok unfolding sinv_def by blast

text \<open>A state that a run from the boot comes to.\<close>

definition reachable :: "nat \<Rightarrow> prog \<Rightarrow> os \<Rightarrow> bool" where
  "reachable n prog s \<longleftrightarrow>
     (\<exists>base thingSz tid real t freeF addr s0 ops. boot_args base thingSz real freeF \<and>
        boot base thingSz tid real t freeF addr = Inr (Some s0) \<and> sched_run (app_ext n prog) ops s0 = Inr s)"

lemma reachable_sinv: "reachable n prog s \<Longrightarrow> sinv s {}"
  using sched_run_ok [OF app_ext_ok] boot_sinv unfolding reachable_def by (metis sum.inject(2))

lemma reachable_step:
  assumes "reachable n prog s" and "sched_run (app_ext n prog) ops s = Inr s'"
  shows "reachable n prog s'"
  using assms sched_run_append [of "app_ext n prog" _ ops] unfolding reachable_def by (metis bindE.simps(2))

text \<open>The lists are determined by the state.\<close>

lemma dlinks_unique:
  "dlinks nx pv p xs n \<Longrightarrow> dlinks nx pv q ys n \<Longrightarrow> hd_or xs n = hd_or ys n \<Longrightarrow> n \<notin> set xs \<Longrightarrow> n \<notin> set ys \<Longrightarrow> xs = ys"
proof (induction xs arbitrary: p q ys)
  case Nil
  then show ?case by (cases ys) auto
next
  case (Cons x xs)
  then obtain y zs where ys: "ys = y # zs" by (cases ys) auto
  then have "hd_or xs n = hd_or zs n" "y = x" using Cons.prems by auto
  then show ?case using Cons.IH [of x y zs] Cons.prems ys by auto
qed

lemma running_unique:
  assumes "pool_ok p fs ts" and "pool_ok p fs' ts'"
  shows "ts = ts'"
proof (rule dlinks_unique)
  show "dlinks (\<lambda>i. tl_next (tlink p i)) (\<lambda>i. tl_prev (tlink p i)) NO_NODE ts NO_NODE"
    "dlinks (\<lambda>i. tl_next (tlink p i)) (\<lambda>i. tl_prev (tlink p i)) NO_NODE ts' NO_NODE"
    "hd_or ts NO_NODE = hd_or ts' NO_NODE"
    using assms by (simp_all add: pool_ok_def list_is_def)
  show "NO_NODE \<notin> set ts" "NO_NODE \<notin> set ts'" using assms pool_ok_index(1) [OF assms(1)] pool_ok_index(1) [OF assms(2)] less_MAX_TASKS by auto
qed

lemma chain_unique:
  "chain m p xs es None \<Longrightarrow> chain m q ys fs None \<Longrightarrow> first xs None = first ys None \<Longrightarrow> xs = ys \<and> es = fs"
proof (induction xs arbitrary: es ys fs p q)
  case Nil
  then have "ys = []" by (cases ys) auto
  then show ?case using Nil by (cases es; cases fs) auto
next
  case (Cons x xs)
  obtain zs where ys: "ys = x # zs" using Cons.prems(3) by (cases ys) auto
  obtain e es' f fs' where ef: "es = e # es'" "fs = f # fs'" using Cons.prems(1,2) ys by (cases es; cases fs) auto
  then have "e = f" "first xs None = first zs None" using Cons.prems(1,2) ys by auto
  then show ?case using Cons.IH [of "Some x" es' "Some x" zs fs'] Cons.prems(1,2) ys ef by auto
qed

lemma queue_unique: "queue_ok q xs es \<Longrightarrow> queue_ok q ys fs \<Longrightarrow> es = fs"
  using chain_unique unfolding queue_ok_def linked_def by metis

lemma reachable_queue:
  assumes "reachable n prog s" and "queue_ok (os_evts s) xs es"
  shows "invq s {} es"
  using reachable_sinv [OF assms(1)] queue_unique [OF assms(2)] by (auto simp: sinv_def invq_def)

end
