(* ===== verification/Hub_SchedRules.thy ===== *)
theory Hub_SchedRules
  imports Hub_SchedReach
begin

text \<open>
  The scheduler with applications that do anything: every call is made, and a monitor tells whether one of them
  breaks a rule of the interface.  A run that breaks none is one of the runs in which such calls are left out.
\<close>

section \<open>Runs of all calls\<close>

text \<open>
  The calls of a program, every one of them made.  \<open>checked\<close> is the run of the monitor: it stops at the first
  call that \<open>allowed\<close> rules out, and is the same up to there.
\<close>

fun run_calls :: "bool \<Rightarrow> ext \<Rightarrow> api list \<Rightarrow> os \<Rightarrow> os res" where
  "run_calls checked ext [] s = Inr s"
| "run_calls checked ext (op # ops) s =
     (if checked \<and> \<not> allowed op s then Inl RuleBroken
      else bindE (api_step ext op s) (\<lambda>(b, s1). run_calls checked ext ops s1))"

fun app_calls :: "bool \<Rightarrow> nat \<Rightarrow> prog \<Rightarrow> ext" where
  "app_calls checked 0 prog c s = Inr (snd (prog c (os_log s)), s)"
| "app_calls checked (Suc n) prog c s =
     bindE (run_calls checked (app_calls checked n prog) (fst (prog c (os_log s))) s) (\<lambda>s1. Inr (snd (prog c (os_log s)), s1))"

definition call_by :: "bool \<Rightarrow> ext \<Rightarrow> nat \<Rightarrow> api \<Rightarrow> os \<Rightarrow> os res" where
  "call_by checked ext i op s =
     (if i < MAX_TASKS
      then bindE (as_task i (\<lambda>s1. bindE (run_calls checked ext [op] s1) (\<lambda>s2. Inr ((), s2))) s) (\<lambda>(_, s1). Inr s1)
      else Inr s)"

fun sched_calls :: "bool \<Rightarrow> ext \<Rightarrow> sched_op list \<Rightarrow> os \<Rightarrow> os res" where
  "sched_calls checked ext [] s = Inr s"
| "sched_calls checked ext (Start app # ops) s = bindE (osStartApp ext app s) (\<lambda>(b, s1). sched_calls checked ext ops s1)"
| "sched_calls checked ext (Call i op # ops) s = bindE (call_by checked ext i op s) (sched_calls checked ext ops)"
| "sched_calls checked ext (Round # ops) s =
     (if eq_head (os_evts s) = None then sched_calls checked ext ops s
      else bindE (osMainDequeueLoop ext [] s) (sched_calls checked ext ops))"

text \<open>What the applications and the system do, and whether they break a rule on the way.\<close>

definition real_run :: "nat \<Rightarrow> prog \<Rightarrow> sched_op list \<Rightarrow> os \<Rightarrow> os res" where
  "real_run n prog ops s = sched_calls False (app_calls False n prog) ops s"

definition breaks_rule :: "nat \<Rightarrow> prog \<Rightarrow> sched_op list \<Rightarrow> os \<Rightarrow> bool" where
  "breaks_rule n prog ops s \<longleftrightarrow> sched_calls True (app_calls True n prog) ops s = Inl RuleBroken"

section \<open>A stopped run below the others\<close>

text \<open>The flat order with the broken rule at the bottom; every function of the scheduler is monotone in it.\<close>

definition below :: "'a res \<Rightarrow> 'a res \<Rightarrow> bool" where
  "below r r' \<longleftrightarrow> r = Inl RuleBroken \<or> r = r'"

definition ext_below :: "ext \<Rightarrow> ext \<Rightarrow> bool" where
  "ext_below e e' \<longleftrightarrow> (\<forall>c s. below (e c s) (e' c s))"

named_theorems below_intros "monotone functions of the scheduler"

lemma below_refl [below_intros]: "below r r"
  by (simp add: below_def)

lemma below_broken [below_intros]: "below (Inl RuleBroken) r"
  by (simp add: below_def)

lemma below_bind [below_intros]:
  assumes "below r r'" and "\<And>x. below (f x) (f' x)"
  shows "below (bindE r f) (bindE r' f')"
  using assms(1) assms(2) [unfolded below_def] by (cases r'; cases r) (auto simp: below_def)

lemma below_if [below_intros]:
  "below a a' \<Longrightarrow> below b b' \<Longrightarrow> below (if c then a else b) (if c then a' else b')"
  by simp

lemma below_option [below_intros]:
  "below a a' \<Longrightarrow> (\<And>x. below (f x) (f' x)) \<Longrightarrow>
   below (case r of None \<Rightarrow> a | Some x \<Rightarrow> f x) (case r of None \<Rightarrow> a' | Some x \<Rightarrow> f' x)"
  by (cases r) simp_all

lemma below_prod [below_intros]:
  "(\<And>x y. below (f x y) (f' x y)) \<Longrightarrow> below (case p of (x, y) \<Rightarrow> f x y) (case p of (x, y) \<Rightarrow> f' x y)"
  by (cases p) simp

lemma below_thing [below_intros]:
  "(\<And>x y. below (f x y) (f' x y)) \<Longrightarrow> (\<And>x y. below (g x y) (g' x y)) \<Longrightarrow> (\<And>x y z u. below (h x y z u) (h' x y z u)) \<Longrightarrow>
   below (case t of EvtSub x y \<Rightarrow> f x y | Deferred x y \<Rightarrow> g x y | PrivateEvt x y z u \<Rightarrow> h x y z u)
     (case t of EvtSub x y \<Rightarrow> f' x y | Deferred x y \<Rightarrow> g' x y | PrivateEvt x y z u \<Rightarrow> h' x y z u)"
  by (cases t) simp_all

lemma call_ext_below [below_intros]: "ext_below e e' \<Longrightarrow> below (call_ext e c s) (call_ext e' c s)"
  by (simp add: call_ext_def ext_below_def)

lemma app_call_below [below_intros]: "ext_below e e' \<Longrightarrow> below (app_call e i c s) (app_call e' i c s)"
  unfolding app_call_def by (intro below_intros)

lemma as_task_below [below_intros]:
  "(\<And>u. below (f u) (f' u)) \<Longrightarrow> below (as_task i f s) (as_task i f' s)"
  unfolding as_task_def by (intro below_intros)

lemma osTaskHandle_below [below_intros]: "ext_below e e' \<Longrightarrow> below (osTaskHandle e i t d s) (osTaskHandle e' i t d s)"
  unfolding osTaskHandle_def by (intro below_intros)

lemma call_freeF_below [below_intros]: "ext_below e e' \<Longrightarrow> below (call_freeF e f d s) (call_freeF e' f d s)"
  unfolding call_freeF_def by (intro below_intros)

lemma handleEventFreeing_below [below_intros]:
  "ext_below e e' \<Longrightarrow> below (handleEventFreeing e t d f s) (handleEventFreeing e' t d f s)"
  unfolding handleEventFreeing_def by (intro below_intros)

lemma free_events_below [below_intros]: "ext_below e e' \<Longrightarrow> below (free_events e es s) (free_events e' es s)"
proof (induction es arbitrary: s)
  case (Cons ev es)
  then show ?case by (cases ev) (auto intro: below_bind handleEventFreeing_below)
qed (simp add: below_refl)

section \<open>The calls\<close>

lemma os_enqueue_below [below_intros]: "ext_below e e' \<Longrightarrow> below (os_enqueue e ev front s) (os_enqueue e' ev front s)"
  unfolding os_enqueue_def by (intro below_intros)

lemma osEnqueueEvtCommon_below [below_intros]:
  "ext_below e e' \<Longrightarrow> below (osEnqueueEvtCommon e t d f s) (osEnqueueEvtCommon e' t d f s)"
  unfolding osEnqueueEvtCommon_def by (intro below_intros)

lemma osEnqueueEvtOrFree_below [below_intros]:
  "ext_below e e' \<Longrightarrow> below (osEnqueueEvtOrFree e t d f s) (osEnqueueEvtOrFree e' t d f s)"
  unfolding osEnqueueEvtOrFree_def osEnqueueEvt_def by (intro below_intros)

lemma osEventSubscribeUnsubscribe_below [below_intros]:
  "ext_below e e' \<Longrightarrow> below (osEventSubscribeUnsubscribe e tid t sub s) (osEventSubscribeUnsubscribe e' tid t sub s)"
  unfolding osEventSubscribeUnsubscribe_def by (intro below_intros)

lemma osEnqueuePrivateEvtEx_below [below_intros]:
  "ext_below e e' \<Longrightarrow> below (osEnqueuePrivateEvtEx e t d f to s) (osEnqueuePrivateEvtEx e' t d f to s)"
  unfolding osEnqueuePrivateEvtEx_def by (intro below_intros)

lemma osDefer_below [below_intros]: "ext_below e e' \<Longrightarrow> below (osDefer e cbk cookie urgent s) (osDefer e' cbk cookie urgent s)"
  unfolding osDefer_def by (intro below_intros)

lemma api_step_below [below_intros]:
  assumes "ext_below e e'"
  shows "below (api_step e op s) (api_step e' op s)"
  by (cases op; simp only: api_step.simps osEventSubscribe_def osEventUnsubscribe_def osEnqueueEvt_def osEnqueueEvtAsApp_def
      osEnqueuePrivateEvt_def osEnqueuePrivateEvtAsApp_def osFreeRetainedEvent_def)
    (intro below_intros assms)+

section \<open>Start and end of a task, and the main loop\<close>

lemma do_call_below [below_intros]: "ext_below e e' \<Longrightarrow> below (do_call e c s) (do_call e' c s)"
  unfolding do_call_def by (intro below_intros)

lemma osTaskEnd_below [below_intros]: "ext_below e e' \<Longrightarrow> below (osTaskEnd e i s) (osTaskEnd e' i s)"
  unfolding osTaskEnd_def by (intro below_intros)

lemma osUnloadApp_below [below_intros]: "ext_below e e' \<Longrightarrow> below (osUnloadApp e i s) (osUnloadApp e' i s)"
  unfolding osUnloadApp_def by (intro below_intros)

lemma osLoadApp_below [below_intros]: "ext_below e e' \<Longrightarrow> below (osLoadApp e app s) (osLoadApp e' app s)"
  unfolding osLoadApp_def by (intro below_intros)

lemma osStartApp_below [below_intros]: "ext_below e e' \<Longrightarrow> below (osStartApp e app s) (osStartApp e' app s)"
  unfolding osStartApp_def osTaskInit_def by (intro below_intros)

lemma osInternalEvtHandle_below [below_intros]:
  "ext_below e e' \<Longrightarrow> below (osInternalEvtHandle e t d s) (osInternalEvtHandle e' t d s)"
  unfolding osInternalEvtHandle_def handle_private_def by (intro below_intros)

lemma deliver_tasks_below [below_intros]:
  "ext_below e e' \<Longrightarrow> below (deliver_tasks n e i t d s) (deliver_tasks n e' i t d s)"
proof (induction n arbitrary: i s)
  case (Suc n)
  then show ?case unfolding deliver_tasks.simps by (intro below_intros)
qed (simp add: deliver_tasks.simps below_refl)

lemma osMainDequeueLoop_below [below_intros]:
  "ext_below e e' \<Longrightarrow> below (osMainDequeueLoop e rounds s) (osMainDequeueLoop e' rounds s)"
  unfolding osMainDequeueLoop_def dispatch_def Let_def by (intro below_intros)

section \<open>The runs\<close>

lemma run_calls_filtered: "ext_below e e' \<Longrightarrow> below (run_calls True e ops s) (run_api e' ops s)"
  by (induction ops arbitrary: s) (auto intro!: below_intros)

lemma run_calls_real: "ext_below e e' \<Longrightarrow> below (run_calls True e ops s) (run_calls False e' ops s)"
  by (induction ops arbitrary: s) (auto intro!: below_intros)

lemma app_calls_filtered: "ext_below (app_calls True n prog) (app_ext n prog)"
proof (induction n)
  case (Suc n)
  show ?case unfolding ext_below_def app_calls.simps app_ext.simps
    by (intro allI below_bind run_calls_filtered [OF Suc] below_refl)
qed (simp add: ext_below_def below_refl)

lemma app_calls_real: "ext_below (app_calls True n prog) (app_calls False n prog)"
proof (induction n)
  case (Suc n)
  show ?case unfolding ext_below_def app_calls.simps
    by (intro allI below_bind run_calls_real [OF Suc] below_refl)
qed (simp add: ext_below_def below_refl)

lemma call_by_filtered: "ext_below e e' \<Longrightarrow> below (call_by True e i op s) (call_as e' i op s)"
  unfolding call_by_def call_as_def by (intro below_intros run_calls_filtered)

lemma call_by_real: "ext_below e e' \<Longrightarrow> below (call_by True e i op s) (call_by False e' i op s)"
  unfolding call_by_def by (intro below_intros run_calls_real)

lemma sched_calls_filtered:
  assumes "ext_below e e'"
  shows "below (sched_calls True e ops s) (sched_run e' ops s)"
proof (induction ops arbitrary: s)
  case (Cons op ops)
  then show ?case by (cases op) (auto intro!: below_intros call_by_filtered assms)
qed (simp add: below_refl)

lemma sched_calls_real:
  assumes "ext_below e e'"
  shows "below (sched_calls True e ops s) (sched_calls False e' ops s)"
proof (induction ops arbitrary: s)
  case (Cons op ops)
  then show ?case by (cases op) (auto intro!: below_intros call_by_real assms)
qed (simp add: below_refl)

text \<open>What the applications really do is the run without the calls that break a rule, if there are none.\<close>

lemma real_run_filtered:
  "\<not> breaks_rule n prog ops s \<Longrightarrow> real_run n prog ops s = sched_run (app_ext n prog) ops s"
  using sched_calls_filtered [OF app_calls_filtered, of n prog ops s] sched_calls_real [OF app_calls_real, of n prog ops s]
  by (simp add: breaks_rule_def real_run_def below_def)

lemma real_reachable:
  assumes "boot_args base thingSz real freeF" and "boot base thingSz tid real t freeF addr = Inr (Some s0)"
    and "\<not> breaks_rule n prog ops s0" and "real_run n prog ops s0 = Inr s"
  shows "reachable n prog s"
  using assms(1,2,4) real_run_filtered [OF assms(3)] unfolding reachable_def by metis

text \<open>Applications and a system that only subscribe and defer break no rule.\<close>

fun harmless :: "api \<Rightarrow> bool" where
  "harmless (Subscribe t) = True"
| "harmless (Unsubscribe t) = True"
| "harmless (Defer cbk cookie urgent) = True"
| "harmless op = False"

fun harmless_op :: "sched_op \<Rightarrow> bool" where
  "harmless_op (Call i op) = harmless op"
| "harmless_op op = True"

lemma harmless_allowed: "harmless op \<Longrightarrow> allowed op s"
  by (cases op) simp_all

lemma harmless_calls: "list_all harmless ops \<Longrightarrow> run_calls True ext ops s = run_api ext ops s"
  by (induction ops arbitrary: s) (auto simp: harmless_allowed intro!: bindE_cong)

lemma harmless_ext:
  assumes "\<And>c l. list_all harmless (fst (prog c l))"
  shows "app_calls True n prog = app_ext n prog"
proof (induction n)
  case (Suc n)
  show ?case by (intro ext) (simp add: Suc harmless_calls [OF assms])
qed (intro ext, simp)

lemma harmless_run: "list_all harmless_op ops \<Longrightarrow> sched_calls True ext ops s = sched_run ext ops s"
proof (induction ops arbitrary: s)
  case (Cons op ops)
  then show ?case
    by (cases op) (auto simp: call_by_def call_as_def as_task_def harmless_allowed intro!: bindE_cong)
qed simp

lemma harmless_no_break:
  assumes "boot_args base thingSz real freeF" and "boot base thingSz tid real t freeF addr = Inr (Some s0)"
    and "\<And>c l. list_all harmless (fst (prog c l))" and "list_all harmless_op ops"
  shows "\<not> breaks_rule n prog ops s0"
  using sched_run_ok [OF app_ext_ok boot_sinv [OF assms(1,2)], of n prog ops]
  by (auto simp: breaks_rule_def harmless_ext [OF assms(3)] harmless_run [OF assms(4)])

text \<open>A step of what really happens: unless a rule is broken in it, it returns and has a property.\<close>

definition unless_broken :: "(bool \<Rightarrow> 'a res) \<Rightarrow> ('a \<Rightarrow> bool) \<Rightarrow> bool" where
  "unless_broken step P \<longleftrightarrow> step True = Inl RuleBroken \<or> (\<exists>s. step False = Inr s \<and> P s)"

lemma unless_brokenI:
  "below (step True) (Inr s) \<Longrightarrow> below (step True) (step False) \<Longrightarrow> P s \<Longrightarrow> unless_broken step P"
  by (auto simp: below_def unless_broken_def)

lemma round_unless_broken:
  assumes "osMainDequeueLoop (app_ext n prog) rounds s = Inr s'" and "P s'"
  shows "unless_broken (\<lambda>c. osMainDequeueLoop (app_calls c n prog) rounds s) P"
  using osMainDequeueLoop_below [OF app_calls_filtered, of n prog rounds s] osMainDequeueLoop_below [OF app_calls_real, of n prog rounds s]
    assms by (intro unless_brokenI [where s = s']) simp_all

lemma call_unless_broken:
  assumes "call_as (app_ext n prog) k op s = Inr s'" and "P s'"
  shows "unless_broken (\<lambda>c. call_by c (app_calls c n prog) k op s) P"
  using call_by_filtered [OF app_calls_filtered, of n prog k op s] call_by_real [OF app_calls_real, of n prog k op s]
    assms by (intro unless_brokenI [where s = s']) simp_all

lemma app_calls_0 [simp]: "app_calls checked 0 prog = app_ext 0 prog"
  by (intro ext) simp

section \<open>A rule that the code needs\<close>

text \<open>
  \<open>osRetainCurrentEvent\<close> in a deferred call takes the way to free the item of the call out of the main loop's
  hands: after the round the item is in use, and no event points to it.
\<close>

lemma retain_in_deferred_call:
  assumes "reachable n prog s" and "queue_ok (os_evts s) xs ((t, d, os_freeF s) # es)"
    and th: "os_things s d = Some (Deferred cbk cookie)"
  shows "\<exists>s' ys fs. osMainDequeueLoop (app_calls False 1 (\<lambda>_ _. ([Retain], True))) rounds s = Inr s' \<and>
    queue_ok (os_evts s') ys fs \<and> unat d \<in> fst ` slab_live (os_slab s') \<and> unat d \<notin> set (refs (os_freeF s') fs)"
proof -
  let ?e = "app_calls False 1 (\<lambda>_ _. ([Retain], True))"
  from take_event [OF reachable_queue [OF assms(1,2)], of rounds] obtain q' where
    q': "evtQueueDequeue True rounds (os_evts s) = Inr (Some (t, d, os_freeF s), q')" "sinv (s\<lparr>os_evts := q'\<rparr>) {unat d}"
      "in_hand (s\<lparr>os_evts := q'\<rparr>) (t, d, os_freeF s) {unat d}" by auto
  let ?s = "s\<lparr>os_evts := q'\<rparr>"
  from q'(3) th have ty: "EVENT_GET_EVENT t = EVT_DEFERRED_CALLBACK" by (simp add: in_hand_def event_ok_def)
  from dispatch_begin [OF q'(2,3), of ?e] obtain s1 where s1: "sinv (s1\<lparr>os_curFree := Some (os_freeF s)\<rparr>) {unat d}" "frame {unat d} ?s s1"
    and run: "dispatch ?e (t, d, os_freeF s) ?s =
      bindE (let s2 = s1\<lparr>os_curFree := Some (os_freeF s)\<rparr>
             in if EVENT_GET_EVENT t < EVT_NO_FIRST_USER_EVENT then osInternalEvtHandle ?e (EVENT_GET_EVENT t) d s2
                else deliver_tasks (Suc MAX_TASKS) ?e (tl_next (tp_tasks (os_pool s2))) (EVENT_GET_EVENT t) d s2) (\<lambda>s3.
      bindE (case os_curFree s3 of None \<Rightarrow> Inr s3 | Some _ \<Rightarrow> handleEventFreeing ?e (EVENT_GET_EVENT t) d (os_freeF s) s3) (\<lambda>s4.
        Inr (s4\<lparr>os_curFree := None\<rparr>)))" by blast
  have th1: "os_things s1 d = Some (Deferred cbk cookie)" using s1(2) th by (simp add: frame_def)
  let ?s3 = "s1\<lparr>os_log := os_log s1 @ [DeferredCbk cbk cookie], os_curFree := None\<rparr>"
  have "osInternalEvtHandle ?e EVT_DEFERRED_CALLBACK d (s1\<lparr>os_curFree := Some (os_freeF s)\<rparr>) = Inr ?s3"
    using th1 by (simp add: osInternalEvtHandle_def read_thing_def do_call_def call_ext_def osRetainCurrentEvent_def
        EVT_SUBSCRIBE_TO_EVT_def EVT_UNSUBSCRIBE_TO_EVT_def EVT_DEFERRED_CALLBACK_def EVT_APP_END_def)
  then have "dispatch ?e (t, d, os_freeF s) ?s = Inr ?s3"
    unfolding run ty by (simp add: EVT_DEFERRED_CALLBACK_def EVT_NO_FIRST_USER_EVENT_def)
  then have go: "osMainDequeueLoop ?e rounds s = Inr ?s3" using q'(1) by (simp add: osMainDequeueLoop_def)
  from s1(1) obtain ys fs where q: "queue_ok (os_evts s1) ys fs"
    and "things_ok (s1\<lparr>os_curFree := Some (os_freeF s)\<rparr>) fs {unat d}" by (auto simp: sinv_def invq_def)
  from this(2) have "unat d \<in> fst ` slab_live (os_slab s1)" "unat d \<notin> set (refs (os_freeF s1) fs)"
    by (auto simp: things_ok_def)
  with go q show ?thesis by (intro exI [of _ ?s3] exI [of _ ys] exI [of _ fs]) simp
qed

end
