(* ===== verification/Hub_SchedProps.thy ===== *)
theory Hub_SchedProps
  imports Hub_SchedRules
begin

text \<open>
  The properties of the scheduler: what holds in every state of a run from the boot, who gets an event, what
  starting an application does, and the count of the events under way.
\<close>

section \<open>A boot\<close>

text \<open>A heap of 20000 octets is enough for the queue and for the slab.\<close>

lemma osInit_some: "\<exists>q sl h. osInit 0x20000000 16 0 20000 0 = Inr (Some (q, sl, h)) \<and> slabAllocatorGetNumItems sl = 64"
  by (simp add: osInit_def heap_eval slab_eval evtQueueAlloc_def slabAllocatorGetNumItems_def)

lemma boot_some: "\<exists>s. boot 0x20000000 16 0 20000 0 0x8001 addr = Inr (Some s) \<and> slabAllocatorGetNumItems (os_slab s) = 64"
proof -
  obtain q sl h where o: "osInit 0x20000000 16 0 20000 0 = Inr (Some (q, sl, h))" "slabAllocatorGetNumItems sl = 64"
    using osInit_some by blast
  obtain p where p: "init_task_pool = Inr p" "pool_ok p [0..<MAX_TASKS] []" using init_ok by blast
  have "[0..<MAX_TASKS] = 0 # [1..<MAX_TASKS]" by (simp add: upt_conv_Cons MAX_TASKS_def)
  with alloc_some [of p 0 "[1..<MAX_TASKS]" "[]"] p(2) obtain p2 where "osAllocTask p = Inr (Some 0, p2)" by auto
  then show ?thesis by (simp add: boot_def o, unfold p(1)) (simp add: o(2))
qed

lemma boot_args_some: "boot_args 0x20000000 16 20000 0x8001"
  by (simp add: boot_args_def MAX_HEAP_ORDER_def TIDX_HEAP_BITS_def TASK_IDX_BITS_def TIDX_HEAP_EXTRA_def HN_def slab_fits_def slab_octets_def up_def taggedPtrIsPtr_def TAG_def)

section \<open>Every state of a run\<close>

lemma evts_fields [simp]: "sub_of (s\<lparr>os_evts := q\<rparr>) i = sub_of s i" "deliveries (s\<lparr>os_evts := q\<rparr>) = deliveries s"
  by (simp_all add: sub_of_def subs_arr_def deliveries_def split: subs_ptr.split)

lemma inv_lists: "sinv s H \<Longrightarrow> \<exists>fs ts. pool_ok (os_pool s) fs ts \<and> (\<forall>i \<in> set ts. tk_app (task_of s i) \<noteq> None)"
  using inv_still unfolding still_ok_def tasks_ok_def by blast


text \<open>C9. Who gets an event.  In every state of a run with an event of the applications at the head of the queue, a
  round hands it, with its data, to the running tasks that have subscribed to it and to no other, in the order in
  which they were started, whatever these do meanwhile; it changes nobody's subscriptions and no list of tasks.
  (Calls that break a rule are left out of these runs.)\<close>

theorem event_reaches_subscribers:
  assumes "reachable n prog s" and "queue_ok (os_evts s) xs ((t, d, f) # es)" and "f \<noteq> os_freeF s" and "pool_ok (os_pool s) fs ts"
  shows "\<exists>s'. osMainDequeueLoop (app_ext n prog) rounds s = Inr s' \<and>
    deliveries s' = deliveries s @
      map (\<lambda>i. AppHandle i (EVENT_GET_EVENT t) (Data d)) (filter (\<lambda>i. EVENT_GET_EVENT t \<in> set (sub_of s i)) ts) \<and>
    (\<forall>i < MAX_TASKS. sub_of s' i = sub_of s i) \<and> pool_ok (os_pool s') fs ts"
proof -
  from take_event [OF reachable_queue [OF assms(1,2)], of rounds] assms(3) obtain q' where
    q': "evtQueueDequeue True rounds (os_evts s) = Inr (Some (t, d, f), q')" "sinv (s\<lparr>os_evts := q'\<rparr>) {}"
      "in_hand (s\<lparr>os_evts := q'\<rparr>) (t, d, f) {}" by auto
  let ?s = "s\<lparr>os_evts := q'\<rparr>"
  obtain fs' ts' where "pool_ok (os_pool s) fs' ts'" "\<forall>i \<in> set ts'. tk_app (task_of s i) \<noteq> None"
    using inv_lists [OF reachable_sinv [OF assms(1)]] by blast
  then have apps: "\<forall>i \<in> set ts. tk_app (task_of ?s i) \<noteq> None" using running_unique [OF assms(4)] by auto
  have e: "event_ok ?s (t, d, f)" using q'(3) by (simp add: in_hand_def)
  have "f \<noteq> os_freeF ?s" "pool_ok (os_pool ?s) fs ts" using assms(3,4) by simp_all
  from dispatch_user [OF app_ext_ok q'(2) e this apps, of n prog] obtain s' where
    "dispatch (app_ext n prog) (t, d, f) ?s = Inr s'" "same_pool (os_pool ?s) (os_pool s')" "\<forall>i < MAX_TASKS. sub_of s' i = sub_of ?s i"
    "deliveries s' = deliveries ?s @
      map (\<lambda>i. AppHandle i (EVENT_GET_EVENT t) (Data d)) (filter (\<lambda>i. EVENT_GET_EVENT t \<in> set (sub_of ?s i)) ts)"
    by blast
  then show ?thesis using q'(1) same_pool_ok [OF assms(4), of "os_pool s'"]
    by (simp add: osMainDequeueLoop_def)
qed

text \<open>C10. When a subscription counts.  In every state of a run, and unless a rule of the interface is broken: a
  call of the scheduler leaves all subscriptions as they are; a round with an event of the scheduler at the head
  of the queue does what its item says to the subscriptions of the task it names, and nothing to those of the
  others.  A subscription that is there already changes nothing; one that is not comes behind the others exactly
  if the list has room or, when it is full, \<open>heapAlloc\<close> gives the running task the memory for a list half as
  long again and the size of that, in its eight bits, exceeds the count; it is dropped otherwise.  The end of a
  subscription puts the last one in its place.  A deferred call or a private event changes none.\<close>

theorem subscriptions_in_order:
  assumes "reachable n prog s" and "queue_ok (os_evts s) xs ((t, d, os_freeF s) # es)"
  shows "\<exists>th. os_things s d = Some th \<and>
    unless_broken (\<lambda>c. osMainDequeueLoop (app_calls c n prog) rounds s) (subs_after (EVENT_GET_EVENT t) th s) \<and>
    unless_broken (\<lambda>c. call_by c (app_calls c n prog) k op s) (\<lambda>s1. \<forall>i < MAX_TASKS. sub_of s1 i = sub_of s i)"
proof -
  note i = reachable_sinv [OF assms(1)]
  from take_event [OF reachable_queue [OF assms], of rounds] obtain q' where
    q': "evtQueueDequeue True rounds (os_evts s) = Inr (Some (t, d, os_freeF s), q')" "sinv (s\<lparr>os_evts := q'\<rparr>) {unat d}"
      "in_hand (s\<lparr>os_evts := q'\<rparr>) (t, d, os_freeF s) {unat d}" by auto
  let ?s = "s\<lparr>os_evts := q'\<rparr>"
  obtain th where th: "os_things s d = Some th" using q'(3) by (auto simp: in_hand_def event_ok_def)
  with dispatch_internal [OF app_ext_ok q'(2), of t d th n prog] q'(3) obtain s' where
    s': "dispatch (app_ext n prog) (t, d, os_freeF s) ?s = Inr s'" "subs_after (EVENT_GET_EVENT t) th ?s s'" by auto
  from call_as_ok [OF app_ext_ok i, of n prog k op] obtain s1 where s1: "call_as (app_ext n prog) k op s = Inr s1" "frame {} s s1" by blast
  have "\<forall>i < MAX_TASKS. sub_of s1 i = sub_of s i" using frame_sub_of [OF s1(2) inv_still [OF i]] by blast
  note call = call_unless_broken [of n prog k op s s1 "\<lambda>s1. \<forall>i < MAX_TASKS. sub_of s1 i = sub_of s i", OF s1(1) this]
  have "subs_after (EVENT_GET_EVENT t) th s s'" using s'(2) by (rule subs_after_cong [rotated 2]) (simp_all add: subs_same_def)
  moreover have "osMainDequeueLoop (app_ext n prog) rounds s = Inr s'" using q'(1) s'(1) by (simp add: osMainDequeueLoop_def)
  ultimately have "unless_broken (\<lambda>c. osMainDequeueLoop (app_calls c n prog) rounds s) (subs_after (EVENT_GET_EVENT t) th s)"
    by (intro round_unless_broken)
  with th call show ?thesis by (intro exI [of _ th] conjI)
qed

text \<open>C12. A start of an application.  In every state of a run, without a free slot nothing happens.  Otherwise the
  application gets the first free slot, without subscriptions; the other slots keep their ID, application and
  subscriptions.  If it starts, its task is the last of the running ones and has the ID after the slot's last
  one; if it refuses, its slot is the last of the free ones.
  (Calls that break a rule are left out of these runs.)\<close>

theorem start_application:
  assumes "reachable n prog s" and "pool_ok (os_pool s) fs ts"
  shows "case fs of
     [] \<Rightarrow> osStartApp (app_ext n prog) app s = Inr (False, s)
   | i # fs' \<Rightarrow> \<exists>b s'. osStartApp (app_ext n prog) app s = Inr (b, s') \<and> tk_app (task_of s' i) = Some app \<and> sub_of s' i = [] \<and>
       (\<forall>j < MAX_TASKS. j \<noteq> i \<longrightarrow> tk_tid (task_of s' j) = tk_tid (task_of s j) \<and> tk_app (task_of s' j) = tk_app (task_of s j) \<and>
          sub_of s' j = sub_of s j) \<and>
       (if b then pool_ok (os_pool s') fs' (ts @ [i]) \<and> tk_tid (task_of s' i) = tk_tid (MAKE_NEW_TID i (task_of s i))
        else pool_ok (os_pool s') (fs' @ [i]) ts)"
proof -
  note i = reachable_sinv [OF assms(1)]
  obtain fs' ts' st where p: "pool_ok (os_pool s) fs' ts'" "\<forall>i \<in> set ts'. tk_app (task_of s i) \<noteq> None"
    "\<And>k. k < MAX_TASKS \<Longrightarrow> tk_tid (task_of s k) = tid_of (st k) k" using inv_pool [OF i] by blast
  have "\<forall>i \<in> set ts. tk_app (task_of s i) \<noteq> None" using running_unique [OF assms(2) p(1)] p(2) by simp
  note start = start_ok [OF app_ext_ok i assms(2) this p(3), of n prog app]
  show ?thesis
  proof (cases fs)
    case Nil
    then show ?thesis using start by simp
  next
    case (Cons j fs')
    then have j: "j < MAX_TASKS" using assms(2) by (auto simp: pool_ok_def)
    then have "tk_tid (MAKE_NEW_TID j (task_of s j)) = tid_of (Suc (st j)) j"
      using MAKE_NEW_TID_of [of j "task_of s j" "st j"] p(3) by (simp add: MAX_TASKS_def)
    moreover from start Cons obtain b s' m where s': "osStartApp (app_ext n prog) app s = Inr (b, s')"
      "tk_app (task_of s' j) = Some app" "sub_of s' j = []" "tk_tid (task_of s' j) = tid_of m j"
      "\<forall>k < MAX_TASKS. k \<noteq> j \<longrightarrow> tk_tid (task_of s' k) = tid_of (st k) k \<and> tk_app (task_of s' k) = tk_app (task_of s k) \<and> sub_of s' k = sub_of s k"
      "if b then pool_ok (os_pool s') fs' (ts @ [j]) \<and> m = Suc (st j) else pool_ok (os_pool s') (fs' @ [j]) ts \<and> m \<in> {st j, Suc (st j)}"
      by auto
    ultimately show ?thesis using p(3) unfolding Cons list.case
      by (intro exI [of _ b] exI [of _ s']) (auto split: if_splits)
  qed
qed

section \<open>Sending with room in the queue\<close>

lemma eq_cap_discarded [simp]: "eq_cap (q\<lparr>eq_discarded := l\<rparr>) = eq_cap q"
  by (simp add: eq_cap_def)

lemma os_enqueue_room:
  assumes q: "queue_ok (os_evts s) xs es" and room: "length es < eq_cap (os_evts s)"
  shows "\<exists>q' ys. os_enqueue ext e atFront s = Inr (True, s\<lparr>os_evts := q'\<rparr>) \<and> queue_ok q' ys (put e atFront es) \<and> eq_cap q' = eq_cap (os_evts s)"
proof -
  have "queue_ok ((os_evts s)\<lparr>eq_discarded := []\<rparr>) xs es" using q by simp
  from enqueue_ok [OF this, of e atFront] room obtain q' ys where
    q': "evtQueueEnqueue (Some ((os_evts s)\<lparr>eq_discarded := []\<rparr>)) e atFront = Inr (True, Some q')" "queue_ok q' ys (put e atFront es)"
      "eq_cap q' = eq_cap (os_evts s)" "eq_discarded q' = []"
    by (auto simp: enqueue_spec_def)
  then show ?thesis by (auto simp: os_enqueue_def)
qed

definition count_up :: "nat \<Rightarrow> int \<Rightarrow> os \<Rightarrow> os" where
  "count_up i delta s =
     s\<lparr>os_pool := (os_pool s)\<lparr>tp_data := (tp_data (os_pool s))[i := tk_ioCount_update (\<lambda>c. c + word_of_int delta) (task_of s i)]\<rparr>\<rparr>"

lemma count_up_fields [simp]: "os_evts (count_up i n s) = os_evts s" "os_currentTask (count_up i n s) = os_currentTask s"
  by (simp_all add: count_up_def)

lemma pool_length: "still_ok s \<Longrightarrow> length (tp_data (os_pool s)) = MAX_TASKS"
  using tasks_ok_pool by (simp add: still_ok_def)

lemma count_up_run: "still_ok s \<Longrightarrow> i < MAX_TASKS \<Longrightarrow> osTaskAddIoCount i delta s = Inr (count_up i delta s)"
  using pool_length by (simp add: osTaskAddIoCount_def set_task_def pool_update_def count_up_def)

lemma enqueue_room:
  assumes st: "still_ok s" and c: "os_currentTask s < MAX_TASKS" and q: "queue_ok (os_evts s) xs es" and room: "length es < eq_cap (os_evts s)"
    and run: "tk_flags (task_of s (os_currentTask s)) AND FL_TASK_STOPPED = 0"
  shows "\<exists>q' ys. osEnqueueEvtCommon ext t d f s = Inr (True, (count_up (os_currentTask s) 1 s)\<lparr>os_evts := q'\<rparr>) \<and>
    queue_ok q' ys (es @ [(EVENT_WITH_ORIGIN t (ucast (tk_tid (task_of s (os_currentTask s)))), d, f)]) \<and> eq_cap q' = eq_cap (os_evts s)"
proof -
  let ?i = "os_currentTask s" and ?tid = "ucast (tk_tid (task_of s (os_currentTask s))) :: u32"
  from os_enqueue_room [of "count_up ?i 1 s" xs es ext "(EVENT_WITH_ORIGIN t ?tid, d, f)" False] q room obtain q' ys where
    "os_enqueue ext (EVENT_WITH_ORIGIN t ?tid, d, f) False (count_up ?i 1 s) = Inr (True, (count_up ?i 1 s)\<lparr>os_evts := q'\<rparr>)"
    "queue_ok q' ys (es @ [(EVENT_WITH_ORIGIN t ?tid, d, f)])" "eq_cap q' = eq_cap (os_evts s)" by (auto simp: put_def)
  then show ?thesis using get_task_ok [OF st c] count_up_run [OF st c] run
    by (auto simp: osEnqueueEvtCommon_def osTaskTestFlags_def osGetCurrentTid_def)
qed

section \<open>The count of the events under way\<close>

text \<open>Applications that make no calls.\<close>

lemma deliver_quiet: "deliver_tasks n (app_ext 0 prog) i t d s = Inr s' \<Longrightarrow> os_pool s' = os_pool s"
proof (induction n arbitrary: i s)
  case 0
  then show ?case by (simp add: deliver_tasks.simps)
next
  case (Suc n)
  show ?case
  proof (cases "osTaskByIdx i")
    case None
    then show ?thesis using Suc.prems by (simp add: deliver_tasks.simps)
  next
    case (Some k)
    then obtain w s1 j where w: "(if w then osTaskHandle (app_ext 0 prog) k t (Data d) s else Inr s) = Inr s1"
      and s': "deliver_tasks n (app_ext 0 prog) j t d s1 = Inr s'"
      using Suc.prems by (auto simp: deliver_tasks.simps res simp del: app_ext.simps)
    have "os_pool s1 = os_pool s"
      using w by (auto simp: osTaskHandle_def as_task_def app_call_def call_ext_def res split: if_splits option.splits)
    then show ?thesis using Suc.IH [OF s'] by simp
  qed
qed

lemma round_quiet:
  assumes i: "sinv s {}" and q: "queue_ok (os_evts s) xs ((t, d, 0) # es)" and t: "EVT_NO_FIRST_USER_EVENT \<le> EVENT_GET_EVENT t"
  shows "\<exists>s'. osMainDequeueLoop (app_ext 0 prog) rounds s = Inr s' \<and> os_pool s' = os_pool (count_up 0 (-1) s)"
proof -
  have "0 \<noteq> os_freeF s" using inv_still [OF i] by (auto simp: still_ok_def tasks_ok_def)
  moreover have "invq s {} ((t, d, 0) # es)" using i queue_unique [OF q] by (auto simp: sinv_def invq_def)
  ultimately obtain q' where q': "evtQueueDequeue True rounds (os_evts s) = Inr (Some (t, d, 0), q')" "sinv (s\<lparr>os_evts := q'\<rparr>) {}"
    "in_hand (s\<lparr>os_evts := q'\<rparr>) (t, d, 0) {}" using take_event [of s t d 0 es rounds] by auto
  let ?s = "s\<lparr>os_evts := q'\<rparr>" and ?e = "app_ext 0 prog"
  from round_ok [OF app_ext_ok i, of 0 prog rounds] queue_head [OF q] obtain s' where "osMainDequeueLoop ?e rounds s = Inr s'" by auto
  then have run: "osMainDequeueLoop ?e rounds s = Inr s'" "dispatch ?e (t, d, 0) ?s = Inr s'"
    using q'(1) by (simp_all add: osMainDequeueLoop_def)
  from dispatch_begin [OF q'(2,3), of ?e] t obtain s1 where s1: "osTaskAddIoCount 0 (-1) ?s = Inr s1"
    "dispatch ?e (t, d, 0) ?s =
      bindE (deliver_tasks (Suc MAX_TASKS) ?e (tl_next (tp_tasks (os_pool s1))) (EVENT_GET_EVENT t) d (s1\<lparr>os_curFree := Some 0\<rparr>)) (\<lambda>s3.
      bindE (case os_curFree s3 of None \<Rightarrow> Inr s3 | Some _ \<Rightarrow> handleEventFreeing ?e (EVENT_GET_EVENT t) d 0 s3) (\<lambda>s4.
        Inr (s4\<lparr>os_curFree := None\<rparr>)))" by (auto simp: Let_def not_less [symmetric])
  from iffD1 [OF bindE_eq_Inr run(2) [unfolded s1(2)]] obtain s3 where
    s3: "deliver_tasks (Suc MAX_TASKS) ?e (tl_next (tp_tasks (os_pool s1))) (EVENT_GET_EVENT t) d (s1\<lparr>os_curFree := Some 0\<rparr>) = Inr s3"
    and fin: "bindE (case os_curFree s3 of None \<Rightarrow> Inr s3 | Some _ \<Rightarrow> handleEventFreeing ?e (EVENT_GET_EVENT t) d 0 s3) (\<lambda>s4.
        Inr (s4\<lparr>os_curFree := None\<rparr>)) = Inr s'"
    by blast
  have "s1 = count_up 0 (-1) ?s" using s1(1) count_up_run [OF inv_still [OF q'(2)], of 0 "-1"] by (simp add: MAX_TASKS_def)
  then have pool: "os_pool s3 = os_pool (count_up 0 (-1) s)" using deliver_quiet [OF s3] by (simp add: count_up_def)
  have free: "handleEventFreeing ?e (EVENT_GET_EVENT t) d 0 s3 = Inr s3"
    by (simp add: handleEventFreeing_def taggedPtrIsPtr_def taggedPtrToUint_def)
  have "s' = s3\<lparr>os_curFree := None\<rparr>" using fin unfolding free by (cases "os_curFree s3") simp_all
  then have "os_pool s' = os_pool s3" by simp
  with run(1) pool show ?thesis by auto
qed

text \<open>A call of a task that is not stopped, for an event of the applications that nobody frees.\<close>

lemma call_enqueue:
  assumes i: "sinv s {}" and q: "queue_ok (os_evts s) xs es" and room: "length es < eq_cap (os_evts s)" and k: "k < MAX_TASKS"
    and run: "tk_flags (task_of s k) AND FL_TASK_STOPPED = 0" and t: "EVT_NO_FIRST_USER_EVENT \<le> EVENT_GET_EVENT t"
  shows "\<exists>q' ys. call_as ext k (Enqueue t d 0) s = Inr ((count_up k 1 s)\<lparr>os_evts := q'\<rparr>) \<and>
    queue_ok q' ys (es @ [(EVENT_WITH_ORIGIN t (ucast (tk_tid (task_of s k))), d, 0)]) \<and> eq_cap q' = eq_cap (os_evts s)"
proof -
  let ?s = "s\<lparr>os_currentTask := k\<rparr>"
  have st: "still_ok ?s" using inv_still [OF inv_current [OF i k]] .
  then have "0 \<noteq> os_freeF s" by (auto simp: still_ok_def tasks_ok_def)
  then have "allowed (Enqueue t d 0) ?s" using t by (simp add: info_ok_def taggedPtrIsPtr_def)
  moreover from enqueue_room [OF st, of xs es ext t d 0] k q room run obtain q' ys where
    "osEnqueueEvtCommon ext t d 0 ?s = Inr (True, (count_up k 1 ?s)\<lparr>os_evts := q'\<rparr>)"
    "queue_ok q' ys (es @ [(EVENT_WITH_ORIGIN t (ucast (tk_tid (task_of s k))), d, 0)])" "eq_cap q' = eq_cap (os_evts s)" by auto
  ultimately show ?thesis using k by (auto simp: call_as_def as_task_def osEnqueueEvt_def count_up_def)
qed

text \<open>C13. The count of the events under way.  In every state of a run with an empty queue, a task other than the
  system's that is not stopped sends an event, and a round hands it over to applications that make no calls: the
  sender's count is one higher than before, and the count of the system's task one lower.\<close>

theorem io_count_of_the_sender:
  assumes "reachable n prog s" and "eq_head (os_evts s) = None" and "0 < eq_cap (os_evts s)" and "0 < i" and "i < MAX_TASKS"
    and "tk_flags (task_of s i) AND FL_TASK_STOPPED = 0" and "EVT_NO_FIRST_USER_EVENT \<le> EVENT_GET_EVENT t"
  shows "\<exists>s1 s2. call_as (app_ext 0 prog) i (Enqueue t d 0) s = Inr s1 \<and> osMainDequeueLoop (app_ext 0 prog) rounds s1 = Inr s2 \<and>
    tk_ioCount (task_of s2 i) = tk_ioCount (task_of s i) + 1 \<and> tk_ioCount (task_of s2 0) = tk_ioCount (task_of s 0) - 1"
proof -
  note inv = reachable_sinv [OF assms(1)]
  obtain xs es where "queue_ok (os_evts s) xs es" using inv by (auto simp: sinv_def invq_def)
  then have q: "queue_ok (os_evts s) xs []" using queue_head assms(2) by metis
  from call_enqueue [OF inv q _ assms(5,6,7), of "app_ext 0 prog" d] assms(3) obtain q' ys where
    s1: "call_as (app_ext 0 prog) i (Enqueue t d 0) s = Inr ((count_up i 1 s)\<lparr>os_evts := q'\<rparr>)"
    "queue_ok q' ys [(EVENT_WITH_ORIGIN t (ucast (tk_tid (task_of s i))), d, 0)]" by auto
  let ?s1 = "(count_up i 1 s)\<lparr>os_evts := q'\<rparr>"
  have "sinv ?s1 {}" using call_as_ok [OF app_ext_ok inv, of 0 prog i "Enqueue t d 0"] s1(1) by simp
  from round_quiet [OF this, of ys "EVENT_WITH_ORIGIN t (ucast (tk_tid (task_of s i)))" d "[]" prog rounds] s1(2) assms(7) obtain s2 where
    "osMainDequeueLoop (app_ext 0 prog) rounds ?s1 = Inr s2" "os_pool s2 = os_pool (count_up 0 (-1) ?s1)" by auto
  then show ?thesis using s1(1) pool_length [OF inv_still [OF inv]] assms(4,5) by (simp add: count_up_def MAX_TASKS_def)
qed

section \<open>From a subscription to the event\<close>

lemma new_thing_room:
  assumes "things_ok s [] {}" and "0 < unat (slabAllocatorGetNumItems (os_slab s))"
  shows "\<exists>a sl. new_thing th s = (Some a, s\<lparr>os_slab := sl, os_things := (os_things s)(a \<mapsto> th)\<rparr>)"
proof -
  have "slab_ok (os_slab s)" and live: "slab_live (os_slab s) = {}" using assms(1) by (auto simp: things_ok_def)
  obtain p sl where al: "slabAllocatorAlloc (os_slab s) = (p, sl)" by fastforce
  with slab_alloc_live [OF \<open>slab_ok (os_slab s)\<close> al] assms(2) live show ?thesis by (cases p) (auto simp: new_thing_def)
qed

lemma empty_queue:
  assumes "sinv s {}" and "eq_head (os_evts s) = None"
  obtains xs where "queue_ok (os_evts s) xs []" and "things_ok s [] {}"
proof -
  obtain xs es where q: "queue_ok (os_evts s) xs es" "things_ok s es {}" using assms(1) unfolding sinv_def invq_def by blast
  moreover have "es = []" using queue_head [OF q(1)] assms(2) by simp
  ultimately show thesis using that by simp
qed

text \<open>The call of a task that subscribes, with room in the slab and in the empty queue.\<close>

lemma call_subscribe:
  assumes i: "sinv s {}" and e: "eq_head (os_evts s) = None" and room: "0 < eq_cap (os_evts s)" "0 < unat (slabAllocatorGetNumItems (os_slab s))"
    and k: "k < MAX_TASKS" and run: "tk_flags (task_of s k) AND FL_TASK_STOPPED = 0"
  shows "\<exists>s1 ys act t. call_as ext k (Subscribe evt) s = Inr s1 \<and> queue_ok (os_evts s1) ys [(t, act, os_freeF s1)] \<and>
    EVENT_GET_EVENT t = EVT_SUBSCRIBE_TO_EVT \<and> os_things s1 act = Some (EvtSub (ucast (tk_tid (task_of s k))) evt)"
proof -
  let ?s = "s\<lparr>os_currentTask := k\<rparr>" and ?tid = "ucast (tk_tid (task_of s k)) :: u32"
  have st: "still_ok ?s" using inv_still [OF inv_current [OF i k]] .
  have tid: "osGetCurrentTid ?s = Inr ?tid" using get_task_ok [OF st k] by (simp add: osGetCurrentTid_def)
  obtain xs where q: "queue_ok (os_evts s) xs []" "things_ok s [] {}" using empty_queue [OF i e] .
  have "things_ok ?s [] {}" using q(2) by (simp add: things_ok_def)
  from new_thing_room [OF this, of "EvtSub ?tid evt"] room(2) obtain act sl where
    n: "new_thing (EvtSub ?tid evt) ?s = (Some act, ?s\<lparr>os_slab := sl, os_things := (os_things s)(act \<mapsto> EvtSub ?tid evt)\<rparr>)" by auto
  let ?t = "?s\<lparr>os_slab := sl, os_things := (os_things s)(act \<mapsto> EvtSub ?tid evt)\<rparr>"
  have "thing_ok ?s EVT_SUBSCRIBE_TO_EVT (EvtSub ?tid evt)" by simp
  from new_thing_ok [OF inv_current [OF i k] this] n have "sinv ?t {unat act}" by simp
  from enqueue_room [OF inv_still [OF this], of xs "[]" ext EVT_SUBSCRIBE_TO_EVT act "os_freeF s"] k q(1) room(1) run obtain q' ys where
    "osEnqueueEvtCommon ext EVT_SUBSCRIBE_TO_EVT act (os_freeF s) ?t = Inr (True, (count_up k 1 ?t)\<lparr>os_evts := q'\<rparr>)"
    "queue_ok q' ys [(EVENT_WITH_ORIGIN EVT_SUBSCRIBE_TO_EVT ?tid, act, os_freeF s)]" by auto
  then show ?thesis using k tid n
    by (intro exI [of _ "(count_up k 1 ?t)\<lparr>os_evts := q', os_currentTask := os_currentTask s\<rparr>"] exI [of _ ys] exI [of _ act]
        exI [of _ "EVENT_WITH_ORIGIN EVT_SUBSCRIBE_TO_EVT ?tid"])
      (simp add: call_as_def as_task_def osEventSubscribe_def osEventSubscribeUnsubscribe_def osEnqueueEvtOrFree_def osEnqueueEvt_def count_up_def)
qed


section \<open>A first application\<close>

text \<open>Applications that accept everything and make no calls.\<close>

definition silent :: prog where
  "silent = (\<lambda>_ _. ([], True))"

definition some_app :: app_hdr where
  "some_app = \<lparr>ah_appId = 7, ah_fwFlags = 0, ah_appVer = 1, ah_rel_end = 0\<rparr>"

lemma call_silent: "call_ext (app_ext 0 silent) c s = Inr (True, s\<lparr>os_log := os_log s @ [c]\<rparr>)"
  by (simp add: call_ext_def silent_def)

lemma start_silent:
  assumes pool: "pool_ok (os_pool s) (i # fs) ts" and n: "tk_tid (task_of s i) = tid_of n i"
  shows "\<exists>s'. osStartApp (app_ext 0 silent) app s = Inr (True, s') \<and> os_evts s' = os_evts s \<and> os_slab s' = os_slab s \<and>
    pool_ok (os_pool s') fs (ts @ [i]) \<and> tk_flags (task_of s' i) = 0 \<and> tk_tid (task_of s' i) = tid_of (Suc n) i \<and>
    tk_subbedEvtCount (task_of s' i) = 0 \<and> tk_subbedEvtListSz (task_of s' i) = word_of_nat MAX_EMBEDDED_EVT_SUBS"
proof -
  have il: "i < MAX_TASKS" and ni: "i \<notin> set (fs @ ts)" using pool by (auto simp: pool_ok_def)
  from alloc_some [OF pool] obtain p where p: "osAllocTask (os_pool s) = Inr (Some i, p)" "pool_ok p fs ts"
    "tbody p = (tbody (os_pool s))(i := tk_list_update (\<lambda>_. list_init) (task_zero\<lparr>tk_tid := tk_tid (task_of s i)\<rparr>))" by blast
  have b: "tk_tid (tp_data p ! i) = tid_of n i" "tk_flags (tp_data p ! i) = 0" "tk_subbedEvtCount (tp_data p ! i) = 0"
    using tbody_fields [of p i] p(3) n by (simp_all add: task_zero_def)
  let ?f = "\<lambda>t. MAKE_NEW_TID i (t\<lparr>tk_subbedEvtListSz := word_of_nat MAX_EMBEDDED_EVT_SUBS, tk_subbedEvents := SubsInt\<rparr>)"
  from body_write_ok [OF p(2) il, of "tk_app_update (\<lambda>_. Some app)"] obtain p1 where
    p1: "pool_update i (tk_app_update (\<lambda>_. Some app)) p = Inr p1" "pool_ok p1 fs ts"
      "tp_data p1 = (tp_data p)[i := tk_app_update (\<lambda>_. Some app) (tp_data p ! i)]" by auto
  from body_write_ok [OF p1(2) il, of ?f] ni obtain p2 where
    p2: "pool_update i ?f p1 = Inr p2" "pool_ok p2 fs ts" "tp_data p2 = (tp_data p1)[i := ?f (tp_data p1 ! i)]" by auto
  from add_task_ok [OF p2(2) il ni] obtain p3 where p3: "osAddTask i p2 = Inr p3" "pool_ok p3 fs (ts @ [i])" "tbody p3 = tbody p2" by blast
  have len: "length (tp_data p) = MAX_TASKS" "length (tp_data p1) = MAX_TASKS" "length (tp_data p2) = MAX_TASKS"
    using p(2) p1(2) p2(2) by (simp_all add: pool_ok_def)
  define t where "t = tp_data p1 ! i"
  have t: "tk_tid t = tid_of n i" "tk_flags t = 0" "tk_subbedEvtCount t = 0" "tk_app t = Some app"
    using p1(3) len il b by (simp_all add: t_def)
  have two: "tp_data p2 ! i = t\<lparr>tk_subbedEvtListSz := word_of_nat MAX_EMBEDDED_EVT_SUBS, tk_subbedEvents := SubsInt, tk_tid := tid_of (Suc n) i\<rparr>"
  proof -
    have "i < 256" using il by (simp add: MAX_TASKS_def)
    from MAKE_NEW_TID_of [OF this, of "t\<lparr>tk_subbedEvtListSz := word_of_nat MAX_EMBEDDED_EVT_SUBS, tk_subbedEvents := SubsInt\<rparr>" n] t(1)
    show ?thesis using p2(3) len il by (simp add: t_def)
  qed
  have get: "get_task i u = Inr (tp_data p2 ! i)" if "os_pool u = p2" for u
    using that len il by (simp add: get_task_def)
  have load: "osLoadApp (app_ext 0 silent) app s =
      Inr (Some i, s\<lparr>os_pool := p1, os_log := os_log s @ [if ah_fwFlags app AND FL_APP_HDR_INTERNAL \<noteq> 0 then InternalAppLoad i else AppLoad i]\<rparr>)"
    using p(1) p1(1) by (simp add: osLoadApp_def set_task_def call_silent)
  have three: "tk_flags (tp_data p3 ! i) = tk_flags (tp_data p2 ! i)" "tk_tid (tp_data p3 ! i) = tk_tid (tp_data p2 ! i)"
    "tk_subbedEvtCount (tp_data p3 ! i) = tk_subbedEvtCount (tp_data p2 ! i)" "tk_subbedEvtListSz (tp_data p3 ! i) = tk_subbedEvtListSz (tp_data p2 ! i)"
    using tbody_fields [of p3 i] tbody_fields [of p2 i] p3(3) by simp_all
  have "osStartApp (app_ext 0 silent) app s = Inr (True, s\<lparr>os_log := os_log s @
      [if ah_fwFlags app AND FL_APP_HDR_INTERNAL \<noteq> 0 then InternalAppLoad i else AppLoad i, AppInit i (tid_of (Suc n) i)], os_pool := p3\<rparr>)"
    using p2(1) p3(1) t two by (simp add: get osStartApp_def load set_task_def osTaskInit_def as_task_def app_call_def call_silent)
  then show ?thesis using p3(2) two t three by auto
qed

text \<open>A run with one application.\<close>

lemma first_start:
  "\<exists>s. reachable 0 silent s \<and> eq_head (os_evts s) = None \<and> eq_cap (os_evts s) = 512 \<and> slabAllocatorGetNumItems (os_slab s) = 64 \<and>
     pool_ok (os_pool s) [2..<MAX_TASKS] [1] \<and> tk_flags (task_of s 1) = 0 \<and> tk_tid (task_of s 1) = 257 \<and>
     tk_subbedEvtCount (task_of s 1) = 0 \<and> tk_subbedEvtListSz (task_of s 1) = 6"
proof -
  obtain s0 where s0: "boot 0x20000000 16 0 20000 0 0x8001 (\<lambda>_. 0) = Inr (Some s0)" "slabAllocatorGetNumItems (os_slab s0) = 64"
    using boot_some by blast
  note B = boot_ok [OF boot_args_some s0(1)]
  have "[1..<MAX_TASKS] = 1 # [2..<MAX_TASKS]" by (simp add: upt_conv_Cons MAX_TASKS_def)
  then have pool: "pool_ok (os_pool s0) (1 # [2..<MAX_TASKS]) []" using B by simp
  have "tk_tid (task_of s0 1) = tid_of 0 1" using B by (simp add: tid_of_def MAX_TASKS_def)
  from start_silent [OF pool this, of some_app] obtain s where s: "osStartApp (app_ext 0 silent) some_app s0 = Inr (True, s)"
    "os_evts s = os_evts s0" "os_slab s = os_slab s0" "pool_ok (os_pool s) [2..<MAX_TASKS] [1]" "tk_flags (task_of s 1) = 0"
    "tk_tid (task_of s 1) = tid_of (Suc 0) 1" "tk_subbedEvtCount (task_of s 1) = 0"
    "tk_subbedEvtListSz (task_of s 1) = word_of_nat MAX_EMBEDDED_EVT_SUBS" by auto
  have "reachable 0 silent s0" using boot_args_some s0(1) unfolding reachable_def by (metis sched_run.simps(1))
  from reachable_step [OF this, of "[Start some_app]" s] s(1) have "reachable 0 silent s" by simp
  moreover obtain xs where "queue_ok (os_evts s0) xs []" using B by (auto simp: invq_def)
  then have "eq_head (os_evts s) = None" using queue_head s(2) by metis
  ultimately show ?thesis using s B s0(2) by (auto simp: tid_of_def MAX_EMBEDDED_EVT_SUBS_def)
qed

section \<open>The properties at work\<close>


theorem start_application_witness:
  "\<exists>s b s'. reachable 0 silent s \<and> osStartApp (app_ext 0 silent) some_app s = Inr (b, s') \<and> tk_app (task_of s' 2) = Some some_app \<and>
     (if b then pool_ok (os_pool s') [3..<MAX_TASKS] [1, 2] else pool_ok (os_pool s') ([3..<MAX_TASKS] @ [2]) [1])"
proof -
  obtain s where s: "reachable 0 silent s" "pool_ok (os_pool s) [2..<MAX_TASKS] [1]" using first_start by blast
  have "[2..<MAX_TASKS] = 2 # [3..<MAX_TASKS]" by (simp add: upt_conv_Cons MAX_TASKS_def)
  with start_application [OF s(1), of "2 # [3..<MAX_TASKS]" "[1]" some_app] s obtain b s' where
    "osStartApp (app_ext 0 silent) some_app s = Inr (b, s')" "tk_app (task_of s' 2) = Some some_app"
    "if b then pool_ok (os_pool s') [3..<MAX_TASKS] ([1] @ [2]) else pool_ok (os_pool s') ([3..<MAX_TASKS] @ [2]) [1]"
    by (auto split: if_splits)
  then show ?thesis using s(1) by (metis append_Cons append_Nil)
qed

theorem event_reaches_subscribers_witness:
  "\<exists>s s'. reachable 0 silent s \<and> pool_ok (os_pool s) [2..<MAX_TASKS] [1] \<and> osMainDequeueLoop (app_ext 0 silent) [] s = Inr s' \<and>
     deliveries s' = deliveries s @ map (\<lambda>i. AppHandle i 0x300 (Data 5)) (filter (\<lambda>i. 0x300 \<in> set (sub_of s i)) [1])"
proof -
  obtain s where s: "reachable 0 silent s" "eq_head (os_evts s) = None" "eq_cap (os_evts s) = 512" "pool_ok (os_pool s) [2..<MAX_TASKS] [1]"
    "tk_flags (task_of s 1) = 0" using first_start by blast
  note inv = reachable_sinv [OF s(1)]
  have t: "EVENT_GET_EVENT 0x300 = 0x300" by (simp add: EVENT_GET_EVENT_def EVT_MASK_def EVENT_TYPE_BIT_DISCARDABLE_def)
  obtain xs where q: "queue_ok (os_evts s) xs []" using empty_queue [OF inv s(2)] by blast
  from call_enqueue [OF inv q, of 1 "0x300" "app_ext 0 silent" 5] s(3,5) t obtain q' ys where
    c: "call_as (app_ext 0 silent) 1 (Enqueue 0x300 5 0) s = Inr ((count_up 1 1 s)\<lparr>os_evts := q'\<rparr>)"
      "queue_ok q' ys [(EVENT_WITH_ORIGIN 0x300 (ucast (tk_tid (task_of s 1))), 5, 0)]"
    by (auto simp: MAX_TASKS_def EVT_NO_FIRST_USER_EVENT_def)
  let ?s = "(count_up 1 1 s)\<lparr>os_evts := q'\<rparr>"
  have r: "reachable 0 silent ?s" using reachable_step [OF s(1), of "[Call 1 (Enqueue 0x300 5 0)]" ?s] c(1) by simp
  have f: "frame {} s ?s" using call_as_ok [OF app_ext_ok inv, of 0 silent 1 "Enqueue 0x300 5 0"] c(1) by simp
  then have p: "pool_ok (os_pool ?s) [2..<MAX_TASKS] [1]" using same_pool_ok [OF s(4)] by (simp add: frame_def)
  have "0 \<noteq> os_freeF ?s" using inv_still [OF reachable_sinv [OF r]] by (auto simp: still_ok_def tasks_ok_def)
  moreover have "queue_ok (os_evts ?s) ys [(EVENT_WITH_ORIGIN 0x300 (ucast (tk_tid (task_of s 1))), 5, 0)]" using c(2) by simp
  ultimately show ?thesis
    using event_reaches_subscribers [OF r _ _ p, of ys "EVENT_WITH_ORIGIN 0x300 (ucast (tk_tid (task_of s 1)))" 5 0 "[]" "[]"] r p
    unfolding origin_words(1) t by blast
qed

theorem subscriptions_in_order_witness:
  "\<exists>s d s'. reachable 0 silent s \<and> os_things s d = Some (EvtSub 257 0x300) \<and> osMainDequeueLoop (app_ext 0 silent) [] s = Inr s' \<and>
     subs_after EVT_SUBSCRIBE_TO_EVT (EvtSub 257 0x300) s s'"
proof -
  obtain s where s: "reachable 0 silent s" "eq_head (os_evts s) = None" "eq_cap (os_evts s) = 512" "slabAllocatorGetNumItems (os_slab s) = 64"
    "tk_flags (task_of s 1) = 0" "tk_tid (task_of s 1) = 257" using first_start by blast
  from call_subscribe [OF reachable_sinv [OF s(1)] s(2), of 1 "app_ext 0 silent" "0x300"] s obtain s1 ys act t where
    s1: "call_as (app_ext 0 silent) 1 (Subscribe 0x300) s = Inr s1" "queue_ok (os_evts s1) ys [(t, act, os_freeF s1)]"
      "EVENT_GET_EVENT t = EVT_SUBSCRIBE_TO_EVT" "os_things s1 act = Some (EvtSub 257 0x300)"
    by (auto simp: MAX_TASKS_def)
  have r: "reachable 0 silent s1" using reachable_step [OF s(1), of "[Call 1 (Subscribe 0x300)]" s1] s1(1) by simp
  obtain y where "eq_head (os_evts s1) = Some y" using queue_head [OF s1(2)] by auto
  then obtain s2 where "osMainDequeueLoop (app_ext 0 silent) [] s1 = Inr s2"
    using round_ok [OF app_ext_ok reachable_sinv [OF r], of 0 silent "[]"] by auto
  with subscriptions_in_order [OF r s1(2), of "[]" 0 Retain] s1(3,4) r show ?thesis
    by (auto simp: unless_broken_def)
qed

theorem io_count_of_the_sender_witness:
  "\<exists>s s1 s2. reachable 0 silent s \<and> pool_ok (os_pool s) [2..<MAX_TASKS] [1] \<and>
     call_as (app_ext 0 silent) 1 (Enqueue 0x300 5 0) s = Inr s1 \<and> osMainDequeueLoop (app_ext 0 silent) [] s1 = Inr s2 \<and>
     tk_ioCount (task_of s2 1) = tk_ioCount (task_of s 1) + 1 \<and> tk_ioCount (task_of s2 0) = tk_ioCount (task_of s 0) - 1"
proof -
  obtain s where s: "reachable 0 silent s" "eq_head (os_evts s) = None" "eq_cap (os_evts s) = 512" "pool_ok (os_pool s) [2..<MAX_TASKS] [1]"
    "tk_flags (task_of s 1) = 0" using first_start by blast
  have "EVT_NO_FIRST_USER_EVENT \<le> EVENT_GET_EVENT 0x300"
    by (simp add: EVENT_GET_EVENT_def EVT_MASK_def EVENT_TYPE_BIT_DISCARDABLE_def EVT_NO_FIRST_USER_EVENT_def)
  from io_count_of_the_sender [OF s(1,2), of 1 "0x300" 5 "[]", OF _ _ _ _ this] s show ?thesis by (auto simp: MAX_TASKS_def)
qed


section \<open>The task IDs of a slot\<close>

lemma make_tids:
  assumes "i < MAX_TASKS" and "tk_tid t = tid_of n i"
  shows "(MAKE_NEW_TID i ^^ k) t = t\<lparr>tk_tid := tid_of (n + k) i\<rparr>"
proof (induction k)
  case 0
  then show ?case using assms(2) by simp
next
  case (Suc k)
  have "i < 256" using assms(1) by (simp add: MAX_TASKS_def)
  from MAKE_NEW_TID_of [OF this, of "t\<lparr>tk_tid := tid_of (n + k) i\<rparr>" "n + k"] show ?case using Suc by simp
qed

text \<open>C14. The ID of a task.  Two slots that have been started never have the same ID; a slot's ID is new on each of
  the 255 starts after one, and on the 256th it is the first one again.\<close>

theorem tid_comes_back:
  assumes "i < MAX_TASKS" and "tk_tid t = tid_of (Suc n) i"
  shows "(\<forall>k. 0 < k \<and> k < 256 \<longrightarrow> tk_tid ((MAKE_NEW_TID i ^^ k) t) \<noteq> tk_tid t) \<and> tk_tid ((MAKE_NEW_TID i ^^ 256) t) = tk_tid t \<and>
    (\<forall>m j. j < MAX_TASKS \<and> j \<noteq> i \<longrightarrow> tid_of (Suc m) j \<noteq> tk_tid t)"
proof -
  have i: "i < 256" using assms(1) by (simp add: MAX_TASKS_def)
  have eq: "tid_of (Suc a) i = tid_of (Suc b) i \<longleftrightarrow> Suc a mod 256 = Suc b mod 256" for a b
    using unat_tid_of [OF i, of "Suc a"] unat_tid_of [OF i, of "Suc b"] by (simp only: word_unat_eq_iff) simp
  have "tk_tid ((MAKE_NEW_TID i ^^ k) t) = tk_tid t \<longleftrightarrow> (Suc n + k) mod 256 = Suc n mod 256" for k
    using make_tids [OF assms, of k] eq [of "n + k" n] assms(2) by simp
  moreover have "(Suc n + k) mod 256 = Suc n mod 256 \<longleftrightarrow> 256 dvd k" for k :: nat
    using mod_eq_dvd_iff_nat [of "Suc n" "Suc n + k" 256] by simp
  moreover have "tid_of (Suc m) j \<noteq> tid_of (Suc n) i" if "j < MAX_TASKS" "j \<noteq> i" for m j
  proof
    have j: "j < 256" using that(1) by (simp add: MAX_TASKS_def)
    assume "tid_of (Suc m) j = tid_of (Suc n) i"
    then have "256 * (Suc m mod 256) + j = 256 * (Suc n mod 256) + i"
      using unat_tid_of [OF i, of "Suc n"] unat_tid_of [OF j, of "Suc m"] by simp
    then have "(256 * (Suc m mod 256) + j) mod 256 = (256 * (Suc n mod 256) + i) mod 256" by simp
    then show False using i j that(2) by (simp only: mod_mult_self4 mod_less)
  qed
  ultimately show ?thesis using assms(2) by (auto dest: dvd_imp_le)
qed

theorem tid_comes_back_witness:
  "tk_tid ((MAKE_NEW_TID 1 ^^ 255) (task_zero\<lparr>tk_tid := 257\<rparr>)) \<noteq> 257 \<and> tk_tid ((MAKE_NEW_TID 1 ^^ 256) (task_zero\<lparr>tk_tid := 257\<rparr>)) = 257"
proof -
  have "1 < MAX_TASKS" "tk_tid (task_zero\<lparr>tk_tid := 257\<rparr>) = tid_of (Suc 0) 1" by (simp_all add: MAX_TASKS_def tid_of_def)
  from tid_comes_back [OF this] have "\<forall>k. 0 < k \<and> k < 256 \<longrightarrow> tk_tid ((MAKE_NEW_TID 1 ^^ k) (task_zero\<lparr>tk_tid := 257\<rparr>)) \<noteq> 257"
    "tk_tid ((MAKE_NEW_TID 1 ^^ 256) (task_zero\<lparr>tk_tid := 257\<rparr>)) = 257" by (simp_all del: funpow.simps)
  then show ?thesis using spec [of _ "255 :: nat"] by (simp del: funpow.simps)
qed

end
