(* ===== verification/Spec2Isabelle.thy ===== *)
theory Spec2Isabelle
  imports Mux_LineProps Mux_Threads Audio_Ringbuf Sim_Response At_Command At_Select Hub_SimpleQ Hub_SchedProps
begin

text \<open>
  Verification of the C code at the core of MediaTek's proprietary hardware tree.

  \<^bold>\<open>The program.\<close>  All traffic between the radio interface layer and the modem goes over one serial
  line.  \<open>src/gsm0710muxd\<close> is the daemon that multiplexes it (GSM 07.10): for each logical channel
  it offers a pseudo terminal; what an application writes there becomes frames on the line, and the
  frames of the modem become octets on a terminal.  The radio interface layer (\<open>src/ril\<close>) writes AT
  commands to these terminals and parses the answers, among them the file control parameters of the
  SIM card.  Next to it stands the audio subsystem (\<open>src/audio\<close>), whose speech and record paths
  exchange octets with the modem through ring buffers.  The context hub (\<open>src/contexthub/firmware\<close>)
  is a microcontroller that serves the sensors; its small kernel has a heap, pools of equal items, and
  a scheduler that hands the events of a queue to the tasks that have subscribed to them.

  \<^bold>\<open>Shared theories.\<close>
  \<^item> \<open>Hw_Prelude\<close>: machine integers, results with the ways a C program fails (an error is \<open>Inl\<close>),
    \<open>bindE\<close>, block copies and circular arrays.
  \<^item> \<open>Byte_Queue\<close>: the contract of a bounded queue of octets, a locale, with what follows from it for
    any sequence of operations; \<open>Mux_Buffer\<close> and \<open>Audio_Ringbuf\<close> interpret it.

  \<^bold>\<open>The multiplexer\<close>, \<open>gsm0710muxd.c\<close>, \<open>gsm0710muxd.h\<close> and \<open>gsm0710muxd_fc.c\<close>:
  \<^item> \<open>Mux_Types\<close>: the constants, the product configuration and the channel table \<open>ch_cfg\<close>.
  \<^item> \<open>Mux_Crc\<close>: table and loop of \<open>frame_calc_crc\<close>, shown equal to the polynomial division bit by bit.
  \<^item> \<open>Mux_Buffer\<close>: \<open>GSM0710_Buffer\<close> with \<open>gsm0710_buffer_write\<close> and the macros of the header.
  \<^item> \<open>Mux_RxBasic\<close>, \<open>Mux_RxAdv\<close>: \<open>gsm0710_base_buffer_get_frame\<close> and
    \<open>gsm0710_advanced_buffer_get_frame\<close> on the circular array, and their refinement of functions on
    the list of octets held.
  \<^item> \<open>Mux_World\<close>: the global state of the daemon and its system calls; \<open>Mux_Tx\<close>: \<open>write_frame\<close>,
    \<open>handle_channel_data\<close> and what they use.
  \<^item> \<open>Mux_Framing\<close>: the two frame formats as encodings (the locale \<open>frame_codec\<close>); \<open>Mux_RxProps\<close>: what
    the receiver guarantees about any stream; \<open>Mux_LineProps\<close>: transmitter and receiver together.
  \<^item> \<open>Mux_FrameList\<close>, \<open>Mux_Flow\<close>: the list of frames that wait for a terminal, on an explicit heap (the
    locale \<open>frame_fifo\<close>), and the flow control around it.
  \<^item> \<open>Mux_Channel\<close>: initialisation, establishment and closing of a logical channel; \<open>Mux_Control\<close>:
    \<open>handle_command\<close> and the thread that answers; \<open>Mux_Serial\<close>: opening and closing the device, the
    AT dialogue, signals; \<open>Mux_Watchdog\<close>: the state machine \<open>watchdog\<close>.
  \<^item> \<open>Mux_Retry\<close>: delivery to a terminal by two threads, the loop of \<open>extract_frames\<close> and
    \<open>retry_write_pty_thread\<close>, as a step relation \<open>pty_step\<close> over their critical sections;
    \<open>Mux_Extract\<close>: the rest of \<open>extract_frames\<close>; \<open>Mux_Threads\<close>: a round of each thread, and \<open>main\<close>.

  \<^bold>\<open>The audio ring buffer\<close>, \<open>audio/common/utility/audio_ringbuf.c\<close>: \<open>Audio_Ringbuf\<close>.

  \<^bold>\<open>The SIM side of the radio interface layer\<close>, \<open>ril/gsm/mtk-ril\<close>:
  \<^item> \<open>Sim_Fcp\<close>: \<open>usim_fcp_parser.c\<close>, and the search and descriptor query of the fusion variant; the locale
    \<open>tlv_search\<close> states what a search promises of one object, and is interpreted for the three
    search functions.
  \<^item> \<open>At_Tok\<close>: \<open>at_tok.c\<close>.
  \<^item> \<open>Sim_Response\<close>: the hexadecimal strings and the functions of \<open>ril_sim.c\<close> that join the two.

  \<^bold>\<open>The AT channels of the radio interface layer\<close>, \<open>ril/gsm/mtk-ril/atchannels.c\<close>:
  \<^item> \<open>At_Channel\<close>: the channel (\<open>RILChannelCtx\<close>), the kinds of lines, writing, \<open>processLine\<close>, opening and
    closing; \<open>At_Select\<close>: which channel a SIM, a subsystem or a proxy thread uses.
  \<^item> \<open>At_Reader\<close>: \<open>readline\<close> on the character array, its refinement of a function on the characters held,
    and \<open>readerLoop\<close>.
  \<^item> \<open>At_Command\<close>: \<open>at_send_command_full_nolock_ack\<close> and the functions built on it.  The thread that waits
    and the reader meet in a schedule, a list of waits with the events that come before each wake-up.

  \<^bold>\<open>The kernel of the context hub\<close>, \<open>contexthub/firmware/src\<close>:
  \<^item> \<open>Hub_Alloc\<close>: the contract of an allocator, a locale, with what follows for any sequence of requests;
    \<open>Hub_Heap\<close> and \<open>Hub_Slab\<close> interpret it.
  \<^item> \<open>Hub_Heap\<close>: \<open>heap.c\<close>.  The headers are a map from addresses; \<open>heap_ok\<close> says that they are the layout of
    a list of chunks, and every operation is shown to be an operation on that list.
  \<^item> \<open>Hub_Slab\<close>: \<open>slab.c\<close> and the bit set of \<open>cpu/cortexm4f/atomicBitset.c\<close>, as a set of indices; a slab lies in
    a block of the heap.
  \<^item> \<open>Hub_EvtQ\<close>: \<open>eventQ.c\<close>, a doubly linked list whose records are items of a slab, and its refinement of a
    list with room for so many events.
  \<^item> \<open>Hub_Links\<close>: linked lists by index; \<open>Hub_SimpleQ\<close>: \<open>simpleQ.c\<close>, a queue of byte records in one block, and
    its refinement of a list.
  \<^item> \<open>Hub_Tasks\<close>: the pool of tasks of \<open>seos.c\<close> with the lists of free and of running tasks, the task IDs and the
    searches by ID; \<open>Hub_Sched\<close>: the scheduler of \<open>seos.c\<close>, its calls and its main loop.  The items of its
    slab (\<open>union InternalThing\<close>) are a map from addresses.  What runs outside (applications, drivers,
    callbacks, the platform) is the parameter \<open>ext\<close>, a function of the call and the state.
  \<^item> \<open>Hub_SchedInv\<close>: the invariant \<open>sinv\<close> and that the calls keep it; \<open>Hub_SchedRun\<close>: applications as programs
    of the calls, and the rules of these; \<open>Hub_SchedSubs\<close>: the subscriptions;
    \<open>Hub_SchedMain\<close>: a round of the main loop; \<open>Hub_SchedStart\<close>: starting an application;
    \<open>Hub_SchedReach\<close>: the boot and the states of its runs; \<open>Hub_SchedRules\<close>: runs in which every call is
    made, with a monitor for the rules; \<open>Hub_SchedProps\<close>: the properties.

  \<^bold>\<open>State and operations.\<close>  A C structure is a record with the fields of the source, an array in memory
  a list of octets, a pointer into it an index, heap nodes a map from addresses.  The daemon's
  globals are the record \<open>mux\<close>; a function that changes them takes it and returns it.  The kernel is
  a script: the results of the next system calls, in order, with the writes collected in order; the
  theorems hold for every script their hypotheses allow.  An operation has the type \<open>\<dots> res\<close>; \<open>Inl\<close>
  tells how it does not come back: an assertion, an exit, an access outside an object or to freed
  memory, a wait that never ends.  Reading or writing outside an array is always checked, so a
  theorem that ends in \<open>Inr\<close> also says that memory is respected.

  \<^bold>\<open>What the lemmas show.\<close>  Per component: the invariant of its data and that the operations keep it; the
  effect of each operation on the abstract view (octets held, frames waiting, value found).  Across
  components: the receiver refines a function on octet lists and inverts the transmitter in both
  framing modes, for every way the stream is cut into reads (but it refuses the transmitter's UI frames
  with a payload that changes the check sequence, pings among them); damaged frames are skipped, three in a
  row end the daemon; under every interleaving of the two delivering threads a terminal gets a
  prefix of the accepted payloads, and all of them once the kernel takes them; channels open, close
  and reopen as the frames of the modem say; octets written on one daemon reach the terminal of
  another; a ring buffer is a queue; a well formed card answer is parsed to its fields; as long as
  no caller breaks a rule of the hub's scheduler, it does not fault and loses no item of its slab, and an
  event reaches exactly the tasks that have subscribed; and where the code fails, the exact inputs on which
  it does.

  \<^bold>\<open>Loops, fuel and bounds.\<close>  Most loops are structural or have a measure.  \<open>deliver_loop\<close> has as fuel one
  more than the scripted results of \<open>write\<close>, as each round takes one; \<open>extract_loop\<close> one more than
  the octets in the receive buffer, as each frame takes at least one; both are shown not to run out
  where a theorem says that they return.  The loops over the heap have as fuel its size, those over the
  event queue one more than the items of its slab: each round takes one header or one record, and the
  theorems show that this is enough.  The loops over the tasks have one round more than there are slots, those
  over the simple queue one more than its entries.  The heap is smaller than \<open>2 ^ 21\<close> octets, as its header has that
  many bits for a size.  The tag search of \<open>Sim_Fcp\<close> may loop for ever; it is a
  partial function, and \<open>fcp_search_hangs\<close> shows when it does.  Octets, lengths and flags have the
  width of the source (\<open>8\<close>, \<open>16\<close>, \<open>32\<close> bits); indices that the source keeps far from the limits of
  \<open>int\<close> are \<open>nat\<close>, and counts that may be negative \<open>int\<close>.  The ring buffer is smaller than \<open>2 ^ 31\<close>
  octets.

  \<^bold>\<open>The build.\<close>  \<open>MUX_ANDROID\<close>, \<open>__CCMNI_SUPPORT__\<close> and \<open>__MUXD_FLOWCONTROL__\<close> are defined, test code
  (\<open>__MUX_UT__\<close>, \<open>__MUX_IT__\<close>), \<open>REVERSE_MTK_CHANGE\<close> and \<open>PURE_AP\<close> are not; the number of channels, the
  number of SIM cards and the other product options are the parameter \<open>build_cfg\<close>.
  \<open>Gsm0710Muxd_Assert\<close> and \<open>assert\<close> end the process; \<open>AUD_ASSERT\<close> only reports.

  \<^bold>\<open>Concurrency.\<close>  Mutexes are left out of the sequential operations: each is a critical section of
  the source.  Where two threads meet (a terminal and its retry thread), their steps interleave
  freely.  Condition variables count their signals; a wait for another thread takes that thread's
  step as an argument.  On the context hub an interrupt shows only as a lock that somebody holds and as
  events enqueued while the queue sleeps.  In the runs of the scheduler nothing happens while it sleeps, and
  no task ends; the calls may come from any task at any place where code outside runs.  The code checks none of the rules that its calls rely on (\<open>allowed\<close>: no
  reserved event types, no function of the scheduler given for freeing, no private event to a slot without an
  application, no \<open>osRetainCurrentEvent\<close> of the scheduler's own event).  The runs \<open>sched_run\<close> leave a call out
  that breaks one; \<open>real_run\<close> makes every call, and \<open>real_run_filtered\<close> shows that the two are the same until a
  rule is broken; \<open>retain_in_deferred_call\<close> shows one that the code cannot do without.  The operations that
  end a task (\<open>osStopTask\<close>, \<open>osTaskEnd\<close>) are modelled and are not part of these runs.

  \<^bold>\<open>Not modelled.\<close>  Logging, \<open>usage\<close>, the choice of the device node by system properties; the test code;
  of the context hub the timers, the sensor registry, the host interface, the flash segments of external
  applications and the drivers; and the rest of the tree, which is hardware access through \<open>ioctl\<close> and \<open>sysfs\<close>, glue around
  services whose code is not in the tree, C++ around binaries, vendored firmware, and AT command
  plumbing.
\<close>

end
